(* ===== verification/Prelude.thy ===== *)
theory Prelude
  imports
    Main
    "HOL-Library.Word"
    "HOL-Library.Char_ord"
    "HOL-Library.List_Lexorder"
    "HOL-Library.Product_Lexorder"
begin

text \<open>
  Shared vocabulary of the development. The C++ sources report every failure by throwing an
  exception; here a fallible function returns a sum, \<open>Inl e\<close> for a thrown exception \<open>e\<close> and
  \<open>Inr x\<close> for a normal return. The theory fixes the exception type, the sequencing of fallible
  steps (with the rewrite rules that let \<open>simp\<close> follow a run), machine integers and byte
  strings, and the lemmas on lists and words that several components share.
\<close>

unbundle bit_operations_syntax

named_theorems run_simps \<open>closed forms of fallible steps, used to follow a run forwards\<close>
named_theorems len_simps \<open>lengths of encodings\<close>

section \<open>Machine integers and byte strings\<close>

type_synonym u8 = "8 word"
type_synonym u16 = "16 word"
type_synonym u32 = "32 word"
type_synonym u64 = "64 word"
type_synonym bytes = "u8 list"

text \<open>A \<open>std::string\<close> is a byte string; its characters are read back from bytes unchanged.\<close>

definition byte_of_char :: "char \<Rightarrow> u8" where
  "byte_of_char c = word_of_nat (of_char c)"

definition char_of_byte :: "u8 \<Rightarrow> char" where
  "char_of_byte b = char_of (unat b)"

lemma char_of_byte_of_char [simp]: "char_of_byte (byte_of_char c) = c"
proof -
  have "(of_char c :: nat) < 2 ^ 8" using nat_of_char_less_256 [of c] by simp
  then have "unat (byte_of_char c) = of_char c"
    by (simp add: byte_of_char_def unat_of_nat take_bit_nat_eq_self)
  then show ?thesis by (simp add: char_of_byte_def)
qed

lemma byte_of_char_of_byte [simp]: "byte_of_char (char_of_byte b) = b"
proof -
  have "unat b < 256" using unsigned_less [of b, where ?'a = nat] by simp
  then show ?thesis
    by (simp add: byte_of_char_def char_of_byte_def)
qed

lemma map_char_of_byte_inverse [simp]: "map char_of_byte (map byte_of_char s) = s"
  by (simp add: comp_def)

lemma map_byte_of_char_inverse [simp]: "map byte_of_char (map char_of_byte bs) = bs"
  by (simp add: comp_def)

text \<open>\<open>std::to_string\<close> on an unsigned value.\<close>

fun to_string :: "nat \<Rightarrow> string" where
  "to_string n =
     (if n < 10 then [char_of (48 + n)] else to_string (n div 10) @ [char_of (48 + n mod 10)])"

declare to_string.simps [simp del]

section \<open>Exceptions\<close>

text \<open>
  The exception classes the sources throw. \<open>Corruption_Error\<close> is
  \<open>storage_v2::CorruptionError\<close>, \<open>Bad_Alloc\<close> is \<open>std::bad_alloc\<close> with the text the GNU library gives it;
  the others are the classes of \<open><stdexcept>\<close>.
\<close>

datatype error =
    Corruption_Error string
  | Invalid_Argument string
  | Length_Error string
  | Logic_Error string
  | Runtime_Error string
  | Out_Of_Range string
  | Overflow_Error string
  | Bad_Alloc

definition corruption :: "string \<Rightarrow> error" where
  "corruption msg = Corruption_Error (''Storage corruption: '' @ msg)"

fun is_corruption :: "error \<Rightarrow> bool" where
  "is_corruption (Corruption_Error _) = True"
| "is_corruption _ = False"

lemma is_corruption_corruption [simp]: "is_corruption (corruption msg)"
  by (simp add: corruption_def)

text \<open>The text that \<open>what()\<close> returns.\<close>

fun what :: "error \<Rightarrow> string" where
  "what (Corruption_Error s) = s"
| "what (Invalid_Argument s) = s"
| "what (Length_Error s) = s"
| "what (Logic_Error s) = s"
| "what (Runtime_Error s) = s"
| "what (Out_Of_Range s) = s"
| "what (Overflow_Error s) = s"
| "what Bad_Alloc = ''std::bad_alloc''"

type_synonym 'a res = "error + 'a"

section \<open>Sequencing\<close>

text \<open>\<open>bindE m f\<close> runs \<open>m\<close> and, when it returns normally, continues with \<open>f\<close>.\<close>

definition bindE :: "'e + 'a \<Rightarrow> ('a \<Rightarrow> 'e + 'b) \<Rightarrow> 'e + 'b" where
  "bindE m f = (case m of Inl e \<Rightarrow> Inl e | Inr x \<Rightarrow> f x)"

text \<open>\<open>if (bad) throw e;\<close>\<close>

definition throw_if :: "bool \<Rightarrow> 'e \<Rightarrow> 'e + unit" where
  "throw_if bad e = (if bad then Inl e else Inr ())"

text \<open>A \<open>for\<close> loop over a list whose body may throw.\<close>

fun foldE :: "('s \<Rightarrow> 'a \<Rightarrow> 'e + 's) \<Rightarrow> 's \<Rightarrow> 'a list \<Rightarrow> 'e + 's" where
  "foldE f s [] = Inr s"
| "foldE f s (x # xs) = bindE (f s x) (\<lambda>s'. foldE f s' xs)"

lemma bindE_cong [fundef_cong]:
  "m = m' \<Longrightarrow> (\<And>x. m' = Inr x \<Longrightarrow> f x = g x) \<Longrightarrow> bindE m f = bindE m' g"
  by (auto simp: bindE_def split: sum.split)

lemma bindE_Inl [simp]: "bindE (Inl e) f = Inl e"
  by (simp add: bindE_def)

lemma bindE_Inr [simp]: "bindE (Inr x) f = f x"
  by (simp add: bindE_def)

lemma bindE_eq_Inr: "bindE m f = Inr y \<longleftrightarrow> (\<exists>x. m = Inr x \<and> f x = Inr y)"
  by (cases m) auto

lemma bindE_eq_Inl: "bindE m f = Inl e \<longleftrightarrow> m = Inl e \<or> (\<exists>x. m = Inr x \<and> f x = Inl e)"
  by (cases m) auto

lemma throw_if_True [simp]: "throw_if True e = Inl e"
  by (simp add: throw_if_def)

lemma throw_if_False [simp]: "throw_if False e = Inr ()"
  by (simp add: throw_if_def)

lemma throw_if_eq_Inr: "throw_if b e = Inr u \<longleftrightarrow> \<not> b"
  by (simp add: throw_if_def)

lemma throw_if_eq_Inl: "throw_if b e = Inl e' \<longleftrightarrow> b \<and> e' = e"
  by (auto simp: throw_if_def)

lemmas run_inv = bindE_eq_Inr throw_if_eq_Inr
lemmas run_err = bindE_eq_Inl throw_if_eq_Inl

lemma foldE_append: "foldE f s (xs @ ys) = bindE (foldE f s xs) (\<lambda>t. foldE f t ys)"
  by (induction xs arbitrary: s) (auto simp: bindE_def split: sum.split)

text \<open>A loop that appends the result of each round to its output.\<close>

lemma foldE_collect:
  "foldE (\<lambda>out i. bindE (f i) (\<lambda>x. Inr (out @ [x]))) out is = Inr ys \<longleftrightarrow>
   (\<exists>xs. ys = out @ xs \<and> list_all2 (\<lambda>i x. f i = Inr x) is xs)"
proof (induction "is" arbitrary: out)
  case (Cons i "is")
  have "foldE (\<lambda>out i. bindE (f i) (\<lambda>x. Inr (out @ [x]))) out (i # is) = Inr ys \<longleftrightarrow>
      (\<exists>x xs. f i = Inr x \<and> ys = out @ x # xs \<and> list_all2 (\<lambda>i x. f i = Inr x) is xs)"
    by (auto simp: bindE_eq_Inr Cons.IH)
  then show ?case by (auto simp: list_all2_Cons1)
qed auto

lemma foldE_collect_upt:
  "foldE (\<lambda>out i. bindE (f i) (\<lambda>x. Inr (out @ [x]))) out [0..<n] = Inr ys \<longleftrightarrow>
   (\<exists>xs. ys = out @ xs \<and> length xs = n \<and> (\<forall>i < n. f i = Inr (xs ! i)))"
  by (auto simp: foldE_collect list_all2_conv_all_nth)

text \<open>A fallible computation throws nothing but corruption errors.\<close>

definition corruption_only :: "'a res \<Rightarrow> bool" where
  "corruption_only m \<longleftrightarrow> (\<forall>e. m = Inl e \<longrightarrow> is_corruption e)"

named_theorems corr_intros \<open>computations that throw corruption errors only\<close>

lemma corruption_only_Inr [corr_intros, simp]: "corruption_only (Inr x)"
  by (simp add: corruption_only_def)

lemma corruption_only_Inl [simp]: "corruption_only (Inl e) \<longleftrightarrow> is_corruption e"
  by (simp add: corruption_only_def)

lemma corruption_only_bindE [corr_intros]:
  "corruption_only m \<Longrightarrow> (\<And>x. m = Inr x \<Longrightarrow> corruption_only (f x)) \<Longrightarrow> corruption_only (bindE m f)"
  by (cases m) auto

lemma corruption_only_throw_if [corr_intros]:
  "is_corruption e \<Longrightarrow> corruption_only (throw_if b e)"
  by (auto simp: corruption_only_def throw_if_eq_Inl)

lemma corruption_only_if [corr_intros]:
  "(b \<Longrightarrow> corruption_only m) \<Longrightarrow> (\<not> b \<Longrightarrow> corruption_only m') \<Longrightarrow>
   corruption_only (if b then m else m')"
  by simp

section \<open>Computations that may not return\<close>

text \<open>
  A recursion that the code leaves unguarded is a value of type \<open>'a attempt\<close>: \<open>None\<close> when it does not
  return, \<open>Some r\<close> when it ends with \<open>r\<close>.
\<close>

type_synonym 'a attempt = "'a res option"

definition bindP :: "('e + 'a) option \<Rightarrow> ('a \<Rightarrow> ('e + 'b) option) \<Rightarrow> ('e + 'b) option" where
  "bindP m f = Option.bind m (\<lambda>r. case r of Inl e \<Rightarrow> Some (Inl e) | Inr x \<Rightarrow> f x)"

lemma bindP_simps [simp]:
  "bindP None f = None" "bindP (Some (Inl e)) f = Some (Inl e)" "bindP (Some (Inr x)) f = f x"
  by (simp_all add: bindP_def)

lemma bindP_eq_Inr: "bindP m f = Some (Inr y) \<longleftrightarrow> (\<exists>x. m = Some (Inr x) \<and> f x = Some (Inr y))"
  by (cases m; cases "the m") auto

lemma bindP_mono [partial_function_mono]:
  assumes "mono_option B" and "\<And>x. mono_option (\<lambda>f. C x f)"
  shows "mono_option (\<lambda>f. bindP (B f :: ('e + 'b) option) (\<lambda>x. C x f :: ('e + 'c) option))"
  unfolding bindP_def
proof (rule bind_mono [OF assms(1)])
  fix r :: "'e + 'b"
  show "mono_option (\<lambda>f. case r of Inl e \<Rightarrow> Some (Inl e) | Inr x \<Rightarrow> C x f)"
    by (cases r) (auto intro: assms(2) partial_function_mono)
qed

section \<open>Lists\<close>

text \<open>\<open>vector::insert\<close> before position \<open>i\<close>.\<close>

definition insert_at :: "nat \<Rightarrow> 'a \<Rightarrow> 'a list \<Rightarrow> 'a list" where
  "insert_at i x xs = take i xs @ x # drop i xs"

text \<open>
  \<open>std::lower_bound\<close> and \<open>std::upper_bound\<close> on a sorted range: the length of the part below the value,
  and of the part not above it.
\<close>

definition lower_bound :: "'a::linorder list \<Rightarrow> 'a \<Rightarrow> nat" where
  "lower_bound xs x = length (takeWhile (\<lambda>y. y < x) xs)"

definition upper_bound :: "'a::linorder list \<Rightarrow> 'a \<Rightarrow> nat" where
  "upper_bound xs x = length (takeWhile (\<lambda>y. \<not> x < y) xs)"

text \<open>Overwriting a slice in place: \<open>std::copy\<close> into a buffer at an offset.\<close>

definition overwrite :: "nat \<Rightarrow> 'a list \<Rightarrow> 'a list \<Rightarrow> 'a list" where
  "overwrite off ys xs = take off xs @ ys @ drop (off + length ys) xs"

lemma length_overwrite [len_simps]:
  "off + length ys \<le> length xs \<Longrightarrow> length (overwrite off ys xs) = length xs"
  by (simp add: overwrite_def)

lemma nth_overwrite:
  "off + length ys \<le> length xs \<Longrightarrow> i < length xs \<Longrightarrow>
   overwrite off ys xs ! i =
     (if off \<le> i \<and> i < off + length ys then ys ! (i - off) else xs ! i)"
  by (auto simp: overwrite_def nth_append min_def)

lemma take_overwrite_before:
  "n \<le> off \<Longrightarrow> off \<le> length xs \<Longrightarrow> take n (overwrite off ys xs) = take n xs"
  by (simp add: overwrite_def min_def)

lemma drop_overwrite_after:
  "off + length ys \<le> n \<Longrightarrow> off + length ys \<le> length xs \<Longrightarrow>
   drop n (overwrite off ys xs) = drop n xs"
  by (simp add: overwrite_def)

lemma slice_overwrite:
  "off + length ys \<le> length xs \<Longrightarrow> take (length ys) (drop off (overwrite off ys xs)) = ys"
  by (simp add: overwrite_def)

lemma overwrite_self:
  "off + n \<le> length xs \<Longrightarrow> overwrite off (take n (drop off xs)) xs = xs"
  by (simp add: overwrite_def) (metis append_take_drop_id add.commute drop_drop)

lemma overwrite_append_right:
  "off = length xs \<Longrightarrow> length ys = length zs \<Longrightarrow> overwrite off ys (xs @ zs @ ws) = xs @ ys @ ws"
  by (simp add: overwrite_def)

lemma list_update_eq_split:
  "i < length xs \<Longrightarrow> xs[i := y] = take i xs @ y # drop (Suc i) xs"
  by (rule upd_conv_take_nth_drop)

lemma concat_eq_length:
  "(\<And>x. x \<in> set xss \<Longrightarrow> length x = n) \<Longrightarrow> length (concat xss) = n * length xss"
  by (induction xss) auto

lemma nth_block_concat:
  "(\<And>x. x \<in> set xss \<Longrightarrow> length x = n) \<Longrightarrow> k < length xss \<Longrightarrow>
   take n (drop (k * n) (concat xss)) = xss ! k"
proof (induction xss arbitrary: k)
  case Nil
  then show ?case by simp
next
  case (Cons x xss)
  then show ?case by (cases k) (auto simp: add.commute)
qed

end
