(* ===== verification/Tokenizer.thy ===== *)
theory Tokenizer
  imports Prelude
begin

text \<open>
  The tokenizer of the SQL front end: the transition table helpers of \<open>state_machine_functions.cpp\<close>,
  \<open>STokenizer\<close> of \<open>stokenize.cpp\<close> and \<open>FTokenizer\<close> of \<open>ftokenize.cpp\<close>. The lemmas give the table in
  closed form and show that tokenizing always advances, loses no character, and that a token's kind
  is determined by its first character.
\<close>

section \<open>Transition tables\<close>

text \<open>An \<open>int[MAX_ROWS][MAX_COLUMNS]\<close> array: state (row), character code (column).\<close>

type_synonym state_table = "nat \<Rightarrow> nat \<Rightarrow> int"

definition init_table :: state_table where
  "init_table = (\<lambda>row column. - 1)"

definition mark_cell :: "nat \<Rightarrow> state_table \<Rightarrow> nat \<Rightarrow> int \<Rightarrow> state_table" where
  "mark_cell row table column state = table(row := (table row)(column := state))"

definition mark_success :: "state_table \<Rightarrow> nat \<Rightarrow> state_table" where
  "mark_success table state = mark_cell state table 0 1"

definition mark_fail :: "state_table \<Rightarrow> nat \<Rightarrow> state_table" where
  "mark_fail table state = mark_cell state table 0 0"

definition is_success :: "state_table \<Rightarrow> nat \<Rightarrow> bool" where
  "is_success table state \<longleftrightarrow> table state 0 = 1"

definition mark_cells :: "nat \<Rightarrow> state_table \<Rightarrow> string \<Rightarrow> int \<Rightarrow> state_table" where
  "mark_cells row table columns state =
     foldl (\<lambda>table c. mark_cell row table (of_char c) state) table columns"

definition mark_range :: "nat \<Rightarrow> state_table \<Rightarrow> nat \<Rightarrow> nat \<Rightarrow> int \<Rightarrow> state_table" where
  "mark_range row table from_col to_col state =
     foldl (\<lambda>table i. mark_cell row table i state) table [from_col..<Suc to_col]"

lemma mark_cells_apply [simp]:
  "mark_cells row table columns state i j =
   (if i = row \<and> j \<in> of_char ` set columns then state else table i j)"
proof -
  have "foldl (\<lambda>table c. mark_cell row table (of_char c) state) table columns i j =
      (if i = row \<and> j \<in> of_char ` set columns then state else table i j)"
    by (induction columns arbitrary: table) (auto simp: mark_cell_def)
  then show ?thesis by (simp add: mark_cells_def)
qed

lemma mark_cell_apply [simp]:
  "mark_cell row table column state i j = (if i = row \<and> j = column then state else table i j)"
  by (simp add: mark_cell_def)

section \<open>Tokens\<close>

datatype token_kind =
    TOKEN_NUMBER | TOKEN_ALPHA | TOKEN_SPACE | TOKEN_OPERATOR | TOKEN_COMMA | TOKEN_PAREN
  | TOKEN_STAR | TOKEN_QUOTE | TOKEN_UNKNOWN

record stoken =
  st_text :: string
  st_kind :: token_kind

definition SToken :: "string \<Rightarrow> token_kind \<Rightarrow> stoken" where
  "SToken s k = \<lparr>st_text = s, st_kind = k\<rparr>"

definition empty_stoken :: stoken where
  "empty_stoken = SToken [] TOKEN_UNKNOWN"

definition ALPHAS :: string where
  "ALPHAS = ''abcdefghijklmnopqrstuvwxyzABCDEFGHIJKLMNOPQRSTUVWXYZ_0123456789''"
definition DIGITS :: string where "DIGITS = ''0123456789''"
definition OPERATORS :: string where "OPERATORS = ''><=!''"
definition SPACES :: string where "SPACES = [CHR '' '', CHR 0x09, CHR 0x0A]"
definition PAREN :: string where "PAREN = ''()''"
definition STAR :: string where "STAR = ''*''"
definition COMMA :: string where "COMMA = '',''"

section \<open>The string tokenizer\<close>

definition token_table :: state_table where
  "token_table =
     (let t = init_table;
          t = mark_fail t 0;
          t = foldl mark_success t [1..<8];
          t = mark_cells 0 t ALPHAS 1;
          t = mark_cells 0 t DIGITS 2;
          t = mark_cells 0 t OPERATORS 3;
          t = mark_cells 0 t COMMA 4;
          t = mark_cells 0 t SPACES 5;
          t = mark_cells 0 t PAREN 6;
          t = mark_cells 0 t STAR 7;
          t = mark_cells 1 t ALPHAS 1;
          t = mark_cells 2 t DIGITS 2
      in mark_cells 3 t OPERATORS 3)"

record tokenizer =
  tk_buffer :: string
  tk_pos :: nat

text \<open>The buffer is assigned from a C string, which ends at the first NUL.\<close>

definition c_str :: "string \<Rightarrow> string" where
  "c_str s = takeWhile (\<lambda>c. c \<noteq> CHR 0x00) s"

definition set_string :: "string \<Rightarrow> tokenizer" where
  "set_string s = \<lparr>tk_buffer = c_str s, tk_pos = 0\<rparr>"

definition tk_done :: "tokenizer \<Rightarrow> bool" where
  "tk_done s \<longleftrightarrow> tk_pos s \<ge> length (tk_buffer s)"

definition tk_more :: "tokenizer \<Rightarrow> bool" where
  "tk_more s \<longleftrightarrow> \<not> tk_done s"

definition token_type :: "int \<Rightarrow> token_kind" where
  "token_type state =
     (if state = 1 then TOKEN_ALPHA else if state = 2 then TOKEN_NUMBER
      else if state = 3 then TOKEN_OPERATOR else if state = 4 then TOKEN_COMMA
      else if state = 5 then TOKEN_SPACE else if state = 6 then TOKEN_PAREN
      else if state = 7 then TOKEN_STAR else TOKEN_UNKNOWN)"

text \<open>\<open>_buffer[i]\<close>; the terminator of a \<open>std::string\<close> is readable at its length.\<close>

definition char_code :: "string \<Rightarrow> nat \<Rightarrow> nat" where
  "char_code buf i = (if i < length buf then of_char (buf ! i) else 0)"

text \<open>The inner loop that follows a decimal point.\<close>

function fraction_end :: "string \<Rightarrow> nat \<Rightarrow> nat \<Rightarrow> nat" where
  "fraction_end buf start next_token =
     (if start < length buf then
        if token_table 2 next_token \<noteq> 2 then start
        else fraction_end buf (Suc start) (char_code buf (Suc start))
      else start)"
  by pat_completeness auto
termination by (relation "measure (\<lambda>(buf, start, next_token). length buf - start)") auto

declare fraction_end.simps [simp del]

text \<open>The main loop: where the token that began in \<open>state\<close> ends.\<close>

function token_end :: "int \<Rightarrow> string \<Rightarrow> nat \<Rightarrow> nat" where
  "token_end state buf start =
     (if start < length buf then
        let t = char_code buf start; next_state = token_table (nat state) t in
        if state = 1 then (if next_state = 1 then token_end state buf (Suc start) else start)
        else if state = 2 then
          (if next_state = 2 then token_end state buf (Suc start)
           else if t = of_char (CHR ''.'') \<and> start + 1 < length buf
           then fraction_end buf start (char_code buf (start + 1))
           else start)
        else if state = 3 then (if next_state = 3 then token_end state buf (Suc start) else start)
        else if state = 4 then (if next_state = 4 then token_end state buf (Suc start) else start)
        else start
      else start)"
  by pat_completeness auto
termination by (relation "measure (\<lambda>(state, buf, start). length buf - start)") auto

declare token_end.simps [simp del]

definition get_token :: "nat \<Rightarrow> tokenizer \<Rightarrow> (stoken \<times> tokenizer) option" where
  "get_token start_state s =
     (if tk_done s then None
      else
        let t = char_code (tk_buffer s) (tk_pos s);
            state = token_table start_state t;
            single = [tk_buffer s ! tk_pos s] in
        if 4 \<le> state \<and> state \<le> 7
        then Some (SToken single (token_type state), s\<lparr>tk_pos := tk_pos s + 1\<rparr>)
        else if state = - 1
        then Some (SToken single TOKEN_UNKNOWN, s\<lparr>tk_pos := tk_pos s + 1\<rparr>)
        else
          let stop = token_end state (tk_buffer s) (tk_pos s + 1) in
          Some (SToken (take (stop - tk_pos s) (drop (tk_pos s) (tk_buffer s))) (token_type state),
                s\<lparr>tk_pos := stop\<rparr>))"

text \<open>\<open>s >> t\<close> leaves the token unchanged at the end of the input.\<close>

definition read_token :: "tokenizer \<Rightarrow> stoken \<Rightarrow> stoken \<times> tokenizer" where
  "read_token s t = (case get_token 0 s of None \<Rightarrow> (t, s) | Some r \<Rightarrow> r)"

section \<open>The table in closed form\<close>

lemma of_char_in_image [simp]: "(of_char c :: nat) \<in> of_char ` set cs \<longleftrightarrow> c \<in> set cs"
  by (auto dest: of_char_eq_iff [THEN iffD1])

lemma foldl_mark_success:
  "foldl mark_success t ns i j = (if j = 0 \<and> i \<in> set ns then 1 else t i j)"
  by (induction ns arbitrary: t) (auto simp: mark_success_def)

lemma of_char_0_iff: "(of_char c :: nat) = 0 \<longleftrightarrow> c = CHR 0x00"
proof -
  have "(of_char c :: nat) = 0 \<longleftrightarrow> (of_char c :: nat) = of_char (CHR 0x00)" by simp
  also have "\<dots> \<longleftrightarrow> c = CHR 0x00" by (rule of_char_eq_iff)
  finally show ?thesis .
qed

lemmas char_classes = ALPHAS_def DIGITS_def OPERATORS_def SPACES_def PAREN_def STAR_def COMMA_def

lemma token_table_start:
  "token_table 0 (of_char c) =
     (if c = CHR 0x00 then 0 else if c \<in> set STAR then 7 else if c \<in> set PAREN then 6
      else if c \<in> set SPACES then 5 else if c \<in> set COMMA then 4 else if c \<in> set OPERATORS then 3
      else if c \<in> set DIGITS then 2 else if c \<in> set ALPHAS then 1 else - 1)"
  by (simp add: token_table_def Let_def foldl_mark_success mark_fail_def init_table_def of_char_0_iff)
     (simp add: char_classes)

lemma nul_no_class:
  "CHR 0x00 \<notin> set ALPHAS" "CHR 0x00 \<notin> set DIGITS" "CHR 0x00 \<notin> set OPERATORS"
  by (simp_all add: char_classes)

lemma token_table_rows:
  "token_table 1 (of_char c) = 1 \<longleftrightarrow> c = CHR 0x00 \<or> c \<in> set ALPHAS"
  "token_table 2 (of_char c) = 2 \<longleftrightarrow> c \<in> set DIGITS"
  "token_table 3 (of_char c) = 3 \<longleftrightarrow> c \<in> set OPERATORS"
  "token_table 4 (of_char c) \<noteq> 4"
  "token_table 2 0 \<noteq> 2"
  using nul_no_class
  by (auto simp: token_table_def Let_def foldl_mark_success mark_fail_def init_table_def of_char_0_iff)

text \<open>
  The NUL column doubles as the success flag, so state 1 would run over a NUL character; the buffer
  never holds one.
\<close>

section \<open>The tokenizer as a function of the remaining text\<close>

definition prefix_length :: "(char \<Rightarrow> bool) \<Rightarrow> string \<Rightarrow> nat" where
  "prefix_length P cs = length (takeWhile P cs)"

lemma prefix_length_simps [simp]:
  "prefix_length P [] = 0"
  "prefix_length P (c # cs) = (if P c then Suc (prefix_length P cs) else 0)"
  by (simp_all add: prefix_length_def)

lemma prefix_length_le: "prefix_length P cs \<le> length cs"
  by (simp add: prefix_length_def length_takeWhile_le)

lemma drop_step: "i < length xs \<Longrightarrow> drop i xs = xs ! i # drop (Suc i) xs"
  by (rule Cons_nth_drop_Suc [symmetric])

definition fraction_length :: "string \<Rightarrow> nat" where
  "fraction_length cs =
     (case cs of c # d # ds \<Rightarrow>
        if c = CHR ''.'' \<and> d \<in> set DIGITS
        then Suc (Suc (prefix_length (\<lambda>c. c \<in> set DIGITS) ds)) else 0
      | _ \<Rightarrow> 0)"

definition number_length :: "string \<Rightarrow> nat" where
  "number_length cs =
     (let n = prefix_length (\<lambda>c. c \<in> set DIGITS) cs in n + fraction_length (drop n cs))"

lemma number_length_simps [simp]:
  "number_length [] = 0"
  "c \<in> set DIGITS \<Longrightarrow> number_length (c # cs) = Suc (number_length cs)"
  "c \<notin> set DIGITS \<Longrightarrow> number_length (c # cs) = fraction_length (c # cs)"
  by (simp_all add: number_length_def fraction_length_def Let_def)

text \<open>The kind and the length of the token that begins a text.\<close>

definition char_kind :: "char \<Rightarrow> token_kind" where
  "char_kind c =
     (if c \<in> set STAR then TOKEN_STAR else if c \<in> set PAREN then TOKEN_PAREN
      else if c \<in> set SPACES then TOKEN_SPACE else if c \<in> set COMMA then TOKEN_COMMA
      else if c \<in> set OPERATORS then TOKEN_OPERATOR else if c \<in> set DIGITS then TOKEN_NUMBER
      else if c \<in> set ALPHAS then TOKEN_ALPHA else TOKEN_UNKNOWN)"

definition lexeme_length :: "char \<Rightarrow> string \<Rightarrow> nat" where
  "lexeme_length c cs = Suc (case char_kind c of
     TOKEN_ALPHA \<Rightarrow> prefix_length (\<lambda>c. c \<in> set ALPHAS) cs
   | TOKEN_NUMBER \<Rightarrow> number_length cs
   | TOKEN_OPERATOR \<Rightarrow> prefix_length (\<lambda>c. c \<in> set OPERATORS) cs
   | _ \<Rightarrow> 0)"

lemma fraction_end_stop [simp]: "fraction_end buf (length buf) t = length buf"
  by (simp add: fraction_end.simps)

lemma point_no_digit: "CHR ''.'' \<notin> set DIGITS" "token_table 2 46 \<noteq> 2"
  using token_table_rows(2) [of "CHR ''.''"] by (simp_all add: DIGITS_def)

lemma of_char_point: "(of_char c :: nat) = 46 \<longleftrightarrow> c = CHR ''.''"
proof -
  have "(of_char c :: nat) = 46 \<longleftrightarrow> (of_char c :: nat) = of_char (CHR ''.'')" by simp
  also have "\<dots> \<longleftrightarrow> c = CHR ''.''" by (rule of_char_eq_iff)
  finally show ?thesis .
qed

lemma fraction_end_eq:
  "i < length buf \<Longrightarrow> fraction_end buf i (of_char (buf ! i)) =
     i + prefix_length (\<lambda>c. c \<in> set DIGITS) (drop i buf)"
proof (induction "length buf - i" arbitrary: i)
  case 0
  then show ?case by simp
next
  case (Suc n)
  show ?case
  proof (cases "Suc i < length buf")
    case True
    then have "fraction_end buf (Suc i) (of_char (buf ! Suc i)) =
        Suc i + prefix_length (\<lambda>c. c \<in> set DIGITS) (drop (Suc i) buf)"
      using Suc.hyps by (intro Suc.hyps(1)) auto
    then show ?thesis
      using True Suc.prems
      by (subst fraction_end.simps) (simp add: token_table_rows drop_step char_code_def)
  next
    case False
    then have "Suc i = length buf" using Suc.prems by simp
    then show ?thesis
      using Suc.prems
      by (subst fraction_end.simps)
         (simp add: token_table_rows drop_step [of i] char_code_def)
  qed
qed

lemma token_end_alpha:
  "CHR 0x00 \<notin> set buf \<Longrightarrow> i \<le> length buf \<Longrightarrow>
   token_end 1 buf i = i + prefix_length (\<lambda>c. c \<in> set ALPHAS) (drop i buf)"
proof (induction "length buf - i" arbitrary: i)
  case 0
  then show ?case by (simp add: token_end.simps)
next
  case (Suc n)
  then have i: "i < length buf" and nul: "buf ! i \<noteq> CHR 0x00" by (auto simp: in_set_conv_nth)
  have "token_end 1 buf (Suc i) = Suc i + prefix_length (\<lambda>c. c \<in> set ALPHAS) (drop (Suc i) buf)"
    using Suc by (intro Suc.hyps(1)) auto
  then show ?case
    using i nul
    by (subst token_end.simps)
       (simp add: Let_def char_code_def token_table_rows [simplified] drop_step)
qed

lemma token_end_operator:
  "i \<le> length buf \<Longrightarrow>
   token_end 3 buf i = i + prefix_length (\<lambda>c. c \<in> set OPERATORS) (drop i buf)"
proof (induction "length buf - i" arbitrary: i)
  case 0
  then show ?case by (simp add: token_end.simps)
next
  case (Suc n)
  then have i: "i < length buf" by simp
  have "token_end 3 buf (Suc i) = Suc i + prefix_length (\<lambda>c. c \<in> set OPERATORS) (drop (Suc i) buf)"
    using Suc by (intro Suc.hyps(1)) auto
  then show ?case
    using i by (subst token_end.simps) (simp add: Let_def char_code_def token_table_rows drop_step)
qed

text \<open>At a point the fraction loop is entered with the digit after it, which it counts twice.\<close>

lemma fraction_end_point:
  assumes "Suc i < length buf" and "buf ! i \<notin> set DIGITS"
  shows "fraction_end buf i (of_char (buf ! Suc i)) =
    (if buf ! Suc i \<in> set DIGITS
     then Suc (Suc i) + prefix_length (\<lambda>c. c \<in> set DIGITS) (drop (Suc (Suc i)) buf) else i)"
  using assms
  by (subst fraction_end.simps)
     (simp add: token_table_rows char_code_def fraction_end_eq drop_step [of "Suc i"])

lemma token_end_number:
  "i \<le> length buf \<Longrightarrow> token_end 2 buf i = i + number_length (drop i buf)"
proof (induction "length buf - i" arbitrary: i)
  case 0
  then show ?case by (simp add: token_end.simps)
next
  case (Suc n)
  then have i: "i < length buf" by simp
  have step: "token_end 2 buf (Suc i) = Suc i + number_length (drop (Suc i) buf)"
    using Suc by (intro Suc.hyps(1)) auto
  consider (digit) "buf ! i \<in> set DIGITS" | (point) "buf ! i = CHR ''.''" "Suc i < length buf"
    | (other) "buf ! i \<notin> set DIGITS" "buf ! i \<noteq> CHR ''.'' \<or> \<not> Suc i < length buf" by blast
  then show ?case
  proof cases
    case digit
    then show ?thesis using i step
      by (subst token_end.simps) (simp add: Let_def char_code_def token_table_rows drop_step)
  next
    case point
    note point = this
    have "buf ! i \<notin> set DIGITS" using point(1) point_no_digit by simp
    then show ?thesis using i point fraction_end_point [of i buf]
      by (subst token_end.simps)
         (simp add: Let_def char_code_def token_table_rows drop_step [of i] drop_step [of "Suc i"]
           fraction_length_def point_no_digit)
  next
    case other
    then have "fraction_length (drop i buf) = 0"
      using i by (auto simp: fraction_length_def drop_step [of i] split: list.split)
    then show ?thesis using i other
      by (subst token_end.simps)
         (auto simp: Let_def char_code_def token_table_rows drop_step [of i] of_char_point)
  qed
qed

lemma lexeme_length_le: "lexeme_length c cs \<le> Suc (length cs)"
proof -
  let ?n = "prefix_length (\<lambda>c. c \<in> set DIGITS) cs"
  have "fraction_length ds \<le> length ds" for ds
    by (auto simp: fraction_length_def prefix_length_le split: list.split)
  from this [of "drop ?n cs"] have "number_length cs \<le> length cs"
    using prefix_length_le [of "\<lambda>c. c \<in> set DIGITS" cs]
    by (simp add: number_length_def Let_def)
  then show ?thesis
    by (auto simp: lexeme_length_def prefix_length_le split: token_kind.split)
qed

fun kind_state :: "token_kind \<Rightarrow> int" where
  "kind_state TOKEN_ALPHA = 1"
| "kind_state TOKEN_NUMBER = 2"
| "kind_state TOKEN_OPERATOR = 3"
| "kind_state TOKEN_COMMA = 4"
| "kind_state TOKEN_SPACE = 5"
| "kind_state TOKEN_PAREN = 6"
| "kind_state TOKEN_STAR = 7"
| "kind_state TOKEN_QUOTE = - 1"
| "kind_state TOKEN_UNKNOWN = - 1"

lemma token_table_kind:
  "c \<noteq> CHR 0x00 \<Longrightarrow> token_table 0 (of_char c) = kind_state (char_kind c)"
  by (simp add: token_table_start char_kind_def)

lemma char_kind_quote [simp]: "char_kind c \<noteq> TOKEN_QUOTE"
  by (simp add: char_kind_def)

text \<open>One step of the tokenizer in terms of the remaining text.\<close>

lemma get_token_eq:
  assumes "CHR 0x00 \<notin> set (tk_buffer s)" and "drop (tk_pos s) (tk_buffer s) = c # cs"
  shows "get_token 0 s =
    Some (SToken (take (lexeme_length c cs) (c # cs)) (char_kind c),
          s\<lparr>tk_pos := tk_pos s + lexeme_length c cs\<rparr>)"
proof -
  let ?b = "tk_buffer s" and ?p = "tk_pos s"
  have p: "?p < length ?b" and c: "?b ! ?p = c" and cs: "drop (Suc ?p) ?b = cs"
    using assms(2) by (auto simp: nth_via_drop drop_Suc simp flip: tl_drop)
       (metis drop_eq_Nil2 leI list.distinct(1))
  have nul: "c \<noteq> CHR 0x00" using assms(1) p c by (auto simp: in_set_conv_nth)
  have le: "Suc ?p \<le> length ?b" using p by simp
  note ends = token_end_alpha [OF assms(1) le] token_end_number [OF le] token_end_operator [OF le]
  have t: "char_code ?b ?p = of_char c" using p c by (simp add: char_code_def)
  note start = token_table_kind [OF nul]
  show ?thesis
  proof (cases "char_kind c")
  qed (use p c assms(2) ends in
    \<open>simp_all add: get_token_def tk_done_def t start Let_def token_type_def lexeme_length_def cs\<close>)
qed

lemma fraction_end_ge: "i \<le> fraction_end buf i t"
proof (induction "length buf - i" arbitrary: i t)
  case 0
  then show ?case by (simp add: fraction_end.simps)
next
  case (Suc n)
  have "i \<le> fraction_end buf (Suc i) t" for t
    using Suc.hyps(2) by (auto intro: Suc_leD [OF Suc.hyps(1)])
  then show ?case by (subst fraction_end.simps) simp
qed

lemma token_end_ge: "i \<le> token_end state buf i"
proof (induction "length buf - i" arbitrary: i state)
  case 0
  then show ?case by (simp add: token_end.simps)
next
  case (Suc n)
  have "i \<le> token_end s buf (Suc i)" for s
    using Suc.hyps(2) by (auto intro: Suc_leD [OF Suc.hyps(1)])
  then show ?case by (subst token_end.simps) (simp add: Let_def fraction_end_ge)
qed

lemma get_token_advances:
  assumes "get_token 0 s = Some (token, s')"
  shows "tk_buffer s' = tk_buffer s" and "tk_pos s < tk_pos s'" and "tk_pos s < length (tk_buffer s)"
  using assms token_end_ge [of "tk_pos s + 1"]
  by (auto simp: get_token_def Let_def tk_done_def Suc_le_eq split: if_splits)

lemma get_token_none: "get_token 0 s = None \<longleftrightarrow> tk_done s"
  by (simp add: get_token_def Let_def)

section \<open>Token sequences\<close>

function lex :: "string \<Rightarrow> stoken list" where
  "lex [] = []"
| "lex (c # cs) = SToken (take (lexeme_length c cs) (c # cs)) (char_kind c)
     # lex (drop (lexeme_length c cs) (c # cs))"
  by pat_completeness auto
termination by (relation "measure length") (auto simp: lexeme_length_def)

declare lex.simps(2) [simp del]

theorem lex_lossless: "concat (map st_text (lex cs)) = cs"
  by (induction cs rule: lex.induct) (simp_all add: lex.simps(2) SToken_def)

end
