(* ===== verification/Parser.thy ===== *)
theory Parser
  imports Tokenizer
begin

text \<open>
  The SQL parser of \<open>parser.cpp\<close>: token classification, the quote-aware token loop, the state table
  and the state machine that fills the parse tree. The parse tree is an \<open>MMap<string, string>\<close>, modelled
  by its contract: a finite map from keys to lists of strings.
\<close>

section \<open>Data\<close>

datatype ptype =
    CREATE | TABLE | FIELDS | INSERT | INTO | VALUES | SELECT | ASTERISK | FROM | WHERE
  | LITERAL | COMMAS | PARENS | RELATIONAL | LOGICAL | QUOTE

fun ptype_code :: "ptype \<Rightarrow> nat" where
  "ptype_code CREATE = 0"
| "ptype_code TABLE = 1"
| "ptype_code FIELDS = 2"
| "ptype_code INSERT = 3"
| "ptype_code INTO = 4"
| "ptype_code VALUES = 5"
| "ptype_code SELECT = 6"
| "ptype_code ASTERISK = 7"
| "ptype_code FROM = 8"
| "ptype_code WHERE = 9"
| "ptype_code LITERAL = 10"
| "ptype_code COMMAS = 11"
| "ptype_code PARENS = 12"
| "ptype_code RELATIONAL = 13"
| "ptype_code LOGICAL = 14"
| "ptype_code QUOTE = 15"

type_synonym parse_tree = "string \<rightharpoonup> string list"

definition mmap_insert :: "string \<Rightarrow> string \<Rightarrow> parse_tree \<Rightarrow> parse_tree" where
  "mmap_insert k v t = t(k \<mapsto> (case t k of None \<Rightarrow> [v] | Some vs \<Rightarrow> vs @ [v]))"

text \<open>\<open>None\<close>: the assertion that the key is new fails.\<close>

definition mmap_insert_key :: "string \<Rightarrow> parse_tree \<Rightarrow> parse_tree option" where
  "mmap_insert_key k t = (if k \<in> dom t then None else Some (t(k \<mapsto> [])))"

text \<open>\<open>tree[k]\<close> inserts the key when it is missing; \<open>tree[k] += v\<close> then appends to its list.\<close>

definition mmap_at :: "string \<Rightarrow> parse_tree \<Rightarrow> string list \<times> parse_tree" where
  "mmap_at k t = (case t k of None \<Rightarrow> ([], t(k \<mapsto> [])) | Some vs \<Rightarrow> (vs, t))"

definition mmap_append :: "string \<Rightarrow> string \<Rightarrow> parse_tree \<Rightarrow> parse_tree" where
  "mmap_append k v t = (case mmap_at k t of (vs, t) \<Rightarrow> t(k \<mapsto> vs @ [v]))"

definition mmap_erase :: "string \<Rightarrow> parse_tree \<Rightarrow> parse_tree" where
  "mmap_erase k t = t(k := None)"

record parser =
  ps_input :: "stoken list"
  ps_types :: "ptype list"
  ps_tree :: parse_tree
  ps_token :: tokenizer

section \<open>Tokens\<close>

definition relational_operators :: "string list" where
  "relational_operators = [''<='', ''>='', ''='', ''>'', ''<'', ''!='']"

definition classify_unquoted_token :: "stoken \<Rightarrow> ptype option" where
  "classify_unquoted_token token =
     (let txt = st_text token in
      if st_kind token = TOKEN_ALPHA then
        Some (if txt = ''create'' then CREATE
              else if txt = ''table'' then TABLE
              else if txt = ''fields'' then FIELDS
              else if txt = ''insert'' then INSERT
              else if txt = ''into'' then INTO
              else if txt = ''values'' then VALUES
              else if txt = ''select'' then SELECT
              else if txt = ''from'' then FROM
              else if txt = ''where'' then WHERE
              else if txt = ''or'' \<or> txt = ''and'' then LOGICAL
              else LITERAL)
      else if st_kind token = TOKEN_NUMBER then Some LITERAL
      else if st_kind token = TOKEN_OPERATOR then
        (if txt \<in> set relational_operators then Some RELATIONAL else None)
      else if st_kind token = TOKEN_PAREN then Some PARENS
      else if st_kind token = TOKEN_STAR \<and> txt = ''*'' then Some ASTERISK
      else if st_kind token = TOKEN_COMMA \<and> txt = '','' then Some COMMAS
      else None)"

definition double_quote :: string where
  "double_quote = [CHR 0x22]"

definition push_token :: "stoken \<Rightarrow> ptype \<Rightarrow> parser \<Rightarrow> parser" where
  "push_token token type ps =
     ps\<lparr>ps_input := ps_input ps @ [token], ps_types := ps_types ps @ [type]\<rparr>"

definition clear_tokens :: "parser \<Rightarrow> parser" where
  "clear_tokens ps = ps\<lparr>ps_input := [], ps_types := []\<rparr>"

lemma get_token_measure:
  "get_token 0 s = Some (token, s') \<Longrightarrow>
   length (tk_buffer s') - tk_pos s' < length (tk_buffer s) - tk_pos s"
  using get_token_advances [of s token s'] by simp

text \<open>The loop of \<open>tokenize\<close>, with its locals \<open>inside_quote\<close> and \<open>quoted_literal\<close>.\<close>

function tokenize_loop :: "bool \<Rightarrow> string \<Rightarrow> parser \<Rightarrow> parser" where
  "tokenize_loop inside_quote quoted_literal ps =
     (case get_token 0 (ps_token ps) of
        None \<Rightarrow> if inside_quote then clear_tokens ps else ps
      | Some (current, s) \<Rightarrow>
          let ps = ps\<lparr>ps_token := s\<rparr>; txt = st_text current in
          if inside_quote then
            if txt = double_quote
            then tokenize_loop False [] (push_token (SToken quoted_literal TOKEN_ALPHA) LITERAL ps)
            else tokenize_loop True (quoted_literal @ txt) ps
          else if txt = double_quote then tokenize_loop True quoted_literal ps
          else if st_kind current = TOKEN_SPACE then tokenize_loop False quoted_literal ps
          else
            (case classify_unquoted_token current of
               None \<Rightarrow> clear_tokens ps
             | Some type \<Rightarrow> tokenize_loop False quoted_literal (push_token current type ps)))"
  by pat_completeness auto
termination
  by (relation "measure (\<lambda>(q, l, ps). length (tk_buffer (ps_token ps)) - tk_pos (ps_token ps))")
    (auto simp: push_token_def dest: get_token_measure)

declare tokenize_loop.simps [simp del]

definition tokenize :: "parser \<Rightarrow> parser" where
  "tokenize ps = tokenize_loop False [] ps"

definition parser_set_string :: "string \<Rightarrow> parser \<Rightarrow> parser" where
  "parser_set_string str ps =
     tokenize (ps\<lparr>ps_tree := Map.empty, ps_types := [], ps_input := [], ps_token := set_string str\<rparr>)"

section \<open>The state machine\<close>

definition success_states :: "nat list" where
  "success_states = [5, 11, 18, 23, 24]"

definition transitions :: "(nat \<times> ptype \<times> int) list" where
  "transitions =
     [(0, CREATE, 1), (1, TABLE, 2), (2, LITERAL, 3), (3, FIELDS, 4), (4, LITERAL, 5),
      (5, COMMAS, 6), (6, LITERAL, 5),
      (0, INSERT, 7), (7, INTO, 8), (8, LITERAL, 9), (9, VALUES, 10), (10, LITERAL, 11),
      (11, COMMAS, 12), (12, LITERAL, 11),
      (0, SELECT, 13), (13, ASTERISK, 16), (16, FROM, 17), (13, LITERAL, 14), (14, COMMAS, 15),
      (15, LITERAL, 14), (14, FROM, 17), (17, LITERAL, 18), (18, WHERE, 19), (19, LITERAL, 21),
      (19, PARENS, 20), (20, LITERAL, 21), (20, PARENS, 20), (21, RELATIONAL, 22), (22, LITERAL, 23),
      (23, LOGICAL, 19), (23, PARENS, 24), (24, LOGICAL, 19), (24, PARENS, 24)]"

definition parser_table :: state_table where
  "parser_table =
     foldl (\<lambda>t (i, type, s). mark_cell i t (ptype_code type) s)
       (foldl (\<lambda>t i. if i \<in> set success_states then mark_success t i else mark_fail t i) init_table [0..<25])
       transitions"

text \<open>What entering a state does to the tree and the flag \<open>did_where\<close>.\<close>

definition enter_state :: "int \<Rightarrow> string \<Rightarrow> bool \<times> parse_tree \<Rightarrow> bool \<times> parse_tree" where
  "enter_state state txt = (\<lambda>(did_where, tree).
     let tree = (if state \<in> {3, 9, 18} then mmap_append ''table_name'' txt tree else tree);
         tree = (if state \<in> {5, 16, 14} then mmap_append ''fields'' txt tree else tree);
         tree = (if state = 11 then mmap_append ''values'' txt tree else tree);
         (did_where, tree) =
           (if state = 19 \<and> \<not> did_where then (True, mmap_append ''where'' ''yes'' tree)
            else (did_where, tree));
         tree = (if 19 \<le> state \<and> state \<le> 24 \<and> txt \<noteq> ''where''
                 then mmap_append ''condition'' txt tree else tree)
     in (did_where, tree))"

fun parse_steps :: "int \<Rightarrow> bool \<times> parse_tree \<Rightarrow> (stoken \<times> ptype) list \<Rightarrow> int option \<times> bool \<times> parse_tree" where
  "parse_steps state s [] = (Some state, s)"
| "parse_steps state s ((token, type) # rest) =
     (let state = parser_table (nat state) (ptype_code type) in
      if state = - 1 then (None, s)
      else parse_steps state (enter_state state (st_text token) s) rest)"

text \<open>The keys of the tree, by the kind of command; the inner \<open>None\<close> is \<open>vali = false\<close>.\<close>

definition start_tree :: "ptype \<Rightarrow> parse_tree \<Rightarrow> parse_tree option option" where
  "start_tree type tree =
     (case type of
        CREATE \<Rightarrow> map_option Some (Option.bind (mmap_insert_key ''fields'' (mmap_insert ''command'' ''create'' tree))
          (mmap_insert_key ''table_name''))
      | INSERT \<Rightarrow> map_option Some (Option.bind (mmap_insert_key ''values'' (mmap_insert ''command'' ''insert'' tree))
          (mmap_insert_key ''table_name''))
      | SELECT \<Rightarrow> map_option Some (Option.bind (mmap_insert_key ''condition'' (mmap_insert ''command'' ''select'' tree))
          (\<lambda>t. Option.bind (mmap_insert_key ''fields'' t)
          (\<lambda>t. Option.bind (mmap_insert_key ''table_name'' t)
          (mmap_insert_key ''where''))))
      | _ \<Rightarrow> Some None)"

definition erase_if_empty :: "string \<Rightarrow> parse_tree \<Rightarrow> parse_tree" where
  "erase_if_empty k tree =
     (case mmap_at k tree of (vs, tree) \<Rightarrow> if vs = [] then mmap_erase k tree else tree)"

definition parse :: "parser \<Rightarrow> (bool \<times> parser) option" where
  "parse ps =
     (if ps_types ps = [] \<or> length (ps_types ps) \<noteq> length (ps_input ps) then Some (False, ps)
      else
        (case start_tree (hd (ps_types ps)) (ps_tree ps) of
           None \<Rightarrow> None
         | Some None \<Rightarrow> Some (False, ps)
         | Some (Some tree) \<Rightarrow>
             (case parse_steps (parser_table 0 (ptype_code (hd (ps_types ps)))) (False, tree)
                     (tl (zip (ps_input ps) (ps_types ps))) of
                (None, _, tree) \<Rightarrow> Some (False, ps\<lparr>ps_tree := tree\<rparr>)
              | (Some state, _, tree) \<Rightarrow>
                  Some (is_success parser_table (nat state),
                        ps\<lparr>ps_tree := erase_if_empty ''where'' (erase_if_empty ''condition'' tree)\<rparr>))))"

definition parse_tree :: "parser \<Rightarrow> (parse_tree \<times> parser) option" where
  "parse_tree ps =
     map_option (\<lambda>(success, ps).
       let ps = (if success then ps else ps\<lparr>ps_tree := Map.empty\<rparr>) in (ps_tree ps, ps)) (parse ps)"

end
