(* ===== verification/Parser_Grammar.thy ===== *)
theory Parser_Grammar
  imports Parser
begin

text \<open>
  A grammar of statements, independent of the state table, and the tree that \<open>parse\<close> builds for each. Among
  the token sequences without a \<open>create\<close> behind the first token, the statements are the ones that \<open>parse\<close>
  accepts; for the others, where the state table does not follow the grammar, see \<open>Parser_Language\<close>.
\<close>

section \<open>Statements\<close>

type_synonym lexeme = "string \<times> ptype"

record comparison =
  left_parens :: "string list"
  left_operand :: string
  comparison_operator :: string
  right_operand :: string
  right_parens :: "string list"

type_synonym where_clause = "comparison \<times> (string \<times> comparison) list"

datatype columns = All_Columns | Columns "string list"

datatype statement =
    Create_Table string "string list"
  | Insert_Into string "string list"
  | Select_From columns string "where_clause option"

definition comma_tail :: "string list \<Rightarrow> lexeme list" where
  "comma_tail xs = concat (map (\<lambda>x. [('','', COMMAS), (x, LITERAL)]) xs)"

fun comma_list :: "string list \<Rightarrow> lexeme list" where
  "comma_list [] = []"
| "comma_list (x # xs) = (x, LITERAL) # comma_tail xs"

definition parens :: "string list \<Rightarrow> lexeme list" where
  "parens ps = map (\<lambda>p. (p, PARENS)) ps"

definition comparison_lexemes :: "comparison \<Rightarrow> lexeme list" where
  "comparison_lexemes c = parens (left_parens c) @
     [(left_operand c, LITERAL), (comparison_operator c, RELATIONAL), (right_operand c, LITERAL)] @
     parens (right_parens c)"

definition where_tail :: "(string \<times> comparison) list \<Rightarrow> lexeme list" where
  "where_tail cs = concat (map (\<lambda>(l, c). (l, LOGICAL) # comparison_lexemes c) cs)"

definition where_lexemes :: "where_clause \<Rightarrow> lexeme list" where
  "where_lexemes w = comparison_lexemes (fst w) @ where_tail (snd w)"

fun column_lexemes :: "columns \<Rightarrow> lexeme list" where
  "column_lexemes All_Columns = [(''*'', ASTERISK)]"
| "column_lexemes (Columns xs) = comma_list xs"

fun statement_lexemes :: "statement \<Rightarrow> lexeme list" where
  "statement_lexemes (Create_Table name flds) =
     [(''create'', CREATE), (''table'', TABLE), (name, LITERAL), (''fields'', FIELDS)] @ comma_list flds"
| "statement_lexemes (Insert_Into name vals) =
     [(''insert'', INSERT), (''into'', INTO), (name, LITERAL), (''values'', VALUES)] @ comma_list vals"
| "statement_lexemes (Select_From cols name w) =
     (''select'', SELECT) # column_lexemes cols @ [(''from'', FROM), (name, LITERAL)] @
     (case w of None \<Rightarrow> [] | Some w \<Rightarrow> (''where'', WHERE) # where_lexemes w)"

text \<open>Lists of names and values are not empty.\<close>

fun complete :: "statement \<Rightarrow> bool" where
  "complete (Create_Table name flds) \<longleftrightarrow> flds \<noteq> []"
| "complete (Insert_Into name vals) \<longleftrightarrow> vals \<noteq> []"
| "complete (Select_From cols name w) \<longleftrightarrow> cols \<noteq> Columns []"

section \<open>Trees\<close>

text \<open>A token that reads \<open>where\<close> is dropped from the condition, a quoted one as well.\<close>

definition condition_texts :: "lexeme list \<Rightarrow> string list" where
  "condition_texts ls = filter (\<lambda>x. x \<noteq> ''where'') (map fst ls)"

fun column_texts :: "columns \<Rightarrow> string list" where
  "column_texts All_Columns = [''*'']"
| "column_texts (Columns xs) = xs"

fun statement_tree :: "statement \<Rightarrow> parse_tree" where
  "statement_tree (Create_Table name flds) =
     [''command'' \<mapsto> [''create''], ''table_name'' \<mapsto> [name], ''fields'' \<mapsto> flds]"
| "statement_tree (Insert_Into name vals) =
     [''command'' \<mapsto> [''insert''], ''table_name'' \<mapsto> [name], ''values'' \<mapsto> vals]"
| "statement_tree (Select_From cols name None) =
     [''command'' \<mapsto> [''select''], ''fields'' \<mapsto> column_texts cols, ''table_name'' \<mapsto> [name]]"
| "statement_tree (Select_From cols name (Some w)) =
     [''command'' \<mapsto> [''select''], ''fields'' \<mapsto> column_texts cols, ''table_name'' \<mapsto> [name],
      ''where'' \<mapsto> [''yes''], ''condition'' \<mapsto> condition_texts (where_lexemes w)]"

section \<open>The state table in closed form\<close>

fun next_state :: "nat \<Rightarrow> ptype \<Rightarrow> int" where
  "next_state s t =
     (case map_of (map (\<lambda>(i, t, s). ((i, t), s)) transitions) (s, t) of None \<Rightarrow> - 1 | Some s' \<Rightarrow> s')"

lemma ptype_code_inject [simp]: "ptype_code t = ptype_code t' \<longleftrightarrow> t = t'"
  by (cases t; cases t') simp_all

lemma ptype_code_0: "ptype_code t = 0 \<longleftrightarrow> t = CREATE"
  by (cases t) simp_all

lemma mark_transitions:
  "distinct (map (\<lambda>(i, t, s). (i, t)) ts) \<Longrightarrow>
   foldl (\<lambda>t (i, type, s). mark_cell i t (ptype_code type) s) table ts s (ptype_code t) =
   (case map_of (map (\<lambda>(i, t, s). ((i, t), s)) ts) (s, t) of None \<Rightarrow> table s (ptype_code t) | Some s' \<Rightarrow> s')"
proof (induction ts arbitrary: table)
  case (Cons x ts)
  obtain i u v where x: "x = (i, u, v)" by (cases x)
  have "map_of (map (\<lambda>(i, t, s). ((i, t), s)) ts) (i, u) = None"
    using Cons.prems x by (force simp: map_of_eq_None_iff)
  then show ?case using Cons by (auto simp: x mark_cell_def split: option.split)
qed simp

lemma base_table:
  "0 < j \<Longrightarrow> foldl (\<lambda>t i. if i \<in> set success_states then mark_success t i else mark_fail t i) t is i j = t i j"
  by (induction "is" arbitrary: t) (simp_all add: mark_success_def mark_fail_def)

lemma parser_table_next:
  assumes "t \<noteq> CREATE"
  shows "parser_table s (ptype_code t) = next_state s t"
proof -
  have "0 < ptype_code t" using assms ptype_code_0 by (metis gr0I)
  then show ?thesis
    by (simp only: parser_table_def next_state.simps base_table)
      (subst mark_transitions, simp add: transitions_def, simp add: base_table init_table_def split: option.split)
qed

lemma parser_table_start [simp]: "parser_table 0 (ptype_code CREATE) = 1"
  by (simp only: parser_table_def, subst mark_transitions) (simp_all add: transitions_def)

lemma success_column:
  "i < 25 \<Longrightarrow> 0 < i \<Longrightarrow> is_success parser_table i \<longleftrightarrow> i \<in> set success_states"
proof -
  have marks: "foldl (\<lambda>t i. if i \<in> set success_states then mark_success t i else mark_fail t i) t is i 0 =
      (if i \<in> set is then if i \<in> set success_states then 1 else 0 else t i 0)" for t "is"
    by (induction "is" arbitrary: t) (auto simp: mark_success_def mark_fail_def)
  assume "i < 25" "0 < i"
  moreover have "parser_table i (ptype_code CREATE) = parser_table i 0" by simp
  ultimately show ?thesis
    unfolding is_success_def
    by (simp only: parser_table_def flip: ptype_code.simps(1), subst mark_transitions)
      (simp_all add: transitions_def marks)
qed

text \<open>The rows of the table.\<close>

lemma next_state_rows:
  "next_state 0 t = (if t = CREATE then 1 else if t = INSERT then 7 else if t = SELECT then 13 else - 1)"
  "next_state 1 t = (if t = TABLE then 2 else - 1)"
  "next_state 2 t = (if t = LITERAL then 3 else - 1)"
  "next_state 3 t = (if t = FIELDS then 4 else - 1)"
  "next_state 4 t = (if t = LITERAL then 5 else - 1)"
  "next_state 5 t = (if t = COMMAS then 6 else - 1)"
  "next_state 6 t = (if t = LITERAL then 5 else - 1)"
  "next_state 7 t = (if t = INTO then 8 else - 1)"
  "next_state 8 t = (if t = LITERAL then 9 else - 1)"
  "next_state 9 t = (if t = VALUES then 10 else - 1)"
  "next_state 10 t = (if t = LITERAL then 11 else - 1)"
  "next_state 11 t = (if t = COMMAS then 12 else - 1)"
  "next_state 12 t = (if t = LITERAL then 11 else - 1)"
  "next_state 13 t = (if t = ASTERISK then 16 else if t = LITERAL then 14 else - 1)"
  "next_state 14 t = (if t = COMMAS then 15 else if t = FROM then 17 else - 1)"
  "next_state 15 t = (if t = LITERAL then 14 else - 1)"
  "next_state 16 t = (if t = FROM then 17 else - 1)"
  "next_state 17 t = (if t = LITERAL then 18 else - 1)"
  "next_state 18 t = (if t = WHERE then 19 else - 1)"
  "next_state 19 t = (if t = LITERAL then 21 else if t = PARENS then 20 else - 1)"
  "next_state 20 t = (if t = LITERAL then 21 else if t = PARENS then 20 else - 1)"
  "next_state 21 t = (if t = RELATIONAL then 22 else - 1)"
  "next_state 22 t = (if t = LITERAL then 23 else - 1)"
  "next_state 23 t = (if t = LOGICAL then 19 else if t = PARENS then 24 else - 1)"
  "next_state 24 t = (if t = LOGICAL then 19 else if t = PARENS then 24 else - 1)"
  by (simp_all add: transitions_def)

lemma next_state_range: "next_state s t = - 1 \<or> (0 < next_state s t \<and> next_state s t < 25)"
proof (cases "map_of (map (\<lambda>(i, t, s). ((i, t), s)) transitions) (s, t)")
  case (Some n)
  then have "n \<in> (\<lambda>(i, t, s). s) ` set transitions" by (force dest: map_of_SomeD)
  then show ?thesis using Some by (auto simp: transitions_def)
qed simp

declare next_state.simps [simp del]

section \<open>The automaton on lexemes\<close>

text \<open>
  The walk of \<open>parse\<close> without the column of \<open>create\<close>, which holds the success flags instead of transitions:
  \<open>parse_steps_automaton\<close> relates the two on lexemes other than \<open>create\<close>.
\<close>

fun automaton :: "nat \<Rightarrow> bool \<times> parse_tree \<Rightarrow> lexeme list \<Rightarrow> parse_tree option" where
  "automaton s st [] = (if s \<in> set success_states then Some (snd st) else None)"
| "automaton s st ((x, t) # ls) =
     (if next_state s t = - 1 then None
      else automaton (nat (next_state s t)) (enter_state (next_state s t) x st) ls)"

definition lexeme :: "stoken \<times> ptype \<Rightarrow> lexeme" where
  "lexeme = (\<lambda>(token, t). (st_text token, t))"

lemma parse_steps_automaton:
  assumes "CREATE \<notin> snd ` set ts" and "0 < s" "s < 25"
  shows "(case parse_steps (int s) st ts of
      (None, _) \<Rightarrow> None
    | (Some s', _, t) \<Rightarrow> if is_success parser_table (nat s') then Some t else None) =
    automaton s st (map lexeme ts)"
  using assms
proof (induction ts arbitrary: s st)
  case Nil
  then show ?case by (auto simp: success_column split: prod.splits)
next
  case (Cons a ts)
  obtain token t where a: "a = (token, t)" by (cases a)
  have t: "parser_table s (ptype_code t) = next_state s t"
    using Cons.prems a by (intro parser_table_next) auto
  show ?case
  proof (cases "next_state s t = - 1")
    case False
    then have "0 < next_state s t" "next_state s t < 25" using next_state_range [of s t] by auto
    then show ?thesis
      using Cons.IH [of "nat (next_state s t)" "enter_state (next_state s t) (st_text token) st"] Cons.prems a
      by (simp add: t lexeme_def Let_def)
  qed (simp add: a t lexeme_def)
qed

definition lexeme_ok :: "lexeme \<Rightarrow> bool" where
  "lexeme_ok = (\<lambda>(x, t). case t of
     CREATE \<Rightarrow> x = ''create'' | TABLE \<Rightarrow> x = ''table'' | FIELDS \<Rightarrow> x = ''fields''
   | INSERT \<Rightarrow> x = ''insert'' | INTO \<Rightarrow> x = ''into'' | VALUES \<Rightarrow> x = ''values''
   | SELECT \<Rightarrow> x = ''select'' | ASTERISK \<Rightarrow> x = ''*'' | FROM \<Rightarrow> x = ''from''
   | WHERE \<Rightarrow> x = ''where'' | LITERAL \<Rightarrow> True | COMMAS \<Rightarrow> x = '',''
   | PARENS \<Rightarrow> x = ''('' \<or> x = '')'' | RELATIONAL \<Rightarrow> x \<in> set relational_operators
   | LOGICAL \<Rightarrow> x = ''or'' \<or> x = ''and'' | QUOTE \<Rightarrow> False)"

lemma mmap_append_eq: "mmap_append k v t = t(k \<mapsto> (case t k of None \<Rightarrow> [] | Some vs \<Rightarrow> vs) @ [v])"
  by (simp add: mmap_append_def mmap_at_def split: option.split)

definition appends :: "string \<Rightarrow> string list \<Rightarrow> parse_tree \<Rightarrow> parse_tree" where
  "appends k xs t = fold (mmap_append k) xs t"

lemma appends_simps [simp]: "appends k [] t = t" "appends k (x # xs) t = appends k xs (mmap_append k x t)"
  by (simp_all add: appends_def)

lemma appends_append: "appends k (xs @ ys) t = appends k ys (appends k xs t)"
  by (simp add: appends_def)

lemma appends_eq: "t k = Some vs \<Longrightarrow> appends k xs t = t(k \<mapsto> vs @ xs)"
  by (induction xs arbitrary: t vs) (simp_all add: mmap_append_eq fun_upd_idem)

definition add_text :: "string \<Rightarrow> string \<Rightarrow> bool \<times> parse_tree \<Rightarrow> bool \<times> parse_tree" where
  "add_text k x = (\<lambda>(w, t). (w, mmap_append k x t))"

definition add_condition :: "string \<Rightarrow> bool \<times> parse_tree \<Rightarrow> bool \<times> parse_tree" where
  "add_condition x = (if x = ''where'' then id else add_text ''condition'' x)"

lemma enter_quiet [simp]:
  "enter_state 2 x st = st" "enter_state 4 x st = st" "enter_state 6 x st = st" "enter_state 8 x st = st"
  "enter_state 10 x st = st" "enter_state 12 x st = st" "enter_state 15 x st = st" "enter_state 17 x st = st"
  by (cases st, simp add: enter_state_def)+

lemma enter_texts [simp]:
  "enter_state 3 x = add_text ''table_name'' x" "enter_state 9 x = add_text ''table_name'' x"
  "enter_state 18 x = add_text ''table_name'' x" "enter_state 5 x = add_text ''fields'' x"
  "enter_state 14 x = add_text ''fields'' x" "enter_state 16 x = add_text ''fields'' x"
  "enter_state 11 x = add_text ''values'' x"
  by (rule ext, simp add: enter_state_def add_text_def split: prod.split)+

lemma enter_conditions [simp]:
  "enter_state 20 x = add_condition x" "enter_state 21 x = add_condition x" "enter_state 22 x = add_condition x"
  "enter_state 23 x = add_condition x" "enter_state 24 x = add_condition x"
  by (rule ext, simp add: enter_state_def add_text_def add_condition_def split: prod.split)+

lemma enter_where:
  "enter_state 19 x (w, t) = add_condition x (True, if w then t else mmap_append ''where'' ''yes'' t)"
  by (simp add: enter_state_def add_text_def add_condition_def)

section \<open>Lists and parentheses\<close>

lemma automaton_step:
  "automaton s st ((x, t) # ls) =
     (if next_state s t = - 1 then None
      else automaton (nat (next_state s t)) (enter_state (next_state s t) x st) ls)"
  by simp

declare automaton.simps(2) [simp del]

lemma comma_tail_simps [simp]:
  "comma_tail [] = []" "comma_tail (x # xs) = ('','', COMMAS) # (x, LITERAL) # comma_tail xs"
  by (simp_all add: comma_tail_def)

lemma parens_simps [simp]: "parens [] = []" "parens (p # ps) = (p, PARENS) # parens ps"
  by (simp_all add: parens_def)

abbreviation stops :: "ptype \<Rightarrow> lexeme list \<Rightarrow> bool" where
  "stops t ls \<equiv> ls = [] \<or> snd (hd ls) \<noteq> t"

lemma comma_states:
  assumes item: "\<And>st x ls. automaton a st ((x, COMMAS) # ls) = automaton b st ls"
    and sep: "b \<notin> set success_states"
      "\<And>st x t ls. automaton b st ((x, t) # ls) = (if t = LITERAL then automaton a (add_text k x st) ls else None)"
  shows "\<forall>l \<in> set ls. lexeme_ok l \<Longrightarrow> automaton a (w, t) ls = Some t' \<longleftrightarrow>
    (\<exists>xs rest. ls = comma_tail xs @ rest \<and> stops COMMAS rest \<and>
       automaton a (w, appends k xs t) rest = Some t')"
proof (induction "length ls" arbitrary: ls t rule: less_induct)
  case less
  show ?case
  proof (cases "stops COMMAS ls")
    case True
    have "xs = []" if "ls = comma_tail xs @ rest" for xs rest
      using that True by (cases xs) auto
    then show ?thesis using True by (metis append_Nil appends_simps(1) comma_tail_simps(1))
  next
    case False
    then obtain x ls1 where ls: "ls = (x, COMMAS) # ls1" by (cases ls) auto
    have x: "x = '',''" using less.prems ls by (simp add: lexeme_ok_def)
    show ?thesis
    proof (cases "\<exists>y ls2. ls1 = (y, LITERAL) # ls2")
      case True
      then obtain y ls2 where ls1: "ls1 = (y, LITERAL) # ls2" by blast
      have "automaton a (w, mmap_append k y t) ls2 = Some t' \<longleftrightarrow>
          (\<exists>xs rest. ls2 = comma_tail xs @ rest \<and> stops COMMAS rest \<and>
             automaton a (w, appends k xs (mmap_append k y t)) rest = Some t')"
        using less.prems ls ls1 by (intro less.hyps) auto
      then have "automaton a (w, t) ls = Some t' \<longleftrightarrow> (\<exists>xs rest. ls2 = comma_tail xs @ rest \<and>
          stops COMMAS rest \<and> automaton a (w, appends k (y # xs) t) rest = Some t')"
        by (simp add: ls ls1 item sep add_text_def)
      also have "\<dots> \<longleftrightarrow> (\<exists>xs rest. ls = comma_tail xs @ rest \<and> stops COMMAS rest \<and>
          automaton a (w, appends k xs t) rest = Some t')"
      proof
        assume "\<exists>xs rest. ls2 = comma_tail xs @ rest \<and>
          stops COMMAS rest \<and> automaton a (w, appends k (y # xs) t) rest = Some t'"
        then obtain xs rest where "ls2 = comma_tail xs @ rest"
          "stops COMMAS rest" "automaton a (w, appends k (y # xs) t) rest = Some t'" by blast
        then show "\<exists>xs rest. ls = comma_tail xs @ rest \<and> stops COMMAS rest \<and>
            automaton a (w, appends k xs t) rest = Some t'"
          by (intro exI [of _ "y # xs"] exI [of _ rest]) (simp add: ls ls1 x)
      next
        assume "\<exists>xs rest. ls = comma_tail xs @ rest \<and> stops COMMAS rest \<and>
            automaton a (w, appends k xs t) rest = Some t'"
        then obtain xs rest where xs: "ls = comma_tail xs @ rest" "stops COMMAS rest"
          "automaton a (w, appends k xs t) rest = Some t'" by blast
        then obtain z zs where "xs = z # zs" using False by (cases xs) auto
        then show "\<exists>xs rest. ls2 = comma_tail xs @ rest \<and>
            stops COMMAS rest \<and> automaton a (w, appends k (y # xs) t) rest = Some t'"
          using xs ls ls1 by (intro exI [of _ zs] exI [of _ rest]) auto
      qed
      finally show ?thesis .
    next
      case False2: False
      have "automaton a (w, t) ls = None"
        using False2 by (cases ls1) (auto simp: ls item sep)
      moreover have "ls \<noteq> comma_tail xs @ rest" if "stops COMMAS rest" for xs rest
        using False2 ls that by (cases xs) auto
      ultimately show ?thesis by auto
    qed
  qed
qed

definition add_conditions :: "string list \<Rightarrow> bool \<times> parse_tree \<Rightarrow> bool \<times> parse_tree" where
  "add_conditions xs st = fold add_condition xs st"

lemma add_conditions_simps [simp]:
  "add_conditions [] st = st" "add_conditions (x # xs) st = add_conditions xs (add_condition x st)"
  by (simp_all add: add_conditions_def)

lemma add_conditions_append: "add_conditions (xs @ ys) st = add_conditions ys (add_conditions xs st)"
  by (simp add: add_conditions_def)

lemma add_conditions_eq:
  "add_conditions xs (w, t) = (w, appends ''condition'' (filter (\<lambda>x. x \<noteq> ''where'') xs) t)"
  by (induction xs arbitrary: t) (simp_all add: add_condition_def add_text_def)

lemma paren_states:
  assumes "\<And>st x ls. automaton a st ((x, PARENS) # ls) = automaton a (add_condition x st) ls"
  shows "automaton a st ls = Some t' \<longleftrightarrow>
    (\<exists>ps rest. ls = parens ps @ rest \<and> stops PARENS rest \<and> automaton a (add_conditions ps st) rest = Some t')"
proof (induction ls arbitrary: st)
  case Nil
  have "parens ps = [] \<longleftrightarrow> ps = []" for ps by (simp add: parens_def)
  then show ?case by auto
next
  case (Cons l ls)
  show ?case
  proof (cases "snd l = PARENS")
    case True
    then obtain x where l: "l = (x, PARENS)" by (cases l) auto
    have "(\<exists>ps rest. l # ls = parens ps @ rest \<and> stops PARENS rest \<and> automaton a (add_conditions ps st) rest = Some t') \<longleftrightarrow>
      (\<exists>ps rest. ls = parens ps @ rest \<and> stops PARENS rest \<and>
        automaton a (add_conditions (x # ps) st) rest = Some t')" (is "?L \<longleftrightarrow> ?R")
    proof
      assume ?L
      then obtain ps rest where ps: "l # ls = parens ps @ rest" "stops PARENS rest"
        "automaton a (add_conditions ps st) rest = Some t'" by blast
      then obtain qs where "ps = x # qs" using l by (cases ps) auto
      then show ?R using ps l by auto
    next
      assume ?R
      then obtain ps rest where "ls = parens ps @ rest" "stops PARENS rest"
        "automaton a (add_conditions (x # ps) st) rest = Some t'" by blast
      then show ?L by (intro exI [of _ "x # ps"] exI [of _ rest]) (simp add: l)
    qed
    then show ?thesis using Cons.IH [of "add_condition x st"] by (simp add: l assms)
  next
    case False
    have "ps = []" if "l # ls = parens ps @ rest" for ps rest using that False by (cases ps) auto
    then show ?thesis using False by (metis add_conditions_simps(1) append_Nil list.sel(1) parens_simps(1))
  qed
qed

lemma automaton_rows:
  "automaton 1 st ((x, t) # ls) = (if t = TABLE then automaton 2 st ls else None)"
  "automaton 2 st ((x, t) # ls) = (if t = LITERAL then automaton 3 (add_text ''table_name'' x st) ls else None)"
  "automaton 3 st ((x, t) # ls) = (if t = FIELDS then automaton 4 st ls else None)"
  "automaton 4 st ((x, t) # ls) = (if t = LITERAL then automaton 5 (add_text ''fields'' x st) ls else None)"
  "automaton 5 st ((x, t) # ls) = (if t = COMMAS then automaton 6 st ls else None)"
  "automaton 6 st ((x, t) # ls) = (if t = LITERAL then automaton 5 (add_text ''fields'' x st) ls else None)"
  "automaton 7 st ((x, t) # ls) = (if t = INTO then automaton 8 st ls else None)"
  "automaton 8 st ((x, t) # ls) = (if t = LITERAL then automaton 9 (add_text ''table_name'' x st) ls else None)"
  "automaton 9 st ((x, t) # ls) = (if t = VALUES then automaton 10 st ls else None)"
  "automaton 10 st ((x, t) # ls) = (if t = LITERAL then automaton 11 (add_text ''values'' x st) ls else None)"
  "automaton 11 st ((x, t) # ls) = (if t = COMMAS then automaton 12 st ls else None)"
  "automaton 12 st ((x, t) # ls) = (if t = LITERAL then automaton 11 (add_text ''values'' x st) ls else None)"
  "automaton 13 st ((x, t) # ls) = (if t = ASTERISK then automaton 16 (add_text ''fields'' x st) ls else if t = LITERAL then automaton 14 (add_text ''fields'' x st) ls else None)"
  "automaton 14 st ((x, t) # ls) = (if t = COMMAS then automaton 15 st ls else if t = FROM then automaton 17 st ls else None)"
  "automaton 15 st ((x, t) # ls) = (if t = LITERAL then automaton 14 (add_text ''fields'' x st) ls else None)"
  "automaton 16 st ((x, t) # ls) = (if t = FROM then automaton 17 st ls else None)"
  "automaton 17 st ((x, t) # ls) = (if t = LITERAL then automaton 18 (add_text ''table_name'' x st) ls else None)"
  "automaton 20 st ((x, t) # ls) = (if t = LITERAL then automaton 21 (add_condition x st) ls else if t = PARENS then automaton 20 (add_condition x st) ls else None)"
  "automaton 21 st ((x, t) # ls) = (if t = RELATIONAL then automaton 22 (add_condition x st) ls else None)"
  "automaton 22 st ((x, t) # ls) = (if t = LITERAL then automaton 23 (add_condition x st) ls else None)"
  "automaton 24 st ((x, t) # ls) = (if t = LOGICAL then automaton 19 (enter_state 19 x st) ls else if t = PARENS then automaton 24 (add_condition x st) ls else None)"
  by (simp_all add: automaton_step next_state_rows del: One_nat_def)

lemma automaton_ends [simp]: "automaton s st [] = None \<longleftrightarrow> s \<notin> set success_states"
  by simp

section \<open>Conditions\<close>

lemma automaton_19: "automaton 19 st ls = automaton 20 st ls"
  by (cases ls) (auto simp: automaton_step next_state_rows success_states_def)

lemma automaton_23: "automaton 23 st ls = automaton 24 st ls"
  by (cases ls) (auto simp: automaton_step next_state_rows success_states_def)

text \<open>After a value: closing parentheses, then the end or another comparison.\<close>

lemma automaton_24: "stops PARENS ls \<Longrightarrow> automaton 24 (True, t) ls = Some t' \<longleftrightarrow>
  (ls = [] \<and> t' = t) \<or>
  (\<exists>l ls'. ls = (l, LOGICAL) # ls' \<and> automaton 20 (add_condition l (True, t)) ls' = Some t')"
  by (cases ls) (auto simp: automaton_rows success_states_def enter_where automaton_19 split: if_splits)

text \<open>Before a field: opening parentheses, then field, operator and value.\<close>

lemma automaton_20: "stops PARENS ls \<Longrightarrow> automaton 20 st ls = Some t' \<longleftrightarrow>
  (\<exists>f op v rest. ls = (f, LITERAL) # (op, RELATIONAL) # (v, LITERAL) # rest \<and>
     automaton 24 (add_conditions [f, op, v] st) rest = Some t')"
proof -
  have a: "automaton 20 st ls = Some t' \<longleftrightarrow>
      (\<exists>f ls1. ls = (f, LITERAL) # ls1 \<and> automaton 21 (add_condition f st) ls1 = Some t')"
    if "stops PARENS ls"
    using that by (cases ls) (auto simp: automaton_rows success_states_def split: if_splits)
  have b: "automaton 21 st ls = Some t' \<longleftrightarrow>
      (\<exists>op ls1. ls = (op, RELATIONAL) # ls1 \<and> automaton 22 (add_condition op st) ls1 = Some t')" for st ls
    by (cases ls) (auto simp: automaton_rows success_states_def split: if_splits)
  have c: "automaton 22 st ls = Some t' \<longleftrightarrow>
      (\<exists>v ls1. ls = (v, LITERAL) # ls1 \<and> automaton 24 (add_condition v st) ls1 = Some t')" for st ls
    by (cases ls) (auto simp: automaton_rows success_states_def automaton_23 split: if_splits)
  assume "stops PARENS ls"
  then show ?thesis by (auto simp: a b c)
qed

lemma paren_rows:
  "automaton 20 st ((x, PARENS) # ls) = automaton 20 (add_condition x st) ls"
  "automaton 24 st ((x, PARENS) # ls) = automaton 24 (add_condition x st) ls"
  by (simp_all add: automaton_rows)

lemmas paren_20 = paren_states [of 20, OF paren_rows(1)]
lemmas paren_24 = paren_states [of 24, OF paren_rows(2)]

lemma automaton_comparison:
  "automaton 20 (True, t) ls = Some t' \<longleftrightarrow>
   (\<exists>c rest. ls = comparison_lexemes c @ rest \<and> stops PARENS rest \<and>
      automaton 24 (add_conditions (map fst (comparison_lexemes c)) (True, t)) rest = Some t')"
proof
  assume "automaton 20 (True, t) ls = Some t'"
  from paren_20 [THEN iffD1, OF this] obtain ps ls1 where
    ls: "ls = parens ps @ ls1" and stop: "stops PARENS ls1"
    and run: "automaton 20 (add_conditions ps (True, t)) ls1 = Some t'" by blast
  from automaton_20 [OF stop, THEN iffD1, OF run] obtain f op v ls2 where ls1: "ls1 = (f, LITERAL) # (op, RELATIONAL) # (v, LITERAL) # ls2"
    and run2: "automaton 24 (add_conditions [f, op, v] (add_conditions ps (True, t))) ls2 = Some t'" by blast
  from paren_24 [THEN iffD1, OF run2] obtain qs rest where ls2: "ls2 = parens qs @ rest" "stops PARENS rest"
    "automaton 24 (add_conditions qs (add_conditions [f, op, v] (add_conditions ps (True, t)))) rest = Some t'" by blast
  let ?c = "\<lparr>left_parens = ps, left_operand = f, comparison_operator = op, right_operand = v, right_parens = qs\<rparr>"
  have "map fst (comparison_lexemes ?c) = ps @ [f, op, v] @ qs"
    by (simp add: comparison_lexemes_def parens_def o_def)
  moreover have "ls = comparison_lexemes ?c @ rest" by (simp add: comparison_lexemes_def ls ls1 ls2)
  ultimately show "\<exists>c rest. ls = comparison_lexemes c @ rest \<and> stops PARENS rest \<and>
      automaton 24 (add_conditions (map fst (comparison_lexemes c)) (True, t)) rest = Some t'"
    using ls2 by (intro exI [of _ ?c] exI [of _ rest]) (simp add: add_conditions_append)
next
  assume "\<exists>c rest. ls = comparison_lexemes c @ rest \<and> stops PARENS rest \<and>
      automaton 24 (add_conditions (map fst (comparison_lexemes c)) (True, t)) rest = Some t'"
  then obtain c :: comparison and rest where ls: "ls = comparison_lexemes c @ rest" "stops PARENS rest"
    "automaton 24 (add_conditions (map fst (comparison_lexemes c)) (True, t)) rest = Some t'" by blast
  define st where "st = add_conditions (left_parens c) (True, t)"
  define st' where "st' = add_conditions [left_operand c, comparison_operator c, right_operand c] st"
  have "map fst (comparison_lexemes c) = left_parens c @
      [left_operand c, comparison_operator c, right_operand c] @ right_parens c"
    by (simp add: comparison_lexemes_def parens_def o_def)
  then have "automaton 24 (add_conditions (right_parens c) st') rest = Some t'"
    using ls(3) by (simp only: add_conditions_append st_def st'_def)
  then have "automaton 24 st' (parens (right_parens c) @ rest) = Some t'"
    using ls(2) by - (rule paren_24 [THEN iffD2], blast)
  then have "automaton 20 st ((left_operand c, LITERAL) # (comparison_operator c, RELATIONAL) #
      (right_operand c, LITERAL) # parens (right_parens c) @ rest) = Some t'"
    by (simp add: automaton_20 st'_def)
  then show "automaton 20 (True, t) ls = Some t'"
    by - (rule paren_20 [THEN iffD2], intro exI [of _ "left_parens c"] exI conjI,
      auto simp: ls(1) comparison_lexemes_def st_def)
qed

lemma where_tail_simps [simp]:
  "where_tail [] = []" "where_tail ((l, c) # cs) = (l, LOGICAL) # comparison_lexemes c @ where_tail cs"
  by (simp_all add: where_tail_def)

lemma condition_texts_append [simp]: "condition_texts (xs @ ys) = condition_texts xs @ condition_texts ys"
  by (simp add: condition_texts_def)

lemma automaton_where:
  "automaton 20 (True, t) ls = Some t' \<longleftrightarrow>
   (\<exists>w. ls = where_lexemes w \<and> t' = appends ''condition'' (condition_texts ls) t)"
proof (induction "length ls" arbitrary: ls t t' rule: less_induct)
  case less
  show ?case
  proof
    assume "automaton 20 (True, t) ls = Some t'"
    from automaton_comparison [THEN iffD1, OF this] obtain c rest where
      ls: "ls = comparison_lexemes c @ rest" and stop: "stops PARENS rest"
      and run: "automaton 24 (True, appends ''condition'' (condition_texts (comparison_lexemes c)) t) rest = Some t'"
      by (auto simp: add_conditions_eq condition_texts_def)
    from automaton_24 [OF stop, THEN iffD1, OF run]
    show "\<exists>w. ls = where_lexemes w \<and> t' = appends ''condition'' (condition_texts ls) t"
    proof
      assume "rest = [] \<and> t' = appends ''condition'' (condition_texts (comparison_lexemes c)) t"
      then show ?thesis by (intro exI [of _ "(c, [])"]) (simp add: where_lexemes_def ls)
    next
      assume "\<exists>l ls'. rest = (l, LOGICAL) # ls' \<and>
        automaton 20 (add_condition l (True, appends ''condition'' (condition_texts (comparison_lexemes c)) t)) ls' =
        Some t'"
      then obtain l ls' where rest: "rest = (l, LOGICAL) # ls'"
        and run': "automaton 20 (add_conditions [l]
          (True, appends ''condition'' (condition_texts (comparison_lexemes c)) t)) ls' = Some t'" by auto
      have len: "length ls' < length ls" by (simp add: ls rest)
      from less.hyps [OF len, THEN iffD1, OF run' [unfolded add_conditions_eq]] obtain w where
        w: "ls' = where_lexemes w" "t' = appends ''condition'' (condition_texts ls')
          (appends ''condition'' (filter (\<lambda>x. x \<noteq> ''where'') [l])
            (appends ''condition'' (condition_texts (comparison_lexemes c)) t))" by blast
      have "condition_texts ls = condition_texts (comparison_lexemes c) @
          filter (\<lambda>x. x \<noteq> ''where'') [l] @ condition_texts ls'"
        by (simp add: ls rest condition_texts_def)
      then have "t' = appends ''condition'' (condition_texts ls) t" by (simp only: w(2) appends_append)
      moreover have "ls = where_lexemes (c, (l, fst w) # snd w)"
        by (simp add: where_lexemes_def ls rest w(1))
      ultimately show ?thesis by blast
    qed
  next
    assume "\<exists>w. ls = where_lexemes w \<and> t' = appends ''condition'' (condition_texts ls) t"
    then obtain c cs where ls: "ls = comparison_lexemes c @ where_tail cs"
      and t': "t' = appends ''condition'' (condition_texts ls) t" by (auto simp: where_lexemes_def)
    let ?t = "appends ''condition'' (condition_texts (comparison_lexemes c)) t"
    have stop: "stops PARENS (where_tail cs)" by (cases cs) auto
    have "automaton 24 (True, ?t) (where_tail cs) = Some t'"
    proof (cases cs)
      case Nil
      then show ?thesis using automaton_24 [of "[]"] t' by (simp add: ls success_states_def)
    next
      case (Cons lc cs')
      obtain l d where lc: "lc = (l, d)" by (cases lc)
      let ?ls' = "where_lexemes (d, cs')"
      have len: "length ?ls' < length ls" by (simp add: ls Cons lc where_lexemes_def)
      have "automaton 20 (True, t1) ?ls' = Some (appends ''condition'' (condition_texts ?ls') t1)" for t1
        by (rule less.hyps [OF len, THEN iffD2], rule exI [of _ "(d, cs')"]) simp
      moreover have "condition_texts ls = condition_texts (comparison_lexemes c) @
          filter (\<lambda>x. x \<noteq> ''where'') [l] @ condition_texts ?ls'"
        by (simp add: ls Cons lc condition_texts_def where_lexemes_def)
      ultimately have "automaton 20 (add_conditions [l] (True, ?t)) ?ls' = Some t'"
        by (simp only: add_conditions_eq t' appends_append)
      then show ?thesis by (subst automaton_24 [OF stop]) (simp add: Cons lc where_lexemes_def)
    qed
    then show "automaton 20 (True, t) ls = Some t'"
      using stop by - (rule automaton_comparison [THEN iffD2],
        auto simp: ls add_conditions_eq condition_texts_def intro!: exI [of _ c])
  qed
qed

section \<open>Accepted statements\<close>

lemma single_rows:
  "automaton 1 st ls = Some t' \<longleftrightarrow> (\<exists>x ls'. ls = (x, TABLE) # ls' \<and> automaton 2 st ls' = Some t')"
  "automaton 2 st ls = Some t' \<longleftrightarrow> (\<exists>x ls'. ls = (x, LITERAL) # ls' \<and>
     automaton 3 (add_text ''table_name'' x st) ls' = Some t')"
  "automaton 3 st ls = Some t' \<longleftrightarrow> (\<exists>x ls'. ls = (x, FIELDS) # ls' \<and> automaton 4 st ls' = Some t')"
  "automaton 4 st ls = Some t' \<longleftrightarrow> (\<exists>x ls'. ls = (x, LITERAL) # ls' \<and>
     automaton 5 (add_text ''fields'' x st) ls' = Some t')"
  "automaton 7 st ls = Some t' \<longleftrightarrow> (\<exists>x ls'. ls = (x, INTO) # ls' \<and> automaton 8 st ls' = Some t')"
  "automaton 8 st ls = Some t' \<longleftrightarrow> (\<exists>x ls'. ls = (x, LITERAL) # ls' \<and>
     automaton 9 (add_text ''table_name'' x st) ls' = Some t')"
  "automaton 9 st ls = Some t' \<longleftrightarrow> (\<exists>x ls'. ls = (x, VALUES) # ls' \<and> automaton 10 st ls' = Some t')"
  "automaton 10 st ls = Some t' \<longleftrightarrow> (\<exists>x ls'. ls = (x, LITERAL) # ls' \<and>
     automaton 11 (add_text ''values'' x st) ls' = Some t')"
  "automaton 16 st ls = Some t' \<longleftrightarrow> (\<exists>x ls'. ls = (x, FROM) # ls' \<and> automaton 17 st ls' = Some t')"
  "automaton 17 st ls = Some t' \<longleftrightarrow> (\<exists>x ls'. ls = (x, LITERAL) # ls' \<and>
     automaton 18 (add_text ''table_name'' x st) ls' = Some t')"
  by (cases ls, auto simp: automaton_rows success_states_def simp del: One_nat_def split: if_splits)+

lemmas statement_rows = single_rows single_rows(1) [unfolded One_nat_def]

lemma item_lists:
  assumes "\<forall>l \<in> set ls. lexeme_ok l"
  shows "automaton 5 (w, t) ls = Some t' \<longleftrightarrow> (\<exists>xs. ls = comma_tail xs \<and> t' = appends ''fields'' xs t)"
    and "automaton 11 (w, t) ls = Some t' \<longleftrightarrow> (\<exists>xs. ls = comma_tail xs \<and> t' = appends ''values'' xs t)"
    and "automaton 14 (w, t) ls = Some t' \<longleftrightarrow>
      (\<exists>xs x ls'. ls = comma_tail xs @ (x, FROM) # ls' \<and> automaton 17 (w, appends ''fields'' xs t) ls' = Some t')"
proof -
  have stop: "stops COMMAS rest \<Longrightarrow> automaton 5 st rest = Some t' \<longleftrightarrow> rest = [] \<and> t' = snd st"
    "stops COMMAS rest \<Longrightarrow> automaton 11 st rest = Some t' \<longleftrightarrow> rest = [] \<and> t' = snd st" for st rest
    by (cases rest, auto simp: automaton_rows success_states_def)+
  have stop14: "stops COMMAS rest \<Longrightarrow> automaton 14 st rest = Some t' \<longleftrightarrow>
      (\<exists>x ls'. rest = (x, FROM) # ls' \<and> automaton 17 st ls' = Some t')" for st rest
    by (cases rest) (auto simp: automaton_rows success_states_def split: if_splits)
  have "automaton 5 (w, t) ls = Some t' \<longleftrightarrow> (\<exists>xs rest. ls = comma_tail xs @ rest \<and> stops COMMAS rest \<and>
      automaton 5 (w, appends ''fields'' xs t) rest = Some t')"
    by (rule comma_states [OF _ _ _ assms, where b = 6]) (simp_all add: automaton_rows success_states_def)
  then show "automaton 5 (w, t) ls = Some t' \<longleftrightarrow> (\<exists>xs. ls = comma_tail xs \<and> t' = appends ''fields'' xs t)"
    by (simp add: stop(1) cong: conj_cong)
  have "automaton 11 (w, t) ls = Some t' \<longleftrightarrow> (\<exists>xs rest. ls = comma_tail xs @ rest \<and> stops COMMAS rest \<and>
      automaton 11 (w, appends ''values'' xs t) rest = Some t')"
    by (rule comma_states [OF _ _ _ assms, where b = 12]) (simp_all add: automaton_rows success_states_def)
  then show "automaton 11 (w, t) ls = Some t' \<longleftrightarrow> (\<exists>xs. ls = comma_tail xs \<and> t' = appends ''values'' xs t)"
    by (simp add: stop(2) cong: conj_cong)
  have "automaton 14 (w, t) ls = Some t' \<longleftrightarrow> (\<exists>xs rest. ls = comma_tail xs @ rest \<and> stops COMMAS rest \<and>
      automaton 14 (w, appends ''fields'' xs t) rest = Some t')"
    by (rule comma_states [OF _ _ _ assms, where b = 15]) (simp_all add: automaton_rows success_states_def)
  also have "\<dots> \<longleftrightarrow> (\<exists>xs rest. ls = comma_tail xs @ rest \<and> stops COMMAS rest \<and>
      (\<exists>x ls'. rest = (x, FROM) # ls' \<and> automaton 17 (w, appends ''fields'' xs t) ls' = Some t'))"
    by (simp only: stop14 cong: conj_cong)
  also have "\<dots> \<longleftrightarrow> (\<exists>xs x ls'. ls = comma_tail xs @ (x, FROM) # ls' \<and>
      automaton 17 (w, appends ''fields'' xs t) ls' = Some t')"
  proof (intro iffI; elim exE conjE)
    fix xs x ls'
    assume "ls = comma_tail xs @ (x, FROM) # ls'" "automaton 17 (w, appends ''fields'' xs t) ls' = Some t'"
    then show "\<exists>xs rest. ls = comma_tail xs @ rest \<and> stops COMMAS rest \<and>
        (\<exists>x ls'. rest = (x, FROM) # ls' \<and> automaton 17 (w, appends ''fields'' xs t) ls' = Some t')"
      by (intro exI [of _ xs] exI [of _ "(x, FROM) # ls'"]) simp
  qed blast
  finally show "automaton 14 (w, t) ls = Some t' \<longleftrightarrow> (\<exists>xs x ls'. ls = comma_tail xs @ (x, FROM) # ls' \<and>
      automaton 17 (w, appends ''fields'' xs t) ls' = Some t')" .
qed

text \<open>The columns of a selection, up to \<open>from\<close>.\<close>

lemma automaton_13:
  assumes "\<forall>l \<in> set ls. lexeme_ok l"
  shows "automaton 13 (w, t) ls = Some t' \<longleftrightarrow>
    (\<exists>cols x ls'. cols \<noteq> Columns [] \<and> ls = column_lexemes cols @ (x, FROM) # ls' \<and>
       automaton 17 (w, appends ''fields'' (column_texts cols) t) ls' = Some t')" (is "_ \<longleftrightarrow> ?R")
proof (cases ls)
  case Nil
  then show ?thesis by (auto simp: success_states_def)
next
  case (Cons l ls1)
  obtain y ty where l: "l = (y, ty)" by (cases l)
  have ok: "\<forall>l \<in> set ls1. lexeme_ok l" using assms Cons by simp
  consider (all) "ty = ASTERISK" | (cols) "ty = LITERAL" | (neither) "ty \<noteq> ASTERISK" "ty \<noteq> LITERAL" by blast
  then show ?thesis
  proof cases
    case all
    then have y: "y = ''*''" using assms Cons l by (simp add: lexeme_ok_def)
    have "?R \<longleftrightarrow> (\<exists>x ls'. ls1 = (x, FROM) # ls' \<and> automaton 17 (w, appends ''fields'' [y] t) ls' = Some t')"
    proof
      assume ?R
      then obtain cols x ls' where c: "cols \<noteq> Columns []" "ls = column_lexemes cols @ (x, FROM) # ls'"
        "automaton 17 (w, appends ''fields'' (column_texts cols) t) ls' = Some t'" by blast
      from c(2) have "cols = All_Columns" using Cons l all
        by (cases cols rule: column_lexemes.cases, simp) (rename_tac xs, case_tac xs, simp_all)
      then show "\<exists>x ls'. ls1 = (x, FROM) # ls' \<and> automaton 17 (w, appends ''fields'' [y] t) ls' = Some t'"
        using c Cons l y by auto
    qed (use Cons l all y in \<open>auto intro!: exI [of _ All_Columns]\<close>)
    then show ?thesis by (simp add: Cons l all automaton_rows add_text_def single_rows(9))
  next
    case cols
    have "?R \<longleftrightarrow> (\<exists>xs x ls'. ls1 = comma_tail xs @ (x, FROM) # ls' \<and>
        automaton 17 (w, appends ''fields'' xs (mmap_append ''fields'' y t)) ls' = Some t')"
    proof
      assume ?R
      then obtain cs x ls' where c: "cs \<noteq> Columns []" "ls = column_lexemes cs @ (x, FROM) # ls'"
        "automaton 17 (w, appends ''fields'' (column_texts cs) t) ls' = Some t'" by blast
      from c(1,2) obtain xs where "cs = Columns (y # xs)" using Cons l cols
        by (cases cs rule: column_lexemes.cases, simp) (rename_tac xs, case_tac xs, simp_all)
      then show "\<exists>xs x ls'. ls1 = comma_tail xs @ (x, FROM) # ls' \<and>
          automaton 17 (w, appends ''fields'' xs (mmap_append ''fields'' y t)) ls' = Some t'"
        using c Cons l by auto
    next
      assume "\<exists>xs x ls'. ls1 = comma_tail xs @ (x, FROM) # ls' \<and>
          automaton 17 (w, appends ''fields'' xs (mmap_append ''fields'' y t)) ls' = Some t'"
      then obtain xs x ls' where "ls1 = comma_tail xs @ (x, FROM) # ls'"
          "automaton 17 (w, appends ''fields'' xs (mmap_append ''fields'' y t)) ls' = Some t'" by blast
      then show ?R using Cons l cols by (intro exI [of _ "Columns (y # xs)"] exI [of _ x] exI [of _ ls']) simp
    qed
    then show ?thesis by (simp add: Cons l cols automaton_rows add_text_def item_lists(3) [OF ok])
  next
    case neither
    have "\<not> ?R"
    proof
      assume ?R
      then obtain cs x ls' where "cs \<noteq> Columns []" "ls = column_lexemes cs @ (x, FROM) # ls'" by blast
      then show False using Cons l neither
        by (cases cs rule: column_lexemes.cases, simp) (rename_tac xs, case_tac xs, simp_all)
    qed
    then show ?thesis using neither by (simp add: Cons l automaton_rows)
  qed
qed

lemma automaton_18:
  assumes "\<forall>l \<in> set ls. lexeme_ok l"
  shows "automaton 18 (False, t) ls = Some t' \<longleftrightarrow> (ls = [] \<and> t' = t) \<or>
    (\<exists>w. ls = (''where'', WHERE) # where_lexemes w \<and>
      t' = appends ''condition'' (condition_texts (where_lexemes w)) (mmap_append ''where'' ''yes'' t))"
proof (cases ls)
  case (Cons l ls1)
  obtain y ty where l: "l = (y, ty)" by (cases l)
  have y: "y = ''where''" if "ty = WHERE" using assms Cons l that by (simp add: lexeme_ok_def)
  have "automaton 18 (False, t) ls = (if ty = WHERE then automaton 19 (enter_state 19 y (False, t)) ls1 else None)"
    by (simp add: Cons l automaton_step next_state_rows)
  then show ?thesis using y automaton_where
    by (auto simp: Cons l enter_where add_condition_def automaton_19)
qed (simp add: success_states_def eq_commute)

text \<open>What \<open>parse\<close> computes, from the lexemes of its input.\<close>

definition drop_empty :: "parse_tree \<Rightarrow> parse_tree" where
  "drop_empty t = erase_if_empty ''where'' (erase_if_empty ''condition'' t)"

fun accepts :: "lexeme list \<Rightarrow> parse_tree option" where
  "accepts [] = None"
| "accepts ((x, ty) # ls) = map_option drop_empty
     (case ty of
        CREATE \<Rightarrow> automaton 1 (False, [''command'' \<mapsto> [''create''], ''fields'' \<mapsto> [], ''table_name'' \<mapsto> []]) ls
      | INSERT \<Rightarrow> automaton 7 (False, [''command'' \<mapsto> [''insert''], ''values'' \<mapsto> [], ''table_name'' \<mapsto> []]) ls
      | SELECT \<Rightarrow> automaton 13 (False, [''command'' \<mapsto> [''select''], ''condition'' \<mapsto> [], ''fields'' \<mapsto> [],
          ''table_name'' \<mapsto> [], ''where'' \<mapsto> []]) ls
      | _ \<Rightarrow> None)"

lemma condition_not_empty: "condition_texts (where_lexemes w) \<noteq> []" if "\<forall>l \<in> set (where_lexemes w). lexeme_ok l"
proof -
  have "(comparison_operator (fst w), RELATIONAL) \<in> set (where_lexemes w)"
    by (simp add: where_lexemes_def comparison_lexemes_def)
  moreover from this that have "comparison_operator (fst w) \<in> set relational_operators"
    by (auto simp: lexeme_ok_def)
  then have "comparison_operator (fst w) \<noteq> ''where''" by (auto simp: relational_operators_def)
  ultimately show ?thesis by (force simp: condition_texts_def filter_empty_conv)
qed

lemma create_trees:
  fixes t :: parse_tree
  defines "t \<equiv> [''command'' \<mapsto> [''create''], ''fields'' \<mapsto> [], ''table_name'' \<mapsto> []]"
  shows "drop_empty (appends ''fields'' flds (mmap_append ''table_name'' name t)) =
    statement_tree (Create_Table name flds)"
  by (subst appends_eq [of _ _ "[]"])
    (auto simp: t_def mmap_append_eq drop_empty_def erase_if_empty_def mmap_at_def mmap_erase_def fun_eq_iff)

lemma insert_trees:
  fixes t :: parse_tree
  defines "t \<equiv> [''command'' \<mapsto> [''insert''], ''values'' \<mapsto> [], ''table_name'' \<mapsto> []]"
  shows "drop_empty (appends ''values'' vals (mmap_append ''table_name'' name t)) =
    statement_tree (Insert_Into name vals)"
  by (subst appends_eq [of _ _ "[]"])
    (auto simp: t_def mmap_append_eq drop_empty_def erase_if_empty_def mmap_at_def mmap_erase_def fun_eq_iff)

lemma select_trees:
  fixes t u :: parse_tree and cols :: columns and name :: string
  defines "t \<equiv> [''command'' \<mapsto> [''select''], ''condition'' \<mapsto> [], ''fields'' \<mapsto> [], ''table_name'' \<mapsto> [],
    ''where'' \<mapsto> []]"
  defines "u \<equiv> mmap_append ''table_name'' name (appends ''fields'' (column_texts cols) t)"
  shows "drop_empty u = statement_tree (Select_From cols name None)"
    and "condition_texts (where_lexemes w) \<noteq> [] \<Longrightarrow>
      drop_empty (appends ''condition'' (condition_texts (where_lexemes w)) (mmap_append ''where'' ''yes'' u)) =
      statement_tree (Select_From cols name (Some w))"
proof -
  have u: "u = t(''fields'' \<mapsto> column_texts cols, ''table_name'' \<mapsto> [name])"
    by (simp add: u_def t_def mmap_append_eq appends_eq [of _ _ "[]"])
  show "drop_empty u = statement_tree (Select_From cols name None)"
    by (auto simp: u t_def drop_empty_def erase_if_empty_def mmap_at_def mmap_erase_def fun_eq_iff)
  show "drop_empty (appends ''condition'' (condition_texts (where_lexemes w)) (mmap_append ''where'' ''yes'' u)) =
      statement_tree (Select_From cols name (Some w))" if "condition_texts (where_lexemes w) \<noteq> []"
    using that
    by (auto simp: u t_def appends_eq [of _ _ "[]"] mmap_append_eq drop_empty_def erase_if_empty_def mmap_at_def
        mmap_erase_def fun_eq_iff)
qed

lemma lexemes_ok_append: "(\<forall>l \<in> set (xs @ ys). lexeme_ok l) \<longleftrightarrow> (\<forall>l \<in> set xs. lexeme_ok l) \<and> (\<forall>l \<in> set ys. lexeme_ok l)"
  by auto

lemma ex_nonempty: "(\<exists>xs. xs \<noteq> [] \<and> P xs) \<longleftrightarrow> (\<exists>y ys. P (y # ys))"
  by (metis neq_Nil_conv)

text \<open>\<open>create\<close> and \<open>insert\<close> share the form keyword, name, keyword, list.\<close>

lemma list_command:
  assumes rows: "\<And>st ls u. automaton s st ls = Some u \<longleftrightarrow>
      (\<exists>a name b f ls'. ls = (a, K1) # (name, LITERAL) # (b, K2) # (f, LITERAL) # ls' \<and>
         automaton e (add_text k f (add_text ''table_name'' name st)) ls' = Some u)"
    and items: "\<And>ls w t u. \<forall>l \<in> set ls. lexeme_ok l \<Longrightarrow>
      automaton e (w, t) ls = Some u \<longleftrightarrow> (\<exists>xs. ls = comma_tail xs \<and> u = appends k xs t)"
    and reserved: "\<And>x. lexeme_ok (x, K1) \<longleftrightarrow> x = k1" "\<And>x. lexeme_ok (x, K2) \<longleftrightarrow> x = k2"
    and ok: "\<forall>l \<in> set ls. lexeme_ok l"
  shows "automaton s (w, t) ls = Some u \<longleftrightarrow>
    (\<exists>name xs. xs \<noteq> [] \<and> ls = [(k1, K1), (name, LITERAL), (k2, K2)] @ comma_list xs \<and>
       u = appends k xs (mmap_append ''table_name'' name t))"
proof
  assume "automaton s (w, t) ls = Some u"
  then obtain a name b f ls' where ls: "ls = (a, K1) # (name, LITERAL) # (b, K2) # (f, LITERAL) # ls'"
    and run: "automaton e (w, mmap_append k f (mmap_append ''table_name'' name t)) ls' = Some u"
    unfolding rows by (auto simp: add_text_def)
  have ok': "\<forall>l \<in> set ls'. lexeme_ok l" and ab: "a = k1" "b = k2"
    using ok ls reserved by simp_all
  obtain xs where "ls' = comma_tail xs" "u = appends k (f # xs) (mmap_append ''table_name'' name t)"
    using items [OF ok', THEN iffD1, OF run] by auto
  then show "\<exists>name xs. xs \<noteq> [] \<and> ls = [(k1, K1), (name, LITERAL), (k2, K2)] @ comma_list xs \<and>
      u = appends k xs (mmap_append ''table_name'' name t)"
    by (intro exI [of _ name] exI [of _ "f # xs"]) (simp add: ls ab)
next
  assume "\<exists>name xs. xs \<noteq> [] \<and> ls = [(k1, K1), (name, LITERAL), (k2, K2)] @ comma_list xs \<and>
      u = appends k xs (mmap_append ''table_name'' name t)"
  then obtain name f xs where ls: "ls = [(k1, K1), (name, LITERAL), (k2, K2)] @ comma_list (f # xs)"
    and u: "u = appends k (f # xs) (mmap_append ''table_name'' name t)" unfolding ex_nonempty by blast
  have "\<forall>l \<in> set (comma_tail xs). lexeme_ok l" using ok ls by simp
  from items [OF this, THEN iffD2]
  have "automaton e (w, mmap_append k f (mmap_append ''table_name'' name t)) (comma_tail xs) = Some u"
    using u by auto
  then show "automaton s (w, t) ls = Some u" unfolding rows by (simp add: ls add_text_def)
qed

lemma accepts_create:
  assumes ok: "\<forall>l \<in> set ((x, CREATE) # ls). lexeme_ok l"
  shows "accepts ((x, CREATE) # ls) = Some t \<longleftrightarrow>
    (\<exists>name flds. flds \<noteq> [] \<and> (x, CREATE) # ls = statement_lexemes (Create_Table name flds) \<and>
      t = statement_tree (Create_Table name flds))"
proof -
  let ?t = "[''command'' \<mapsto> [''create''], ''fields'' \<mapsto> [], ''table_name'' \<mapsto> []] :: parse_tree"
  have x: "x = ''create''" using ok by (simp add: lexeme_ok_def)
  have run: "automaton 1 (False, ?t) ls = Some u \<longleftrightarrow>
      (\<exists>name xs. xs \<noteq> [] \<and> ls = [(''table'', TABLE), (name, LITERAL), (''fields'', FIELDS)] @ comma_list xs \<and>
         u = appends ''fields'' xs (mmap_append ''table_name'' name ?t))" for u
    by (rule list_command [where e = 5]) (use ok in \<open>auto simp: statement_rows item_lists lexeme_ok_def\<close>)
  have "accepts ((x, CREATE) # ls) = Some t \<longleftrightarrow> (\<exists>u. automaton 1 (False, ?t) ls = Some u \<and> drop_empty u = t)"
    by (simp del: One_nat_def)
  also have "\<dots> \<longleftrightarrow> (\<exists>name flds. flds \<noteq> [] \<and> (x, CREATE) # ls = statement_lexemes (Create_Table name flds) \<and>
      t = statement_tree (Create_Table name flds))"
    unfolding run create_trees [symmetric] by (auto simp: x)
  finally show ?thesis .
qed

lemma accepts_insert:
  assumes ok: "\<forall>l \<in> set ((x, INSERT) # ls). lexeme_ok l"
  shows "accepts ((x, INSERT) # ls) = Some t \<longleftrightarrow>
    (\<exists>name vals. vals \<noteq> [] \<and> (x, INSERT) # ls = statement_lexemes (Insert_Into name vals) \<and>
      t = statement_tree (Insert_Into name vals))"
proof -
  let ?t = "[''command'' \<mapsto> [''insert''], ''values'' \<mapsto> [], ''table_name'' \<mapsto> []] :: parse_tree"
  have x: "x = ''insert''" using ok by (simp add: lexeme_ok_def)
  have run: "automaton 7 (False, ?t) ls = Some u \<longleftrightarrow>
      (\<exists>name xs. xs \<noteq> [] \<and> ls = [(''into'', INTO), (name, LITERAL), (''values'', VALUES)] @ comma_list xs \<and>
         u = appends ''values'' xs (mmap_append ''table_name'' name ?t))" for u
    by (rule list_command [where e = 11]) (use ok in \<open>auto simp: statement_rows item_lists lexeme_ok_def\<close>)
  have "accepts ((x, INSERT) # ls) = Some t \<longleftrightarrow> (\<exists>u. automaton 7 (False, ?t) ls = Some u \<and> drop_empty u = t)"
    by simp
  also have "\<dots> \<longleftrightarrow> (\<exists>name vals. vals \<noteq> [] \<and> (x, INSERT) # ls = statement_lexemes (Insert_Into name vals) \<and>
      t = statement_tree (Insert_Into name vals))"
    unfolding run insert_trees [symmetric] by (auto simp: x)
  finally show ?thesis .
qed

lemma accepts_select:
  assumes ok: "\<forall>l \<in> set ((x, SELECT) # ls). lexeme_ok l"
  shows "accepts ((x, SELECT) # ls) = Some t \<longleftrightarrow>
    (\<exists>cols name w. cols \<noteq> Columns [] \<and> (x, SELECT) # ls = statement_lexemes (Select_From cols name w) \<and>
      t = statement_tree (Select_From cols name w))"
proof -
  let ?t = "[''command'' \<mapsto> [''select''], ''condition'' \<mapsto> [], ''fields'' \<mapsto> [], ''table_name'' \<mapsto> [],
    ''where'' \<mapsto> []] :: parse_tree"
  let ?u = "\<lambda>cols name. mmap_append ''table_name'' name (appends ''fields'' (column_texts cols) ?t)"
  have x: "x = ''select''" using ok by (simp add: lexeme_ok_def)
  show ?thesis
  proof
    assume "accepts ((x, SELECT) # ls) = Some t"
    then obtain u where run: "automaton 13 (False, ?t) ls = Some u" and t: "t = drop_empty u" by auto
    have ok1: "\<forall>l \<in> set ls. lexeme_ok l" using ok by simp
    obtain cols a ls1 where cols: "cols \<noteq> Columns []" and ls: "ls = column_lexemes cols @ (a, FROM) # ls1"
      and run1: "automaton 17 (False, appends ''fields'' (column_texts cols) ?t) ls1 = Some u"
      using automaton_13 [OF ok1, THEN iffD1, OF run] by blast
    then obtain name ls2 where ls1: "ls1 = (name, LITERAL) # ls2" and
      run2: "automaton 18 (False, ?u cols name) ls2 = Some u" by (auto simp: single_rows add_text_def)
    have ok2: "\<forall>l \<in> set ls2. lexeme_ok l" and a: "a = ''from''"
      using ok1 ls ls1 by (auto simp: lexeme_ok_def)
    from automaton_18 [OF ok2, THEN iffD1, OF run2]
    show "\<exists>cols name w. cols \<noteq> Columns [] \<and> (x, SELECT) # ls = statement_lexemes (Select_From cols name w) \<and>
        t = statement_tree (Select_From cols name w)"
    proof
      assume "ls2 = [] \<and> u = ?u cols name"
      then show ?thesis using cols ls ls1 a x t select_trees(1)
        by (intro exI [of _ cols] exI [of _ name] exI [of _ None]) simp
    next
      assume "\<exists>w. ls2 = (''where'', WHERE) # where_lexemes w \<and>
        u = appends ''condition'' (condition_texts (where_lexemes w)) (mmap_append ''where'' ''yes'' (?u cols name))"
      then obtain w where w: "ls2 = (''where'', WHERE) # where_lexemes w"
        "u = appends ''condition'' (condition_texts (where_lexemes w)) (mmap_append ''where'' ''yes'' (?u cols name))"
        by blast
      have "condition_texts (where_lexemes w) \<noteq> []" using ok2 w(1) by (intro condition_not_empty) simp
      then show ?thesis using cols ls ls1 a x t w select_trees(2)
        by (intro exI [of _ cols] exI [of _ name] exI [of _ "Some w"]) simp
    qed
  next
    assume "\<exists>cols name w. cols \<noteq> Columns [] \<and> (x, SELECT) # ls = statement_lexemes (Select_From cols name w) \<and>
        t = statement_tree (Select_From cols name w)"
    then obtain cols name w where cols: "cols \<noteq> Columns []" and
      st: "(x, SELECT) # ls = statement_lexemes (Select_From cols name w)" "t = statement_tree (Select_From cols name w)"
      by blast
    let ?ls2 = "case w of None \<Rightarrow> [] | Some w \<Rightarrow> (''where'', WHERE) # where_lexemes w"
    have ls: "ls = column_lexemes cols @ (''from'', FROM) # (name, LITERAL) # ?ls2" using st(1) by simp
    have ok1: "\<forall>l \<in> set ls. lexeme_ok l" and ok2: "\<forall>l \<in> set ?ls2. lexeme_ok l"
      using ok ls by auto
    have "\<exists>u. automaton 18 (False, ?u cols name) ?ls2 = Some u \<and> t = drop_empty u"
    proof (cases w)
      case None
      then show ?thesis using automaton_18 [of "[]"] select_trees(1) st(2) by simp
    next
      case (Some v)
      have ne: "condition_texts (where_lexemes v) \<noteq> []" using ok2 Some by (intro condition_not_empty) simp
      have "automaton 18 (False, ?u cols name) ?ls2 = Some (appends ''condition''
          (condition_texts (where_lexemes v)) (mmap_append ''where'' ''yes'' (?u cols name)))"
        by (rule automaton_18 [OF ok2, THEN iffD2], rule disjI2, rule exI [of _ v]) (simp add: Some)
      then show ?thesis using select_trees(2) [OF ne, symmetric] st(2) Some by blast
    qed
    then obtain u where u: "automaton 18 (False, ?u cols name) ?ls2 = Some u" "t = drop_empty u" by blast
    then have "automaton 17 (False, appends ''fields'' (column_texts cols) ?t) ((name, LITERAL) # ?ls2) = Some u"
      by (simp add: single_rows add_text_def)
    then have "automaton 13 (False, ?t) ls = Some u"
      using cols ls by (intro automaton_13 [OF ok1, THEN iffD2]) blast
    then show "accepts ((x, SELECT) # ls) = Some t" using u(2) by simp
  qed
qed

text \<open>Every accepted lexeme list is a statement, and every statement is accepted with its tree.\<close>

lemma accepts_iff:
  assumes "\<forall>l \<in> set ls. lexeme_ok l"
  shows "accepts ls = Some t \<longleftrightarrow>
    (\<exists>stmt. complete stmt \<and> ls = statement_lexemes stmt \<and> t = statement_tree stmt)"
proof (cases ls)
  case Nil
  have "[] \<noteq> statement_lexemes stmt" for stmt by (cases stmt rule: statement_lexemes.cases) simp_all
  then show ?thesis using Nil by auto
next
  case (Cons l ls1)
  obtain x ty where l: "l = (x, ty)" by (cases l)
  have stmts: "(\<exists>stmt. P stmt) \<longleftrightarrow> (\<exists>name flds. P (Create_Table name flds)) \<or>
      (\<exists>name vals. P (Insert_Into name vals)) \<or> (\<exists>cols name w. P (Select_From cols name w))" for P
    by (metis statement.exhaust)
  consider "ty = CREATE" | "ty = INSERT" | "ty = SELECT" | (other) "ty \<notin> {CREATE, INSERT, SELECT}" by blast
  then show ?thesis
  proof cases
    case 1
    then show ?thesis using accepts_create [of x ls1 t] assms by (simp add: Cons l stmts)
  next
    case 2
    then show ?thesis using accepts_insert [of x ls1 t] assms by (simp add: Cons l stmts)
  next
    case 3
    then show ?thesis using accepts_select [of x ls1 t] assms
      by (simp add: Cons l stmts del: statement_tree.simps)
  next
    case other
    then have "accepts ls = None" by (cases ty) (simp_all add: Cons l)
    then show ?thesis using other by (simp add: Cons l stmts)
  qed
qed

lemma parse_accepts:
  assumes "ps_tree ps = Map.empty" and "length (ps_input ps) = length (ps_types ps)"
    and "CREATE \<notin> set (tl (ps_types ps))"
  shows "map_option fst (parse_tree ps) =
    Some (case accepts (map lexeme (zip (ps_input ps) (ps_types ps))) of None \<Rightarrow> Map.empty | Some t \<Rightarrow> t)"
proof (cases "ps_types ps")
  case Nil
  then show ?thesis using assms by (simp add: parse_tree_def parse_def)
next
  case (Cons ty tys)
  then obtain tok toks where input: "ps_input ps = tok # toks" "length toks = length tys"
    using assms(2) by (cases "ps_input ps") auto
  let ?zs = "zip toks tys"
  have "CREATE \<notin> snd ` set ?zs" using assms(3) Cons by (auto dest: set_zip_rightD)
  note steps = parse_steps_automaton [OF this]
  have run: "map_option fst (parse_tree ps) =
      Some (case map_option drop_empty (automaton s (False, t0) (map lexeme ?zs)) of
        None \<Rightarrow> Map.empty | Some t \<Rightarrow> t)"
    if "start_tree ty Map.empty = Some (Some t0)" "parser_table 0 (ptype_code ty) = int s" "0 < s" "s < 25" for s t0
    using that Cons input assms(1) steps [OF that(3,4), of "(False, t0)", symmetric]
    by (auto simp: parse_tree_def parse_def drop_empty_def split: prod.split option.split)
  have start: "parser_table 0 (ptype_code INSERT) = 7" "parser_table 0 (ptype_code SELECT) = 13"
    "parser_table 0 0 = 1"
    using parser_table_start parser_table_next [of INSERT 0] parser_table_next [of SELECT 0] by (simp_all add: next_state_rows)
  have z: "map lexeme (zip (ps_input ps) (ps_types ps)) = (st_text tok, ty) # map lexeme ?zs"
    using Cons input by (simp add: lexeme_def)
  consider "ty = CREATE" | "ty = INSERT" | "ty = SELECT" | (other) "ty \<notin> {CREATE, INSERT, SELECT}" by blast
  then show ?thesis
  proof cases
    case 1
    then show ?thesis
      using run [of "[''command'' \<mapsto> [''create''], ''fields'' \<mapsto> [], ''table_name'' \<mapsto> []]" 1] start
      by (simp add: z start_tree_def mmap_insert_def mmap_insert_key_def del: One_nat_def)
  next
    case 2
    then show ?thesis
      using run [of "[''command'' \<mapsto> [''insert''], ''values'' \<mapsto> [], ''table_name'' \<mapsto> []]" 7] start
      by (simp add: z start_tree_def mmap_insert_def mmap_insert_key_def)
  next
    case 3
    then show ?thesis
      using run [of "[''command'' \<mapsto> [''select''], ''condition'' \<mapsto> [], ''fields'' \<mapsto> [], ''table_name'' \<mapsto> [],
        ''where'' \<mapsto> []]" 13] start
      by (simp add: z start_tree_def mmap_insert_def mmap_insert_key_def)
  next
    case other
    then have "start_tree ty Map.empty = Some None" by (cases ty) (simp_all add: start_tree_def)
    then show ?thesis
      using other Cons input assms(1) by (cases ty) (simp_all add: parse_tree_def parse_def lexeme_def)
  qed
qed

section \<open>From text to lexemes\<close>

text \<open>The token loop on a token list; \<open>None\<close> when the text is rejected.\<close>

fun scan :: "bool \<Rightarrow> string \<Rightarrow> stoken list \<Rightarrow> (stoken \<times> ptype) list option" where
  "scan inside_quote literal [] = (if inside_quote then None else Some [])"
| "scan inside_quote literal (token # rest) =
     (if inside_quote then
        if st_text token = double_quote
        then map_option (Cons (SToken literal TOKEN_ALPHA, LITERAL)) (scan False [] rest)
        else scan True (literal @ st_text token) rest
      else if st_text token = double_quote then scan True literal rest
      else if st_kind token = TOKEN_SPACE then scan False literal rest
      else
        (case classify_unquoted_token token of
           None \<Rightarrow> None
         | Some type \<Rightarrow> map_option (Cons (token, type)) (scan False literal rest)))"

definition scanned :: "bool \<Rightarrow> string \<Rightarrow> parser \<Rightarrow> parser \<Rightarrow> bool" where
  "scanned q l ps ps' \<longleftrightarrow> ps_tree ps' = ps_tree ps \<and>
     (case scan q l (lex (drop (tk_pos (ps_token ps)) (tk_buffer (ps_token ps)))) of
        None \<Rightarrow> ps_input ps' = [] \<and> ps_types ps' = []
      | Some ts \<Rightarrow> ps_input ps' = ps_input ps @ map fst ts \<and> ps_types ps' = ps_types ps @ map snd ts)"

lemma tokenize_loop_scan:
  "CHR 0x00 \<notin> set (tk_buffer (ps_token ps)) \<Longrightarrow> scanned q l ps (tokenize_loop q l ps)"
proof (induction "length (tk_buffer (ps_token ps)) - tk_pos (ps_token ps)" arbitrary: q l ps rule: less_induct)
  case less
  let ?s = "ps_token ps"
  show ?case
  proof (cases "drop (tk_pos ?s) (tk_buffer ?s)")
    case Nil
    then have "get_token 0 ?s = None" by (simp add: get_token_none tk_done_def)
    then show ?thesis by (subst tokenize_loop.simps) (simp add: Nil clear_tokens_def scanned_def)
  next
    case (Cons c cs)
    let ?n = "lexeme_length c cs"
    let ?token = "SToken (take ?n (c # cs)) (char_kind c)" and ?s' = "?s\<lparr>tk_pos := tk_pos ?s + ?n\<rparr>"
    note get = get_token_eq [OF less.prems Cons]
    have rest: "drop (tk_pos ?s + ?n) (tk_buffer ?s) = drop ?n (c # cs)"
      using Cons by (simp flip: drop_drop add: add.commute)
    have IH: "scanned q' l' ps' (tokenize_loop q' l' ps')" if "ps_token ps' = ?s'" for q' l' ps'
      using get_token_measure [OF get] less.prems that by (intro less.hyps) simp_all
    have lex: "lex (c # cs) = ?token # lex (drop ?n (c # cs))" by (rule lex.simps(2))
    consider (inside) "q" "st_text ?token \<noteq> double_quote" | (closed) "q" "st_text ?token = double_quote"
      | (opened) "\<not> q" "st_text ?token = double_quote"
      | (space) "\<not> q" "st_text ?token \<noteq> double_quote" "st_kind ?token = TOKEN_SPACE"
      | (bad) "\<not> q" "st_text ?token \<noteq> double_quote" "st_kind ?token \<noteq> TOKEN_SPACE"
          "classify_unquoted_token ?token = None"
      | (good) type where "\<not> q" "st_text ?token \<noteq> double_quote" "st_kind ?token \<noteq> TOKEN_SPACE"
          "classify_unquoted_token ?token = Some type"
      by (metis option.exhaust)
    then show ?thesis
    proof cases
      case inside
      then show ?thesis using IH [of "ps\<lparr>ps_token := ?s'\<rparr>" True "l @ st_text ?token"]
        by (subst tokenize_loop.simps) (simp add: get Let_def scanned_def Cons lex rest split: option.splits)
    next
      case closed
      then show ?thesis
        using IH [of "push_token (SToken l TOKEN_ALPHA) LITERAL (ps\<lparr>ps_token := ?s'\<rparr>)" False "[]"]
        by (subst tokenize_loop.simps)
          (simp add: get Let_def scanned_def Cons lex rest push_token_def split: option.splits)
    next
      case opened
      then show ?thesis using IH [of "ps\<lparr>ps_token := ?s'\<rparr>" True l]
        by (subst tokenize_loop.simps) (simp add: get Let_def scanned_def Cons lex rest split: option.splits)
    next
      case space
      then show ?thesis using IH [of "ps\<lparr>ps_token := ?s'\<rparr>" False l]
        by (subst tokenize_loop.simps) (simp add: get Let_def scanned_def Cons lex rest split: option.splits)
    next
      case bad
      then show ?thesis
        by (subst tokenize_loop.simps) (simp add: get Let_def scanned_def Cons lex clear_tokens_def)
    next
      case good
      then show ?thesis using IH [of "push_token ?token type (ps\<lparr>ps_token := ?s'\<rparr>)" False l]
        by (subst tokenize_loop.simps)
          (simp add: get Let_def scanned_def Cons lex rest push_token_def split: option.splits)
    qed
  qed
qed

text \<open>What the scanner returns is what the lexeme conditions ask for.\<close>

lemma char_kind_single:
  "char_kind c = TOKEN_PAREN \<Longrightarrow> c \<in> set PAREN" "char_kind c = TOKEN_STAR \<Longrightarrow> c \<in> set STAR"
  "char_kind c = TOKEN_COMMA \<Longrightarrow> c \<in> set COMMA"
  by (auto simp: char_kind_def split: if_splits)

lemma classify_ok:
  assumes "classify_unquoted_token token = Some type" and "token \<in> set (lex cs)"
  shows "lexeme_ok (st_text token, type)"
proof -
  have "\<exists>d. d \<in> set PAREN \<and> st_text token = [d]" if "st_kind token = TOKEN_PAREN"
    using assms(2) that
  proof (induction cs rule: lex.induct)
    case (2 c cs)
    then show ?case using char_kind_single(1) [of c]
      by (auto simp: lex.simps(2) SToken_def lexeme_length_def)
  qed simp
  then have paren: "st_text token = ''('' \<or> st_text token = '')''" if "st_kind token = TOKEN_PAREN"
    using that by (auto simp: PAREN_def)
  show ?thesis
    using assms(1) paren
    by (auto simp: classify_unquoted_token_def lexeme_ok_def Let_def split: if_splits)
qed

lemma lexeme_Pair: "lexeme (token, t) = (st_text token, t)"
  by (simp add: lexeme_def)

lemma lexeme_ok_literal: "lexeme_ok (x, LITERAL)"
  by (simp add: lexeme_ok_def)

lemma scan_ok:
  "scan q l toks = Some ts \<Longrightarrow> set toks \<subseteq> set (lex cs) \<Longrightarrow>
   \<forall>(token, t) \<in> set ts. lexeme_ok (st_text token, t)"
proof (induction q l toks arbitrary: ts rule: scan.induct)
  case (2 q l token rest)
  have ok: "classify_unquoted_token token = Some t \<Longrightarrow> lexeme_ok (st_text token, t)" for t
    using classify_ok "2.prems"(2) by auto
  show ?case
    using 2 ok by (auto simp: SToken_def lexeme_ok_literal split: if_splits option.splits) fastforce
qed (simp split: if_splits)

section \<open>The whole parser\<close>

definition fresh_parser :: parser where
  "fresh_parser = \<lparr>ps_input = [], ps_types = [], ps_tree = Map.empty, ps_token = set_string []\<rparr>"

text \<open>\<open>SQL::command\<close>: \<open>set_string\<close> and \<open>parse_tree\<close> on a parser in any state.\<close>

definition parse_command :: "string \<Rightarrow> parser \<Rightarrow> (parse_tree \<times> parser) option" where
  "parse_command str ps = parse_tree (parser_set_string str ps)"

lemma c_str_no_nul: "CHR 0x00 \<notin> set (c_str s)"
  by (auto simp: c_str_def dest: set_takeWhileD)

lemma parser_set_string_scan:
  "ps_tree (parser_set_string str ps) = Map.empty \<and>
   (case scan False [] (lex (c_str str)) of
      None \<Rightarrow> ps_input (parser_set_string str ps) = [] \<and> ps_types (parser_set_string str ps) = []
    | Some ts \<Rightarrow> ps_input (parser_set_string str ps) = map fst ts \<and>
        ps_types (parser_set_string str ps) = map snd ts)"
proof -
  let ?ps = "ps\<lparr>ps_tree := Map.empty, ps_types := [], ps_input := [], ps_token := set_string str\<rparr>"
  have "scanned False [] ?ps (tokenize_loop False [] ?ps)"
    by (rule tokenize_loop_scan) (simp add: set_string_def c_str_no_nul)
  then show ?thesis
    by (simp add: scanned_def parser_set_string_def tokenize_def set_string_def split: option.splits)
qed

text \<open>
  The parser as a function of the text: \<open>parse_command_tree\<close> is what \<open>sql_tree\<close> says of \<open>parse_command\<close>, for
  texts without a \<open>create\<close> token behind the first.
\<close>

definition sql_tree :: "string \<Rightarrow> parse_tree option" where
  "sql_tree str = Option.bind (scan False [] (lex (c_str str))) (\<lambda>ts. accepts (map lexeme ts))"

lemma parse_command_tree:
  assumes "\<And>ts. scan False [] (lex (c_str str)) = Some ts \<Longrightarrow> CREATE \<notin> set (tl (map snd ts))"
  shows "map_option fst (parse_command str ps) =
    Some (case sql_tree str of None \<Rightarrow> Map.empty | Some t \<Rightarrow> t)"
proof (cases "scan False [] (lex (c_str str))")
  case None
  then show ?thesis
    using parser_set_string_scan [of str ps] parse_accepts [of "parser_set_string str ps"]
    by (simp add: parse_command_def sql_tree_def)
next
  case (Some ts)
  then show ?thesis
    using parser_set_string_scan [of str ps] parse_accepts [of "parser_set_string str ps"] assms
    by (simp add: parse_command_def sql_tree_def zip_map_fst_snd)
qed

text \<open>\<open>sql_tree\<close> follows the grammar.\<close>

lemma sql_tree_iff:
  "sql_tree str = Some t \<longleftrightarrow>
   (\<exists>ts stmt. scan False [] (lex (c_str str)) = Some ts \<and> complete stmt \<and>
      map lexeme ts = statement_lexemes stmt \<and> t = statement_tree stmt)"
proof (cases "scan False [] (lex (c_str str))")
  case (Some ts)
  from scan_ok [OF Some, of "c_str str"] have "\<forall>l \<in> set (map lexeme ts). lexeme_ok l"
    by (auto simp: lexeme_def)
  from accepts_iff [OF this] show ?thesis by (simp add: sql_tree_def Some)
qed (simp add: sql_tree_def)

section \<open>Printing a statement\<close>

definition plain_word :: "string \<Rightarrow> bool" where
  "plain_word x \<longleftrightarrow> x \<noteq> [] \<and> hd x \<notin> set DIGITS \<and> (\<forall>c \<in> set x. c \<in> set ALPHAS) \<and>
     classify_unquoted_token (SToken x TOKEN_ALPHA) = Some LITERAL"

definition print_lexeme :: "lexeme \<Rightarrow> string" where
  "print_lexeme = (\<lambda>(x, t). if t = LITERAL \<and> \<not> plain_word x then double_quote @ x @ double_quote else x)"

definition print_sql :: "statement \<Rightarrow> string" where
  "print_sql stmt = concat (map (\<lambda>l. print_lexeme l @ '' '') (statement_lexemes stmt))"

definition printable :: "lexeme \<Rightarrow> bool" where
  "printable l \<longleftrightarrow> lexeme_ok l \<and> CHR 0x00 \<notin> set (fst l) \<and> CHR 0x22 \<notin> set (fst l)"

lemma prefix_length_stop:
  "\<not> P d \<Longrightarrow> prefix_length P (s @ d # rest) = prefix_length P s"
  by (induction s) simp_all

lemma prefix_length_all: "\<forall>c \<in> set s. P c \<Longrightarrow> prefix_length P s = length s"
  by (induction s) simp_all

lemma number_length_stop:
  assumes "d \<notin> set DIGITS" "d \<noteq> CHR ''.''"
  shows "number_length (s @ d # rest) = number_length s"
proof (induction s)
  case Nil
  then show ?case using assms by (simp add: fraction_length_def split: list.split)
next
  case (Cons c s)
  show ?case
  proof (cases "c \<in> set DIGITS")
    case False
    have "fraction_length (c # s @ d # rest) = fraction_length (c # s)"
      using assms by (cases s) (simp_all add: fraction_length_def prefix_length_stop split: list.split)
    then show ?thesis using False by simp
  qed (use Cons in simp)
qed

lemma lexeme_length_stop:
  assumes "d \<notin> set ALPHAS" "d \<notin> set DIGITS" "d \<notin> set OPERATORS" "d \<noteq> CHR ''.''"
  shows "lexeme_length c (s @ d # rest) = lexeme_length c s"
  using assms by (simp add: lexeme_length_def prefix_length_stop number_length_stop split: token_kind.split)

abbreviation quote_char :: char where "quote_char \<equiv> CHR 0x22"

lemma quote_char_classes:
  "quote_char \<notin> set ALPHAS" "quote_char \<notin> set DIGITS" "quote_char \<notin> set OPERATORS" "quote_char \<noteq> CHR ''.''"
  by (simp_all add: char_classes)

lemma lex_quote: "lex (quote_char # rest) = SToken double_quote TOKEN_UNKNOWN # lex rest"
  by (simp add: lex.simps(2) char_kind_def char_classes lexeme_length_def double_quote_def)

text \<open>A quoted text is one literal, whatever tokens it holds.\<close>

lemma scan_quoted:
  "quote_char \<notin> set s \<Longrightarrow>
   scan True l (lex (s @ quote_char # rest)) =
   map_option (Cons (SToken (l @ s) TOKEN_ALPHA, LITERAL)) (scan False [] (lex rest))"
proof (induction s arbitrary: l rule: length_induct)
  case (1 s)
  show ?case
  proof (cases s)
    case Nil
    then show ?thesis by (simp add: lex_quote SToken_def double_quote_def)
  next
    case (Cons c cs)
    let ?n = "lexeme_length c cs"
    have n: "lexeme_length c (cs @ quote_char # rest) = ?n" by (rule lexeme_length_stop) (rule quote_char_classes)+
    have le: "?n \<le> length s" "0 < ?n" using lexeme_length_le [of c cs] Cons by (simp_all add: lexeme_length_def)
    have "quote_char \<notin> set (take ?n s)" "quote_char \<notin> set (drop ?n s)"
      using 1(2) by (auto dest: in_set_takeD in_set_dropD)
    then have "take ?n s \<noteq> double_quote" by (auto simp: double_quote_def)
    moreover have "length (drop ?n s) < length s" using le Cons by simp
    moreover have "lex (s @ quote_char # rest) = SToken (take ?n (s @ quote_char # rest)) (char_kind c)
        # lex (drop ?n (s @ quote_char # rest))"
      by (simp add: Cons lex.simps(2) n)
    then have "lex (s @ quote_char # rest) =
        SToken (take ?n s) (char_kind c) # lex (drop ?n s @ quote_char # rest)"
      using le by simp
    ultimately show ?thesis
      using 1(1) [rule_format, of "drop ?n s" "l @ take ?n s"] \<open>quote_char \<notin> set (drop ?n s)\<close>
      by (simp add: SToken_def)
  qed
qed

lemma space_classes:
  "CHR '' '' \<notin> set ALPHAS" "CHR '' '' \<notin> set DIGITS" "CHR '' '' \<notin> set OPERATORS" "CHR '' '' \<noteq> CHR ''.''"
  by (simp_all add: char_classes)

lemma lex_space: "lex (CHR '' '' # rest) = SToken '' '' TOKEN_SPACE # lex rest"
  by (simp add: lex.simps(2) char_kind_def char_classes lexeme_length_def)

text \<open>A text whose first token is all of it, followed by a space.\<close>

lemma lex_whole:
  assumes "lexeme_length c cs = Suc (length cs)"
  shows "lex ((c # cs) @ '' '' @ rest) = SToken (c # cs) (char_kind c) # SToken '' '' TOKEN_SPACE # lex rest"
proof -
  have "lexeme_length c (cs @ CHR '' '' # rest) = Suc (length cs)"
    using assms by (subst lexeme_length_stop) (rule space_classes, rule space_classes, rule space_classes,
      rule space_classes)
  then show ?thesis by (simp add: lex.simps(2) [of c] lex_space)
qed

lemma alpha_word:
  assumes "x \<noteq> []" "hd x \<notin> set DIGITS" "\<forall>c \<in> set x. c \<in> set ALPHAS"
  shows "lex (x @ '' '' @ rest) = SToken x TOKEN_ALPHA # SToken '' '' TOKEN_SPACE # lex rest"
proof -
  obtain c cs where x: "x = c # cs" using assms(1) by (cases x) auto
  have disjoint: "\<forall>c \<in> set ALPHAS. c \<notin> set STAR \<and> c \<notin> set PAREN \<and> c \<notin> set SPACES \<and> c \<notin> set COMMA \<and> c \<notin> set OPERATORS"
    by (simp add: char_classes)
  have kind: "char_kind c = TOKEN_ALPHA" using assms(2,3) x disjoint by (simp add: char_kind_def)
  moreover from this have "lexeme_length c cs = Suc (length cs)"
    using assms(3) x by (simp add: lexeme_length_def prefix_length_all)
  ultimately show ?thesis using lex_whole [of c cs rest] by (simp add: x)
qed

lemma scan_word:
  assumes "classify_unquoted_token token = Some t" "st_text token \<noteq> double_quote" "st_kind token \<noteq> TOKEN_SPACE"
  shows "scan False [] (token # SToken '' '' TOKEN_SPACE # rest) = map_option (Cons (token, t)) (scan False [] rest)"
  using assms by (simp add: SToken_def double_quote_def)

definition reserved_words :: "lexeme list" where
  "reserved_words =
     [(''create'', CREATE), (''table'', TABLE), (''fields'', FIELDS), (''insert'', INSERT), (''into'', INTO),
      (''values'', VALUES), (''select'', SELECT), (''from'', FROM), (''where'', WHERE), (''or'', LOGICAL),
      (''and'', LOGICAL)]"

lemma reserved_words_plain:
  "list_all (\<lambda>(x, t). x \<noteq> [] \<and> hd x \<notin> set DIGITS \<and> list_all (\<lambda>c. c \<in> set ALPHAS) x \<and>
     classify_unquoted_token (SToken x TOKEN_ALPHA) = Some t) reserved_words"
  by code_simp

lemma reserved_word:
  assumes "(x, t) \<in> set reserved_words"
  shows "x \<noteq> []" "hd x \<notin> set DIGITS" "\<forall>c \<in> set x. c \<in> set ALPHAS"
    "classify_unquoted_token (SToken x TOKEN_ALPHA) = Some t"
  using reserved_words_plain assms by (auto simp: list_all_iff)

definition symbols :: "(string \<times> ptype) list" where
  "symbols = [('','', COMMAS), (''*'', ASTERISK), (''('', PARENS), ('')'', PARENS)] @
     map (\<lambda>x. (x, RELATIONAL)) relational_operators"

lemma symbols_single:
  "list_all (\<lambda>(x, t). case x of [] \<Rightarrow> False | c # cs \<Rightarrow>
     lexeme_length c cs = Suc (length cs) \<and> classify_unquoted_token (SToken x (char_kind c)) = Some t \<and>
     x \<noteq> double_quote \<and> char_kind c \<noteq> TOKEN_SPACE) symbols"
  by code_simp

lemma symbol_word:
  assumes "(x, t) \<in> set symbols"
  obtains c cs where "x = c # cs" "lexeme_length c cs = Suc (length cs)"
    "classify_unquoted_token (SToken x (char_kind c)) = Some t" "x \<noteq> double_quote" "char_kind c \<noteq> TOKEN_SPACE"
proof -
  have "case x of [] \<Rightarrow> False | c # cs \<Rightarrow>
     lexeme_length c cs = Suc (length cs) \<and> classify_unquoted_token (SToken x (char_kind c)) = Some t \<and>
     x \<noteq> double_quote \<and> char_kind c \<noteq> TOKEN_SPACE"
    using symbols_single assms unfolding list_all_iff by blast
  then show ?thesis using that by (cases x) auto
qed

lemma lexeme_cases:
  "lexeme_ok (x, t) \<Longrightarrow> t = LITERAL \<or> (x, t) \<in> set reserved_words \<or> (x, t) \<in> set symbols"
  by (cases t) (auto simp: lexeme_ok_def reserved_words_def symbols_def)

lemma scan_lexeme:
  assumes "printable (x, t)"
  shows "\<exists>token. st_text token = x \<and> scan False [] (lex (print_lexeme (x, t) @ '' '' @ rest)) =
    map_option (Cons (token, t)) (scan False [] (lex rest))"
proof -
  have word: ?thesis if "x \<noteq> []" "hd x \<notin> set DIGITS" "\<forall>c \<in> set x. c \<in> set ALPHAS"
      "classify_unquoted_token (SToken x TOKEN_ALPHA) = Some t" "print_lexeme (x, t) = x"
  proof -
    have "x \<noteq> double_quote" using that(3) quote_char_classes(1) by (auto simp: double_quote_def)
    then show ?thesis
      using alpha_word [OF that(1-3), of rest] that(4,5) scan_word [of "SToken x TOKEN_ALPHA" t "lex rest"]
      by (intro exI [of _ "SToken x TOKEN_ALPHA"]) (simp add: SToken_def)
  qed
  consider (plain) "t = LITERAL" "plain_word x" | (quoted) "t = LITERAL" "\<not> plain_word x"
    | (reserved) "(x, t) \<in> set reserved_words" | (symbol) "(x, t) \<in> set symbols"
    using lexeme_cases assms by (auto simp: printable_def)
  then show ?thesis
  proof cases
    case plain
    then show ?thesis by (intro word) (simp_all add: plain_word_def print_lexeme_def)
  next
    case reserved
    then have "t \<noteq> LITERAL" by (auto simp: reserved_words_def)
    then show ?thesis using reserved_word [OF reserved] by (intro word) (simp_all add: print_lexeme_def)
  next
    case symbol
    then have "t \<noteq> LITERAL" by (auto simp: symbols_def)
    obtain c cs where c: "x = c # cs" "lexeme_length c cs = Suc (length cs)"
      "classify_unquoted_token (SToken x (char_kind c)) = Some t" "x \<noteq> double_quote" "char_kind c \<noteq> TOKEN_SPACE"
      by (rule symbol_word [OF symbol])
    then show ?thesis
      using lex_whole [OF c(2), of rest] scan_word [of "SToken x (char_kind c)" t "lex rest"] \<open>t \<noteq> LITERAL\<close>
      by (intro exI [of _ "SToken x (char_kind c)"]) (simp add: SToken_def print_lexeme_def)
  next
    case quoted
    then have p: "print_lexeme (x, t) @ '' '' @ rest = quote_char # x @ quote_char # CHR '' '' # rest"
      by (simp add: print_lexeme_def double_quote_def)
    have "quote_char \<notin> set x" using assms by (simp add: printable_def)
    from scan_quoted [OF this, of "[]" "CHR '' '' # rest"] quoted
    show ?thesis
      unfolding p lex_quote
      by (intro exI [of _ "SToken x TOKEN_ALPHA"]) (simp add: SToken_def double_quote_def lex_space)
  qed
qed

lemma scan_print:
  "\<forall>l \<in> set ls. printable l \<Longrightarrow>
   \<exists>ts. scan False [] (lex (concat (map (\<lambda>l. print_lexeme l @ '' '') ls))) = Some ts \<and> map lexeme ts = ls"
proof (induction ls)
  case (Cons l ls)
  obtain x t where l: "l = (x, t)" by (cases l)
  obtain ts where ts: "scan False [] (lex (concat (map (\<lambda>l. print_lexeme l @ '' '') ls))) = Some ts" "map lexeme ts = ls"
    using Cons by auto
  have "printable (x, t)" using Cons.prems l by simp
  from scan_lexeme [OF this, of "concat (map (\<lambda>l. print_lexeme l @ '' '') ls)"] ts
  show ?case by (auto simp: l lexeme_def)
qed simp

lemma c_str_id: "CHR 0x00 \<notin> set s \<Longrightarrow> c_str s = s"
  by (simp add: c_str_def takeWhile_eq_all_conv) metis

lemma sql_tree_print:
  assumes "complete stmt" "\<forall>l \<in> set (statement_lexemes stmt). printable l"
  shows "sql_tree (print_sql stmt) = Some (statement_tree stmt)"
proof -
  have "CHR 0x00 \<notin> set (print_sql stmt)"
    using assms(2) by (force simp: print_sql_def print_lexeme_def printable_def double_quote_def split: if_splits)
  moreover obtain ts where "scan False [] (lex (print_sql stmt)) = Some ts" "map lexeme ts = statement_lexemes stmt"
    using scan_print [OF assms(2)] by (auto simp: print_sql_def)
  ultimately show ?thesis using assms(1) unfolding sql_tree_iff by (auto simp: c_str_id)
qed

section \<open>The column of \<open>create\<close>\<close>

text \<open>
  The success flags are kept in column 0, which is also the column of \<open>CREATE\<close>: a \<open>create\<close> token
  never blocks the machine, and state 0 counts as a success state.
\<close>

lemma create_column:
  "i < 25 \<Longrightarrow> parser_table i 0 = (if i = 0 \<or> i \<in> set success_states then 1 else 0)"
proof -
  have marks: "foldl (\<lambda>t i. if i \<in> set success_states then mark_success t i else mark_fail t i) t is i 0 =
      (if i \<in> set is then if i \<in> set success_states then 1 else 0 else t i 0)" for t "is"
    by (induction "is" arbitrary: t) (auto simp: mark_success_def mark_fail_def)
  assume "i < 25"
  moreover have "parser_table i (ptype_code CREATE) = parser_table i 0" by simp
  ultimately show ?thesis
    by (simp only: parser_table_def flip: ptype_code.simps(1), subst mark_transitions)
      (simp_all add: transitions_def marks)
qed

lemma create_column_accepts:
  "map_option (\<lambda>(t, _). (t ''command'', t ''table_name'')) (parse_command ''create table create'' ps) =
   Some (Some [''create''], Some [])"
proof -
  let ?ps = "parser_set_string ''create table create'' ps"
  have "scan False [] (lex (c_str ''create table create'')) =
      Some [(SToken ''create'' TOKEN_ALPHA, CREATE), (SToken ''table'' TOKEN_ALPHA, TABLE),
        (SToken ''create'' TOKEN_ALPHA, CREATE)]"
    by code_simp
  then have ps: "ps_tree ?ps = Map.empty" "ps_types ?ps = [CREATE, TABLE, CREATE]"
    "ps_input ?ps = [SToken ''create'' TOKEN_ALPHA, SToken ''table'' TOKEN_ALPHA, SToken ''create'' TOKEN_ALPHA]"
    using parser_set_string_scan [of "''create table create''" ps] by simp_all
  have cells: "parser_table 0 0 = 1" "parser_table 1 (ptype_code TABLE) = 2" "parser_table 2 0 = 0"
    using parser_table_next [of TABLE 1]
    by (simp_all add: create_column success_states_def next_state_rows [unfolded One_nat_def])
  have tree: "start_tree CREATE Map.empty =
      Some (Some [''command'' \<mapsto> [''create''], ''fields'' \<mapsto> [], ''table_name'' \<mapsto> []])"
    by (simp add: start_tree_def mmap_insert_def mmap_insert_key_def)
  have enter: "enter_state 0 x st = st" for x st by (cases st) (simp add: enter_state_def)
  show ?thesis
    using cells
    by (simp add: parse_command_def parse_tree_def parse_def ps tree enter is_success_def
        erase_if_empty_def mmap_at_def mmap_erase_def)
qed

end
