(* ===== verification/Parser_Language.thy ===== *)
theory Parser_Language
  imports Parser_Grammar
begin

text \<open>
  Which texts \<open>parse_command\<close> accepts. Where no \<open>create\<close> token stands behind the first token, they are the
  statements of \<open>Parser_Grammar\<close>, each with its tree. The success flags of the state table lie in the
  column of \<open>create\<close>, so that a later \<open>create\<close> never blocks the walk: \<open>create_restarts\<close> reduces the acceptance
  of such a text to that of its parts.
\<close>

section \<open>The walk on token types\<close>

text \<open>The walk of \<open>parse\<close> depends on the token types only.\<close>

fun type_run :: "int \<Rightarrow> ptype list \<Rightarrow> int option" where
  "type_run state [] = Some state"
| "type_run state (t # ts) =
     (let state = parser_table (nat state) (ptype_code t) in if state = - 1 then None else type_run state ts)"

lemma parse_steps_types: "fst (parse_steps state st zs) = type_run state (map snd zs)"
proof (induction zs arbitrary: state st)
  case (Cons z zs)
  then show ?case by (cases z) (simp add: Let_def)
qed simp

lemma type_run_append: "type_run s (xs @ ys) = Option.bind (type_run s xs) (\<lambda>s. type_run s ys)"
  by (induction xs arbitrary: s) (simp_all add: Let_def)

lemma create_step: "0 \<le> s \<Longrightarrow> s < 25 \<Longrightarrow>
   parser_table (nat s) 0 = (if is_success parser_table (nat s) then 1 else 0)"
  using create_column [of "nat s"] by (simp add: is_success_def)

lemma table_range:
  assumes "0 \<le> s" "s < 25" and "parser_table (nat s) (ptype_code t) \<noteq> - 1"
  shows "0 \<le> parser_table (nat s) (ptype_code t) \<and> parser_table (nat s) (ptype_code t) < 25"
proof (cases "t = CREATE")
  case False
  then show ?thesis using assms(3) next_state_range [of "nat s" t] by (auto simp: parser_table_next)
qed (use create_step [OF assms(1,2)] in simp)

lemma type_run_range: "type_run s ts = Some s' \<Longrightarrow> 0 \<le> s \<Longrightarrow> s < 25 \<Longrightarrow> 0 \<le> s' \<and> s' < 25"
  by (induction ts arbitrary: s) (use table_range in \<open>auto simp: Let_def split: if_splits\<close>)

definition accepted_types :: "ptype list \<Rightarrow> bool" where
  "accepted_types ts \<longleftrightarrow> ts \<noteq> [] \<and> (\<exists>s. type_run 0 ts = Some s \<and> is_success parser_table (nat s))"

lemma start_rows:
  "parser_table 0 (ptype_code t) \<noteq> - 1 \<longleftrightarrow> t \<in> {CREATE, INSERT, SELECT}"
proof (cases "t = CREATE")
  case False
  then have "parser_table 0 (ptype_code t) = next_state 0 t" by (rule parser_table_next)
  then show ?thesis using False by (cases t) (simp_all add: next_state.simps transitions_def)
next
  case True
  then show ?thesis using parser_table_start by simp
qed

lemma start_tree_starts:
  "\<exists>t0. start_tree t Map.empty = Some (if t \<in> {CREATE, INSERT, SELECT} then Some t0 else None)"
  by (cases t) (simp_all add: start_tree_def mmap_insert_def mmap_insert_key_def)

lemma parse_accepted:
  assumes "ps_tree ps = Map.empty" and "length (ps_input ps) = length (ps_types ps)"
  shows "map_option fst (parse ps) = Some (accepted_types (ps_types ps))"
proof (cases "ps_types ps")
  case Nil
  then show ?thesis by (simp add: parse_def accepted_types_def)
next
  case (Cons t ts)
  then obtain tok toks where input: "ps_input ps = tok # toks" "length toks = length ts"
    using assms(2) by (cases "ps_input ps") auto
  obtain t0 where t0: "start_tree t Map.empty = Some (if t \<in> {CREATE, INSERT, SELECT} then Some t0 else None)"
    using start_tree_starts by blast
  let ?s = "parser_table 0 (ptype_code t)"
  have steps: "fst (parse_steps ?s (False, t0) (zip toks ts)) = type_run ?s ts"
    using input(2) by (simp add: parse_steps_types)
  show ?thesis
  proof (cases "t \<in> {CREATE, INSERT, SELECT}")
    case True
    then have "?s \<noteq> - 1" using start_rows by blast
    then have "accepted_types (t # ts) \<longleftrightarrow> (\<exists>s. type_run ?s ts = Some s \<and> is_success parser_table (nat s))"
      by (simp add: accepted_types_def Let_def)
    then show ?thesis
      using assms t0 True Cons input steps
      by (cases "parse_steps ?s (False, t0) (zip toks ts)") (auto simp: parse_def split: option.split)
  next
    case False
    then have "?s = - 1" using start_rows by blast
    then show ?thesis using False t0 assms Cons input by (simp add: parse_def accepted_types_def)
  qed
qed

text \<open>Every state has a way to a success state.\<close>

definition completion :: "int \<Rightarrow> ptype list" where
  "completion s =
     (if s = 1 then [TABLE, LITERAL, FIELDS, LITERAL] else if s = 2 then [LITERAL, FIELDS, LITERAL]
      else if s = 3 then [FIELDS, LITERAL] else if s \<in> {4, 6, 10, 12, 17, 22} then [LITERAL]
      else if s = 7 then [INTO, LITERAL, VALUES, LITERAL] else if s = 8 then [LITERAL, VALUES, LITERAL]
      else if s = 9 then [VALUES, LITERAL] else if s = 13 then [ASTERISK, FROM, LITERAL]
      else if s \<in> {14, 16} then [FROM, LITERAL] else if s = 15 then [LITERAL, FROM, LITERAL]
      else if s \<in> {19, 20} then [LITERAL, RELATIONAL, LITERAL] else if s = 21 then [RELATIONAL, LITERAL]
      else [])"

fun next_run :: "int \<Rightarrow> ptype list \<Rightarrow> int" where
  "next_run s [] = s"
| "next_run s (t # ts) = (if next_state (nat s) t = - 1 then - 1 else next_run (next_state (nat s) t) ts)"

lemma type_run_next: "CREATE \<notin> set ts \<Longrightarrow> next_run s ts \<noteq> - 1 \<Longrightarrow> type_run s ts = Some (next_run s ts)"
  by (induction ts arbitrary: s) (auto simp: Let_def parser_table_next split: if_splits)

lemma completions:
  "list_all (\<lambda>s. CREATE \<notin> set (completion s) \<and> 0 < next_run s (completion s) \<and>
     next_run s (completion s) < 25 \<and> nat (next_run s (completion s)) \<in> set success_states) (map int [1..<25])"
  by code_simp

lemma success_0: "is_success parser_table 0"
  using parser_table_start by (simp add: is_success_def)

lemma completion_exists:
  assumes "0 \<le> s" "s < 25"
  obtains zs s' where "CREATE \<notin> set zs" "type_run s zs = Some s'" "is_success parser_table (nat s')"
proof (cases "s = 0")
  case True
  then show ?thesis using that [of "[]" 0] success_0 by simp
next
  case False
  then have "s \<in> set (map int [1..<25])" using assms by (auto simp: image_iff intro!: bexI [of _ "nat s"])
  then have c: "CREATE \<notin> set (completion s)" "0 < next_run s (completion s)" "next_run s (completion s) < 25"
      "nat (next_run s (completion s)) \<in> set success_states"
    using completions unfolding list_all_iff by blast+
  then show ?thesis
    using that [of "completion s" "next_run s (completion s)"] by (simp add: type_run_next success_column)
qed

section \<open>Acceptance\<close>

text \<open>
  \<open>accepted ts\<close>: \<open>parse\<close> returns true on tokens of the types \<open>ts\<close>. The texts of the tokens play no part.
\<close>

definition accepted :: "ptype list \<Rightarrow> bool" where
  "accepted ts \<longleftrightarrow>
     map_option fst (parse (fresh_parser\<lparr>ps_input := map (\<lambda>_. empty_stoken) ts, ps_types := ts\<rparr>)) = Some True"

lemma accepted_iff: "accepted ts \<longleftrightarrow> accepted_types ts"
  unfolding accepted_def by (subst parse_accepted) (simp_all add: fresh_parser_def)

text \<open>
  A \<open>create\<close> behind the first token: after an accepted text the walk goes on as behind the first
  \<open>create\<close> of a statement; after a text that could still become one it starts again, and may stop there.
\<close>

lemma create_restarts:
  assumes "xs \<noteq> []"
  shows "accepted (xs @ CREATE # ys) \<longleftrightarrow>
    (if accepted xs then accepted (CREATE # ys)
     else (\<exists>zs. CREATE \<notin> set zs \<and> accepted (xs @ zs)) \<and> (ys = [] \<or> accepted ys))"
proof (cases "type_run 0 xs")
  case None
  then show ?thesis by (simp add: accepted_iff accepted_types_def type_run_append)
next
  case (Some s)
  then have range: "0 \<le> s" "s < 25" using type_run_range [of 0 xs s] by auto
  have c0: "parser_table 0 0 = 1" using parser_table_start by simp
  obtain zs s' where "CREATE \<notin> set zs" "type_run s zs = Some s'" "is_success parser_table (nat s')"
    by (rule completion_exists [OF range])
  then have "\<exists>zs. CREATE \<notin> set zs \<and> accepted (xs @ zs)"
    using assms Some by (auto simp: accepted_iff accepted_types_def type_run_append)
  then show ?thesis
    using assms Some create_step [OF range] c0 success_0
    by (auto simp: accepted_iff accepted_types_def type_run_append Let_def)
qed

text \<open>The tree of an accepted text is not empty; a rejected one has the empty tree.\<close>

lemma enter_state_command: "snd (enter_state s x st) ''command'' = snd st ''command''"
  by (cases st) (auto simp: enter_state_def Let_def mmap_append_eq)

lemma parse_steps_command: "snd (snd (parse_steps s st zs)) ''command'' = snd st ''command''"
proof (induction zs arbitrary: s st)
  case (Cons z zs)
  then show ?case by (cases z) (simp add: Let_def enter_state_command)
qed simp

lemma drop_empty_command: "drop_empty t ''command'' = t ''command''"
  by (auto simp: drop_empty_def erase_if_empty_def mmap_at_def mmap_erase_def split: option.split)

lemma start_tree_command: "start_tree t Map.empty = Some (Some t0) \<Longrightarrow> t0 ''command'' \<noteq> None"
  by (cases t) (auto simp: start_tree_def mmap_insert_def mmap_insert_key_def)

lemma parse_success_tree:
  assumes "parse ps = Some (True, ps')" and "ps_tree ps = Map.empty"
  shows "ps_tree ps' \<noteq> Map.empty"
proof -
  obtain t0 b t where t0: "start_tree (hd (ps_types ps)) Map.empty = Some (Some t0)"
    and t: "snd (snd (parse_steps (parser_table 0 (ptype_code (hd (ps_types ps)))) (False, t0)
      (tl (zip (ps_input ps) (ps_types ps))))) = t" and "ps_tree ps' = drop_empty t"
    using assms by (auto simp: parse_def drop_empty_def split: if_splits option.splits prod.splits)
  then have "ps_tree ps' ''command'' \<noteq> None"
    using start_tree_command [OF t0] parse_steps_command [of _ "(False, t0)"] by (auto simp: drop_empty_command)
  then show ?thesis by auto
qed

lemma parser_set_string_ok:
  "ps_tree (parser_set_string str ps) = Map.empty"
  "length (ps_input (parser_set_string str ps)) = length (ps_types (parser_set_string str ps))"
  using parser_set_string_scan [of str ps] by (auto split: option.splits)

lemma parse_command_accepted:
  "\<exists>t ps'. parse_command str ps = Some (t, ps') \<and>
     (t \<noteq> Map.empty \<longleftrightarrow> accepted (ps_types (parser_set_string str ps)))"
proof -
  let ?q = "parser_set_string str ps"
  have p: "map_option fst (parse ?q) = Some (accepted (ps_types ?q))"
    unfolding accepted_iff by (rule parse_accepted [OF parser_set_string_ok])
  then obtain q' where q': "parse ?q = Some (accepted (ps_types ?q), q')" by auto
  show ?thesis
  proof (cases "accepted (ps_types ?q)")
    case True
    then show ?thesis
      using q' parse_success_tree [of ?q q'] parser_set_string_ok(1) by (simp add: parse_command_def parse_tree_def)
  qed (use q' in \<open>simp add: parse_command_def parse_tree_def\<close>)
qed

section \<open>Texts that spell a statement\<close>

text \<open>
  \<open>spells ps stmt\<close>: the tokens that \<open>set_string\<close> has left in \<open>ps\<close> are those of \<open>stmt\<close>, with the types it
  has given them.
\<close>

definition spells :: "parser \<Rightarrow> statement \<Rightarrow> bool" where
  "spells ps stmt \<longleftrightarrow> complete stmt \<and> map lexeme (zip (ps_input ps) (ps_types ps)) = statement_lexemes stmt"

lemma spells_ok: "l \<in> set (map lexeme (zip (ps_input (parser_set_string str ps)) (ps_types (parser_set_string str ps)))) \<Longrightarrow>
   lexeme_ok l"
proof (cases "scan False [] (lex (c_str str))")
  case (Some ts)
  then show "l \<in> set (map lexeme (zip (ps_input (parser_set_string str ps)) (ps_types (parser_set_string str ps)))) \<Longrightarrow>
      lexeme_ok l"
    using parser_set_string_scan [of str ps] scan_ok [OF Some, of "c_str str"]
    by (auto simp: zip_map_fst_snd lexeme_def)
qed (use parser_set_string_scan [of str ps] in simp)

lemma parse_command_grammar:
  assumes "CREATE \<notin> set (tl (ps_types (parser_set_string str ps)))"
  shows "\<exists>t ps'. parse_command str ps = Some (t, ps') \<and>
    (if \<exists>stmt. spells (parser_set_string str ps) stmt
     then \<forall>stmt. spells (parser_set_string str ps) stmt \<longrightarrow> t = statement_tree stmt
     else t = Map.empty)"
proof -
  let ?q = "parser_set_string str ps"
  let ?ls = "map lexeme (zip (ps_input ?q) (ps_types ?q))"
  have "\<forall>l \<in> set ?ls. lexeme_ok l" using spells_ok by blast
  note acc = accepts_iff [OF this]
  have "map_option fst (parse_command str ps) =
      Some (case accepts ?ls of None \<Rightarrow> Map.empty | Some t \<Rightarrow> t)"
    unfolding parse_command_def by (rule parse_accepts [OF parser_set_string_ok assms])
  then obtain ps' where p: "parse_command str ps = Some (case accepts ?ls of None \<Rightarrow> Map.empty | Some t \<Rightarrow> t, ps')"
    by (cases "parse_command str ps") auto
  show ?thesis
  proof (cases "accepts ?ls")
    case None
    then have "\<not> (\<exists>stmt. spells ?q stmt)" using acc by (auto simp: spells_def)
    then show ?thesis using p None by simp
  next
    case (Some t)
    then have "\<exists>stmt. spells ?q stmt" using acc by (auto simp: spells_def)
    moreover have "t = statement_tree stmt" if "spells ?q stmt" for stmt
    proof -
      have "accepts ?ls = Some (statement_tree stmt)"
        using that unfolding acc spells_def by blast
      then show ?thesis using Some by simp
    qed
    ultimately show ?thesis using p Some by auto
  qed
qed

lemma comma_tail_types: "snd ` set (comma_tail xs) \<subseteq> {COMMAS, LITERAL}"
  by (induction xs) (auto simp: comma_tail_def)

lemma comma_list_types: "snd ` set (comma_list xs) \<subseteq> {COMMAS, LITERAL}"
  using comma_tail_types by (cases xs) auto

lemma where_types: "snd ` set (where_lexemes w) \<subseteq> {LITERAL, RELATIONAL, LOGICAL, PARENS}"
proof -
  have c: "snd ` set (comparison_lexemes c) \<subseteq> {LITERAL, RELATIONAL, PARENS}" for c
    by (auto simp: comparison_lexemes_def parens_def)
  have "snd ` set (where_tail cs) \<subseteq> {LITERAL, RELATIONAL, LOGICAL, PARENS}" for cs
    using c by (fastforce simp: where_tail_def)
  then show ?thesis using c by (fastforce simp: where_lexemes_def)
qed

lemma statement_types: "CREATE \<notin> set (tl (map snd (statement_lexemes stmt)))"
proof (cases stmt)
  case (Select_From cols name w)
  have "CREATE \<notin> snd ` set (column_lexemes cols)" using comma_list_types by (cases cols) auto
  moreover have "CREATE \<notin> snd ` set (where_lexemes v)" for v using where_types by blast
  ultimately show ?thesis using Select_From by (auto split: option.splits)
qed (use comma_list_types in auto)

lemma spells_create_free:
  assumes "spells (parser_set_string str ps) stmt"
  shows "CREATE \<notin> set (tl (ps_types (parser_set_string str ps)))"
proof -
  have "map snd (map lexeme (zip (ps_input (parser_set_string str ps)) (ps_types (parser_set_string str ps)))) =
      ps_types (parser_set_string str ps)"
    using parser_set_string_ok(2) [of str ps]
    by (intro nth_equalityI) (simp_all add: lexeme_def case_prod_beta)
  then show ?thesis using statement_types [of stmt] assms unfolding spells_def by metis
qed

lemma parse_command_spelled:
  assumes "spells (parser_set_string str ps) stmt"
  shows "\<exists>ps'. parse_command str ps = Some (statement_tree stmt, ps')"
  using parse_command_grammar [OF spells_create_free [OF assms]] assms by (auto split: if_splits)

lemma parse_command_rejected:
  assumes "CREATE \<notin> set (tl (ps_types (parser_set_string str ps)))"
    and "\<nexists>stmt. spells (parser_set_string str ps) stmt"
  shows "\<exists>ps'. parse_command str ps = Some (Map.empty, ps')"
  using parse_command_grammar [OF assms(1)] assms(2) by (auto split: if_splits)

end
