(* ===== verification/Codec.thy ===== *)
theory Codec
  imports Prelude
begin

text \<open>
  The byte codec of \<open>storage_v2.cpp\<close>: the \<open>append_*\<close> writers, the bounds-checked \<open>Reader\<close>
  class, and \<open>read_u32_at\<close>/\<open>write_u32\<close>/\<open>write_u64\<close>. Integers are little-endian; a string is
  its 16-bit length followed by at most 100 bytes. The lemmas give each reader a closed form on
  the unread part of its input, from which both directions of the round trip follow: what a
  writer appended is read back, and what a reader accepted is what the writer would have written.
\<close>

section \<open>Constants\<close>

definition MAX_FIELDS :: nat where "MAX_FIELDS = 64"
definition MAX_VALUE_LENGTH :: nat where "MAX_VALUE_LENGTH = 100"

section \<open>Writers\<close>

definition append_u16 :: "bytes \<Rightarrow> u16 \<Rightarrow> bytes" where
  "append_u16 output v = output @ [ucast (v AND 0xff)] @ [ucast (drop_bit 8 v AND 0xff)]"

definition append_u32 :: "bytes \<Rightarrow> u32 \<Rightarrow> bytes" where
  "append_u32 output v = foldl (\<lambda>out shift. out @ [ucast (drop_bit shift v AND 0xff)]) output
     [0, 8, 16, 24]"

definition append_u64 :: "bytes \<Rightarrow> u64 \<Rightarrow> bytes" where
  "append_u64 output v = foldl (\<lambda>out shift. out @ [ucast (drop_bit shift v AND 0xff)]) output
     [0, 8, 16, 24, 32, 40, 48, 56]"

definition append_string :: "bytes \<Rightarrow> string \<Rightarrow> bytes res" where
  "append_string output v =
     (if length v > MAX_VALUE_LENGTH then Inl (Length_Error ''Values must not exceed 100 bytes'')
      else Inr (append_u16 output (word_of_nat (length v)) @ map byte_of_char v))"

text \<open>The written bytes on their own.\<close>

definition le16 :: "u16 \<Rightarrow> bytes" where "le16 v = append_u16 [] v"
definition le32 :: "u32 \<Rightarrow> bytes" where "le32 v = append_u32 [] v"
definition le64 :: "u64 \<Rightarrow> bytes" where "le64 v = append_u64 [] v"
definition lestr :: "string \<Rightarrow> bytes" where
  "lestr s = le16 (word_of_nat (length s)) @ map byte_of_char s"

lemma append_u16_eq: "append_u16 output v = output @ le16 v"
  by (simp add: le16_def append_u16_def)

lemma append_u32_eq: "append_u32 output v = output @ le32 v"
  by (simp add: le32_def append_u32_def)

lemma append_u64_eq: "append_u64 output v = output @ le64 v"
  by (simp add: le64_def append_u64_def)

lemma append_string_eq:
  "append_string output s =
     (if length s \<le> MAX_VALUE_LENGTH then Inr (output @ lestr s)
      else Inl (Length_Error ''Values must not exceed 100 bytes''))"
  by (simp add: append_string_def lestr_def append_u16_eq)

lemma length_le16 [len_simps, simp]: "length (le16 v) = 2"
  by (simp add: le16_def append_u16_def)

lemma length_le32 [len_simps, simp]: "length (le32 v) = 4"
  by (simp add: le32_def append_u32_def)

lemma length_le64 [len_simps, simp]: "length (le64 v) = 8"
  by (simp add: le64_def append_u64_def)

lemma length_lestr [len_simps, simp]: "length (lestr s) = 2 + length s"
  by (simp add: lestr_def)

lemmas append_eqs = append_u16_eq append_u32_eq append_u64_eq append_string_eq

section \<open>Decoding little-endian integers\<close>

definition un16 :: "bytes \<Rightarrow> u16" where
  "un16 bs = ucast (bs ! 0) OR push_bit 8 (ucast (bs ! 1))"

definition un32 :: "bytes \<Rightarrow> u32" where
  "un32 bs = foldl (\<lambda>v i. v OR push_bit (8 * i) (ucast (bs ! i))) 0 [0, 1, 2, 3]"

definition un64 :: "bytes \<Rightarrow> u64" where
  "un64 bs = foldl (\<lambda>v i. v OR push_bit (8 * i) (ucast (bs ! i))) 0 [0, 1, 2, 3, 4, 5, 6, 7]"

lemma byte_mask: "(0xff :: 'a::len word) = mask 8"
  by (simp add: mask_eq_exp_minus_1)

lemma byte_high_bit: "8 \<le> n \<Longrightarrow> \<not> bit (b :: u8) n"
  by (simp add: impossible_bit)

lemma un16_le16 [simp]: "un16 (le16 v) = v"
proof (rule bit_word_eqI)
  fix n assume "n < LENGTH(16)"
  then have "n < 16" by simp
  then consider "0 \<le> n \<and> n < 8" | "8 \<le> n \<and> n < 16" by fastforce
  then show "bit (un16 (le16 v)) n \<longleftrightarrow> bit v n"
    by cases (simp_all add: un16_def le16_def append_u16_def byte_mask bit_simps less_diff_conv2)
qed

lemma un32_le32 [simp]: "un32 (le32 v) = v"
proof (rule bit_word_eqI)
  fix n assume "n < LENGTH(32)"
  then have "n < 32" by simp
  then consider "0 \<le> n \<and> n < 8" | "8 \<le> n \<and> n < 16" | "16 \<le> n \<and> n < 24" | "24 \<le> n \<and> n < 32" by fastforce
  then show "bit (un32 (le32 v)) n \<longleftrightarrow> bit v n"
    by cases (simp_all add: un32_def le32_def append_u32_def byte_mask bit_simps less_diff_conv2)
qed

lemma un64_le64 [simp]: "un64 (le64 v) = v"
proof (rule bit_word_eqI)
  fix n assume "n < LENGTH(64)"
  then have "n < 64" by simp
  then consider "0 \<le> n \<and> n < 8" | "8 \<le> n \<and> n < 16" | "16 \<le> n \<and> n < 24" | "24 \<le> n \<and> n < 32" | "32 \<le> n \<and> n < 40" | "40 \<le> n \<and> n < 48" | "48 \<le> n \<and> n < 56" | "56 \<le> n \<and> n < 64" by fastforce
  then show "bit (un64 (le64 v)) n \<longleftrightarrow> bit v n"
    by cases (simp_all add: un64_def le64_def append_u64_def byte_mask bit_simps less_diff_conv2)
qed

lemma list2E: "length xs = 2 \<Longrightarrow> (\<And>a b. xs = [a, b] \<Longrightarrow> P) \<Longrightarrow> P"
  by (auto simp: numeral_2_eq_2 length_Suc_conv)

lemma list4E: "length xs = 4 \<Longrightarrow> (\<And>a b c d. xs = [a, b, c, d] \<Longrightarrow> P) \<Longrightarrow> P"
  by (auto simp: eval_nat_numeral length_Suc_conv)

lemma list8E: "length xs = 8 \<Longrightarrow>
  (\<And>a b c d e f g h. xs = [a, b, c, d, e, f, g, h] \<Longrightarrow> P) \<Longrightarrow> P"
  by (auto simp: eval_nat_numeral length_Suc_conv)

lemma le_inject [simp]:
  "le16 a = le16 a' \<longleftrightarrow> a = a'" "le32 b = le32 b' \<longleftrightarrow> b = b'" "le64 c = le64 c' \<longleftrightarrow> c = c'"
  by (metis un16_le16, metis un32_le32, metis un64_le64)

lemma le16_un16: "length bs = 2 \<Longrightarrow> le16 (un16 bs) = bs"
  by (erule list2E)
    (auto simp: un16_def le16_def append_u16_def byte_mask bit_simps byte_high_bit
      intro!: bit_word_eqI)

lemma le32_un32: "length bs = 4 \<Longrightarrow> le32 (un32 bs) = bs"
  by (erule list4E)
    (auto simp: un32_def le32_def append_u32_def byte_mask bit_simps byte_high_bit
      intro!: bit_word_eqI)

lemma le64_un64: "length bs = 8 \<Longrightarrow> le64 (un64 bs) = bs"
  by (erule list8E)
    (auto simp: un64_def le64_def append_u64_def byte_mask bit_simps byte_high_bit
      intro!: bit_word_eqI)

section \<open>The bounds-checked reader\<close>

text \<open>
  Class \<open>Reader\<close>: the bytes, the context named in its errors and the position. Every read first
  requires enough unread bytes.
\<close>

record reader =
  rd_bytes :: bytes
  rd_context :: string
  rd_position :: nat

definition Reader :: "bytes \<Rightarrow> string \<Rightarrow> reader" where
  "Reader bs ctx = \<lparr>rd_bytes = bs, rd_context = ctx, rd_position = 0\<rparr>"

definition reader_require :: "reader \<Rightarrow> nat \<Rightarrow> unit res" where
  "reader_require r count =
     throw_if (count > length (rd_bytes r) - rd_position r)
       (corruption (rd_context r @ '' contains a partial record''))"

definition reader_u16 :: "reader \<Rightarrow> (u16 \<times> reader) res" where
  "reader_u16 r = bindE (reader_require r 2) (\<lambda>_.
     Inr (ucast (rd_bytes r ! rd_position r) OR push_bit 8 (ucast (rd_bytes r ! (rd_position r + 1))),
          r\<lparr>rd_position := rd_position r + 2\<rparr>))"

definition read_bytes_loop :: "reader \<Rightarrow> nat list \<Rightarrow> 'a::len word \<times> reader" where
  "read_bytes_loop r shifts = foldl (\<lambda>(v, r) shift.
     (v OR push_bit shift (ucast (rd_bytes r ! rd_position r)), r\<lparr>rd_position := rd_position r + 1\<rparr>))
     (0, r) shifts"

definition reader_u32 :: "reader \<Rightarrow> (u32 \<times> reader) res" where
  "reader_u32 r = bindE (reader_require r 4) (\<lambda>_. Inr (read_bytes_loop r [0, 8, 16, 24]))"

definition reader_u64 :: "reader \<Rightarrow> (u64 \<times> reader) res" where
  "reader_u64 r = bindE (reader_require r 8) (\<lambda>_.
     Inr (read_bytes_loop r [0, 8, 16, 24, 32, 40, 48, 56]))"

definition reader_string :: "reader \<Rightarrow> (string \<times> reader) res" where
  "reader_string r = bindE (reader_u16 r) (\<lambda>(len, r).
     if unat len > MAX_VALUE_LENGTH
     then Inl (corruption (rd_context r @ '' string exceeds 100 bytes''))
     else bindE (reader_require r (unat len)) (\<lambda>_.
       Inr (map char_of_byte (take (unat len) (drop (rd_position r) (rd_bytes r))),
            r\<lparr>rd_position := rd_position r + unat len\<rparr>)))"

definition reader_remaining :: "reader \<Rightarrow> nat" where
  "reader_remaining r = length (rd_bytes r) - rd_position r"

text \<open>A counted loop of reads, and two reads in sequence.\<close>

fun read_many :: "(reader \<Rightarrow> ('a \<times> reader) res) \<Rightarrow> nat \<Rightarrow> reader \<Rightarrow> ('a list \<times> reader) res" where
  "read_many rd 0 r = Inr ([], r)"
| "read_many rd (Suc n) r = bindE (rd r) (\<lambda>(x, r).
     bindE (read_many rd n r) (\<lambda>(xs, r). Inr (x # xs, r)))"

definition read_pair ::
  "(reader \<Rightarrow> ('a \<times> reader) res) \<Rightarrow> (reader \<Rightarrow> ('b \<times> reader) res) \<Rightarrow>
   reader \<Rightarrow> (('a \<times> 'b) \<times> reader) res" where
  "read_pair rd1 rd2 r = bindE (rd1 r) (\<lambda>(x, r). bindE (rd2 r) (\<lambda>(y, r). Inr ((x, y), r)))"

section \<open>The unread part of the input\<close>

definition unread :: "reader \<Rightarrow> bytes" where
  "unread r = drop (rd_position r) (rd_bytes r)"

definition advance :: "nat \<Rightarrow> reader \<Rightarrow> reader" where
  "advance n r = r\<lparr>rd_position := rd_position r + n\<rparr>"

lemma unread_Reader [simp]: "unread (Reader bs ctx) = bs"
  by (simp add: unread_def Reader_def)

lemma context_Reader [simp]: "rd_context (Reader bs ctx) = ctx"
  by (simp add: Reader_def)

lemma unread_advance [simp]: "unread (advance n r) = drop n (unread r)"
  by (simp add: unread_def advance_def add.commute)

lemma context_advance [simp]: "rd_context (advance n r) = rd_context r"
  by (simp add: advance_def)

lemma advance_advance [simp]: "advance m (advance n r) = advance (n + m) r"
  by (simp add: advance_def add.assoc)

lemma advance_0 [simp]: "advance 0 r = r"
  by (simp add: advance_def)

lemma reader_remaining_eq [simp]: "reader_remaining r = length (unread r)"
  by (simp add: reader_remaining_def unread_def)

lemma reader_require_eq:
  "reader_require r n = throw_if (length (unread r) < n)
     (corruption (rd_context r @ '' contains a partial record''))"
  by (simp add: reader_require_def unread_def)

lemma bytes_nth: "i < length (unread r) \<Longrightarrow> rd_bytes r ! (rd_position r + i) = unread r ! i"
  by (simp add: unread_def)

lemma reader_u16_eq:
  "reader_u16 r = (if length (unread r) < 2
     then Inl (corruption (rd_context r @ '' contains a partial record''))
     else Inr (un16 (take 2 (unread r)), advance 2 r))"
  using bytes_nth [of 0 r] bytes_nth [of 1 r]
  by (cases "unread r = []") (auto simp: reader_u16_def reader_require_eq un16_def advance_def throw_if_def)

lemma reader_u32_eq:
  "reader_u32 r = (if length (unread r) < 4
     then Inl (corruption (rd_context r @ '' contains a partial record''))
     else Inr (un32 (take 4 (unread r)), advance 4 r))"
  using bytes_nth [of 0 r] bytes_nth [of 1 r] bytes_nth [of 2 r] bytes_nth [of 3 r]
  by (cases "unread r = []") (auto simp: reader_u32_def reader_require_eq read_bytes_loop_def un32_def advance_def
      throw_if_def numeral_eq_Suc)

lemma reader_u64_eq:
  "reader_u64 r = (if length (unread r) < 8
     then Inl (corruption (rd_context r @ '' contains a partial record''))
     else Inr (un64 (take 8 (unread r)), advance 8 r))"
  using bytes_nth [of 0 r] bytes_nth [of 1 r] bytes_nth [of 2 r] bytes_nth [of 3 r]
    bytes_nth [of 4 r] bytes_nth [of 5 r] bytes_nth [of 6 r] bytes_nth [of 7 r]
  by (cases "unread r = []") (auto simp: reader_u64_def reader_require_eq read_bytes_loop_def un64_def advance_def
      throw_if_def numeral_eq_Suc)

lemma reader_string_eq:
  "reader_string r =
     (if length (unread r) < 2 then Inl (corruption (rd_context r @ '' contains a partial record''))
      else let n = unat (un16 (take 2 (unread r))) in
        if n > MAX_VALUE_LENGTH then Inl (corruption (rd_context r @ '' string exceeds 100 bytes''))
        else if length (unread r) < 2 + n
        then Inl (corruption (rd_context r @ '' contains a partial record''))
        else Inr (map char_of_byte (take n (drop 2 (unread r))), advance (2 + n) r))"
proof -
  have "drop (rd_position (advance 2 r)) (rd_bytes (advance 2 r)) = drop 2 (unread r)"
    using unread_advance [of 2 r] by (simp add: unread_def)
  then show ?thesis
    by (auto simp: reader_string_def reader_u16_eq reader_require_eq throw_if_def Let_def
        advance_def [of "_ :: nat" "advance _ _"])
      (auto simp: advance_def)
qed

section \<open>The contract between a reader and its writer\<close>

text \<open>
  \<open>rd\<close> and \<open>wr\<close> agree on the values \<open>ok\<close>: what \<open>wr\<close> wrote is read back whatever follows it, a
  value that \<open>rd\<close> accepts was spelled exactly as \<open>wr\<close> spells it, and every failure is a
  corruption error. The contract is closed under sequencing and counted loops.
\<close>

locale stream_codec =
  fixes rd :: "reader \<Rightarrow> ('a \<times> reader) res"
    and wr :: "'a \<Rightarrow> bytes"
    and ok :: "'a \<Rightarrow> bool"
  assumes read_back:
      "ok x \<Longrightarrow> unread r = wr x @ rest \<Longrightarrow> rd r = Inr (x, advance (length (wr x)) r)"
    and accepted:
      "rd r = Inr (x, r') \<Longrightarrow>
       ok x \<and> unread r = wr x @ unread r' \<and> r' = advance (length (wr x)) r"
    and fails_corrupt: "corruption_only (rd r)"
begin

lemma many_back:
  "\<forall>x \<in> set xs. ok x \<Longrightarrow> unread r = concat (map wr xs) @ rest \<Longrightarrow>
   read_many rd (length xs) r = Inr (xs, advance (length (concat (map wr xs))) r)"
proof (induction xs arbitrary: r)
  case Nil
  then show ?case by simp
next
  case (Cons x xs)
  from Cons.prems have step: "rd r = Inr (x, advance (length (wr x)) r)"
    by (intro read_back [where rest = "concat (map wr xs) @ rest"]) auto
  from Cons.prems have "unread (advance (length (wr x)) r) = concat (map wr xs) @ rest"
    by simp
  with Cons.prems Cons.IH show ?case by (simp add: step)
qed

lemma many_accepted:
  "read_many rd n r = Inr (xs, r') \<Longrightarrow>
   length xs = n \<and> (\<forall>x \<in> set xs. ok x) \<and> unread r = concat (map wr xs) @ unread r' \<and>
   r' = advance (length (concat (map wr xs))) r"
proof (induction n arbitrary: r xs)
  case 0
  then show ?case by simp
next
  case (Suc n)
  from Suc.prems obtain x r1 ys where
    x: "rd r = Inr (x, r1)" and ys: "read_many rd n r1 = Inr (ys, r')" and xs: "xs = x # ys"
    by (auto simp: run_inv split: prod.splits)
  have a: "unread r = wr x @ unread r1" "r1 = advance (length (wr x)) r" "ok x"
    using accepted [OF x] by blast+
  have b: "unread r1 = concat (map wr ys) @ unread r'"
    "r' = advance (length (concat (map wr ys))) r1" "length ys = n" "\<forall>y \<in> set ys. ok y"
    using Suc.IH [OF ys] by blast+
  have "unread r = concat (map wr xs) @ unread r'"
    by (simp only: xs a(1) b(1) list.map concat.simps append_assoc)
  moreover have "r' = advance (length (concat (map wr xs))) r"
    by (simp only: xs a(2) b(2) list.map concat.simps length_append advance_advance)
  ultimately show ?case using a(3) b(3,4) by (simp add: xs)
qed

lemma many_corrupt: "corruption_only (read_many rd n r)"
  by (induction n arbitrary: r) (auto intro!: corr_intros fails_corrupt split: prod.splits)

lemma bind_iff:
  "bindE (rd r) F = Inr y \<longleftrightarrow>
   (\<exists>x rest. ok x \<and> unread r = wr x @ rest \<and> F (x, advance (length (wr x)) r) = Inr y)"
proof
  assume "bindE (rd r) F = Inr y"
  then obtain x r' where "rd r = Inr (x, r')" and F: "F (x, r') = Inr y"
    by (auto simp: run_inv)
  with accepted [of r x r'] show "\<exists>x rest. ok x \<and> unread r = wr x @ rest \<and>
      F (x, advance (length (wr x)) r) = Inr y"
    by blast
qed (auto simp: read_back)

lemma many_bind_iff:
  "bindE (read_many rd n r) F = Inr y \<longleftrightarrow>
   (\<exists>xs rest. length xs = n \<and> (\<forall>x \<in> set xs. ok x) \<and> unread r = concat (map wr xs) @ rest \<and>
      F (xs, advance (length (concat (map wr xs))) r) = Inr y)"
proof
  assume "bindE (read_many rd n r) F = Inr y"
  then obtain xs r' where "read_many rd n r = Inr (xs, r')" and F: "F (xs, r') = Inr y"
    by (auto simp: run_inv)
  with many_accepted [of n r xs r'] show "\<exists>xs rest. length xs = n \<and> (\<forall>x \<in> set xs. ok x) \<and>
      unread r = concat (map wr xs) @ rest \<and>
      F (xs, advance (length (concat (map wr xs))) r) = Inr y"
    by blast
qed (auto simp: many_back)

lemma wr_inject: "ok x \<Longrightarrow> ok y \<Longrightarrow> wr x @ as = wr y @ bs \<Longrightarrow> x = y \<and> as = bs"
  using read_back [of x "Reader (wr x @ as) []" as] read_back [of y "Reader (wr x @ as) []" bs]
  by auto

end

locale codec_pair =
  fst: stream_codec rd1 wr1 ok1 + snd: stream_codec rd2 wr2 ok2
  for rd1 :: "reader \<Rightarrow> ('a \<times> reader) res" and wr1 ok1
    and rd2 :: "reader \<Rightarrow> ('b \<times> reader) res" and wr2 ok2
begin

sublocale pair: stream_codec "read_pair rd1 rd2" "\<lambda>(x, y). wr1 x @ wr2 y" "\<lambda>(x, y). ok1 x \<and> ok2 y"
proof (unfold_locales, goal_cases)
  case (1 p r rest)
  obtain x y where p: "p = (x, y)" by (cases p)
  from 1 have x: "rd1 r = Inr (x, advance (length (wr1 x)) r)"
    by (intro fst.read_back [where rest = "wr2 y @ rest"]) (auto simp: p)
  from 1 have "rd2 (advance (length (wr1 x)) r) =
      Inr (y, advance (length (wr2 y)) (advance (length (wr1 x)) r))"
    by (intro snd.read_back [where rest = rest]) (auto simp: p)
  then show ?case by (simp add: read_pair_def x p)
next
  case (2 r p r')
  then obtain x r1 y where xy: "rd1 r = Inr (x, r1)" "rd2 r1 = Inr (y, r')" "p = (x, y)"
    by (auto simp: read_pair_def run_inv split: prod.splits)
  with fst.accepted [of r x r1] snd.accepted [of r1 y r'] show ?case by auto
next
  case 3
  show ?case
    by (auto simp: read_pair_def intro!: corr_intros fst.fails_corrupt snd.fails_corrupt
        split: prod.splits)
qed

end

lemma nat_of_le_length [simp]:
  "length s \<le> MAX_VALUE_LENGTH \<Longrightarrow> unat (word_of_nat (length s) :: u16) = length s"
  by (simp add: MAX_VALUE_LENGTH_def unat_of_nat take_bit_nat_eq_self)

interpretation c16: stream_codec reader_u16 le16 "\<lambda>_. True"
  by unfold_locales
    (auto simp: reader_u16_eq le16_un16 corruption_only_def split: if_splits)

interpretation c32: stream_codec reader_u32 le32 "\<lambda>_. True"
  by unfold_locales
    (auto simp: reader_u32_eq le32_un32 corruption_only_def split: if_splits)

interpretation c64: stream_codec reader_u64 le64 "\<lambda>_. True"
  by unfold_locales
    (auto simp: reader_u64_eq le64_un64 corruption_only_def split: if_splits)

interpretation cstr: stream_codec reader_string lestr "\<lambda>s. length s \<le> MAX_VALUE_LENGTH"
proof (unfold_locales, goal_cases)
  case (1 s r rest)
  then show ?case
    by (simp add: reader_string_eq lestr_def Let_def del: map_map)
next
  case (2 r s r')
  define n where "n = unat (un16 (take 2 (unread r)))"
  from 2 have n: "2 + n \<le> length (unread r)" "n \<le> MAX_VALUE_LENGTH"
    and s: "s = map char_of_byte (take n (drop 2 (unread r)))" and r': "r' = advance (2 + n) r"
    by (auto simp: reader_string_eq n_def Let_def split: if_splits)
  have len: "length s = n" using n by (simp add: s)
  have "le16 (word_of_nat n) = take 2 (unread r)"
    using n by (simp add: n_def le16_un16)
  then have "lestr s = take 2 (unread r) @ take n (drop 2 (unread r))"
    by (simp only: lestr_def len) (simp add: s del: map_map)
  also have "\<dots> = take (2 + n) (unread r)" by (simp only: take_add)
  finally show ?case using n r' len by simp
next
  case 3
  show ?case by (auto simp: reader_string_eq Let_def)
qed

text \<open>An index entry: a key and a record identifier. A branch adds the child page.\<close>

type_synonym entry = "string \<times> u64"

definition read_entry :: "reader \<Rightarrow> (entry \<times> reader) res" where
  "read_entry = read_pair reader_string reader_u64"

definition le_entry :: "entry \<Rightarrow> bytes" where
  "le_entry = (\<lambda>(key, rid). lestr key @ le64 rid)"

definition entry_ok :: "entry \<Rightarrow> bool" where
  "entry_ok = (\<lambda>(key, rid). length key \<le> MAX_VALUE_LENGTH)"

definition read_branch :: "reader \<Rightarrow> ((entry \<times> u32) \<times> reader) res" where
  "read_branch = read_pair read_entry reader_u32"

definition le_branch :: "entry \<times> u32 \<Rightarrow> bytes" where
  "le_branch = (\<lambda>(sep, child). le_entry sep @ le32 child)"

definition branch_ok :: "entry \<times> u32 \<Rightarrow> bool" where
  "branch_ok = (\<lambda>(sep, child). entry_ok sep)"

interpretation centry_pair: codec_pair reader_string lestr "\<lambda>s. length s \<le> MAX_VALUE_LENGTH"
  reader_u64 le64 "\<lambda>_. True" ..

interpretation centry: stream_codec read_entry le_entry entry_ok
  using centry_pair.pair.stream_codec_axioms
  by (simp add: read_entry_def le_entry_def entry_ok_def case_prod_unfold)

interpretation cbranch_pair: codec_pair read_entry le_entry entry_ok reader_u32 le32 "\<lambda>_. True" ..

interpretation cbranch: stream_codec read_branch le_branch branch_ok
  using cbranch_pair.pair.stream_codec_axioms
  by (simp add: read_branch_def le_branch_def branch_ok_def case_prod_unfold)

lemma length_le_entry [len_simps]: "length (le_entry e) = 2 + length (fst e) + 8"
  by (simp add: le_entry_def case_prod_unfold)

lemma length_le_branch [len_simps]: "length (le_branch b) = 2 + length (fst (fst b)) + 8 + 4"
  by (simp add: le_branch_def case_prod_unfold length_le_entry)

lemmas codec_corrupt [corr_intros] =
  c16.fails_corrupt c32.fails_corrupt c64.fails_corrupt cstr.fails_corrupt
  centry.fails_corrupt cbranch.fails_corrupt c32.many_corrupt cstr.many_corrupt
  centry.many_corrupt cbranch.many_corrupt

end
