(* ===== verification/Crc32.thy ===== *)
theory Crc32
  imports Codec
begin

text \<open>
  The reflected CRC-32 of \<open>storage_v2.cpp\<close> (\<open>crc32\<close>, polynomial \<open>0xedb88320\<close>) and what the
  format relies on it for: one step of the register is injective in the register and in the
  byte, so a change of a single byte always changes the checksum.
\<close>

definition crc_bit :: "u32 \<Rightarrow> u32" where
  "crc_bit crc = (let mask = 0 - (crc AND 1) in drop_bit 1 crc XOR (0xedb88320 AND mask))"

definition crc_byte :: "u32 \<Rightarrow> u8 \<Rightarrow> u32" where
  "crc_byte crc b = (crc_bit ^^ 8) (crc XOR ucast b)"

definition crc32 :: "bytes \<Rightarrow> u32" where
  "crc32 data = NOT (foldl crc_byte 0xffffffff data)"

section \<open>The register step loses no information\<close>

lemma crc_bit_eq:
  "crc_bit c = (if bit c 0 then drop_bit 1 c XOR 0xedb88320 else drop_bit 1 c)"
proof (cases "bit c 0")
  case True
  then have "c AND 1 = 1" by (simp add: and_one_eq odd_iff_mod_2_eq_one bit_0)
  then show ?thesis using True by (simp add: crc_bit_def)
next
  case False
  then have "c AND 1 = 0" by (simp add: and_one_eq bit_0 even_iff_mod_2_eq_zero)
  then show ?thesis using False by (simp add: crc_bit_def)
qed

lemma xor_right_inject: "x XOR a = y XOR a \<Longrightarrow> x = (y :: 'a::len word)"
  by (metis xor.assoc xor_self_eq xor.right_neutral)

lemma xor_left_inject: "a XOR x = a XOR y \<Longrightarrow> x = (y :: 'a::len word)"
  by (metis xor.commute xor_right_inject)

text \<open>The top bit of the polynomial is set, so the top bit of the result is the bit shifted out.\<close>

lemma crc_bit_top: "bit (crc_bit c) 31 \<longleftrightarrow> bit c 0"
proof -
  have "\<not> bit (drop_bit 1 c) 31" by (simp add: bit_simps impossible_bit)
  moreover have "bit (0xedb88320 :: u32) 31" by simp
  ultimately show ?thesis by (simp add: crc_bit_eq bit_xor_iff)
qed

lemma drop_bit_1_inject:
  assumes "drop_bit 1 a = drop_bit 1 (b :: u32)" and "bit a 0 = bit b 0"
  shows "a = b"
proof (rule bit_word_eqI)
  fix n
  show "bit a n = bit b n"
  proof (cases n)
    case 0
    then show ?thesis using assms(2) by simp
  next
    case (Suc m)
    have "bit (drop_bit 1 a) m = bit (drop_bit 1 b) m" by (simp only: assms(1))
    then show ?thesis by (simp add: bit_drop_bit_eq Suc)
  qed
qed

lemma crc_bit_inject: "crc_bit a = crc_bit b \<Longrightarrow> a = b"
proof (rule drop_bit_1_inject)
  assume eq: "crc_bit a = crc_bit b"
  then show low: "bit a 0 = bit b 0" by (simp flip: crc_bit_top)
  from eq low show "drop_bit 1 a = drop_bit 1 b"
    by (cases "bit a 0") (auto simp: crc_bit_eq dest: xor_right_inject)
qed

lemma crc_bits_inject: "(crc_bit ^^ n) a = (crc_bit ^^ n) b \<Longrightarrow> a = b"
  by (induction n) (auto dest: crc_bit_inject)

lemma crc_byte_register_inject: "crc_byte c b = crc_byte c' b \<Longrightarrow> c = c'"
  by (auto simp: crc_byte_def dest!: crc_bits_inject xor_right_inject)

lemma ucast_up_byte_inject: "(ucast a :: u32) = ucast b \<Longrightarrow> a = (b :: u8)"
proof -
  assume eq: "(ucast a :: u32) = ucast b"
  have "ucast (ucast x :: u32) = x" for x :: u8
    by (rule ucast_up_ucast_id) (simp add: is_up)
  with eq show "a = b" by metis
qed

lemma crc_byte_data_inject: "crc_byte c b = crc_byte c b' \<Longrightarrow> b = b'"
proof -
  assume "crc_byte c b = crc_byte c b'"
  then have "(ucast b :: u32) = ucast b'"
    by (auto simp: crc_byte_def dest!: crc_bits_inject xor_left_inject)
  then show "b = b'" by (rule ucast_up_byte_inject)
qed

lemma crc_fold_register_inject: "foldl crc_byte c xs = foldl crc_byte c' xs \<Longrightarrow> c = c'"
  by (induction xs arbitrary: c c') (auto dest: crc_byte_register_inject)

lemma crc32_byte_inject: "crc32 (xs @ b # ys) = crc32 (xs @ b' # ys) \<Longrightarrow> b = b'"
proof -
  assume "crc32 (xs @ b # ys) = crc32 (xs @ b' # ys)"
  then have "crc_byte (foldl crc_byte 0xffffffff xs) b = crc_byte (foldl crc_byte 0xffffffff xs) b'"
    by (simp add: crc32_def) (rule crc_fold_register_inject)
  then show "b = b'" by (rule crc_byte_data_inject)
qed

lemma crc32_update_detects:
  assumes "i < length data" and "data ! i \<noteq> x"
  shows "crc32 (data[i := x]) \<noteq> crc32 data"
proof
  assume "crc32 (data[i := x]) = crc32 data"
  moreover have "data[i := x] = take i data @ x # drop (Suc i) data"
    using assms(1) by (rule list_update_eq_split)
  moreover have "data = take i data @ data ! i # drop (Suc i) data"
    using assms(1) by (rule id_take_nth_drop)
  ultimately have "x = data ! i" by (metis crc32_byte_inject)
  with assms(2) show False by simp
qed

section \<open>The published check value\<close>

lemma crc_byte_unfold:
  "crc_byte crc b =
     crc_bit (crc_bit (crc_bit (crc_bit (crc_bit (crc_bit (crc_bit (crc_bit (crc XOR ucast b))))))))"
  by (simp add: crc_byte_def eval_nat_numeral)

lemma crc32_check: "crc32 (map byte_of_char ''123456789'') = 0xcbf43926"
  by (simp add: crc32_def crc_byte_unfold crc_bit_def byte_of_char_def)

end
