(* ===== verification/Page.thy ===== *)
theory Page
  imports Crc32
begin

text \<open>
  The page envelope of \<open>storage_v2.cpp\<close>: \<open>encode_page\<close> and \<open>decode_page\<close>. A page image is 4096
  bytes: a 32-byte header with a checksum field, the payload, and zero filling. The lemmas show
  that \<open>decode_page\<close> accepts exactly the images \<open>encode_page\<close> produces, so decoding inverts
  encoding and an accepted image is canonical, and that a change of any one byte of an encoded
  page is rejected as corruption.
\<close>

section \<open>Constants and data\<close>

definition PAGE_SIZE :: nat where "PAGE_SIZE = 4096"
definition FORMAT_VERSION :: u16 where "FORMAT_VERSION = 2"
definition PAGE_HEADER_SIZE :: nat where "PAGE_HEADER_SIZE = 32"
definition PAGE_PAYLOAD_SIZE :: nat where "PAGE_PAYLOAD_SIZE = PAGE_SIZE - PAGE_HEADER_SIZE"
definition NO_PAGE :: u32 where "NO_PAGE = 0xffffffff"

lemmas page_consts = PAGE_SIZE_def PAGE_HEADER_SIZE_def PAGE_PAYLOAD_SIZE_def

datatype page_type = Superblock | Schema | Rows | IndexDirectory | IndexLeaf | IndexInternal

fun type_code :: "page_type \<Rightarrow> u8" where
  "type_code Superblock = 1"
| "type_code Schema = 2"
| "type_code Rows = 3"
| "type_code IndexDirectory = 4"
| "type_code IndexLeaf = 5"
| "type_code IndexInternal = 6"

text \<open>\<open>static_cast<PageType>\<close>, applied to the codes 1 to 6 only.\<close>

definition type_of_code :: "u8 \<Rightarrow> page_type" where
  "type_of_code c =
     (if c = 1 then Superblock else if c = 2 then Schema else if c = 3 then Rows
      else if c = 4 then IndexDirectory else if c = 5 then IndexLeaf else IndexInternal)"

record page =
  ptype :: page_type
  pid :: u32
  pnext :: u32
  payload :: bytes

definition Page :: "page_type \<Rightarrow> u32 \<Rightarrow> u32 \<Rightarrow> bytes \<Rightarrow> page" where
  "Page t i n bs = \<lparr>ptype = t, pid = i, pnext = n, payload = bs\<rparr>"

section \<open>Encoding\<close>

definition put32 :: "nat \<Rightarrow> u32 \<Rightarrow> bytes \<Rightarrow> bytes" where
  "put32 offset v output = fst (foldl
     (\<lambda>(out, off) shift. (out[off := ucast (drop_bit shift v AND 0xff)], off + 1))
     (output, offset) [0, 8, 16, 24])"

definition page_magic :: bytes where
  "page_magic = map byte_of_char ''SQL2''"

definition encode_page :: "page \<Rightarrow> bytes res" where
  "encode_page p =
     (if length (payload p) > PAGE_PAYLOAD_SIZE
      then Inl (Logic_Error ''Page payload exceeds its bound'')
      else
        let output = replicate PAGE_SIZE 0;
            output = output[0 := page_magic ! 0, 1 := page_magic ! 1, 2 := page_magic ! 2,
                            3 := page_magic ! 3];
            output = output[4 := type_code (ptype p), 5 := 0];
            output = output[6 := ucast (FORMAT_VERSION AND 0xff),
                            7 := ucast (drop_bit 8 FORMAT_VERSION)];
            output = put32 8 (pid p) output;
            output = put32 12 (word_of_nat (length (payload p))) output;
            output = put32 16 (pnext p) output;
            output = overwrite PAGE_HEADER_SIZE (payload p) output
        in Inr (put32 20 (crc32 output) output))"

section \<open>Decoding\<close>

definition read_u32_at :: "bytes \<Rightarrow> nat \<Rightarrow> u32" where
  "read_u32_at bs off = fst (foldl
     (\<lambda>(v, off) shift. (v OR push_bit shift (ucast (bs ! off)), off + 1)) (0, off) [0, 8, 16, 24])"

definition page_error :: "u32 \<Rightarrow> string \<Rightarrow> error" where
  "page_error i msg = corruption (''page '' @ to_string (unat i) @ msg)"

definition decode_page :: "bytes \<Rightarrow> u32 \<Rightarrow> page res" where
  "decode_page bs expected_id =
     (if \<not> (bs ! 0 = page_magic ! 0 \<and> bs ! 1 = page_magic ! 1 \<and> bs ! 2 = page_magic ! 2 \<and>
            bs ! 3 = page_magic ! 3)
      then Inl (page_error expected_id '' has invalid magic'')
      else if ucast (bs ! 6) OR push_bit 8 (ucast (bs ! 7)) \<noteq> FORMAT_VERSION
      then Inl (page_error expected_id '' has unsupported version'')
      else if bs ! 5 \<noteq> 0 then Inl (page_error expected_id '' has unsupported flags'')
      else if list_ex (\<lambda>i. bs ! i \<noteq> 0) [24..<PAGE_HEADER_SIZE]
      then Inl (page_error expected_id '' reserved bytes are not zero'')
      else if read_u32_at bs 8 \<noteq> expected_id
      then Inl (corruption ''page identifier does not match its file offset'')
      else let payload_size = unat (read_u32_at bs 12) in
        if payload_size > PAGE_PAYLOAD_SIZE
        then Inl (corruption ''page payload exceeds its bound'')
        else if list_ex (\<lambda>i. bs ! i \<noteq> 0) [PAGE_HEADER_SIZE + payload_size..<PAGE_SIZE]
        then Inl (page_error expected_id '' unused bytes are not zero'')
        else if crc32 (overwrite 20 (replicate 4 0) bs) \<noteq> read_u32_at bs 20
        then Inl (page_error expected_id '' checksum mismatch'')
        else if bs ! 4 < type_code Superblock \<or> bs ! 4 > type_code IndexInternal
        then Inl (page_error expected_id '' has invalid type'')
        else Inr (Page (type_of_code (bs ! 4)) expected_id (read_u32_at bs 16)
                   (take payload_size (drop PAGE_HEADER_SIZE bs))))"

section \<open>The layout of a page image\<close>

definition page_head :: "page \<Rightarrow> bytes" where
  "page_head p = page_magic @ [type_code (ptype p), 0, 2, 0] @ le32 (pid p) @
     le32 (word_of_nat (length (payload p))) @ le32 (pnext p)"

definition page_tail :: "page \<Rightarrow> bytes" where
  "page_tail p = replicate 8 0 @ payload p @ replicate (PAGE_PAYLOAD_SIZE - length (payload p)) 0"

definition page_form :: "page \<Rightarrow> bytes \<Rightarrow> bytes" where
  "page_form p c = page_head p @ c @ page_tail p"

definition page_bytes :: "page \<Rightarrow> bytes" where
  "page_bytes p = page_form p (le32 (crc32 (page_form p (replicate 4 0))))"

definition page_ok :: "page \<Rightarrow> bool" where
  "page_ok p \<longleftrightarrow> length (payload p) \<le> PAGE_PAYLOAD_SIZE"

lemma length_page_magic [simp]: "length page_magic = 4"
  by (simp add: page_magic_def)

lemma length_page_head [simp]: "length (page_head p) = 20"
  by (simp add: page_head_def)

lemma length_page_tail [simp]: "page_ok p \<Longrightarrow> length (page_tail p) = 4072"
  by (simp add: page_tail_def page_ok_def page_consts)

lemma length_page_form: "page_ok p \<Longrightarrow> length c = 4 \<Longrightarrow> length (page_form p c) = PAGE_SIZE"
  by (simp add: page_form_def PAGE_SIZE_def)

lemma length_page_bytes [len_simps]: "page_ok p \<Longrightarrow> length (page_bytes p) = PAGE_SIZE"
  by (simp add: page_bytes_def length_page_form)

lemma put32_eq:
  assumes "off + 4 \<le> length xs"
  shows "put32 off v xs = overwrite off (le32 v) xs"
proof -
  have "xs[off := a, off + 1 := b, off + 2 := c, off + 3 := d] = overwrite off [a, b, c, d] xs"
    for a b c d
    using assms
    by (intro nth_equalityI) (auto simp: length_overwrite nth_overwrite nth_list_update nth_Cons'
        less_Suc_eq numeral_eq_Suc)
  from this show ?thesis
    by (simp add: put32_def le32_def append_u32_def numeral_eq_Suc)
qed

lemma read_u32_at_eq:
  assumes "off + 4 \<le> length bs"
  shows "read_u32_at bs off = un32 (take 4 (drop off bs))"
  using assms by (simp add: read_u32_at_def un32_def numeral_eq_Suc nth_append)

lemma overwrite_at_append:
  "off = length xs \<Longrightarrow> length ys = length zs \<Longrightarrow> overwrite off ys (xs @ zs) = xs @ ys"
  by (simp add: overwrite_def)

lemma overwrite_in_append:
  "off = length xs + k \<Longrightarrow> k + length ys \<le> length zs \<Longrightarrow>
   overwrite off ys (xs @ zs @ ws) = xs @ overwrite k ys zs @ ws"
  by (simp add: overwrite_def)

lemma encode_page_eq:
  assumes "page_ok p"
  shows "encode_page p = Inr (page_bytes p)"
proof -
  let ?n = "length (payload p)"
  let ?first = "page_magic @ [type_code (ptype p), 0, 2, 0]"
  have n: "?n \<le> 4064" using assms by (simp add: page_ok_def page_consts)
  let ?rest = "replicate 4 0 @ replicate 4 0 @ replicate 4 0 @ replicate 4 0 @ replicate 8 0 @
      replicate ?n 0 @ replicate (4064 - ?n) (0 :: u8)"
  have "[0, 0, 0, 0, 0, 0, 0, 0 :: u8] = replicate 8 0" by (simp add: numeral_eq_Suc)
  then have zeros: "replicate PAGE_SIZE (0 :: u8) = [0, 0, 0, 0, 0, 0, 0, 0] @ ?rest"
    using n by (simp add: PAGE_SIZE_def flip: replicate_add)
  have "([0, 0, 0, 0, 0, 0, 0, 0] @ rest)
      [0 := page_magic ! 0, 1 := page_magic ! 1, 2 := page_magic ! 2, 3 := page_magic ! 3,
       4 := type_code (ptype p), 5 := 0, 6 := ucast (FORMAT_VERSION AND 0xff),
       7 := ucast (drop_bit 8 FORMAT_VERSION)] = ?first @ rest" for rest
    by (simp add: page_magic_def FORMAT_VERSION_def)
  then have first: "(replicate PAGE_SIZE (0 :: u8))
      [0 := page_magic ! 0, 1 := page_magic ! 1, 2 := page_magic ! 2, 3 := page_magic ! 3,
       4 := type_code (ptype p), 5 := 0, 6 := ucast (FORMAT_VERSION AND 0xff),
       7 := ucast (drop_bit 8 FORMAT_VERSION)] = ?first @ ?rest"
    by (simp only: zeros)
  have len: "length ?first = 8" by simp
  have fields: "put32 16 (pnext p) (put32 12 (word_of_nat ?n) (put32 8 (pid p) (?first @ ?rest))) =
      (page_head p @ replicate 4 0 @ replicate 8 0) @ replicate ?n 0 @ replicate (4064 - ?n) 0"
    by (simp add: put32_eq overwrite_def page_head_def)
  have body: "overwrite 32 (payload p) (put32 16 (pnext p) (put32 12 (word_of_nat ?n)
      (put32 8 (pid p) (?first @ ?rest)))) = page_form p (replicate 4 0)"
    by (simp only: fields, subst overwrite_append_right)
      (simp_all add: page_form_def page_tail_def page_consts)
  have crc: "put32 20 c (page_form p (replicate 4 0)) = page_form p (le32 c)" for c
    using n by (simp add: put32_eq overwrite_append_right page_form_def page_tail_def page_consts)
  show ?thesis
    using assms
    unfolding encode_page_def page_ok_def Let_def first PAGE_HEADER_SIZE_def body crc
      page_bytes_def
    by simp
qed

lemma encode_page_Inr: "encode_page p = Inr bs \<longleftrightarrow> page_ok p \<and> bs = page_bytes p"
  using encode_page_eq [of p] by (cases "page_ok p") (auto simp: encode_page_def page_ok_def)

section \<open>Decoding accepts exactly the encoder's images\<close>

lemma type_code_bounds: "1 \<le> type_code t \<and> type_code t \<le> 6"
  by (cases t) simp_all

lemma type_of_code_of_type [simp]: "type_of_code (type_code t) = t"
  by (cases t) (simp_all add: type_of_code_def)

lemma type_code_of_code: "1 \<le> c \<Longrightarrow> c \<le> 6 \<Longrightarrow> type_code (type_of_code c) = c"
proof -
  assume "1 \<le> c" and "c \<le> 6"
  then have "c = 1 \<or> c = 2 \<or> c = 3 \<or> c = 4 \<or> c = 5 \<or> c = 6"
    by (simp add: word_le_nat_alt) (auto simp: word_unat_eq_iff)
  then show ?thesis by (auto simp: type_of_code_def)
qed

lemma zero_range:
  assumes "j \<le> length xs" and "i \<le> j"
  shows "\<not> list_ex (\<lambda>k. xs ! k \<noteq> 0) [i..<j] \<longleftrightarrow> take (j - i) (drop i xs) = replicate (j - i) (0 :: u8)"
proof
  assume "\<not> list_ex (\<lambda>k. xs ! k \<noteq> 0) [i..<j]"
  then show "take (j - i) (drop i xs) = replicate (j - i) 0"
    using assms by (intro nth_equalityI) (auto simp: list_ex_iff)
next
  assume eq: "take (j - i) (drop i xs) = replicate (j - i) 0"
  have "xs ! k = 0" if "i \<le> k" "k < j" for k
  proof -
    have "xs ! k = take (j - i) (drop i xs) ! (k - i)" using that assms by simp
    then show ?thesis using that by (simp add: eq)
  qed
  then show "\<not> list_ex (\<lambda>k. xs ! k \<noteq> 0) [i..<j]" by (auto simp: list_ex_iff)
qed

lemma version_eq: "ucast a OR push_bit 8 (ucast b) = FORMAT_VERSION \<longleftrightarrow> a = (2 :: u8) \<and> b = (0 :: u8)"
proof
  assume "ucast a OR push_bit 8 (ucast b) = FORMAT_VERSION"
  then have "le16 (un16 [a, b]) = le16 2" by (simp add: un16_def FORMAT_VERSION_def)
  then show "a = 2 \<and> b = 0" by (simp add: le16_un16) (simp add: le16_def append_u16_def)
qed (simp add: FORMAT_VERSION_def)

lemma take_8_nth:
  assumes "8 \<le> length xs"
  shows "take 8 xs = [xs ! 0, xs ! 1, xs ! 2, xs ! 3, xs ! 4, xs ! 5, xs ! 6, xs ! 7]"
  using assms by (intro nth_equalityI) (auto simp: less_Suc_eq numeral_eq_Suc)

lemma page_split:
  assumes "length bs = PAGE_SIZE"
  shows "bs = ([bs ! 0, bs ! 1, bs ! 2, bs ! 3, bs ! 4, bs ! 5, bs ! 6, bs ! 7] @
    take 4 (drop 8 bs) @ take 4 (drop 12 bs) @ take 4 (drop 16 bs)) @ take 4 (drop 20 bs) @ drop 24 bs"
proof -
  have "bs = take (8 + (4 + (4 + (4 + 4)))) bs @ drop (8 + (4 + (4 + (4 + 4)))) bs"
    by (simp only: append_take_drop_id)
  then show ?thesis
    using assms by (simp only: take_add take_8_nth PAGE_SIZE_def append_assoc) simp
qed

lemma decode_page_form:
  assumes len: "length bs = PAGE_SIZE" and dec: "decode_page bs i = Inr p"
  shows "pid p = i \<and> page_ok p \<and> bs = page_bytes p"
proof -
  define n where "n = unat (read_u32_at bs 12)"
  note dec = dec [unfolded decode_page_def Let_def, folded n_def]
  have magic: "bs ! 0 = page_magic ! 0" "bs ! 1 = page_magic ! 1" "bs ! 2 = page_magic ! 2"
      "bs ! 3 = page_magic ! 3"
    and version: "ucast (bs ! 6) OR push_bit 8 (ucast (bs ! 7)) = FORMAT_VERSION"
    and flags: "bs ! 5 = 0"
    and reserved: "\<not> list_ex (\<lambda>i. bs ! i \<noteq> 0) [24..<32]"
    and ident: "read_u32_at bs 8 = i"
    and bound: "n \<le> PAGE_PAYLOAD_SIZE"
    and unused: "\<not> list_ex (\<lambda>i. bs ! i \<noteq> 0) [32 + n..<PAGE_SIZE]"
    and crc: "crc32 (overwrite 20 (replicate 4 0) bs) = read_u32_at bs 20"
    and code: "\<not> bs ! 4 < type_code Superblock" "\<not> bs ! 4 > type_code IndexInternal"
    and p: "p = Page (type_of_code (bs ! 4)) i (read_u32_at bs 16) (take n (drop 32 bs))"
    using dec by (auto simp: PAGE_HEADER_SIZE_def split: if_splits)
  have plen: "length (payload p) = n" and ok: "page_ok p"
    using bound len by (auto simp: p Page_def page_ok_def page_consts)
  have word_n: "le32 (word_of_nat n) = take 4 (drop 12 bs)"
    using len by (simp add: n_def read_u32_at_eq PAGE_SIZE_def le32_un32)
  have "[bs ! 0, bs ! 1, bs ! 2, bs ! 3, bs ! 4, bs ! 5, bs ! 6, bs ! 7] =
      page_magic @ [type_code (ptype p), 0, 2, 0]"
    using magic flags version code [unfolded not_less]
    by (simp add: version_eq p Page_def type_code_of_code) (simp add: page_magic_def)
  then have head: "[bs ! 0, bs ! 1, bs ! 2, bs ! 3, bs ! 4, bs ! 5, bs ! 6, bs ! 7] @
      take 4 (drop 8 bs) @ take 4 (drop 12 bs) @ take 4 (drop 16 bs) = page_head p"
    using len ident word_n
    by (simp add: page_head_def plen) (auto simp: p Page_def read_u32_at_eq PAGE_SIZE_def le32_un32)
  have "take (32 - 24) (drop 24 bs) = replicate (32 - 24) 0"
    using reserved len by (subst (asm) zero_range) (auto simp: PAGE_SIZE_def)
  moreover have "take (PAGE_SIZE - (32 + n)) (drop (32 + n) bs) = replicate (PAGE_SIZE - (32 + n)) 0"
    using unused len bound by (subst (asm) zero_range) (auto simp: page_consts)
  moreover have "drop 24 bs = take 8 (drop 24 bs) @ take n (drop 32 bs) @ drop (32 + n) bs"
  proof -
    have "drop 24 bs = take 8 (drop 24 bs) @ drop 8 (drop 24 bs)"
      by (simp only: append_take_drop_id)
    moreover have "drop 8 (drop 24 bs) = take n (drop 32 bs) @ drop n (drop 32 bs)"
      by (subst append_take_drop_id) simp
    ultimately show ?thesis by (simp only: drop_drop add.commute)
  qed
  ultimately have tail: "drop 24 bs = page_tail p"
    using len bound by (simp add: page_tail_def plen) (simp add: p Page_def page_consts)
  have form: "bs = page_form p (take 4 (drop 20 bs))"
    using page_split [OF len] by (simp only: head tail page_form_def)
  have "overwrite 20 (replicate 4 0) bs = page_form p (replicate 4 0)"
    using len by (subst form) (simp add: page_form_def overwrite_append_right PAGE_SIZE_def)
  then have "take 4 (drop 20 bs) = le32 (crc32 (page_form p (replicate 4 0)))"
    using crc len by (simp add: read_u32_at_eq PAGE_SIZE_def le32_un32)
  with form have "bs = page_bytes p" by (simp add: page_bytes_def)
  then show ?thesis using ok by (simp add: p Page_def)
qed

lemma page_form_fields:
  assumes "length c = 4"
  shows "take 20 (page_form p c) = page_head p"
    and "drop 24 (page_form p c) = page_tail p"
    and "overwrite 20 (replicate 4 0) (page_form p c) = page_form p (replicate 4 0)"
    and "take 4 (drop 20 (page_form p c)) = c"
  using assms by (simp_all add: page_form_def overwrite_append_right)

lemma page_bytes_fields:
  shows "take 20 (page_bytes p) = page_head p"
    and "drop 24 (page_bytes p) = page_tail p"
    and "overwrite 20 (replicate 4 0) (page_bytes p) = page_form p (replicate 4 0)"
    and "take 4 (drop 20 (page_bytes p)) = le32 (crc32 (page_form p (replicate 4 0)))"
  unfolding page_bytes_def by (rule page_form_fields, simp)+

lemma take_drop_of_take: "i + n \<le> m \<Longrightarrow> take n (drop i xs) = take n (drop i (take m xs))"
  by (simp add: drop_take)

lemma nth_slice: "i \<le> k \<Longrightarrow> k < i + n \<Longrightarrow> k < length xs \<Longrightarrow> take n (drop i xs) ! (k - i) = xs ! k"
  by simp

lemma decode_page_bytes:
  assumes ok: "page_ok p"
  shows "decode_page (page_bytes p) (pid p) = Inr p"
proof -
  let ?bs = "page_bytes p" and ?n = "length (payload p)"
  note F = page_bytes_fields [of p]
  have len: "length ?bs = PAGE_SIZE" using ok by (rule length_page_bytes)
  have n: "?n \<le> 4064" using ok by (simp add: page_ok_def page_consts)
  have nth: "?bs ! i = page_head p ! i" if "i < 20" for i
    using that by (simp flip: F(1))
  have field: "read_u32_at ?bs off = un32 (take 4 (drop off (page_head p)))" if "off + 4 \<le> 20" for off
    using that len take_drop_of_take [OF that, of ?bs]
    by (simp add: read_u32_at_eq PAGE_SIZE_def F(1))
  have size: "unat (read_u32_at ?bs 12) = ?n"
    using n by (simp add: field page_head_def unat_of_nat take_bit_nat_eq_self)
  have "take 8 (drop 24 ?bs) = replicate 8 0" by (simp add: F(2) page_tail_def)
  then have reserved: "\<not> list_ex (\<lambda>i. ?bs ! i \<noteq> 0) [24..<PAGE_HEADER_SIZE]"
    using len by (subst zero_range) (auto simp: PAGE_SIZE_def PAGE_HEADER_SIZE_def)
  have "drop (32 + ?n) ?bs = drop (8 + ?n) (drop 24 ?bs)" by simp
  then have rest: "drop (32 + ?n) ?bs = replicate (4064 - ?n) 0"
    by (simp only: F(2)) (simp add: page_tail_def page_consts)
  then have unused: "\<not> list_ex (\<lambda>i. ?bs ! i \<noteq> 0) [PAGE_HEADER_SIZE + ?n..<PAGE_SIZE]"
    using n len by (subst zero_range) (auto simp: PAGE_SIZE_def PAGE_HEADER_SIZE_def)
  have "take ?n (drop 32 ?bs) = take ?n (drop 8 (drop 24 ?bs))" by simp
  then have data: "take ?n (drop PAGE_HEADER_SIZE ?bs) = payload p"
    by (simp only: F(2) PAGE_HEADER_SIZE_def) (simp add: page_tail_def)
  have crc: "crc32 (overwrite 20 (replicate 4 0) ?bs) = read_u32_at ?bs 20"
    using len by (simp add: read_u32_at_eq PAGE_SIZE_def F(3,4))
  have magic: "?bs ! 0 = page_magic ! 0" "?bs ! 1 = page_magic ! 1" "?bs ! 2 = page_magic ! 2"
      "?bs ! 3 = page_magic ! 3"
    by (simp_all add: nth page_head_def nth_append)
  have head: "?bs ! 4 = type_code (ptype p)" "?bs ! 5 = 0" "?bs ! 6 = 2" "?bs ! 7 = 0"
    by (simp_all add: nth page_head_def nth_append)
  have ident: "read_u32_at ?bs 8 = pid p" "read_u32_at ?bs 16 = pnext p"
    by (simp_all add: field page_head_def)
  have code: "\<not> ?bs ! 4 < type_code Superblock" "\<not> type_code IndexInternal < ?bs ! 4"
    using type_code_bounds [of "ptype p"] by (simp_all only: head not_less type_code.simps)
  have version: "ucast (?bs ! 6) OR push_bit 8 (ucast (?bs ! 7)) = FORMAT_VERSION"
    by (simp only: version_eq head simp_thms)
  have bound: "\<not> ?n > PAGE_PAYLOAD_SIZE" using ok by (simp add: page_ok_def)
  show ?thesis
    by (simp only: decode_page_def Let_def magic version head(2) reserved ident size bound unused
        crc code data simp_thms if_True if_False)
      (simp add: head Page_def)
qed

lemma decode_page_iff:
  "length bs = PAGE_SIZE \<Longrightarrow>
   decode_page bs i = Inr p \<longleftrightarrow> pid p = i \<and> page_ok p \<and> bs = page_bytes p"
  using decode_page_form decode_page_bytes by metis

lemma decode_page_corrupt [corr_intros]: "corruption_only (decode_page bs i)"
  by (auto simp: decode_page_def page_error_def Let_def)

section \<open>Any change of one byte is detected\<close>

text \<open>
  A changed image that still decoded would be the canonical image of some page \<open>q\<close>. Outside the
  checksum field it then differs from the original in one byte while carrying the same checksum;
  inside the field it carries a different checksum of the same bytes.
\<close>

lemma page_image_crc:
  "un32 (take 4 (drop 20 (page_bytes p))) = crc32 (overwrite 20 (replicate 4 0) (page_bytes p))"
  by (simp only: page_bytes_fields un32_le32)

lemma overwrite_update_outside:
  "i < off \<or> off + length ys \<le> i \<Longrightarrow> off + length ys \<le> length xs \<Longrightarrow>
   overwrite off ys (xs[i := x]) = (overwrite off ys xs)[i := x]"
  by (cases "i < length xs")
    (auto intro!: nth_equalityI simp: length_overwrite nth_overwrite nth_list_update)

lemma overwrite_update_inside:
  "off \<le> i \<Longrightarrow> i < off + length ys \<Longrightarrow> off + length ys \<le> length xs \<Longrightarrow>
   overwrite off ys (xs[i := x]) = overwrite off ys xs"
  by (auto intro!: nth_equalityI simp: length_overwrite nth_overwrite nth_list_update)

lemma decode_rejects_changed_byte:
  assumes ok: "page_ok p" and i: "i < PAGE_SIZE" and x: "x \<noteq> page_bytes p ! i"
  shows "\<exists>e. decode_page ((page_bytes p)[i := x]) j = Inl e \<and> is_corruption e"
proof (cases "decode_page ((page_bytes p)[i := x]) j")
  case (Inl e)
  then show ?thesis using decode_page_corrupt by (auto simp: corruption_only_def)
next
  case (Inr q)
  let ?bs = "page_bytes p" and ?z = "overwrite 20 (replicate 4 (0 :: u8))"
  have len: "length ?bs = 4096" using length_page_bytes [OF ok] by (simp add: PAGE_SIZE_def)
  have q: "page_ok q" "?bs[i := x] = page_bytes q"
    using decode_page_form [OF _ Inr] len by (auto simp: PAGE_SIZE_def)
  have crc_q: "un32 (take 4 (drop 20 (?bs[i := x]))) = crc32 (?z (?bs[i := x]))"
    by (simp only: q(2) page_image_crc)
  have crc_p: "un32 (take 4 (drop 20 ?bs)) = crc32 (?z ?bs)" by (rule page_image_crc)
  show ?thesis
  proof (cases "20 \<le> i \<and> i < 24")
    case True
    then have "?z (?bs[i := x]) = ?z ?bs"
      using len by (intro overwrite_update_inside) auto
    then have "le32 (un32 (take 4 (drop 20 (?bs[i := x])))) = le32 (un32 (take 4 (drop 20 ?bs)))"
      by (simp only: crc_p crc_q)
    then have "take 4 (drop 20 (?bs[i := x])) = take 4 (drop 20 ?bs)"
      using len by (simp add: le32_un32)
    moreover have "take 4 (drop 20 (?bs[i := x])) ! (i - 20) = x"
      using True len by (subst nth_slice) auto
    moreover have "take 4 (drop 20 ?bs) ! (i - 20) = ?bs ! i"
      using True len by (intro nth_slice) auto
    ultimately have "x = ?bs ! i" by simp
    then show ?thesis using x by simp
  next
    case False
    then have z: "?z (?bs[i := x]) = (?z ?bs)[i := x]"
      using len by (intro overwrite_update_outside) auto
    have "take 4 (drop 20 (?bs[i := x])) = take 4 (drop 20 ?bs)"
      using False len by (auto intro!: nth_equalityI simp: nth_list_update)
    then have "crc32 ((?z ?bs)[i := x]) = crc32 (?z ?bs)"
      using crc_p crc_q by (simp add: z)
    moreover have "?z ?bs ! i \<noteq> x"
      using False len i x by (auto simp: nth_overwrite PAGE_SIZE_def)
    ultimately show ?thesis
      using crc32_update_detects [of i "?z ?bs" x] i len by (simp add: length_overwrite PAGE_SIZE_def)
  qed
qed

end
