(* ===== verification/Page_Chain.thy ===== *)
theory Page_Chain
  imports Page
begin

text \<open>
  Byte streams stored as chains of pages: \<open>add_chain\<close> and \<open>read_chain\<close> of \<open>storage_v2.cpp\<close>.
  A stream is cut into payloads of at most 4064 bytes on consecutive new pages linked by their
  \<open>next\<close> field. \<open>read_chain\<close> follows the links, refusing links out of the file, cycles, pages
  owned by another structure and pages of another type; it returns the stream back.
\<close>

section \<open>Writing a chain\<close>

text \<open>
  The \<open>while\<close> loop of \<open>add_chain\<close>; \<open>rest\<close> is the part of \<open>bytes\<close> from \<open>offset\<close> on.
\<close>

definition link_back :: "page list \<Rightarrow> page_type \<Rightarrow> u32 \<Rightarrow> u32 \<Rightarrow> page list" where
  "link_back pages t first new_id =
     (if pages \<noteq> [] \<and> ptype (last pages) = t \<and> pnext (last pages) = NO_PAGE \<and>
         pid (last pages) \<ge> first
      then butlast pages @ [(last pages)\<lparr>pnext := new_id\<rparr>]
      else pages)"

function add_chain_loop :: "page list \<Rightarrow> page_type \<Rightarrow> u32 \<Rightarrow> bytes \<Rightarrow> page list" where
  "add_chain_loop pages t first rest =
     (if rest = [] then pages
      else
        let size = min PAGE_PAYLOAD_SIZE (length rest);
            page = Page t (word_of_nat (length pages)) NO_PAGE (take size rest)
        in add_chain_loop (link_back pages t first (pid page) @ [page]) t first (drop size rest))"
  by pat_completeness auto
termination
  by (relation "measure (\<lambda>(pages, t, first, rest). length rest)") (auto simp: page_consts)

declare add_chain_loop.simps [simp del]

definition add_chain :: "page list \<Rightarrow> page_type \<Rightarrow> bytes \<Rightarrow> page list \<times> u32" where
  "add_chain pages t bs =
     (if bs = [] then
        let page = Page t (word_of_nat (length pages)) NO_PAGE [] in (pages @ [page], pid page)
      else
        let first = word_of_nat (length pages) in (add_chain_loop pages t first bs, first))"

section \<open>Reading a chain\<close>

text \<open>
  The loop of \<open>read_chain\<close>. \<open>chain\<close> is the set of pages visited by this call and \<open>owned\<close> the set
  of pages claimed by any structure; each round adds a new page of the file to \<open>chain\<close>.
\<close>

definition chain_link ::
  "page list \<Rightarrow> u32 \<Rightarrow> page_type \<Rightarrow> u32 set \<Rightarrow> u32 set \<Rightarrow> page res" where
  "chain_link pages current expected chain owned =
     (if unat current \<ge> length pages
      then Inl (corruption ''page chain points outside the file'')
      else if current \<in> chain then Inl (corruption ''page chain contains a cycle'')
      else if current \<in> owned then Inl (corruption ''page belongs to multiple structures'')
      else if ptype (pages ! unat current) \<noteq> expected
      then Inl (corruption ''page chain contains the wrong page type'')
      else Inr (pages ! unat current))"

lemma chain_link_eq_Inr:
  "chain_link pages current expected chain owned = Inr page \<longleftrightarrow>
   unat current < length pages \<and> current \<notin> chain \<and> current \<notin> owned \<and>
   ptype page = expected \<and> page = pages ! unat current"
  by (auto simp: chain_link_def)

lemma chain_link_corrupt [corr_intros]:
  "corruption_only (chain_link pages current expected chain owned)"
  by (simp add: chain_link_def)

function read_chain_loop ::
  "page list \<Rightarrow> u32 \<Rightarrow> page_type \<Rightarrow> bytes \<Rightarrow> u32 set \<Rightarrow> u32 set \<Rightarrow> (bytes \<times> u32 set) res"
where
  "read_chain_loop pages current expected out chain owned =
     (if current = NO_PAGE then Inr (out, owned)
      else bindE (chain_link pages current expected chain owned) (\<lambda>page.
        read_chain_loop pages (pnext page) expected (out @ payload page)
          (insert current chain) (insert current owned)))"
  by pat_completeness auto
termination
proof (relation "measure (\<lambda>(pages, current, expected, out, chain, owned).
    card ({i. unat i < length pages} - chain))", goal_cases)
  case 1
  show ?case by simp
next
  case (2 pages current expected out chain owned page)
  then have "{i. unat i < length pages} - insert current chain \<subset>
      {i. unat i < length pages} - chain"
    by (auto simp: chain_link_eq_Inr)
  then show ?case by (simp add: psubset_card_mono)
qed

declare read_chain_loop.simps [simp del]

definition read_chain ::
  "page list \<Rightarrow> u32 \<Rightarrow> page_type \<Rightarrow> u32 set \<Rightarrow> (bytes \<times> u32 set) res" where
  "read_chain pages head expected owned = read_chain_loop pages head expected [] {} owned"

section \<open>Chains in a page list\<close>

text \<open>
  \<open>chain_at pages t h bs ids\<close>: from page \<open>h\<close> on, the pages \<open>ids\<close> of type \<open>t\<close> carry the stream \<open>bs\<close>.
\<close>

inductive chain_at :: "page list \<Rightarrow> page_type \<Rightarrow> u32 \<Rightarrow> bytes \<Rightarrow> u32 list \<Rightarrow> bool"
  for pages t where
  chain_end: "chain_at pages t NO_PAGE [] []"
| chain_page: "i \<noteq> NO_PAGE \<Longrightarrow> unat i < length pages \<Longrightarrow> ptype (pages ! unat i) = t \<Longrightarrow>
    chain_at pages t (pnext (pages ! unat i)) bs ids \<Longrightarrow> i \<notin> set ids \<Longrightarrow>
    chain_at pages t i (payload (pages ! unat i) @ bs) (i # ids)"

inductive_simps chain_at_end [simp]: "chain_at pages t NO_PAGE bs ids"

lemma read_chain_loop_ok:
  "chain_at pages t h bs ids \<Longrightarrow> set ids \<inter> chain = {} \<Longrightarrow> set ids \<inter> owned = {} \<Longrightarrow>
   read_chain_loop pages h t out chain owned = Inr (out @ bs, set ids \<union> owned)"
proof (induction arbitrary: out chain owned rule: chain_at.induct)
  case chain_end
  then show ?case by (simp add: read_chain_loop.simps)
next
  case (chain_page i bs ids)
  then have "read_chain_loop pages (pnext (pages ! unat i)) t (out @ payload (pages ! unat i))
      (insert i chain) (insert i owned) =
      Inr ((out @ payload (pages ! unat i)) @ bs, set ids \<union> insert i owned)"
    by (intro chain_page.IH) auto
  moreover have "chain_link pages i t chain owned = Inr (pages ! unat i)"
    using chain_page by (simp add: chain_link_eq_Inr)
  ultimately show ?case
    using chain_page by (simp add: read_chain_loop.simps [of pages i])
qed

lemma read_chain_loop_sound:
  "read_chain_loop pages h t out chain owned = Inr (res, owned') \<Longrightarrow>
   \<exists>bs ids. chain_at pages t h bs ids \<and> res = out @ bs \<and> owned' = set ids \<union> owned \<and>
     set ids \<inter> chain = {} \<and> set ids \<inter> owned = {}"
proof (induction pages h t out chain owned rule: read_chain_loop.induct)
  case (1 pages i t out chain owned)
  show ?case
  proof (cases "i = NO_PAGE")
    case True
    then show ?thesis using "1.prems" by (auto simp: read_chain_loop.simps)
  next
    case False
    let ?p = "pages ! unat i"
    from "1.prems" False have link: "chain_link pages i t chain owned = Inr ?p" and
      r: "read_chain_loop pages (pnext ?p) t (out @ payload ?p) (insert i chain) (insert i owned)
          = Inr (res, owned')"
      by (auto simp: read_chain_loop.simps [of pages i] run_inv chain_link_eq_Inr)
    then have c: "unat i < length pages" "i \<notin> chain" "i \<notin> owned" "ptype ?p = t"
      by (simp_all add: chain_link_eq_Inr)
    from "1.IH" [OF False link r] obtain bs ids where
      "chain_at pages t (pnext ?p) bs ids" "res = (out @ payload ?p) @ bs"
      "owned' = set ids \<union> insert i owned" "set ids \<inter> insert i chain = {}"
      "set ids \<inter> insert i owned = {}"
      by auto
    with False c show ?thesis
      by (intro exI [of _ "payload ?p @ bs"] exI [of _ "i # ids"])
        (auto intro: chain_at.chain_page)
  qed
qed

lemma read_chain_iff:
  "read_chain pages h t owned = Inr (bs, owned') \<longleftrightarrow>
   (\<exists>ids. chain_at pages t h bs ids \<and> set ids \<inter> owned = {} \<and> owned' = set ids \<union> owned)"
  (is "?L \<longleftrightarrow> ?R")
proof
  assume ?L
  then show ?R unfolding read_chain_def by (auto dest!: read_chain_loop_sound)
next
  assume ?R
  then show ?L unfolding read_chain_def by (auto simp: read_chain_loop_ok)
qed

lemma read_chain_loop_corrupt:
  "corruption_only (read_chain_loop pages h t out chain owned)"
proof (induction pages h t out chain owned rule: read_chain_loop.induct)
  case (1 pages i t out chain owned)
  then show ?case
    by (subst read_chain_loop.simps) (auto intro!: corr_intros)
qed

lemma read_chain_corrupt [corr_intros]: "corruption_only (read_chain pages h t owned)"
  by (simp add: read_chain_def read_chain_loop_corrupt)

section \<open>What \<open>add_chain\<close> appends\<close>

definition MAX_PAGES :: nat where "MAX_PAGES = 2 ^ 32 - 1"

lemma unat_page_id [simp]: "k < MAX_PAGES \<Longrightarrow> unat (word_of_nat k :: u32) = k"
  by (simp add: MAX_PAGES_def unat_of_nat take_bit_nat_eq_self)

lemma unat_NO_PAGE: "unat NO_PAGE = MAX_PAGES"
  by (simp add: NO_PAGE_def MAX_PAGES_def)

lemma page_id_not_NO_PAGE [simp]: "k < MAX_PAGES \<Longrightarrow> (word_of_nat k :: u32) \<noteq> NO_PAGE"
  using unat_page_id [of k] unat_NO_PAGE by force

lemma page_id_inject: "j < MAX_PAGES \<Longrightarrow> k < MAX_PAGES \<Longrightarrow>
    (word_of_nat j :: u32) = word_of_nat k \<longleftrightarrow> j = k"
  by (metis unat_page_id)

lemma page_ids_mem:
  "k < MAX_PAGES \<Longrightarrow> (\<And>j. j \<in> A \<Longrightarrow> j < MAX_PAGES) \<Longrightarrow>
   (word_of_nat k :: u32) \<in> word_of_nat ` A \<longleftrightarrow> k \<in> A"
  using page_id_inject by blast

function chain_pages :: "page_type \<Rightarrow> nat \<Rightarrow> bytes \<Rightarrow> page list" where
  "chain_pages t k bs =
     (if bs = [] then []
      else Page t (word_of_nat k)
             (if length bs \<le> PAGE_PAYLOAD_SIZE then NO_PAGE else word_of_nat (Suc k))
             (take PAGE_PAYLOAD_SIZE bs)
           # chain_pages t (Suc k) (drop PAGE_PAYLOAD_SIZE bs))"
  by pat_completeness auto
termination
  by (relation "measure (\<lambda>(t, k, bs). length bs)") (auto simp: page_consts)

declare chain_pages.simps [simp del]

lemma chain_pages_Nil [simp]: "chain_pages t k [] = []"
  by (simp add: chain_pages.simps)

lemma chain_pages_Cons:
  "bs \<noteq> [] \<Longrightarrow> chain_pages t k bs =
     Page t (word_of_nat k)
       (if length bs \<le> PAGE_PAYLOAD_SIZE then NO_PAGE else word_of_nat (Suc k))
       (take PAGE_PAYLOAD_SIZE bs)
     # chain_pages t (Suc k) (drop PAGE_PAYLOAD_SIZE bs)"
  by (subst chain_pages.simps) simp

lemma chain_pages_eq_Nil [simp]: "chain_pages t k bs = [] \<longleftrightarrow> bs = []"
  by (cases "bs = []") (auto simp: chain_pages_Cons)

definition new_chain :: "page_type \<Rightarrow> nat \<Rightarrow> bytes \<Rightarrow> page list" where
  "new_chain t k bs = (if bs = [] then [Page t (word_of_nat k) NO_PAGE []] else chain_pages t k bs)"

lemma Page_sel [simp]:
  "ptype (Page t i n bs) = t" "pid (Page t i n bs) = i" "pnext (Page t i n bs) = n"
  "payload (Page t i n bs) = bs"
  by (simp_all add: Page_def)

lemma Page_upd [simp]: "(Page t i n bs)\<lparr>pnext := m\<rparr> = Page t i m bs"
  "(Page t i n bs)\<lparr>payload := cs\<rparr> = Page t i n cs"
  by (simp_all add: Page_def)

lemma page_ids_le: "j \<le> k \<Longrightarrow> k < MAX_PAGES \<Longrightarrow> (word_of_nat j :: u32) \<le> word_of_nat k"
  by (simp add: word_le_nat_alt)

lemma add_chain_loop_linked:
  "first \<le> k \<Longrightarrow> k = length P \<Longrightarrow> Suc k + length (chain_pages t (Suc k) rest) \<le> MAX_PAGES \<Longrightarrow>
   add_chain_loop (P @ [Page t (word_of_nat k) NO_PAGE bs]) t (word_of_nat first) rest =
     P @ Page t (word_of_nat k) (if rest = [] then NO_PAGE else word_of_nat (Suc k)) bs
       # chain_pages t (Suc k) rest"
proof (induction t k rest arbitrary: P bs rule: chain_pages.induct)
  case (1 t k rest)
  show ?case
  proof (cases "rest = []")
    case True
    then show ?thesis by (simp add: add_chain_loop.simps)
  next
    case False
    let ?q = "Page t (word_of_nat k) (word_of_nat (Suc k)) bs"
    have k: "Suc (Suc k) + length (chain_pages t (Suc (Suc k)) (drop PAGE_PAYLOAD_SIZE rest)) \<le> MAX_PAGES"
      using "1.prems" False by (simp add: chain_pages_Cons)
    have "link_back (P @ [Page t (word_of_nat k) NO_PAGE bs]) t (word_of_nat first)
        (word_of_nat (Suc k)) = P @ [?q]"
      using "1.prems" k by (simp add: link_back_def page_ids_le del: of_nat_Suc)
    then have "add_chain_loop (P @ [Page t (word_of_nat k) NO_PAGE bs]) t (word_of_nat first) rest =
        add_chain_loop ((P @ [?q]) @ [Page t (word_of_nat (Suc k)) NO_PAGE (take PAGE_PAYLOAD_SIZE rest)])
          t (word_of_nat first) (drop PAGE_PAYLOAD_SIZE rest)"
      using False "1.prems"(2)
      by (subst add_chain_loop.simps) (simp add: Let_def min_def del: of_nat_Suc)
    also have "\<dots> = P @ ?q # chain_pages t (Suc k) rest"
      using "1.prems" k False
      by (subst "1.IH") (simp_all add: chain_pages_Cons [OF False] del: of_nat_Suc)
    finally show ?thesis using False by (simp del: of_nat_Suc)
  qed
qed

text \<open>The pages before the chain must not look like an unfinished part of it.\<close>

definition numbered :: "page list \<Rightarrow> bool" where
  "numbered pages \<longleftrightarrow> (\<forall>k < length pages. pid (pages ! k) = word_of_nat k)"

lemma add_chain_eq:
  assumes num: "numbered pages"
    and bound: "length pages + length (new_chain t (length pages) bs) \<le> MAX_PAGES"
  shows "add_chain pages t bs = (pages @ new_chain t (length pages) bs, word_of_nat (length pages))"
proof (cases "bs = []")
  case True
  then show ?thesis by (simp add: add_chain_def new_chain_def Let_def)
next
  case False
  let ?k = "length pages"
  have k: "Suc ?k + length (chain_pages t (Suc ?k) (drop PAGE_PAYLOAD_SIZE bs)) \<le> MAX_PAGES"
    using bound False by (simp add: new_chain_def chain_pages_Cons)
  have "pid (last pages) < word_of_nat ?k" if "pages \<noteq> []"
  proof -
    have "pid (last pages) = word_of_nat (?k - 1)"
      using num that by (simp add: numbered_def last_conv_nth)
    then show ?thesis using that k by (simp add: word_less_nat_alt)
  qed
  then have "link_back pages t (word_of_nat ?k) i = pages" for i
    by (auto simp: link_back_def)
  then have "add_chain_loop pages t (word_of_nat ?k) bs =
      add_chain_loop (pages @ [Page t (word_of_nat ?k) NO_PAGE (take PAGE_PAYLOAD_SIZE bs)]) t
        (word_of_nat ?k) (drop PAGE_PAYLOAD_SIZE bs)"
    using False by (subst add_chain_loop.simps) (simp add: Let_def min_def)
  also have "\<dots> = pages @ chain_pages t ?k bs"
    using k False by (subst add_chain_loop_linked) (simp_all add: chain_pages_Cons del: of_nat_Suc)
  finally show ?thesis using False by (simp add: add_chain_def new_chain_def)
qed

lemma chain_pages_nth:
  "j < length (chain_pages t k bs) \<Longrightarrow>
   pid (chain_pages t k bs ! j) = word_of_nat (k + j) \<and> ptype (chain_pages t k bs ! j) = t \<and>
   page_ok (chain_pages t k bs ! j)"
proof (induction t k bs arbitrary: j rule: chain_pages.induct)
  case (1 t k bs)
  then have "bs \<noteq> []" by (auto simp: chain_pages.simps)
  with 1 show ?case
    by (cases j) (auto simp: chain_pages_Cons page_ok_def)
qed

lemma chain_pages_chain_at:
  "length P = k \<Longrightarrow> k + length (chain_pages t k bs) \<le> MAX_PAGES \<Longrightarrow> bs \<noteq> [] \<Longrightarrow>
   chain_at (P @ chain_pages t k bs @ Q) t (word_of_nat k) bs
     (map word_of_nat [k..<k + length (chain_pages t k bs)])"
proof (induction t k bs arbitrary: P rule: chain_pages.induct)
  case (1 t k bs)
  let ?tl = "drop PAGE_PAYLOAD_SIZE bs" and ?hd = "take PAGE_PAYLOAD_SIZE bs"
  let ?nx = "if length bs \<le> PAGE_PAYLOAD_SIZE then NO_PAGE else word_of_nat (Suc k)"
  let ?ids = "map (word_of_nat :: nat \<Rightarrow> u32) [Suc k..<Suc k + length (chain_pages t (Suc k) ?tl)]"
  let ?pages = "P @ chain_pages t k bs @ Q"
  have unf: "chain_pages t k bs = Page t (word_of_nat k) ?nx ?hd # chain_pages t (Suc k) ?tl"
    using "1.prems"(3) by (rule chain_pages_Cons)
  have bound: "Suc k + length (chain_pages t (Suc k) ?tl) \<le> MAX_PAGES"
    using "1.prems" by (simp add: unf)
  have here: "?pages ! k = Page t (word_of_nat k) ?nx ?hd"
    using "1.prems"(1) by (simp add: unf nth_append)
  have rest: "chain_at ?pages t ?nx ?tl ?ids"
  proof (cases "?tl = []")
    case True
    then show ?thesis by simp
  next
    case False
    have "chain_at ((P @ [Page t (word_of_nat k) ?nx ?hd]) @ chain_pages t (Suc k) ?tl @ Q) t
        (word_of_nat (Suc k)) ?tl ?ids"
      using "1.prems" False bound by (intro "1.IH") auto
    then show ?thesis using False by (simp add: unf del: of_nat_Suc)
  qed
  have "chain_at ?pages t (word_of_nat k) (payload (?pages ! unat (word_of_nat k :: u32)) @ ?tl)
      (word_of_nat k # ?ids)"
  proof (rule chain_at.chain_page)
    show "(word_of_nat k :: u32) \<notin> set ?ids"
      using bound page_ids_mem [of k "{Suc k..<Suc k + length (chain_pages t (Suc k) ?tl)}"]
      by (simp del: upt_Suc)
  qed (use bound here rest "1.prems"(1) in \<open>simp_all add: unf\<close>)
  moreover have "map word_of_nat [k..<k + length (chain_pages t k bs)] = word_of_nat k # ?ids"
    by (simp add: unf upt_conv_Cons del: upt_Suc)
  ultimately show ?case using bound by (simp add: here del: upt_Suc)
qed

lemma new_chain_nonempty [simp]: "bs \<noteq> [] \<Longrightarrow> new_chain t k bs = chain_pages t k bs"
  by (simp add: new_chain_def)

lemma new_chain_nth:
  "j < length (new_chain t k bs) \<Longrightarrow>
   pid (new_chain t k bs ! j) = word_of_nat (k + j) \<and> ptype (new_chain t k bs ! j) = t \<and>
   page_ok (new_chain t k bs ! j)"
  using chain_pages_nth [of j t k bs] by (auto simp: new_chain_def page_ok_def)

lemma new_chain_chain_at:
  assumes "length P = k" and "k + length (new_chain t k bs) \<le> MAX_PAGES"
  shows "chain_at (P @ new_chain t k bs @ Q) t (word_of_nat k) bs
     (map word_of_nat [k..<k + length (new_chain t k bs)])"
proof (cases "bs = []")
  case True
  have "chain_at (P @ new_chain t k bs @ Q) t (word_of_nat k)
      (payload ((P @ new_chain t k bs @ Q) ! unat (word_of_nat k :: u32)) @ []) (word_of_nat k # [])"
    using assms True by (intro chain_at.chain_page) (simp_all add: new_chain_def nth_append)
  then show ?thesis using assms True by (simp add: new_chain_def nth_append)
next
  case False
  then show ?thesis using assms chain_pages_chain_at by simp
qed

text \<open>A chain only looks at its own pages.\<close>

lemma chain_at_pages_cong:
  assumes "chain_at pages t h bs ids"
    and "\<And>i. i \<in> set ids \<Longrightarrow> unat i < length pages' \<and> pages' ! unat i = pages ! unat i"
  shows "chain_at pages' t h bs ids"
  using assms
proof (induction rule: chain_at.induct)
  case chain_end
  show ?case by simp
next
  case (chain_page i bs ids)
  then have "chain_at pages' t i (payload (pages' ! unat i) @ bs) (i # ids)"
    by (intro chain_at.chain_page) auto
  with chain_page show ?case by simp
qed

end
