(* ===== verification/Index_Node.thy ===== *)
theory Index_Node
  imports Page_Chain
begin

text \<open>
  Payloads of the persistent B+ tree pages of \<open>storage_v2.cpp\<close>: \<open>decode_leaf_contents\<close>,
  \<open>encode_leaf_payload\<close>, \<open>decode_internal_contents\<close>, \<open>encode_internal_payload\<close> and
  \<open>node_level\<close>. A leaf holds its previous sibling and ordered entries; an internal page its
  level, a first child and separator/child branches. Decoding accepts exactly the encoded forms.
\<close>

section \<open>Leaves\<close>

record leaf_contents =
  lc_previous :: u32
  lc_entries :: "entry list"

definition decode_leaf_contents :: "page \<Rightarrow> leaf_contents res" where
  "decode_leaf_contents page =
     (if ptype page \<noteq> IndexLeaf then Inl (Logic_Error ''Expected an index leaf'')
      else
        bindE (reader_u16 (Reader (payload page) ''index leaf'')) (\<lambda>(count, r).
        bindE (reader_u32 r) (\<lambda>(previous, r).
        bindE (reader_u16 r) (\<lambda>(reserved, r).
        bindE (throw_if (reserved \<noteq> 0) (corruption ''index leaf reserved value is not zero'')) (\<lambda>_.
        bindE (read_many read_entry (unat count) r) (\<lambda>(entries, r).
        bindE (throw_if (reader_remaining r \<noteq> 0) (corruption ''index leaf has trailing bytes'')) (\<lambda>_.
        Inr \<lparr>lc_previous = previous, lc_entries = entries\<rparr>)))))))"

definition append_entry :: "bytes \<Rightarrow> entry \<Rightarrow> bytes res" where
  "append_entry out e = bindE (append_string out (fst e)) (\<lambda>out. Inr (append_u64 out (snd e)))"

definition encode_leaf_payload :: "u32 \<Rightarrow> entry list \<Rightarrow> bytes res" where
  "encode_leaf_payload previous entries =
     (if entries = [] \<or> length entries > 65535
      then Inl (Logic_Error ''Index leaf entry count is invalid'')
      else foldE append_entry
        (append_u16 (append_u32 (append_u16 [] (word_of_nat (length entries))) previous) 0) entries)"

definition leaf_payload :: "u32 \<Rightarrow> entry list \<Rightarrow> bytes" where
  "leaf_payload previous entries =
     le16 (word_of_nat (length entries)) @ le32 previous @ le16 0 @ concat (map le_entry entries)"

definition entries_size :: "entry list \<Rightarrow> nat" where
  "entries_size es = sum_list (map (\<lambda>e. 2 + length (fst e) + 8) es)"

lemma length_concat_entries [len_simps]: "length (concat (map le_entry es)) = entries_size es"
  by (induction es) (auto simp: entries_size_def length_le_entry)

lemma length_leaf_payload [len_simps]: "length (leaf_payload prev es) = 8 + entries_size es"
  by (simp add: leaf_payload_def length_concat_entries)

lemma entries_size_simps [simp]:
  "entries_size [] = 0"
  "entries_size (e # es) = 2 + length (fst e) + 8 + entries_size es"
  "entries_size (es @ fs) = entries_size es + entries_size fs"
  by (simp_all add: entries_size_def)

lemma entries_size_ge: "10 * length es \<le> entries_size es"
  by (induction es) auto

lemma append_entry_ok: "entry_ok e \<Longrightarrow> append_entry out e = Inr (out @ le_entry e)"
  by (auto simp: append_entry_def append_string_eq append_u64_eq entry_ok_def le_entry_def
      split: prod.splits)

lemma append_entries_ok:
  "\<forall>e \<in> set es. entry_ok e \<Longrightarrow> foldE append_entry out es = Inr (out @ concat (map le_entry es))"
  by (induction es arbitrary: out) (auto simp: append_entry_ok)

lemma encode_leaf_payload_ok:
  "es \<noteq> [] \<Longrightarrow> length es \<le> 65535 \<Longrightarrow> \<forall>e \<in> set es. entry_ok e \<Longrightarrow>
   encode_leaf_payload prev es = Inr (leaf_payload prev es)"
  by (simp add: encode_leaf_payload_def append_entries_ok append_eqs leaf_payload_def)

lemma count_word: "n \<le> 65535 \<Longrightarrow> unat (word_of_nat n :: u16) = n"
  by (simp add: unat_of_nat take_bit_nat_eq_self)

lemma decode_leaf_contents_iff:
  "decode_leaf_contents p = Inr c \<longleftrightarrow>
   ptype p = IndexLeaf \<and> payload p = leaf_payload (lc_previous c) (lc_entries c) \<and>
   length (lc_entries c) \<le> 65535 \<and> (\<forall>e \<in> set (lc_entries c). entry_ok e)"
  (is "?L \<longleftrightarrow> ?R")
proof
  assume ?L
  then obtain count r1 prev r2 r3 es r4 where
    t: "ptype p = IndexLeaf" and
    c: "reader_u16 (Reader (payload p) ''index leaf'') = Inr (count, r1)" and
    pv: "reader_u32 r1 = Inr (prev, r2)" and z: "reader_u16 r2 = Inr (0, r3)" and
    es: "read_many read_entry (unat count) r3 = Inr (es, r4)" and
    e: "unread r4 = []" and res: "c = \<lparr>lc_previous = prev, lc_entries = es\<rparr>"
    by (auto simp: decode_leaf_contents_def run_inv split: if_splits prod.splits)
  note m = centry.many_accepted [OF es]
  have len: "length es = unat count" and ok: "\<forall>e \<in> set es. entry_ok e" using m by blast+
  have "payload p = le16 count @ le32 prev @ le16 0 @ concat (map le_entry es) @ unread r4"
    using c16.accepted [OF c] c32.accepted [OF pv] c16.accepted [OF z] m
    by (metis unread_Reader)
  moreover have "word_of_nat (length es) = count" by (simp add: len)
  moreover have "length es \<le> 65535"
    using len unsigned_less [of count, where ?'a = nat] by simp
  ultimately show ?R
    using ok by (simp add: t res e leaf_payload_def)
next
  assume R: ?R
  let ?es = "lc_entries c" and ?prev = "lc_previous c"
  let ?r0 = "Reader (payload p) ''index leaf''"
  have c: "reader_u16 ?r0 = Inr (word_of_nat (length ?es), advance 2 ?r0)"
    using R by (subst c16.read_back) (auto simp: leaf_payload_def)
  have pv: "reader_u32 (advance 2 ?r0) = Inr (?prev, advance 6 ?r0)"
    using R by (subst c32.read_back) (auto simp: leaf_payload_def)
  have z: "reader_u16 (advance 6 ?r0) = Inr (0, advance 8 ?r0)"
    using R by (subst c16.read_back [where x = 0]) (auto simp: leaf_payload_def)
  have es: "read_many read_entry (length ?es) (advance 8 ?r0) =
      Inr (?es, advance (entries_size ?es) (advance 8 ?r0))"
    using R by (subst centry.many_back [where rest = "[]"])
      (auto simp: leaf_payload_def length_concat_entries)
  have "length (payload p) = 8 + entries_size ?es" using R by (simp add: length_leaf_payload)
  moreover have "ptype p = IndexLeaf" "length ?es \<le> 65535" using R by auto
  ultimately show ?L
    by (simp add: decode_leaf_contents_def c pv z es count_word)
qed

lemma decode_leaf_contents_corrupt:
  "ptype p = IndexLeaf \<Longrightarrow> corruption_only (decode_leaf_contents p)"
  by (auto simp: decode_leaf_contents_def intro!: corr_intros split: prod.splits)

section \<open>Internal pages\<close>

record internal_contents =
  ic_level :: u16
  ic_separators :: "entry list"
  ic_children :: "u32 list"

definition decode_internal_contents :: "page \<Rightarrow> internal_contents res" where
  "decode_internal_contents page =
     (if ptype page \<noteq> IndexInternal then Inl (Logic_Error ''Expected an internal index page'')
      else
        bindE (reader_u16 (Reader (payload page) ''internal index page'')) (\<lambda>(level, r).
        bindE (reader_u16 r) (\<lambda>(count, r).
        bindE (reader_u32 r) (\<lambda>(first, r).
        bindE (read_many read_branch (unat count) r) (\<lambda>(branches, r).
        bindE (throw_if (reader_remaining r \<noteq> 0)
          (corruption ''internal index page has trailing bytes'')) (\<lambda>_.
        Inr \<lparr>ic_level = level, ic_separators = map fst branches,
             ic_children = first # map snd branches\<rparr>))))))"

definition append_branch :: "bytes \<Rightarrow> entry \<times> u32 \<Rightarrow> bytes res" where
  "append_branch out b =
     bindE (append_string out (fst (fst b))) (\<lambda>out.
       Inr (append_u32 (append_u64 out (snd (fst b))) (snd b)))"

definition encode_internal_payload :: "internal_contents \<Rightarrow> bytes res" where
  "encode_internal_payload c =
     (if ic_level c = 0 \<or> length (ic_children c) < 2 \<or>
         length (ic_separators c) + 1 \<noteq> length (ic_children c) \<or> length (ic_separators c) > 65535
      then Inl (Logic_Error ''Internal index shape is invalid'')
      else foldE append_branch
        (append_u32 (append_u16 (append_u16 [] (ic_level c)) (word_of_nat (length (ic_separators c))))
          (hd (ic_children c)))
        (zip (ic_separators c) (tl (ic_children c))))"

definition internal_payload :: "u16 \<Rightarrow> u32 \<Rightarrow> (entry \<times> u32) list \<Rightarrow> bytes" where
  "internal_payload level first bs =
     le16 level @ le16 (word_of_nat (length bs)) @ le32 first @ concat (map le_branch bs)"

definition branches_size :: "(entry \<times> u32) list \<Rightarrow> nat" where
  "branches_size bs = sum_list (map (\<lambda>b. 2 + length (fst (fst b)) + 8 + 4) bs)"

lemma length_concat_branches [len_simps]: "length (concat (map le_branch bs)) = branches_size bs"
  by (induction bs) (auto simp: branches_size_def length_le_branch)

lemma length_internal_payload [len_simps]:
  "length (internal_payload level first bs) = 8 + branches_size bs"
  by (simp add: internal_payload_def length_concat_branches)

lemma branches_size_simps [simp]:
  "branches_size [] = 0"
  "branches_size (b # bs) = 2 + length (fst (fst b)) + 8 + 4 + branches_size bs"
  "branches_size (bs @ cs) = branches_size bs + branches_size cs"
  by (simp_all add: branches_size_def)

lemma branches_size_ge: "14 * length bs \<le> branches_size bs"
  by (induction bs) auto

lemma append_branch_ok: "branch_ok b \<Longrightarrow> append_branch out b = Inr (out @ le_branch b)"
  by (auto simp: append_branch_def append_string_eq append_u64_eq append_u32_eq entry_ok_def
      branch_ok_def le_entry_def le_branch_def split: prod.splits)

lemma append_branches_ok:
  "\<forall>b \<in> set bs. branch_ok b \<Longrightarrow> foldE append_branch out bs = Inr (out @ concat (map le_branch bs))"
  by (induction bs arbitrary: out) (auto simp: append_branch_ok)

lemma decode_internal_contents_iff:
  "decode_internal_contents p = Inr c \<longleftrightarrow>
   ptype p = IndexInternal \<and>
   (\<exists>first bs. payload p = internal_payload (ic_level c) first bs \<and> length bs \<le> 65535 \<and>
      (\<forall>b \<in> set bs. branch_ok b) \<and> ic_separators c = map fst bs \<and>
      ic_children c = first # map snd bs)"
  (is "?L \<longleftrightarrow> ?R")
proof
  assume ?L
  then obtain level r1 count r2 first r3 bs r4 where
    t: "ptype p = IndexInternal" and
    l: "reader_u16 (Reader (payload p) ''internal index page'') = Inr (level, r1)" and
    c: "reader_u16 r1 = Inr (count, r2)" and f: "reader_u32 r2 = Inr (first, r3)" and
    bs: "read_many read_branch (unat count) r3 = Inr (bs, r4)" and e: "unread r4 = []" and
    res: "c = \<lparr>ic_level = level, ic_separators = map fst bs, ic_children = first # map snd bs\<rparr>"
    by (auto simp: decode_internal_contents_def run_inv split: if_splits prod.splits)
  note m = cbranch.many_accepted [OF bs]
  have len: "length bs = unat count" and ok: "\<forall>b \<in> set bs. branch_ok b" using m by blast+
  have "payload p = le16 level @ le16 count @ le32 first @ concat (map le_branch bs) @ unread r4"
    using c16.accepted [OF l] c16.accepted [OF c] c32.accepted [OF f] m
    by (metis unread_Reader)
  moreover have "word_of_nat (length bs) = count" by (simp add: len)
  moreover have "length bs \<le> 65535"
    using len unsigned_less [of count, where ?'a = nat] by simp
  ultimately show ?R
    using ok
    by (intro conjI exI [of _ first] exI [of _ bs]) (simp_all add: t res e internal_payload_def)
next
  assume R: ?R
  then obtain first bs where
    p: "payload p = internal_payload (ic_level c) first bs" and n: "length bs \<le> 65535" and
    ok: "\<forall>b \<in> set bs. branch_ok b" and
    c: "ic_separators c = map fst bs" "ic_children c = first # map snd bs"
    by blast
  let ?r0 = "Reader (payload p) ''internal index page''"
  have l: "reader_u16 ?r0 = Inr (ic_level c, advance 2 ?r0)"
    using p by (subst c16.read_back) (auto simp: internal_payload_def)
  have cnt: "reader_u16 (advance 2 ?r0) = Inr (word_of_nat (length bs), advance 4 ?r0)"
    using p by (subst c16.read_back) (auto simp: internal_payload_def)
  have f: "reader_u32 (advance 4 ?r0) = Inr (first, advance 8 ?r0)"
    using p by (subst c32.read_back) (auto simp: internal_payload_def)
  have bs: "read_many read_branch (length bs) (advance 8 ?r0) =
      Inr (bs, advance (branches_size bs) (advance 8 ?r0))"
    using p ok by (subst cbranch.many_back [where rest = "[]"])
      (auto simp: internal_payload_def length_concat_branches)
  have "length (payload p) = 8 + branches_size bs" by (simp add: p length_internal_payload)
  then show ?L
    using R n
    by (simp add: decode_internal_contents_def l cnt f bs count_word flip: c)
qed

definition node_level :: "page \<Rightarrow> u16 res" where
  "node_level page =
     (if ptype page = IndexLeaf then Inr 0
      else bindE (decode_internal_contents page) (\<lambda>c. Inr (ic_level c)))"

end
