(* ===== verification/Index_Validate.thy ===== *)
theory Index_Validate
  imports Index_Node
begin

text \<open>
  \<open>validate_index_node\<close> of \<open>storage_v2.cpp\<close>: the recursive check of a persistent B+ tree that
  every open performs. The specification \<open>index_tree\<close> says what a well-formed tree in a page list
  is (uniform levels, separators equal to the least entry to their right, entries in order, no
  page used twice); the check accepts exactly the trees of the specification whose pages nobody
  else owns, and it terminates on every page list because the path of active pages grows.
\<close>

section \<open>The check\<close>

record validated_node =
  vn_minimum_key :: string
  vn_maximum_key :: string
  vn_level :: u16
  vn_entries :: "entry list"
  vn_leaves :: "u32 list"

definition claim_node :: "page list \<Rightarrow> u32 \<Rightarrow> u32 set \<Rightarrow> u32 set \<Rightarrow> page res" where
  "claim_node pages i owned active =
     (if unat i \<ge> length pages then Inl (corruption ''index child pointer is outside the file'')
      else if i \<in> active then Inl (corruption ''index contains a child cycle'')
      else if i \<in> owned then Inl (corruption ''index page is referenced more than once'')
      else Inr (pages ! unat i))"

definition read_leaf_node :: "page \<Rightarrow> u32 \<Rightarrow> validated_node res" where
  "read_leaf_node page i =
     bindE (reader_u16 (Reader (payload page) ''index leaf'')) (\<lambda>(count, r).
     bindE (reader_u32 r) (\<lambda>(_, r).
     bindE (reader_u16 r) (\<lambda>(reserved, r).
     bindE (throw_if (reserved \<noteq> 0) (corruption ''index leaf reserved value is not zero'')) (\<lambda>_.
     bindE (throw_if (count = 0) (corruption ''index leaf is empty'')) (\<lambda>_.
     bindE (read_many read_entry (unat count) r) (\<lambda>(entries, r).
     bindE (throw_if (reader_remaining r \<noteq> 0) (corruption ''index leaf has trailing bytes'')) (\<lambda>_.
     bindE (throw_if (\<not> sorted entries) (corruption ''index leaf entries are not ordered'')) (\<lambda>_.
     Inr \<lparr>vn_minimum_key = fst (hd entries), vn_maximum_key = fst (last entries), vn_level = 0,
          vn_entries = entries, vn_leaves = [i]\<rparr>))))))))"

definition read_internal_node :: "page \<Rightarrow> (u16 \<times> entry list \<times> u32 list) res" where
  "read_internal_node page =
     bindE (throw_if (pnext page \<noteq> NO_PAGE)
       (corruption ''internal index page has a sibling link'')) (\<lambda>_.
     bindE (reader_u16 (Reader (payload page) ''internal index page'')) (\<lambda>(level, r).
     bindE (reader_u16 r) (\<lambda>(key_count, r).
     bindE (throw_if (level = 0 \<or> key_count = 0)
       (corruption ''internal index key count is invalid'')) (\<lambda>_.
     bindE (reader_u32 r) (\<lambda>(first, r).
     bindE (read_many read_branch (unat key_count) r) (\<lambda>(branches, r).
     bindE (throw_if (reader_remaining r \<noteq> 0)
       (corruption ''internal index page has trailing bytes'')) (\<lambda>_.
     bindE (throw_if (\<not> sorted (map fst branches))
       (corruption ''internal index separators are not ordered'')) (\<lambda>_.
     Inr (level, map fst branches, first # map snd branches)))))))))"

text \<open>The checks on one child and its merge into the result of the parent.\<close>

definition merge_child ::
  "u16 \<Rightarrow> entry list \<Rightarrow> nat \<Rightarrow> validated_node \<Rightarrow> validated_node \<Rightarrow> validated_node res" where
  "merge_child level separators child_index result child =
     (if unat (vn_level child) + 1 \<noteq> unat level
      then Inl (corruption ''index child level is invalid'')
      else if child_index > 0 \<and> separators ! (child_index - 1) \<noteq> hd (vn_entries child)
      then Inl (corruption ''index separator does not match child minimum'')
      else if vn_entries result \<noteq> [] \<and> last (vn_entries result) > hd (vn_entries child)
      then Inl (corruption ''index child ranges overlap out of order'')
      else Inr \<lparr>vn_minimum_key =
                  (if child_index = 0 then vn_minimum_key child else vn_minimum_key result),
                vn_maximum_key = vn_maximum_key child, vn_level = vn_level result,
                vn_entries = vn_entries result @ vn_entries child,
                vn_leaves = vn_leaves result @ vn_leaves child\<rparr>)"

definition wrong_index_page :: error where
  "wrong_index_page = corruption ''index root or child has the wrong page type''"

definition empty_node :: "u16 \<Rightarrow> validated_node" where
  "empty_node level = \<lparr>vn_minimum_key = [], vn_maximum_key = [], vn_level = level,
     vn_entries = [], vn_leaves = []\<rparr>"

lemma claim_node_eq_Inr:
  "claim_node pages i owned active = Inr page \<longleftrightarrow>
   unat i < length pages \<and> i \<notin> active \<and> i \<notin> owned \<and> page = pages ! unat i"
  by (auto simp: claim_node_def)

text \<open>
  \<open>active\<close> is the set of pages on the path from the root: the source inserts the page on entry and
  erases it on return, so a child is checked with the path of its parent plus the parent.
\<close>

function validate_index_node ::
    "page list \<Rightarrow> u32 \<Rightarrow> u32 set \<Rightarrow> u32 set \<Rightarrow> (validated_node \<times> u32 set) res"
  and validate_children ::
    "page list \<Rightarrow> u32 set \<Rightarrow> u16 \<Rightarrow> entry list \<Rightarrow> nat \<Rightarrow> u32 list \<Rightarrow> validated_node \<Rightarrow> u32 set \<Rightarrow>
     (validated_node \<times> u32 set) res"
where
  "validate_index_node pages i owned active =
     bindE (claim_node pages i owned active) (\<lambda>page.
       if ptype page = IndexLeaf then
         bindE (read_leaf_node page i) (\<lambda>result. Inr (result, insert i owned))
       else if ptype page = IndexInternal then
         bindE (read_internal_node page) (\<lambda>(level, separators, children).
           validate_children pages (insert i active) level separators 0 children
             (empty_node level) (insert i owned))
       else Inl wrong_index_page)"
| "validate_children pages active level separators child_index [] result owned = Inr (result, owned)"
| "validate_children pages active level separators child_index (c # cs) result owned =
     bindE (validate_index_node pages c owned active) (\<lambda>(child, owned).
     bindE (merge_child level separators child_index result child) (\<lambda>result.
       validate_children pages active level separators (Suc child_index) cs result owned))"
  by pat_completeness auto
termination
proof (relation "measures
    [\<lambda>x. case x of Inl (pages, i, owned, active) \<Rightarrow> card ({i. unat i < length pages} - active)
       | Inr (pages, active, _) \<Rightarrow> card ({i. unat i < length pages} - active),
     \<lambda>x. case x of Inl _ \<Rightarrow> 0 | Inr (_, _, _, _, _, cs, _) \<Rightarrow> Suc (length cs)]", goal_cases)
  case 1
  show ?case by simp
next
  case (2 pages i owned active page)
  then have "{i. unat i < length pages} - insert i active \<subset> {i. unat i < length pages} - active"
    by (auto simp: claim_node_eq_Inr)
  then show ?case by (simp add: psubset_card_mono)
qed auto

declare validate_index_node.simps [simp del]

lemma read_leaf_node_corrupt [corr_intros]: "corruption_only (read_leaf_node page i)"
  by (auto simp: read_leaf_node_def intro!: corr_intros split: prod.splits)

lemma read_internal_node_corrupt [corr_intros]: "corruption_only (read_internal_node page)"
  by (auto simp: read_internal_node_def intro!: corr_intros split: prod.splits)

lemma validate_corrupt:
  "corruption_only (validate_index_node pages i owned active)"
  "corruption_only (validate_children pages active level separators k cs result owned)"
proof (induction pages i owned active and pages active level separators k cs result owned
    rule: validate_index_node_validate_children.induct)
  case (1 pages i owned active)
  then show ?case
    by (subst validate_index_node.simps)
      (auto intro!: corr_intros simp: claim_node_def wrong_index_page_def split: prod.splits)
next
  case (3 pages active level separators k c cs result owned)
  then show ?case
    by (auto intro!: corr_intros simp: merge_child_def split: prod.splits)
qed simp

lemmas validate_index_node_corrupt [corr_intros] = validate_corrupt(1)

section \<open>Well-formed trees\<close>

text \<open>
  \<open>index_tree pages i l es lvs us\<close>: page \<open>i\<close> is the root of a tree of level \<open>l\<close> with the entries
  \<open>es\<close>, the leaves \<open>lvs\<close> from left to right and the pages \<open>us\<close>. A forest is the children of a page.
\<close>

inductive index_tree ::
    "page list \<Rightarrow> u32 \<Rightarrow> nat \<Rightarrow> entry list \<Rightarrow> u32 list \<Rightarrow> u32 list \<Rightarrow> bool"
  and index_forest ::
    "page list \<Rightarrow> nat \<Rightarrow> u32 list \<Rightarrow> entry list list \<Rightarrow> u32 list \<Rightarrow> u32 list \<Rightarrow> bool"
  for pages where
  tree_leaf: "unat i < length pages \<Longrightarrow> ptype (pages ! unat i) = IndexLeaf \<Longrightarrow>
    payload (pages ! unat i) = leaf_payload prev es \<Longrightarrow> es \<noteq> [] \<Longrightarrow> length es \<le> 65535 \<Longrightarrow>
    \<forall>e \<in> set es. entry_ok e \<Longrightarrow> sorted es \<Longrightarrow> index_tree pages i 0 es [i] [i]"
| tree_node: "unat i < length pages \<Longrightarrow> ptype (pages ! unat i) = IndexInternal \<Longrightarrow>
    pnext (pages ! unat i) = NO_PAGE \<Longrightarrow>
    payload (pages ! unat i) = internal_payload (word_of_nat (Suc l)) c (zip (map hd ess) cs) \<Longrightarrow>
    length cs = length ess \<Longrightarrow> cs \<noteq> [] \<Longrightarrow> length cs \<le> 65535 \<Longrightarrow> Suc l \<le> 65535 \<Longrightarrow>
    index_forest pages l (c # cs) (es # ess) lvs us \<Longrightarrow> sorted (es @ concat ess) \<Longrightarrow>
    index_tree pages i (Suc l) (es @ concat ess) lvs (i # us)"
| forest_nil: "index_forest pages l [] [] [] []"
| forest_cons: "index_tree pages i l es lvs us \<Longrightarrow> index_forest pages l is ess lvs' us' \<Longrightarrow>
    index_forest pages l (i # is) (es # ess) (lvs @ lvs') (us @ us')"

inductive_cases index_forest_ConsE: "index_forest pages l (i # is) ess lvs us"
inductive_simps index_forest_Nil [simp]: "index_forest pages l [] ess lvs us"

lemma index_tree_entries:
  "index_tree pages i l es lvs us \<Longrightarrow>
     es \<noteq> [] \<and> sorted es \<and> l \<le> 65535 \<and> (\<forall>e \<in> set es. entry_ok e)"
  "index_forest pages l is ess lvs us \<Longrightarrow>
     length ess = length is \<and> (\<forall>es \<in> set ess. es \<noteq> [] \<and> sorted es \<and> (\<forall>e \<in> set es. entry_ok e))"
  by (induction rule: index_tree_index_forest.inducts) auto

section \<open>The check in terms of the page codecs\<close>

lemma read_leaf_node_iff:
  assumes "ptype page = IndexLeaf"
  shows "read_leaf_node page i = Inr v \<longleftrightarrow>
    (\<exists>prev es. payload page = leaf_payload prev es \<and> es \<noteq> [] \<and> length es \<le> 65535 \<and>
       (\<forall>e \<in> set es. entry_ok e) \<and> sorted es \<and>
       v = \<lparr>vn_minimum_key = fst (hd es), vn_maximum_key = fst (last es), vn_level = 0,
            vn_entries = es, vn_leaves = [i]\<rparr>)"
proof -
  have "read_leaf_node page i = Inr v \<longleftrightarrow>
    (\<exists>c. decode_leaf_contents page = Inr c \<and> lc_entries c \<noteq> [] \<and> sorted (lc_entries c) \<and>
       v = \<lparr>vn_minimum_key = fst (hd (lc_entries c)), vn_maximum_key = fst (last (lc_entries c)),
            vn_level = 0, vn_entries = lc_entries c, vn_leaves = [i]\<rparr>)"
  proof -
    have nz: "es = [] \<longleftrightarrow> count = 0" if "read_many read_entry (unat count) r = Inr (es, r')"
      for es r r' and count :: u16
      using centry.many_accepted [OF that] by (auto simp: unat_eq_zero)
    show ?thesis
      unfolding read_leaf_node_def decode_leaf_contents_def
      using assms
      apply (simp add: run_inv split_paired_Ex del: reader_remaining_eq)
      apply (rule iffI; elim exE conjE; intro exI conjI; (assumption | (auto dest: nz; fail))?)
      apply (auto dest: nz)
      done
  qed
  then show ?thesis
    by (auto simp: decode_leaf_contents_iff assms)
      (metis leaf_contents.select_convs)
qed

lemma read_internal_node_iff:
  assumes "ptype page = IndexInternal"
  shows "read_internal_node page = Inr (level, separators, children) \<longleftrightarrow>
    pnext page = NO_PAGE \<and> level \<noteq> 0 \<and>
    (\<exists>first bs. payload page = internal_payload level first bs \<and> bs \<noteq> [] \<and> length bs \<le> 65535 \<and>
       (\<forall>b \<in> set bs. branch_ok b) \<and> sorted (map fst bs) \<and> separators = map fst bs \<and>
       children = first # map snd bs)"
proof -
  have "read_internal_node page = Inr (level, separators, children) \<longleftrightarrow>
    pnext page = NO_PAGE \<and> level \<noteq> 0 \<and> separators \<noteq> [] \<and> sorted separators \<and>
    decode_internal_contents page =
      Inr \<lparr>ic_level = level, ic_separators = separators, ic_children = children\<rparr>"
  proof -
    have nz: "bs = [] \<longleftrightarrow> count = 0" if "read_many read_branch (unat count) r = Inr (bs, r')"
      for bs r r' and count :: u16
      using cbranch.many_accepted [OF that] by (auto simp: unat_eq_zero)
    show ?thesis
      unfolding read_internal_node_def decode_internal_contents_def
      using assms
      apply (simp add: run_inv split_paired_Ex del: reader_remaining_eq)
      apply (rule iffI; elim exE conjE; intro exI conjI; (assumption | (auto dest: nz; fail))?)
      done
  qed
  then show ?thesis
    by (auto simp: decode_internal_contents_iff assms)
qed

section \<open>The check accepts every well-formed tree\<close>

lemma forest_lengths:
  "index_forest pages l is ess lvs us \<Longrightarrow>
   length ess = length is \<and> (\<forall>es \<in> set ess. es \<noteq> [] \<and> sorted es \<and> (\<forall>e \<in> set es. entry_ok e))"
  by (rule index_tree_entries(2))

lemma sorted_hds: "sorted (concat ess) \<Longrightarrow> \<forall>es \<in> set ess. es \<noteq> [] \<Longrightarrow> sorted (map hd ess)"
proof (induction ess)
  case (Cons es ess)
  then have "hd es \<le> hd x" if "x \<in> set ess" for x
  proof -
    from Cons.prems that have "hd es \<in> set es" "hd x \<in> set x" by auto
    with Cons.prems that show ?thesis by (auto simp: sorted_append)
  qed
  with Cons show ?case by (auto simp: sorted_append)
qed simp

lemma word_Suc_level:
  assumes "Suc l \<le> 65535"
  shows "unat (word_of_nat l :: u16) = l" "unat (word_of_nat (Suc l) :: u16) = Suc l"
    "(word_of_nat (Suc l) :: u16) \<noteq> 0"
proof -
  show *: "unat (word_of_nat l :: u16) = l" "unat (word_of_nat (Suc l) :: u16) = Suc l"
    using assms by (simp_all only: count_word)
  show "(word_of_nat (Suc l) :: u16) \<noteq> 0" using *(2) by (metis unat_0 nat.distinct(1))
qed

lemma validate_complete:
  "index_tree pages i l es lvs us \<Longrightarrow> distinct us \<Longrightarrow> set us \<inter> owned = {} \<Longrightarrow> active \<subseteq> owned \<Longrightarrow>
   validate_index_node pages i owned active =
     Inr (\<lparr>vn_minimum_key = fst (hd es), vn_maximum_key = fst (last es),
           vn_level = word_of_nat l, vn_entries = es, vn_leaves = lvs\<rparr>, set us \<union> owned)"
  "index_forest pages l is ess lvs us \<Longrightarrow> distinct us \<Longrightarrow> set us \<inter> owned = {} \<Longrightarrow> active \<subseteq> owned \<Longrightarrow>
   Suc l \<le> 65535 \<Longrightarrow> (\<And>j. j < length is \<Longrightarrow> 0 < k + j \<Longrightarrow> separators ! (k + j - 1) = hd (ess ! j)) \<Longrightarrow>
   sorted (vn_entries result @ concat ess) \<Longrightarrow>
   validate_children pages active (word_of_nat (Suc l)) separators k is result owned =
     Inr (\<lparr>vn_minimum_key = (if k = 0 \<and> is \<noteq> [] then fst (hd (hd ess)) else vn_minimum_key result),
           vn_maximum_key = (if is = [] then vn_maximum_key result else fst (last (last ess))),
           vn_level = vn_level result, vn_entries = vn_entries result @ concat ess,
           vn_leaves = vn_leaves result @ lvs\<rparr>, set us \<union> owned)"
proof (induction arbitrary: owned active and owned active k separators result
    rule: index_tree_index_forest.inducts)
  case (tree_leaf i prev es)
  then have "claim_node pages i owned active = Inr (pages ! unat i)"
    by (auto simp: claim_node_eq_Inr)
  moreover have "read_leaf_node (pages ! unat i) i =
      Inr \<lparr>vn_minimum_key = fst (hd es), vn_maximum_key = fst (last es), vn_level = 0,
           vn_entries = es, vn_leaves = [i]\<rparr>"
    using tree_leaf by (subst read_leaf_node_iff) auto
  ultimately show ?case
    by (subst validate_index_node.simps) (simp add: tree_leaf.IH(2))
next
  case (tree_node i l c ess cs es lvs us)
  have lens: "length ess = length cs" and ne: "\<forall>x \<in> set (es # ess). x \<noteq> []"
    and ok: "\<forall>x \<in> set (es # ess). \<forall>e \<in> set x. entry_ok e"
    using forest_lengths [OF tree_node.IH(5)] by auto
  have ess: "ess \<noteq> []" using lens tree_node.hyps(2) by auto
  have hds: "\<forall>x \<in> set ess. entry_ok (hd x)"
    using ne ok by auto
  have fsts: "map fst (zip (map hd ess) cs) = map hd ess" and
    snds: "map snd (zip (map hd ess) cs) = cs"
    using lens by simp_all
  have claim: "claim_node pages i owned active = Inr (pages ! unat i)"
    using tree_node.prems tree_node.IH(1) by (auto simp: claim_node_eq_Inr)
  have "sorted (map hd ess)"
    using tree_node.hyps(5) ne by (intro sorted_hds) (auto simp: sorted_append)
  then have read: "read_internal_node (pages ! unat i) =
      Inr (word_of_nat (Suc l), map hd ess, c # cs)"
    using tree_node.hyps tree_node.IH(2,3,4) hds lens ess
    by (subst read_internal_node_iff)
      (auto simp: fsts snds word_Suc_level lens branch_ok_def dest!: set_zip_leftD
        intro!: exI [of _ c] exI [of _ "zip (map hd ess) cs"] simp del: of_nat_Suc)
  have "validate_children pages (insert i active) (word_of_nat (Suc l)) (map hd ess) 0 (c # cs)
      (empty_node (word_of_nat (Suc l))) (insert i owned) =
    Inr (\<lparr>vn_minimum_key = fst (hd es),
          vn_maximum_key = fst (last (last (es # ess))), vn_level = word_of_nat (Suc l),
          vn_entries = es @ concat ess, vn_leaves = lvs\<rparr>, set us \<union> insert i owned)"
    using tree_node.prems tree_node.hyps(4,5) lens
    by (subst tree_node.IH(6)) (auto simp: empty_node_def nth_Cons' simp del: of_nat_Suc)
  moreover have "last (es @ concat ess) = last (last (es # ess))"
  proof (cases ess rule: rev_cases)
    case (snoc ys y)
    then show ?thesis using ne by simp
  qed simp
  moreover have "hd (es @ concat ess) = hd es" using ne by simp
  ultimately show ?case
    using tree_node.IH(2)
    by (subst validate_index_node.simps) (simp add: claim read del: of_nat_Suc)
next
  case (forest_nil l)
  then show ?case by simp
next
  case (forest_cons i l es lvs us "is" ess lvs' us')
  have ne: "es \<noteq> []" and lens: "length ess = length is"
    and nes: "\<forall>x \<in> set ess. x \<noteq> []"
    using index_tree_entries(1) [OF forest_cons.IH(1)] forest_lengths [OF forest_cons.IH(3)]
    by auto
  let ?child = "\<lparr>vn_minimum_key = fst (hd es), vn_maximum_key = fst (last es),
      vn_level = word_of_nat l, vn_entries = es, vn_leaves = lvs\<rparr>"
  let ?result = "\<lparr>vn_minimum_key = (if k = 0 then fst (hd es) else vn_minimum_key result),
      vn_maximum_key = fst (last es), vn_level = vn_level result,
      vn_entries = vn_entries result @ es, vn_leaves = vn_leaves result @ lvs\<rparr>"
  have child: "validate_index_node pages i owned active = Inr (?child, set us \<union> owned)"
    using forest_cons.prems by (intro forest_cons.IH(2)) auto
  have "separators ! (k - 1) = hd es" if "0 < k"
    using forest_cons.prems(5) [of 0] that by simp
  moreover have "\<not> last (vn_entries result) > hd es" if "vn_entries result \<noteq> []"
    using forest_cons.prems(6) that ne by (auto simp: sorted_append not_less)
  ultimately have merge:
    "merge_child (word_of_nat (Suc l)) separators k result ?child = Inr ?result"
    using forest_cons.prems(4) by (auto simp: merge_child_def word_Suc_level simp del: of_nat_Suc)
  have sep: "separators ! (Suc k + j - 1) = hd (ess ! j)" if "j < length is" for j
    using forest_cons.prems(5) [of "Suc j"] that by simp
  have "validate_children pages active (word_of_nat (Suc l)) separators (Suc k) is ?result
      (set us \<union> owned) =
    Inr (\<lparr>vn_minimum_key = vn_minimum_key ?result,
      vn_maximum_key = (if is = [] then vn_maximum_key ?result else fst (last (last ess))),
      vn_level = vn_level ?result, vn_entries = vn_entries ?result @ concat ess,
      vn_leaves = vn_leaves ?result @ lvs'\<rparr>, set us' \<union> (set us \<union> owned))"
    using forest_cons.prems sep by (subst forest_cons.IH(4)) (auto simp del: of_nat_Suc)
  then show ?case
    using lens by (auto simp: child merge simp del: of_nat_Suc)
qed

section \<open>The check accepts nothing else\<close>

lemma sorted_append_cross:
  assumes "sorted xs" "sorted ys" "xs \<noteq> [] \<Longrightarrow> ys \<noteq> [] \<Longrightarrow> last xs \<le> hd ys"
  shows "sorted (xs @ ys)"
proof (cases "xs = [] \<or> ys = []")
  case False
  have "x \<le> y" if "x \<in> set xs" "y \<in> set ys" for x y
  proof -
    have "x \<le> last xs" using assms(1) that by (cases xs rule: rev_cases) (auto simp: sorted_append)
    also have "\<dots> \<le> hd ys" using assms(3) False by simp
    also have "\<dots> \<le> y" using assms(2) that by (cases ys) auto
    finally show ?thesis .
  qed
  then show ?thesis using assms by (simp add: sorted_append)
qed (use assms in auto)

lemma validate_sound:
  "validate_index_node pages i owned active = Inr (v, owned') \<Longrightarrow>
   \<exists>l us. index_tree pages i l (vn_entries v) (vn_leaves v) us \<and> distinct us \<and>
     set us \<inter> owned = {} \<and> owned' = set us \<union> owned \<and> vn_level v = word_of_nat l"
  "validate_children pages active level separators k is result owned = Inr (v, owned') \<Longrightarrow>
   level \<noteq> 0 \<Longrightarrow>
   \<exists>ess lvs us. index_forest pages (unat level - 1) is ess lvs us \<and> distinct us \<and>
     set us \<inter> owned = {} \<and> owned' = set us \<union> owned \<and> vn_level v = vn_level result \<and>
     vn_entries v = vn_entries result @ concat ess \<and> vn_leaves v = vn_leaves result @ lvs \<and>
     (\<forall>j < length is. 0 < k + j \<longrightarrow> separators ! (k + j - 1) = hd (ess ! j)) \<and>
     (sorted (vn_entries result) \<longrightarrow> sorted (vn_entries v))"
proof (induction pages i owned active and pages active level separators k "is" result owned
    arbitrary: v owned' and v owned' rule: validate_index_node_validate_children.induct)
  case (1 pages i owned active)
  from "1.prems" have claim: "unat i < length pages" "i \<notin> owned"
    by (auto simp: validate_index_node.simps [of pages i] run_inv claim_node_eq_Inr)
  then have claimed: "claim_node pages i owned active = Inr (pages ! unat i)"
    using "1.prems"
    by (auto simp: validate_index_node.simps [of pages i] run_inv claim_node_eq_Inr)
  note run = "1.prems" [unfolded validate_index_node.simps [of pages i] claimed bindE_Inr]
  show ?case
  proof (cases "ptype (pages ! unat i)")
    case IndexLeaf
    with run obtain v' where v: "read_leaf_node (pages ! unat i) i = Inr v'" "v = v'"
      "owned' = insert i owned"
      by (auto simp: run_inv)
    from v(1) show ?thesis
      unfolding read_leaf_node_iff [OF IndexLeaf]
      using claim IndexLeaf v(2,3)
      by (auto intro!: exI [of _ 0] exI [of _ "[i]"] tree_leaf)
  next
    case IndexInternal
    with run obtain level separators children where
      read: "read_internal_node (pages ! unat i) = Inr (level, separators, children)" and
      rec: "validate_children pages (insert i active) level separators 0 children
        (empty_node level) (insert i owned) = Inr (v, owned')"
      by (auto simp: run_inv split: prod.splits)
    from read obtain first bs where
      next_id: "pnext (pages ! unat i) = NO_PAGE" and level: "level \<noteq> 0" and
      payload: "payload (pages ! unat i) = internal_payload level first bs" and
      bs: "bs \<noteq> []" "length bs \<le> 65535" and
      seps: "separators = map fst bs" and children: "children = first # map snd bs"
      by (auto simp: read_internal_node_iff [OF IndexInternal])
    obtain ess lvs us where
      forest: "index_forest pages (unat level - 1) children ess lvs us" and
      us: "distinct us" "set us \<inter> insert i owned = {}" "owned' = set us \<union> insert i owned" and
      v: "vn_level v = level" "vn_entries v = concat ess" "vn_leaves v = lvs" and
      hds: "\<forall>j < length children. 0 < j \<longrightarrow> separators ! (j - 1) = hd (ess ! j)" and
      sorted: "sorted (concat ess)"
      using "1.IH" [OF claimed _ _ read refl refl rec level] IndexInternal
      by (auto simp: empty_node_def)
    define l where "l = unat level - 1"
    have l: "Suc l = unat level" using level by (simp add: l_def unat_gt_0)
    have lev: "word_of_nat (Suc l) = level" by (simp add: l del: of_nat_Suc)
    have lens: "length ess = Suc (length bs)" using forest_lengths [OF forest] children by simp
    then obtain es ess' where ess: "ess = es # ess'" by (cases ess) auto
    have "map hd ess' = map fst bs"
    proof (rule nth_equalityI)
      show "length (map hd ess') = length (map fst bs)" using lens ess by simp
      fix j assume "j < length (map hd ess')"
      then show "map hd ess' ! j = map fst bs ! j"
        using hds [rule_format, of "Suc j"] lens by (simp add: ess children seps)
    qed
    then have zip: "zip (map hd ess') (map snd bs) = bs" by (simp add: zip_map_fst_snd)
    have "index_tree pages i (Suc l) (es @ concat ess') lvs (i # us)"
    proof (rule tree_node)
      show "payload (pages ! unat i) =
          internal_payload (word_of_nat (Suc l)) first (zip (map hd ess') (map snd bs))"
        using payload by (simp only: lev zip)
      show "length (map snd bs) = length ess'" using lens ess by simp
      show "Suc l \<le> 65535" using l unsigned_less [of level, where ?'a = nat] by simp
      show "index_forest pages l (first # map snd bs) (es # ess') lvs us"
        using forest by (simp add: l_def children ess)
      show "sorted (es @ concat ess')" using sorted by (simp add: ess)
    qed (use claim IndexInternal next_id bs in auto)
    moreover have "vn_level v = word_of_nat (Suc l)" using v(1) by (simp only: lev)
    ultimately show ?thesis
      using us claim v by (intro exI [of _ "Suc l"] exI [of _ "i # us"]) (auto simp: ess)
  qed (use run in \<open>auto simp: wrong_index_page_def\<close>)
next
  case (2 pages active level separators k result owned)
  then show ?case by auto
next
  case (3 pages active level separators k c cs result owned)
  from "3.prems"(1) obtain child owned1 merged where
    child: "validate_index_node pages c owned active = Inr (child, owned1)" and
    merge: "merge_child level separators k result child = Inr merged" and
    rest: "validate_children pages active level separators (Suc k) cs merged owned1 = Inr (v, owned')"
    by (auto simp: run_inv split: prod.splits)
  obtain l us where
    tree: "index_tree pages c l (vn_entries child) (vn_leaves child) us" and
    us: "distinct us" "set us \<inter> owned = {}" "owned1 = set us \<union> owned" and
    vl: "vn_level child = word_of_nat l"
    using "3.IH"(1) [OF child] by blast
  obtain ess lvs us' where
    forest: "index_forest pages (unat level - 1) cs ess lvs us'" and
    us': "distinct us'" "set us' \<inter> owned1 = {}" "owned' = set us' \<union> owned1" and
    v: "vn_level v = vn_level merged" "vn_entries v = vn_entries merged @ concat ess"
      "vn_leaves v = vn_leaves merged @ lvs" and
    hds: "\<forall>j < length cs. 0 < Suc k + j \<longrightarrow> separators ! (Suc k + j - 1) = hd (ess ! j)" and
    sorted: "sorted (vn_entries merged) \<longrightarrow> sorted (vn_entries v)"
    using "3.IH"(2) [OF child refl merge rest "3.prems"(2)] by blast
  have entries: "vn_entries child \<noteq> []" "sorted (vn_entries child)" and l: "l \<le> 65535"
    using index_tree_entries(1) [OF tree] by auto
  have level: "Suc l = unat level" and
    sep: "0 < k \<longrightarrow> separators ! (k - 1) = hd (vn_entries child)" and
    cross: "vn_entries result \<noteq> [] \<longrightarrow> last (vn_entries result) \<le> hd (vn_entries child)" and
    merged: "vn_entries merged = vn_entries result @ vn_entries child"
      "vn_leaves merged = vn_leaves result @ vn_leaves child" "vn_level merged = vn_level result"
    using merge l by (auto simp: merge_child_def vl count_word not_less split: if_splits)
  have "unat level - 1 = l" using level by simp
  then have "index_forest pages (unat level - 1) (c # cs) (vn_entries child # ess)
      (vn_leaves child @ lvs) (us @ us')"
    using tree forest by (auto intro: forest_cons)
  moreover have "sorted (vn_entries result) \<longrightarrow> sorted (vn_entries v)"
    using sorted cross entries by (auto simp: merged intro: sorted_append_cross)
  moreover have "\<forall>j < length (c # cs). 0 < k + j \<longrightarrow>
      separators ! (k + j - 1) = hd ((vn_entries child # ess) ! j)"
    using hds sep by (auto simp: nth_Cons split: nat.split)
  ultimately show ?case
    using us us' v
    by (intro exI [of _ "vn_entries child # ess"] exI [of _ "vn_leaves child @ lvs"]
        exI [of _ "us @ us'"]) (auto simp: merged)
qed

theorem validate_index_node_iff:
  "validate_index_node pages i owned {} = Inr (v, owned') \<longleftrightarrow>
   (\<exists>l us. index_tree pages i l (vn_entries v) (vn_leaves v) us \<and> distinct us \<and>
      set us \<inter> owned = {} \<and> owned' = set us \<union> owned \<and>
      v = \<lparr>vn_minimum_key = fst (hd (vn_entries v)), vn_maximum_key = fst (last (vn_entries v)),
           vn_level = word_of_nat l, vn_entries = vn_entries v, vn_leaves = vn_leaves v\<rparr>)"
  (is "?L \<longleftrightarrow> ?R")
proof
  assume L: ?L
  obtain l us where t: "index_tree pages i l (vn_entries v) (vn_leaves v) us" "distinct us"
    "set us \<inter> owned = {}" "owned' = set us \<union> owned"
    using validate_sound(1) [OF L] by blast
  with L validate_complete(1) [OF t(1,2,3), of "{}"]
  show ?R by (intro exI [of _ l] exI [of _ us]) auto
next
  assume ?R
  then show ?L using validate_complete(1) [of pages i _ "vn_entries v" "vn_leaves v" _ owned "{}"]
    by auto
qed

section \<open>A tree depends on its own pages only\<close>

lemma index_tree_cong:
  "index_tree pages i l es lvs us \<Longrightarrow>
   (\<And>u. u \<in> set us \<Longrightarrow> unat u < length pages' \<and> pages' ! unat u = pages ! unat u) \<Longrightarrow>
   index_tree pages' i l es lvs us"
  "index_forest pages l is ess lvs us \<Longrightarrow>
   (\<And>u. u \<in> set us \<Longrightarrow> unat u < length pages' \<and> pages' ! unat u = pages ! unat u) \<Longrightarrow>
   index_forest pages' l is ess lvs us"
proof (induction rule: index_tree_index_forest.inducts)
  case (tree_leaf i prev es)
  then show ?case by (auto intro: index_tree_index_forest.tree_leaf)
next
  case (tree_node i l c ess cs es lvs us)
  then have "index_forest pages' l (c # cs) (es # ess) lvs us" "unat i < length pages'"
    "pages' ! unat i = pages ! unat i"
    by auto
  with tree_node show ?case by (intro index_tree_index_forest.tree_node) auto
qed (auto intro: index_tree_index_forest.forest_nil index_tree_index_forest.forest_cons)

lemma index_tree_pages:
  "index_tree pages i l es lvs us \<Longrightarrow>
     (\<forall>u \<in> set us. unat u < length pages) \<and> i \<in> set us \<and> set lvs \<subseteq> set us"
  "index_forest pages l is ess lvs us \<Longrightarrow>
     (\<forall>u \<in> set us. unat u < length pages) \<and> set is \<subseteq> set us \<and> set lvs \<subseteq> set us"
  by (induction rule: index_tree_index_forest.inducts) auto

lemma index_tree_append:
  "index_tree pages i l es lvs us \<Longrightarrow> index_tree (pages @ added) i l es lvs us"
  by (rule index_tree_cong(1)) (auto simp: nth_append dest: index_tree_pages)

lemma index_tree_leaves:
  "index_tree pages i l es lvs us \<Longrightarrow> lvs \<noteq> [] \<and>
     (\<forall>v \<in> set lvs. ptype (pages ! unat v) = IndexLeaf)"
  "index_forest pages l is ess lvs us \<Longrightarrow>
     (is \<noteq> [] \<longrightarrow> lvs \<noteq> []) \<and> (\<forall>v \<in> set lvs. ptype (pages ! unat v) = IndexLeaf)"
  by (induction rule: index_tree_index_forest.inducts) auto

end
