(* ===== verification/Index_Build.thy ===== *)
theory Index_Build
  imports Index_Validate "HOL-Library.Multiset"
begin

text \<open>
  \<open>build_index\<close> of \<open>storage_v2.cpp\<close>: the bottom-up bulk load of a persistent B+ tree from sorted
  entries. Leaves are filled greedily and linked to their neighbours, then levels of internal
  pages are stacked until one page is left. The theorem is that the pages it appends form, in
  the sense of \<open>index_tree\<close>, a tree with exactly the given entries, and that none of its
  \<open>logic_error\<close> branches is reachable.
\<close>

section \<open>Leaves\<close>

record child_descriptor =
  cd_id :: u32
  cd_minimum_key :: string
  cd_minimum_record :: u64
  cd_level :: u16

fun fill_leaf :: "bytes \<Rightarrow> u16 \<Rightarrow> entry list \<Rightarrow> (bytes \<times> u16 \<times> entry list) res" where
  "fill_leaf buf cnt [] = Inr (buf, cnt, [])"
| "fill_leaf buf cnt (e # es) =
     (let entry_size = 2 + length (fst e) + 8 in
      if length buf + entry_size > PAGE_PAYLOAD_SIZE then Inr (buf, cnt, e # es)
      else bindE (append_entry buf e) (\<lambda>buf. fill_leaf buf (cnt + 1) es))"

definition entry_does_not_fit :: error where
  "entry_does_not_fit = Logic_Error ''Index entry does not fit in a page''"

definition empty_leaf_payload :: bytes where
  "empty_leaf_payload = append_u16 (append_u32 (append_u16 [] 0) NO_PAGE) 0"

definition set_count :: "nat \<Rightarrow> u16 \<Rightarrow> bytes \<Rightarrow> bytes" where
  "set_count off cnt buf =
     buf[off := ucast (cnt AND 0xff), off + 1 := ucast (drop_bit 8 cnt)]"

lemma fill_leaf_suffix:
  "fill_leaf buf cnt es = Inr (buf', cnt', es') \<Longrightarrow>
   length es' \<le> length es \<and> (length es' = length es \<longrightarrow> cnt' = cnt)"
proof (induction buf cnt es rule: fill_leaf.induct)
  case (2 buf cnt e es)
  show ?case
  proof (cases "length buf + (2 + length (fst e) + 8) > PAGE_PAYLOAD_SIZE")
    case False
    with "2.prems" obtain p where "append_entry buf e = Inr p"
      "fill_leaf p (cnt + 1) es = Inr (buf', cnt', es')"
      by (auto simp: run_inv Let_def)
    with "2.IH" False show ?thesis by fastforce
  qed (use "2.prems" in auto)
qed auto

function build_leaves ::
  "page list \<Rightarrow> child_descriptor list \<Rightarrow> nat list \<Rightarrow> entry list \<Rightarrow>
   (page list \<times> child_descriptor list \<times> nat list) res" where
  "build_leaves pages level positions rest =
     (if rest = [] then Inr (pages, level, positions)
      else
        bindE (fill_leaf empty_leaf_payload 0 rest) (\<lambda>(buf, count, rest').
        bindE (throw_if (count = 0) entry_does_not_fit) (\<lambda>_.
          let buf = set_count 0 count buf;
              i = word_of_nat (length pages)
          in build_leaves (pages @ [Page IndexLeaf i NO_PAGE buf])
               (level @ [\<lparr>cd_id = i, cd_minimum_key = fst (hd rest),
                          cd_minimum_record = snd (hd rest), cd_level = 0\<rparr>])
               (positions @ [length pages]) rest')))"
  by pat_completeness auto
termination
proof (relation "measure (\<lambda>(pages, level, positions, rest). length rest)", goal_cases)
  case (2 pages level positions rest x buf y cnt rest')
  then show ?case
    using fill_leaf_suffix [of empty_leaf_payload 0 rest buf cnt rest']
    by (auto simp: throw_if_eq_Inr le_less)
qed simp

declare build_leaves.simps [simp del]

text \<open>The pass that links the leaves to their neighbours; one round of it.\<close>

definition link_leaf :: "nat list \<Rightarrow> page list \<Rightarrow> nat \<Rightarrow> page list" where
  "link_leaf positions pages i =
     (let next = (if i + 1 < length positions then pid (pages ! (positions ! (i + 1))) else NO_PAGE);
          previous = (if i = 0 then NO_PAGE else pid (pages ! (positions ! (i - 1))));
          leaf = pages ! (positions ! i)
      in pages[positions ! i :=
           leaf\<lparr>pnext := next, payload := put32 2 previous (payload leaf)\<rparr>])"

definition link_leaves :: "page list \<Rightarrow> nat list \<Rightarrow> page list" where
  "link_leaves pages positions = foldl (link_leaf positions) pages [0..<length positions]"

section \<open>Internal levels\<close>

text \<open>How many further children fit behind the first one.\<close>

fun fit_children :: "nat \<Rightarrow> child_descriptor list \<Rightarrow> nat" where
  "fit_children encoded_size [] = 0"
| "fit_children encoded_size (d # ds) =
     (let entry_size = 2 + length (cd_minimum_key d) + 8 + 4 in
      if encoded_size + entry_size > PAGE_PAYLOAD_SIZE then 0
      else Suc (fit_children (encoded_size + entry_size) ds))"

definition group_size :: "child_descriptor list \<Rightarrow> nat" where
  "group_size rest =
     (let n = 1 + fit_children 8 (tl rest)
      in if length rest - n = 1 \<and> n > 2 then n - 1 else n)"

definition branch_of :: "child_descriptor \<Rightarrow> entry \<times> u32" where
  "branch_of d = ((cd_minimum_key d, cd_minimum_record d), cd_id d)"

definition group_payload :: "child_descriptor list \<Rightarrow> bytes res" where
  "group_payload node_group =
     bindE (foldE append_branch
       (append_u32 (append_u16 (append_u16 [] (cd_level (hd node_group) + 1)) 0) (cd_id (hd node_group)))
       (map branch_of (tl node_group))) (\<lambda>buf.
     Inr (set_count 2 (word_of_nat (length (tl node_group))) buf))"

definition too_few_children :: error where
  "too_few_children = Logic_Error ''Internal index page must contain at least two children''"

function build_parents ::
  "page list \<Rightarrow> child_descriptor list \<Rightarrow> child_descriptor list \<Rightarrow>
   (page list \<times> child_descriptor list) res" where
  "build_parents pages parents rest =
     (if rest = [] then Inr (pages, parents)
      else
        let n = group_size rest; node_group = take n rest in
        bindE (throw_if (n < 2) too_few_children) (\<lambda>_.
        bindE (group_payload node_group) (\<lambda>buf.
          let i = word_of_nat (length pages) in
          build_parents (pages @ [Page IndexInternal i NO_PAGE buf])
            (parents @ [(hd node_group)\<lparr>cd_id := i, cd_level := cd_level (hd node_group) + 1\<rparr>])
            (drop n rest))))"
  by pat_completeness auto
termination
  by (relation "measure (\<lambda>(pages, parents, rest). length rest)") (auto simp: throw_if_eq_Inr)

declare build_parents.simps [simp del]

lemma fit_children_le: "fit_children sz ds \<le> length ds"
  by (induction sz ds rule: fit_children.induct) (auto simp: Let_def)

lemma group_size_le: "rest \<noteq> [] \<Longrightarrow> group_size rest \<le> length rest"
  using fit_children_le [of 8 "tl rest"] by (cases rest) (auto simp: group_size_def Let_def)

lemma build_parents_shorter:
  "build_parents pages parents rest = Inr (pages', parents') \<Longrightarrow>
   2 * length parents' \<le> 2 * length parents + length rest"
proof (induction pages parents rest rule: build_parents.induct)
  case (1 pages parents rest)
  show ?case
  proof (cases "rest = []")
    case True
    with "1.prems" show ?thesis by (simp add: build_parents.simps)
  next
    case False
    let ?n = "group_size rest"
    from False "1.prems" obtain buf where n: "\<not> ?n < 2"
      and p: "group_payload (take ?n rest) = Inr buf"
      and rec: "build_parents
        (pages @ [Page IndexInternal (word_of_nat (length pages)) NO_PAGE buf])
        (parents @ [(hd (take ?n rest))\<lparr>cd_id := word_of_nat (length pages),
           cd_level := cd_level (hd (take ?n rest)) + 1\<rparr>]) (drop ?n rest) = Inr (pages', parents')"
      by (subst (asm) build_parents.simps) (auto simp: run_inv Let_def)
    have t: "throw_if (?n < 2) too_few_children = Inr ()" using n by simp
    show ?thesis
      using "1.IH" [OF False refl refl t p refl rec] n group_size_le [OF False] by simp
  qed
qed

function build_levels ::
  "page list \<Rightarrow> child_descriptor list \<Rightarrow> (page list \<times> child_descriptor list) res" where
  "build_levels pages level =
     (if length level > 1 then
        bindE (build_parents pages [] level) (\<lambda>(pages, parents). build_levels pages parents)
      else Inr (pages, level))"
  by pat_completeness auto
termination
proof (relation "measure (\<lambda>(pages, level). length level)", goal_cases)
  case (2 pages level x pages' parents)
  then show ?case using build_parents_shorter [of pages "[]" level pages' parents] by auto
qed simp

declare build_levels.simps [simp del]

definition build_index :: "page list \<Rightarrow> entry list \<Rightarrow> (page list \<times> u32) res" where
  "build_index pages entries =
     (if entries = [] then Inr (pages, NO_PAGE)
      else
        bindE (build_leaves pages [] [] entries) (\<lambda>(pages, level, positions).
        bindE (build_levels (link_leaves pages positions) level) (\<lambda>(pages, level).
        Inr (pages, cd_id (hd level)))))"

section \<open>The leaves hold the entries in order\<close>

definition descriptor :: "nat \<Rightarrow> u32 \<Rightarrow> entry list \<Rightarrow> child_descriptor" where
  "descriptor l i es =
     \<lparr>cd_id = i, cd_minimum_key = fst (hd es), cd_minimum_record = snd (hd es),
      cd_level = word_of_nat l\<rparr>"

lemma descriptor_leaf:
  "\<lparr>cd_id = i, cd_minimum_key = fst (hd es), cd_minimum_record = snd (hd es), cd_level = 0\<rparr> =
   descriptor 0 i es"
  by (simp add: descriptor_def)

definition leaf_at :: "nat \<Rightarrow> entry list list \<Rightarrow> bool \<Rightarrow> nat \<Rightarrow> page" where
  "leaf_at k ess linked j =
     Page IndexLeaf (word_of_nat (k + j))
       (if linked \<and> Suc j < length ess then word_of_nat (k + Suc j) else NO_PAGE)
       (leaf_payload (if linked \<and> 0 < j then word_of_nat (k + (j - 1)) else NO_PAGE) (ess ! j))"

definition leaf_row :: "nat \<Rightarrow> entry list list \<Rightarrow> nat \<Rightarrow> page list" where
  "leaf_row k ess m = map (\<lambda>j. leaf_at k ess (j < m) j) [0..<length ess]"

lemma set_count_eq:
  "length pre = off \<Longrightarrow> set_count off c (pre @ le16 a @ rest) = pre @ le16 c @ rest"
proof -
  have "ucast (drop_bit 8 c :: u16) = (ucast (drop_bit 8 c AND 0xff) :: u8)"
    by (rule bit_word_eqI) (auto simp: bit_simps byte_mask)
  then show "length pre = off \<Longrightarrow> ?thesis"
    by (auto simp: set_count_def le16_def append_u16_def nth_append list_update_append)
qed

lemma empty_leaf_payload_eq: "empty_leaf_payload = [] @ le16 0 @ le32 NO_PAGE @ le16 0"
  by (simp add: empty_leaf_payload_def append_eqs)

lemma entry_ok_size: "entry_ok e \<Longrightarrow> 2 + length (fst e) + 8 \<le> 110"
  by (auto simp: entry_ok_def MAX_VALUE_LENGTH_def)

lemma fill_leaf_ok:
  "\<forall>e \<in> set es. entry_ok e \<Longrightarrow> length buf \<le> PAGE_PAYLOAD_SIZE \<Longrightarrow>
   \<exists>taken rest. fill_leaf buf cnt es =
     Inr (buf @ concat (map le_entry taken), cnt + word_of_nat (length taken), rest) \<and>
     es = taken @ rest \<and> length buf + entries_size taken \<le> PAGE_PAYLOAD_SIZE \<and>
     (es \<noteq> [] \<and> length buf + 110 \<le> PAGE_PAYLOAD_SIZE \<longrightarrow> taken \<noteq> [])"
proof (induction es arbitrary: buf cnt)
  case (Cons e es)
  show ?case
  proof (cases "length buf + (2 + length (fst e) + 8) > PAGE_PAYLOAD_SIZE")
    case True
    then show ?thesis
      using Cons.prems entry_ok_size [of e]
      by (intro exI [of _ "[]"] exI [of _ "e # es"]) auto
  next
    case False
    obtain taken rest where
      "fill_leaf (buf @ le_entry e) (cnt + 1) es =
        Inr ((buf @ le_entry e) @ concat (map le_entry taken), cnt + 1 + word_of_nat (length taken), rest)"
      "es = taken @ rest" "length (buf @ le_entry e) + entries_size taken \<le> PAGE_PAYLOAD_SIZE"
      using Cons.IH [of "buf @ le_entry e" "cnt + 1"] Cons.prems False
      by (auto simp: length_le_entry)
    then show ?thesis
      using Cons.prems False
      by (intro exI [of _ "e # taken"] exI [of _ rest])
        (auto simp: append_entry_ok length_le_entry algebra_simps)
  qed
qed auto

lemma build_leaves_ok:
  "\<forall>e \<in> set rest. entry_ok e \<Longrightarrow>
   \<exists>ess. build_leaves pages level positions rest =
     Inr (pages @ leaf_row (length pages) ess 0,
          level @ map2 (descriptor 0) (map word_of_nat [length pages..<length pages + length ess]) ess,
          positions @ [length pages..<length pages + length ess]) \<and>
     concat ess = rest \<and> (\<forall>es \<in> set ess. es \<noteq> [] \<and> 8 + entries_size es \<le> PAGE_PAYLOAD_SIZE)"
proof (induction "length rest" arbitrary: pages level positions rest rule: less_induct)
  case less
  show ?case
  proof (cases "rest = []")
    case True
    then show ?thesis
      by (intro exI [of _ "[]"]) (simp add: build_leaves.simps leaf_row_def)
  next
    case False
    let ?k = "length pages"
    obtain taken rest' where
      fill: "fill_leaf empty_leaf_payload 0 rest =
        Inr (empty_leaf_payload @ concat (map le_entry taken), word_of_nat (length taken), rest')"
      and rest: "rest = taken @ rest'" and taken: "taken \<noteq> []"
      and size: "8 + entries_size taken \<le> PAGE_PAYLOAD_SIZE"
      using fill_leaf_ok [of rest empty_leaf_payload 0] less.prems False
      by (auto simp: empty_leaf_payload_eq page_consts)
    have len: "length taken \<le> 65535"
      using size entries_size_ge [of taken] by (simp add: page_consts)
    then have count: "(word_of_nat (length taken) :: u16) \<noteq> 0"
      using taken count_word [of "length taken"] by (metis length_0_conv unat_0)
    have buf: "set_count 0 (word_of_nat (length taken))
        (empty_leaf_payload @ concat (map le_entry taken)) = leaf_payload NO_PAGE taken"
      using set_count_eq [of "[]" 0] by (simp add: empty_leaf_payload_eq leaf_payload_def)
    let ?page = "Page IndexLeaf (word_of_nat ?k) NO_PAGE (leaf_payload NO_PAGE taken)"
    have hd: "hd rest = hd taken" using rest taken by simp
    obtain ess where
      rec: "build_leaves (pages @ [?page]) (level @ [descriptor 0 (word_of_nat ?k) taken])
          (positions @ [?k]) rest' =
        Inr ((pages @ [?page]) @ leaf_row (Suc ?k) ess 0,
          (level @ [descriptor 0 (word_of_nat ?k) taken]) @
            map2 (descriptor 0) (map word_of_nat [Suc ?k..<Suc ?k + length ess]) ess,
          (positions @ [?k]) @ [Suc ?k..<Suc ?k + length ess])" and
      ess: "concat ess = rest'"
        "\<forall>es \<in> set ess. es \<noteq> [] \<and> 8 + entries_size es \<le> PAGE_PAYLOAD_SIZE"
      using less.hyps [of rest' "pages @ [?page]" "level @ [descriptor 0 (word_of_nat ?k) taken]"
          "positions @ [?k]"] less.prems rest taken
      by auto
    have row: "leaf_row ?k (taken # ess) 0 = ?page # leaf_row (Suc ?k) ess 0"
      by (simp add: leaf_row_def leaf_at_def map_upt_Suc del: upt_Suc)
    have upt: "[?k..<?k + length (taken # ess)] = ?k # [Suc ?k..<Suc ?k + length ess]"
      by (simp add: upt_conv_Cons del: upt_Suc)
    have "build_leaves pages level positions rest =
        Inr (pages @ leaf_row ?k (taken # ess) 0,
          level @ map2 (descriptor 0) (map word_of_nat [?k..<?k + length (taken # ess)]) (taken # ess),
          positions @ [?k..<?k + length (taken # ess)])"
      using False rec
      by (subst build_leaves.simps)
        (simp only: fill bindE_Inr prod.case count throw_if_False if_False buf Let_def hd row upt
            descriptor_leaf, simp)
    then show ?thesis
      using ess rest taken size by (intro exI [of _ "taken # ess"]) simp
  qed
qed

section \<open>Linking the leaves\<close>

lemma put32_leaf_payload:
  "put32 2 prev (leaf_payload prev' es) = leaf_payload prev es"
  by (simp add: put32_eq leaf_payload_def overwrite_append_right)

lemma length_leaf_row [simp]: "length (leaf_row k ess m) = length ess"
  by (simp add: leaf_row_def)

lemma nth_leaf_row [simp]: "j < length ess \<Longrightarrow> leaf_row k ess m ! j = leaf_at k ess (j < m) j"
  by (simp add: leaf_row_def)

lemma pid_leaf_at [simp]: "pid (leaf_at k ess b j) = word_of_nat (k + j)"
  by (simp add: leaf_at_def)

lemma link_leaf_row:
  assumes "m < length ess" and "length P = k"
  shows "link_leaf [k..<k + length ess] (P @ leaf_row k ess m) m = P @ leaf_row k ess (Suc m)"
proof (rule nth_equalityI)
  show "length (link_leaf [k..<k + length ess] (P @ leaf_row k ess m) m) =
      length (P @ leaf_row k ess (Suc m))"
    by (simp add: link_leaf_def Let_def)
next
  fix n assume n: "n < length (link_leaf [k..<k + length ess] (P @ leaf_row k ess m) m)"
  have page: "(P @ leaf_row k ess m) ! (k + j) = leaf_at k ess (j < m) j" if "j < length ess" for j
    using that assms(2) by (simp add: nth_append)
  have new: "(leaf_at k ess False m)\<lparr>
      pnext := if m + 1 < length ess then word_of_nat (k + Suc m) else NO_PAGE,
      payload := put32 2 (if m = 0 then NO_PAGE else word_of_nat (k + (m - 1)))
        (payload (leaf_at k ess False m))\<rparr> = leaf_at k ess True m"
    by (simp add: leaf_at_def put32_leaf_payload)
  show "link_leaf [k..<k + length ess] (P @ leaf_row k ess m) m ! n = (P @ leaf_row k ess (Suc m)) ! n"
  proof (cases "n = k + m")
    case True
    have "link_leaf [k..<k + length ess] (P @ leaf_row k ess m) m ! (k + m) = (leaf_at k ess False m)\<lparr>
      pnext := if m + 1 < length ess then word_of_nat (k + Suc m) else NO_PAGE,
      payload := put32 2 (if m = 0 then NO_PAGE else word_of_nat (k + (m - 1)))
        (payload (leaf_at k ess False m))\<rparr>"
    proof -
      let ?ps = "[k..<k + length ess]" and ?pages = "P @ leaf_row k ess m"
      have pos: "?ps ! m = k + m" "length ?ps = length ess" using assms(1) by simp_all
      have nxt: "pid (?pages ! (?ps ! (m + 1))) = word_of_nat (k + Suc m)" if "m + 1 < length ess"
        using that page [of "Suc m"] by simp
      have prev: "pid (?pages ! (?ps ! (m - 1))) = word_of_nat (k + (m - 1))"
        using assms(1) page [of "m - 1"] by simp
      have here: "?pages ! (k + m) = leaf_at k ess False m" using page [OF assms(1)] by simp
      have bound: "k + m < length ?pages" using assms by simp
      show ?thesis
        unfolding link_leaf_def Let_def pos here prev
        using nxt bound by (simp only: nth_list_update_eq cong: if_cong)
    qed
    also note new
    also have "leaf_at k ess True m = (P @ leaf_row k ess (Suc m)) ! (k + m)"
      using assms by (simp add: nth_append)
    finally show ?thesis by (simp only: True)
  next
    case False
    then have "link_leaf [k..<k + length ess] (P @ leaf_row k ess m) m ! n = (P @ leaf_row k ess m) ! n"
      using assms by (simp add: link_leaf_def Let_def)
    also have "\<dots> = (P @ leaf_row k ess (Suc m)) ! n"
    proof (cases "n < k")
      case False
      then obtain j where "n = k + j" by (metis le_Suc_ex not_less)
      then show ?thesis
        using \<open>n \<noteq> k + m\<close> n assms by (auto simp: nth_append link_leaf_def Let_def less_Suc_eq)
    qed (use assms in \<open>simp add: nth_append\<close>)
    finally show ?thesis .
  qed
qed

lemma link_leaves_ok:
  assumes "length P = k"
  shows "link_leaves (P @ leaf_row k ess 0) [k..<k + length ess] = P @ leaf_row k ess (length ess)"
proof -
  have "foldl (link_leaf [k..<k + length ess]) (P @ leaf_row k ess 0) [0..<m] = P @ leaf_row k ess m"
    if "m \<le> length ess" for m
    using that by (induction m) (auto simp: link_leaf_row assms)
  then show ?thesis by (simp add: link_leaves_def)
qed

lemma forest_of_leaves:
  assumes "length is = length ess"
    and "\<And>j. j < length ess \<Longrightarrow> unat (is ! j) < length pages \<and>
      ptype (pages ! unat (is ! j)) = IndexLeaf \<and>
      (\<exists>prev. payload (pages ! unat (is ! j)) = leaf_payload prev (ess ! j))"
    and "\<forall>es \<in> set ess. es \<noteq> [] \<and> length es \<le> 65535 \<and> (\<forall>e \<in> set es. entry_ok e) \<and> sorted es"
  shows "index_forest pages 0 is ess is is"
  using assms
proof (induction "is" ess rule: list_induct2)
  case (Cons i "is" es ess)
  have "index_forest pages 0 is ess is is"
    using Cons.prems(1) [of "Suc j" for j] Cons.prems(2) by (intro Cons.IH) auto
  moreover have "index_tree pages i 0 es [i] [i]"
    using Cons.prems(1) [of 0] Cons.prems(2) by (auto intro: tree_leaf)
  ultimately show ?case using forest_cons [of pages i 0 es "[i]" "[i]"] by fastforce
qed (simp add: forest_nil)

lemma leaf_row_forest:
  assumes "length P = k" and "k + length ess \<le> MAX_PAGES"
    and "sorted (concat ess)" and "\<forall>e \<in> set (concat ess). entry_ok e"
    and sz: "\<forall>es \<in> set ess. es \<noteq> [] \<and> 8 + entries_size es \<le> PAGE_PAYLOAD_SIZE"
  shows "index_forest (P @ leaf_row k ess m) 0 (map word_of_nat [k..<k + length ess]) ess
    (map word_of_nat [k..<k + length ess]) (map word_of_nat [k..<k + length ess])"
proof (rule forest_of_leaves)
  show "length (map word_of_nat [k..<k + length ess]) = length ess" by simp
  have "length es \<le> 65535" if "es \<in> set ess" for es
    using sz that entries_size_ge [of es] by (auto simp: page_consts)
  moreover have "sorted es" if "es \<in> set ess" for es
    using assms(3) that by (induction ess) (auto simp: sorted_append)
  ultimately show "\<forall>es \<in> set ess. es \<noteq> [] \<and> length es \<le> 65535 \<and> (\<forall>e \<in> set es. entry_ok e) \<and> sorted es"
    using assms(4) sz by auto
qed (use assms(1,2) in \<open>auto simp: leaf_at_def nth_append simp flip: of_nat_add\<close>)

section \<open>Groups of children\<close>

definition key_ok :: "child_descriptor \<Rightarrow> bool" where
  "key_ok d \<longleftrightarrow> length (cd_minimum_key d) \<le> MAX_VALUE_LENGTH"

lemma fit_children_size:
  "sz \<le> PAGE_PAYLOAD_SIZE \<Longrightarrow>
   sz + branches_size (map branch_of (take (fit_children sz ds) ds)) \<le> PAGE_PAYLOAD_SIZE"
proof (induction sz ds rule: fit_children.induct)
  case (2 sz d ds)
  then show ?case by (auto simp: Let_def branch_of_def algebra_simps)
qed simp

lemma fit_children_two:
  "\<forall>d \<in> set ds. key_ok d \<Longrightarrow> sz + 228 \<le> PAGE_PAYLOAD_SIZE \<Longrightarrow>
   min 2 (length ds) \<le> fit_children sz ds"
proof (cases ds)
  case (Cons d es)
  assume "\<forall>d \<in> set ds. key_ok d" "sz + 228 \<le> PAGE_PAYLOAD_SIZE"
  then show ?thesis
    by (cases es) (auto simp: Cons key_ok_def MAX_VALUE_LENGTH_def Let_def)
qed simp

lemma branches_size_take:
  "n \<le> m \<Longrightarrow> branches_size (map branch_of (take n ds)) \<le> branches_size (map branch_of (take m ds))"
proof -
  assume "n \<le> m"
  then have "take m ds = take n ds @ drop n (take m ds)"
    by (metis append_take_drop_id min.absorb1 take_take)
  then show ?thesis
    by (metis branches_size_simps(3) le_add1 map_append)
qed

lemma group_size_ok:
  assumes "\<forall>d \<in> set rest. key_ok d" and "2 \<le> length rest"
  shows "2 \<le> group_size rest" "group_size rest \<le> length rest"
    "length rest - group_size rest \<noteq> 1"
    "8 + branches_size (map branch_of (tl (take (group_size rest) rest))) \<le> PAGE_PAYLOAD_SIZE"
proof -
  obtain d ds where rest: "rest = d # ds" using assms(2) by (cases rest) auto
  have two: "min 2 (length ds) \<le> fit_children 8 ds"
    using assms(1) rest by (intro fit_children_two) (auto simp: page_consts)
  have le: "fit_children 8 ds \<le> length ds" by (rule fit_children_le)
  show "2 \<le> group_size rest"
    using two assms(2) by (auto simp: group_size_def Let_def rest)
  show len: "group_size rest \<le> length rest"
    using le by (auto simp: group_size_def Let_def rest)
  show "length rest - group_size rest \<noteq> 1"
    using two le assms(2) by (auto simp: group_size_def Let_def rest split: if_splits)
  have "group_size rest - 1 \<le> fit_children 8 ds"
    by (auto simp: group_size_def Let_def rest)
  from branches_size_take [OF this, of ds] fit_children_size [of 8 ds]
  show "8 + branches_size (map branch_of (tl (take (group_size rest) rest))) \<le> PAGE_PAYLOAD_SIZE"
    by (simp add: rest take_Cons' page_consts)
qed

lemma group_payload_ok:
  assumes "\<forall>d \<in> set gs. key_ok d"
  shows "group_payload (d # gs) =
    Inr (internal_payload (cd_level d + 1) (cd_id d) (map branch_of gs))"
proof -
  have "\<forall>b \<in> set (map branch_of gs). branch_ok b"
    using assms by (auto simp: branch_of_def branch_ok_def entry_ok_def key_ok_def)
  then show ?thesis
    using set_count_eq [of "le16 (cd_level d + 1)" 2]
    by (simp add: group_payload_def append_branches_ok append_eqs internal_payload_def)
qed

section \<open>A level of parents\<close>

lemma index_forest_append:
  "index_forest pages l (is @ js) ess lvs us \<longleftrightarrow>
   (\<exists>ess1 ess2 lvs1 lvs2 us1 us2. ess = ess1 @ ess2 \<and> lvs = lvs1 @ lvs2 \<and> us = us1 @ us2 \<and>
      index_forest pages l is ess1 lvs1 us1 \<and> index_forest pages l js ess2 lvs2 us2)"
proof (induction "is" arbitrary: ess lvs us)
  case (Cons i "is")
  show ?case
  proof
    assume "index_forest pages l ((i # is) @ js) ess lvs us"
    then show "\<exists>ess1 ess2 lvs1 lvs2 us1 us2. ess = ess1 @ ess2 \<and> lvs = lvs1 @ lvs2 \<and>
        us = us1 @ us2 \<and> index_forest pages l (i # is) ess1 lvs1 us1 \<and>
        index_forest pages l js ess2 lvs2 us2"
      by (auto elim!: index_forest_ConsE simp: Cons.IH)
        (metis append_Cons append_assoc forest_cons)
  next
    assume "\<exists>ess1 ess2 lvs1 lvs2 us1 us2. ess = ess1 @ ess2 \<and> lvs = lvs1 @ lvs2 \<and>
        us = us1 @ us2 \<and> index_forest pages l (i # is) ess1 lvs1 us1 \<and>
        index_forest pages l js ess2 lvs2 us2"
    then obtain ess1 ess2 lvs1 lvs2 us1 us2 where
      eqs: "ess = ess1 @ ess2" "lvs = lvs1 @ lvs2" "us = us1 @ us2" and
      f1: "index_forest pages l (i # is) ess1 lvs1 us1" and
      f2: "index_forest pages l js ess2 lvs2 us2" by blast
    from f1 obtain es lv u ess' lvs' us' where
      p: "ess1 = es # ess'" "lvs1 = lv @ lvs'" "us1 = u @ us'" "index_tree pages i l es lv u"
        "index_forest pages l is ess' lvs' us'"
      by (auto elim: index_forest_ConsE)
    have "index_forest pages l (is @ js) (ess' @ ess2) (lvs' @ lvs2) (us' @ us2)"
      using p(5) f2 Cons.IH by blast
    from forest_cons [OF p(4) this] show "index_forest pages l ((i # is) @ js) ess lvs us"
      by (simp add: eqs p)
  qed
qed auto

lemma index_forest_pages_append:
  "index_forest pages l is ess lvs us \<Longrightarrow> index_forest (pages @ added) l is ess lvs us"
  by (rule index_tree_cong(2)) (auto simp: nth_append dest: index_tree_pages)

lemma map_branch_of:
  "length is = length ess \<Longrightarrow> map branch_of (map2 (descriptor l) is ess) = zip (map hd ess) is"
  by (induction "is" ess rule: list_induct2) (simp_all add: branch_of_def descriptor_def)

lemma descriptor_sel [simp]:
  "cd_id (descriptor l i es) = i" "cd_level (descriptor l i es) = word_of_nat l"
  "cd_minimum_key (descriptor l i es) = fst (hd es)"
  "cd_minimum_record (descriptor l i es) = snd (hd es)"
  by (simp_all add: descriptor_def)

lemma descriptors_key_ok:
  "\<forall>es \<in> set ess. es \<noteq> [] \<and> (\<forall>e \<in> set es. entry_ok e) \<Longrightarrow>
   \<forall>d \<in> set (map2 (descriptor l) is ess). key_ok d"
  by (auto simp: key_ok_def descriptor_def dest!: set_zip_rightD)
    (metis (no_types, lifting) case_prod_conv entry_ok_def list.set_sel(1) prod.collapse)

abbreviation ids_from :: "nat \<Rightarrow> nat \<Rightarrow> u32 list" where
  "ids_from k n \<equiv> map word_of_nat [k..<k + n]"

lemma ids_from_Suc: "ids_from k (Suc n) = word_of_nat k # ids_from (Suc k) n"
  by (simp add: upt_conv_Cons del: upt_Suc)

lemma build_parents_ok:
  assumes "index_forest pages l ids ress rlvs rus" and "length ids \<noteq> 1"
    and "sorted (concat ress)" and "Suc l \<le> 65535" and "length pages + length ids \<le> MAX_PAGES"
  shows "\<exists>pess pus newp.
    build_parents pages parents (map2 (descriptor l) ids ress) =
      Inr (pages @ newp,
           parents @ map2 (descriptor (Suc l)) (ids_from (length pages) (length newp)) pess) \<and>
    index_forest (pages @ newp) (Suc l) (ids_from (length pages) (length newp)) pess rlvs pus \<and>
    concat pess = concat ress \<and>
    mset pus = mset (ids_from (length pages) (length newp)) + mset rus \<and>
    2 * length newp \<le> length ids \<and>
    (\<forall>j < length newp. pid (newp ! j) = word_of_nat (length pages + j) \<and> page_ok (newp ! j))"
  using assms
proof (induction "length ids" arbitrary: pages parents ids ress rlvs rus rule: less_induct)
  case less
  let ?k = "length pages" and ?rest = "map2 (descriptor l) ids ress"
  note props = forest_lengths [OF less.prems(1)]
  show ?case
  proof (cases "ids = []")
    case True
    with less.prems(1) show ?thesis
      by (intro exI [of _ "[]"]) (simp add: build_parents.simps)
  next
    case False
    with less.prems(2) have two: "2 \<le> length ?rest"
      using props by (cases ids rule: list.exhaust) (auto simp: Suc_le_eq)
    have keys: "\<forall>d \<in> set ?rest. key_ok d" using props by (intro descriptors_key_ok) auto
    define n where "n = group_size ?rest"
    note n = group_size_ok [OF keys two, folded n_def]
    have lens: "length ?rest = length ids" using props by simp
    have "index_forest pages l (take n ids @ drop n ids) ress rlvs rus"
      using less.prems(1) by simp
    then obtain ess1 ess2 lvs1 lvs2 us1 us2 where
      eqs: "ress = ess1 @ ess2" "rlvs = lvs1 @ lvs2" "rus = us1 @ us2" and
      f1: "index_forest pages l (take n ids) ess1 lvs1 us1" and
      f2: "index_forest pages l (drop n ids) ess2 lvs2 us2"
      unfolding index_forest_append by blast
    have len1: "length ess1 = n" and len2: "length ess2 = length ids - n"
      using forest_lengths [OF f1] forest_lengths [OF f2] n(2) lens by auto
    obtain i is1 where ids1: "take n ids = i # is1"
      using n(1) False by (cases "take n ids") auto
    obtain e es1 where ess1: "ess1 = e # es1" using n(1) len1 by (cases ess1) auto
    have is1: "length is1 = length es1" using forest_lengths [OF f1] by (simp add: ids1 ess1)
    have is1n: "Suc (length is1) = n" using is1 len1 ess1 by simp
    have rest: "?rest = (descriptor l i e # map2 (descriptor l) is1 es1) @
        map2 (descriptor l) (drop n ids) ess2"
    proof -
      have "?rest = map2 (descriptor l) (take n ids @ drop n ids) (ess1 @ ess2)"
        by (simp add: eqs)
      then show ?thesis using is1 by (simp add: ids1 ess1)
    qed
    have glen: "length (descriptor l i e # map2 (descriptor l) is1 es1) = n"
      using is1 is1n by simp
    have taken: "take n ?rest = descriptor l i e # map2 (descriptor l) is1 es1"
      and dropped: "drop n ?rest = map2 (descriptor l) (drop n ids) ess2"
      by (metis rest glen append_eq_conv_conj)+
    have payload: "group_payload (take n ?rest) =
        Inr (internal_payload (word_of_nat (Suc l)) i (zip (map hd es1) is1))"
    proof -
      have "\<forall>d \<in> set (map2 (descriptor l) is1 es1). key_ok d" using keys rest by simp
      from group_payload_ok [OF this] show ?thesis
        unfolding taken map_branch_of [OF is1] by (simp add: add.commute)
    qed
    let ?pg = "Page IndexInternal (word_of_nat ?k) NO_PAGE
        (internal_payload (word_of_nat (Suc l)) i (zip (map hd es1) is1))"
    let ?P = "pages @ [?pg]"
    have size: "8 + branches_size (zip (map hd es1) is1) \<le> PAGE_PAYLOAD_SIZE"
      using n(4) unfolding taken list.sel map_branch_of [OF is1] .
    then have ok: "page_ok ?pg" by (simp add: page_ok_def length_internal_payload)
    have "length is1 \<le> 65535"
      using size branches_size_ge [of "zip (map hd es1) is1"] is1 by (simp add: page_consts)
    moreover have "?k < MAX_PAGES" using less.prems(5) two lens by linarith
    ultimately have tree: "index_tree ?P (word_of_nat ?k) (Suc l) (e @ concat es1) lvs1
        (word_of_nat ?k # us1)"
      using is1 is1n n(1) less.prems(3,4)
        index_forest_pages_append [OF f1 [unfolded ids1 ess1]]
      by (intro tree_node [where c = i and cs = is1])
        (auto simp: eqs ess1 sorted_append simp del: of_nat_Suc)
    let ?d = "descriptor (Suc l) (word_of_nat ?k) (e @ concat es1)"
    have e: "e \<noteq> []" using props by (simp add: eqs ess1)
    have P: "length ?P = Suc ?k" by simp
    have shorter: "length (drop n ids) < length ids" "length (drop n ids) \<noteq> 1"
      and sorted2: "sorted (concat ess2)"
      and bound2: "length ?P + length (drop n ids) \<le> MAX_PAGES"
      using n lens less.prems by (auto simp: eqs sorted_append)
    note IH = less.hyps [OF shorter(1) index_forest_pages_append [OF f2] shorter(2) sorted2
        less.prems(4) bound2, unfolded P]
    obtain pess pus newp where
      rec: "build_parents ?P (parents @ [?d]) (map2 (descriptor l) (drop n ids) ess2) =
        Inr (?P @ newp, (parents @ [?d]) @
          map2 (descriptor (Suc l)) (ids_from (Suc ?k) (length newp)) pess)" and
      f3: "index_forest (?P @ newp) (Suc l) (ids_from (Suc ?k) (length newp)) pess lvs2 pus" and
      c: "concat pess = concat ess2" and
      m: "mset pus = mset (ids_from (Suc ?k) (length newp)) + mset us2" and
      l: "2 * length newp \<le> length (drop n ids)" and
      p: "\<forall>j < length newp. pid (newp ! j) = word_of_nat (Suc ?k + j) \<and> page_ok (newp ! j)"
      using IH [of "parents @ [?d]"] by blast
    have "build_parents pages parents ?rest =
        build_parents ?P (parents @ [?d]) (map2 (descriptor l) (drop n ids) ess2)"
    proof -
      have "?rest \<noteq> []" "\<not> n < 2" using two n(1) by auto
      moreover have "(hd (take n ?rest))\<lparr>cd_id := word_of_nat ?k,
          cd_level := cd_level (hd (take n ?rest)) + 1\<rparr> = ?d"
        using e unfolding taken list.sel by (simp add: descriptor_def add.commute)
      ultimately show ?thesis
        by (subst build_parents.simps)
          (simp only: Let_def n_def [symmetric] if_False throw_if_False bindE_Inr payload dropped)
    qed
    also note rec
    finally have run: "build_parents pages parents ?rest = Inr (pages @ ?pg # newp,
        parents @ map2 (descriptor (Suc l)) (ids_from ?k (length (?pg # newp)))
          ((e @ concat es1) # pess))"
      by (simp only: length_Cons ids_from_Suc) simp
    have "index_forest (pages @ ?pg # newp) (Suc l) (word_of_nat ?k # ids_from (Suc ?k) (length newp))
        ((e @ concat es1) # pess) (lvs1 @ lvs2) ((word_of_nat ?k # us1) @ pus)"
      using index_tree_append [OF tree, of newp] f3 by (intro forest_cons) simp_all
    then have forest: "index_forest (pages @ ?pg # newp) (Suc l) (ids_from ?k (length (?pg # newp)))
        ((e @ concat es1) # pess) rlvs ((word_of_nat ?k # us1) @ pus)"
      by (simp only: length_Cons ids_from_Suc eqs)
    have new: "pid ((?pg # newp) ! j) = word_of_nat (?k + j) \<and> page_ok ((?pg # newp) ! j)"
      if "j < length (?pg # newp)" for j
      using that p ok by (cases j) (auto simp del: of_nat_Suc of_nat_add)
    have used: "mset ((word_of_nat ?k # us1) @ pus) = mset (ids_from ?k (length (?pg # newp))) + mset rus"
      by (simp only: length_Cons ids_from_Suc) (simp add: m eqs)
    have half: "2 * length (?pg # newp) \<le> length ids" using l n(1,2) lens by (simp; arith)
    have entries: "concat ((e @ concat es1) # pess) = concat ress" by (simp add: c eqs ess1)
    show ?thesis
      by (intro exI conjI allI impI, rule run, rule forest, rule entries, rule used, rule half)
        (use new in blast)+
  qed
qed

section \<open>The whole tree\<close>

text \<open>Pages appended from position \<open>k\<close> on: numbered by their position, with bounded payloads.\<close>

definition pages_from :: "nat \<Rightarrow> page list \<Rightarrow> bool" where
  "pages_from k ps \<longleftrightarrow> (\<forall>j < length ps. pid (ps ! j) = word_of_nat (k + j) \<and> page_ok (ps ! j))"

lemma pages_from_append:
  "pages_from k (ps @ qs) \<longleftrightarrow> pages_from k ps \<and> pages_from (k + length ps) qs"
proof
  assume a: "pages_from k (ps @ qs)"
  have "pages_from k ps"
    unfolding pages_from_def
  proof (intro allI impI)
    fix j assume "j < length ps"
    then show "pid (ps ! j) = word_of_nat (k + j) \<and> page_ok (ps ! j)"
      using a [unfolded pages_from_def, rule_format, of j] by (simp add: nth_append del: of_nat_add)
  qed
  moreover have "pages_from (k + length ps) qs"
    unfolding pages_from_def
  proof (intro allI impI)
    fix j assume "j < length qs"
    then show "pid (qs ! j) = word_of_nat (k + length ps + j) \<and> page_ok (qs ! j)"
      using a [unfolded pages_from_def, rule_format, of "length ps + j"]
      by (simp add: nth_append add.assoc del: of_nat_add)
  qed
  ultimately show "pages_from k ps \<and> pages_from (k + length ps) qs" ..
next
  assume a: "pages_from k ps \<and> pages_from (k + length ps) qs"
  show "pages_from k (ps @ qs)"
    unfolding pages_from_def
  proof (intro allI impI)
    fix j assume j: "j < length (ps @ qs)"
    show "pid ((ps @ qs) ! j) = word_of_nat (k + j) \<and> page_ok ((ps @ qs) ! j)"
    proof (cases "j < length ps")
      case True
      then show ?thesis using a by (simp add: pages_from_def nth_append del: of_nat_add)
    next
      case False
      then obtain i where "j = length ps + i" by (metis le_Suc_ex not_less)
      then show ?thesis
        using a j by (simp add: pages_from_def nth_append add.assoc del: of_nat_add)
    qed
  qed
qed

lemma build_levels_ok:
  assumes "index_forest pages l ids ess lvs us" and "ids \<noteq> []" and "sorted (concat ess)"
    and "2 ^ l * length ids \<le> MAX_PAGES" and "length pages + length ids \<le> MAX_PAGES"
  shows "\<exists>newp d l' us'. build_levels pages (map2 (descriptor l) ids ess) = Inr (pages @ newp, [d]) \<and>
    index_tree (pages @ newp) (cd_id d) l' (concat ess) lvs us' \<and>
    mset us' = mset us + mset (ids_from (length pages) (length newp)) \<and>
    length newp < length ids \<and> pages_from (length pages) newp"
  using assms
proof (induction "length ids" arbitrary: pages l ids ess us rule: less_induct)
  case less
  note lens = forest_lengths [OF less.prems(1)]
  show ?case
  proof (cases "length ids = 1")
    case True
    then obtain i where ids: "ids = [i]" by (auto simp: length_Suc_conv)
    with lens obtain es where ess: "ess = [es]" by (auto simp: length_Suc_conv)
    have "index_tree pages i l es lvs us"
      using less.prems(1) by (auto simp: ids ess elim: index_forest_ConsE)
    then show ?thesis
      by (intro exI [of _ "[]"] exI [of _ "descriptor l i es"] exI [of _ l] exI [of _ us])
        (simp add: ids ess build_levels.simps pages_from_def)
  next
    case False
    let ?k = "length pages"
    have two: "2 \<le> length ids" using False less.prems(2) by (cases ids rule: list.exhaust) (auto simp: Suc_le_eq)
    have "2 ^ l * (2 :: nat) \<le> 2 ^ l * length ids" using two by simp
    also have "\<dots> < 2 ^ 32" using less.prems(4) by (simp add: MAX_PAGES_def)
    finally have "(2 :: nat) ^ Suc l < 2 ^ 32" by simp
    then have "Suc l < 32" by (rule power_less_imp_less_exp [rotated]) simp
    then have l: "Suc l \<le> 65535" by simp
    obtain pess pus newp where
      parents: "build_parents pages [] (map2 (descriptor l) ids ess) =
        Inr (pages @ newp, map2 (descriptor (Suc l)) (ids_from ?k (length newp)) pess)" and
      forest: "index_forest (pages @ newp) (Suc l) (ids_from ?k (length newp)) pess lvs pus" and
      concat: "concat pess = concat ess" and
      used: "mset pus = mset (ids_from ?k (length newp)) + mset us" and
      half: "2 * length newp \<le> length ids" and new: "pages_from ?k newp"
      using build_parents_ok [OF less.prems(1) False less.prems(3) l less.prems(5), of "[]"]
      by (auto simp: pages_from_def)
    have "concat ess \<noteq> []" using lens less.prems(2) by (cases ess) auto
    then have ne: "newp \<noteq> []"
      using forest concat by (cases newp) (auto dest: forest_lengths)
    let ?ids = "ids_from ?k (length newp)"
    have "2 ^ Suc l * length ?ids \<le> 2 ^ l * length ids" using half by simp
    then have bound: "2 ^ Suc l * length ?ids \<le> MAX_PAGES" using less.prems(4) by linarith
    have smaller: "length ?ids < length ids" using half two by simp
    have bound2: "length (pages @ newp) + length ?ids \<le> MAX_PAGES"
      using half less.prems(5) by simp
    have "?ids \<noteq> []" "sorted (concat pess)" using ne less.prems(3) concat by simp_all
    from less.hyps [OF smaller forest this bound bound2]
    obtain newp' d l' us' where
      rec: "build_levels (pages @ newp) (map2 (descriptor (Suc l)) ?ids pess) =
        Inr ((pages @ newp) @ newp', [d])" and
      tree: "index_tree ((pages @ newp) @ newp') (cd_id d) l' (concat pess) lvs us'" and
      used': "mset us' = mset pus + mset (ids_from (length (pages @ newp)) (length newp'))" and
      len': "length newp' < length ?ids" and new': "pages_from (length (pages @ newp)) newp'"
      by blast
    have "1 < length (map2 (descriptor l) ids ess)" using two lens by simp
    then have run: "build_levels pages (map2 (descriptor l) ids ess) = Inr (pages @ newp @ newp', [d])"
      using rec by (subst build_levels.simps) (simp only: if_True parents bindE_Inr prod.case append_assoc)
    have ids: "ids_from ?k (length (newp @ newp')) = ?ids @ ids_from (length (pages @ newp)) (length newp')"
      by (simp only: length_append add.assoc [symmetric] upt_add_eq_append [OF le_add1] map_append)
    have "mset us' = mset us + mset (ids_from ?k (length (newp @ newp')))"
      unfolding ids using used used' by simp
    moreover have "pages_from ?k (newp @ newp')" using new new' by (simp add: pages_from_append)
    moreover have "length (newp @ newp') < length ids" using len' half by simp
    ultimately show ?thesis
      using run tree concat
      by (intro exI [of _ "newp @ newp'"] exI [of _ d] exI [of _ l'] exI [of _ us']) simp
  qed
qed

text \<open>Each leaf names its right neighbour in its page header and its left one in its payload.\<close>

definition leaves_linked :: "page list \<Rightarrow> u32 list \<Rightarrow> bool" where
  "leaves_linked pages lvs \<longleftrightarrow>
     (\<forall>j < length lvs.
        pnext (pages ! unat (lvs ! j)) = (if Suc j < length lvs then lvs ! Suc j else NO_PAGE) \<and>
        (\<exists>es. payload (pages ! unat (lvs ! j)) =
           leaf_payload (if j = 0 then NO_PAGE else lvs ! (j - 1)) es))"

lemma leaf_row_linked:
  assumes "length P = k" and "k + length ess \<le> MAX_PAGES"
  shows "leaves_linked (P @ leaf_row k ess (length ess) @ Q) (ids_from k (length ess))"
  unfolding leaves_linked_def
proof (intro allI impI)
  fix j assume "j < length (ids_from k (length ess))"
  then have j: "j < length ess" by simp
  have id: "ids_from k (length ess) ! i = word_of_nat (k + i)" if "i < length ess" for i
    using that by (simp del: of_nat_add)
  have page: "(P @ leaf_row k ess (length ess) @ Q) ! unat (ids_from k (length ess) ! j) =
      leaf_at k ess True j"
    using assms j by (simp add: id nth_append del: of_nat_add nth_map)
  have prev: "ids_from k (length ess) ! (j - 1) = word_of_nat (k + (j - 1))"
    using j by (intro id) simp
  have nxt: "(if Suc j < length (ids_from k (length ess)) then ids_from k (length ess) ! Suc j
      else NO_PAGE) = (if Suc j < length ess then word_of_nat (k + Suc j) else NO_PAGE)"
    by (simp del: of_nat_add)
  show "pnext ((P @ leaf_row k ess (length ess) @ Q) ! unat (ids_from k (length ess) ! j)) =
      (if Suc j < length (ids_from k (length ess)) then ids_from k (length ess) ! Suc j else NO_PAGE) \<and>
    (\<exists>es. payload ((P @ leaf_row k ess (length ess) @ Q) ! unat (ids_from k (length ess) ! j)) =
      leaf_payload (if j = 0 then NO_PAGE else ids_from k (length ess) ! (j - 1)) es)"
    unfolding page prev nxt by (auto simp: leaf_at_def)
qed

theorem build_index_ok:
  assumes "entries \<noteq> []" and "sorted entries" and "\<forall>e \<in> set entries. entry_ok e"
    and bound: "length pages + 2 * length entries \<le> MAX_PAGES"
  shows "\<exists>newp root l lvs us. build_index pages entries = Inr (pages @ newp, root) \<and>
    index_tree (pages @ newp) root l entries lvs us \<and>
    mset us = mset (ids_from (length pages) (length newp)) \<and>
    leaves_linked (pages @ newp) lvs \<and> pages_from (length pages) newp \<and>
    length newp < 2 * length entries"
proof -
  let ?k = "length pages"
  obtain ess where
    leaves: "build_leaves pages [] [] entries = Inr (pages @ leaf_row ?k ess 0,
      map2 (descriptor 0) (ids_from ?k (length ess)) ess, [?k..<?k + length ess])" and
    concat: "concat ess = entries" and
    sz: "\<forall>es \<in> set ess. es \<noteq> [] \<and> 8 + entries_size es \<le> PAGE_PAYLOAD_SIZE"
    using build_leaves_ok [OF assms(3), of pages "[]" "[]"] by auto
  have few: "length ess \<le> length entries"
  proof -
    have "length xss \<le> length (concat xss)" if "\<forall>xs \<in> set xss. xs \<noteq> []" for xss :: "entry list list"
      using that by (induction xss) (auto simp: Suc_le_eq add_strict_increasing)
    then show ?thesis using sz concat by blast
  qed
  have ne: "ids_from ?k (length ess) \<noteq> []" using concat assms(1) by auto
  let ?row = "leaf_row ?k ess (length ess)" and ?ids = "ids_from ?k (length ess)"
  have linked: "link_leaves (pages @ leaf_row ?k ess 0) [?k..<?k + length ess] = pages @ ?row"
    by (rule link_leaves_ok) simp
  have forest: "index_forest (pages @ ?row) 0 ?ids ess ?ids ?ids"
    using few bound assms(2,3) sz concat by (intro leaf_row_forest) auto
  have room: "length (pages @ ?row) + length ?ids \<le> MAX_PAGES" using few bound by simp
  then have "2 ^ 0 * length ?ids \<le> MAX_PAGES" by simp
  with build_levels_ok [OF forest ne _ this room] assms(2) concat
  obtain newp d l us where
    levels: "build_levels (pages @ ?row) (map2 (descriptor 0) ?ids ess) =
      Inr ((pages @ ?row) @ newp, [d])" and
    tree: "index_tree ((pages @ ?row) @ newp) (cd_id d) l (concat ess) ?ids us" and
    used: "mset us = mset ?ids + mset (ids_from (length (pages @ ?row)) (length newp))" and
    len: "length newp < length ?ids" and new: "pages_from (length (pages @ ?row)) newp"
    by metis
  have run: "build_index pages entries = Inr (pages @ ?row @ newp, cd_id d)"
    using assms(1) by (simp add: build_index_def leaves linked levels)
  have "ids_from ?k (length (?row @ newp)) = ?ids @ ids_from (length (pages @ ?row)) (length newp)"
    by (simp only: length_append length_leaf_row add.assoc [symmetric] upt_add_eq_append [OF le_add1]
        map_append)
  then have us: "mset us = mset (ids_from ?k (length (?row @ newp)))" using used by simp
  have "pages_from ?k ?row"
    using sz by (auto simp: pages_from_def leaf_at_def page_ok_def length_leaf_payload simp del: of_nat_add)
  then have "pages_from ?k (?row @ newp)" using new by (simp add: pages_from_append)
  moreover have "leaves_linked (pages @ ?row @ newp) ?ids"
    using few bound by (intro leaf_row_linked) auto
  moreover have "length (?row @ newp) < 2 * length entries" using len few by simp
  ultimately show ?thesis
    using run tree us concat
    by (intro exI [of _ "?row @ newp"] exI [of _ "cd_id d"] exI [of _ l] exI [of _ ?ids] exI [of _ us])
      simp
qed

end
