(* ===== verification/Image_Build.thy ===== *)
theory Image_Build
  imports Index_Build
begin

text \<open>
  Building a database image from a table: \<open>validate_schema\<close>, \<open>build_image\<close> and \<open>encode_pages\<close>
  of \<open>storage_v2.cpp\<close>. The image is a superblock, a chain of schema pages, a chain of row pages,
  one index-directory page and one bulk-loaded B+ tree for each field.
\<close>

section \<open>Schema validation\<close>

definition check_field :: "string set \<Rightarrow> string \<Rightarrow> string set res" where
  "check_field unique field =
     (if field = [] \<or> length field > MAX_VALUE_LENGTH
      then Inl (Invalid_Argument ''Field names must be between 1 and 100 bytes'')
      else if field \<in> unique then Inl (Invalid_Argument (''Duplicate field name: '' @ field))
      else Inr (insert field unique))"

definition check_value :: "unit \<Rightarrow> string \<Rightarrow> unit res" where
  "check_value _ v =
     throw_if (length v > MAX_VALUE_LENGTH) (Length_Error ''Values must not exceed 100 bytes'')"

definition check_row :: "string list \<Rightarrow> unit \<Rightarrow> string list \<Rightarrow> unit res" where
  "check_row flds _ row =
     bindE (throw_if (length row \<noteq> length flds)
       (Invalid_Argument ''Stored row field count does not match schema'')) (\<lambda>_.
     foldE check_value () row)"

definition validate_schema :: "string list \<Rightarrow> string list list \<Rightarrow> unit res" where
  "validate_schema flds rows =
     bindE (throw_if (flds = [] \<or> length flds > MAX_FIELDS)
       (Invalid_Argument ''A table must have between 1 and 64 fields'')) (\<lambda>_.
     bindE (foldE check_field {} flds) (\<lambda>_.
     foldE (check_row flds) () rows))"

definition fields_ok :: "string list \<Rightarrow> bool" where
  "fields_ok flds \<longleftrightarrow> flds \<noteq> [] \<and> length flds \<le> MAX_FIELDS \<and> distinct flds \<and>
     (\<forall>f \<in> set flds. f \<noteq> [] \<and> length f \<le> MAX_VALUE_LENGTH)"

definition row_fits :: "string list \<Rightarrow> string list \<Rightarrow> bool" where
  "row_fits flds row \<longleftrightarrow> length row = length flds \<and> (\<forall>v \<in> set row. length v \<le> MAX_VALUE_LENGTH)"

definition table_ok :: "string list \<Rightarrow> string list list \<Rightarrow> bool" where
  "table_ok flds rows \<longleftrightarrow> fields_ok flds \<and> (\<forall>row \<in> set rows. row_fits flds row)"

lemma check_fields_iff:
  "foldE check_field unique flds = Inr unique' \<longleftrightarrow>
   distinct flds \<and> set flds \<inter> unique = {} \<and> unique' = set flds \<union> unique \<and>
   (\<forall>f \<in> set flds. f \<noteq> [] \<and> length f \<le> MAX_VALUE_LENGTH)"
  by (induction flds arbitrary: unique) (auto simp: run_inv check_field_def split: if_splits)

lemma check_values_iff:
  "foldE check_value () row = Inr () \<longleftrightarrow> (\<forall>v \<in> set row. length v \<le> MAX_VALUE_LENGTH)"
  by (induction row) (auto simp: run_inv check_value_def)

lemma check_rows_iff:
  "foldE (check_row flds) () rows = Inr () \<longleftrightarrow> (\<forall>row \<in> set rows. row_fits flds row)"
  by (induction rows) (auto simp: run_inv check_row_def check_values_iff row_fits_def)

lemma validate_schema_iff: "validate_schema flds rows = Inr () \<longleftrightarrow> table_ok flds rows"
  by (auto simp: validate_schema_def run_inv check_fields_iff check_rows_iff table_ok_def fields_ok_def)

section \<open>Building the image\<close>

definition schema_stream :: "string list \<Rightarrow> bytes res" where
  "schema_stream flds = foldE append_string (append_u32 [] (word_of_nat (length flds))) flds"

definition append_row :: "bytes \<Rightarrow> string list \<Rightarrow> bytes res" where
  "append_row out row = foldE append_string (append_u32 out (word_of_nat (length row))) row"

definition row_stream :: "string list list \<Rightarrow> bytes res" where
  "row_stream rows = foldE append_row (append_u64 [] (word_of_nat (length rows))) rows"

text \<open>
  The sorted entries of one field. The pairs are distinct, so the unstable \<open>std::sort\<close> has one
  possible result, the sorted list.
\<close>

definition field_entries :: "string list list \<Rightarrow> nat \<Rightarrow> entry list" where
  "field_entries rows field =
     sort (map (\<lambda>row. (rows ! row ! field, word_of_nat row)) [0..<length rows])"

definition build_field_index ::
  "string list list \<Rightarrow> page list \<times> u32 list \<Rightarrow> nat \<Rightarrow> (page list \<times> u32 list) res" where
  "build_field_index rows = (\<lambda>(pages, roots) field.
     bindE (build_index pages (field_entries rows field)) (\<lambda>(pages, root).
     Inr (pages, roots @ [root])))"

definition directory_payload :: "u32 list \<Rightarrow> bytes" where
  "directory_payload roots = foldl append_u32 (append_u32 [] (word_of_nat (length roots))) roots"

record superblock =
  sb_generation :: u64
  sb_page_count :: u32
  sb_schema_head :: u32
  sb_rows_head :: u32
  sb_index_directory_head :: u32
  sb_free_head :: u32
  sb_field_count :: u32
  sb_row_count :: u64

definition superblock_payload :: "superblock \<Rightarrow> bytes" where
  "superblock_payload sb =
     (let out = append_u64 [] (sb_generation sb);
          out = append_u32 out (word_of_nat PAGE_SIZE);
          out = append_u32 out (sb_page_count sb);
          out = append_u32 out (sb_schema_head sb);
          out = append_u32 out (sb_rows_head sb);
          out = append_u32 out (sb_index_directory_head sb);
          out = append_u32 out (sb_free_head sb);
          out = append_u32 out (sb_field_count sb)
      in append_u64 out (sb_row_count sb))"

definition encode_pages :: "page list \<Rightarrow> bytes res" where
  "encode_pages pages =
     foldE (\<lambda>image page. bindE (encode_page page) (\<lambda>encoded. Inr (image @ encoded))) [] pages"

definition build_pages :: "string list \<Rightarrow> string list list \<Rightarrow> u64 \<Rightarrow> page list res" where
  "build_pages flds rows generation =
     bindE (validate_schema flds rows) (\<lambda>_.
     bindE (schema_stream flds) (\<lambda>schema.
     let (pages, schema_head) = add_chain [Page Superblock 0 NO_PAGE []] Schema schema in
     bindE (row_stream rows) (\<lambda>row_bytes.
     let (pages, rows_head) = add_chain pages Rows row_bytes;
         directory_position = length pages;
         directory_head = word_of_nat (length pages);
         pages = pages @ [Page IndexDirectory directory_head NO_PAGE []] in
     bindE (foldE (build_field_index rows) (pages, []) [0..<length flds]) (\<lambda>(pages, roots).
     let pages = pages[directory_position :=
           (pages ! directory_position)\<lparr>payload := directory_payload roots\<rparr>];
         sb = superblock_payload
           \<lparr>sb_generation = generation, sb_page_count = word_of_nat (length pages),
            sb_schema_head = schema_head, sb_rows_head = rows_head,
            sb_index_directory_head = directory_head, sb_free_head = NO_PAGE,
            sb_field_count = word_of_nat (length flds), sb_row_count = word_of_nat (length rows)\<rparr>
     in Inr (pages[0 := (pages ! 0)\<lparr>payload := sb\<rparr>])))))"

definition build_image :: "string list \<Rightarrow> string list list \<Rightarrow> u64 \<Rightarrow> bytes res" where
  "build_image flds rows generation =
     bindE (build_pages flds rows generation) encode_pages"

section \<open>The streams in closed form\<close>

definition schema_bytes :: "string list \<Rightarrow> bytes" where
  "schema_bytes flds = le32 (word_of_nat (length flds)) @ concat (map lestr flds)"

definition le_row :: "u32 \<Rightarrow> string list \<Rightarrow> bytes" where
  "le_row n row = le32 n @ concat (map lestr row)"

definition row_bytes :: "u32 \<Rightarrow> string list list \<Rightarrow> bytes" where
  "row_bytes n rows = le64 (word_of_nat (length rows)) @ concat (map (le_row n) rows)"

lemma append_strings_ok:
  "\<forall>s \<in> set ss. length s \<le> MAX_VALUE_LENGTH \<Longrightarrow>
   foldE append_string out ss = Inr (out @ concat (map lestr ss))"
  by (induction ss arbitrary: out) (auto simp: append_string_eq)

lemma schema_stream_ok: "fields_ok flds \<Longrightarrow> schema_stream flds = Inr (schema_bytes flds)"
  by (simp add: schema_stream_def fields_ok_def append_strings_ok append_eqs schema_bytes_def)

lemma append_rows_ok:
  "\<forall>row \<in> set rows. row_fits flds row \<Longrightarrow>
   foldE append_row out rows = Inr (out @ concat (map (le_row (word_of_nat (length flds))) rows))"
  by (induction rows arbitrary: out)
    (auto simp: append_row_def append_strings_ok append_eqs row_fits_def le_row_def)

lemma row_stream_ok:
  "\<forall>row \<in> set rows. row_fits flds row \<Longrightarrow>
   row_stream rows = Inr (row_bytes (word_of_nat (length flds)) rows)"
  by (simp add: row_stream_def append_rows_ok append_eqs row_bytes_def)

lemma directory_payload_eq:
  "directory_payload roots = le32 (word_of_nat (length roots)) @ concat (map le32 roots)"
proof -
  have "foldl append_u32 out rs = out @ concat (map le32 rs)" for out rs
    by (induction rs arbitrary: out) (simp_all add: append_u32_eq)
  then show ?thesis by (simp add: directory_payload_def append_u32_eq)
qed

lemma superblock_payload_eq:
  "superblock_payload sb = le64 (sb_generation sb) @ le32 (word_of_nat PAGE_SIZE) @
     le32 (sb_page_count sb) @ le32 (sb_schema_head sb) @ le32 (sb_rows_head sb) @
     le32 (sb_index_directory_head sb) @ le32 (sb_free_head sb) @ le32 (sb_field_count sb) @
     le64 (sb_row_count sb)"
  by (simp add: superblock_payload_def append_eqs)

lemma encode_pages_iff:
  "encode_pages pages = Inr img \<longleftrightarrow>
   (\<forall>p \<in> set pages. page_ok p) \<and> img = concat (map page_bytes pages)"
proof -
  have "foldE (\<lambda>image page. bindE (encode_page page) (\<lambda>encoded. Inr (image @ encoded))) out pages =
      Inr img \<longleftrightarrow> (\<forall>p \<in> set pages. page_ok p) \<and> img = out @ concat (map page_bytes pages)" for out
    by (induction pages arbitrary: out) (auto simp: run_inv encode_page_Inr)
  then show ?thesis by (simp add: encode_pages_def)
qed

section \<open>Sorted entries\<close>

lemma field_entries_props:
  "sorted (field_entries rows field)" "length (field_entries rows field) = length rows"
  by (simp_all add: field_entries_def)

lemma set_field_entries:
  "set (field_entries rows field) = (\<lambda>row. (rows ! row ! field, word_of_nat row)) ` {..<length rows}"
  by (auto simp: field_entries_def atLeast0LessThan)

lemma field_entries_Nil [simp]: "field_entries rows field = [] \<longleftrightarrow> rows = []"
  using field_entries_props(2) [of rows field] by (metis length_0_conv)

lemma field_entries_ok:
  assumes "\<forall>row \<in> set rows. row_fits flds row" and "field < length flds"
  shows "\<forall>e \<in> set (field_entries rows field). entry_ok e"
proof
  fix e assume "e \<in> set (field_entries rows field)"
  then obtain r where r: "r < length rows" "e = (rows ! r ! field, word_of_nat r)"
    by (auto simp: set_field_entries)
  with assms have "row_fits flds (rows ! r)" by simp
  then have "rows ! r ! field \<in> set (rows ! r)" using assms(2) by (simp add: row_fits_def)
  with \<open>row_fits flds (rows ! r)\<close> show "entry_ok e" by (simp add: r entry_ok_def row_fits_def)
qed

end
