(* ===== verification/Image_Parse.thy ===== *)
theory Image_Parse
  imports Image_Build
begin

text \<open>
  \<open>parse_image\<close> of \<open>storage_v2.cpp\<close>: the validation every open performs on a whole database
  image. The lemmas characterise what it accepts: an image that parses is the encoding of a page
  list whose chains spell the schema, the rows and the index directory, whose pages are each owned
  by one structure, and whose index for each field is exactly the sorted list of the field's
  entries. The image built from a table is one of these.
\<close>

record inspection =
  in_format_version :: u16
  in_generation :: u64
  in_page_count :: u32
  in_row_count :: u64
  in_field_count :: u32
  in_index_roots :: "u32 list"
  in_wal_present :: bool

record loaded_table =
  lt_fields :: "string list"
  lt_rows :: "string list list"
  lt_indexes :: "entry list list"
  lt_inspection :: inspection

section \<open>Pages and superblock\<close>

definition parse_page :: "bytes \<Rightarrow> page list \<Rightarrow> nat \<Rightarrow> page list res" where
  "parse_page img pages i =
     bindE (decode_page (take PAGE_SIZE (drop (i * PAGE_SIZE) img)) (word_of_nat i))
       (\<lambda>page. Inr (pages @ [page]))"

definition parse_pages :: "bytes \<Rightarrow> page list res" where
  "parse_pages img =
     (if img = [] \<or> length img mod PAGE_SIZE \<noteq> 0
      then Inl (corruption ''database file is not a complete page image'')
      else if length img div PAGE_SIZE > 2 ^ 32 - 1
      then Inl (corruption ''database contains too many pages'')
      else foldE (parse_page img) [] [0..<length img div PAGE_SIZE])"

definition parse_superblock :: "page list \<Rightarrow> superblock res" where
  "parse_superblock pages =
     bindE (throw_if (ptype (pages ! 0) \<noteq> Superblock \<or> pnext (pages ! 0) \<noteq> NO_PAGE)
       (corruption ''page zero is not a standalone superblock'')) (\<lambda>_.
     bindE (reader_u64 (Reader (payload (pages ! 0)) ''superblock'')) (\<lambda>(generation, r).
     bindE (reader_u32 r) (\<lambda>(page_size, r).
     bindE (throw_if (page_size \<noteq> word_of_nat PAGE_SIZE)
       (corruption ''superblock page size is invalid'')) (\<lambda>_.
     bindE (reader_u32 r) (\<lambda>(page_count, r).
     bindE (reader_u32 r) (\<lambda>(schema_head, r).
     bindE (reader_u32 r) (\<lambda>(rows_head, r).
     bindE (reader_u32 r) (\<lambda>(directory_head, r).
     bindE (reader_u32 r) (\<lambda>(free_head, r).
     bindE (reader_u32 r) (\<lambda>(field_count, r).
     bindE (reader_u64 r) (\<lambda>(row_count, r).
     bindE (throw_if (reader_remaining r \<noteq> 0) (corruption ''superblock has trailing bytes'')) (\<lambda>_.
     bindE (throw_if (unat page_count \<noteq> length pages)
       (corruption ''superblock page count is invalid'')) (\<lambda>_.
     bindE (throw_if (free_head \<noteq> NO_PAGE)
       (corruption ''unsupported non-empty free-page list'')) (\<lambda>_.
     bindE (throw_if (field_count = 0 \<or> unat field_count > MAX_FIELDS)
       (corruption ''superblock field count is invalid'')) (\<lambda>_.
     Inr \<lparr>sb_generation = generation, sb_page_count = page_count, sb_schema_head = schema_head,
          sb_rows_head = rows_head, sb_index_directory_head = directory_head,
          sb_free_head = free_head, sb_field_count = field_count,
          sb_row_count = row_count\<rparr>)))))))))))))))"

section \<open>Schema, rows and directory\<close>

definition parse_schema :: "u32 \<Rightarrow> bytes \<Rightarrow> string list res" where
  "parse_schema field_count stream =
     bindE (reader_u32 (Reader stream ''schema'')) (\<lambda>(n, r).
     bindE (throw_if (n \<noteq> field_count) (corruption ''schema field count mismatch'')) (\<lambda>_.
     bindE (read_many reader_string (unat field_count) r) (\<lambda>(flds, r).
     bindE (throw_if (reader_remaining r \<noteq> 0) (corruption ''schema has trailing bytes'')) (\<lambda>_.
     bindE (throw_if (card (set flds) \<noteq> length flds \<or> [] \<in> set flds)
       (corruption ''schema contains empty or duplicate fields'')) (\<lambda>_.
     Inr flds)))))"

definition read_row :: "u32 \<Rightarrow> reader \<Rightarrow> (string list \<times> reader) res" where
  "read_row field_count r =
     bindE (reader_u32 r) (\<lambda>(n, r).
     bindE (throw_if (n \<noteq> field_count) (corruption ''stored row field count mismatch'')) (\<lambda>_.
     read_many reader_string (unat field_count) r))"

text \<open>
  \<open>rows.reserve(row_count)\<close> comes before any row is read. Above \<open>vector::max_size()\<close> (\<open>PTRDIFF_MAX\<close>
  divided by the 24 bytes of a \<open>std::vector\<close> object) it throws \<open>std::length_error\<close>; below, it throws
  \<open>std::bad_alloc\<close> when the allocator has no room for that many row objects. \<open>grants n\<close> says whether it has
  room for \<open>n\<close>. It is the one allocation whose size is a number read from the file and checked against
  nothing but the same number in the row stream; that the others succeed is assumed.
\<close>

definition ROW_VECTOR_MAX :: nat where "ROW_VECTOR_MAX = (2 ^ 63 - 1) div 24"

definition parse_rows_alloc :: "(nat \<Rightarrow> bool) \<Rightarrow> u32 \<Rightarrow> u64 \<Rightarrow> bytes \<Rightarrow> string list list res" where
  "parse_rows_alloc grants field_count row_count stream =
     bindE (reader_u64 (Reader stream ''row stream'')) (\<lambda>(n, r).
     bindE (throw_if (n \<noteq> row_count) (corruption ''row count mismatch'')) (\<lambda>_.
     bindE (throw_if (unat row_count > 2 ^ 64 - 1)
       (corruption ''row count exceeds addressable memory'')) (\<lambda>_.
     bindE (throw_if (unat row_count > ROW_VECTOR_MAX) (Length_Error ''vector::reserve'')) (\<lambda>_.
     bindE (throw_if (\<not> grants (unat row_count)) Bad_Alloc) (\<lambda>_.
     bindE (read_many (read_row field_count) (unat row_count) r) (\<lambda>(rows, r).
     bindE (throw_if (reader_remaining r \<noteq> 0) (corruption ''row stream has trailing bytes'')) (\<lambda>_.
     Inr rows)))))))"

text \<open>With room for every vector.\<close>

definition parse_rows :: "u32 \<Rightarrow> u64 \<Rightarrow> bytes \<Rightarrow> string list list res" where
  "parse_rows = parse_rows_alloc (\<lambda>_. True)"

definition parse_directory :: "u32 \<Rightarrow> bytes \<Rightarrow> u32 list res" where
  "parse_directory field_count stream =
     bindE (reader_u32 (Reader stream ''index directory'')) (\<lambda>(n, r).
     bindE (throw_if (n \<noteq> field_count)
       (corruption ''index directory field count mismatch'')) (\<lambda>_.
     bindE (read_many reader_u32 (unat field_count) r) (\<lambda>(roots, r).
     bindE (throw_if (reader_remaining r \<noteq> 0)
       (corruption ''index directory has trailing bytes'')) (\<lambda>_.
     Inr roots))))"

section \<open>Indexes\<close>

definition check_leaf :: "page list \<Rightarrow> u32 list \<Rightarrow> unit \<Rightarrow> nat \<Rightarrow> unit res" where
  "check_leaf pages leaves _ leaf =
     (let page = pages ! unat (leaves ! leaf) in
      bindE (reader_u16 (Reader (payload page) ''index leaf'')) (\<lambda>(_, r).
      bindE (reader_u32 r) (\<lambda>(previous, r).
        let expected_previous = (if leaf = 0 then NO_PAGE else leaves ! (leaf - 1));
            expected_next = (if leaf + 1 < length leaves then leaves ! (leaf + 1) else NO_PAGE)
        in throw_if (previous \<noteq> expected_previous \<or> pnext page \<noteq> expected_next)
             (corruption ''index leaf sibling chain is invalid''))))"

definition check_entry ::
  "string list list \<Rightarrow> nat \<Rightarrow> bool list \<Rightarrow> entry \<Rightarrow> bool list res" where
  "check_entry rows field seen e =
     (if unat (snd e) \<ge> length rows
      then Inl (corruption ''index record identifier is out of range'')
      else if seen ! unat (snd e)
      then Inl (corruption ''index record identifier is duplicated'')
      else if fst e \<noteq> rows ! unat (snd e) ! field
      then Inl (corruption ''index key does not match stored row'')
      else Inr (seen[unat (snd e) := True]))"

definition parse_index ::
  "page list \<Rightarrow> string list list \<Rightarrow> u32 list \<Rightarrow> entry list list \<times> u32 set \<Rightarrow> nat \<Rightarrow>
   (entry list list \<times> u32 set) res" where
  "parse_index pages rows roots = (\<lambda>(indexes, owned) field.
     if roots ! field = NO_PAGE then
       bindE (throw_if (rows \<noteq> []) (corruption ''non-empty table has an empty index root'')) (\<lambda>_.
       Inr (indexes @ [[]], owned))
     else
       bindE (validate_index_node pages (roots ! field) owned {}) (\<lambda>(node, owned).
       bindE (throw_if (length (vn_entries node) \<noteq> length rows)
         (corruption ''index entry count mismatch'')) (\<lambda>_.
       bindE (foldE (check_leaf pages (vn_leaves node)) () [0..<length (vn_leaves node)]) (\<lambda>_.
       bindE (foldE (check_entry rows field) (replicate (length rows) False) (vn_entries node)) (\<lambda>_.
       Inr (indexes @ [vn_entries node], owned))))))"

section \<open>The whole image\<close>

definition parse_image_alloc ::
  "(nat \<Rightarrow> bool) \<Rightarrow> bytes \<Rightarrow> bool \<Rightarrow> (loaded_table \<times> page list) res" where
  "parse_image_alloc grants img wal_present =
     bindE (parse_pages img) (\<lambda>pages.
     bindE (parse_superblock pages) (\<lambda>super.
     bindE (read_chain pages (sb_schema_head super) Schema {0}) (\<lambda>(stream, owned).
     bindE (parse_schema (sb_field_count super) stream) (\<lambda>flds.
     bindE (read_chain pages (sb_rows_head super) Rows owned) (\<lambda>(stream, owned).
     bindE (parse_rows_alloc grants (sb_field_count super) (sb_row_count super) stream) (\<lambda>rows.
     bindE (read_chain pages (sb_index_directory_head super) IndexDirectory owned)
       (\<lambda>(stream, owned).
     bindE (parse_directory (sb_field_count super) stream) (\<lambda>roots.
     bindE (foldE (parse_index pages rows roots) ([], owned) [0..<length flds])
       (\<lambda>(indexes, owned).
     bindE (throw_if (card owned \<noteq> length pages)
       (corruption ''database contains unreferenced pages'')) (\<lambda>_.
     Inr (\<lparr>lt_fields = flds, lt_rows = rows, lt_indexes = indexes,
           lt_inspection =
             \<lparr>in_format_version = FORMAT_VERSION, in_generation = sb_generation super,
              in_page_count = sb_page_count super, in_row_count = sb_row_count super,
              in_field_count = sb_field_count super, in_index_roots = roots,
              in_wal_present = wal_present\<rparr>\<rparr>, pages)))))))))))"

text \<open>
  The operations of the storage layer parse with room for every vector. \<open>parse_image_alloc_iff\<close> and
  \<open>parse_image_alloc_error\<close> (theory \<open>Image_Roundtrip\<close>) say how a scarce allocator changes the result.
\<close>

definition parse_image :: "bytes \<Rightarrow> bool \<Rightarrow> (loaded_table \<times> page list) res" where
  "parse_image = parse_image_alloc (\<lambda>_. True)"

lemmas parse_rows_eq = parse_rows_alloc_def [of "\<lambda>_. True", folded parse_rows_def, simplified]

lemmas parse_image_eq = parse_image_alloc_def [of "\<lambda>_. True", folded parse_image_def parse_rows_def]

section \<open>What the parts accept\<close>

lemma parse_page_collect:
  "parse_page img = (\<lambda>out i. bindE (decode_page (take PAGE_SIZE (drop (i * PAGE_SIZE) img)) (word_of_nat i))
     (\<lambda>x. Inr (out @ [x])))"
  by (intro ext) (simp add: parse_page_def)

lemma length_concat_page_bytes:
  "\<forall>p \<in> set pages. page_ok p \<Longrightarrow> length (concat (map page_bytes pages)) = PAGE_SIZE * length pages"
  by (rule concat_eq_length [of "map page_bytes pages" PAGE_SIZE, unfolded length_map])
    (auto simp: length_page_bytes)

lemma block_concat_page_bytes:
  "\<forall>p \<in> set pages. page_ok p \<Longrightarrow> i < length pages \<Longrightarrow>
   take PAGE_SIZE (drop (i * PAGE_SIZE) (concat (map page_bytes pages))) = page_bytes (pages ! i)"
  by (subst nth_block_concat) (auto simp: length_page_bytes)

lemma split_blocks:
  "length xs = n * k \<Longrightarrow> concat (map (\<lambda>i. take n (drop (i * n) xs)) [0..<k]) = xs"
proof (induction k arbitrary: xs)
  case (Suc k)
  have "map (\<lambda>i. take n (drop (i * n) xs)) [0..<Suc k] =
      take n xs # map (\<lambda>i. take n (drop (i * n) (drop n xs))) [0..<k]"
    by (subst map_upt_Suc) (simp add: add.commute)
  moreover have "length (drop n xs) = n * k" using Suc.prems by simp
  ultimately show ?case using Suc.IH [of "drop n xs"] by simp
qed simp

lemma parse_pages_iff:
  "parse_pages img = Inr pages \<longleftrightarrow>
   pages \<noteq> [] \<and> length pages \<le> MAX_PAGES \<and> pages_from 0 pages \<and> encode_pages pages = Inr img"
  (is "?L \<longleftrightarrow> ?R")
proof
  assume L: ?L
  then have img: "img \<noteq> []" "length img mod PAGE_SIZE = 0" "length img div PAGE_SIZE \<le> MAX_PAGES"
    by (auto simp: parse_pages_def MAX_PAGES_def split: if_splits)
  define n where "n = length img div PAGE_SIZE"
  have len: "length img = PAGE_SIZE * n" using img(2) by (auto simp: n_def)
  from L have pages: "length pages = n"
    "\<forall>i < n. decode_page (take PAGE_SIZE (drop (i * PAGE_SIZE) img)) (word_of_nat i) = Inr (pages ! i)"
    by (auto simp: parse_pages_def parse_page_collect foldE_collect_upt n_def split: if_splits)
  have block: "pid (pages ! i) = word_of_nat i \<and> page_ok (pages ! i) \<and>
      take PAGE_SIZE (drop (i * PAGE_SIZE) img) = page_bytes (pages ! i)" if "i < n" for i
  proof -
    have "length (take PAGE_SIZE (drop (i * PAGE_SIZE) img)) = PAGE_SIZE"
    proof -
      have "Suc i * PAGE_SIZE \<le> n * PAGE_SIZE" using that by (intro mult_le_mono) auto
      then show ?thesis by (simp add: len mult.commute [of n])
    qed
    from decode_page_iff [OF this] pages(2) that show ?thesis by blast
  qed
  have "map (\<lambda>i. take PAGE_SIZE (drop (i * PAGE_SIZE) img)) [0..<n] = map page_bytes pages"
    using block pages(1) by (intro nth_equalityI) auto
  then have "img = concat (map page_bytes pages)" using split_blocks [OF len] by simp
  moreover have "\<forall>p \<in> set pages. page_ok p" using block pages(1) by (metis in_set_conv_nth)
  ultimately have "encode_pages pages = Inr img" by (simp add: encode_pages_iff)
  moreover have "pages \<noteq> []" using img(1) len pages(1) by auto
  moreover have "length pages \<le> MAX_PAGES" using img(3) pages(1) by (simp add: n_def)
  moreover have "pages_from 0 pages" using block pages(1) by (simp add: pages_from_def)
  ultimately show ?R by blast
next
  assume R: ?R
  then have ok: "\<forall>p \<in> set pages. page_ok p" and img: "img = concat (map page_bytes pages)"
    by (auto simp: encode_pages_iff)
  have len: "length img = PAGE_SIZE * length pages" using length_concat_page_bytes [OF ok] img by simp
  then have "length img div PAGE_SIZE = length pages" "img \<noteq> []" "length img mod PAGE_SIZE = 0"
    using R by (auto simp: PAGE_SIZE_def)
  moreover have "decode_page (take PAGE_SIZE (drop (i * PAGE_SIZE) img)) (word_of_nat i) = Inr (pages ! i)"
    if "i < length pages" for i
    using that ok R block_concat_page_bytes [OF ok that]
    by (subst decode_page_iff) (auto simp: img length_page_bytes pages_from_def)
  ultimately show ?L
    using R by (simp add: parse_pages_def parse_page_collect foldE_collect_upt MAX_PAGES_def)
qed

lemma parse_superblock_iff:
  "parse_superblock pages = Inr sb \<longleftrightarrow>
   ptype (pages ! 0) = Superblock \<and> pnext (pages ! 0) = NO_PAGE \<and>
   payload (pages ! 0) = superblock_payload sb \<and> unat (sb_page_count sb) = length pages \<and>
   sb_free_head sb = NO_PAGE \<and> sb_field_count sb \<noteq> 0 \<and> unat (sb_field_count sb) \<le> MAX_FIELDS"
  unfolding parse_superblock_def
  by (cases sb) (auto simp: superblock_payload_eq bindE_eq_Inr [of "throw_if _ _"] throw_if_eq_Inr not_less
      c64.bind_iff c32.bind_iff)

lemma card_set_eq: "card (set xs) = length xs \<longleftrightarrow> distinct xs"
  using card_distinct distinct_card by blast

lemma parse_schema_iff:
  "parse_schema n bs = Inr flds \<longleftrightarrow>
   bs = le32 n @ concat (map lestr flds) \<and> length flds = unat n \<and>
   (\<forall>f \<in> set flds. f \<noteq> [] \<and> length f \<le> MAX_VALUE_LENGTH) \<and> distinct flds"
  unfolding parse_schema_def
  by (auto simp: bindE_eq_Inr [of "throw_if _ _"] throw_if_eq_Inr card_set_eq
      cstr.many_bind_iff c32.bind_iff)

lemma parse_directory_iff:
  "parse_directory n bs = Inr roots \<longleftrightarrow>
   bs = le32 n @ concat (map le32 roots) \<and> length roots = unat n"
  unfolding parse_directory_def
  by (auto simp: bindE_eq_Inr [of "throw_if _ _"] throw_if_eq_Inr c32.many_bind_iff c32.bind_iff)

text \<open>A stored row, as a codec of its own.\<close>

definition row_ok :: "u32 \<Rightarrow> string list \<Rightarrow> bool" where
  "row_ok n row \<longleftrightarrow> length row = unat n \<and> (\<forall>v \<in> set row. length v \<le> MAX_VALUE_LENGTH)"

interpretation crow: stream_codec "read_row n" "le_row n" "row_ok n" for n
proof (unfold_locales, goal_cases)
  case (1 row r rest)
  have head: "reader_u32 r = Inr (n, advance 4 r)"
    using 1(2) by (subst c32.read_back) (auto simp: le_row_def)
  have "read_many reader_string (length row) (advance 4 r) =
      Inr (row, advance (length (concat (map lestr row))) (advance 4 r))"
    using 1 by (intro cstr.many_back [where rest = rest]) (auto simp: row_ok_def le_row_def)
  then show ?case using 1 by (simp add: read_row_def head row_ok_def le_row_def)
next
  case (2 r row r')
  then obtain r1 where head: "reader_u32 r = Inr (n, r1)"
    and row: "read_many reader_string (unat n) r1 = Inr (row, r')"
    by (auto simp: read_row_def run_inv split: prod.splits)
  have a: "unread r = le32 n @ unread r1" "r1 = advance (length (le32 n)) r"
    using c32.accepted [OF head] by blast+
  have b: "length row = unat n" "\<forall>v \<in> set row. length v \<le> MAX_VALUE_LENGTH"
    "unread r1 = concat (map lestr row) @ unread r'"
    "r' = advance (length (concat (map lestr row))) r1"
    using cstr.many_accepted [OF row] by blast+
  have "unread r = le_row n row @ unread r'"
    by (simp only: a(1) b(3) le_row_def append_assoc)
  moreover have "r' = advance (length (le_row n row)) r"
    by (simp only: b(4) a(2) le_row_def length_append advance_advance)
  ultimately show ?case using b(1,2) by (simp add: row_ok_def)
next
  case 3
  show ?case
    by (auto simp: read_row_def intro!: corr_intros split: prod.splits)
qed

lemma parse_rows_iff:
  "parse_rows n k bs = Inr rows \<longleftrightarrow>
   bs = le64 k @ concat (map (le_row n) rows) \<and> length rows = unat k \<and>
   length rows \<le> ROW_VECTOR_MAX \<and> (\<forall>row \<in> set rows. row_ok n row)"
proof -
  have "unat k \<le> 2 ^ 64 - 1" using unsigned_less [of k, where ?'a = nat] by simp
  then show ?thesis
    unfolding parse_rows_eq
    by (auto simp: bindE_eq_Inr [of "throw_if _ _"] throw_if_eq_Inr not_less
        crow.many_bind_iff c64.bind_iff)
qed

section \<open>What the index checks accept\<close>

lemma foldE_unit_iff: "foldE f () xs = Inr u \<longleftrightarrow> (\<forall>x \<in> set xs. f () x = Inr ())"
  by (induction xs) (auto simp: bindE_eq_Inr)

lemma check_leaf_iff:
  assumes "payload (pages ! unat (leaves ! j)) = leaf_payload prev es"
  shows "check_leaf pages leaves u j = Inr v \<longleftrightarrow>
    prev = (if j = 0 then NO_PAGE else leaves ! (j - 1)) \<and>
    pnext (pages ! unat (leaves ! j)) = (if Suc j < length leaves then leaves ! Suc j else NO_PAGE)"
  by (auto simp: check_leaf_def Let_def c16.bind_iff c32.bind_iff throw_if_eq_Inr assms
      leaf_payload_def)

lemma leaf_payload_inject: "leaf_payload p es = leaf_payload p' es' \<Longrightarrow> p = p'"
  by (simp add: leaf_payload_def)

lemma index_tree_leaf_payloads:
  "index_tree pages i l es lvs us \<Longrightarrow>
     \<forall>v \<in> set lvs. \<exists>prev es. payload (pages ! unat v) = leaf_payload prev es"
  "index_forest pages l is ess lvs us \<Longrightarrow>
     \<forall>v \<in> set lvs. \<exists>prev es. payload (pages ! unat v) = leaf_payload prev es"
  by (induction rule: index_tree_index_forest.inducts) auto

lemma check_leaves_iff:
  assumes "index_tree pages i l es lvs us"
  shows "foldE (check_leaf pages lvs) () [0..<length lvs] = Inr u \<longleftrightarrow> leaves_linked pages lvs"
proof -
  have "check_leaf pages lvs () j = Inr () \<longleftrightarrow>
      pnext (pages ! unat (lvs ! j)) = (if Suc j < length lvs then lvs ! Suc j else NO_PAGE) \<and>
      (\<exists>es. payload (pages ! unat (lvs ! j)) = leaf_payload (if j = 0 then NO_PAGE else lvs ! (j - 1)) es)"
    if j: "j < length lvs" for j
  proof -
    from index_tree_leaf_payloads(1) [OF assms] j obtain prev es where
      p: "payload (pages ! unat (lvs ! j)) = leaf_payload prev es" by (metis nth_mem)
    show ?thesis unfolding check_leaf_iff [OF p] p by (auto dest: leaf_payload_inject)
  qed
  then show ?thesis
    unfolding foldE_unit_iff leaves_linked_def set_upt by (metis atLeastLessThan_iff zero_le)
qed

lemma check_entries_iff:
  "length seen = length rows \<Longrightarrow>
   (\<exists>seen'. foldE (check_entry rows field) seen es = Inr seen') \<longleftrightarrow>
   distinct (map (unat \<circ> snd) es) \<and>
   (\<forall>e \<in> set es. unat (snd e) < length rows \<and> \<not> seen ! unat (snd e) \<and>
      fst e = rows ! unat (snd e) ! field)"
proof (induction es arbitrary: seen)
  case (Cons e es)
  show ?case
  proof (cases "unat (snd e) < length rows \<and> \<not> seen ! unat (snd e) \<and> fst e = rows ! unat (snd e) ! field")
    case True
    then have "check_entry rows field seen e = Inr (seen[unat (snd e) := True])"
      by (simp add: check_entry_def)
    moreover have "length (seen[unat (snd e) := True]) = length rows" using Cons.prems by simp
    moreover have upd: "(seen[unat (snd e) := True]) ! k \<longleftrightarrow> seen ! k \<or> k = unat (snd e)"
      if "k < length rows" for k
      using that Cons.prems by (cases "k = unat (snd e)") auto
    ultimately have "(\<exists>seen'. foldE (check_entry rows field) seen (e # es) = Inr seen') \<longleftrightarrow>
        distinct (map (unat \<circ> snd) es) \<and> (\<forall>x \<in> set es. unat (snd x) < length rows \<and>
          \<not> (seen[unat (snd e) := True]) ! unat (snd x) \<and> fst x = rows ! unat (snd x) ! field)"
      using Cons.IH [of "seen[unat (snd e) := True]"] by (simp add: comp_def)
    also have "\<dots> \<longleftrightarrow> distinct (map (unat \<circ> snd) es) \<and> (\<forall>x \<in> set es. unat (snd x) < length rows \<and>
        \<not> seen ! unat (snd x) \<and> unat (snd x) \<noteq> unat (snd e) \<and> fst x = rows ! unat (snd x) ! field)"
      using upd by blast
    also have "\<dots> \<longleftrightarrow> distinct (map (unat \<circ> snd) (e # es)) \<and> (\<forall>x \<in> set (e # es).
        unat (snd x) < length rows \<and> \<not> seen ! unat (snd x) \<and> fst x = rows ! unat (snd x) ! field)"
      using True by (fastforce simp: image_iff)
    finally show ?thesis .
  next
    case False
    then have "\<exists>err. check_entry rows field seen e = Inl err" by (auto simp: check_entry_def)
    then show ?thesis using False by auto
  qed
qed simp

lemma field_entries_distinct_ids:
  assumes "length rows < 2 ^ 64"
  shows "distinct (map (unat \<circ> snd) (field_entries rows field))"
    and "r < length rows \<Longrightarrow> unat (word_of_nat r :: u64) = r"
proof -
  have un: "unat (word_of_nat r :: u64) = r" if "r < length rows" for r
    using that assms by (simp add: unat_of_nat take_bit_nat_eq_self)
  then show "r < length rows \<Longrightarrow> unat (word_of_nat r :: u64) = r" .
  have "map (unat \<circ> snd) (map (\<lambda>row. (rows ! row ! field, word_of_nat row :: u64)) [0..<length rows]) =
      [0..<length rows]"
    using un by (intro nth_equalityI) auto
  moreover have "mset (map (unat \<circ> snd) (field_entries rows field)) =
      mset (map (unat \<circ> snd) (map (\<lambda>row. (rows ! row ! field, word_of_nat row :: u64)) [0..<length rows]))"
    by (simp add: field_entries_def multiset.map_comp)
  ultimately show "distinct (map (unat \<circ> snd) (field_entries rows field))"
    using mset_eq_imp_distinct_iff [of "map (unat \<circ> snd) (field_entries rows field)" "[0..<length rows]"]
    by simp
qed

lemma entries_unique:
  assumes "length rows < 2 ^ 64" and "sorted es" and "length es = length rows"
  shows "distinct (map (unat \<circ> snd) es) \<and>
    (\<forall>e \<in> set es. unat (snd e) < length rows \<and> fst e = rows ! unat (snd e) ! field) \<longleftrightarrow>
    es = field_entries rows field"
  (is "?L \<longleftrightarrow> ?R")
proof
  assume L: ?L
  have "set (map (unat \<circ> snd) es) = {..<length rows}"
  proof (rule card_subset_eq)
    show "card (set (map (unat \<circ> snd) es)) = card {..<length rows}"
      using L assms(3) distinct_card by fastforce
  qed (use L in auto)
  moreover have "(\<lambda>e. (rows ! unat (snd e) ! field, word_of_nat (unat (snd e)))) ` set es = id ` set es"
    using L by (intro image_cong) (auto simp: prod_eq_iff)
  ultimately have "set es = set (field_entries rows field)"
    unfolding set_field_entries by (metis (no_types, lifting) comp_apply id_apply image_cong
        image_id image_image list.set_map)
  moreover have "distinct es" "distinct (field_entries rows field)"
    using L field_entries_distinct_ids(1) [OF assms(1), of field] by (auto simp: distinct_map)
  ultimately show ?R
    using assms(2) field_entries_props(1) by (intro sorted_distinct_set_unique)
next
  assume R: ?R
  show ?L
    using field_entries_distinct_ids [OF assms(1)] by (auto simp: R set_field_entries)
qed

text \<open>The index of one field: absent for the empty table, otherwise a linked tree.\<close>

definition index_at :: "page list \<Rightarrow> string list list \<Rightarrow> nat \<Rightarrow> u32 \<Rightarrow> u32 list \<Rightarrow> bool" where
  "index_at pages rows field root us \<longleftrightarrow>
     (if rows = [] then root = NO_PAGE \<and> us = []
      else root \<noteq> NO_PAGE \<and>
        (\<exists>l lvs. index_tree pages root l (field_entries rows field) lvs us \<and> leaves_linked pages lvs))"

lemma parse_index_iff:
  assumes "length rows < 2 ^ 64"
  shows "parse_index pages rows roots (indexes, owned) field = Inr (indexes', owned') \<longleftrightarrow>
    (\<exists>us. index_at pages rows field (roots ! field) us \<and> distinct us \<and> set us \<inter> owned = {} \<and>
       owned' = set us \<union> owned \<and> indexes' = indexes @ [field_entries rows field])"
proof (cases "roots ! field = NO_PAGE")
  case True
  then show ?thesis
    by (auto simp: parse_index_def run_inv index_at_def field_entries_def)
next
  case False
  let ?seen = "replicate (length rows) False"
  have entries: "(\<exists>seen. foldE (check_entry rows field) ?seen es = Inr seen) \<longleftrightarrow>
      es = field_entries rows field" if "sorted es" "length es = length rows" for es
    unfolding entries_unique [OF assms that, of field, symmetric]
    by (subst check_entries_iff) auto
  show ?thesis
  proof
    assume "parse_index pages rows roots (indexes, owned) field = Inr (indexes', owned')"
    with False obtain node seen u where
      v: "validate_index_node pages (roots ! field) owned {} = Inr (node, owned')" and
      len: "length (vn_entries node) = length rows" and
      links: "foldE (check_leaf pages (vn_leaves node)) () [0..<length (vn_leaves node)] = Inr u" and
      seen: "foldE (check_entry rows field) ?seen (vn_entries node) = Inr seen" and
      res: "indexes' = indexes @ [vn_entries node]"
      by (auto simp: parse_index_def run_inv split: prod.splits)
    from v obtain l us where
      tree: "index_tree pages (roots ! field) l (vn_entries node) (vn_leaves node) us" and
      us: "distinct us" "set us \<inter> owned = {}" "owned' = set us \<union> owned"
      unfolding validate_index_node_iff by blast
    have "vn_entries node = field_entries rows field"
      using entries len seen index_tree_entries(1) [OF tree] by blast
    moreover have "leaves_linked pages (vn_leaves node)" using links check_leaves_iff [OF tree] by simp
    moreover have "rows \<noteq> []" using len index_tree_entries(1) [OF tree] by auto
    ultimately show "\<exists>us. index_at pages rows field (roots ! field) us \<and> distinct us \<and>
        set us \<inter> owned = {} \<and> owned' = set us \<union> owned \<and> indexes' = indexes @ [field_entries rows field]"
      using tree us False res by (auto simp: index_at_def)
  next
    assume "\<exists>us. index_at pages rows field (roots ! field) us \<and> distinct us \<and>
        set us \<inter> owned = {} \<and> owned' = set us \<union> owned \<and> indexes' = indexes @ [field_entries rows field]"
    then obtain us l lvs where
      tree: "index_tree pages (roots ! field) l (field_entries rows field) lvs us" and
      linked: "leaves_linked pages lvs" and
      us: "distinct us" "set us \<inter> owned = {}" "owned' = set us \<union> owned"
        "indexes' = indexes @ [field_entries rows field]"
      using False by (auto simp: index_at_def split: if_splits)
    have "\<exists>seen. foldE (check_entry rows field) ?seen (field_entries rows field) = Inr seen"
      using entries field_entries_props by blast
    moreover have "foldE (check_leaf pages lvs) () [0..<length lvs] = Inr ()"
      using linked check_leaves_iff [OF tree] by simp
    ultimately show "parse_index pages rows roots (indexes, owned) field = Inr (indexes', owned')"
      using validate_complete(1) [OF tree us(1,2), of "{}"] False us(3,4)
      by (auto simp: parse_index_def field_entries_props(2))
  qed
qed

section \<open>What the whole parser accepts\<close>

text \<open>
  \<open>table_pages pages sb flds rows roots\<close>: the page list stores the table with the given fields and
  rows under superblock \<open>sb\<close>, the index roots are \<open>roots\<close>, and every page belongs to exactly one
  structure.
\<close>

definition table_pages ::
  "page list \<Rightarrow> superblock \<Rightarrow> string list \<Rightarrow> string list list \<Rightarrow> u32 list \<Rightarrow> bool" where
  "table_pages pages sb flds rows roots \<longleftrightarrow>
     ptype (pages ! 0) = Superblock \<and> pnext (pages ! 0) = NO_PAGE \<and>
     payload (pages ! 0) = superblock_payload sb \<and> unat (sb_page_count sb) = length pages \<and>
     sb_free_head sb = NO_PAGE \<and> unat (sb_field_count sb) = length flds \<and>
     unat (sb_row_count sb) = length rows \<and> length rows \<le> ROW_VECTOR_MAX \<and> table_ok flds rows \<and>
     length roots = length flds \<and>
     (\<exists>sids rids dids uss.
        chain_at pages Schema (sb_schema_head sb) (schema_bytes flds) sids \<and>
        chain_at pages Rows (sb_rows_head sb) (row_bytes (sb_field_count sb) rows) rids \<and>
        chain_at pages IndexDirectory (sb_index_directory_head sb) (directory_payload roots) dids \<and>
        length uss = length flds \<and>
        (\<forall>f < length flds. index_at pages rows f (roots ! f) (uss ! f)) \<and>
        distinct (0 # sids @ rids @ dids @ concat uss) \<and>
        length (0 # sids @ rids @ dids @ concat uss) = length pages)"

definition loaded_from ::
  "superblock \<Rightarrow> string list \<Rightarrow> string list list \<Rightarrow> u32 list \<Rightarrow> bool \<Rightarrow> loaded_table" where
  "loaded_from sb flds rows roots wal_present =
     \<lparr>lt_fields = flds, lt_rows = rows, lt_indexes = map (field_entries rows) [0..<length flds],
      lt_inspection =
        \<lparr>in_format_version = FORMAT_VERSION, in_generation = sb_generation sb,
         in_page_count = sb_page_count sb, in_row_count = sb_row_count sb,
         in_field_count = sb_field_count sb, in_index_roots = roots,
         in_wal_present = wal_present\<rparr>\<rparr>"

lemma parse_indexes_iff:
  assumes "length rows < 2 ^ 64"
  shows "foldE (parse_index pages rows roots) ([], owned) [0..<n] = Inr (indexes, owned') \<longleftrightarrow>
    (\<exists>uss. length uss = n \<and> (\<forall>f < n. index_at pages rows f (roots ! f) (uss ! f)) \<and>
       distinct (concat uss) \<and> set (concat uss) \<inter> owned = {} \<and> owned' = set (concat uss) \<union> owned \<and>
       indexes = map (field_entries rows) [0..<n])"
proof (induction n arbitrary: indexes owned')
  case (Suc n)
  show ?case
  proof
    assume "foldE (parse_index pages rows roots) ([], owned) [0..<Suc n] = Inr (indexes, owned')"
    then obtain ix ow where
      "foldE (parse_index pages rows roots) ([], owned) [0..<n] = Inr (ix, ow)" and
      step: "parse_index pages rows roots (ix, ow) n = Inr (indexes, owned')"
      by (auto simp: foldE_append run_inv)
    then obtain uss us where
      uss: "length uss = n" "\<forall>f < n. index_at pages rows f (roots ! f) (uss ! f)"
        "distinct (concat uss)" "set (concat uss) \<inter> owned = {}" "ow = set (concat uss) \<union> owned"
        "ix = map (field_entries rows) [0..<n]" and
      us: "index_at pages rows n (roots ! n) us" "distinct us" "set us \<inter> ow = {}"
        "owned' = set us \<union> ow" "indexes = ix @ [field_entries rows n]"
      unfolding Suc.IH parse_index_iff [OF assms] by blast
    have "distinct (concat (uss @ [us]))" "set (concat (uss @ [us])) \<inter> owned = {}"
      "owned' = set (concat (uss @ [us])) \<union> owned"
      using uss(3-5) us(2-4) by auto
    then show "\<exists>uss. length uss = Suc n \<and> (\<forall>f < Suc n. index_at pages rows f (roots ! f) (uss ! f)) \<and>
        distinct (concat uss) \<and> set (concat uss) \<inter> owned = {} \<and> owned' = set (concat uss) \<union> owned \<and>
        indexes = map (field_entries rows) [0..<Suc n]"
      using uss(1,2,6) us(1,5)
      by (intro exI [of _ "uss @ [us]"]) (auto simp: nth_append less_Suc_eq)
  next
    assume "\<exists>uss. length uss = Suc n \<and> (\<forall>f < Suc n. index_at pages rows f (roots ! f) (uss ! f)) \<and>
        distinct (concat uss) \<and> set (concat uss) \<inter> owned = {} \<and> owned' = set (concat uss) \<union> owned \<and>
        indexes = map (field_entries rows) [0..<Suc n]"
    then obtain vss where v: "length vss = Suc n"
      "\<forall>f < Suc n. index_at pages rows f (roots ! f) (vss ! f)" "distinct (concat vss)"
      "set (concat vss) \<inter> owned = {}" "owned' = set (concat vss) \<union> owned"
      "indexes = map (field_entries rows) [0..<Suc n]"
      by blast
    then obtain uss us where vss: "vss = uss @ [us]" "length uss = n"
      by (metis length_append_singleton append_butlast_last_id length_0_conv nat.distinct(1)
          length_butlast diff_Suc_1)
    have us: "index_at pages rows n (roots ! n) us" using v(2) vss by (metis lessI nth_append_length)
    have uss: "\<forall>f < n. index_at pages rows f (roots ! f) (uss ! f)"
      using v(2) vss by (metis less_SucI nth_append)
    have "foldE (parse_index pages rows roots) ([], owned) [0..<n] =
        Inr (map (field_entries rows) [0..<n], set (concat uss) \<union> owned)"
      unfolding Suc.IH using uss v(3,4) vss by (intro exI [of _ uss]) auto
    moreover have "parse_index pages rows roots
        (map (field_entries rows) [0..<n], set (concat uss) \<union> owned) n = Inr (indexes, owned')"
      unfolding parse_index_iff [OF assms] using us v(3-6) vss
      by (intro exI [of _ us]) auto
    ultimately show "foldE (parse_index pages rows roots) ([], owned) [0..<Suc n] = Inr (indexes, owned')"
      by (simp add: foldE_append)
  qed
qed auto

lemma chain_at_distinct: "chain_at pages t h bs ids \<Longrightarrow> distinct ids"
  by (induction rule: chain_at.induct) auto

theorem parse_image_iff:
  "parse_image img wal_present = Inr (t, pages) \<longleftrightarrow>
   pages \<noteq> [] \<and> length pages \<le> MAX_PAGES \<and> pages_from 0 pages \<and> encode_pages pages = Inr img \<and>
   (\<exists>sb flds rows roots. table_pages pages sb flds rows roots \<and>
      t = loaded_from sb flds rows roots wal_present)"
  (is "?L \<longleftrightarrow> ?R")
proof
  assume ?L
  then obtain sb stream1 own1 flds stream2 own2 rows stream3 own3 roots indexes own4 where
    pages: "parse_pages img = Inr pages" and
    sb: "parse_superblock pages = Inr sb" and
    c1: "read_chain pages (sb_schema_head sb) Schema {0} = Inr (stream1, own1)" and
    p1: "parse_schema (sb_field_count sb) stream1 = Inr flds" and
    c2: "read_chain pages (sb_rows_head sb) Rows own1 = Inr (stream2, own2)" and
    p2: "parse_rows (sb_field_count sb) (sb_row_count sb) stream2 = Inr rows" and
    c3: "read_chain pages (sb_index_directory_head sb) IndexDirectory own2 = Inr (stream3, own3)" and
    p3: "parse_directory (sb_field_count sb) stream3 = Inr roots" and
    ix: "foldE (parse_index pages rows roots) ([], own3) [0..<length flds] = Inr (indexes, own4)" and
    own: "card own4 = length pages" and
    t: "t = \<lparr>lt_fields = flds, lt_rows = rows, lt_indexes = indexes,
      lt_inspection = \<lparr>in_format_version = FORMAT_VERSION, in_generation = sb_generation sb,
        in_page_count = sb_page_count sb, in_row_count = sb_row_count sb,
        in_field_count = sb_field_count sb, in_index_roots = roots, in_wal_present = wal_present\<rparr>\<rparr>"
    by (auto simp: parse_image_eq run_inv split: prod.splits)
  from c1 obtain sids where s: "chain_at pages Schema (sb_schema_head sb) stream1 sids"
    "set sids \<inter> {0} = {}" "own1 = set sids \<union> {0}" unfolding read_chain_iff by blast
  from c2 obtain rids where r: "chain_at pages Rows (sb_rows_head sb) stream2 rids"
    "set rids \<inter> own1 = {}" "own2 = set rids \<union> own1" unfolding read_chain_iff by blast
  from c3 obtain dids where
    d: "chain_at pages IndexDirectory (sb_index_directory_head sb) stream3 dids"
      "set dids \<inter> own2 = {}" "own3 = set dids \<union> own2" unfolding read_chain_iff by blast
  note p = p1 [unfolded parse_schema_iff] p2 [unfolded parse_rows_iff] p3 [unfolded parse_directory_iff]
  have n: "word_of_nat (length flds) = sb_field_count sb" "word_of_nat (length rows) = sb_row_count sb"
    "word_of_nat (length roots) = sb_field_count sb"
    using p by simp_all
  have streams: "stream1 = schema_bytes flds" "stream2 = row_bytes (sb_field_count sb) rows"
    "stream3 = directory_payload roots"
    using p n by (simp_all add: schema_bytes_def row_bytes_def directory_payload_eq)
  have rows: "length rows < 2 ^ 64" using p unsigned_less [of "sb_row_count sb", where ?'a = nat] by simp
  obtain uss where u: "length uss = length flds"
    "\<forall>f < length flds. index_at pages rows f (roots ! f) (uss ! f)"
    "distinct (concat uss)" "set (concat uss) \<inter> own3 = {}" "own4 = set (concat uss) \<union> own3"
    "indexes = map (field_entries rows) [0..<length flds]"
    using ix unfolding parse_indexes_iff [OF rows] by blast
  have dist: "distinct (0 # sids @ rids @ dids @ concat uss)"
    using s r d u chain_at_distinct [OF s(1)] chain_at_distinct [OF r(1)] chain_at_distinct [OF d(1)]
    by auto
  have "own4 = set (0 # sids @ rids @ dids @ concat uss)" using s r d u by auto
  then have len: "length (0 # sids @ rids @ dids @ concat uss) = length pages"
    using own distinct_card [OF dist] by simp
  have ok: "table_ok flds rows"
    using p sb by (auto simp: table_ok_def fields_ok_def row_fits_def row_ok_def parse_superblock_iff
        unat_eq_zero)
  have "table_pages pages sb flds rows roots"
    unfolding table_pages_def
  proof (intro conjI)
    show "\<exists>sids rids dids uss.
        chain_at pages Schema (sb_schema_head sb) (schema_bytes flds) sids \<and>
        chain_at pages Rows (sb_rows_head sb) (row_bytes (sb_field_count sb) rows) rids \<and>
        chain_at pages IndexDirectory (sb_index_directory_head sb) (directory_payload roots) dids \<and>
        length uss = length flds \<and>
        (\<forall>f < length flds. index_at pages rows f (roots ! f) (uss ! f)) \<and>
        distinct (0 # sids @ rids @ dids @ concat uss) \<and>
        length (0 # sids @ rids @ dids @ concat uss) = length pages"
      using s(1) r(1) d(1) u(1,2) dist len unfolding streams by blast
  qed (use sb [unfolded parse_superblock_iff] p ok in \<open>simp_all\<close>)
  moreover have "t = loaded_from sb flds rows roots wal_present" by (simp add: t loaded_from_def u(6))
  ultimately show ?R using pages unfolding parse_pages_iff by blast
next
  assume ?R
  then obtain sb flds rows roots where
    pages: "parse_pages img = Inr pages" and tp: "table_pages pages sb flds rows roots" and
    t: "t = loaded_from sb flds rows roots wal_present"
    unfolding parse_pages_iff by blast
  from tp obtain sids rids dids uss where
    s: "chain_at pages Schema (sb_schema_head sb) (schema_bytes flds) sids" and
    r: "chain_at pages Rows (sb_rows_head sb) (row_bytes (sb_field_count sb) rows) rids" and
    d: "chain_at pages IndexDirectory (sb_index_directory_head sb) (directory_payload roots) dids" and
    u: "length uss = length flds" "\<forall>f < length flds. index_at pages rows f (roots ! f) (uss ! f)" and
    dist: "distinct (0 # sids @ rids @ dids @ concat uss)" and
    len: "length (0 # sids @ rids @ dids @ concat uss) = length pages"
    unfolding table_pages_def by blast
  have counts: "unat (sb_field_count sb) = length flds" "unat (sb_row_count sb) = length rows"
    "length rows \<le> ROW_VECTOR_MAX" "length roots = length flds" and ok: "table_ok flds rows"
    using tp by (auto simp: table_pages_def)
  have n: "word_of_nat (length flds) = sb_field_count sb" "word_of_nat (length rows) = sb_row_count sb"
    by (simp_all flip: counts(1,2))
  have sb: "parse_superblock pages = Inr sb"
    using tp ok counts by (auto simp: table_pages_def parse_superblock_iff table_ok_def fields_ok_def)
  have rows: "length rows < 2 ^ 64"
    using counts unsigned_less [of "sb_row_count sb", where ?'a = nat] by simp
  let ?o1 = "set sids \<union> {0}"
  let ?o2 = "set rids \<union> ?o1"
  let ?o3 = "set dids \<union> ?o2"
  let ?o4 = "set (concat uss) \<union> ?o3"
  have c1: "read_chain pages (sb_schema_head sb) Schema {0} = Inr (schema_bytes flds, ?o1)"
    unfolding read_chain_iff using s dist by auto
  have c2: "read_chain pages (sb_rows_head sb) Rows ?o1 = Inr (row_bytes (sb_field_count sb) rows, ?o2)"
    unfolding read_chain_iff using r dist by (intro exI [of _ rids]) auto
  have c3: "read_chain pages (sb_index_directory_head sb) IndexDirectory ?o2 =
      Inr (directory_payload roots, ?o3)"
    unfolding read_chain_iff using d dist by (intro exI [of _ dids]) auto
  have p1: "parse_schema (sb_field_count sb) (schema_bytes flds) = Inr flds"
    using ok counts n by (simp add: parse_schema_iff schema_bytes_def table_ok_def fields_ok_def)
  have p2: "parse_rows (sb_field_count sb) (sb_row_count sb) (row_bytes (sb_field_count sb) rows) = Inr rows"
    using ok counts n by (simp add: parse_rows_iff row_bytes_def table_ok_def row_fits_def row_ok_def)
  have p3: "parse_directory (sb_field_count sb) (directory_payload roots) = Inr roots"
    using counts n by (simp add: parse_directory_iff directory_payload_eq)
  have ix: "foldE (parse_index pages rows roots) ([], ?o3) [0..<length flds] =
      Inr (map (field_entries rows) [0..<length flds], ?o4)"
    unfolding parse_indexes_iff [OF rows] using u dist by (intro exI [of _ uss]) auto
  have "?o4 = set (0 # sids @ rids @ dids @ concat uss)" by auto
  then have own: "card ?o4 = length pages" using distinct_card [OF dist] len by simp
  show ?L
    unfolding parse_image_eq
    by (simp only: pages sb c1 p1 c2 p2 c3 p3 ix own bindE_Inr prod.case refl not_True_eq_False
        throw_if_False t loaded_from_def simp_thms)
qed

end
