(* ===== verification/Image_Roundtrip.thy ===== *)
theory Image_Roundtrip
  imports Image_Parse
begin

text \<open>
  The round trip of database images: \<open>build_image\<close> succeeds on every table that \<open>validate_schema\<close>
  accepts and whose pages can be numbered, and \<open>parse_image\<close> reads the same table back, with
  each index the sorted list of the field's entries.
\<close>

section \<open>Moving structures between page lists\<close>

lemma leaves_linked_cong:
  assumes "leaves_linked pages lvs" and "\<And>v. v \<in> set lvs \<Longrightarrow> pages' ! unat v = pages ! unat v"
  shows "leaves_linked pages' lvs"
  using assms by (simp add: leaves_linked_def)

lemma index_at_cong:
  assumes "index_at pages rows field root us"
    and same: "\<And>u. u \<in> set us \<Longrightarrow> unat u < length pages' \<and> pages' ! unat u = pages ! unat u"
  shows "index_at pages' rows field root us"
proof (cases "rows = []")
  case False
  with assms(1) obtain l lvs where root: "root \<noteq> NO_PAGE"
    and t: "index_tree pages root l (field_entries rows field) lvs us" "leaves_linked pages lvs"
    by (auto simp: index_at_def)
  have "set lvs \<subseteq> set us" using index_tree_pages(1) [OF t(1)] by blast
  with same have "leaves_linked pages' lvs" by (intro leaves_linked_cong [OF t(2)]) blast
  moreover have "index_tree pages' root l (field_entries rows field) lvs us"
    using t(1) same by (rule index_tree_cong(1))
  ultimately show ?thesis
    unfolding index_at_def using False root by (simp only: if_False) blast
qed (use assms(1) in \<open>simp add: index_at_def\<close>)

lemma index_at_pages: "index_at pages rows field root us \<Longrightarrow> u \<in> set us \<Longrightarrow> unat u < length pages"
  by (auto simp: index_at_def split: if_splits dest: index_tree_pages)

lemma index_at_append:
  "index_at pages rows field root us \<Longrightarrow> index_at (pages @ added) rows field root us"
  by (rule index_at_cong, assumption) (auto simp: nth_append dest: index_at_pages)

lemma pages_from_numbered: "pages_from 0 pages \<Longrightarrow> numbered pages"
  by (simp add: pages_from_def numbered_def)

lemma pages_from_new_chain: "pages_from k (new_chain t k bs)"
  using new_chain_nth [of _ t k bs] by (simp add: pages_from_def)

lemma length_chain_pages: "length (chain_pages t k bs) \<le> length bs div PAGE_PAYLOAD_SIZE + 1"
proof (induction t k bs rule: chain_pages.induct)
  case (1 t k bs)
  show ?case
  proof (cases "length bs \<le> PAGE_PAYLOAD_SIZE")
    case True
    then show ?thesis by (cases "bs = []") (auto simp: chain_pages_Cons)
  next
    case False
    then have "bs \<noteq> []" and "length bs div PAGE_PAYLOAD_SIZE =
        (length bs - PAGE_PAYLOAD_SIZE) div PAGE_PAYLOAD_SIZE + 1"
      using le_div_geq [of PAGE_PAYLOAD_SIZE "length bs"] by (auto simp: page_consts)
    with 1 show ?thesis by (simp add: chain_pages_Cons)
  qed
qed

lemma length_new_chain: "length (new_chain t k bs) \<le> length bs div PAGE_PAYLOAD_SIZE + 1"
  using length_chain_pages [of t k bs] by (simp add: new_chain_def)

section \<open>The indexes of all fields\<close>

lemma ids_from_add: "ids_from k (m + n) = ids_from k m @ ids_from (k + m) n"
  by (simp only: add.assoc [symmetric] upt_add_eq_append [OF le_add1] map_append)

lemma build_field_index_ok:
  assumes "\<forall>row \<in> set rows. row_fits flds row" and "field < length flds"
    and "length pages + 2 * length rows \<le> MAX_PAGES"
  shows "\<exists>newp root us. build_field_index rows (pages, roots) field = Inr (pages @ newp, roots @ [root]) \<and>
    index_at (pages @ newp) rows field root us \<and> mset us = mset (ids_from (length pages) (length newp)) \<and>
    pages_from (length pages) newp \<and> length newp \<le> 2 * length rows"
proof (cases "rows = []")
  case True
  then show ?thesis
    by (intro exI [of _ "[]"] exI [of _ NO_PAGE] exI [of _ "[]"])
      (simp add: build_field_index_def build_index_def field_entries_def index_at_def pages_from_def)
next
  case False
  let ?es = "field_entries rows field"
  have "?es \<noteq> []" "length pages + 2 * length ?es \<le> MAX_PAGES"
    using False assms(3) by (simp_all add: field_entries_props)
  with build_index_ok [of ?es pages] field_entries_ok [OF assms(1,2)] field_entries_props(1)
  obtain newp root l lvs us where
    b: "build_index pages ?es = Inr (pages @ newp, root)" and
    t: "index_tree (pages @ newp) root l ?es lvs us" "leaves_linked (pages @ newp) lvs" and
    us: "mset us = mset (ids_from (length pages) (length newp))" and
    p: "pages_from (length pages) newp" "length newp < 2 * length ?es"
    by blast
  have "unat root < length pages + length newp"
    using index_tree_pages(1) [OF t(1)] by auto
  then have "root \<noteq> NO_PAGE"
    using p(2) assms(3) by (auto simp: unat_NO_PAGE field_entries_props)
  then show ?thesis
    using b t us p False
    by (intro exI [of _ newp] exI [of _ root] exI [of _ us])
      (auto simp: build_field_index_def index_at_def field_entries_props)
qed

lemma build_indexes_ok:
  assumes rows: "\<forall>row \<in> set rows. row_fits flds row" and "n \<le> length flds"
    and "length pages + n * (2 * length rows) \<le> MAX_PAGES"
  shows "\<exists>newp roots uss. foldE (build_field_index rows) (pages, []) [0..<n] = Inr (pages @ newp, roots) \<and>
    length roots = n \<and> length uss = n \<and>
    (\<forall>f < n. index_at (pages @ newp) rows f (roots ! f) (uss ! f)) \<and>
    mset (concat uss) = mset (ids_from (length pages) (length newp)) \<and>
    pages_from (length pages) newp \<and> length newp \<le> n * (2 * length rows)"
  using assms(2,3)
proof (induction n)
  case 0
  then show ?case
    by (intro exI [of _ "[]"] exI [of _ "[]"] exI [of _ "[]"]) (simp add: pages_from_def)
next
  case (Suc n)
  then obtain newp roots uss where
    b: "foldE (build_field_index rows) (pages, []) [0..<n] = Inr (pages @ newp, roots)" and
    l: "length roots = n" "length uss = n" and
    ix: "\<forall>f < n. index_at (pages @ newp) rows f (roots ! f) (uss ! f)" and
    us: "mset (concat uss) = mset (ids_from (length pages) (length newp))" and
    p: "pages_from (length pages) newp" "length newp \<le> n * (2 * length rows)"
    by auto
  have room: "length (pages @ newp) + 2 * length rows \<le> MAX_PAGES"
    using p(2) Suc.prems(2) by simp
  have "n < length flds" using Suc.prems(1) by simp
  from build_field_index_ok [OF rows this room, of roots]
  obtain newp' root us' where
    b': "build_field_index rows (pages @ newp, roots) n = Inr ((pages @ newp) @ newp', roots @ [root])" and
    ix': "index_at ((pages @ newp) @ newp') rows n root us'" and
    us': "mset us' = mset (ids_from (length (pages @ newp)) (length newp'))" and
    p': "pages_from (length (pages @ newp)) newp'" "length newp' \<le> 2 * length rows"
    by blast
  have "foldE (build_field_index rows) (pages, []) [0..<Suc n] = Inr (pages @ newp @ newp', roots @ [root])"
    using b b' by (simp add: foldE_append)
  moreover have "index_at (pages @ newp @ newp') rows f ((roots @ [root]) ! f) ((uss @ [us']) ! f)"
    if "f < Suc n" for f
  proof (cases "f < n")
    case True
    then show ?thesis
      using ix l index_at_append [of "pages @ newp" rows f "roots ! f" "uss ! f" newp']
      by (simp add: nth_append)
  next
    case False
    with that have "f = n" by simp
    then show ?thesis using ix' l by (simp add: nth_append)
  qed
  moreover have "mset (concat (uss @ [us'])) = mset (ids_from (length pages) (length (newp @ newp')))"
    using us us' by (simp only: length_append ids_from_add concat_append mset_append concat.simps append_Nil2)
  moreover have "pages_from (length pages) (newp @ newp')" using p p' by (simp add: pages_from_append)
  moreover have "length (newp @ newp') \<le> Suc n * (2 * length rows)" using p p' by simp
  ultimately show ?case
    using l by (intro exI [of _ "newp @ newp'"] exI [of _ "roots @ [root]"] exI [of _ "uss @ [us']"]) auto
qed

section \<open>Sizes\<close>

lemma length_strings:
  "\<forall>s \<in> set ss. length s \<le> MAX_VALUE_LENGTH \<Longrightarrow> length (concat (map lestr ss)) \<le> 102 * length ss"
  by (induction ss) (auto simp: MAX_VALUE_LENGTH_def)

lemma schema_chain_small:
  assumes "fields_ok flds"
  shows "length (new_chain t k (schema_bytes flds)) \<le> 2"
proof -
  have "length (schema_bytes flds) \<le> 4 + 102 * length flds"
    using assms length_strings [of flds] by (simp add: schema_bytes_def fields_ok_def)
  also have "\<dots> \<le> 6532" using assms by (simp add: fields_ok_def MAX_FIELDS_def)
  finally have "length (schema_bytes flds) div PAGE_PAYLOAD_SIZE \<le> 6532 div PAGE_PAYLOAD_SIZE"
    by (rule div_le_mono)
  then show ?thesis using length_new_chain [of t k "schema_bytes flds"] by (simp add: page_consts)
qed

lemma row_chain_small:
  assumes "table_ok flds rows"
  shows "length (new_chain t k (row_bytes n rows)) \<le> length rows * length flds + 2"
proof -
  have row: "length (le_row n row) \<le> 106 * length flds" if "row \<in> set rows" for row
    using that assms length_strings [of row]
    by (cases flds) (auto simp: le_row_def table_ok_def row_fits_def fields_ok_def)
  have "length (concat (map (le_row n) rs)) \<le> 106 * length flds * length rs"
    if "set rs \<subseteq> set rows" for rs
    using that by (induction rs) (auto dest!: row simp: algebra_simps)
  then have "length (row_bytes n rows) \<le> 8 + 106 * (length flds * length rows)"
    by (simp add: row_bytes_def mult.assoc)
  also have "\<dots> \<le> PAGE_PAYLOAD_SIZE + PAGE_PAYLOAD_SIZE * (length rows * length flds)"
    by (simp add: page_consts mult.commute)
  finally have "length (row_bytes n rows) div PAGE_PAYLOAD_SIZE \<le> 1 + length rows * length flds"
    by (simp add: page_consts)
  then show ?thesis using length_new_chain [of t k "row_bytes n rows"] by simp
qed

text \<open>A table whose pages can be numbered below \<open>NO_PAGE\<close>: at most two pages for each cell, and a bit.\<close>

definition image_fits :: "string list \<Rightarrow> string list list \<Rightarrow> bool" where
  "image_fits flds rows \<longleftrightarrow> 3 * (length rows * length flds) + 6 \<le> MAX_PAGES"

section \<open>The built pages store the table\<close>

lemma pages_from_update:
  assumes "pages_from k ps" and "i < length ps" and "pid p = pid (ps ! i)" and "page_ok p"
  shows "pages_from k (ps[i := p])"
  unfolding pages_from_def
proof (intro allI impI)
  fix j assume "j < length (ps[i := p])"
  then show "pid (ps[i := p] ! j) = word_of_nat (k + j) \<and> page_ok (ps[i := p] ! j)"
    using assms by (cases "j = i") (simp_all add: pages_from_def del: of_nat_add)
qed

lemma pages_from_appendI:
  "pages_from 0 ps \<Longrightarrow> pages_from (length ps) qs \<Longrightarrow> pages_from 0 (ps @ qs)"
  by (simp add: pages_from_append)

lemma distinct_ids_from: "k + n \<le> MAX_PAGES \<Longrightarrow> distinct (ids_from k n)"
  by (auto simp: distinct_map inj_on_def page_id_inject simp del: of_nat_add)

lemma ids_from_0: "ids_from k 0 = []"
  by simp

lemma ids_from_1: "ids_from k (Suc 0) = [word_of_nat k]"
  by simp

text \<open>
  What an insertion relies on when it reads the index roots and patches the row count: the directory
  is a single page that holds the whole list of roots, and the first row page holds the whole row
  count. Every image this code writes has this form; the parser accepts others as well.
\<close>

definition compact_pages :: "page list \<Rightarrow> superblock \<Rightarrow> u32 list \<Rightarrow> bool" where
  "compact_pages pages sb roots \<longleftrightarrow>
     payload (pages ! unat (sb_index_directory_head sb)) = directory_payload roots \<and>
     pnext (pages ! unat (sb_index_directory_head sb)) = NO_PAGE \<and>
     8 \<le> length (payload (pages ! unat (sb_rows_head sb)))"

lemma row_chain_head:
  "new_chain t k (row_bytes n rows) \<noteq> [] \<and> 8 \<le> length (payload (new_chain t k (row_bytes n rows) ! 0))"
proof -
  have "8 \<le> length (row_bytes n rows)" by (simp add: row_bytes_def)
  moreover from this have "row_bytes n rows \<noteq> []" by auto
  ultimately show ?thesis by (simp add: new_chain_def chain_pages_Cons page_consts)
qed

lemma build_pages_ok:
  assumes ok: "table_ok flds rows" and fits: "image_fits flds rows"
  shows "\<exists>pages sb roots. build_pages flds rows generation = Inr pages \<and>
    pages \<noteq> [] \<and> length pages \<le> MAX_PAGES \<and> pages_from 0 pages \<and>
    table_pages pages sb flds rows roots \<and> sb_generation sb = generation \<and>
    compact_pages pages sb roots \<and> length pages \<le> 3 * (length rows * length flds) + 6"
proof -
  let ?nf = "word_of_nat (length flds) :: u32"
  define C1 where "C1 = new_chain Schema 1 (schema_bytes flds)"
  define P1 where "P1 = [Page Superblock 0 NO_PAGE []] @ C1"
  define C2 where "C2 = new_chain Rows (length P1) (row_bytes ?nf rows)"
  define P2 where "P2 = P1 @ C2"
  define D where "D = Page IndexDirectory (word_of_nat (length P2)) NO_PAGE []"
  have fok: "fields_ok flds" and rok: "\<forall>row \<in> set rows. row_fits flds row"
    using ok by (auto simp: table_ok_def)
  have s1: "length C1 \<le> 2" unfolding C1_def by (rule schema_chain_small [OF fok])
  have s2: "length C2 \<le> length rows * length flds + 2" unfolding C2_def by (rule row_chain_small [OF ok])
  have l1: "length P1 = 1 + length C1" and l2: "length P2 = length P1 + length C2"
    by (simp_all add: P1_def P2_def)
  have room: "length (P2 @ [D]) + length flds * (2 * length rows) \<le> MAX_PAGES"
    using s1 s2 fits by (simp add: l1 l2 image_fits_def algebra_simps)
  have f0: "pages_from 0 [Page Superblock 0 NO_PAGE []]" by (simp add: pages_from_def page_ok_def)
  have f1: "pages_from 0 P1"
    unfolding P1_def pages_from_append using f0 pages_from_new_chain [of 1] by (simp add: C1_def)
  have f2: "pages_from 0 P2"
    unfolding P2_def pages_from_append using f1 pages_from_new_chain by (simp add: C2_def)
  have f3: "pages_from 0 (P2 @ [D])"
    unfolding pages_from_append using f2 by (simp add: pages_from_def [of _ "[_]"] D_def page_ok_def)
  have a1: "add_chain [Page Superblock 0 NO_PAGE []] Schema (schema_bytes flds) = (P1, 1)"
    using add_chain_eq [OF pages_from_numbered [OF f0], of Schema "schema_bytes flds"] s1
    by (simp add: P1_def C1_def MAX_PAGES_def)
  have a2: "add_chain P1 Rows (row_bytes ?nf rows) = (P2, word_of_nat (length P1))"
    using add_chain_eq [OF pages_from_numbered [OF f1], of Rows "row_bytes ?nf rows"] room
    by (simp add: P2_def C2_def)
  from build_indexes_ok [OF rok order_refl room]
  obtain newp roots uss where
    b: "foldE (build_field_index rows) (P2 @ [D], []) [0..<length flds] =
      Inr ((P2 @ [D]) @ newp, roots)" and
    lens: "length roots = length flds" "length uss = length flds" and
    ix: "\<forall>f < length flds. index_at ((P2 @ [D]) @ newp) rows f (roots ! f) (uss ! f)" and
    us: "mset (concat uss) = mset (ids_from (length (P2 @ [D])) (length newp))" and
    new: "pages_from (length (P2 @ [D])) newp" "length newp \<le> length flds * (2 * length rows)"
    by blast
  define P3 where "P3 = (P2 @ [D]) @ newp"
  define sb where "sb = \<lparr>sb_generation = generation, sb_page_count = word_of_nat (length P3),
    sb_schema_head = 1, sb_rows_head = word_of_nat (length P1),
    sb_index_directory_head = word_of_nat (length P2), sb_free_head = NO_PAGE,
    sb_field_count = ?nf, sb_row_count = word_of_nat (length rows)\<rparr>"
  define P4 where "P4 = P3[length P2 := (P3 ! length P2)\<lparr>payload := directory_payload roots\<rparr>]"
  define P5 where "P5 = P4[0 := (P4 ! 0)\<lparr>payload := superblock_payload sb\<rparr>]"
  have run: "build_pages flds rows generation = Inr P5"
    unfolding build_pages_def validate_schema_iff [THEN iffD2, OF ok] schema_stream_ok [OF fok]
      row_stream_ok [OF rok] bindE_Inr a1 prod.case a2 Let_def
    by (simp only: b [unfolded D_def, folded D_def] flip: D_def)
      (simp add: P5_def P4_def P3_def sb_def)
  have len: "length P5 = length P3" by (simp add: P5_def P4_def)
  have l3: "length P3 = Suc (length P2) + length newp" by (simp add: P3_def)
  have bound: "length P3 \<le> MAX_PAGES" using room new(2) l3 by simp
  have pos: "0 < length P2" by (simp add: l1 l2)
  have at_D: "P3 ! length P2 = D" by (simp add: P3_def nth_append)
  have at_0: "P3 ! 0 = Page Superblock 0 NO_PAGE []" by (simp add: P3_def P2_def P1_def)
  have other: "P5 ! j = P3 ! j" if "j \<noteq> 0" "j \<noteq> length P2" for j
    using that by (simp add: P5_def P4_def)
  have dir: "P5 ! length P2 = Page IndexDirectory (word_of_nat (length P2)) NO_PAGE (directory_payload roots)"
    using pos l3 by (simp add: P5_def P4_def at_D D_def)
  have super: "P5 ! 0 = Page Superblock 0 NO_PAGE (superblock_payload sb)"
    using pos l3 by (simp add: P5_def P4_def at_0)
  have f5: "pages_from 0 P5"
  proof -
    have "pages_from 0 P3" unfolding P3_def using f3 new(1) by (rule pages_from_appendI)
    then have "pages_from 0 P4"
      unfolding P4_def using lens(1) fok l3
      by (intro pages_from_update)
        (auto simp: at_D D_def page_ok_def directory_payload_eq length_concat fields_ok_def
          comp_def sum_list_triv MAX_FIELDS_def page_consts)
    then show ?thesis
      unfolding P5_def using pos l3
      by (intro pages_from_update)
        (auto simp: P4_def at_0 page_ok_def superblock_payload_eq page_consts)
  qed
  have id: "unat (word_of_nat j :: u32) = j" if "j < length P3" for j
    using that bound by simp
  have keep: "unat u < length P5 \<and> P5 ! unat u = P3 ! unat u"
    if "u \<in> set (ids_from m n)" "0 < m" "m + n \<le> length P3" "length P2 < m \<or> m + n \<le> length P2"
    for u m n
  proof -
    from that(1) obtain j where j: "u = word_of_nat j" "m \<le> j" "j < m + n" by auto
    then have "unat u = j" using that(3) id by simp
    then show ?thesis using j that by (auto simp: len other)
  qed
  have c1: "chain_at P5 Schema (sb_schema_head sb) (schema_bytes flds) (ids_from 1 (length C1))"
  proof (rule chain_at_pages_cong)
    have "P3 = [Page Superblock 0 NO_PAGE []] @ new_chain Schema 1 (schema_bytes flds) @ (C2 @ [D] @ newp)"
      by (simp add: P3_def P2_def P1_def C1_def)
    then show "chain_at P3 Schema (sb_schema_head sb) (schema_bytes flds) (ids_from 1 (length C1))"
      using new_chain_chain_at [of "[Page Superblock 0 NO_PAGE []]" 1 Schema "schema_bytes flds"
          "C2 @ [D] @ newp"] bound l3 l2 l1
      by (simp add: sb_def C1_def)
  qed (rule keep, assumption, use l1 l2 l3 in simp_all)
  have c2: "chain_at P5 Rows (sb_rows_head sb) (row_bytes ?nf rows) (ids_from (length P1) (length C2))"
  proof (rule chain_at_pages_cong)
    have "P3 = P1 @ new_chain Rows (length P1) (row_bytes ?nf rows) @ ([D] @ newp)"
      by (simp add: P3_def P2_def C2_def)
    then show "chain_at P3 Rows (sb_rows_head sb) (row_bytes ?nf rows) (ids_from (length P1) (length C2))"
      using new_chain_chain_at [of P1 "length P1" Rows "row_bytes ?nf rows" "[D] @ newp"] bound l3 l2
      by (simp add: sb_def C2_def)
  qed (rule keep, assumption, use l1 l2 l3 in simp_all)
  have c3: "chain_at P5 IndexDirectory (sb_index_directory_head sb) (directory_payload roots)
      [word_of_nat (length P2)]"
  proof -
    have small: "length P2 < length P3" by (simp add: l3)
    have "chain_at P5 IndexDirectory (word_of_nat (length P2))
        (payload (P5 ! unat (word_of_nat (length P2) :: u32)) @ []) [word_of_nat (length P2)]"
      using small bound by (intro chain_page) (simp_all add: len dir)
    then show ?thesis using small bound by (simp add: dir sb_def)
  qed
  have c4: "\<forall>f < length flds. index_at P5 rows f (roots ! f) (uss ! f)"
  proof (intro allI impI)
    fix f assume f: "f < length flds"
    have "index_at P3 rows f (roots ! f) (uss ! f)" using ix f by (simp add: P3_def)
    then show "index_at P5 rows f (roots ! f) (uss ! f)"
    proof (rule index_at_cong)
      fix u assume "u \<in> set (uss ! f)"
      then have "u \<in> set (concat uss)" using f lens(2) by (auto intro: bexI [of _ "uss ! f"])
      then have "u \<in> set (ids_from (length (P2 @ [D])) (length newp))" using us by (metis set_mset_mset)
      then show "unat u < length P5 \<and> P5 ! unat u = P3 ! unat u"
        by (rule keep) (simp_all add: l3)
    qed
  qed
  let ?all = "0 # ids_from 1 (length C1) @ ids_from (length P1) (length C2) @
      [word_of_nat (length P2)] @ concat uss"
  have "ids_from 0 (length P3) = ids_from 0 (1 + length C1 + length C2 + 1 + length newp)"
    using l1 l2 l3 by (simp add: add.assoc)
  also have "\<dots> = (0 # ids_from 1 (length C1)) @ ids_from (length P1) (length C2) @
      [word_of_nat (length P2)] @ ids_from (length (P2 @ [D])) (length newp)"
    unfolding ids_from_add by (simp add: l1 l2)
  finally have all: "mset ?all = mset (ids_from 0 (length P3))" using us by simp
  have "distinct (ids_from 0 (length P3))" using bound by (intro distinct_ids_from) simp
  with all have dist: "distinct ?all" by (metis mset_eq_imp_distinct_iff)
  have total: "length ?all = length P5" using mset_eq_length [OF all] len by simp
  have cells: "length rows \<le> length rows * length flds"
    using fok by (cases flds) (auto simp: fields_ok_def)
  have "length rows * length flds \<le> 1431655763"
    using fits by (simp add: image_fits_def MAX_PAGES_def)
  with cells have "length rows \<le> 1431655763" by (rule le_trans)
  then have counts: "length flds < 2 ^ 32" "length rows < 2 ^ 32" "length rows \<le> ROW_VECTOR_MAX"
    using fok by (auto simp: fields_ok_def MAX_FIELDS_def ROW_VECTOR_MAX_def)
  have "table_pages P5 sb flds rows roots"
    unfolding table_pages_def
  proof (intro conjI)
    show "\<exists>sids rids dids uss.
        chain_at P5 Schema (sb_schema_head sb) (schema_bytes flds) sids \<and>
        chain_at P5 Rows (sb_rows_head sb) (row_bytes (sb_field_count sb) rows) rids \<and>
        chain_at P5 IndexDirectory (sb_index_directory_head sb) (directory_payload roots) dids \<and>
        length uss = length flds \<and>
        (\<forall>f < length flds. index_at P5 rows f (roots ! f) (uss ! f)) \<and>
        distinct (0 # sids @ rids @ dids @ concat uss) \<and>
        length (0 # sids @ rids @ dids @ concat uss) = length P5"
      using c1 c2 [folded sb_def] c3 c4 lens dist total by (intro exI conjI) (simp add: sb_def)+
    show "unat (sb_page_count sb) = length P5"
      using bound by (simp add: sb_def len unat_of_nat MAX_PAGES_def take_bit_nat_eq_self)
    show "unat (sb_field_count sb) = length flds" "unat (sb_row_count sb) = length rows"
      using counts by (simp_all add: sb_def unat_of_nat take_bit_nat_eq_self)
  qed (use super ok lens counts in \<open>simp_all add: sb_def\<close>)
  moreover have "P5 \<noteq> []" "length P5 \<le> MAX_PAGES" using len l3 bound by auto
  moreover have "sb_generation sb = generation" by (simp add: sb_def)
  moreover have "compact_pages P5 sb roots"
  proof -
    have C2: "C2 \<noteq> []" "8 \<le> length (payload (C2 ! 0))"
      using row_chain_head [of Rows "length P1" ?nf rows] by (simp_all add: C2_def)
    have small: "length P1 < length P2" "length P2 < length P3" "0 < length P1" using C2(1) by (simp_all add: l1 l2 l3)
    have heads: "unat (sb_rows_head sb) = length P1" "unat (sb_index_directory_head sb) = length P2"
      using small id by (simp_all add: sb_def)
    have "P3 ! length P1 = C2 ! 0" using C2(1) by (simp add: P3_def P2_def nth_append)
    then have "P5 ! length P1 = C2 ! 0" using other small by simp
    then show ?thesis using C2(2) dir by (simp add: compact_pages_def heads)
  qed
  moreover have "length P5 \<le> 3 * (length rows * length flds) + 6"
    using s1 s2 new(2) by (simp add: len l1 l2 l3 algebra_simps)
  ultimately show ?thesis using run f5 by blast
qed

section \<open>The round trip\<close>

lemma build_image_ok:
  assumes "table_ok flds rows" and "image_fits flds rows"
  shows "\<exists>img pages sb roots. build_image flds rows generation = Inr img \<and> pages \<noteq> [] \<and>
    length pages \<le> MAX_PAGES \<and> pages_from 0 pages \<and> encode_pages pages = Inr img \<and>
    table_pages pages sb flds rows roots \<and> sb_generation sb = generation \<and>
    compact_pages pages sb roots \<and> length pages \<le> 3 * (length rows * length flds) + 6"
proof -
  from build_pages_ok [OF assms, of generation] obtain pages sb roots where
    p: "build_pages flds rows generation = Inr pages" "pages \<noteq> []" "length pages \<le> MAX_PAGES"
      "pages_from 0 pages" "table_pages pages sb flds rows roots" "sb_generation sb = generation"
      "compact_pages pages sb roots" "length pages \<le> 3 * (length rows * length flds) + 6"
    by blast
  then have "\<forall>p \<in> set pages. page_ok p" by (metis in_set_conv_nth pages_from_def)
  then have "encode_pages pages = Inr (concat (map page_bytes pages))" by (simp add: encode_pages_iff)
  then show ?thesis using p by (auto simp: build_image_def)
qed

lemma build_parse:
  assumes "table_ok flds rows" and "image_fits flds rows"
  shows "\<exists>img pages sb roots. build_image flds rows generation = Inr img \<and>
    sb_generation sb = generation \<and>
    (\<forall>wal_present. parse_image img wal_present = Inr (loaded_from sb flds rows roots wal_present, pages))"
  using build_image_ok [OF assms, of generation] unfolding parse_image_iff by blast

lemma loaded_from_sel [simp]:
  "lt_fields (loaded_from sb flds rows roots w) = flds"
  "lt_rows (loaded_from sb flds rows roots w) = rows"
  "lt_indexes (loaded_from sb flds rows roots w) = map (field_entries rows) [0..<length flds]"
  "in_generation (lt_inspection (loaded_from sb flds rows roots w)) = sb_generation sb"
  "in_page_count (lt_inspection (loaded_from sb flds rows roots w)) = sb_page_count sb"
  "in_row_count (lt_inspection (loaded_from sb flds rows roots w)) = sb_row_count sb"
  "in_field_count (lt_inspection (loaded_from sb flds rows roots w)) = sb_field_count sb"
  "in_index_roots (lt_inspection (loaded_from sb flds rows roots w)) = roots"
  "in_wal_present (lt_inspection (loaded_from sb flds rows roots w)) = w"
  by (simp_all add: loaded_from_def)

lemma parse_image_table:
  assumes "parse_image img wal_present = Inr (t, pages)"
  shows "table_ok (lt_fields t) (lt_rows t)"
    and "lt_indexes t = map (field_entries (lt_rows t)) [0..<length (lt_fields t)]"
    and "encode_pages pages = Inr img" and "length img = PAGE_SIZE * length pages"
    and "unat (in_row_count (lt_inspection t)) = length (lt_rows t)"
    and "unat (in_page_count (lt_inspection t)) = length pages"
proof -
  from assms obtain sb flds rows roots where e: "encode_pages pages = Inr img"
    and tp: "table_pages pages sb flds rows roots" and t: "t = loaded_from sb flds rows roots wal_present"
    unfolding parse_image_iff by blast
  show "table_ok (lt_fields t) (lt_rows t)"
    "lt_indexes t = map (field_entries (lt_rows t)) [0..<length (lt_fields t)]"
    "unat (in_row_count (lt_inspection t)) = length (lt_rows t)"
    "unat (in_page_count (lt_inspection t)) = length pages"
    using tp by (simp_all add: t table_pages_def)
  show "encode_pages pages = Inr img" by (rule e)
  then show "length img = PAGE_SIZE * length pages"
    by (auto simp: encode_pages_iff length_concat_page_bytes)
qed

section \<open>How parsing fails\<close>

definition reserve_error :: error where
  "reserve_error = Length_Error ''vector::reserve''"

lemma foldE_corrupt:
  "(\<And>s x. corruption_only (f s x)) \<Longrightarrow> corruption_only (foldE f s xs)"
  by (induction xs arbitrary: s) (auto intro!: corr_intros)

lemma parse_pages_corrupt: "corruption_only (parse_pages img)"
  by (auto simp: parse_pages_def parse_page_def intro!: foldE_corrupt corr_intros)

lemma parse_superblock_corrupt: "corruption_only (parse_superblock pages)"
  by (auto simp: parse_superblock_def intro!: corr_intros split: prod.splits)

lemma parse_schema_corrupt: "corruption_only (parse_schema n bs)"
  by (auto simp: parse_schema_def intro!: corr_intros split: prod.splits)

lemma parse_directory_corrupt: "corruption_only (parse_directory n bs)"
  by (auto simp: parse_directory_def intro!: corr_intros split: prod.splits)

lemma parse_rows_alloc_error:
  assumes "parse_rows_alloc grants n k bs = Inl e"
  shows "is_corruption e \<or> e = reserve_error \<and> ROW_VECTOR_MAX < unat k \<or>
    e = Bad_Alloc \<and> unat k \<le> ROW_VECTOR_MAX \<and> \<not> grants (unat k)"
proof (cases "ROW_VECTOR_MAX < unat k \<or> \<not> grants (unat k)")
  case False
  then have "corruption_only (parse_rows_alloc grants n k bs)"
    unfolding parse_rows_alloc_def
    by (simp only: de_Morgan_disj not_not throw_if_False bindE_Inr)
      (auto intro!: corr_intros crow.many_corrupt split: prod.splits)
  then show ?thesis using assms by (simp add: corruption_only_def)
next
  case True
  have "is_corruption e'" if "reader_u64 (Reader bs ''row stream'') = Inl e'" for e'
    using c64.fails_corrupt that by (simp add: corruption_only_def)
  then show ?thesis
    using assms True
    by (auto simp: parse_rows_alloc_def run_err throw_if_eq_Inr not_less reserve_error_def split: prod.splits)
qed

lemma parse_rows_alloc_iff:
  "parse_rows_alloc grants n k bs = Inr rows \<longleftrightarrow> parse_rows n k bs = Inr rows \<and> grants (length rows)"
proof (cases "grants (unat k)")
  case True
  then have "parse_rows_alloc grants n k bs = parse_rows n k bs"
    by (simp add: parse_rows_alloc_def parse_rows_eq)
  then show ?thesis using True by (auto simp: parse_rows_iff)
next
  case False
  then have "parse_rows_alloc grants n k bs \<noteq> Inr rows"
    by (auto simp: parse_rows_alloc_def run_inv split: prod.splits)
  then show ?thesis using False by (auto simp: parse_rows_iff)
qed

lemma parse_rows_alloc_refused:
  assumes "parse_rows n k bs = Inr rows" and "\<not> grants (length rows)"
  shows "parse_rows_alloc grants n k bs = Inl Bad_Alloc"
proof -
  have "length rows = unat k" using assms(1) by (simp add: parse_rows_iff)
  then show ?thesis
    using assms unfolding parse_rows_alloc_def parse_rows_eq by (auto simp: run_inv split: prod.splits)
qed

lemma parse_index_corrupt: "corruption_only (parse_index pages rows roots s field)"
  unfolding parse_index_def
  by (auto intro!: corr_intros foldE_corrupt simp: check_leaf_def check_entry_def Let_def
      split: prod.splits)

text \<open>A success is one that room for every vector gives, and its rows had room.\<close>

lemma parse_image_alloc_iff:
  "parse_image_alloc grants img w = Inr (t, pages) \<longleftrightarrow>
   parse_image img w = Inr (t, pages) \<and> grants (length (lt_rows t))"
  by (auto simp: parse_image_alloc_def parse_image_eq run_inv parse_rows_alloc_iff split: prod.splits)

text \<open>A failure is a corruption, or comes from the row count of the superblock.\<close>

lemma parse_image_alloc_error:
  assumes "parse_image_alloc grants img w = Inl e"
  shows "is_corruption e \<or> (\<exists>pages sb. parse_pages img = Inr pages \<and> parse_superblock pages = Inr sb \<and>
    (e = reserve_error \<and> ROW_VECTOR_MAX < unat (sb_row_count sb) \<or>
     e = Bad_Alloc \<and> unat (sb_row_count sb) \<le> ROW_VECTOR_MAX \<and> \<not> grants (unat (sb_row_count sb))))"
proof (cases "is_corruption e")
  case False
  have no: "m \<noteq> Inl e" if "corruption_only m" for m :: "'x res"
    using that False by (auto simp: corruption_only_def)
  show ?thesis
    using assms False unfolding parse_image_alloc_def
    by (auto simp: bindE_eq_Inl throw_if_eq_Inl no [OF parse_pages_corrupt]
        no [OF parse_superblock_corrupt] no [OF parse_schema_corrupt] no [OF parse_directory_corrupt]
        no [OF read_chain_corrupt] no [OF foldE_corrupt [OF parse_index_corrupt]]
        split: prod.splits dest: parse_rows_alloc_error)
qed simp

lemma parse_image_alloc_refused:
  assumes "parse_image img w = Inr (t, pages)" and "\<not> grants (length (lt_rows t))"
  shows "parse_image_alloc grants img w = Inl Bad_Alloc"
  using assms unfolding parse_image_alloc_def parse_image_eq
  by (auto simp: run_inv parse_rows_alloc_refused split: prod.splits)

end
