(* ===== verification/Wal.thy ===== *)
theory Wal
  imports Image_Roundtrip
begin

text \<open>
  The write-ahead log record of \<open>storage_v2.cpp\<close>: \<open>wal_record\<close> and \<open>parse_wal\<close>. A record is a
  40-byte header, a whole database image and a 16-byte commit footer whose checksum covers
  everything before it. Parsing accepts exactly the records of valid images, so a torn record (a
  strict prefix) and a record with one changed byte are both rejected.
\<close>

section \<open>Writing and parsing\<close>

definition wal_magic :: bytes where
  "wal_magic = map byte_of_char ''SQL2WAL'' @ [0]"

definition wal_commit :: bytes where
  "wal_commit = map byte_of_char ''COMMIT2'' @ [0]"

definition wal_record :: "bytes \<Rightarrow> u64 \<Rightarrow> bytes" where
  "wal_record img generation =
     (let rec = wal_magic;
          rec = append_u32 rec 1;
          rec = append_u32 rec 40;
          rec = append_u64 rec (word_of_nat (length img));
          rec = append_u64 rec generation;
          rec = append_u32 rec (crc32 img);
          rec = append_u32 rec 0;
          rec = rec @ img;
          record_checksum = crc32 rec;
          rec = rec @ wal_commit;
          rec = append_u32 rec record_checksum
      in append_u32 rec 0)"

definition WAL_HEADER :: nat where "WAL_HEADER = 40"
definition WAL_FOOTER :: nat where "WAL_FOOTER = 16"

definition parse_wal_frame :: "bytes \<Rightarrow> (bytes \<times> u64) res" where
  "parse_wal_frame wal =
     bindE (throw_if (length wal < WAL_HEADER + WAL_FOOTER)
       (corruption ''WAL contains an incomplete record'')) (\<lambda>_.
     bindE (throw_if (take 8 wal \<noteq> wal_magic) (corruption ''WAL magic is invalid'')) (\<lambda>_.
     bindE (reader_u32 (Reader (take (WAL_HEADER - 8) (drop 8 wal)) ''WAL header'')) (\<lambda>(version, r).
     bindE (throw_if (version \<noteq> 1) (corruption ''WAL version is invalid'')) (\<lambda>_.
     bindE (reader_u32 r) (\<lambda>(header_size, r).
     bindE (throw_if (header_size \<noteq> word_of_nat WAL_HEADER)
       (corruption ''WAL version is invalid'')) (\<lambda>_.
     bindE (reader_u64 r) (\<lambda>(image_size, r).
     bindE (reader_u64 r) (\<lambda>(generation, r).
     bindE (reader_u32 r) (\<lambda>(image_checksum, r).
     bindE (reader_u32 r) (\<lambda>(zero, r).
     bindE (throw_if (zero \<noteq> 0 \<or> reader_remaining r \<noteq> 0)
       (corruption ''WAL header is invalid'')) (\<lambda>_.
     bindE (throw_if (unat image_size > 2 ^ 64 - 1 \<or>
         unat image_size \<noteq> length wal - WAL_HEADER - WAL_FOOTER)
       (corruption ''WAL image length is invalid'')) (\<lambda>_.
     let footer_offset = WAL_HEADER + unat image_size in
     bindE (throw_if (take 8 (drop footer_offset wal) \<noteq> wal_commit)
       (corruption ''WAL commit footer is invalid'')) (\<lambda>_.
     bindE (throw_if (read_u32_at wal (footer_offset + 12) \<noteq> 0)
       (corruption ''WAL footer is invalid'')) (\<lambda>_.
     bindE (throw_if (crc32 (take footer_offset wal) \<noteq> read_u32_at wal (footer_offset + 8))
       (corruption ''WAL record checksum mismatch'')) (\<lambda>_.
     let img = take (footer_offset - WAL_HEADER) (drop WAL_HEADER wal) in
     bindE (throw_if (crc32 img \<noteq> image_checksum)
       (corruption ''WAL image checksum mismatch'')) (\<lambda>_.
     Inr (img, generation)))))))))))))))))"

definition parse_wal :: "bytes \<Rightarrow> (bytes \<times> u64) res" where
  "parse_wal wal =
     bindE (parse_wal_frame wal) (\<lambda>(img, generation).
     bindE (parse_image img True) (\<lambda>(table, pages).
     bindE (throw_if (in_generation (lt_inspection table) \<noteq> generation)
       (corruption ''WAL generation does not match its database image'')) (\<lambda>_.
     Inr (img, generation))))"

section \<open>The frame\<close>

definition wal_header :: "bytes \<Rightarrow> u64 \<Rightarrow> bytes" where
  "wal_header img generation = le32 1 @ le32 40 @ le64 (word_of_nat (length img)) @
     le64 generation @ le32 (crc32 img) @ le32 0"

definition wal_body :: "bytes \<Rightarrow> u64 \<Rightarrow> bytes" where
  "wal_body img generation = wal_magic @ wal_header img generation @ img"

lemma wal_record_eq:
  "wal_record img generation =
     wal_body img generation @ wal_commit @ le32 (crc32 (wal_body img generation)) @ le32 0"
  by (simp add: wal_record_def wal_body_def wal_header_def append_eqs Let_def)

lemma length_wal [simp]:
  "length wal_magic = 8" "length wal_commit = 8" "length (wal_header img generation) = 32"
  "length (wal_body img generation) = 40 + length img"
  "length (wal_record img generation) = 56 + length img"
  by (simp_all add: wal_magic_def wal_commit_def wal_header_def wal_body_def wal_record_eq)

lemma parse_wal_frame_corrupt: "corruption_only (parse_wal_frame wal)"
  unfolding parse_wal_frame_def Let_def
  by (auto intro!: corr_intros split: prod.splits)

lemma parse_wal_frame_raw:
  "parse_wal_frame wal = Inr (img, generation) \<longleftrightarrow>
   56 \<le> length wal \<and> take 8 wal = wal_magic \<and>
   (\<exists>n. take 32 (drop 8 wal) = le32 1 @ le32 40 @ le64 n @ le64 generation @ le32 (crc32 img) @ le32 0 \<and>
      unat n = length wal - 56 \<and> take 8 (drop (40 + unat n) wal) = wal_commit \<and>
      read_u32_at wal (40 + unat n + 12) = 0 \<and>
      crc32 (take (40 + unat n) wal) = read_u32_at wal (40 + unat n + 8) \<and>
      img = take (unat n) (drop 40 wal))"
proof -
  have le: "unat n \<le> 2 ^ 64 - 1" for n :: u64
    using unsigned_less [of n, where ?'a = nat] by simp
  show ?thesis
    unfolding parse_wal_frame_def Let_def WAL_HEADER_def WAL_FOOTER_def
    using le
    by (auto simp: bindE_eq_Inr [of "throw_if _ _"] throw_if_eq_Inr not_less c32.bind_iff c64.bind_iff)
      (drule arg_cong [of _ _ length], simp)
qed

lemma parse_wal_frame_iff:
  "parse_wal_frame wal = Inr (img, generation) \<longleftrightarrow>
   wal = wal_record img generation \<and> length img < 2 ^ 64"
proof
  assume "parse_wal_frame wal = Inr (img, generation)"
  then obtain n where len: "56 \<le> length wal" and magic: "take 8 wal = wal_magic"
    and header: "take 32 (drop 8 wal) =
      le32 1 @ le32 40 @ le64 n @ le64 generation @ le32 (crc32 img) @ le32 0"
    and n: "unat n = length wal - 56" and commit: "take 8 (drop (40 + unat n) wal) = wal_commit"
    and zero: "read_u32_at wal (40 + unat n + 12) = 0"
    and crc: "crc32 (take (40 + unat n) wal) = read_u32_at wal (40 + unat n + 8)"
    and img: "img = take (unat n) (drop 40 wal)"
    unfolding parse_wal_frame_raw by blast
  have size: "length img = unat n" using len n by (simp add: img)
  have "wal = take (8 + (32 + (unat n + (8 + (4 + 4))))) wal" using len n by simp
  also have "\<dots> = take 8 wal @ take 32 (drop 8 wal) @ take (unat n) (drop 40 wal) @
      take 8 (drop (40 + unat n) wal) @ take 4 (drop (48 + unat n) wal) @ take 4 (drop (52 + unat n) wal)"
    by (simp only: take_add drop_drop) (simp add: add.commute)
  finally have parts: "wal = wal_magic @ wal_header img generation @ img @ wal_commit @
      take 4 (drop (48 + unat n) wal) @ take 4 (drop (52 + unat n) wal)"
    by (simp only: magic header commit img [symmetric] wal_header_def size) simp
  have "take (40 + unat n) (wal_magic @ wal_header img generation @ img @ rest) =
      wal_body img generation" for rest
    by (simp add: wal_body_def size)
  then have "take (40 + unat n) wal = wal_body img generation" by (metis parts)
  then have "take 4 (drop (48 + unat n) wal) = le32 (crc32 (wal_body img generation))"
    using crc len n by (simp add: read_u32_at_eq le32_un32 add.commute)
  moreover have "take 4 (drop (52 + unat n) wal) = le32 0"
  proof -
    have "un32 (take 4 (drop (52 + unat n) wal)) = 0"
      using zero len n by (simp add: read_u32_at_eq add.commute)
    moreover have "length (take 4 (drop (52 + unat n) wal)) = 4" using len n by simp
    ultimately show ?thesis by (metis le32_un32)
  qed
  ultimately have "wal = wal_record img generation"
    using parts by (simp only: wal_record_eq wal_body_def append_assoc)
  then show "wal = wal_record img generation \<and> length img < 2 ^ 64"
    using size unsigned_less [of n, where ?'a = nat] by simp
next
  assume "wal = wal_record img generation \<and> length img < 2 ^ 64"
  then have wal: "wal = wal_record img generation"
    and n: "unat (word_of_nat (length img) :: u64) = length img"
    by (simp_all add: unat_of_nat take_bit_nat_eq_self)
  have "take 8 wal = wal_magic"
    "take 32 (drop 8 wal) = wal_header img generation"
    "take 8 (drop (40 + length img) wal) = wal_commit"
    "take (40 + length img) wal = wal_body img generation"
    "take (length img) (drop 40 wal) = img"
    by (simp_all add: wal wal_record_eq wal_body_def)
  moreover have "read_u32_at wal (40 + length img + 8) = crc32 (wal_body img generation)"
    "read_u32_at wal (40 + length img + 12) = 0"
    by (simp_all add: wal read_u32_at_eq) (simp_all add: wal_record_eq)
  ultimately show "parse_wal_frame wal = Inr (img, generation)"
    unfolding parse_wal_frame_raw
    by (intro conjI exI [of _ "word_of_nat (length img)"]) (simp_all add: n wal_header_def wal)
qed

section \<open>What is accepted and what is rejected\<close>

lemma parse_wal_iff:
  "parse_wal wal = Inr (img, generation) \<longleftrightarrow>
   wal = wal_record img generation \<and>
   (\<exists>t pages. parse_image img True = Inr (t, pages) \<and> in_generation (lt_inspection t) = generation)"
proof -
  have "length img < 2 ^ 64" if "parse_image img True = Inr (t, pages)" for t pages
  proof -
    have "length pages < 2 ^ 32" using that by (auto simp: parse_image_iff MAX_PAGES_def)
    moreover have "length img = 4096 * length pages"
      using parse_image_table(4) [OF that] by (simp add: PAGE_SIZE_def)
    ultimately show ?thesis by simp
  qed
  then show ?thesis
    by (auto simp: parse_wal_def run_inv parse_wal_frame_iff split: prod.splits)
qed

lemma parse_wal_frame_rejects:
  assumes "\<And>img generation. wal \<noteq> wal_record img generation"
  shows "\<exists>e. parse_wal wal = Inl e \<and> is_corruption e"
proof (cases "parse_wal_frame wal")
  case (Inl e)
  then show ?thesis
    using parse_wal_frame_corrupt [of wal] by (auto simp: parse_wal_def corruption_only_def)
next
  case (Inr x)
  then show ?thesis using assms by (cases x) (simp add: parse_wal_frame_iff)
qed

lemma wal_record_size:
  assumes "length img < 2 ^ 64" "length img' < 2 ^ 64"
    and "take 24 (wal_record img generation) = take 24 (wal_record img' generation')"
  shows "length img = length img'"
proof -
  have "take 8 (drop 16 (take 24 (wal_record i g))) = le64 (word_of_nat (length i))" for i g
    by (simp add: wal_record_eq wal_body_def wal_header_def)
  with assms(3) have "(word_of_nat (length img) :: u64) = word_of_nat (length img')"
    by (metis le_inject(3))
  then have "unat (word_of_nat (length img) :: u64) = unat (word_of_nat (length img') :: u64)" by simp
  then show ?thesis using assms(1,2) by (simp add: unat_of_nat take_bit_nat_eq_self)
qed

lemma torn_record_rejected:
  assumes "n < length (wal_record img generation)" and "length img < 2 ^ 64"
  shows "\<exists>e. parse_wal (take n (wal_record img generation)) = Inl e \<and> is_corruption e"
proof (cases "parse_wal_frame (take n (wal_record img generation))")
  case (Inl e)
  then show ?thesis
    using parse_wal_frame_corrupt [of "take n (wal_record img generation)"]
    by (auto simp: parse_wal_def corruption_only_def)
next
  case (Inr x)
  then obtain img' generation' where
    w: "take n (wal_record img generation) = wal_record img' generation'" "length img' < 2 ^ 64"
    by (cases x) (simp add: parse_wal_frame_iff)
  have "length (wal_record img' generation') = n" using w(1) assms(1) by (metis length_take min.absorb4)
  then have n: "n = 56 + length img'" by simp
  then have "take 24 (wal_record img generation) = take 24 (wal_record img' generation')"
    by (simp flip: w(1))
  then have "length img = length img'" using assms(2) w(2) by (intro wal_record_size)
  then show ?thesis using n assms(1) by simp
qed

lemma changed_record_rejected:
  assumes k: "k < length (wal_record img generation)" and x: "x \<noteq> wal_record img generation ! k"
    and size: "length img < 2 ^ 64"
  shows "\<exists>e. parse_wal ((wal_record img generation)[k := x]) = Inl e \<and> is_corruption e"
proof (rule parse_wal_frame_rejects)
  let ?w = "wal_record img generation" and ?b = "wal_body img generation"
  fix img' generation'
  let ?w' = "wal_record img' generation'" and ?b' = "wal_body img' generation'"
  show "?w[k := x] \<noteq> ?w'"
  proof
    assume eq: "?w[k := x] = ?w'"
    then have "length (?w[k := x]) = length ?w'" by simp
    then have len: "length ?b = length ?b'" by simp
    show False
    proof (cases "k < length ?b")
      case True
      then have upd: "?w[k := x] = ?b[k := x] @ wal_commit @ le32 (crc32 ?b) @ le32 0"
        by (simp add: wal_record_eq list_update_append)
      have "?b[k := x] @ wal_commit @ le32 (crc32 ?b) @ le32 0 =
          ?b' @ wal_commit @ le32 (crc32 ?b') @ le32 0"
        by (simp only: upd [symmetric] eq wal_record_eq [of img'])
      then have "?b[k := x] = ?b'" "crc32 ?b' = crc32 ?b"
        using len by simp_all
      moreover have "?b ! k \<noteq> x" using x True by (simp add: wal_record_eq nth_append)
      ultimately show False using crc32_update_detects [OF True] by metis
    next
      case False
      then have "take (length ?b) (?w[k := x]) = ?b"
        by (simp add: wal_record_eq)
      then have "?b' = ?b" using eq len by (metis append_eq_conv_conj wal_record_eq)
      then have "?w[k := x] = ?w" using eq by (simp add: wal_record_eq)
      then show False using k x by (metis nth_list_update_eq)
    qed
  qed
qed

end
