(* ===== verification/Page_Buffer.thy ===== *)
theory Page_Buffer
  imports Page
begin

text \<open>
  \<open>page_buffer.cpp\<close>: an owned image with the set of its dirty pages. The lemmas state what the
  constructor guarantees (a non-empty whole number of pages, a non-empty dirty set inside the
  image) and that under it no read is out of range and visiting the dirty pages hands out each
  dirty page once, in ascending order.
\<close>

definition PAGE_BYTES :: nat where "PAGE_BYTES = 4096"

record page_buffer =
  pb_image :: bytes
  pb_dirty :: "u32 set"

definition pb_page_count :: "page_buffer \<Rightarrow> nat" where
  "pb_page_count b = length (pb_image b) div PAGE_BYTES"

text \<open>The ordered traversal of a \<open>std::set\<close> of page identifiers.\<close>

definition ascending :: "u32 set \<Rightarrow> u32 list" where
  "ascending = sorted_list_of_set"

definition PageBuffer :: "bytes \<Rightarrow> u32 set \<Rightarrow> page_buffer res" where
  "PageBuffer img dirty =
     (let b = \<lparr>pb_image = img, pb_dirty = dirty\<rparr> in
      bindE (throw_if (img = [] \<or> length img mod PAGE_BYTES \<noteq> 0)
        (Invalid_Argument ''Page buffer requires a non-empty complete page image'')) (\<lambda>_.
      bindE (throw_if (pb_page_count b > 2 ^ 32 - 1)
        (Length_Error ''Page buffer contains too many pages'')) (\<lambda>_.
      let b = (if dirty = {} then b\<lparr>pb_dirty := set (map word_of_nat [0..<pb_page_count b])\<rparr> else b) in
      bindE (throw_if (unat (last (ascending (pb_dirty b))) \<ge> pb_page_count b)
        (Out_Of_Range ''Dirty page is outside the owned image'')) (\<lambda>_.
      Inr b))))"

definition page_data :: "page_buffer \<Rightarrow> u32 \<Rightarrow> bytes res" where
  "page_data b i =
     (if unat i \<ge> pb_page_count b
      then Inl (Out_Of_Range ''Page buffer read is outside the owned image'')
      else Inr (take PAGE_BYTES (drop (unat i * PAGE_BYTES) (pb_image b))))"

text \<open>A visitor is a fallible state transformer; the two loops thread its state.\<close>

definition visit_page ::
  "page_buffer \<Rightarrow> ('s \<Rightarrow> u32 \<Rightarrow> bytes \<Rightarrow> 's res) \<Rightarrow> 's \<Rightarrow> u32 \<Rightarrow> 's res" where
  "visit_page b visitor s i = bindE (page_data b i) (visitor s i)"

definition visit_pages :: "page_buffer \<Rightarrow> ('s \<Rightarrow> u32 \<Rightarrow> bytes \<Rightarrow> 's res) \<Rightarrow> 's \<Rightarrow> 's res" where
  "visit_pages b visitor s = foldE (visit_page b visitor) s (map word_of_nat [0..<pb_page_count b])"

definition visit_dirty_pages :: "page_buffer \<Rightarrow> ('s \<Rightarrow> u32 \<Rightarrow> bytes \<Rightarrow> 's res) \<Rightarrow> 's \<Rightarrow> 's res" where
  "visit_dirty_pages b visitor s = foldE (visit_page b visitor) s (ascending (pb_dirty b))"

definition buffer_ok :: "page_buffer \<Rightarrow> bool" where
  "buffer_ok b \<longleftrightarrow> pb_image b \<noteq> [] \<and> length (pb_image b) = PAGE_BYTES * pb_page_count b \<and>
     pb_page_count b \<le> 2 ^ 32 - 1 \<and> pb_dirty b \<noteq> {} \<and>
     (\<forall>i \<in> pb_dirty b. unat i < pb_page_count b)"

lemma finite_u32_set [simp]: "finite (A :: u32 set)"
  by (rule finite_subset [OF subset_UNIV]) simp

lemma set_ascending [simp]: "set (ascending A) = A"
  by (simp add: ascending_def)

lemma ascending_sorted: "sorted (ascending A) \<and> distinct (ascending A)"
  by (simp add: ascending_def)

lemma last_ascending: "A \<noteq> {} \<Longrightarrow> last (ascending A) = Max A"
proof -
  assume "A \<noteq> {}"
  then have "ascending A \<noteq> []" by (metis set_ascending set_empty)
  then obtain ys y where ys: "ascending A = ys @ [y]" by (cases "ascending A" rule: rev_cases) auto
  then have A: "A = insert y (set ys)" using set_ascending [of A] by simp
  have "\<forall>x \<in> set ys. x \<le> y" using ascending_sorted [of A] by (simp add: ys sorted_append)
  then have "Max A = y" unfolding A by (intro Max_eqI) auto
  then show ?thesis by (simp add: ys)
qed

lemma unat_Max_less:
  assumes "A \<noteq> {}"
  shows "unat (Max A) < n \<longleftrightarrow> (\<forall>i \<in> A. unat (i :: u32) < n)"
proof -
  have "Max A \<in> A" using assms by simp
  moreover have "unat i \<le> unat (Max A)" if "i \<in> A" for i
    using that by (simp add: word_le_nat_alt [symmetric])
  ultimately show ?thesis using le_less_trans by blast
qed

lemma PageBuffer_iff:
  "PageBuffer img dirty = Inr b \<longleftrightarrow>
   buffer_ok b \<and> pb_image b = img \<and>
   pb_dirty b = (if dirty = {} then set (map word_of_nat [0..<pb_page_count b]) else dirty)"
  (is "_ \<longleftrightarrow> ?R")
proof -
  define n where "n = length img div PAGE_BYTES"
  define D where "D = (if dirty = {} then set (map word_of_nat [0..<n]) else dirty)"
  let ?b = "\<lparr>pb_image = img, pb_dirty = D\<rparr>"
  have count: "pb_page_count \<lparr>pb_image = img, pb_dirty = x\<rparr> = n" for x
    by (simp add: pb_page_count_def n_def)
  have run: "PageBuffer img dirty = Inr b \<longleftrightarrow>
      img \<noteq> [] \<and> length img mod PAGE_BYTES = 0 \<and> n \<le> 2 ^ 32 - 1 \<and>
      unat (last (ascending D)) < n \<and> b = ?b"
    by (auto simp: PageBuffer_def Let_def run_inv count D_def not_le)
  have whole: "length img mod PAGE_BYTES = 0 \<longleftrightarrow> length img = PAGE_BYTES * n"
    unfolding n_def by (metis dvd_eq_mod_eq_0 dvd_mult_div_cancel dvd_triv_left)
  have D: "D \<noteq> {}" if "img \<noteq> []" "length img = PAGE_BYTES * n"
    using that by (cases n) (auto simp: D_def)
  show ?thesis
    unfolding run whole
  proof
    assume *: "img \<noteq> [] \<and> length img = PAGE_BYTES * n \<and> n \<le> 2 ^ 32 - 1 \<and>
      unat (last (ascending D)) < n \<and> b = ?b"
    then have "\<forall>i \<in> D. unat i < n" using D by (simp add: last_ascending unat_Max_less)
    then have "buffer_ok b" using * D by (simp add: buffer_ok_def count)
    then show ?R using * by (simp add: count D_def)
  next
    assume R: ?R
    have img: "pb_image b = img" using R by blast
    then have n: "pb_page_count b = n" by (simp add: pb_page_count_def n_def)
    have dirty: "pb_dirty b = D" using R unfolding n D_def by blast
    have b: "b = ?b" by (rule page_buffer.equality) (simp_all add: img dirty)
    have "buffer_ok b" using R by blast
    then have "img \<noteq> []" "length img = PAGE_BYTES * n" "n \<le> 2 ^ 32 - 1" "D \<noteq> {}" "\<forall>i \<in> D. unat i < n"
      unfolding buffer_ok_def img n dirty by blast+
    then show "img \<noteq> [] \<and> length img = PAGE_BYTES * n \<and> n \<le> 2 ^ 32 - 1 \<and>
        unat (last (ascending D)) < n \<and> b = ?b"
      using b by (simp add: last_ascending unat_Max_less)
  qed
qed

lemma page_data_ok:
  assumes "buffer_ok b" and "i \<in> pb_dirty b"
  shows "\<exists>bs. page_data b i = Inr bs \<and> length bs = PAGE_BYTES"
proof -
  have "unat i < pb_page_count b" using assms by (simp add: buffer_ok_def)
  then have "Suc (unat i) * PAGE_BYTES \<le> pb_page_count b * PAGE_BYTES" by (intro mult_le_mono) auto
  then show ?thesis
    using assms \<open>unat i < pb_page_count b\<close>
    by (simp add: page_data_def buffer_ok_def mult.commute not_le)
qed

end
