(* ===== verification/Files.thy ===== *)
theory Files
  imports Prelude
begin

text \<open>
  The operating-system interface of the storage engine: files as byte strings, the POSIX calls the
  code issues, and what a crash of the process leaves behind. A process that dies between two
  calls leaves the effect of the calls before it; one that dies inside \<open>write_all\<close> leaves a
  prefix of the data. The kernel page cache survives, as in the repository's crash tests.
\<close>

type_synonym path = string
type_synonym files = "path \<Rightarrow> bytes option"

datatype syscall =
    Open_Create path            \<comment> \<open>\<open>open(O_WRONLY | O_CREAT)\<close>\<close>
  | Open_Truncate path          \<comment> \<open>\<open>open(O_WRONLY | O_CREAT | O_TRUNC)\<close>\<close>
  | Ftruncate path nat
  | Write path nat bytes        \<comment> \<open>\<open>write_all\<close> at a file offset\<close>
  | Fsync path
  | Fsync_Parent path
  | Crash_Point string          \<comment> \<open>\<open>maybe_crash\<close>\<close>

section \<open>Effects of the calls\<close>

definition resize :: "nat \<Rightarrow> bytes \<Rightarrow> bytes" where
  "resize n bs = take n bs @ replicate (n - length bs) 0"

definition write_at :: "nat \<Rightarrow> bytes \<Rightarrow> bytes \<Rightarrow> bytes" where
  "write_at off data bs =
     take off (bs @ replicate (off - length bs) 0) @ data @ drop (off + length data) bs"

fun exec :: "syscall \<Rightarrow> files \<Rightarrow> files" where
  "exec (Open_Create p) fs = (case fs p of None \<Rightarrow> fs(p \<mapsto> []) | Some _ \<Rightarrow> fs)"
| "exec (Open_Truncate p) fs = fs(p \<mapsto> [])"
| "exec (Ftruncate p n) fs = (case fs p of None \<Rightarrow> fs | Some bs \<Rightarrow> fs(p \<mapsto> resize n bs))"
| "exec (Write p off data) fs = (case fs p of None \<Rightarrow> fs | Some bs \<Rightarrow> fs(p \<mapsto> write_at off data bs))"
| "exec (Fsync p) fs = fs"
| "exec (Fsync_Parent p) fs = fs"
| "exec (Crash_Point s) fs = fs"

definition run :: "syscall list \<Rightarrow> files \<Rightarrow> files" where
  "run cs fs = fold exec cs fs"

lemma run_simps [simp]:
  "run [] fs = fs" "run (c # cs) fs = run cs (exec c fs)" "run (cs @ ds) fs = run ds (run cs fs)"
  by (simp_all add: run_def)

section \<open>Writing everything\<close>

text \<open>
  The loop of \<open>write_all\<close>, for the answers of successive \<open>write\<close> calls: a byte count (at most the
  chunk asked for), an interruption (\<open>EINTR\<close>), or another failure. The result is what reached the
  file and how the loop ended; running out of answers stands for the process dying in the loop.
\<close>

datatype write_answer = Written nat | Interrupted | Failed

definition SSIZE_MAX :: nat where "SSIZE_MAX = 2 ^ 63 - 1"

definition write_failed :: error where
  "write_failed = Runtime_Error ''Unable to write file descriptor''"

definition no_progress :: error where
  "no_progress = Runtime_Error ''File write made no progress''"

fun write_all :: "write_answer list \<Rightarrow> bytes \<Rightarrow> bytes \<times> unit res option" where
  "write_all answers [] = ([], Some (Inr ()))"
| "write_all [] (b # bs) = ([], None)"
| "write_all (Interrupted # as) (b # bs) = write_all as (b # bs)"
| "write_all (Failed # as) (b # bs) = ([], Some (Inl write_failed))"
| "write_all (Written n # as) (b # bs) =
     (let written = min n (min (length (b # bs)) SSIZE_MAX) in
      if written = 0 then ([], Some (Inl no_progress))
      else let (out, ending) = write_all as (drop written (b # bs))
           in (take written (b # bs) @ out, ending))"

lemma write_all_prefix:
  "write_all answers data = (out, ending) \<Longrightarrow> \<exists>n \<le> length data. out = take n data"
proof (induction answers data arbitrary: out ending rule: write_all.induct)
  case (5 n as b bs)
  let ?w = "min n (min (length (b # bs)) SSIZE_MAX)"
  show ?case
  proof (cases "?w = 0")
    case True
    with "5.prems" show ?thesis by (auto simp: Let_def)
  next
    case False
    obtain out' ending' where rec: "write_all as (drop ?w (b # bs)) = (out', ending')"
      by (cases "write_all as (drop ?w (b # bs))")
    with "5.prems" False have out: "out = take ?w (b # bs) @ out'"
      by (auto simp: Let_def split: prod.splits if_splits)
    from "5.IH" [OF refl False rec] obtain m where
      m: "m \<le> length (drop ?w (b # bs))" "out' = take m (drop ?w (b # bs))" by blast
    then have "out = take (?w + m) (b # bs)" using out by (simp only: take_add)
    moreover have "?w + m \<le> length (b # bs)" using m(1) by simp
    ultimately show ?thesis by blast
  qed
qed auto

lemma write_all_complete: "write_all answers data = (out, Some (Inr ())) \<Longrightarrow> out = data"
proof (induction answers data arbitrary: out rule: write_all.induct)
  case (5 n as b bs)
  let ?w = "min n (min (length (b # bs)) SSIZE_MAX)"
  show ?case
  proof (cases "?w = 0")
    case True
    with "5.prems" show ?thesis by (simp add: Let_def)
  next
    case False
    then obtain out' where rec: "write_all as (drop ?w (b # bs)) = (out', Some (Inr ()))"
      and out: "out = take ?w (b # bs) @ out'"
      using "5.prems" by (auto simp: Let_def split: prod.splits if_splits)
    from "5.IH" [OF refl False rec] show ?thesis using out by (simp only: append_take_drop_id)
  qed
qed auto

section \<open>Crashes\<close>

text \<open>\<open>crash cs fs fs'\<close>: a process that would issue the calls \<open>cs\<close> may leave \<open>fs'\<close> behind.\<close>

inductive crash :: "syscall list \<Rightarrow> files \<Rightarrow> files \<Rightarrow> bool" where
  crash_now: "crash cs fs fs"
| crash_in_write: "n \<le> length data \<Longrightarrow> crash (Write p off data # cs) fs (exec (Write p off (take n data)) fs)"
| crash_later: "crash cs (exec c fs) fs' \<Longrightarrow> crash (c # cs) fs fs'"

lemma crash_Nil [simp]: "crash [] fs fs' \<longleftrightarrow> fs' = fs"
  by (auto elim: crash.cases intro: crash_now)

lemma crash_Cons:
  "crash (c # cs) fs fs' \<longleftrightarrow> fs' = fs \<or> crash cs (exec c fs) fs' \<or>
   (\<exists>p off data n. c = Write p off data \<and> n \<le> length data \<and>
      fs' = exec (Write p off (take n data)) fs)"
proof
  assume "crash (c # cs) fs fs'"
  then show "fs' = fs \<or> crash cs (exec c fs) fs' \<or>
      (\<exists>p off data n. c = Write p off data \<and> n \<le> length data \<and>
         fs' = exec (Write p off (take n data)) fs)"
    by (cases rule: crash.cases) blast+
qed (blast intro: crash.intros)

lemma crash_append:
  "crash (cs @ ds) fs fs' \<longleftrightarrow> crash cs fs fs' \<or> crash ds (run cs fs) fs'"
proof (induction cs arbitrary: fs)
  case Nil
  then show ?case by (auto intro: crash_now)
next
  case (Cons c cs)
  then show ?case by (auto simp: crash_Cons)
qed

lemma crash_run: "crash cs fs (run cs fs)"
  by (induction cs arbitrary: fs) (auto intro: crash.intros)

end
