(* ===== verification/Commit.thy ===== *)
theory Commit
  imports Wal Page_Buffer Files
begin

text \<open>
  Committing an image and recovering from a crash: \<open>apply_image\<close>, \<open>clear_wal\<close>, \<open>commit_image\<close> and
  \<open>recover\<close> of \<open>storage_v2.cpp\<close>. An operation is the sequence of system calls it issues together
  with its outcome; the files a crash can leave behind are those of \<open>crash\<close> on that sequence.
\<close>

section \<open>Operations as call sequences\<close>

type_synonym effect = "syscall list \<times> unit res"

definition calls :: "syscall list \<Rightarrow> effect" where
  "calls cs = (cs, Inr ())"

definition raise :: "error \<Rightarrow> effect" where
  "raise e = ([], Inl e)"

definition and_then :: "effect \<Rightarrow> effect \<Rightarrow> effect" where
  "and_then m m' = (case snd m of Inl e \<Rightarrow> m | Inr _ \<Rightarrow> (fst m @ fst m', snd m'))"

lemma and_then_simps [simp]:
  "and_then (calls cs) (calls ds) = calls (cs @ ds)"
  "and_then (calls cs) (ds, r) = (cs @ ds, r)"
  "and_then (raise e) m = raise e"
  by (simp_all add: and_then_def calls_def raise_def)

definition database_path :: "string \<Rightarrow> path" where
  "database_path table_name = table_name @ ''.sql2''"

definition wal_path :: "path \<Rightarrow> path" where
  "wal_path p = p @ ''-wal''"

lemma wal_path_neq [simp]: "wal_path p \<noteq> p" "p \<noteq> wal_path p"
  by (simp_all add: wal_path_def)

definition file_exists :: "files \<Rightarrow> path \<Rightarrow> bool" where
  "file_exists fs p \<longleftrightarrow> fs p \<noteq> None"

definition read_file :: "files \<Rightarrow> path \<Rightarrow> bytes res" where
  "read_file fs p =
     (case fs p of None \<Rightarrow> Inl (Runtime_Error (''Table does not exist: '' @ p)) | Some bs \<Rightarrow> Inr bs)"

text \<open>\<open>exists(wal) && file_size(wal) != 0\<close>\<close>

definition wal_pending :: "files \<Rightarrow> path \<Rightarrow> bool" where
  "wal_pending fs p \<longleftrightarrow> (case fs (wal_path p) of None \<Rightarrow> False | Some bs \<Rightarrow> bs \<noteq> [])"

section \<open>Commit\<close>

definition OFF_MAX :: nat where "OFF_MAX = 2 ^ 63 - 1"

definition write_dirty_page :: "path \<Rightarrow> syscall list \<Rightarrow> u32 \<Rightarrow> bytes \<Rightarrow> syscall list res" where
  "write_dirty_page p cs i data =
     Inr (cs @ [Write p (unat i * PAGE_SIZE) data, Crash_Point (''page-'' @ to_string (unat i))])"

definition apply_image :: "files \<Rightarrow> path \<Rightarrow> page_buffer \<Rightarrow> effect" where
  "apply_image fs p b =
     (if length (pb_image b) > OFF_MAX
      then raise (Length_Error ''Database image exceeds the platform file-offset range'')
      else
        let first_creation = \<not> file_exists fs p in
        case visit_dirty_pages b (write_dirty_page p) [] of
          Inl e \<Rightarrow> raise e
        | Inr writes \<Rightarrow>
            calls ([Open_Create p, Ftruncate p (length (pb_image b))] @ writes @
              [Fsync p, Crash_Point ''data-fsync''] @
              (if first_creation then [Fsync_Parent p, Crash_Point ''database-directory-fsync'']
               else [])))"

definition clear_wal :: "path \<Rightarrow> syscall list" where
  "clear_wal w = [Open_Create w, Ftruncate w 0, Crash_Point ''wal-truncate'', Fsync w]"

definition write_wal :: "files \<Rightarrow> path \<Rightarrow> bytes \<Rightarrow> syscall list" where
  "write_wal fs w rec =
     [Open_Truncate w, Write w 0 rec, Crash_Point ''wal-write'', Fsync w, Crash_Point ''wal-fsync''] @
     (if \<not> file_exists fs w then [Fsync_Parent w, Crash_Point ''wal-directory-fsync''] else [])"

definition commit_image :: "files \<Rightarrow> path \<Rightarrow> bytes \<Rightarrow> u64 \<Rightarrow> u32 set \<Rightarrow> effect" where
  "commit_image fs p img generation dirty =
     (case PageBuffer img dirty of
        Inl e \<Rightarrow> raise e
      | Inr b \<Rightarrow>
          and_then (calls (write_wal fs (wal_path p) (wal_record (pb_image b) generation)))
            (and_then (apply_image fs p b)
              (calls (clear_wal (wal_path p) @ [Crash_Point ''wal-clear'']))))"

section \<open>Recovery\<close>

definition check_stale :: "files \<Rightarrow> path \<Rightarrow> u64 \<Rightarrow> unit res" where
  "check_stale fs p generation =
     (case fs p of
        None \<Rightarrow> Inr ()
      | Some db \<Rightarrow>
          (case parse_image db True of
             Inr (t, pages) \<Rightarrow>
               throw_if (in_generation (lt_inspection t) > generation)
                 (corruption ''stale WAL generation would roll back the database'')
           | Inl e \<Rightarrow> if is_corruption e then Inr () else Inl e))"

definition recover :: "files \<Rightarrow> path \<Rightarrow> effect" where
  "recover fs p =
     (if \<not> wal_pending fs p then calls []
      else
        case bindE (read_file fs (wal_path p)) parse_wal of
          Inl e \<Rightarrow> raise e
        | Inr (img, generation) \<Rightarrow>
            (case check_stale fs p generation of
               Inl e \<Rightarrow> raise e
             | Inr _ \<Rightarrow>
                 (case PageBuffer img {} of
                    Inl e \<Rightarrow> raise e
                  | Inr b \<Rightarrow> and_then (apply_image fs p b) (calls (clear_wal (wal_path p))))))"

end
