(* ===== verification/Torn_Page.thy ===== *)
theory Torn_Page
  imports Image_Roundtrip
begin

text \<open>
  What a torn database image can look like. Each page of a database that was being overwritten is
  a prefix of the new page followed by the rest of the old one. If such an image still parses, the
  generation in its superblock is spliced from the bytes of the two generations; the splice never
  exceeds the new generation, so recovery never mistakes a torn database for a newer one.
\<close>

section \<open>Splicing little-endian integers\<close>

definition splice_at :: "nat \<Rightarrow> 'a list \<Rightarrow> 'a list \<Rightarrow> 'a list" where
  "splice_at k new old = take k new @ drop k old"

lemma splice_simps [simp]:
  "splice_at 0 new old = old" "length new \<le> k \<Longrightarrow> length old \<le> k \<Longrightarrow> splice_at k new old = new"
  by (simp_all add: splice_at_def)

lemma length_splice [simp]: "length new = length old \<Longrightarrow> length (splice_at k new old) = length old"
  by (simp add: splice_at_def min_def)

lemma nth_splice:
  "length new = length old \<Longrightarrow> i < length old \<Longrightarrow>
   splice_at k new old ! i = (if i < k then new ! i else old ! i)"
  by (auto simp: splice_at_def nth_append min_def)

lemma splice_splice:
  "length new = length old \<Longrightarrow> splice_at k new (splice_at m new old) = splice_at (max k m) new old"
  by (rule nth_equalityI) (auto simp: nth_splice)

lemma slice_splice:
  "length new = length old \<Longrightarrow> off + n \<le> length old \<Longrightarrow>
   take n (drop off (splice_at k new old)) =
   splice_at (k - off) (take n (drop off new)) (take n (drop off old))"
  by (rule nth_equalityI) (auto simp: nth_splice)

lemma bit_nth_le64:
  assumes "i < 8"
  shows "bit (le64 v ! i) j \<longleftrightarrow> j < 8 \<and> bit v (8 * i + j)"
proof -
  have "i = 0 \<or> i = 1 \<or> i = 2 \<or> i = 3 \<or> i = 4 \<or> i = 5 \<or> i = 6 \<or> i = 7" using assms by arith
  then show ?thesis
    by (elim disjE) (simp_all add: le64_def append_u64_def bit_simps byte_mask, auto simp: add.commute)
qed

lemma splice_le64:
  assumes "splice_at k (le64 a) (le64 b) = le64 m"
  shows "unat m = unat a mod 2 ^ (8 * k) + 2 ^ (8 * k) * (unat b div 2 ^ (8 * k))"
proof -
  have bit_m: "bit m n \<longleftrightarrow> (if n < 8 * k then bit a n else bit b n)" if "n < 64" for n
  proof -
    have i: "n div 8 < 8" using that by simp
    have n: "8 * (n div 8) + n mod 8 = n" by simp
    have "bit m n \<longleftrightarrow> bit (splice_at k (le64 a) (le64 b) ! (n div 8)) (n mod 8)"
      using bit_nth_le64 [OF i, of m "n mod 8"] by (simp add: assms)
    also have "\<dots> \<longleftrightarrow> (if n div 8 < k then bit a n else bit b n)"
      using bit_nth_le64 [OF i, of a "n mod 8"] bit_nth_le64 [OF i, of b "n mod 8"] i
      by (simp add: nth_splice)
    also have "n div 8 < k \<longleftrightarrow> n < 8 * k" by (simp add: less_mult_imp_div_less div_less_iff_less_mult mult.commute)
    finally show ?thesis .
  qed
  have "unat m = take_bit (8 * k) (unat a) OR push_bit (8 * k) (drop_bit (8 * k) (unat b))"
  proof (rule bit_eqI)
    fix n
    show "bit (unat m) n \<longleftrightarrow>
        bit (take_bit (8 * k) (unat a) OR push_bit (8 * k) (drop_bit (8 * k) (unat b))) n"
    proof (cases "n < 64")
      case True
      then show ?thesis by (auto simp: bit_simps bit_m)
    next
      case False
      then show ?thesis by (auto simp: bit_simps impossible_bit)
    qed
  qed
  also have "\<dots> = take_bit (8 * k) (unat a) + push_bit (8 * k) (drop_bit (8 * k) (unat b))"
    by (subst disjunctive_add_eq_or [symmetric]) (auto simp: bit_eq_iff bit_simps)
  finally show ?thesis by (simp add: take_bit_eq_mod push_bit_eq_mult drop_bit_eq_div mult.commute)
qed

lemma splice_le64_le:
  assumes "splice_at k (le64 a) (le64 b) = le64 m" and "b \<le> a"
  shows "m \<le> a"
proof -
  have "unat b div 2 ^ (8 * k) \<le> unat a div 2 ^ (8 * k)"
    using assms(2) by (intro div_le_mono) (simp add: word_le_nat_alt)
  then have "2 ^ (8 * k) * (unat b div 2 ^ (8 * k)) \<le> 2 ^ (8 * k) * (unat a div 2 ^ (8 * k))"
    by (rule mult_le_mono2)
  then have "unat m \<le> unat a mod 2 ^ (8 * k) + 2 ^ (8 * k) * (unat a div 2 ^ (8 * k))"
    unfolding splice_le64 [OF assms(1)] by (rule add_left_mono)
  then show ?thesis unfolding mod_mult_div_eq by (simp only: word_le_nat_alt)
qed

lemma splice_le64_bound:
  assumes "splice_at k (le64 a) (le64 b) = le64 m" and "unat a < 2 ^ 56" "unat b < 2 ^ 56"
  shows "unat m < 2 ^ 56"
proof (cases "8 * k < 56")
  case True
  then have e: "(2 :: nat) ^ 56 = 2 ^ (8 * k) * 2 ^ (56 - 8 * k)" by (simp flip: power_add)
  have "unat b div 2 ^ (8 * k) < 2 ^ (56 - 8 * k)"
    using assms(3) unfolding e by (simp add: div_less_iff_less_mult mult.commute)
  then have "Suc (unat b div 2 ^ (8 * k)) \<le> 2 ^ (56 - 8 * k)" by simp
  then have "2 ^ (8 * k) * Suc (unat b div 2 ^ (8 * k)) \<le> 2 ^ 56" unfolding e by (rule mult_le_mono2)
  moreover have "unat a mod 2 ^ (8 * k) < 2 ^ (8 * k)" by simp
  ultimately show ?thesis
    unfolding splice_le64 [OF assms(1)] mult_Suc_right by (meson add_less_mono1 less_le_trans)
next
  case False
  then have "(2 :: nat) ^ 56 \<le> 2 ^ (8 * k)" by (intro power_increasing) auto
  then have "unat b div 2 ^ (8 * k) = 0" "unat a mod 2 ^ (8 * k) = unat a"
    using assms(2,3) by (auto intro: div_less mod_less)
  then show ?thesis using splice_le64 [OF assms(1)] assms(2) by simp
qed

section \<open>The superblock at its offset in the file\<close>

lemma superblock_bytes:
  assumes pages: "parse_pages img = Inr pages" and sb: "parse_superblock pages = Inr sb"
  shows "take 8 (drop 32 (take PAGE_SIZE img)) = le64 (sb_generation sb)"
    and "take 8 (drop 68 (take PAGE_SIZE img)) = le64 (sb_row_count sb)"
    and "PAGE_SIZE \<le> length img"
proof -
  from pages obtain p ps where ps: "pages = p # ps" by (cases pages) (auto simp: parse_pages_iff)
  from pages have ok: "page_ok p" and img: "img = page_bytes p @ concat (map page_bytes ps)"
    by (auto simp: parse_pages_iff encode_pages_iff ps)
  have len: "length (page_bytes p) = PAGE_SIZE" by (rule length_page_bytes [OF ok])
  have payload: "payload p = superblock_payload sb" using sb by (simp add: parse_superblock_iff ps)
  have "take PAGE_SIZE img = page_bytes p" using len by (simp add: img)
  also have "\<dots> = page_head p @ le32 (crc32 (page_form p (replicate 4 0))) @ replicate 8 0 @
      superblock_payload sb @ replicate (PAGE_PAYLOAD_SIZE - length (payload p)) 0"
    by (simp add: page_bytes_def page_form_def page_tail_def payload)
  finally have first: "take PAGE_SIZE img = page_head p @ le32 (crc32 (page_form p (replicate 4 0))) @
      replicate 8 0 @ superblock_payload sb @ replicate (PAGE_PAYLOAD_SIZE - length (payload p)) 0" .
  show "take 8 (drop 32 (take PAGE_SIZE img)) = le64 (sb_generation sb)"
    "take 8 (drop 68 (take PAGE_SIZE img)) = le64 (sb_row_count sb)"
    unfolding first by (simp_all add: superblock_payload_eq)
  show "PAGE_SIZE \<le> length img" using len by (simp add: img)
qed

lemma parse_image_superblock:
  assumes "parse_image img w = Inr (t, pages)"
  shows "\<exists>sb. parse_pages img = Inr pages \<and> parse_superblock pages = Inr sb \<and>
    in_generation (lt_inspection t) = sb_generation sb \<and> in_row_count (lt_inspection t) = sb_row_count sb"
  using assms by (auto simp: parse_image_eq run_inv split: prod.splits)

lemma parse_image_not_corruption:
  "parse_image img w = Inl e \<Longrightarrow> \<not> is_corruption e \<Longrightarrow>
   \<exists>pages sb. parse_pages img = Inr pages \<and> parse_superblock pages = Inr sb \<and>
     ROW_VECTOR_MAX < unat (sb_row_count sb)"
  using parse_image_alloc_error [of "\<lambda>_. True" img w e] by (auto simp: parse_image_def)

section \<open>A torn database is never taken for a newer one\<close>

text \<open>
  \<open>first_page_ok g bs\<close>: a first page whose superblock fields hold a generation of at most \<open>g\<close> and a
  row count a valid image can have. All-zero pages and the first pages of older images are such.
\<close>

definition first_page_ok :: "u64 \<Rightarrow> bytes \<Rightarrow> bool" where
  "first_page_ok g bs \<longleftrightarrow> length bs = PAGE_SIZE \<and>
     (\<exists>b r. take 8 (drop 32 bs) = le64 b \<and> b \<le> g \<and> take 8 (drop 68 bs) = le64 r \<and> unat r < 2 ^ 56)"

lemma first_page_ok_zero: "first_page_ok g (replicate PAGE_SIZE 0)"
proof -
  have "le64 0 = replicate 8 0" by (simp add: le64_def append_u64_def numeral_eq_Suc)
  then show ?thesis
    unfolding first_page_ok_def by (intro conjI exI [of _ 0]) (simp_all add: PAGE_SIZE_def)
qed

lemma chain_at_length:
  "chain_at pages t h bs ids \<Longrightarrow> \<forall>p \<in> set pages. page_ok p \<Longrightarrow>
   length bs \<le> PAGE_PAYLOAD_SIZE * length ids"
  by (induction rule: chain_at.induct) (auto simp: page_ok_def intro!: add_mono)

lemma row_count_bound:
  assumes "parse_image img w = Inr (t, pages)"
  shows "unat (in_row_count (lt_inspection t)) < 2 ^ 56"
proof -
  from assms obtain sb flds rows roots where
    pages: "length pages \<le> MAX_PAGES" "pages_from 0 pages" and
    tp: "table_pages pages sb flds rows roots" and t: "t = loaded_from sb flds rows roots w"
    unfolding parse_image_iff by blast
  have ok: "\<forall>p \<in> set pages. page_ok p" using pages(2) by (metis in_set_conv_nth pages_from_def)
  from tp obtain sids rids dids uss where
    r: "chain_at pages Rows (sb_rows_head sb) (row_bytes (sb_field_count sb) rows) rids" and
    l: "length (0 # sids @ rids @ dids @ concat uss) = length pages"
    unfolding table_pages_def by blast
  have "8 + 4 * length rs \<le> length (row_bytes (sb_field_count sb) rs)" for rs
  proof -
    have "4 * length rs \<le> length (concat (map (le_row n) rs))" for n
      by (induction rs) (auto simp: le_row_def)
    then show ?thesis by (simp add: row_bytes_def)
  qed
  then have "8 + 4 * length rows \<le> PAGE_PAYLOAD_SIZE * length rids"
    using chain_at_length [OF r ok] le_trans by blast
  also have "\<dots> \<le> PAGE_PAYLOAD_SIZE * length pages" using l by (intro mult_le_mono2) simp
  also have "\<dots> \<le> PAGE_PAYLOAD_SIZE * MAX_PAGES" using pages(1) by (rule mult_le_mono2)
  finally have "length rows < 2 ^ 56" by (simp add: page_consts MAX_PAGES_def)
  then show ?thesis using tp by (simp add: t table_pages_def)
qed

lemma first_page_ok_parsed:
  assumes "parse_image img w = Inr (t, pages)" and "in_generation (lt_inspection t) \<le> g"
  shows "first_page_ok g (take PAGE_SIZE img)" and "PAGE_SIZE \<le> length img"
proof -
  from parse_image_superblock [OF assms(1)] obtain sb where
    p: "parse_pages img = Inr pages" "parse_superblock pages = Inr sb"
    and f: "in_generation (lt_inspection t) = sb_generation sb"
      "in_row_count (lt_inspection t) = sb_row_count sb" by blast
  show len: "PAGE_SIZE \<le> length img" by (rule superblock_bytes(3) [OF p])
  show "first_page_ok g (take PAGE_SIZE img)"
    unfolding first_page_ok_def
    using superblock_bytes(1,2) [OF p] row_count_bound [OF assms(1)] assms(2) len
    by (auto simp: f)
qed

lemma torn_first_page:
  assumes "first_page_ok g new" and "first_page_ok g old"
    and g: "take 8 (drop 32 new) = le64 g"
    and torn: "take PAGE_SIZE db = splice_at k new old"
    and p: "parse_pages db = Inr pages" "parse_superblock pages = Inr sb"
  shows "sb_generation sb \<le> g" and "unat (sb_row_count sb) < 2 ^ 56"
proof -
  have lens: "length new = PAGE_SIZE" "length old = PAGE_SIZE"
    using assms(1,2) by (auto simp: first_page_ok_def)
  obtain b r where old: "take 8 (drop 32 old) = le64 b" "b \<le> g" "take 8 (drop 68 old) = le64 r"
    "unat r < 2 ^ 56" using assms(2) by (auto simp: first_page_ok_def)
  obtain r' where new: "take 8 (drop 68 new) = le64 r'" "unat r' < 2 ^ 56"
    using assms(1) by (auto simp: first_page_ok_def)
  have "splice_at (k - 32) (le64 g) (le64 b) = le64 (sb_generation sb)"
    using superblock_bytes(1) [OF p, unfolded torn] slice_splice [of new old 32 8 k] lens
    by (simp add: g old PAGE_SIZE_def)
  then show "sb_generation sb \<le> g" using old(2) by (rule splice_le64_le)
  have "splice_at (k - 68) (le64 r') (le64 r) = le64 (sb_row_count sb)"
    using superblock_bytes(2) [OF p, unfolded torn] slice_splice [of new old 68 8 k] lens
    by (simp add: new old PAGE_SIZE_def)
  then show "unat (sb_row_count sb) < 2 ^ 56" using new(2) old(4) by (rule splice_le64_bound)
qed

lemma torn_parse:
  assumes "first_page_ok g new" "first_page_ok g old" "take 8 (drop 32 new) = le64 g"
    and "take PAGE_SIZE db = splice_at k new old"
  shows "parse_image db w = Inr (t, pages) \<Longrightarrow> in_generation (lt_inspection t) \<le> g"
    and "parse_image db w = Inl e \<Longrightarrow> is_corruption e"
proof -
  show "in_generation (lt_inspection t) \<le> g" if p: "parse_image db w = Inr (t, pages)"
    using parse_image_superblock [OF p] torn_first_page(1) [OF assms] by auto
  show "is_corruption e" if p: "parse_image db w = Inl e"
  proof (rule ccontr)
    assume "\<not> is_corruption e"
    then obtain pages sb where
      s: "parse_pages db = Inr pages" "parse_superblock pages = Inr sb" and
      big: "ROW_VECTOR_MAX < unat (sb_row_count sb)"
      using parse_image_not_corruption [OF p] by blast
    have "unat (sb_row_count sb) < 2 ^ 56" by (rule torn_first_page(2) [OF assms s])
    then show False using big by (simp add: ROW_VECTOR_MAX_def)
  qed
qed

end
