(* ===== verification/Crash_Safety.thy ===== *)
theory Crash_Safety
  imports Commit Torn_Page
begin

text \<open>
  Crash safety of the write-ahead log. A crash anywhere in \<open>commit_image\<close> leaves the files in one of
  four classes: untouched, a torn log beside an untouched database, a complete log beside a database
  that may be torn, or the new database beside an empty log. Recovery maps each class to a definite
  outcome, and crashes during recovery stay inside the classes.
\<close>

section \<open>Writing pages\<close>

definition block :: "nat \<Rightarrow> bytes \<Rightarrow> bytes" where
  "block i bs = take PAGE_SIZE (drop (i * PAGE_SIZE) bs)"

lemma length_block: "length bs = n * PAGE_SIZE \<Longrightarrow> i < n \<Longrightarrow> length (block i bs) = PAGE_SIZE"
proof -
  assume "length bs = n * PAGE_SIZE" "i < n"
  moreover from this have "Suc i * PAGE_SIZE \<le> n * PAGE_SIZE" by (intro mult_le_mono) auto
  ultimately show ?thesis by (simp add: block_def)
qed

lemma blocks_equal:
  assumes "length xs = n * PAGE_SIZE" "length ys = n * PAGE_SIZE"
    and "\<And>i. i < n \<Longrightarrow> block i xs = block i ys"
  shows "xs = ys"
proof -
  have whole: "zs = concat (map (\<lambda>i. block i zs) [0..<n])" if "length zs = n * PAGE_SIZE" for zs
    using split_blocks [of zs PAGE_SIZE n] that by (simp add: block_def mult.commute)
  have "map (\<lambda>i. block i xs) [0..<n] = map (\<lambda>i. block i ys) [0..<n]" using assms(3) by simp
  with whole [OF assms(1)] whole [OF assms(2)] show ?thesis by metis
qed

lemma write_block:
  assumes len: "length db = n * PAGE_SIZE" and i: "i < n" and data: "length data \<le> PAGE_SIZE"
  shows "length (write_at (i * PAGE_SIZE) data db) = n * PAGE_SIZE"
    and "j < n \<Longrightarrow> block j (write_at (i * PAGE_SIZE) data db) =
      (if j = i then data @ drop (length data) (block i db) else block j db)"
proof -
  have room: "i * PAGE_SIZE + PAGE_SIZE \<le> n * PAGE_SIZE"
    using mult_le_mono1 [of "Suc i" n PAGE_SIZE] i by simp
  then have eq: "write_at (i * PAGE_SIZE) data db = overwrite (i * PAGE_SIZE) data db"
    using len i by (simp add: write_at_def overwrite_def)
  show l: "length (write_at (i * PAGE_SIZE) data db) = n * PAGE_SIZE"
    unfolding eq using room len data by (subst length_overwrite) auto
  assume j: "j < n"
  have roomj: "j * PAGE_SIZE + PAGE_SIZE \<le> n * PAGE_SIZE"
    using mult_le_mono1 [of "Suc j" n PAGE_SIZE] j by simp
  show "block j (write_at (i * PAGE_SIZE) data db) =
      (if j = i then data @ drop (length data) (block i db) else block j db)"
  proof (cases "j = i")
    case True
    have "min (n * PAGE_SIZE) (i * PAGE_SIZE) = i * PAGE_SIZE" using room by simp
    then show ?thesis
      using len room data True
      by (simp add: eq block_def overwrite_def take_drop add.commute)
  next
    case False
    have far: "j * PAGE_SIZE + PAGE_SIZE \<le> i * PAGE_SIZE \<or> i * PAGE_SIZE + PAGE_SIZE \<le> j * PAGE_SIZE"
      using False mult_le_mono1 [of "Suc j" i PAGE_SIZE] mult_le_mono1 [of "Suc i" j PAGE_SIZE]
      by (cases "j < i") auto
    have "block j (overwrite (i * PAGE_SIZE) data db) = block j db"
    proof (rule nth_equalityI)
      show "length (block j (overwrite (i * PAGE_SIZE) data db)) = length (block j db)"
        using length_block [OF l [unfolded eq] j] length_block [OF len j] by simp
      fix m assume "m < length (block j (overwrite (i * PAGE_SIZE) data db))"
      then have m: "m < PAGE_SIZE" using length_block [OF l [unfolded eq] j] by simp
      then show "block j (overwrite (i * PAGE_SIZE) data db) ! m = block j db ! m"
        using far roomj room len data l [unfolded eq] i j
        by (auto simp: block_def nth_overwrite)
    qed
    then show ?thesis using False by (simp add: eq)
  qed
qed

text \<open>Every page of \<open>db\<close> is a prefix of the new page followed by the rest of the old one.\<close>

definition torn :: "bytes \<Rightarrow> bytes \<Rightarrow> bytes \<Rightarrow> bool" where
  "torn new old db \<longleftrightarrow> length db = length new \<and>
     (\<forall>i < length new div PAGE_SIZE. \<exists>k. block i db = splice_at k (block i new) (block i (resize (length new) old)))"

lemma torn_resize: "torn new old (resize (length new) old)"
  by (auto simp: torn_def resize_def intro!: exI [of _ 0])

lemma length_resize [simp]: "length (resize n bs) = n"
  by (simp add: resize_def)

lemma torn_write:
  assumes new: "length new = n * PAGE_SIZE" and t: "torn new old db" and i: "i < n"
  shows "torn new old (write_at (i * PAGE_SIZE) (take m (block i new)) db)"
proof -
  have len: "length db = n * PAGE_SIZE" using t new by (simp add: torn_def)
  have d: "length (take m (block i new)) \<le> PAGE_SIZE" by (simp add: block_def)
  note w = write_block [OF len i d]
  have n: "length new div PAGE_SIZE = n" using new by (simp add: PAGE_SIZE_def)
  have "\<exists>k. block j (write_at (i * PAGE_SIZE) (take m (block i new)) db) =
      splice_at k (block j new) (block j (resize (length new) old))" if j: "j < n" for j
  proof -
    obtain k where k: "block j db = splice_at k (block j new) (block j (resize (length new) old))"
      using t j unfolding torn_def n by blast
    have lens: "length (block j new) = PAGE_SIZE" "length (block j (resize (length new) old)) = PAGE_SIZE"
      by (rule length_block [of _ n], simp_all add: new j)+
    show ?thesis
    proof (cases "j = i")
      case True
      have "take m (block i new) @ drop (length (take m (block i new))) (block i db) =
          splice_at m (block i new) (block i db)"
        using lens length_block [OF len i] True by (cases "m \<le> PAGE_SIZE") (simp_all add: splice_at_def)
      then show ?thesis
        using w(2) [OF j] True k lens splice_splice [of "block i new" "block i (resize (length new) old)" m k]
        by auto
    qed (use w(2) [OF j] k in auto)
  qed
  then show ?thesis using w(1) new by (simp add: torn_def n)
qed

section \<open>The calls of \<open>apply_image\<close>\<close>

definition page_writes :: "path \<Rightarrow> bytes \<Rightarrow> u32 list \<Rightarrow> syscall list" where
  "page_writes p new ds = concat (map (\<lambda>i. [Write p (unat i * PAGE_SIZE) (block (unat i) new),
     Crash_Point (''page-'' @ to_string (unat i))]) ds)"

lemma page_writes_simps [simp]:
  "page_writes p new [] = []"
  "page_writes p new (i # ds) = Write p (unat i * PAGE_SIZE) (block (unat i) new) #
     Crash_Point (''page-'' @ to_string (unat i)) # page_writes p new ds"
  by (simp_all add: page_writes_def)

lemma visit_dirty_writes:
  assumes "buffer_ok b"
  shows "visit_dirty_pages b (write_dirty_page p) [] =
    Inr (page_writes p (pb_image b) (ascending (pb_dirty b)))"
proof -
  have "foldE (visit_page b (write_dirty_page p)) cs ds = Inr (cs @ page_writes p (pb_image b) ds)"
    if "set ds \<subseteq> pb_dirty b" for cs ds
    using that assms
    by (induction ds arbitrary: cs)
      (auto simp: visit_page_def page_data_def write_dirty_page_def buffer_ok_def block_def
        PAGE_BYTES_def PAGE_SIZE_def not_le)
  then show ?thesis by (simp add: visit_dirty_pages_def)
qed

lemma page_writes_crash:
  assumes new: "length new = n * PAGE_SIZE"
  shows "crash (page_writes p new ds) fs fs' \<Longrightarrow> fs p = Some db \<Longrightarrow> torn new old db \<Longrightarrow>
    \<forall>i \<in> set ds. unat i < n \<Longrightarrow> \<exists>db'. fs' = fs(p \<mapsto> db') \<and> torn new old db'"
proof (induction ds arbitrary: fs db)
  case Nil
  then show ?case by (metis crash_Nil fun_upd_triv page_writes_simps(1))
next
  case (Cons i ds)
  let ?full = "write_at (unat i * PAGE_SIZE) (block (unat i) new) db"
  have i: "unat i < n" using Cons.prems by simp
  have step: "torn new old (write_at (unat i * PAGE_SIZE) (take m (block (unat i) new)) db)" for m
    by (rule torn_write [OF new Cons.prems(3) i])
  have full: "torn new old ?full" using step [of PAGE_SIZE] by (simp add: block_def)
  consider "fs' = fs" | m where "fs' = fs(p \<mapsto> write_at (unat i * PAGE_SIZE) (take m (block (unat i) new)) db)"
    | "fs' = fs(p \<mapsto> ?full)" | "crash (page_writes p new ds) (fs(p \<mapsto> ?full)) fs'"
    using Cons.prems(1,2) by (auto simp: crash_Cons)
  then show ?case
  proof cases
    case 1
    then show ?thesis using Cons.prems by (metis fun_upd_triv)
  next
    case 4
    obtain db' where "fs' = (fs(p \<mapsto> ?full))(p \<mapsto> db')" "torn new old db'"
      using Cons.IH [OF 4 _ full] Cons.prems(4) by (metis fun_upd_same list.set_intros(2))
    then show ?thesis by (metis fun_upd_upd)
  qed (use step full in blast)+
qed

lemma page_writes_run:
  assumes new: "length new = n * PAGE_SIZE"
  shows "fs p = Some db \<Longrightarrow> length db = n * PAGE_SIZE \<Longrightarrow> \<forall>i \<in> set ds. unat i < n \<Longrightarrow>
    \<exists>db'. run (page_writes p new ds) fs = fs(p \<mapsto> db') \<and> length db' = n * PAGE_SIZE \<and>
      (\<forall>j < n. block j db' = (if j \<in> unat ` set ds then block j new else block j db))"
proof (induction ds arbitrary: fs db)
  case Nil
  then show ?case by (intro exI [of _ db]) auto
next
  case (Cons i ds)
  let ?full = "write_at (unat i * PAGE_SIZE) (block (unat i) new) db"
  have i: "unat i < n" using Cons.prems by simp
  have d: "length (block (unat i) new) = PAGE_SIZE" by (rule length_block [OF new i])
  note w = write_block [OF Cons.prems(2) i, of "block (unat i) new"]
  have full: "block j ?full = (if j = unat i then block j new else block j db)" if "j < n" for j
    using w(2) [OF _ that] d length_block [OF Cons.prems(2) i] by simp
  have "length ?full = n * PAGE_SIZE" using w(1) d by simp
  moreover have "\<forall>i \<in> set ds. unat i < n" using Cons.prems(3) by simp
  ultimately obtain db' where
    r: "run (page_writes p new ds) (fs(p \<mapsto> ?full)) = fs(p \<mapsto> ?full, p \<mapsto> db')" "length db' = n * PAGE_SIZE"
      "\<forall>j < n. block j db' = (if j \<in> unat ` set ds then block j new else block j ?full)"
    using Cons.IH [of "fs(p \<mapsto> ?full)" ?full] by (metis fun_upd_same)
  then show ?case using Cons.prems(1) full by (intro exI [of _ db']) auto
qed

definition apply_calls :: "bool \<Rightarrow> path \<Rightarrow> bytes \<Rightarrow> u32 list \<Rightarrow> syscall list" where
  "apply_calls first_creation p new ds =
     [Open_Create p, Ftruncate p (length new)] @ page_writes p new ds @
     [Fsync p, Crash_Point ''data-fsync''] @
     (if first_creation then [Fsync_Parent p, Crash_Point ''database-directory-fsync''] else [])"

lemma apply_image_calls:
  assumes "buffer_ok b"
  shows "apply_image fs p b =
    calls (apply_calls (\<not> file_exists fs p) p (pb_image b) (ascending (pb_dirty b)))"
proof -
  have "length (pb_image b) \<le> 4096 * (2 ^ 32 - 1)"
    using assms by (simp add: buffer_ok_def PAGE_BYTES_def)
  then have "\<not> length (pb_image b) > OFF_MAX" by (simp add: OFF_MAX_def)
  then show ?thesis
    by (simp add: apply_image_def visit_dirty_writes [OF assms] apply_calls_def Let_def)
qed

definition old_bytes :: "files \<Rightarrow> path \<Rightarrow> bytes" where
  "old_bytes fs p = (case fs p of None \<Rightarrow> [] | Some bs \<Rightarrow> bs)"

lemma quiet_crash:
  assumes "\<forall>c \<in> set cs. \<forall>fs. exec c fs = fs" and "\<forall>c \<in> set cs. \<forall>p off d. c \<noteq> Write p off d"
  shows "crash cs fs fs' \<longleftrightarrow> fs' = fs" and "run cs fs = fs"
  using assms by (induction cs arbitrary: fs) (auto simp: crash_Cons)

lemma apply_crash:
  assumes new: "length new = n * PAGE_SIZE" and ds: "\<forall>i \<in> set ds. unat i < n"
    and c: "crash (apply_calls first p new ds) fs fs'"
  shows "fs' = fs \<or> (\<exists>db. fs' = fs(p \<mapsto> db) \<and> (db = old_bytes fs p \<or> torn new (old_bytes fs p) db))"
proof -
  let ?old = "old_bytes fs p"
  let ?fs1 = "fs(p \<mapsto> ?old)" and ?fs2 = "fs(p \<mapsto> resize (length new) ?old)"
  let ?tail = "[Fsync p, Crash_Point ''data-fsync''] @
     (if first then [Fsync_Parent p, Crash_Point ''database-directory-fsync''] else [])"
  have e1: "exec (Open_Create p) fs = ?fs1"
    by (cases "fs p") (auto simp: old_bytes_def)
  have e2: "exec (Ftruncate p (length new)) ?fs1 = ?fs2" by simp
  obtain db where r: "run (page_writes p new ds) ?fs2 = ?fs2(p \<mapsto> db)"
    using page_writes_run [OF new, of ?fs2 p "resize (length new) ?old" ds] new ds by auto
  have "crash ?tail (run (page_writes p new ds) ?fs2) fs' \<longleftrightarrow> fs' = run (page_writes p new ds) ?fs2"
    by (rule quiet_crash) auto
  then consider "fs' = fs" | "fs' = ?fs1" | "crash (page_writes p new ds) ?fs2 fs'"
    using c crash_run [of "page_writes p new ds" ?fs2]
    by (auto simp: apply_calls_def crash_Cons crash_append e1 e2 simp del: exec.simps(1,3))
  then show ?thesis
  proof cases
    case 3
    from page_writes_crash [OF new this _ torn_resize ds] show ?thesis by auto
  qed auto
qed

text \<open>Pages that are not rewritten already hold their new contents.\<close>

definition clean_pages_agree :: "bytes \<Rightarrow> bytes \<Rightarrow> u32 set \<Rightarrow> bool" where
  "clean_pages_agree new old dirty \<longleftrightarrow>
     (\<forall>j < length new div PAGE_SIZE. j \<notin> unat ` dirty \<longrightarrow>
        block j (resize (length new) old) = block j new)"

lemma apply_run:
  assumes new: "length new = n * PAGE_SIZE" and ds: "\<forall>i \<in> set ds. unat i < n"
    and agree: "clean_pages_agree new (old_bytes fs p) (set ds)"
  shows "run (apply_calls first p new ds) fs = fs(p \<mapsto> new)"
proof -
  let ?old = "old_bytes fs p"
  let ?fs2 = "fs(p \<mapsto> resize (length new) ?old)"
  let ?tail = "[Fsync p, Crash_Point ''data-fsync''] @
     (if first then [Fsync_Parent p, Crash_Point ''database-directory-fsync''] else [])"
  have e: "exec (Ftruncate p (length new)) (exec (Open_Create p) fs) = ?fs2"
    by (cases "fs p") (auto simp: old_bytes_def)
  obtain db where r: "run (page_writes p new ds) ?fs2 = ?fs2(p \<mapsto> db)" "length db = n * PAGE_SIZE"
    "\<forall>j < n. block j db = (if j \<in> unat ` set ds then block j new else block j (resize (length new) ?old))"
    using page_writes_run [OF new, of ?fs2 p "resize (length new) ?old" ds] new ds by auto
  have "length new div PAGE_SIZE = n" using new by (simp add: PAGE_SIZE_def)
  then have "db = new"
    using r(3) agree by (intro blocks_equal [OF r(2) new]) (auto simp: clean_pages_agree_def)
  moreover have "run ?tail fs' = fs'" for fs' by (rule quiet_crash(2)) auto
  ultimately show ?thesis
    using r(1) unfolding apply_calls_def run_simps(3) run_simps(2) run_simps(1) e by simp
qed

section \<open>The calls of \<open>commit_image\<close>\<close>

lemma crash_commit_cases:
  assumes new: "length new = n * PAGE_SIZE" and ds: "\<forall>i \<in> set ds. unat i < n"
    and agree: "clean_pages_agree new (old_bytes fs p) (set ds)"
    and c: "crash (write_wal fs w rec @ apply_calls first p new ds @ clear_wal w @ [Crash_Point ''wal-clear''])
      fs fs'" and w: "w \<noteq> p"
  shows "fs' = fs \<or> (\<exists>m \<le> length rec. fs' = fs(w \<mapsto> take m rec)) \<or>
    (\<exists>db. fs' = fs(w \<mapsto> rec, p \<mapsto> db) \<and> (db = old_bytes fs p \<or> torn new (old_bytes fs p) db)) \<or>
    fs' = fs(w \<mapsto> rec, p \<mapsto> new) \<or> fs' = fs(w \<mapsto> [], p \<mapsto> new)"
proof -
  let ?logged = "fs(w \<mapsto> rec)" and ?tail = "if \<not> file_exists fs w
    then [Fsync_Parent w, Crash_Point ''wal-directory-fsync''] else []"
  have wr: "write_at 0 d [] = d" for d by (simp add: write_at_def)
  have tail: "crash ?tail fs1 fs2 \<longleftrightarrow> fs2 = fs1" "run ?tail fs1 = fs1" for fs1 fs2
    by (rule quiet_crash; auto)+
  have r1: "run (write_wal fs w rec) fs = ?logged"
    by (simp add: write_wal_def wr tail)
  have same: "old_bytes ?logged p = old_bytes fs p" using w by (simp add: old_bytes_def)
  have r2: "run (apply_calls first p new ds) ?logged = ?logged(p \<mapsto> new)"
    using agree by (intro apply_run [OF new ds]) (simp add: same)
  from c consider
      (wal) "crash (write_wal fs w rec) fs fs'"
    | (db) "crash (apply_calls first p new ds) ?logged fs'"
    | (clear) "crash (clear_wal w @ [Crash_Point ''wal-clear'']) (?logged(p \<mapsto> new)) fs'"
    unfolding crash_append r1 r2 by blast
  then show ?thesis
  proof cases
    case wal
    then have "fs' = fs \<or> fs' = fs(w \<mapsto> []) \<or> (\<exists>m \<le> length rec. fs' = fs(w \<mapsto> take m rec))"
      by (auto simp: write_wal_def crash_Cons crash_append wr tail split: if_splits)
    then show ?thesis by (metis le0 take_0)
  next
    case db
    from apply_crash [OF new ds this] show ?thesis
      unfolding same by (metis le_refl take_all)
  next
    case clear
    have "(fs(w \<mapsto> rec, p \<mapsto> new)) w = Some rec" using w by simp
    moreover have "(fs(w \<mapsto> rec, p \<mapsto> new))(w \<mapsto> []) = fs(w \<mapsto> [], p \<mapsto> new)" using w by auto
    ultimately have "fs' = fs(w \<mapsto> rec, p \<mapsto> new) \<or> fs' = fs(w \<mapsto> [], p \<mapsto> new)"
      using clear by (auto simp: clear_wal_def crash_Cons resize_def)
    then show ?thesis by blast
  qed
qed

section \<open>Classes of files\<close>

text \<open>
  The classes for a commit that replaces the database of \<open>fs\<close> by \<open>new\<close> with generation \<open>g\<close>. Files
  other than the database and its log are never touched.
\<close>

definition others_same :: "path \<Rightarrow> files \<Rightarrow> files \<Rightarrow> bool" where
  "others_same p fs fs' \<longleftrightarrow> (\<forall>q. q \<noteq> p \<longrightarrow> q \<noteq> wal_path p \<longrightarrow> fs' q = fs q)"

definition untouched :: "files \<Rightarrow> path \<Rightarrow> files \<Rightarrow> bool" where
  "untouched fs p fs' \<longleftrightarrow> others_same p fs fs' \<and> fs' p = fs p \<and> \<not> wal_pending fs' p"

definition torn_log :: "files \<Rightarrow> path \<Rightarrow> bytes \<Rightarrow> u64 \<Rightarrow> files \<Rightarrow> bool" where
  "torn_log fs p new g fs' \<longleftrightarrow> others_same p fs fs' \<and> fs' p = fs p \<and>
     (\<exists>m. 0 < m \<and> m < length (wal_record new g) \<and> fs' (wal_path p) = Some (take m (wal_record new g)))"

definition replaceable :: "bytes \<Rightarrow> u64 \<Rightarrow> bytes option \<Rightarrow> bool" where
  "replaceable new g db \<longleftrightarrow> (case db of None \<Rightarrow> True | Some bs \<Rightarrow> bs = [] \<or>
     (\<exists>k old0. first_page_ok g old0 \<and> take PAGE_SIZE bs = splice_at k (take PAGE_SIZE new) old0))"

definition logged :: "files \<Rightarrow> path \<Rightarrow> bytes \<Rightarrow> u64 \<Rightarrow> files \<Rightarrow> bool" where
  "logged fs p new g fs' \<longleftrightarrow> others_same p fs fs' \<and>
     fs' (wal_path p) = Some (wal_record new g) \<and> replaceable new g (fs' p)"

definition committed :: "files \<Rightarrow> path \<Rightarrow> bytes \<Rightarrow> files \<Rightarrow> bool" where
  "committed fs p new fs' \<longleftrightarrow> others_same p fs fs' \<and> fs' p = Some new \<and> fs' (wal_path p) = Some []"

text \<open>A database a commit may replace: none, or a valid image of no later generation.\<close>

definition replaces :: "files \<Rightarrow> path \<Rightarrow> u64 \<Rightarrow> bool" where
  "replaces fs p g \<longleftrightarrow> (case fs p of None \<Rightarrow> True | Some bs \<Rightarrow> bs = [] \<or>
     (\<exists>w t pages. parse_image bs w = Inr (t, pages) \<and> in_generation (lt_inspection t) \<le> g))"

text \<open>The image a commit installs: valid, with the generation of its log record.\<close>

definition installs :: "bytes \<Rightarrow> u64 \<Rightarrow> bool" where
  "installs new g \<longleftrightarrow>
     (\<exists>w t pages. parse_image new w = Inr (t, pages) \<and> in_generation (lt_inspection t) = g)"

lemma parse_image_flag:
  "parse_image img w = Inr (t, pages) \<Longrightarrow>
   (\<exists>t'. parse_image img w' = Inr (t', pages) \<and> in_generation (lt_inspection t') = in_generation (lt_inspection t))"
proof -
  assume "parse_image img w = Inr (t, pages)"
  then obtain sb flds rows roots where
    "table_pages pages sb flds rows roots" "t = loaded_from sb flds rows roots w" and
    "pages \<noteq> [] \<and> length pages \<le> MAX_PAGES \<and> pages_from 0 pages \<and> encode_pages pages = Inr img"
    unfolding parse_image_iff by blast
  then show ?thesis
    unfolding parse_image_iff by (intro exI [of _ "loaded_from sb flds rows roots w'"]) auto
qed

lemma installs_facts:
  assumes "installs new g"
  shows "\<exists>n. length new = n * PAGE_SIZE \<and> 0 < n \<and> n \<le> 2 ^ 32 - 1"
    and "first_page_ok g (take PAGE_SIZE new)"
    and "take 8 (drop 32 (take PAGE_SIZE new)) = le64 g"
    and "parse_wal (wal_record new g) = Inr (new, g)"
    and "length new < 2 ^ 64"
proof -
  from assms obtain w t pages where p: "parse_image new w = Inr (t, pages)"
    and g: "in_generation (lt_inspection t) = g" by (auto simp: installs_def)
  have "pages \<noteq> []" "length pages \<le> MAX_PAGES" using p unfolding parse_image_iff by blast+
  then show n: "\<exists>n. length new = n * PAGE_SIZE \<and> 0 < n \<and> n \<le> 2 ^ 32 - 1"
    using parse_image_table(4) [OF p]
    by (intro exI [of _ "length pages"]) (simp add: MAX_PAGES_def mult.commute)
  then show "length new < 2 ^ 64" by (auto simp: PAGE_SIZE_def)
  show "first_page_ok g (take PAGE_SIZE new)" using first_page_ok_parsed [OF p] g by simp
  show "take 8 (drop 32 (take PAGE_SIZE new)) = le64 g"
    using parse_image_superblock [OF p] superblock_bytes(1) g by auto
  show "parse_wal (wal_record new g) = Inr (new, g)"
    using parse_image_flag [OF p, of True] g by (auto simp: parse_wal_iff)
qed

lemma replaces_first_page:
  assumes "replaces fs p g" and new: "length new = n * PAGE_SIZE" "0 < n"
  shows "old_bytes fs p = [] \<and> block 0 (resize (length new) (old_bytes fs p)) = replicate PAGE_SIZE 0 \<or>
    first_page_ok g (take PAGE_SIZE (old_bytes fs p)) \<and>
    block 0 (resize (length new) (old_bytes fs p)) = take PAGE_SIZE (old_bytes fs p)"
proof -
  have big: "PAGE_SIZE \<le> length new" using new by (cases n) auto
  show ?thesis
  proof (cases "old_bytes fs p = []")
    case True
    then show ?thesis using big by (simp add: block_def resize_def)
  next
    case False
    then obtain bs w t pages where "fs p = Some bs" "parse_image bs w = Inr (t, pages)"
      "in_generation (lt_inspection t) \<le> g"
      using assms(1) by (auto simp: replaces_def old_bytes_def split: option.splits)
    with first_page_ok_parsed [of bs w t pages g] big show ?thesis
      by (simp add: old_bytes_def block_def resize_def)
  qed
qed

lemma replaceable_torn:
  assumes "replaces fs p g" and new: "length new = n * PAGE_SIZE" "0 < n"
    and t: "torn new (old_bytes fs p) db"
  shows "replaceable new g (Some db)"
proof -
  have "length new div PAGE_SIZE = n" using new by (simp add: PAGE_SIZE_def)
  then obtain k where "block 0 db = splice_at k (block 0 new) (block 0 (resize (length new) (old_bytes fs p)))"
    using t new(2) by (auto simp: torn_def)
  then have "take PAGE_SIZE db =
      splice_at k (take PAGE_SIZE new) (block 0 (resize (length new) (old_bytes fs p)))"
    by (simp add: block_def)
  moreover have "first_page_ok g (block 0 (resize (length new) (old_bytes fs p)))"
    using replaces_first_page [OF assms(1) new] first_page_ok_zero by metis
  ultimately show ?thesis unfolding replaceable_def option.case by blast
qed

lemma replaceable_old:
  assumes "replaces fs p g" and "length new = n * PAGE_SIZE" "0 < n"
  shows "replaceable new g (fs p)" and "replaceable new g (Some (old_bytes fs p))"
proof -
  have "replaceable new g (Some (old_bytes fs p))"
    using replaces_first_page [OF assms] by (auto simp: replaceable_def intro!: exI [of _ 0])
  then show "replaceable new g (Some (old_bytes fs p))" "replaceable new g (fs p)"
    by (auto simp: replaceable_def old_bytes_def split: option.splits)
qed

section \<open>A crash during commit\<close>

lemma commit_image_calls:
  assumes "PageBuffer new dirty = Inr b"
  shows "commit_image fs p new g dirty =
    calls (write_wal fs (wal_path p) (wal_record new g) @
      apply_calls (\<not> file_exists fs p) p new (ascending (pb_dirty b)) @
      clear_wal (wal_path p) @ [Crash_Point ''wal-clear''])"
proof -
  have "buffer_ok b" "pb_image b = new" using assms by (auto simp: PageBuffer_iff)
  then show ?thesis by (simp add: commit_image_def assms apply_image_calls)
qed

lemma buffer_pages:
  assumes "PageBuffer new dirty = Inr b" and "length new = n * PAGE_SIZE"
  shows "\<forall>i \<in> set (ascending (pb_dirty b)). unat i < n"
proof -
  have "buffer_ok b" "pb_image b = new" using assms(1) by (auto simp: PageBuffer_iff)
  then show ?thesis
    using assms(2) by (simp add: buffer_ok_def pb_page_count_def PAGE_BYTES_def PAGE_SIZE_def)
qed

lemma crash_commit_class:
  assumes new: "installs new g" and old: "replaces fs p g" and quiet: "\<not> wal_pending fs p"
    and b: "PageBuffer new dirty = Inr b"
    and agree: "clean_pages_agree new (old_bytes fs p) (pb_dirty b)"
    and c: "crash (fst (commit_image fs p new g dirty)) fs fs'"
  shows "untouched fs p fs' \<or> torn_log fs p new g fs' \<or> logged fs p new g fs' \<or> committed fs p new fs'"
proof -
  obtain n where n: "length new = n * PAGE_SIZE" "0 < n" using installs_facts(1) [OF new] by blast
  let ?rec = "wal_record new g" and ?w = "wal_path p"
  have ds: "\<forall>i \<in> set (ascending (pb_dirty b)). unat i < n" by (rule buffer_pages [OF b n(1)])
  have agree': "clean_pages_agree new (old_bytes fs p) (set (ascending (pb_dirty b)))"
    using agree by simp
  have "crash (write_wal fs ?w ?rec @ apply_calls (\<not> file_exists fs p) p new (ascending (pb_dirty b)) @
      clear_wal ?w @ [Crash_Point ''wal-clear'']) fs fs'"
    using c by (simp add: commit_image_calls [OF b] calls_def)
  from crash_commit_cases [OF n(1) ds agree' this wal_path_neq(1)] consider
      (same) "fs' = fs"
    | (part) m where "m \<le> length ?rec" "fs' = fs(?w \<mapsto> take m ?rec)"
    | (db) db where "fs' = fs(?w \<mapsto> ?rec, p \<mapsto> db)"
        "db = old_bytes fs p \<or> torn new (old_bytes fs p) db"
    | (full) "fs' = fs(?w \<mapsto> ?rec, p \<mapsto> new)"
    | (cleared) "fs' = fs(?w \<mapsto> [], p \<mapsto> new)"
    by blast
  then show ?thesis
  proof cases
    case same
    then show ?thesis using quiet by (simp add: untouched_def others_same_def)
  next
    case part
    show ?thesis
    proof (cases "m = 0 \<or> m = length ?rec")
      case True
      then show ?thesis
        using part replaceable_old(1) [OF old n]
        by (auto simp: untouched_def logged_def others_same_def wal_pending_def)
    next
      case False
      then show ?thesis using part by (auto simp: torn_log_def others_same_def)
    qed
  next
    case db
    then have "replaceable new g (Some db)"
      using replaceable_old(2) [OF old n] replaceable_torn [OF old n] by blast
    then have "logged fs p new g fs'" using db(1) by (simp add: logged_def others_same_def)
    then show ?thesis by blast
  next
    case full
    have "replaceable new g (Some new)"
      using installs_facts(2) [OF new] n
      by (auto simp: replaceable_def intro!: exI [of _ PAGE_SIZE] exI [of _ "take PAGE_SIZE new"])
    then have "logged fs p new g fs'" using full by (simp add: logged_def others_same_def)
    then show ?thesis by blast
  next
    case cleared
    then show ?thesis by (simp add: committed_def others_same_def)
  qed
qed

end
