(* ===== verification/Recovery.thy ===== *)
theory Recovery
  imports Crash_Safety
begin

text \<open>
  What recovery makes of the files a crash leaves behind: each class of \<open>Crash_Safety\<close> has a definite
  outcome, and a recovery that itself crashes stays inside the classes, any number of times.
\<close>

section \<open>Recovery class by class\<close>

lemma recover_quiet: "\<not> wal_pending fs p \<Longrightarrow> recover fs p = calls []"
  by (simp add: recover_def)

lemma committed_quiet: "committed fs p new fs' \<Longrightarrow> \<not> wal_pending fs' p"
  by (simp add: committed_def wal_pending_def)

lemma recover_torn_log:
  assumes t: "torn_log fs p new g fs'" and len: "length new < 2 ^ 64"
  shows "\<exists>e. recover fs' p = raise e \<and> is_corruption e"
proof -
  obtain m where m: "0 < m" "m < length (wal_record new g)"
    "fs' (wal_path p) = Some (take m (wal_record new g))"
    using t by (auto simp: torn_log_def)
  then have "length (take m (wal_record new g)) \<noteq> 0" by simp
  then have "take m (wal_record new g) \<noteq> []" by (simp only: length_0_conv simp_thms)
  then have "wal_pending fs' p" using m(3) by (simp add: wal_pending_def)
  moreover obtain e where "parse_wal (take m (wal_record new g)) = Inl e" "is_corruption e"
    using torn_record_rejected [OF m(2) len] by blast
  ultimately show ?thesis using m(3) by (auto simp: recover_def read_file_def)
qed

lemma check_stale_replaceable:
  assumes new: "installs new g" and r: "replaceable new g (fs p)"
  shows "check_stale fs p g = Inr ()"
proof (cases "fs p")
  case None
  then show ?thesis by (simp add: check_stale_def)
next
  case (Some db)
  show ?thesis
  proof (cases "db = []")
    case True
    have no: "\<not> (parse_pages [] = Inr pages \<and> parse_superblock pages = Inr sb)" for pages sb
      using superblock_bytes(3) [of "[]" pages sb] by (auto simp: PAGE_SIZE_def)
    have "parse_image [] True = Inl e \<Longrightarrow> is_corruption e" for e
      using parse_image_not_corruption [of "[]" True e] no by blast
    moreover have "parse_image [] True \<noteq> Inr (t, pages)" for t pages
      using parse_image_superblock [of "[]" True t pages] no by blast
    ultimately show ?thesis
      using Some True by (auto simp: check_stale_def split: sum.splits)
  next
    case False
    then obtain k old0 where k: "first_page_ok g old0" "take PAGE_SIZE db = splice_at k (take PAGE_SIZE new) old0"
      using r Some by (auto simp: replaceable_def)
    note torn = torn_parse [OF installs_facts(2) [OF new] k(1) installs_facts(3) [OF new] k(2)]
    show ?thesis
    proof (cases "parse_image db True")
      case (Inl e)
      then show ?thesis using torn(2) [OF Inl] Some by (simp add: check_stale_def)
    next
      case (Inr tp)
      obtain t pages where tp: "tp = (t, pages)" by (cases tp)
      have "in_generation (lt_inspection t) \<le> g" using torn(1) [of True t pages] Inr tp by simp
      then show ?thesis using Some Inr tp by (simp add: check_stale_def throw_if_def)
    qed
  qed
qed

text \<open>The page buffer of recovery marks every page dirty.\<close>

lemma whole_buffer:
  assumes "installs new g"
  shows "\<exists>b. PageBuffer new {} = Inr b \<and> (\<forall>old. clean_pages_agree new old (pb_dirty b))"
proof -
  obtain n where n: "length new = n * PAGE_SIZE" "0 < n" "n \<le> 2 ^ 32 - 1"
    using installs_facts(1) [OF assms] by blast
  have cnt: "length new div PAGE_BYTES = n" using n(1) by (simp add: PAGE_BYTES_def PAGE_SIZE_def)
  have small: "unat (word_of_nat i :: u32) = i" if "i < n" for i
    using that n(3) by (simp add: unat_of_nat)
  let ?b = "\<lparr>pb_image = new, pb_dirty = set (map word_of_nat [0..<n])\<rparr>"
  have pages: "pb_page_count ?b = n" by (simp add: pb_page_count_def cnt)
  have "new \<noteq> []" using n by (auto simp: PAGE_SIZE_def)
  then have "PageBuffer new {} = Inr ?b"
    unfolding PageBuffer_iff buffer_ok_def pages using n small
    by (auto simp: PAGE_BYTES_def PAGE_SIZE_def)
  moreover have "j \<in> unat ` pb_dirty ?b" if "j < n" for j
    using that small [OF that] by (auto intro!: image_eqI [of _ _ "word_of_nat j"])
  moreover have "length new div PAGE_SIZE = n" using n(1) by (simp add: PAGE_SIZE_def)
  ultimately show ?thesis unfolding clean_pages_agree_def by blast
qed

lemma recover_logged:
  assumes new: "installs new g" and l: "logged fs p new g fs'"
  shows "\<exists>b. PageBuffer new {} = Inr b \<and> recover fs' p =
    calls (apply_calls (\<not> file_exists fs' p) p new (ascending (pb_dirty b)) @ clear_wal (wal_path p)) \<and>
    clean_pages_agree new (old_bytes fs' p) (set (ascending (pb_dirty b)))"
proof -
  obtain b where b: "PageBuffer new {} = Inr b" "\<And>old. clean_pages_agree new old (pb_dirty b)"
    using whole_buffer [OF new] by blast
  have w: "fs' (wal_path p) = Some (wal_record new g)" and r: "replaceable new g (fs' p)"
    using l by (auto simp: logged_def)
  have "length (wal_record new g) \<noteq> 0" by simp
  then have "wal_record new g \<noteq> []" by (simp only: length_0_conv simp_thms)
  then have pending: "wal_pending fs' p" using w by (simp add: wal_pending_def)
  have "buffer_ok b" "pb_image b = new" using b(1) by (auto simp: PageBuffer_iff)
  then have "recover fs' p =
      calls (apply_calls (\<not> file_exists fs' p) p new (ascending (pb_dirty b)) @ clear_wal (wal_path p))"
    using pending w installs_facts(4) [OF new] check_stale_replaceable [where fs = fs', OF new r]
    by (simp add: recover_def read_file_def b(1) apply_image_calls)
  then show ?thesis using b by auto
qed

section \<open>Crashes during recovery\<close>

lemma replaceable_again:
  assumes new: "length new = n * PAGE_SIZE" "0 < n" and r: "replaceable new g (Some old)"
    and t: "torn new old db"
  shows "replaceable new g (Some db)"
proof -
  have big: "PAGE_SIZE \<le> length new" using new by (cases n) auto
  have "length new div PAGE_SIZE = n" using new by (simp add: PAGE_SIZE_def)
  then obtain k where "block 0 db = splice_at k (block 0 new) (block 0 (resize (length new) old))"
    using t new(2) by (auto simp: torn_def)
  then have k: "take PAGE_SIZE db = splice_at k (take PAGE_SIZE new) (take PAGE_SIZE (resize (length new) old))"
    by (simp add: block_def)
  show ?thesis
  proof (cases "old = []")
    case True
    then have "take PAGE_SIZE (resize (length new) old) = replicate PAGE_SIZE 0"
      using big by (simp add: resize_def)
    then show ?thesis using k first_page_ok_zero unfolding replaceable_def option.case by metis
  next
    case False
    then obtain m old0 where m: "first_page_ok g old0" "take PAGE_SIZE old = splice_at m (take PAGE_SIZE new) old0"
      using r by (auto simp: replaceable_def)
    have lens: "length (take PAGE_SIZE new) = length old0"
      using m(1) big by (simp add: first_page_ok_def)
    have "length (take PAGE_SIZE old) = PAGE_SIZE"
      unfolding m(2) using lens big by simp
    then have "take PAGE_SIZE (resize (length new) old) = take PAGE_SIZE old"
      using big by (simp add: resize_def)
    then have "take PAGE_SIZE db = splice_at (max k m) (take PAGE_SIZE new) old0"
      by (simp add: k m(2) splice_splice [OF lens])
    then show ?thesis using m(1) unfolding replaceable_def option.case by blast
  qed
qed

lemma replaceable_old_bytes: "replaceable new g (fs p) \<Longrightarrow> replaceable new g (Some (old_bytes fs p))"
  by (auto simp: replaceable_def old_bytes_def split: option.splits)

lemma crash_recover_logged:
  assumes new: "installs new g" and l: "logged fs p new g fs'" and c: "crash (fst (recover fs' p)) fs' fs2"
  shows "logged fs p new g fs2 \<or> committed fs p new fs2"
proof -
  obtain n where n: "length new = n * PAGE_SIZE" "0 < n" using installs_facts(1) [OF new] by blast
  obtain b where b: "PageBuffer new {} = Inr b" and rec: "recover fs' p =
      calls (apply_calls (\<not> file_exists fs' p) p new (ascending (pb_dirty b)) @ clear_wal (wal_path p))"
    and agree: "clean_pages_agree new (old_bytes fs' p) (set (ascending (pb_dirty b)))"
    using recover_logged [OF new l] by blast
  note ds = buffer_pages [OF b n(1)]
  have w: "fs' (wal_path p) = Some (wal_record new g)" and r: "replaceable new g (fs' p)"
    and o: "others_same p fs fs'" using l by (auto simp: logged_def)
  have full: "replaceable new g (Some new)"
    using installs_facts(2) [OF new] n
    by (auto simp: replaceable_def intro!: exI [of _ PAGE_SIZE] exI [of _ "take PAGE_SIZE new"])
  from c consider
      (db) "crash (apply_calls (\<not> file_exists fs' p) p new (ascending (pb_dirty b))) fs' fs2"
    | (clear) "crash (clear_wal (wal_path p)) (fs'(p \<mapsto> new)) fs2"
    by (auto simp: rec calls_def crash_append apply_run [OF n(1) ds agree])
  then show ?thesis
  proof cases
    case db
    from apply_crash [OF n(1) ds this] show ?thesis
    proof (elim disjE exE conjE)
      fix db assume db: "fs2 = fs'(p \<mapsto> db)" and "torn new (old_bytes fs' p) db"
      then have "replaceable new g (Some db)"
        using replaceable_again [OF n replaceable_old_bytes [where fs = fs', OF r]] by blast
      then show ?thesis using db w o by (simp add: logged_def others_same_def)
    qed (use l w o replaceable_old_bytes [where fs = fs', OF r] in \<open>auto simp: logged_def others_same_def\<close>)
  next
    case clear
    then have "fs2 = fs'(p \<mapsto> new) \<or> fs2 = fs'(p \<mapsto> new, wal_path p \<mapsto> [])"
      using w by (auto simp: clear_wal_def crash_Cons resize_def)
    then show ?thesis using w o full by (auto simp: logged_def committed_def others_same_def)
  qed
qed

lemma run_recover_logged:
  assumes new: "installs new g" and l: "logged fs p new g fs'"
  shows "snd (recover fs' p) = Inr ()" and "committed fs p new (run (fst (recover fs' p)) fs')"
proof -
  obtain n where n: "length new = n * PAGE_SIZE" "0 < n" using installs_facts(1) [OF new] by blast
  obtain b where b: "PageBuffer new {} = Inr b" and rec: "recover fs' p =
      calls (apply_calls (\<not> file_exists fs' p) p new (ascending (pb_dirty b)) @ clear_wal (wal_path p))"
    and agree: "clean_pages_agree new (old_bytes fs' p) (set (ascending (pb_dirty b)))"
    using recover_logged [OF new l] by blast
  have w: "fs' (wal_path p) = Some (wal_record new g)" and o: "others_same p fs fs'"
    using l by (auto simp: logged_def)
  show "snd (recover fs' p) = Inr ()" by (simp add: rec calls_def)
  show "committed fs p new (run (fst (recover fs' p)) fs')"
    using w o
    by (simp add: rec calls_def apply_run [OF n(1) buffer_pages [OF b n(1)] agree] clear_wal_def
        committed_def others_same_def resize_def)
qed

text \<open>A process that recovers, dies, is restarted and recovers again, any number of times.\<close>

inductive restarts :: "path \<Rightarrow> files \<Rightarrow> files \<Rightarrow> bool" for p where
  no_restart: "restarts p fs fs"
| restart: "restarts p fs fs1 \<Longrightarrow> crash (fst (recover fs1 p)) fs1 fs2 \<Longrightarrow> restarts p fs fs2"

definition settled :: "files \<Rightarrow> path \<Rightarrow> bytes \<Rightarrow> u64 \<Rightarrow> files \<Rightarrow> bool" where
  "settled fs p new g fs' \<longleftrightarrow>
     untouched fs p fs' \<or> torn_log fs p new g fs' \<or> logged fs p new g fs' \<or> committed fs p new fs'"

lemma crash_recover_settled:
  assumes new: "installs new g" and s: "settled fs p new g fs1"
    and c: "crash (fst (recover fs1 p)) fs1 fs2"
  shows "settled fs p new g fs2"
proof -
  have quiet: "fs2 = fs1" if "untouched fs p fs1 \<or> committed fs p new fs1"
    using c that committed_quiet by (auto simp: recover_quiet untouched_def calls_def)
  have torn: "fs2 = fs1" if "torn_log fs p new g fs1"
    using c recover_torn_log [OF that installs_facts(5) [OF new]] by (auto simp: raise_def)
  show ?thesis
    using s quiet torn crash_recover_logged [OF new _ c] unfolding settled_def by blast
qed

lemma restarts_settled:
  "restarts p fs1 fs2 \<Longrightarrow> installs new g \<Longrightarrow> settled fs p new g fs1 \<Longrightarrow> settled fs p new g fs2"
  by (induction rule: restarts.induct) (auto intro: crash_recover_settled)

section \<open>Atomic commits\<close>

text \<open>
  The outcome of opening a database after a crash: the old contents, the new ones, or a corruption
  error that leaves the old database in place; never a mixture, and no other file changes.
\<close>

definition atomic_outcome :: "files \<Rightarrow> path \<Rightarrow> bytes \<Rightarrow> files \<Rightarrow> bool" where
  "atomic_outcome fs p new fs' \<longleftrightarrow>
     (let (cs, r) = recover fs' p; final = run cs fs' in
      others_same p fs final \<and>
      (case r of
         Inl e \<Rightarrow> is_corruption e \<and> final = fs' \<and> final p = fs p
       | Inr _ \<Rightarrow> \<not> wal_pending final p \<and> (final p = fs p \<or> final p = Some new)))"

lemma settled_outcome:
  assumes new: "installs new g" and s: "settled fs p new g fs'"
  shows "atomic_outcome fs p new fs'"
  using s unfolding settled_def
proof (elim disjE)
  assume u: "untouched fs p fs'"
  then show ?thesis by (simp add: atomic_outcome_def recover_quiet untouched_def calls_def)
next
  assume t: "torn_log fs p new g fs'"
  then obtain e where "recover fs' p = raise e" "is_corruption e"
    using recover_torn_log installs_facts(5) [OF new] by blast
  then show ?thesis using t by (simp add: atomic_outcome_def raise_def torn_log_def)
next
  assume l: "logged fs p new g fs'"
  have "committed fs p new (run (fst (recover fs' p)) fs')" by (rule run_recover_logged(2) [OF new l])
  then show ?thesis
    using run_recover_logged(1) [OF new l] committed_quiet
    by (cases "recover fs' p") (auto simp: atomic_outcome_def committed_def)
next
  assume c: "committed fs p new fs'"
  then show ?thesis
    using committed_quiet [OF c] by (simp add: atomic_outcome_def recover_quiet committed_def calls_def)
qed

lemma crash_commit_settled:
  assumes "installs new g" "replaces fs p g" "\<not> wal_pending fs p" "PageBuffer new dirty = Inr b"
    "clean_pages_agree new (old_bytes fs p) (pb_dirty b)" "crash (fst (commit_image fs p new g dirty)) fs fs'"
  shows "settled fs p new g fs'"
  using crash_commit_class [OF assms] by (simp add: settled_def)

lemma run_commit_committed:
  assumes new: "installs new g" and b: "PageBuffer new dirty = Inr b"
    and agree: "clean_pages_agree new (old_bytes fs p) (pb_dirty b)"
  shows "snd (commit_image fs p new g dirty) = Inr ()"
    and "committed fs p new (run (fst (commit_image fs p new g dirty)) fs)"
proof -
  obtain n where n: "length new = n * PAGE_SIZE" using installs_facts(1) [OF new] by blast
  note ds = buffer_pages [OF b n]
  let ?logged = "fs(wal_path p \<mapsto> wal_record new g)"
  have wr: "write_at 0 d [] = d" for d by (simp add: write_at_def)
  have log: "run (write_wal fs (wal_path p) (wal_record new g)) fs = ?logged"
    by (simp add: write_wal_def wr)
  have "old_bytes ?logged p = old_bytes fs p" by (simp add: old_bytes_def)
  then have "run (apply_calls first p new (ascending (pb_dirty b))) ?logged = ?logged(p \<mapsto> new)" for first
    using agree by (intro apply_run [OF n ds]) simp
  then show "committed fs p new (run (fst (commit_image fs p new g dirty)) fs)"
    by (simp add: commit_image_calls [OF b] calls_def log clear_wal_def committed_def others_same_def
        resize_def)
  show "snd (commit_image fs p new g dirty) = Inr ()"
    by (simp add: commit_image_calls [OF b] calls_def)
qed

end
