(* ===== verification/Page_Growth.thy ===== *)
theory Page_Growth
  imports Image_Build
begin

text \<open>
  How an insertion changes a page list: it rewrites and appends pages of some types only, keeps page
  types and numbers, and records every page it touched in the dirty set. The relation composes, so
  the frame of a whole insertion follows from those of its steps.
\<close>

definition grows ::
  "page_type set \<Rightarrow> page list \<times> u32 set \<Rightarrow> page list \<times> u32 set \<Rightarrow> bool" where
  "grows K s s' \<longleftrightarrow>
     length (fst s) \<le> length (fst s') \<and> snd s \<subseteq> snd s' \<and>
     (\<forall>i < length (fst s). ptype (fst s' ! i) = ptype (fst s ! i) \<and> pid (fst s' ! i) = pid (fst s ! i) \<and>
        (fst s' ! i = fst s ! i \<or> ptype (fst s ! i) \<in> K \<and> word_of_nat i \<in> snd s')) \<and>
     (\<forall>i < length (fst s'). length (fst s) \<le> i \<longrightarrow>
        ptype (fst s' ! i) \<in> K \<and> pid (fst s' ! i) = word_of_nat i \<and> word_of_nat i \<in> snd s') \<and>
     ((\<forall>x \<in> snd s. unat x < length (fst s)) \<longrightarrow> (\<forall>x \<in> snd s'. unat x < length (fst s')))"

lemma grows_refl [simp]: "grows K s s"
  by (simp add: grows_def)

lemma grows_mono: "grows K s s' \<Longrightarrow> K \<subseteq> L \<Longrightarrow> grows L s s'"
  unfolding grows_def by blast

lemma growsD:
  assumes "grows K s s'"
  shows "length (fst s) \<le> length (fst s')" and "snd s \<subseteq> snd s'"
    and "i < length (fst s) \<Longrightarrow> ptype (fst s' ! i) = ptype (fst s ! i)"
    and "i < length (fst s) \<Longrightarrow> pid (fst s' ! i) = pid (fst s ! i)"
    and "i < length (fst s) \<Longrightarrow> fst s' ! i = fst s ! i \<or> ptype (fst s ! i) \<in> K \<and> word_of_nat i \<in> snd s'"
    and "i < length (fst s') \<Longrightarrow> length (fst s) \<le> i \<Longrightarrow>
      ptype (fst s' ! i) \<in> K \<and> pid (fst s' ! i) = word_of_nat i \<and> word_of_nat i \<in> snd s'"
    and "(\<forall>x \<in> snd s. unat x < length (fst s)) \<longrightarrow> (\<forall>x \<in> snd s'. unat x < length (fst s'))"
  using assms unfolding grows_def by blast+

lemma grows_trans:
  assumes a: "grows K s s'" and b: "grows K s' s''"
  shows "grows K s s''"
  unfolding grows_def
proof (intro conjI allI impI ballI)
  fix i assume i: "i < length (fst s)"
  then have i': "i < length (fst s')" using growsD(1) [OF a] by simp
  show "ptype (fst s'' ! i) = ptype (fst s ! i)" "pid (fst s'' ! i) = pid (fst s ! i)"
    using growsD(3,4) [OF a i] growsD(3,4) [OF b i'] by simp_all
  show "fst s'' ! i = fst s ! i \<or> ptype (fst s ! i) \<in> K \<and> word_of_nat i \<in> snd s''"
    using growsD(3,5) [OF a i] growsD(5) [OF b i'] growsD(2) [OF b] by auto
next
  fix i assume i: "i < length (fst s'')" "length (fst s) \<le> i"
  have "ptype (fst s'' ! i) \<in> K \<and> pid (fst s'' ! i) = word_of_nat i \<and> word_of_nat i \<in> snd s''"
  proof (cases "i < length (fst s')")
    case True
    then show ?thesis
      using growsD(6) [OF a True i(2)] growsD(3,4) [OF b True] growsD(2) [OF b] by auto
  next
    case False
    then show ?thesis using growsD(6) [OF b i(1)] by simp
  qed
  then show "ptype (fst s'' ! i) \<in> K" "pid (fst s'' ! i) = word_of_nat i" "word_of_nat i \<in> snd s''"
    by blast+
next
  show "length (fst s) \<le> length (fst s'')" using growsD(1) [OF a] growsD(1) [OF b] by (rule le_trans)
  show "snd s \<subseteq> snd s''" using growsD(2) [OF a] growsD(2) [OF b] by blast
  fix x assume "\<forall>x \<in> snd s. unat x < length (fst s)" "x \<in> snd s''"
  then show "unat x < length (fst s'')" using growsD(7) [OF a] growsD(7) [OF b] by blast
qed

lemma grows_update:
  assumes "unat i < length ps" "ptype (ps ! unat i) \<in> K" "ptype p = ptype (ps ! unat i)"
    "pid p = pid (ps ! unat i)"
  shows "grows K (ps, d) (ps[unat i := p], insert i d)"
  using assms by (auto simp: grows_def nth_list_update)

lemma grows_append:
  assumes "ptype p \<in> K" "pid p = word_of_nat (length ps)"
  shows "grows K (ps, d) (ps @ [p], insert (word_of_nat (length ps)) d)"
proof -
  have "unat (word_of_nat (length ps) :: u32) \<le> length ps" by (simp add: unat_of_nat)
  then show ?thesis using assms by (auto simp: grows_def nth_append le_less_Suc_eq less_Suc_eq)
qed

lemma grows_same:
  "grows K (ps, d) (ps', d') \<Longrightarrow> i < length ps \<Longrightarrow> ptype (ps ! i) \<notin> K \<Longrightarrow> ps' ! i = ps ! i"
  by (auto simp: grows_def)

lemma grows_clean:
  assumes "grows K (ps, d) (ps', d')" and "i < length ps'" and "word_of_nat i \<notin> d'"
  shows "i < length ps \<and> ps' ! i = ps ! i"
  using growsD(5) [OF assms(1), of i] growsD(6) [OF assms(1), of i] assms(2,3)
  by (cases "i < length ps") simp_all

lemma grows_type: "grows K (ps, d) (ps', d') \<Longrightarrow> i < length ps \<Longrightarrow> ptype (ps' ! i) = ptype (ps ! i)"
  by (simp add: grows_def)

lemma grows_length: "grows K (ps, d) (ps', d') \<Longrightarrow> length ps \<le> length ps'"
  by (simp add: grows_def)

lemma grows_dirty:
  "grows K (ps, d) (ps', d') \<Longrightarrow> \<forall>x \<in> d. unat x < length ps \<Longrightarrow> \<forall>x \<in> d'. unat x < length ps'"
  by (simp add: grows_def)

lemma grows_pages_from: "grows K (ps, d) (ps', d') \<Longrightarrow> pages_from 0 ps \<Longrightarrow> pid (ps' ! i) = word_of_nat i \<or> \<not> i < length ps'"
  by (cases "i < length ps") (auto simp: grows_def pages_from_def)

end
