(* ===== verification/Index_Insert.thy ===== *)
theory Index_Insert
  imports Page_Growth
begin

text \<open>
  Incremental insertion into a persistent B+ tree: \<open>write_u32\<close>, \<open>write_u64\<close> and \<open>insert_index_entry\<close>
  of \<open>storage_v2.cpp\<close>. The recursion follows child pointers of the page list and is not guarded
  against cycles, so it is a computation that may not return.
\<close>

section \<open>Patching a payload\<close>

definition write_u32 :: "bytes \<Rightarrow> nat \<Rightarrow> u32 \<Rightarrow> bytes res" where
  "write_u32 bs off v =
     (if off + 4 > length bs then Inl (Logic_Error ''u32 write exceeds payload'')
      else Inr (fst (foldl (\<lambda>(bs, off) shift. (bs[off := ucast (drop_bit shift v AND 0xff)], Suc off))
        (bs, off) [0, 8, 16, 24])))"

definition write_u64 :: "bytes \<Rightarrow> nat \<Rightarrow> u64 \<Rightarrow> bytes res" where
  "write_u64 bs off v =
     (if off + 8 > length bs then Inl (Logic_Error ''u64 write exceeds payload'')
      else Inr (fst (foldl (\<lambda>(bs, off) shift. (bs[off := ucast (drop_bit shift v AND 0xff)], Suc off))
        (bs, off) [0, 8, 16, 24, 32, 40, 48, 56])))"

lemma update_append_right: "length xs = n \<Longrightarrow> (xs @ y # ys)[n := z] = xs @ z # ys"
  by (simp add: list_update_append)

lemma write_bytes:
  "length mid = length shifts \<Longrightarrow> length bs = off \<Longrightarrow>
   foldl (\<lambda>(bs, off) shift. (bs[off := f shift], Suc off)) (bs @ mid @ rest, off) shifts =
   (bs @ map f shifts @ rest, off + length shifts)"
proof (induction shifts arbitrary: bs mid off)
  case (Cons s shifts)
  then obtain m mid' where m: "mid = m # mid'" "length mid' = length shifts" by (cases mid) auto
  have "(bs @ m # mid' @ rest)[off := f s] = (bs @ [f s]) @ mid' @ rest"
    using Cons.prems(2) by (simp add: update_append_right)
  then show ?case using Cons.IH [of mid' "bs @ [f s]" "Suc off"] Cons.prems(2) m by simp
qed auto

lemma write_bytes_overwrite:
  assumes "off + length shifts \<le> length bs"
  shows "fst (foldl (\<lambda>(bs, off) shift. (bs[off := f shift], Suc off)) (bs, off) shifts) =
    overwrite off (map f shifts) bs"
proof -
  have split: "bs = take off bs @ take (length shifts) (drop off bs) @ drop (off + length shifts) bs"
    by (metis add.commute append_take_drop_id drop_drop)
  have "foldl (\<lambda>(bs, off) shift. (bs[off := f shift], Suc off)) (bs, off) shifts =
      (take off bs @ map f shifts @ drop (off + length shifts) bs, off + length shifts)"
    using assms
    by (subst split, intro write_bytes) (auto simp: min_def)
  then show ?thesis by (simp add: overwrite_def)
qed

lemma write_u32_iff:
  "write_u32 bs off v = Inr bs' \<longleftrightarrow> off + 4 \<le> length bs \<and> bs' = overwrite off (le32 v) bs"
proof (cases "off + 4 \<le> length bs")
  case True
  then have "off + length [0, 8, 16, 24 :: nat] \<le> length bs" by simp
  from write_bytes_overwrite [OF this, of "\<lambda>shift. ucast (drop_bit shift v AND 0xff)"]
  have "fst (foldl (\<lambda>(bs, off) shift. (bs[off := ucast (drop_bit shift v AND 0xff)], Suc off))
      (bs, off) [0, 8, 16, 24]) = overwrite off (le32 v) bs"
    by (simp only: le32_def append_u32_def foldl_Cons foldl_Nil list.map append.simps)
  then show ?thesis using True by (auto simp: write_u32_def simp del: foldl_Cons)
next
  case False
  then show ?thesis by (simp add: write_u32_def)
qed

lemma write_u64_iff:
  "write_u64 bs off v = Inr bs' \<longleftrightarrow> off + 8 \<le> length bs \<and> bs' = overwrite off (le64 v) bs"
proof (cases "off + 8 \<le> length bs")
  case True
  then have "off + length [0, 8, 16, 24, 32, 40, 48, 56 :: nat] \<le> length bs" by simp
  from write_bytes_overwrite [OF this, of "\<lambda>shift. ucast (drop_bit shift v AND 0xff)"]
  have "fst (foldl (\<lambda>(bs, off) shift. (bs[off := ucast (drop_bit shift v AND 0xff)], Suc off))
      (bs, off) [0, 8, 16, 24, 32, 40, 48, 56]) = overwrite off (le64 v) bs"
    by (simp only: le64_def append_u64_def foldl_Cons foldl_Nil list.map append.simps)
  then show ?thesis using True by (auto simp: write_u64_def simp del: foldl_Cons)
next
  case False
  then show ?thesis by (simp add: write_u64_def)
qed

section \<open>Inserting an entry\<close>

record node_split =
  ns_separator :: entry
  ns_right_page :: u32

type_synonym insertion = "page list \<times> u32 set \<times> node_split option"

text \<open>The second half of a leaf that no longer fits moves to a new page behind it.\<close>

definition split_leaf :: "page list \<Rightarrow> u32 \<Rightarrow> leaf_contents \<Rightarrow> u32 set \<Rightarrow> insertion res" where
  "split_leaf pages i leaf dirty =
     (let split_at = length (lc_entries leaf) div 2;
          left_half = take split_at (lc_entries leaf);
          right_half = drop split_at (lc_entries leaf);
          old_next = pnext (pages ! unat i);
          right_id = word_of_nat (length pages) in
      bindE (encode_leaf_payload (lc_previous leaf) left_half) (\<lambda>left_payload.
      bindE (encode_leaf_payload i right_half) (\<lambda>right_payload.
        let pages = pages[unat i := (pages ! unat i)\<lparr>payload := left_payload, pnext := right_id\<rparr>] @
              [Page IndexLeaf right_id old_next right_payload];
            dirty = insert right_id (insert i dirty);
            split = Some \<lparr>ns_separator = hd right_half, ns_right_page = right_id\<rparr> in
        if old_next = NO_PAGE then Inr (pages, dirty, split)
        else if unat old_next \<ge> length pages \<or> ptype (pages ! unat old_next) \<noteq> IndexLeaf
        then Inl (corruption ''leaf sibling points outside its index'')
        else
          bindE (write_u32 (payload (pages ! unat old_next)) 2 right_id) (\<lambda>linked.
          Inr (pages[unat old_next := (pages ! unat old_next)\<lparr>payload := linked\<rparr>],
               insert old_next dirty, split)))))"

definition insert_leaf :: "page list \<Rightarrow> u32 \<Rightarrow> entry \<Rightarrow> u32 set \<Rightarrow> insertion res" where
  "insert_leaf pages i entry dirty =
     bindE (decode_leaf_contents (pages ! unat i)) (\<lambda>leaf.
       let pos = lower_bound (lc_entries leaf) entry in
       if pos < length (lc_entries leaf) \<and> lc_entries leaf ! pos = entry
       then Inl (corruption ''index already contains the inserted record identifier'')
       else
         let leaf = leaf\<lparr>lc_entries := insert_at pos entry (lc_entries leaf)\<rparr> in
         bindE (encode_leaf_payload (lc_previous leaf) (lc_entries leaf)) (\<lambda>data.
         if length data \<le> PAGE_PAYLOAD_SIZE
         then Inr (pages[unat i := (pages ! unat i)\<lparr>payload := data\<rparr>], insert i dirty, None)
         else split_leaf pages i leaf dirty))"

text \<open>A parent that no longer fits keeps its first half and promotes the separator between the halves.\<close>

definition split_internal ::
  "page list \<Rightarrow> u32 \<Rightarrow> internal_contents \<Rightarrow> u32 set \<Rightarrow> insertion res" where
  "split_internal pages i c dirty =
     (let right_child_begin = length (ic_children c) div 2 in
      bindE (throw_if (right_child_begin < 2 \<or> length (ic_children c) - right_child_begin < 2)
        (Logic_Error ''Internal split cannot produce two valid nodes'')) (\<lambda>_.
        let promoted = ic_separators c ! (right_child_begin - 1);
            left_half = \<lparr>ic_level = ic_level c,
              ic_separators = take (right_child_begin - 1) (ic_separators c),
              ic_children = take right_child_begin (ic_children c)\<rparr>;
            right_half = \<lparr>ic_level = ic_level c,
              ic_separators = drop right_child_begin (ic_separators c),
              ic_children = drop right_child_begin (ic_children c)\<rparr>;
            right_id = word_of_nat (length pages) in
        bindE (encode_internal_payload left_half) (\<lambda>left_payload.
        bindE (encode_internal_payload right_half) (\<lambda>right_payload.
        Inr (pages[unat i := (pages ! unat i)\<lparr>payload := left_payload\<rparr>] @
               [Page IndexInternal right_id NO_PAGE right_payload],
             insert right_id (insert i dirty),
             Some \<lparr>ns_separator = promoted, ns_right_page = right_id\<rparr>)))))"

definition insert_child ::
  "page list \<Rightarrow> u32 \<Rightarrow> internal_contents \<Rightarrow> nat \<Rightarrow> node_split \<Rightarrow> u32 set \<Rightarrow> insertion res" where
  "insert_child pages i internal child_index split dirty =
     (let internal = internal
        \<lparr>ic_separators := insert_at child_index (ns_separator split) (ic_separators internal),
         ic_children := insert_at (child_index + 1) (ns_right_page split) (ic_children internal)\<rparr> in
      bindE (encode_internal_payload internal) (\<lambda>data.
      if length data \<le> PAGE_PAYLOAD_SIZE
      then Inr (pages[unat i := (pages ! unat i)\<lparr>payload := data\<rparr>], insert i dirty, None)
      else split_internal pages i internal dirty))"

definition outside_file :: error where
  "outside_file = corruption ''index insert points outside the file''"

definition not_an_index_page :: error where
  "not_an_index_page = corruption ''index insert encountered a non-index page''"

partial_function (option) insert_index_entry ::
  "page list \<Rightarrow> u32 \<Rightarrow> entry \<Rightarrow> u32 set \<Rightarrow> insertion attempt" where
  "insert_index_entry pages i entry dirty =
     (if unat i \<ge> length pages then Some (Inl outside_file)
      else if ptype (pages ! unat i) = IndexLeaf then Some (insert_leaf pages i entry dirty)
      else if ptype (pages ! unat i) \<noteq> IndexInternal then Some (Inl not_an_index_page)
      else
        bindP (Some (decode_internal_contents (pages ! unat i))) (\<lambda>internal.
        bindP (insert_index_entry pages
            (ic_children internal ! upper_bound (ic_separators internal) entry) entry dirty) (\<lambda>res.
        case res of (pages, dirty, split) \<Rightarrow>
          (case split of
             None \<Rightarrow> Some (Inr (pages, dirty, None))
           | Some s \<Rightarrow> Some (insert_child pages i internal
               (upper_bound (ic_separators internal) entry) s dirty)))))"

section \<open>What an insertion changes\<close>

definition index_types :: "page_type set" where
  "index_types = {IndexLeaf, IndexInternal}"

lemma index_types_simps [simp]:
  "IndexLeaf \<in> index_types" "IndexInternal \<in> index_types" "Superblock \<notin> index_types"
  "Schema \<notin> index_types" "Rows \<notin> index_types" "IndexDirectory \<notin> index_types"
  by (simp_all add: index_types_def)

lemma split_leaf_grows:
  assumes "split_leaf pages i leaf dirty = Inr (pages', dirty', split)"
    and i: "unat i < length pages" "ptype (pages ! unat i) = IndexLeaf"
  shows "grows index_types (pages, dirty) (pages', dirty')"
proof -
  let ?id = "word_of_nat (length pages)" and ?next = "pnext (pages ! unat i)"
  from assms(1) obtain lp rp where
    res: "(let pages = pages[unat i := (pages ! unat i)\<lparr>payload := lp, pnext := ?id\<rparr>] @
              [Page IndexLeaf ?id ?next rp];
            dirty = insert ?id (insert i dirty);
            split = Some \<lparr>ns_separator = hd (drop (length (lc_entries leaf) div 2) (lc_entries leaf)),
              ns_right_page = ?id\<rparr> in
        if ?next = NO_PAGE then Inr (pages, dirty, split)
        else if unat ?next \<ge> length pages \<or> ptype (pages ! unat ?next) \<noteq> IndexLeaf
        then Inl (corruption ''leaf sibling points outside its index'')
        else
          bindE (write_u32 (payload (pages ! unat ?next)) 2 ?id) (\<lambda>linked.
          Inr (pages[unat ?next := (pages ! unat ?next)\<lparr>payload := linked\<rparr>],
               insert ?next dirty, split))) = Inr (pages', dirty', split)"
    unfolding split_leaf_def by (auto simp: bindE_eq_Inr Let_def)
  define ps1 where "ps1 = pages[unat i := (pages ! unat i)\<lparr>payload := lp, pnext := ?id\<rparr>]"
  define ps2 where "ps2 = ps1 @ [Page IndexLeaf ?id ?next rp]"
  have "grows index_types (pages, dirty) (ps1, insert i dirty)"
    unfolding ps1_def using i by (intro grows_update) auto
  moreover have "length ps1 = length pages" by (simp add: ps1_def)
  then have "grows index_types (ps1, insert i dirty) (ps2, insert ?id (insert i dirty))"
    unfolding ps2_def using grows_append [of "Page IndexLeaf ?id ?next rp" index_types ps1 "insert i dirty"]
    by simp
  ultimately have g: "grows index_types (pages, dirty) (ps2, insert ?id (insert i dirty))"
    by (rule grows_trans)
  show ?thesis
  proof (cases "?next = NO_PAGE")
    case True
    then show ?thesis using res g by (auto simp: Let_def ps2_def simp flip: ps1_def)
  next
    case False
    then obtain linked where n: "unat ?next < length ps2" "ptype (ps2 ! unat ?next) = IndexLeaf"
      and out: "pages' = ps2[unat ?next := (ps2 ! unat ?next)\<lparr>payload := linked\<rparr>]"
        "dirty' = insert ?next (insert ?id (insert i dirty))"
      using res by (auto simp: Let_def bindE_eq_Inr not_le simp flip: ps1_def ps2_def split: if_splits)
    have "grows index_types (ps2, insert ?id (insert i dirty)) (pages', dirty')"
      unfolding out using n by (intro grows_update) auto
    with g show ?thesis by (rule grows_trans)
  qed
qed

lemma insert_leaf_grows:
  assumes "insert_leaf pages i e dirty = Inr (pages', dirty', split)"
    and "unat i < length pages" "ptype (pages ! unat i) = IndexLeaf"
  shows "grows index_types (pages, dirty) (pages', dirty')"
  using assms
  by (auto simp: insert_leaf_def bindE_eq_Inr Let_def split: if_splits
      intro!: grows_update dest: split_leaf_grows)

lemma split_internal_grows:
  assumes "split_internal pages i c dirty = Inr (pages', dirty', split)"
    and i: "unat i < length pages" "ptype (pages ! unat i) = IndexInternal"
  shows "grows index_types (pages, dirty) (pages', dirty')"
proof -
  let ?id = "word_of_nat (length pages)"
  from assms(1) obtain lp rp where
    out: "pages' = pages[unat i := (pages ! unat i)\<lparr>payload := lp\<rparr>] @ [Page IndexInternal ?id NO_PAGE rp]"
      "dirty' = insert ?id (insert i dirty)"
    by (auto simp: split_internal_def bindE_eq_Inr Let_def)
  define ps1 where "ps1 = pages[unat i := (pages ! unat i)\<lparr>payload := lp\<rparr>]"
  have "grows index_types (pages, dirty) (ps1, insert i dirty)"
    unfolding ps1_def using i by (intro grows_update) auto
  moreover have "length ps1 = length pages" by (simp add: ps1_def)
  then have "grows index_types (ps1, insert i dirty) (pages', dirty')"
    unfolding out using grows_append [of "Page IndexInternal ?id NO_PAGE rp" index_types ps1 "insert i dirty"]
    by (simp flip: ps1_def)
  ultimately show ?thesis by (rule grows_trans)
qed

lemma insert_child_grows:
  assumes "insert_child pages i c k s dirty = Inr (pages', dirty', split)"
    and "unat i < length pages" "ptype (pages ! unat i) = IndexInternal"
  shows "grows index_types (pages, dirty) (pages', dirty')"
  using assms
  by (auto simp: insert_child_def bindE_eq_Inr Let_def split: if_splits
      intro!: grows_update dest: split_internal_grows)

lemma insert_index_entry_grows:
  "insert_index_entry pages i e dirty = Some r \<Longrightarrow> r = Inr (pages', dirty', split) \<Longrightarrow>
   grows index_types (pages, dirty) (pages', dirty')"
proof (induction arbitrary: pages' dirty' split rule: insert_index_entry.raw_induct [rotated, consumes 1])
  case (1 rec pages i e dirty r)
  consider (leaf) "unat i < length pages" "ptype (pages ! unat i) = IndexLeaf"
      "insert_leaf pages i e dirty = Inr (pages', dirty', split)"
    | (child) c ps d s where "unat i < length pages" "ptype (pages ! unat i) = IndexInternal"
      "rec pages (ic_children c ! upper_bound (ic_separators c) e) e dirty = Some (Inr (ps, d, s))"
      "(case s of None \<Rightarrow> Some (Inr (ps, d, None))
        | Some s \<Rightarrow> Some (insert_child ps i c (upper_bound (ic_separators c) e) s d)) =
       Some (Inr (pages', dirty', split))"
    using 1(2) unfolding 1(3)
    by (auto simp: bindP_eq_Inr not_le split: if_splits prod.splits)
  then show ?case
  proof cases
    case leaf
    then show ?thesis by (intro insert_leaf_grows)
  next
    case child
    have g: "grows index_types (pages, dirty) (ps, d)" by (rule 1(1) [OF child(3) refl])
    have i: "unat i < length ps" "ptype (ps ! unat i) = IndexInternal"
      using grows_length [OF g] grows_type [OF g child(1)] child(1,2) by simp_all
    show ?thesis
    proof (cases s)
      case None
      then show ?thesis using child(4) g by simp
    next
      case (Some sp)
      then have "insert_child ps i c (upper_bound (ic_separators c) e) sp d = Inr (pages', dirty', split)"
        using child(4) by simp
      from insert_child_grows [OF this i] g show ?thesis by (blast intro: grows_trans)
    qed
  qed
qed

end
