(* ===== verification/Row_Insert.thy ===== *)
theory Row_Insert
  imports Index_Insert Image_Roundtrip
begin

text \<open>
  \<open>build_incremental_insert\<close> of \<open>storage_v2.cpp\<close>: the row is appended to the row chain, its keys are
  inserted into the tree of every field, and the directory and the superblock are patched; the set of
  pages that changed is collected on the way. The result is validated before it is returned.
\<close>

section \<open>Preconditions\<close>

definition check_insert :: "loaded_table \<Rightarrow> string list \<Rightarrow> unit res" where
  "check_insert t row =
     bindE (throw_if (length row \<noteq> length (lt_fields t))
       (Invalid_Argument (''Expected '' @ to_string (length (lt_fields t)) @ '' values, received '' @
          to_string (length row)))) (\<lambda>_.
     bindE (foldE check_value () row) (\<lambda>_.
     bindE (throw_if (in_generation (lt_inspection t) = - 1)
       (Overflow_Error ''Database generation is exhausted'')) (\<lambda>_.
     throw_if (length (lt_rows t) = 2 ^ 64 - 1)
       (Overflow_Error ''Record identifier space is exhausted''))))"

record insert_heads =
  ih_rows_head :: u32
  ih_directory_head :: u32
  ih_field_count :: u32
  ih_old_row_count :: u64

definition read_heads :: "page list \<Rightarrow> insert_heads res" where
  "read_heads pages =
     bindE (reader_u64 (Reader (payload (pages ! 0)) ''superblock'')) (\<lambda>(_, r).
     bindE (reader_u32 r) (\<lambda>(_, r).
     bindE (reader_u32 r) (\<lambda>(_, r).
     bindE (reader_u32 r) (\<lambda>(_, r).
     bindE (reader_u32 r) (\<lambda>(rows_head, r).
     bindE (reader_u32 r) (\<lambda>(directory_head, r).
     bindE (reader_u32 r) (\<lambda>(_, r).
     bindE (reader_u32 r) (\<lambda>(field_count, r).
     bindE (reader_u64 r) (\<lambda>(old_row_count, _).
     Inr \<lparr>ih_rows_head = rows_head, ih_directory_head = directory_head,
          ih_field_count = field_count, ih_old_row_count = old_row_count\<rparr>)))))))))"

section \<open>The row chain\<close>

partial_function (option) last_page :: "page list \<Rightarrow> u32 \<Rightarrow> u32 option" where
  "last_page pages i =
     (if pnext (pages ! unat i) = NO_PAGE then Some i else last_page pages (pnext (pages ! unat i)))"

text \<open>
  The loop that fills the last page and opens new ones. The capacity is computed on pages that were
  decoded or created here, whose payloads never exceed \<open>PAGE_PAYLOAD_SIZE\<close>.
\<close>

partial_function (option) append_to_chain ::
  "page list \<Rightarrow> u32 \<Rightarrow> bytes \<Rightarrow> u32 set \<Rightarrow> (page list \<times> u32 set) option" where
  "append_to_chain pages row_page data dirty =
     (if data = [] then Some (pages, dirty)
      else
        let target = pages ! unat row_page;
            capacity = PAGE_PAYLOAD_SIZE - length (payload target);
            copied = min capacity (length data);
            target = target\<lparr>payload := payload target @ take copied data\<rparr>;
            dirty = insert row_page dirty;
            data = drop copied data in
        if data = [] then Some (pages[unat row_page := target], dirty)
        else
          let next_id = word_of_nat (length pages);
              pages = pages[unat row_page := target\<lparr>pnext := next_id\<rparr>] @ [Page Rows next_id NO_PAGE []] in
          append_to_chain pages next_id data (insert next_id dirty))"

definition patch_page :: "(bytes \<Rightarrow> bytes res) \<Rightarrow> page list \<Rightarrow> u32 \<Rightarrow> page list res" where
  "patch_page f pages i =
     bindE (f (payload (pages ! unat i))) (\<lambda>data.
     Inr (pages[unat i := (pages ! unat i)\<lparr>payload := data\<rparr>]))"

definition append_row_pages ::
  "page list \<Rightarrow> insert_heads \<Rightarrow> string list \<Rightarrow> (page list \<times> u32 set) attempt" where
  "append_row_pages pages h row =
     bindP (Some (throw_if (unat (ih_rows_head h) \<ge> length pages \<or>
         ptype (pages ! unat (ih_rows_head h)) \<noteq> Rows) (corruption ''row chain head is invalid''))) (\<lambda>_.
     bindP (Some (patch_page (\<lambda>bs. write_u64 bs 0 (ih_old_row_count h + 1)) pages (ih_rows_head h)))
       (\<lambda>pages.
     bindP (Some (foldE append_string (append_u32 [] (ih_field_count h)) row)) (\<lambda>encoded_row.
     Option.bind (last_page pages (ih_rows_head h)) (\<lambda>row_page.
     map_option Inr (append_to_chain pages row_page encoded_row {ih_rows_head h})))))"

section \<open>The indexes\<close>

definition read_roots :: "page list \<Rightarrow> insert_heads \<Rightarrow> u32 list res" where
  "read_roots pages h =
     bindE (throw_if (unat (ih_directory_head h) \<ge> length pages \<or>
       ptype (pages ! unat (ih_directory_head h)) \<noteq> IndexDirectory)
       (corruption ''index directory head is invalid'')) (\<lambda>_.
     bindE (reader_u32 (Reader (payload (pages ! unat (ih_directory_head h))) ''index directory''))
       (\<lambda>(n, r).
     bindE (throw_if (n \<noteq> ih_field_count h) (corruption ''index field count mismatch'')) (\<lambda>_.
     bindE (read_many reader_u32 (unat (ih_field_count h)) r) (\<lambda>(roots, _). Inr roots))))"

text \<open>The new root of one field.\<close>

definition insert_root ::
  "page list \<Rightarrow> u32 set \<Rightarrow> u32 \<Rightarrow> entry \<Rightarrow> (page list \<times> u32 set \<times> u32) attempt" where
  "insert_root pages dirty root entry =
     (if root = NO_PAGE then
        bindP (Some (encode_leaf_payload NO_PAGE [entry])) (\<lambda>data.
          let new_root = word_of_nat (length pages) in
          Some (Inr (pages @ [Page IndexLeaf new_root NO_PAGE data], insert new_root dirty, new_root)))
      else
        bindP (insert_index_entry pages root entry dirty) (\<lambda>(pages, dirty, split).
          case split of
            None \<Rightarrow> Some (Inr (pages, dirty, root))
          | Some s \<Rightarrow>
              bindP (Some (node_level (pages ! unat root))) (\<lambda>level.
              bindP (Some (encode_internal_payload
                \<lparr>ic_level = level + 1, ic_separators = [ns_separator s],
                 ic_children = [root, ns_right_page s]\<rparr>)) (\<lambda>data.
                let new_root = word_of_nat (length pages) in
                Some (Inr (pages @ [Page IndexInternal new_root NO_PAGE data],
                  insert new_root dirty, new_root))))))"

definition insert_field ::
  "insert_heads \<Rightarrow> string list \<Rightarrow> u32 list \<Rightarrow> nat \<Rightarrow> page list \<times> u32 set \<Rightarrow>
   (page list \<times> u32 set) attempt" where
  "insert_field h row roots field = (\<lambda>(pages, dirty).
     bindP (insert_root pages dirty (roots ! field) (row ! field, ih_old_row_count h))
       (\<lambda>(pages, dirty, root).
     bindP (Some (patch_page (\<lambda>bs. write_u32 bs (4 + field * 4) root) pages (ih_directory_head h)))
       (\<lambda>pages.
     Some (Inr (pages, dirty)))))"

fun insert_fields ::
  "insert_heads \<Rightarrow> string list \<Rightarrow> u32 list \<Rightarrow> nat list \<Rightarrow> page list \<times> u32 set \<Rightarrow>
   (page list \<times> u32 set) attempt" where
  "insert_fields h row roots [] s = Some (Inr s)"
| "insert_fields h row roots (field # flds) s =
     bindP (insert_field h row roots field s) (insert_fields h row roots flds)"

section \<open>The new image\<close>

definition update_superblock :: "page list \<Rightarrow> u64 \<Rightarrow> u64 \<Rightarrow> page list res" where
  "update_superblock pages generation row_count =
     bindE (patch_page (\<lambda>bs. write_u64 bs 0 generation) pages 0) (\<lambda>pages.
     bindE (patch_page (\<lambda>bs. write_u32 bs 12 (word_of_nat (length pages))) pages 0) (\<lambda>pages.
     patch_page (\<lambda>bs. write_u64 bs 36 row_count) pages 0))"

record incremental_image =
  ii_image :: bytes
  ii_dirty_pages :: "u32 set"
  ii_generation :: u64

definition insert_pages ::
  "page list \<Rightarrow> string list \<Rightarrow> u64 \<Rightarrow> (page list \<times> u32 set) attempt" where
  "insert_pages pages row generation =
     bindP (Some (read_heads pages)) (\<lambda>h.
     bindP (append_row_pages pages h row) (\<lambda>(pages, dirty).
     bindP (Some (read_roots pages h)) (\<lambda>roots.
     bindP (insert_fields h row roots [0..<length roots] (pages, dirty)) (\<lambda>(pages, dirty).
     bindP (Some (update_superblock pages generation (ih_old_row_count h + 1))) (\<lambda>pages.
     Some (Inr (pages, insert 0 (insert (ih_directory_head h) dirty))))))))"

definition build_incremental_insert :: "bytes \<Rightarrow> string list \<Rightarrow> incremental_image attempt" where
  "build_incremental_insert current_image row =
     bindP (Some (parse_image current_image False)) (\<lambda>(table, pages).
     bindP (Some (check_insert table row)) (\<lambda>_.
       let generation = in_generation (lt_inspection table) + 1 in
       bindP (insert_pages pages row generation) (\<lambda>(pages, dirty).
       bindP (Some (encode_pages pages)) (\<lambda>img.
       bindP (Some (parse_image img False)) (\<lambda>_.
       Some (Inr \<lparr>ii_image = img, ii_dirty_pages = dirty, ii_generation = generation\<rparr>))))))"

end
