(* ===== verification/Insert_Frame.thy ===== *)
theory Insert_Frame
  imports Row_Insert
begin

text \<open>
  The parts of an insertion on their own: what each step changes (\<open>grows\<close>), and how the row chain is
  extended. The row chain of the new page list spells the old stream with the row count raised and
  the new row behind it; no step of the index update touches a row, schema or superblock page.
\<close>

section \<open>Patches\<close>

lemma patch_page_Inr:
  "patch_page f pages i = Inr pages' \<longleftrightarrow>
   (\<exists>data. f (payload (pages ! unat i)) = Inr data \<and>
      pages' = pages[unat i := (pages ! unat i)\<lparr>payload := data\<rparr>])"
  by (auto simp: patch_page_def bindE_eq_Inr)

lemma patch_page_grows:
  "patch_page f pages i = Inr pages' \<Longrightarrow> unat i < length pages \<Longrightarrow> ptype (pages ! unat i) \<in> K \<Longrightarrow>
   grows K (pages, d) (pages', insert i d)"
  by (auto simp: patch_page_Inr intro!: grows_update)

lemma length_patch_page: "patch_page f pages i = Inr pages' \<Longrightarrow> length pages' = length pages"
  by (auto simp: patch_page_Inr)

section \<open>Extending a chain\<close>

lemma chain_at_start: "chain_at pages t h bs ids \<Longrightarrow> ids \<noteq> [] \<Longrightarrow>
  hd ids = h \<and> h \<noteq> NO_PAGE \<and> unat h < length pages \<and> ptype (pages ! unat h) = t \<and>
  (\<exists>bs'. bs = payload (pages ! unat h) @ bs')"
  by (erule chain_at.cases) auto

lemma chain_at_last: "chain_at pages t h bs ids \<Longrightarrow> ids \<noteq> [] \<Longrightarrow>
  pnext (pages ! unat (last ids)) = NO_PAGE \<and> unat (last ids) < length pages \<and>
  ptype (pages ! unat (last ids)) = t"
proof (induction rule: chain_at.induct)
  case (chain_page i bs ids)
  show ?case
  proof (cases "ids = []")
    case True
    then have "pnext (pages ! unat i) = NO_PAGE" using chain_page(4) by (auto elim: chain_at.cases)
    then show ?thesis using True chain_page by simp
  qed (use chain_page in simp)
qed simp

lemma last_page_chain: "chain_at pages t h bs ids \<Longrightarrow> ids \<noteq> [] \<Longrightarrow> last_page pages h = Some (last ids)"
proof (induction rule: chain_at.induct)
  case (chain_page i bs ids)
  show ?case
  proof (cases "ids = []")
    case True
    then have "pnext (pages ! unat i) = NO_PAGE" using chain_page(4) by (auto elim: chain_at.cases)
    then show ?thesis using True by (subst last_page.simps) simp
  next
    case False
    then have "pnext (pages ! unat i) \<noteq> NO_PAGE" using chain_page(4) by (auto elim: chain_at.cases)
    then show ?thesis using False chain_page by (subst last_page.simps) simp
  qed
qed simp

lemma chain_at_extend:
  assumes "chain_at pages t h bs ids" and "ids \<noteq> []"
    and "\<And>i. i \<in> set ids \<Longrightarrow> unat i < length pages'"
    and "\<And>i. i \<in> set ids \<Longrightarrow> i \<noteq> last ids \<Longrightarrow> pages' ! unat i = pages ! unat i"
    and "pages' ! unat (last ids) =
      (pages ! unat (last ids))\<lparr>payload := payload (pages ! unat (last ids)) @ x, pnext := m\<rparr>"
    and "chain_at pages' t m y ms" and "set ms \<inter> set ids = {}"
  shows "chain_at pages' t h (bs @ x @ y) (ids @ ms)"
  using assms
proof (induction rule: chain_at.induct)
  case (chain_page i bs ids)
  show ?case
  proof (cases "ids = []")
    case True
    then have bs: "bs = []" using chain_page(4) by (auto elim: chain_at.cases)
    have "chain_at pages' t i (payload (pages' ! unat i) @ y) (i # ms)"
      using chain_page True by (intro chain_at.chain_page) auto
    then show ?thesis using chain_page.prems(4) True bs by simp
  next
    case False
    have same: "pages' ! unat i = pages ! unat i"
    proof (rule chain_page.prems(3))
      show "i \<noteq> last (i # ids)" using chain_page.hyps(5) False by (metis last_ConsR last_in_set)
    qed simp
    have "chain_at pages' t (pnext (pages ! unat i)) (bs @ x @ y) (ids @ ms)"
      using chain_page False by (intro chain_page.IH) auto
    then have "chain_at pages' t i (payload (pages' ! unat i) @ bs @ x @ y) (i # ids @ ms)"
      using chain_page same by (intro chain_at.chain_page) auto
    then show ?thesis by (simp add: same)
  qed
qed simp

lemma chain_at_patch_head:
  assumes c: "chain_at pages t h bs ids" and "ids \<noteq> []"
    and v: "length v \<le> length (payload (pages ! unat h))"
  shows "chain_at (pages[unat h := (pages ! unat h)\<lparr>payload := overwrite 0 v (payload (pages ! unat h))\<rparr>])
    t h (overwrite 0 v bs) ids"
    (is "chain_at ?pages t h _ _")
  using c
proof (cases rule: chain_at.cases)
  case (chain_page bs' ids')
  have "chain_at ?pages t (pnext (pages ! unat h)) bs' ids'"
  proof (rule chain_at_pages_cong [OF chain_page(6)])
    fix i assume "i \<in> set ids'"
    moreover have "unat i < length pages" if "i \<in> set ids'" for i
      using chain_page(6) that by (induction rule: chain_at.induct) auto
    ultimately show "unat i < length ?pages \<and> ?pages ! unat i = pages ! unat i"
      using chain_page(7) by (metis length_list_update nth_list_update_neq word_unat_eq_iff)
  qed
  then have "chain_at ?pages t h (payload (?pages ! unat h) @ bs') (h # ids')"
    using chain_page by (intro chain_at.chain_page) auto
  moreover have "payload (?pages ! unat h) @ bs' = overwrite 0 v bs"
    using chain_page v by (simp add: overwrite_def)
  ultimately show ?thesis using chain_page(2) by simp
qed (use assms(2) in simp)

section \<open>Appending to the row chain\<close>

text \<open>One round of the loop: the last page takes more bytes, and a new page may follow it.\<close>

lemma chain_at_inside: "chain_at pages t h bs ids \<Longrightarrow> i \<in> set ids \<Longrightarrow> unat i < length pages"
  by (induction rule: chain_at.induct) auto

lemma unat_neq: "i \<noteq> r \<Longrightarrow> unat (r :: u32) \<noteq> unat i"
  by (metis unsigned_word_eqI)

lemma fill_last_page:
  fixes x :: bytes
  assumes chain: "chain_at pages Rows h bs ids" "ids \<noteq> []"
  defines "r \<equiv> last ids"
  defines "target \<equiv> (pages ! unat r)\<lparr>payload := payload (pages ! unat r) @ x\<rparr>"
  shows "grows {Rows} (pages, d) (pages[unat r := target], insert r d)"
    and "chain_at (pages[unat r := target]) Rows h (bs @ x) ids"
proof -
  note last = chain_at_last [OF chain]
  show "grows {Rows} (pages, d) (pages[unat r := target], insert r d)"
    unfolding target_def r_def using last by (intro grows_update) auto
  have "chain_at (pages[unat r := target]) Rows h (bs @ x @ []) (ids @ [])"
    using chain_at_inside [OF chain(1)] last
    by (intro chain_at_extend [OF chain, where m = NO_PAGE])
      (simp_all add: target_def r_def nth_list_update_neq unat_neq)
  then show "chain_at (pages[unat r := target]) Rows h (bs @ x) ids" by simp
qed

lemma open_next_page:
  fixes x :: bytes
  assumes chain: "chain_at pages Rows h bs ids" "ids \<noteq> []" and small: "length pages < MAX_PAGES"
  defines "r \<equiv> last ids" and "n \<equiv> word_of_nat (length pages)"
  defines "target \<equiv> (pages ! unat r)\<lparr>payload := payload (pages ! unat r) @ x\<rparr>"
  defines "pages' \<equiv> pages[unat r := target\<lparr>pnext := n\<rparr>] @ [Page Rows n NO_PAGE []]"
  shows "grows {Rows} (pages, d) (pages', insert n (insert r d))"
    and "chain_at pages' Rows h (bs @ x) (ids @ [n])"
proof -
  note last = chain_at_last [OF chain] and inside = chain_at_inside [OF chain(1)]
  have n: "unat n = length pages" using small by (simp add: n_def)
  have new: "n \<notin> set ids" "n \<noteq> NO_PAGE"
    using inside [of n] small n by (auto simp: n_def)
  have "grows {Rows} (pages, d) (pages[unat r := target\<lparr>pnext := n\<rparr>], insert r d)"
    unfolding target_def r_def using last by (intro grows_update) auto
  moreover have "grows {Rows} (pages[unat r := target\<lparr>pnext := n\<rparr>], insert r d) (pages', insert n (insert r d))"
    using grows_append [of "Page Rows n NO_PAGE []" "{Rows}" "pages[unat r := target\<lparr>pnext := n\<rparr>]" "insert r d"]
    by (simp add: pages'_def n_def)
  ultimately show "grows {Rows} (pages, d) (pages', insert n (insert r d))" by (rule grows_trans)
  have "chain_at pages' Rows n [] [n]"
    using new n chain_at.chain_page [of n pages' Rows "[]" "[]"] by (simp add: pages'_def nth_append)
  then have "chain_at pages' Rows h (bs @ x @ []) (ids @ [n])"
    using inside last new
    by (intro chain_at_extend [OF chain, where m = n])
      (simp_all add: pages'_def r_def target_def nth_append nth_list_update_neq unat_neq less_Suc_eq)
  then show "chain_at pages' Rows h (bs @ x) (ids @ [n])" by simp
qed

lemma append_to_chain_spec:
  "append_to_chain pages r data d = Some s \<Longrightarrow> length pages \<le> length (fst s) \<and>
   (\<forall>bs ids. length (fst s) \<le> MAX_PAGES \<longrightarrow> chain_at pages Rows h bs ids \<longrightarrow> ids \<noteq> [] \<longrightarrow> last ids = r \<longrightarrow>
      grows {Rows} (pages, d) s \<and> (\<exists>ids'. chain_at (fst s) Rows h (bs @ data) ids' \<and> ids' \<noteq> []))"
proof (induction rule: append_to_chain.raw_induct [rotated, consumes 1])
  case (1 rec pages r data d s)
  define n :: u32 where "n = word_of_nat (length pages)"
  define x where "x = take (min (PAGE_PAYLOAD_SIZE - length (payload (pages ! unat r))) (length data)) data"
  define rest where "rest = drop (min (PAGE_PAYLOAD_SIZE - length (payload (pages ! unat r))) (length data)) data"
  define target where "target = (pages ! unat r)\<lparr>payload := payload (pages ! unat r) @ x\<rparr>"
  define pages' where "pages' = pages[unat r := target\<lparr>pnext := n\<rparr>] @ [Page Rows n NO_PAGE []]"
  have xr: "data = x @ rest" by (simp add: x_def rest_def)
  from 1(2) have "(if data = [] then Some (pages, d)
      else if rest = [] then Some (pages[unat r := target], insert r d)
      else rec pages' n rest (insert n (insert r d))) = Some s"
    by (simp only: Let_def n_def x_def rest_def target_def pages'_def)
  then consider (none) "data = []" "s = (pages, d)"
    | (fits) "rest = []" "s = (pages[unat r := target], insert r d)"
    | (more_pages) "rec pages' n rest (insert n (insert r d)) = Some s"
    by (cases "data = []"; cases "rest = []") (simp_all only: if_True if_False option.inject simp_thms)
  then show ?case
  proof cases
    case none
    then show ?thesis by auto
  next
    case fits
    then show ?thesis
      using fill_last_page(1) [where x = x and d = d] fill_last_page(2) [where x = x] xr
      by (fastforce simp: target_def)
  next
    case more_pages
    note IH = 1(1) [OF more_pages]
    have "grows {Rows} (pages, d) s \<and> (\<exists>ids'. chain_at (fst s) Rows h (bs @ data) ids' \<and> ids' \<noteq> [])"
      if small: "length (fst s) \<le> MAX_PAGES" and chain: "chain_at pages Rows h bs ids" "ids \<noteq> []"
        and r: "last ids = r" for bs ids
    proof -
      have len: "length pages < MAX_PAGES" using IH small by (simp add: pages'_def)
      note op = open_next_page [OF chain len, unfolded r]
      have "grows {Rows} (pages, d) (pages', insert n (insert r d))"
        using op(1) by (simp add: n_def target_def pages'_def)
      moreover have "chain_at pages' Rows h (bs @ x) (ids @ [n])"
        using op(2) by (simp add: n_def target_def pages'_def)
      moreover from this have "grows {Rows} (pages', insert n (insert r d)) s \<and>
          (\<exists>ids'. chain_at (fst s) Rows h ((bs @ x) @ rest) ids' \<and> ids' \<noteq> [])"
        by (rule conjunct2 [OF IH, rule_format, OF small]) simp_all
      ultimately show ?thesis using xr by (auto intro: grows_trans)
    qed
    moreover have "length pages \<le> length (fst s)" using IH by (simp add: pages'_def)
    ultimately show ?thesis by blast
  qed
qed

lemma append_strings_iff:
  "foldE append_string out ss = Inr out' \<longleftrightarrow>
   (\<forall>s \<in> set ss. length s \<le> MAX_VALUE_LENGTH) \<and> out' = out @ concat (map lestr ss)"
  by (induction ss arbitrary: out) (auto simp: bindE_eq_Inr append_string_eq)

lemma row_chain_ids:
  assumes "chain_at pages t h (le64 k @ rest) ids"
  shows "ids \<noteq> []"
proof
  assume "ids = []"
  then have "le64 k @ rest = []" using assms by (auto elim: chain_at.cases)
  moreover have "length (le64 k @ rest) \<noteq> 0" by simp
  ultimately show False by (simp only: list.size)
qed

lemma append_row_pages_spec:
  assumes app: "append_row_pages pages h row = Some (Inr (pages', d))"
    and chain: "chain_at pages Rows (ih_rows_head h) (le64 k @ rest) ids" and small: "length pages' \<le> MAX_PAGES"
  shows "grows {Rows} (pages, {}) (pages', d)"
    and "\<exists>ids'. chain_at pages' Rows (ih_rows_head h)
      (le64 (ih_old_row_count h + 1) @ rest @ le_row (ih_field_count h) row) ids'"
proof -
  let ?h = "ih_rows_head h" and ?count = "le64 (ih_old_row_count h + 1)"
  have ne: "ids \<noteq> []" by (rule row_chain_ids [OF chain])
  note start = chain_at_start [OF chain ne]
  obtain patched r where
    patch: "patch_page (\<lambda>bs. write_u64 bs 0 (ih_old_row_count h + 1)) pages ?h = Inr patched" and
    r: "last_page patched ?h = Some r" and
    loop: "append_to_chain patched r (le_row (ih_field_count h) row) {?h} = Some (pages', d)"
    using app by (auto simp: append_row_pages_def bindP_eq_Inr append_strings_iff append_u32_eq le_row_def
        bind_eq_Some_conv)
  from patch have head: "8 \<le> length (payload (pages ! unat ?h))"
    "patched = pages[unat ?h := (pages ! unat ?h)\<lparr>payload := overwrite 0 ?count (payload (pages ! unat ?h))\<rparr>]"
    by (auto simp: patch_page_Inr write_u64_iff)
  have c: "chain_at patched Rows ?h (?count @ rest) ids"
    using chain_at_patch_head [OF chain ne, of ?count] head by (simp add: overwrite_def)
  have "r = last ids" using last_page_chain [OF c ne] r by simp
  then have a: "grows {Rows} (patched, {?h}) (pages', d) \<and> (\<exists>ids'. chain_at (fst (pages', d)) Rows ?h
      ((?count @ rest) @ le_row (ih_field_count h) row) ids' \<and> ids' \<noteq> [])"
    by (intro conjunct2 [OF append_to_chain_spec [OF loop], rule_format, OF _ c ne]) (simp_all add: small)
  then show "\<exists>ids'. chain_at pages' Rows ?h (?count @ rest @ le_row (ih_field_count h) row) ids'" by auto
  have "grows {Rows} (pages, {}) (patched, {?h})"
    by (rule patch_page_grows [OF patch]) (use start in auto)
  then show "grows {Rows} (pages, {}) (pages', d)" using a by (blast intro: grows_trans)
qed

section \<open>Frames of the index update\<close>

lemma grows_insert:
  "grows K (ps, d) (ps', d') \<Longrightarrow> unat x < length ps \<Longrightarrow> grows K (ps, insert x d) (ps', insert x d')"
  by (auto simp: grows_def)

lemma insert_root_grows:
  assumes "insert_root pages d root e = Some (Inr (pages', d', root'))"
  shows "grows index_types (pages, d) (pages', d')"
proof (cases "root = NO_PAGE")
  case True
  then show ?thesis
    using assms by (auto simp: insert_root_def bindP_eq_Inr Let_def intro!: grows_append)
next
  case False
  then obtain ps ds split where
    ins: "insert_index_entry pages root e d = Some (Inr (ps, ds, split))" and
    out: "split = None \<and> pages' = ps \<and> d' = ds \<or>
      (\<exists>data. pages' = ps @ [Page IndexInternal (word_of_nat (length ps)) NO_PAGE data] \<and>
        d' = insert (word_of_nat (length ps)) ds)"
    using assms by (fastforce simp: insert_root_def bindP_eq_Inr Let_def split: option.splits)
  note g = insert_index_entry_grows [OF ins refl]
  from out show ?thesis
  proof (elim disjE exE conjE)
    fix data assume "pages' = ps @ [Page IndexInternal (word_of_nat (length ps)) NO_PAGE data]"
      "d' = insert (word_of_nat (length ps)) ds"
    then have "grows index_types (ps, ds) (pages', d')" by (simp add: grows_append)
    with g show ?thesis by (rule grows_trans)
  qed (use g in simp)
qed

abbreviation update_types :: "page_type set" where
  "update_types \<equiv> insert IndexDirectory index_types"

lemma insert_field_grows:
  assumes "insert_field h row roots field (pages, d) = Some (Inr (pages', d'))"
    and dir: "unat (ih_directory_head h) < length pages" "ptype (pages ! unat (ih_directory_head h)) = IndexDirectory"
  shows "grows update_types (pages, insert (ih_directory_head h) d) (pages', insert (ih_directory_head h) d')"
proof -
  obtain ps root where
    ins: "insert_root pages d (roots ! field) (row ! field, ih_old_row_count h) = Some (Inr (ps, d', root))" and
    patch: "patch_page (\<lambda>bs. write_u32 bs (4 + field * 4) root) ps (ih_directory_head h) = Inr pages'"
    using assms(1) by (auto simp: insert_field_def bindP_eq_Inr)
  note g = insert_root_grows [OF ins]
  have "grows update_types (pages, insert (ih_directory_head h) d) (ps, insert (ih_directory_head h) d')"
    using grows_insert [OF g dir(1)] by (rule grows_mono) auto
  moreover have "grows update_types (ps, insert (ih_directory_head h) d') (pages', insert (ih_directory_head h) d')"
    using patch_page_grows [OF patch, of update_types "insert (ih_directory_head h) d'"]
      grows_length [OF g] grows_type [OF g dir(1)] dir by simp
  ultimately show ?thesis by (rule grows_trans)
qed

lemma insert_fields_grows:
  "insert_fields h row roots flds (pages, d) = Some (Inr (pages', d')) \<Longrightarrow>
   unat (ih_directory_head h) < length pages \<Longrightarrow>
   ptype (pages ! unat (ih_directory_head h)) = IndexDirectory \<Longrightarrow>
   grows update_types (pages, insert (ih_directory_head h) d) (pages', insert (ih_directory_head h) d')"
proof (induction flds arbitrary: pages d)
  case (Cons field flds)
  then obtain ps ds where
    step: "insert_field h row roots field (pages, d) = Some (Inr (ps, ds))" and
    rest: "insert_fields h row roots flds (ps, ds) = Some (Inr (pages', d'))"
    by (auto simp: bindP_eq_Inr)
  note g = insert_field_grows [OF step Cons.prems(2,3)]
  have "unat (ih_directory_head h) < length ps" "ptype (ps ! unat (ih_directory_head h)) = IndexDirectory"
    using grows_length [OF g] grows_type [OF g Cons.prems(2)] Cons.prems(2,3) by simp_all
  with Cons.IH [OF rest] g show ?case by (blast intro: grows_trans)
qed simp

section \<open>The superblock\<close>

lemma update_superblock_Inr:
  assumes "update_superblock pages generation rows = Inr pages'" and "0 < length pages"
  shows "pages' = pages[0 := (pages ! 0)\<lparr>payload :=
    overwrite 36 (le64 rows) (overwrite 12 (le32 (word_of_nat (length pages)))
      (overwrite 0 (le64 generation) (payload (pages ! 0))))\<rparr>]"
  using assms
  by (auto simp: update_superblock_def bindE_eq_Inr patch_page_Inr write_u64_iff write_u32_iff)

lemma superblock_patched:
  "overwrite 36 (le64 rows) (overwrite 12 (le32 n) (overwrite 0 (le64 g) (superblock_payload sb))) =
   superblock_payload (sb\<lparr>sb_generation := g, sb_page_count := n, sb_row_count := rows\<rparr>)"
  by (simp add: superblock_payload_eq overwrite_def)

end
