(* ===== verification/Insert_Correct.thy ===== *)
theory Insert_Correct
  imports Insert_Frame
begin

text \<open>
  What \<open>build_incremental_insert\<close> returns: an image of the same table with the row appended and the
  next generation, whose unrecorded pages are those of the old image.
\<close>

section \<open>Uniqueness\<close>

lemma chain_at_unique:
  "chain_at pages t h bs ids \<Longrightarrow> chain_at pages t h bs' ids' \<Longrightarrow> bs' = bs \<and> ids' = ids"
proof (induction arbitrary: bs' ids' rule: chain_at.induct)
  case (chain_page i bs ids)
  from chain_page.prems chain_page.hyps(1) show ?case
    by (cases rule: chain_at.cases) (use chain_page.IH in auto)
qed simp

lemma superblock_payload_inject [simp]: "superblock_payload a = superblock_payload b \<longleftrightarrow> a = b"
proof
  assume "superblock_payload a = superblock_payload b"
  then show "a = b" by (cases a; cases b) (simp add: superblock_payload_eq)
qed simp

lemma encode_parse_pages:
  assumes "encode_pages ps = Inr img" and "pages_from 0 ps" and "parse_pages img = Inr qs"
  shows "qs = ps"
proof -
  have q: "qs \<noteq> []" "length qs \<le> MAX_PAGES" "encode_pages qs = Inr img"
    using assms(3) unfolding parse_pages_iff by blast+
  have "length img = PAGE_SIZE * length ps"
    using assms(1) length_concat_page_bytes unfolding encode_pages_iff by blast
  moreover have "length img = PAGE_SIZE * length qs"
    using q(3) length_concat_page_bytes unfolding encode_pages_iff by blast
  ultimately have len: "length ps = length qs" by (simp add: PAGE_SIZE_def)
  then have "ps \<noteq> []" using q(1) by auto
  then have "parse_pages img = Inr ps"
    unfolding parse_pages_iff using assms(1,2) q(2) len by simp
  then show ?thesis using assms(3) by simp
qed

lemma chain_at_kept:
  assumes "chain_at pages t h bs ids" and g: "grows K (pages, d) (pages', d')" and "t \<notin> K"
  shows "chain_at pages' t h bs ids"
proof (rule chain_at_pages_cong [OF assms(1)])
  have types: "chain_at pages t h bs ids \<Longrightarrow> i \<in> set ids \<Longrightarrow> ptype (pages ! unat i) = t" for i
    by (induction rule: chain_at.induct) auto
  fix i assume i: "i \<in> set ids"
  then show "unat i < length pages' \<and> pages' ! unat i = pages ! unat i"
    using chain_at_inside [OF assms(1) i] types [OF assms(1) i] assms(3) grows_length [OF g]
      grows_same [OF g] by auto
qed

section \<open>The heads\<close>

lemma read_heads_superblock:
  assumes "payload (pages ! 0) = superblock_payload sb"
  shows "read_heads pages = Inr \<lparr>ih_rows_head = sb_rows_head sb,
    ih_directory_head = sb_index_directory_head sb, ih_field_count = sb_field_count sb,
    ih_old_row_count = sb_row_count sb\<rparr>"
  unfolding read_heads_def
  by (auto simp: assms superblock_payload_eq c64.bind_iff c32.bind_iff)

section \<open>The pages of an insertion\<close>

text \<open>The three stages of \<open>insert_pages\<close> on pages whose superblock is \<open>sb\<close>.\<close>

lemma insert_pages_stages:
  assumes ins: "insert_pages pages row g = Some (Inr (pages', d'))"
    and sb: "payload (pages ! 0) = superblock_payload sb" "ptype (pages ! 0) = Superblock" "0 < length pages"
    and chain: "chain_at pages Rows (sb_rows_head sb) (le64 k @ rest) ids"
    and small: "length pages' \<le> MAX_PAGES"
  obtains ps1 d1 ps2 d2 ids' where
    "grows {Rows} (pages, {}) (ps1, d1)" "grows update_types (ps1, d1) (ps2, d2)"
    "grows {Superblock} (ps2, d2) (pages', d')"
    "chain_at ps1 Rows (sb_rows_head sb)
      (le64 (sb_row_count sb + 1) @ rest @ le_row (sb_field_count sb) row) ids'"
    "payload (pages' ! 0) = superblock_payload (sb\<lparr>sb_generation := g,
      sb_page_count := word_of_nat (length pages'), sb_row_count := sb_row_count sb + 1\<rparr>)"
proof -
  define h where "h = \<lparr>ih_rows_head = sb_rows_head sb, ih_directory_head = sb_index_directory_head sb,
    ih_field_count = sb_field_count sb, ih_old_row_count = sb_row_count sb\<rparr>"
  obtain ps1 d1 roots ps2 d2 where
    rows: "append_row_pages pages h row = Some (Inr (ps1, d1))" and
    roots: "read_roots ps1 h = Inr roots" and
    ix: "insert_fields h row roots [0..<length roots] (ps1, d1) = Some (Inr (ps2, d2))" and
    super: "update_superblock ps2 g (sb_row_count sb + 1) = Inr pages'" and
    d': "d' = insert 0 (insert (ih_directory_head h) d2)"
    using ins by (auto simp: insert_pages_def read_heads_superblock [OF sb(1)] bindP_eq_Inr simp flip: h_def)
      (auto simp: h_def)
  let ?dir = "ih_directory_head h"
  have dir: "unat ?dir < length ps1" "ptype (ps1 ! unat ?dir) = IndexDirectory"
    using roots by (auto simp: read_roots_def bindE_eq_Inr throw_if_eq_Inr)
  have g2: "grows update_types (ps1, insert ?dir d1) (ps2, insert ?dir d2)"
    by (rule insert_fields_grows [OF ix dir])
  have same: "length pages' = length ps2"
    using super by (auto simp: update_superblock_def bindE_eq_Inr dest!: length_patch_page)
  have chain': "chain_at pages Rows (ih_rows_head h) (le64 k @ rest) ids" using chain by (simp add: h_def)
  have "length ps1 \<le> MAX_PAGES" using small same grows_length [OF g2] by simp
  note app = append_row_pages_spec [OF rows chain' this]
  obtain ids' where new: "chain_at ps1 Rows (sb_rows_head sb)
      (le64 (sb_row_count sb + 1) @ rest @ le_row (sb_field_count sb) row) ids'"
    using app(2) by (auto simp: h_def)
  have "grows update_types (ps1, d1) (ps1, insert ?dir d1)" using dir by (auto simp: grows_def)
  then have mid: "grows update_types (ps1, d1) (ps2, insert ?dir d2)" using g2 by (rule grows_trans)
  have len: "0 < length ps1" "0 < length ps2"
    using sb(3) grows_length [OF app(1)] grows_length [OF g2] by auto
  have zero1: "ps1 ! 0 = pages ! 0" using grows_same [OF app(1)] sb by simp
  then have zero: "ps2 ! 0 = pages ! 0"
    using grows_same [OF g2, of 0] sb len by (simp add: index_types_def)
  have out: "pages' = ps2[0 := (ps2 ! 0)\<lparr>payload := superblock_payload (sb\<lparr>sb_generation := g,
      sb_page_count := word_of_nat (length ps2), sb_row_count := sb_row_count sb + 1\<rparr>)\<rparr>]"
    unfolding update_superblock_Inr [OF super len(2)] by (simp add: zero sb superblock_patched)
  have "grows {Superblock} (ps2, insert ?dir d2) (pages', insert 0 (insert ?dir d2))"
    using grows_update [of 0 ps2 "{Superblock}"] len zero sb by (simp add: out)
  then show ?thesis
    using that [OF app(1) mid _ new] d' len same by (simp add: out)
qed

text \<open>The whole insertion keeps the frame of its stages.\<close>

lemma insert_pages_grows:
  assumes "insert_pages pages row g = Some (Inr (pages', d'))"
    and "payload (pages ! 0) = superblock_payload sb" "ptype (pages ! 0) = Superblock" "0 < length pages"
    and "chain_at pages Rows (sb_rows_head sb) (le64 k @ rest) ids" "length pages' \<le> MAX_PAGES"
  shows "grows (insert Superblock (insert Rows update_types)) (pages, {}) (pages', d')"
proof -
  obtain ps1 d1 ps2 d2 where g: "grows {Rows} (pages, {}) (ps1, d1)" "grows update_types (ps1, d1) (ps2, d2)"
    "grows {Superblock} (ps2, d2) (pages', d')"
    by (rule insert_pages_stages [OF assms])
  show ?thesis
    by (rule grows_trans [OF grows_mono [OF g(1)] grows_trans [OF grows_mono [OF g(2)] grows_mono [OF g(3)]]])
      auto
qed

section \<open>The table after an insertion\<close>

lemma schema_bytes_inject:
  assumes "schema_bytes flds = schema_bytes flds'" "fields_ok flds" "fields_ok flds'"
    and "length flds = unat (n :: u32)" "length flds' = unat n"
  shows "flds = flds'"
proof -
  have "parse_schema n (schema_bytes f) = Inr f" if "fields_ok f" "length f = unat n" for f
    using that by (auto simp: parse_schema_iff schema_bytes_def fields_ok_def)
  with assms show ?thesis by (metis sum.inject(2))
qed

lemma row_bytes_snoc:
  assumes "row_bytes n rows' = le64 (k + 1) @ concat (map (le_row n) rows) @ le_row n row"
    and "unat k = length rows" "length rows' = unat (k + 1)" "length rows' \<le> ROW_VECTOR_MAX"
    and "\<forall>r \<in> set rows'. row_ok n r" "\<forall>r \<in> set (rows @ [row]). row_ok n r"
    and "unat (k + 1) = Suc (unat k)"
  shows "rows' = rows @ [row]"
proof -
  have "parse_rows n (k + 1) (row_bytes n rows') = Inr rows'"
    unfolding parse_rows_iff using assms(3-5) by (simp add: row_bytes_def)
  moreover have "parse_rows n (k + 1) (row_bytes n rows') = Inr (rows @ [row])"
    unfolding parse_rows_iff assms(1) using assms(2-7) by simp
  ultimately show ?thesis by simp
qed

lemma build_incremental_insert_Inr:
  assumes "build_incremental_insert img row = Some (Inr ii)"
  obtains t pages pages' t' where
    "parse_image img False = Inr (t, pages)" "check_insert t row = Inr ()"
    "insert_pages pages row (in_generation (lt_inspection t) + 1) = Some (Inr (pages', ii_dirty_pages ii))"
    "encode_pages pages' = Inr (ii_image ii)" "parse_image (ii_image ii) False = Inr (t', pages')"
    "ii_generation ii = in_generation (lt_inspection t) + 1"
    "grows (insert Superblock (insert Rows update_types)) (pages, {}) (pages', ii_dirty_pages ii)"
proof -
  obtain t pages pages' d' t' ps where
    p: "parse_image img False = Inr (t, pages)" and c: "check_insert t row = Inr ()" and
    ins: "insert_pages pages row (in_generation (lt_inspection t) + 1) = Some (Inr (pages', d'))" and
    enc: "encode_pages pages' = Inr (ii_image ii)" and p': "parse_image (ii_image ii) False = Inr (t', ps)" and
    ii: "ii_generation ii = in_generation (lt_inspection t) + 1" "ii_dirty_pages ii = d'"
    using assms by (auto simp: build_incremental_insert_def bindP_eq_Inr Let_def)
  from p obtain sb flds rows roots where
    pages: "pages \<noteq> []" "pages_from 0 pages" and tp: "table_pages pages sb flds rows roots"
    unfolding parse_image_iff by blast
  from tp obtain rids where
    chain: "chain_at pages Rows (sb_rows_head sb) (row_bytes (sb_field_count sb) rows) rids"
    unfolding table_pages_def by blast
  have "length ps \<le> MAX_PAGES" "encode_pages ps = Inr (ii_image ii)"
    using p' unfolding parse_image_iff by blast+
  moreover have "length pages' = length ps"
  proof -
    have "PAGE_SIZE * length pages' = length (ii_image ii)" "PAGE_SIZE * length ps = length (ii_image ii)"
      using enc \<open>encode_pages ps = _\<close> length_concat_page_bytes unfolding encode_pages_iff by metis+
    then have "PAGE_SIZE * length pages' = PAGE_SIZE * length ps" by simp
    then show ?thesis by (simp add: PAGE_SIZE_def)
  qed
  ultimately have small: "length pages' \<le> MAX_PAGES" by simp
  have g: "grows (insert Superblock (insert Rows update_types)) (pages, {}) (pages', d')"
    by (rule insert_pages_grows [OF ins _ _ _ chain [unfolded row_bytes_def] small])
      (use tp pages(1) in \<open>simp_all add: table_pages_def\<close>)
  have "pages_from 0 pages'" using grows_pages_from [OF g pages(2)] enc by (auto simp: pages_from_def encode_pages_iff)
  moreover have "parse_pages (ii_image ii) = Inr ps"
    using p' unfolding parse_image_iff parse_pages_iff by blast
  ultimately have "ps = pages'" by (rule encode_parse_pages [OF enc])
  then show ?thesis using that [OF p c _ enc _ ii(1)] ins p' g ii(2) by simp
qed

text \<open>The schema and row streams of the new pages, by the frames of the stages.\<close>

lemma insert_pages_table:
  assumes ins: "insert_pages pages row g = Some (Inr (pages', d'))" and "pages \<noteq> []"
    and tp: "table_pages pages sb flds rows roots" and tp': "table_pages pages' sb' flds' rows' roots'"
    and small: "length pages' \<le> MAX_PAGES"
    and row: "row_fits flds row" and rows_small: "length rows \<noteq> 2 ^ 64 - 1"
  shows "flds' = flds" and "rows' = rows @ [row]" and "sb_generation sb' = g"
proof -
  from tp obtain sids rids where
    s: "chain_at pages Schema (sb_schema_head sb) (schema_bytes flds) sids" and
    r: "chain_at pages Rows (sb_rows_head sb) (row_bytes (sb_field_count sb) rows) rids"
    unfolding table_pages_def by blast
  have z: "payload (pages ! 0) = superblock_payload sb" "ptype (pages ! 0) = Superblock" "0 < length pages"
    using tp assms(2) by (auto simp: table_pages_def)
  note stage = insert_pages_stages [OF ins z r [unfolded row_bytes_def] small]
    and g = insert_pages_grows [OF ins z r [unfolded row_bytes_def] small]
  obtain ps1 d1 ps2 d2 ids1 where
    g2: "grows update_types (ps1, d1) (ps2, d2)" and g3: "grows {Superblock} (ps2, d2) (pages', d')" and
    r1: "chain_at ps1 Rows (sb_rows_head sb) (le64 (sb_row_count sb + 1) @
      concat (map (le_row (sb_field_count sb)) rows) @ le_row (sb_field_count sb) row) ids1" and
    pay: "payload (pages' ! 0) = superblock_payload (sb\<lparr>sb_generation := g,
      sb_page_count := word_of_nat (length pages'), sb_row_count := sb_row_count sb + 1\<rparr>)"
    by (rule stage)
  have sb': "sb' = sb\<lparr>sb_generation := g, sb_page_count := word_of_nat (length pages'),
      sb_row_count := sb_row_count sb + 1\<rparr>"
    using tp' pay by (simp add: table_pages_def)
  then show "sb_generation sb' = g" by simp
  have ok: "table_ok flds rows" "unat (sb_field_count sb) = length flds" "unat (sb_row_count sb) = length rows"
    using tp by (auto simp: table_pages_def)
  have ok': "table_ok flds' rows'" "unat (sb_field_count sb) = length flds'"
    "unat (sb_row_count sb + 1) = length rows'" "length rows' \<le> ROW_VECTOR_MAX"
    using tp' by (auto simp: table_pages_def sb')
  obtain sids' rids' where
    s': "chain_at pages' Schema (sb_schema_head sb) (schema_bytes flds') sids'" and
    r': "chain_at pages' Rows (sb_rows_head sb) (row_bytes (sb_field_count sb) rows') rids'"
    using tp' by (auto simp: table_pages_def sb')
  have "chain_at pages' Schema (sb_schema_head sb) (schema_bytes flds) sids"
    by (rule chain_at_kept [OF s g]) simp
  then have "schema_bytes flds' = schema_bytes flds" using s' chain_at_unique by blast
  then show flds: "flds' = flds"
    using ok ok' by (intro schema_bytes_inject [of _ _ "sb_field_count sb"]) (auto simp: table_ok_def)
  have "grows (insert Superblock update_types) (ps1, d1) (pages', d')"
    by (rule grows_trans [OF grows_mono [OF g2] grows_mono [OF g3]]) auto
  from chain_at_kept [OF r1 this] have rb: "row_bytes (sb_field_count sb) rows' =
      le64 (sb_row_count sb + 1) @ concat (map (le_row (sb_field_count sb)) rows) @ le_row (sb_field_count sb) row"
    using r' chain_at_unique by auto
  have "unat (sb_row_count sb) < 2 ^ 64 - 1"
    using rows_small ok(3) unsigned_less [of "sb_row_count sb", where ?'a = nat] by simp
  then have k: "unat (sb_row_count sb + 1) = Suc (unat (sb_row_count sb))" by (simp add: unat_word_ariths)
  show "rows' = rows @ [row]"
    by (rule row_bytes_snoc [OF rb ok(3) ok'(3) [symmetric] ok'(4)])
      (use ok ok' row k flds in \<open>auto simp: table_ok_def row_fits_def row_ok_def\<close>)
qed

lemma insert_result:
  assumes "build_incremental_insert img row = Some (Inr ii)" and "parse_image img w = Inr (t, pages)"
  shows "\<exists>t' pages'. parse_image (ii_image ii) w' = Inr (t', pages') \<and> lt_fields t' = lt_fields t \<and>
    lt_rows t' = lt_rows t @ [row] \<and> in_generation (lt_inspection t') = ii_generation ii \<and>
    ii_generation ii = in_generation (lt_inspection t) + 1 \<and> in_generation (lt_inspection t) \<noteq> - 1 \<and>
    grows (insert Superblock (insert Rows update_types)) (pages, {}) (pages', ii_dirty_pages ii)"
proof -
  obtain t0 pages0 pages' t' where
    p0: "parse_image img False = Inr (t0, pages0)" and chk: "check_insert t0 row = Inr ()" and
    ins: "insert_pages pages0 row (in_generation (lt_inspection t0) + 1) = Some (Inr (pages', ii_dirty_pages ii))" and
    p': "parse_image (ii_image ii) False = Inr (t', pages')" and
    ii: "ii_generation ii = in_generation (lt_inspection t0) + 1" and
    g: "grows (insert Superblock (insert Rows update_types)) (pages0, {}) (pages', ii_dirty_pages ii)"
    by (rule build_incremental_insert_Inr [OF assms(1)])
  from p0 obtain sb flds rows roots where pages: "pages0 \<noteq> []"
    and tp: "table_pages pages0 sb flds rows roots" and t0: "t0 = loaded_from sb flds rows roots False"
    unfolding parse_image_iff by blast
  from p' obtain sb' flds' rows' roots' where tp': "table_pages pages' sb' flds' rows' roots'"
    and small: "length pages' \<le> MAX_PAGES"
    unfolding parse_image_iff by blast
  have "parse_image img w = Inr (loaded_from sb flds rows roots w, pages0)"
    using p0 tp unfolding parse_image_iff by blast
  then have t: "t = loaded_from sb flds rows roots w" "pages = pages0" using assms(2) by auto
  have c: "length row = length flds" "\<forall>v \<in> set row. length v \<le> MAX_VALUE_LENGTH"
    "sb_generation sb \<noteq> - 1" "length rows \<noteq> 2 ^ 64 - 1"
    using chk by (auto simp: check_insert_def run_inv check_values_iff t0)
  then have "row_fits flds row" by (simp add: row_fits_def)
  note new = insert_pages_table [OF ins pages tp tp' small this c(4)]
  have "parse_image (ii_image ii) w' = Inr (loaded_from sb' flds' rows' roots' w', pages')"
    using p' tp' unfolding parse_image_iff by blast
  then show ?thesis using new ii c(3) g by (auto simp: t t0)
qed

end
