(* ===== verification/Storage.thy ===== *)
theory Storage
  imports Recovery Insert_Correct
begin

text \<open>
  The public operations of \<open>storage_v2.h\<close>. An operation on the files is the sequence of system calls it
  issues together with its outcome, computed from the files it finds.
\<close>

section \<open>Operations\<close>

type_synonym 'a operation = "syscall list \<times> 'a res"

text \<open>\<open>after m k\<close> continues with \<open>k\<close> on the files \<open>m\<close> leaves, unless \<open>m\<close> throws.\<close>

definition after :: "files \<Rightarrow> 'a operation \<Rightarrow> ('a \<Rightarrow> files \<Rightarrow> 'b operation) \<Rightarrow> 'b operation" where
  "after fs m k =
     (case m of (cs, r) \<Rightarrow>
        (case r of
           Inl e \<Rightarrow> (cs, Inl e)
         | Inr x \<Rightarrow> (case k x (run cs fs) of (ds, s) \<Rightarrow> (cs @ ds, s))))"

definition pure_op :: "'a res \<Rightarrow> 'a operation" where
  "pure_op r = ([], r)"

definition table_exists :: "string \<Rightarrow> error" where
  "table_exists p = Runtime_Error (''Table already exists: '' @ p)"

definition wal_exists :: "string \<Rightarrow> error" where
  "wal_exists p = Runtime_Error (''Non-empty WAL already exists: '' @ wal_path p)"

definition create_from_rows ::
  "files \<Rightarrow> path \<Rightarrow> string list \<Rightarrow> string list list \<Rightarrow> unit operation" where
  "create_from_rows fs p flds rows =
     (if file_exists fs p then raise (table_exists p)
      else if wal_pending fs p then raise (wal_exists p)
      else
        case build_image flds rows 1 of
          Inl e \<Rightarrow> raise e
        | Inr img \<Rightarrow> commit_image fs p img 1 {})"

definition create_table :: "files \<Rightarrow> path \<Rightarrow> string list \<Rightarrow> unit operation" where
  "create_table fs p flds = create_from_rows fs p flds []"

text \<open>Every path of the model is a regular file, so \<open>is_regular_file\<close> is existence.\<close>

definition initialize_owned_empty_file ::
  "files \<Rightarrow> path \<Rightarrow> string list \<Rightarrow> string list list \<Rightarrow> unit operation" where
  "initialize_owned_empty_file fs p flds rows =
     (if fs p \<noteq> Some []
      then raise (Runtime_Error (''Owned migration file is not an empty regular file: '' @ p))
      else if file_exists fs (wal_path p)
      then raise (Runtime_Error (''Owned migration WAL already exists: '' @ wal_path p))
      else
        case build_image flds rows 1 of
          Inl e \<Rightarrow> raise e
        | Inr img \<Rightarrow> commit_image fs p img 1 {})"

definition load_table :: "files \<Rightarrow> path \<Rightarrow> loaded_table res" where
  "load_table fs p =
     bindE (read_file fs p) (\<lambda>img.
     bindE (parse_image img (wal_pending fs p)) (\<lambda>(t, _). Inr t))"

definition open_table :: "files \<Rightarrow> path \<Rightarrow> loaded_table operation" where
  "open_table fs p = after fs (recover fs p) (\<lambda>_ fs. pure_op (load_table fs p))"

text \<open>\<open>None\<close>: the index insertion does not return.\<close>

definition insert_row :: "files \<Rightarrow> path \<Rightarrow> string list \<Rightarrow> unit operation option" where
  "insert_row fs p row =
     (case recover fs p of (cs, r) \<Rightarrow>
        (case r of
           Inl e \<Rightarrow> Some (cs, Inl e)
         | Inr _ \<Rightarrow>
             map_option (\<lambda>m. after fs (cs, Inr ()) (\<lambda>_ fs.
                 case m of
                   Inl e \<Rightarrow> raise e
                 | Inr ii \<Rightarrow> commit_image fs p (ii_image ii) (ii_generation ii) (ii_dirty_pages ii)))
               (bindP (Some (read_file (run cs fs) p)) (\<lambda>img. build_incremental_insert img row))))"

section \<open>Queries\<close>

definition entry_matches :: "string \<Rightarrow> string \<Rightarrow> string \<Rightarrow> bool res" where
  "entry_matches operator value key =
     (if operator = ''='' then Inr (key = value)
      else if operator = ''!='' then Inr (key \<noteq> value)
      else if operator = ''<'' then Inr (key < value)
      else if operator = ''<='' then Inr (key \<le> value)
      else if operator = ''>'' then Inr (key > value)
      else if operator = ''>='' then Inr (key \<ge> value)
      else Inl (Invalid_Argument (''Unsupported comparison operator: '' @ operator)))"

definition scan_index :: "entry list \<Rightarrow> string \<Rightarrow> string \<Rightarrow> u64 list res" where
  "scan_index index operator value =
     foldE (\<lambda>records entry. bindE (entry_matches operator value (fst entry)) (\<lambda>matches.
       Inr (if matches then records @ [snd entry] else records))) [] index"

definition select_records :: "loaded_table \<Rightarrow> nat \<Rightarrow> string \<Rightarrow> string \<Rightarrow> u64 list res" where
  "select_records t field_index operator value =
     (if field_index \<ge> length (lt_indexes t) then Inl (Invalid_Argument ''Unknown field index'')
      else scan_index (lt_indexes t ! field_index) operator value)"

definition query_index :: "files \<Rightarrow> path \<Rightarrow> nat \<Rightarrow> string \<Rightarrow> string \<Rightarrow> u64 list operation" where
  "query_index fs p field_index operator value =
     after fs (open_table fs p) (\<lambda>t _. pure_op (select_records t field_index operator value))"

section \<open>Inspection\<close>

text \<open>\<open>inspect\<close> reads the files and reports what recovery would install; it writes nothing.\<close>

definition inspect :: "files \<Rightarrow> path \<Rightarrow> inspection res" where
  "inspect fs p =
     (if wal_pending fs p then
        bindE (read_file fs (wal_path p)) (\<lambda>wal.
        bindE (parse_wal wal) (\<lambda>(img, generation).
        bindE (check_stale fs p generation) (\<lambda>_.
        bindE (parse_image img True) (\<lambda>(t, _).
        Inr ((lt_inspection t)\<lparr>in_wal_present := True\<rparr>)))))
      else
        bindE (read_file fs p) (\<lambda>img.
        bindE (parse_image img False) (\<lambda>(t, _). Inr (lt_inspection t))))"

definition newline :: string where "newline = [char_of (10 :: nat)]"

definition describe_root :: "u32 \<Rightarrow> string" where
  "describe_root root = (if root = NO_PAGE then '' none'' else '' '' @ to_string (unat root))"

definition describe :: "files \<Rightarrow> path \<Rightarrow> string res" where
  "describe fs p =
     bindE (inspect fs p) (\<lambda>t. Inr (
       ''path: '' @ p @ newline @
       ''storage-format: '' @ to_string (unat (in_format_version t)) @ newline @
       ''generation: '' @ to_string (unat (in_generation t)) @ newline @
       ''page-size: '' @ to_string PAGE_SIZE @ newline @
       ''page-count: '' @ to_string (unat (in_page_count t)) @ newline @
       ''field-count: '' @ to_string (unat (in_field_count t)) @ newline @
       ''row-count: '' @ to_string (unat (in_row_count t)) @ newline @
       ''index-roots:'' @ concat (map describe_root (in_index_roots t)) @ newline @
       ''wal: '' @ (if in_wal_present t then ''pending'' else ''clean'') @ newline))"

end
