(* ===== verification/File_Record.thy ===== *)
theory File_Record
  imports Files
begin

text \<open>
  The record files of storage format v1 (\<open>file_record.cpp\<close>): a row is a sequence of 100-byte slots, each
  holding a value padded with zero bytes. A stream is the content of the file it is open on; a
  failing write is not modelled.
\<close>

definition SLOT_SIZE :: nat where "SLOT_SIZE = 100"

definition encoded_size :: "nat \<Rightarrow> nat" where
  "encoded_size n = SLOT_SIZE * n"

section \<open>Writing\<close>

definition write_slot :: "bytes \<Rightarrow> string \<Rightarrow> bytes res" where
  "write_slot out s =
     (if length s > SLOT_SIZE then Inl (Length_Error ''Record value exceeds 100 bytes'')
      else Inr (out @ map byte_of_char s @ replicate (SLOT_SIZE - length s) 0))"

text \<open>
  \<open>write\<close> appends at the end of the file and returns the record number. A value that is too long
  throws after the slots before it were written, so the file is returned in every case.
\<close>

fun write_slots :: "bytes \<Rightarrow> string list \<Rightarrow> bytes \<times> unit res" where
  "write_slots out [] = (out, Inr ())"
| "write_slots out (s # ss) =
     (case write_slot out s of Inl e \<Rightarrow> (out, Inl e) | Inr out \<Rightarrow> write_slots out ss)"

definition write_record :: "bytes \<Rightarrow> string list \<Rightarrow> bytes \<times> nat res" where
  "write_record file values =
     (if values = [] then (file, Inl (Invalid_Argument ''Cannot write an empty record''))
      else
        (case write_slots file values of
           (out, Inl e) \<Rightarrow> (out, Inl e)
         | (out, Inr _) \<Rightarrow> (out, Inr (length file div (SLOT_SIZE * length values)))))"

section \<open>Reading\<close>

definition slot_value :: "bytes \<Rightarrow> string" where
  "slot_value slot = map char_of_byte (takeWhile (\<lambda>b. b \<noteq> 0) slot)"

text \<open>
  The loop over the slots: position in the file, bytes read so far, values read so far, slots left. The
  second component of the result is the number of bytes read, 0 at the end of the file.
\<close>

fun read_slots :: "bytes \<Rightarrow> nat \<Rightarrow> nat \<Rightarrow> string list \<Rightarrow> nat \<Rightarrow> (string list \<times> nat) res" where
  "read_slots file pos bytes_read vals 0 = Inr (vals, bytes_read)"
| "read_slots file pos bytes_read vals (Suc n) =
     (let buffer = take SLOT_SIZE (drop pos file) in
      if length buffer = 0 \<and> bytes_read = 0 then Inr (vals, 0)
      else if length buffer \<noteq> SLOT_SIZE
      then Inl (Runtime_Error ''Record file contains a partial record'')
      else read_slots file (pos + SLOT_SIZE) (bytes_read + length buffer) (vals @ [slot_value buffer]) n)"

definition read_record :: "bytes \<Rightarrow> nat \<Rightarrow> nat \<Rightarrow> (string list \<times> nat) res" where
  "read_record file n recno =
     (if n = 0 then Inl (Invalid_Argument ''Record shape and number must be valid'')
      else read_slots file (recno * SLOT_SIZE * n) 0 [] n)"

section \<open>Round trip\<close>

definition pad_slot :: "string \<Rightarrow> bytes" where
  "pad_slot s = map byte_of_char s @ replicate (SLOT_SIZE - length s) 0"

definition slot_ok :: "string \<Rightarrow> bool" where
  "slot_ok s \<longleftrightarrow> length s \<le> SLOT_SIZE \<and> CHR 0x00 \<notin> set s"

lemma length_pad_slot [simp]: "length s \<le> SLOT_SIZE \<Longrightarrow> length (pad_slot s) = SLOT_SIZE"
  by (simp add: pad_slot_def)

lemma byte_of_char_0: "byte_of_char c = 0 \<longleftrightarrow> c = CHR 0x00"
proof
  assume "byte_of_char c = 0"
  moreover have "byte_of_char (CHR 0x00) = 0" by (simp add: byte_of_char_def)
  ultimately show "c = CHR 0x00" by (metis char_of_byte_of_char)
qed (simp add: byte_of_char_def)

lemma slot_value_pad: "slot_ok s \<Longrightarrow> slot_value (pad_slot s) = s"
proof -
  assume ok: "slot_ok s"
  have "takeWhile (\<lambda>b. b \<noteq> 0) (map byte_of_char s @ replicate n 0) = map byte_of_char s" for n
  proof -
    have "\<forall>b \<in> set (map byte_of_char s). b \<noteq> 0" using ok by (auto simp: slot_ok_def byte_of_char_0)
    then have "takeWhile (\<lambda>b. b \<noteq> 0) (map byte_of_char s @ replicate n 0) =
        map byte_of_char s @ takeWhile (\<lambda>b. b \<noteq> 0) (replicate n 0)"
      by (intro takeWhile_append2) blast
    then show ?thesis by (cases n) simp_all
  qed
  then show ?thesis
    by (simp only: slot_value_def pad_slot_def map_char_of_byte_inverse)
qed

lemma write_slots_ok:
  "\<forall>s \<in> set ss. slot_ok s \<Longrightarrow> write_slots out ss = (out @ concat (map pad_slot ss), Inr ())"
  by (induction ss arbitrary: out) (simp_all add: write_slot_def slot_ok_def pad_slot_def)

lemma length_pad_slots:
  "\<forall>s \<in> set ss. slot_ok s \<Longrightarrow> length (concat (map pad_slot ss)) = SLOT_SIZE * length ss"
  by (induction ss) (simp_all add: slot_ok_def)

lemma read_slots_ok:
  "\<forall>s \<in> set ss. slot_ok s \<Longrightarrow> drop pos file = concat (map pad_slot ss) @ rest \<Longrightarrow>
   read_slots file pos bytes_read vals (length ss) = Inr (vals @ ss, bytes_read + SLOT_SIZE * length ss)"
proof (induction ss arbitrary: pos bytes_read vals)
  case (Cons s ss)
  then have s: "slot_ok s" "length s \<le> SLOT_SIZE" by (auto simp: slot_ok_def)
  have "take SLOT_SIZE (drop pos file) = pad_slot s" using Cons.prems s(2) by simp
  moreover have "drop (pos + SLOT_SIZE) file = concat (map pad_slot ss) @ rest"
    using Cons.prems s(2) by (simp add: drop_drop [symmetric] add.commute)
  moreover have "pad_slot s \<noteq> []" using length_pad_slot [OF s(2)] by (auto simp: SLOT_SIZE_def simp del: length_pad_slot)
  ultimately show ?case
    using Cons.IH [of "pos + SLOT_SIZE" "bytes_read + SLOT_SIZE" "vals @ [s]"] Cons.prems s
    by (simp add: Let_def slot_value_pad)
qed simp

text \<open>A file of rows gives back row \<open>i\<close>, and reads nothing behind the last one.\<close>

definition row_file :: "string list list \<Rightarrow> bytes" where
  "row_file rows = concat (map (\<lambda>row. concat (map pad_slot row)) rows)"

lemma length_row_file:
  assumes "\<forall>row \<in> set rows. length row = n \<and> (\<forall>s \<in> set row. slot_ok s)"
  shows "length (row_file rows) = SLOT_SIZE * n * length rows"
  using assms by (induction rows) (simp_all add: row_file_def length_pad_slots algebra_simps)

lemma row_file_append: "row_file (rows @ rows') = row_file rows @ row_file rows'"
  by (simp add: row_file_def)

lemma read_record_row:
  assumes ok: "\<forall>row \<in> set rows. length row = n \<and> (\<forall>s \<in> set row. slot_ok s)" and n: "0 < n"
  shows "i < length rows \<Longrightarrow> read_record (row_file rows) n i = Inr (rows ! i, SLOT_SIZE * n)"
    and "read_record (row_file rows) n (length rows) = Inr ([], 0)"
proof -
  show "read_record (row_file rows) n i = Inr (rows ! i, SLOT_SIZE * n)" if i: "i < length rows"
  proof -
    have rows: "rows = take i rows @ rows ! i # drop (Suc i) rows" using i by (rule id_take_nth_drop)
    have "length (row_file (take i rows)) = SLOT_SIZE * n * length (take i rows)"
      using ok by (intro length_row_file) (auto dest: in_set_takeD)
    then have len: "length (row_file (take i rows)) = i * SLOT_SIZE * n" using i by simp
    have "row_file rows = row_file (take i rows) @ concat (map pad_slot (rows ! i)) @ row_file (drop (Suc i) rows)"
      by (subst rows) (simp add: row_file_def)
    then have "drop (i * SLOT_SIZE * n) (row_file rows) =
        concat (map pad_slot (rows ! i)) @ row_file (drop (Suc i) rows)"
      using len by simp
    from read_slots_ok [OF _ this, of 0 "[]"]
    show ?thesis using ok i n nth_mem [OF i] by (auto simp: read_record_def)
  qed
  have "length (row_file rows) = length rows * SLOT_SIZE * n" using length_row_file [OF ok] by simp
  then show "read_record (row_file rows) n (length rows) = Inr ([], 0)"
    using n by (cases n) (simp_all add: read_record_def Let_def)
qed

lemma write_record_row:
  assumes "\<forall>row \<in> set (rows @ [row]). length row = n \<and> (\<forall>s \<in> set row. slot_ok s)" and "0 < n"
  shows "write_record (row_file rows) row = (row_file (rows @ [row]), Inr (length rows))"
  using assms length_row_file [of rows n]
  by (simp add: write_record_def write_slots_ok row_file_def SLOT_SIZE_def) auto

end
