(* ===== verification/Shunting_Yard.thy ===== *)
theory Shunting_Yard
  imports Prelude "HOL-Library.Multiset"
begin

text \<open>
  The shunting yard of \<open>shunting_yard.cpp\<close> on the token classes beside it. Queues and stacks of
  token pointers are lists, the head being the front or the top. The lemmas show that an infix
  condition becomes the postfix form of its syntax tree, with \<open>and\<close> binding tighter than \<open>or\<close> and both
  associating to the left, and that the error flag is set exactly for unbalanced parentheses.
\<close>

section \<open>Tokens\<close>

datatype token =
    TokenStr string
  | Logical string
  | Relational string
  | LeftParen
  | RightParen

fun token_string :: "token \<Rightarrow> string" where
  "token_string (TokenStr s) = s"
| "token_string (Logical s) = s"
| "token_string (Relational s) = s"
| "token_string LeftParen = ''(''"
| "token_string RightParen = '')''"

definition logical_precedence :: "string \<Rightarrow> int" where
  "logical_precedence s =
     (if s = ''not'' then 3 else if s = ''and'' then 2 else if s = ''or'' then 1 else - 1)"

definition relational_precedence :: "string \<Rightarrow> int" where
  "relational_precedence s =
     (if s \<in> {''<'', ''>'', ''<='', ''>='', ''='', ''!='', ''LIKE''} then 4 else - 1)"

fun precedence :: "token \<Rightarrow> int" where
  "precedence (Logical s) = logical_precedence s"
| "precedence (Relational s) = relational_precedence s"
| "precedence _ = - 1"

section \<open>The algorithm\<close>

text \<open>The two inner loops move operators from the stack to the output queue.\<close>

fun pop_operators :: "int \<Rightarrow> token list \<Rightarrow> token list \<Rightarrow> token list \<times> token list" where
  "pop_operators p out [] = (out, [])"
| "pop_operators p out (oper # stack) =
     (if oper \<noteq> LeftParen \<and> precedence oper \<ge> p then pop_operators p (out @ [oper]) stack
      else (out, oper # stack))"

text \<open>\<open>None\<close>: the stack ran empty without a left parenthesis.\<close>

fun pop_to_paren :: "token list \<Rightarrow> token list \<Rightarrow> (token list \<times> token list) option" where
  "pop_to_paren out [] = None"
| "pop_to_paren out (oper # stack) =
     (if oper = LeftParen then Some (out, stack) else pop_to_paren (out @ [oper]) stack)"

fun pop_all :: "token list \<Rightarrow> token list \<Rightarrow> token list \<times> bool" where
  "pop_all out [] = (out, False)"
| "pop_all out (oper # stack) = (if oper = LeftParen then ([], True) else pop_all (out @ [oper]) stack)"

text \<open>The output queue and the error flag.\<close>

fun yard_loop :: "token list \<Rightarrow> token list \<Rightarrow> token list \<Rightarrow> token list \<times> bool" where
  "yard_loop out stack [] = pop_all out stack"
| "yard_loop out stack (token # queue) =
     (case token of
        TokenStr _ \<Rightarrow> yard_loop (out @ [token]) stack queue
      | LeftParen \<Rightarrow> yard_loop out (token # stack) queue
      | Relational _ \<Rightarrow> yard_loop out (token # stack) queue
      | Logical _ \<Rightarrow>
          (case pop_operators (precedence token) out stack of
             (out, stack) \<Rightarrow> yard_loop out (token # stack) queue)
      | RightParen \<Rightarrow>
          (case pop_to_paren out stack of
             None \<Rightarrow> ([], True)
           | Some (out, stack) \<Rightarrow> yard_loop out stack queue))"

definition shunting_yard :: "token list \<Rightarrow> token list \<times> bool" where
  "shunting_yard queue = yard_loop [] [] queue"

section \<open>Conditions\<close>

datatype expr = Compare string string string | And expr expr | Or expr expr

fun postfix :: "expr \<Rightarrow> token list" where
  "postfix (Compare f op v) = [TokenStr f, TokenStr v, Relational op]"
| "postfix (And a b) = postfix a @ postfix b @ [Logical ''and'']"
| "postfix (Or a b) = postfix a @ postfix b @ [Logical ''or'']"

text \<open>The infix grammar, with any number of parentheses around a condition.\<close>

inductive infix_atom :: "expr \<Rightarrow> token list \<Rightarrow> bool"
  and infix_conj :: "expr \<Rightarrow> token list \<Rightarrow> bool"
  and infix_disj :: "expr \<Rightarrow> token list \<Rightarrow> bool" where
  atom_compare: "relational_precedence op = 4 \<Longrightarrow>
    infix_atom (Compare f op v) [TokenStr f, Relational op, TokenStr v]"
| atom_paren: "infix_disj e ts \<Longrightarrow> infix_atom e (LeftParen # ts @ [RightParen])"
| conj_atom: "infix_atom e ts \<Longrightarrow> infix_conj e ts"
| conj_and: "infix_conj a ts \<Longrightarrow> infix_atom b us \<Longrightarrow> infix_conj (And a b) (ts @ Logical ''and'' # us)"
| disj_conj: "infix_conj e ts \<Longrightarrow> infix_disj e ts"
| disj_or: "infix_disj a ts \<Longrightarrow> infix_conj b us \<Longrightarrow> infix_disj (Or a b) (ts @ Logical ''or'' # us)"

text \<open>A stack on which an operator of precedence \<open>p\<close> pops nothing.\<close>

definition holds :: "int \<Rightarrow> token list \<Rightarrow> bool" where
  "holds p stack \<longleftrightarrow> stack = [] \<or> hd stack = LeftParen \<or> precedence (hd stack) < p"

text \<open>Operators that an operator of precedence \<open>p\<close>, a parenthesis or the end pops.\<close>

definition pending :: "int \<Rightarrow> token list \<Rightarrow> bool" where
  "pending p ops \<longleftrightarrow> (\<forall>x \<in> set ops. x \<noteq> LeftParen \<and> p \<le> precedence x)"

lemma pop_pending:
  assumes "pending p ops" and "holds p stack"
  shows "pop_operators p out (ops @ stack) = (out @ ops, stack)"
  using assms by (induction ops arbitrary: out) (cases stack, auto simp: pending_def holds_def)

lemma pop_pending_paren: "pending p ops \<Longrightarrow> pop_to_paren out (ops @ LeftParen # stack) = Some (out @ ops, stack)"
  by (induction ops arbitrary: out) (auto simp: pending_def)

lemma pop_pending_all: "pending p ops \<Longrightarrow> pop_all out ops = (out @ ops, False)"
  by (induction ops arbitrary: out) (auto simp: pending_def)

text \<open>
  Reading an expression moves its postfix form to the output, but for a tail of pending operators that
  is still on the stack.
\<close>

definition reads :: "int \<Rightarrow> token list \<Rightarrow> expr \<Rightarrow> bool" where
  "reads p ts e \<longleftrightarrow> (\<forall>out stack rest. holds p stack \<longrightarrow>
     (\<exists>out' ops. yard_loop out stack (ts @ rest) = yard_loop out' (ops @ stack) rest \<and>
        out' @ ops = out @ postfix e \<and> pending p ops))"

lemma readsE:
  assumes "reads p ts e" and "holds p stack"
  obtains out' ops where "yard_loop out stack (ts @ rest) = yard_loop out' (ops @ stack) rest"
    "out' @ ops = out @ postfix e" "pending p ops"
  using assms unfolding reads_def by blast

lemma pending_mono: "pending q ops \<Longrightarrow> p \<le> q \<Longrightarrow> pending p ops"
  by (auto simp: pending_def)

lemma holds_mono: "holds p stack \<Longrightarrow> p \<le> q \<Longrightarrow> holds q stack"
  by (auto simp: holds_def)

lemma reads_mono: "reads q ts e \<Longrightarrow> p \<le> q \<Longrightarrow> reads p ts e"
  unfolding reads_def by (meson holds_mono pending_mono)

lemma reads_operator:
  assumes a: "reads p ts a" and b: "reads q us b" and l: "logical_precedence l = p" and "p < q"
    and e: "postfix e = postfix a @ postfix b @ [Logical l]"
  shows "reads p (ts @ Logical l # us) e"
  unfolding reads_def
proof (intro allI impI)
  fix out stack rest assume h: "holds p stack"
  obtain out1 ops1 where 1: "yard_loop out stack (ts @ Logical l # us @ rest) = yard_loop out1 (ops1 @ stack) (Logical l # us @ rest)"
    "out1 @ ops1 = out @ postfix a" "pending p ops1" by (rule readsE [OF a h])
  have "holds q (Logical l # stack)" using l \<open>p < q\<close> by (simp add: holds_def)
  then obtain out2 ops2 where 2: "yard_loop (out1 @ ops1) (Logical l # stack) (us @ rest) =
      yard_loop out2 (ops2 @ Logical l # stack) rest"
    "out2 @ ops2 = (out1 @ ops1) @ postfix b" "pending q ops2" by (rule readsE [OF b])
  have "yard_loop out stack ((ts @ Logical l # us) @ rest) = yard_loop out2 ((ops2 @ [Logical l]) @ stack) rest"
    using 1(1) 2(1) pop_pending [OF 1(3) h, of out1] by (simp add: l)
  moreover have "out2 @ ops2 @ [Logical l] = out @ postfix e" using 1(2) 2(2) e by simp
  moreover have "pending p (ops2 @ [Logical l])" using 2(3) \<open>p < q\<close> l by (auto simp: pending_def)
  ultimately show "\<exists>out' ops. yard_loop out stack ((ts @ Logical l # us) @ rest) =
      yard_loop out' (ops @ stack) rest \<and> out' @ ops = out @ postfix e \<and> pending p ops"
    by blast
qed

lemma reads_compare: "relational_precedence op = 4 \<Longrightarrow>
  reads 4 [TokenStr f, Relational op, TokenStr v] (Compare f op v)"
  unfolding reads_def
  by (intro allI impI exI [of _ "_ @ [TokenStr f, TokenStr v]"] exI [of _ "[Relational op]"])
    (simp add: pending_def)

lemma reads_paren:
  assumes "reads 1 ts e"
  shows "reads 4 (LeftParen # ts @ [RightParen]) e"
  unfolding reads_def
proof (intro allI impI)
  fix out stack rest
  have "holds 1 (LeftParen # stack)" by (simp add: holds_def)
  then obtain out1 ops1 where "yard_loop out (LeftParen # stack) (ts @ RightParen # rest) =
      yard_loop out1 (ops1 @ LeftParen # stack) (RightParen # rest)"
    "out1 @ ops1 = out @ postfix e" and p: "pending 1 ops1" by (rule readsE [OF assms])
  then show "\<exists>out' ops. yard_loop out stack ((LeftParen # ts @ [RightParen]) @ rest) =
      yard_loop out' (ops @ stack) rest \<and> out' @ ops = out @ postfix e \<and> pending 4 ops"
    by (intro exI [of _ "out1 @ ops1"] exI [of _ "[]"]) (simp add: pop_pending_paren [OF p] pending_def [of 4])
qed

lemma infix_reads:
  "infix_atom e ts \<Longrightarrow> reads 4 ts e" "infix_conj e ts \<Longrightarrow> reads 2 ts e" "infix_disj e ts \<Longrightarrow> reads 1 ts e"
proof (induction rule: infix_atom_infix_conj_infix_disj.inducts)
  case (conj_and a ts b us)
  then show ?case
    by (intro reads_operator [OF conj_and.IH(1) conj_and.IH(2)]) (simp_all add: logical_precedence_def)
next
  case (disj_or a ts b us)
  then show ?case
    by (intro reads_operator [OF disj_or.IH(1) disj_or.IH(2)]) (simp_all add: logical_precedence_def)
qed (auto intro: reads_compare reads_paren reads_mono)

lemma shunting_yard_infix:
  assumes "infix_disj e ts"
  shows "shunting_yard ts = (postfix e, False)"
proof -
  have "holds 1 []" by (simp add: holds_def)
  then obtain out ops where "yard_loop [] [] (ts @ []) = yard_loop out (ops @ []) []"
    "out @ ops = [] @ postfix e" "pending 1 ops"
    by (rule readsE [OF infix_reads(3) [OF assms]])
  then show ?thesis by (simp add: shunting_yard_def pop_pending_all)
qed

section \<open>Errors\<close>

fun balanced :: "nat \<Rightarrow> token list \<Rightarrow> bool" where
  "balanced depth [] \<longleftrightarrow> depth = 0"
| "balanced depth (token # queue) \<longleftrightarrow>
     (case token of
        LeftParen \<Rightarrow> balanced (Suc depth) queue
      | RightParen \<Rightarrow> 0 < depth \<and> balanced (depth - 1) queue
      | _ \<Rightarrow> balanced depth queue)"

abbreviation open_parens :: "token list \<Rightarrow> nat" where
  "open_parens stack \<equiv> count (mset stack) LeftParen"

abbreviation no_left :: "token list \<Rightarrow> token multiset" where
  "no_left stack \<equiv> filter_mset (\<lambda>t. t \<noteq> LeftParen) (mset stack)"

lemma pop_operators_facts:
  "pop_operators p out stack = (out', stack') \<Longrightarrow>
   open_parens stack' = open_parens stack \<and> mset out' + no_left stack' = mset out + no_left stack"
  by (induction p out stack rule: pop_operators.induct) (auto split: if_splits)

lemma pop_to_paren_facts:
  "(case pop_to_paren out stack of
      None \<Rightarrow> open_parens stack = 0
    | Some (out', stack') \<Rightarrow> open_parens stack = Suc (open_parens stack') \<and>
        mset out' + no_left stack' = mset out + no_left stack)"
  by (induction out stack rule: pop_to_paren.induct) (auto split: option.splits)

lemma pop_all_facts:
  "pop_all out stack = (if open_parens stack = 0 then (out @ stack, False) else ([], True))"
  by (induction out stack rule: pop_all.induct) auto

lemma no_left_all: "open_parens stack = 0 \<Longrightarrow> no_left stack = mset stack"
  by (induction stack) (auto split: if_splits)

lemma yard_loop_facts:
  "yard_loop out stack queue = (result, err) \<Longrightarrow>
   (err \<longleftrightarrow> \<not> balanced (open_parens stack) queue) \<and>
   (if err then result = []
    else mset result = mset out + no_left stack +
      mset (filter (\<lambda>t. t \<noteq> LeftParen \<and> t \<noteq> RightParen) queue))"
proof (induction out stack queue rule: yard_loop.induct)
  case (1 out stack)
  then show ?case using no_left_all [of stack] by (auto simp: pop_all_facts split: if_splits)
next
  case (2 out stack token queue)
  show ?case
  proof (cases token)
    case (Logical l)
    obtain out' stack' where p: "pop_operators (logical_precedence l) out stack = (out', stack')" by fastforce
    then have "yard_loop out' (token # stack') queue = (result, err)" using "2.prems" Logical by simp
    moreover have "(out', stack') = pop_operators (precedence token) out stack" using p Logical by simp
    ultimately have IH: "(err \<longleftrightarrow> \<not> balanced (open_parens (token # stack')) queue) \<and>
      (if err then result = []
       else mset result = mset out' + no_left (token # stack') +
         mset (filter (\<lambda>t. t \<noteq> LeftParen \<and> t \<noteq> RightParen) queue))"
      by (intro "2.IH"(2) [OF Logical])
    then
    have "(err \<longleftrightarrow> \<not> balanced (open_parens stack') queue) \<and>
      (if err then result = []
       else mset result = mset out' + (no_left stack' + {#token#}) +
         mset (filter (\<lambda>t. t \<noteq> LeftParen \<and> t \<noteq> RightParen) queue))" using Logical by simp
    then show ?thesis using pop_operators_facts [OF p] Logical by (auto split: if_splits)
  next
    case RightParen
    show ?thesis
    proof (cases "pop_to_paren out stack")
      case None
      then show ?thesis using "2.prems" RightParen pop_to_paren_facts [where out = out and stack = stack] by auto
    next
      case (Some r)
      obtain out' stack' where r: "r = (out', stack')" by (cases r)
      then have "yard_loop out' stack' queue = (result, err)" using "2.prems" RightParen Some by simp
      from "2.IH"(5) [OF RightParen Some r [symmetric] this] pop_to_paren_facts [where out = out and stack = stack] Some r RightParen
      show ?thesis by (auto split: if_splits)
    qed
  qed (use 2 in \<open>auto split: if_splits\<close>)
qed

lemma shunting_yard_error: "snd (shunting_yard queue) \<longleftrightarrow> \<not> balanced 0 queue"
  using yard_loop_facts [of "[]" "[]" queue]
  by (cases "yard_loop [] [] queue") (simp add: shunting_yard_def)

lemma shunting_yard_tokens:
  "balanced 0 queue \<Longrightarrow>
   mset (fst (shunting_yard queue)) = mset (filter (\<lambda>t. t \<noteq> LeftParen \<and> t \<noteq> RightParen) queue)"
  using yard_loop_facts [of "[]" "[]" queue]
  by (cases "yard_loop [] [] queue") (auto simp: shunting_yard_def split: if_splits)

end
