(* ===== verification/Table.thy ===== *)
theory Table
  imports Storage File_Record Shunting_Yard
begin

text \<open>
  \<open>Table\<close> of \<open>table.h\<close> and \<open>table.cpp\<close>: opening tables of both storage formats, insertion, projection
  and selection. The maps of the class are modelled by their contracts (finite maps, traversed in key
  order), \<open>long\<close> by \<open>int\<close>.
\<close>

section \<open>Sets of record numbers\<close>

definition my_sort :: "string list \<Rightarrow> int list \<Rightarrow> string list \<times> int list" where
  "my_sort a b =
     (if length a \<noteq> length b then (a, b)
      else let to_sort = sort_key snd (zip a b) in (map fst to_sort, map snd to_sort))"

definition my_union :: "int list \<Rightarrow> int list \<Rightarrow> int list" where
  "my_union a b = remdups_adj (sort (a @ b))"

text \<open>\<open>std::set_intersection\<close> on sorted ranges.\<close>

fun set_intersection :: "int list \<Rightarrow> int list \<Rightarrow> int list" where
  "set_intersection [] ys = []"
| "set_intersection (x # xs) [] = []"
| "set_intersection (x # xs) (y # ys) =
     (if x < y then set_intersection xs (y # ys)
      else if y < x then set_intersection (x # xs) ys
      else x # set_intersection xs ys)"

definition my_intersection :: "int list \<Rightarrow> int list \<Rightarrow> int list" where
  "my_intersection a b = set_intersection (sort a) (sort b)"

section \<open>The class\<close>

type_synonym value_index = "string \<rightharpoonup> int list"

record table =
  tb_tableName :: string
  tb_fieldNames :: "string list"
  tb_selectedFields :: "string list"
  tb_numRecords :: int
  tb_recordIndices :: "int list"
  tb_cache :: "string \<rightharpoonup> value_index"
  tb_fieldNameMap :: "string \<rightharpoonup> int"
  tb_printQueue :: "string list"
  tb_storedRows :: "string list list"
  tb_usesV2Storage :: bool

definition empty_table :: table where
  "empty_table =
     \<lparr>tb_tableName = [], tb_fieldNames = [], tb_selectedFields = [], tb_numRecords = 0,
      tb_recordIndices = [], tb_cache = Map.empty, tb_fieldNameMap = Map.empty,
      tb_printQueue = [], tb_storedRows = [], tb_usesV2Storage = False\<rparr>"

text \<open>\<open>fieldNameMap[fieldNames[i]] = i\<close> and \<open>cache[fieldNames[i]] = MMap()\<close> for every field.\<close>

definition number_fields :: "string list \<Rightarrow> (string \<rightharpoonup> int)" where
  "number_fields flds = foldl (\<lambda>m i. m(flds ! i \<mapsto> int i)) Map.empty [0..<length flds]"

definition empty_cache :: "string list \<Rightarrow> (string \<rightharpoonup> value_index)" where
  "empty_cache flds = foldl (\<lambda>m f. m(f \<mapsto> Map.empty)) Map.empty flds"

text \<open>\<open>cache[field].insert(value, index)\<close>.\<close>

definition cache_insert ::
  "string \<Rightarrow> string \<Rightarrow> int \<Rightarrow> (string \<rightharpoonup> value_index) \<Rightarrow> (string \<rightharpoonup> value_index)" where
  "cache_insert field value index cache =
     (let entries = (case cache field of None \<Rightarrow> Map.empty | Some m \<Rightarrow> m) in
      cache(field \<mapsto> entries(value \<mapsto> (case entries value of None \<Rightarrow> [index] | Some is \<Rightarrow> is @ [index]))))"

definition cache_row ::
  "string list \<Rightarrow> string list \<Rightarrow> int \<Rightarrow> (string \<rightharpoonup> value_index) \<Rightarrow> (string \<rightharpoonup> value_index)" where
  "cache_row flds row index cache =
     foldl (\<lambda>cache (f, v). cache_insert f v index cache) cache (zip flds row)"

section \<open>Creating a table\<close>

definition table_file :: "string \<Rightarrow> path" where "table_file name = name @ ''.bin''"
definition field_file :: "string \<Rightarrow> path" where "field_file name = name @ ''_fields.bin''"

text \<open>An operation that only throws, or only returns.\<close>

abbreviation throw :: "error \<Rightarrow> 'a operation" where
  "throw e \<equiv> pure_op (Inl e)"

definition field_set :: "string set \<Rightarrow> string \<Rightarrow> string set res" where
  "field_set seen field =
     (if field = [] \<or> length field > SLOT_SIZE
      then Inl (Invalid_Argument ''Field names must be between 1 and 100 bytes'')
      else if field \<in> seen then Inl (Invalid_Argument (''Duplicate field name: '' @ field))
      else Inr (insert field seen))"

definition Table_create :: "files \<Rightarrow> string \<Rightarrow> string list \<Rightarrow> table operation" where
  "Table_create fs name flds =
     (let v2_file = database_path name in
      if file_exists fs (table_file name) \<or> file_exists fs (field_file name) \<or> file_exists fs v2_file
      then throw (Runtime_Error (''Table already exists: '' @ name))
      else if flds = [] \<or> length flds > MAX_FIELDS
      then throw (Invalid_Argument ''A table must have between 1 and 64 fields'')
      else
        case foldE field_set {} flds of
          Inl e \<Rightarrow> throw e
        | Inr _ \<Rightarrow>
            after fs (create_table fs v2_file flds) (\<lambda>_ fs. pure_op (Inr
              (empty_table\<lparr>tb_tableName := name, tb_fieldNames := flds, tb_selectedFields := flds,
                 tb_usesV2Storage := True, tb_fieldNameMap := number_fields flds,
                 tb_cache := empty_cache flds\<rparr>))))"

section \<open>Opening a table\<close>

definition LONG_MAX :: nat where "LONG_MAX = 2 ^ 63 - 1"

definition table_v2 :: "string \<Rightarrow> loaded_table \<Rightarrow> table res" where
  "table_v2 name loaded =
     (if length (lt_rows loaded) > LONG_MAX
      then Inl (Runtime_Error ''Table contains too many records for this build'')
      else Inr (empty_table\<lparr>tb_tableName := name, tb_fieldNames := lt_fields loaded,
        tb_selectedFields := lt_fields loaded, tb_storedRows := lt_rows loaded, tb_usesV2Storage := True,
        tb_numRecords := int (length (lt_rows loaded)),
        tb_fieldNameMap := number_fields (lt_fields loaded),
        tb_recordIndices := map int [0..<length (lt_rows loaded)],
        tb_printQueue := concat (lt_rows loaded)\<rparr>))"

text \<open>\<open>std::stoul\<close>: value and number of characters read; \<open>None\<close> when it throws.\<close>

definition blanks :: string where
  "blanks = map char_of [32, 9, 10, 11, 12, 13 :: nat]"

definition decimal :: "string \<Rightarrow> nat" where
  "decimal ds = foldl (\<lambda>n d. 10 * n + (of_char d - 48)) 0 ds"

definition stoul :: "string \<Rightarrow> (nat \<times> nat) option" where
  "stoul s =
     (let spaces = takeWhile (\<lambda>c. c \<in> set blanks) s;
          rest = drop (length spaces) s;
          sign = (case rest of c # _ \<Rightarrow> if c = CHR ''+'' \<or> c = CHR ''-'' then [c] else [] | [] \<Rightarrow> []);
          digits = takeWhile (\<lambda>c. c \<in> set ''0123456789'') (drop (length sign) rest);
          magnitude = decimal digits in
      if digits = [] \<or> magnitude \<ge> 2 ^ 64 then None
      else Some (if sign = ''-'' then (2 ^ 64 - magnitude) mod 2 ^ 64 else magnitude,
                 length spaces + length sign + length digits))"

definition distinct_field :: "string \<Rightarrow> string set \<Rightarrow> string \<Rightarrow> string set res" where
  "distinct_field name seen field =
     (if field = [] \<or> field \<in> seen
      then Inl (Runtime_Error (''Field metadata contains invalid names for table: '' @ name))
      else Inr (insert field seen))"

text \<open>The fields of a v1 table.\<close>

definition read_fields :: "string \<Rightarrow> bytes \<Rightarrow> string list res" where
  "read_fields name file =
     bindE (read_record file 1 0) (\<lambda>(record, n).
     bindE (throw_if (n \<noteq> encoded_size 1)
       (Runtime_Error (''Field metadata is incomplete for table: '' @ name))) (\<lambda>_.
     case stoul (record ! 0) of
       None \<Rightarrow> Inl (Runtime_Error (''Field metadata is invalid for table: '' @ name))
     | Some (raw_count, parsed) \<Rightarrow>
         bindE (throw_if (parsed \<noteq> length (record ! 0) \<or> raw_count < 1 \<or> raw_count > MAX_FIELDS)
           (Runtime_Error (''Field count is invalid for table: '' @ name))) (\<lambda>_.
         bindE (throw_if (length file \<noteq> encoded_size (raw_count + 1))
           (Runtime_Error (''Field metadata size is invalid for table: '' @ name))) (\<lambda>_.
         bindE (read_record file (raw_count + 1) 0) (\<lambda>(record, n).
         bindE (throw_if (n \<noteq> encoded_size (raw_count + 1))
           (Runtime_Error (''Field metadata is incomplete for table: '' @ name))) (\<lambda>_.
         bindE (foldE (distinct_field name) {} (tl record)) (\<lambda>_.
         Inr (tl record))))))))"

lemma read_slots_end:
  "read_slots file pos 0 vals n = Inr (vals', m) \<Longrightarrow> m \<noteq> 0 \<Longrightarrow> pos < length file"
  by (cases n) (auto simp: Let_def SLOT_SIZE_def split: if_splits)

lemma read_record_end:
  assumes "read_record file n i = Inr (row, m)" and "m \<noteq> 0"
  shows "i < length file"
proof -
  have n: "0 < n" and pos: "i * SLOT_SIZE * n < length file"
    using assms read_slots_end by (auto simp: read_record_def split: if_splits)
  have "1 \<le> SLOT_SIZE * n" using n by (simp add: SLOT_SIZE_def)
  then have "i * 1 \<le> i * (SLOT_SIZE * n)" by (rule mult_le_mono2)
  also have "\<dots> < length file" using pos by (simp only: mult.assoc)
  finally show ?thesis by simp
qed

text \<open>The loop that reads every record of a v1 table, up to the first position with nothing behind it.\<close>

function read_rows :: "bytes \<Rightarrow> nat \<Rightarrow> nat \<Rightarrow> table \<Rightarrow> table res" where
  "read_rows file n i tb =
     bindE (read_record file n i) (\<lambda>(row, bytes_read).
       if bytes_read = 0 then Inr tb
       else read_rows file n (Suc i)
         (tb\<lparr>tb_numRecords := tb_numRecords tb + 1, tb_storedRows := tb_storedRows tb @ [row],
            tb_cache := cache_row (tb_fieldNames tb) row (int i) (tb_cache tb),
            tb_recordIndices := tb_recordIndices tb @ [int i],
            tb_printQueue := tb_printQueue tb @ row\<rparr>))"
  by pat_completeness auto
termination
  by (relation "measure (\<lambda>(file, n, i, tb). length file - i)") (auto dest: read_record_end)

declare read_rows.simps [simp del]

definition table_v1 :: "files \<Rightarrow> string \<Rightarrow> table res" where
  "table_v1 fs name =
     bindE (case fs (field_file name) of
         None \<Rightarrow> Inl (Runtime_Error (''File could not be opened: '' @ field_file name))
       | Some file \<Rightarrow> read_fields name file) (\<lambda>flds.
     case fs (table_file name) of
       None \<Rightarrow> Inl (Runtime_Error (''File could not be opened: '' @ table_file name))
     | Some file \<Rightarrow>
         bindE (throw_if (length file mod encoded_size (length flds) \<noteq> 0)
           (Runtime_Error (''Record file contains a partial row for table: '' @ name))) (\<lambda>_.
         read_rows file (length flds) 0
           (empty_table\<lparr>tb_tableName := name, tb_fieldNames := flds, tb_selectedFields := flds,
              tb_fieldNameMap := number_fields flds\<rparr>)))"

definition Table_open :: "files \<Rightarrow> string \<Rightarrow> table operation" where
  "Table_open fs name =
     (let v2_file = database_path name;
          has_v2 = file_exists fs v2_file;
          has_v1_table = file_exists fs (table_file name);
          has_v1_fields = file_exists fs (field_file name);
          has_orphan_v2_wal = (\<not> has_v2 \<and> \<not> has_v1_table \<and> \<not> has_v1_fields \<and> wal_pending fs v2_file);
          opens_v2 = (has_v2 \<or> has_orphan_v2_wal) in
      if \<not> opens_v2 \<and> (\<not> has_v1_table \<or> \<not> has_v1_fields)
      then throw (Runtime_Error (''Table does not exist: '' @ name))
      else if opens_v2 then after fs (open_table fs v2_file) (\<lambda>loaded fs. pure_op (table_v2 name loaded))
      else pure_op (table_v1 fs name))"

section \<open>Insertion\<close>

definition insert_into :: "files \<Rightarrow> table \<Rightarrow> string list \<Rightarrow> table operation option" where
  "insert_into fs tb vals =
     (if length vals \<noteq> length (tb_fieldNames tb)
      then Some (throw (Invalid_Argument (''Expected '' @ to_string (length (tb_fieldNames tb)) @
        '' values, received '' @ to_string (length vals))))
      else if \<exists>v \<in> set vals. length v > SLOT_SIZE
      then Some (throw (Length_Error ''Values must not exceed 100 bytes''))
      else if \<not> tb_usesV2Storage tb
      then Some (throw (Runtime_Error
        ''Storage format v1 is read-only; run sql_migrate_v1 before inserting''))
      else
        map_option (\<lambda>m. after fs m (\<lambda>_ fs. pure_op (Inr
          (tb\<lparr>tb_cache := cache_row (tb_fieldNames tb) vals (tb_numRecords tb) (tb_cache tb),
             tb_recordIndices := tb_recordIndices tb @ [tb_numRecords tb],
             tb_printQueue := tb_printQueue tb @ vals,
             tb_storedRows := tb_storedRows tb @ [vals],
             tb_numRecords := tb_numRecords tb + 1\<rparr>))))
          (insert_row fs (database_path (tb_tableName tb)) vals))"

section \<open>Selection\<close>

text \<open>The v1 part of \<open>selectHelp\<close>: the cached index of a field, in key order.\<close>

definition keys_of :: "value_index \<Rightarrow> string list" where
  "keys_of m = sorted_list_of_set (dom m)"

definition records_of :: "value_index \<Rightarrow> string list \<Rightarrow> int list" where
  "records_of m ks = concat (map (\<lambda>k. the (m k)) ks)"

definition select_cached :: "value_index \<Rightarrow> string \<Rightarrow> string \<Rightarrow> int list" where
  "select_cached m op v =
     (if op = ''='' \<and> v \<in> dom m then the (m v)
      else if op = ''<='' then records_of m (takeWhile (\<lambda>k. \<not> v < k) (keys_of m))
      else if op = ''<'' then records_of m (takeWhile (\<lambda>k. k < v) (keys_of m))
      else if op = ''>='' then records_of m (dropWhile (\<lambda>k. k < v) (keys_of m))
      else if op = ''>'' then records_of m (dropWhile (\<lambda>k. \<not> v < k) (keys_of m))
      else if op = ''!='' then records_of m (filter (\<lambda>k. k \<noteq> v) (keys_of m))
      else [])"

definition to_long :: "u64 \<Rightarrow> int res" where
  "to_long record =
     (if unat record > LONG_MAX then Inl (Runtime_Error ''Record identifier exceeds the public API range'')
      else Inr (int (unat record)))"

definition to_longs :: "u64 list \<Rightarrow> int list res" where
  "to_longs records = foldE (\<lambda>out r. bindE (to_long r) (\<lambda>i. Inr (out @ [i]))) [] records"

definition selectHelp :: "files \<Rightarrow> table \<Rightarrow> string \<Rightarrow> string \<Rightarrow> string \<Rightarrow> int list operation" where
  "selectHelp fs tb field_name op v =
     (case tb_fieldNameMap tb field_name of
        None \<Rightarrow> throw (Invalid_Argument (''Unknown field: '' @ field_name))
      | Some index \<Rightarrow>
          if tb_usesV2Storage tb
          then after fs (query_index fs (database_path (tb_tableName tb)) (nat index) op v)
            (\<lambda>records _. pure_op (to_longs records))
          else pure_op (Inr (select_cached
            (case tb_cache tb field_name of None \<Rightarrow> Map.empty | Some m \<Rightarrow> m) op v)))"

text \<open>The classification of condition tokens by their text.\<close>

definition allocate_token :: "string \<Rightarrow> token" where
  "allocate_token t =
     (if t \<in> {''>='', ''<='', ''>'', ''<'', ''='', ''!=''} then Relational t
      else if t = ''('' then LeftParen
      else if t = '')'' then RightParen
      else if t = ''and'' \<or> t = ''or'' then Logical t
      else TokenStr t)"

definition allocate_tokens_memory :: "string list \<Rightarrow> token list" where
  "allocate_tokens_memory a = map allocate_token a"

definition validate_projection :: "table \<Rightarrow> string list \<Rightarrow> unit res" where
  "validate_projection tb flds =
     (if flds = [] \<or> flds = [''*''] then Inr ()
      else foldE (\<lambda>_ f. throw_if (f \<notin> dom (tb_fieldNameMap tb))
        (Invalid_Argument (''Unknown selected field: '' @ f))) () flds)"

text \<open>
  \<open>permutate_fields\<close>: unknown names are erased at the positions found before, then the names are
  put in schema order. \<open>validate_projection\<close> has made sure that there is nothing to erase.
\<close>

definition permutate_fields :: "table \<Rightarrow> string list \<Rightarrow> string list" where
  "permutate_fields tb sField =
     (let invalid_indices = filter (\<lambda>i. sField ! i \<notin> dom (tb_fieldNameMap tb)) [0..<length sField];
          permutated = foldl (\<lambda>xs i. take i xs @ drop (Suc i) xs) sField invalid_indices;
          sort_indices = map (\<lambda>f. case tb_fieldNameMap tb f of None \<Rightarrow> 0 | Some i \<Rightarrow> i) permutated
      in fst (my_sort permutated sort_indices))"

text \<open>\<open>Eval\<close>: a stack of operands and a stack of record sets.\<close>

fun eval_loop :: "table \<Rightarrow> files \<Rightarrow> token list \<Rightarrow> int list list \<Rightarrow> token list \<Rightarrow> int list operation" where
  "eval_loop tb fs s indices [] =
     (if s \<noteq> [] \<or> length indices \<noteq> 1 then throw (Invalid_Argument ''Malformed WHERE expression'')
      else pure_op (Inr (hd indices)))"
| "eval_loop tb fs s indices (token # q) =
     (case token of
        TokenStr _ \<Rightarrow> eval_loop tb fs (token # s) indices q
      | Relational op \<Rightarrow>
          (case s of
             v # f # s \<Rightarrow>
               after fs (selectHelp fs tb (token_string f) op (token_string v))
                 (\<lambda>selected fs. eval_loop tb fs s (selected # indices) q)
           | _ \<Rightarrow> throw (Invalid_Argument ''Malformed relational expression''))
      | Logical l \<Rightarrow>
          (case indices of
             a # b # indices \<Rightarrow>
               let temp = (if l = ''or'' then my_union a b
                           else if l = ''and'' then my_intersection a b else []) in
               eval_loop tb fs s (temp # indices) q
           | _ \<Rightarrow> throw (Invalid_Argument ''Malformed logical expression''))
      | _ \<Rightarrow> eval_loop tb fs s indices q)"

definition Eval :: "files \<Rightarrow> table \<Rightarrow> token list \<Rightarrow> int list operation" where
  "Eval fs tb queue = eval_loop tb fs [] [] queue"

text \<open>The values of a selected row, in schema order.\<close>

definition print_row :: "table \<Rightarrow> string list \<Rightarrow> string list \<Rightarrow> int \<Rightarrow> string list res" where
  "print_row tb flds out idx =
     (if idx < 0 \<or> nat idx \<ge> length (tb_storedRows tb)
      then Inl (Runtime_Error ''Selected record identifier is out of range'')
      else
        let entry = tb_storedRows tb ! nat idx in
        Inr (out @ map (\<lambda>i. entry ! i)
          (filter (\<lambda>i. tb_fieldNames tb ! i \<in> set flds) [0..<length entry])))"

definition print_rows :: "table \<Rightarrow> string list \<Rightarrow> int list \<Rightarrow> string list res" where
  "print_rows tb flds indices = foldE (print_row tb flds) [] indices"

text \<open>The columns that \<open>select\<close> shows: all of them, or the ones asked for.\<close>

definition shown_fields :: "table \<Rightarrow> string list \<Rightarrow> string list" where
  "shown_fields tb flds = (if flds = [] \<or> hd flds = ''*'' then tb_fieldNames tb else flds)"

text \<open>
  \<open>select\<close> returns the selected table and leaves the chosen columns and the record numbers in the table
  it is called on: the result is the changed object and the returned one. When it throws, the caller
  drops the object. (\<open>cache[field_name]\<close> on a missing key adds an empty index, which no
  operation distinguishes from a missing one.)
\<close>

definition select_postfix ::
  "files \<Rightarrow> table \<Rightarrow> string list \<Rightarrow> token list \<Rightarrow> (table \<times> table) operation" where
  "select_postfix fs tb flds expression =
     (case validate_projection tb flds of
        Inl e \<Rightarrow> throw e
      | Inr _ \<Rightarrow>
          let shown = shown_fields tb flds;
              reordered = permutate_fields tb shown;
              temp = empty_table\<lparr>tb_selectedFields := shown, tb_tableName := tb_tableName tb,
                tb_fieldNames := reordered, tb_numRecords := tb_numRecords tb\<rparr> in
          after fs
            (if expression \<noteq> [] then Eval fs tb expression
             else pure_op (Inr (map int [0..<nat (tb_numRecords tb)])))
            (\<lambda>indices _. pure_op (bindE (print_rows tb reordered indices) (\<lambda>out.
               Inr (tb\<lparr>tb_selectedFields := shown, tb_recordIndices := indices\<rparr>,
                    temp\<lparr>tb_recordIndices := indices, tb_printQueue := out\<rparr>)))))"

definition select_expression ::
  "files \<Rightarrow> table \<Rightarrow> string list \<Rightarrow> string list \<Rightarrow> (table \<times> table) operation" where
  "select_expression fs tb flds expression =
     (case shunting_yard (allocate_tokens_memory expression) of
        (queue, is_error) \<Rightarrow>
          if is_error then throw (Invalid_Argument ''Invalid parenthesis structure in WHERE clause'')
          else select_postfix fs tb flds queue)"

definition select_condition ::
  "files \<Rightarrow> table \<Rightarrow> string list \<Rightarrow> string \<Rightarrow> string \<Rightarrow> string \<Rightarrow> (table \<times> table) operation" where
  "select_condition fs tb flds field_name op v =
     (case validate_projection tb flds of
        Inl e \<Rightarrow> throw e
      | Inr _ \<Rightarrow>
          let shown = shown_fields tb flds;
              temp = empty_table\<lparr>tb_selectedFields := shown, tb_tableName := tb_tableName tb,
                tb_fieldNames := tb_fieldNames tb, tb_numRecords := tb_numRecords tb\<rparr> in
          after fs (selectHelp fs tb field_name op v)
            (\<lambda>indices _. pure_op (bindE (print_rows tb shown indices) (\<lambda>out.
               Inr (tb\<lparr>tb_selectedFields := shown, tb_recordIndices := indices\<rparr>,
                    temp\<lparr>tb_recordIndices := indices, tb_printQueue := out\<rparr>)))))"

section \<open>Printing\<close>

definition setw :: "nat \<Rightarrow> string \<Rightarrow> string" where
  "setw w s = replicate (w - length s) (CHR '' '') @ s"

text \<open>
  \<open>operator<<\<close> on a table: a heading, then a line for every \<open>eIndex\<close> values. A table without columns
  has no values either.
\<close>

definition show_value :: "nat \<Rightarrow> string list \<Rightarrow> nat \<Rightarrow> string" where
  "show_value eIndex values i =
     (if i mod eIndex = 0 then newline @ setw 20 (to_string (i div eIndex)) else []) @ setw 20 (values ! i)"

definition show_table :: "table \<Rightarrow> string" where
  "show_table tb =
     setw 20 ''record'' @ concat (map (setw 20) (tb_fieldNames tb)) @
     concat (map (show_value (length (tb_fieldNames tb)) (tb_printQueue tb)) [0..<length (tb_printQueue tb)])"

end
