(* ===== verification/Storage_Correct.thy ===== *)
theory Storage_Correct
  imports Storage
begin

text \<open>
  What the public operations of the storage engine promise: a table that was created or changed is read
  back, an index query returns exactly the matching records in key order, inspection agrees with
  opening, a failing operation leaves the files as recovery left them, and create and insert are atomic
  under crashes.
\<close>

section \<open>Recovery that succeeds\<close>

lemma installs_parsed: "parse_image img w = Inr (t, pages) \<Longrightarrow> installs img (in_generation (lt_inspection t))"
  by (auto simp: installs_def)

lemma recover_pending:
  assumes wal: "fs (wal_path p) = Some wal" "wal \<noteq> []" and parse: "parse_wal wal = Inr (img, g)"
    and stale: "check_stale fs p g = Inr ()"
  shows "snd (recover fs p) = Inr ()" and "run (fst (recover fs p)) fs = fs(p \<mapsto> img, wal_path p \<mapsto> [])"
proof -
  have inst: "installs img g" using parse by (auto simp: parse_wal_iff installs_def)
  obtain n where n: "length img = n * PAGE_SIZE" using installs_facts(1) [OF inst] by blast
  obtain b where b: "PageBuffer img {} = Inr b" "\<And>old. clean_pages_agree img old (pb_dirty b)"
    using whole_buffer [OF inst] by blast
  have ok: "buffer_ok b" "pb_image b = img" using b(1) by (auto simp: PageBuffer_iff)
  have rec: "recover fs p = calls (apply_calls (\<not> file_exists fs p) p img (ascending (pb_dirty b)) @
      clear_wal (wal_path p))"
    using wal parse stale ok by (simp add: recover_def wal_pending_def read_file_def b(1) apply_image_calls)
  have "run (apply_calls (\<not> file_exists fs p) p img (ascending (pb_dirty b))) fs = fs(p \<mapsto> img)"
    by (rule apply_run [OF n buffer_pages [OF b(1) n]]) (simp add: b(2))
  then show "run (fst (recover fs p)) fs = fs(p \<mapsto> img, wal_path p \<mapsto> [])"
    using wal by (simp add: rec calls_def clear_wal_def resize_def)
  show "snd (recover fs p) = Inr ()" by (simp add: rec calls_def)
qed

text \<open>The three outcomes of recovery.\<close>

lemma recover_cases:
  obtains (quiet) "\<not> wal_pending fs p" "recover fs p = ([], Inr ())"
    | (replayed) wal img g where "fs (wal_path p) = Some wal" "wal \<noteq> []" "parse_wal wal = Inr (img, g)"
        "check_stale fs p g = Inr ()" "snd (recover fs p) = Inr ()"
        "run (fst (recover fs p)) fs = fs(p \<mapsto> img, wal_path p \<mapsto> [])"
    | (rejected) e where "wal_pending fs p" "recover fs p = ([], Inl e)"
proof (cases "wal_pending fs p")
  case False
  then show ?thesis using quiet by (simp add: recover_def calls_def)
next
  case True
  then obtain wal where wal: "fs (wal_path p) = Some wal" "wal \<noteq> []"
    by (auto simp: wal_pending_def split: option.splits)
  show ?thesis
  proof (cases "parse_wal wal")
    case (Inl e)
    then show ?thesis using True wal rejected by (simp add: recover_def read_file_def raise_def)
  next
    case (Inr ig)
    obtain img g where ig: "ig = (img, g)" by (cases ig)
    show ?thesis
    proof (cases "check_stale fs p g")
      case (Inl e)
      then show ?thesis
        using True wal Inr ig rejected by (simp add: recover_def read_file_def raise_def)
    next
      case (Inr u)
      then show ?thesis
        using wal \<open>parse_wal wal = Inr ig\<close> ig replayed recover_pending [where fs = fs, OF wal] by simp
    qed
  qed
qed

lemma recover_ok_quiet:
  assumes "snd (recover fs p) = Inr ()"
  shows "\<not> wal_pending (run (fst (recover fs p)) fs) p"
  by (rule recover_cases [of fs p]) (use assms in \<open>auto simp: wal_pending_def\<close>)

lemma recover_error: "snd (recover fs p) = Inl e \<Longrightarrow> fst (recover fs p) = []"
  by (rule recover_cases [of fs p]) auto

lemma open_table_quiet: "\<not> wal_pending fs p \<Longrightarrow> open_table fs p = ([], load_table fs p)"
  by (simp add: open_table_def recover_def calls_def after_def pure_op_def)

lemma open_table_result:
  "snd (open_table fs p) = Inr t \<longleftrightarrow>
   snd (recover fs p) = Inr () \<and> load_table (run (fst (recover fs p)) fs) p = Inr t"
  by (auto simp: open_table_def after_def pure_op_def split: prod.splits sum.splits)

lemma open_table_calls: "fst (open_table fs p) = fst (recover fs p)"
  by (auto simp: open_table_def after_def pure_op_def split: prod.splits sum.splits)

lemma load_table_Inr:
  "load_table fs p = Inr t \<longleftrightarrow>
   (\<exists>img pages. fs p = Some img \<and> parse_image img (wal_pending fs p) = Inr (t, pages))"
  by (auto simp: load_table_def read_file_def bindE_eq_Inr split: option.splits)

section \<open>Inspection\<close>

lemma inspect_open:
  "inspect fs p = Inr i \<longleftrightarrow>
   (\<exists>t. snd (open_table fs p) = Inr t \<and> i = (lt_inspection t)\<lparr>in_wal_present := wal_pending fs p\<rparr>)"
proof (rule recover_cases [of fs p])
  assume q: "\<not> wal_pending fs p" "recover fs p = ([], Inr ())"
  have "(lt_inspection t)\<lparr>in_wal_present := False\<rparr> = lt_inspection t"
    if "parse_image img False = Inr (t, pages)" for img t pages
    using that by (auto simp: parse_image_iff loaded_from_def)
  then show ?thesis
    using q by (fastforce simp: inspect_def open_table_result load_table_Inr read_file_def bindE_eq_Inr
        split: option.splits)
next
  fix wal img g
  assume r: "fs (wal_path p) = Some wal" "wal \<noteq> []" "parse_wal wal = Inr (img, g)"
    "check_stale fs p g = Inr ()" "snd (recover fs p) = Inr ()"
    "run (fst (recover fs p)) fs = fs(p \<mapsto> img, wal_path p \<mapsto> [])"
  then have pending: "wal_pending fs p" by (simp add: wal_pending_def)
  have quiet: "\<not> wal_pending (fs(p \<mapsto> img, wal_path p \<mapsto> [])) p" by (simp add: wal_pending_def)
  obtain t pages where t: "parse_image img True = Inr (t, pages)" using r(3) by (auto simp: parse_wal_iff)
  then obtain sb flds rows roots where
    s: "t = loaded_from sb flds rows roots True" "parse_image img False = Inr (loaded_from sb flds rows roots False, pages)"
    unfolding parse_image_iff by blast
  have "(lt_inspection t)\<lparr>in_wal_present := True\<rparr> =
      (lt_inspection (loaded_from sb flds rows roots False))\<lparr>in_wal_present := True\<rparr>"
    by (simp add: s(1) loaded_from_def)
  then show ?thesis
    using r pending quiet t s(2)
    by (auto simp: inspect_def open_table_result load_table_Inr read_file_def)
next
  fix e assume q: "wal_pending fs p" "recover fs p = ([], Inl e)"
  have "inspect fs p \<noteq> Inr i"
  proof
    assume "inspect fs p = Inr i"
    then obtain wal img g where w: "fs (wal_path p) = Some wal" "parse_wal wal = Inr (img, g)"
      "check_stale fs p g = Inr ()"
      using q(1) by (auto simp: inspect_def read_file_def bindE_eq_Inr split: option.splits)
    have "wal \<noteq> []" using w(1) q(1) by (simp add: wal_pending_def)
    from recover_pending(1) [where fs = fs, OF w(1) this w(2,3)] q(2) show False by simp
  qed
  then show ?thesis using q by (auto simp: open_table_result)
qed

section \<open>Queries\<close>

definition compare_with :: "string \<Rightarrow> string \<Rightarrow> string \<Rightarrow> bool" where
  "compare_with operator key value =
     (if operator = ''='' then key = value else if operator = ''!='' then key \<noteq> value
      else if operator = ''<'' then key < value else if operator = ''<='' then key \<le> value
      else if operator = ''>'' then value < key else value \<le> key)"

definition operators :: "string set" where
  "operators = {''='', ''!='', ''<'', ''<='', ''>'', ''>=''}"

lemma entry_matches_eq:
  "entry_matches operator value key =
   (if operator \<in> operators then Inr (compare_with operator key value)
    else Inl (Invalid_Argument (''Unsupported comparison operator: '' @ operator)))"
  by (simp add: entry_matches_def operators_def compare_with_def)

lemma scan_index_eq:
  "scan_index index operator value =
   (if index = [] \<or> operator \<in> operators
    then Inr (map snd (filter (\<lambda>e. compare_with operator (fst e) value) index))
    else Inl (Invalid_Argument (''Unsupported comparison operator: '' @ operator)))"
proof -
  have "foldE (\<lambda>records entry. bindE (entry_matches operator value (fst entry)) (\<lambda>matches.
      Inr (if matches then records @ [snd entry] else records))) out index =
    (if index = [] \<or> operator \<in> operators
     then Inr (out @ map snd (filter (\<lambda>e. compare_with operator (fst e) value) index))
     else Inl (Invalid_Argument (''Unsupported comparison operator: '' @ operator)))" for out
    by (induction index arbitrary: out) (auto simp: entry_matches_eq)
  then show ?thesis by (simp add: scan_index_def)
qed

text \<open>A table that was opened carries the sorted entries of every field.\<close>

lemma load_table_indexes:
  assumes "load_table fs p = Inr t"
  shows "lt_indexes t = map (field_entries (lt_rows t)) [0..<length (lt_fields t)]"
    and "length (lt_rows t) < 2 ^ 64" and "table_ok (lt_fields t) (lt_rows t)"
proof -
  obtain img w pages where p: "parse_image img w = Inr (t, pages)"
    using assms by (auto simp: load_table_Inr)
  show "lt_indexes t = map (field_entries (lt_rows t)) [0..<length (lt_fields t)]"
    "table_ok (lt_fields t) (lt_rows t)"
    using parse_image_table [OF p] by auto
  show "length (lt_rows t) < 2 ^ 64"
    using parse_image_table(5) [OF p] unsigned_less [of "in_row_count (lt_inspection t)", where ?'a = nat] by simp
qed

lemma field_entries_records:
  fixes rows :: "string list list" and field :: nat and P :: "string \<Rightarrow> bool"
  assumes small: "length rows < 2 ^ 64"
  defines "rs \<equiv> map snd (filter (\<lambda>e. P (fst e)) (field_entries rows field))"
  shows "set rs = word_of_nat ` {r. r < length rows \<and> P (rows ! r ! field)}" and "distinct rs"
    and "sorted (map (\<lambda>r. (rows ! unat r ! field, r)) rs)"
proof -
  note ids = field_entries_distinct_ids [OF small]
  show "set rs = word_of_nat ` {r. r < length rows \<and> P (rows ! r ! field)}"
    by (force simp: rs_def set_field_entries)
  have "distinct (map (unat \<circ> snd) (filter (\<lambda>e. P (fst e)) (field_entries rows field)))"
    using ids(1) by (simp add: distinct_map_filter)
  then show "distinct rs" unfolding rs_def by (metis distinct_map map_map)
  have "map (\<lambda>r. (rows ! unat r ! field, r)) rs = filter (\<lambda>e. P (fst e)) (field_entries rows field)"
    unfolding rs_def map_map using ids(2) by (intro map_idI) (auto simp: set_field_entries)
  then show "sorted (map (\<lambda>r. (rows ! unat r ! field, r)) rs)"
    using field_entries_props(1) by (simp add: sorted_filter [of "\<lambda>x. x", simplified])
qed

section \<open>Creating a table\<close>

lemma build_image_installs:
  assumes "table_ok flds rows" "image_fits flds rows" "build_image flds rows g = Inr img"
  shows "installs img g"
    and "\<exists>t pages. parse_image img w = Inr (t, pages) \<and> lt_fields t = flds \<and> lt_rows t = rows \<and>
      in_generation (lt_inspection t) = g \<and> in_wal_present (lt_inspection t) = w"
proof -
  obtain pages sb roots where b: "sb_generation sb = g"
    "\<And>w. parse_image img w = Inr (loaded_from sb flds rows roots w, pages)"
    using build_parse [OF assms(1,2), of g] assms(3) by auto
  show "installs img g" using installs_parsed [OF b(2)] b(1) by simp
  show "\<exists>t pages. parse_image img w = Inr (t, pages) \<and> lt_fields t = flds \<and> lt_rows t = rows \<and>
      in_generation (lt_inspection t) = g \<and> in_wal_present (lt_inspection t) = w"
    using b by (intro exI [of _ "loaded_from sb flds rows roots w"] exI [of _ pages]) simp
qed

text \<open>Committing a whole image that a table file does not yet hold.\<close>

lemma create_commits:
  assumes "\<not> file_exists fs p" "\<not> wal_pending fs p" "table_ok flds rows" "image_fits flds rows"
  obtains img b where "build_image flds rows 1 = Inr img" "installs img 1" "replaces fs p 1"
    "create_from_rows fs p flds rows = commit_image fs p img 1 {}" "PageBuffer img {} = Inr b"
    "clean_pages_agree img (old_bytes fs p) (pb_dirty b)"
proof -
  obtain img where img: "build_image flds rows 1 = Inr img" using build_image_ok [OF assms(3,4), of 1] by blast
  note inst = build_image_installs(1) [OF assms(3,4) img]
  obtain b where "PageBuffer img {} = Inr b" "clean_pages_agree img (old_bytes fs p) (pb_dirty b)"
    using whole_buffer [OF inst] by blast
  moreover have "replaces fs p 1" using assms(1) by (simp add: replaces_def file_exists_def)
  ultimately show ?thesis using that img inst assms(1,2) by (simp add: create_from_rows_def)
qed

lemma create_open:
  assumes "\<not> file_exists fs p" "\<not> wal_pending fs p" "table_ok flds rows" "image_fits flds rows"
  shows "\<exists>cs t. create_from_rows fs p flds rows = (cs, Inr ()) \<and> open_table (run cs fs) p = ([], Inr t) \<and>
    lt_fields t = flds \<and> lt_rows t = rows \<and> in_generation (lt_inspection t) = 1 \<and>
    lt_indexes t = map (field_entries rows) [0..<length flds] \<and> others_same p fs (run cs fs)"
proof -
  obtain img b where c: "build_image flds rows 1 = Inr img" "installs img 1"
    "create_from_rows fs p flds rows = commit_image fs p img 1 {}" "PageBuffer img {} = Inr b"
    "clean_pages_agree img (old_bytes fs p) (pb_dirty b)"
    by (rule create_commits [OF assms])
  let ?m = "commit_image fs p img 1 {}"
  note fin = run_commit_committed [OF c(2,4,5)]
  obtain t pages where t: "parse_image img False = Inr (t, pages)" "lt_fields t = flds" "lt_rows t = rows"
    "in_generation (lt_inspection t) = 1"
    using build_image_installs(2) [OF assms(3,4) c(1), of False] by blast
  have quiet: "\<not> wal_pending (run (fst ?m) fs) p" by (rule committed_quiet [OF fin(2)])
  have "load_table (run (fst ?m) fs) p = Inr t"
    using fin(2) t(1) quiet by (auto simp: load_table_Inr committed_def)
  then have "open_table (run (fst ?m) fs) p = ([], Inr t)" using open_table_quiet [OF quiet] by simp
  then show ?thesis
    using fin c(3) t parse_image_table(2) [OF t(1)] by (cases ?m) (auto simp: committed_def)
qed

section \<open>Inserting a row\<close>

lemma block_page:
  assumes "encode_pages pages = Inr img" and "j < length pages"
  shows "block j img = page_bytes (pages ! j)"
  using assms block_concat_page_bytes by (auto simp: encode_pages_iff block_def)

lemma block_resize:
  assumes "length bs = n * PAGE_SIZE" and "n * PAGE_SIZE \<le> m" and "j < n"
  shows "block j (resize m bs) = block j bs"
proof -
  have "Suc j * PAGE_SIZE \<le> n * PAGE_SIZE" using assms(3) by (intro mult_le_mono) auto
  then show ?thesis using assms(1,2) by (simp add: block_def resize_def)
qed

lemma insert_commits:
  assumes db: "fs p = Some img" and t: "parse_image img False = Inr (t, pages)"
    and ins: "build_incremental_insert img row = Some (Inr ii)"
  obtains b where "installs (ii_image ii) (ii_generation ii)" "replaces fs p (ii_generation ii)"
    "PageBuffer (ii_image ii) (ii_dirty_pages ii) = Inr b"
    "clean_pages_agree (ii_image ii) (old_bytes fs p) (pb_dirty b)"
proof -
  obtain t' pages' where t': "parse_image (ii_image ii) False = Inr (t', pages')"
    and gen: "in_generation (lt_inspection t') = ii_generation ii"
      "ii_generation ii = in_generation (lt_inspection t) + 1" "in_generation (lt_inspection t) \<noteq> - 1"
    and g: "grows (insert Superblock (insert Rows update_types)) (pages, {}) (pages', ii_dirty_pages ii)"
    using insert_result [OF ins t, of False] by blast
  note old = parse_image_table(3,4) [OF t] and new = parse_image_table(3,4) [OF t']
  have count: "pb_page_count b = length pages'" if "pb_image b = ii_image ii" for b
    using new(2) that by (simp add: pb_page_count_def PAGE_BYTES_def PAGE_SIZE_def)
  have pages': "pages' \<noteq> []" "length pages' \<le> MAX_PAGES" using t' unfolding parse_image_iff by blast+
  have small: "unat (word_of_nat i :: u32) = i" if "i < length pages'" for i
    using that pages'(2) by simp
  have dirty: "\<forall>x \<in> ii_dirty_pages ii. unat x < length pages'" using grows_dirty [OF g] by simp
  define b where "b = \<lparr>pb_image = ii_image ii,
    pb_dirty = (if ii_dirty_pages ii = {} then set (map word_of_nat [0..<length pages']) else ii_dirty_pages ii)\<rparr>"
  have cnt: "pb_page_count b = length pages'" by (rule count) (simp add: b_def)
  have "ii_image ii \<noteq> []" using new(2) pages'(1) by (auto simp: PAGE_SIZE_def)
  then have "PageBuffer (ii_image ii) (ii_dirty_pages ii) = Inr b"
    unfolding PageBuffer_iff buffer_ok_def cnt using new(2) pages' dirty small
    by (auto simp: b_def PAGE_BYTES_def PAGE_SIZE_def MAX_PAGES_def)
  moreover have "clean_pages_agree (ii_image ii) (old_bytes fs p) (pb_dirty b)"
    unfolding clean_pages_agree_def
  proof (intro allI impI)
    fix j assume "j < length (ii_image ii) div PAGE_SIZE" "j \<notin> unat ` pb_dirty b"
    then have j: "j < length pages'" "word_of_nat j \<notin> ii_dirty_pages ii"
      using new(2) small by (auto simp: b_def PAGE_SIZE_def image_iff split: if_splits)
    note clean = grows_clean [OF g this]
    have "block j (resize (length (ii_image ii)) img) = block j img"
      using old(2) new(2) grows_length [OF g] clean by (intro block_resize [of _ "length pages"]) simp_all
    also have "\<dots> = block j (ii_image ii)"
      using block_page [OF old(1)] block_page [OF new(1) j(1)] clean by simp
    finally show "block j (resize (length (ii_image ii)) (old_bytes fs p)) = block j (ii_image ii)"
      by (simp add: old_bytes_def db)
  qed
  moreover have "installs (ii_image ii) (ii_generation ii)" using installs_parsed [OF t'] gen by simp
  moreover have "1 + in_generation (lt_inspection t) \<noteq> 0" using gen(3) by (simp add: add_eq_0_iff)
  then have "in_generation (lt_inspection t) \<le> ii_generation ii"
    unfolding gen(2) by (simp add: word_le_nat_alt unatSuc add.commute [of _ 1])
  then have "replaces fs p (ii_generation ii)" using db t by (auto simp: replaces_def)
  ultimately show ?thesis using that by blast
qed

lemma insert_row_quiet:
  assumes "\<not> wal_pending fs p"
  shows "insert_row fs p row = Some (cs, r) \<longleftrightarrow>
    (case read_file fs p of
       Inl e \<Rightarrow> cs = [] \<and> r = Inl e
     | Inr img \<Rightarrow> (\<exists>m. build_incremental_insert img row = Some m \<and>
         (cs, r) = (case m of Inl e \<Rightarrow> raise e
           | Inr ii \<Rightarrow> commit_image fs p (ii_image ii) (ii_generation ii) (ii_dirty_pages ii))))"
  using assms
  by (auto simp: insert_row_def recover_def calls_def after_def raise_def split: sum.splits prod.splits)

text \<open>Insertion runs on the files recovery leaves.\<close>

lemma insert_row_recovered:
  assumes "snd (recover fs p) = Inr ()" and "insert_row fs p row = Some (cs, r)"
  obtains cs' where "cs = fst (recover fs p) @ cs'"
    "insert_row (run (fst (recover fs p)) fs) p row = Some (cs', r)"
proof -
  let ?fs = "run (fst (recover fs p)) fs"
  have "recover ?fs p = ([], Inr ())"
    using recover_ok_quiet [OF assms(1)] by (simp add: recover_def calls_def)
  then have "insert_row fs p row = map_option (\<lambda>(ds, s). (fst (recover fs p) @ ds, s)) (insert_row ?fs p row)"
    using assms(1) by (cases "recover fs p")
      (auto simp: insert_row_def after_def option.map_comp comp_def case_prod_unfold intro!: option.map_cong
        split: sum.splits)
  then obtain ds where "insert_row ?fs p row = Some (ds, r)" "cs = fst (recover fs p) @ ds"
    using assms(2) by (cases "insert_row ?fs p row") auto
  then show ?thesis using that by blast
qed

lemma insert_row_done [consumes 3]:
  assumes quiet: "\<not> wal_pending fs p" and t: "load_table fs p = Inr t"
    and ins: "insert_row fs p row = Some (cs, r)"
  obtains (failed) e where "cs = []" "r = Inl e"
    | (committed) ii :: incremental_image and b t' pages' where "r = Inr ()" "cs = fst (commit_image fs p (ii_image ii) (ii_generation ii) (ii_dirty_pages ii))"
      "committed fs p (ii_image ii) (run cs fs)"
      "installs (ii_image ii) (ii_generation ii)" "replaces fs p (ii_generation ii)"
      "PageBuffer (ii_image ii) (ii_dirty_pages ii) = Inr b"
      "clean_pages_agree (ii_image ii) (old_bytes fs p) (pb_dirty b)"
      "parse_image (ii_image ii) False = Inr (t', pages')" "lt_fields t' = lt_fields t"
      "lt_rows t' = lt_rows t @ [row]"
      "in_generation (lt_inspection t') = in_generation (lt_inspection t) + 1"
proof -
  obtain img pages where db: "fs p = Some img" and p: "parse_image img False = Inr (t, pages)"
    using t quiet by (auto simp: load_table_Inr)
  then obtain m where m: "build_incremental_insert img row = Some m"
    "(cs, r) = (case m of Inl e \<Rightarrow> raise e
      | Inr ii \<Rightarrow> commit_image fs p (ii_image ii) (ii_generation ii) (ii_dirty_pages ii))"
    using ins by (auto simp: insert_row_quiet [OF quiet] read_file_def)
  show ?thesis
  proof (cases m)
    case (Inl e)
    then show ?thesis using m(2) failed by (simp add: raise_def)
  next
    case (Inr ii)
    note b = m(1) [unfolded Inr]
    obtain b where c: "installs (ii_image ii) (ii_generation ii)" "replaces fs p (ii_generation ii)"
      "PageBuffer (ii_image ii) (ii_dirty_pages ii) = Inr b"
      "clean_pages_agree (ii_image ii) (old_bytes fs p) (pb_dirty b)"
      by (rule insert_commits [where fs = fs and p = p, OF db p b])
    have cs: "(cs, r) = commit_image fs p (ii_image ii) (ii_generation ii) (ii_dirty_pages ii)"
      using m(2) Inr by simp
    note fin = run_commit_committed [OF c(1,3,4), folded cs]
    obtain t' pages' where "parse_image (ii_image ii) False = Inr (t', pages')" "lt_fields t' = lt_fields t"
      "lt_rows t' = lt_rows t @ [row]"
      "in_generation (lt_inspection t') = in_generation (lt_inspection t) + 1"
      using insert_result [OF b p, of False] by auto
    then show ?thesis using committed [OF _ _ _ c] fin by (simp flip: cs)
  qed
qed

lemma committed_open:
  assumes "committed fs p new fs'" and "parse_image new False = Inr (t, pages)"
  shows "open_table fs' p = ([], Inr t)"
proof -
  have "\<not> wal_pending fs' p" by (rule committed_quiet [OF assms(1)])
  moreover from this have "load_table fs' p = Inr t" using assms by (auto simp: load_table_Inr committed_def)
  ultimately show ?thesis by (simp add: open_table_quiet)
qed

lemma insert_open:
  assumes "snd (open_table fs p) = Inr t" and "insert_row fs p row = Some (cs, Inr ())"
  shows "\<exists>t'. open_table (run cs fs) p = ([], Inr t') \<and> lt_fields t' = lt_fields t \<and>
    lt_rows t' = lt_rows t @ [row] \<and>
    lt_indexes t' = map (field_entries (lt_rows t @ [row])) [0..<length (lt_fields t)] \<and>
    in_generation (lt_inspection t') = in_generation (lt_inspection t) + 1"
proof -
  let ?fs = "run (fst (recover fs p)) fs"
  have rec: "snd (recover fs p) = Inr ()" and t: "load_table ?fs p = Inr t"
    using assms(1) by (auto simp: open_table_result)
  obtain cs' where cs': "cs = fst (recover fs p) @ cs'" "insert_row ?fs p row = Some (cs', Inr ())"
    by (rule insert_row_recovered [OF rec assms(2)])
  from recover_ok_quiet [OF rec] t cs'(2) show ?thesis
  proof (cases rule: insert_row_done)
    case (committed ii b t' pages')
    have "open_table (run cs' ?fs) p = ([], Inr t')"
      by (rule committed_open [OF committed(3,8)])
    then show ?thesis
      using committed(9-11) parse_image_table(2) [OF committed(8)] by (simp add: cs'(1))
  qed simp
qed

section \<open>Atomicity under crashes\<close>

text \<open>What opening reports after a crashed operation that was to turn table \<open>t\<close> into \<open>t'\<close>.\<close>

lemma atomic_open:
  assumes "atomic_outcome fs p new fs'" and "parse_image new False = Inr (t', pages)"
    and "snd (open_table fs' p) = Inr u"
  shows "u = t' \<or> fs p \<noteq> None \<and> (\<exists>img pages. fs p = Some img \<and> parse_image img False = Inr (u, pages))"
proof -
  let ?final = "run (fst (recover fs' p)) fs'"
  have r: "snd (recover fs' p) = Inr ()" and u: "load_table ?final p = Inr u"
    using assms(3) by (auto simp: open_table_result)
  have "\<not> wal_pending ?final p" "?final p = fs p \<or> ?final p = Some new"
    using assms(1) r by (auto simp: atomic_outcome_def Let_def split: prod.splits sum.splits)
  then show ?thesis using u assms(2) by (auto simp: load_table_Inr)
qed

lemma atomic_error:
  assumes "atomic_outcome fs p new fs'" and "snd (recover fs' p) = Inl e"
  shows "is_corruption e \<and> fs' p = fs p"
  using assms by (auto simp: atomic_outcome_def Let_def split: prod.splits sum.splits)

end
