(* ===== verification/Table_Select.thy ===== *)
theory Table_Select
  imports Table Storage_Correct
begin

text \<open>
  What selection computes on a table of format v2: the record set of a condition is the set of rows that
  satisfy it, and the printed values are the chosen columns of those rows.
\<close>

section \<open>Operations in sequence\<close>

lemma after_Inr:
  "after fs m k = (cs, Inr y) \<longleftrightarrow>
   (\<exists>ds x es. m = (ds, Inr x) \<and> k x (run ds fs) = (es, Inr y) \<and> cs = ds @ es)"
  by (cases m; cases "snd m") (auto simp: after_def split: prod.splits)

lemma after_Inl:
  "after fs m k = (cs, Inl e) \<longleftrightarrow>
   m = (cs, Inl e) \<or> (\<exists>ds x es. m = (ds, Inr x) \<and> k x (run ds fs) = (es, Inl e) \<and> cs = ds @ es)"
  by (cases m; cases "snd m") (auto simp: after_def split: prod.splits)

lemma pure_op_iff: "pure_op r = (cs, s) \<longleftrightarrow> cs = [] \<and> s = r"
  by (auto simp: pure_op_def)

section \<open>Set operations\<close>

lemma remdups_adj_distinct_sorted: "sorted xs \<Longrightarrow> distinct (remdups_adj (xs :: int list))"
  by (induction xs rule: remdups_adj.induct) (auto simp: antisym)

lemma my_union_facts:
  "set (my_union a b) = set a \<union> set b" "distinct (my_union a b)"
  by (simp_all add: my_union_def remdups_adj_distinct_sorted)

lemma set_intersection_facts:
  "sorted xs \<Longrightarrow> sorted ys \<Longrightarrow>
   set (set_intersection xs ys) = set xs \<inter> set ys \<and> sorted (set_intersection xs ys) \<and>
   (distinct xs \<longrightarrow> distinct (set_intersection xs ys))"
proof (induction xs ys rule: set_intersection.induct)
  case (3 x xs y ys)
  consider "x < y" | "y < x" | "x = y" by fastforce
  then show ?case
  proof cases
    case 1
    then have "x \<notin> set (y # ys)" using 3 by auto
    then show ?thesis using 1 3 by auto
  next
    case 2
    then have "y \<notin> set (x # xs)" using 3 by auto
    then show ?thesis using 2 3 by auto
  next
    case 3
    then show ?thesis using "3.IH"(3) "3.prems" by auto
  qed
qed simp_all

lemma my_intersection_facts:
  "set (my_intersection a b) = set a \<inter> set b" "sorted (my_intersection a b)"
  "distinct a \<Longrightarrow> distinct (my_intersection a b)"
  using set_intersection_facts [of "sort a" "sort b"] by (simp_all add: my_intersection_def)

section \<open>Fields\<close>

lemma number_fields_fold:
  "distinct flds \<Longrightarrow> n \<le> length flds \<Longrightarrow>
   foldl (\<lambda>m i. m(flds ! i \<mapsto> int i)) Map.empty [0..<n] f =
   (if \<exists>i < n. flds ! i = f then Some (int (THE i. i < n \<and> flds ! i = f)) else None)"
proof (induction n)
  case (Suc n)
  have the: "(THE i. i < m \<and> flds ! i = flds ! k) = k" if "k < m" "m \<le> length flds" for m k
    using Suc.prems that by (intro the_equality) (auto simp: nth_eq_iff_index_eq)
  show ?case
  proof (cases "f = flds ! n")
    case True
    then show ?thesis using the [of n "Suc n"] Suc.prems by auto
  next
    case False
    have "(THE i. i < Suc n \<and> flds ! i = f) = (THE i. i < n \<and> flds ! i = f)"
      using False by (metis less_Suc_eq)
    then show ?thesis using Suc False by (auto simp: less_Suc_eq)
  qed
qed simp

lemma number_fields_nth:
  assumes "distinct flds" and "i < length flds"
  shows "number_fields flds (flds ! i) = Some (int i)"
proof -
  have "(THE j. j < length flds \<and> flds ! j = flds ! i) = i"
    using assms by (intro the_equality) (auto simp: nth_eq_iff_index_eq)
  then show ?thesis
    using assms(2) by (auto simp: number_fields_def number_fields_fold [OF assms(1) order.refl])
qed

lemma number_fields_dom:
  assumes "distinct flds"
  shows "dom (number_fields flds) = set flds"
proof -
  have "f \<in> dom (number_fields flds) \<longleftrightarrow> (\<exists>i < length flds. flds ! i = f)" for f
    by (simp add: number_fields_def number_fields_fold [OF assms order.refl] domIff)
  then show ?thesis by (simp add: set_eq_iff in_set_conv_nth)
qed

section \<open>Conditions\<close>

text \<open>A condition on a row of a table.\<close>

definition column_of :: "string list \<Rightarrow> string \<Rightarrow> nat" where
  "column_of flds f = length (takeWhile (\<lambda>g. g \<noteq> f) flds)"

lemma column_of_nth:
  assumes "distinct flds" and "i < length flds"
  shows "column_of flds (flds ! i) = i"
proof -
  have "\<forall>g \<in> set (take i flds). g \<noteq> flds ! i"
    using assms by (auto simp: in_set_conv_nth nth_eq_iff_index_eq)
  then have "takeWhile (\<lambda>g. g \<noteq> flds ! i) (take i flds @ flds ! i # drop (Suc i) flds) = take i flds"
    by (subst takeWhile_append2) auto
  then show ?thesis using assms(2) id_take_nth_drop [of i flds] by (simp add: column_of_def)
qed

fun satisfies :: "string list \<Rightarrow> string list \<Rightarrow> expr \<Rightarrow> bool" where
  "satisfies flds row (Compare f op v) \<longleftrightarrow> compare_with op (row ! column_of flds f) v"
| "satisfies flds row (And a b) \<longleftrightarrow> satisfies flds row a \<and> satisfies flds row b"
| "satisfies flds row (Or a b) \<longleftrightarrow> satisfies flds row a \<or> satisfies flds row b"

fun well_formed :: "string list \<Rightarrow> expr \<Rightarrow> bool" where
  "well_formed flds (Compare f op v) \<longleftrightarrow> f \<in> set flds \<and> op \<in> operators"
| "well_formed flds (And a b) \<longleftrightarrow> well_formed flds a \<and> well_formed flds b"
| "well_formed flds (Or a b) \<longleftrightarrow> well_formed flds a \<and> well_formed flds b"

text \<open>The record numbers of the rows that satisfy a condition.\<close>

definition matching :: "loaded_table \<Rightarrow> expr \<Rightarrow> int set" where
  "matching t e = int ` {r. r < length (lt_rows t) \<and> satisfies (lt_fields t) (lt_rows t ! r) e}"

text \<open>A table object that stands for the database file of its name.\<close>

definition stands_for :: "files \<Rightarrow> table \<Rightarrow> loaded_table \<Rightarrow> bool" where
  "stands_for fs tb t \<longleftrightarrow>
     open_table fs (database_path (tb_tableName tb)) = ([], Inr t) \<and> tb_usesV2Storage tb \<and>
     tb_fieldNameMap tb = number_fields (lt_fields t) \<and> tb_fieldNames tb = lt_fields t \<and>
     tb_storedRows tb = lt_rows t \<and> tb_numRecords tb = int (length (lt_rows t))"

lemma to_longs_ok:
  "\<forall>r \<in> set rs. unat r \<le> LONG_MAX \<Longrightarrow> to_longs rs = Inr (map (\<lambda>r. int (unat r)) rs)"
proof -
  have "foldE (\<lambda>out r. bindE (to_long r) (\<lambda>i. Inr (out @ [i]))) out rs = Inr (out @ map (\<lambda>r. int (unat r)) rs)"
    if "\<forall>r \<in> set rs. unat r \<le> LONG_MAX" for out
    using that by (induction rs arbitrary: out) (simp_all add: to_long_def)
  from this [of "[]"] show "\<forall>r \<in> set rs. unat r \<le> LONG_MAX \<Longrightarrow> to_longs rs = Inr (map (\<lambda>r. int (unat r)) rs)"
    by (simp add: to_longs_def)
qed

lemma load_table_rows:
  assumes "load_table fs p = Inr t"
  shows "length (lt_rows t) \<le> LONG_MAX"
proof -
  have "length (lt_rows t) \<le> ROW_VECTOR_MAX"
    using assms by (auto simp: load_table_Inr parse_image_iff table_pages_def)
  then show ?thesis by (simp add: ROW_VECTOR_MAX_def LONG_MAX_def)
qed

lemma stands_for_loaded:
  assumes "stands_for fs tb t"
  shows "load_table fs (database_path (tb_tableName tb)) = Inr t"
    and "distinct (lt_fields t)" and "\<forall>row \<in> set (lt_rows t). length row = length (lt_fields t)"
proof -
  let ?p = "database_path (tb_tableName tb)"
  have o: "open_table fs ?p = ([], Inr t)" using assms by (simp add: stands_for_def)
  have "fst (recover fs ?p) = []" using o open_table_calls [of fs ?p] by simp
  moreover have "load_table (run (fst (recover fs ?p)) fs) ?p = Inr t" using o open_table_result [of fs ?p t] by simp
  ultimately show l: "load_table fs ?p = Inr t" by (simp add: run_def)
  show "distinct (lt_fields t)" "\<forall>row \<in> set (lt_rows t). length row = length (lt_fields t)"
    using load_table_indexes(3) [OF l] by (auto simp: table_ok_def fields_ok_def row_fits_def)
qed

lemma query_quiet:
  assumes "open_table fs p = ([], Inr t)"
  shows "query_index fs p field op v = ([], select_records t field op v)"
  using assms by (simp add: query_index_def after_def pure_op_def run_def)

section \<open>Evaluation of conditions\<close>

text \<open>A comparison selects the matching rows, once each.\<close>

lemma selectHelp_matching:
  assumes t: "stands_for fs tb t" and f: "f \<in> set (lt_fields t)" and op: "op \<in> operators"
  shows "\<exists>rs. selectHelp fs tb f op v = ([], Inr rs) \<and> distinct rs \<and> set rs = matching t (Compare f op v)"
proof -
  let ?p = "database_path (tb_tableName tb)"
  obtain i where i: "i < length (lt_fields t)" "lt_fields t ! i = f" using f by (auto simp: in_set_conv_nth)
  note loaded = load_table_indexes [OF stands_for_loaded(1) [OF t]]
  define rs where
    "rs = map snd (filter (\<lambda>e. compare_with op (fst e) v) (field_entries (lt_rows t) i))"
  note recs = field_entries_records [OF loaded(2), where P = "\<lambda>k. compare_with op k v" and field = i,
      folded rs_def]
  have num: "tb_fieldNameMap tb f = Some (int i)"
    using t i number_fields_nth [OF stands_for_loaded(2) [OF t] i(1)] by (simp add: stands_for_def)
  have "select_records t i op v = Inr rs"
    using i op loaded(1) by (simp add: select_records_def scan_index_eq rs_def)
  then have q: "query_index fs ?p i op v = ([], Inr rs)" using t by (simp add: query_quiet stands_for_def)
  have row: "unat (word_of_nat r :: u64) = r" if "r < length (lt_rows t)" for r
    using that loaded(2) by (simp add: unat_of_nat)
  have bound: "\<forall>r \<in> set rs. unat r \<le> LONG_MAX"
    using recs(1) row load_table_rows [OF stands_for_loaded(1) [OF t]] by auto
  have "selectHelp fs tb f op v = ([], Inr (map (\<lambda>r. int (unat r)) rs))"
    using t num q to_longs_ok [OF bound] by (simp add: selectHelp_def stands_for_def after_def pure_op_def)
  moreover have "distinct (map (\<lambda>r. int (unat r)) rs)"
    using recs(2) by (auto simp: distinct_map inj_on_def dest: arg_cong [of _ _ "word_of_int :: int \<Rightarrow> u64"])
  moreover have "set (map (\<lambda>r. int (unat r)) rs) = matching t (Compare f op v)"
  proof -
    have "column_of (lt_fields t) f = i"
      using column_of_nth [OF stands_for_loaded(2) [OF t] i(1)] i(2) by simp
    then have "set (map (\<lambda>r. int (unat r)) rs) = (\<lambda>r. int (unat (word_of_nat r :: u64))) `
        {r. r < length (lt_rows t) \<and> compare_with op (lt_rows t ! r ! column_of (lt_fields t) f) v}"
      by (simp only: set_map recs(1) image_image)
    also have "\<dots> = matching t (Compare f op v)"
      unfolding matching_def by (rule image_cong) (use row in \<open>auto simp del: int_nat_eq of_nat_unat\<close>)
    finally show ?thesis .
  qed
  ultimately show ?thesis by blast
qed

lemma eval_postfix:
  assumes t: "stands_for fs tb t"
  shows "well_formed (lt_fields t) e \<Longrightarrow>
    \<exists>rs. distinct rs \<and> set rs = matching t e \<and>
      (\<forall>s indices q. eval_loop tb fs s indices (postfix e @ q) = eval_loop tb fs s (rs # indices) q)"
proof (induction e)
  case (Compare f op v)
  then obtain rs where "selectHelp fs tb f op v = ([], Inr rs)" "distinct rs" "set rs = matching t (Compare f op v)"
    using selectHelp_matching [OF t, of f op v] by auto
  then show ?case by (intro exI [of _ rs]) (simp add: after_def run_def split: prod.splits)
next
  case (And a b)
  then obtain as bs where
    as: "distinct as" "set as = matching t a" "\<And>s indices q. eval_loop tb fs s indices (postfix a @ q) = eval_loop tb fs s (as # indices) q" and
    bs: "distinct bs" "set bs = matching t b" "\<And>s indices q. eval_loop tb fs s indices (postfix b @ q) = eval_loop tb fs s (bs # indices) q"
    by auto
  have "set (my_intersection bs as) = matching t (And a b)"
    using as(2) bs(2) by (auto simp: my_intersection_facts matching_def)
  then show ?case
    using as(3) bs(3) my_intersection_facts(3) [OF bs(1)] by (intro exI [of _ "my_intersection bs as"]) simp
next
  case (Or a b)
  then obtain as bs where
    as: "set as = matching t a" "\<And>s indices q. eval_loop tb fs s indices (postfix a @ q) = eval_loop tb fs s (as # indices) q" and
    bs: "set bs = matching t b" "\<And>s indices q. eval_loop tb fs s indices (postfix b @ q) = eval_loop tb fs s (bs # indices) q"
    by auto
  have "set (my_union bs as) = matching t (Or a b)"
    using as(1) bs(1) by (auto simp: my_union_facts matching_def)
  then show ?case
    using as(2) bs(2) my_union_facts(2) by (intro exI [of _ "my_union bs as"]) simp
qed

lemma Eval_postfix:
  assumes "stands_for fs tb t" and "well_formed (lt_fields t) e"
  shows "\<exists>rs. Eval fs tb (postfix e) = ([], Inr rs) \<and> distinct rs \<and> set rs = matching t e"
proof -
  obtain rs where rs: "distinct rs" "set rs = matching t e"
    "eval_loop tb fs [] [] (postfix e @ []) = eval_loop tb fs [] (rs # []) []"
    using eval_postfix [OF assms] by blast
  then show ?thesis by (intro exI [of _ rs]) (simp add: Eval_def pure_op_def)
qed

section \<open>Printing\<close>

text \<open>The values of the columns \<open>cols\<close> of a row, in schema order.\<close>

definition projected :: "string list \<Rightarrow> string list \<Rightarrow> string list \<Rightarrow> string list" where
  "projected flds cols row = map snd (filter (\<lambda>(f, _). f \<in> set cols) (zip flds row))"

lemma projected_nth:
  assumes "length row = length flds"
  shows "map ((!) row) (filter (\<lambda>i. flds ! i \<in> set cols) [0..<length flds]) = projected flds cols row"
proof -
  have "zip flds row = map (\<lambda>i. (flds ! i, row ! i)) [0..<length flds]"
    using assms by (intro nth_equalityI) simp_all
  then show ?thesis unfolding projected_def by (simp only: filter_map map_map o_def prod.case snd_conv)
qed

lemma print_rows_projected:
  assumes "\<forall>row \<in> set (tb_storedRows tb). length row = length (tb_fieldNames tb)"
    and "set indices \<subseteq> int ` {r. r < length (tb_storedRows tb)}"
  shows "print_rows tb cols indices =
    Inr (concat (map (\<lambda>r. projected (tb_fieldNames tb) cols (tb_storedRows tb ! nat r)) indices))"
proof -
  have "foldE (print_row tb cols) out indices =
      Inr (out @ concat (map (\<lambda>r. projected (tb_fieldNames tb) cols (tb_storedRows tb ! nat r)) indices))" for out
    using assms(2)
  proof (induction indices arbitrary: out)
    case (Cons i indices)
    then obtain r where r: "i = int r" "r < length (tb_storedRows tb)" by auto
    then have "length (tb_storedRows tb ! r) = length (tb_fieldNames tb)" using assms(1) by simp
    then have "print_row tb cols out i = Inr (out @ projected (tb_fieldNames tb) cols (tb_storedRows tb ! r))"
      using r by (simp add: print_row_def Let_def projected_nth [symmetric])
    then show ?case using Cons r(1) by simp
  qed simp
  then show ?thesis by (simp add: print_rows_def)
qed

text \<open>\<open>permutate_fields\<close> puts the chosen columns in schema order.\<close>

lemma permutate_schema_order:
  assumes map: "tb_fieldNameMap tb = number_fields flds" and d: "distinct flds"
    and cols: "set cols \<subseteq> set flds"
  shows "set (permutate_fields tb cols) = set cols"
    and "distinct cols \<Longrightarrow> permutate_fields tb cols = filter (\<lambda>f. f \<in> set cols) flds"
proof -
  define key where "key f = (case tb_fieldNameMap tb f of None \<Rightarrow> 0 | Some i \<Rightarrow> i)" for f
  define pair where "pair f = (f, key f)" for f
  have key: "key (flds ! i) = int i" if "i < length flds" for i
    using number_fields_nth [OF d that] by (simp add: key_def map)
  have inv: "filter (\<lambda>i. cols ! i \<notin> dom (tb_fieldNameMap tb)) [0..<length cols] = []"
    using cols by (auto simp: filter_empty_conv map number_fields_dom [OF d])
  have "zip cols (map key cols) = map pair cols" unfolding pair_def by (induction cols) auto
  then have p: "permutate_fields tb cols = map fst (sort_key snd (map pair cols))"
    using inv by (simp add: permutate_fields_def my_sort_def Let_def flip: key_def)
  show "set (permutate_fields tb cols) = set cols" unfolding p by (force simp: pair_def)
  assume "distinct cols"
  then have m: "mset cols = mset (filter (\<lambda>f. f \<in> set cols) flds)"
    using d cols by (intro set_eq_iff_mset_eq_distinct [THEN iffD1]) auto
  have inj: "inj_on snd (set (map pair cols))"
  proof (rule inj_onI)
    fix x y assume xy: "x \<in> set (map pair cols)" "y \<in> set (map pair cols)" "snd x = snd y"
    then obtain f g where fg: "x = pair f" "y = pair g" "f \<in> set flds" "g \<in> set flds" using cols by auto
    then obtain i j where "f = flds ! i" "i < length flds" "g = flds ! j" "j < length flds"
      by (auto simp: in_set_conv_nth)
    then show "x = y" using xy(3) key fg by (simp add: pair_def)
  qed
  have "sorted (map key flds)"
    using key by (auto simp: sorted_iff_nth_mono_less)
  then have "sorted (map snd (map pair (filter (\<lambda>f. f \<in> set cols) flds)))"
    by (simp add: o_def pair_def sorted_filter)
  from sort_key_inj_key_eq [OF _ inj this] m
  have "sort_key snd (map pair cols) = map pair (filter (\<lambda>f. f \<in> set cols) flds)"
    by simp
  then show "permutate_fields tb cols = filter (\<lambda>f. f \<in> set cols) flds"
    unfolding p by (simp add: o_def pair_def)
qed

section \<open>Selection\<close>

text \<open>The projections that \<open>validate_projection\<close> admits, and the columns they show.\<close>

definition projection_ok :: "string list \<Rightarrow> string list \<Rightarrow> bool" where
  "projection_ok flds cols \<longleftrightarrow> cols = [] \<or> cols = [''*''] \<or> set cols \<subseteq> set flds"

lemma validate_projection_iff:
  assumes "stands_for fs tb t"
  shows "validate_projection tb cols = Inr () \<longleftrightarrow> projection_ok (lt_fields t) cols"
proof -
  have "dom (tb_fieldNameMap tb) = set (lt_fields t)"
    using assms number_fields_dom [OF stands_for_loaded(2) [OF assms]] by (simp add: stands_for_def)
  then have "foldE (\<lambda>_ f. throw_if (f \<notin> dom (tb_fieldNameMap tb))
      (Invalid_Argument (''Unknown selected field: '' @ f))) () cols = Inr () \<longleftrightarrow> set cols \<subseteq> set (lt_fields t)"
    by (induction cols) (auto simp: bindE_eq_Inr throw_if_eq_Inr)
  then show ?thesis by (simp add: validate_projection_def projection_ok_def)
qed

lemma shown_fields_known:
  assumes "stands_for fs tb t" and "projection_ok (lt_fields t) cols"
  shows "set (shown_fields tb cols) \<subseteq> set (lt_fields t)"
  using assms by (auto simp: shown_fields_def stands_for_def projection_ok_def)

lemma matching_bound: "matching t e \<subseteq> int ` {r. r < length (lt_rows t)}"
  by (auto simp: matching_def)

text \<open>The part of \<open>select\<close> behind the evaluation.\<close>

lemma select_postfix_rows:
  assumes t: "stands_for fs tb t" and cols: "projection_ok (lt_fields t) cols"
    and rs: "(if queue \<noteq> [] then Eval fs tb queue else pure_op (Inr (map int [0..<nat (tb_numRecords tb)]))) =
      ([], Inr rs)" and bound: "set rs \<subseteq> int ` {r. r < length (lt_rows t)}"
  shows "\<exists>this tb'. select_postfix fs tb cols queue = ([], Inr (this, tb')) \<and> tb_tableName tb' = tb_tableName tb \<and>
    tb_recordIndices tb' = rs \<and> tb_selectedFields tb' = shown_fields tb cols \<and>
    tb_fieldNames tb' = permutate_fields tb (shown_fields tb cols) \<and>
    tb_printQueue tb' =
      concat (map (\<lambda>r. projected (lt_fields t) (shown_fields tb cols) (lt_rows t ! nat r)) rs)"
proof -
  let ?shown = "shown_fields tb cols"
  let ?cols = "permutate_fields tb ?shown"
  have v: "validate_projection tb cols = Inr ()" using validate_projection_iff [OF t] cols by simp
  have "set ?cols = set ?shown"
    using t shown_fields_known [OF t cols] stands_for_loaded(2) [OF t]
    by (intro permutate_schema_order(1)) (auto simp: stands_for_def)
  then have same: "projected flds ?cols row = projected flds ?shown row" for flds row
    by (simp add: projected_def)
  have "print_rows tb ?cols rs = Inr (concat (map (\<lambda>r. projected (lt_fields t) ?shown (lt_rows t ! nat r)) rs))"
    using print_rows_projected [of tb rs ?cols] t stands_for_loaded(3) [OF t] bound
    by (simp add: stands_for_def same)
  then show ?thesis
    using v rs by (simp add: select_postfix_def Let_def after_def pure_op_def)
qed

text \<open>
  Selection with a condition in infix form: the record numbers are those of the rows that satisfy the
  condition, once each, and the printed values are the shown columns of these rows.
\<close>

lemma select_matching:
  assumes t: "stands_for fs tb t" and cols: "projection_ok (lt_fields t) cols"
    and e: "infix_disj e (allocate_tokens_memory expression)" "well_formed (lt_fields t) e"
  shows "\<exists>this tb'. select_expression fs tb cols expression = ([], Inr (this, tb')) \<and> tb_tableName tb' = tb_tableName tb \<and>
    distinct (tb_recordIndices tb') \<and> set (tb_recordIndices tb') = matching t e \<and>
    tb_selectedFields tb' = shown_fields tb cols \<and>
    tb_fieldNames tb' = permutate_fields tb (shown_fields tb cols) \<and>
    tb_printQueue tb' = concat (map (\<lambda>r. projected (lt_fields t) (shown_fields tb cols) (lt_rows t ! nat r))
      (tb_recordIndices tb'))"
proof -
  obtain rs where rs: "Eval fs tb (postfix e) = ([], Inr rs)" "distinct rs" "set rs = matching t e"
    using Eval_postfix [OF t e(2)] by blast
  have "postfix e \<noteq> []" by (cases e) auto
  then show ?thesis
    using select_postfix_rows [OF t cols, of "postfix e" rs] rs matching_bound shunting_yard_infix [OF e(1)]
    by (auto simp: select_expression_def)
qed

text \<open>Selection without a condition: every row.\<close>

lemma select_all:
  assumes t: "stands_for fs tb t" and cols: "projection_ok (lt_fields t) cols"
  shows "\<exists>this tb'. select_expression fs tb cols [] = ([], Inr (this, tb')) \<and> tb_tableName tb' = tb_tableName tb \<and>
    tb_recordIndices tb' = map int [0..<length (lt_rows t)] \<and>
    tb_selectedFields tb' = shown_fields tb cols \<and>
    tb_fieldNames tb' = permutate_fields tb (shown_fields tb cols) \<and>
    tb_printQueue tb' = concat (map (projected (lt_fields t) (shown_fields tb cols)) (lt_rows t))"
proof -
  let ?all = "map int [0..<length (lt_rows t)]"
  have "(if [] \<noteq> ([] :: token list) then Eval fs tb [] else pure_op (Inr (map int [0..<nat (tb_numRecords tb)]))) =
      ([], Inr ?all)"
    using t by (simp add: stands_for_def pure_op_def)
  moreover have "set ?all \<subseteq> int ` {r. r < length (lt_rows t)}" by auto
  moreover have "map (\<lambda>r. f (lt_rows t ! nat r)) ?all = map f (lt_rows t)" for f :: "string list \<Rightarrow> string list"
    by (intro nth_equalityI) simp_all
  ultimately show ?thesis
    using select_postfix_rows [OF t cols, of "[]" ?all]
    by (simp add: select_expression_def allocate_tokens_memory_def shunting_yard_def)
qed

section \<open>Table objects and database files\<close>

lemma read_rows_v1: "read_rows bs n i tb = Inr tb' \<Longrightarrow> tb_usesV2Storage tb' = tb_usesV2Storage tb"
  by (induction bs n i tb rule: read_rows.induct)
    (subst (asm) (2) read_rows.simps, fastforce simp: bindE_eq_Inr split: if_splits prod.splits)

lemma table_v1_uses: "table_v1 fs name = Inr tb \<Longrightarrow> \<not> tb_usesV2Storage tb"
  by (auto simp: table_v1_def bindE_eq_Inr empty_table_def split: option.splits dest!: read_rows_v1)

lemma Table_open_stands_for:
  assumes "tb_usesV2Storage tb" and "Table_open fs name = (cs, Inr tb)"
  shows "\<exists>t. open_table fs (database_path name) = (cs, Inr t) \<and> stands_for (run cs fs) tb t \<and>
    tb_tableName tb = name \<and> tb_selectedFields tb = lt_fields t"
proof -
  let ?p = "database_path name"
  obtain t where t: "open_table fs ?p = (cs, Inr t)" "table_v2 name t = Inr tb"
    using assms by (auto simp: Table_open_def Let_def after_Inr pure_op_iff split: if_splits dest!: table_v1_uses [OF sym])
  have "fst (recover fs ?p) = cs" "snd (recover fs ?p) = Inr ()" and l: "load_table (run cs fs) ?p = Inr t"
    using t(1) open_table_calls [of fs ?p] open_table_result [of fs ?p t] by auto
  then have "open_table (run cs fs) ?p = ([], Inr t)"
    using recover_ok_quiet [of fs ?p] open_table_quiet [of "run cs fs" ?p] by auto
  then have "stands_for (run cs fs) tb t" "tb_tableName tb = name" "tb_selectedFields tb = lt_fields t"
    using t(2) by (auto simp: table_v2_def stands_for_def split: if_splits)
  then show ?thesis using t(1) by blast
qed

lemma field_set_iff:
  "foldE field_set seen flds = Inr seen' \<longleftrightarrow>
   distinct flds \<and> set flds \<inter> seen = {} \<and> seen' = set flds \<union> seen \<and>
   (\<forall>f \<in> set flds. f \<noteq> [] \<and> length f \<le> SLOT_SIZE)"
  by (induction flds arbitrary: seen) (auto simp: bindE_eq_Inr field_set_def split: if_splits)

lemma create_checks:
  "foldE field_set {} flds = Inr seen \<and> flds \<noteq> [] \<and> length flds \<le> MAX_FIELDS \<Longrightarrow> fields_ok flds"
  by (auto simp: field_set_iff fields_ok_def SLOT_SIZE_def MAX_VALUE_LENGTH_def)

lemma Table_create_stands_for:
  assumes fresh: "\<not> file_exists fs (table_file name)" "\<not> file_exists fs (field_file name)"
      "\<not> file_exists fs (database_path name)" "\<not> wal_pending fs (database_path name)"
    and ok: "fields_ok flds"
  shows "\<exists>cs tb t. Table_create fs name flds = (cs, Inr tb) \<and> stands_for (run cs fs) tb t \<and>
    tb_tableName tb = name \<and> lt_fields t = flds \<and> lt_rows t = [] \<and>
    others_same (database_path name) fs (run cs fs)"
proof -
  let ?p = "database_path name"
  have "table_ok flds []" using ok by (simp add: table_ok_def)
  moreover have "image_fits flds []" by (simp add: image_fits_def MAX_PAGES_def)
  ultimately obtain cs t where c: "create_from_rows fs ?p flds [] = (cs, Inr ())"
    "open_table (run cs fs) ?p = ([], Inr t)" "lt_fields t = flds" "lt_rows t = []"
    "others_same ?p fs (run cs fs)"
    using create_open [OF fresh(3,4)] by blast
  have "foldE field_set {} flds = Inr (set flds)"
    using ok by (auto simp: field_set_iff fields_ok_def SLOT_SIZE_def MAX_VALUE_LENGTH_def)
  then have "Table_create fs name flds = (cs, Inr (empty_table\<lparr>tb_tableName := name, tb_fieldNames := flds,
      tb_selectedFields := flds, tb_usesV2Storage := True, tb_fieldNameMap := number_fields flds,
      tb_cache := empty_cache flds\<rparr>))"
    using fresh ok c(1)
    by (simp add: Table_create_def Let_def create_table_def after_def pure_op_def fields_ok_def MAX_FIELDS_def)
  then show ?thesis
    using c by (intro exI conjI) (auto simp: stands_for_def empty_table_def)
qed

text \<open>A successful insertion keeps the object and the file in step, and adds one row to both.\<close>

lemma insert_into_stands_for:
  assumes t: "stands_for fs tb t" and ins: "insert_into fs tb vals = Some (cs, Inr tb')"
  shows "\<exists>t'. stands_for (run cs fs) tb' t' \<and> lt_fields t' = lt_fields t \<and> lt_rows t' = lt_rows t @ [vals]"
proof -
  let ?p = "database_path (tb_tableName tb)"
  have "snd (open_table fs ?p) = Inr t" using t by (simp add: stands_for_def)
  moreover have i: "insert_row fs ?p vals = Some (cs, Inr ())"
    and tb': "tb' = tb\<lparr>tb_cache := cache_row (tb_fieldNames tb) vals (tb_numRecords tb) (tb_cache tb),
      tb_recordIndices := tb_recordIndices tb @ [tb_numRecords tb], tb_printQueue := tb_printQueue tb @ vals,
      tb_storedRows := tb_storedRows tb @ [vals], tb_numRecords := tb_numRecords tb + 1\<rparr>"
    using ins by (auto simp: insert_into_def after_Inr pure_op_iff split: if_splits)
  ultimately obtain t' where "open_table (run cs fs) ?p = ([], Inr t')" "lt_fields t' = lt_fields t"
    "lt_rows t' = lt_rows t @ [vals]"
    using insert_open by blast
  then show ?thesis using t tb' by (intro exI [of _ t']) (auto simp: stands_for_def)
qed

section \<open>System calls\<close>

text \<open>Selection from a table without a pending log issues no system call.\<close>

lemma fst_after: "fst m = [] \<Longrightarrow> (\<And>x. fst (k x fs) = []) \<Longrightarrow> fst (after fs m k) = []"
  by (auto simp: after_def run_def split: prod.splits sum.splits) (metis fst_conv)

lemma fst_pure_op [simp]: "fst (pure_op r) = []"
  by (simp add: pure_op_def)

definition log_settled :: "files \<Rightarrow> table \<Rightarrow> bool" where
  "log_settled fs tb \<longleftrightarrow> (tb_usesV2Storage tb \<longrightarrow> \<not> wal_pending fs (database_path (tb_tableName tb)))"

lemma selectHelp_calls:
  assumes "log_settled fs tb"
  shows "fst (selectHelp fs tb f op v) = []"
  using assms
  by (auto simp: log_settled_def selectHelp_def query_index_def open_table_quiet split: option.splits intro!: fst_after)

lemma eval_loop_calls:
  assumes "log_settled fs tb"
  shows "fst (eval_loop tb fs s indices q) = []"
proof (induction q arbitrary: s indices)
  case (Cons token q)
  have "fst (after fs (selectHelp fs tb f op v) (\<lambda>selected fs. eval_loop tb fs s' (selected # indices) q)) = []"
    for f op v s'
    by (rule fst_after) (simp_all add: selectHelp_calls [OF assms] Cons)
  then show ?case using Cons by (auto split: token.splits list.splits simp: Let_def)
qed simp

lemma select_expression_calls:
  assumes "log_settled fs tb"
  shows "fst (select_expression fs tb cols expression) = []"
  by (auto simp: select_expression_def select_postfix_def Let_def Eval_def eval_loop_calls [OF assms]
      split: prod.splits sum.splits intro!: fst_after)

text \<open>Opening writes what recovery writes, and nothing when recovery refuses the log.\<close>

definition recovery_calls :: "files \<Rightarrow> path \<Rightarrow> syscall list \<Rightarrow> bool" where
  "recovery_calls fs p cs \<longleftrightarrow> cs = [] \<or> snd (recover fs p) = Inr () \<and> cs = fst (recover fs p)"

lemma Table_open_calls:
  assumes "Table_open fs name = (cs, r)"
  shows "recovery_calls fs (database_path name) cs"
    and "r = Inr tb \<Longrightarrow> log_settled (run cs fs) tb"
proof -
  let ?p = "database_path name"
  consider (v2) "(cs, r) = after fs (open_table fs ?p) (\<lambda>loaded fs. pure_op (table_v2 name loaded))"
    | (v1) "cs = []" "r = table_v1 fs name" | (missing) e where "cs = []" "r = Inl e"
    using assms by (auto simp: Table_open_def Let_def pure_op_def split: if_splits)
  then have "recovery_calls fs ?p cs \<and> (r = Inr tb \<longrightarrow> log_settled (run cs fs) tb)"
  proof cases
    case v2
    then have cs: "cs = fst (recover fs ?p)"
      by (auto simp: after_def pure_op_def simp flip: open_table_calls split: prod.splits sum.splits)
    show ?thesis
    proof (cases "snd (recover fs ?p)")
      case (Inl e)
      then have "cs = []" "r = Inl e" using recover_error [of fs ?p e] cs v2
        by (auto simp: after_def open_table_def split: prod.splits)
      then show ?thesis by (simp add: recovery_calls_def)
    next
      case (Inr u)
      then have "snd (recover fs ?p) = Inr ()" by simp
      moreover have "tb_tableName tb = name" if "r = Inr tb"
        using v2 that by (auto simp: after_def pure_op_def table_v2_def split: prod.splits sum.splits if_splits)
      ultimately show ?thesis
        using cs recover_ok_quiet [of fs ?p] by (simp add: recovery_calls_def log_settled_def)
    qed
  qed (auto simp: recovery_calls_def log_settled_def dest: table_v1_uses)
  then show "recovery_calls fs ?p cs" "r = Inr tb \<Longrightarrow> log_settled (run cs fs) tb" by blast+
qed

end
