(* ===== verification/Sql.thy ===== *)
theory Sql
  imports Parser_Language Table_Select
begin

text \<open>
  The SQL object of \<open>sql.cpp\<close>: one command is parsed and dispatched to the table class, exceptions become
  an error state; batches of commands, and the interactive program of \<open>run_sql.cpp\<close>. \<open>None\<close> stands for
  an operation that does not return, reads outside a vector or fails an assertion.
\<close>

section \<open>Identifiers\<close>

text \<open>\<open>std::isalpha\<close> and \<open>std::isalnum\<close> in the C locale, which the program never changes.\<close>

definition isalpha :: "char \<Rightarrow> bool" where
  "isalpha c \<longleftrightarrow> (let n = of_char c :: nat in 65 \<le> n \<and> n \<le> 90 \<or> 97 \<le> n \<and> n \<le> 122)"

definition isalnum :: "char \<Rightarrow> bool" where
  "isalnum c \<longleftrightarrow> isalpha c \<or> (let n = of_char c :: nat in 48 \<le> n \<and> n \<le> 57)"

definition is_identifier :: "string \<Rightarrow> bool" where
  "is_identifier v \<longleftrightarrow>
     v \<noteq> [] \<and> (isalpha (hd v) \<or> hd v = CHR ''_'') \<and> list_all (\<lambda>c. isalnum c \<or> c = CHR ''_'') v"

definition require_identifier :: "string \<Rightarrow> string \<Rightarrow> unit res" where
  "require_identifier v label =
     throw_if (\<not> is_identifier v) (Invalid_Argument (label @ '' must be a valid identifier''))"

section \<open>Commands\<close>

record sql =
  sq_table :: table
  sq_parser :: parser
  sq_error :: bool
  sq_last_error :: string
  sq_ptree :: parse_tree

definition fresh_sql :: sql where
  "fresh_sql = \<lparr>sq_table = empty_table, sq_parser = fresh_parser, sq_error = False, sq_last_error = [],
     sq_ptree = Map.empty\<rparr>"

text \<open>\<open>parsed_tree[key]\<close>, and \<open>parsed_tree[key][0]\<close>.\<close>

definition texts_at :: "string \<Rightarrow> parse_tree \<Rightarrow> string list" where
  "texts_at key tree = fst (mmap_at key tree)"

definition first_text :: "string \<Rightarrow> parse_tree \<Rightarrow> string option" where
  "first_text key tree = (case texts_at key tree of [] \<Rightarrow> None | x # _ \<Rightarrow> Some x)"

definition execute_create :: "files \<Rightarrow> string \<Rightarrow> parse_tree \<Rightarrow> table operation" where
  "execute_create fs name tree =
     (case foldE (\<lambda>_ field. require_identifier field ''Field name'') () (texts_at ''fields'' tree) of
        Inl e \<Rightarrow> throw e
      | Inr _ \<Rightarrow> Table_create fs name (texts_at ''fields'' tree))"

definition execute_insert :: "files \<Rightarrow> string \<Rightarrow> parse_tree \<Rightarrow> table operation option" where
  "execute_insert fs name tree =
     (case Table_open fs name of (cs, r) \<Rightarrow>
        (case r of
           Inl e \<Rightarrow> Some (cs, Inl e)
         | Inr tb \<Rightarrow>
             map_option (\<lambda>(ds, s). (cs @ ds, s)) (insert_into (run cs fs) tb (texts_at ''values'' tree))))"

definition execute_select :: "files \<Rightarrow> string \<Rightarrow> parse_tree \<Rightarrow> table operation option" where
  "execute_select fs name tree =
     (let selected = texts_at ''fields'' tree in
      case Table_open fs name of (cs, r) \<Rightarrow>
        (case r of
           Inl e \<Rightarrow> Some (cs, Inl e)
         | Inr tb \<Rightarrow>
             if selected = [] then None
             else
               Some (after fs (cs, Inr tb) (\<lambda>tb fs.
                 after fs
                   (select_expression fs tb (if hd selected = ''*'' then tb_selectedFields tb else selected)
                     (if ''where'' \<in> dom tree then texts_at ''condition'' tree else []))
                   (\<lambda>(_, selection) _. pure_op (Inr selection))))))"

definition execute :: "files \<Rightarrow> parse_tree \<Rightarrow> table operation option" where
  "execute fs tree =
     (if dom tree = {} then Some (throw (Invalid_Argument ''Invalid command syntax''))
      else
        Option.bind (first_text ''table_name'' tree) (\<lambda>table_name.
        Option.bind (first_text ''command'' tree) (\<lambda>command_name.
        case require_identifier table_name ''Table name'' of
          Inl e \<Rightarrow> Some (throw e)
        | Inr _ \<Rightarrow>
            if command_name = ''create'' then Some (execute_create fs table_name tree)
            else if command_name = ''insert'' then execute_insert fs table_name tree
            else if command_name = ''select'' then execute_select fs table_name tree
            else Some (throw (Invalid_Argument ''Unsupported command'')))))"

text \<open>The state after a command: the table it returns is \<open>sq_table\<close>.\<close>

definition finish :: "sql \<Rightarrow> table res \<Rightarrow> sql" where
  "finish s r =
     (case r of
        Inl e \<Rightarrow> s\<lparr>sq_error := True, sq_last_error := what e, sq_table := empty_table\<rparr>
      | Inr tb \<Rightarrow> s\<lparr>sq_error := False, sq_last_error := [], sq_table := tb\<rparr>)"

definition command :: "files \<Rightarrow> sql \<Rightarrow> string \<Rightarrow> (syscall list \<times> sql) option" where
  "command fs s cmd =
     Option.bind (parse_command cmd (sq_parser s)) (\<lambda>(tree, ps).
     map_option (\<lambda>(cs, r). (cs, finish (s\<lparr>sq_parser := ps, sq_ptree := tree\<rparr>) r)) (execute fs tree))"

section \<open>Batches\<close>

text \<open>The lines that \<open>getline\<close> reads: a final line without a newline counts, an empty one does not.\<close>

fun getlines :: "string \<Rightarrow> string \<Rightarrow> string list" where
  "getlines line [] = (if line = [] then [] else [line])"
| "getlines line (c # cs) =
     (if [c] = newline then line # getlines [] cs else getlines (line @ [c]) cs)"

definition show_vector :: "string list \<Rightarrow> string" where
  "show_vector vec = concat (map (\<lambda>x. x @ '' '') vec) @ newline"

definition show_recnos :: "table \<Rightarrow> string" where
  "show_recnos tb = show_vector (map (\<lambda>i. if i < 0 then ''-'' @ to_string (nat (- i)) else to_string (nat i))
     (tb_recordIndices tb))"

text \<open>What \<open>batch\<close> prints for one command.\<close>

definition batch_report :: "string \<Rightarrow> sql \<Rightarrow> string" where
  "batch_report str s =
     ''command:'' @ str @ newline @
     (if sq_error s then ''Error: '' @ sq_last_error s @ newline @ newline
      else show_table (sq_table s) @ newline @
        ''records selected: '' @ show_recnos (sq_table s) @ newline @ newline)"

fun batch_lines :: "files \<Rightarrow> sql \<Rightarrow> string list \<Rightarrow> (syscall list \<times> string \<times> sql) option" where
  "batch_lines fs s [] = Some ([], [], s)"
| "batch_lines fs s (str # rest) =
     (if str \<noteq> [] \<and> hd str \<noteq> CHR ''/'' then
        Option.bind (command fs s str) (\<lambda>(cs, s).
        map_option (\<lambda>(ds, out, s'). (cs @ ds, batch_report str s @ out, s'))
          (batch_lines (run cs fs) s rest))
      else batch_lines fs s rest)"

definition dashes :: string where "dashes = replicate 30 (CHR ''-'')"

text \<open>The batch file is read as it is at the start; it is not one of the files the commands write.\<close>

definition batch :: "files \<Rightarrow> sql \<Rightarrow> path \<Rightarrow> (syscall list \<times> string \<times> sql) option" where
  "batch fs s file =
     (case fs file of
        None \<Rightarrow> Some ([], ''No file named '' @ file @ '' exists.'' @ newline,
          s\<lparr>sq_error := True, sq_last_error := ''Batch file does not exist: '' @ file\<rparr>)
      | Some bytes \<Rightarrow>
          map_option (\<lambda>(cs, out, s). (cs, dashes @ ''Batch Begins'' @ dashes @ newline @ out @
              dashes @ ''DONE'' @ dashes @ newline, s))
            (batch_lines fs (s\<lparr>sq_error := False, sq_last_error := []\<rparr>)
              (getlines [] (map char_of_byte bytes))))"

section \<open>The interactive program\<close>

definition interactive_report :: "sql \<Rightarrow> string" where
  "interactive_report s =
     (if sq_error s then ''Error: '' @ sq_last_error s @ newline
      else if tb_selectedFields (sq_table s) = [] then ''Empty table.'' @ newline
      else ''Selected fields: '' @ show_vector (tb_selectedFields (sq_table s)) @
        show_table (sq_table s) @ newline @
        ''Record count: '' @ show_recnos (sq_table s) @ newline @ replicate 121 (CHR ''-'') @ newline)"

definition clear_screen :: string where
  "clear_screen = (char_of (27 :: nat) # ''[2J'') @ (char_of (27 :: nat) # ''[H'')"

definition prompt :: string where "prompt = ''SQL>> ''"

text \<open>
  The loop of \<open>main\<close> on the lines of the standard input. At the end of the input \<open>getline\<close> leaves the
  fresh string empty, and the loop goes round again.
\<close>

partial_function (option) repl ::
  "files \<Rightarrow> sql \<Rightarrow> string list \<Rightarrow> (syscall list \<times> string \<times> sql) option" where
  "repl fs s inputs =
     (case inputs of
        [] \<Rightarrow> Option.bind (repl fs s []) (\<lambda>(ds, out, s'). Some (ds, prompt @ out, s'))
      | input # rest \<Rightarrow>
          if input = [] then
            Option.bind (repl fs s rest) (\<lambda>(ds, out, s'). Some (ds, prompt @ out, s'))
          else if input = ''cls'' then
            Option.bind (repl fs s rest) (\<lambda>(ds, out, s'). Some (ds, prompt @ clear_screen @ out, s'))
          else if input = ''end'' then Some ([], prompt @ ''DONE'' @ newline, s)
          else
            Option.bind (command fs s input) (\<lambda>(cs, s).
            Option.bind (repl (run cs fs) s rest) (\<lambda>(ds, out, s').
            Some (cs @ ds, prompt @ interactive_report s @ out, s'))))"

definition instructions :: string where
  "instructions = ''Commands: '' @ newline @
     ''Type '' @ double_quote @ ''end'' @ double_quote @ '' to end.'' @ newline @
     ''Type '' @ double_quote @ ''cls'' @ double_quote @ '' to clear the screen.'' @ newline"

text \<open>
  \<open>main\<close> on the arguments behind the program name: system calls, standard output, standard error and
  exit code. The version text comes from a generated file and is a parameter.
\<close>

definition run_sql :: "string \<Rightarrow> files \<Rightarrow> string list \<Rightarrow> string list \<Rightarrow>
    (syscall list \<times> string \<times> string \<times> nat) option" where
  "run_sql version fs arguments inputs =
     (if arguments = [''--version'']
      then Some ([], ''SQL in C++ '' @ version @ '' (storage format '' @ to_string (unat FORMAT_VERSION) @ '')'' @ newline, [], 0)
      else if length arguments = 2 \<and> hd arguments = ''--inspect-storage'' then
        (case describe fs (database_path (arguments ! 1)) of
           Inl e \<Rightarrow> Some ([], [], ''Error: '' @ what e @ newline, 1)
         | Inr txt \<Rightarrow> Some ([], txt, [], 0))
      else if arguments \<noteq> []
      then Some ([], [], ''Usage: run_sql [--version | --inspect-storage <table>]'' @ newline, 2)
      else map_option (\<lambda>(cs, out, _). (cs, instructions @ out, [], 0)) (repl fs fresh_sql inputs))"

section \<open>Commands that are statements\<close>

text \<open>Printing a statement and giving it to the parser yields its tree, whatever state the parser is in.\<close>

lemma parse_printed:
  assumes "complete stmt" "\<forall>l \<in> set (statement_lexemes stmt). printable l"
  shows "\<exists>ps'. parse_command (print_sql stmt) ps = Some (statement_tree stmt, ps')"
proof -
  have tree: "sql_tree (print_sql stmt) = Some (statement_tree stmt)" by (rule sql_tree_print [OF assms])
  have "CREATE \<notin> set (tl (map snd ts))" if ts: "scan False [] (Tokenizer.lex (c_str (print_sql stmt))) = Some ts" for ts
  proof -
    obtain stmt' where "map lexeme ts = statement_lexemes stmt'"
      using tree ts by (auto simp: sql_tree_iff)
    then have "map snd ts = map snd (statement_lexemes stmt')"
      by (metis (no_types, lifting) lexeme_Pair list.map_comp map_cong comp_apply prod.collapse snd_conv)
    then show ?thesis using statement_types by simp
  qed
  from parse_command_tree [of "print_sql stmt" ps, OF this] tree
  have "map_option fst (parse_command (print_sql stmt) ps) = Some (statement_tree stmt)" by simp
  then show ?thesis by (cases "parse_command (print_sql stmt) ps") auto
qed

text \<open>A printed statement runs as its tree.\<close>

lemma command_printed:
  assumes "complete stmt" "\<forall>l \<in> set (statement_lexemes stmt). printable l"
    and "execute fs (statement_tree stmt) = Some (cs, r)"
  shows "\<exists>ps'. command fs s (print_sql stmt) =
    Some (cs, finish (s\<lparr>sq_parser := ps', sq_ptree := statement_tree stmt\<rparr>) r)"
  using parse_printed [OF assms(1,2), of "sq_parser s"] assms(3) by (auto simp: command_def)

lemma identifier_printable: "is_identifier x \<Longrightarrow> printable (x, LITERAL)"
proof -
  assume x: "is_identifier x"
  have "CHR 0x00 \<notin> set x" "CHR 0x22 \<notin> set x"
    using x by (auto simp: is_identifier_def list_all_iff isalnum_def isalpha_def)
  then show ?thesis by (simp add: printable_def lexeme_ok_def)
qed

lemma comma_list_printable: "(\<forall>x \<in> set xs. printable (x, LITERAL)) \<Longrightarrow> l \<in> set (comma_list xs) \<Longrightarrow> printable l"
  by (cases xs) (auto simp: comma_tail_def printable_def lexeme_ok_def split: if_splits)

lemma statement_printable:
  "printable (name, LITERAL) \<Longrightarrow> \<forall>x \<in> set flds. printable (x, LITERAL) \<Longrightarrow>
   \<forall>l \<in> set (statement_lexemes (Create_Table name flds)). printable l"
  "printable (name, LITERAL) \<Longrightarrow> \<forall>x \<in> set vals. printable (x, LITERAL) \<Longrightarrow>
   \<forall>l \<in> set (statement_lexemes (Insert_Into name vals)). printable l"
  by (auto simp: printable_def [of "(_, CREATE)"] printable_def [of "(_, TABLE)"] printable_def [of "(_, FIELDS)"]
      printable_def [of "(_, INSERT)"] printable_def [of "(_, INTO)"] printable_def [of "(_, VALUES)"]
      lexeme_ok_def intro: comma_list_printable)

lemma require_ok [simp]: "is_identifier v \<Longrightarrow> require_identifier v label = Inr ()"
  by (simp add: require_identifier_def)

lemma tree_texts [simp]:
  "tree k = Some xs \<Longrightarrow> texts_at k tree = xs"
  "tree k = Some (x # xs) \<Longrightarrow> first_text k tree = Some x"
  by (simp_all add: texts_at_def first_text_def mmap_at_def)

section \<open>The commands end to end\<close>

lemma not_star: "is_identifier f \<Longrightarrow> f \<noteq> ''*''"
  by (auto simp: is_identifier_def isalpha_def)

lemma command_create_runs:
  assumes c: "Table_create fs name flds = (cs, Inr tb)"
    and names: "is_identifier name" "\<forall>f \<in> set flds. is_identifier f" "flds \<noteq> []"
  shows "\<exists>s'. command fs s (print_sql (Create_Table name flds)) = Some (cs, s') \<and> \<not> sq_error s' \<and>
    sq_table s' = tb"
proof -
  have "foldE (\<lambda>_ field. require_identifier field ''Field name'') () flds = Inr ()"
    using names(2) by (induction flds) simp_all
  then have "execute fs (statement_tree (Create_Table name flds)) = Some (cs, Inr tb)"
    using c names(1) by (simp add: execute_def execute_create_def)
  from command_printed [OF _ statement_printable(1) this, of s] names
  obtain ps' where "command fs s (print_sql (Create_Table name flds)) =
      Some (cs, finish (s\<lparr>sq_parser := ps', sq_ptree := statement_tree (Create_Table name flds)\<rparr>) (Inr tb))"
    by (auto simp: identifier_printable)
  then show ?thesis by (simp add: finish_def)
qed

lemma command_create:
  assumes fresh: "\<not> file_exists fs (table_file name)" "\<not> file_exists fs (field_file name)"
      "\<not> file_exists fs (database_path name)" "\<not> wal_pending fs (database_path name)"
    and names: "is_identifier name" "\<forall>f \<in> set flds. is_identifier f" "fields_ok flds"
  shows "\<exists>cs s' t. command fs s (print_sql (Create_Table name flds)) = Some (cs, s') \<and> \<not> sq_error s' \<and>
    stands_for (run cs fs) (sq_table s') t \<and> tb_tableName (sq_table s') = name \<and>
    lt_fields t = flds \<and> lt_rows t = []"
proof -
  obtain cs tb t where c: "Table_create fs name flds = (cs, Inr tb)" "stands_for (run cs fs) tb t"
    "tb_tableName tb = name" "lt_fields t = flds" "lt_rows t = []"
    using Table_create_stands_for [OF fresh names(3)] by blast
  have "flds \<noteq> []" using names(3) by (simp add: fields_ok_def)
  with command_create_runs [OF c(1) names(1,2), of s] show ?thesis using c(2-5) by blast
qed

lemma command_insert:
  assumes name: "is_identifier name" and vals: "vals \<noteq> []" "\<forall>v \<in> set vals. printable (v, LITERAL)"
    and opened: "Table_open fs name = (cs, Inr tb)"
    and ins: "insert_into (run cs fs) tb vals = Some (ds, r)"
  shows "\<exists>s'. command fs s (print_sql (Insert_Into name vals)) = Some (cs @ ds, s') \<and>
    (case r of Inl e \<Rightarrow> sq_error s' \<and> sq_last_error s' = what e \<and> sq_table s' = empty_table
     | Inr tb' \<Rightarrow> \<not> sq_error s' \<and> sq_table s' = tb')"
proof -
  have "execute fs (statement_tree (Insert_Into name vals)) = Some (cs @ ds, r)"
    using opened ins name by (simp add: execute_def execute_insert_def)
  from command_printed [OF _ statement_printable(2) this, of s] name vals
  obtain ps' where "command fs s (print_sql (Insert_Into name vals)) =
      Some (cs @ ds, finish (s\<lparr>sq_parser := ps', sq_ptree := statement_tree (Insert_Into name vals)\<rparr>) r)"
    by (auto simp: identifier_printable)
  then show ?thesis by (cases r) (auto simp: finish_def)
qed

text \<open>The columns and the condition a selection names, on the fields of the table.\<close>

fun chosen_columns :: "string list \<Rightarrow> columns \<Rightarrow> string list" where
  "chosen_columns flds All_Columns = flds"
| "chosen_columns flds (Columns cols) = (if hd cols = ''*'' then flds else cols)"

fun where_means :: "string list \<Rightarrow> where_clause option \<Rightarrow> expr option \<Rightarrow> bool" where
  "where_means flds (Some w) (Some e) \<longleftrightarrow>
     infix_disj e (allocate_tokens_memory (condition_texts (where_lexemes w))) \<and> well_formed flds e"
| "where_means flds None None \<longleftrightarrow> True"
| "where_means flds _ _ \<longleftrightarrow> False"

fun selected_rows :: "loaded_table \<Rightarrow> expr option \<Rightarrow> int set" where
  "selected_rows t None = int ` {r. r < length (lt_rows t)}"
| "selected_rows t (Some e) = matching t e"

lemma hd_column_texts [simp]: "hd (column_texts All_Columns) = ''*''"
  by simp

lemma execute_select_shows:
  assumes name: "is_identifier name"
    and t: "Table_open fs name = (cs, Inr tb)" "stands_for (run cs fs) tb t" "tb_selectedFields tb = lt_fields t"
    and cols: "cols \<noteq> Columns []" "set (chosen_columns (lt_fields t) cols) \<subseteq> set (lt_fields t)"
      "distinct (chosen_columns (lt_fields t) cols)"
    and e: "where_means (lt_fields t) w e"
  defines "chosen \<equiv> chosen_columns (lt_fields t) cols"
  shows "\<exists>tb'. execute fs (statement_tree (Select_From cols name w)) = Some (cs, Inr tb') \<and>
    tb_tableName tb' = tb_tableName tb \<and>
    distinct (tb_recordIndices tb') \<and> set (tb_recordIndices tb') = selected_rows t e \<and>
    tb_fieldNames tb' = filter (\<lambda>f. f \<in> set chosen) (lt_fields t) \<and>
    tb_printQueue tb' = concat (map (\<lambda>r. projected (lt_fields t) chosen (lt_rows t ! nat r)) (tb_recordIndices tb'))"
proof -
  let ?expr = "case w of None \<Rightarrow> [] | Some w \<Rightarrow> condition_texts (where_lexemes w)"
  have nonempty: "lt_fields t \<noteq> []"
    using load_table_indexes(3) [OF stands_for_loaded(1) [OF t(2)]] by (simp add: table_ok_def fields_ok_def)
  have texts: "column_texts cols \<noteq> []" using cols(1) by (cases cols) auto
  have chosen: "(if hd (column_texts cols) = ''*'' then tb_selectedFields tb else column_texts cols) = chosen"
    using t(3) by (cases cols) (simp_all add: chosen_def)
  have exec: "execute fs (statement_tree (Select_From cols name w)) =
      Some (after fs (cs, Inr tb) (\<lambda>tb' fs. after fs (select_expression fs tb' chosen ?expr)
        (\<lambda>(_, selection) _. pure_op (Inr selection))))"
    using name t(1) texts chosen by (cases w) (simp_all add: execute_def execute_select_def after_def)
  have ok: "projection_ok (lt_fields t) chosen" using cols(2) by (simp add: projection_ok_def chosen_def)
  have "chosen \<noteq> []" using cols(1) nonempty by (cases cols) (auto simp: chosen_def)
  have shown: "shown_fields tb chosen = chosen"
  proof (cases "hd chosen = ''*''")
    case True
    then have "chosen = lt_fields t" using \<open>chosen \<noteq> []\<close> by (cases cols) (auto simp: chosen_def)
    then show ?thesis using t(2) by (simp add: shown_fields_def stands_for_def)
  qed (simp add: shown_fields_def \<open>chosen \<noteq> []\<close>)
  have order: "permutate_fields tb chosen = filter (\<lambda>f. f \<in> set chosen) (lt_fields t)"
    using permutate_schema_order(2) [OF _ stands_for_loaded(2) [OF t(2)]] t(2) cols(2,3)
    by (simp add: stands_for_def chosen_def)
  have "\<exists>this tb'. select_expression (run cs fs) tb chosen ?expr = ([], Inr (this, tb')) \<and> tb_tableName tb' = tb_tableName tb \<and>
    distinct (tb_recordIndices tb') \<and> set (tb_recordIndices tb') = selected_rows t e \<and>
    tb_fieldNames tb' = filter (\<lambda>f. f \<in> set chosen) (lt_fields t) \<and>
    tb_printQueue tb' = concat (map (\<lambda>r. projected (lt_fields t) chosen (lt_rows t ! nat r)) (tb_recordIndices tb'))"
  proof (cases w)
    case None
    then have "e = None" using e by (cases e) auto
    have all: "map (projected (lt_fields t) chosen) (lt_rows t) =
        map (\<lambda>r. projected (lt_fields t) chosen (lt_rows t ! nat r)) (map int [0..<length (lt_rows t)])"
      by (intro nth_equalityI) simp_all
    show ?thesis
      using select_all [OF t(2) ok] shown order all None \<open>e = None\<close>
      by (auto simp: distinct_map simp flip: lessThan_def atLeast0LessThan)
  next
    case (Some v)
    then obtain c where c: "e = Some c" "where_means (lt_fields t) (Some v) (Some c)" using e by (cases e) auto
    then show ?thesis using select_matching [OF t(2) ok, of c ?expr] shown order Some by auto
  qed
  then show ?thesis using exec by (auto simp: after_def pure_op_def)
qed

lemma command_select:
  assumes name: "is_identifier name"
    and t: "file_exists fs (database_path name)" "open_table fs (database_path name) = (cs, Inr t)"
    and stmt: "\<forall>l \<in> set (statement_lexemes (Select_From cols name w)). printable l"
    and cols: "cols \<noteq> Columns []" "set (chosen_columns (lt_fields t) cols) \<subseteq> set (lt_fields t)"
      "distinct (chosen_columns (lt_fields t) cols)"
    and e: "where_means (lt_fields t) w e"
  defines "chosen \<equiv> chosen_columns (lt_fields t) cols"
  shows "\<exists>s'. command fs s (print_sql (Select_From cols name w)) = Some (cs, s') \<and> \<not> sq_error s' \<and>
    distinct (tb_recordIndices (sq_table s')) \<and> set (tb_recordIndices (sq_table s')) = selected_rows t e \<and>
    tb_fieldNames (sq_table s') = filter (\<lambda>f. f \<in> set chosen) (lt_fields t) \<and>
    tb_printQueue (sq_table s') =
      concat (map (\<lambda>r. projected (lt_fields t) chosen (lt_rows t ! nat r)) (tb_recordIndices (sq_table s')))"
proof -
  have "load_table (run cs fs) (database_path name) = Inr t"
    using t(2) open_table_result [of fs "database_path name" t] open_table_calls [of fs "database_path name"] by simp
  then have "length (lt_rows t) \<le> LONG_MAX" by (rule load_table_rows)
  then have "\<exists>tb. table_v2 name t = Inr tb \<and> tb_usesV2Storage tb" by (simp add: table_v2_def)
  then obtain tb where tb: "tb_usesV2Storage tb" "Table_open fs name = (cs, Inr tb)"
    using t by (auto simp: Table_open_def Let_def after_def pure_op_def)
  moreover from Table_open_stands_for [OF tb] t(2)
  have "stands_for (run cs fs) tb t" "tb_selectedFields tb = lt_fields t" by auto
  ultimately obtain tb' where tb': "execute fs (statement_tree (Select_From cols name w)) = Some (cs, Inr tb')"
    "distinct (tb_recordIndices tb')" "set (tb_recordIndices tb') = selected_rows t e"
    "tb_fieldNames tb' = filter (\<lambda>f. f \<in> set chosen) (lt_fields t)"
    "tb_printQueue tb' = concat (map (\<lambda>r. projected (lt_fields t) chosen (lt_rows t ! nat r)) (tb_recordIndices tb'))"
    using execute_select_shows [OF name _ _ _ cols e] unfolding chosen_def by blast
  have "complete (Select_From cols name w)" using cols(1) by simp
  from command_printed [OF this stmt tb'(1), of s]
  obtain ps' where "command fs s (print_sql (Select_From cols name w)) =
      Some (cs, finish (s\<lparr>sq_parser := ps', sq_ptree := statement_tree (Select_From cols name w)\<rparr>) (Inr tb'))"
    by blast
  then show ?thesis using tb'(2-) by (auto simp: finish_def)
qed

section \<open>Failing commands\<close>

lemma command_syntax_error:
  assumes "sql_tree cmd = None" and "\<And>ts. scan False [] (Tokenizer.lex (c_str cmd)) = Some ts \<Longrightarrow> CREATE \<notin> set (tl (map snd ts))"
  shows "\<exists>s'. command fs s cmd = Some ([], s') \<and> sq_error s' \<and>
    sq_last_error s' = ''Invalid command syntax'' \<and> sq_table s' = empty_table"
proof -
  obtain ps' where "parse_command cmd (sq_parser s) = Some (Map.empty, ps')"
    using parse_command_tree [of cmd "sq_parser s", OF assms(2)] assms(1)
    by (cases "parse_command cmd (sq_parser s)") auto
  then show ?thesis by (simp add: command_def execute_def pure_op_def finish_def)
qed

text \<open>A command that fails has issued no system call but those of a completed recovery.\<close>

lemma create_error_calls:
  assumes "Table_create fs name flds = (cs, Inl e)"
  shows "cs = []"
proof (rule ccontr)
  assume "cs \<noteq> []"
  let ?p = "database_path name"
  have pre: "\<not> file_exists fs ?p" and ok: "fields_ok flds" and c: "create_table fs ?p flds = (cs, Inl e)"
    using assms \<open>cs \<noteq> []\<close> create_checks
    by (auto simp: Table_create_def Let_def pure_op_def after_Inl split: if_splits sum.splits)
  have "\<not> wal_pending fs ?p"
    using c \<open>cs \<noteq> []\<close> by (auto simp: create_table_def create_from_rows_def raise_def split: if_splits)
  from create_open [OF pre this, of flds "[]"] ok c show False
    by (simp add: create_table_def table_ok_def image_fits_def MAX_PAGES_def)
qed

lemma insert_error_calls:
  assumes t: "stands_for fs tb t" and quiet: "log_settled fs tb" and ins: "insert_into fs tb vals = Some (cs, Inl e)"
  shows "cs = []"
proof (cases "cs = []")
  case False
  let ?p = "database_path (tb_tableName tb)"
  have "insert_row fs ?p vals = Some (cs, Inl e)"
    using ins False by (auto simp: insert_into_def after_Inl pure_op_iff split: if_splits)
  moreover have "\<not> wal_pending fs ?p" using t quiet by (simp add: stands_for_def log_settled_def)
  ultimately show ?thesis
    using insert_row_done [OF _ stands_for_loaded(1) [OF t]] by (metis Inl_Inr_False)
qed

lemma execute_insert_error:
  assumes "execute_insert fs name tree = Some (cs, Inl e)"
  shows "recovery_calls fs (database_path name) cs"
proof -
  obtain os r where o: "Table_open fs name = (os, r)" by fastforce
  show ?thesis
  proof (cases r)
    case (Inl e')
    then show ?thesis using assms o Table_open_calls(1) [OF o] by (simp add: execute_insert_def)
  next
    case (Inr tb)
    then obtain ds where ds: "cs = os @ ds" "insert_into (run os fs) tb (texts_at ''values'' tree) = Some (ds, Inl e)"
      using assms o by (auto simp: execute_insert_def)
    have "ds = []"
    proof (cases "tb_usesV2Storage tb")
      case True
      from Table_open_stands_for [OF this o [unfolded Inr]]
      obtain t where "stands_for (run os fs) tb t" by blast
      from insert_error_calls [OF this Table_open_calls(2) [OF o Inr] ds(2)] show ?thesis .
    qed (use ds(2) in \<open>auto simp: insert_into_def pure_op_def split: if_splits\<close>)
    then show ?thesis using ds(1) Table_open_calls(1) [OF o] by simp
  qed
qed

lemma execute_select_calls:
  assumes "execute_select fs name tree = Some (cs, r)"
  shows "recovery_calls fs (database_path name) cs"
proof -
  obtain os r' where o: "Table_open fs name = (os, r')" by fastforce
  show ?thesis
  proof (cases r')
    case (Inl e)
    then show ?thesis using assms o Table_open_calls(1) [OF o] by (simp add: execute_select_def Let_def)
  next
    case (Inr tb)
    define sel where "sel = after (run os fs)
      (select_expression (run os fs) tb
        (if hd (texts_at ''fields'' tree) = ''*'' then tb_selectedFields tb else texts_at ''fields'' tree)
        (if ''where'' \<in> dom tree then texts_at ''condition'' tree else []))
      (\<lambda>(_, selection) _. pure_op (Inr selection :: table res))"
    have "fst sel = []"
      unfolding sel_def
      by (rule fst_after [OF select_expression_calls [OF Table_open_calls(2) [OF o Inr]]]) (simp split: prod.split)
    moreover have "cs = os @ fst sel"
      using assms o Inr
      by (simp add: execute_select_def Let_def after_def [of fs] flip: sel_def split: if_splits prod.splits)
    ultimately have "cs = os" by simp
    then show ?thesis using Table_open_calls(1) [OF o] by simp
  qed
qed

lemma command_error_calls:
  assumes "command fs s cmd = Some (cs, s')" and "sq_error s'"
  shows "\<exists>p. recovery_calls fs p cs"
proof -
  have none: "\<exists>p. recovery_calls fs p []" by (simp add: recovery_calls_def)
  obtain tree e where "execute fs tree = Some (cs, Inl e)"
    using assms by (auto simp: command_def finish_def split: bind_splits sum.splits)
  then consider "cs = []" | name flds where "Table_create fs name flds = (cs, Inl e)"
    | name where "execute_insert fs name tree = Some (cs, Inl e)"
    | name where "execute_select fs name tree = Some (cs, Inl e)"
    by (auto simp: execute_def execute_create_def pure_op_def split: if_splits bind_splits sum.splits)
  then show ?thesis
  proof cases
    case 2
    then show ?thesis using create_error_calls none by blast
  next
    case (3 name)
    then show ?thesis using execute_insert_error by blast
  next
    case (4 name)
    then show ?thesis using execute_select_calls by blast
  qed (use none in simp)
qed

section \<open>The interactive loop\<close>

text \<open>The loop returns only when a line reads \<open>end\<close>: at the end of the input it never does.\<close>

lemma repl_end:
  assumes "repl fs s inputs = Some r"
  shows "''end'' \<in> set inputs"
proof (rule repl.raw_induct [OF _ assms])
  fix f :: "files \<Rightarrow> sql \<Rightarrow> string list \<Rightarrow> (syscall list \<times> string \<times> sql) option"
    and fs s inputs r
  assume IH: "\<And>fs s inputs r. f fs s inputs = Some r \<Longrightarrow> ''end'' \<in> set inputs"
  assume "(case inputs of
        [] \<Rightarrow> Option.bind (f fs s []) (\<lambda>(ds, out, s'). Some (ds, prompt @ out, s'))
      | input # rest \<Rightarrow>
          if input = [] then
            Option.bind (f fs s rest) (\<lambda>(ds, out, s'). Some (ds, prompt @ out, s'))
          else if input = ''cls'' then
            Option.bind (f fs s rest) (\<lambda>(ds, out, s'). Some (ds, prompt @ clear_screen @ out, s'))
          else if input = ''end'' then Some ([], prompt @ ''DONE'' @ newline, s)
          else
            Option.bind (command fs s input) (\<lambda>(cs, s).
            Option.bind (f (run cs fs) s rest) (\<lambda>(ds, out, s').
            Some (cs @ ds, prompt @ interactive_report s @ out, s')))) = Some r"
  then show "''end'' \<in> set inputs"
    by (cases inputs) (auto dest: IH split: if_splits bind_splits)
qed

text \<open>What the loop does with commands up to \<open>end\<close>.\<close>

fun session :: "files \<Rightarrow> sql \<Rightarrow> string list \<Rightarrow> (syscall list \<times> string \<times> sql) option" where
  "session fs s [] = Some ([], [], s)"
| "session fs s (cmd # rest) =
     Option.bind (command fs s cmd) (\<lambda>(cs, s).
     map_option (\<lambda>(ds, out, s'). (cs @ ds, prompt @ interactive_report s @ out, s')) (session (run cs fs) s rest))"

lemma repl_session:
  "\<forall>c \<in> set cmds. c \<notin> {[], ''cls'', ''end''} \<Longrightarrow>
   repl fs s (cmds @ ''end'' # rest) =
     map_option (\<lambda>(cs, out, s'). (cs, out @ prompt @ ''DONE'' @ newline, s')) (session fs s cmds)"
proof (induction cmds arbitrary: fs s)
  case Nil
  then show ?case by (subst repl.simps) simp
next
  case (Cons cmd cmds)
  then show ?case
    by (subst repl.simps) (auto simp: map_option_case split: bind_splits option.splits)
qed

end
