(* ===== verification/Insert_Split.thy ===== *)
theory Insert_Split
  imports Insert_Frame
begin

text \<open>
  Splitting the pages of a persistent B+ tree: the halves of an overfull leaf or internal page fit, and
  the links between the leaves stay right. \<open>insert_effect\<close> says what an insertion may change,
  \<open>insert_result_forest\<close> what it leaves in place of a subtree.
\<close>

section \<open>Lists\<close>

lemma insert_at_lower_bound: "insert_at (lower_bound xs x) x xs = insort x xs"
  by (induction xs) (auto simp: insert_at_def lower_bound_def)

lemma insort_append_left: "\<forall>y \<in> set xs. y < (x :: 'a :: linorder) \<Longrightarrow> insort x (xs @ ys) = xs @ insort x ys"
  by (induction xs) auto

lemma insort_append_right: "\<forall>y \<in> set ys. (x :: 'a :: linorder) < y \<Longrightarrow> insort x (xs @ ys) = insort x xs @ ys"
proof (induction xs)
  case Nil
  then show ?case by (cases ys) auto
qed auto

lemma hd_insort: "xs \<noteq> [] \<Longrightarrow> hd xs \<le> x \<Longrightarrow> x \<notin> set xs \<Longrightarrow> hd (insort x xs) = hd (xs :: 'a :: linorder list)"
  by (cases xs) auto

section \<open>Internal pages\<close>

lemma encode_internal_payload_ok:
  assumes "ic_level c \<noteq> 0" "2 \<le> length (ic_children c)"
    and "length (ic_separators c) + 1 = length (ic_children c)" "length (ic_separators c) \<le> 65535"
    and "\<forall>s \<in> set (ic_separators c). entry_ok s"
  shows "encode_internal_payload c =
    Inr (internal_payload (ic_level c) (hd (ic_children c)) (zip (ic_separators c) (tl (ic_children c))))"
proof -
  have "\<forall>b \<in> set (zip (ic_separators c) (tl (ic_children c))). branch_ok b"
    using assms(5) by (auto simp: branch_ok_def dest: set_zip_leftD)
  moreover have "length (zip (ic_separators c) (tl (ic_children c))) = length (ic_separators c)"
    using assms(3) by simp
  ultimately show ?thesis
    using assms
    by (simp add: encode_internal_payload_def append_branches_ok append_eqs internal_payload_def del: length_zip)
qed

text \<open>The children of an internal node as a forest.\<close>

lemma tree_of_forest:
  assumes "index_forest P l ch E L U" and "unat i < length P" "ptype (P ! unat i) = IndexInternal"
    and "pnext (P ! unat i) = NO_PAGE"
    and "payload (P ! unat i) = internal_payload (word_of_nat (Suc l)) (hd ch) (zip (map hd (tl E)) (tl ch))"
    and "2 \<le> length ch" "length ch \<le> 65536" "Suc l \<le> 65535" "sorted (concat E)"
  shows "index_tree P i (Suc l) (concat E) L (i # U)"
proof -
  obtain c cs where ch: "ch = c # cs" using assms(6) by (cases ch) auto
  then obtain es ess where E: "E = es # ess" "length ess = length cs"
    using forest_lengths [OF assms(1)] by (cases E) auto
  show ?thesis
    using assms ch E
    by (auto intro!: tree_node simp del: of_nat_Suc)
qed

lemma forest_of_tree:
  assumes "index_tree P i (Suc l) es lvs us"
  obtains ch E U where "index_forest P l ch E lvs U" "us = i # U" "es = concat E"
    "unat i < length P" "ptype (P ! unat i) = IndexInternal" "pnext (P ! unat i) = NO_PAGE"
    "payload (P ! unat i) = internal_payload (word_of_nat (Suc l)) (hd ch) (zip (map hd (tl E)) (tl ch))"
    "2 \<le> length ch" "length ch \<le> 65536" "Suc l \<le> 65535" "sorted (concat E)"
  using assms
proof (cases rule: index_tree.cases)
  case (tree_node c ess cs es' us')
  then have "ess \<noteq> []" by auto
  with tree_node that [of "c # cs" "es' # ess" us'] show thesis by (auto simp: Suc_le_eq simp del: of_nat_Suc)
qed

section \<open>Links between leaves\<close>

text \<open>A page that is unchanged but for the left link of a leaf.\<close>

definition relinked :: "page list \<Rightarrow> page list \<Rightarrow> u32 \<Rightarrow> bool" where
  "relinked P P' u \<longleftrightarrow> unat u < length P' \<and> ptype (P' ! unat u) = ptype (P ! unat u) \<and>
     pnext (P' ! unat u) = pnext (P ! unat u) \<and>
     (ptype (P ! unat u) \<noteq> IndexLeaf \<longrightarrow> P' ! unat u = P ! unat u) \<and>
     (\<forall>prev es. payload (P ! unat u) = leaf_payload prev es \<longrightarrow>
        (\<exists>prev'. payload (P' ! unat u) = leaf_payload prev' es))"

lemma relinked_same: "unat u < length P' \<Longrightarrow> P' ! unat u = P ! unat u \<Longrightarrow> relinked P P' u"
  by (auto simp: relinked_def)

lemma relinked_trans: "relinked P P' u \<Longrightarrow> relinked P' P'' u \<Longrightarrow> relinked P P'' u"
  unfolding relinked_def by metis

lemma tree_relinked:
  "index_tree P i l es lvs us \<Longrightarrow> \<forall>u \<in> set us. relinked P P' u \<Longrightarrow> index_tree P' i l es lvs us"
  "index_forest P l is ess lvs us \<Longrightarrow> \<forall>u \<in> set us. relinked P P' u \<Longrightarrow> index_forest P' l is ess lvs us"
proof (induction rule: index_tree_index_forest.inducts)
  case (tree_leaf i prev es)
  then have "relinked P P' i" by simp
  then obtain prev' where "payload (P' ! unat i) = leaf_payload prev' es"
    using tree_leaf(3) unfolding relinked_def by blast
  then show ?case using tree_leaf by (intro index_tree_index_forest.tree_leaf) (auto simp: relinked_def)
next
  case (tree_node i l c ess cs es lvs us)
  then have "index_forest P' l (c # cs) (es # ess) lvs us" "unat i < length P'" "P' ! unat i = P ! unat i"
    by (auto simp: relinked_def)
  with tree_node show ?case by (intro index_tree_index_forest.tree_node) auto
qed (auto intro: index_tree_index_forest.forest_nil index_tree_index_forest.forest_cons)

text \<open>A segment of linked leaves, between a left neighbour \<open>p\<close> and a right neighbour \<open>n\<close>.\<close>

fun seg :: "page list \<Rightarrow> u32 \<Rightarrow> u32 list \<Rightarrow> u32 \<Rightarrow> bool" where
  "seg P p [] n \<longleftrightarrow> True"
| "seg P p (v # vs) n \<longleftrightarrow> pnext (P ! unat v) = hd (vs @ [n]) \<and>
     (\<exists>es. payload (P ! unat v) = leaf_payload p es) \<and> seg P v vs n"

lemma seg_append: "seg P p (vs @ ws) n \<longleftrightarrow> seg P p vs (hd (ws @ [n])) \<and> seg P (last (p # vs)) ws n"
proof (induction vs arbitrary: p)
  case (Cons v vs)
  then show ?case by (cases vs) auto
qed simp

lemma seg_nth:
  "seg P p vs n \<longleftrightarrow> (\<forall>j < length vs. pnext (P ! unat (vs ! j)) = (if Suc j < length vs then vs ! Suc j else n) \<and>
     (\<exists>es. payload (P ! unat (vs ! j)) = leaf_payload (if j = 0 then p else vs ! (j - 1)) es))"
proof (induction vs arbitrary: p)
  case (Cons v vs)
  have shift: "(\<forall>j < length (v # vs). Q j) \<longleftrightarrow> Q 0 \<and> (\<forall>j < length vs. Q (Suc j))" for Q
    by (auto simp: less_Suc_eq_0_disj)
  have prev: "(if Suc j = 0 then p else (v # vs) ! (Suc j - 1)) = (if j = 0 then v else vs ! (j - 1))"
    if "j < length vs" for j by (cases j) auto
  show ?case
    unfolding shift using Cons [of v] prev by (cases vs) auto
qed simp

lemma leaves_linked_seg: "leaves_linked P lvs \<longleftrightarrow> seg P NO_PAGE lvs NO_PAGE"
  by (simp add: leaves_linked_def seg_nth)

lemma seg_cong: "seg P p vs n \<Longrightarrow> \<forall>v \<in> set vs. P' ! unat v = P ! unat v \<Longrightarrow> seg P' p vs n"
  by (induction vs arbitrary: p) auto

text \<open>The right neighbour of a segment that ends with \<open>v\<close>.\<close>

definition boundary :: "page list \<Rightarrow> u32 \<Rightarrow> u32 \<Rightarrow> bool" where
  "boundary P v n \<longleftrightarrow> (n \<noteq> NO_PAGE \<longrightarrow> unat n < length P \<and> ptype (P ! unat n) = IndexLeaf \<and>
     (\<exists>es. payload (P ! unat n) = leaf_payload v es))"

lemma leaf_payload_link: "overwrite 2 (le32 v) (leaf_payload p es) = leaf_payload v es"
  by (simp add: overwrite_def leaf_payload_def)

lemma leaf_payload_inject_prev: "leaf_payload p es = leaf_payload p' es' \<Longrightarrow> p = p'"
  by (simp add: leaf_payload_def) 

lemma boundary_cong: "boundary P v n \<Longrightarrow> (n \<noteq> NO_PAGE \<Longrightarrow> unat n < length P' \<and> P' ! unat n = P ! unat n) \<Longrightarrow> boundary P' v n"
  by (auto simp: boundary_def)

lemma seg_boundary: "seg P p (v # vs) n \<Longrightarrow> unat v < length P \<Longrightarrow> ptype (P ! unat v) = IndexLeaf \<Longrightarrow> boundary P p v"
  by (auto simp: boundary_def)

text \<open>The first leaf of a segment gets another left neighbour.\<close>

lemma seg_relink:
  assumes "seg P p (v # vs) n" "boundary P' p' v" "v \<noteq> NO_PAGE" "pnext (P' ! unat v) = pnext (P ! unat v)"
    and "\<forall>w \<in> set vs. P' ! unat w = P ! unat w"
  shows "seg P' p' (v # vs) n"
  using assms seg_cong [of P v vs n P'] by (auto simp: boundary_def)

section \<open>The effect of an insertion\<close>

text \<open>
  What an insertion into a subtree with pages \<open>us\<close> and leaves \<open>lvs\<close> between the leaves \<open>p\<close> and \<open>n\<close> does
  to the page list: new pages at the end belong to the subtree, its leaves stay linked, and of the other
  old pages only \<open>n\<close> gets a new left link.
\<close>

definition insert_effect ::
  "page list \<Rightarrow> u32 \<Rightarrow> u32 \<Rightarrow> u32 list \<Rightarrow> u32 list \<Rightarrow> page list \<Rightarrow> u32 list \<Rightarrow> u32 list \<Rightarrow> bool" where
  "insert_effect P p n us lvs P' us' lvs' \<longleftrightarrow>
     length P \<le> length P' \<and>
     mset us' = mset us + mset (ids_from (length P) (length P' - length P)) \<and>
     lvs' \<noteq> [] \<and> hd lvs' = hd lvs \<and> seg P' p lvs' n \<and> boundary P' (last lvs') n \<and>
     (\<forall>u. unat u < length P \<longrightarrow> u \<notin> set us \<longrightarrow>
        relinked P P' u \<and> (u \<noteq> n \<longrightarrow> P' ! unat u = P ! unat u)) \<and>
     (\<forall>q \<in> set P'. page_ok q)"

fun right_of :: "node_split option \<Rightarrow> u32 list" where
  "right_of None = []"
| "right_of (Some s) = [ns_right_page s]"

text \<open>The tree or the two trees that an insertion leaves in place of a tree with entries \<open>es\<close>.\<close>

definition insert_result_forest ::
  "page list \<Rightarrow> nat \<Rightarrow> u32 \<Rightarrow> node_split option \<Rightarrow> entry list \<Rightarrow> u32 list \<Rightarrow> u32 list \<Rightarrow> bool" where
  "insert_result_forest P l i split es lvs us \<longleftrightarrow>
     (\<exists>E. index_forest P l (i # right_of split) E lvs us \<and> concat E = es \<and>
        (\<forall>s. split = Some s \<longrightarrow> ns_separator s = hd (E ! 1)))"

lemma unat_page_number: "k < MAX_PAGES \<Longrightarrow> unat (word_of_nat k :: u32) = k"
  by (simp add: unat_of_nat take_bit_nat_eq_self MAX_PAGES_def)

lemma new_page_number:
  assumes "k < MAX_PAGES"
  shows "(word_of_nat k :: u32) \<noteq> NO_PAGE" and "unat (u :: u32) < k \<Longrightarrow> u \<noteq> word_of_nat k"
proof -
  have k: "unat (word_of_nat k :: u32) = k" by (rule unat_page_number [OF assms])
  show "(word_of_nat k :: u32) \<noteq> NO_PAGE" using k assms unat_NO_PAGE by (metis less_irrefl)
  show "u \<noteq> word_of_nat k" if "unat u < k" using that k by auto
qed

lemma leaf_fits_count: "8 + entries_size es \<le> PAGE_PAYLOAD_SIZE \<Longrightarrow> length es \<le> 65534"
  using entries_size_ge [of es] by (simp add: page_consts)

lemma entries_size_insort: "entries_size (insort e es) = 2 + length (fst e) + 8 + entries_size es"
  by (induction es) auto

text \<open>The halves of an overfull leaf fit.\<close>

lemma split_leaf_sizes:
  assumes "\<forall>e \<in> set es. entry_ok e" and "8 + entries_size es \<le> PAGE_PAYLOAD_SIZE + 110"
    and "\<not> 8 + entries_size es \<le> PAGE_PAYLOAD_SIZE"
  defines "k \<equiv> length es div 2"
  shows "0 < k" "k < length es"
    "8 + entries_size (take k es) \<le> PAGE_PAYLOAD_SIZE" "8 + entries_size (drop k es) \<le> PAGE_PAYLOAD_SIZE"
proof -
  have "entries_size es \<le> 110 * length es" using assms(1)
    by (induction es) (auto simp: entry_ok_def MAX_VALUE_LENGTH_def)
  then have many: "24 \<le> length es" using assms(3) by (simp add: page_consts)
  then show "0 < k" "k < length es" by (simp_all add: k_def)
  have "entries_size es = entries_size (take k es) + entries_size (drop k es)"
    by (metis append_take_drop_id entries_size_simps(3))
  moreover have "110 \<le> entries_size (take k es)" "110 \<le> entries_size (drop k es)"
    using entries_size_ge [of "take k es"] entries_size_ge [of "drop k es"] many by (auto simp: k_def)
  ultimately show "8 + entries_size (take k es) \<le> PAGE_PAYLOAD_SIZE" "8 + entries_size (drop k es) \<le> PAGE_PAYLOAD_SIZE"
    using assms(2) by auto
qed

lemma single_leaf:
  assumes "unat i < length P" "ptype (P ! unat i) = IndexLeaf" "payload (P ! unat i) = leaf_payload p es"
    "es \<noteq> []" "8 + entries_size es \<le> PAGE_PAYLOAD_SIZE" "\<forall>e \<in> set es. entry_ok e" "sorted es"
  shows "index_tree P i 0 es [i] [i]"
  using assms leaf_fits_count [OF assms(5)] by (intro tree_leaf) auto

lemma forest_single: "index_tree P i l es lvs us \<Longrightarrow> index_forest P l [i] [es] lvs us"
  using forest_cons [OF _ forest_nil] by fastforce

lemma forest_pair:
  "index_tree P i l es lvs us \<Longrightarrow> index_tree P j l fs lvs' us' \<Longrightarrow>
   index_forest P l [i, j] [es, fs] (lvs @ lvs') (us @ us')"
  by (rule forest_cons [OF _ forest_single])

section \<open>Leaves\<close>

lemma split_leaf_run:
  assumes "encode_leaf_payload p (take (length es div 2) es) = Inr lp"
    and "encode_leaf_payload i (drop (length es div 2) es) = Inr rp"
    and P1: "P1 = P[unat i := (P ! unat i)\<lparr>payload := lp, pnext := r\<rparr>] @ [Page IndexLeaf r n rp]"
    and "pnext (P ! unat i) = n" "word_of_nat (length P) = r"
    and "n \<noteq> NO_PAGE \<Longrightarrow> unat n < length P1 \<and> ptype (P1 ! unat n) = IndexLeaf \<and>
      write_u32 (payload (P1 ! unat n)) 2 r = Inr w"
  shows "\<exists>d'. split_leaf P i \<lparr>lc_previous = p, lc_entries = es\<rparr> d =
    Inr (if n = NO_PAGE then P1 else P1[unat n := (P1 ! unat n)\<lparr>payload := w\<rparr>], d',
      Some \<lparr>ns_separator = hd (drop (length es div 2) es), ns_right_page = r\<rparr>)"
proof (cases "n = NO_PAGE")
  case True
  then show ?thesis by (simp add: split_leaf_def Let_def assms(1-5))
next
  case False
  have "length P1 = Suc (length P)" by (simp add: P1)
  then show ?thesis
    using False assms(6) [OF False] by (simp add: split_leaf_def Let_def assms(1,2,4,5) P1 [symmetric])
qed

text \<open>A leaf and its entries before the insertion.\<close>

lemma leaf_before:
  assumes i: "unat i < length P" "ptype (P ! unat i) = IndexLeaf" "payload (P ! unat i) = leaf_payload prev es"
      "\<forall>e \<in> set es. entry_ok e" "length es \<le> 65535" "sorted es"
    and links: "seg P p [i] n"
    and e: "e \<notin> set es" "entry_ok e"
    and ok: "\<forall>q \<in> set P. page_ok q"
  shows "pnext (P ! unat i) = n" "decode_leaf_contents (P ! unat i) = Inr \<lparr>lc_previous = p, lc_entries = es\<rparr>"
    and "8 + entries_size (insort e es) \<le> PAGE_PAYLOAD_SIZE + 110"
    and "insort e es \<noteq> []" "length (insort e es) \<le> 65535" "\<forall>e \<in> set (insort e es). entry_ok e"
      "sorted (insort e es)" "\<not> (lower_bound es e < length es \<and> es ! lower_bound es e = e)"
proof -
  obtain es0 where nxt: "pnext (P ! unat i) = n" and "payload (P ! unat i) = leaf_payload p es0"
    using links by auto
  then have prev: "prev = p" using i(3) leaf_payload_inject_prev by metis
  show "pnext (P ! unat i) = n" by (rule nxt)
  show "decode_leaf_contents (P ! unat i) = Inr \<lparr>lc_previous = p, lc_entries = es\<rparr>"
    using i prev by (simp add: decode_leaf_contents_iff)
  have size: "8 + entries_size es \<le> PAGE_PAYLOAD_SIZE"
    using ok i(1,3) by (auto simp: page_ok_def length_leaf_payload dest!: bspec [OF _ nth_mem])
  then show "8 + entries_size (insort e es) \<le> PAGE_PAYLOAD_SIZE + 110"
    using e(2) by (auto simp: entries_size_insort entry_ok_def MAX_VALUE_LENGTH_def)
  show "insort e es \<noteq> []" "length (insort e es) \<le> 65535" "\<forall>e \<in> set (insort e es). entry_ok e" "sorted (insort e es)"
    using leaf_fits_count [OF size] i(4,6) e(2) by (auto simp: set_insort_key sorted_insort)
  show "\<not> (lower_bound es e < length es \<and> es ! lower_bound es e = e)" using e(1) nth_mem by metis
qed

text \<open>The leaf takes the entry, or is split.\<close>

lemma insert_leaf_fits:
  assumes i: "unat i < length P" "ptype (P ! unat i) = IndexLeaf" "payload (P ! unat i) = leaf_payload prev es"
      "\<forall>e \<in> set es. entry_ok e" "length es \<le> 65535" "sorted es"
    and links: "seg P p [i] n" "boundary P i n" "n \<noteq> i"
    and e: "e \<notin> set es" "entry_ok e"
    and room: "length P < MAX_PAGES" and ok: "\<forall>q \<in> set P. page_ok q"
    and small: "8 + entries_size (insort e es) \<le> PAGE_PAYLOAD_SIZE"
  shows "\<exists>P' d' split us' lvs'. insert_leaf P i e d = Inr (P', d', split) \<and> length P' \<le> Suc (length P) \<and>
    insert_effect P p n [i] [i] P' us' lvs' \<and> insert_result_forest P' 0 i split (insort e es) lvs' us'"
proof -
  let ?es = "insort e es"
  note nxt = leaf_before(1) [OF i links(1) e ok] and dec = leaf_before(2) [OF i links(1) e ok]
    and grow = leaf_before(3) [OF i links(1) e ok] and es = leaf_before(4-7) [OF i links(1) e ok]
    and fresh = leaf_before(8) [OF i links(1) e ok]
  note enc = encode_leaf_payload_ok [OF es(1,2,3)]
  define P' where "P' = P[unat i := (P ! unat i)\<lparr>payload := leaf_payload p ?es\<rparr>]"
  have ins: "insert_leaf P i e d = Inr (P', insert i d, None)"
    using fresh small by (simp add: insert_leaf_def dec Let_def insert_at_lower_bound enc length_leaf_payload P'_def)
  have other: "P' ! unat u = P ! unat u" if "u \<noteq> i" for u
    using that by (simp add: P'_def unat_neq)
  have "index_tree P' i 0 ?es [i] [i]"
    using i small es by (intro single_leaf [where p = p]) (auto simp: P'_def)
  then have "insert_result_forest P' 0 i None ?es [i] [i]"
    using forest_single by (fastforce simp: insert_result_forest_def)
  moreover have "insert_effect P p n [i] [i] P' [i] [i]"
    unfolding insert_effect_def
  proof (intro conjI allI impI ballI)
    show "seg P' p [i] n" using i(1) nxt by (auto simp: P'_def)
    show "boundary P' (last [i]) n"
      using links(2,3) other [of n] by (auto simp: boundary_def P'_def)
    fix q assume "q \<in> set P'"
    then show "page_ok q"
      using ok small unfolding P'_def by (auto simp: page_ok_def length_leaf_payload dest!: set_update_subset_insert [THEN subsetD])
  next
    fix u assume "unat u < length P" "u \<notin> set [i]"
    then show "relinked P P' u" "P' ! unat u = P ! unat u"
      using other [of u] relinked_same [of u P' P] by (auto simp: P'_def)
  qed (simp_all add: P'_def)
  ultimately show ?thesis using ins by (intro exI [of _ P'] exI [of _ "insert i d"] exI [of _ None]) (auto simp: P'_def)
qed

lemma insert_leaf_split:
  assumes i: "unat i < length P" "ptype (P ! unat i) = IndexLeaf" "payload (P ! unat i) = leaf_payload prev es"
      "\<forall>e \<in> set es. entry_ok e" "length es \<le> 65535" "sorted es"
    and links: "seg P p [i] n" "boundary P i n" "n \<noteq> i"
    and e: "e \<notin> set es" "entry_ok e"
    and room: "length P < MAX_PAGES" and ok: "\<forall>q \<in> set P. page_ok q"
    and large: "\<not> 8 + entries_size (insort e es) \<le> PAGE_PAYLOAD_SIZE"
  shows "\<exists>P' d' split us' lvs'. insert_leaf P i e d = Inr (P', d', split) \<and> length P' \<le> Suc (length P) \<and>
    insert_effect P p n [i] [i] P' us' lvs' \<and> insert_result_forest P' 0 i split (insort e es) lvs' us'"
proof -
  let ?es = "insort e es"
  note nxt = leaf_before(1) [OF i links(1) e ok] and dec = leaf_before(2) [OF i links(1) e ok]
    and grow = leaf_before(3) [OF i links(1) e ok] and es = leaf_before(4-7) [OF i links(1) e ok]
    and fresh = leaf_before(8) [OF i links(1) e ok]
  note enc = encode_leaf_payload_ok [OF es(1,2,3)]
  define k where "k = length ?es div 2"
  define r :: u32 where "r = word_of_nat (length P)"
  note halves = split_leaf_sizes [OF es(3) grow large, folded k_def]
  let ?l = "take k ?es" and ?r = "drop k ?es"
  have l: "?l \<noteq> []" "length ?l \<le> 65535" "\<forall>e \<in> set ?l. entry_ok e" "sorted ?l" and
    r: "?r \<noteq> []" "length ?r \<le> 65535" "\<forall>e \<in> set ?r. entry_ok e" "sorted ?r"
    using halves es by (auto dest: in_set_takeD in_set_dropD simp: sorted_wrt_take sorted_wrt_drop)
  have rn: "unat r = length P" unfolding r_def by (rule unat_page_number [OF room])
  have "r \<noteq> i" "r \<noteq> n" 
    using rn i(1) links(2) new_page_number(1) [OF room] by (auto simp: boundary_def r_def [symmetric])
  let ?left = "(P ! unat i)\<lparr>payload := leaf_payload p ?l, pnext := r\<rparr>" and ?right = "Page IndexLeaf r n (leaf_payload i ?r)"
  define P1 where "P1 = P[unat i := ?left] @ [?right]"
  define P' where "P' = (if n = NO_PAGE then P1 else
    P1[unat n := (P1 ! unat n)\<lparr>payload := overwrite 2 (le32 r) (payload (P1 ! unat n))\<rparr>])"
  have n_in: "n \<noteq> NO_PAGE \<Longrightarrow> unat n < length P \<and> ptype (P ! unat n) = IndexLeaf"
    using links(2) by (simp add: boundary_def)
  have n1: "P1 ! unat n = P ! unat n" "unat n < length P1" if "n \<noteq> NO_PAGE"
    using n_in [OF that] links(3) by (auto simp: P1_def nth_append unat_neq)
  obtain nes where nes: "n \<noteq> NO_PAGE \<Longrightarrow> payload (P ! unat n) = leaf_payload i nes"
    using links(2) by (auto simp: boundary_def)
  have at_n: "P' ! unat n = (P ! unat n)\<lparr>payload := leaf_payload r nes\<rparr>" if "n \<noteq> NO_PAGE"
    using that n1 nes by (simp add: P'_def leaf_payload_link)
  have at_i: "P' ! unat i = ?left"
    using i(1) links(3) by (auto simp: P'_def P1_def nth_append unat_neq)
  have at_r: "P' ! unat r = ?right"
    using rn n_in \<open>r \<noteq> n\<close> unat_neq [of r n] by (cases "n = NO_PAGE") (simp_all add: P'_def P1_def nth_append)
  have other: "P' ! unat u = P ! unat u" if "u \<noteq> i" "u \<noteq> n" "unat u < length P" for u
    using that by (auto simp: P'_def P1_def nth_append unat_neq)
  have len: "length P' = Suc (length P)" by (simp add: P'_def P1_def)
  let ?split = "\<lparr>ns_separator = hd ?r, ns_right_page = r\<rparr>"
  have "\<exists>d'. split_leaf P i \<lparr>lc_previous = p, lc_entries = ?es\<rparr> d = Inr (P', d', Some ?split)"
    unfolding P'_def k_def
  proof (rule split_leaf_run)
    show "encode_leaf_payload p (take (length ?es div 2) ?es) = Inr (leaf_payload p ?l)"
      unfolding k_def [symmetric] by (rule encode_leaf_payload_ok [OF l(1-3)])
    show "encode_leaf_payload i (drop (length ?es div 2) ?es) = Inr (leaf_payload i ?r)"
      unfolding k_def [symmetric] by (rule encode_leaf_payload_ok [OF r(1-3)])
    show "unat n < length P1 \<and> ptype (P1 ! unat n) = IndexLeaf \<and>
      write_u32 (payload (P1 ! unat n)) 2 r = Inr (overwrite 2 (le32 r) (payload (P1 ! unat n)))"
      if "n \<noteq> NO_PAGE"
      using n1 [OF that] n_in [OF that] nes [OF that] by (simp add: write_u32_iff length_leaf_payload)
  qed (use nxt in \<open>simp_all add: P1_def r_def\<close>)
  then obtain d' where ins: "insert_leaf P i e d = Inr (P', d', Some ?split)"
    using fresh large by (auto simp: insert_leaf_def dec Let_def insert_at_lower_bound enc length_leaf_payload)
  have "index_tree P' i 0 ?l [i] [i]"
    using i(1,2) len at_i l halves by (intro single_leaf [where p = p]) auto
  moreover have "index_tree P' r 0 ?r [r] [r]"
    using rn len at_r r halves by (intro single_leaf [where p = i]) auto
  ultimately have "index_forest P' 0 [i, r] [?l, ?r] [i, r] [i, r]" using forest_pair by fastforce
  then have res: "insert_result_forest P' 0 i (Some ?split) ?es [i, r] [i, r]"
    unfolding insert_result_forest_def by (intro exI [of _ "[?l, ?r]"]) simp
  have "insert_effect P p n [i] [i] P' [i, r] [i, r]"
    unfolding insert_effect_def
  proof (intro conjI allI impI ballI)
    show "seg P' p [i, r] n" using at_i at_r by auto
    show "boundary P' (last [i, r]) n" using n_in len at_n by (auto simp: boundary_def)
    show "mset [i, r] = mset [i] + mset (ids_from (length P) (length P' - length P))" by (simp add: len r_def)
  next
    fix u assume u: "unat u < length P" "u \<notin> set [i]"
    show "u \<noteq> n \<Longrightarrow> P' ! unat u = P ! unat u" using other u by simp
    show "relinked P P' u"
    proof (cases "u = n")
      case True
      then have n: "n \<noteq> NO_PAGE" using u(1) room unat_NO_PAGE by auto
      have "payload (P' ! unat n) = leaf_payload r es1" if "payload (P ! unat n) = leaf_payload prev1 es1" for prev1 es1
        using that nes [OF n] at_n [OF n] leaf_payload_link by (metis page.simps(4) page.surjective page.update_convs(4))
      then show ?thesis using True n_in [OF n] at_n [OF n] len by (auto simp: relinked_def)
    next
      case False
      then show ?thesis using other u len by (intro relinked_same) auto
    qed
  next
    fix q assume "q \<in> set P'"
    then obtain j where j: "j < length P'" "q = P' ! j" by (auto simp: in_set_conv_nth)
    define u :: u32 where "u = word_of_nat j"
    have u: "unat u = j" using j(1) len room by (simp add: u_def unat_page_number)
    have old: "page_ok (P ! unat v)" if "unat v < length P" for v :: u32 using ok nth_mem [OF that] by blast
    consider "u = i" | "u = r" | "u = n" "n \<noteq> NO_PAGE" "u \<noteq> i" "u \<noteq> r" | "u \<noteq> i" "u \<noteq> n" "unat u < length P"
    proof -
      have "u \<noteq> NO_PAGE" using u j(1) len room unat_NO_PAGE by auto
      moreover have "unat u < length P" if "u \<noteq> r"
        using unat_neq [OF that] u j(1) len rn by simp
      ultimately show thesis using that by blast
    qed
    then show "page_ok q"
    proof cases
      case 1
      then show ?thesis using j(2) u at_i halves(3) by (simp add: page_ok_def length_leaf_payload)
    next
      case 2
      then show ?thesis using j(2) u at_r halves(4) by (simp add: page_ok_def length_leaf_payload)
    next
      case 3
      have "page_ok (P ! unat n)" "payload (P ! unat n) = leaf_payload i nes" "q = P' ! unat n"
        using n_in [OF 3(2)] nes [OF 3(2)] old [of n] j(2) u 3(1) by blast+
      then show ?thesis using at_n 3(2) by (simp add: page_ok_def length_leaf_payload)
    next
      case 4
      then show ?thesis using other [of u] old [of u] j(2) u by simp
    qed
  qed (simp_all add: len)
  then show ?thesis using ins res len by (intro exI [of _ P'] exI [of _ d'] exI [of _ "Some ?split"] exI [of _ "[i, r]"]) simp
qed

lemma insert_leaf_ok:
  assumes i: "unat i < length P" "ptype (P ! unat i) = IndexLeaf" "payload (P ! unat i) = leaf_payload prev es"
      "\<forall>e \<in> set es. entry_ok e" "length es \<le> 65535" "sorted es"
    and links: "seg P p [i] n" "boundary P i n" "n \<noteq> i"
    and e: "e \<notin> set es" "entry_ok e"
    and room: "length P < MAX_PAGES" and ok: "\<forall>q \<in> set P. page_ok q"
  shows "\<exists>P' d' split us' lvs'. insert_leaf P i e d = Inr (P', d', split) \<and> length P' \<le> Suc (length P) \<and>
    insert_effect P p n [i] [i] P' us' lvs' \<and> insert_result_forest P' 0 i split (insort e es) lvs' us'"
  using insert_leaf_fits [OF assms, of d] insert_leaf_split [OF assms, of d] by blast

section \<open>From a child to its siblings\<close>

lemma hd_append_one: "hd (xs @ ys) = hd (xs @ [hd (ys @ [z])])" if "ys \<noteq> []" for xs ys :: "'a list"
  using that by (cases xs; cases ys) auto

lemma index_leaves_subset:
  "index_tree P i l es lvs us \<Longrightarrow> mset lvs \<subseteq># mset us"
  "index_forest P l is ess lvs us \<Longrightarrow> mset lvs \<subseteq># mset us"
proof (induction rule: index_tree_index_forest.inducts)
  case (tree_node i l c ess cs es lvs us)
  then show ?case by (simp add: subseteq_mset_def le_SucI)
qed (auto simp: subset_mset.add_mono)

lemma distinct_mset_part:
  assumes "distinct ys" "mset xs \<subseteq># mset ys"
  shows "distinct xs"
proof -
  obtain A where "mset ys = mset xs + A" using assms(2) by (auto simp: subset_mset.le_iff_add)
  moreover obtain zs where "A = mset zs" by (metis ex_mset)
  ultimately have "mset ys = mset (xs @ zs)" by simp
  then show ?thesis using assms(1) by (metis distinct_append mset_eq_imp_distinct_iff)
qed

lemma forest_leaves_distinct: "index_forest P l is ess lvs us \<Longrightarrow> distinct us \<Longrightarrow> distinct lvs"
  by (rule distinct_mset_part [OF _ index_leaves_subset(2)])

lemma insert_effect_lift:
  assumes F: "index_forest P l cA EA LA UA" "index_tree P x l ex lx ux" "index_forest P l cB EB LB UB"
    and dis: "distinct (UA @ ux @ UB)" and n: "n \<notin> set (UA @ ux @ UB)"
    and links: "seg P p (LA @ lx @ LB) n" "boundary P (last (LA @ lx @ LB)) n"
    and room: "length P < MAX_PAGES"
    and eff: "insert_effect P (last (p # LA)) (hd (LB @ [n])) ux lx P1 ux' lx'"
  shows "insert_effect P p n (UA @ ux @ UB) (LA @ lx @ LB) P1 (UA @ ux' @ UB) (LA @ lx' @ LB)"
    and "index_forest P1 l cA EA LA UA" and "index_forest P1 l cB EB LB UB"
proof -
  let ?p = "last (p # LA)" and ?n = "hd (LB @ [n])"
  have frame: "relinked P P1 u" "u \<noteq> ?n \<Longrightarrow> P1 ! unat u = P ! unat u" if "unat u < length P" "u \<notin> set ux" for u
    using eff that unfolding insert_effect_def by blast+
  have inA: "unat u < length P" "u \<notin> set ux" if "u \<in> set UA" for u
    using index_tree_pages(2) [OF F(1)] that dis by auto
  have inB: "unat u < length P" "u \<notin> set ux" if "u \<in> set UB" for u
    using index_tree_pages(2) [OF F(3)] that dis by auto
  show A: "index_forest P1 l cA EA LA UA" by (rule tree_relinked(2) [OF F(1)]) (use frame inA in blast)
  show B: "index_forest P1 l cB EB LB UB" by (rule tree_relinked(2) [OF F(3)]) (use frame inB in blast)
  have lA: "set LA \<subseteq> set UA" and lB: "set LB \<subseteq> set UB" and lx: "lx \<noteq> []"
    using index_tree_pages F index_tree_leaves(1) [OF F(2)] by blast+
  have nA: "?n \<notin> set UA" using lB dis n by (cases LB) auto
  have e: "length P \<le> length P1" "mset ux' = mset ux + mset (ids_from (length P) (length P1 - length P))"
    "lx' \<noteq> []" "hd lx' = hd lx" "seg P1 ?p lx' ?n" "boundary P1 (last lx') ?n" "\<forall>q \<in> set P1. page_ok q"
    using eff unfolding insert_effect_def by blast+
  have segs: "seg P p LA (hd lx)" "seg P (last lx) LB n"
    using links(1) lx by (auto simp: seg_append)
  have sA: "seg P1 p LA (hd lx')"
    unfolding e(4) by (rule seg_cong [OF segs(1)]) (use frame(2) inA lA nA in blast)
  have sB: "seg P1 (last lx') LB n"
  proof (cases LB)
    case (Cons v vs)
    then have v: "v \<in> set UB" and vs: "set vs \<subseteq> set UB" "v \<notin> set vs" "v = ?n" using lB forest_leaves_distinct [OF F(3)] dis Cons by auto
    have "v \<noteq> NO_PAGE" using inB(1) [OF v] room unat_NO_PAGE by auto
    show ?thesis
      unfolding Cons
    proof (rule seg_relink [where P = P and p = "last lx"])
      show "v \<noteq> NO_PAGE" by (fact \<open>v \<noteq> NO_PAGE\<close>)
      show "seg P (last lx) (v # vs) n" using segs(2) Cons by simp
      show "boundary P1 (last lx') v" using e(6) Cons by simp
      show "pnext (P1 ! unat v) = pnext (P ! unat v)" using frame(1) [OF inB [OF v]] by (simp add: relinked_def)
      show "\<forall>w \<in> set vs. P1 ! unat w = P ! unat w" using frame(2) inB vs by blast
    qed
  qed simp
  show "insert_effect P p n (UA @ ux @ UB) (LA @ lx @ LB) P1 (UA @ ux' @ UB) (LA @ lx' @ LB)"
    unfolding insert_effect_def
  proof (intro conjI allI impI)
    show "length P \<le> length P1" "\<forall>q \<in> set P1. page_ok q" by (rule e)+
    show "mset (UA @ ux' @ UB) = mset (UA @ ux @ UB) + mset (ids_from (length P) (length P1 - length P))"
      using e(2) by simp
    show "LA @ lx' @ LB \<noteq> []" using e(3) by simp
    show "hd (LA @ lx' @ LB) = hd (LA @ lx @ LB)" using e(3,4) lx by (cases LA) auto
    show "seg P1 p (LA @ lx' @ LB) n"
      using sA sB e(3,5) by (cases lx') (auto simp: seg_append hd_append)
    show "boundary P1 (last (LA @ lx' @ LB)) n"
    proof (cases "LB = []")
      case True
      then show ?thesis using e(3,6) by simp
    next
      case False
      have "boundary P (last LB) n" using links(2) False by simp
      moreover have "unat n < length P1 \<and> P1 ! unat n = P ! unat n" if "n \<noteq> NO_PAGE"
      proof -
        have "unat n < length P" using calculation that by (simp add: boundary_def)
        moreover have "n \<noteq> ?n" using False lB n by (cases LB) auto
        ultimately show ?thesis using frame(2) n e(1) by auto
      qed
      ultimately show ?thesis using False by (auto intro: boundary_cong)
    qed
  next
    fix u assume u: "unat u < length P" "u \<notin> set (UA @ ux @ UB)"
    then show "relinked P P1 u" using frame by simp
    show "P1 ! unat u = P ! unat u" if "u \<noteq> n"
    proof -
      have "u \<noteq> ?n" using u lB that by (cases LB) auto
      then show ?thesis using frame u by simp
    qed
  qed
qed

section \<open>Parents\<close>

lemma branch_sizes:
  "\<forall>b \<in> set bs. branch_ok b \<Longrightarrow> branches_size bs \<le> 114 * length bs"
  "14 * length bs \<le> branches_size bs"
  by (induction bs) (auto simp: branch_ok_def entry_ok_def MAX_VALUE_LENGTH_def)

lemma split_internal_sizes:
  assumes "\<forall>b \<in> set bs. branch_ok b" and "8 + branches_size bs \<le> PAGE_PAYLOAD_SIZE + 114"
    and "\<not> 8 + branches_size bs \<le> PAGE_PAYLOAD_SIZE"
  defines "m \<equiv> Suc (length bs) div 2"
  shows "2 \<le> m" "2 \<le> Suc (length bs) - m"
    "8 + branches_size (take (m - 1) bs) \<le> PAGE_PAYLOAD_SIZE" "8 + branches_size (drop m bs) \<le> PAGE_PAYLOAD_SIZE"
proof -
  have many: "30 \<le> length bs" using branch_sizes(1) [OF assms(1)] assms(3) by (simp add: page_consts)
  then show "2 \<le> m" "2 \<le> Suc (length bs) - m" by (simp_all add: m_def)
  have part: "branches_size bs = branches_size (take j bs) + branches_size (drop j bs)" for j
    by (metis append_take_drop_id branches_size_simps(3))
  have "114 \<le> branches_size (drop (m - 1) bs)" "114 \<le> branches_size (take m bs)"
    using branch_sizes(2) [of "drop (m - 1) bs"] branch_sizes(2) [of "take m bs"] many by (simp_all add: m_def)
  then show "8 + branches_size (take (m - 1) bs) \<le> PAGE_PAYLOAD_SIZE" "8 + branches_size (drop m bs) \<le> PAGE_PAYLOAD_SIZE"
    using assms(2) part [of "m - 1"] part [of m] by auto
qed

text \<open>The payload of a parent of a forest.\<close>

definition parent_payload :: "nat \<Rightarrow> u32 list \<Rightarrow> entry list list \<Rightarrow> bytes" where
  "parent_payload l ch E = internal_payload (word_of_nat (Suc l)) (hd ch) (zip (map hd (tl E)) (tl ch))"

definition forest_branches :: "u32 list \<Rightarrow> entry list list \<Rightarrow> (entry \<times> u32) list" where
  "forest_branches ch E = zip (map hd (tl E)) (tl ch)"

lemma length_parent_payload: "length (parent_payload l ch E) = 8 + branches_size (forest_branches ch E)"
  by (simp add: parent_payload_def forest_branches_def length_internal_payload)

lemma forest_seps_ok:
  assumes "index_forest P l ch E lvs us"
  shows "\<forall>s \<in> set (map hd (tl E)). entry_ok s" and "\<forall>b \<in> set (forest_branches ch E). branch_ok b"
    and "length (forest_branches ch E) = length ch - 1" and "length E = length ch"
proof -
  note fl = forest_lengths [OF assms]
  have "entry_ok (hd es)" if "es \<in> set (tl E)" for es
  proof -
    have "es \<in> set E" using that by (cases E) auto
    then show ?thesis using fl by (cases es) auto
  qed
  then show "\<forall>s \<in> set (map hd (tl E)). entry_ok s" by auto
  moreover have "fst b \<in> set (map hd (tl E))" if "b \<in> set (forest_branches ch E)" for b
    using that set_zip_leftD [of "fst b" "snd b" "map hd (tl E)" "tl ch"] unfolding forest_branches_def prod.collapse by blast
  ultimately show "\<forall>b \<in> set (forest_branches ch E). branch_ok b" unfolding branch_ok_def case_prod_unfold by blast
  show "length (forest_branches ch E) = length ch - 1" "length E = length ch"
    using fl by (simp_all add: forest_branches_def)
qed

lemma encode_parent:
  assumes "index_forest P l ch E lvs us" "2 \<le> length ch" "length ch \<le> 65536" "Suc l \<le> 65535"
  shows "encode_internal_payload \<lparr>ic_level = word_of_nat (Suc l), ic_separators = map hd (tl E), ic_children = ch\<rparr> =
    Inr (parent_payload l ch E)"
proof -
  have "(word_of_nat (Suc l) :: u16) \<noteq> 0"
    by (rule word_Suc_level(3) [OF assms(4)])
  then show ?thesis
    using forest_seps_ok [OF assms(1)] assms(2,3)
    by (subst encode_internal_payload_ok) (auto simp: parent_payload_def)
qed

lemma forest_few: "8 + branches_size (forest_branches ch E) \<le> PAGE_PAYLOAD_SIZE + 114 \<Longrightarrow>
    index_forest P l ch E lvs us \<Longrightarrow> length ch \<le> 65536"
  using branch_sizes(2) [of "forest_branches ch E"] forest_seps_ok(3) [of P l ch E lvs us] by (simp add: page_consts)


lemma forest_halves:
  assumes "index_forest P l ch E lvs us"
  obtains l1 u1 l2 u2 where "index_forest P l (take m ch) (take m E) l1 u1"
    "index_forest P l (drop m ch) (drop m E) l2 u2" "lvs = l1 @ l2" "us = u1 @ u2"
proof -
  have "index_forest P l (take m ch @ drop m ch) E lvs us" using assms by simp
  then obtain E1 E2 l1 l2 u1 u2 where e: "E = E1 @ E2" "lvs = l1 @ l2" "us = u1 @ u2"
    "index_forest P l (take m ch) E1 l1 u1" "index_forest P l (drop m ch) E2 l2 u2"
    unfolding index_forest_append by blast
  have l1: "length E1 = min (length ch) m" and l2: "length E1 + length E2 = length ch"
    using forest_lengths [OF e(4)] forest_lengths [OF assms] by (simp_all add: e(1))
  have "take m E = E1 \<and> drop m E = E2"
  proof (cases "m \<le> length ch")
    case True
    then show ?thesis using l1 by (simp add: e(1))
  next
    case False
    then have "E2 = []" "length E1 \<le> m" using l1 l2 by simp_all
    then show ?thesis by (simp add: e(1))
  qed
  then show thesis using that e by simp
qed

lemma branches_take:
  "forest_branches (take (Suc m) ch) (take (Suc m) E) = take m (forest_branches ch E)"
  "forest_branches (drop m ch) (drop m E) = drop m (forest_branches ch E)"
  by (simp_all add: forest_branches_def take_zip take_map drop_zip drop_map tl_take tl_drop)

lemma concat_sorted_parts: "sorted (concat E) \<Longrightarrow> sorted (concat (take m E)) \<and> sorted (concat (drop m E))"
  by (metis append_take_drop_id concat_append sorted_append)

text \<open>A parent page over a forest.\<close>

lemma parent_tree:
  assumes "index_forest P l ch E lvs us" "2 \<le> length ch" "length ch \<le> 65536" "Suc l \<le> 65535" "sorted (concat E)"
    and "\<And>u. u \<in> set us \<Longrightarrow> unat u < length P' \<and> P' ! unat u = P ! unat u"
    and "unat i < length P'" "ptype (P' ! unat i) = IndexInternal" "pnext (P' ! unat i) = NO_PAGE"
    "payload (P' ! unat i) = parent_payload l ch E"
  shows "index_tree P' i (Suc l) (concat E) lvs (i # us)"
  by (rule tree_of_forest [OF index_tree_cong(2) [OF assms(1) assms(6)]])
    (use assms in \<open>simp_all add: parent_payload_def\<close>)

section \<open>Splitting a parent\<close>

lemma insert_child_ok:
  assumes F: "index_forest P l ch E lvs us" and i: "unat i < length P" "ptype (P ! unat i) = IndexInternal"
      "pnext (P ! unat i) = NO_PAGE" "i \<notin> set us"
    and c: "insert_at k (ns_separator s) (ic_separators c) = map hd (tl E)"
      "insert_at (k + 1) (ns_right_page s) (ic_children c) = ch"
      "ic_level c = word_of_nat (Suc l)" "Suc l \<le> 65535"
    and size: "8 + branches_size (forest_branches ch E) \<le> PAGE_PAYLOAD_SIZE + 114"
    and srt: "sorted (concat E)" and two: "2 \<le> length ch"
    and room: "length P < MAX_PAGES" and ok: "\<forall>q \<in> set P. page_ok q"
  shows "\<exists>P' d' split us'. insert_child P i c k s d = Inr (P', d', split) \<and>
    length P \<le> length P' \<and> length P' \<le> Suc (length P) \<and>
    mset us' = mset (i # us) + mset (ids_from (length P) (length P' - length P)) \<and>
    insert_result_forest P' (Suc l) i split (concat E) lvs us' \<and>
    (\<forall>u. unat u < length P \<longrightarrow> u \<noteq> i \<longrightarrow> P' ! unat u = P ! unat u) \<and> (\<forall>q \<in> set P'. page_ok q)"
proof -
  note few = forest_few [OF size F]
  have inU: "unat u < length P" "u \<noteq> i" if "u \<in> set us" for u using index_tree_pages(2) [OF F] that i(4) by auto
  let ?c = "\<lparr>ic_level = word_of_nat (Suc l), ic_separators = map hd (tl E), ic_children = ch\<rparr>"
  have c': "c\<lparr>ic_separators := insert_at k (ns_separator s) (ic_separators c),
      ic_children := insert_at (k + 1) (ns_right_page s) (ic_children c)\<rparr> = ?c"
    unfolding c(1,2) using c(3) by (cases c) (simp add: internal_contents.defs)
  note enc = encode_parent [OF F two few c(4)]
  show ?thesis
  proof (cases "8 + branches_size (forest_branches ch E) \<le> PAGE_PAYLOAD_SIZE")
    case True
    define P' where "P' = P[unat i := (P ! unat i)\<lparr>payload := parent_payload l ch E\<rparr>]"
    have "insert_child P i c k s d = Inr (P', insert i d, None)"
      unfolding insert_child_def Let_def c' enc using True by (simp add: length_parent_payload P'_def)
    moreover have other: "P' ! unat u = P ! unat u" if "u \<noteq> i" for u
      using that by (simp add: P'_def unat_neq)
    moreover have "index_tree P' i (Suc l) (concat E) lvs (i # us)"
      using i(1-3) inU other by (intro parent_tree [OF F two few c(4) srt]) (auto simp: P'_def)
    then have "insert_result_forest P' (Suc l) i None (concat E) lvs (i # us)"
      using forest_single by (fastforce simp: insert_result_forest_def)
    moreover have "\<forall>q \<in> set P'. page_ok q"
      using ok True unfolding P'_def
      by (auto simp: page_ok_def length_parent_payload dest!: set_update_subset_insert [THEN subsetD])
    ultimately show ?thesis
      by (intro exI [of _ P'] exI [of _ "insert i d"] exI [of _ None] exI [of _ "i # us"]) (auto simp: P'_def)
  next
    case False
    define m where "m = length ch div 2"
    define r :: u32 where "r = word_of_nat (length P)"
    note fo = forest_seps_ok [OF F]
    have chlen: "Suc (length (forest_branches ch E)) = length ch" using fo(3) two by simp
    note sizes = split_internal_sizes [OF fo(2) size False, unfolded chlen, folded m_def]
    obtain l1 u1 l2 u2 where h: "index_forest P l (take m ch) (take m E) l1 u1"
      "index_forest P l (drop m ch) (drop m E) l2 u2" "lvs = l1 @ l2" "us = u1 @ u2"
      by (rule forest_halves [OF F])
    have m: "m \<noteq> 0" "m < length ch" "2 \<le> length (take m ch)" "2 \<le> length (drop m ch)" "length (take m ch) \<le> 65536"
      "length (drop m ch) \<le> 65536" using sizes(1,2) few by auto
    note enc1 = encode_parent [OF h(1) m(3,5) c(4)] and enc2 = encode_parent [OF h(2) m(4,6) c(4)]
    obtain m' where m': "m = Suc m'" using m(1) by (cases m) auto
    have seps: "take (m - Suc 0) (map hd (tl E)) = map hd (tl (take m E))" "drop m (map hd (tl E)) = map hd (tl (drop m E))"
      by (simp_all add: take_map drop_map tl_take tl_drop)
    have lens: "8 + branches_size (forest_branches (take m ch) (take m E)) \<le> PAGE_PAYLOAD_SIZE"
      "8 + branches_size (forest_branches (drop m ch) (drop m E)) \<le> PAGE_PAYLOAD_SIZE"
      using sizes(3,4) by (simp_all add: m' branches_take)
    let ?sep = "map hd (tl E) ! (m - 1)"
    define P1 where "P1 = P[unat i := (P ! unat i)\<lparr>payload := parent_payload l (take m ch) (take m E)\<rparr>]"
    define P' where "P' = P1 @ [Page IndexInternal r NO_PAGE (parent_payload l (drop m ch) (drop m E))]"
    let ?split = "Some \<lparr>ns_separator = ?sep, ns_right_page = r\<rparr>"
    have len: "length P' = Suc (length P)" by (simp add: P'_def P1_def)
    have rn: "unat r = length P" unfolding r_def by (rule unat_page_number [OF room])
    have "split_internal P i ?c d = Inr (P', insert r (insert i d), ?split)"
      using m(3,4) enc1 enc2
      by (simp add: split_internal_def Let_def seps run_simps P'_def P1_def flip: m_def r_def)
    then have ins: "insert_child P i c k s d = Inr (P', insert r (insert i d), ?split)"
      unfolding insert_child_def Let_def c' enc using False by (simp add: length_parent_payload)
    have at: "P' ! unat r = Page IndexInternal r NO_PAGE (parent_payload l (drop m ch) (drop m E))"
      "P' ! unat i = (P ! unat i)\<lparr>payload := parent_payload l (take m ch) (take m E)\<rparr>"
      using i(1) by (simp_all add: rn P'_def P1_def nth_append)
    have other: "P' ! unat u = P ! unat u" if "unat u < length P" "u \<noteq> i" for u
      using that by (simp add: P'_def P1_def nth_append unat_neq)
    have srt2: "sorted (concat (take m E))" "sorted (concat (drop m E))" using concat_sorted_parts [OF srt] by auto
    have "index_tree P' i (Suc l) (concat (take m E)) l1 (i # u1)"
      using i(1-3) inU other at(2) len h(4) by (intro parent_tree [OF h(1) m(3,5) c(4) srt2(1)]) (auto simp: less_Suc_eq)
    moreover have "index_tree P' r (Suc l) (concat (drop m E)) l2 (r # u2)"
      using inU other at(1) len rn h(4) by (intro parent_tree [OF h(2) m(4,6) c(4) srt2(2)]) (auto simp: less_Suc_eq)
    ultimately have pair: "index_forest P' (Suc l) [i, r] [concat (take m E), concat (drop m E)] lvs ((i # u1) @ r # u2)"
      unfolding h(3) by (rule forest_pair)
    have "m < length E" using fo(4) m(2) by simp
    then have "?sep = hd (E ! m)" by (simp add: m' nth_tl)
    also have "\<dots> = hd (concat (drop m E))"
    proof -
      have "E ! m \<noteq> []" using forest_lengths [OF F] nth_mem [OF \<open>m < length E\<close>] by auto
      then show ?thesis using \<open>m < length E\<close> by (simp flip: Cons_nth_drop_Suc)
    qed
    finally have res: "insert_result_forest P' (Suc l) i ?split (concat E) lvs ((i # u1) @ r # u2)"
      unfolding insert_result_forest_def using pair
      by (intro exI [of _ "[concat (take m E), concat (drop m E)]"]) (simp flip: concat_append)
    have "\<forall>q \<in> set P'. page_ok q"
      using ok lens unfolding P'_def P1_def
      by (auto simp: page_ok_def length_parent_payload dest!: set_update_subset_insert [THEN subsetD])
    then show ?thesis
      using ins len res other h(4)
      by (intro exI [of _ P'] exI [of _ "insert r (insert i d)"] exI [of _ ?split] exI [of _ "(i # u1) @ r # u2"])
        (auto simp: r_def)
  qed
qed

end
