(* ===== verification/Insert_Tree.thy ===== *)
theory Insert_Tree
  imports Insert_Split
begin

text \<open>
  Insertion into a valid persistent B+ tree always succeeds while page identifiers last, and yields a
  valid tree with one more entry: the separators stay the least keys of their subtrees, the leaves stay
  at one depth and linked, and only pages of the tree, the left link of the next leaf, and new pages
  are written (\<open>insert_tree_ok\<close>, \<open>insert_index_ok\<close>).
\<close>

section \<open>Descending\<close>

lemma sorted_concat_cross:
  assumes "sorted (concat E)" "j < k" "k < length E" "x \<in> set (E ! j)" "y \<in> set (E ! k)"
  shows "(x :: 'a :: linorder) \<le> y"
proof -
  have "sorted (concat (take k E) @ concat (drop k E))" using assms(1) by (simp flip: concat_append)
  moreover have "E ! j \<in> set (take k E)" using assms(2,3) by (auto simp: in_set_conv_nth intro!: exI [of _ j])
  moreover have "E ! k \<in> set (drop k E)" using assms(3) by (simp flip: Cons_nth_drop_Suc)
  ultimately show ?thesis using assms(4,5) by (auto simp: sorted_append)
qed

text \<open>The child that \<open>upper_bound\<close> selects is the one whose range the entry falls into.\<close>

lemma choose_child:
  fixes e :: entry
  assumes srt: "sorted (concat E)" and ne: "\<forall>es \<in> set E. es \<noteq> []" "E \<noteq> []" and new: "e \<notin> set (concat E)"
  defines "k \<equiv> upper_bound (map hd (tl E)) e"
  shows "k < length E" and "\<forall>y \<in> set (concat (take k E)). y < e" and "\<forall>y \<in> set (concat (drop (Suc k) E)). e < y"
    and "k \<noteq> 0 \<Longrightarrow> hd (E ! k) \<le> e"
proof -
  let ?seps = "map hd (tl E)"
  have k: "k = length (takeWhile (\<lambda>y. \<not> e < y) ?seps)" by (simp add: k_def upper_bound_def)
  have le: "k \<le> length ?seps" unfolding k by (rule length_takeWhile_le)
  then show kE: "k < length E" using ne(2) by (cases E) auto
  have sep: "?seps ! j = hd (E ! Suc j)" if "Suc j < length E" for j using that by (simp add: nth_tl)
  have low: "hd (E ! Suc j) \<le> e" if "j < k" for j
  proof -
    have "takeWhile (\<lambda>y. \<not> e < y) ?seps ! j = ?seps ! j" using that unfolding k by (rule takeWhile_nth)
    moreover have "takeWhile (\<lambda>y. \<not> e < y) ?seps ! j \<in> set (takeWhile (\<lambda>y. \<not> e < y) ?seps)"
      using that unfolding k by (rule nth_mem)
    ultimately have "\<not> e < ?seps ! j" using set_takeWhileD by metis
    then show ?thesis using sep [of j] that kE by simp
  qed
  have high: "e < hd (E ! Suc k)" if "Suc k < length E"
  proof -
    have "k < length ?seps" using that by simp
    then have "e < ?seps ! k" using nth_length_takeWhile [of "\<lambda>y. \<not> e < y" ?seps] unfolding k [symmetric] by simp
    then show ?thesis using sep [OF that] by simp
  qed
  show "hd (E ! k) \<le> e" if "k \<noteq> 0" using low [of "k - 1"] that by simp
  have hdin: "hd (E ! j) \<in> set (E ! j)" if "j < length E" for j using ne(1) that nth_mem by auto
  show "\<forall>y \<in> set (concat (take k E)). y < e"
  proof
    fix y assume y: "y \<in> set (concat (take k E))"
    then obtain es where es: "es \<in> set (take k E)" "y \<in> set es" by auto
    then obtain i where "i < length (take k E)" "take k E ! i = es" by (meson in_set_conv_nth)
    with es(2) obtain j where j: "j < k" "y \<in> set (E ! j)" by auto
    have "y \<le> hd (E ! Suc j)"
      by (rule sorted_concat_cross [OF srt _ _ j(2) hdin]) (use j kE in auto)
    also have "\<dots> \<le> e" by (rule low [OF j(1)])
    finally have "y \<le> e" .
    moreover have "y \<noteq> e" using y new by (auto dest: in_set_takeD)
    ultimately show "y < e" by simp
  qed
  show "\<forall>y \<in> set (concat (drop (Suc k) E)). e < y"
  proof
    fix y assume "y \<in> set (concat (drop (Suc k) E))"
    then obtain es where es: "es \<in> set (drop (Suc k) E)" "y \<in> set es" by auto
    then obtain i where i: "i < length (drop (Suc k) E)" "drop (Suc k) E ! i = es" by (meson in_set_conv_nth)
    define j where "j = Suc k + i"
    have j: "j < length E" "k < j" "y \<in> set (E ! j)" using i es(2) by (auto simp: j_def)
    have "e < hd (E ! Suc k)" by (rule high) (use j in simp)
    also have "\<dots> \<le> y"
    proof (cases "j = Suc k")
      case True
      have "sorted (E ! j)" using srt j(1) by (metis concat_append concat.simps(2) id_take_nth_drop sorted_append)
      then show ?thesis using j(3) True by (cases "E ! j") auto
    next
      case False
      then show ?thesis using j by (intro sorted_concat_cross [OF srt _ j(1) hdin j(3)]) auto
    qed
    finally show "e < y" .
  qed
qed

lemma branches_insert:
  assumes "length cA = length EA" "EA \<noteq> [] \<Longrightarrow> hd a = hd ex"
  shows "branches_size (forest_branches (cA @ [x, r] @ cB) (EA @ [a, b] @ EB)) =
    branches_size (forest_branches (cA @ x # cB) (EA @ ex # EB)) + (2 + length (fst (hd b)) + 8 + 4)"
  using assms by (cases EA; cases cA) (auto simp: forest_branches_def)

lemma separators_insert:
  assumes "EA \<noteq> [] \<Longrightarrow> hd a = hd ex"
  shows "insert_at (length EA) (hd b) (map hd (tl (EA @ ex # EB))) = map hd (tl (EA @ [a, b] @ EB))"
  using assms by (cases EA) (auto simp: insert_at_def)

lemma children_insert: "insert_at (length cA + 1) r (cA @ x # cB) = cA @ [x, r] @ cB"
  by (simp add: insert_at_def)

section \<open>The whole descent\<close>

lemma ids_fresh:
  assumes "w \<in> set (ids_from k m)" "k + m \<le> MAX_PAGES"
  shows "k \<le> unat w" "unat w < k + m"
proof -
  obtain j where j: "k \<le> j" "j < k + m" "w = word_of_nat j" using assms(1) by auto
  then show "k \<le> unat w" "unat w < k + m" using assms(2) by (simp_all add: unat_page_number)
qed

lemma effect_pages:
  assumes "insert_effect P p n us lvs P' us' lvs'" "length P' \<le> MAX_PAGES"
    and "\<forall>u \<in> set us. unat u < length P"
  shows "unat v < length P \<Longrightarrow> v \<in> set us' \<longleftrightarrow> v \<in> set us" and "\<forall>u \<in> set us'. unat u < length P'"
    and "distinct us \<Longrightarrow> distinct us'"
proof -
  let ?new = "ids_from (length P) (length P' - length P)"
  have le: "length P \<le> length P'" and m: "mset us' = mset (us @ ?new)" using assms(1) by (simp_all add: insert_effect_def)
  have s: "set us' = set us \<union> set ?new" using mset_eq_setD [OF m] by (simp only: set_append)
  have new: "length P \<le> unat w" "unat w < length P'" if "w \<in> set ?new" for w
    using ids_fresh [OF that] le assms(2) by simp_all
  show "unat v < length P \<Longrightarrow> v \<in> set us' \<longleftrightarrow> v \<in> set us" using s new(1) [of v] by auto
  show "\<forall>u \<in> set us'. unat u < length P'" using s new(2) assms(3) le by auto
  assume "distinct us"
  moreover have "distinct ?new" by (rule distinct_ids_from) (use le assms(2) in simp)
  ultimately have "distinct (us @ ?new)" using new(1) assms(3) by (auto simp: not_le [symmetric])
  then show "distinct us'" using m mset_eq_imp_distinct_iff by blast
qed

lemma effect_below:
  "insert_effect P p n us lvs P' us' lvs' \<Longrightarrow> insert_effect P p n (i # us) lvs P' (i # us') lvs'"
  by (simp add: insert_effect_def)

text \<open>After the subtree, its parent page changes and perhaps one page is added.\<close>

lemma effect_step:
  assumes eff: "insert_effect P p n us lvs P1 us1 lvs1" and n: "n \<noteq> i"
    and sub: "set lvs1 \<subseteq> set us1" "i \<notin> set us1" "\<forall>u \<in> set us1. unat u < length P1"
    and step: "\<forall>u. unat u < length P1 \<longrightarrow> u \<noteq> i \<longrightarrow> P' ! unat u = P1 ! unat u"
      "length P1 \<le> length P'" "\<forall>q \<in> set P'. page_ok q"
      "mset us' = mset (i # us1) + mset (ids_from (length P1) (length P' - length P1))"
  shows "insert_effect P p n (i # us) lvs P' us' lvs1"
proof -
  have e: "length P \<le> length P1" "mset us1 = mset us + mset (ids_from (length P) (length P1 - length P))"
    "lvs1 \<noteq> []" "hd lvs1 = hd lvs" "seg P1 p lvs1 n" "boundary P1 (last lvs1) n"
    "\<And>u. unat u < length P \<Longrightarrow> u \<notin> set us \<Longrightarrow> relinked P P1 u \<and> (u \<noteq> n \<longrightarrow> P1 ! unat u = P ! unat u)"
    using eff unfolding insert_effect_def by blast+
  have ids: "ids_from (length P) (length P' - length P) =
      ids_from (length P) (length P1 - length P) @ ids_from (length P1) (length P' - length P1)"
    using ids_from_add [of "length P" "length P1 - length P" "length P' - length P1"] e(1) step(2) by simp
  show ?thesis
    unfolding insert_effect_def
  proof (intro conjI allI impI)
    show "length P \<le> length P'" using e(1) step(2) by simp
    show "mset us' = mset (i # us) + mset (ids_from (length P) (length P' - length P))"
      unfolding ids using step(4) e(2) by simp
    show "lvs1 \<noteq> []" "hd lvs1 = hd lvs" by (rule e)+
    show "seg P' p lvs1 n" by (rule seg_cong [OF e(5)]) (use step(1) sub in blast)
    show "boundary P' (last lvs1) n"
      using e(6) step(1,2) n by (auto intro!: boundary_cong [OF e(6)] simp: boundary_def)
    show "\<forall>q \<in> set P'. page_ok q" by (rule step)
  next
    fix u assume u: "unat u < length P" "u \<notin> set (i # us)"
    then have same: "P' ! unat u = P1 ! unat u" "unat u < length P'" using step(1,2) e(1) by auto
    then have "relinked P1 P' u" by (intro relinked_same)
    moreover have "relinked P P1 u" using e(7) u by simp
    ultimately show "relinked P P' u" by (blast intro: relinked_trans)
    show "u \<noteq> n \<Longrightarrow> P' ! unat u = P ! unat u" using same(1) e(7) u by simp
  qed
qed

lemma insort_middle:
  fixes e :: entry
  assumes "\<forall>y \<in> set xs. y < e" "\<forall>y \<in> set zs. e < y"
  shows "insort e (xs @ ys @ zs) = xs @ insort e ys @ zs"
  using assms insort_append_left [of xs e "ys @ zs"] insort_append_right [of zs e ys] by simp

text \<open>The parts of a parent around the child that is chosen.\<close>

lemma split_forest:
  assumes "index_forest P l ch E L U" "k < length E"
  obtains cA x cB LA lx LB UA ux UB where "ch = cA @ x # cB" "length cA = k" "x = ch ! k"
    "L = LA @ lx @ LB" "U = UA @ ux @ UB" "index_forest P l cA (take k E) LA UA" "index_tree P x l (E ! k) lx ux"
    "index_forest P l cB (drop (Suc k) E) LB UB"
proof -
  have len: "length E = length ch" using forest_lengths [OF assms(1)] by simp
  have E: "take k E = ea \<Longrightarrow> drop k E = eb # es \<Longrightarrow> E ! k = eb \<and> drop (Suc k) E = es" for ea eb es
    using assms(2) by (simp flip: Cons_nth_drop_Suc)
  obtain LA UA L2 U2 where h: "index_forest P l (take k ch) (take k E) LA UA"
    "index_forest P l (drop k ch) (drop k E) L2 U2" "L = LA @ L2" "U = UA @ U2"
    by (rule forest_halves [OF assms(1)])
  have d: "drop k ch = ch ! k # drop (Suc k) ch" using assms(2) len by (simp add: Cons_nth_drop_Suc)
  from h(2) [unfolded d] obtain eb es lx ux LB UB where
    t: "drop k E = eb # es" "L2 = lx @ LB" "U2 = ux @ UB" "index_tree P (ch ! k) l eb lx ux"
      "index_forest P l (drop (Suc k) ch) es LB UB"
    by (auto elim: index_forest_ConsE)
  then show thesis
    using that [of "take k ch" "ch ! k" "drop (Suc k) ch" LA lx LB UA ux UB] h E [OF refl t(1)] assms(2) len
    by (simp add: id_take_nth_drop [symmetric])
qed

definition inserts :: "page list \<Rightarrow> u32 \<Rightarrow> nat \<Rightarrow> entry list \<Rightarrow> u32 list \<Rightarrow> u32 list \<Rightarrow> u32 \<Rightarrow> u32 \<Rightarrow> entry \<Rightarrow> u32 set \<Rightarrow> bool" where
  "inserts P i l es lvs us p n e d \<longleftrightarrow>
     (\<exists>P' d' split us' lvs'. insert_index_entry P i e d = Some (Inr (P', d', split)) \<and>
        length P' \<le> length P + Suc l \<and> insert_effect P p n us lvs P' us' lvs' \<and>
        insert_result_forest P' l i split (insort e es) lvs' us')"

lemma decode_parent:
  assumes "index_forest P l ch E L U" "ptype page = IndexInternal" "payload page = parent_payload l ch E"
    "2 \<le> length ch" "length ch \<le> 65536"
  shows "decode_internal_contents page =
    Inr \<lparr>ic_level = word_of_nat (Suc l), ic_separators = map hd (tl E), ic_children = ch\<rparr>"
proof -
  note fo = forest_seps_ok [OF assms(1)]
  have "map fst (forest_branches ch E) = map hd (tl E)" "map snd (forest_branches ch E) = tl ch"
    unfolding forest_branches_def using fo(4) by simp_all
  moreover have "hd ch # tl ch = ch" using assms(4) by (cases ch) auto
  ultimately show ?thesis
    using fo assms(2-5)
    by (auto simp: decode_internal_contents_iff parent_payload_def forest_branches_def
        intro!: exI [of _ "hd ch"] exI [of _ "forest_branches ch E"] simp del: of_nat_Suc)
qed

lemma descend_step:
  assumes "unat i < length P" "ptype (P ! unat i) = IndexInternal" "decode_internal_contents (P ! unat i) = Inr c"
    and "upper_bound (ic_separators c) e = k" "ic_children c ! k = x"
    and "insert_index_entry P x e d = Some (Inr (P1, d1, split))"
  shows "insert_index_entry P i e d =
    (case split of None \<Rightarrow> Some (Inr (P1, d1, None))
     | Some s \<Rightarrow> Some (insert_child P1 i c k s d1))"
  using assms by (subst insert_index_entry.simps) simp

lemma forest_join:
  "index_forest P l is ess lvs us \<Longrightarrow> index_forest P l js ess' lvs' us' \<Longrightarrow>
   index_forest P l (is @ js) (ess @ ess') (lvs @ lvs') (us @ us')"
  unfolding index_forest_append by blast

lemma separators_same:
  "(EA \<noteq> [] \<Longrightarrow> hd a = hd ex) \<Longrightarrow> map hd (tl (EA @ a # EB)) = map hd (tl (EA @ ex # EB))"
  by (cases EA) auto

lemma insert_node_ok:
  assumes F: "index_forest P l ch E L U" and i: "unat i < length P" "ptype (P ! unat i) = IndexInternal"
      "pnext (P ! unat i) = NO_PAGE" "payload (P ! unat i) = parent_payload l ch E"
      "2 \<le> length ch" "length ch \<le> 65536" "Suc l \<le> 65535" "sorted (concat E)"
    and dis: "distinct (i # U)" and n: "n \<notin> set (i # U)" and links: "seg P p L n" "boundary P (last L) n"
    and e: "e \<notin> set (concat E)" "entry_ok e"
    and room: "length P + Suc (Suc l) \<le> MAX_PAGES" and ok: "\<forall>q \<in> set P. page_ok q"
    and IH: "\<And>x ex lx ux p' n'. index_tree P x l ex lx ux \<Longrightarrow> distinct ux \<Longrightarrow> n' \<notin> set ux \<Longrightarrow> seg P p' lx n' \<Longrightarrow>
      boundary P (last lx) n' \<Longrightarrow> e \<notin> set ex \<Longrightarrow> inserts P x l ex lx ux p' n' e d"
  shows "inserts P i (Suc l) (concat E) L (i # U) p n e d"
proof -
  note fl = forest_lengths [OF F]
  have E: "E \<noteq> []" "\<forall>es \<in> set E. es \<noteq> []" using fl i(5) by auto
  define k where "k = upper_bound (map hd (tl E)) e"
  note pick = choose_child [OF i(8) E(2,1) e(1), folded k_def]
  obtain cA x cB LA lx LB UA ux UB where sp: "ch = cA @ x # cB" "length cA = k" "x = ch ! k"
    "L = LA @ lx @ LB" "U = UA @ ux @ UB" "index_forest P l cA (take k E) LA UA" "index_tree P x l (E ! k) lx ux"
    "index_forest P l cB (drop (Suc k) E) LB UB"
    by (rule split_forest [OF F pick(1)])
  let ?EA = "take k E" and ?ex = "E ! k" and ?EB = "drop (Suc k) E"
  have Eq: "E = ?EA @ ?ex # ?EB" using pick(1) by (rule id_take_nth_drop)
  have lx: "lx \<noteq> []" using index_tree_leaves(1) [OF sp(7)] by simp
  have lB: "set LB \<subseteq> set UB" using index_tree_pages(2) [OF sp(8)] by simp
  let ?p = "last (p # LA)" and ?n = "hd (LB @ [n])"
  have roomP: "length P < MAX_PAGES" using room by simp
  have child: "inserts P x l ?ex lx ux ?p ?n e d"
  proof (rule IH [OF sp(7)])
    show "distinct ux" "?n \<notin> set ux" using dis n lB by (cases LB; auto simp: sp(5))+
    show "seg P ?p lx ?n" using links(1) lx by (simp add: sp(4) seg_append)
    show "boundary P (last lx) ?n"
    proof (cases LB)
      case Nil
      then show ?thesis using links(2) lx by (simp add: sp(4))
    next
      case (Cons v vs)
      have "seg P (last lx) (v # vs) n" using links(1) lx Cons by (simp add: sp(4) seg_append)
      then show ?thesis using index_tree_pages(2) [OF sp(8)] index_tree_leaves(2) [OF sp(8)] Cons
        by (auto intro!: seg_boundary)
    qed
    show "e \<notin> set ?ex" using e(1) nth_mem [OF pick(1)] by auto
  qed
  then obtain P1 d1 split ux' lx' where r: "insert_index_entry P x e d = Some (Inr (P1, d1, split))"
    "length P1 \<le> length P + Suc l" "insert_effect P ?p ?n ux lx P1 ux' lx'"
    "insert_result_forest P1 l x split (insort e ?ex) lx' ux'"
    unfolding inserts_def by blast
  let ?L = "LA @ lx' @ LB" and ?U = "UA @ ux' @ UB"
  note lift = insert_effect_lift [OF sp(6-8), folded sp(4,5), OF _ _ links roomP r(3)]
  have eff: "insert_effect P p n U L P1 ?U ?L" and FA: "index_forest P1 l cA ?EA LA UA"
    and FB: "index_forest P1 l cB ?EB LB UB"
    using lift dis n by simp_all
  have inU: "\<forall>u \<in> set U. unat u < length P" using index_tree_pages(2) [OF F] by simp
  have room1: "length P1 < MAX_PAGES" using r(2) room by simp
  note pages = effect_pages [OF eff less_imp_le [OF room1] inU]
  have iU: "i \<notin> set ?U" using pages(1) [OF i(1)] dis by simp
  have i1: "P1 ! unat i = P ! unat i" "unat i < length P1" "\<forall>q \<in> set P1. page_ok q"
    using eff i(1,2) dis by (auto simp: insert_effect_def relinked_def)
  obtain E2 where E2: "index_forest P1 l (x # right_of split) E2 lx' ux'" "concat E2 = insort e ?ex"
    "\<And>s. split = Some s \<Longrightarrow> ns_separator s = hd (E2 ! 1)"
    using r(4) unfolding insert_result_forest_def by blast
  have F1: "index_forest P1 l (cA @ (x # right_of split) @ cB) (?EA @ E2 @ ?EB) ?L ?U"
    by (rule forest_join [OF FA forest_join [OF E2(1) FB]])
  have conc: "concat (?EA @ E2 @ ?EB) = insort e (concat E)"
  proof -
    have "concat E = concat ?EA @ ?ex @ concat ?EB" using arg_cong [OF Eq, of concat] by (simp only: concat_append concat.simps)
    then show ?thesis using insort_middle [OF pick(2,3), of ?ex] E2(2) by (simp only: concat_append)
  qed
  have srt: "sorted (concat (?EA @ E2 @ ?EB))" unfolding conc sorted_insort by (rule i(8))
  have hd_ex: "hd (insort e ?ex) = hd ?ex" if "?EA \<noteq> []"
    using E(2) pick(1,4) that e(1) nth_mem [OF pick(1)] by (intro hd_insort) auto
  note dec = decode_parent [OF F i(2,4-6)]
  have "upper_bound (ic_separators \<lparr>ic_level = word_of_nat (Suc l), ic_separators = map hd (tl E), ic_children = ch\<rparr>) e = k"
    "ic_children \<lparr>ic_level = word_of_nat (Suc l), ic_separators = map hd (tl E), ic_children = ch\<rparr> ! k = x"
    using sp(3) by (simp_all add: k_def)
  note step = descend_step [OF i(1,2) dec this r(1)]
  show ?thesis
  proof (cases split)
    case None
    obtain e2 where e2: "E2 = [e2]" using forest_lengths [OF E2(1)] None by (auto simp: length_Suc_conv)
    then have e2': "e2 = insort e ?ex" using E2(2) by simp
    have ch1: "cA @ (x # right_of split) @ cB = ch" using None sp(1) by simp
    have "map hd (tl (?EA @ E2 @ ?EB)) = map hd (tl (?EA @ ?ex # ?EB))"
      using separators_same [of ?EA e2 ?ex ?EB] hd_ex e2' by (simp add: e2)
    then have "map hd (tl (?EA @ E2 @ ?EB)) = map hd (tl E)" by (simp flip: Eq)
    then have "payload (P1 ! unat i) = parent_payload l ch (?EA @ E2 @ ?EB)"
      using i(4) i1(1) by (simp add: parent_payload_def)
    then have "index_tree P1 i (Suc l) (concat (?EA @ E2 @ ?EB)) ?L (i # ?U)"
      using i i1 pages(2) by (intro parent_tree [OF F1 [unfolded ch1] i(5-7) srt]) auto
    then have "insert_result_forest P1 (Suc l) i None (insort e (concat E)) ?L (i # ?U)"
      unfolding conc insert_result_forest_def using forest_single by fastforce
    then show ?thesis
      unfolding inserts_def using step None effect_below [OF eff] r(2)
      by (intro exI [of _ P1] exI [of _ d1] exI [of _ None] exI [of _ "i # ?U"] exI [of _ ?L]) simp
  next
    case (Some s)
    let ?r = "ns_right_page s"
    obtain a b where ab: "E2 = [a, b]" using forest_lengths [OF E2(1)] Some by (auto simp: length_Suc_conv)
    have ne: "a \<noteq> []" "b \<noteq> []" "\<forall>y \<in> set b. entry_ok y" using forest_lengths [OF E2(1)] by (auto simp: ab)
    have sep: "ns_separator s = hd b" using E2(3) [OF Some] by (simp add: ab)
    have hd_a: "hd a = hd ?ex" if "?EA \<noteq> []" using hd_ex [OF that] E2(2) ne(1) by (simp add: ab) (metis hd_append2)
    have kA: "length ?EA = k" "length cA = length ?EA" using pick(1) sp(2) by simp_all
    have F2: "index_forest P1 l (cA @ [x, ?r] @ cB) (?EA @ [a, b] @ ?EB) ?L ?U" using F1 by (simp add: Some ab)
    have old: "8 + branches_size (forest_branches ch E) \<le> PAGE_PAYLOAD_SIZE"
      using bspec [OF ok nth_mem [OF i(1)]] i(4) by (simp add: page_ok_def length_parent_payload)
    have "length (fst (hd b)) \<le> 100" using ne(2,3) by (cases b) (auto simp: entry_ok_def MAX_VALUE_LENGTH_def)
    then have size: "8 + branches_size (forest_branches (cA @ [x, ?r] @ cB) (?EA @ [a, b] @ ?EB)) \<le> PAGE_PAYLOAD_SIZE + 114"
      using old branches_insert [OF kA(2), of a ?ex x ?r cB b ?EB] hd_a sp(1) Eq by simp
    let ?c = "\<lparr>ic_level = word_of_nat (Suc l), ic_separators = map hd (tl E), ic_children = ch\<rparr>"
    have "\<exists>P' d' split' us'. insert_child P1 i ?c k s d1 = Inr (P', d', split') \<and>
      length P1 \<le> length P' \<and> length P' \<le> Suc (length P1) \<and>
      mset us' = mset (i # ?U) + mset (ids_from (length P1) (length P' - length P1)) \<and>
      insert_result_forest P' (Suc l) i split' (concat (?EA @ [a, b] @ ?EB)) ?L us' \<and>
      (\<forall>u. unat u < length P1 \<longrightarrow> u \<noteq> i \<longrightarrow> P' ! unat u = P1 ! unat u) \<and> (\<forall>q \<in> set P'. page_ok q)"
    proof (rule insert_child_ok [OF F2 i1(2) _ _ iU _ _ _ i(7) size _ _ room1 i1(3)])
      show "insert_at k (ns_separator s) (ic_separators ?c) = map hd (tl (?EA @ [a, b] @ ?EB))"
        using separators_insert [of ?EA a ?ex b ?EB] hd_a kA(1) by (simp add: sep flip: Eq)
      show "insert_at (k + 1) (ns_right_page s) (ic_children ?c) = cA @ [x, ?r] @ cB"
        using children_insert [of cA ?r x cB] sp(1,2) by simp
      show "sorted (concat (?EA @ [a, b] @ ?EB))" using srt by (simp add: ab)
    qed (use i i1 in simp_all)
    then obtain P' d' split' us' where w: "insert_child P1 i ?c k s d1 = Inr (P', d', split')"
      "length P1 \<le> length P'" "length P' \<le> Suc (length P1)"
      "mset us' = mset (i # ?U) + mset (ids_from (length P1) (length P' - length P1))"
      "insert_result_forest P' (Suc l) i split' (insort e (concat E)) ?L us'"
      "\<forall>u. unat u < length P1 \<longrightarrow> u \<noteq> i \<longrightarrow> P' ! unat u = P1 ! unat u" "\<forall>q \<in> set P'. page_ok q"
      using conc by (auto simp: ab)
    have "insert_effect P p n (i # U) L P' us' ?L"
      by (rule effect_step [OF eff _ _ iU pages(2) w(6,2,7,4)]) (use n index_tree_pages(2) [OF F2] in auto)
    then show ?thesis
      unfolding inserts_def using step Some w(1,3,5) r(2)
      by (intro exI [of _ P'] exI [of _ d'] exI [of _ split'] exI [of _ us'] exI [of _ ?L]) simp
  qed
qed

theorem insert_tree_ok:
  "index_tree P i l es lvs us \<Longrightarrow> distinct us \<Longrightarrow> n \<notin> set us \<Longrightarrow> seg P p lvs n \<Longrightarrow> boundary P (last lvs) n \<Longrightarrow>
   e \<notin> set es \<Longrightarrow> entry_ok e \<Longrightarrow> length P + Suc l \<le> MAX_PAGES \<Longrightarrow> \<forall>q \<in> set P. page_ok q \<Longrightarrow>
   inserts P i l es lvs us p n e d"
proof (induction l arbitrary: i es lvs us p n)
  case 0
  from 0(1) obtain prev where i: "unat i < length P" "ptype (P ! unat i) = IndexLeaf"
    "payload (P ! unat i) = leaf_payload prev es" "length es \<le> 65535" "\<forall>e \<in> set es. entry_ok e" "sorted es"
    "lvs = [i]" "us = [i]"
    by (cases rule: index_tree.cases) auto
  have "\<exists>P' d' split us' lvs'. insert_leaf P i e d = Inr (P', d', split) \<and> length P' \<le> Suc (length P) \<and>
    insert_effect P p n [i] [i] P' us' lvs' \<and> insert_result_forest P' 0 i split (insort e es) lvs' us'"
    by (rule insert_leaf_ok [OF i(1-3,5,4,6)]) (use 0 i(7,8) in auto)
  moreover have "insert_index_entry P i e d = Some (insert_leaf P i e d)"
    using i(1,2) by (subst insert_index_entry.simps) simp
  ultimately show ?case unfolding inserts_def i(7,8) by auto
next
  case (Suc l)
  from Suc.prems(1) obtain ch E U where f: "index_forest P l ch E lvs U" "us = i # U" "es = concat E"
    "unat i < length P" "ptype (P ! unat i) = IndexInternal" "pnext (P ! unat i) = NO_PAGE"
    "payload (P ! unat i) = internal_payload (word_of_nat (Suc l)) (hd ch) (zip (map hd (tl E)) (tl ch))"
    "2 \<le> length ch" "length ch \<le> 65536" "Suc l \<le> 65535" "sorted (concat E)"
    by (rule forest_of_tree)
  have pay: "payload (P ! unat i) = parent_payload l ch E" by (simp only: f(7) parent_payload_def)
  show ?case
    unfolding f(2,3)
  proof (rule insert_node_ok [OF f(1,4-6) pay f(8-11)])
    show "inserts P x l ex lx ux p' n' e d"
      if "index_tree P x l ex lx ux" "distinct ux" "n' \<notin> set ux" "seg P p' lx n'" "boundary P (last lx) n'" "e \<notin> set ex"
      for x ex lx ux p' n'
      using Suc.IH [OF that] Suc.prems(7-9) by simp
  qed (use Suc.prems f(2,3) in auto)
qed

section \<open>Height\<close>

text \<open>Every parent has two children, so a tree of level \<open>l\<close> has at least \<open>2\<^sup>l\<close> pages.\<close>

lemma tree_size:
  "index_tree P i l es lvs us \<Longrightarrow> 2 ^ l \<le> length us"
  "index_forest P l is ess lvs us \<Longrightarrow> length is * 2 ^ l \<le> length us"
proof (induction rule: index_tree_index_forest.inducts)
  case (tree_node i l c ess cs es lvs us)
  have "2 \<le> length (c # cs)" using tree_node by (cases cs) auto
  then have "2 * 2 ^ l \<le> length (c # cs) * 2 ^ l" by (rule mult_le_mono1)
  also have "\<dots> \<le> length us" by fact
  finally show ?case by simp
qed auto

lemma distinct_pages_le:
  assumes "distinct us" "\<forall>u \<in> set us. unat (u :: u32) < n"
  shows "length us \<le> n"
proof -
  have "distinct (map unat us)" using assms(1) by (auto simp: distinct_map inj_on_def dest: unsigned_word_eqI)
  then have "length us = card (set (map unat us))" using distinct_card [of "map unat us"] by simp
  also have "\<dots> \<le> card {..<n}" using assms(2) by (intro card_mono) auto
  finally show ?thesis by simp
qed

lemma tree_height:
  assumes "index_tree P i l es lvs us" "distinct us" "length P \<le> MAX_PAGES"
  shows "l < 32"
proof (rule ccontr)
  assume "\<not> l < 32"
  then have "(2 :: nat) ^ 32 \<le> 2 ^ l" by (intro power_increasing) auto
  also have "\<dots> \<le> length us" by (rule tree_size(1) [OF assms(1)])
  also have "\<dots> \<le> length P" using distinct_pages_le [OF assms(2)] index_tree_pages(1) [OF assms(1)] by blast
  finally show False using assms(3) by (simp add: MAX_PAGES_def)
qed

section \<open>The entries with one more row\<close>

lemma sort_snoc: "sort (xs @ [x]) = insort x (sort xs)"
  by (rule properties_for_sort) (simp_all add: sorted_insort)

lemma field_entries_snoc:
  "field_entries (rows @ [row]) f = insort (row ! f, word_of_nat (length rows)) (field_entries rows f)"
proof -
  have "map (\<lambda>r. ((rows @ [row]) ! r ! f, word_of_nat r :: u64)) [0..<length rows] =
      map (\<lambda>r. (rows ! r ! f, word_of_nat r)) [0..<length rows]"
    by (rule map_cong) (simp_all add: nth_append)
  then have "map (\<lambda>r. ((rows @ [row]) ! r ! f, word_of_nat r :: u64)) [0..<length (rows @ [row])] =
      map (\<lambda>r. (rows ! r ! f, word_of_nat r)) [0..<length rows] @ [(row ! f, word_of_nat (length rows))]"
    by simp
  then show ?thesis unfolding field_entries_def by (simp only: sort_snoc)
qed

lemma entry_fresh:
  assumes "length rows < 2 ^ 64 - 1"
  shows "(v, word_of_nat (length rows)) \<notin> set (field_entries rows f)"
proof
  assume "(v, word_of_nat (length rows)) \<in> set (field_entries rows f)"
  then obtain r where "r < length rows" "(word_of_nat r :: u64) = word_of_nat (length rows)"
    by (auto simp: set_field_entries)
  moreover have "unat (word_of_nat k :: u64) = k" if "k \<le> length rows" for k
    using that assms by (simp add: unat_of_nat take_bit_nat_eq_self)
  ultimately show False by (metis less_imp_le_nat less_irrefl order_refl)
qed

section \<open>The index of a field\<close>

lemma node_level_tree:
  assumes "index_tree P i l es lvs us"
  shows "node_level (P ! unat i) = Inr (word_of_nat l)"
proof (cases l)
  case 0
  then show ?thesis using assms by (auto simp: node_level_def elim: index_tree.cases)
next
  case (Suc k)
  from assms [unfolded Suc] obtain ch E U where f: "index_forest P k ch E lvs U"
    "ptype (P ! unat i) = IndexInternal"
    "payload (P ! unat i) = internal_payload (word_of_nat (Suc k)) (hd ch) (zip (map hd (tl E)) (tl ch))"
    "2 \<le> length ch" "length ch \<le> 65536"
    by (rule forest_of_tree)
  have "decode_internal_contents (P ! unat i) =
      Inr \<lparr>ic_level = word_of_nat (Suc k), ic_separators = map hd (tl E), ic_children = ch\<rparr>"
    by (rule decode_parent [OF f(1,2) _ f(4,5)]) (simp only: f(3) parent_payload_def)
  then show ?thesis using f(2) Suc by (simp add: node_level_def)
qed

text \<open>What an insertion into one index promises.\<close>

definition root_effect ::
  "page list \<Rightarrow> u32 list \<Rightarrow> page list \<Rightarrow> u32 list \<Rightarrow> bool" where
  "root_effect P us P' us' \<longleftrightarrow>
     length P \<le> length P' \<and> length P' \<le> length P + 34 \<and>
     mset us' = mset us + mset (ids_from (length P) (length P' - length P)) \<and>
     (\<forall>u. unat u < length P \<longrightarrow> u \<notin> set us \<longrightarrow> P' ! unat u = P ! unat u) \<and>
     (\<forall>q \<in> set P'. page_ok q)"

lemma insert_first_root:
  assumes "entry_ok e" "length P < MAX_PAGES" "\<forall>q \<in> set P. page_ok q"
  shows "\<exists>P' d' root' us'. insert_root P d NO_PAGE e = Some (Inr (P', d', root')) \<and> root_effect P [] P' us' \<and>
    root' \<noteq> NO_PAGE \<and> (\<exists>l lvs. index_tree P' root' l [e] lvs us' \<and> leaves_linked P' lvs)"
proof -
  define r :: u32 where "r = word_of_nat (length P)"
  define P' where "P' = P @ [Page IndexLeaf r NO_PAGE (leaf_payload NO_PAGE [e])]"
  have enc: "encode_leaf_payload NO_PAGE [e] = Inr (leaf_payload NO_PAGE [e])"
    by (rule encode_leaf_payload_ok) (use assms(1) in auto)
  have rn: "unat r = length P" unfolding r_def by (rule unat_page_number [OF assms(2)])
  have fits: "8 + entries_size [e] \<le> PAGE_PAYLOAD_SIZE"
    using assms(1) by (cases e) (simp add: entry_ok_def MAX_VALUE_LENGTH_def page_consts)
  have "insert_root P d NO_PAGE e = Some (Inr (P', insert r d, r))"
    by (simp add: insert_root_def enc P'_def r_def Let_def)
  moreover have "root_effect P [] P' [r]"
    using assms(3) fits by (auto simp: root_effect_def P'_def r_def nth_append page_ok_def length_leaf_payload)
  moreover have "index_tree P' r 0 [e] [r] [r]"
    using fits assms(1) rn by (intro single_leaf [where p = NO_PAGE]) (auto simp: P'_def)
  moreover have "leaves_linked P' [r]" using rn by (auto simp: leaves_linked_seg P'_def)
  moreover have "r \<noteq> NO_PAGE" unfolding r_def by (rule new_page_number(1) [OF assms(2)])
  ultimately show ?thesis by blast
qed

lemma grow_root:
  assumes F: "index_forest P l [root, r] [a, b] lvs us" and room: "length P < MAX_PAGES"
    and l: "Suc l \<le> 65535" and srt: "sorted (a @ b)" and ok: "\<forall>q \<in> set P. page_ok q"
    and links: "leaves_linked P lvs"
  defines "n \<equiv> word_of_nat (length P)"
  defines "P' \<equiv> P @ [Page IndexInternal n NO_PAGE (parent_payload l [root, r] [a, b])]"
  shows "node_level (P ! unat root) = Inr (word_of_nat l)"
    and "encode_internal_payload \<lparr>ic_level = word_of_nat l + 1, ic_separators = [hd b], ic_children = [root, r]\<rparr> =
      Inr (parent_payload l [root, r] [a, b])"
    and "index_tree P' n (Suc l) (a @ b) lvs (n # us)" "leaves_linked P' lvs" "\<forall>q \<in> set P'. page_ok q"
proof -
  have inU: "unat u < length P" if "u \<in> set us" for u using index_tree_pages(2) [OF F] that by simp
  have nn: "unat n = length P" unfolding n_def by (rule unat_page_number [OF room])
  obtain la ua where "index_tree P root l a la ua" using F by (auto elim: index_forest_ConsE)
  then show "node_level (P ! unat root) = Inr (word_of_nat l)" by (rule node_level_tree)
  show "encode_internal_payload \<lparr>ic_level = word_of_nat l + 1, ic_separators = [hd b], ic_children = [root, r]\<rparr> =
      Inr (parent_payload l [root, r] [a, b])"
    using encode_parent [OF F _ _ l] by (simp add: add.commute)
  have same: "unat u < length P' \<and> P' ! unat u = P ! unat u" if "u \<in> set us" for u
    using inU [OF that] by (simp add: P'_def nth_append)
  have "index_tree P' n (Suc l) (concat [a, b]) lvs (n # us)"
    by (rule parent_tree [OF F _ _ l _ same]) (use srt nn in \<open>simp_all add: P'_def\<close>)
  then show "index_tree P' n (Suc l) (a @ b) lvs (n # us)" by simp
  show "leaves_linked P' lvs"
    using links same index_tree_pages(2) [OF F] unfolding leaves_linked_seg by (auto intro: seg_cong)
  have "length (fst (hd b)) \<le> 100"
    using forest_lengths [OF F] by (cases b) (auto simp: entry_ok_def MAX_VALUE_LENGTH_def)
  then show "\<forall>q \<in> set P'. page_ok q"
    using ok by (auto simp: P'_def page_ok_def length_parent_payload forest_branches_def page_consts)
qed

lemma insert_index_ok:
  assumes tree: "index_tree P root l es lvs us" "leaves_linked P lvs" "distinct us" "root \<noteq> NO_PAGE"
    and e: "e \<notin> set es" "entry_ok e" and room: "length P + 34 \<le> MAX_PAGES" and ok: "\<forall>q \<in> set P. page_ok q"
  shows "\<exists>P' d' root' us'. insert_root P d root e = Some (Inr (P', d', root')) \<and> root_effect P us P' us' \<and>
    root' \<noteq> NO_PAGE \<and> (\<exists>l lvs. index_tree P' root' l (insort e es) lvs us' \<and> leaves_linked P' lvs)"
proof -
  have roomP: "length P < MAX_PAGES" "length P \<le> MAX_PAGES" using room by simp_all
  have l: "l < 32" by (rule tree_height [OF tree(1,3) roomP(2)])
  have inU: "\<forall>u \<in> set us. unat u < length P" using index_tree_pages(1) [OF tree(1)] by simp
  then have no: "NO_PAGE \<notin> set us" using roomP unat_NO_PAGE by auto
  have "inserts P root l es lvs us NO_PAGE NO_PAGE e d"
    by (rule insert_tree_ok [OF tree(1,3) no])
      (use tree(2) e ok room l in \<open>simp_all add: leaves_linked_seg boundary_def\<close>)
  then obtain P1 d1 split us1 lvs1 where r: "insert_index_entry P root e d = Some (Inr (P1, d1, split))"
    "length P1 \<le> length P + Suc l" "insert_effect P NO_PAGE NO_PAGE us lvs P1 us1 lvs1"
    "insert_result_forest P1 l root split (insort e es) lvs1 us1"
    unfolding inserts_def by blast
  have eff: "length P \<le> length P1" "mset us1 = mset us + mset (ids_from (length P) (length P1 - length P))"
    "seg P1 NO_PAGE lvs1 NO_PAGE" "\<forall>q \<in> set P1. page_ok q"
    using r(3) unfolding insert_effect_def by blast+
  have frame: "P1 ! unat u = P ! unat u" if "unat u < length P" "u \<notin> set us" for u
  proof -
    have "u \<noteq> NO_PAGE" using that(1) roomP unat_NO_PAGE by auto
    then show ?thesis using r(3) that unfolding insert_effect_def by blast
  qed
  have links: "leaves_linked P1 lvs1" using eff(3) by (simp add: leaves_linked_seg)
  obtain E where E: "index_forest P1 l (root # right_of split) E lvs1 us1" "concat E = insort e es"
    "\<And>s. split = Some s \<Longrightarrow> ns_separator s = hd (E ! 1)"
    using r(4) unfolding insert_result_forest_def by blast
  show ?thesis
  proof (cases split)
    case None
    then have "index_tree P1 root l (insort e es) lvs1 us1"
      using E(1,2) by (auto elim!: index_forest_ConsE)
    moreover have "insert_root P d root e = Some (Inr (P1, d1, root))"
      using tree(4) r(1) None by (simp add: insert_root_def)
    moreover have "root_effect P us P1 us1"
      using eff frame r(2) l by (simp add: root_effect_def)
    ultimately show ?thesis using tree(4) links by blast
  next
    case (Some s)
    let ?r = "ns_right_page s"
    obtain a b where ab: "E = [a, b]" using forest_lengths [OF E(1)] Some by (auto simp: length_Suc_conv)
    have F: "index_forest P1 l [root, ?r] [a, b] lvs1 us1" using E(1) Some by (simp add: ab)
    have ins: "a @ b = insort e es" using E(2) by (simp add: ab)
    have sep: "ns_separator s = hd b" using E(3) [OF Some] by (simp add: ab)
    have room1: "length P1 < MAX_PAGES" "Suc l \<le> 65535" using r(2) room l by simp_all
    have srt: "sorted (a @ b)" unfolding ins sorted_insort using index_tree_entries(1) [OF tree(1)] by simp
    note g = grow_root [OF F room1 srt eff(4) links]
    define n :: u32 where "n = word_of_nat (length P1)"
    define P' where "P' = P1 @ [Page IndexInternal n NO_PAGE (parent_payload l [root, ?r] [a, b])]"
    note g' = g(3-5) [folded n_def, folded P'_def]
    have "insert_root P d root e = Some (Inr (P', insert n d1, n))"
      using tree(4) r(1) Some g(1,2) by (simp add: insert_root_def sep P'_def n_def Let_def)
    moreover have "root_effect P us P' (n # us1)"
    proof -
      have d: "length P' - length P = (length P1 - length P) + 1" using eff(1) by (simp add: P'_def)
      have "ids_from (length P) (length P' - length P) = ids_from (length P) (length P1 - length P) @ [n]"
        unfolding d ids_from_add using eff(1) by (simp add: n_def)
      then have "mset (n # us1) = mset us + mset (ids_from (length P) (length P' - length P))" using eff(2) by simp
      moreover have "length P' \<le> length P + 34" "length P \<le> length P'" using r(2) l eff(1) by (simp_all add: P'_def)
      moreover have "P' ! unat u = P ! unat u" if "unat u < length P" "u \<notin> set us" for u
        using frame [OF that] that(1) eff(1) by (simp add: P'_def nth_append)
      ultimately show ?thesis unfolding root_effect_def using g'(3) by blast
    qed
    moreover have "n \<noteq> NO_PAGE" unfolding n_def by (rule new_page_number(1) [OF room1(1)])
    ultimately show ?thesis using g'(1,2) unfolding ins by blast
  qed
qed

text \<open>In terms of the rows of the table.\<close>

lemma insert_root_ok:
  assumes ix: "index_at P rows f root us" "distinct us"
    and row: "length (row ! f) \<le> MAX_VALUE_LENGTH" "length rows < 2 ^ 64 - 1"
    and room: "length P + 34 \<le> MAX_PAGES" and ok: "\<forall>q \<in> set P. page_ok q"
  shows "\<exists>P' d' root' us'. insert_root P d root (row ! f, word_of_nat (length rows)) = Some (Inr (P', d', root')) \<and>
    root_effect P us P' us' \<and> index_at P' (rows @ [row]) f root' us'"
proof -
  let ?e = "(row ! f, word_of_nat (length rows) :: u64)"
  have e: "entry_ok ?e" "?e \<notin> set (field_entries rows f)" using row entry_fresh [OF row(2)] by (auto simp: entry_ok_def)
  have "\<exists>P' d' root' us'. insert_root P d root ?e = Some (Inr (P', d', root')) \<and> root_effect P us P' us' \<and>
    root' \<noteq> NO_PAGE \<and> (\<exists>l lvs. index_tree P' root' l (insort ?e (field_entries rows f)) lvs us' \<and> leaves_linked P' lvs)"
  proof (cases "rows = []")
    case True
    then have "root = NO_PAGE" "us = []" using ix(1) by (simp_all add: index_at_def)
    moreover have "length P < MAX_PAGES" using room by simp
    moreover have none: "field_entries rows f = []" using True field_entries_Nil by blast
    ultimately show ?thesis using insert_first_root [OF e(1) _ ok, of d] unfolding none insort_key.simps by simp
  next
    case False
    then obtain l lvs where "index_tree P root l (field_entries rows f) lvs us" "leaves_linked P lvs" "root \<noteq> NO_PAGE"
      using ix(1) by (auto simp: index_at_def)
    then show ?thesis using insert_index_ok [OF _ _ ix(2) _ e(2,1) room ok] by blast
  qed
  then show ?thesis by (simp add: index_at_def field_entries_snoc)
qed

end
