(* ===== verification/Insert_Pages.thy ===== *)
theory Insert_Pages
  imports Insert_Tree Insert_Correct
begin

text \<open>
  The pages of a row insertion: the row chain takes the row in at most two new pages, the index of each
  field the new entry in at most 34, and the patched directory and superblock describe the table with
  the row appended (\<open>insert_pages_ok\<close>). An insertion into a compact image never fails while page
  identifiers last.
\<close>

section \<open>Page numbers\<close>

lemma distinct_grow:
  assumes "mset xs' = mset xs + mset (ids_from k m)" "distinct xs" "\<forall>x \<in> set xs. unat x < k" "k + m \<le> MAX_PAGES"
  shows "distinct xs'" "\<forall>x \<in> set xs'. unat x < k + m" "length xs' = length xs + m"
proof -
  have m: "mset xs' = mset (xs @ ids_from k m)" using assms(1) by simp
  have new: "k \<le> unat w" "unat w < k + m" if "w \<in> set (ids_from k m)" for w
    using ids_fresh [OF that assms(4)] by simp_all
  have "distinct (xs @ ids_from k m)"
    using assms(2,3) distinct_ids_from [OF assms(4)] new(1) by (auto simp: not_le [symmetric])
  then show "distinct xs'" using m mset_eq_imp_distinct_iff by blast
  have "set xs' = set xs \<union> set (ids_from k m)" using mset_eq_setD [OF m] by (simp only: set_append)
  then show "\<forall>x \<in> set xs'. unat x < k + m" using assms(3) new(2) by (auto intro: trans_less_add1)
  show "length xs' = length xs + m" using mset_eq_length [OF m] by simp
qed

section \<open>Appending to the row chain\<close>

text \<open>The part of a page that is kept: its type, and its payload as a prefix.\<close>

definition extends_page :: "page \<Rightarrow> page \<Rightarrow> bool" where
  "extends_page p q \<longleftrightarrow> ptype q = ptype p \<and> length (payload p) \<le> length (payload q)"

lemma extends_refl [simp]: "extends_page p p"
  by (simp add: extends_page_def)

lemma extends_trans: "extends_page p q \<Longrightarrow> extends_page q r \<Longrightarrow> extends_page p r"
  by (simp add: extends_page_def)

definition chain_grown :: "page list \<Rightarrow> u32 \<Rightarrow> bytes \<Rightarrow> u32 list \<Rightarrow> page list \<Rightarrow> bool" where
  "chain_grown P h bs ids P' \<longleftrightarrow>
     length P \<le> length P' \<and>
     chain_at P' Rows h bs (ids @ ids_from (length P) (length P' - length P)) \<and>
     (\<forall>u. unat u < length P \<longrightarrow> u \<notin> set ids \<longrightarrow> P' ! unat u = P ! unat u) \<and>
     (\<forall>i < length P. extends_page (P ! i) (P' ! i)) \<and>
     (\<forall>q \<in> set P'. page_ok q)"

lemma page_ok_update: "\<forall>q \<in> set P. page_ok q \<Longrightarrow> page_ok p \<Longrightarrow> \<forall>q \<in> set (P[i := p]). page_ok q"
  by (auto dest!: set_update_subset_insert [THEN subsetD])

lemma chain_grown_step:
  assumes "chain_grown P1 h bs (ids @ [n]) P'" and "length P1 = Suc (length P)" "n = word_of_nat (length P)"
    and "length P < MAX_PAGES"
    and "\<And>u. unat u < length P \<Longrightarrow> u \<notin> set ids \<Longrightarrow> P1 ! unat u = P ! unat u"
    and "\<And>i. i < length P \<Longrightarrow> extends_page (P ! i) (P1 ! i)"
  shows "chain_grown P h bs ids P'"
proof -
  have w: "Suc (length P) \<le> length P'"
    "chain_at P' Rows h bs ((ids @ [n]) @ ids_from (Suc (length P)) (length P' - Suc (length P)))"
    "\<forall>u. unat u < Suc (length P) \<longrightarrow> u \<notin> set (ids @ [n]) \<longrightarrow> P' ! unat u = P1 ! unat u"
    "\<forall>i < Suc (length P). extends_page (P1 ! i) (P' ! i)" "\<forall>q \<in> set P'. page_ok q"
    using assms(1) unfolding chain_grown_def assms(2) by blast+
  have "ids_from (length P) (length P' - length P) =
      word_of_nat (length P) # ids_from (Suc (length P)) (length P' - Suc (length P))"
    using w(1) upt_conv_Cons [of "length P" "length P'"]
    by (simp only: le_add_diff_inverse Suc_leD list.map Suc_le_lessD)
  then have ids: "(ids @ [n]) @ ids_from (Suc (length P)) (length P' - Suc (length P)) =
      ids @ ids_from (length P) (length P' - length P)"
    using assms(3) by simp
  have "P' ! unat u = P ! unat u" if "unat u < length P" "u \<notin> set ids" for u
  proof -
    have "u \<noteq> n" using that(1) assms(3) unat_page_number [OF assms(4)] by auto
    then show ?thesis using w(3) that assms(5) [OF that] by simp
  qed
  moreover have "extends_page (P ! i) (P' ! i)" if "i < length P" for i
    using extends_trans [OF assms(6) [OF that]] w(4) that by simp
  ultimately show ?thesis using w(1,2,5) unfolding chain_grown_def ids by simp
qed

lemma append_to_chain_ok:
  assumes "chain_at P Rows h bs ids" "ids \<noteq> []" "last ids = r" "\<forall>q \<in> set P. page_ok q"
    and "length P + (if payload (P ! unat r) = [] then 0 else 1) + length data div PAGE_PAYLOAD_SIZE \<le> MAX_PAGES"
  shows "\<exists>P' d'. append_to_chain P r data d = Some (P', d') \<and> chain_grown P h (bs @ data) ids P' \<and>
    length P' \<le> length P + (if payload (P ! unat r) = [] then 0 else 1) + length data div PAGE_PAYLOAD_SIZE"
  using assms
proof (induction "(if payload (P ! unat r) = [] then 0 else 1 :: nat) + length data"
    arbitrary: P r bs ids data d rule: less_induct)
  case less
  note chain = less.prems(1,2) and last = chain_at_last [OF less.prems(1,2)]
  define c where "c = PAGE_PAYLOAD_SIZE - length (payload (P ! unat r))"
  define m where "m = min c (length data)"
  let ?x = "take m data" and ?rest = "drop m data"
  define target where "target = (P ! unat r)\<lparr>payload := payload (P ! unat r) @ ?x\<rparr>"
  have r: "unat r < length P" and r_in: "r \<in> set ids" using last less.prems(2,3) by auto
  have old: "page_ok (P ! unat r)" using less.prems(4) nth_mem [OF r] by blast
  then have target_ok: "page_ok target" "extends_page (P ! unat r) target"
    by (auto simp: target_def page_ok_def c_def m_def extends_page_def)
  show ?case
  proof (cases "data = []")
    case True
    then have "append_to_chain P r data d = Some (P, d)" by (subst append_to_chain.simps) simp
    moreover have "chain_grown P h (bs @ data) ids P" using less.prems True by (simp add: chain_grown_def)
    ultimately show ?thesis by auto
  next
    case data: False
    show ?thesis
    proof (cases "?rest = []")
      case True
      let ?P = "P[unat r := target]"
      have "append_to_chain P r data d = Some (?P, insert r d)"
        using data True by (subst append_to_chain.simps) (simp add: Let_def target_def m_def c_def)
      moreover have "chain_at ?P Rows h (bs @ ?x) ids"
        using fill_last_page(2) [OF chain, of ?x] less.prems(3) by (simp add: target_def)
      then have "chain_grown P h (bs @ data) ids ?P"
        using True less.prems(3,2) target_ok page_ok_update [OF less.prems(4) target_ok(1), of "unat r"] r r_in
        by (auto simp: chain_grown_def nth_list_update dest: unsigned_word_eqI)
      ultimately show ?thesis by auto
    next
      case more_data: False
      define n :: u32 where "n = word_of_nat (length P)"
      define P1 where "P1 = P[unat r := target\<lparr>pnext := n\<rparr>] @ [Page Rows n NO_PAGE []]"
      have mc: "m = c" "c < length data" using more_data by (simp_all add: m_def min_def split: if_splits)
      have cap: "length ?rest div PAGE_PAYLOAD_SIZE + 1 \<le>
          (if payload (P ! unat r) = [] then 0 else 1) + length data div PAGE_PAYLOAD_SIZE"
      proof (cases "payload (P ! unat r) = []")
        case True
        then have "m = PAGE_PAYLOAD_SIZE" "PAGE_PAYLOAD_SIZE \<le> length data" using mc by (simp_all add: c_def)
        then show ?thesis using True le_div_geq [of PAGE_PAYLOAD_SIZE "length data"] by (simp add: page_consts)
      next
        case False
        then show ?thesis by (simp add: div_le_mono)
      qed
      then have roomP: "length P < MAX_PAGES" and room1:
          "length P + 1 + length ?rest div PAGE_PAYLOAD_SIZE \<le> MAX_PAGES"
        using less.prems(5) by simp_all
      have step: "append_to_chain P r data d = append_to_chain P1 n ?rest (insert n (insert r d))"
        using data more_data by (subst append_to_chain.simps) (simp add: Let_def target_def m_def c_def P1_def n_def)
      have c1: "chain_at P1 Rows h (bs @ ?x) (ids @ [n])"
        using open_next_page(2) [OF chain roomP, of ?x] less.prems(3) by (simp add: P1_def target_def n_def)
      have nn: "unat n = length P" unfolding n_def by (rule unat_page_number [OF roomP])
      have len1: "length P1 = Suc (length P)" by (simp add: P1_def)
      have new: "payload (P1 ! unat n) = []" by (simp add: P1_def nn nth_append)
      have ok1: "\<forall>q \<in> set P1. page_ok q"
        using page_ok_update [OF less.prems(4), of "target\<lparr>pnext := n\<rparr>" "unat r"] target_ok(1)
        by (auto simp: P1_def page_ok_def)
      have small: "(if payload (P1 ! unat n) = [] then 0 else 1 :: nat) + length ?rest <
          (if payload (P ! unat r) = [] then 0 else 1) + length data"
        using new mc by (auto simp: c_def page_consts)
      have "length P1 + (if payload (P1 ! unat n) = [] then 0 else 1) + length ?rest div PAGE_PAYLOAD_SIZE \<le> MAX_PAGES"
        using new len1 room1 by simp
      from less.hyps [OF small c1 _ _ ok1 this, of "insert n (insert r d)"] obtain P' d' where
        w: "append_to_chain P1 n ?rest (insert n (insert r d)) = Some (P', d')"
        "chain_grown P1 h ((bs @ ?x) @ ?rest) (ids @ [n]) P'"
        "length P' \<le> length P1 + (if payload (P1 ! unat n) = [] then 0 else 1) + length ?rest div PAGE_PAYLOAD_SIZE"
        by auto
      have "chain_grown P h (bs @ data) ids P'"
      proof (rule chain_grown_step)
        show "chain_grown P1 h (bs @ data) (ids @ [n]) P'" using w(2) by simp
        show "P1 ! unat u = P ! unat u" if "unat u < length P" "u \<notin> set ids" for u
          using that r_in unat_neq [of u r] by (cases "u = r") (simp_all add: P1_def nth_append)
        show "extends_page (P ! i) (P1 ! i)" if "i < length P" for i
          using that target_ok(2) by (cases "i = unat r") (simp_all add: P1_def nth_append extends_page_def)
      qed (use len1 roomP in \<open>simp_all add: n_def\<close>)
      then show ?thesis using step w(1,3) new cap len1 by (auto split: if_splits)
    qed
  qed
qed

section \<open>The row\<close>

lemma length_le_row:
  assumes "\<forall>v \<in> set row. length v \<le> MAX_VALUE_LENGTH" "length row \<le> MAX_FIELDS"
  shows "length (le_row n row) div PAGE_PAYLOAD_SIZE \<le> 1"
proof -
  have "length (le_row n row) \<le> 4 + 102 * length row"
    using length_strings [OF assms(1)] by (simp add: le_row_def)
  also have "\<dots> \<le> 6532" using assms(2) by (simp add: MAX_FIELDS_def)
  finally have "length (le_row n row) div PAGE_PAYLOAD_SIZE \<le> 6532 div PAGE_PAYLOAD_SIZE" by (rule div_le_mono)
  then show ?thesis by (simp add: page_consts)
qed

lemma append_row_pages_ok:
  assumes chain: "chain_at P Rows (ih_rows_head h) (le64 k @ rest) ids"
    and head: "8 \<le> length (payload (P ! unat (ih_rows_head h)))"
    and row: "\<forall>v \<in> set row. length v \<le> MAX_VALUE_LENGTH" "length row \<le> MAX_FIELDS"
    and room: "length P + 2 \<le> MAX_PAGES" and ok: "\<forall>q \<in> set P. page_ok q"
  shows "\<exists>P' d. append_row_pages P h row = Some (Inr (P', d)) \<and> length P' \<le> length P + 2 \<and>
    chain_grown P (ih_rows_head h) (le64 (ih_old_row_count h + 1) @ rest @ le_row (ih_field_count h) row) ids P'"
proof -
  let ?h = "ih_rows_head h" and ?count = "le64 (ih_old_row_count h + 1)" and ?data = "le_row (ih_field_count h) row"
  have ne: "ids \<noteq> []" by (rule row_chain_ids [OF chain])
  note start = chain_at_start [OF chain ne]
  define p where "p = (P ! unat ?h)\<lparr>payload := overwrite 0 ?count (payload (P ! unat ?h))\<rparr>"
  define P1 where "P1 = P[unat ?h := p]"
  have patch: "patch_page (\<lambda>bs. write_u64 bs 0 (ih_old_row_count h + 1)) P ?h = Inr P1"
    using head by (simp add: patch_page_Inr write_u64_iff P1_def p_def)
  have lp: "length (payload p) = length (payload (P ! unat ?h))" using head by (simp add: p_def length_overwrite)
  have old: "page_ok (P ! unat ?h)" using start nth_mem ok by blast
  have okp: "page_ok p" using lp old by (auto simp: page_ok_def p_def)
  have ok1: "\<forall>q \<in> set P1. page_ok q" unfolding P1_def by (rule page_ok_update [OF ok okp])
  have c: "chain_at P1 Rows ?h (?count @ rest) ids"
    using chain_at_patch_head [OF chain ne, of ?count] head by (simp add: overwrite_def P1_def p_def)
  have fits: "length P1 + (if payload (P1 ! unat (last ids)) = [] then 0 else 1) + length ?data div PAGE_PAYLOAD_SIZE \<le> MAX_PAGES"
    using length_le_row [OF row, of "ih_field_count h"] room by (simp add: P1_def)
  obtain P' d where w: "append_to_chain P1 (last ids) ?data {?h} = Some (P', d)"
    "chain_grown P1 ?h ((?count @ rest) @ ?data) ids P'"
    "length P' \<le> length P1 + (if payload (P1 ! unat (last ids)) = [] then 0 else 1) + length ?data div PAGE_PAYLOAD_SIZE"
    using append_to_chain_ok [OF c ne refl ok1 fits, of "{?h}"] by blast
  have strings: "foldE append_string (append_u32 [] (ih_field_count h)) row = Inr ?data"
    using row(1) by (simp add: append_strings_iff append_u32_eq le_row_def)
  have "append_row_pages P h row = Some (Inr (P', d))"
    using start patch w(1) last_page_chain [OF c ne] strings by (simp add: append_row_pages_def throw_if_def)
  moreover have "length P' \<le> length P + 2"
    using w(3) length_le_row [OF row, of "ih_field_count h"] by (auto simp: P1_def split: if_splits)
  moreover have "chain_grown P ?h (?count @ rest @ ?data) ids P'"
  proof -
    have hin: "?h \<in> set ids" using start hd_in_set [OF ne] by simp
    have same: "P1 ! unat u = P ! unat u" if "u \<notin> set ids" for u
      using hin that unat_neq [of u ?h] by (cases "u = ?h") (simp_all add: P1_def)
    have ext: "extends_page (P ! i) (P1 ! i)" if "i < length P" for i
      using that lp by (cases "i = unat ?h") (simp_all add: P1_def extends_page_def p_def)
    have len: "length P1 = length P" by (simp add: P1_def)
    show ?thesis
      using w(2) extends_trans [OF ext] unfolding chain_grown_def len append_assoc by (metis same)
  qed
  ultimately show ?thesis by blast
qed

section \<open>The directory\<close>

lemma read_roots_ok:
  assumes "unat (ih_directory_head h) < length P" "ptype (P ! unat (ih_directory_head h)) = IndexDirectory"
    and "payload (P ! unat (ih_directory_head h)) = directory_payload roots"
    and "unat (ih_field_count h) = length roots"
  shows "read_roots P h = Inr roots"
proof -
  have n: "word_of_nat (length roots) = ih_field_count h" using assms(4) by (simp flip: assms(4))
  show ?thesis
    unfolding read_roots_def
    by (simp add: assms throw_if_def c32.bind_iff directory_payload_eq n c32.many_bind_iff)
      (use assms(1,4) in auto)
qed

lemma directory_update:
  assumes "k < length roots"
  shows "overwrite (4 + k * 4) (le32 r) (directory_payload roots) = directory_payload (roots[k := r])"
    and "4 + k * 4 + 4 \<le> length (directory_payload roots)"
proof -
  have len: "length (concat (map le32 xs)) = 4 * length xs" for xs by (induction xs) simp_all
  have split: "roots = take k roots @ roots ! k # drop (Suc k) roots" using assms by (rule id_take_nth_drop)
  have lk: "length (concat (map le32 (take k roots))) = 4 * k" using assms by (simp add: len)
  have "directory_payload roots = (le32 (word_of_nat (length roots)) @ concat (map le32 (take k roots))) @
      le32 (roots ! k) @ concat (map le32 (drop (Suc k) roots))"
    unfolding directory_payload_eq by (subst (2) split) simp
  moreover have "directory_payload (roots[k := r]) =
      (le32 (word_of_nat (length roots)) @ concat (map le32 (take k roots))) @
      le32 r @ concat (map le32 (drop (Suc k) roots))"
    unfolding directory_payload_eq using assms by (simp add: upd_conv_take_nth_drop)
  moreover have "4 + k * 4 = length (le32 (word_of_nat (length roots)) @ concat (map le32 (take k roots)))"
    using lk by simp
  ultimately show "overwrite (4 + k * 4) (le32 r) (directory_payload roots) = directory_payload (roots[k := r])"
    by (simp only: overwrite_append_right length_le32)
  show "4 + k * 4 + 4 \<le> length (directory_payload roots)" using assms by (simp add: directory_payload_eq len)
qed

section \<open>The loop over the fields\<close>

text \<open>The indexes while the loop runs: those of the first \<open>k\<close> fields hold the new row.\<close>

definition indexes_upto ::
  "page list \<Rightarrow> string list list \<Rightarrow> string list \<Rightarrow> nat \<Rightarrow> u32 \<Rightarrow> u32 list \<Rightarrow> u32 list list \<Rightarrow> bool" where
  "indexes_upto P rows row k dir roots uss \<longleftrightarrow>
     unat dir < length P \<and> ptype (P ! unat dir) = IndexDirectory \<and>
     pnext (P ! unat dir) = NO_PAGE \<and> payload (P ! unat dir) = directory_payload roots \<and> length uss = length roots \<and>
     (\<forall>f < length roots. index_at P (if f < k then rows @ [row] else rows) f (roots ! f) (uss ! f)) \<and>
     distinct (dir # concat uss) \<and> (\<forall>q \<in> set P. page_ok q)"

lemma mset_concat_update:
  assumes "k < length uss" "mset us' = mset (uss ! k) + A"
  shows "mset (concat (uss[k := us'])) = mset (concat uss) + A"
proof -
  have a: "uss = take k uss @ uss ! k # drop (Suc k) uss" using assms(1) by (rule id_take_nth_drop)
  have "mset (concat (uss[k := us'])) = mset (concat (take k uss)) + mset us' + mset (concat (drop (Suc k) uss))"
    using assms(1) by (simp add: upd_conv_take_nth_drop)
  moreover have "mset (concat uss) = mset (concat (take k uss)) + mset (uss ! k) + mset (concat (drop (Suc k) uss))"
    by (subst a) simp
  ultimately show ?thesis using assms(2) by simp
qed

lemma distinct_parts:
  assumes "distinct (concat uss)" "f < length uss" "g < length uss" "f \<noteq> g" "u \<in> set (uss ! f)"
  shows "u \<notin> set (uss ! g)"
proof (cases "f < g")
  case True
  have "uss = take g uss @ uss ! g # drop (Suc g) uss" using assms(3) by (rule id_take_nth_drop)
  then have "distinct (concat (take g uss @ uss ! g # drop (Suc g) uss))" using assms(1) by simp
  then have "set (concat (take g uss)) \<inter> set (uss ! g) = {}" by (auto simp del: set_concat)
  moreover have "u \<in> set (concat (take g uss))"
    using assms(3,5) True in_set_conv_nth [of "uss ! f" "take g uss"] by auto
  ultimately show ?thesis by blast
next
  case False
  then have gf: "g < f" using assms(4) by simp
  have "uss = take f uss @ uss ! f # drop (Suc f) uss" using assms(2) by (rule id_take_nth_drop)
  then have "distinct (concat (take f uss @ uss ! f # drop (Suc f) uss))" using assms(1) by simp
  then have "set (concat (take f uss)) \<inter> set (uss ! f) = {}" by (auto simp del: set_concat)
  moreover have "set (uss ! g) \<subseteq> set (concat (take f uss))"
    using assms(2) gf in_set_conv_nth [of "uss ! g" "take f uss"] by auto
  ultimately show ?thesis using assms(5) by blast
qed

lemma length_directory_payload: "length (directory_payload roots) = 4 + 4 * length roots"
  by (induction roots) (simp_all add: directory_payload_eq)

lemma insert_field_ok:
  assumes st: "indexes_upto P rows row k dir roots uss" and k: "k < length roots"
    and row: "length (row ! k) \<le> MAX_VALUE_LENGTH" "length rows < 2 ^ 64 - 1"
    and h: "ih_directory_head h = dir" "ih_old_row_count h = word_of_nat (length rows)"
    and old: "old_roots ! k = roots ! k" "length roots \<le> MAX_FIELDS" and room: "length P + 34 \<le> MAX_PAGES"
  shows "\<exists>P' d' root' us'. insert_field h row old_roots k (P, d) = Some (Inr (P', d')) \<and>
    indexes_upto P' rows row (Suc k) dir (roots[k := root']) (uss[k := us']) \<and>
    length P \<le> length P' \<and> length P' \<le> length P + 34 \<and>
    mset (concat (uss[k := us'])) = mset (concat uss) + mset (ids_from (length P) (length P' - length P)) \<and>
    (\<forall>u. unat u < length P \<longrightarrow> u \<notin> set (dir # concat uss) \<longrightarrow> P' ! unat u = P ! unat u)"
proof -
  have dir: "unat dir < length P" "ptype (P ! unat dir) = IndexDirectory"
    "payload (P ! unat dir) = directory_payload roots" "pnext (P ! unat dir) = NO_PAGE" and lu: "length uss = length roots"
    and ix: "\<And>f. f < length roots \<Longrightarrow> index_at P (if f < k then rows @ [row] else rows) f (roots ! f) (uss ! f)"
    and dist: "dir \<notin> set (concat uss)" "distinct (concat uss)" and ok: "\<forall>q \<in> set P. page_ok q"
    using st unfolding indexes_upto_def distinct.simps by blast+
  have part: "set (uss ! f) \<subseteq> set (concat uss)" if "f < length roots" for f
  proof -
    have "uss ! f \<in> set uss" using that lu by simp
    then show ?thesis by auto
  qed
  have inP: "unat u < length P" if "f < length roots" "u \<in> set (uss ! f)" for f u
    using index_at_pages [OF ix [OF that(1)] that(2)] .
  have "index_at P rows k (roots ! k) (uss ! k)" using ix [OF k] by simp
  moreover have "distinct (uss ! k)" using dist(2) k lu by (auto simp: distinct_concat_iff)
  ultimately obtain P1 d1 root' us' where
    r: "insert_root P d (roots ! k) (row ! k, word_of_nat (length rows)) = Some (Inr (P1, d1, root'))"
    and eff: "root_effect P (uss ! k) P1 us'" and new: "index_at P1 (rows @ [row]) k root' us'"
    using insert_root_ok [OF _ _ row room ok, of "roots ! k" "uss ! k" d] by blast
  have len: "length P \<le> length P1" "length P1 \<le> length P + 34"
    and ms: "mset us' = mset (uss ! k) + mset (ids_from (length P) (length P1 - length P))"
    and frame: "\<And>u. unat u < length P \<Longrightarrow> u \<notin> set (uss ! k) \<Longrightarrow> P1 ! unat u = P ! unat u"
    and ok1: "\<forall>q \<in> set P1. page_ok q"
    using eff unfolding root_effect_def by blast+
  have dk: "dir \<notin> set (uss ! k)" using part [OF k] dist(1) by blast
  have pd: "P1 ! unat dir = P ! unat dir" by (rule frame [OF dir(1) dk])
  define p where "p = (P ! unat dir)\<lparr>payload := directory_payload (roots[k := root'])\<rparr>"
  define P' where "P' = P1[unat dir := p]"
  have patch: "patch_page (\<lambda>bs. write_u32 bs (4 + k * 4) root') P1 dir = Inr P'"
    using directory_update(1) [OF k, of root'] directory_update(2) [OF k] by (simp add: patch_page_Inr write_u32_iff pd dir(3) P'_def p_def)
  have run: "insert_field h row old_roots k (P, d) = Some (Inr (P', d1))"
    using r patch by (simp add: insert_field_def h old(1))
  have other: "P' ! unat u = P1 ! unat u" if "u \<noteq> dir" for u
    using that unat_neq [of u dir] by (simp add: P'_def)
  have len': "length P' = length P1" by (simp add: P'_def)
  have okp: "page_ok p"
  proof -
    have "page_ok (P ! unat dir)" using ok nth_mem [OF dir(1)] by blast
    then show ?thesis using old(2) by (simp add: p_def page_ok_def dir(3) length_directory_payload page_consts MAX_FIELDS_def)
  qed
  have set_us': "u \<in> set (uss ! k) \<or> length P \<le> unat u \<and> unat u < length P1" if "u \<in> set us'" for u
  proof -
    have "set us' = set (uss ! k) \<union> set (ids_from (length P) (length P1 - length P))"
      using ms by (metis mset_append mset_eq_setD set_append)
    then have "u \<in> set (uss ! k) \<or> u \<in> set (ids_from (length P) (length P1 - length P))" using that by blast
    then show ?thesis using ids_fresh [of u "length P" "length P1 - length P"] len room by auto
  qed
  then have dir': "dir \<notin> set us'" using dk dir(1) by fastforce
  have ix': "index_at P' (if f < Suc k then rows @ [row] else rows) f (roots[k := root'] ! f) (uss[k := us'] ! f)"
    if f: "f < length roots" for f
  proof (cases "f = k")
    case True
    have "index_at P' (rows @ [row]) k root' us'"
      by (rule index_at_cong [OF new]) (use index_at_pages [OF new] other dir' len' in \<open>metis\<close>)
    then show ?thesis using True k lu by simp
  next
    case False
    have "index_at P' (if f < k then rows @ [row] else rows) f (roots ! f) (uss ! f)"
    proof (rule index_at_cong [OF ix [OF f]])
      fix u assume u: "u \<in> set (uss ! f)"
      have "u \<noteq> dir" using u part [OF f] dist(1) by blast
      moreover have "u \<notin> set (uss ! k)" using distinct_parts [OF dist(2) _ _ False u] f k lu by simp
      ultimately show "unat u < length P' \<and> P' ! unat u = P ! unat u"
        using inP [OF f u] frame other len len' by simp
    qed
    then show ?thesis using False by (simp add: less_Suc_eq)
  qed
  have ms': "mset (concat (uss[k := us'])) = mset (concat uss) + mset (ids_from (length P) (length P1 - length P))"
    by (rule mset_concat_update) (use ms k lu in simp_all)
  have inC: "\<forall>u \<in> set (concat uss). unat u < length P"
  proof
    fix u assume "u \<in> set (concat uss)"
    then obtain us where "us \<in> set uss" "u \<in> set us" by auto
    then show "unat u < length P" using inP lu by (metis in_set_conv_nth)
  qed
  have "distinct (dir # concat (uss[k := us']))"
    by (rule distinct_grow(1) [of _ "dir # concat uss" "length P" "length P1 - length P"])
      (use ms' dist inC dir(1) len room in auto)
  moreover have "\<forall>q \<in> set P'. page_ok q" unfolding P'_def by (rule page_ok_update [OF ok1 okp])
  moreover have "P' ! unat dir = p" "ptype p = IndexDirectory" "pnext p = NO_PAGE" "payload p = directory_payload (roots[k := root'])"
    using dir len by (simp_all add: P'_def p_def)
  ultimately have "indexes_upto P' rows row (Suc k) dir (roots[k := root']) (uss[k := us'])"
    unfolding indexes_upto_def using ix' dir(1) len len' lu by simp
  moreover have "P' ! unat u = P ! unat u" if "unat u < length P" "u \<notin> set (dir # concat uss)" for u
  proof -
    have "u \<notin> set (uss ! k)" "u \<noteq> dir" using that(2) part [OF k] by auto
    then show ?thesis using other frame [OF that(1)] by simp
  qed
  ultimately show ?thesis using run len ms' unfolding len' [symmetric] by blast
qed

lemma insert_fields_ok:
  assumes "indexes_upto P rows row k dir roots uss" "k \<le> length roots"
    and "\<forall>v \<in> set row. length v \<le> MAX_VALUE_LENGTH" "length row = length roots" "length rows < 2 ^ 64 - 1"
    and "ih_directory_head h = dir" "ih_old_row_count h = word_of_nat (length rows)"
    and "\<forall>f. k \<le> f \<longrightarrow> f < length roots \<longrightarrow> old_roots ! f = roots ! f" "length roots \<le> MAX_FIELDS"
    and "length P + 34 * (length roots - k) \<le> MAX_PAGES"
  shows "\<exists>P' d' roots' uss'. insert_fields h row old_roots [k..<length roots] (P, d) = Some (Inr (P', d')) \<and>
    indexes_upto P' rows row (length roots) dir roots' uss' \<and> length roots' = length roots \<and>
    length P \<le> length P' \<and> length P' \<le> length P + 34 * (length roots - k) \<and>
    mset (concat uss') = mset (concat uss) + mset (ids_from (length P) (length P' - length P)) \<and>
    (\<forall>u. unat u < length P \<longrightarrow> u \<notin> set (dir # concat uss) \<longrightarrow> P' ! unat u = P ! unat u)"
  using assms
proof (induction "length roots - k" arbitrary: k P d roots uss)
  case 0
  then have k: "k = length roots" by simp
  show ?case
    by (rule exI [of _ P], rule exI [of _ d], rule exI [of _ roots], rule exI [of _ uss]) (use 0(2) k in simp)
next
  case (Suc n)
  let ?n = "length roots"
  have k: "k < ?n" and kn: "?n - k = Suc (?n - Suc k)" using Suc.hyps(2) by simp_all
  have v: "length (row ! k) \<le> MAX_VALUE_LENGTH" using Suc.prems(3,4) k by simp
  have room: "length P + 34 \<le> MAX_PAGES" using Suc.prems(10) kn by simp
  have oldk: "old_roots ! k = roots ! k" using Suc.prems(8) k by simp
  obtain P1 d1 root' us' where
    s: "insert_field h row old_roots k (P, d) = Some (Inr (P1, d1))"
    and st: "indexes_upto P1 rows row (Suc k) dir (roots[k := root']) (uss[k := us'])"
    and len: "length P \<le> length P1" "length P1 \<le> length P + 34"
    and ms: "mset (concat (uss[k := us'])) = mset (concat uss) + mset (ids_from (length P) (length P1 - length P))"
    and frame: "\<And>u. unat u < length P \<Longrightarrow> u \<notin> set (dir # concat uss) \<Longrightarrow> P1 ! unat u = P ! unat u"
    using insert_field_ok [OF Suc.prems(1) k v Suc.prems(5,6,7) oldk Suc.prems(9) room, of d] by blast
  have "n = length (roots[k := root']) - Suc k" using Suc.hyps(2) by simp
  moreover have "\<forall>f. Suc k \<le> f \<longrightarrow> f < length (roots[k := root']) \<longrightarrow> old_roots ! f = roots[k := root'] ! f"
    using Suc.prems(8) by simp
  moreover have "length P1 + 34 * (length (roots[k := root']) - Suc k) \<le> MAX_PAGES"
    using Suc.prems(10) len kn by simp
  ultimately obtain P' d' roots' uss' where
    w: "insert_fields h row old_roots [Suc k..<length (roots[k := root'])] (P1, d1) = Some (Inr (P', d'))"
      "indexes_upto P' rows row (length (roots[k := root'])) dir roots' uss'"
      "length roots' = length (roots[k := root'])" "length P1 \<le> length P'"
      "length P' \<le> length P1 + 34 * (length (roots[k := root']) - Suc k)"
      "mset (concat uss') = mset (concat (uss[k := us'])) + mset (ids_from (length P1) (length P' - length P1))"
      "\<forall>u. unat u < length P1 \<longrightarrow> u \<notin> set (dir # concat (uss[k := us'])) \<longrightarrow> P' ! unat u = P1 ! unat u"
    using Suc.hyps(1) [OF _ st, of d1] k Suc.prems(3-7,9) by (metis Suc_leI length_list_update)
  have cut: "[k..<?n] = k # [Suc k..<?n]" using k by (rule upt_conv_Cons)
  have run: "insert_fields h row old_roots [k..<?n] (P, d) = Some (Inr (P', d'))"
    using s w(1) by (simp add: cut)
  have ids: "ids_from (length P) (length P' - length P) =
      ids_from (length P) (length P1 - length P) @ ids_from (length P1) (length P' - length P1)"
    using ids_from_add [of "length P" "length P1 - length P" "length P' - length P1"] len w(4) by simp
  have same: "P' ! unat u = P ! unat u" if u: "unat u < length P" "u \<notin> set (dir # concat uss)" for u
  proof -
    have "set (concat (uss[k := us'])) = set (concat uss) \<union> set (ids_from (length P) (length P1 - length P))"
      using ms by (metis mset_append mset_eq_setD set_append)
    moreover have "u \<notin> set (ids_from (length P) (length P1 - length P))"
      using ids_fresh [of u "length P" "length P1 - length P"] len room u(1) by auto
    ultimately have "u \<notin> set (dir # concat (uss[k := us']))" using u(2) by simp
    then show ?thesis using w(7) frame [OF u] u(1) len by simp
  qed
  have "length P' \<le> length P + 34 * (?n - k)" using w(5) len kn by simp
  moreover have "length P \<le> length P'" using len w(4) by simp
  moreover have "mset (concat uss') = mset (concat uss) + mset (ids_from (length P) (length P' - length P))"
    unfolding w(6) ms ids by (simp only: mset_append add.assoc)
  moreover have "indexes_upto P' rows row ?n dir roots' uss'" "length roots' = ?n" using w(2,3) by simp_all
  ultimately show ?case using run same by blast
qed

section \<open>The pages of a whole insertion\<close>

lemma chain_single:
  assumes "chain_at P t h bs ids" "ids \<noteq> []" "pnext (P ! unat h) = NO_PAGE"
  shows "ids = [h]" "bs = payload (P ! unat h)"
  using assms by (auto elim!: chain_at.cases)

lemma single_chain:
  "h \<noteq> NO_PAGE \<Longrightarrow> unat h < length P \<Longrightarrow> ptype (P ! unat h) = t \<Longrightarrow> pnext (P ! unat h) = NO_PAGE \<Longrightarrow>
   chain_at P t h (payload (P ! unat h)) [h]"
  using chain_at.chain_page [of h P t "[]" "[]"] by simp

lemma directory_payload_ne: "directory_payload roots \<noteq> []"
proof
  assume "directory_payload roots = []"
  then have "length (directory_payload roots) = 0" by simp
  then show False by (simp add: length_directory_payload)
qed

text \<open>The new superblock and the parts of the page list it points to.\<close>

lemma superblock_step:
  fixes g r :: u64
  assumes "0 < length P" "payload (P ! 0) = superblock_payload sb" "length P \<le> MAX_PAGES"
  defines "sb' \<equiv> sb\<lparr>sb_generation := g, sb_page_count := word_of_nat (length P), sb_row_count := r\<rparr>"
  shows "update_superblock P g r = Inr (P[0 := (P ! 0)\<lparr>payload := superblock_payload sb'\<rparr>])"
  using assms(1,2)
  by (simp add: update_superblock_def patch_page_def write_u64_iff [THEN iffD2, OF conjI [OF _ refl]]
      write_u32_iff [THEN iffD2, OF conjI [OF _ refl]] length_overwrite superblock_payload_eq
      superblock_patched [unfolded superblock_payload_eq] sb'_def)

lemma table_pages_parts:
  assumes tp: "table_pages pages sb flds rows roots" and c: "compact_pages pages sb roots"
  obtains sids rids uss where
    "chain_at pages Schema (sb_schema_head sb) (schema_bytes flds) sids"
    "chain_at pages Rows (sb_rows_head sb) (row_bytes (sb_field_count sb) rows) rids"
    "sb_index_directory_head sb \<noteq> NO_PAGE" "unat (sb_index_directory_head sb) < length pages"
    "ptype (pages ! unat (sb_index_directory_head sb)) = IndexDirectory"
    "length uss = length flds" "\<forall>f < length flds. index_at pages rows f (roots ! f) (uss ! f)"
    "distinct (0 # sids @ rids @ sb_index_directory_head sb # concat uss)"
    "length (0 # sids @ rids @ sb_index_directory_head sb # concat uss) = length pages"
proof -
  from tp obtain sids rids dids uss where
    parts: "chain_at pages Schema (sb_schema_head sb) (schema_bytes flds) sids"
    "chain_at pages Rows (sb_rows_head sb) (row_bytes (sb_field_count sb) rows) rids"
    and d: "chain_at pages IndexDirectory (sb_index_directory_head sb) (directory_payload roots) dids" and
    ix: "length uss = length flds" "\<forall>f < length flds. index_at pages rows f (roots ! f) (uss ! f)"
    "distinct (0 # sids @ rids @ dids @ concat uss)" "length (0 # sids @ rids @ dids @ concat uss) = length pages"
    unfolding table_pages_def by blast
  have ne: "dids \<noteq> []" using d directory_payload_ne [of roots] by (auto elim: chain_at.cases)
  note start = chain_at_start [OF d ne]
  have "dids = [sb_index_directory_head sb]"
    by (rule chain_single(1) [OF d ne]) (use c in \<open>simp add: compact_pages_def\<close>)
  then show ?thesis using that [OF parts _ _ _ ix(1)] ix start by simp
qed

text \<open>
  The row stage and the field stage of an insertion, over the page numbers of each structure:
  \<open>sids\<close> and \<open>rids\<close> of the schema and row chains, \<open>uss\<close> of the indexes.
\<close>

lemma distinct_outer:
  "distinct (z # s @ r @ d # c) \<Longrightarrow> u \<in> set (z # s @ d # c) \<Longrightarrow> u \<notin> set r"
  "u \<in> set (z # s @ d # c) \<Longrightarrow> u \<in> set (z # s @ r @ d # c)"
  by auto

lemma distinct_inner:
  assumes "distinct (z # s @ r @ d # c)" "u \<in> set (z # s @ r)"
  shows "u \<notin> set (d # c)" "u \<in> set (z # s @ r @ d # c)"
  using assms by auto

lemma insert_stages_ok:
  assumes schema: "chain_at P Schema sh sbs sids" and rowc: "chain_at P Rows (ih_rows_head h) (le64 k @ rest) rids"
    and head: "8 \<le> length (payload (P ! unat (ih_rows_head h)))"
    and ix: "indexes_upto P rows row 0 (ih_directory_head h) roots uss"
    and dist: "distinct (0 # sids @ rids @ ih_directory_head h # concat uss)" (is "distinct ?all")
    and total: "length (0 # sids @ rids @ ih_directory_head h # concat uss) = length P"
    and zero: "0 < length P"
    and row: "\<forall>v \<in> set row. length v \<le> MAX_VALUE_LENGTH" "length row = length roots" "length roots \<le> MAX_FIELDS"
    and h: "unat (ih_field_count h) = length roots" "ih_old_row_count h = word_of_nat (length rows)"
    and small: "length rows < 2 ^ 64 - 1" and room: "length P + 2 + 34 * length roots \<le> MAX_PAGES"
  shows "\<exists>P1 d1 P2 d2 roots' uss' rids'.
    append_row_pages P h row = Some (Inr (P1, d1)) \<and> read_roots P1 h = Inr roots \<and>
    insert_fields h row roots [0..<length roots] (P1, d1) = Some (Inr (P2, d2)) \<and>
    chain_at P2 Schema sh sbs sids \<and>
    chain_at P2 Rows (ih_rows_head h) (le64 (ih_old_row_count h + 1) @ rest @ le_row (ih_field_count h) row) rids' \<and>
    8 \<le> length (payload (P2 ! unat (ih_rows_head h))) \<and>
    indexes_upto P2 rows row (length roots) (ih_directory_head h) roots' uss' \<and> length roots' = length roots \<and>
    distinct (0 # sids @ rids' @ ih_directory_head h # concat uss') \<and>
    length (0 # sids @ rids' @ ih_directory_head h # concat uss') = length P2 \<and>
    P2 ! 0 = P ! 0 \<and> length P \<le> length P2 \<and> length P2 \<le> length P + 2 + 34 * length roots"
proof -
  let ?dir = "ih_directory_head h" and ?rh = "ih_rows_head h"
  have I: "unat ?dir < length P" "ptype (P ! unat ?dir) = IndexDirectory" "pnext (P ! unat ?dir) = NO_PAGE"
    "payload (P ! unat ?dir) = directory_payload roots" "length uss = length roots"
    "\<And>f. f < length roots \<Longrightarrow> index_at P rows f (roots ! f) (uss ! f)" "\<forall>q \<in> set P. page_ok q"
    using ix unfolding indexes_upto_def less_nat_zero_code if_False by blast+
  have inC: "unat u < length P" if "u \<in> set (concat uss)" for u
  proof -
    from that obtain us where "us \<in> set uss" "u \<in> set us" by auto
    then show ?thesis using index_at_pages [OF I(6)] I(5) by (metis in_set_conv_nth)
  qed
  have inall: "\<forall>u \<in> set ?all. unat u < length P"
    using chain_at_inside [OF schema] chain_at_inside [OF rowc] I(1) inC zero by auto
  have len_row: "length row \<le> MAX_FIELDS" using row(2,3) by simp
  have room1: "length P + 2 \<le> MAX_PAGES" using room by simp
  obtain P1 d1 where a: "append_row_pages P h row = Some (Inr (P1, d1))" "length P1 \<le> length P + 2"
    and g: "chain_grown P ?rh (le64 (ih_old_row_count h + 1) @ rest @ le_row (ih_field_count h) row) rids P1"
    using append_row_pages_ok [OF rowc head row(1) len_row room1 I(7)] by blast
  define new where "new = ids_from (length P) (length P1 - length P)"
  have G: "length P \<le> length P1"
    "chain_at P1 Rows ?rh (le64 (ih_old_row_count h + 1) @ rest @ le_row (ih_field_count h) row) (rids @ new)"
    "\<And>u. unat u < length P \<Longrightarrow> u \<notin> set rids \<Longrightarrow> P1 ! unat u = P ! unat u"
    "\<And>i. i < length P \<Longrightarrow> extends_page (P ! i) (P1 ! i)" "\<forall>q \<in> set P1. page_ok q"
    using g unfolding chain_grown_def new_def by blast+
  have new_ids: "length P \<le> unat u" "unat u < length P1" if "u \<in> set new" for u
    using ids_fresh [of u "length P" "length P1 - length P"] that G(1) a(2) room1 by (simp_all add: new_def)
  have keep: "unat u < length P1 \<and> P1 ! unat u = P ! unat u" if "u \<in> set (0 # sids @ ?dir # concat uss)" for u
  proof -
    have "u \<notin> set rids" by (rule distinct_outer(1) [OF dist that])
    moreover have "unat u < length P" using inall distinct_outer(2) [OF that] by blast
    ultimately show ?thesis using G(1,3) by simp
  qed
  have dir: "P1 ! unat ?dir = P ! unat ?dir" "unat ?dir < length P1" using keep by simp_all
  have roots: "read_roots P1 h = Inr roots"
    by (rule read_roots_ok) (use I dir h(1) in simp_all)
  have ix1: "indexes_upto P1 rows row 0 ?dir roots uss"
    unfolding indexes_upto_def less_nat_zero_code if_False dir
  proof (intro conjI allI impI)
    fix f assume f: "f < length roots"
    have "uss ! f \<in> set uss" using f I(5) by simp
    then show "index_at P1 rows f (roots ! f) (uss ! f)" using keep by (intro index_at_cong [OF I(6) [OF f]]) auto
  qed (use I dir dist G(5) in auto)
  have room2: "length P1 + 34 * (length roots - 0) \<le> MAX_PAGES" using a(2) room by simp
  obtain P2 d2 roots' uss' where
    w: "insert_fields h row roots [0..<length roots] (P1, d1) = Some (Inr (P2, d2))"
      "indexes_upto P2 rows row (length roots) ?dir roots' uss'" "length roots' = length roots"
      "length P1 \<le> length P2" "length P2 \<le> length P1 + 34 * (length roots - 0)"
      "mset (concat uss') = mset (concat uss) + mset (ids_from (length P1) (length P2 - length P1))"
      "\<And>u. unat u < length P1 \<Longrightarrow> u \<notin> set (?dir # concat uss) \<Longrightarrow> P2 ! unat u = P1 ! unat u"
    using insert_fields_ok [OF ix1 _ row(1,2) small refl h(2) _ row(3) room2, of roots d1] by blast
  have keep2: "unat u < length P2 \<and> P2 ! unat u = P1 ! unat u" if u: "u \<in> set (0 # sids @ rids @ new)" for u
  proof (cases "u \<in> set new")
    case True
    then have "length P \<le> unat u" by (rule new_ids(1))
    then have "u \<notin> set (?dir # concat uss)"
      using I(1) inC [of u] by (auto simp del: set_concat)
    then show ?thesis using w(4,7) new_ids(2) [OF True] by simp
  next
    case False
    then have "u \<in> set (0 # sids @ rids)" using u by auto
    note distinct_inner [OF dist this]
    then have "u \<notin> set (?dir # concat uss)" "unat u < length P1" using inall G(1) by (blast, meson order.strict_trans2)
    then show ?thesis using w(4,7) by simp
  qed
  have schema': "chain_at P2 Schema sh sbs sids"
    by (rule chain_at_pages_cong [OF schema]) (use keep keep2 in auto)
  have rows': "chain_at P2 Rows ?rh (le64 (ih_old_row_count h + 1) @ rest @ le_row (ih_field_count h) row) (rids @ new)"
    by (rule chain_at_pages_cong [OF G(2)]) (use keep2 in auto)
  have "rids \<noteq> []" by (rule row_chain_ids [OF rowc])
  then have rh: "?rh \<in> set rids" "unat ?rh < length P" using chain_at_start [OF rowc] hd_in_set [of rids] by auto
  have "8 \<le> length (payload (P1 ! unat ?rh))" using G(4) [OF rh(2)] head by (simp add: extends_page_def)
  then have head': "8 \<le> length (payload (P2 ! unat ?rh))" using keep2 [of ?rh] rh(1) by simp
  have zero': "P2 ! 0 = P ! 0" using keep [of 0] keep2 [of 0] by simp
  have ms: "mset (0 # sids @ (rids @ new) @ ?dir # concat uss') = mset ?all + mset (ids_from (length P) (length P2 - length P))"
  proof -
    have "ids_from (length P) (length P2 - length P) = new @ ids_from (length P1) (length P2 - length P1)"
      using ids_from_add [of "length P" "length P1 - length P" "length P2 - length P1"] G(1) w(4) by (simp add: new_def)
    then show ?thesis using w(6) by simp
  qed
  have "length P + (length P2 - length P) \<le> MAX_PAGES" using w(4,5) a(2) room G(1) by simp
  note fin = distinct_grow [OF ms dist inall this]
  have "length P2 \<le> length P + 2 + 34 * length roots" "length P \<le> length P2" using w(4,5) a(2) G(1) by simp_all
  moreover from this have "length (0 # sids @ (rids @ new) @ ?dir # concat uss') = length P2" using fin(3) total by simp
  ultimately show ?thesis using a(1) roots w(1-3) schema' rows' head' zero' fin(1) by blast
qed

section \<open>The whole insertion on pages\<close>

definition insert_room :: "page list \<Rightarrow> string list \<Rightarrow> bool" where
  "insert_room pages flds \<longleftrightarrow> length pages + 2 + 34 * length flds \<le> MAX_PAGES"

lemma chain_at_update_0:
  assumes "chain_at P t h bs ids" "0 \<notin> set ids"
  shows "chain_at (P[0 := p]) t h bs ids"
proof (rule chain_at_pages_cong [OF assms(1)])
  fix i assume i: "i \<in> set ids"
  then have "unat i \<noteq> 0" using assms(2) unat_eq_zero [of i] by auto
  then show "unat i < length (P[0 := p]) \<and> P[0 := p] ! unat i = P ! unat i"
    using chain_at_inside [OF assms(1) i] by simp
qed

lemma row_bytes_snoc_eq:
  "row_bytes n (rows @ [row]) = le64 (word_of_nat (length rows) + 1) @ concat (map (le_row n) rows) @ le_row n row"
  by (simp add: row_bytes_def add.commute)

lemma superblock_table_pages:
  assumes sc: "chain_at P Schema (sb_schema_head sb) (schema_bytes flds) sids"
    and rc: "chain_at P Rows (sb_rows_head sb) (row_bytes (sb_field_count sb) rows) rids"
    and head: "8 \<le> length (payload (P ! unat (sb_rows_head sb)))"
    and ix: "indexes_upto P rows' row (length roots) (sb_index_directory_head sb) roots uss" "rows = rows' @ [row]"
    and dist: "distinct (0 # sids @ rids @ sb_index_directory_head sb # concat uss)"
    and total: "length (0 # sids @ rids @ sb_index_directory_head sb # concat uss) = length P"
    and super: "ptype (P ! 0) = Superblock" "pnext (P ! 0) = NO_PAGE" "unat (sb_page_count sb) = length P"
      "sb_free_head sb = NO_PAGE" "unat (sb_field_count sb) = length flds" "unat (sb_row_count sb) = length rows"
    and fit: "length rows \<le> ROW_VECTOR_MAX" "table_ok flds rows" "length roots = length flds"
      "sb_index_directory_head sb \<noteq> NO_PAGE"
  defines "P' \<equiv> P[0 := (P ! 0)\<lparr>payload := superblock_payload sb\<rparr>]"
  shows "table_pages P' sb flds rows roots" "compact_pages P' sb roots" "\<forall>q \<in> set P'. page_ok q"
proof -
  let ?dir = "sb_index_directory_head sb"
  have I: "unat ?dir < length P" "ptype (P ! unat ?dir) = IndexDirectory" "pnext (P ! unat ?dir) = NO_PAGE"
    "payload (P ! unat ?dir) = directory_payload roots" "length uss = length roots"
    "\<And>f. f < length flds \<Longrightarrow> index_at P rows f (roots ! f) (uss ! f)" "\<forall>q \<in> set P. page_ok q"
    using ix fit(3) unfolding indexes_upto_def by simp_all
  have pos: "0 < length P" using I(1) by (rule le_less_trans [rotated]) simp
  have len: "length P' = length P" by (simp add: P'_def)
  have no0: "0 \<notin> set sids" "0 \<notin> set rids" "?dir \<noteq> 0" "0 \<notin> set (concat uss)"
    using dist by (simp_all del: set_concat)
  have other: "P' ! unat u = P ! unat u" if "u \<noteq> 0" for u
    using that unat_eq_zero [of u] by (simp add: P'_def)
  have zero: "P' ! 0 = (P ! 0)\<lparr>payload := superblock_payload sb\<rparr>" using pos by (simp add: P'_def)
  have c1: "chain_at P' Schema (sb_schema_head sb) (schema_bytes flds) sids"
    unfolding P'_def by (rule chain_at_update_0 [OF sc no0(1)])
  have c2: "chain_at P' Rows (sb_rows_head sb) (row_bytes (sb_field_count sb) rows) rids"
    unfolding P'_def by (rule chain_at_update_0 [OF rc no0(2)])
  have c3: "chain_at P' IndexDirectory ?dir (directory_payload roots) [?dir]"
    using single_chain [of ?dir P' IndexDirectory] I(1-4) fit(4) other [OF no0(3)] len by simp
  have ix': "index_at P' rows f (roots ! f) (uss ! f)" if f: "f < length flds" for f
  proof (rule index_at_cong [OF I(6) [OF f]])
    fix u assume u: "u \<in> set (uss ! f)"
    have "uss ! f \<in> set uss" using f I(5) fit(3) by simp
    then have "u \<noteq> 0" using u no0(4) by auto
    then show "unat u < length P' \<and> P' ! unat u = P ! unat u"
      using index_at_pages [OF I(6) [OF f] u] other len by simp
  qed
  show "table_pages P' sb flds rows roots"
    unfolding table_pages_def
  proof (intro conjI)
    show "\<exists>sids rids dids uss.
        chain_at P' Schema (sb_schema_head sb) (schema_bytes flds) sids \<and>
        chain_at P' Rows (sb_rows_head sb) (row_bytes (sb_field_count sb) rows) rids \<and>
        chain_at P' IndexDirectory ?dir (directory_payload roots) dids \<and>
        length uss = length flds \<and>
        (\<forall>f < length flds. index_at P' rows f (roots ! f) (uss ! f)) \<and>
        distinct (0 # sids @ rids @ dids @ concat uss) \<and>
        length (0 # sids @ rids @ dids @ concat uss) = length P'"
      by (rule exI [of _ sids], rule exI [of _ rids], rule exI [of _ "[?dir]"], rule exI [of _ uss])
        (use c1 c2 c3 ix' I(5) fit(3) dist total len in simp)
  qed (use zero super fit len in simp_all)
  have "rids \<noteq> []" by (rule row_chain_ids [OF rc [unfolded row_bytes_def]])
  then have "sb_rows_head sb \<noteq> 0" using no0(2) chain_at_start [OF rc] hd_in_set [of rids] by auto
  then show "compact_pages P' sb roots"
    using head I(3,4) other [OF no0(3)] other [of "sb_rows_head sb"] by (simp add: compact_pages_def)
  have "page_ok (P ! 0)" using I(7) pos by simp
  then show "\<forall>q \<in> set P'. page_ok q"
    unfolding P'_def
    by (intro page_ok_update [OF I(7)]) (simp add: page_ok_def superblock_payload_eq page_consts)
qed

lemma insert_pages_ok:
  assumes tp: "table_pages pages sb flds rows roots" and c: "compact_pages pages sb roots"
    and p0: "pages \<noteq> []" "pages_from 0 pages"
    and row: "row_fits flds row" and small: "length rows < ROW_VECTOR_MAX" and room: "insert_room pages flds"
  shows "\<exists>pages' d' sb' roots'. insert_pages pages row g = Some (Inr (pages', d')) \<and>
    table_pages pages' sb' flds (rows @ [row]) roots' \<and> compact_pages pages' sb' roots' \<and>
    (\<forall>q \<in> set pages'. page_ok q) \<and> length pages \<le> length pages' \<and>
    length pages' \<le> length pages + 2 + 34 * length flds"
proof -
  obtain sids rids uss where
    sc: "chain_at pages Schema (sb_schema_head sb) (schema_bytes flds) sids" and
    rc: "chain_at pages Rows (sb_rows_head sb) (row_bytes (sb_field_count sb) rows) rids" and
    dir: "sb_index_directory_head sb \<noteq> NO_PAGE" "unat (sb_index_directory_head sb) < length pages"
    "ptype (pages ! unat (sb_index_directory_head sb)) = IndexDirectory" and
    lu: "length uss = length flds" and
    ix: "\<forall>f < length flds. index_at pages rows f (roots ! f) (uss ! f)" and
    dist: "distinct (0 # sids @ rids @ sb_index_directory_head sb # concat uss)"
    "length (0 # sids @ rids @ sb_index_directory_head sb # concat uss) = length pages"
    by (rule table_pages_parts [OF tp c])
  have T: "ptype (pages ! 0) = Superblock" "pnext (pages ! 0) = NO_PAGE" "payload (pages ! 0) = superblock_payload sb"
    "sb_free_head sb = NO_PAGE" "unat (sb_field_count sb) = length flds"
    "unat (sb_row_count sb) = length rows" "table_ok flds rows" "length roots = length flds"
    using tp unfolding table_pages_def by blast+
  define h where "h = \<lparr>ih_rows_head = sb_rows_head sb, ih_directory_head = sb_index_directory_head sb,
    ih_field_count = sb_field_count sb, ih_old_row_count = sb_row_count sb\<rparr>"
  have hs: "ih_rows_head h = sb_rows_head sb" "ih_directory_head h = sb_index_directory_head sb"
    "ih_field_count h = sb_field_count sb" "ih_old_row_count h = sb_row_count sb" by (simp_all add: h_def)
  have ok: "\<forall>q \<in> set pages. page_ok q" using p0(2) by (metis in_set_conv_nth pages_from_def)
  have k: "sb_row_count sb = word_of_nat (length rows)" by (simp flip: T(6))
  have ixu: "indexes_upto pages rows row 0 (ih_directory_head h) roots uss"
    unfolding indexes_upto_def hs less_nat_zero_code if_False using dir c lu ix T(8) dist(1) ok
    by (simp add: compact_pages_def)
  have flds: "length flds \<le> MAX_FIELDS" using T(7) by (simp add: table_ok_def fields_ok_def)
  have rowc: "chain_at pages Rows (ih_rows_head h)
      (le64 (sb_row_count sb) @ concat (map (le_row (sb_field_count sb)) rows)) rids"
    using rc by (simp add: row_bytes_def k hs)
  have head: "8 \<le> length (payload (pages ! unat (ih_rows_head h)))" using c by (simp add: compact_pages_def hs)
  have srow: "length rows < 2 ^ 64 - 1" using small by (simp add: ROW_VECTOR_MAX_def)
  have room': "length pages + 2 + 34 * length roots \<le> MAX_PAGES" using room T(8) by (simp add: insert_room_def)
  obtain P1 d1 P2 d2 roots' uss' rids' where
    st: "append_row_pages pages h row = Some (Inr (P1, d1))" "read_roots P1 h = Inr roots"
      "insert_fields h row roots [0..<length roots] (P1, d1) = Some (Inr (P2, d2))"
    and s2: "chain_at P2 Schema (sb_schema_head sb) (schema_bytes flds) sids"
    and r2: "chain_at P2 Rows (ih_rows_head h) (le64 (ih_old_row_count h + 1) @
      concat (map (le_row (sb_field_count sb)) rows) @ le_row (ih_field_count h) row) rids'"
    and head2: "8 \<le> length (payload (P2 ! unat (ih_rows_head h)))"
    and ix2: "indexes_upto P2 rows row (length roots) (ih_directory_head h) roots' uss'" and lr: "length roots' = length roots"
    and dist2: "distinct (0 # sids @ rids' @ ih_directory_head h # concat uss')"
      "length (0 # sids @ rids' @ ih_directory_head h # concat uss') = length P2"
    and zero2: "P2 ! 0 = pages ! 0" and len2: "length pages \<le> length P2" "length P2 \<le> length pages + 2 + 34 * length roots"
    using insert_stages_ok [OF sc rowc head ixu dist [folded hs] _ _ _ _ _ _ srow room'] p0(1) row flds T(5,8)
    by (auto simp: row_fits_def hs k)
  define sb' where "sb' = sb\<lparr>sb_generation := g, sb_page_count := word_of_nat (length P2),
    sb_row_count := sb_row_count sb + 1\<rparr>"
  define P3 where "P3 = P2[0 := (P2 ! 0)\<lparr>payload := superblock_payload sb'\<rparr>]"
  have pos: "0 < length P2" using len2(1) length_greater_0_conv [THEN iffD2, OF p0(1)] by (rule less_le_trans [rotated])
  have bound: "length P2 \<le> MAX_PAGES" using len2(2) room' by simp
  have "update_superblock P2 g (ih_old_row_count h + 1) = Inr P3"
    unfolding hs P3_def sb'_def by (rule superblock_step [OF pos _ bound]) (simp add: zero2 T(3))
  then have run: "insert_pages pages row g = Some (Inr (P3, insert 0 (insert (ih_directory_head h) d2)))"
    using st by (simp add: insert_pages_def read_heads_superblock [OF T(3)] flip: h_def)
  have "unat (sb_row_count sb + 1) = length (rows @ [row])"
    using srow unfolding k by (simp add: unat_word_ariths unat_of_nat take_bit_nat_eq_self)
  moreover have "table_ok flds (rows @ [row])" using T(7) row by (auto simp: table_ok_def)
  moreover have "unat (word_of_nat (length P2) :: u32) = length P2"
    using bound by (simp add: unat_of_nat MAX_PAGES_def take_bit_nat_eq_self)
  moreover have "chain_at P2 Rows (sb_rows_head sb) (row_bytes (sb_field_count sb) (rows @ [row])) rids'"
    using r2 unfolding row_bytes_snoc_eq by (simp add: hs k)
  ultimately have "table_pages P3 sb' flds (rows @ [row]) roots'" "compact_pages P3 sb' roots'"
    "\<forall>q \<in> set P3. page_ok q"
    unfolding P3_def
    using superblock_table_pages [of P2 sb' flds sids "rows @ [row]" rids' rows row roots' uss']
      s2 head2 ix2 dist2 zero2 T dir(1) lr small
    by (simp_all add: sb'_def hs)
  moreover have "length P3 = length P2" by (simp add: P3_def)
  ultimately show ?thesis using run len2 T(8) by auto
qed

end
