(* ===== verification/Insert_Total.thy ===== *)
theory Insert_Total
  imports Insert_Pages Storage_Correct
begin

text \<open>
  Insertion as an operation on files: on a table file that creation and earlier insertions wrote, it
  always succeeds while page identifiers, record numbers and generations last. \<open>compact_image\<close> is the
  form of such a file, \<open>insert_rows\<close> a run of insertions.
\<close>

section \<open>Images\<close>

definition compact_image ::
  "string list \<Rightarrow> string list list \<Rightarrow> u64 \<Rightarrow> bytes \<Rightarrow> page list \<Rightarrow> bool" where
  "compact_image flds rows g img pages \<longleftrightarrow>
     pages \<noteq> [] \<and> length pages \<le> MAX_PAGES \<and> pages_from 0 pages \<and> encode_pages pages = Inr img \<and>
     (\<exists>sb roots. table_pages pages sb flds rows roots \<and> compact_pages pages sb roots \<and> sb_generation sb = g)"

lemma compact_image_parse:
  assumes "compact_image flds rows g img pages"
  shows "\<exists>t. parse_image img w = Inr (t, pages) \<and> lt_fields t = flds \<and> lt_rows t = rows \<and>
    in_generation (lt_inspection t) = g"
proof -
  from assms obtain sb roots where p: "pages \<noteq> []" "length pages \<le> MAX_PAGES" "pages_from 0 pages"
    "encode_pages pages = Inr img" "table_pages pages sb flds rows roots" "sb_generation sb = g"
    unfolding compact_image_def by blast
  have "parse_image img w = Inr (loaded_from sb flds rows roots w, pages)"
    unfolding parse_image_iff using p(1-5) by blast
  then show ?thesis using p(6) by simp
qed

lemma build_compact:
  assumes "table_ok flds rows" "image_fits flds rows"
  shows "\<exists>img pages. build_image flds rows g = Inr img \<and> compact_image flds rows g img pages \<and>
    length pages \<le> 3 * (length rows * length flds) + 6"
  using build_image_ok [OF assms, of g] unfolding compact_image_def by blast

lemma build_incremental_insert_ok:
  assumes c: "compact_image flds rows g img pages" and row: "row_fits flds row"
    and g: "g \<noteq> - 1" and small: "length rows < ROW_VECTOR_MAX" and room: "insert_room pages flds"
  shows "\<exists>ii pages'. build_incremental_insert img row = Some (Inr ii) \<and>
    compact_image flds (rows @ [row]) (g + 1) (ii_image ii) pages' \<and>
    length pages \<le> length pages' \<and> length pages' \<le> length pages + 2 + 34 * length flds"
proof -
  from c obtain sb roots where p: "pages \<noteq> []" "length pages \<le> MAX_PAGES" "pages_from 0 pages"
    "encode_pages pages = Inr img" "table_pages pages sb flds rows roots" "compact_pages pages sb roots"
    "sb_generation sb = g"
    unfolding compact_image_def by blast
  obtain t where t: "parse_image img False = Inr (t, pages)" "lt_fields t = flds" "lt_rows t = rows"
    "in_generation (lt_inspection t) = g"
    using compact_image_parse [OF c] by blast
  have rows: "length rows \<noteq> 2 ^ 64 - 1" using small by (simp add: ROW_VECTOR_MAX_def)
  have chk: "check_insert t row = Inr ()"
    using t row g rows by (simp add: check_insert_def run_inv check_values_iff row_fits_def throw_if_def)
  obtain pages' d' sb' roots' where
    ins: "insert_pages pages row (g + 1) = Some (Inr (pages', d'))" and
    tp': "table_pages pages' sb' flds (rows @ [row]) roots'" and c': "compact_pages pages' sb' roots'" and
    ok: "\<forall>q \<in> set pages'. page_ok q" and
    len: "length pages \<le> length pages'" "length pages' \<le> length pages + 2 + 34 * length flds"
    using insert_pages_ok [OF p(5,6,1,3) row small room] by blast
  have small': "length pages' \<le> MAX_PAGES" using len(2) room by (simp add: insert_room_def)
  have ne: "pages' \<noteq> []" using len(1) p(1) by (metis le_zero_eq length_0_conv)
  from p(5) obtain rids where
    chain: "chain_at pages Rows (sb_rows_head sb) (row_bytes (sb_field_count sb) rows) rids"
    unfolding table_pages_def by blast
  have z: "payload (pages ! 0) = superblock_payload sb" "ptype (pages ! 0) = Superblock" "0 < length pages"
    using p(1,5) by (simp_all add: table_pages_def)
  have grown: "grows (insert Superblock (insert Rows update_types)) (pages, {}) (pages', d')"
    by (rule insert_pages_grows [OF ins z chain [unfolded row_bytes_def] small'])
  have p0: "pages_from 0 pages'"
    using grows_pages_from [OF grown p(3)] ok by (auto simp: pages_from_def)
  define new where "new = concat (map page_bytes pages')"
  have enc: "encode_pages pages' = Inr new" using ok by (simp add: encode_pages_iff new_def)
  have gen: "sb_generation sb' = g + 1"
  proof -
    have "row_fits flds row" by (rule row)
    from insert_pages_table(3) [OF ins p(1,5) tp' small' this rows] show ?thesis .
  qed
  have out: "compact_image flds (rows @ [row]) (g + 1) new pages'"
    unfolding compact_image_def using ne small' p0 enc tp' c' gen by blast
  obtain t' where "parse_image new False = Inr (t', pages')" using compact_image_parse [OF out] by blast
  then have "build_incremental_insert img row =
      Some (Inr \<lparr>ii_image = new, ii_dirty_pages = d', ii_generation = g + 1\<rparr>)"
    using t chk ins enc by (simp add: build_incremental_insert_def)
  then show ?thesis using out len by force
qed

section \<open>Files\<close>

text \<open>A table file without a pending log.\<close>

definition stored :: "files \<Rightarrow> path \<Rightarrow> string list \<Rightarrow> string list list \<Rightarrow> u64 \<Rightarrow> nat \<Rightarrow> bool" where
  "stored fs p flds rows g n \<longleftrightarrow> \<not> wal_pending fs p \<and>
     (\<exists>img pages. fs p = Some img \<and> compact_image flds rows g img pages \<and> length pages \<le> n)"

lemma stored_open:
  assumes "stored fs p flds rows g n"
  shows "\<exists>t. open_table fs p = ([], Inr t) \<and> lt_fields t = flds \<and> lt_rows t = rows \<and>
    in_generation (lt_inspection t) = g \<and> lt_indexes t = map (field_entries rows) [0..<length flds]"
proof -
  from assms obtain img pages where s: "\<not> wal_pending fs p" "fs p = Some img" "compact_image flds rows g img pages"
    unfolding stored_def by blast
  obtain t where t: "parse_image img False = Inr (t, pages)" "lt_fields t = flds" "lt_rows t = rows"
    "in_generation (lt_inspection t) = g"
    using compact_image_parse [OF s(3)] by blast
  have "load_table fs p = Inr t" using s t by (auto simp: load_table_Inr)
  then have "open_table fs p = ([], Inr t)" using open_table_quiet [OF s(1)] by simp
  then show ?thesis using t parse_image_table(2) [OF t(1)] by auto
qed

lemma create_stored:
  assumes "\<not> file_exists fs p" "\<not> wal_pending fs p" "table_ok flds rows" "image_fits flds rows"
  shows "\<exists>cs. create_from_rows fs p flds rows = (cs, Inr ()) \<and>
    stored (run cs fs) p flds rows 1 (3 * (length rows * length flds) + 6) \<and> others_same p fs (run cs fs)"
proof -
  obtain img b where c: "build_image flds rows 1 = Inr img" "installs img 1"
    "create_from_rows fs p flds rows = commit_image fs p img 1 {}" "PageBuffer img {} = Inr b"
    "clean_pages_agree img (old_bytes fs p) (pb_dirty b)"
    by (rule create_commits [OF assms])
  let ?m = "commit_image fs p img 1 {}"
  note fin = run_commit_committed [OF c(2,4,5)]
  obtain pages where "compact_image flds rows 1 img pages" "length pages \<le> 3 * (length rows * length flds) + 6"
    using build_compact [OF assms(3,4), of 1] c(1) by auto
  then have "stored (run (fst ?m) fs) p flds rows 1 (3 * (length rows * length flds) + 6)"
    unfolding stored_def using fin(2) committed_quiet [OF fin(2)] by (auto simp: committed_def)
  then show ?thesis using fin c(3) by (cases ?m) (auto simp: committed_def)
qed

text \<open>An insertion into such a table: what it installs, and that it succeeds.\<close>

lemma insert_installs:
  assumes s: "stored fs p flds rows g n" and row: "row_fits flds row"
    and g: "g \<noteq> - 1" and small: "length rows < ROW_VECTOR_MAX" and room: "n + 2 + 34 * length flds \<le> MAX_PAGES"
  obtains img and ii :: incremental_image and pages' and b :: page_buffer where "fs p = Some img" "compact_image flds (rows @ [row]) (g + 1) (ii_image ii) pages'"
    "length pages' \<le> n + 2 + 34 * length flds"
    "insert_row fs p row = Some (commit_image fs p (ii_image ii) (ii_generation ii) (ii_dirty_pages ii))"
    "installs (ii_image ii) (ii_generation ii)" "replaces fs p (ii_generation ii)"
    "PageBuffer (ii_image ii) (ii_dirty_pages ii) = Inr b"
    "clean_pages_agree (ii_image ii) (old_bytes fs p) (pb_dirty b)"
proof -
  from s obtain img pages where f: "\<not> wal_pending fs p" "fs p = Some img" "compact_image flds rows g img pages"
    "length pages \<le> n"
    unfolding stored_def by blast
  have "insert_room pages flds" using f(4) room by (simp add: insert_room_def)
  from build_incremental_insert_ok [OF f(3) row g small this] obtain ii pages' where
    b: "build_incremental_insert img row = Some (Inr ii)"
    and new: "compact_image flds (rows @ [row]) (g + 1) (ii_image ii) pages'"
    "length pages' \<le> length pages + 2 + 34 * length flds"
    by blast
  let ?m = "commit_image fs p (ii_image ii) (ii_generation ii) (ii_dirty_pages ii)"
  have "insert_row fs p row = Some (cs, r)" if "(cs, r) = ?m" for cs r
    by (rule insert_row_quiet [OF f(1), THEN iffD2]) (use f(2) b that in \<open>simp add: read_file_def\<close>)
  from this [OF prod.collapse] have run: "insert_row fs p row = Some ?m" by simp
  obtain t where t: "parse_image img False = Inr (t, pages)" using compact_image_parse [OF f(3)] by blast
  obtain b' where c: "installs (ii_image ii) (ii_generation ii)" "replaces fs p (ii_generation ii)"
    "PageBuffer (ii_image ii) (ii_dirty_pages ii) = Inr b'"
    "clean_pages_agree (ii_image ii) (old_bytes fs p) (pb_dirty b')"
    by (rule insert_commits [where fs = fs and p = p, OF f(2) t b])
  have "length pages' \<le> n + 2 + 34 * length flds" using new(2) f(4) by simp
  from that [OF f(2) new(1) this run c] show ?thesis .
qed

lemma insert_row_ok:
  assumes "stored fs p flds rows g n" "row_fits flds row" "g \<noteq> - 1" "length rows < ROW_VECTOR_MAX"
    "n + 2 + 34 * length flds \<le> MAX_PAGES"
  shows "\<exists>cs. insert_row fs p row = Some (cs, Inr ()) \<and>
    stored (run cs fs) p flds (rows @ [row]) (g + 1) (n + 2 + 34 * length flds) \<and> others_same p fs (run cs fs)"
proof -
  obtain img and ii :: incremental_image and pages' and b :: page_buffer where i: "compact_image flds (rows @ [row]) (g + 1) (ii_image ii) pages'"
    "length pages' \<le> n + 2 + 34 * length flds"
    "insert_row fs p row = Some (commit_image fs p (ii_image ii) (ii_generation ii) (ii_dirty_pages ii))"
    and c: "installs (ii_image ii) (ii_generation ii)" "PageBuffer (ii_image ii) (ii_dirty_pages ii) = Inr b"
    "clean_pages_agree (ii_image ii) (old_bytes fs p) (pb_dirty b)"
    by (rule insert_installs [OF assms])
  let ?m = "commit_image fs p (ii_image ii) (ii_generation ii) (ii_dirty_pages ii)"
  note fin = run_commit_committed [OF c]
  have "stored (run (fst ?m) fs) p flds (rows @ [row]) (g + 1) (n + 2 + 34 * length flds)"
    unfolding stored_def using fin(2) committed_quiet [OF fin(2)] i(1,2) by (auto simp: committed_def)
  then show ?thesis using fin i(3) by (cases ?m) (auto simp: committed_def)
qed

section \<open>Runs of insertions\<close>

fun insert_rows :: "files \<Rightarrow> path \<Rightarrow> string list list \<Rightarrow> files option" where
  "insert_rows fs p [] = Some fs"
| "insert_rows fs p (row # rows) =
     (case insert_row fs p row of
        Some (cs, Inr _) \<Rightarrow> insert_rows (run cs fs) p rows
      | _ \<Rightarrow> None)"

lemma generation_step:
  assumes "unat g + Suc k < 2 ^ 64"
  shows "g \<noteq> (- 1 :: u64)" "unat (g + 1) = Suc (unat g)"
proof -
  show "g \<noteq> - 1"
  proof
    assume "g = - 1"
    then have "unat g = 2 ^ 64 - 1" by (simp add: unsigned_minus_1_eq_mask mask_eq_exp_minus_1)
    then show False using assms by simp
  qed
  then have "1 + g \<noteq> 0" by (simp add: add_eq_0_iff)
  then show "unat (g + 1) = Suc (unat g)" by (simp add: unatSuc add.commute [of g])
qed

definition run_room :: "string list \<Rightarrow> string list list \<Rightarrow> nat \<Rightarrow> bool" where
  "run_room flds rows k \<longleftrightarrow> 3 * (length rows * length flds) + 6 + k * (2 + 34 * length flds) \<le> MAX_PAGES"

lemma run_room_bounds:
  assumes "run_room flds rows k" "flds \<noteq> []"
  shows "image_fits flds rows" "1 + k < 2 ^ 64" "length rows + k \<le> ROW_VECTOR_MAX"
proof -
  have "length rows \<le> length rows * length flds" "k \<le> k * (2 + 34 * length flds)"
    using assms(2) by (cases flds; simp)+
  moreover have "a + b \<le> 4294967295" if "a \<le> x" "b \<le> y" "3 * x + 6 + y \<le> MAX_PAGES" for a b x y :: nat
    using that by (simp add: MAX_PAGES_def)
  ultimately have "length rows + k \<le> 4294967295" using assms(1) unfolding run_room_def by blast
  then show "1 + k < 2 ^ 64" "length rows + k \<le> ROW_VECTOR_MAX" by (simp_all add: ROW_VECTOR_MAX_def)
  show "image_fits flds rows" using assms(1) by (simp add: run_room_def image_fits_def)
qed

lemma others_same_trans: "others_same p a b \<Longrightarrow> others_same p b c \<Longrightarrow> others_same p a c"
  by (simp add: others_same_def)

lemma insert_rows_ok:
  assumes "stored fs p flds rows g n" "\<forall>row \<in> set new. row_fits flds row"
    and "unat g + length new < 2 ^ 64" "length rows + length new \<le> ROW_VECTOR_MAX"
    and "n + length new * (2 + 34 * length flds) \<le> MAX_PAGES"
  shows "\<exists>fs'. insert_rows fs p new = Some fs' \<and>
    stored fs' p flds (rows @ new) (g + word_of_nat (length new)) (n + length new * (2 + 34 * length flds)) \<and>
    others_same p fs fs'"
  using assms
proof (induction new arbitrary: fs rows g n)
  case Nil
  then show ?case by (simp add: others_same_def)
next
  case (Cons row new)
  have g: "g \<noteq> - 1" "unat (g + 1) = Suc (unat g)"
    using Cons.prems(3) by (auto intro!: generation_step [of g "length new"])
  have step: "row_fits flds row" "length rows < ROW_VECTOR_MAX" "n + 2 + 34 * length flds \<le> MAX_PAGES"
    using Cons.prems(2,4,5) by simp_all
  obtain cs where s: "insert_row fs p row = Some (cs, Inr ())"
    "stored (run cs fs) p flds (rows @ [row]) (g + 1) (n + 2 + 34 * length flds)" "others_same p fs (run cs fs)"
    using insert_row_ok [OF Cons.prems(1) step(1) g(1) step(2,3)] by blast
  from Cons.IH [OF s(2)] Cons.prems(2-5) g(2) obtain fs' where
    "insert_rows (run cs fs) p new = Some fs'"
    "stored fs' p flds ((rows @ [row]) @ new) (g + 1 + word_of_nat (length new))
      (n + 2 + 34 * length flds + length new * (2 + 34 * length flds))"
    "others_same p (run cs fs) fs'"
    by auto
  then show ?case using s(1) others_same_trans [OF s(3)] by (simp add: algebra_simps)
qed

section \<open>Interrupted insertions\<close>

lemma insert_crash:
  assumes "stored fs p flds rows g n" "row_fits flds row" "g \<noteq> - 1" "length rows < ROW_VECTOR_MAX"
    "n + 2 + 34 * length flds \<le> MAX_PAGES"
    and run: "insert_row fs p row = Some (cs, r)" and crashed: "crash cs fs fs1" and "restarts p fs1 fs2"
    and opened: "open_table fs2 p = (ds, u)"
  shows "others_same p fs (run ds fs2) \<and>
    ((\<exists>t. u = Inr t \<and> lt_fields t = flds \<and> (lt_rows t = rows \<or> lt_rows t = rows @ [row])) \<or>
     (\<exists>e. u = Inl e \<and> is_corruption e \<and> run ds fs2 p = fs p))"
proof -
  obtain img and ii :: incremental_image and pages' and b :: page_buffer where
    db: "fs p = Some img" and new: "compact_image flds (rows @ [row]) (g + 1) (ii_image ii) pages'"
    and i: "insert_row fs p row = Some (commit_image fs p (ii_image ii) (ii_generation ii) (ii_dirty_pages ii))"
    and c: "installs (ii_image ii) (ii_generation ii)" "replaces fs p (ii_generation ii)"
      "PageBuffer (ii_image ii) (ii_dirty_pages ii) = Inr b"
      "clean_pages_agree (ii_image ii) (old_bytes fs p) (pb_dirty b)"
    by (rule insert_installs [OF assms(1-5)])
  from assms(1) obtain pages where quiet: "\<not> wal_pending fs p" and old: "compact_image flds rows g img pages"
    unfolding stored_def using db by auto
  have "cs = fst (commit_image fs p (ii_image ii) (ii_generation ii) (ii_dirty_pages ii))"
    using run i by (metis fst_conv option.inject)
  then have "settled fs p (ii_image ii) (ii_generation ii) fs1"
    using crash_commit_settled [OF c(1,2) quiet c(3,4)] crashed by simp
  from settled_outcome [OF c(1) restarts_settled [OF assms(8) c(1) this]]
  have out: "atomic_outcome fs p (ii_image ii) fs2" .
  have ds: "ds = fst (recover fs2 p)" using open_table_calls [of fs2 p] opened by simp
  show ?thesis
  proof (cases "snd (recover fs2 p)")
    case (Inl e)
    then have "u = Inl e" using opened by (auto simp: open_table_def after_def split: prod.splits)
    then show ?thesis using out Inl ds by (auto simp: atomic_outcome_def Let_def split: prod.splits)
  next
    case (Inr v)
    define final where "final = run ds fs2"
    have f: "others_same p fs final" "\<not> wal_pending final p" "final p = Some img \<or> final p = Some (ii_image ii)"
      using out Inr ds db by (auto simp: atomic_outcome_def Let_def final_def split: prod.splits)
    have u: "u = load_table final p"
      using opened Inr ds by (auto simp: open_table_def after_def pure_op_def final_def split: prod.splits)
    have "\<exists>t. u = Inr t \<and> lt_fields t = flds \<and> lt_rows t = rs"
      if st: "final p = Some new" "compact_image flds rs h new ps" for new rs h ps
    proof -
      obtain t where t: "parse_image new False = Inr (t, ps)" "lt_fields t = flds" "lt_rows t = rs"
        using compact_image_parse [OF st(2)] by blast
      then have "u = Inr t" using u f(2) st(1) by (simp add: load_table_Inr)
      then show ?thesis using t by blast
    qed
    with f(3) old new have "\<exists>t. u = Inr t \<and> lt_fields t = flds \<and> (lt_rows t = rows \<or> lt_rows t = rows @ [row])"
      by blast
    then show ?thesis using f(1) by (simp flip: final_def)
  qed
qed

end
