(* ===== verification/Sql_Session.thy ===== *)
theory Sql_Session
  imports Sql Insert_Total
begin

text \<open>
  Runs of commands: a table is created, filled by \<open>insert\<close> statements and queried, all as texts given
  to the SQL object. \<open>run_commands\<close> is such a run, stopped at the first command that ends in the error state.
\<close>

fun run_commands :: "files \<Rightarrow> sql \<Rightarrow> string list \<Rightarrow> (files \<times> sql) option" where
  "run_commands fs s [] = Some (fs, s)"
| "run_commands fs s (cmd # cmds) =
     (case command fs s cmd of
        None \<Rightarrow> None
      | Some (cs, s') \<Rightarrow> if sq_error s' then None else run_commands (run cs fs) s' cmds)"

lemma run_commands_append:
  "run_commands fs s (xs @ ys) = Option.bind (run_commands fs s xs) (\<lambda>(fs', s'). run_commands fs' s' ys)"
  by (induction xs arbitrary: fs s) (auto split: option.splits)

text \<open>The interactive program does the same when the texts are its input lines.\<close>

lemma run_commands_session:
  "run_commands fs s cmds = Some (fs', s') \<Longrightarrow>
   \<exists>cs out. session fs s cmds = Some (cs, out, s') \<and> run cs fs = fs'"
proof (induction cmds arbitrary: fs s)
  case (Cons cmd cmds)
  then obtain cs s1 where c: "command fs s cmd = Some (cs, s1)" "run_commands (run cs fs) s1 cmds = Some (fs', s')"
    by (auto split: option.splits if_splits)
  from Cons.IH [OF c(2)] c(1) show ?case by (auto simp: run_def)
qed (simp add: run_def)

lemma print_sql_line: "print_sql stmt \<notin> {[], ''cls'', ''end''}"
  by (cases stmt) (simp_all add: print_sql_def print_lexeme_def)

lemma run_commands_repl:
  assumes "run_commands fs s (map print_sql stmts) = Some (fs', s')"
  shows "\<exists>cs out. repl fs s (map print_sql stmts @ [''end'']) = Some (cs, out, s') \<and> run cs fs = fs'"
proof -
  obtain cs out where "session fs s (map print_sql stmts) = Some (cs, out, s')" "run cs fs = fs'"
    using run_commands_session [OF assms] by blast
  moreover have "\<forall>c \<in> set (map print_sql stmts). c \<notin> {[], ''cls'', ''end''}" using print_sql_line by auto
  ultimately show ?thesis using repl_session [of "map print_sql stmts" fs s "[]"] by simp
qed

lemma Table_create_calls:
  assumes "Table_create fs name flds = (cs, Inr tb)"
  shows "create_from_rows fs (database_path name) flds [] = (cs, Inr ())"
  using assms
  by (auto simp: Table_create_def Let_def pure_op_iff after_Inr create_table_def split: if_splits sum.splits)

lemma Table_open_stored:
  assumes s: "stored fs (database_path name) flds rows g n"
  shows "\<exists>tb t. Table_open fs name = ([], Inr tb) \<and> stands_for fs tb t \<and> tb_tableName tb = name \<and>
    lt_fields t = flds \<and> lt_rows t = rows"
proof -
  obtain t where t: "open_table fs (database_path name) = ([], Inr t)" "lt_fields t = flds" "lt_rows t = rows"
    using stored_open [OF s] by blast
  have ex: "file_exists fs (database_path name)" using s by (auto simp: stored_def file_exists_def)
  have "load_table fs (database_path name) = Inr t"
    using t(1) s by (simp add: open_table_quiet stored_def)
  then have "length (lt_rows t) \<le> LONG_MAX" by (rule load_table_rows)
  then obtain tb where tb: "table_v2 name t = Inr tb" "tb_usesV2Storage tb" by (auto simp: table_v2_def)
  then have o: "Table_open fs name = ([], Inr tb)"
    using t(1) ex by (simp add: Table_open_def Let_def after_def pure_op_def run_def)
  from Table_open_stands_for [OF tb(2) o] show ?thesis using o t by auto
qed

lemma command_insert_stored:
  assumes s: "stored fs (database_path name) flds rows g n" and row: "row_fits flds row"
    and bounds: "g \<noteq> - 1" "length rows < ROW_VECTOR_MAX" "n + 2 + 34 * length flds \<le> MAX_PAGES"
    and texts: "is_identifier name" "\<forall>v \<in> set row. printable (v, LITERAL)"
  shows "\<exists>cs s'. command fs sq (print_sql (Insert_Into name row)) = Some (cs, s') \<and> \<not> sq_error s' \<and>
    stored (run cs fs) (database_path name) flds (rows @ [row]) (g + 1) (n + 2 + 34 * length flds)"
proof -
  obtain tb t where tb: "Table_open fs name = ([], Inr tb)" "stands_for fs tb t" "tb_tableName tb = name"
    "lt_fields t = flds" "lt_rows t = rows"
    using Table_open_stored [OF s] by blast
  obtain cs where i: "insert_row fs (database_path name) row = Some (cs, Inr ())"
    "stored (run cs fs) (database_path name) flds (rows @ [row]) (g + 1) (n + 2 + 34 * length flds)"
    using insert_row_ok [OF s row bounds] by blast
  have short: "\<not> (\<exists>v \<in> set row. length v > SLOT_SIZE)"
    using row by (auto simp: row_fits_def SLOT_SIZE_def MAX_VALUE_LENGTH_def)
  then obtain tb' where "insert_into fs tb row = Some (cs, Inr tb')"
    using i(1) tb row by (auto simp: insert_into_def stands_for_def row_fits_def after_def pure_op_def)
  moreover have "row \<noteq> []"
    using load_table_indexes(3) [OF stands_for_loaded(1) [OF tb(2)]] row tb(4)
    by (auto simp: row_fits_def table_ok_def fields_ok_def)
  ultimately have "\<exists>s'. command fs sq (print_sql (Insert_Into name row)) = Some (cs, s') \<and> \<not> sq_error s'"
    using command_insert [OF texts(1) _ texts(2) tb(1), of cs "Inr tb'" sq] by (auto simp: run_def)
  then show ?thesis using i(2) by blast
qed

lemma session_inserts:
  assumes "stored fs (database_path name) flds rows g n" "\<forall>row \<in> set new. row_fits flds row"
    and "unat g + length new < 2 ^ 64" "length rows + length new \<le> ROW_VECTOR_MAX"
    and "n + length new * (2 + 34 * length flds) \<le> MAX_PAGES"
    and "is_identifier name" "\<forall>row \<in> set new. \<forall>v \<in> set row. printable (v, LITERAL)"
  shows "\<exists>fs' s'. run_commands fs sq (map (\<lambda>row. print_sql (Insert_Into name row)) new) = Some (fs', s') \<and>
    stored fs' (database_path name) flds (rows @ new) (g + word_of_nat (length new))
      (n + length new * (2 + 34 * length flds))"
  using assms
proof (induction new arbitrary: fs sq rows g n)
  case (Cons row new)
  note g = generation_step [of g "length new"]
  have step: "row_fits flds row" "length rows < ROW_VECTOR_MAX" "n + 2 + 34 * length flds \<le> MAX_PAGES"
    "g \<noteq> - 1" "\<forall>v \<in> set row. printable (v, LITERAL)"
    using Cons.prems(2,4,5,7) g(1) Cons.prems(3) by simp_all
  obtain cs s' where s: "command fs sq (print_sql (Insert_Into name row)) = Some (cs, s')" "\<not> sq_error s'"
    "stored (run cs fs) (database_path name) flds (rows @ [row]) (g + 1) (n + 2 + 34 * length flds)"
    using command_insert_stored [OF Cons.prems(1) step(1,4,2,3) Cons.prems(6) step(5)] by blast
  have "unat (g + 1) + length new < 2 ^ 64" using g(2) Cons.prems(3) by simp
  with Cons.IH [OF s(3), of s'] Cons.prems(2,4-7) obtain fs' s2 where
    "run_commands (run cs fs) s' (map (\<lambda>row. print_sql (Insert_Into name row)) new) = Some (fs', s2)"
    "stored fs' (database_path name) flds ((rows @ [row]) @ new) (g + 1 + word_of_nat (length new))
      (n + 2 + 34 * length flds + length new * (2 + 34 * length flds))"
    by auto
  then show ?case using s(1,2) by (simp add: algebra_simps)
qed simp

text \<open>The rows that a condition selects, and the whole run.\<close>

definition chosen_rows :: "string list \<Rightarrow> string list list \<Rightarrow> expr option \<Rightarrow> int set" where
  "chosen_rows flds rows e =
     int ` {r. r < length rows \<and> (case e of None \<Rightarrow> True | Some c \<Rightarrow> satisfies flds (rows ! r) c)}"

lemma selected_chosen: "selected_rows t e = chosen_rows (lt_fields t) (lt_rows t) e"
  by (cases e) (simp_all add: chosen_rows_def matching_def)

lemma run_bounds:
  assumes "6 + length rows * (2 + 34 * length flds) \<le> MAX_PAGES" "flds \<noteq> []"
  shows "1 + length rows < 2 ^ 64" "length rows \<le> ROW_VECTOR_MAX"
proof -
  have "length rows * 1 \<le> length rows * (2 + 34 * length flds)" by (rule mult_le_mono) simp_all
  then have "length rows \<le> 4294967295" using assms(1) by (simp add: MAX_PAGES_def)
  then show "1 + length rows < 2 ^ 64" "length rows \<le> ROW_VECTOR_MAX" by (simp_all add: ROW_VECTOR_MAX_def)
qed

lemma session_create:
  assumes fresh: "\<not> file_exists fs (table_file name)" "\<not> file_exists fs (field_file name)"
      "\<not> file_exists fs (database_path name)" "\<not> wal_pending fs (database_path name)"
    and names: "is_identifier name" "\<forall>f \<in> set flds. is_identifier f" "fields_ok flds"
  shows "\<exists>cs s'. command fs s (print_sql (Create_Table name flds)) = Some (cs, s') \<and> \<not> sq_error s' \<and>
    stored (run cs fs) (database_path name) flds [] 1 6"
proof -
  obtain cs tb where c: "Table_create fs name flds = (cs, Inr tb)"
    using Table_create_stands_for [OF fresh names(3)] by blast
  have ne: "flds \<noteq> []" using names(3) by (simp add: fields_ok_def)
  have "table_ok flds []" "image_fits flds []" using names(3) by (simp_all add: table_ok_def image_fits_def MAX_PAGES_def)
  from create_stored [OF fresh(3,4) this] Table_create_calls [OF c]
  have "stored (run cs fs) (database_path name) flds [] 1 6" by auto
  then show ?thesis using command_create_runs [OF c names(1,2) ne, of s] by blast
qed

text \<open>The statements of a session: the table, its rows, one query.\<close>

definition session_statements ::
  "string \<Rightarrow> string list \<Rightarrow> string list list \<Rightarrow> columns \<Rightarrow> where_clause option \<Rightarrow> statement list" where
  "session_statements name flds rows cols w =
     Create_Table name flds # map (Insert_Into name) rows @ [Select_From cols name w]"

lemma session_runs:
  assumes fresh: "\<not> file_exists fs (table_file name)" "\<not> file_exists fs (field_file name)"
      "\<not> file_exists fs (database_path name)" "\<not> wal_pending fs (database_path name)"
    and names: "is_identifier name" "\<forall>f \<in> set flds. is_identifier f" "fields_ok flds"
    and rows: "\<forall>row \<in> set rows. row_fits flds row \<and> (\<forall>v \<in> set row. printable (v, LITERAL))"
      "6 + length rows * (2 + 34 * length flds) \<le> MAX_PAGES"
    and select: "\<forall>l \<in> set (statement_lexemes (Select_From cols name w)). printable l"
      "cols \<noteq> Columns []" "set (chosen_columns flds cols) \<subseteq> set flds" "distinct (chosen_columns flds cols)"
      "where_means flds w e"
  shows "\<exists>fs' s'. run_commands fs s (map print_sql (session_statements name flds rows cols w)) = Some (fs', s') \<and>
    (\<exists>cs out. repl fs s (map print_sql (session_statements name flds rows cols w) @ [''end'']) = Some (cs, out, s') \<and>
       run cs fs = fs') \<and>
    distinct (tb_recordIndices (sq_table s')) \<and>
    set (tb_recordIndices (sq_table s')) = chosen_rows flds rows e \<and>
    tb_fieldNames (sq_table s') = filter (\<lambda>f. f \<in> set (chosen_columns flds cols)) flds \<and>
    tb_printQueue (sq_table s') =
      concat (map (\<lambda>r. projected flds (chosen_columns flds cols) (rows ! nat r)) (tb_recordIndices (sq_table s')))"
proof -
  obtain cs s1 where c: "command fs s (print_sql (Create_Table name flds)) = Some (cs, s1)" "\<not> sq_error s1"
    "stored (run cs fs) (database_path name) flds [] 1 6"
    using session_create [OF fresh names] by blast
  have ne: "flds \<noteq> []" using names(3) by (simp add: fields_ok_def)
  note bounds = run_bounds [OF rows(2) ne]
  obtain fs2 s2 where i: "run_commands (run cs fs) s1 (map (\<lambda>row. print_sql (Insert_Into name row)) rows) = Some (fs2, s2)"
    "stored fs2 (database_path name) flds rows (1 + word_of_nat (length rows)) (6 + length rows * (2 + 34 * length flds))"
    using session_inserts [OF c(3), of rows s1] rows bounds names(1) by auto
  obtain t where t: "open_table fs2 (database_path name) = ([], Inr t)" "lt_fields t = flds" "lt_rows t = rows"
    using stored_open [OF i(2)] by blast
  have ex: "file_exists fs2 (database_path name)" using i(2) by (auto simp: stored_def file_exists_def)
  obtain s3 where "command fs2 s2 (print_sql (Select_From cols name w)) = Some ([], s3)" "\<not> sq_error s3"
    "distinct (tb_recordIndices (sq_table s3))" "set (tb_recordIndices (sq_table s3)) = selected_rows t e"
    "tb_fieldNames (sq_table s3) = filter (\<lambda>f. f \<in> set (chosen_columns flds cols)) flds"
    "tb_printQueue (sq_table s3) =
      concat (map (\<lambda>r. projected flds (chosen_columns flds cols) (rows ! nat r)) (tb_recordIndices (sq_table s3)))"
    using command_select [OF names(1) ex t(1) select(1,2), of e s2] select(3-5) unfolding t(2,3) by blast
  moreover from this have r: "run_commands fs s (map print_sql (session_statements name flds rows cols w)) = Some (fs2, s3)"
    using c(1,2) i(1) by (simp add: run_commands_append session_statements_def comp_def run_def)
  ultimately show ?thesis using run_commands_repl [OF r] by (simp add: selected_chosen t(2,3))
qed

end
