(* ===== verification/Linked_List.thy ===== *)
theory Linked_List
  imports
    Prelude
    "HOL-Library.Monad_Syntax"
begin

text \<open>
  The doubly linked lists of \<open>node.h\<close> and \<open>linked_list_functions.h\<close>, on an explicit store of nodes:
  an address is a natural number, a pointer is an optional address (\<open>None\<close> is \<open>nullptr\<close>), and every
  function takes the store and returns the changed one. \<open>None\<close> as a result is a step the program
  must not make: reading or writing through a null pointer or through the pointer of a deleted
  node, deleting a node twice, a failed \<open>assert\<close>, or a recursion that never ends (the recursive
  functions are least fixed points). The allocator never hands out an address twice, which cannot
  be observed by a run that returns.

  \<open>is_list s p l\<close> says that \<open>p\<close> heads a doubly linked list of the nodes \<open>l\<close> (address and item each);
  the theorems give what each function does to such a list, that it returns, and that no other node
  of the store changes.
\<close>

section \<open>Nodes and the store\<close>

type_synonym ptr = "nat option"

record 'a node =
  node_item :: 'a
  node_next :: ptr
  node_prev :: ptr

record 'a store =
  cells :: "nat \<Rightarrow> 'a node option"
  next_free :: nat

definition empty_store :: "'a store" where
  "empty_store = \<lparr>cells = (\<lambda>a. None), next_free = 0\<rparr>"

definition deref :: "'a store \<Rightarrow> ptr \<Rightarrow> 'a node option" where
  "deref s p = (case p of None \<Rightarrow> None | Some a \<Rightarrow> cells s a)"

definition put_node :: "'a store \<Rightarrow> ptr \<Rightarrow> 'a node \<Rightarrow> 'a store" where
  "put_node s p n = (case p of None \<Rightarrow> s | Some a \<Rightarrow> s\<lparr>cells := (cells s)(a \<mapsto> n)\<rparr>)"

definition set_next :: "'a store \<Rightarrow> ptr \<Rightarrow> ptr \<Rightarrow> 'a store option" where
  "set_next s p q = do { n \<leftarrow> deref s p; Some (put_node s p (n\<lparr>node_next := q\<rparr>)) }"

definition set_prev :: "'a store \<Rightarrow> ptr \<Rightarrow> ptr \<Rightarrow> 'a store option" where
  "set_prev s p q = do { n \<leftarrow> deref s p; Some (put_node s p (n\<lparr>node_prev := q\<rparr>)) }"

definition new_node :: "'a store \<Rightarrow> 'a \<Rightarrow> ptr \<times> 'a store" where
  "new_node s x =
     (Some (next_free s),
      s\<lparr>cells := (cells s)(next_free s \<mapsto> \<lparr>node_item = x, node_next = None, node_prev = None\<rparr>),
        next_free := Suc (next_free s)\<rparr>)"

definition free_node :: "'a store \<Rightarrow> ptr \<Rightarrow> 'a store option" where
  "free_node s p =
     (case p of None \<Rightarrow> Some s
      | Some a \<Rightarrow> do { n \<leftarrow> cells s a; Some (s\<lparr>cells := (cells s)(a := None)\<rparr>) })"

section \<open>The list functions\<close>

partial_function (option) last_node :: "'a store \<Rightarrow> ptr \<Rightarrow> ptr option" where
  "last_node s p =
     (if p = None then Some None
      else do {
        n \<leftarrow> deref s p;
        if node_next n = None then Some p else last_node s (node_next n)
      })"

partial_function (option) search_list :: "'a store \<Rightarrow> ptr \<Rightarrow> 'a \<Rightarrow> ptr option" where
  "search_list s p key =
     (if p = None then Some None
      else do {
        n \<leftarrow> deref s p;
        if node_item n = key then Some p else search_list s (node_next n) key
      })"

definition insert_head :: "'a store \<Rightarrow> ptr \<Rightarrow> 'a \<Rightarrow> (ptr \<times> 'a store) option" where
  "insert_head s head x =
     (let (newNode, s1) = new_node s x in
      if head = None then Some (newNode, s1)
      else do {
        s2 \<leftarrow> set_next s1 newNode head;
        s3 \<leftarrow> set_prev s2 head newNode;
        Some (newNode, s3)
      })"

text \<open>The functions that take the head by reference return the result, the head and the store.\<close>

definition insert_tail :: "'a store \<Rightarrow> ptr \<Rightarrow> 'a \<Rightarrow> (ptr \<times> ptr \<times> 'a store) option" where
  "insert_tail s head x = do {
     lastNode \<leftarrow> last_node s head;
     if lastNode = None
     then do { (head', s1) \<leftarrow> insert_head s head x; Some (head', head', s1) }
     else do {
       let (newNode, s1) = new_node s x;
       s2 \<leftarrow> set_next s1 lastNode newNode;
       s3 \<leftarrow> set_prev s2 newNode lastNode;
       Some (newNode, head, s3)
     }
   }"

definition insert_after :: "'a store \<Rightarrow> ptr \<Rightarrow> ptr \<Rightarrow> 'a \<Rightarrow> (ptr \<times> ptr \<times> 'a store) option" where
  "insert_after s head after_this x =
     (if head = None
      then do { (head', s1) \<leftarrow> insert_head s head x; Some (head', head', s1) }
      else do {
        h \<leftarrow> deref s head;
        at_end \<leftarrow> (if node_next h = None \<and> head = after_this then Some True
                   else do { l \<leftarrow> last_node s head; Some (after_this = l) });
        if at_end then insert_tail s head x
        else do {
          let (newNode, s1) = new_node s x;
          a \<leftarrow> deref s1 after_this;
          let nextNode = node_next a;
          s2 \<leftarrow> set_next s1 newNode nextNode;
          s3 \<leftarrow> set_prev s2 nextNode newNode;
          s4 \<leftarrow> set_next s3 after_this newNode;
          s5 \<leftarrow> set_prev s4 newNode after_this;
          Some (newNode, head, s5)
        }
      })"

definition insert_before :: "'a store \<Rightarrow> ptr \<Rightarrow> ptr \<Rightarrow> 'a \<Rightarrow> (ptr \<times> ptr \<times> 'a store) option" where
  "insert_before s head before_this x =
     (if head = None \<or> head = before_this
      then do { (head', s1) \<leftarrow> insert_head s head x; Some (head', head', s1) }
      else do {
        let (newNode, s1) = new_node s x;
        b \<leftarrow> deref s1 before_this;
        let prevNode = node_prev b;
        let nextNode = before_this;
        s2 \<leftarrow> set_next s1 prevNode newNode;
        s3 \<leftarrow> set_prev s2 newNode prevNode;
        s4 \<leftarrow> set_next s3 newNode nextNode;
        s5 \<leftarrow> set_prev s4 nextNode newNode;
        Some (newNode, head, s5)
      })"

definition previous_node :: "'a store \<Rightarrow> ptr \<Rightarrow> ptr \<Rightarrow> ptr option" where
  "previous_node s head prev_to_this =
     (if prev_to_this = head then Some None
      else do { n \<leftarrow> deref s prev_to_this; Some (node_prev n) })"

definition delete_node :: "'a store \<Rightarrow> ptr \<Rightarrow> ptr \<Rightarrow> ('a \<times> ptr \<times> 'a store) option" where
  "delete_node s head delete_this = do {
     d \<leftarrow> deref s delete_this;
     let val = node_item d;
     if head = delete_this
     then do {
       h \<leftarrow> deref s head;
       s1 \<leftarrow> free_node s delete_this;
       Some (val, node_next h, s1)
     }
     else do {
       lastNode \<leftarrow> last_node s head;
       if delete_this = lastNode
       then do {
         l \<leftarrow> deref s lastNode;
         let prevNode = node_prev l;
         s1 \<leftarrow> (if prevNode \<noteq> None then set_next s prevNode None else Some s);
         s2 \<leftarrow> free_node s1 delete_this;
         Some (val, head, s2)
       }
       else do {
         let prevNode = node_prev d;
         let nextNode = node_next d;
         s1 \<leftarrow> set_next s prevNode nextNode;
         s2 \<leftarrow> set_prev s1 nextNode prevNode;
         s3 \<leftarrow> free_node s2 delete_this;
         Some (val, head, s3)
       }
     }
   }"

text \<open>\<open>_copy_list\<close>: the loop links a new node for the walker's successor behind the last copy.\<close>

partial_function (option) copy_loop :: "'a store \<Rightarrow> ptr \<Rightarrow> ptr \<Rightarrow> 'a store option" where
  "copy_loop s headWalker newNode = do {
     w \<leftarrow> deref s headWalker;
     if node_next w = None then Some s
     else do {
       v \<leftarrow> deref s (node_next w);
       let (nextNode, s1) = new_node s (node_item v);
       s2 \<leftarrow> set_next s1 newNode nextNode;
       s3 \<leftarrow> set_prev s2 nextNode newNode;
       w' \<leftarrow> deref s3 headWalker;
       n' \<leftarrow> deref s3 newNode;
       copy_loop s3 (node_next w') (node_next n')
     }
   }"

definition copy_list :: "'a store \<Rightarrow> ptr \<Rightarrow> (ptr \<times> 'a store) option" where
  "copy_list s head =
     (if head = None then Some (None, s)
      else do {
        h \<leftarrow> deref s head;
        let (newNode, s1) = new_node s (node_item h);
        s2 \<leftarrow> copy_loop s1 head newNode;
        Some (newNode, s2)
      })"

text \<open>\<open>_clear_list\<close> leaves the head null.\<close>

partial_function (option) clear_list :: "'a store \<Rightarrow> ptr \<Rightarrow> 'a store option" where
  "clear_list s head =
     (if head = None then Some s
      else do {
        h \<leftarrow> deref s head;
        s1 \<leftarrow> free_node s head;
        clear_list s1 (node_next h)
      })"

definition copy_list_to :: "'a store \<Rightarrow> ptr \<Rightarrow> ptr \<Rightarrow> (ptr \<times> ptr \<times> 'a store) option" where
  "copy_list_to s dest src = do {
     s1 \<leftarrow> (if dest \<noteq> None then clear_list s dest else Some s);
     (dest', s2) \<leftarrow> copy_list s1 src;
     l \<leftarrow> last_node s2 dest';
     Some (l, dest', s2)
   }"

partial_function (option) list_at :: "'a store \<Rightarrow> ptr \<Rightarrow> int \<Rightarrow> 'a option" where
  "list_at s head pos = do {
     h \<leftarrow> deref s head;
     if pos = 0 then Some (node_item h) else list_at s (node_next h) (pos - 1)
   }"

definition show_node :: "('a \<Rightarrow> string) \<Rightarrow> 'a node \<Rightarrow> string" where
  "show_node sh n = ''<-['' @ sh (node_item n) @ '']->''"

partial_function (option) print_walk :: "('a \<Rightarrow> string) \<Rightarrow> 'a store \<Rightarrow> ptr \<Rightarrow> string option" where
  "print_walk sh s walker =
     (if walker = None then Some ''''
      else do {
        n \<leftarrow> deref s walker;
        rest \<leftarrow> print_walk sh s (node_next n);
        Some (show_node sh n @ rest)
      })"

definition print_list :: "('a \<Rightarrow> string) \<Rightarrow> 'a store \<Rightarrow> ptr \<Rightarrow> string option" where
  "print_list sh s head = do { t \<leftarrow> print_walk sh s head; Some (t @ ''|||'' @ [CHR 0x0A]) }"

partial_function (option) print_list_backwards :: "('a \<Rightarrow> string) \<Rightarrow> 'a store \<Rightarrow> ptr \<Rightarrow> string option" where
  "print_list_backwards sh s head =
     (if head = None then Some ''|||''
      else do {
        n \<leftarrow> deref s head;
        t \<leftarrow> print_list_backwards sh s (node_next n);
        Some (t @ show_node sh n)
      })"

section \<open>Lists in the store\<close>

text \<open>\<open>links c p b l q\<close>: from pointer \<open>p\<close> the nodes \<open>l\<close> follow each other up to pointer \<open>q\<close>; the first
  one's back pointer is \<open>b\<close>, every other one's is its predecessor.\<close>

fun links :: "(nat \<Rightarrow> 'a node option) \<Rightarrow> ptr \<Rightarrow> ptr \<Rightarrow> (nat \<times> 'a) list \<Rightarrow> ptr \<Rightarrow> bool" where
  "links c p b [] q \<longleftrightarrow> p = q"
| "links c p b ((a, x) # l) q \<longleftrightarrow>
     p = Some a \<and> (\<exists>r. c a = Some \<lparr>node_item = x, node_next = r, node_prev = b\<rparr> \<and> links c r (Some a) l q)"

fun end_of :: "ptr \<Rightarrow> (nat \<times> 'a) list \<Rightarrow> ptr" where
  "end_of b [] = b"
| "end_of b ((a, x) # l) = end_of (Some a) l"

definition head_of :: "(nat \<times> 'a) list \<Rightarrow> ptr" where
  "head_of l = (case l of [] \<Rightarrow> None | (a, x) # l' \<Rightarrow> Some a)"

definition store_ok :: "'a store \<Rightarrow> bool" where
  "store_ok s \<longleftrightarrow> (\<forall>a. next_free s \<le> a \<longrightarrow> cells s a = None)"

definition is_list :: "'a store \<Rightarrow> ptr \<Rightarrow> (nat \<times> 'a) list \<Rightarrow> bool" where
  "is_list s p l \<longleftrightarrow> store_ok s \<and> distinct (map fst l) \<and> (\<exists>b. links (cells s) p b l None)"

text \<open>What a function must leave alone: the nodes outside the list it works on.\<close>

definition unchanged_but :: "nat set \<Rightarrow> 'a store \<Rightarrow> 'a store \<Rightarrow> bool" where
  "unchanged_but A s s' \<longleftrightarrow>
     next_free s \<le> next_free s' \<and> (\<forall>a. a \<notin> A \<longrightarrow> a < next_free s \<longrightarrow> cells s' a = cells s a)"

lemma head_of_simps [simp]: "head_of [] = None" "head_of ((a, x) # l) = Some a"
  by (simp_all add: head_of_def)

lemma links_append:
  "links c p b (l @ m) q \<longleftrightarrow> (\<exists>r. links c p b l r \<and> links c r (end_of b l) m q)"
  by (induction c p b l q rule: links.induct) auto

lemma links_update [simp]:
  assumes "a \<notin> fst ` set l"
  shows "links (c(a := v)) p b l q = links c p b l q"
  using assms by (induction c p b l q rule: links.induct) auto

lemma links_cong:
  assumes "links c p b l q" and "\<And>a. a \<in> fst ` set l \<Longrightarrow> c' a = c a"
  shows "links c' p b l q"
  using assms by (induction c p b l q rule: links.induct) auto

lemma links_head: "links c p b l None \<Longrightarrow> p = head_of l"
  by (cases l) auto

lemma links_head': "links c p b l q \<Longrightarrow> l \<noteq> [] \<Longrightarrow> p = head_of l"
  by (cases l) auto

lemma links_allocated: "links c p b l q \<Longrightarrow> a \<in> fst ` set l \<Longrightarrow> c a \<noteq> None"
  by (induction c p b l q rule: links.induct) auto

lemma end_of_append [simp]: "end_of b (l @ m) = end_of (end_of b l) m"
  by (induction b l rule: end_of.induct) auto

lemma end_of_last: "l \<noteq> [] \<Longrightarrow> end_of b l = Some (fst (last l))"
  by (induction b l rule: end_of.induct) auto

lemma links_fresh:
  "store_ok s \<Longrightarrow> links (cells s) p b l q \<Longrightarrow> a \<in> fst ` set l \<Longrightarrow> a < next_free s"
  using links_allocated [of "cells s" p b l q a] by (auto simp: store_ok_def not_less [symmetric])

lemma is_list_head: "is_list s p l \<Longrightarrow> p = head_of l"
  by (auto simp: is_list_def dest: links_head)

lemma is_list_frame:
  assumes "is_list s p l" and "unchanged_but A s s'" and "store_ok s'" and "A \<inter> fst ` set l = {}"
  shows "is_list s' p l"
proof -
  obtain b where b: "links (cells s) p b l None" using assms(1) by (auto simp: is_list_def)
  have "links (cells s') p b l None"
  proof (rule links_cong [OF b])
    fix a assume a: "a \<in> fst ` set l"
    then have "a < next_free s" using b assms(1) links_fresh is_list_def by metis
    then show "cells s' a = cells s a" using assms(2,4) a by (auto simp: unchanged_but_def)
  qed
  then show ?thesis using assms by (auto simp: is_list_def)
qed

lemma unchanged_but_trans:
  assumes "unchanged_but A s s'" "unchanged_but B s' s''" "\<And>a. a \<in> B \<Longrightarrow> a \<in> A \<or> next_free s \<le> a"
  shows "unchanged_but A s s''"
  using assms unfolding unchanged_but_def by (metis dual_order.trans linorder_not_le order_less_le_trans)

lemma unchanged_but_mono: "unchanged_but A s s' \<Longrightarrow> A \<subseteq> B \<Longrightarrow> unchanged_but B s s'"
  by (auto simp: unchanged_but_def)

lemma unchanged_but_refl [simp]: "unchanged_but A s s"
  by (simp add: unchanged_but_def)

lemma is_list_empty_store: "is_list empty_store None []"
  by (simp add: is_list_def store_ok_def empty_store_def)

section \<open>What each function does to a list\<close>

lemma is_list_fresh:
  assumes "is_list s p l"
  shows "next_free s \<notin> fst ` set l" and "cells s (next_free s) = None"
  using assms links_fresh [of s p _ l None "next_free s"] by (auto simp: is_list_def store_ok_def)

text \<open>What is known of a node of a list and its surroundings.\<close>

lemma is_list_split:
  assumes "is_list s p (l @ (a, y) # m)"
  obtains b where "links (cells s) p b l (Some a)"
    and "cells s a = Some \<lparr>node_item = y, node_next = head_of m, node_prev = end_of b l\<rparr>"
    and "links (cells s) (head_of m) (Some a) m None"
    and "a \<notin> fst ` set l" and "a \<notin> fst ` set m" and "a < next_free s"
    and "next_free s \<notin> fst ` set l" and "next_free s \<notin> fst ` set m"
    and "p = (if l = [] then Some a else head_of l)" and "store_ok s"
    and "distinct (map fst l)" and "distinct (map fst m)" and "fst ` set l \<inter> fst ` set m = {}"
proof -
  obtain b where lk: "links (cells s) p b (l @ (a, y) # m) None" and ok: "store_ok s"
    and d: "distinct (map fst (l @ (a, y) # m))"
    using assms by (auto simp: is_list_def)
  have "a < next_free s" using links_fresh [OF ok lk] by simp
  moreover have "next_free s \<notin> fst ` set (l @ (a, y) # m)" using is_list_fresh [OF assms] by simp
  moreover have "p = (if l = [] then Some a else head_of l)"
    using is_list_head [OF assms] by (cases l) (auto simp: head_of_def)
  moreover obtain r where "links (cells s) p b l (Some a)"
    and "cells s a = Some \<lparr>node_item = y, node_next = r, node_prev = end_of b l\<rparr>"
    and r: "links (cells s) r (Some a) m None"
    using lk by (auto simp: links_append)
  moreover have "r = head_of m" using links_head [OF r] .
  moreover have "a \<notin> fst ` set l" "a \<notin> fst ` set m" "distinct (map fst l)" "distinct (map fst m)"
    "fst ` set l \<inter> fst ` set m = {}"
    using d by auto
  ultimately show ?thesis using ok by (intro that [of b]) auto
qed

lemma last_node_links:
  "links (cells s) p b l None \<Longrightarrow> last_node s p = Some (end_of None l)"
proof (induction l arbitrary: p b)
  case Nil
  then show ?case by (subst last_node.simps) simp
next
  case (Cons ax l)
  obtain a x where ax: "ax = (a, x)" by (cases ax) auto
  obtain r where p: "p = Some a" and n: "cells s a = Some \<lparr>node_item = x, node_next = r, node_prev = b\<rparr>"
    and l: "links (cells s) r (Some a) l None" using Cons.prems ax by auto
  have ih: "last_node s r = Some (end_of None l)" using Cons.IH [OF l] .
  show ?case
  proof (cases l)
    case Nil
    then show ?thesis using p n l ax by (subst last_node.simps) (simp add: deref_def)
  next
    case (Cons y l')
    then obtain c where "r = Some c" using l by (cases y) auto
    then have "last_node s p = last_node s r" using p n by (subst last_node.simps) (simp add: deref_def)
    then show ?thesis using ih Cons ax by (cases y) simp
  qed
qed

lemma last_node_list: "is_list s p l \<Longrightarrow> last_node s p = Some (end_of None l)"
  by (auto simp: is_list_def last_node_links)

lemma search_list_list:
  assumes "is_list s p l"
  shows "search_list s p key = Some (head_of (dropWhile (\<lambda>(a, x). x \<noteq> key) l))"
proof -
  have "links (cells s) p b l None \<Longrightarrow>
      search_list s p key = Some (head_of (dropWhile (\<lambda>(a, x). x \<noteq> key) l))" for b
  proof (induction l arbitrary: p b)
    case Nil
    then show ?case by (subst search_list.simps) simp
  next
    case (Cons ax l)
    then show ?case by (cases ax) (subst search_list.simps, auto simp: deref_def)
  qed
  then show ?thesis using assms by (auto simp: is_list_def)
qed

lemma list_at_list:
  assumes "is_list s p l" and "i < length l"
  shows "list_at s p (int i) = Some (snd (l ! i))"
proof -
  have "links (cells s) p b l None \<Longrightarrow> i < length l \<Longrightarrow> list_at s p (int i) = Some (snd (l ! i))" for b
  proof (induction l arbitrary: p b i)
    case Nil
    then show ?case by simp
  next
    case (Cons ax l)
    then show ?case
      by (cases ax; cases i) (subst list_at.simps, auto simp: deref_def)+
  qed
  then show ?thesis using assms by (auto simp: is_list_def)
qed

lemmas node_steps = new_node_def set_next_def set_prev_def deref_def put_node_def free_node_def

lemma store_ok_steps [simp]:
  "store_ok s \<Longrightarrow> a < next_free s \<Longrightarrow> store_ok (s\<lparr>cells := (cells s)(a := v)\<rparr>)"
  "store_ok s \<Longrightarrow> store_ok (s\<lparr>cells := (cells s)(next_free s \<mapsto> n), next_free := Suc (next_free s)\<rparr>)"
  by (auto simp: store_ok_def)

lemma insert_head_list:
  assumes "is_list s p l"
  obtains s' where "insert_head s p x = Some (Some (next_free s), s')"
    and "is_list s' (Some (next_free s)) ((next_free s, x) # l)" and "unchanged_but (fst ` set l) s s'"
proof (cases l)
  case Nil
  then have "p = None" using is_list_head [OF assms] by simp
  then show ?thesis
    using Nil assms
    by (intro that) (auto simp: insert_head_def new_node_def is_list_def unchanged_but_def store_ok_def)
next
  case (Cons ay m)
  obtain a y where ay: "ay = (a, y)" by (cases ay) auto
  let ?q = "next_free s"
  obtain b where n: "cells s a = Some \<lparr>node_item = y, node_next = head_of m, node_prev = b\<rparr>"
    and m: "links (cells s) (head_of m) (Some a) m None"
    and f: "a \<notin> fst ` set m" "a < ?q" "?q \<notin> fst ` set m" "p = Some a" "store_ok s" "distinct (map fst m)"
    using is_list_split [of s p "[]" a y m] assms Cons ay by auto
  define s' where "s' = s\<lparr>cells := (cells s)(?q \<mapsto> \<lparr>node_item = x, node_next = Some a, node_prev = None\<rparr>,
      a \<mapsto> \<lparr>node_item = y, node_next = head_of m, node_prev = Some ?q\<rparr>), next_free := Suc ?q\<rparr>"
  have "insert_head s p x = Some (Some ?q, s')"
    using n f by (simp add: insert_head_def node_steps s'_def fun_upd_twist)
  moreover have "is_list s' (Some ?q) ((?q, x) # l)"
    using m f Cons ay by (auto simp: s'_def is_list_def store_ok_def)
  moreover have "unchanged_but (fst ` set l) s s'"
    using Cons ay by (auto simp: unchanged_but_def s'_def)
  ultimately show ?thesis by (rule that)
qed

lemma insert_tail_list:
  assumes "is_list s p l"
  obtains h s' where "insert_tail s p x = Some (Some (next_free s), h, s')"
    and "is_list s' h (l @ [(next_free s, x)])" and "unchanged_but (fst ` set l) s s'"
proof (cases l rule: rev_cases)
  case Nil
  have p: "p = None" using assms Nil is_list_head by fastforce
  obtain s' where "insert_head s p x = Some (Some (next_free s), s')"
    and "is_list s' (Some (next_free s)) ((next_free s, x) # l)" and "unchanged_but (fst ` set l) s s'"
    using insert_head_list [OF assms] by metis
  then show ?thesis using Nil p
    by (intro that [of "Some (next_free s)" s']) (simp_all add: insert_tail_def last_node.simps)
next
  case (snoc m ay)
  let ?q = "next_free s"
  obtain a y where ay: "ay = (a, y)" by (cases ay) auto
  obtain b where m: "links (cells s) p b m (Some a)"
    and n: "cells s a = Some \<lparr>node_item = y, node_next = None, node_prev = end_of b m\<rparr>"
    and f: "a \<notin> fst ` set m" "a < ?q" "?q \<notin> fst ` set m" "store_ok s" "distinct (map fst m)"
    using is_list_split [OF assms [unfolded snoc ay]] by (metis head_of_simps(1))
  define s' where "s' = s\<lparr>cells := (cells s)(
      a \<mapsto> \<lparr>node_item = y, node_next = Some ?q, node_prev = end_of b m\<rparr>,
      ?q \<mapsto> \<lparr>node_item = x, node_next = None, node_prev = Some a\<rparr>), next_free := Suc ?q\<rparr>"
  have "insert_tail s p x = Some (Some ?q, p, s')"
    using n f snoc ay
    by (simp add: insert_tail_def last_node_list [OF assms] node_steps s'_def fun_upd_twist [of ?q])
  moreover have "is_list s' p (l @ [(?q, x)])"
    using m f snoc ay by (auto simp: s'_def is_list_def store_ok_def links_append)
  moreover have "unchanged_but (fst ` set l) s s'"
    using snoc ay by (auto simp: unchanged_but_def s'_def)
  ultimately show ?thesis by (rule that)
qed

lemma insert_after_list:
  assumes "is_list s p (l @ (a, y) # m)"
  obtains h s' where "insert_after s p (Some a) x = Some (Some (next_free s), h, s')"
    and "is_list s' h (l @ (a, y) # (next_free s, x) # m)"
    and "unchanged_but (fst ` set (l @ (a, y) # m)) s s'"
proof -
  let ?q = "next_free s"
  obtain b0 where l: "links (cells s) p b0 l (Some a)"
    and na: "cells s a = Some \<lparr>node_item = y, node_next = head_of m, node_prev = end_of b0 l\<rparr>"
    and m: "links (cells s) (head_of m) (Some a) m None"
    and f: "a \<notin> fst ` set l" "a \<notin> fst ` set m" "a < ?q" "?q \<notin> fst ` set l" "?q \<notin> fst ` set m"
    and p: "p = (if l = [] then Some a else head_of l)" and ok: "store_ok s"
    and d: "distinct (map fst l)" "distinct (map fst m)" "fst ` set l \<inter> fst ` set m = {}"
    by (rule is_list_split [OF assms])
  have "\<exists>hn. deref s p = Some hn \<and> p \<noteq> None \<and> (p = Some a \<longrightarrow> node_next hn = head_of m)"
    using p l na by (cases l) (auto simp: deref_def)
  then obtain hn where hn: "deref s p = Some hn" "p \<noteq> None" "p = Some a \<longrightarrow> node_next hn = head_of m" by auto
  show ?thesis
  proof (cases m)
    case Nil
    obtain h s' where t: "insert_tail s p x = Some (Some ?q, h, s')"
      "is_list s' h ((l @ [(a, y)]) @ [(?q, x)])" "unchanged_but (fst ` set (l @ [(a, y)])) s s'"
      using insert_tail_list [OF assms [unfolded Nil]] by metis
    have "last_node s p = Some (Some a)" using last_node_list [OF assms] Nil by simp
    then have "insert_after s p (Some a) x = insert_tail s p x"
      using hn by (cases "node_next hn") (auto simp: insert_after_def)
    then show ?thesis using t Nil by (intro that) simp_all
  next
    case (Cons bz m')
    obtain b z where bz: "bz = (b, z)" by (cases bz) auto
    obtain r where nb: "cells s b = Some \<lparr>node_item = z, node_next = r, node_prev = Some a\<rparr>"
      and m': "links (cells s) r (Some b) m' None"
      using m Cons bz by auto
    have "end_of None (l @ (a, y) # m) = Some (fst (last m))"
      using Cons bz end_of_last [of m "Some a"] by simp
    moreover have "fst (last m) \<noteq> a" using f(2) Cons last_in_set [of m] by force
    ultimately have last: "last_node s p = Some (Some (fst (last m)))" "fst (last m) \<noteq> a"
      using last_node_list [OF assms] by simp_all
    have lt: "b < ?q" using nb ok by (auto simp: store_ok_def not_less [symmetric])
    define s' where "s' = s\<lparr>cells := (cells s)(
        ?q \<mapsto> \<lparr>node_item = x, node_next = Some b, node_prev = Some a\<rparr>,
        a \<mapsto> \<lparr>node_item = y, node_next = Some ?q, node_prev = end_of b0 l\<rparr>,
        b \<mapsto> \<lparr>node_item = z, node_next = r, node_prev = Some ?q\<rparr>), next_free := Suc ?q\<rparr>"
    have "insert_after s p (Some a) x = Some (Some ?q, p, s')"
    proof -
      have "a \<noteq> b" using f Cons bz by auto
      then show ?thesis
        using hn last na nb f lt Cons bz
        by (auto simp: insert_after_def Let_def node_steps s'_def fun_upd_twist)
    qed
    moreover have "is_list s' p (l @ (a, y) # (?q, x) # m)"
      using l m' f lt ok d Cons bz by (auto simp: s'_def is_list_def store_ok_def links_append)
    moreover have "unchanged_but (fst ` set (l @ (a, y) # m)) s s'"
      using Cons bz by (auto simp: unchanged_but_def s'_def)
    ultimately show ?thesis by (rule that)
  qed
qed

lemma insert_before_list:
  assumes "is_list s p (l @ (a, y) # m)"
  obtains h s' where "insert_before s p (Some a) x = Some (Some (next_free s), h, s')"
    and "is_list s' h (l @ (next_free s, x) # (a, y) # m)"
    and "unchanged_but (fst ` set (l @ (a, y) # m)) s s'"
proof -
  let ?q = "next_free s"
  obtain b0 where l: "links (cells s) p b0 l (Some a)"
    and na: "cells s a = Some \<lparr>node_item = y, node_next = head_of m, node_prev = end_of b0 l\<rparr>"
    and m: "links (cells s) (head_of m) (Some a) m None"
    and f: "a \<notin> fst ` set l" "a \<notin> fst ` set m" "a < ?q" "?q \<notin> fst ` set l" "?q \<notin> fst ` set m"
    and p: "p = (if l = [] then Some a else head_of l)" and ok: "store_ok s"
    and d: "distinct (map fst l)" "distinct (map fst m)" "fst ` set l \<inter> fst ` set m = {}"
    by (rule is_list_split [OF assms])
  show ?thesis
  proof (cases l rule: rev_cases)
    case Nil
    obtain s' where "insert_head s p x = Some (Some ?q, s')"
      "is_list s' (Some ?q) ((?q, x) # (a, y) # m)" "unchanged_but (fst ` set (l @ (a, y) # m)) s s'"
      using insert_head_list [OF assms] Nil by auto
    then show ?thesis using Nil p by (intro that) (simp_all add: insert_before_def)
  next
    case (snoc l' bz)
    obtain b z where bz: "bz = (b, z)" by (cases bz) auto
    have l': "links (cells s) p b0 l' (Some b)"
      and nb: "cells s b = Some \<lparr>node_item = z, node_next = Some a, node_prev = end_of b0 l'\<rparr>"
      using l snoc bz by (auto simp: links_append)
    have lt: "b < ?q" "a \<noteq> b" using nb ok f snoc bz by (auto simp: store_ok_def not_less [symmetric])
    have pa: "p \<noteq> None" "p \<noteq> Some a"
      using p f snoc by (cases l'; auto simp: head_of_def split: prod.splits)+
    define s' where "s' = s\<lparr>cells := (cells s)(
        ?q \<mapsto> \<lparr>node_item = x, node_next = Some a, node_prev = Some b\<rparr>,
        b \<mapsto> \<lparr>node_item = z, node_next = Some ?q, node_prev = end_of b0 l'\<rparr>,
        a \<mapsto> \<lparr>node_item = y, node_next = head_of m, node_prev = Some ?q\<rparr>), next_free := Suc ?q\<rparr>"
    have "insert_before s p (Some a) x = Some (Some ?q, p, s')"
      using pa na nb f lt snoc bz
      by (auto simp: insert_before_def Let_def node_steps s'_def fun_upd_twist)
    moreover have "is_list s' p (l @ (?q, x) # (a, y) # m)"
      using l' m f lt ok d snoc bz by (auto simp: s'_def is_list_def store_ok_def links_append)
    moreover have "unchanged_but (fst ` set (l @ (a, y) # m)) s s'"
      using snoc bz by (auto simp: unchanged_but_def s'_def)
    ultimately show ?thesis by (rule that)
  qed
qed

lemma previous_node_list:
  assumes "is_list s p (l @ (a, y) # m)"
  shows "previous_node s p (Some a) = Some (end_of None l)"
proof -
  obtain b0 where "cells s a = Some \<lparr>node_item = y, node_next = head_of m, node_prev = end_of b0 l\<rparr>"
    and "a \<notin> fst ` set l" and "p = (if l = [] then Some a else head_of l)"
    by (rule is_list_split [OF assms])
  then show ?thesis
    by (cases l) (auto simp: previous_node_def deref_def split: if_splits)
qed

lemma delete_node_list:
  assumes "is_list s p (l @ (a, y) # m)"
  obtains h s' where "delete_node s p (Some a) = Some (y, h, s')" and "is_list s' h (l @ m)"
    and "unchanged_but (fst ` set (l @ (a, y) # m)) s s'" and "cells s' a = None"
    and "next_free s' = next_free s"
proof -
  let ?q = "next_free s"
  obtain b0 where l: "links (cells s) p b0 l (Some a)"
    and na: "cells s a = Some \<lparr>node_item = y, node_next = head_of m, node_prev = end_of b0 l\<rparr>"
    and m: "links (cells s) (head_of m) (Some a) m None"
    and f: "a \<notin> fst ` set l" "a \<notin> fst ` set m" "a < ?q" "?q \<notin> fst ` set l" "?q \<notin> fst ` set m"
    and p: "p = (if l = [] then Some a else head_of l)" and ok: "store_ok s"
    and d: "distinct (map fst l)" "distinct (map fst m)" "fst ` set l \<inter> fst ` set m = {}"
    by (rule is_list_split [OF assms])
  show ?thesis
  proof (cases l rule: rev_cases)
    case Nil
    define s' where "s' = s\<lparr>cells := (cells s)(a := None)\<rparr>"
    have "delete_node s p (Some a) = Some (y, head_of m, s')"
      using Nil p na by (simp add: delete_node_def node_steps s'_def)
    moreover have "is_list s' (head_of m) (l @ m)"
      using Nil m f ok d by (auto simp: s'_def is_list_def store_ok_def)
    ultimately show ?thesis by (rule that) (auto simp: unchanged_but_def s'_def)
  next
    case (snoc l' bz)
    obtain b z where bz: "bz = (b, z)" by (cases bz) auto
    have l': "links (cells s) p b0 l' (Some b)"
      and nb: "cells s b = Some \<lparr>node_item = z, node_next = Some a, node_prev = end_of b0 l'\<rparr>"
      using l snoc bz by (auto simp: links_append)
    have lt: "b < ?q" "a \<noteq> b" using nb ok f snoc bz by (auto simp: store_ok_def not_less [symmetric])
    have pa: "p \<noteq> Some a"
      using p f snoc by (cases l'; auto simp: head_of_def split: prod.splits)+
    show ?thesis
    proof (cases m)
      case Nil
      define s' where "s' = s\<lparr>cells := (cells s)(
          b \<mapsto> \<lparr>node_item = z, node_next = None, node_prev = end_of b0 l'\<rparr>, a := None)\<rparr>"
      have "last_node s p = Some (Some a)" using last_node_list [OF assms] Nil by simp
      then have "delete_node s p (Some a) = Some (y, p, s')"
        using na nb pa lt snoc bz Nil by (auto simp: delete_node_def node_steps s'_def)
      moreover have "is_list s' p (l @ m)"
        using l' f ok d lt snoc bz Nil by (auto simp: s'_def is_list_def store_ok_def links_append)
      ultimately show ?thesis by (rule that) (use snoc bz in \<open>auto simp: unchanged_but_def s'_def\<close>)
    next
      case (Cons cw m')
      obtain c w where cw: "cw = (c, w)" by (cases cw) auto
      obtain r where nc: "cells s c = Some \<lparr>node_item = w, node_next = r, node_prev = Some a\<rparr>"
        and m': "links (cells s) r (Some c) m' None"
        using m Cons cw by auto
      have lt': "c < ?q" "a \<noteq> c" "b \<noteq> c"
        using nc ok f d snoc bz Cons cw by (auto simp: store_ok_def not_less [symmetric])
      have "end_of None (l @ (a, y) # m) = Some (fst (last m))"
        using Cons cw end_of_last [of m "Some a"] by simp
      moreover have "fst (last m) \<noteq> a" using f(2) Cons last_in_set [of m] by force
      ultimately have last: "last_node s p = Some (Some (fst (last m)))" "fst (last m) \<noteq> a"
        using last_node_list [OF assms] by simp_all
      define s' where "s' = s\<lparr>cells := (cells s)(
          b \<mapsto> \<lparr>node_item = z, node_next = Some c, node_prev = end_of b0 l'\<rparr>,
          c \<mapsto> \<lparr>node_item = w, node_next = r, node_prev = Some b\<rparr>, a := None)\<rparr>"
      have "delete_node s p (Some a) = Some (y, p, s')"
        using na nb nc pa lt lt' snoc bz Cons cw last by (auto simp: delete_node_def node_steps s'_def)
      moreover have "is_list s' p (l @ m)"
        using l' m' f ok d lt lt' snoc bz Cons cw by (auto simp: s'_def is_list_def store_ok_def links_append)
      ultimately show ?thesis by (rule that) (use snoc bz Cons cw in \<open>auto simp: unchanged_but_def s'_def\<close>)
    qed
  qed
qed

lemma clear_list_list:
  assumes "is_list s p l"
  obtains s' where "clear_list s p = Some s'" and "store_ok s'" and "unchanged_but (fst ` set l) s s'"
    and "next_free s' = next_free s" and "\<forall>a \<in> fst ` set l. cells s' a = None"
proof -
  have "\<exists>s'. clear_list s p = Some s' \<and> store_ok s' \<and> unchanged_but (fst ` set l) s s' \<and>
      next_free s' = next_free s \<and> (\<forall>a \<in> fst ` set l. cells s' a = None)"
    using assms
  proof (induction l arbitrary: s p)
    case Nil
    then show ?case by (subst clear_list.simps) (auto simp: is_list_def)
  next
    case (Cons ay m)
    obtain a y where ay: "ay = (a, y)" by (cases ay) auto
    let ?s = "s\<lparr>cells := (cells s)(a := None)\<rparr>"
    obtain b where n: "cells s a = Some \<lparr>node_item = y, node_next = head_of m, node_prev = b\<rparr>"
      and m: "links (cells s) (head_of m) (Some a) m None"
      and f: "a \<notin> fst ` set m" "p = Some a" "store_ok s" "distinct (map fst m)"
      using is_list_split [of s p "[]" a y m] Cons.prems ay by auto
    have "is_list ?s (head_of m) m" using m f by (auto simp: is_list_def store_ok_def)
    then obtain s' where s': "clear_list ?s (head_of m) = Some s'" "store_ok s'"
        "unchanged_but (fst ` set m) ?s s'" "next_free s' = next_free s" "\<forall>a \<in> fst ` set m. cells s' a = None"
      using Cons.IH by fastforce
    have "clear_list s p = Some s'"
      using s'(1) n f(2) by (subst clear_list.simps) (simp add: node_steps)
    moreover have "cells s' a = None"
      using s'(3) f n by (auto simp: unchanged_but_def store_ok_def)
    moreover have "unchanged_but (fst ` set (ay # m)) s s'"
      using s'(3) ay by (auto simp: unchanged_but_def)
    ultimately show ?case using s' ay by auto
  qed
  then obtain s' where "clear_list s p = Some s'" "store_ok s'" "unchanged_but (fst ` set l) s s'"
    "next_free s' = next_free s" "\<forall>a \<in> fst ` set l. cells s' a = None" by auto
  then show ?thesis using that [of s'] by simp
qed

lemma upt_add_Cons: "[n..<n + Suc k] = n # [Suc n..<Suc n + k]"
  by (simp del: upt_Suc add: upt_conv_Cons)

lemma copy_loop_links:
  assumes "links (cells s) (Some a) b ((a, x) # m) None" and "c \<notin> fst ` set ((a, x) # m)"
    and "cells s c = Some \<lparr>node_item = y, node_next = None, node_prev = pb\<rparr>" and "store_ok s"
  shows "\<exists>s'. copy_loop s (Some a) (Some c) = Some s' \<and> store_ok s' \<and> unchanged_but {c} s s' \<and>
    next_free s' = next_free s + length m \<and>
    links (cells s') (Some c) pb ((c, y) # zip [next_free s..<next_free s + length m] (map snd m)) None"
  using assms
proof (induction m arbitrary: s a b x c y pb)
  case Nil
  then show ?case by (subst copy_loop.simps) (auto simp: deref_def)
next
  case (Cons dv m)
  obtain d v where dv: "dv = (d, v)" by (cases dv) auto
  let ?q = "next_free s"
  have n: "cells s a = Some \<lparr>node_item = x, node_next = Some d, node_prev = b\<rparr>"
    and l: "links (cells s) (Some d) (Some a) ((d, v) # m) None"
    using Cons.prems dv by auto
  obtain r where nd: "cells s d = Some \<lparr>node_item = v, node_next = r, node_prev = Some a\<rparr>" using l by auto
  have lt: "c < ?q" using Cons.prems(3,4) by (auto simp: store_ok_def not_less [symmetric])
  have fr: "e < ?q" if "e \<in> fst ` set ((d, v) # m)" for e using links_fresh [OF Cons.prems(4) l that] .
  have fa: "a < ?q" using links_fresh [OF Cons.prems(4,1)] by simp
  define t where "t = s\<lparr>next_free := Suc ?q, cells := (cells s)(
      c \<mapsto> \<lparr>node_item = y, node_next = Some ?q, node_prev = pb\<rparr>,
      ?q \<mapsto> \<lparr>node_item = v, node_next = None, node_prev = Some c\<rparr>)\<rparr>"
  have cd: "c \<notin> fst ` set ((d, v) # m)" "c \<noteq> a" using Cons.prems(2) dv by auto
  have qd: "?q \<notin> fst ` set ((d, v) # m)" using fr by blast
  have lt': "links (cells t) (Some d) (Some a) ((d, v) # m) None"
    using l cd qd by (simp add: t_def)
  have okt: "store_ok t" using Cons.prems(4) lt by (auto simp: t_def store_ok_def)
  obtain s' where s': "copy_loop t (Some d) (Some ?q) = Some s'" "store_ok s'" "unchanged_but {?q} t s'"
      "next_free s' = Suc ?q + length m"
      "links (cells s') (Some ?q) (Some c) ((?q, v) # zip [Suc ?q..<Suc ?q + length m] (map snd m)) None"
    using Cons.IH [OF lt' qd, of v "Some c"] okt by (auto simp: t_def)
  have "cells s' c = cells t c" using s'(3) lt by (auto simp: unchanged_but_def t_def)
  then have nc: "cells s' c = Some \<lparr>node_item = y, node_next = Some ?q, node_prev = pb\<rparr>"
    using lt by (simp add: t_def)
  have "copy_loop s (Some a) (Some c) = copy_loop t (Some d) (Some ?q)"
    using n nd Cons.prems(3) cd lt fa fr [of d]
    by (subst copy_loop.simps) (auto simp: node_steps t_def Let_def fun_upd_twist)
  moreover have "unchanged_but {c} s s'"
    using s'(3) by (auto simp: unchanged_but_def t_def)
  moreover have "zip [?q..<?q + length (dv # m)] (map snd (dv # m)) =
      (?q, v) # zip [Suc ?q..<Suc ?q + length m] (map snd m)"
    using dv upt_add_Cons [of ?q "length m"] by simp
  ultimately show ?case using s' nc by auto
qed

lemma copy_list_list:
  assumes "is_list s p l"
  obtains h s' where "copy_list s p = Some (h, s')"
    and "is_list s' h (zip [next_free s..<next_free s + length l] (map snd l))"
    and "unchanged_but {} s s'"
proof (cases l)
  case Nil
  then have "p = None" using is_list_head [OF assms] by simp
  then show ?thesis using Nil assms by (intro that [of None s]) (auto simp: copy_list_def is_list_def)
next
  case (Cons ay m)
  obtain a y where ay: "ay = (a, y)" by (cases ay) auto
  let ?q = "next_free s"
  obtain b where n: "cells s a = Some \<lparr>node_item = y, node_next = head_of m, node_prev = b\<rparr>"
    and m: "links (cells s) (head_of m) (Some a) m None"
    and f: "a < ?q" "?q \<notin> fst ` set m" "p = Some a" "store_ok s"
    using is_list_split [of s p "[]" a y m] assms Cons ay by auto
  define t where "t = s\<lparr>cells := (cells s)(?q \<mapsto> \<lparr>node_item = y, node_next = None, node_prev = None\<rparr>),
      next_free := Suc ?q\<rparr>"
  have "links (cells t) (Some a) b ((a, y) # m) None" using n m f by (auto simp: t_def)
  moreover have "?q \<notin> fst ` set ((a, y) # m)" using f by auto
  moreover have "store_ok t" using f by (auto simp: t_def store_ok_def)
  ultimately obtain s' where s': "copy_loop t (Some a) (Some ?q) = Some s'" "store_ok s'"
      "unchanged_but {?q} t s'"
      "links (cells s') (Some ?q) None ((?q, y) # zip [Suc ?q..<Suc ?q + length m] (map snd m)) None"
    using copy_loop_links [of t a b y m ?q y None] by (auto simp: t_def)
  have z: "zip [?q..<?q + length l] (map snd l) = (?q, y) # zip [Suc ?q..<Suc ?q + length m] (map snd m)"
    using Cons ay upt_add_Cons [of ?q "length m"] by simp
  have "copy_list s p = Some (Some ?q, s')"
    using s'(1) n f by (simp add: copy_list_def deref_def new_node_def t_def)
  moreover have "is_list s' (Some ?q) (zip [?q..<?q + length l] (map snd l))"
  proof -
    have "distinct (map fst (zip [?q..<?q + length l] (map snd l)))" by simp
    then show ?thesis using s'(2,4) unfolding z is_list_def by blast
  qed
  moreover have "unchanged_but {} s s'"
    using s'(3) by (auto simp: unchanged_but_def t_def)
  ultimately show ?thesis by (rule that)
qed

lemma copy_list_to_list:
  assumes "is_list s dest l" and "is_list s src m" and "fst ` set l \<inter> fst ` set m = {}"
  obtains h k s' where "copy_list_to s dest src = Some (end_of None k, h, s')" and "is_list s' h k"
    and "map snd k = map snd m" and "unchanged_but (fst ` set l) s s'"
    and "\<forall>a \<in> fst ` set k. next_free s \<le> a"
proof -
  have "\<exists>s1. (if dest \<noteq> None then clear_list s dest else Some s) = Some s1 \<and> store_ok s1 \<and>
      unchanged_but (fst ` set l) s s1 \<and> next_free s1 = next_free s"
  proof (cases "dest = None")
    case True
    then show ?thesis using assms(1) by (auto simp: is_list_def)
  next
    case False
    then show ?thesis using clear_list_list [OF assms(1)] by (metis (no_types, lifting))
  qed
  then obtain s1 where s1: "(if dest \<noteq> None then clear_list s dest else Some s) = Some s1" "store_ok s1"
    "unchanged_but (fst ` set l) s s1" "next_free s1 = next_free s" by auto
  have "is_list s1 src m" using is_list_frame [OF assms(2) s1(3,2) assms(3)] .
  then obtain h s' where s': "copy_list s1 src = Some (h, s')"
      "is_list s' h (zip [next_free s..<next_free s + length m] (map snd m))" "unchanged_but {} s1 s'"
    using copy_list_list s1(4) by metis
  show ?thesis
  proof (rule that)
    show "copy_list_to s dest src =
        Some (end_of None (zip [next_free s..<next_free s + length m] (map snd m)), h, s')"
      using s1(1) s'(1) last_node_list [OF s'(2)] unfolding copy_list_to_def by simp
    show "is_list s' h (zip [next_free s..<next_free s + length m] (map snd m))" by (rule s'(2))
    show "unchanged_but (fst ` set l) s s'"
      using unchanged_but_trans [OF s1(3) s'(3)] by blast
  qed (auto simp: set_zip)
qed

lemma print_list_list:
  assumes "is_list s p l"
  shows "print_list sh s p =
    Some (concat (map (\<lambda>(a, x). ''<-['' @ sh x @ '']->'') l) @ ''|||'' @ [CHR 0x0A])"
proof -
  have "links (cells s) p b l None \<Longrightarrow>
      print_walk sh s p = Some (concat (map (\<lambda>(a, x). ''<-['' @ sh x @ '']->'') l))" for b
  proof (induction l arbitrary: p b)
    case Nil
    then show ?case by (subst print_walk.simps) simp
  next
    case (Cons ax l)
    then show ?case
      by (cases ax) (subst print_walk.simps, auto simp: deref_def show_node_def)
  qed
  then show ?thesis using assms by (auto simp: is_list_def print_list_def)
qed

lemma print_list_backwards_list:
  assumes "is_list s p l"
  shows "print_list_backwards sh s p =
    Some (''|||'' @ concat (map (\<lambda>(a, x). ''<-['' @ sh x @ '']->'') (rev l)))"
proof -
  have "links (cells s) p b l None \<Longrightarrow> print_list_backwards sh s p =
      Some (''|||'' @ concat (map (\<lambda>(a, x). ''<-['' @ sh x @ '']->'') (rev l)))" for b
  proof (induction l arbitrary: p b)
    case Nil
    then show ?case by (subst print_list_backwards.simps) simp
  next
    case (Cons ax l)
    then show ?case
      by (cases ax) (subst print_list_backwards.simps, auto simp: deref_def show_node_def)
  qed
  then show ?thesis using assms by (auto simp: is_list_def)
qed

end
