(* ===== verification/Containers.thy ===== *)
theory Containers
  imports Linked_List
begin

text \<open>
  The queue of \<open>MyQueue.h\<close> and the stack of \<open>MyStack.h\<close> over the linked lists, operation by
  operation, and the contract both offer: a container that holds a sequence, with \<open>push\<close> adding at
  one end and \<open>pop\<close> taking from the front. The contract is a locale; the queue and the stack
  interpret it, so a run of pushes and pops on the linked structure gives what the same run gives on
  a list. The counter \<open>_size\<close> is a mathematical integer: an \<open>int\<close> overflows only with more nodes than
  memory holds.
\<close>

section \<open>The contract\<close>

datatype 'a container_op = Push 'a | Pop

fun run_ops :: "('s \<Rightarrow> 'a \<Rightarrow> 's option) \<Rightarrow> ('s \<Rightarrow> ('a \<times> 's) option) \<Rightarrow> 's \<Rightarrow> 'a container_op list \<Rightarrow>
    ('a list \<times> 's) option" where
  "run_ops push pop c [] = Some ([], c)"
| "run_ops push pop c (Push x # ops) = do { c' \<leftarrow> push c x; run_ops push pop c' ops }"
| "run_ops push pop c (Pop # ops) = do {
     (x, c') \<leftarrow> pop c;
     (xs, c'') \<leftarrow> run_ops push pop c' ops;
     Some (x # xs, c'')
   }"

definition list_pop :: "'a list \<Rightarrow> ('a \<times> 'a list) option" where
  "list_pop xs = (case xs of [] \<Rightarrow> None | x # xs' \<Rightarrow> Some (x, xs'))"

locale container =
  fixes holds :: "'s \<Rightarrow> 'a list \<Rightarrow> bool"
    and add :: "'a list \<Rightarrow> 'a \<Rightarrow> 'a list"
    and push :: "'s \<Rightarrow> 'a \<Rightarrow> 's option"
    and pop :: "'s \<Rightarrow> ('a \<times> 's) option"
  assumes push_holds: "holds c xs \<Longrightarrow> \<exists>c'. push c x = Some c' \<and> holds c' (add xs x)"
    and pop_holds: "holds c (x # xs) \<Longrightarrow> \<exists>c'. pop c = Some (x, c') \<and> holds c' xs"
    and pop_empty: "holds c [] \<Longrightarrow> pop c = None"
begin

text \<open>Pushes always work and a pop fails exactly on the empty container, so a run succeeds on the
  structure exactly when it does on the list, with the same items.\<close>

lemma run_ops_holds:
  assumes "holds c xs"
  shows "case run_ops (\<lambda>xs x. Some (add xs x)) list_pop xs ops of
      None \<Rightarrow> run_ops push pop c ops = None
    | Some (ys, zs) \<Rightarrow> \<exists>c'. run_ops push pop c ops = Some (ys, c') \<and> holds c' zs"
  using assms
proof (induction ops arbitrary: c xs)
  case Nil
  then show ?case by simp
next
  case (Cons opn ops)
  show ?case
  proof (cases opn)
    case (Push x)
    obtain c' where c': "push c x = Some c'" "holds c' (add xs x)" using push_holds [OF Cons.prems] by auto
    then show ?thesis using Cons.IH [OF c'(2)] Push by (auto split: option.splits)
  next
    case Pop
    show ?thesis
    proof (cases xs)
      case Nil
      then show ?thesis using Pop pop_empty Cons.prems by (simp add: list_pop_def)
    next
      case (Cons y ys)
      then obtain c' where c': "pop c = Some (y, c')" "holds c' ys" using pop_holds Cons.prems by blast
      then show ?thesis using Cons.IH [OF c'(2)] Pop Cons
        by (auto simp: list_pop_def split: option.splits)
    qed
  qed
qed

end

section \<open>The queue\<close>

record queue =
  q_front :: ptr
  q_rear :: ptr
  q_size :: int

definition queue_new :: queue where
  "queue_new = \<lparr>q_front = None, q_rear = None, q_size = 0\<rparr>"

definition queue_empty :: "queue \<Rightarrow> bool" where
  "queue_empty q \<longleftrightarrow> q_front q = None \<or> q_rear q = None"

definition queue_push :: "'a store \<Rightarrow> queue \<Rightarrow> 'a \<Rightarrow> ('a store \<times> queue) option" where
  "queue_push s q x =
     (let q = q\<lparr>q_size := q_size q + 1\<rparr> in
      if queue_empty q
      then do {
        (f, s1) \<leftarrow> insert_head s (q_front q) x;
        Some (s1, q\<lparr>q_front := f, q_rear := f\<rparr>)
      }
      else do {
        l \<leftarrow> last_node s (q_front q);
        (r, f, s1) \<leftarrow> insert_after s (q_front q) l x;
        Some (s1, q\<lparr>q_front := f, q_rear := r\<rparr>)
      })"

definition queue_pop :: "'a store \<Rightarrow> queue \<Rightarrow> ('a \<times> 'a store \<times> queue) option" where
  "queue_pop s q =
     (let q = (if q_size q > 0 then q\<lparr>q_size := q_size q - 1\<rparr> else q) in
      do {
        (x, f, s1) \<leftarrow> delete_node s (q_front q) (q_front q);
        Some (x, s1, q\<lparr>q_front := f\<rparr>)
      })"

text \<open>\<open>begin\<close> and \<open>end\<close> give pointers; \<open>end\<close> follows the link of the last node.\<close>

definition queue_begin :: "queue \<Rightarrow> ptr" where
  "queue_begin q = q_front q"

definition queue_end :: "'a store \<Rightarrow> queue \<Rightarrow> ptr option" where
  "queue_end s q = do { l \<leftarrow> last_node s (q_front q); n \<leftarrow> deref s l; Some (node_next n) }"

definition iter_value :: "'a store \<Rightarrow> ptr \<Rightarrow> 'a option" where
  "iter_value s it = do { n \<leftarrow> deref s it; Some (node_item n) }"

definition iter_step :: "'a store \<Rightarrow> ptr \<Rightarrow> ptr option" where
  "iter_step s it = do { n \<leftarrow> deref s it; Some (node_next n) }"

definition queue_front :: "'a store \<Rightarrow> queue \<Rightarrow> 'a option" where
  "queue_front s q = iter_value s (q_front q)"

definition queue_back :: "'a store \<Rightarrow> queue \<Rightarrow> 'a option" where
  "queue_back s q = iter_value s (q_rear q)"

text \<open>\<open>operator[]\<close>: the loop stops at the index or at the end, whichever comes first.\<close>

partial_function (option) queue_index_loop :: "'a store \<Rightarrow> queue \<Rightarrow> ptr \<Rightarrow> int \<Rightarrow> int \<Rightarrow> ptr option" where
  "queue_index_loop s q it idx i = do {
     e \<leftarrow> queue_end s q;
     if it \<noteq> e
     then (if idx = i then Some it
           else do { it' \<leftarrow> iter_step s it; queue_index_loop s q it' (idx + 1) i })
     else Some it
   }"

definition queue_index :: "'a store \<Rightarrow> queue \<Rightarrow> int \<Rightarrow> 'a option" where
  "queue_index s q i = do { it \<leftarrow> queue_index_loop s q (queue_begin q) 0 i; iter_value s it }"

text \<open>The \<open>const\<close> overload calls itself: \<open>(*this)[i]\<close> of a \<open>const\<close> queue is the same overload.\<close>

partial_function (option) queue_const_index :: "'a store \<Rightarrow> queue \<Rightarrow> int \<Rightarrow> 'a option" where
  "queue_const_index s q i = queue_const_index s q i"

fun queue_push_all :: "'a store \<Rightarrow> queue \<Rightarrow> 'a list \<Rightarrow> ('a store \<times> queue) option" where
  "queue_push_all s q [] = Some (s, q)"
| "queue_push_all s q (x # xs) = do { (s1, q1) \<leftarrow> queue_push s q x; queue_push_all s1 q1 xs }"

definition queue_clear :: "'a store \<Rightarrow> queue \<Rightarrow> ('a store \<times> queue) option" where
  "queue_clear s q = do {
     s1 \<leftarrow> clear_list s (q_front q);
     Some (s1, \<lparr>q_front = None, q_rear = None, q_size = 0\<rparr>)
   }"

definition queue_copy :: "'a store \<Rightarrow> queue \<Rightarrow> ('a store \<times> queue) option" where
  "queue_copy s copyMe = do {
     (r, f, s1) \<leftarrow> copy_list_to s None (q_front copyMe);
     Some (s1, \<lparr>q_front = f, q_rear = r, q_size = q_size copyMe\<rparr>)
   }"

text \<open>\<open>operator=\<close>, for a right-hand side other than the queue itself.\<close>

definition queue_assign :: "'a store \<Rightarrow> queue \<Rightarrow> queue \<Rightarrow> ('a store \<times> queue) option" where
  "queue_assign s q rhs = do {
     s1 \<leftarrow> clear_list s (q_front q);
     (r, f, s2) \<leftarrow> copy_list_to s1 None (q_front rhs);
     Some (s2, \<lparr>q_front = f, q_rear = r, q_size = q_size rhs\<rparr>)
   }"

partial_function (option) print_items ::
  "('a \<Rightarrow> string) \<Rightarrow> 'a store \<Rightarrow> ptr option \<Rightarrow> ptr \<Rightarrow> string option" where
  "print_items sh s end_it it = do {
     e \<leftarrow> end_it;
     if it \<noteq> e
     then do {
       x \<leftarrow> (if it \<noteq> None then do { v \<leftarrow> iter_value s it; Some (''['' @ sh v @ '']->'') } else Some '''');
       it' \<leftarrow> iter_step s it;
       rest \<leftarrow> print_items sh s end_it it';
       Some (x @ rest)
     }
     else Some ''''
   }"

definition queue_show :: "('a \<Rightarrow> string) \<Rightarrow> 'a store \<Rightarrow> queue \<Rightarrow> string option" where
  "queue_show sh s q =
     (if queue_empty q then Some ''|||''
      else do {
        t \<leftarrow> print_items sh s (queue_end s q) (queue_begin q);
        Some (t @ ''|||'' @ [CHR 0x0A])
      })"

section \<open>The stack\<close>

record stack =
  s_top :: ptr
  s_size :: int

definition stack_new :: stack where
  "stack_new = \<lparr>s_top = None, s_size = 0\<rparr>"

definition stack_empty :: "stack \<Rightarrow> bool" where
  "stack_empty k \<longleftrightarrow> s_top k = None"

definition stack_push :: "'a store \<Rightarrow> stack \<Rightarrow> 'a \<Rightarrow> ('a store \<times> stack) option" where
  "stack_push s k x = do {
     (t, s1) \<leftarrow> insert_head s (s_top k) x;
     Some (s1, k\<lparr>s_top := t, s_size := s_size k + 1\<rparr>)
   }"

definition stack_pop :: "'a store \<Rightarrow> stack \<Rightarrow> ('a \<times> 'a store \<times> stack) option" where
  "stack_pop s k =
     (let k = (if s_size k > 0 then k\<lparr>s_size := s_size k - 1\<rparr> else k) in
      do {
        (x, t, s1) \<leftarrow> delete_node s (s_top k) (s_top k);
        Some (x, s1, k\<lparr>s_top := t\<rparr>)
      })"

text \<open>\<open>top\<close> gives \<open>T()\<close>, here the parameter \<open>d\<close>, on an empty stack.\<close>

definition stack_top :: "'a \<Rightarrow> 'a store \<Rightarrow> stack \<Rightarrow> 'a option" where
  "stack_top d s k =
     (if stack_empty k then Some d else do { n \<leftarrow> deref s (s_top k); Some (node_item n) })"

definition stack_begin :: "stack \<Rightarrow> ptr" where
  "stack_begin k = s_top k"

definition stack_end :: "'a store \<Rightarrow> stack \<Rightarrow> ptr option" where
  "stack_end s k = do { l \<leftarrow> last_node s (s_top k); n \<leftarrow> deref s l; Some (node_next n) }"

definition stack_clear :: "'a store \<Rightarrow> stack \<Rightarrow> ('a store \<times> stack) option" where
  "stack_clear s k = do { s1 \<leftarrow> clear_list s (s_top k); Some (s1, \<lparr>s_top = None, s_size = 0\<rparr>) }"

definition stack_copy :: "'a store \<Rightarrow> stack \<Rightarrow> ('a store \<times> stack) option" where
  "stack_copy s copyMe = do {
     (t, s1) \<leftarrow> copy_list s (s_top copyMe);
     Some (s1, \<lparr>s_top = t, s_size = s_size copyMe\<rparr>)
   }"

definition stack_assign :: "'a store \<Rightarrow> stack \<Rightarrow> stack \<Rightarrow> ('a store \<times> stack) option" where
  "stack_assign s k rhs = do {
     s1 \<leftarrow> clear_list s (s_top k);
     (t, s2) \<leftarrow> copy_list s1 (s_top rhs);
     Some (s2, \<lparr>s_top = t, s_size = s_size rhs\<rparr>)
   }"

definition stack_show :: "('a \<Rightarrow> string) \<Rightarrow> 'a store \<Rightarrow> stack \<Rightarrow> string option" where
  "stack_show sh s k =
     (if stack_empty k then Some ''|||''
      else do {
        t \<leftarrow> print_items sh s (stack_end s k) (stack_begin k);
        Some (t @ ''|||'' @ [CHR 0x0A])
      })"

section \<open>What the containers hold\<close>

definition queue_list :: "'a store \<Rightarrow> queue \<Rightarrow> (nat \<times> 'a) list \<Rightarrow> bool" where
  "queue_list s q l \<longleftrightarrow> is_list s (q_front q) l \<and> q_size q = int (length l) \<and>
     (l \<noteq> [] \<longrightarrow> q_rear q = end_of None l)"

definition queue_holds :: "'a store \<times> queue \<Rightarrow> 'a list \<Rightarrow> bool" where
  "queue_holds c xs \<longleftrightarrow> (\<exists>l. queue_list (fst c) (snd c) l \<and> xs = map snd l)"

definition stack_list :: "'a store \<Rightarrow> stack \<Rightarrow> (nat \<times> 'a) list \<Rightarrow> bool" where
  "stack_list s k l \<longleftrightarrow> is_list s (s_top k) l \<and> s_size k = int (length l)"

definition stack_holds :: "'a store \<times> stack \<Rightarrow> 'a list \<Rightarrow> bool" where
  "stack_holds c xs \<longleftrightarrow> (\<exists>l. stack_list (fst c) (snd c) l \<and> xs = map snd l)"


section \<open>Each operation on what the container holds\<close>

lemma queue_list_new: "store_ok s \<Longrightarrow> queue_list s queue_new []"
  by (simp add: queue_list_def queue_new_def is_list_def)

lemma queue_list_empty: "queue_list s q l \<Longrightarrow> queue_empty q \<longleftrightarrow> l = []"
  by (cases l) (auto simp: queue_list_def queue_empty_def end_of_last dest: is_list_head split: if_splits)

lemma queue_push_list:
  assumes "queue_list s q l"
  obtains s' q' where "queue_push s q x = Some (s', q')" and "queue_list s' q' (l @ [(next_free s, x)])"
    and "unchanged_but (fst ` set l) s s'"
proof (cases l rule: rev_cases)
  case Nil
  have l: "is_list s (q_front q) l" and z: "q_size q = int (length l)"
    using assms by (simp_all add: queue_list_def)
  obtain s' where "insert_head s (q_front q) x = Some (Some (next_free s), s')"
    and "is_list s' (Some (next_free s)) ((next_free s, x) # l)" and "unchanged_but (fst ` set l) s s'"
    using insert_head_list [OF l] by metis
  moreover have "queue_empty (q\<lparr>q_size := q_size q + 1\<rparr>)"
    using queue_list_empty [OF assms] Nil by (simp add: queue_empty_def)
  ultimately show ?thesis
    using Nil z that [of s' "q\<lparr>q_size := 1, q_front := Some (next_free s), q_rear := Some (next_free s)\<rparr>"]
    by (simp add: queue_push_def queue_list_def)
next
  case (snoc m ay)
  obtain a y where ay: "ay = (a, y)" by (cases ay) auto
  have l: "is_list s (q_front q) l" and z: "q_size q = int (length l)"
    using assms by (simp_all add: queue_list_def)
  obtain h s' where "insert_after s (q_front q) (Some a) x = Some (Some (next_free s), h, s')"
    and "is_list s' h (m @ (a, y) # (next_free s, x) # [])" and "unchanged_but (fst ` set l) s s'"
    using insert_after_list [of s "q_front q" m a y "[]" x] l snoc ay by metis
  moreover have "\<not> queue_empty (q\<lparr>q_size := q_size q + 1\<rparr>)"
    using queue_list_empty [OF assms] snoc by (simp add: queue_empty_def)
  ultimately show ?thesis
    using snoc ay z that [of s' "q\<lparr>q_size := q_size q + 1, q_front := h, q_rear := Some (next_free s)\<rparr>"]
    by (simp add: queue_push_def queue_list_def last_node_list [OF l])
qed

lemma queue_pop_list:
  assumes "queue_list s q ((a, y) # l)"
  obtains s' q' where "queue_pop s q = Some (y, s', q')" and "queue_list s' q' l"
    and "unchanged_but (fst ` set ((a, y) # l)) s s'"
proof -
  have m: "is_list s (q_front q) ([] @ (a, y) # l)" and z: "q_size q = 1 + int (length l)"
    and r: "q_rear q = end_of None ((a, y) # l)"
    using assms by (simp_all add: queue_list_def)
  have f: "q_front q = Some a" using is_list_head [OF m] by simp
  obtain h s' where "delete_node s (q_front q) (Some a) = Some (y, h, s')"
    "is_list s' h l" "unchanged_but (fst ` set ((a, y) # l)) s s'"
    using delete_node_list [OF m] by (metis append_Nil)
  then show ?thesis
    using z f r that [of s' "q\<lparr>q_size := q_size q - 1, q_front := h\<rparr>"]
    by (cases l) (auto simp: queue_pop_def queue_list_def)
qed

lemma queue_pop_empty: "queue_list s q [] \<Longrightarrow> queue_pop s q = None"
  by (auto simp: queue_pop_def queue_list_def delete_node_def deref_def dest: is_list_head)

lemma queue_ends_list:
  assumes "queue_list s q l" and "l \<noteq> []"
  shows "queue_front s q = Some (snd (hd l))" and "queue_back s q = Some (snd (List.last l))"
    and "queue_end s q = Some None"
proof -
  have l: "is_list s (q_front q) l" and r: "q_rear q = end_of None l"
    using assms by (simp_all add: queue_list_def)
  obtain a y m where e: "l = m @ [(a, y)]" using assms(2) by (cases l rule: rev_cases) auto
  obtain b where "cells s a = Some \<lparr>node_item = y, node_next = None, node_prev = b\<rparr>"
    using is_list_split [OF l [unfolded e]] by (metis head_of_simps(1))
  then show "queue_back s q = Some (snd (List.last l))" "queue_end s q = Some None"
    using r e last_node_list [OF l] by (simp_all add: queue_back_def iter_value_def deref_def queue_end_def)
  obtain c z k where f: "l = [] @ (c, z) # k" using assms(2) by (cases l) auto
  show "queue_front s q = Some (snd (hd l))"
  proof -
    obtain b where "cells s c = Some \<lparr>node_item = z, node_next = head_of k, node_prev = b\<rparr>"
      using is_list_split [OF l [unfolded f]] by metis
    moreover have "q_front q = Some c" using is_list_head [OF l] f by simp
    ultimately show ?thesis using f by (simp add: queue_front_def iter_value_def deref_def)
  qed
qed

lemma queue_end_empty: "queue_list s q [] \<Longrightarrow> queue_end s q = None"
  by (auto simp: queue_end_def queue_list_def deref_def last_node.simps dest: is_list_head)

lemma queue_index_list:
  assumes "queue_list s q l" and "i < length l"
  shows "queue_index s q (int i) = Some (snd (l ! i))"
proof -
  have e: "queue_end s q = Some None" using queue_ends_list(3) assms by fastforce
  obtain b where lk: "links (cells s) (q_front q) b l None"
    using assms(1) by (auto simp: queue_list_def is_list_def)
  have "links (cells s) p b k None \<Longrightarrow> j < length k \<Longrightarrow> i' = n + int j \<Longrightarrow>
      \<exists>it. queue_index_loop s q p n i' = Some it \<and> iter_value s it = Some (snd (k ! j))" for p b k j n i'
  proof (induction k arbitrary: p b j n)
    case Nil
    then show ?case by simp
  next
    case (Cons ax k)
    obtain a x r where ax: "ax = (a, x)" "p = Some a"
      "cells s a = Some \<lparr>node_item = x, node_next = r, node_prev = b\<rparr>" "links (cells s) r (Some a) k None"
      using Cons.prems(1) by (cases ax) auto
    show ?case
    proof (cases j)
      case 0
      then show ?thesis using e ax Cons.prems
        by (subst queue_index_loop.simps) (simp add: iter_value_def deref_def)
    next
      case (Suc j')
      have "queue_index_loop s q p n i' = queue_index_loop s q r (n + 1) i'"
        using e ax Suc Cons.prems by (subst queue_index_loop.simps) (simp add: iter_step_def deref_def)
      moreover have "\<exists>it. queue_index_loop s q r (n + 1) i' = Some it \<and> iter_value s it = Some (snd (k ! j'))"
        using Cons.IH [OF ax(4), of j' "n + 1"] Cons.prems Suc by simp
      ultimately show ?thesis using Suc by simp
    qed
  qed
  from this [OF lk assms(2), of "int i" 0] show ?thesis
    by (auto simp: queue_index_def queue_begin_def)
qed

lemma queue_const_index_never: "queue_const_index s q i = None"
proof -
  have "\<not> queue_const_index s q i = Some v" for v
  proof
    assume "queue_const_index s q i = Some v"
    then show False by (rule queue_const_index.raw_induct [rotated]) blast
  qed
  then show ?thesis by (cases "queue_const_index s q i") auto
qed

lemma queue_push_all_list:
  assumes "queue_list s q l"
  shows "\<exists>s' q' k. queue_push_all s q xs = Some (s', q') \<and> queue_list s' q' (l @ k) \<and> map snd k = xs \<and>
    unchanged_but (fst ` set l) s s'"
  using assms
proof (induction xs arbitrary: s q l)
  case Nil
  then show ?case by simp
next
  case (Cons x xs)
  obtain s1 q1 where p: "queue_push s q x = Some (s1, q1)" "queue_list s1 q1 (l @ [(next_free s, x)])"
    "unchanged_but (fst ` set l) s s1" using queue_push_list [OF Cons.prems] by metis
  obtain s' q' k where r: "queue_push_all s1 q1 xs = Some (s', q')"
    "queue_list s' q' ((l @ [(next_free s, x)]) @ k)" "map snd k = xs"
    "unchanged_but (fst ` set (l @ [(next_free s, x)])) s1 s'"
    using Cons.IH [OF p(2)] by auto
  have "unchanged_but (fst ` set l) s s'"
    by (rule unchanged_but_trans [OF p(3) r(4)]) auto
  then show ?case using p(1) r by (intro exI [of _ s'] exI [of _ q'] exI [of _ "(next_free s, x) # k"]) simp
qed

lemma queue_clear_list:
  assumes "queue_list s q l"
  obtains s' where "queue_clear s q = Some (s', queue_new)" and "queue_list s' queue_new []"
    and "unchanged_but (fst ` set l) s s'" and "\<forall>a \<in> fst ` set l. cells s' a = None"
proof -
  have l: "is_list s (q_front q) l" using assms by (simp add: queue_list_def)
  obtain s' where "clear_list s (q_front q) = Some s'" "store_ok s'" "unchanged_but (fst ` set l) s s'"
    "\<forall>a \<in> fst ` set l. cells s' a = None"
    by (rule clear_list_list [OF l])
  then show ?thesis using that [of s'] queue_list_new [of s'] by (simp add: queue_clear_def queue_new_def)
qed

lemma queue_copy_list:
  assumes "queue_list s q l"
  obtains s' q' k where "queue_copy s q = Some (s', q')" and "queue_list s' q' k" and "map snd k = map snd l"
    and "unchanged_but {} s s'" and "\<forall>a \<in> fst ` set k. next_free s \<le> a"
proof -
  have l: "is_list s (q_front q) l" and z: "q_size q = int (length l)"
    using assms by (simp_all add: queue_list_def)
  have "is_list s None []" using l by (simp add: is_list_def)
  then obtain h k s' where "copy_list_to s None (q_front q) = Some (end_of None k, h, s')" "is_list s' h k"
    "map snd k = map snd l" "unchanged_but {} s s'" "\<forall>a \<in> fst ` set k. next_free s \<le> a"
    using copy_list_to_list [OF _ l, of None "[]"] by (metis Int_empty_left image_empty list.set(1))
  moreover from this have "length k = length l" by (metis length_map)
  ultimately show ?thesis
    using z that [of s' "\<lparr>q_front = h, q_rear = end_of None k, q_size = q_size q\<rparr>" k]
    by (simp add: queue_copy_def queue_list_def)
qed

lemma queue_assign_list:
  assumes "queue_list s q l" and "queue_list s rhs m" and "fst ` set l \<inter> fst ` set m = {}"
  obtains s' q' k where "queue_assign s q rhs = Some (s', q')" and "queue_list s' q' k"
    and "map snd k = map snd m" and "unchanged_but (fst ` set l) s s'"
proof -
  have l: "is_list s (q_front q) l" and m: "queue_list s rhs m" using assms by (simp_all add: queue_list_def)
  obtain s1 where s1: "clear_list s (q_front q) = Some s1" "store_ok s1" "unchanged_but (fst ` set l) s s1"
    by (rule clear_list_list [OF l])
  have "queue_list s1 rhs m"
    using m is_list_frame [OF _ s1(3,2) assms(3)] by (auto simp: queue_list_def)
  then obtain s' q' k where c: "queue_copy s1 rhs = Some (s', q')" "queue_list s' q' k"
    "map snd k = map snd m" "unchanged_but {} s1 s'"
    by (rule queue_copy_list)
  have "queue_assign s q rhs = Some (s', q')"
    using s1(1) c(1) by (simp add: queue_assign_def queue_copy_def)
  moreover have "unchanged_but (fst ` set l) s s'"
    by (rule unchanged_but_trans [OF s1(3) c(4)]) simp
  ultimately show ?thesis using c by (intro that)
qed

lemma print_items_links:
  "links (cells s) p b l None \<Longrightarrow>
    print_items sh s (Some None) p = Some (concat (map (\<lambda>(a, x). ''['' @ sh x @ '']->'') l))"
proof (induction l arbitrary: p b)
  case Nil
  then show ?case by (subst print_items.simps) simp
next
  case (Cons ax l)
  obtain a x where "ax = (a, x)" by (cases ax) auto
  then show ?case using Cons
    by (subst print_items.simps) (auto simp: iter_value_def iter_step_def deref_def)
qed

definition arrows :: "('a \<Rightarrow> string) \<Rightarrow> 'a list \<Rightarrow> string" where
  "arrows sh xs =
     (if xs = [] then ''|||'' else concat (map (\<lambda>x. ''['' @ sh x @ '']->'') xs) @ ''|||'' @ [CHR 0x0A])"

lemma arrows_snd: "(\<lambda>(a, x). ''['' @ sh x @ '']->'') = (\<lambda>x. ''['' @ sh x @ '']->'') \<circ> snd"
  by auto

lemma queue_show_list:
  assumes "queue_list s q l"
  shows "queue_show sh s q = Some (arrows sh (map snd l))"
proof (cases "l = []")
  case True
  then show ?thesis using queue_list_empty [OF assms] by (simp add: queue_show_def arrows_def)
next
  case False
  then have "queue_end s q = Some None" using queue_ends_list(3) [OF assms] by simp
  moreover obtain b where "links (cells s) (q_front q) b l None"
    using assms by (auto simp: queue_list_def is_list_def)
  ultimately show ?thesis
    using False queue_list_empty [OF assms] print_items_links [of s "q_front q" b l sh, unfolded arrows_snd]
    by (simp add: queue_show_def queue_begin_def arrows_def)
qed

lemma stack_list_new: "store_ok s \<Longrightarrow> stack_list s stack_new []"
  by (simp add: stack_list_def stack_new_def is_list_def)

lemma stack_list_empty: "stack_list s k l \<Longrightarrow> stack_empty k \<longleftrightarrow> l = []"
  by (cases l) (auto simp: stack_list_def stack_empty_def dest: is_list_head)

lemma stack_push_list:
  assumes "stack_list s k l"
  obtains s' k' where "stack_push s k x = Some (s', k')" and "stack_list s' k' ((next_free s, x) # l)"
    and "unchanged_but (fst ` set l) s s'"
proof -
  have l: "is_list s (s_top k) l" and z: "s_size k = int (length l)"
    using assms by (simp_all add: stack_list_def)
  obtain s' where "insert_head s (s_top k) x = Some (Some (next_free s), s')"
    and "is_list s' (Some (next_free s)) ((next_free s, x) # l)" and "unchanged_but (fst ` set l) s s'"
    using insert_head_list [OF l] by metis
  then show ?thesis
    using z that [of s' "k\<lparr>s_top := Some (next_free s), s_size := s_size k + 1\<rparr>"]
    by (simp add: stack_push_def stack_list_def)
qed

lemma stack_pop_list:
  assumes "stack_list s k ((a, y) # l)"
  obtains s' k' where "stack_pop s k = Some (y, s', k')" and "stack_list s' k' l"
    and "unchanged_but (fst ` set ((a, y) # l)) s s'"
proof -
  have m: "is_list s (s_top k) ([] @ (a, y) # l)" and z: "s_size k = 1 + int (length l)"
    using assms by (simp_all add: stack_list_def)
  have f: "s_top k = Some a" using is_list_head [OF m] by simp
  obtain h s' where "delete_node s (s_top k) (Some a) = Some (y, h, s')"
    "is_list s' h l" "unchanged_but (fst ` set ((a, y) # l)) s s'"
    using delete_node_list [OF m] by (metis append_Nil)
  then show ?thesis
    using z f that [of s' "k\<lparr>s_size := s_size k - 1, s_top := h\<rparr>"]
    by (auto simp: stack_pop_def stack_list_def)
qed

lemma stack_pop_empty: "stack_list s k [] \<Longrightarrow> stack_pop s k = None"
  by (auto simp: stack_pop_def stack_list_def delete_node_def deref_def dest: is_list_head)

lemma stack_top_list: "stack_list s k l \<Longrightarrow> stack_top d s k = Some (if l = [] then d else snd (hd l))"
  by (cases l) (auto simp: stack_list_def stack_top_def stack_empty_def deref_def is_list_def)

lemma stack_clear_list:
  assumes "stack_list s k l"
  obtains s' where "stack_clear s k = Some (s', stack_new)" and "stack_list s' stack_new []"
    and "unchanged_but (fst ` set l) s s'" and "\<forall>a \<in> fst ` set l. cells s' a = None"
proof -
  have l: "is_list s (s_top k) l" using assms by (simp add: stack_list_def)
  obtain s' where "clear_list s (s_top k) = Some s'" "store_ok s'" "unchanged_but (fst ` set l) s s'"
    "\<forall>a \<in> fst ` set l. cells s' a = None"
    by (rule clear_list_list [OF l])
  then show ?thesis using that [of s'] stack_list_new [of s'] by (simp add: stack_clear_def stack_new_def)
qed

lemma stack_copy_list:
  assumes "stack_list s k l"
  obtains s' k' m where "stack_copy s k = Some (s', k')" and "stack_list s' k' m" and "map snd m = map snd l"
    and "unchanged_but {} s s'"
proof -
  have l: "is_list s (s_top k) l" and z: "s_size k = int (length l)"
    using assms by (simp_all add: stack_list_def)
  obtain h s' where "copy_list s (s_top k) = Some (h, s')"
    "is_list s' h (zip [next_free s..<next_free s + length l] (map snd l))" "unchanged_but {} s s'"
    by (rule copy_list_list [OF l])
  then show ?thesis
    using z that [of s' "\<lparr>s_top = h, s_size = s_size k\<rparr>" "zip [next_free s..<next_free s + length l] (map snd l)"]
    by (simp add: stack_copy_def stack_list_def)
qed

lemma stack_assign_list:
  assumes "stack_list s k l" and "stack_list s rhs m" and "fst ` set l \<inter> fst ` set m = {}"
  obtains s' k' m' where "stack_assign s k rhs = Some (s', k')" and "stack_list s' k' m'"
    and "map snd m' = map snd m" and "unchanged_but (fst ` set l) s s'"
proof -
  have l: "is_list s (s_top k) l" using assms by (simp add: stack_list_def)
  obtain s1 where s1: "clear_list s (s_top k) = Some s1" "store_ok s1" "unchanged_but (fst ` set l) s s1"
    by (rule clear_list_list [OF l])
  have "stack_list s1 rhs m"
    using assms(2) is_list_frame [OF _ s1(3,2) assms(3)] by (auto simp: stack_list_def)
  then obtain s' k' m' where c: "stack_copy s1 rhs = Some (s', k')" "stack_list s' k' m'"
    "map snd m' = map snd m" "unchanged_but {} s1 s'"
    by (rule stack_copy_list)
  have "stack_assign s k rhs = Some (s', k')"
    using s1(1) c(1) by (simp add: stack_assign_def stack_copy_def)
  moreover have "unchanged_but (fst ` set l) s s'"
    by (rule unchanged_but_trans [OF s1(3) c(4)]) simp
  ultimately show ?thesis using c by (intro that)
qed

lemma stack_end_list:
  assumes "stack_list s k l" and "l \<noteq> []"
  shows "stack_end s k = Some None"
proof -
  have l: "is_list s (s_top k) l" using assms by (simp add: stack_list_def)
  obtain a y m where e: "l = m @ [(a, y)]" using assms(2) by (cases l rule: rev_cases) auto
  obtain b where "cells s a = Some \<lparr>node_item = y, node_next = None, node_prev = b\<rparr>"
    using is_list_split [OF l [unfolded e]] by (metis head_of_simps(1))
  then show ?thesis using e last_node_list [OF l] by (simp add: deref_def stack_end_def)
qed

lemma stack_show_list:
  assumes "stack_list s k l"
  shows "stack_show sh s k = Some (arrows sh (map snd l))"
proof (cases "l = []")
  case True
  then show ?thesis using stack_list_empty [OF assms] by (simp add: stack_show_def arrows_def)
next
  case False
  obtain b where "links (cells s) (s_top k) b l None"
    using assms by (auto simp: stack_list_def is_list_def)
  then show ?thesis
    using False stack_list_empty [OF assms] stack_end_list [OF assms] 
      print_items_links [of s "s_top k" b l sh, unfolded arrows_snd]
    by (simp add: stack_show_def stack_begin_def arrows_def)
qed

section \<open>Both meet the contract\<close>

definition q_push :: "'a store \<times> queue \<Rightarrow> 'a \<Rightarrow> ('a store \<times> queue) option" where
  "q_push c x = queue_push (fst c) (snd c) x"

definition q_pop :: "'a store \<times> queue \<Rightarrow> ('a \<times> 'a store \<times> queue) option" where
  "q_pop c = queue_pop (fst c) (snd c)"

definition s_push :: "'a store \<times> stack \<Rightarrow> 'a \<Rightarrow> ('a store \<times> stack) option" where
  "s_push c x = stack_push (fst c) (snd c) x"

definition s_pop :: "'a store \<times> stack \<Rightarrow> ('a \<times> 'a store \<times> stack) option" where
  "s_pop c = stack_pop (fst c) (snd c)"

interpretation queue_container: container queue_holds "\<lambda>xs x. xs @ [x]" q_push q_pop
proof unfold_locales
  show "\<exists>c'. q_push c x = Some c' \<and> queue_holds c' (xs @ [x])" if h: "queue_holds c xs"
    for c :: "'a store \<times> queue" and xs x
  proof -
    obtain l where l: "queue_list (fst c) (snd c) l" "xs = map snd l"
      using h by (auto simp: queue_holds_def)
    then obtain s' k' where "queue_push (fst c) (snd c) x = Some (s', k')"
      "queue_list s' k' (l @ [(next_free (fst c), x)])"
      using queue_push_list by metis
    then show ?thesis using l by (auto simp: queue_holds_def q_push_def intro!: exI)
  qed
  show "\<exists>c'. q_pop c = Some (x, c') \<and> queue_holds c' xs" if h: "queue_holds c (x # xs)"
    for c :: "'a store \<times> queue" and x xs
  proof -
    obtain a l where l: "queue_list (fst c) (snd c) ((a, x) # l)" "xs = map snd l"
      using h by (auto simp: queue_holds_def)
    then obtain s' q' where "queue_pop (fst c) (snd c) = Some (x, s', q')" "queue_list s' q' l"
      using queue_pop_list by metis
    then show ?thesis using l by (auto simp: queue_holds_def q_pop_def)
  qed
  show "q_pop c = None" if "queue_holds c []" for c :: "'a store \<times> queue"
    using that by (auto simp: queue_holds_def q_pop_def queue_pop_empty)
qed

interpretation stack_container: container stack_holds "\<lambda>xs x. x # xs" s_push s_pop
proof unfold_locales
  show "\<exists>c'. s_push c x = Some c' \<and> stack_holds c' (x # xs)" if h: "stack_holds c xs"
    for c :: "'a store \<times> stack" and xs x
  proof -
    obtain l where l: "stack_list (fst c) (snd c) l" "xs = map snd l"
      using h by (auto simp: stack_holds_def)
    then obtain s' k' where "stack_push (fst c) (snd c) x = Some (s', k')"
      "stack_list s' k' ((next_free (fst c), x) # l)"
      using stack_push_list by metis
    then show ?thesis using l by (auto simp: stack_holds_def s_push_def intro!: exI)
  qed
  show "\<exists>c'. s_pop c = Some (x, c') \<and> stack_holds c' xs" if h: "stack_holds c (x # xs)"
    for c :: "'a store \<times> stack" and x xs
  proof -
    obtain a l where l: "stack_list (fst c) (snd c) ((a, x) # l)" "xs = map snd l"
      using h by (auto simp: stack_holds_def)
    then obtain s' q' where "stack_pop (fst c) (snd c) = Some (x, s', q')" "stack_list s' q' l"
      using stack_pop_list by metis
    then show ?thesis using l by (auto simp: stack_holds_def s_pop_def)
  qed
  show "s_pop c = None" if "stack_holds c []" for c :: "'a store \<times> stack"
    using that by (auto simp: stack_holds_def s_pop_def stack_pop_empty)
qed

end
