(* ===== verification/Container_Iterators.thy ===== *)
theory Container_Iterators
  imports Containers
begin

text \<open>
  The rest of \<open>MyQueue.h\<close> and \<open>MyStack.h\<close>: sizes, destructors and the members of the two iterator classes,
  which wrap a node pointer. A traversal from \<open>begin\<close> to \<open>end\<close>, with either increment, visits the items
  in order; on an empty container \<open>end\<close> dereferences the null pointer, so no traversal is possible there.
\<close>

section \<open>The queue\<close>

definition queue_length :: "queue \<Rightarrow> int" where
  "queue_length q = q_size q"

definition queue_empty_const :: "queue \<Rightarrow> bool" where
  "queue_empty_const q = (if q_rear q = None \<or> q_front q = None then True else False)"

definition queue_destroy :: "'a store \<Rightarrow> queue \<Rightarrow> ('a store \<times> queue) option" where
  "queue_destroy s q = do {
     s1 \<leftarrow> clear_list s (q_front q);
     Some (s1, \<lparr>q_front = None, q_rear = None, q_size = 0\<rparr>)
   }"

definition queue_add :: "'a store \<Rightarrow> queue \<Rightarrow> 'a \<Rightarrow> ('a store \<times> queue) option" where
  "queue_add s q x = queue_push s q x"

definition iter_new :: ptr where "iter_new = None"

definition iter_at :: "ptr \<Rightarrow> ptr" where "iter_at p = p"

definition iter_bool :: "ptr \<Rightarrow> bool" where "iter_bool it \<longleftrightarrow> \<not> it = None"

definition iter_is_null :: "ptr \<Rightarrow> bool" where "iter_is_null it \<longleftrightarrow> it = None"

definition iter_neq :: "ptr \<Rightarrow> ptr \<Rightarrow> bool" where "iter_neq l r \<longleftrightarrow> l \<noteq> r"

definition iter_eq :: "ptr \<Rightarrow> ptr \<Rightarrow> bool" where "iter_eq l r \<longleftrightarrow> l = r"

text \<open>\<open>it++\<close> gives the old iterator and the moved one.\<close>

definition iter_post_step :: "'a store \<Rightarrow> ptr \<Rightarrow> (ptr \<times> ptr) option" where
  "iter_post_step s it = do { n \<leftarrow> deref s it; Some (it, node_next n) }"

section \<open>The stack\<close>

definition stack_length :: "stack \<Rightarrow> int" where
  "stack_length k = s_size k"

definition stack_empty_const :: "stack \<Rightarrow> bool" where
  "stack_empty_const k \<longleftrightarrow> s_top k = None"

definition stack_destroy :: "'a store \<Rightarrow> stack \<Rightarrow> ('a store \<times> stack) option" where
  "stack_destroy s k = do { s1 \<leftarrow> clear_list s (s_top k); Some (s1, \<lparr>s_top = None, s_size = 0\<rparr>) }"

definition stack_iter_new :: ptr where "stack_iter_new = None"

definition stack_iter_at :: "ptr \<Rightarrow> ptr" where "stack_iter_at p = p"

definition stack_iter_bool :: "ptr \<Rightarrow> bool" where "stack_iter_bool it \<longleftrightarrow> \<not> it = None"

definition stack_iter_value :: "'a store \<Rightarrow> ptr \<Rightarrow> 'a option" where
  "stack_iter_value s it = do { n \<leftarrow> deref s it; Some (node_item n) }"

definition stack_iter_is_null :: "ptr \<Rightarrow> bool" where
  "stack_iter_is_null it = (if it = None then True else False)"

definition stack_iter_neq :: "ptr \<Rightarrow> ptr \<Rightarrow> bool" where "stack_iter_neq l r \<longleftrightarrow> l \<noteq> r"

definition stack_iter_eq :: "ptr \<Rightarrow> ptr \<Rightarrow> bool" where "stack_iter_eq l r \<longleftrightarrow> l = r"

definition stack_iter_step :: "'a store \<Rightarrow> ptr \<Rightarrow> ptr option" where
  "stack_iter_step s it = do { n \<leftarrow> deref s it; Some (node_next n) }"

definition stack_iter_post_step :: "'a store \<Rightarrow> ptr \<Rightarrow> (ptr \<times> ptr) option" where
  "stack_iter_post_step s it = do { n \<leftarrow> deref s it; Some (it, node_next n) }"

section \<open>Traversals\<close>

text \<open>A client's \<open>for (it = c.begin(); it != c.end(); it++)\<close> that collects \<open>*it\<close>.\<close>

partial_function (option) traverse ::
  "('p \<Rightarrow> 'a option) \<Rightarrow> ('p \<Rightarrow> ('p \<times> 'p) option) \<Rightarrow> ('p \<Rightarrow> 'p \<Rightarrow> bool) \<Rightarrow> 'p option \<Rightarrow> 'p \<Rightarrow> 'a list option" where
  "traverse val step neq end_it it = do {
     e \<leftarrow> end_it;
     if neq it e
     then do { x \<leftarrow> val it; p \<leftarrow> step it; xs \<leftarrow> traverse val step neq end_it (snd p); Some (x # xs) }
     else Some []
   }"

lemma traverse_links:
  assumes "\<And>it. val it = Option.bind (deref s it) (\<lambda>n. Some (node_item n))"
    and "\<And>it. step it = Option.bind (deref s it) (\<lambda>n. Some (it, node_next n))"
    and "\<And>l r. neq l r \<longleftrightarrow> l \<noteq> r"
  shows "links (cells s) p b l None \<Longrightarrow> traverse val step neq (Some None) p = Some (map snd l)"
proof (induction l arbitrary: p b)
  case Nil
  then show ?case by (subst traverse.simps) (simp add: assms)
next
  case (Cons ax l)
  obtain a x where "ax = (a, x)" by (cases ax) auto
  then obtain r where r: "p = Some a" "cells s a = Some \<lparr>node_item = x, node_next = r, node_prev = b\<rparr>"
    "links (cells s) r (Some a) l None" using Cons.prems by auto
  have "val p = Some x" "step p = Some (p, r)" "neq p None" using r by (simp_all add: assms deref_def)
  then show ?case
    by (subst traverse.simps) (simp add: Cons.IH [OF r(3)] \<open>ax = (a, x)\<close>)
qed

theorem queue_traversal:
  assumes "queue_list s q l" and "l \<noteq> []"
  shows "traverse (iter_value s) (iter_post_step s) iter_neq (queue_end s q) (queue_begin q) = Some (map snd l)"
proof -
  have "queue_end s q = Some None" using queue_ends_list(3) [OF assms] .
  moreover obtain b where "links (cells s) (q_front q) b l None"
    using assms by (auto simp: queue_list_def is_list_def)
  ultimately show ?thesis
    using traverse_links [of "iter_value s" s "iter_post_step s" iter_neq "q_front q" b l]
    by (simp add: iter_value_def iter_post_step_def iter_neq_def queue_begin_def)
qed

theorem stack_traversal:
  assumes "stack_list s k l" and "l \<noteq> []"
  shows "traverse (stack_iter_value s) (stack_iter_post_step s) stack_iter_neq (stack_end s k) (stack_begin k) =
    Some (map snd l)"
proof -
  obtain b where "links (cells s) (s_top k) b l None"
    using assms by (auto simp: stack_list_def is_list_def)
  then show ?thesis
    using stack_end_list [OF assms]
      traverse_links [of "stack_iter_value s" s "stack_iter_post_step s" stack_iter_neq "s_top k" b l]
    by (simp add: stack_iter_value_def stack_iter_post_step_def stack_iter_neq_def stack_begin_def)
qed

text \<open>The sizes agree with the lists, and the destructors free them and nothing else.\<close>

lemma queue_length_list: "queue_list s q l \<Longrightarrow> queue_length q = int (length l)"
  by (simp add: queue_length_def queue_list_def)

lemma stack_length_list: "stack_list s k l \<Longrightarrow> stack_length k = int (length l)"
  by (simp add: stack_length_def stack_list_def)

lemma queue_destroy_frees:
  assumes "queue_list s q l"
  obtains s' where "queue_destroy s q = Some (s', queue_new)" and "unchanged_but (fst ` set l) s s'"
    and "store_ok s'"
proof -
  have "is_list s (q_front q) l" using assms by (simp add: queue_list_def)
  then obtain s' where "clear_list s (q_front q) = Some s'" "store_ok s'" "unchanged_but (fst ` set l) s s'"
    by (rule clear_list_list)
  then show ?thesis using that by (simp add: queue_destroy_def queue_new_def)
qed

lemma stack_destroy_frees:
  assumes "stack_list s k l"
  obtains s' where "stack_destroy s k = Some (s', stack_new)" and "unchanged_but (fst ` set l) s s'"
    and "store_ok s'"
proof -
  have "is_list s (s_top k) l" using assms by (simp add: stack_list_def)
  then obtain s' where "clear_list s (s_top k) = Some s'" "store_ok s'" "unchanged_but (fst ` set l) s s'"
    by (rule clear_list_list)
  then show ?thesis using that by (simp add: stack_destroy_def stack_new_def)
qed

end
