(* ===== verification/Array_Functions.thy ===== *)
theory Array_Functions
  imports Prelude
begin

text \<open>
  The array functions of \<open>btree_array_functions.h\<close> and the items of \<open>pair.h\<close>. An array is the list of its
  cells, of fixed length, beside the count of the cells in use; each function is the loop of the
  source. The second part gives, for each, the function on the list of the used cells that it
  computes: the B+ tree is modelled on those lists. The lemmas \<open>..._refines\<close> state that the loop and the
  list function agree, and under which bound the loop stays inside the array.
\<close>

section \<open>Items\<close>

text \<open>A \<open>Pair\<close> is compared by its key alone.\<close>

type_synonym ('k, 'v) item = "'k \<times> 'v"

definition item_eq :: "('k, 'v) item \<Rightarrow> ('k, 'v) item \<Rightarrow> bool" where
  "item_eq x y \<longleftrightarrow> fst x = fst y"

definition item_less :: "('k :: linorder, 'v) item \<Rightarrow> ('k, 'v) item \<Rightarrow> bool" where
  "item_less x y \<longleftrightarrow> fst x < fst y"

definition item_greater :: "('k :: linorder, 'v) item \<Rightarrow> ('k, 'v) item \<Rightarrow> bool" where
  "item_greater x y \<longleftrightarrow> fst x > fst y"

definition item_le :: "('k :: linorder, 'v) item \<Rightarrow> ('k, 'v) item \<Rightarrow> bool" where
  "item_le x y \<longleftrightarrow> fst x \<le> fst y"

lemmas item_compare = item_eq_def item_less_def item_greater_def item_le_def

section \<open>The loops\<close>

definition arr_swap :: "'a \<Rightarrow> 'a \<Rightarrow> 'a \<times> 'a" where
  "arr_swap a b = (let temp = a; a = b; b = temp in (a, b))"

definition maximal :: "('k :: linorder, 'v) item \<Rightarrow> ('k, 'v) item \<Rightarrow> ('k, 'v) item" where
  "maximal a b = (if item_greater a b then a else b)"

function index_of_maximal_loop :: "('k :: linorder, 'v) item list \<Rightarrow> nat \<Rightarrow> nat \<Rightarrow> nat \<Rightarrow> nat" where
  "index_of_maximal_loop data n i ans =
     (if i < n
      then index_of_maximal_loop data n (i + 1) (if item_greater (data ! i) (data ! ans) then i else ans)
      else ans)"
  by auto
termination by (relation "measure (\<lambda>(data, n, i, ans). n - i)") auto

definition index_of_maximal :: "('k :: linorder, 'v) item list \<Rightarrow> nat \<Rightarrow> nat" where
  "index_of_maximal data n = index_of_maximal_loop data n 1 0"

function arr_first_ge_loop :: "('k :: linorder, 'v) item list \<Rightarrow> nat \<Rightarrow> ('k, 'v) item \<Rightarrow> nat \<Rightarrow> nat" where
  "arr_first_ge_loop data n entry i =
     (if i < n
      then (if \<not> item_less (data ! i) entry then i else arr_first_ge_loop data n entry (i + 1))
      else n)"
  by auto
termination by (relation "measure (\<lambda>(data, n, entry, i). n - i)") auto

definition arr_first_ge :: "('k :: linorder, 'v) item list \<Rightarrow> nat \<Rightarrow> ('k, 'v) item \<Rightarrow> nat" where
  "arr_first_ge data n entry = arr_first_ge_loop data n entry 0"

function shift_right :: "'a list \<Rightarrow> nat \<Rightarrow> nat \<Rightarrow> 'a list" where
  "shift_right data i j = (if j > i then shift_right (data[j := data ! (j - 1)]) i (j - 1) else data)"
  by auto
termination by (relation "measure (\<lambda>(data, i, j). j)") auto

definition arr_insert_item :: "'a list \<Rightarrow> nat \<Rightarrow> nat \<Rightarrow> 'a \<Rightarrow> 'a list \<times> nat" where
  "arr_insert_item data i n entry = ((shift_right data i n)[i := entry], n + 1)"

definition arr_ordered_insert ::
  "('k :: linorder, 'v) item list \<Rightarrow> nat \<Rightarrow> ('k, 'v) item \<Rightarrow> ('k, 'v) item list \<times> nat" where
  "arr_ordered_insert data n entry =
     (let i = arr_first_ge data n entry in
      if i = n then (data[i := entry], n + 1) else arr_insert_item data i n entry)"

definition arr_attach_item :: "'a list \<Rightarrow> nat \<Rightarrow> 'a \<Rightarrow> 'a list \<times> nat" where
  "arr_attach_item data n entry = (data[n := entry], n + 1)"

function shift_left :: "'a list \<Rightarrow> nat \<Rightarrow> nat \<Rightarrow> 'a list" where
  "shift_left data n j = (if j < n then shift_left (data[j := data ! (j + 1)]) n (j + 1) else data)"
  by auto
termination by (relation "measure (\<lambda>(data, n, j). n - j)") auto

text \<open>The functions that hand out an item return it last.\<close>

definition arr_delete_item :: "'a list \<Rightarrow> nat \<Rightarrow> nat \<Rightarrow> 'a list \<times> nat \<times> 'a" where
  "arr_delete_item data i n = (shift_left data (n - 1) i, n - 1, data ! i)"

definition arr_detach_item :: "'a list \<Rightarrow> nat \<Rightarrow> 'a list \<times> nat \<times> 'a" where
  "arr_detach_item data n = (data, n - 1, data ! (n - 1))"

text \<open>\<open>merge\<close> changes both counts in its loop; their sum, the loop's bound, stays.\<close>

function arr_merge_loop :: "'a list \<Rightarrow> nat \<Rightarrow> 'a list \<Rightarrow> nat \<Rightarrow> nat \<Rightarrow> nat \<Rightarrow> 'a list \<times> nat \<times> nat" where
  "arr_merge_loop data1 n1 data2 n2 g i =
     (if i < n1 + n2
      then (if n2 = 0 then (data1, n1, n2)
            else arr_merge_loop (data1[i := data2 ! g]) (n1 + 1) data2 (n2 - 1) (g + 1) (i + 1))
      else (data1, n1, n2))"
  by auto
termination by (relation "measure (\<lambda>(data1, n1, data2, n2, g, i). n2)") auto

definition arr_merge :: "'a list \<Rightarrow> nat \<Rightarrow> 'a list \<Rightarrow> nat \<Rightarrow> 'a list \<times> nat \<times> nat" where
  "arr_merge data1 n1 data2 n2 = arr_merge_loop data1 n1 data2 n2 0 n1"

function arr_split_loop :: "'a list \<Rightarrow> nat \<Rightarrow> 'a list \<Rightarrow> nat \<Rightarrow> nat \<Rightarrow> 'a list" where
  "arr_split_loop data1 n1 data2 i g =
     (if i < n1 then arr_split_loop data1 n1 (data2[g := data1 ! i]) (i + 1) (g + 1) else data2)"
  by auto
termination by (relation "measure (\<lambda>(data1, n1, data2, i, g). n1 - i)") auto

definition arr_split :: "'a list \<Rightarrow> nat \<Rightarrow> 'a list \<Rightarrow> nat \<times> 'a list \<times> nat" where
  "arr_split data1 n1 data2 =
     (let n2 = n1 div 2;
          i = (if n1 mod 2 = 1 then n2 + 1 else n2) in
      (n1 - n2, arr_split_loop data1 n1 data2 i 0, n2))"

function arr_copy_loop :: "'a list \<Rightarrow> 'a list \<Rightarrow> nat \<Rightarrow> nat \<Rightarrow> 'a list" where
  "arr_copy_loop dest src src_size i =
     (if i < src_size then arr_copy_loop (dest[i := src ! i]) src src_size (i + 1) else dest)"
  by auto
termination by (relation "measure (\<lambda>(dest, src, src_size, i). src_size - i)") auto

definition arr_copy :: "'a list \<Rightarrow> 'a list \<Rightarrow> nat \<Rightarrow> 'a list \<times> nat" where
  "arr_copy dest src src_size = (arr_copy_loop dest src src_size 0, src_size)"

function arr_is_le_loop :: "('k :: linorder, 'v) item list \<Rightarrow> nat \<Rightarrow> ('k, 'v) item \<Rightarrow> nat \<Rightarrow> bool" where
  "arr_is_le_loop data n x i =
     (if i < n then (if item_less (data ! i) x then False else arr_is_le_loop data n x (i + 1)) else True)"
  by auto
termination by (relation "measure (\<lambda>(data, n, x, i). n - i)") auto

definition arr_is_le :: "('k :: linorder, 'v) item list \<Rightarrow> nat \<Rightarrow> ('k, 'v) item \<Rightarrow> bool" where
  "arr_is_le data n x = arr_is_le_loop data n x 0"

function arr_is_gt_loop :: "('k :: linorder, 'v) item list \<Rightarrow> nat \<Rightarrow> ('k, 'v) item \<Rightarrow> nat \<Rightarrow> bool" where
  "arr_is_gt_loop data n x i =
     (if i < n then (if item_le x (data ! i) then False else arr_is_gt_loop data n x (i + 1)) else True)"
  by auto
termination by (relation "measure (\<lambda>(data, n, x, i). n - i)") auto

definition arr_is_gt :: "('k :: linorder, 'v) item list \<Rightarrow> nat \<Rightarrow> ('k, 'v) item \<Rightarrow> bool" where
  "arr_is_gt data n x = arr_is_gt_loop data n x 0"

declare index_of_maximal_loop.simps [simp del] arr_first_ge_loop.simps [simp del]
  shift_right.simps [simp del] shift_left.simps [simp del] arr_merge_loop.simps [simp del]
  arr_split_loop.simps [simp del] arr_copy_loop.simps [simp del] arr_is_le_loop.simps [simp del]
  arr_is_gt_loop.simps [simp del]

section \<open>The functions on the used cells\<close>

fun first_ge :: "('k :: linorder, 'v) item list \<Rightarrow> ('k, 'v) item \<Rightarrow> nat" where
  "first_ge [] entry = 0"
| "first_ge (x # xs) entry = (if \<not> item_less x entry then 0 else Suc (first_ge xs entry))"

definition insert_item :: "'a list \<Rightarrow> nat \<Rightarrow> 'a \<Rightarrow> 'a list" where
  "insert_item xs i x = take i xs @ x # drop i xs"

definition ordered_insert :: "('k :: linorder, 'v) item list \<Rightarrow> ('k, 'v) item \<Rightarrow> ('k, 'v) item list" where
  "ordered_insert xs x = insert_item xs (first_ge xs x) x"

definition attach_item :: "'a list \<Rightarrow> 'a \<Rightarrow> 'a list" where
  "attach_item xs x = xs @ [x]"

definition delete_item :: "'a list \<Rightarrow> nat \<Rightarrow> 'a list \<times> 'a" where
  "delete_item xs i = (take i xs @ drop (Suc i) xs, xs ! i)"

definition detach_item :: "'a list \<Rightarrow> 'a list \<times> 'a" where
  "detach_item xs = (butlast xs, List.last xs)"

definition merge_items :: "'a list \<Rightarrow> 'a list \<Rightarrow> 'a list \<times> 'a list" where
  "merge_items xs ys = (xs @ ys, [])"

definition split_items :: "'a list \<Rightarrow> 'a list \<times> 'a list" where
  "split_items xs = (let k = length xs - length xs div 2 in (take k xs, drop k xs))"

definition is_le :: "('k :: linorder, 'v) item list \<Rightarrow> ('k, 'v) item \<Rightarrow> bool" where
  "is_le xs x \<longleftrightarrow> (\<forall>y \<in> set xs. \<not> item_less y x)"

definition is_gt :: "('k :: linorder, 'v) item list \<Rightarrow> ('k, 'v) item \<Rightarrow> bool" where
  "is_gt xs x \<longleftrightarrow> (\<forall>y \<in> set xs. \<not> item_le x y)"

section \<open>The loops compute them\<close>

lemma first_ge_le: "first_ge xs x \<le> length xs"
  by (induction xs) auto

lemma arr_first_ge_loop:
  "i \<le> n \<Longrightarrow> n \<le> length data \<Longrightarrow>
    arr_first_ge_loop data n x i = i + first_ge (drop i (take n data)) x"
proof (induction data n x i rule: arr_first_ge_loop.induct)
  case (1 data n x i)
  show ?case
  proof (cases "i < n")
    case True
    then have "drop i (take n data) = data ! i # drop (Suc i) (take n data)"
      using 1 by (simp add: Cons_nth_drop_Suc [symmetric])
    then show ?thesis using 1 True by (subst arr_first_ge_loop.simps) simp
  next
    case False
    then show ?thesis using 1 by (subst arr_first_ge_loop.simps) simp
  qed
qed

lemma first_ge_refines: "n \<le> length data \<Longrightarrow> arr_first_ge data n x = first_ge (take n data) x"
  by (simp add: arr_first_ge_def arr_first_ge_loop)

lemma length_shift_right [simp]: "length (shift_right data i j) = length data"
  by (induction data i j rule: shift_right.induct) (subst shift_right.simps, simp)

lemma nth_shift_right:
  "j < length data \<Longrightarrow> k < length data \<Longrightarrow>
    shift_right data i j ! k = (if i < k \<and> k \<le> j then data ! (k - 1) else data ! k)"
proof (induction data i j rule: shift_right.induct)
  case (1 data i j)
  show ?case
  proof (cases "j > i")
    case True
    then show ?thesis using 1
      by (subst shift_right.simps) (auto simp: nth_list_update split: if_splits)
  next
    case False
    then show ?thesis using 1 by (subst shift_right.simps) auto
  qed
qed

lemma insert_item_refines:
  assumes "i \<le> n" and "n < length data" and "arr_insert_item data i n x = (data', n')"
  shows "n' = Suc n" and "length data' = length data" and "take n' data' = insert_item (take n data) i x"
proof -
  have d: "data' = (shift_right data i n)[i := x]" "n' = Suc n"
    using assms(3) by (simp_all add: arr_insert_item_def)
  show "n' = Suc n" "length data' = length data" by (simp_all add: d)
  show "take n' data' = insert_item (take n data) i x"
  proof (rule nth_equalityI)
    show "length (take n' data') = length (insert_item (take n data) i x)"
      using assms(1,2) by (simp add: d insert_item_def)
    fix k assume "k < length (take n' data')"
    then have k: "k \<le> n" "k < length data" using assms(2) by (simp_all add: d)
    consider "k < i" | "k = i" | m where "k = Suc m" "i \<le> m"
      by (cases k) (auto simp: less_Suc_eq_le intro: not_less_eq_eq, metis not_less_eq_eq nat_neq_iff not_le)
    then show "take n' data' ! k = insert_item (take n data) i x ! k"
      by cases (use assms(1,2) k in \<open>auto simp: d insert_item_def nth_append nth_shift_right nth_list_update\<close>)
  qed
qed

lemma ordered_insert_refines:
  assumes "n < length data" and "arr_ordered_insert data n x = (data', n')"
  shows "n' = Suc n" and "length data' = length data" and "take n' data' = ordered_insert (take n data) x"
proof -
  let ?i = "arr_first_ge data n x"
  have i: "?i = first_ge (take n data) x" "?i \<le> n"
    using assms(1) first_ge_le [of "take n data" x] by (simp_all add: first_ge_refines)
  have *: "n' = Suc n \<and> length data' = length data \<and> take n' data' = ordered_insert (take n data) x"
  proof (cases "?i = n")
    case True
    then show ?thesis using assms i
      by (auto simp: arr_ordered_insert_def ordered_insert_def insert_item_def take_Suc_conv_app_nth)
  next
    case False
    then have "arr_insert_item data ?i n x = (data', n')"
      using assms(2) by (simp add: arr_ordered_insert_def Let_def)
    from insert_item_refines [OF i(2) assms(1) this] show ?thesis
      by (simp add: ordered_insert_def i(1))
  qed
  then show "n' = Suc n" "length data' = length data" "take n' data' = ordered_insert (take n data) x"
    by blast+
qed

lemma attach_item_refines:
  assumes "n < length data" and "arr_attach_item data n x = (data', n')"
  shows "n' = Suc n" and "length data' = length data" and "take n' data' = attach_item (take n data) x"
  using assms by (auto simp: arr_attach_item_def attach_item_def take_Suc_conv_app_nth)

lemma length_shift_left [simp]: "length (shift_left data n j) = length data"
  by (induction data n j rule: shift_left.induct) (subst shift_left.simps, simp)

lemma nth_shift_left:
  "n < length data \<Longrightarrow> k < length data \<Longrightarrow>
    shift_left data n j ! k = (if j \<le> k \<and> k < n then data ! (k + 1) else data ! k)"
proof (induction data n j rule: shift_left.induct)
  case (1 data n j)
  show ?case
  proof (cases "j < n")
    case True
    then show ?thesis using 1
      by (subst shift_left.simps) (auto simp: nth_list_update split: if_splits)
  next
    case False
    then show ?thesis using 1 by (subst shift_left.simps) auto
  qed
qed

lemma delete_item_refines:
  assumes "i < n" and "n \<le> length data" and "arr_delete_item data i n = (data', n', x)"
  shows "n' = n - 1" and "length data' = length data" and "(take n' data', x) = delete_item (take n data) i"
proof -
  have d: "data' = shift_left data (n - 1) i" "n' = n - 1" "x = data ! i"
    using assms(3) by (auto simp: arr_delete_item_def)
  show "n' = n - 1" "length data' = length data" by (simp_all add: d)
  have "take n' data' = take i (take n data) @ drop (Suc i) (take n data)"
  proof (rule nth_equalityI)
    show "length (take n' data') = length (take i (take n data) @ drop (Suc i) (take n data))"
      using assms(1,2) by (simp add: d)
    fix k assume "k < length (take n' data')"
    then have k: "k < n - 1" "k < length data" by (simp_all add: d)
    then show "take n' data' ! k = (take i (take n data) @ drop (Suc i) (take n data)) ! k"
      using assms(1,2) by (auto simp: d nth_append nth_shift_left)
  qed
  then show "(take n' data', x) = delete_item (take n data) i"
    using assms(1) by (simp add: d delete_item_def)
qed

lemma detach_item_refines:
  assumes "0 < n" and "n \<le> length data" and "arr_detach_item data n = (data', n', x)"
  shows "n' = n - 1" and "data' = data" and "(take n' data', x) = detach_item (take n data)"
proof -
  have "take n data \<noteq> []" using assms(1,2) by auto
  from last_conv_nth [OF this] have l: "List.last (take n data) = data ! (n - Suc 0)" using assms(1,2) by simp
  show "n' = n - 1" "data' = data" "(take n' data', x) = detach_item (take n data)"
    using assms l by (auto simp: arr_detach_item_def detach_item_def butlast_take)
qed

lemma arr_merge_loop:
  "i = n1 \<Longrightarrow> n1 + n2 \<le> length data1 \<Longrightarrow> g + n2 \<le> length data2 \<Longrightarrow>
    arr_merge_loop data1 n1 data2 n2 g i =
      (take n1 data1 @ take n2 (drop g data2) @ drop (n1 + n2) data1, n1 + n2, 0)"
proof (induction data1 n1 data2 n2 g i rule: arr_merge_loop.induct)
  case (1 data1 n1 data2 n2 g i)
  show ?case
  proof (cases "n2 = 0")
    case True
    then show ?thesis using 1 by (subst arr_merge_loop.simps) auto
  next
    case False
    have ih: "arr_merge_loop (data1[i := data2 ! g]) (n1 + 1) data2 (n2 - 1) (g + 1) (i + 1) =
      (take (n1 + 1) (data1[i := data2 ! g]) @ take (n2 - 1) (drop (g + 1) data2) @
        drop (n1 + 1 + (n2 - 1)) (data1[i := data2 ! g]), n1 + 1 + (n2 - 1), 0)"
      using 1 False by (intro 1(1)) auto
    have "take n2 (drop g data2) = data2 ! g # take (n2 - 1) (drop (g + 1) data2)"
      using 1(4) False by (simp add: take_Cons' Cons_nth_drop_Suc [symmetric])
    then show ?thesis using 1(2-4) False ih
      by (subst arr_merge_loop.simps) (simp add: take_Suc_conv_app_nth)
  qed
qed

lemma merge_refines:
  assumes "n1 + n2 \<le> length data1" and "n2 \<le> length data2"
    and "arr_merge data1 n1 data2 n2 = (data', n1', n2')"
  shows "n1' = n1 + n2" and "length data' = length data1"
    and "(take n1' data', take n2' data2) = merge_items (take n1 data1) (take n2 data2)"
  using assms arr_merge_loop [of n1 n1 n2 data1 0 data2]
  by (auto simp: arr_merge_def merge_items_def)

lemma arr_split_loop:
  "i \<le> n1 \<Longrightarrow> n1 \<le> length data1 \<Longrightarrow> g + (n1 - i) \<le> length data2 \<Longrightarrow>
    arr_split_loop data1 n1 data2 i g = take g data2 @ drop i (take n1 data1) @ drop (g + (n1 - i)) data2"
proof (induction data1 n1 data2 i g rule: arr_split_loop.induct)
  case (1 data1 n1 data2 i g)
  show ?case
  proof (cases "i < n1")
    case True
    then have "arr_split_loop data1 n1 (data2[g := data1 ! i]) (i + 1) (g + 1) =
      take (g + 1) (data2[g := data1 ! i]) @ drop (i + 1) (take n1 data1) @
        drop (g + 1 + (n1 - (i + 1))) (data2[g := data1 ! i])"
      using 1 by (intro 1(1)) auto
    moreover have "drop i (take n1 data1) = data1 ! i # drop (i + 1) (take n1 data1)"
      using True 1(3) by (simp add: Cons_nth_drop_Suc [symmetric])
    moreover have "g + 1 + (n1 - (i + 1)) = g + (n1 - i)" using True by simp
    ultimately show ?thesis using 1(2-4) True
      by (subst arr_split_loop.simps) (simp add: take_Suc_conv_app_nth)
  next
    case False
    then show ?thesis using 1 by (subst arr_split_loop.simps) simp
  qed
qed

lemma split_refines:
  assumes "n1 \<le> length data1" and "n1 div 2 \<le> length data2" and "arr_split data1 n1 data2 = (n1', data2', n2)"
  shows "n2 = n1 div 2" and "length data2' = length data2"
    and "(take n1' data1, take n2 data2') = split_items (take n1 data1)"
proof -
  have i: "(if n1 mod 2 = 1 then n1 div 2 + 1 else n1 div 2) = n1 - n1 div 2" by presburger
  have n: "n1' = n1 - n1 div 2" "n2 = n1 div 2" "data2' = arr_split_loop data1 n1 data2 (n1 - n1 div 2) 0"
    using assms(3) unfolding arr_split_def Let_def i by auto
  have d: "data2' = drop (n1 - n1 div 2) (take n1 data1) @ drop (n1 div 2) data2"
    using assms(1,2) unfolding n by (subst arr_split_loop) auto
  show "n2 = n1 div 2" "length data2' = length data2" using assms(1,2) by (simp_all add: n(2) d)
  show "(take n1' data1, take n2 data2') = split_items (take n1 data1)"
    using assms(1) by (simp add: d n(1,2) split_items_def min_def Let_def)
qed

lemma arr_copy_loop:
  "i \<le> m \<Longrightarrow> m \<le> length src \<Longrightarrow> m \<le> length dest \<Longrightarrow>
    arr_copy_loop dest src m i = take i dest @ drop i (take m src) @ drop m dest"
proof (induction dest src m i rule: arr_copy_loop.induct)
  case (1 dest src m i)
  show ?case
  proof (cases "i < m")
    case True
    then have "arr_copy_loop (dest[i := src ! i]) src m (i + 1) =
      take (i + 1) (dest[i := src ! i]) @ drop (i + 1) (take m src) @ drop m (dest[i := src ! i])"
      using 1 by (intro 1(1)) auto
    moreover have "drop i (take m src) = src ! i # drop (i + 1) (take m src)"
      using True 1(3) by (simp add: Cons_nth_drop_Suc [symmetric])
    ultimately show ?thesis using 1(2-4) True
      by (subst arr_copy_loop.simps) (simp add: take_Suc_conv_app_nth)
  next
    case False
    then show ?thesis using 1 by (subst arr_copy_loop.simps) simp
  qed
qed

lemma copy_refines:
  assumes "m \<le> length src" and "m \<le> length dest" and "arr_copy dest src m = (dest', n)"
  shows "n = m" and "length dest' = length dest" and "take n dest' = take m src"
  using assms arr_copy_loop [of 0 m src dest] by (auto simp: arr_copy_def)

lemma arr_is_le_loop:
  "n \<le> length data \<Longrightarrow> arr_is_le_loop data n x i \<longleftrightarrow> is_le (drop i (take n data)) x"
proof (induction data n x i rule: arr_is_le_loop.induct)
  case (1 data n x i)
  show ?case
  proof (cases "i < n")
    case True
    then have "drop i (take n data) = data ! i # drop (Suc i) (take n data)"
      using 1 by (simp add: Cons_nth_drop_Suc [symmetric])
    then show ?thesis using 1 True by (subst arr_is_le_loop.simps) (simp add: is_le_def)
  next
    case False
    then show ?thesis using 1 by (subst arr_is_le_loop.simps) (simp add: is_le_def)
  qed
qed

lemma is_le_refines: "n \<le> length data \<Longrightarrow> arr_is_le data n x \<longleftrightarrow> is_le (take n data) x"
  by (simp add: arr_is_le_def arr_is_le_loop)

lemma arr_is_gt_loop:
  "n \<le> length data \<Longrightarrow> arr_is_gt_loop data n x i \<longleftrightarrow> is_gt (drop i (take n data)) x"
proof (induction data n x i rule: arr_is_gt_loop.induct)
  case (1 data n x i)
  show ?case
  proof (cases "i < n")
    case True
    then have "drop i (take n data) = data ! i # drop (Suc i) (take n data)"
      using 1 by (simp add: Cons_nth_drop_Suc [symmetric])
    then show ?thesis using 1 True by (subst arr_is_gt_loop.simps) (simp add: is_gt_def)
  next
    case False
    then show ?thesis using 1 by (subst arr_is_gt_loop.simps) (simp add: is_gt_def)
  qed
qed

lemma is_gt_refines: "n \<le> length data \<Longrightarrow> arr_is_gt data n x \<longleftrightarrow> is_gt (take n data) x"
  by (simp add: arr_is_gt_def arr_is_gt_loop)

lemma index_of_maximal_loop:
  "ans < n \<Longrightarrow> 0 < i \<Longrightarrow> (\<forall>k < i. k < n \<longrightarrow> fst (data ! k) \<le> fst (data ! ans)) \<Longrightarrow>
    index_of_maximal_loop data n i ans < n \<and>
    (\<forall>k < n. fst (data ! k) \<le> fst (data ! index_of_maximal_loop data n i ans))"
proof (induction data n i ans rule: index_of_maximal_loop.induct)
  case (1 data n i ans)
  show ?case
  proof (cases "i < n")
    case True
    let ?a = "if item_greater (data ! i) (data ! ans) then i else ans"
    have "\<forall>k < i + 1. k < n \<longrightarrow> fst (data ! k) \<le> fst (data ! ?a)"
      using 1(4) by (force simp: less_Suc_eq item_greater_def)
    then have "index_of_maximal_loop data n (i + 1) ?a < n \<and>
        (\<forall>k < n. fst (data ! k) \<le> fst (data ! index_of_maximal_loop data n (i + 1) ?a))"
      using 1(1) [OF True] 1(2) True by auto
    then show ?thesis using True by (subst (1 2) index_of_maximal_loop.simps) simp
  next
    case False
    then show ?thesis using 1 by (subst (1 2) index_of_maximal_loop.simps) auto
  qed
qed

lemma index_of_maximal_max:
  "0 < n \<Longrightarrow> index_of_maximal data n < n \<and> (\<forall>k < n. fst (data ! k) \<le> fst (data ! index_of_maximal data n))"
  unfolding index_of_maximal_def by (rule index_of_maximal_loop) auto

end
