(* ===== verification/Bplus_Tree.thy ===== *)
theory Bplus_Tree
  imports
    Array_Functions
    "HOL-Library.Monad_Syntax"
begin

text \<open>
  The in-memory B+ tree of \<open>bplustree.h\<close>. A node owns its items (\<open>data\<close>, the used cells) and its children
  (\<open>subset\<close>), so a tree is a datatype; the pointers that nodes do not own, the links \<open>next\<close> from leaf to
  leaf, are a map from the address of a node to an optional address, which the operations change
  together with the counter that provides the addresses of new nodes. \<open>None\<close> as a result is an access
  outside \<open>subset\<close> or \<open>data\<close>, or a null dereference: the theorems show that none happens.
  \<open>MINIMUM\<close> is 1 and \<open>MAXIMUM\<close> is 2; the arrays have room for one item and one child more.
\<close>

section \<open>Nodes\<close>

definition MINIMUM :: nat where "MINIMUM = 1"

definition MAXIMUM :: nat where "MAXIMUM = 2 * MINIMUM"

datatype ('k, 'v) bptree =
  BNode (bp_addr: nat) (bp_data: "('k, 'v) item list") (bp_subset: "('k, 'v) bptree list")

record bheap =
  next_of :: "nat \<Rightarrow> nat option"
  next_addr :: nat

definition data_count :: "('k, 'v) bptree \<Rightarrow> nat" where
  "data_count t = length (bp_data t)"

definition child_count :: "('k, 'v) bptree \<Rightarrow> nat" where
  "child_count t = length (bp_subset t)"

definition is_leaf :: "('k, 'v) bptree \<Rightarrow> bool" where
  "is_leaf t \<longleftrightarrow> child_count t = 0"

definition bp_empty :: "('k, 'v) bptree \<Rightarrow> bool" where
  "bp_empty t \<longleftrightarrow> data_count t = 0 \<and> is_leaf t"

definition set_link :: "nat \<Rightarrow> nat option \<Rightarrow> bheap \<Rightarrow> bheap" where
  "set_link a q h = h\<lparr>next_of := (next_of h)(a := q)\<rparr>"

text \<open>\<open>new BPlusTree\<close>: the address of an empty node, its link null.\<close>

definition new_tree :: "bheap \<Rightarrow> nat \<times> bheap" where
  "new_tree h =
     (next_addr h, \<lparr>next_of = (next_of h)(next_addr h := None), next_addr = Suc (next_addr h)\<rparr>)"

definition child :: "('k, 'v) bptree list \<Rightarrow> nat \<Rightarrow> ('k, 'v) bptree option" where
  "child c i = (if i < length c then Some (c ! i) else None)"

lemma child_size: "child c i = Some s \<Longrightarrow> size s < Suc (n + size_list size c)"
  by (auto simp: child_def size_list_estimation' dest!: nth_mem intro!: le_imp_less_Suc trans_le_add2
      split: if_splits)

text \<open>The index of an item among the data of a node, and whether it is there.\<close>

definition locate :: "('k :: linorder, 'v) item list \<Rightarrow> ('k, 'v) item \<Rightarrow> nat \<times> bool" where
  "locate d e = (let ge = first_ge d e in (ge, ge < length d \<and> \<not> item_less e (d ! ge)))"

section \<open>Lookup\<close>

function find_node :: "('k :: linorder, 'v) item \<Rightarrow> ('k, 'v) bptree \<Rightarrow> (nat \<times> nat) option option" where
  "find_node entry (BNode a d c) =
     (let (index, found) = locate d entry in
      if c = [] then Some (if found then Some (a, index) else None)
      else do { s \<leftarrow> child c (if found then index + 1 else index); find_node entry s })"
  by pat_completeness auto
termination by (relation "measure (\<lambda>(e, t). size t)") (auto dest: child_size)

function contains_item :: "('k :: linorder, 'v) item \<Rightarrow> ('k, 'v) bptree \<Rightarrow> bool option" where
  "contains_item entry (BNode a d c) =
     (let (index, found) = locate d entry in
      if c = [] then Some found
      else do { s \<leftarrow> child c (if found then index + 1 else index); contains_item entry s })"
  by pat_completeness auto
termination by (relation "measure (\<lambda>(e, t). size t)") (auto dest: child_size)

text \<open>\<open>get_Item\<close>: the item, or \<open>None\<close> for the null pointer. A write through the pointer that \<open>get_Item\<close>
  returns is \<open>change_item\<close>: the same descent, with the value of the item changed.\<close>

function get_Item :: "('k :: linorder, 'v) item \<Rightarrow> ('k, 'v) bptree \<Rightarrow> ('k, 'v) item option option" where
  "get_Item entry (BNode a d c) =
     (let (i, found) = locate d entry in
      if c = [] \<and> found then Some (Some (d ! i))
      else if c \<noteq> [] \<and> found then do { s \<leftarrow> child c (i + 1); get_Item entry s }
      else if c \<noteq> [] then do { s \<leftarrow> child c i; get_Item entry s }
      else Some None)"
  by pat_completeness auto
termination by (relation "measure (\<lambda>(e, t). size t)") (auto dest: child_size)

function change_item :: "('v \<Rightarrow> 'v) \<Rightarrow> ('k :: linorder, 'v) item \<Rightarrow> ('k, 'v) bptree \<Rightarrow> ('k, 'v) bptree option" where
  "change_item f entry (BNode a d c) =
     (let (i, found) = locate d entry in
      if c = [] \<and> found then Some (BNode a (d[i := (fst (d ! i), f (snd (d ! i)))]) c)
      else if c \<noteq> [] \<and> found
      then do { s \<leftarrow> child c (i + 1); s' \<leftarrow> change_item f entry s; Some (BNode a d (c[i + 1 := s'])) }
      else if c \<noteq> []
      then do { s \<leftarrow> child c i; s' \<leftarrow> change_item f entry s; Some (BNode a d (c[i := s'])) }
      else None)"
  by pat_completeness auto
termination by (relation "measure (\<lambda>(f, e, t). size t)") (auto dest: child_size)

fun get_smallest_node :: "('k, 'v) bptree \<Rightarrow> ('k, 'v) bptree" where
  "get_smallest_node (BNode a d []) = BNode a d []"
| "get_smallest_node (BNode a d (t # ts)) = get_smallest_node t"

text \<open>\<open>get_small\<close> reads \<open>data[0]\<close> of the first leaf; in an empty leaf that cell is not in use.\<close>

fun get_small :: "('k, 'v) bptree \<Rightarrow> ('k, 'v) item option" where
  "get_small (BNode a d []) = (case d of [] \<Rightarrow> None | x # _ \<Rightarrow> Some x)"
| "get_small (BNode a d (t # ts)) = get_small t"

section \<open>Insertion\<close>

text \<open>\<open>fix_excess\<close>: the right half of the overfull child goes into a new node behind it, its last item but
  the right half goes up; in a leaf a copy of that item stays, as the first item of the new leaf.\<close>

definition fix_excess :: "nat \<Rightarrow> ('k :: linorder, 'v) bptree \<Rightarrow> bheap \<Rightarrow> (('k, 'v) bptree \<times> bheap) option" where
  "fix_excess i t h = do {
     sb \<leftarrow> child (bp_subset t) i;
     let (sp, h) = new_tree h;
     let (sb_data, sp_data) = split_items (bp_data sb);
     let (sb_subset, sp_subset) = split_items (bp_subset sb);
     let (sb_data, newThing) = detach_item sb_data;
     let data = ordered_insert (bp_data t) newThing;
     let sb' = BNode (bp_addr sb) sb_data sb_subset;
     let (sp_data, h) =
       (if is_leaf sb'
        then (ordered_insert sp_data newThing,
              set_link (bp_addr sb) (Some sp) (set_link sp (next_of h (bp_addr sb)) h))
        else (sp_data, h));
     let sp' = BNode sp sp_data sp_subset;
     Some (BNode (bp_addr t) data (insert_item ((bp_subset t)[i := sb']) (i + 1) sp'), h)
   }"

function loose_insert :: "('k :: linorder, 'v) item \<Rightarrow> ('k, 'v) bptree \<Rightarrow> bheap \<Rightarrow>
    (bool \<times> ('k, 'v) bptree \<times> bheap) option" where
  "loose_insert entry (BNode a d c) h =
     (let (ge, found) = locate d entry in
      if c = [] then
        (if found then Some (False, BNode a d c, h)
         else Some (True, BNode a (insert_item d ge entry) c, h))
      else
        (let i = (if found then ge + 1 else ge) in
         do {
           s \<leftarrow> child c i;
           (ans, s', h') \<leftarrow> loose_insert entry s h;
           let t' = BNode a d (c[i := s']);
           (t'', h'') \<leftarrow> (if data_count s' > MAXIMUM then fix_excess i t' h' else Some (t', h'));
           Some (ans, t'', h'')
         }))"
  by pat_completeness auto
termination by (relation "measure (\<lambda>(e, t, h). size t)") (auto dest: child_size)

definition bp_insert :: "('k :: linorder, 'v) item \<Rightarrow> ('k, 'v) bptree \<Rightarrow> bheap \<Rightarrow>
    (bool \<times> ('k, 'v) bptree \<times> bheap) option" where
  "bp_insert entry t h = do {
     (ins, t', h') \<leftarrow> loose_insert entry t h;
     if \<not> ins then Some (False, t', h')
     else if data_count t' > MAXIMUM then do {
       let (ans, h2) = new_tree h';
       let ans' = BNode ans (bp_data t') (bp_subset t');
       (t'', h'') \<leftarrow> fix_excess 0 (BNode (bp_addr t') [] [ans']) h2;
       Some (True, t'', h'')
     }
     else Some (True, t', h')
   }"

section \<open>Deletion\<close>

definition transfer_from_left :: "nat \<Rightarrow> ('k :: linorder, 'v) bptree \<Rightarrow> ('k, 'v) bptree option" where
  "transfer_from_left i t = do {
     l \<leftarrow> child (bp_subset t) (i - 1);
     r \<leftarrow> child (bp_subset t) i;
     let (l', r', data) =
       (if \<not> is_leaf l then
          (let (data, down) = delete_item (bp_data t) (i - 1);
               r_data = ordered_insert (bp_data r) down;
               (l_data, up) = detach_item (bp_data l);
               data = ordered_insert data up;
               (l_subset, node) = detach_item (bp_subset l);
               r_subset = insert_item (bp_subset r) 0 node
           in (BNode (bp_addr l) l_data l_subset, BNode (bp_addr r) r_data r_subset, data))
        else
          (let (l_data, moved) = detach_item (bp_data l);
               data = (bp_data t)[i - 1 := moved];
               r_data = insert_item (bp_data r) 0 moved
           in (BNode (bp_addr l) l_data (bp_subset l), BNode (bp_addr r) r_data (bp_subset r), data)));
     Some (BNode (bp_addr t) data ((bp_subset t)[i - 1 := l', i := r']))
   }"

definition transfer_from_right :: "nat \<Rightarrow> ('k :: linorder, 'v) bptree \<Rightarrow> ('k, 'v) bptree option" where
  "transfer_from_right i t = do {
     l \<leftarrow> child (bp_subset t) i;
     r \<leftarrow> child (bp_subset t) (i + 1);
     let (l', r', data) =
       (if \<not> is_leaf r then
          (let (data, down) = delete_item (bp_data t) i;
               l_data = ordered_insert (bp_data l) down;
               (r_data, up) = delete_item (bp_data r) 0;
               data = ordered_insert data up;
               (r_subset, node) = delete_item (bp_subset r) 0;
               l_subset = attach_item (bp_subset l) node
           in (BNode (bp_addr l) l_data l_subset, BNode (bp_addr r) r_data r_subset, data))
        else
          (let (r_data, entry) = delete_item (bp_data r) 0;
               l_data = attach_item (bp_data l) entry;
               data = (bp_data t)[i := r_data ! 0]
           in (BNode (bp_addr l) l_data (bp_subset l), BNode (bp_addr r) r_data (bp_subset r), data)));
     Some (BNode (bp_addr t) data ((bp_subset t)[i := l', i + 1 := r']))
   }"

definition merge_with_next_subset :: "nat \<Rightarrow> ('k, 'v) bptree \<Rightarrow> bheap \<Rightarrow> (('k, 'v) bptree \<times> bheap) option" where
  "merge_with_next_subset i t h = do {
     l \<leftarrow> child (bp_subset t) i;
     r \<leftarrow> child (bp_subset t) (i + 1);
     let (data, x) = delete_item (bp_data t) i;
     let l_data = (if \<not> is_leaf l then attach_item (bp_data l) x else bp_data l);
     let (l_data, r_data) = merge_items l_data (bp_data r);
     let (l_subset, r_subset) = merge_items (bp_subset l) (bp_subset r);
     let l' = BNode (bp_addr l) l_data l_subset;
     let (subset, node) = delete_item ((bp_subset t)[i := l']) (i + 1);
     let h' = (if is_leaf l' then set_link (bp_addr l) (next_of h (bp_addr r)) h else h);
     Some (BNode (bp_addr t) data subset, h')
   }"

text \<open>\<open>fix_shortage\<close> returns the node it repaired; here, the index of that node among the children.\<close>

definition fix_shortage :: "nat \<Rightarrow> ('k :: linorder, 'v) bptree \<Rightarrow> bheap \<Rightarrow>
    (nat \<times> ('k, 'v) bptree \<times> bheap) option" where
  "fix_shortage i t h =
     (let c = bp_subset t in
      if i > 0 \<and> data_count (c ! (i - 1)) > MINIMUM
      then do { t' \<leftarrow> transfer_from_left i t; Some (i, t', h) }
      else if i < child_count t - 1 \<and> data_count (c ! (i + 1)) > MINIMUM
      then do { t' \<leftarrow> transfer_from_right i t; Some (i, t', h) }
      else if i > 0 \<and> data_count (c ! (i - 1)) \<le> MINIMUM
      then do { (t', h') \<leftarrow> merge_with_next_subset (i - 1) t h; Some (i - 1, t', h') }
      else if i < child_count t - 1 \<and> data_count (c ! (i + 1)) \<le> MINIMUM
      then do { (t', h') \<leftarrow> merge_with_next_subset i t h; Some (i, t', h') }
      else Some (i, t, h))"

text \<open>\<open>i < n - 1\<close> on \<open>size_t\<close>: for \<open>n = 0\<close> the right side wraps to the largest value.\<close>

definition below_pred :: "nat \<Rightarrow> nat \<Rightarrow> bool" where
  "below_pred i n \<longleftrightarrow> n = 0 \<or> i < n - 1"

text \<open>\<open>this->subset[i + 1]->get_small(this->data[i])\<close>\<close>

definition renew_separator :: "nat \<Rightarrow> ('k, 'v) bptree \<Rightarrow> ('k, 'v) bptree option" where
  "renew_separator i t = do {
     s \<leftarrow> child (bp_subset t) (i + 1);
     x \<leftarrow> get_small s;
     Some (BNode (bp_addr t) ((bp_data t)[i := x]) (bp_subset t))
   }"

text \<open>What \<open>loose_erase\<close> does in an inner node after the deletion in child \<open>ge + 1\<close>, when the item is
  itself a separator of the node.\<close>

definition after_erase_found :: "('k :: linorder, 'v) item \<Rightarrow> nat \<Rightarrow> ('k, 'v) bptree \<Rightarrow> bheap \<Rightarrow>
    (('k, 'v) bptree \<times> bheap) option" where
  "after_erase_found entry ge t h =
     (let replace = (\<lambda>t h.
            if ge < data_count t
            then do {
              s \<leftarrow> child (bp_subset t) (ge + 1);
              if data_count s \<ge> MINIMUM
              then do { t' \<leftarrow> renew_separator ge t; Some (t', h) }
              else Some (t, h)
            }
            else Some (t, h))
      in do {
        s \<leftarrow> child (bp_subset t) (ge + 1);
        if data_count s < MINIMUM
        then do {
          (j, t1, h1) \<leftarrow> fix_shortage (ge + 1) t h;
          fixed \<leftarrow> child (bp_subset t1) j;
          let (data_idx, foundx) = locate (bp_data t1) entry;
          let (subset_idx, foundy) = locate (bp_data fixed) entry;
          if below_pred data_idx (child_count t1) \<and> foundx
          then do { t2 \<leftarrow> renew_separator data_idx t1; Some (t2, h1) }
          else if below_pred subset_idx (child_count fixed) \<and> foundy
          then do {
            fixed' \<leftarrow> renew_separator subset_idx fixed;
            Some (BNode (bp_addr t1) (bp_data t1) ((bp_subset t1)[j := fixed']), h1)
          }
          else replace t1 h1
        }
        else replace t h
      })"

function loose_erase :: "('k :: linorder, 'v) item \<Rightarrow> ('k, 'v) bptree \<Rightarrow> bheap \<Rightarrow>
    (bool \<times> ('k, 'v) bptree \<times> bheap) option" where
  "loose_erase entry (BNode a d c) h =
     (let (ge, found) = locate d entry in
      if c = [] \<and> \<not> found then Some (False, BNode a d c, h)
      else if c = [] then
        (let (d', x) = delete_item d ge in Some (True, BNode a d' c, h))
      else if \<not> found then do {
        s \<leftarrow> child c ge;
        (ans, s', h') \<leftarrow> loose_erase entry s h;
        let t' = BNode a d (c[ge := s']);
        if data_count s' < MINIMUM
        then do { (j, t'', h'') \<leftarrow> fix_shortage ge t' h'; Some (ans, t'', h'') }
        else Some (ans, t', h')
      }
      else do {
        s \<leftarrow> child c (ge + 1);
        (ans, s', h') \<leftarrow> loose_erase entry s h;
        (t'', h'') \<leftarrow> after_erase_found entry ge (BNode a d (c[ge + 1 := s'])) h';
        Some (ans, t'', h'')
      })"
  by pat_completeness auto
termination by (relation "measure (\<lambda>(e, t, h). size t)") (auto dest: child_size)

definition bp_erase :: "('k :: linorder, 'v) item \<Rightarrow> ('k, 'v) bptree \<Rightarrow> bheap \<Rightarrow>
    (bool \<times> ('k, 'v) bptree \<times> bheap) option" where
  "bp_erase target t h = do {
     (ans, t', h') \<leftarrow> loose_erase target t h;
     if \<not> ans then Some (False, t', h')
     else if data_count t' < MINIMUM \<and> child_count t' > 0
     then do {
       s \<leftarrow> child (bp_subset t') 0;
       Some (True, BNode (bp_addr t') (bp_data s) (bp_subset s), h')
     }
     else Some (True, t', h')
   }"

text \<open>\<open>get\<close> on a tree that may change: a missing item is inserted first.\<close>

definition bp_get :: "('k :: linorder, 'v) item \<Rightarrow> ('k, 'v) bptree \<Rightarrow> bheap \<Rightarrow>
    (('k, 'v) item \<times> ('k, 'v) bptree \<times> bheap) option" where
  "bp_get entry t h = do {
     present \<leftarrow> contains_item entry t;
     (t', h') \<leftarrow> (if \<not> present then do { (ins, t', h') \<leftarrow> bp_insert entry t h; Some (t', h') } else Some (t, h));
     x \<leftarrow> get_Item entry t';
     x' \<leftarrow> x;
     Some (x', t', h')
   }"

definition bp_get_const :: "('k :: linorder, 'v) item \<Rightarrow> ('k, 'v) bptree \<Rightarrow> (error + ('k, 'v) item) option" where
  "bp_get_const entry t = do {
     x \<leftarrow> get_Item entry t;
     Some (case x of None \<Rightarrow> Inl (Out_Of_Range ''BPlusTree key does not exist'') | Some i \<Rightarrow> Inr i)
   }"

section \<open>Whole trees\<close>

definition clear_tree :: "('k, 'v) bptree \<Rightarrow> bheap \<Rightarrow> ('k, 'v) bptree \<times> bheap" where
  "clear_tree t h = (BNode (bp_addr t) [] [], set_link (bp_addr t) None h)"

text \<open>\<open>copy_tree\<close>: the copy of a node goes to the given address, its children to new ones; \<open>last_node\<close> is the
  last copied leaf, linked to the next one.\<close>

fun copy_tree :: "nat \<Rightarrow> ('k, 'v) bptree \<Rightarrow> nat option \<Rightarrow> bheap \<Rightarrow> ('k, 'v) bptree \<times> nat option \<times> bheap"
  and copy_subset :: "('k, 'v) bptree list \<Rightarrow> nat option \<Rightarrow> bheap \<Rightarrow> ('k, 'v) bptree list \<times> nat option \<times> bheap" where
  "copy_tree a (BNode b d c) last_node h =
     (let h = set_link a None h;
          (c', last_node, h) = copy_subset c last_node h
      in if c = []
         then (BNode a d c', Some a,
               (case last_node of None \<Rightarrow> h | Some l \<Rightarrow> set_link l (Some a) h))
         else (BNode a d c', last_node, h))"
| "copy_subset [] last_node h = ([], last_node, h)"
| "copy_subset (t # ts) last_node h =
     (let (a, h) = new_tree h;
          (t', last_node, h) = copy_tree a t last_node h;
          (ts', last_node, h) = copy_subset ts last_node h
      in (t' # ts', last_node, h))"

definition bp_copy :: "('k, 'v) bptree \<Rightarrow> nat \<Rightarrow> bheap \<Rightarrow> ('k, 'v) bptree \<times> bheap" where
  "bp_copy source a h = (let (t, last_node, h) = copy_tree a source None h in (t, h))"

fun bp_count :: "('k, 'v) bptree \<Rightarrow> nat" where
  "bp_count (BNode a d c) = length d + sum_list (map bp_count c)"

definition bp_assign :: "('k, 'v) bptree \<Rightarrow> ('k, 'v) bptree \<Rightarrow> bheap \<Rightarrow> ('k, 'v) bptree \<times> bheap" where
  "bp_assign t source h = (let (t', h) = clear_tree t h in bp_copy source (bp_addr t') h)"

fun bp_of_array :: "('k :: linorder, 'v) item list \<Rightarrow> ('k, 'v) bptree \<Rightarrow> bheap \<Rightarrow> (('k, 'v) bptree \<times> bheap) option" where
  "bp_of_array [] t h = Some (t, h)"
| "bp_of_array (x # xs) t h = do { (ins, t', h') \<leftarrow> bp_insert x t h; bp_of_array xs t' h' }"

text \<open>\<open>is_valid\<close>; its loop over the separators gets the results for the children as a list.\<close>

fun valid_loop :: "('k :: linorder, 'v) item list \<Rightarrow> ('k, 'v) bptree list \<Rightarrow> bool option list \<Rightarrow> bool option" where
  "valid_loop (x # d) (s # s' # c) (v # vs) =
     (if \<not> is_gt (bp_data s) x then Some False
      else if \<not> is_le (bp_data s') x then Some False
      else do {
        valid \<leftarrow> v;
        if \<not> valid then Some False
        else do {
          y \<leftarrow> get_small s';
          if \<not> item_eq x y then Some False else valid_loop d (s' # c) vs
        }
      })"
| "valid_loop [] [s] [v] = v"
| "valid_loop _ _ _ = None"

fun is_valid :: "('k :: linorder, 'v) bptree \<Rightarrow> bool option" where
  "is_valid (BNode a d c) =
     (if length d = 0 \<and> c = [] then Some True
      else if length d > MAXIMUM \<or> length d < MINIMUM then Some False
      else if length c > MAXIMUM + 1 then Some False
      else if (\<exists>i < length d - 1. item_greater (d ! i) (d ! (i + 1))) then Some False
      else if c = [] then Some True
      else if length c \<noteq> length d + 1 then Some False
      else valid_loop d c (map is_valid c))"

section \<open>Iterators\<close>

text \<open>An iterator is the address of a leaf, or null, and an index into its data.\<close>

type_synonym iterator = "nat option \<times> nat"

fun bp_nodes :: "('k, 'v) bptree \<Rightarrow> ('k, 'v) bptree list" where
  "bp_nodes (BNode a d c) = BNode a d c # concat (map bp_nodes c)"

definition node_at :: "('k, 'v) bptree \<Rightarrow> nat option \<Rightarrow> ('k, 'v) bptree option" where
  "node_at t p = (case p of None \<Rightarrow> None | Some a \<Rightarrow> List.find (\<lambda>n. bp_addr n = a) (bp_nodes t))"

definition bp_end :: iterator where
  "bp_end = (None, 0)"

definition bp_begin :: "('k, 'v) bptree \<Rightarrow> iterator" where
  "bp_begin t = (if bp_empty t then bp_end else (Some (bp_addr (get_smallest_node t)), 0))"

definition bp_deref :: "('k, 'v) bptree \<Rightarrow> iterator \<Rightarrow> ('k, 'v) item option" where
  "bp_deref t it = do {
     n \<leftarrow> node_at t (fst it);
     if snd it < data_count n then Some (bp_data n ! snd it) else None
   }"

definition bp_next :: "('k, 'v) bptree \<Rightarrow> bheap \<Rightarrow> iterator \<Rightarrow> iterator option" where
  "bp_next t h it = do {
     n \<leftarrow> node_at t (fst it);
     if data_count n \<noteq> 0 \<and> snd it = data_count n - 1 then Some (next_of h (bp_addr n), 0)
     else Some (fst it, snd it + 1)
   }"

partial_function (option) size_loop :: "('k, 'v) bptree \<Rightarrow> bheap \<Rightarrow> iterator \<Rightarrow> nat \<Rightarrow> nat option" where
  "size_loop t h it i =
     (if it = bp_end then Some i else do { it' \<leftarrow> bp_next t h it; size_loop t h it' (i + 1) })"

definition bp_size :: "('k, 'v) bptree \<Rightarrow> bheap \<Rightarrow> nat option" where
  "bp_size t h = (if bp_empty t then Some 0 else size_loop t h (bp_begin t) 0)"

partial_function (option) lower_bound_loop ::
  "('k :: linorder, 'v) item \<Rightarrow> ('k, 'v) bptree \<Rightarrow> bheap \<Rightarrow> iterator \<Rightarrow> iterator option" where
  "lower_bound_loop key t h it =
     (if it = bp_end then Some bp_end
      else do {
        x \<leftarrow> bp_deref t it;
        if \<not> item_less x key then Some it
        else do { it' \<leftarrow> bp_next t h it; lower_bound_loop key t h it' }
      })"

definition bp_lower_bound :: "('k :: linorder, 'v) item \<Rightarrow> ('k, 'v) bptree \<Rightarrow> bheap \<Rightarrow> iterator option" where
  "bp_lower_bound key t h = lower_bound_loop key t h (bp_begin t)"

partial_function (option) upper_bound_loop ::
  "('k :: linorder, 'v) item \<Rightarrow> ('k, 'v) bptree \<Rightarrow> bheap \<Rightarrow> iterator \<Rightarrow> iterator option" where
  "upper_bound_loop key t h it =
     (if it = bp_end then Some bp_end
      else do {
        x \<leftarrow> bp_deref t it;
        if item_greater x key then Some it
        else do { it' \<leftarrow> bp_next t h it; upper_bound_loop key t h it' }
      })"

definition bp_upper_bound :: "('k :: linorder, 'v) item \<Rightarrow> ('k, 'v) bptree \<Rightarrow> bheap \<Rightarrow> iterator option" where
  "bp_upper_bound key t h = upper_bound_loop key t h (bp_begin t)"

definition bp_find :: "('k :: linorder, 'v) item \<Rightarrow> ('k, 'v) bptree \<Rightarrow> iterator option" where
  "bp_find entry t = map_option (\<lambda>r. case r of None \<Rightarrow> bp_end | Some (a, i) \<Rightarrow> (Some a, i)) (find_node entry t)"

text \<open>The constructor: an empty leaf.\<close>

definition bp_new :: "bheap \<Rightarrow> ('k, 'v) bptree \<times> bheap" where
  "bp_new h = (let (a, h) = new_tree h in (BNode a [] [], h))"

end
