(* ===== verification/Bplus_Invariant.thy ===== *)
theory Bplus_Invariant
  imports
    Bplus_Tree
    "HOL-Library.Multiset"
begin

text \<open>
  The invariant of the in-memory B+ tree, and the two lists that describe a tree: its leaves from left
  to right (\<open>leaf_list\<close>), and its separators in order (\<open>seps\<close>), one between any two leaves. Splitting,
  merging and shifting inner nodes keep both lists; only the leaf steps change them. The invariant
  \<open>tree_ok\<close>: the items of the leaves have strictly increasing keys, every separator has the key of the
  first item of the leaf behind it, all leaves are at the same depth, every node but the root has 1
  or 2 items, inner nodes one child more than items, and the links lead from leaf to leaf.
\<close>

section \<open>Leaves and separators\<close>

fun leaf_list :: "('k, 'v) bptree \<Rightarrow> (nat \<times> ('k, 'v) item list) list" where
  "leaf_list (BNode a d []) = [(a, d)]"
| "leaf_list (BNode a d (t # ts)) = leaf_list t @ concat (map leaf_list ts)"

definition items :: "('k, 'v) bptree \<Rightarrow> ('k, 'v) item list" where
  "items t = concat (map snd (leaf_list t))"

definition weave :: "'a list \<Rightarrow> 'a list list \<Rightarrow> 'a list" where
  "weave d ss = concat (map2 (\<lambda>x s. x # s) d ss)"

definition weave_left :: "'a list list \<Rightarrow> 'a list \<Rightarrow> 'a list" where
  "weave_left ss d = concat (map2 (\<lambda>s x. s @ [x]) ss d)"

fun seps :: "('k, 'v) bptree \<Rightarrow> ('k, 'v) item list" where
  "seps (BNode a d []) = []"
| "seps (BNode a d (t # ts)) = seps t @ weave d (map seps ts)"

lemma weave_simps [simp]: "weave [] ss = []" "weave (x # d) (s # ss) = x # s @ weave d ss"
  by (simp_all add: weave_def)

lemma weave_left_simps [simp]:
  "weave_left [] d = []" "weave_left (s # ss) (x # d) = s @ x # weave_left ss d"
  by (simp_all add: weave_left_def)

lemma weave_append:
  "length d1 = length s1 \<Longrightarrow> weave (d1 @ d2) (s1 @ s2) = weave d1 s1 @ weave d2 s2"
  by (simp add: weave_def)

lemma weave_left_append:
  "length d1 = length s1 \<Longrightarrow> weave_left (s1 @ s2) (d1 @ d2) = weave_left s1 d1 @ weave_left s2 d2"
  by (simp add: weave_left_def)

lemma weave_left_snoc:
  "length d = length ss \<Longrightarrow> weave_left (ss @ [s]) (d @ [x]) = weave_left ss d @ s @ [x]"
  by (simp add: weave_left_append)

lemma leaf_list_node: "c \<noteq> [] \<Longrightarrow> leaf_list (BNode a d c) = concat (map leaf_list c)"
  by (cases c) auto

lemma seps_node:
  assumes "length d1 = length A" and "length d2 = length B"
  shows "seps (BNode a (d1 @ d2) (A @ x # B)) =
    weave_left (map seps A) d1 @ seps x @ weave d2 (map seps B)"
proof -
  have "s @ weave (d1 @ d2) (map seps (A @ x # B)) = s @ weave d1 (map seps A) @ weave (d2) (map seps (x # B))"
    if "length d1 = length A" for s
    using that by (simp add: weave_append)
  have *: "length e1 = length (map seps A') \<Longrightarrow>
      seps t @ weave (e1 @ y # d2) (map seps (A' @ x # B)) =
      weave_left (map seps (t # A')) (e1 @ [y]) @ seps x @ weave d2 (map seps B)" for t A' e1 y
  proof (induction A' arbitrary: t e1)
    case Nil
    then show ?case by simp
  next
    case (Cons u A')
    then obtain z e2 where e: "e1 = z # e2" by (cases e1) auto
    have "seps u @ weave (e2 @ y # d2) (map seps (A' @ x # B)) =
      weave_left (map seps (u # A')) (e2 @ [y]) @ seps x @ weave d2 (map seps B)"
      using Cons.IH [of e2 u] Cons.prems e by simp
    then show ?case by (simp add: e)
  qed
  show ?thesis
  proof (cases A)
    case Nil
    then show ?thesis using assms by simp
  next
    case (Cons t A')
    then obtain e1 y where "d1 = e1 @ [y]" "length e1 = length A'"
      using assms(1) by (cases d1 rule: rev_cases) auto
    then show ?thesis using * [of e1 A' t y] Cons by simp
  qed
qed

section \<open>Shape\<close>

definition kid_count :: "('k, 'v) bptree \<Rightarrow> bool" where
  "kid_count u \<longleftrightarrow> MINIMUM \<le> data_count u \<and> data_count u \<le> MAXIMUM"

fun shape :: "nat \<Rightarrow> ('k, 'v) bptree \<Rightarrow> bool" where
  "shape 0 (BNode a d c) \<longleftrightarrow> c = []"
| "shape (Suc h) (BNode a d c) \<longleftrightarrow>
     length c = Suc (length d) \<and> (\<forall>u \<in> set c. shape h u \<and> kid_count u)"

lemma kid_count_iff: "kid_count (BNode a d c) \<longleftrightarrow> length d = 1 \<or> length d = 2"
  by (auto simp: kid_count_def data_count_def MINIMUM_def MAXIMUM_def)

lemma shape_0: "shape 0 t \<Longrightarrow> t = BNode (bp_addr t) (bp_data t) []"
  by (cases t) auto

lemma shape_is_leaf: "shape h t \<Longrightarrow> is_leaf t \<longleftrightarrow> h = 0"
  by (cases h; cases t) (auto simp: is_leaf_def child_count_def)

lemma shape_counts: "shape h t \<Longrightarrow> child_count t = (if h = 0 then 0 else Suc (data_count t))"
  by (cases h; cases t) (auto simp: child_count_def data_count_def)

lemma leaf_list_ne [simp]: "leaf_list t \<noteq> []"
  by (induction t rule: leaf_list.induct) auto

lemma length_seps: "shape h t \<Longrightarrow> Suc (length (seps t)) = length (leaf_list t)"
proof (induction h arbitrary: t)
  case 0
  then show ?case by (cases t) auto
next
  case (Suc h)
  obtain a d c where t: "t = BNode a d c" by (cases t)
  obtain u us where c: "c = u # us" "length us = length d" using Suc.prems t by (cases c) auto
  have "length (weave d (map seps us)) = length (concat (map leaf_list us))"
    if "\<forall>v \<in> set us. shape h v" "length us = length d" for us :: "('a, 'b) bptree list" and d
    using that
  proof (induction us arbitrary: d)
    case Nil
    then show ?case by simp
  next
    case (Cons v us)
    then show ?case using Suc.IH [of v] by (cases d) auto
  qed
  then show ?case using Suc.IH [of u] Suc.prems t c by auto
qed

lemma kid_count_pos: "kid_count u \<Longrightarrow> 0 < data_count u"
  by (simp add: kid_count_def MINIMUM_def)

lemma leaf_data_ne:
  assumes "shape h t" and "0 < data_count t"
  shows "\<forall>l \<in> set (leaf_list t). snd l \<noteq> []"
  using assms
proof (induction h arbitrary: t)
  case 0
  then show ?case by (cases t) (auto simp: data_count_def)
next
  case (Suc h)
  obtain a d c where t: "t = BNode a d c" by (cases t)
  then have "c \<noteq> []" using Suc.prems by auto
  then show ?case using Suc t by (fastforce simp: leaf_list_node dest: kid_count_pos)
qed

section \<open>Separators and the leaves behind them\<close>

definition lead :: "nat \<times> ('k, 'v) item list \<Rightarrow> 'k" where
  "lead l = fst (hd (snd l))"

definition lead_ok :: "(nat \<times> ('k, 'v) item list) list \<Rightarrow> ('k, 'v) item list \<Rightarrow> bool" where
  "lead_ok L S \<longleftrightarrow> map fst S = map lead (tl L)"

lemma lead_ok_split:
  assumes "length L1 = Suc (length S1)" and "L2 \<noteq> []"
  shows "lead_ok (L1 @ L2) (S1 @ s # S2) \<longleftrightarrow> lead_ok L1 S1 \<and> fst s = lead (hd L2) \<and> lead_ok L2 S2"
proof -
  have "length (tl L1) = length S1" using assms by simp
  moreover have "tl (L1 @ L2) = tl L1 @ hd L2 # tl L2" using assms by (cases L1; cases L2) auto
  ultimately show ?thesis by (simp add: lead_ok_def append_eq_append_conv)
qed

definition first_lead :: "('k, 'v) bptree \<Rightarrow> 'k" where
  "first_lead t = lead (hd (leaf_list t))"

lemma lead_ok_children:
  assumes "length d = length ts" and "\<forall>u \<in> set ts. shape h u" and "length L = Suc (length S)"
  shows "lead_ok (L @ concat (map leaf_list ts)) (S @ weave d (map seps ts)) \<longleftrightarrow>
    lead_ok L S \<and> map fst d = map first_lead ts \<and> (\<forall>u \<in> set ts. lead_ok (leaf_list u) (seps u))"
  using assms
proof (induction ts arbitrary: d L S)
  case Nil
  then show ?case by simp
next
  case (Cons t ts)
  obtain x d' where d: "d = x # d'" using Cons.prems(1) by (cases d) auto
  have lt: "length (leaf_list t) = Suc (length (seps t))" using length_seps [of h t] Cons.prems(2) by simp
  have "lead_ok (L @ leaf_list t @ concat (map leaf_list ts)) (S @ x # seps t @ weave d' (map seps ts)) \<longleftrightarrow>
      lead_ok L S \<and> fst x = lead (hd (leaf_list t)) \<and>
      lead_ok (leaf_list t @ concat (map leaf_list ts)) (seps t @ weave d' (map seps ts))"
    using lead_ok_split [OF Cons.prems(3), of "leaf_list t @ concat (map leaf_list ts)" x
        "seps t @ weave d' (map seps ts)"] by simp
  moreover have "lead_ok (leaf_list t @ concat (map leaf_list ts)) (seps t @ weave d' (map seps ts)) \<longleftrightarrow>
      lead_ok (leaf_list t) (seps t) \<and> map fst d' = map first_lead ts \<and>
      (\<forall>u \<in> set ts. lead_ok (leaf_list u) (seps u))"
    using Cons.IH [of d' "leaf_list t" "seps t"] Cons.prems d lt by simp
  ultimately show ?case by (auto simp: d first_lead_def)
qed

definition exact :: "('k, 'v) bptree \<Rightarrow> bool" where
  "exact t \<longleftrightarrow> lead_ok (leaf_list t) (seps t)"

lemma exact_leaf [simp]: "exact (BNode a d [])"
  by (simp add: exact_def lead_ok_def)

lemma exact_node:
  assumes "length c = Suc (length d)" and "\<forall>u \<in> set c. shape h u"
  shows "exact (BNode a d c) \<longleftrightarrow> map fst d = map first_lead (tl c) \<and> (\<forall>u \<in> set c. exact u)"
proof -
  obtain u us where c: "c = u # us" "length d = length us" using assms by (cases c) auto
  have "length (leaf_list u) = Suc (length (seps u))" "\<forall>v \<in> set us. shape h v"
    using assms c length_seps [of h u] by auto
  from lead_ok_children [OF c(2) this(2,1)] show ?thesis by (auto simp: c exact_def)
qed

section \<open>Links and addresses\<close>

fun linked :: "(nat \<Rightarrow> nat option) \<Rightarrow> nat list \<Rightarrow> nat option \<Rightarrow> bool" where
  "linked nx [] q \<longleftrightarrow> True"
| "linked nx (a # as) q \<longleftrightarrow> nx a = (case as of [] \<Rightarrow> q | b # _ \<Rightarrow> Some b) \<and> linked nx as q"

lemma linked_append:
  "bs \<noteq> [] \<Longrightarrow> linked nx (as @ bs) q \<longleftrightarrow> linked nx as (Some (hd bs)) \<and> linked nx bs q"
  by (induction as) (auto split: list.splits simp: neq_Nil_conv)

lemma linked_cong: "(\<And>a. a \<in> set as \<Longrightarrow> nx' a = nx a) \<Longrightarrow> linked nx' as q = linked nx as q"
  by (induction as) auto

definition addrs :: "('k, 'v) bptree \<Rightarrow> nat list" where
  "addrs t = map bp_addr (bp_nodes t)"

lemma addrs_node [simp]: "addrs (BNode a d c) = a # concat (map addrs c)"
  by (induction c) (simp_all add: addrs_def)

lemma leaf_list_addrs: "fst ` set (leaf_list t) \<subseteq> set (addrs t)"
proof (induction t)
  case (BNode a d c)
  then show ?case by (cases "c = []") (fastforce simp: leaf_list_node)+
qed

definition leaf_addrs :: "('k, 'v) bptree \<Rightarrow> nat list" where
  "leaf_addrs t = map fst (leaf_list t)"

lemma leaf_addrs_ne [simp]: "leaf_addrs t \<noteq> []"
  by (simp add: leaf_addrs_def)

lemma set_leaf_addrs: "set (leaf_addrs t) \<subseteq> set (addrs t)"
  using leaf_list_addrs [of t] by (simp add: leaf_addrs_def)

lemma items_node:
  assumes "c \<noteq> []"
  shows "items (BNode a d c) = concat (map items c)"
proof -
  have "concat (map snd (concat (map leaf_list c))) = concat (map items c)"
    by (induction c) (simp_all add: items_def)
  then show ?thesis using assms by (simp add: items_def leaf_list_node)
qed

lemma items_leaf [simp]: "items (BNode a d []) = d"
  by (simp add: items_def)

lemma leaf_addrs_node:
  assumes "c \<noteq> []"
  shows "leaf_addrs (BNode a d c) = concat (map leaf_addrs c)"
proof -
  have "map fst (concat (map leaf_list c)) = concat (map leaf_addrs c)"
    by (induction c) (simp_all add: leaf_addrs_def)
  then show ?thesis using assms by (simp add: leaf_addrs_def leaf_list_node)
qed

lemma leaf_addrs_leaf [simp]: "leaf_addrs (BNode a d []) = [a]"
  by (simp add: leaf_addrs_def)

definition increasing :: "('k :: linorder, 'v) item list \<Rightarrow> bool" where
  "increasing xs \<longleftrightarrow> sorted_wrt (<) (map fst xs)"

lemma increasing_append:
  "increasing (xs @ ys) \<longleftrightarrow>
    increasing xs \<and> increasing ys \<and> (\<forall>x \<in> set xs. \<forall>y \<in> set ys. fst x < fst y)"
  by (auto simp: increasing_def sorted_wrt_append)

lemma increasing_simps [simp]:
  "increasing []" "increasing (x # xs) \<longleftrightarrow> (\<forall>y \<in> set xs. fst x < fst y) \<and> increasing xs"
  by (auto simp: increasing_def)

text \<open>The invariant of a whole tree in its heap.\<close>

definition tree_ok :: "nat \<Rightarrow> ('k :: linorder, 'v) bptree \<Rightarrow> bheap \<Rightarrow> bool" where
  "tree_ok h t H \<longleftrightarrow> shape h t \<and> exact t \<and> increasing (items t) \<and>
     data_count t \<le> MAXIMUM \<and> (0 < h \<longrightarrow> MINIMUM \<le> data_count t) \<and>
     distinct (addrs t) \<and> (\<forall>a \<in> set (addrs t). a < next_addr H) \<and>
     linked (next_of H) (leaf_addrs t) None \<and> (0 < h \<longrightarrow> next_of H (bp_addr t) = None)"

section \<open>Finding the child\<close>

lemma first_ge_takeWhile: "first_ge d e = length (takeWhile (\<lambda>x. fst x < fst e) d)"
  by (induction d) (auto simp: item_less_def)

lemma first_ge_append:
  "\<forall>x \<in> set d1. fst x < fst e \<Longrightarrow> \<forall>x \<in> set d2. fst e \<le> fst x \<Longrightarrow> first_ge (d1 @ d2) e = length d1"
proof (induction d1)
  case Nil
  then show ?case by (cases d2) (auto simp: item_less_def)
next
  case (Cons x d1)
  then show ?case by (simp add: item_less_def)
qed

lemma ordered_insert_append:
  "\<forall>x \<in> set d1. fst x < fst e \<Longrightarrow> \<forall>x \<in> set d2. fst e \<le> fst x \<Longrightarrow> ordered_insert (d1 @ d2) e = d1 @ e # d2"
  by (simp add: ordered_insert_def first_ge_append insert_item_def)

lemma locate_split:
  assumes "increasing d"
  obtains d1 d2 where "d = d1 @ d2" "locate d e = (length d1, False)"
      "\<forall>x \<in> set d1. fst x < fst e" "\<forall>x \<in> set d2. fst e < fst x"
  | d1 s d2 where "d = d1 @ s # d2" "locate d e = (length d1, True)" "fst s = fst e"
      "\<forall>x \<in> set d1. fst x < fst e" "\<forall>x \<in> set d2. fst e < fst x"
proof -
  let ?d1 = "takeWhile (\<lambda>x. fst x < fst e) d" and ?d2 = "dropWhile (\<lambda>x. fst x < fst e) d"
  have d: "d = ?d1 @ ?d2" by simp
  have lt: "\<forall>x \<in> set ?d1. fst x < fst e" using set_takeWhileD by metis
  have inc: "increasing ?d2" using assms d by (metis increasing_append)
  have ge: "first_ge d e = length ?d1" by (rule first_ge_takeWhile)
  show ?thesis
  proof (cases ?d2)
    case Nil
    then have d1: "?d1 = d" using d by (metis append.right_neutral)
    have "first_ge d e = length d" "\<forall>x \<in> set d. fst x < fst e" using ge lt unfolding d1 by simp_all
    then show ?thesis using that(1) [of d "[]"] by (simp add: locate_def Let_def)
  next
    case (Cons s d2)
    have nth: "d ! length ?d1 = s" using d Cons by (metis nth_append_length)
    have s: "\<not> fst s < fst e" using hd_dropWhile [of "\<lambda>x. fst x < fst e" d] Cons by auto
    have len: "length ?d1 < length d" using d Cons by (metis length_append length_Cons less_add_same_cancel1 zero_less_Suc)
    show ?thesis
    proof (cases "fst s = fst e")
      case True
      then show ?thesis using d lt ge Cons nth len inc
        by (intro that(2) [of ?d1 s d2]) (auto simp: locate_def Let_def item_less_def)
    next
      case False
      then show ?thesis using d lt ge Cons nth len inc s
        by (intro that(1) [of ?d1 ?d2]) (auto simp: locate_def Let_def item_less_def)
    qed
  qed
qed

end
