(* ===== verification/Bplus_Lookup.thy ===== *)
theory Bplus_Lookup
  imports Bplus_Invariant
begin

text \<open>
  Descent in the in-memory B+ tree: the separators of a node leave exactly one child in which a key can
  be, and the lookups find what a search in the list of items finds. The last part says what an
  operation that only adds nodes may do to addresses and links (\<open>grown\<close>), and that a child that grew
  makes its parent grow.
\<close>

section \<open>The separators guide the descent\<close>

lemma items_lead:
  assumes "shape h u" and "0 < data_count u"
  shows "items u \<noteq> []" and "first_lead u = fst (hd (items u))"
proof -
  obtain l ls where l: "leaf_list u = l # ls" by (cases "leaf_list u") auto
  then have "snd l \<noteq> []" using leaf_data_ne [OF assms] by simp
  then show "items u \<noteq> []" "first_lead u = fst (hd (items u))"
    using l by (auto simp: items_def first_lead_def lead_def)
qed

lemma separator_bounds:
  assumes "map fst (d1 @ d2) = map first_lead (tl (A @ x # B))" and "length d1 = length A"
    and "\<forall>u \<in> set (A @ x # B). shape h u \<and> 0 < data_count u"
    and "increasing (concat (map items (A @ x # B)))"
  shows "\<forall>y \<in> set (concat (map items A)). \<exists>s \<in> set d1. fst y < fst s"
    and "\<forall>s \<in> set d1. \<forall>y \<in> set (items x @ concat (map items B)). fst s \<le> fst y"
    and "\<forall>y \<in> set (concat (map items B)). \<exists>s \<in> set d2. fst s \<le> fst y"
    and "increasing (d1 @ d2)"
    and "\<forall>s \<in> set d2. \<forall>y \<in> set (items x). fst y < fst s"
proof -
  have right: "(\<forall>y \<in> set (concat (map items B)). \<exists>s \<in> set d2. fst s \<le> fst y) \<and> increasing d2 \<and>
      fst ` set d2 \<subseteq> fst ` set (concat (map items B))"
    if "map fst d2 = map first_lead B" "\<forall>u \<in> set B. shape h u \<and> 0 < data_count u"
      "increasing (concat (map items B))" for d2 B
    using that
  proof (induction B arbitrary: d2)
    case Nil
    then show ?case by simp
  next
    case (Cons u B)
    obtain s d2' where d2: "d2 = s # d2'" "fst s = first_lead u" "map fst d2' = map first_lead B"
      using Cons.prems(1) by (cases d2) auto
    have ne: "items u \<noteq> []" "fst s = fst (hd (items u))" using items_lead [of h u] Cons.prems(2) d2 by auto
    then obtain y ys where y: "items u = y # ys" by (cases "items u") auto
    have inc: "increasing (concat (map items B))" "increasing (items u)"
      "\<forall>v \<in> set (items u). \<forall>w \<in> set (concat (map items B)). fst v < fst w"
      using Cons.prems(3) by (simp_all add: increasing_append)
    have ih: "\<forall>y \<in> set (concat (map items B)). \<exists>s \<in> set d2'. fst s \<le> fst y" "increasing d2'"
      "fst ` set d2' \<subseteq> fst ` set (concat (map items B))"
      using Cons.IH [OF d2(3)] Cons.prems(2) inc(1) by auto
    have "\<forall>v \<in> set (items u). fst s \<le> fst v" using inc(2) y ne(2) by auto
    moreover have "\<forall>v \<in> set d2'. fst s < fst v" using ih(3) inc(3) y ne(2) by fastforce
    moreover have "fst s \<in> fst ` set (items u)" using y ne(2) by simp
    ultimately show ?case using ih d2(1) by (auto simp: image_Un)
  qed
  have left: "(\<forall>y \<in> set (concat (map items A)). \<exists>s \<in> set d1. fst y < fst s) \<and>
      (\<forall>s \<in> set d1. \<forall>y \<in> set (items x @ concat (map items B)). fst s \<le> fst y) \<and>
      increasing (d1 @ d2)"
    using assms
  proof (induction A arbitrary: d1)
    case Nil
    then show ?case using right [of d2 B] by (auto simp: increasing_append)
  next
    case (Cons u A)
    obtain s d1' where d1: "d1 = s # d1'" "length d1' = length A"
      using Cons.prems(2) by (cases d1) auto
    define v where "v = hd (A @ [x])"
    have vin: "v \<in> set (A @ x # B)" by (cases A) (auto simp: v_def)
    have s: "fst s = first_lead v" "map fst (d1' @ d2) = map first_lead (tl (A @ x # B))"
      using Cons.prems(1) d1 by (cases A; simp add: v_def)+
    have ne: "items v \<noteq> []" "fst s = fst (hd (items v))"
      using items_lead [of h v] Cons.prems(3) vin s(1) by auto
    have inc: "increasing (concat (map items (A @ x # B)))"
      "\<forall>y \<in> set (items u). \<forall>w \<in> set (concat (map items (A @ x # B))). fst y < fst w"
      using Cons.prems(4) by (simp_all add: increasing_append)
    have ih: "\<forall>y \<in> set (concat (map items A)). \<exists>s \<in> set d1'. fst y < fst s"
      "\<forall>s \<in> set d1'. \<forall>y \<in> set (items x @ concat (map items B)). fst s \<le> fst y"
      "increasing (d1' @ d2)"
      using Cons.IH [OF s(2) d1(2)] Cons.prems(3) inc(1) by auto
    obtain y ys zs where cs: "concat (map items (A @ x # B)) = y # ys" "fst s = fst y"
      using ne by (cases A; cases "items v") (auto simp: v_def)
    have le: "\<forall>w \<in> set (concat (map items (A @ x # B))). fst s \<le> fst w"
      using inc(1) unfolding cs(1) cs(2) by auto
    have "\<forall>y \<in> set (items u). fst y < fst s"
      using inc(2) unfolding cs(1) by (simp add: cs(2))
    moreover have "\<forall>y \<in> set (items x @ concat (map items B)). fst s \<le> fst y" using le by auto
    moreover have "increasing (s # d1' @ d2)"
    proof -
      have "fst s < fst t" if t: "t \<in> set (d1' @ d2)" for t
      proof -
        have "map fst (d1' @ d2) = map first_lead (tl (A @ x # B))" by (rule s(2))
        then obtain w where w: "w \<in> set (tl (A @ x # B))" "fst t = first_lead w"
          using t by (metis image_eqI image_iff list.set_map)
        then have "w \<in> set (A @ x # B)" by (metis list.set_sel(2) tl_Nil)
        then have wi: "items w \<noteq> []" "fst t = fst (hd (items w))"
          using items_lead [of h w] Cons.prems(3) w(2) by auto
        have "concat (map items (A @ x # B)) = items v @ concat (map items (tl (A @ x # B)))"
          by (cases A) (auto simp: v_def)
        then have "\<forall>p \<in> set (items v). \<forall>q \<in> set (concat (map items (tl (A @ x # B)))). fst p < fst q"
          using inc(1) by (simp add: increasing_append)
        moreover have "hd (items w) \<in> set (concat (map items (tl (A @ x # B))))"
          using w(1) wi(1) by (auto intro!: bexI [of _ w])
        ultimately show ?thesis using ne wi(2) by fastforce
      qed
      then show ?thesis using ih(3) by simp
    qed
    ultimately show ?case using ih d1(1) by auto
  qed
  show "\<forall>y \<in> set (concat (map items A)). \<exists>s \<in> set d1. fst y < fst s"
    and "\<forall>s \<in> set d1. \<forall>y \<in> set (items x @ concat (map items B)). fst s \<le> fst y"
    and "increasing (d1 @ d2)"
    using left by blast+
  have "tl (A @ x # B) = tl (A @ [x]) @ B" by (cases A) auto
  then have "map fst d1 @ map fst d2 = map first_lead (tl (A @ [x])) @ map first_lead B"
    using assms(1) by simp
  then have "map fst d2 = map first_lead B" using assms(2) by (simp add: append_eq_append_conv)
  then show "\<forall>y \<in> set (concat (map items B)). \<exists>s \<in> set d2. fst s \<le> fst y"
    using right [of d2 B] assms(3,4) by (simp add: increasing_append)
  have "fst ` set d2 \<subseteq> fst ` set (concat (map items B))"
    using \<open>map fst d2 = map first_lead B\<close> right [of d2 B] assms(3,4) by (simp add: increasing_append)
  moreover have "\<forall>y \<in> set (items x). \<forall>k \<in> fst ` set (concat (map items B)). fst y < k"
    using assms(4) by (simp add: increasing_append)
  ultimately show "\<forall>s \<in> set d2. \<forall>y \<in> set (items x). fst y < fst s" by blast
qed

text \<open>The child an operation descends to, and what lies on its two sides.\<close>

lemma descend:
  assumes "shape (Suc h) (BNode a d c)" and "exact (BNode a d c)" and "increasing (items (BNode a d c))"
  obtains A x B d1 d2 found where "c = A @ x # B" and "d = d1 @ d2" and "length d1 = length A"
    and "length d2 = length B" and "locate d e = (if found then length A - 1 else length A, found)"
    and "found \<longrightarrow> A \<noteq> [] \<and> fst (List.last d1) = fst e"
    and "\<forall>s \<in> set (if found then butlast d1 else d1). fst s < fst e"
    and "\<forall>s \<in> set d2. fst e < fst s"
    and "\<forall>y \<in> set (concat (map items A)). fst y < fst e"
    and "\<forall>y \<in> set (concat (map items B)). fst e < fst y"
    and "\<forall>s \<in> set d1. \<forall>y \<in> set (items x). fst s \<le> fst y"
    and "increasing d"
proof -
  note result = that
  have len: "length c = Suc (length d)" and kids: "\<forall>u \<in> set c. shape h u \<and> kid_count u"
    using assms(1) by simp_all
  have m: "map fst d = map first_lead (tl c)" using exact_node [of c d h a] len kids assms(2) by simp
  have pos: "\<forall>u \<in> set c. shape h u \<and> 0 < data_count u" using kids kid_count_pos by auto
  have inc: "increasing (concat (map items c))" using assms(3) len by (cases c) (auto simp: items_node)
  have split: "\<exists>A x B. c = A @ x # B \<and> length A = k" if "k \<le> length d" for k
    using id_take_nth_drop [of k c] that len by (metis length_take less_Suc_eq_le min.absorb4)
  have main: "thesis" if d: "d = d1 @ d2" and l: "locate d e = (if found then length d1 - 1 else length d1, found)"
      and f: "found \<longrightarrow> d1 \<noteq> [] \<and> fst (List.last d1) = fst e"
      and lo: "\<forall>s \<in> set (if found then butlast d1 else d1). fst s < fst e" and hi: "\<forall>s \<in> set d2. fst e < fst s"
    for d1 d2 found
  proof -
    obtain A x B where c: "c = A @ x # B" "length A = length d1" using split [of "length d1"] d by auto
    note b = separator_bounds [OF m [unfolded d c(1)] c(2) [symmetric] pos [unfolded c(1)] inc [unfolded c(1)]]
    have le: "\<forall>s \<in> set d1. fst s \<le> fst e"
    proof (cases found)
      case True
      then have "d1 = butlast d1 @ [List.last d1]" using f by simp
      then have "set d1 = set (butlast d1) \<union> {List.last d1}" by (metis set_append list.simps(15) list.set(1))
      then show ?thesis using lo f True by auto
    next
      case False
      then show ?thesis using lo by auto
    qed
    show thesis
    proof (rule result [of A x B d1 d2 found])
      show "\<forall>y \<in> set (concat (map items A)). fst y < fst e" using b(1) le by (meson order_less_le_trans)
      show "\<forall>y \<in> set (concat (map items B)). fst e < fst y" using b(3) hi by (meson order_less_le_trans)
      show "\<forall>s \<in> set d1. \<forall>y \<in> set (items x). fst s \<le> fst y" using b(2) by simp
      show "increasing d" using b(4) d by simp
    qed (use c d l f lo hi len in auto)
  qed
  have "increasing d"
  proof -
    obtain A x B where c: "c = A @ x # B" "length A = 0" using split [of 0] by auto
    show ?thesis using separator_bounds(4) [of "[]" d A x B h] m pos inc c by simp
  qed
  then show thesis
  proof (cases rule: locate_split [of d e])
    case (1 d1 d2)
    then show ?thesis using main [of d1 d2 False] by simp
  next
    case (2 d1 s d2)
    then show ?thesis using main [of "d1 @ [s]" d2 True] by simp
  qed
qed

section \<open>Lookup\<close>

definition good :: "nat \<Rightarrow> ('k :: linorder, 'v) bptree \<Rightarrow> bool" where
  "good h t \<longleftrightarrow> shape h t \<and> exact t \<and> increasing (items t)"

lemma good_child:
  assumes "good (Suc h) (BNode a d c)" and "x \<in> set c"
  shows "good h x" and "kid_count x"
proof -
  have c: "length c = Suc (length d)" "\<forall>u \<in> set c. shape h u \<and> kid_count u" "exact (BNode a d c)"
    "increasing (items (BNode a d c))"
    using assms(1) by (auto simp: good_def)
  show "kid_count x" using c assms(2) by simp
  have "exact x" using exact_node [of c d h a] c assms(2) by simp
  moreover have "increasing (items x)"
  proof -
    obtain A B where "c = A @ x # B" using assms(2) by (auto simp: in_set_conv_decomp)
    then show ?thesis using c(4) by (simp add: items_node increasing_append)
  qed
  ultimately show "good h x" using c(2) assms(2) by (simp add: good_def)
qed

text \<open>One step of a descent: the index the code computes is that of the only child that can hold the key.\<close>

lemma good_step:
  assumes "good (Suc h) (BNode a d c)"
  obtains A x B d1 d2 ge found where "c = A @ x # B" and "locate d e = (ge, found)"
    and "(if found then ge + 1 else ge) = length A" and "child c (if found then ge + 1 else ge) = Some x"
    and "good h x" and "kid_count x"
    and "\<forall>y \<in> set (concat (map items A)). fst y < fst e"
    and "\<forall>y \<in> set (concat (map items B)). fst e < fst y"
    and "d = d1 @ d2" and "length d1 = length A" and "length d2 = length B"
    and "A \<noteq> [] \<longrightarrow> first_lead x = fst (List.last d1) \<and> first_lead x \<le> fst e \<and> (found \<longleftrightarrow> first_lead x = fst e)"
    and "found \<longrightarrow> A \<noteq> []" and "increasing d"
proof -
  note result = that
  have g: "shape (Suc h) (BNode a d c)" "exact (BNode a d c)" "increasing (items (BNode a d c))"
    using assms by (auto simp: good_def)
  obtain A x B d1 d2 found where s: "c = A @ x # B" "d = d1 @ d2" "length d1 = length A"
      "length d2 = length B" "locate d e = (if found then length A - 1 else length A, found)"
      "found \<longrightarrow> A \<noteq> [] \<and> fst (List.last d1) = fst e"
      "\<forall>s \<in> set (if found then butlast d1 else d1). fst s < fst e"
      "\<forall>s \<in> set d2. fst e < fst s"
      "\<forall>y \<in> set (concat (map items A)). fst y < fst e"
      "\<forall>y \<in> set (concat (map items B)). fst e < fst y"
      "\<forall>s \<in> set d1. \<forall>y \<in> set (items x). fst s \<le> fst y"
      "increasing d"
    by (rule descend [OF g, of e])
  have i: "(if found then length A - 1 + 1 else length A) = length A" using s(6) by auto
  have x: "good h x" "kid_count x" using good_child [OF assms, of x] s(1) by auto
  have c: "child c (length A) = Some x" by (simp add: child_def s(1))
  have "first_lead x = fst (List.last d1) \<and> first_lead x \<le> fst e \<and> (found \<longleftrightarrow> first_lead x = fst e)" if A: "A \<noteq> []"
  proof -
    have "map fst d = map first_lead (tl c)" using exact_node [of c d h a] g by simp
    moreover have "tl c = tl (A @ [x]) @ B" using A s(1) by (cases A) auto
    ultimately have "map fst d1 @ map fst d2 = map first_lead (tl (A @ [x])) @ map first_lead B"
      using s(2) by (metis map_append)
    moreover have "length (map fst d1) = length (map first_lead (tl (A @ [x])))" using s(3) by simp
    ultimately have "map fst d1 = map first_lead (tl (A @ [x]))" by (metis append_eq_append_conv)
    then have "map fst d1 = map first_lead (tl A) @ [first_lead x]" using A by simp
    moreover have "d1 \<noteq> []" using A s(3) by auto
    ultimately have l: "fst (List.last d1) = first_lead x"
      by (metis last_map last_snoc)
    have "fst (List.last d1) < fst e" if "\<not> found" using s(7) that \<open>d1 \<noteq> []\<close> by simp
    then show ?thesis using l s(6) by (cases found) auto
  qed
  then show thesis
    by (intro result [OF s(1), of "if found then length A - 1 else length A" found d1 d2, OF s(5)])
      (use s x i c in auto)
qed

lemma items_split_node:
  "items (BNode a d (A @ x # B)) = concat (map items A) @ items x @ concat (map items B)"
  by (simp add: items_node)

lemma locate_leaf:
  assumes "increasing d" and "locate d e = (ge, found)"
  shows "found \<longleftrightarrow> fst e \<in> fst ` set d" and "found \<Longrightarrow> ge < length d \<and> fst (d ! ge) = fst e"
    and "\<not> found \<Longrightarrow> insert_item d ge e = takeWhile (\<lambda>y. fst y < fst e) d @ e # dropWhile (\<lambda>y. fst y < fst e) d"
proof -
  have "(found \<longleftrightarrow> fst e \<in> fst ` set d) \<and> (found \<longrightarrow> ge < length d \<and> fst (d ! ge) = fst e)"
    using assms(1)
  proof (cases rule: locate_split [of d e])
    case (1 d1 d2)
    then show ?thesis using assms(2) by auto
  next
    case (2 d1 s d2)
    then show ?thesis using assms(2) by (auto simp: image_Un)
  qed
  then show "found \<longleftrightarrow> fst e \<in> fst ` set d" "found \<Longrightarrow> ge < length d \<and> fst (d ! ge) = fst e" by blast+
  have "ge = length (takeWhile (\<lambda>y. fst y < fst e) d)"
    using assms(2) by (auto simp: locate_def Let_def first_ge_takeWhile)
  then show "insert_item d ge e = takeWhile (\<lambda>y. fst y < fst e) d @ e # dropWhile (\<lambda>y. fst y < fst e) d" if "\<not> found"
    by (simp add: insert_item_def takeWhile_eq_take [symmetric] dropWhile_eq_drop [symmetric])
qed

lemma contains_item_good:
  "good h t \<Longrightarrow> contains_item e t = Some (fst e \<in> fst ` set (items t))"
proof (induction h arbitrary: t)
  case 0
  then obtain a d where t: "t = BNode a d []" "increasing d" by (cases t) (auto simp: good_def)
  obtain ge found where l: "locate d e = (ge, found)" by (cases "locate d e") auto
  then show ?case using t locate_leaf(1) [OF t(2) l] by simp
next
  case (Suc h)
  obtain a d c where t: "t = BNode a d c" by (cases t)
  obtain A x B ge found where s: "c = A @ x # B" "locate d e = (ge, found)"
      "child c (if found then ge + 1 else ge) = Some x" "good h x"
      "\<forall>y \<in> set (concat (map items A)). fst y < fst e" "\<forall>y \<in> set (concat (map items B)). fst e < fst y"
    using good_step [OF Suc.prems [unfolded t], of e] by metis
  have "contains_item e t = contains_item e x" using s(1-3) t by (simp split: if_splits)
  moreover have "fst e \<in> fst ` set (items t) \<longleftrightarrow> fst e \<in> fst ` set (items x)"
  proof -
    have "fst e \<notin> fst ` set (concat (map items A))" "fst e \<notin> fst ` set (concat (map items B))"
      using s(5,6) by force+
    then show ?thesis by (simp add: t s(1) items_split_node image_Un del: set_concat)
  qed
  ultimately show ?case using Suc.IH [OF s(4)] by simp
qed

lemma find_filter: "List.find P l = (case filter P l of [] \<Rightarrow> None | y # _ \<Rightarrow> Some y)"
  by (induction l) auto

lemma get_Item_good:
  "good h t \<Longrightarrow> get_Item e t = Some (List.find (\<lambda>y. fst y = fst e) (items t))"
proof (induction h arbitrary: t)
  case 0
  then obtain a d where t: "t = BNode a d []" "increasing d" by (cases t) (auto simp: good_def)
  show ?case
    using t(2)
  proof (cases rule: locate_split [of d e])
    case (1 d1 d2)
    then have "List.find (\<lambda>y. fst y = fst e) d = None" by (auto simp: find_None_iff)
    then show ?thesis using 1 t by simp
  next
    case (2 d1 s d2)
    then have "filter (\<lambda>y. fst y = fst e) d1 = []" by (auto simp: filter_empty_conv)
    then have "List.find (\<lambda>y. fst y = fst e) d = Some s" using 2 by (simp add: find_filter)
    then show ?thesis using 2 t by simp
  qed
next
  case (Suc h)
  obtain a d c where t: "t = BNode a d c" by (cases t)
  obtain A x B ge found where s: "c = A @ x # B" "locate d e = (ge, found)"
      "child c (if found then ge + 1 else ge) = Some x" "good h x"
      "\<forall>y \<in> set (concat (map items A)). fst y < fst e" "\<forall>y \<in> set (concat (map items B)). fst e < fst y"
    using good_step [OF Suc.prems [unfolded t], of e] by metis
  have "get_Item e t = get_Item e x" using s(1-3) t by (cases found) simp_all
  moreover have "List.find (\<lambda>y. fst y = fst e) (items t) = List.find (\<lambda>y. fst y = fst e) (items x)"
  proof -
    have "\<not> fst y = fst e" if "y \<in> set (concat (map items A)) \<union> set (concat (map items B))" for y
      using s(5,6) that by (metis UnE order.irrefl)
    then have "filter (\<lambda>y. fst y = fst e) (concat (map items A)) = []"
      "filter (\<lambda>y. fst y = fst e) (concat (map items B)) = []"
      by (simp_all add: filter_empty_conv)
    then show ?thesis by (simp add: t s(1) items_split_node find_filter)
  qed
  ultimately show ?case using Suc.IH [OF s(4)] by simp
qed

section \<open>Growth\<close>

text \<open>What an operation may do to addresses and links: every node is an old one or one the allocator
  handed out, the leaves stay linked up to whatever followed them, other links stay.\<close>

definition grown :: "('k, 'v) bptree \<Rightarrow> bheap \<Rightarrow> ('k, 'v) bptree \<Rightarrow> bheap \<Rightarrow> bool" where
  "grown t H t' H' \<longleftrightarrow> next_addr H \<le> next_addr H' \<and> bp_addr t' = bp_addr t \<and>
     mset (addrs t') \<subseteq># mset (addrs t) + mset [next_addr H..<next_addr H'] \<and>
     hd (leaf_addrs t') = hd (leaf_addrs t) \<and>
     set (leaf_addrs t') \<subseteq> set (leaf_addrs t) \<union> {next_addr H..<next_addr H'} \<and>
     (\<forall>q. linked (next_of H) (leaf_addrs t) q \<longrightarrow> linked (next_of H') (leaf_addrs t') q) \<and>
     (\<forall>a. a \<notin> set (leaf_addrs t) \<longrightarrow> a < next_addr H \<longrightarrow> next_of H' a = next_of H a)"

definition placed :: "nat list \<Rightarrow> bheap \<Rightarrow> bool" where
  "placed as H \<longleftrightarrow> distinct as \<and> (\<forall>a \<in> set as. a < next_addr H)"

lemma grown_refl [simp]: "grown t H t H"
  by (simp add: grown_def)

lemma grown_set: "grown t H t' H' \<Longrightarrow> set (addrs t') \<subseteq> set (addrs t) \<union> {next_addr H..<next_addr H'}"
  unfolding grown_def by (metis atLeastLessThan_upt mset_append set_append set_mset_mset set_mset_mono)

lemma distinct_submset:
  assumes "mset ys \<subseteq># mset xs" and "distinct xs"
  shows "distinct ys"
  unfolding distinct_count_atmost_1
proof
  fix a
  have "count (mset ys) a \<le> count (mset xs) a" using assms(1) by (rule mset_subset_eq_count)
  moreover have "count (mset xs) a \<le> 1" using assms(2) by (simp add: distinct_count_atmost_1)
  ultimately have le: "count (mset ys) a \<le> 1" by (rule order_trans)
  show "count (mset ys) a = (if a \<in> set ys then 1 else 0)"
  proof (cases "a \<in> set ys")
    case True
    then have "0 < count (mset ys) a" by simp
    then have "count (mset ys) a = 1" using le by linarith
    then show ?thesis using True by simp
  next
    case False
    then show ?thesis by simp
  qed
qed

lemma grown_placed: "grown t H t' H' \<Longrightarrow> placed (addrs t) H \<Longrightarrow> placed (addrs t') H'"
proof -
  assume g: "grown t H t' H'" and p: "placed (addrs t) H"
  have "mset (addrs t') \<subseteq># mset (addrs t @ [next_addr H..<next_addr H'])" using g by (simp add: grown_def)
  moreover have "distinct (addrs t @ [next_addr H..<next_addr H'])" using p by (auto simp: placed_def)
  ultimately have "distinct (addrs t')" by (rule distinct_submset)
  moreover have "a < next_addr H'" if "a \<in> set (addrs t')" for a
  proof -
    have "a \<in> set (addrs t) \<or> a \<in> {next_addr H..<next_addr H'}" using that grown_set [OF g] by blast
    then show ?thesis using g p by (auto simp: placed_def grown_def)
  qed
  ultimately show "placed (addrs t') H'" by (simp add: placed_def)
qed

lemma grown_trans:
  assumes "grown t H t' H'" and "grown t' H' t'' H''"
  shows "grown t H t'' H''"
proof -
  have m: "mset (addrs t'') \<subseteq># mset (addrs t) + mset [next_addr H..<next_addr H'']"
  proof -
    have "next_addr H \<le> next_addr H'" "next_addr H' \<le> next_addr H''" using assms by (simp_all add: grown_def)
    then have "[next_addr H..<next_addr H''] = [next_addr H..<next_addr H'] @ [next_addr H'..<next_addr H'']"
      by (metis le_add_diff_inverse upt_add_eq_append)
    then have "mset [next_addr H..<next_addr H''] = mset [next_addr H..<next_addr H'] + mset [next_addr H'..<next_addr H'']"
      by (metis mset_append)
    moreover have "mset (addrs t') + mset [next_addr H'..<next_addr H''] \<subseteq>#
        mset (addrs t) + mset [next_addr H..<next_addr H'] + mset [next_addr H'..<next_addr H'']"
      using assms(1) by (simp add: grown_def)
    ultimately show ?thesis
      using assms(2) by (metis (no_types, lifting) grown_def subset_mset.trans union_assoc)
  qed
  have "next_of H'' a = next_of H a" if "a \<notin> set (leaf_addrs t)" "a < next_addr H" for a
  proof -
    have "a \<notin> set (leaf_addrs t')" "a < next_addr H'" using assms(1) that by (auto simp: grown_def)
    then show ?thesis using assms(1,2) that by (simp add: grown_def)
  qed
  moreover have "set (leaf_addrs t'') \<subseteq> set (leaf_addrs t) \<union> {next_addr H..<next_addr H''}"
    using assms(1,2) by (fastforce simp: grown_def)
  ultimately show ?thesis using assms(1,2) m by (simp add: grown_def)
qed

text \<open>A child that grew makes its parent grow.\<close>

lemma linked_child:
  "linked nx (concat (map leaf_addrs (A @ x # B))) q \<longleftrightarrow>
    linked nx (concat (map leaf_addrs A)) (Some (hd (leaf_addrs x))) \<and>
    linked nx (leaf_addrs x) (case B of [] \<Rightarrow> q | u # _ \<Rightarrow> Some (hd (leaf_addrs u))) \<and>
    linked nx (concat (map leaf_addrs B)) q"
proof (cases B)
  case Nil
  then show ?thesis by (simp add: linked_append)
next
  case (Cons u us)
  define ys where "ys = concat (map leaf_addrs B)"
  have ys: "ys \<noteq> []" "hd ys = hd (leaf_addrs u)" using Cons by (simp_all add: ys_def)
  have "concat (map leaf_addrs (A @ x # B)) = concat (map leaf_addrs A) @ leaf_addrs x @ ys"
    by (simp add: ys_def)
  then show ?thesis using ys Cons by (simp add: linked_append flip: ys_def)
qed

lemma placed_node:
  assumes "placed (addrs (BNode a d (A @ x # B))) H"
  shows "placed (addrs x) H"
    and "set (concat (map leaf_addrs A)) \<inter> set (leaf_addrs x) = {}"
    and "set (concat (map leaf_addrs B)) \<inter> set (leaf_addrs x) = {}"
    and "\<forall>b \<in> set (concat (map leaf_addrs A)) \<union> set (concat (map leaf_addrs B)). b < next_addr H"
proof -
  have sub: "set (concat (map leaf_addrs C)) \<subseteq> set (concat (map addrs C))" for C :: "('a, 'b) bptree list"
    using set_leaf_addrs by fastforce
  have p: "distinct (concat (map addrs A) @ addrs x @ concat (map addrs B))"
    "\<forall>b \<in> set (concat (map addrs A) @ addrs x @ concat (map addrs B)). b < next_addr H"
    using assms by (simp_all add: placed_def)
  show "placed (addrs x) H" using p by (simp add: placed_def)
  show "set (concat (map leaf_addrs A)) \<inter> set (leaf_addrs x) = {}"
    "set (concat (map leaf_addrs B)) \<inter> set (leaf_addrs x) = {}"
    using p(1) sub [of A] sub [of B] set_leaf_addrs [of x] by (simp_all del: set_concat) blast+
  show "\<forall>b \<in> set (concat (map leaf_addrs A)) \<union> set (concat (map leaf_addrs B)). b < next_addr H"
    using p(2) sub [of A] sub [of B] by (simp del: set_concat) blast
qed

lemma grown_node:
  assumes "grown x H x' H'" and "placed (addrs (BNode a d (A @ x # B))) H"
  shows "grown (BNode a d (A @ x # B)) H (BNode a d' (A @ x' # B)) H'"
proof -
  note p = placed_node [OF assms(2)]
  have g: "next_addr H \<le> next_addr H'" "mset (addrs x') \<subseteq># mset (addrs x) + mset [next_addr H..<next_addr H']"
    "hd (leaf_addrs x') = hd (leaf_addrs x)"
    "set (leaf_addrs x') \<subseteq> set (leaf_addrs x) \<union> {next_addr H..<next_addr H'}"
    "\<And>q. linked (next_of H) (leaf_addrs x) q \<Longrightarrow> linked (next_of H') (leaf_addrs x') q"
    "\<And>b. b \<notin> set (leaf_addrs x) \<Longrightarrow> b < next_addr H \<Longrightarrow> next_of H' b = next_of H b"
    using assms(1) by (auto simp: grown_def)
  have frame: "linked (next_of H') (concat (map leaf_addrs C)) q = linked (next_of H) (concat (map leaf_addrs C)) q"
    if "C = A \<or> C = B" for C q
    by (rule linked_cong, rule g(6)) (use p that in blast)+
  have l: "leaf_addrs (BNode a e (A @ z # B)) = concat (map leaf_addrs (A @ z # B))" for e z
    by (simp add: leaf_addrs_node)
  have "hd (leaf_addrs (BNode a d' (A @ x' # B))) = hd (leaf_addrs (BNode a d (A @ x # B)))"
    unfolding l using g(3) by (cases A) simp_all
  moreover have "linked (next_of H') (leaf_addrs (BNode a d' (A @ x' # B))) q"
    if "linked (next_of H) (leaf_addrs (BNode a d (A @ x # B))) q" for q
    using that unfolding l linked_child by (auto simp: frame g(3) g(5))
  moreover have "set (leaf_addrs (BNode a d' (A @ x' # B))) \<subseteq>
      set (leaf_addrs (BNode a d (A @ x # B))) \<union> {next_addr H..<next_addr H'}"
    using g(4) by (auto simp: l)
  moreover have "mset (addrs (BNode a d' (A @ x' # B))) \<subseteq>#
      mset (addrs (BNode a d (A @ x # B))) + mset [next_addr H..<next_addr H']"
  proof -
    let ?R = "add_mset a (mset (concat (map addrs A)) + mset (concat (map addrs B)))"
    have "?R + mset (addrs x') \<subseteq># ?R + (mset (addrs x) + mset [next_addr H..<next_addr H'])"
      using g(2) by simp
    then show ?thesis by (simp add: ac_simps)
  qed
  ultimately show ?thesis
    using g(1,6) by (auto simp: grown_def l)
qed

end
