(* ===== verification/Bplus_Insert.thy ===== *)
theory Bplus_Insert
  imports Bplus_Lookup
begin

text \<open>
  Insertion into the in-memory B+ tree keeps the invariant and inserts the item at its place in the list
  of items; an item whose key is there changes nothing.
\<close>

section \<open>Splitting a child\<close>

lemma first_lead_items: "good h u \<Longrightarrow> 0 < data_count u \<Longrightarrow> first_lead u = fst (hd (items u)) \<and> items u \<noteq> []"
  using items_lead by (auto simp: good_def)

lemma length_three: "length xs = 3 \<longleftrightarrow> (\<exists>p q r. xs = [p, q, r])"
  by (auto simp: numeral_eq_Suc length_Suc_conv)

lemma length_four: "length xs = 4 \<longleftrightarrow> (\<exists>p q r s. xs = [p, q, r, s])"
  by (auto simp: numeral_eq_Suc length_Suc_conv)

lemma split_nil: "split_items [] = ([], [])" and split_three: "split_items [p, q, r] = ([p, q], [r])"
  and split_four: "split_items [s, t, u, v] = ([s, t], [u, v])"
  by (simp_all add: split_items_def Let_def)

text \<open>The child before the split has three items; its parent may have any number.\<close>

lemma fix_excess_good:
  assumes t: "t = BNode a (d1 @ d2) (A @ x # B)" and len: "length d1 = length A" "length d2 = length B"
    and kids: "\<forall>u \<in> set A \<union> set B. shape h u \<and> kid_count u" and x: "shape h x" "data_count x = 3"
    and ex: "exact t" and inc: "increasing (items t)" and pl: "placed (addrs t) H"
  shows "\<exists>t' H'. fix_excess (length A) t H = Some (t', H') \<and> shape (Suc h) t' \<and> exact t' \<and>
    items t' = items t \<and> data_count t' = Suc (data_count t) \<and> grown t H t' H'"
proof -
  obtain p q r where xd: "bp_data x = [p, q, r]" using x(2) by (auto simp: data_count_def length_three)
  define n where "n = next_addr H"
  have pos: "\<forall>u \<in> set (A @ x # B). shape h u \<and> 0 < data_count u"
    using kids x kid_count_pos by (metis UnI1 UnI2 set_ConsD set_append Un_iff zero_less_numeral)
  have shc: "\<forall>u \<in> set (A @ x # B). shape h u" using pos by blast
  have m: "map fst (d1 @ d2) = map first_lead (tl (A @ x # B))" and exc: "\<forall>u \<in> set (A @ x # B). exact u"
    using exact_node [of "A @ x # B" "d1 @ d2" h a] ex t len shc by simp_all
  have incc: "increasing (concat (map items (A @ x # B)))" using inc t by (simp add: items_node)
  note b = separator_bounds [OF m len(1) pos incc]
  have incx: "increasing (items x)" using incc by (simp add: increasing_append)
  have c: "child (A @ x # B) (length A) = Some x" by (simp add: child_def)
  have upd: "(A @ x # B)[length A := y] = A @ y # B" "insert_item (A @ y # B) (Suc (length A)) z = A @ y # z # B" for y z
    by (simp_all add: insert_item_def)
  have ins: "ordered_insert (d1 @ d2) q = d1 @ q # d2" if "\<forall>s \<in> set d1. fst s < fst q" "\<forall>s \<in> set d2. fst q < fst s"
    using that by (intro ordered_insert_append) auto
  show ?thesis
  proof (cases h)
    case 0
    obtain ax where xe: "x = BNode ax [p, q, r] []" using x(1) xd 0 by (cases x) auto
    have pq: "fst p < fst q" "fst q < fst r" using incx xe by simp_all
    have d1q: "\<forall>s \<in> set d1. fst s < fst q" using b(2) pq(1) xe by (fastforce simp: items_leaf)
    have d2q: "\<forall>s \<in> set d2. fst q < fst s" using b(5) xe by simp
    have qr: "ordered_insert [r] q = [q, r]" using pq by (auto simp: ordered_insert_def insert_item_def item_less_def dest: less_asym)
    define x1 where "x1 = BNode ax [p] ([] :: ('a, 'b) bptree list)"
    define x2 where "x2 = BNode n [q, r] ([] :: ('a, 'b) bptree list)"
    define t' where "t' = BNode a (d1 @ q # d2) (A @ x1 # x2 # B)"
    define H' where "H' = set_link ax (Some n) (set_link n (next_of H ax) (snd (new_tree H)))"
    have axn: "ax < n" using pl t xe by (auto simp: placed_def n_def)
    have H': "next_of H' = (next_of H)(n := next_of H ax, ax := Some n)" "next_addr H' = Suc n"
      using axn by (auto simp: H'_def set_link_def new_tree_def n_def)
    have fe: "fix_excess (length A) t H = Some (t', H')"
      using axn unfolding fix_excess_def t bptree.sel c
      by (simp add: xe new_tree_def split_three split_nil detach_item_def ins [OF d1q d2q] is_leaf_def child_count_def
          qr upd [unfolded xe] t'_def x1_def x2_def H'_def n_def set_link_def Let_def)
    have sh: "shape (Suc h) t'"
      using kids len 0 by (auto simp: t'_def x1_def x2_def kid_count_iff)
    have ex': "exact t'"
    proof -
      have l: "length (A @ x1 # x2 # B) = Suc (length (d1 @ q # d2))" using len by simp
      have "first_lead x2 = fst q" "first_lead x1 = first_lead x" by (simp_all add: x1_def x2_def xe first_lead_def lead_def)
      then have "map fst (d1 @ q # d2) = map first_lead (tl (A @ x1 # x2 # B))"
      proof -
        have tl: "tl (A @ x # B) = tl (A @ [x]) @ B" "tl (A @ x1 # x2 # B) = tl (A @ [x1]) @ x2 # B" by (cases A; simp)+
        have "map fst d1 = map first_lead (tl (A @ [x]))" "map fst d2 = map first_lead B"
          using m len unfolding tl by (simp_all add: append_eq_append_conv)
        moreover have "map first_lead (tl (A @ [x])) = map first_lead (tl (A @ [x1]))"
          using \<open>first_lead x1 = first_lead x\<close> by (cases A) simp_all
        ultimately show ?thesis unfolding tl using \<open>first_lead x2 = fst q\<close> by simp
      qed
      moreover have "\<forall>u \<in> set (A @ x1 # x2 # B). exact u" using exc by (auto simp: x1_def x2_def)
      moreover have "\<forall>u \<in> set (A @ x1 # x2 # B). shape h u" using kids 0 by (auto simp: x1_def x2_def)
      ultimately show ?thesis using exact_node [OF l] unfolding t'_def by blast
    qed
    have it: "items t' = items t" by (simp add: t t'_def items_node x1_def x2_def xe)
    have gr: "grown t H t' H'"
    proof -
      have la: "leaf_addrs t = concat (map leaf_addrs A) @ ax # concat (map leaf_addrs B)"
        "leaf_addrs t' = concat (map leaf_addrs A) @ ax # n # concat (map leaf_addrs B)"
        by (simp_all add: t t'_def leaf_addrs_node x1_def x2_def xe)
      note pn = placed_node [OF pl [unfolded t]]
      have nn: "n \<notin> set (concat (map leaf_addrs A))" "n \<notin> set (concat (map leaf_addrs B))"
        "ax \<notin> set (concat (map leaf_addrs A))" "ax \<notin> set (concat (map leaf_addrs B))"
        using pn xe by (auto simp: n_def simp del: set_concat)
      have frame: "linked (next_of H') as q = linked (next_of H) as q" if "n \<notin> set as" "ax \<notin> set as" for as q
        using that by (intro linked_cong) (auto simp: H')
      have "linked (next_of H') (leaf_addrs t') q" if "linked (next_of H) (leaf_addrs t) q" for q
      proof -
        have "linked (next_of H) (concat (map leaf_addrs A)) (Some ax)"
          "linked (next_of H) (ax # concat (map leaf_addrs B)) q"
          using that unfolding la by (simp_all add: linked_append)
        then show ?thesis unfolding la using nn axn
          by (simp add: linked_append frame del: set_concat) (auto simp: H' split: list.splits)
      qed
      moreover have "mset (addrs t') = mset (addrs t) + mset [next_addr H..<next_addr H']"
        by (simp add: t t'_def x1_def x2_def xe H' n_def)
      moreover have "bp_addr t' = bp_addr t" by (simp add: t t'_def)
      moreover have "hd (leaf_addrs t') = hd (leaf_addrs t)" unfolding la by (simp add: hd_append)
      moreover have "set (leaf_addrs t') \<subseteq> set (leaf_addrs t) \<union> {next_addr H..<next_addr H'}"
        unfolding la by (auto simp: H' n_def)
      moreover have "next_of H' b = next_of H b" if "b \<notin> set (leaf_addrs t)" "b < next_addr H" for b
        using that unfolding la by (auto simp: H' n_def)
      ultimately show ?thesis by (simp add: grown_def H'(2) n_def)
    qed
    show ?thesis using fe sh ex' it gr len by (auto simp: data_count_def t t'_def)
  next
    case (Suc g)
    obtain ax cs where xe: "x = BNode ax [p, q, r] cs" using xd by (cases x) auto
    have "length cs = 4" using x(1) Suc xe by simp
    then obtain s t4 u v where cs: "cs = [s, t4, u, v]" using length_four by metis
    have xk: "\<forall>w \<in> {s, t4, u, v}. shape g w \<and> kid_count w" using x(1) Suc xe cs by simp
    have "exact x" using exc by simp
    then have xl: "fst p = first_lead t4" "fst q = first_lead u" "fst r = first_lead v"
      "\<forall>w \<in> {s, t4, u, v}. exact w"
      using exact_node [of cs "[p, q, r]" g ax] xk xe cs by auto
    have ix: "items x = items s @ items t4 @ items u @ items v" by (simp add: xe cs items_node)
    have ne: "items s \<noteq> []" "items u \<noteq> []" "fst q = fst (hd (items u))"
    proof -
      have "0 < data_count s" "0 < data_count u" using xk kid_count_pos by blast+
      then show "items s \<noteq> []" "items u \<noteq> []" "fst q = fst (hd (items u))"
        using items_lead [of g s] items_lead [of g u] xk xl(2) by simp_all
    qed
    have qin: "\<exists>y \<in> set (items x). fst y = fst q" using ne ix by (intro bexI [of _ "hd (items u)"]) auto
    have sq: "\<exists>y \<in> set (items x). fst y < fst q"
    proof -
      have "fst (hd (items s)) < fst (hd (items u))"
        using incx ne unfolding ix increasing_append by (simp add: ball_Un)
      then show ?thesis using ne ix by (intro bexI [of _ "hd (items s)"]) auto
    qed
    have d1q: "\<forall>s \<in> set d1. fst s < fst q" using b(2) sq by (metis Un_iff order_le_less_trans set_append)
    have d2q: "\<forall>s \<in> set d2. fst q < fst s" using b(5) qin by metis
    define x1 where "x1 = BNode ax [p] [s, t4]"
    define x2 where "x2 = BNode n [r] [u, v]"
    define t' where "t' = BNode a (d1 @ q # d2) (A @ x1 # x2 # B)"
    define H' where "H' = snd (new_tree H)"
    have H': "next_of H' = (next_of H)(n := None)" "next_addr H' = Suc n"
      by (simp_all add: H'_def new_tree_def n_def)
    have fe: "fix_excess (length A) t H = Some (t', H')"
      unfolding fix_excess_def t bptree.sel c
      by (simp add: xe cs new_tree_def split_three split_four detach_item_def ins [OF d1q d2q] is_leaf_def child_count_def
          upd [unfolded xe cs] t'_def x1_def x2_def H'_def n_def Let_def)
    have shs: "shape h x1" "shape h x2" "kid_count x1" "kid_count x2"
      using xk Suc by (simp_all add: x1_def x2_def kid_count_iff)
    then have sh: "shape (Suc h) t'" using kids len by (auto simp: t'_def)
    have lt: "leaf_list t' = leaf_list t" by (simp add: t t'_def leaf_list_node x1_def x2_def xe cs)
    have "seps t' = seps t"
      using seps_node [OF len, of a x] seps_node [of d1 A "q # d2" "x2 # B" a x1] len
      by (simp add: t t'_def xe cs x1_def x2_def)
    then have ex': "exact t'" using ex lt by (simp add: exact_def)
    have it: "items t' = items t" by (simp add: items_def lt)
    have gr: "grown t H t' H'"
    proof -
      have la: "leaf_addrs t' = leaf_addrs t" by (simp add: leaf_addrs_def lt)
      have "n \<notin> set (leaf_addrs t)" using pl set_leaf_addrs [of t] by (auto simp: placed_def n_def)
      then have "linked (next_of H') (leaf_addrs t') q = linked (next_of H) (leaf_addrs t) q" for q
        unfolding la by (intro linked_cong) (auto simp: H')
      moreover have "mset (addrs t') = mset (addrs t) + mset [next_addr H..<next_addr H']"
        by (simp add: t t'_def x1_def x2_def xe cs H' n_def)
      moreover have "bp_addr t' = bp_addr t" by (simp add: t t'_def)
      ultimately show ?thesis by (simp add: grown_def la H' n_def subset_insertI)
    qed
    show ?thesis using fe sh ex' it gr len by (auto simp: data_count_def t t'_def)
  qed
qed

section \<open>Insertion\<close>

definition sorted_insert :: "('k :: linorder, 'v) item \<Rightarrow> ('k, 'v) item list \<Rightarrow> ('k, 'v) item list" where
  "sorted_insert e xs = takeWhile (\<lambda>y. fst y < fst e) xs @ e # dropWhile (\<lambda>y. fst y < fst e) xs"

lemma sorted_insert_right:
  "\<forall>y \<in> set xs. fst y < fst e \<Longrightarrow> sorted_insert e (xs @ ys) = xs @ sorted_insert e ys"
  by (simp add: sorted_insert_def takeWhile_append2 dropWhile_append2)

lemma sorted_insert_left:
  "\<forall>y \<in> set ys. fst e < fst y \<Longrightarrow> sorted_insert e (xs @ ys) = sorted_insert e xs @ ys"
proof (induction xs)
  case Nil
  then show ?case by (cases ys) (auto simp: sorted_insert_def)
next
  case (Cons x xs)
  then show ?case by (auto simp: sorted_insert_def)
qed

lemma set_sorted_insert [simp]: "set (sorted_insert e xs) = insert e (set xs)"
proof -
  have "set xs = set (takeWhile (\<lambda>y. fst y < fst e) xs) \<union> set (dropWhile (\<lambda>y. fst y < fst e) xs)"
    by (metis set_append takeWhile_dropWhile_id)
  then show ?thesis by (auto simp: sorted_insert_def)
qed

lemma increasing_sorted_insert:
  "increasing xs \<Longrightarrow> fst e \<notin> fst ` set xs \<Longrightarrow> increasing (sorted_insert e xs)"
proof (induction xs)
  case Nil
  then show ?case by (simp add: sorted_insert_def)
next
  case (Cons x xs)
  show ?case
  proof (cases "fst x < fst e")
    case True
    then have "sorted_insert e (x # xs) = x # sorted_insert e xs" by (simp add: sorted_insert_def)
    then show ?thesis using Cons True by auto
  next
    case False
    then have lt: "fst e < fst x" using Cons.prems(2) by auto
    have "sorted_insert e (x # xs) = e # x # xs" using False by (simp add: sorted_insert_def)
    then show ?thesis using Cons.prems(1) lt by force
  qed
qed

lemma loose_insert_present:
  "good h t \<Longrightarrow> fst e \<in> fst ` set (items t) \<Longrightarrow> data_count t \<le> MAXIMUM \<Longrightarrow> loose_insert e t H = Some (False, t, H)"
proof (induction h arbitrary: t)
  case 0
  then obtain a d where t: "t = BNode a d []" "increasing d" by (cases t) (auto simp: good_def)
  obtain ge found where l: "locate d e = (ge, found)" by (cases "locate d e") auto
  then show ?case using t locate_leaf(1) [OF t(2) l] 0 by simp
next
  case (Suc h)
  obtain a d c where t: "t = BNode a d c" by (cases t)
  obtain A x B ge found where s: "c = A @ x # B" "locate d e = (ge, found)"
      "(if found then ge + 1 else ge) = length A"
      "child c (if found then ge + 1 else ge) = Some x" "good h x" "kid_count x"
      "\<forall>y \<in> set (concat (map items A)). fst y < fst e" "\<forall>y \<in> set (concat (map items B)). fst e < fst y"
    using good_step [OF Suc.prems(1) [unfolded t], of e] by metis
  have "fst e \<notin> fst ` set (concat (map items A))" "fst e \<notin> fst ` set (concat (map items B))"
    using s(7,8) by force+
  then have "fst e \<in> fst ` set (items x)" using Suc.prems(2)
    by (simp add: t s(1) items_split_node image_Un del: set_concat)
  moreover have "data_count x \<le> MAXIMUM" using s(6) by (simp add: kid_count_def)
  ultimately have "loose_insert e x H = Some (False, x, H)" using Suc.IH [OF s(5)] by simp
  moreover have "c[length A := x] = c" by (simp add: s(1))
  ultimately show ?case using s(1-4) \<open>data_count x \<le> MAXIMUM\<close> by (auto simp: t Let_def)
qed

lemma loose_insert_absent:
  assumes "good h t" and "fst e \<notin> fst ` set (items t)" and "placed (addrs t) H"
  shows "\<exists>t' H'. loose_insert e t H = Some (True, t', H') \<and> shape h t' \<and> exact t' \<and>
    items t' = sorted_insert e (items t) \<and> data_count t \<le> data_count t' \<and>
    data_count t' \<le> Suc (data_count t) \<and> grown t H t' H'"
  using assms
proof (induction h arbitrary: t)
  case 0
  then obtain a d where t: "t = BNode a d []" "increasing d" by (cases t) (auto simp: good_def)
  obtain ge found where l: "locate d e = (ge, found)" by (cases "locate d e") auto
  have nf: "\<not> found" using locate_leaf(1) [OF t(2) l] 0 t by simp
  have i: "insert_item d ge e = sorted_insert e d"
    using locate_leaf(3) [OF t(2) l nf] by (simp add: sorted_insert_def)
  have n: "length (sorted_insert e d) = Suc (length d)"
    by (metis i insert_item_def length_append length_Cons add_Suc_right append_take_drop_id)
  have "grown t H (BNode a (sorted_insert e d) []) H" by (simp add: grown_def t)
  then show ?case using l nf i n t by (auto simp: data_count_def)
next
  case (Suc h)
  obtain a d c where t: "t = BNode a d c" by (cases t)
  obtain A x B d1 d2 ge found where s: "c = A @ x # B" "locate d e = (ge, found)"
      "(if found then ge + 1 else ge) = length A"
      "child c (if found then ge + 1 else ge) = Some x" "good h x" "kid_count x"
      "\<forall>y \<in> set (concat (map items A)). fst y < fst e" "\<forall>y \<in> set (concat (map items B)). fst e < fst y"
      "d = d1 @ d2" "length d1 = length A" "length d2 = length B"
      "A \<noteq> [] \<longrightarrow> first_lead x = fst (List.last d1) \<and> first_lead x \<le> fst e \<and> (found \<longleftrightarrow> first_lead x = fst e)"
    by (rule good_step [OF Suc.prems(1) [unfolded t], of e])
  have sh: "length c = Suc (length d)" "\<forall>u \<in> set c. shape h u \<and> kid_count u" "exact t"
    using Suc.prems(1) t by (auto simp: good_def)
  have ab: "fst e \<notin> fst ` set (items x)"
    using Suc.prems(2) by (simp add: t s(1) items_split_node image_Un)
  have pl: "placed (addrs (BNode a d (A @ x # B))) H" using Suc.prems(3) t s(1) by simp
  obtain x' H1 where r: "loose_insert e x H = Some (True, x', H1)" "shape h x'" "exact x'"
      "items x' = sorted_insert e (items x)" "data_count x \<le> data_count x'" "data_count x' \<le> Suc (data_count x)"
      "grown x H x' H1"
    using Suc.IH [OF s(5) ab placed_node(1) [OF pl]] by blast
  define t1 where "t1 = BNode a d (A @ x' # B)"
  have c1: "c[length A := x'] = A @ x' # B" by (simp add: s(1))
  have gr: "grown t H t1 H1" using grown_node [OF r(7) pl] t s(1) by (simp add: t1_def)
  have posx: "0 < data_count x" "0 < data_count x'" using s(6) kid_count_pos r(5) by force+
  have incx': "increasing (items x')" using increasing_sorted_insert [OF _ ab] s(5) r(4) by (simp add: good_def)
  have fl: "first_lead x' = first_lead x" if "A \<noteq> []"
  proof -
    have x: "first_lead x = fst (hd (items x))" "items x \<noteq> []"
      using first_lead_items [OF s(5) posx(1)] by simp_all
    then obtain y ys where y: "items x = y # ys" by (cases "items x") auto
    have "fst y < fst e" using s(12) that x y ab by (auto simp: order_le_less)
    then have "hd (items x') = y" using y r(4) by (simp add: sorted_insert_def)
    moreover have "first_lead x' = fst (hd (items x'))"
      using items_lead(2) [OF r(2) posx(2)] .
    ultimately show ?thesis using x y by simp
  qed
  have ex1: "exact t1"
  proof -
    have "map fst d = map first_lead (tl c)" "\<forall>u \<in> set c. exact u"
      using exact_node [of c d h a] sh t by auto
    moreover have "map first_lead (tl (A @ x' # B)) = map first_lead (tl c)"
      using fl s(1) by (cases A) simp_all
    ultimately show ?thesis
      using exact_node [of "A @ x' # B" d h a] sh s(1) r(2,3) by (simp add: t1_def)
  qed
  have it1: "items t1 = sorted_insert e (items t)"
    by (simp add: t t1_def s(1) items_split_node r(4) sorted_insert_right [OF s(7)] sorted_insert_left [OF s(8)]
        del: set_concat)
  have run: "loose_insert e t H = (do {
      (t'', h'') \<leftarrow> (if data_count x' > MAXIMUM then fix_excess (length A) t1 H1 else Some (t1, H1));
      Some (True, t'', h'') })"
    using s(1-4) r(1) c1 by (auto simp: t t1_def Let_def)
  show ?case
  proof (cases "data_count x' > MAXIMUM")
    case False
    then have "kid_count x'" using posx(2) by (simp add: kid_count_def MINIMUM_def)
    then have "shape (Suc h) t1" using sh s(1) r(2) by (simp add: t1_def)
    then show ?thesis using run False ex1 it1 gr by (auto simp: t t1_def data_count_def)
  next
    case True
    then have three: "data_count x' = 3"
      using r(6) s(6) by (auto simp: kid_count_def MAXIMUM_def MINIMUM_def)
    have "increasing (items t1)"
      unfolding it1 using increasing_sorted_insert [of "items t" e] Suc.prems(1,2) by (simp add: good_def)
    moreover have "placed (addrs t1) H1" using grown_placed [OF gr] Suc.prems(3) by simp
    moreover have "\<forall>u \<in> set A \<union> set B. shape h u \<and> kid_count u" using sh s(1) by auto
    ultimately obtain t' H' where "fix_excess (length A) t1 H1 = Some (t', H')" "shape (Suc h) t'" "exact t'"
        "items t' = items t1" "data_count t' = Suc (data_count t1)" "grown t1 H1 t' H'"
      using fix_excess_good [of t1 a d1 d2 A x' B h H1] s(9-11) r(2) three ex1 by (auto simp: t1_def)
    then show ?thesis using run True it1 grown_trans [OF gr] by (auto simp: t t1_def data_count_def)
  qed
qed

section \<open>The whole tree\<close>

lemma tree_ok_good: "tree_ok h t H \<Longrightarrow> good h t" and tree_ok_placed: "tree_ok h t H \<Longrightarrow> placed (addrs t) H"
  by (simp_all add: tree_ok_def good_def placed_def)

lemma tree_okI:
  assumes "good h t" and "data_count t \<le> MAXIMUM" and "0 < h \<longrightarrow> MINIMUM \<le> data_count t" and "placed (addrs t) H"
    and "linked (next_of H) (leaf_addrs t) None" and "0 < h \<longrightarrow> next_of H (bp_addr t) = None"
  shows "tree_ok h t H"
  using assms by (simp add: tree_ok_def good_def placed_def)

lemma new_tree_ok: "bp_new H = (t, H') \<Longrightarrow> tree_ok 0 t H' \<and> items t = []"
  by (auto simp: bp_new_def new_tree_def tree_ok_def data_count_def)

lemma root_not_leaf:
  assumes "shape (Suc h) t" and "distinct (addrs t)"
  shows "bp_addr t \<notin> set (leaf_addrs t)"
proof -
  obtain a d c where t: "t = BNode a d c" by (cases t)
  then have "c \<noteq> []" using assms(1) by auto
  then show ?thesis using assms(2) set_leaf_addrs t by (fastforce simp: leaf_addrs_node)
qed

theorem bp_insert_present:
  assumes "tree_ok h t H" and "fst e \<in> fst ` set (items t)"
  shows "bp_insert e t H = Some (False, t, H)"
proof -
  have "data_count t \<le> MAXIMUM" using assms(1) by (simp add: tree_ok_def)
  from loose_insert_present [OF tree_ok_good [OF assms(1)] assms(2) this]
  show ?thesis by (simp add: bp_insert_def)
qed

theorem bp_insert_absent:
  assumes "tree_ok h t H" and "fst e \<notin> fst ` set (items t)"
  shows "\<exists>h' t' H'. bp_insert e t H = Some (True, t', H') \<and> tree_ok h' t' H' \<and> bp_addr t' = bp_addr t \<and>
    items t' = sorted_insert e (items t) \<and> next_addr H \<le> next_addr H' \<and>
    (\<forall>a. a \<notin> set (addrs t) \<longrightarrow> a < next_addr H \<longrightarrow> next_of H' a = next_of H a) \<and>
    set (addrs t') \<subseteq> set (addrs t) \<union> {next_addr H..<next_addr H'}"
proof -
  have g: "good h t" "placed (addrs t) H" "linked (next_of H) (leaf_addrs t) None" "data_count t \<le> MAXIMUM"
    "0 < h \<longrightarrow> MINIMUM \<le> data_count t" "0 < h \<longrightarrow> next_of H (bp_addr t) = None"
    using assms(1) tree_ok_good [OF assms(1)] tree_ok_placed [OF assms(1)] by (simp_all add: tree_ok_def)
  obtain t1 H1 where r: "loose_insert e t H = Some (True, t1, H1)" "shape h t1" "exact t1"
    "items t1 = sorted_insert e (items t)" "data_count t \<le> data_count t1" "data_count t1 \<le> Suc (data_count t)"
    "grown t H t1 H1"
    using loose_insert_absent [OF g(1) assms(2) g(2)] by blast
  have gr: "next_addr H \<le> next_addr H1" "bp_addr t1 = bp_addr t"
    "\<And>a. a \<notin> set (leaf_addrs t) \<Longrightarrow> a < next_addr H \<Longrightarrow> next_of H1 a = next_of H a"
    "linked (next_of H1) (leaf_addrs t1) None"
    using r(7) g(3) by (auto simp: grown_def)
  have inc: "increasing (items t1)"
    using increasing_sorted_insert [of "items t" e] assms(2) g(1) r(4) by (simp add: good_def)
  have pl: "placed (addrs t1) H1" using grown_placed [OF r(7) g(2)] .
  have root: "next_of H1 (bp_addr t) = None" if pos: "0 < h"
  proof -
    obtain h' where "h = Suc h'" using pos by (cases h) auto
    then have "bp_addr t \<notin> set (leaf_addrs t)" using root_not_leaf g(1,2) by (auto simp: good_def placed_def)
    moreover have "bp_addr t < next_addr H" using g(2) by (cases t) (auto simp: placed_def)
    ultimately show ?thesis using gr(3) g(6) pos by simp
  qed
  have outside: "next_of H1 a = next_of H a" if "a \<notin> set (addrs t)" "a < next_addr H" for a
    using gr(3) that set_leaf_addrs by fastforce
  have sub: "set (addrs t1) \<subseteq> set (addrs t) \<union> {next_addr H..<next_addr H1}" using grown_set [OF r(7)] by simp
  show ?thesis
  proof (cases "data_count t1 > MAXIMUM")
    case False
    have "tree_ok h t1 H1"
      using r(2,3) inc False g(5) r(5) pl gr(2,4) root by (intro tree_okI) (auto simp: good_def)
    then show ?thesis using r(1,4) False gr(1,2) outside sub by (auto simp: bp_insert_def)
  next
    case True
    then have three: "data_count t1 = 3" using r(6) g(4) by (simp add: MAXIMUM_def MINIMUM_def)
    define b where "b = next_addr H1"
    define H2 where "H2 = snd (new_tree H1)"
    define x where "x = BNode b (bp_data t1) (bp_subset t1)"
    define t2 where "t2 = BNode (bp_addr t1) ([] :: ('a, 'b) item list) [x]"
    have H2: "next_of H2 = (next_of H1)(b := None)" "next_addr H2 = Suc b"
      by (simp_all add: H2_def new_tree_def b_def)
    have t1: "t1 = BNode (bp_addr t1) (bp_data t1) (bp_subset t1)" by simp
    have sx: "shape h x" using r(2) by (cases h; cases t1) (auto simp: x_def)
    have sq: "seps x = seps t1" "items x = items t1"
      by (cases t1; cases "bp_subset t1"; simp add: x_def items_def)+
    have lx: "map snd (leaf_list x) = map snd (leaf_list t1)"
      by (cases t1; cases "bp_subset t1") (simp_all add: x_def)
    have "map lead (tl (leaf_list x)) = map lead (tl (leaf_list t1))"
    proof -
      have "map lead (tl l) = map (\<lambda>d. fst (hd d)) (tl (map snd l))" for l :: "(nat \<times> ('a, 'b) item list) list"
        by (induction l) (simp_all add: lead_def map_tl comp_def cong: map_cong)
      then show ?thesis using lx by metis
    qed
    then have ex: "exact x" using r(3) sq(1) by (simp add: exact_def lead_ok_def)
    have ex2: "exact t2" using exact_node [of "[x]" "[]" h] sx ex by (simp add: t2_def)
    have a2: "addrs t2 = bp_addr t1 # b # tl (addrs t1)" by (cases t1) (simp add: t2_def x_def)
    have a1: "addrs t1 = bp_addr t1 # tl (addrs t1)" by (cases t1) simp
    have pl2: "placed (addrs t2) H2"
    proof -
      have "bp_addr t1 \<notin> set (tl (addrs t1))" "distinct (tl (addrs t1))" "\<forall>a \<in> set (addrs t1). a < b"
        using pl a1 unfolding placed_def b_def by (metis distinct.simps(2))+
      then show ?thesis unfolding a2 placed_def H2(2)
        using a1 by (metis (no_types, lifting) distinct.simps(2) less_Suc_eq list.set_intros(1,2) order_less_irrefl set_ConsD)
    qed
    have l2: "leaf_addrs t2 = (if h = 0 then [b] else leaf_addrs t1)"
    proof (cases h)
      case 0
      then have "bp_subset t1 = []" using r(2) shape_0 by (metis bptree.sel(3))
      then show ?thesis using 0 by (simp add: t2_def x_def leaf_addrs_node)
    next
      case (Suc k)
      then have "bp_subset t1 \<noteq> []" using r(2) by (cases t1) auto
      then show ?thesis using Suc by (cases t1) (simp add: t2_def x_def leaf_addrs_node)
    qed
    have bn: "b \<notin> set (addrs t1)" using pl by (auto simp: placed_def b_def)
    have linked2: "linked (next_of H2) (leaf_addrs t2) None"
    proof (cases "h = 0")
      case True
      then show ?thesis by (simp add: l2 H2)
    next
      case False
      have "b \<notin> set (leaf_addrs t1)" using bn set_leaf_addrs by blast
      then have "linked (next_of H2) (leaf_addrs t1) None = linked (next_of H1) (leaf_addrs t1) None"
        by (intro linked_cong) (auto simp: H2)
      then show ?thesis using False gr(4) by (simp add: l2)
    qed
    have it2: "items t2 = items t1" by (simp add: t2_def items_node sq)
    obtain t3 H3 where f: "fix_excess 0 t2 H2 = Some (t3, H3)" "shape (Suc h) t3" "exact t3" "items t3 = items t2"
        "data_count t3 = 1" "grown t2 H2 t3 H3"
      using fix_excess_good [of t2 "bp_addr t1" "[]" "[]" "[]" x "[]" h H2] sx three ex2 inc it2 pl2
      by (auto simp: t2_def x_def data_count_def)
    have gr3: "next_addr H2 \<le> next_addr H3" "bp_addr t3 = bp_addr t1"
      "\<And>a. a \<notin> set (leaf_addrs t2) \<Longrightarrow> a < next_addr H2 \<Longrightarrow> next_of H3 a = next_of H2 a"
      "linked (next_of H3) (leaf_addrs t3) None"
      using f(6) linked2 by (auto simp: grown_def t2_def)
    have an: "bp_addr t1 < b" using pl a1 unfolding placed_def b_def by (metis list.set_intros(1))
    have root1: "next_of H1 (bp_addr t1) = None"
    proof (cases "h = 0")
      case True
      then have "leaf_addrs t1 = [bp_addr t1]" using shape_0 [of t1] r(2) by (metis leaf_addrs_leaf)
      then show ?thesis using gr(4) by simp
    next
      case False
      then show ?thesis using root gr(2) by simp
    qed
    have root3: "next_of H3 (bp_addr t3) = None"
    proof -
      have "bp_addr t2 \<notin> set (leaf_addrs t2)"
        using pl2 set_leaf_addrs [of x] by (auto simp: t2_def leaf_addrs_node placed_def)
      then have "next_of H3 (bp_addr t1) = next_of H2 (bp_addr t1)"
        using gr3(3) an by (simp add: t2_def H2(2))
      then show ?thesis using root1 an by (simp add: gr3(2) H2(1))
    qed
    have "tree_ok (Suc h) t3 H3"
      using f(2-5) inc it2 gr3(2,4) root3 grown_placed [OF f(6) pl2]
      by (intro tree_okI) (auto simp: good_def MAXIMUM_def MINIMUM_def)
    moreover have "bp_insert e t H = Some (True, t3, H3)"
      using r(1) True f(1) by (simp add: bp_insert_def new_tree_def t2_def x_def H2_def b_def)
    moreover have "next_addr H \<le> next_addr H3" using gr(1) gr3(1) by (simp add: H2(2) b_def)
    moreover have "next_of H3 a = next_of H a" if a: "a \<notin> set (addrs t)" "a < next_addr H" for a
    proof -
      have "a \<notin> set (addrs t1)" using sub a by auto
      moreover have "a < b" using a(2) gr(1) by (simp add: b_def)
      moreover have "set (addrs t2) = insert b (set (addrs t1))" unfolding a2 using a1 by (metis insert_commute list.simps(15))
      ultimately have "a \<notin> set (leaf_addrs t2)" "a < next_addr H2"
        using set_leaf_addrs [of t2] by (auto simp: H2(2))
      then have "next_of H3 a = next_of H2 a" using gr3(3) by simp
      then show ?thesis using outside [OF a] \<open>a < b\<close> by (simp add: H2(1))
    qed
    moreover have "set (addrs t3) \<subseteq> set (addrs t) \<union> {next_addr H..<next_addr H3}"
    proof -
      have "set (addrs t2) = insert b (set (addrs t1))" unfolding a2 using a1 by (metis insert_commute list.simps(15))
      then have "set (addrs t3) \<subseteq> insert b (set (addrs t1)) \<union> {Suc b..<next_addr H3}"
        using grown_set [OF f(6)] by (simp add: H2(2))
      moreover have "{Suc b..<next_addr H3} \<subseteq> {next_addr H..<next_addr H3}" "b \<in> {next_addr H..<next_addr H3}"
        "{next_addr H..<next_addr H1} \<subseteq> {next_addr H..<next_addr H3}"
        using gr(1) gr3(1) by (auto simp: H2(2) b_def)
      ultimately show ?thesis using sub by blast
    qed
    ultimately show ?thesis using f(4) it2 r(4) gr(2) gr3(2) by metis
  qed
qed

end
