(* ===== verification/Bplus_Erase.thy ===== *)
theory Bplus_Erase
  imports Bplus_Insert
begin

text \<open>
  Deletion from the in-memory B+ tree keeps the invariant and removes the item from the list of items.
  After a deletion in a child the separator of that child may be stale (it is the deleted key), and the
  child may be short of items. The repairs of \<open>fix_shortage\<close> move children and separators between
  neighbours; \<open>loose_erase\<close> then finds the stale separator, in the node or in the repaired child, and
  renews it. Every case is computed on explicit nodes.
\<close>

section \<open>The repairs on explicit nodes\<close>

lemma child_append [simp]:
  "child (A @ x # B) (length A) = Some x"
  "child (A @ x # y # B) (Suc (length A)) = Some y"
  by (simp_all add: child_def nth_append)

lemma update_append2 [simp]:
  "(A @ x # y # B)[Suc (length A) := z] = A @ x # z # B"
  by (simp add: list_update_append)

lemma update_at: "length d = n \<Longrightarrow> (d @ x # e)[n := y] = d @ y # e"
  by auto

lemma delete_append [simp]:
  "delete_item (A @ x # B) (length A) = (A @ B, x)"
  "delete_item (A @ x # y # B) (Suc (length A)) = (A @ x # B, y)"
  by (simp_all add: delete_item_def nth_append)

lemma delete_head [simp]: "delete_item (x # xs) 0 = (xs, x)"
  by (simp add: delete_item_def)

lemma insert_head_item [simp]: "insert_item xs 0 x = x # xs"
  by (simp add: insert_item_def)

lemma ordered_insert_nil [simp]: "ordered_insert [] x = [x]"
  by (simp add: ordered_insert_def)

lemma is_leaf_BNode [simp]: "is_leaf (BNode a d c) \<longleftrightarrow> c = []"
  by (simp add: is_leaf_def child_count_def)

lemma left_leaf:
  assumes "length d0 = length A"
  shows "transfer_from_left (Suc (length A))
      (BNode a (d0 @ z # d2) (A @ BNode al [p, q] [] # BNode as [] [] # B)) =
    Some (BNode a (d0 @ q # d2) (A @ BNode al [p] [] # BNode as [q] [] # B))"
  using assms by (simp add: transfer_from_left_def detach_item_def update_at)

lemma left_inner:
  assumes "length d0 = length A" and "\<forall>s \<in> set d0. fst s < fst q" and "\<forall>s \<in> set d2. fst q < fst s"
  shows "transfer_from_left (Suc (length A))
      (BNode a (d0 @ z # d2) (A @ BNode al [p, q] [g1, g2, g3] # BNode as [] [g] # B)) =
    Some (BNode a (d0 @ q # d2) (A @ BNode al [p] [g1, g2] # BNode as [z] [g3, g] # B))"
proof -
  have "ordered_insert (d0 @ d2) q = d0 @ q # d2" using assms by (intro ordered_insert_append) auto
  moreover have "delete_item (d0 @ z # d2) (length A) = (d0 @ d2, z)"
    using assms(1) delete_append(1) [of d0 z d2] by simp
  ultimately show ?thesis
    using assms(1) by (simp add: transfer_from_left_def detach_item_def Let_def)
qed

lemma right_leaf:
  assumes "length d1 = length A"
  shows "transfer_from_right (length A)
      (BNode a (d1 @ z # d3) (A @ BNode as [] [] # BNode ar [p, q] [] # B)) =
    Some (BNode a (d1 @ q # d3) (A @ BNode as [p] [] # BNode ar [q] [] # B))"
  using assms by (simp add: transfer_from_right_def attach_item_def update_at)

lemma right_inner:
  assumes "length d1 = length A" and "\<forall>s \<in> set d1. fst s < fst p" and "\<forall>s \<in> set d3. fst p < fst s"
  shows "transfer_from_right (length A)
      (BNode a (d1 @ z # d3) (A @ BNode as [] [g] # BNode ar [p, q] [h1, h2, h3] # B)) =
    Some (BNode a (d1 @ p # d3) (A @ BNode as [z] [g, h1] # BNode ar [q] [h2, h3] # B))"
proof -
  have "ordered_insert (d1 @ d3) p = d1 @ p # d3" using assms by (intro ordered_insert_append) auto
  moreover have "delete_item (d1 @ z # d3) (length A) = (d1 @ d3, z)"
    using assms(1) delete_append(1) [of d1 z d3] by simp
  ultimately show ?thesis
    using assms(1) by (simp add: transfer_from_right_def attach_item_def Let_def)
qed

lemma merge_leaf:
  assumes "length d1 = length A"
  shows "merge_with_next_subset (length A)
      (BNode a (d1 @ z # d3) (A @ BNode al dl [] # BNode ar dr [] # B)) H =
    Some (BNode a (d1 @ d3) (A @ BNode al (dl @ dr) [] # B), set_link al (next_of H ar) H)"
proof -
  have "delete_item (d1 @ z # d3) (length A) = (d1 @ d3, z)"
    using assms delete_append(1) [of d1 z d3] by simp
  then show ?thesis by (simp add: merge_with_next_subset_def merge_items_def)
qed

lemma merge_inner:
  assumes "length d1 = length A" and "cl \<noteq> []"
  shows "merge_with_next_subset (length A)
      (BNode a (d1 @ z # d3) (A @ BNode al dl cl # BNode ar dr cr # B)) H =
    Some (BNode a (d1 @ d3) (A @ BNode al (dl @ z # dr) (cl @ cr) # B), H)"
proof -
  have "delete_item (d1 @ z # d3) (length A) = (d1 @ d3, z)"
    using assms delete_append(1) [of d1 z d3] by simp
  then show ?thesis using assms(2) by (simp add: merge_with_next_subset_def merge_items_def attach_item_def)
qed

section \<open>What the repairs keep\<close>

lemma grown_same:
  assumes "bp_addr t' = bp_addr t" and "leaf_addrs t' = leaf_addrs t" and "mset (addrs t') \<subseteq># mset (addrs t)"
  shows "grown t H t' H"
  using assms by (simp add: grown_def)

lemma grown_merge_leaf:
  assumes "placed (addrs (BNode a d (A @ BNode al dl [] # BNode ar dr [] # B))) H"
  shows "grown (BNode a d (A @ BNode al dl [] # BNode ar dr [] # B)) H
    (BNode a d' (A @ BNode al (dl @ dr) [] # B)) (set_link al (next_of H ar) H)"
proof -
  let ?t = "BNode a d (A @ BNode al dl [] # BNode ar dr [] # B)"
  let ?t' = "BNode a d' (A @ BNode al (dl @ dr) [] # B)"
  let ?LA = "concat (map leaf_addrs A)" and ?LB = "concat (map leaf_addrs B)"
  have la: "leaf_addrs ?t = ?LA @ al # ar # ?LB" "leaf_addrs ?t' = ?LA @ al # ?LB"
    by (simp_all add: leaf_addrs_node)
  have "al \<notin> set ?LA" "al \<notin> set ?LB"
    using placed_node(2,3) [of a d A "BNode al dl []" "BNode ar dr [] # B" H] assms by auto
  then have frame: "linked ((next_of H)(al := v)) ?LA q = linked (next_of H) ?LA q"
    "linked ((next_of H)(al := v)) ?LB q = linked (next_of H) ?LB q" for q v
    by (auto intro!: linked_cong)
  have "al \<noteq> ar" using assms by (auto simp: placed_def)
  have "linked ((next_of H)(al := next_of H ar)) (leaf_addrs ?t') q" if "linked (next_of H) (leaf_addrs ?t) q" for q
    using that unfolding la by (simp add: linked_append frame split: list.splits)
  then show ?thesis
    by (auto simp: grown_def la set_link_def hd_append)
qed

section \<open>What is left after the deletion in a child\<close>

lemma items_lead_inner:
  assumes "shape h u" and "0 < data_count u \<or> 0 < h"
  shows "items u \<noteq> []" and "first_lead u = fst (hd (items u))"
proof -
  have "items u \<noteq> [] \<and> first_lead u = fst (hd (items u))"
  proof (cases h)
    case 0
    then show ?thesis using items_lead [OF assms(1)] assms(2) by simp
  next
    case (Suc g)
    obtain a d c where u: "u = BNode a d c" by (cases u)
    obtain x xs where c: "c = x # xs" using assms(1) Suc u by (cases c) auto
    have "shape g x" "kid_count x" using assms(1) Suc u c by auto
    then have "items x \<noteq> []" "first_lead x = fst (hd (items x))"
      using items_lead [OF _ kid_count_pos] by blast+
    moreover have "first_lead u = first_lead x" by (simp add: u c first_lead_def)
    moreover have "items u = items x @ concat (map items xs)" by (simp add: u c items_node)
    ultimately show ?thesis by simp
  qed
  then show "items u \<noteq> []" "first_lead u = fst (hd (items u))" by simp_all
qed

lemma get_small_items:
  assumes "shape h u" and "0 < data_count u \<or> 0 < h"
  shows "\<exists>y. get_small u = Some y \<and> fst y = first_lead u"
  using assms
proof (induction u arbitrary: h rule: get_small.induct)
  case (1 a d)
  then have "h = 0" by (cases h) auto
  then obtain y ys where "d = y # ys" using 1 by (cases d) (auto simp: data_count_def)
  then show ?case by (simp add: first_lead_def lead_def)
next
  case (2 a d t ts)
  then obtain g where "h = Suc g" by (cases h) auto
  then have "shape g t" "0 < data_count t" using 2 kid_count_pos by auto
  then have "\<exists>y. get_small t = Some y \<and> fst y = first_lead t" using 2 by blast
  then show ?case by (simp add: first_lead_def)
qed

lemma first_lead_cons [simp]: "first_lead (BNode a d (u # us)) = first_lead u"
  by (simp add: first_lead_def)

lemma first_lead_leaf [simp]: "first_lead (BNode a (y # d) []) = fst y"
  by (simp add: first_lead_def lead_def)

text \<open>The separators up to a child, and the exactness of a node around it.\<close>

definition leads_to :: "('k, 'v) bptree list \<Rightarrow> ('k, 'v) bptree \<Rightarrow> 'k list" where
  "leads_to A u = map first_lead (tl (A @ [u]))"

lemma leads_to_simps [simp]:
  "leads_to [] u = []"
  "leads_to (A @ [l]) u = leads_to A l @ [first_lead u]"
  by (simp add: leads_to_def) (cases A; simp add: leads_to_def)

lemma leads_to_cong: "first_lead u = first_lead v \<Longrightarrow> leads_to A u = leads_to A v"
  by (cases A) (simp_all add: leads_to_def)

lemma exact_node_at:
  assumes "length d1 = length A" and "length d2 = length B" and "\<forall>v \<in> set (A @ u # B). shape h v"
  shows "exact (BNode a (d1 @ d2) (A @ u # B)) \<longleftrightarrow>
    map fst d1 = leads_to A u \<and> map fst d2 = map first_lead B \<and> (\<forall>v \<in> set (A @ u # B). exact v)"
proof -
  have "tl (A @ u # B) = tl (A @ [u]) @ B" by (cases A) simp_all
  then have "map fst (d1 @ d2) = map first_lead (tl (A @ u # B)) \<longleftrightarrow>
      map fst d1 @ map fst d2 = leads_to A u @ map first_lead B"
    by (simp add: leads_to_def)
  also have "\<dots> \<longleftrightarrow> map fst d1 = leads_to A u \<and> map fst d2 = map first_lead B"
    using assms(1) by (intro append_eq_append_conv) (simp add: leads_to_def)
  finally show ?thesis using exact_node [of "A @ u # B" "d1 @ d2" h a] assms by simp
qed

lemma exact_two:
  "shape g u \<Longrightarrow> shape g v \<Longrightarrow> exact (BNode a [p] [u, v]) \<longleftrightarrow> fst p = first_lead v \<and> exact u \<and> exact v"
  using exact_node [of "[u, v]" "[p]" g a] by simp

lemma exact_three:
  "shape g u \<Longrightarrow> shape g v \<Longrightarrow> shape g w \<Longrightarrow>
    exact (BNode a [p, q] [u, v, w]) \<longleftrightarrow>
      fst p = first_lead v \<and> fst q = first_lead w \<and> exact u \<and> exact v \<and> exact w"
  using exact_node [of "[u, v, w]" "[p, q]" g a] by simp

lemma exact_one: "shape g u \<Longrightarrow> exact (BNode a [] [u]) \<longleftrightarrow> exact u"
  using exact_node [of "[u]" "[]" g a] by simp

lemma node_cases:
  assumes "shape h u"
  shows "data_count u = 0 \<Longrightarrow> (\<exists>a. h = 0 \<and> u = BNode a [] []) \<or>
      (\<exists>a g k. h = Suc k \<and> u = BNode a [] [g] \<and> shape k g \<and> kid_count g)"
    and "data_count u = 1 \<Longrightarrow> (\<exists>a p. h = 0 \<and> u = BNode a [p] []) \<or>
      (\<exists>a p g1 g2 k. h = Suc k \<and> u = BNode a [p] [g1, g2] \<and> shape k g1 \<and> kid_count g1 \<and> shape k g2 \<and> kid_count g2)"
    and "data_count u = 2 \<Longrightarrow> (\<exists>a p q. h = 0 \<and> u = BNode a [p, q] []) \<or>
      (\<exists>a p q g1 g2 g3 k. h = Suc k \<and> u = BNode a [p, q] [g1, g2, g3] \<and> shape k g1 \<and> kid_count g1 \<and>
        shape k g2 \<and> kid_count g2 \<and> shape k g3 \<and> kid_count g3)"
proof -
  obtain a d c where u: "u = BNode a d c" by (cases u)
  have c: "h = 0 \<and> c = [] \<or> (\<exists>k. h = Suc k \<and> length c = Suc (length d) \<and> (\<forall>v \<in> set c. shape k v \<and> kid_count v))"
    using assms u by (cases h) auto
  show "(\<exists>a. h = 0 \<and> u = BNode a [] []) \<or> (\<exists>a g k. h = Suc k \<and> u = BNode a [] [g] \<and> shape k g \<and> kid_count g)"
    if "data_count u = 0"
    using c that u by (auto simp: data_count_def length_Suc_conv)
  show "(\<exists>a p. h = 0 \<and> u = BNode a [p] []) \<or>
      (\<exists>a p g1 g2 k. h = Suc k \<and> u = BNode a [p] [g1, g2] \<and> shape k g1 \<and> kid_count g1 \<and> shape k g2 \<and> kid_count g2)"
    if "data_count u = 1"
    using c that u by (fastforce simp: data_count_def length_Suc_conv)
  show "(\<exists>a p q. h = 0 \<and> u = BNode a [p, q] []) \<or>
      (\<exists>a p q g1 g2 g3 k. h = Suc k \<and> u = BNode a [p, q] [g1, g2, g3] \<and> shape k g1 \<and> kid_count g1 \<and>
        shape k g2 \<and> kid_count g2 \<and> shape k g3 \<and> kid_count g3)"
    if "data_count u = 2"
    using c that u by (fastforce simp: data_count_def length_Suc_conv numeral_2_eq_2)
qed

text \<open>What a repair of a node must achieve.\<close>

definition repaired :: "nat \<Rightarrow> ('k :: linorder, 'v) bptree \<Rightarrow> bheap \<Rightarrow> ('k, 'v) bptree \<Rightarrow> bheap \<Rightarrow> bool" where
  "repaired h t H t' H' \<longleftrightarrow> shape (Suc h) t' \<and> exact t' \<and> items t' = items t \<and>
     data_count t' \<le> data_count t \<and> data_count t \<le> Suc (data_count t') \<and> grown t H t' H'"

text \<open>The node under repair: child \<open>s\<close> has no item left; the separators are right but for the one before \<open>s\<close>.\<close>

definition short_at :: "nat \<Rightarrow> nat \<Rightarrow> ('k :: linorder, 'v) item list \<Rightarrow> ('k, 'v) item list \<Rightarrow> ('k, 'v) bptree list \<Rightarrow>
    ('k, 'v) bptree \<Rightarrow> ('k, 'v) bptree list \<Rightarrow> bheap \<Rightarrow> bool" where
  "short_at h a d1 d2 A s B H \<longleftrightarrow>
     length d1 = length A \<and> length d2 = length B \<and> (A \<noteq> [] \<or> B \<noteq> []) \<and>
     (\<forall>u \<in> set A \<union> set B. shape h u \<and> kid_count u) \<and> shape h s \<and> data_count s = 0 \<and>
     (\<forall>u \<in> set (A @ s # B). exact u) \<and>
     (A \<noteq> [] \<longrightarrow> map fst (butlast d1) = leads_to (butlast A) (List.last A)) \<and>
     map fst d2 = map first_lead B \<and>
     increasing (concat (map items (A @ s # B))) \<and>
     (\<forall>y \<in> set (concat (map items A)). \<forall>z \<in> set (drop (length A - 1) d1). fst y < fst z) \<and>
     (\<forall>y \<in> set (concat (map items B)). \<forall>z \<in> set d1. fst z < fst y) \<and>
     placed (addrs (BNode a (d1 @ d2) (A @ s # B))) H"

section \<open>Locating the stale separator\<close>

lemma locate_absent:
  "\<forall>s \<in> set d1. fst s < fst e \<Longrightarrow> \<forall>s \<in> set d2. fst e < fst s \<Longrightarrow> locate (d1 @ d2) e = (length d1, False)"
proof -
  assume *: "\<forall>s \<in> set d1. fst s < fst e" "\<forall>s \<in> set d2. fst e < fst s"
  then have "first_ge (d1 @ d2) e = length d1" by (intro first_ge_append) auto
  then show ?thesis using *(2) by (cases d2) (simp_all add: locate_def Let_def item_less_def)
qed

lemma locate_present:
  assumes "\<forall>s \<in> set d1. fst s < fst e" and "fst z = fst e"
  shows "locate (d1 @ z # d2) e = (length d1, True)"
proof -
  have "first_ge (d1 @ z # d2) e = length d1"
    using assms by (induction d1) (simp_all add: item_less_def)
  then show ?thesis using assms(2) by (simp add: locate_def Let_def item_less_def)
qed

lemma leads_in_items:
  assumes "map fst d = map first_lead B" and "\<forall>u \<in> set B. shape h u \<and> 0 < data_count u"
  shows "fst ` set d \<subseteq> fst ` set (concat (map items B))"
proof
  fix k assume "k \<in> fst ` set d"
  then have "k \<in> set (map first_lead B)" using assms(1) by (metis list.set_map)
  then obtain u where u: "u \<in> set B" "k = first_lead u" by auto
  then have "items u \<noteq> []" "k = fst (hd (items u))" using items_lead [of h u] assms(2) by auto
  then show "k \<in> fst ` set (concat (map items B))" using u(1) by (auto intro!: image_eqI [of _ _ "hd (items u)"] bexI [of _ u])
qed

text \<open>The facts about the left and the right neighbour of a short child.\<close>

lemma short_left:
  assumes "short_at h a d1 d2 (A @ [l]) s B H"
  obtains d0 z where "d1 = d0 @ [z]" and "length d0 = length A" and "length d2 = length B"
    and "map fst d0 = leads_to A l" and "map fst d2 = map first_lead B"
    and "shape h l" and "kid_count l" and "exact l" and "exact s"
    and "\<forall>t \<in> set d0. \<forall>y \<in> set (items l). fst t \<le> fst y"
    and "\<forall>t \<in> set d2. \<forall>y \<in> set (items l) \<union> set (items s). fst y < fst t"
    and "\<forall>t \<in> set d0. fst t < fst z" and "\<forall>t \<in> set d2. fst z < fst t"
    and "\<forall>y \<in> set (items l). fst y < fst z"
    and "increasing (items l)" and "\<forall>u \<in> set A \<union> set B. shape h u \<and> kid_count u \<and> exact u"
proof -
  have s: "length d1 = Suc (length A)" "length d2 = length B"
    "\<forall>u \<in> set A \<union> {l} \<union> set B. shape h u \<and> kid_count u \<and> exact u" "exact s"
    "map fst (butlast d1) = leads_to A l" "map fst d2 = map first_lead B"
    "increasing (concat (map items (A @ [l])))" "increasing (items l)"
    "\<forall>y \<in> set (concat (map items (A @ [l]))). \<forall>z \<in> set (drop (length A) d1). fst y < fst z"
    "\<forall>y \<in> set (concat (map items B)). \<forall>z \<in> set d1. fst z < fst y"
    using assms by (auto simp: short_at_def increasing_append)
  have "increasing (concat (map items A) @ items l @ items s @ concat (map items B))"
    using assms by (simp add: short_at_def)
  then have right: "\<forall>y \<in> set (items l) \<union> set (items s). \<forall>w \<in> set (concat (map items B)). fst y < fst w"
    by (simp only: increasing_append set_append) blast
  obtain d0 z where d1: "d1 = d0 @ [z]" "length d0 = length A"
    using s(1) by (cases d1 rule: rev_cases) auto
  have pos: "\<forall>u \<in> set (A @ [l]). shape h u \<and> 0 < data_count u" "\<forall>u \<in> set B. shape h u \<and> 0 < data_count u"
    using s(3) kid_count_pos by auto
  have leads: "map fst d0 = leads_to A l" using s(5) d1 by simp
  have zA: "\<forall>y \<in> set (concat (map items (A @ [l]))). fst y < fst z" using s(9) d1 by simp
  have d2in: "fst ` set d2 \<subseteq> fst ` set (concat (map items B))" by (rule leads_in_items [OF s(6) pos(2)])
  have le: "\<forall>t \<in> set d0. \<forall>y \<in> set (items l). fst t \<le> fst y"
    using separator_bounds(2) [of d0 "[]" A l "[]" h] leads d1(2) pos(1) s(7) by (simp add: leads_to_def)
  have "items l \<noteq> []" using items_lead(1) pos(1) by auto
  then obtain y where y: "y \<in> set (items l)" by (cases "items l") auto
  show ?thesis
  proof (rule that [OF d1 s(2) leads s(6)])
    show lz: "\<forall>y \<in> set (items l). fst y < fst z" using zA by simp
    show "\<forall>t \<in> set d0. fst t < fst z"
      using le y lz by (meson order_le_less_trans)
    have "\<forall>k \<in> fst ` set (concat (map items B)). fst z < k"
      using s(10) d1 by (simp del: set_concat)
    then show "\<forall>t \<in> set d2. fst z < fst t" using d2in by (meson image_eqI subsetD)
    have "\<forall>k \<in> fst ` set (concat (map items B)). \<forall>y \<in> set (items l) \<union> set (items s). fst y < k"
      using right by (simp del: set_concat)
    then show "\<forall>t \<in> set d2. \<forall>y \<in> set (items l) \<union> set (items s). fst y < fst t"
      using d2in by (meson image_eqI subsetD)
  qed (use s le in auto)
qed

lemma short_right:
  assumes "short_at h a d1 d2 A s (r # B) H"
  obtains z d3 where "d2 = z # d3" and "length d1 = length A" and "length d3 = length B"
    and "fst z = first_lead r" and "map fst d3 = map first_lead B"
    and "shape h r" and "kid_count r" and "exact r" and "exact s"
    and "\<forall>t \<in> set d1. \<forall>y \<in> set (items r). fst t < fst y"
    and "\<forall>t \<in> set d3. \<forall>y \<in> set (items r). fst y < fst t"
    and "increasing (items r)" and "\<forall>u \<in> set A \<union> set B. shape h u \<and> kid_count u \<and> exact u"
proof -
  have s: "length d1 = length A" "length d2 = Suc (length B)"
    "\<forall>u \<in> set A \<union> {r} \<union> set B. shape h u \<and> kid_count u \<and> exact u" "exact s"
    "map fst d2 = first_lead r # map first_lead B" "increasing (items r)"
    "\<forall>y \<in> set (items r). \<forall>z \<in> set d1. fst z < fst y"
    using assms by (auto simp: short_at_def increasing_append)
  obtain z d3 where d2: "d2 = z # d3" "length d3 = length B" using s(2) by (cases d2) auto
  have "increasing (items r @ concat (map items B))"
    using assms by (simp add: short_at_def increasing_append)
  then have right: "\<forall>k \<in> fst ` set (concat (map items B)). \<forall>y \<in> set (items r). fst y < k"
    by (simp only: increasing_append) blast
  have "\<forall>u \<in> set B. shape h u \<and> 0 < data_count u" using s(3) kid_count_pos by auto
  then have d3in: "fst ` set d3 \<subseteq> fst ` set (concat (map items B))"
    using s(5) d2 by (intro leads_in_items) auto
  show ?thesis
  proof (rule that [OF d2(1) s(1) d2(2)])
    show "\<forall>t \<in> set d3. \<forall>y \<in> set (items r). fst y < fst t" using d3in right by (meson image_eqI subsetD)
  qed (use s d2 in auto)
qed

section \<open>Repairs after a deletion that left a stale separator\<close>

lemmas repair_simps = data_count_def child_count_def MINIMUM_def MAXIMUM_def kid_count_iff

lemma renew_at:
  assumes "length d1 = length A" and "get_small u = Some y"
  shows "renew_separator (length A) (BNode a (d1 @ z # d2) (A @ l # u # B)) = Some (BNode a (d1 @ y # d2) (A @ l # u # B))"
  using assms by (simp add: renew_separator_def update_at)

lemma found_left:
  assumes sa: "short_at h a d1 d2 (A @ [l]) s B H" and two: "data_count l = 2"
    and e: "fst (List.last d1) = fst e"
  shows "\<exists>t'. after_erase_found e (length A) (BNode a (d1 @ d2) ((A @ [l]) @ s # B)) H = Some (t', H) \<and>
    repaired h (BNode a (d1 @ d2) ((A @ [l]) @ s # B)) H t' H"
proof -
  obtain d0 z where d1: "d1 = d0 @ [z]" and len: "length d0 = length A" "length d2 = length B"
    and leads: "map fst d0 = leads_to A l" "map fst d2 = map first_lead B"
    and l: "shape h l" "kid_count l" "exact l" and exs: "exact s"
    and ord: "\<forall>t \<in> set d0. \<forall>y \<in> set (items l). fst t \<le> fst y"
      "\<forall>t \<in> set d2. \<forall>y \<in> set (items l) \<union> set (items s). fst y < fst t"
      "\<forall>t \<in> set d0. fst t < fst z" "\<forall>t \<in> set d2. fst z < fst t"
      "\<forall>y \<in> set (items l). fst y < fst z"
    and incl: "increasing (items l)" and kids: "\<forall>u \<in> set A \<union> set B. shape h u \<and> kid_count u \<and> exact u"
    by (rule short_left [OF sa])
  have s: "shape h s" "data_count s = 0" using sa by (simp_all add: short_at_def)
  have z: "fst z = fst e" using e d1 by simp
  let ?t = "BNode a (d0 @ z # d2) (A @ l # s # B)"
  have t: "BNode a (d1 @ d2) ((A @ [l]) @ s # B) = ?t" by (simp add: d1)
  consider (leaf) al as p q where "h = 0" "l = BNode al [p, q] []" "s = BNode as [] []"
    | (inner) al as p q g1 g2 g3 g k where "h = Suc k" "l = BNode al [p, q] [g1, g2, g3]" "s = BNode as [] [g]"
        "shape k g1" "kid_count g1" "shape k g2" "kid_count g2" "shape k g3" "kid_count g3" "shape k g" "kid_count g"
    using node_cases(3) [OF l(1) two] node_cases(1) [OF s] by auto
  then show ?thesis
  proof cases
    case leaf
    let ?t' = "BNode a (d0 @ q # d2) (A @ BNode al [p] [] # BNode as [q] [] # B)"
    have q: "fst q < fst e" "\<forall>t \<in> set d0. fst t < fst e" "\<forall>t \<in> set d2. fst e < fst t" "fst p < fst q"
      using ord z leaf incl by auto
    have fs: "fix_shortage (Suc (length A)) ?t H = Some (Suc (length A), ?t', H)"
      using len leaf by (simp add: fix_shortage_def nth_append repair_simps left_leaf)
    have l1: "locate (d0 @ q # d2) e = (Suc (length A), False)"
      using locate_absent [of "d0 @ [q]" e d2] q len by auto
    have l2: "locate [q] e = (1, False)" using locate_absent [of "[q]" e "[]"] q by simp
    have "after_erase_found e (length A) ?t H = Some (?t', H)"
      using fs l1 l2 len leaf renew_at [of d0 A "BNode as [q] []" q a q d2 "BNode al [p] []" B]
      by (simp add: after_erase_found_def repair_simps)
    moreover have "repaired h ?t H ?t' H"
      unfolding repaired_def
    proof (intro conjI)
      show "exact ?t'"
        using exact_node_at [of d0 A "q # d2" "BNode as [q] [] # B" "BNode al [p] []" 0 a] len leads kids leaf
          leads_to_cong [of "BNode al [p] []" l A] by auto
      show "grown ?t H ?t' H" by (rule grown_same) (simp_all add: leaf_addrs_node leaf)
    qed (use kids len leaf in \<open>auto simp: items_node repair_simps\<close>)
    ultimately show ?thesis unfolding t by blast
  next
    case inner
    obtain y where y: "get_small g = Some y" "fst y = first_lead g"
      using get_small_items [of k g] inner kid_count_pos by blast
    let ?l' = "BNode al [p] [g1, g2]" and ?s' = "BNode as [y] [g3, g]"
    let ?t1 = "BNode a (d0 @ q # d2) (A @ ?l' # BNode as [z] [g3, g] # B)"
    let ?t' = "BNode a (d0 @ q # d2) (A @ ?l' # ?s' # B)"
    have lx: "fst p = first_lead g2" "fst q = first_lead g3" "exact g1" "exact g2" "exact g3" "exact g"
      using l(3) exs inner exact_three [of k g1 g2 g3 al p q] exact_one [of k g as] by auto
    have i1: "items g1 \<noteq> []" and i3: "items g3 \<noteq> []" "fst q = fst (hd (items g3))"
      using items_lead [OF inner(4) kid_count_pos [OF inner(5)]] items_lead [OF inner(8) kid_count_pos [OF inner(9)]] lx
      by simp_all
    have il: "items l = items g1 @ items g2 @ items g3" by (simp add: inner(2) items_node)
    have hd3: "hd (items g3) \<in> set (items l)" using i3(1) by (simp add: il)
    have hd1: "hd (items g1) \<in> set (items l)" "fst (hd (items g1)) < fst q"
      using i1 i3 incl by (auto simp: il increasing_append)
    have q: "fst q < fst e" "\<forall>t \<in> set d0. fst t < fst q" "\<forall>t \<in> set d2. fst q < fst t" "\<forall>t \<in> set d2. fst e < fst t"
      using ord(5) hd3 i3(2) z apply simp
      using ord(1) hd1 apply (meson order_le_less_trans)
      using ord(2) hd3 i3(2) apply simp
      using ord(4) z by simp
    have fs: "fix_shortage (Suc (length A)) ?t H = Some (Suc (length A), ?t1, H)"
      using len inner q(2,3) by (simp add: fix_shortage_def nth_append repair_simps left_inner)
    have l1: "locate (d0 @ q # d2) e = (Suc (length A), False)"
      using locate_absent [of "d0 @ [q]" e d2] q len by fastforce
    have l2: "locate [z] e = (0, True)" using locate_present [of "[]" e z "[]"] z by simp
    have "renew_separator 0 (BNode as [z] [g3, g]) = Some ?s'"
      using renew_at [of "[]" "[]" g y as z "[]" g3 "[]"] y by simp
    then have "after_erase_found e (length A) ?t H = Some (?t', H)"
      using fs l1 l2 len inner
      by (simp add: after_erase_found_def repair_simps below_pred_def)
    moreover have "repaired h ?t H ?t' H"
      unfolding repaired_def
    proof (intro conjI)
      have "exact ?l'" "exact ?s'" using inner lx y exact_two by blast+
      then show "exact ?t'"
        using exact_node_at [of d0 A "q # d2" "?s' # B" ?l' h a] len leads kids inner lx
          leads_to_cong [of ?l' l A] by (auto simp: repair_simps)
      show "grown ?t H ?t' H" by (rule grown_same) (simp_all add: leaf_addrs_node inner)
    qed (use kids len inner in \<open>auto simp: items_node repair_simps\<close>)
    ultimately show ?thesis unfolding t by blast
  qed
qed

lemma found_right:
  assumes sa: "short_at h a d1 d2 (A @ [l]) s (r # B) H" and one: "data_count l = 1" and two: "data_count r = 2"
    and e: "fst (List.last d1) = fst e"
  shows "\<exists>t'. after_erase_found e (length A) (BNode a (d1 @ d2) ((A @ [l]) @ s # r # B)) H = Some (t', H) \<and>
    repaired h (BNode a (d1 @ d2) ((A @ [l]) @ s # r # B)) H t' H"
proof -
  obtain d0 z where d1: "d1 = d0 @ [z]" and len: "length d0 = length A"
    and leads: "map fst d0 = leads_to A l" and l: "shape h l" "kid_count l" "exact l" and exs: "exact s"
    and ord: "\<forall>t \<in> set d0. fst t < fst z" "\<forall>t \<in> set d2. fst z < fst t"
    and kids: "\<forall>u \<in> set A \<union> set (r # B). shape h u \<and> kid_count u \<and> exact u"
    by (rule short_left [OF sa])
  obtain z2 d3 where d2: "d2 = z2 # d3" and len3: "length d3 = length B"
    and leads3: "fst z2 = first_lead r" "map fst d3 = map first_lead B"
    and r: "shape h r" "kid_count r" "exact r"
    and ordr: "\<forall>t \<in> set d1. \<forall>y \<in> set (items r). fst t < fst y" "\<forall>t \<in> set d3. \<forall>y \<in> set (items r). fst y < fst t"
    and incr: "increasing (items r)"
    by (rule short_right [OF sa])
  have s: "shape h s" "data_count s = 0" using sa by (simp_all add: short_at_def)
  have z: "fst z = fst e" using e d1 by simp
  have lt: "\<forall>t \<in> set d0. fst t < fst e" using ord z by simp
  let ?t = "BNode a ((d0 @ [z]) @ z2 # d3) ((A @ [l]) @ s # r # B)"
  have t: "BNode a (d1 @ d2) ((A @ [l]) @ s # r # B) = ?t" by (simp add: d1 d2)
  consider (leaf) as ar p q where "h = 0" "r = BNode ar [p, q] []" "s = BNode as [] []"
    | (inner) as ar p q g h1 h2 h3 k where "h = Suc k" "r = BNode ar [p, q] [h1, h2, h3]" "s = BNode as [] [g]"
        "shape k h1" "kid_count h1" "shape k h2" "kid_count h2" "shape k h3" "kid_count h3" "shape k g" "kid_count g"
    using node_cases(3) [OF r(1) two] node_cases(1) [OF s] by auto
  then show ?thesis
  proof cases
    case leaf
    let ?t1 = "BNode a (d0 @ z # q # d3) (A @ l # BNode as [p] [] # BNode ar [q] [] # B)"
    let ?t' = "BNode a (d0 @ p # q # d3) (A @ l # BNode as [p] [] # BNode ar [q] [] # B)"
    have fs: "fix_shortage (Suc (length A)) ?t H = Some (Suc (length A), ?t1, H)"
      using len leaf one right_leaf [of "d0 @ [z]" "A @ [l]" a z2 d3 as ar p q B]
      by (simp add: fix_shortage_def nth_append repair_simps)
    have l1: "locate (d0 @ z # q # d3) e = (length A, True)"
      using locate_present [OF lt z] len by simp
    have "after_erase_found e (length A) ?t H = Some (?t', H)"
      using fs l1 len leaf renew_at [of d0 A "BNode as [p] []" p a z "q # d3" l "BNode ar [q] [] # B"]
      by (simp add: after_erase_found_def repair_simps below_pred_def)
    moreover have "repaired h ?t H ?t' H"
      unfolding repaired_def
    proof (intro conjI)
      show "exact ?t'"
        using exact_node_at [of d0 A "p # q # d3" "BNode as [p] [] # BNode ar [q] [] # B" l 0 a] len len3 leads leads3
          kids leaf l by auto
      show "grown ?t H ?t' H" by (rule grown_same) (simp_all add: leaf_addrs_node leaf)
    qed (use kids len len3 leaf l in \<open>auto simp: items_node repair_simps\<close>)
    ultimately show ?thesis unfolding t by blast
  next
    case inner
    obtain y where y: "get_small g = Some y" "fst y = first_lead g"
      using get_small_items [of k g] inner kid_count_pos by blast
    let ?s1 = "BNode as [z2] [g, h1]" and ?r1 = "BNode ar [q] [h2, h3]"
    let ?t1 = "BNode a (d0 @ z # p # d3) (A @ l # ?s1 # ?r1 # B)"
    let ?t' = "BNode a (d0 @ y # p # d3) (A @ l # ?s1 # ?r1 # B)"
    have lx: "fst p = first_lead h2" "fst q = first_lead h3" "exact h1" "exact h2" "exact h3" "exact g"
      "fst z2 = first_lead h1"
      using r(3) exs leads3(1) inner exact_three [of k h1 h2 h3 ar p q] exact_one [of k g as] by auto
    have i2: "items h2 \<noteq> []" "fst p = fst (hd (items h2))"
      using items_lead [OF inner(6) kid_count_pos [OF inner(7)]] lx by simp_all
    have "hd (items h2) \<in> set (items r)" using i2(1) by (simp add: inner(2) items_node)
    then have q: "\<forall>t \<in> set (d0 @ [z]). fst t < fst p" "\<forall>t \<in> set d3. fst p < fst t"
      using ordr i2(2) d1 by auto
    have fs: "fix_shortage (Suc (length A)) ?t H = Some (Suc (length A), ?t1, H)"
      using len inner one right_inner [of "d0 @ [z]" "A @ [l]" p d3 a z2 as g ar q h1 h2 h3 B, OF _ q]
      by (simp add: fix_shortage_def nth_append repair_simps)
    have l1: "locate (d0 @ z # p # d3) e = (length A, True)"
      using locate_present [OF lt z] len by simp
    have "after_erase_found e (length A) ?t H = Some (?t', H)"
      using fs l1 len inner y renew_at [of d0 A ?s1 y a z "p # d3" l "?r1 # B"]
      by (simp add: after_erase_found_def repair_simps below_pred_def)
    moreover have "repaired h ?t H ?t' H"
      unfolding repaired_def
    proof (intro conjI)
      have "exact ?s1" "exact ?r1" using inner lx exact_two by blast+
      then show "exact ?t'"
        using exact_node_at [of d0 A "y # p # d3" "?s1 # ?r1 # B" l h a] len len3 leads leads3 kids inner lx l y
        by (auto simp: repair_simps)
      show "grown ?t H ?t' H" by (rule grown_same) (simp_all add: leaf_addrs_node inner)
    qed (use kids len len3 inner l in \<open>auto simp: items_node repair_simps\<close>)
    ultimately show ?thesis unfolding t by blast
  qed
qed

text \<open>Both siblings, where there are two, have one item: the child is merged into its left sibling.\<close>

lemma found_merge:
  assumes sa: "short_at h a d1 d2 (A @ [l]) s B H" and one: "data_count l = 1"
    and right: "B = [] \<or> data_count (hd B) = 1" and e: "fst (List.last d1) = fst e"
  shows "\<exists>t' H'. after_erase_found e (length A) (BNode a (d1 @ d2) ((A @ [l]) @ s # B)) H = Some (t', H') \<and>
    repaired h (BNode a (d1 @ d2) ((A @ [l]) @ s # B)) H t' H'"
proof -
  obtain d0 z where d1: "d1 = d0 @ [z]" and len: "length d0 = length A" "length d2 = length B"
    and leads: "map fst d0 = leads_to A l" "map fst d2 = map first_lead B"
    and l: "shape h l" "kid_count l" "exact l" and exs: "exact s"
    and ord: "\<forall>t \<in> set d0. \<forall>y \<in> set (items l). fst t \<le> fst y"
      "\<forall>t \<in> set d2. \<forall>y \<in> set (items l) \<union> set (items s). fst y < fst t"
      "\<forall>t \<in> set d0. fst t < fst z" "\<forall>t \<in> set d2. fst z < fst t"
      "\<forall>y \<in> set (items l). fst y < fst z"
    and incl: "increasing (items l)" and kids: "\<forall>u \<in> set A \<union> set B. shape h u \<and> kid_count u \<and> exact u"
    by (rule short_left [OF sa])
  have s: "shape h s" "data_count s = 0" and pl: "placed (addrs (BNode a (d1 @ d2) ((A @ [l]) @ s # B))) H"
    using sa by (simp_all add: short_at_def)
  have z: "fst z = fst e" using e d1 by simp
  have lt: "\<forall>t \<in> set d0. fst t < fst e" "\<forall>t \<in> set d2. fst e < fst t" using ord z by auto
  have absent: "locate (d0 @ d2) e = (length A, False)" using locate_absent [OF lt] len by simp
  let ?t = "BNode a (d0 @ z # d2) (A @ l # s # B)"
  have t: "BNode a (d1 @ d2) ((A @ [l]) @ s # B) = ?t" by (simp add: d1)
  consider (leaf) al as p where "h = 0" "l = BNode al [p] []" "s = BNode as [] []"
    | (inner) al as p g1 g2 g k where "h = Suc k" "l = BNode al [p] [g1, g2]" "s = BNode as [] [g]"
        "shape k g1" "kid_count g1" "shape k g2" "kid_count g2" "shape k g" "kid_count g"
    using node_cases(2) [OF l(1) one] node_cases(1) [OF s] by auto
  then show ?thesis
  proof cases
    case leaf
    let ?H = "set_link al (next_of H as) H" and ?l = "BNode al [p] []"
    let ?t1 = "BNode a (d0 @ d2) (A @ ?l # B)"
    have fs: "fix_shortage (Suc (length A)) ?t H = Some (length A, ?t1, ?H)"
      using len leaf right merge_leaf [of d0 A a z d2 al "[p]" as "[]" B H]
      by (cases B) (auto simp: fix_shortage_def nth_append repair_simps)
    have pe: "fst p < fst e" using ord(5) z leaf by simp
    have l2: "locate [p] e = (1, False)" using locate_absent [of "[p]" e "[]"] pe by simp
    have gr: "grown ?t H (BNode a d' (A @ ?l # B)) ?H" for d'
      using grown_merge_leaf [of a "d0 @ z # d2" A al "[p]" as "[]" B H d'] pl leaf d1 by simp
    show ?thesis
    proof (cases B)
      case Nil
      then have "after_erase_found e (length A) ?t H = Some (?t1, ?H)"
        using fs absent l2 len leaf by (simp add: after_erase_found_def repair_simps)
      moreover have "repaired h ?t H ?t1 ?H"
        unfolding repaired_def
      proof (intro conjI)
        show "exact ?t1" using exact_node_at [of d0 A d2 B ?l 0 a] len leads kids leaf by auto
        show "grown ?t H ?t1 ?H" by (rule gr)
      qed (use kids len leaf in \<open>auto simp: items_node repair_simps\<close>)
      ultimately show ?thesis unfolding t by blast
    next
      case (Cons v B')
      then obtain w d3 where d2: "d2 = w # d3" using len(2) by (cases d2) auto
      have v: "shape h v" "kid_count v" "exact v" using kids Cons by auto
      obtain y where y: "get_small v = Some y" "fst y = first_lead v"
        using get_small_items [OF v(1)] kid_count_pos [OF v(2)] by blast
      let ?t' = "BNode a (d0 @ y # d3) (A @ ?l # v # B')"
      have "after_erase_found e (length A) ?t H = Some (?t', ?H)"
        using fs absent l2 len leaf Cons d2 v(2) renew_at [of d0 A v y a w d3 ?l B'] y
        by (simp add: after_erase_found_def kid_count_def data_count_def MINIMUM_def child_count_def)
      moreover have "repaired h ?t H ?t' ?H"
        unfolding repaired_def
      proof (intro conjI)
        show "exact ?t'"
          using exact_node_at [of d0 A "y # d3" B ?l 0 a] len leads kids leaf Cons d2 y v by auto
        show "grown ?t H ?t' ?H" using gr Cons by simp
      qed (use kids len leaf Cons d2 in \<open>auto simp: items_node repair_simps\<close>)
      ultimately show ?thesis unfolding t by blast
    qed
  next
    case inner
    obtain y where y: "get_small g = Some y" "fst y = first_lead g"
      using get_small_items [of k g] inner kid_count_pos by blast
    let ?l1 = "BNode al [p, z] [g1, g2, g]" and ?l' = "BNode al [p, y] [g1, g2, g]"
    let ?t1 = "BNode a (d0 @ d2) (A @ ?l1 # B)" and ?t' = "BNode a (d0 @ d2) (A @ ?l' # B)"
    have lx: "fst p = first_lead g2" "exact g1" "exact g2" "exact g"
      using l(3) exs inner exact_two [of k g1 g2 al p] exact_one [of k g as] by auto
    have i2: "items g2 \<noteq> []" "fst p = fst (hd (items g2))"
      using items_lead [OF inner(6) kid_count_pos [OF inner(7)]] lx by simp_all
    have "hd (items g2) \<in> set (items l)" using i2(1) by (simp add: inner(2) items_node)
    then have pe: "fst p < fst e" using ord(5) i2(2) z by simp
    have fs: "fix_shortage (Suc (length A)) ?t H = Some (length A, ?t1, H)"
      using len inner right merge_inner [of d0 A "[g1, g2]" a z d2 al "[p]" as "[]" "[g]" B H]
      by (cases B) (auto simp: fix_shortage_def nth_append repair_simps)
    have l2: "locate [p, z] e = (1, True)" using locate_present [of "[p]" e z "[]"] pe z by simp
    have "renew_separator 1 ?l1 = Some ?l'"
      using renew_at [of "[p]" "[g1]" g y al z "[]" g2 "[]"] y by simp
    then have "after_erase_found e (length A) ?t H = Some (?t', H)"
      using fs absent l2 len inner by (simp add: after_erase_found_def repair_simps below_pred_def)
    moreover have "repaired h ?t H ?t' H"
      unfolding repaired_def
    proof (intro conjI)
      have "exact ?l'" using inner lx y exact_three by blast
      then show "exact ?t'"
        using exact_node_at [of d0 A d2 B ?l' h a] len leads kids inner lx leads_to_cong [of ?l' l A]
        by (auto simp: repair_simps)
      show "grown ?t H ?t' H" by (rule grown_same) (simp_all add: leaf_addrs_node inner)
    qed (use kids len inner in \<open>auto simp: items_node repair_simps\<close>)
    ultimately show ?thesis unfolding t by blast
  qed
qed

section \<open>Repairs where every separator is right\<close>

text \<open>The same repairs after a deletion that did not concern a separator of the node. An empty leaf is then the
  first child.\<close>

lemma shift_left:
  assumes sa: "short_at h a d1 d2 (A @ [l]) s B H" and two: "data_count l = 2" and h: "0 < h"
    and ex: "map fst d1 = leads_to (A @ [l]) s"
  shows "\<exists>t'. fix_shortage (Suc (length A)) (BNode a (d1 @ d2) ((A @ [l]) @ s # B)) H = Some (Suc (length A), t', H) \<and>
    repaired h (BNode a (d1 @ d2) ((A @ [l]) @ s # B)) H t' H"
proof -
  obtain d0 z where d1: "d1 = d0 @ [z]" and len: "length d0 = length A" "length d2 = length B"
    and leads: "map fst d0 = leads_to A l" "map fst d2 = map first_lead B"
    and l: "shape h l" "kid_count l" "exact l" and exs: "exact s"
    and ord: "\<forall>t \<in> set d0. \<forall>y \<in> set (items l). fst t \<le> fst y"
      "\<forall>t \<in> set d2. \<forall>y \<in> set (items l) \<union> set (items s). fst y < fst t"
    and incl: "increasing (items l)" and kids: "\<forall>u \<in> set A \<union> set B. shape h u \<and> kid_count u \<and> exact u"
    by (rule short_left [OF sa])
  have s: "shape h s" "data_count s = 0" using sa by (simp_all add: short_at_def)
  have z: "fst z = first_lead s" using ex d1 leads(1) by simp
  let ?t = "BNode a (d0 @ z # d2) (A @ l # s # B)"
  have t: "BNode a (d1 @ d2) ((A @ [l]) @ s # B) = ?t" by (simp add: d1)
  obtain al as p q g1 g2 g3 g k where inner: "h = Suc k" "l = BNode al [p, q] [g1, g2, g3]" "s = BNode as [] [g]"
        "shape k g1" "kid_count g1" "shape k g2" "kid_count g2" "shape k g3" "kid_count g3" "shape k g" "kid_count g"
    using node_cases(3) [OF l(1) two] node_cases(1) [OF s] h by auto
  let ?l' = "BNode al [p] [g1, g2]" and ?s' = "BNode as [z] [g3, g]"
  let ?t' = "BNode a (d0 @ q # d2) (A @ ?l' # ?s' # B)"
  have lx: "fst p = first_lead g2" "fst q = first_lead g3" "exact g1" "exact g2" "exact g3" "exact g"
    using l(3) exs inner exact_three [of k g1 g2 g3 al p q] exact_one [of k g as] by auto
  have i1: "items g1 \<noteq> []" and i3: "items g3 \<noteq> []" "fst q = fst (hd (items g3))"
    using items_lead [OF inner(4) kid_count_pos [OF inner(5)]] items_lead [OF inner(8) kid_count_pos [OF inner(9)]] lx
    by simp_all
  have il: "items l = items g1 @ items g2 @ items g3" by (simp add: inner(2) items_node)
  have hd3: "hd (items g3) \<in> set (items l)" using i3(1) by (simp add: il)
  have hd1: "hd (items g1) \<in> set (items l)" "fst (hd (items g1)) < fst q"
    using i1 i3 incl by (auto simp: il increasing_append)
  have q: "\<forall>t \<in> set d0. fst t < fst q" using ord(1) hd1 by (meson order_le_less_trans)
  have q': "\<forall>t \<in> set d2. fst q < fst t" using ord(2) hd3 i3(2) by simp
  have fs: "fix_shortage (Suc (length A)) ?t H = Some (Suc (length A), ?t', H)"
    using len inner q q' by (simp add: fix_shortage_def nth_append repair_simps left_inner)
  have "repaired h ?t H ?t' H"
    unfolding repaired_def
  proof (intro conjI)
    have "exact ?l'" "exact ?s'" using inner lx z exact_two [of k g1 g2 al p] exact_two [of k g3 g as z] by auto
    then show "exact ?t'"
      using exact_node_at [of d0 A "q # d2" "?s' # B" ?l' h a] len leads kids inner lx
        leads_to_cong [of ?l' l A] by (auto simp: repair_simps)
    show "grown ?t H ?t' H" by (rule grown_same) (simp_all add: leaf_addrs_node inner)
  qed (use kids len inner in \<open>auto simp: items_node repair_simps\<close>)
  then show ?thesis using fs unfolding t by blast
qed

lemma shift_right_child:
  assumes sa: "short_at h a d1 d2 A s (r # B) H" and left: "A = [] \<or> data_count (List.last A) = 1 \<and> 0 < h"
    and two: "data_count r = 2" and ex: "map fst d1 = leads_to A s"
  shows "\<exists>t'. fix_shortage (length A) (BNode a (d1 @ d2) (A @ s # r # B)) H = Some (length A, t', H) \<and>
    repaired h (BNode a (d1 @ d2) (A @ s # r # B)) H t' H"
proof -
  obtain z d3 where d2: "d2 = z # d3" and len: "length d1 = length A" "length d3 = length B"
    and leads: "fst z = first_lead r" "map fst d3 = map first_lead B"
    and r: "shape h r" "kid_count r" "exact r" and exs: "exact s"
    and ord: "\<forall>t \<in> set d1. \<forall>y \<in> set (items r). fst t < fst y" "\<forall>t \<in> set d3. \<forall>y \<in> set (items r). fst y < fst t"
    and incr: "increasing (items r)" and kids: "\<forall>u \<in> set A \<union> set B. shape h u \<and> kid_count u \<and> exact u"
    by (rule short_right [OF sa])
  have s: "shape h s" "data_count s = 0" using sa by (simp_all add: short_at_def)
  have noleft: "\<not> (length A > 0 \<and> data_count ((A @ s # r # B) ! (length A - 1)) > MINIMUM)"
    using left by (cases A rule: rev_cases) (simp_all add: nth_append repair_simps)
  let ?t = "BNode a (d1 @ z # d3) (A @ s # r # B)"
  consider (leaf) as ar p q where "h = 0" "A = []" "r = BNode ar [p, q] []" "s = BNode as [] []"
    | (inner) as ar p q g h1 h2 h3 k where "h = Suc k" "r = BNode ar [p, q] [h1, h2, h3]" "s = BNode as [] [g]"
        "shape k h1" "kid_count h1" "shape k h2" "kid_count h2" "shape k h3" "kid_count h3" "shape k g" "kid_count g"
    using node_cases(3) [OF r(1) two] node_cases(1) [OF s] left by auto
  then show ?thesis
  proof cases
    case leaf
    let ?t' = "BNode a (q # d3) (BNode as [p] [] # BNode ar [q] [] # B)"
    have d: "d1 = []" using len leaf by simp
    have "fix_shortage 0 ?t H = Some (0, ?t', H)"
      using len leaf d right_leaf [of "[]" "[]" a z d3 as ar p q B] by (simp add: fix_shortage_def repair_simps)
    moreover have "repaired h ?t H ?t' H"
      unfolding repaired_def
    proof (intro conjI)
      show "exact ?t'"
        using exact_node_at [of "[]" "[]" "q # d3" "BNode ar [q] [] # B" "BNode as [p] []" 0 a] len leads kids leaf by auto
      show "grown ?t H ?t' H" by (rule grown_same) (simp_all add: leaf_addrs_node leaf)
    qed (use kids len leaf d in \<open>auto simp: items_node repair_simps\<close>)
    ultimately show ?thesis using leaf d d2 by auto
  next
    case inner
    let ?s' = "BNode as [z] [g, h1]" and ?r' = "BNode ar [q] [h2, h3]"
    let ?t' = "BNode a (d1 @ p # d3) (A @ ?s' # ?r' # B)"
    have lx: "fst p = first_lead h2" "fst q = first_lead h3" "exact h1" "exact h2" "exact h3" "exact g"
      "fst z = first_lead h1"
      using r(3) exs leads(1) inner exact_three [of k h1 h2 h3 ar p q] exact_one [of k g as] by auto
    have i2: "items h2 \<noteq> []" "fst p = fst (hd (items h2))"
      using items_lead [OF inner(6) kid_count_pos [OF inner(7)]] lx by simp_all
    have "hd (items h2) \<in> set (items r)" using i2(1) by (simp add: inner(2) items_node)
    then have q: "\<forall>t \<in> set d1. fst t < fst p" "\<forall>t \<in> set d3. fst p < fst t" using ord i2(2) by auto
    have fs: "fix_shortage (length A) ?t H = Some (length A, ?t', H)"
    proof -
      have "length A < child_count ?t - 1 \<and> data_count ((A @ s # r # B) ! (length A + 1)) > MINIMUM"
        using inner by (simp add: nth_append repair_simps)
      then show ?thesis using noleft right_inner [OF len(1) q, of a z as g ar q h1 h2 h3 B] inner
        unfolding fix_shortage_def by (auto simp: Let_def)
    qed
    have "repaired h ?t H ?t' H"
      unfolding repaired_def
    proof (intro conjI)
      have "exact ?s'" "exact ?r'" using inner lx exact_two by blast+
      then show "exact ?t'"
        using exact_node_at [of d1 A "p # d3" "?r' # B" ?s' h a] len ex leads kids inner lx leads_to_cong [of ?s' s A]
        by (auto simp: repair_simps)
      show "grown ?t H ?t' H" by (rule grown_same) (simp_all add: leaf_addrs_node inner)
    qed (use kids len inner in \<open>auto simp: items_node repair_simps\<close>)
    then show ?thesis using fs d2 by blast
  qed
qed

lemma shift_merge_left:
  assumes sa: "short_at h a d1 d2 (A @ [l]) s B H" and one: "data_count l = 1"
    and right: "B = [] \<or> data_count (hd B) = 1" and h: "0 < h" and ex: "map fst d1 = leads_to (A @ [l]) s"
  shows "\<exists>t'. fix_shortage (Suc (length A)) (BNode a (d1 @ d2) ((A @ [l]) @ s # B)) H = Some (length A, t', H) \<and>
    repaired h (BNode a (d1 @ d2) ((A @ [l]) @ s # B)) H t' H"
proof -
  obtain d0 z where d1: "d1 = d0 @ [z]" and len: "length d0 = length A" "length d2 = length B"
    and leads: "map fst d0 = leads_to A l" "map fst d2 = map first_lead B"
    and l: "shape h l" "kid_count l" "exact l" and exs: "exact s"
    and kids: "\<forall>u \<in> set A \<union> set B. shape h u \<and> kid_count u \<and> exact u"
    by (rule short_left [OF sa])
  have s: "shape h s" "data_count s = 0" using sa by (simp_all add: short_at_def)
  have z: "fst z = first_lead s" using ex d1 leads(1) by simp
  let ?t = "BNode a (d0 @ z # d2) (A @ l # s # B)"
  have t: "BNode a (d1 @ d2) ((A @ [l]) @ s # B) = ?t" by (simp add: d1)
  obtain al as p g1 g2 g k where inner: "h = Suc k" "l = BNode al [p] [g1, g2]" "s = BNode as [] [g]"
        "shape k g1" "kid_count g1" "shape k g2" "kid_count g2" "shape k g" "kid_count g"
    using node_cases(2) [OF l(1) one] node_cases(1) [OF s] h by auto
  let ?l' = "BNode al [p, z] [g1, g2, g]"
  let ?t' = "BNode a (d0 @ d2) (A @ ?l' # B)"
  have lx: "fst p = first_lead g2" "exact g1" "exact g2" "exact g"
    using l(3) exs inner exact_two [of k g1 g2 al p] exact_one [of k g as] by auto
  have fs: "fix_shortage (Suc (length A)) ?t H = Some (length A, ?t', H)"
    using len inner right merge_inner [of d0 A "[g1, g2]" a z d2 al "[p]" as "[]" "[g]" B H]
    by (cases B) (auto simp: fix_shortage_def nth_append repair_simps)
  have "repaired h ?t H ?t' H"
    unfolding repaired_def
  proof (intro conjI)
    have "exact ?l'" using inner lx z exact_three [of k g1 g2 g al p z] by simp
    then show "exact ?t'"
      using exact_node_at [of d0 A d2 B ?l' h a] len leads kids inner lx leads_to_cong [of ?l' l A]
      by (auto simp: repair_simps)
    show "grown ?t H ?t' H" by (rule grown_same) (simp_all add: leaf_addrs_node inner)
  qed (use kids len inner in \<open>auto simp: items_node repair_simps\<close>)
  then show ?thesis using fs unfolding t by blast
qed

lemma shift_merge_right:
  assumes sa: "short_at h a d1 d2 [] s (r # B) H" and one: "data_count r = 1"
  shows "\<exists>t' H'. fix_shortage 0 (BNode a (d1 @ d2) (s # r # B)) H = Some (0, t', H') \<and>
    repaired h (BNode a (d1 @ d2) (s # r # B)) H t' H'"
proof -
  obtain z d3 where d2: "d2 = z # d3" and len: "length d1 = length ([] :: ('a, 'b) bptree list)" "length d3 = length B"
    and leads: "fst z = first_lead r" "map fst d3 = map first_lead B"
    and r: "shape h r" "kid_count r" "exact r" and exs: "exact s"
    and kids: "\<forall>u \<in> set [] \<union> set B. shape h u \<and> kid_count u \<and> exact u"
    by (rule short_right [OF sa])
  have s: "shape h s" "data_count s = 0" and pl: "placed (addrs (BNode a (d1 @ d2) ([] @ s # r # B))) H"
    using sa by (simp_all add: short_at_def)
  have d1: "d1 = []" using len by simp
  let ?t = "BNode a (z # d3) (s # r # B)"
  have t: "BNode a (d1 @ d2) (s # r # B) = ?t" by (simp add: d1 d2)
  consider (leaf) as ar p where "h = 0" "r = BNode ar [p] []" "s = BNode as [] []"
    | (inner) as ar p g h1 h2 k where "h = Suc k" "r = BNode ar [p] [h1, h2]" "s = BNode as [] [g]"
        "shape k h1" "kid_count h1" "shape k h2" "kid_count h2" "shape k g" "kid_count g"
    using node_cases(2) [OF r(1) one] node_cases(1) [OF s] by auto
  then show ?thesis
  proof cases
    case leaf
    let ?H = "set_link as (next_of H ar) H" and ?t' = "BNode a d3 (BNode as [p] [] # B)"
    have fs: "fix_shortage 0 ?t H = Some (0, ?t', ?H)"
      using leaf merge_leaf [of "[]" "[]" a z d3 as "[]" ar "[p]" B H] by (simp add: fix_shortage_def repair_simps)
    have "repaired h ?t H ?t' ?H"
      unfolding repaired_def
    proof (intro conjI)
      show "exact ?t'" using exact_node_at [of "[]" "[]" d3 B "BNode as [p] []" 0 a] len leads kids leaf by auto
      show "grown ?t H ?t' ?H"
        using grown_merge_leaf [of a "z # d3" "[]" as "[]" ar "[p]" B H d3] pl leaf d1 d2 by simp
    qed (use kids len leaf in \<open>auto simp: items_node repair_simps\<close>)
    then show ?thesis using fs unfolding t by blast
  next
    case inner
    let ?s' = "BNode as [z, p] [g, h1, h2]" and ?t' = "BNode a d3 (BNode as [z, p] [g, h1, h2] # B)"
    have lx: "fst p = first_lead h2" "exact h1" "exact h2" "exact g" "fst z = first_lead h1"
      using r(3) exs leads(1) inner exact_two [of k h1 h2 ar p] exact_one [of k g as] by auto
    have fs: "fix_shortage 0 ?t H = Some (0, ?t', H)"
      using inner merge_inner [of "[]" "[]" "[g]" a z d3 as "[]" ar "[p]" "[h1, h2]" B H]
      by (simp add: fix_shortage_def repair_simps)
    have "repaired h ?t H ?t' H"
      unfolding repaired_def
    proof (intro conjI)
      have "exact ?s'" using inner lx exact_three [of k g h1 h2 as z p] by simp
      then show "exact ?t'" using exact_node_at [of "[]" "[]" d3 B ?s' h a] len leads kids inner by (auto simp: repair_simps)
      show "grown ?t H ?t' H" by (rule grown_same) (simp_all add: leaf_addrs_node inner)
    qed (use kids len inner in \<open>auto simp: items_node repair_simps\<close>)
    then show ?thesis using fs unfolding t by blast
  qed
qed

section \<open>Deletion\<close>

definition without_key :: "('k, 'v) item \<Rightarrow> ('k, 'v) item list \<Rightarrow> ('k, 'v) item list" where
  "without_key e xs = filter (\<lambda>y. fst y \<noteq> fst e) xs"

lemma without_key_append [simp]: "without_key e (xs @ ys) = without_key e xs @ without_key e ys"
  by (simp add: without_key_def)

lemma without_key_absent: "fst e \<notin> fst ` set xs \<Longrightarrow> without_key e xs = xs"
  by (metis (mono_tags, lifting) filter_True image_eqI without_key_def)

lemma increasing_without_key: "increasing xs \<Longrightarrow> increasing (without_key e xs)"
  by (induction xs) (auto simp: without_key_def)

lemma set_without_key: "set (without_key e xs) = {y \<in> set xs. fst y \<noteq> fst e}"
  by (auto simp: without_key_def)

lemma loose_erase_absent:
  "good h t \<Longrightarrow> fst e \<notin> fst ` set (items t) \<Longrightarrow> loose_erase e t H = Some (False, t, H)"
proof (induction h arbitrary: t)
  case 0
  then obtain a d where t: "t = BNode a d []" "increasing d" by (cases t) (auto simp: good_def)
  obtain ge found where l: "locate d e = (ge, found)" by (cases "locate d e") auto
  then show ?case using t locate_leaf(1) [OF t(2) l] 0 by simp
next
  case (Suc h)
  obtain a d c where t: "t = BNode a d c" by (cases t)
  obtain A x B d1 d2 ge found where s: "c = A @ x # B" "locate d e = (ge, found)"
      "(if found then ge + 1 else ge) = length A"
      "child c (if found then ge + 1 else ge) = Some x" "good h x" "kid_count x"
      "\<forall>y \<in> set (concat (map items A)). fst y < fst e" "\<forall>y \<in> set (concat (map items B)). fst e < fst y"
      "d = d1 @ d2" "length d1 = length A" "length d2 = length B"
      "A \<noteq> [] \<longrightarrow> first_lead x = fst (List.last d1) \<and> first_lead x \<le> fst e \<and> (found \<longleftrightarrow> first_lead x = fst e)"
      "found \<longrightarrow> A \<noteq> []" "increasing d"
    by (rule good_step [OF Suc.prems(1) [unfolded t], of e])
  have ab: "fst e \<notin> fst ` set (items x)"
    using Suc.prems(2) by (simp add: t s(1) items_split_node image_Un)
  have x: "items x \<noteq> []" "first_lead x = fst (hd (items x))"
    using first_lead_items [OF s(5) kid_count_pos [OF s(6)]] by simp_all
  have mem: "first_lead x \<in> fst ` set (items x)" unfolding x(2) by (intro imageI hd_in_set x(1))
  have nf: "\<not> found"
  proof
    assume found
    then have "first_lead x = fst e" using s(12,13) by blast
    then show False using mem ab by simp
  qed
  have "loose_erase e x H = Some (False, x, H)" using Suc.IH [OF s(5) ab] .
  moreover have "\<not> data_count x < MINIMUM" using s(6) by (simp add: kid_count_def)
  moreover have "c[length A := x] = c" by (simp add: s(1))
  ultimately show ?case using s(1-4) nf by (simp add: t)
qed

lemma loose_erase_present:
  assumes "good h t" and "fst e \<in> fst ` set (items t)" and "0 < h \<longrightarrow> 0 < data_count t" and "placed (addrs t) H"
  shows "\<exists>t' H'. loose_erase e t H = Some (True, t', H') \<and> shape h t' \<and> exact t' \<and>
    items t' = without_key e (items t) \<and> data_count t' \<le> data_count t \<and>
    data_count t \<le> Suc (data_count t') \<and> grown t H t' H'"
  using assms
proof (induction h arbitrary: t)
  case 0
  then obtain a d where t: "t = BNode a d []" "increasing d" by (cases t) (auto simp: good_def)
  have "\<exists>ge d'. locate d e = (ge, True) \<and> fst (delete_item d ge) = d' \<and> d' = without_key e d \<and> Suc (length d') = length d"
    using t(2)
  proof (cases rule: locate_split [of d e])
    case (1 d1 d2)
    then have "fst e \<notin> fst ` set d" by force
    then show ?thesis using 0 t by simp
  next
    case (2 d1 s d2)
    have "without_key e d1 = d1" "without_key e d2 = d2" using 2 by (auto intro!: without_key_absent)
    then show ?thesis using 2 by (simp add: without_key_def)
  qed
  then obtain ge x where "locate d e = (ge, True)" "delete_item d ge = (without_key e d, x)"
    "Suc (length (without_key e d)) = length d"
    by (metis prod.collapse)
  moreover have "grown t H (BNode a (without_key e d) []) H" by (simp add: grown_def t)
  ultimately show ?case using t by (auto simp: data_count_def)
next
  case (Suc h)
  obtain a d c where t: "t = BNode a d c" by (cases t)
  obtain A x B d1 d2 ge found where s: "c = A @ x # B" "locate d e = (ge, found)"
      "(if found then ge + 1 else ge) = length A"
      "child c (if found then ge + 1 else ge) = Some x" "good h x" "kid_count x"
      "\<forall>y \<in> set (concat (map items A)). fst y < fst e" "\<forall>y \<in> set (concat (map items B)). fst e < fst y"
      "d = d1 @ d2" "length d1 = length A" "length d2 = length B"
      "A \<noteq> [] \<longrightarrow> first_lead x = fst (List.last d1) \<and> first_lead x \<le> fst e \<and> (found \<longleftrightarrow> first_lead x = fst e)"
      "found \<longrightarrow> A \<noteq> []" "increasing d"
    by (rule good_step [OF Suc.prems(1) [unfolded t], of e])
  have sh: "length c = Suc (length d)" "\<forall>u \<in> set c. shape h u \<and> kid_count u" "exact t" "increasing (items t)"
    using Suc.prems(1) t by (auto simp: good_def)
  have shc: "\<forall>v \<in> set (A @ x # B). shape h v" using sh(2) s(1) by simp
  have ex: "map fst d1 = leads_to A x" "map fst d2 = map first_lead B" "\<forall>v \<in> set (A @ x # B). exact v"
    using exact_node_at [OF s(10,11) shc, of a] sh(3) by (simp_all add: t s(1,9))
  have inc: "increasing (concat (map items A) @ items x @ concat (map items B))"
    using sh(4) by (simp add: t s(1) items_split_node)
  have posx: "0 < data_count x" using kid_count_pos [OF s(6)] .
  have x: "items x \<noteq> []" "first_lead x = fst (hd (items x))" using first_lead_items [OF s(5) posx] by simp_all
  have ab: "fst e \<notin> fst ` set (concat (map items A))" "fst e \<notin> fst ` set (concat (map items B))"
    using s(7,8) by force+
  have pr: "fst e \<in> fst ` set (items x)"
    using Suc.prems(2) ab by (simp add: t s(1) items_split_node image_Un del: set_concat)
  have pl: "placed (addrs (BNode a d (A @ x # B))) H" using Suc.prems(4) t s(1) by simp
  obtain x' H1 where r: "loose_erase e x H = Some (True, x', H1)" "shape h x'" "exact x'"
      "items x' = without_key e (items x)" "data_count x' \<le> data_count x" "data_count x \<le> Suc (data_count x')"
      "grown x H x' H1"
    using Suc.IH [OF s(5) pr _ placed_node(1) [OF pl]] posx by blast
  define t1 where "t1 = BNode a d (A @ x' # B)"
  have c1: "c[length A := x'] = A @ x' # B" by (simp add: s(1))
  have gr: "grown t H t1 H1" using grown_node [OF r(7) pl] t s(1) by (simp add: t1_def)
  have pl1: "placed (addrs t1) H1" using grown_placed [OF gr] Suc.prems(4) by simp
  have it1: "items t1 = without_key e (items t)"
    using without_key_absent [OF ab(1)] without_key_absent [OF ab(2)]
    by (simp add: t t1_def s(1) items_split_node r(4) del: set_concat)
  have inc1: "increasing (items t1)" unfolding it1 by (rule increasing_without_key [OF sh(4)])
  have keep: "first_lead x' = first_lead x \<and> items x' \<noteq> []" if "A \<noteq> []" "\<not> found"
  proof -
    obtain y ys where y: "items x = y # ys" using x(1) by (cases "items x") auto
    have "fst y < fst e" using s(12) that x y by (auto simp: order_le_less)
    then have i: "items x' = y # without_key e ys" using y r(4) by (simp add: without_key_def)
    then have "0 < data_count x' \<or> 0 < h" using r(2) by (cases h; cases x') (auto simp: data_count_def)
    then have "first_lead x' = fst (hd (items x'))" using items_lead_inner(2) [OF r(2)] by blast
    then show ?thesis using i x y by simp
  qed
  have leads: "map fst d1 = leads_to A x'" if "\<not> found"
  proof (cases "A = []")
    case True
    then show ?thesis using ex(1) by simp
  next
    case False
    then have "leads_to A x' = leads_to A x" using keep that leads_to_cong by blast
    then show ?thesis using ex(1) by simp
  qed
  have run: "loose_erase e t H =
     (if \<not> found then
        (if data_count x' < MINIMUM
         then do { (j, t'', h'') \<leftarrow> fix_shortage (length A) t1 H1; Some (True, t'', h'') }
         else Some (True, t1, H1))
      else do { (t'', h'') \<leftarrow> after_erase_found e (length A - 1) t1 H1; Some (True, t'', h'') })"
  proof (cases found)
    case True
    then have "length A - 1 = ge" using s(3) by simp
    then show ?thesis using s(1-4) r(1) c1 True by (simp add: t t1_def Let_def)
  next
    case False
    then show ?thesis using s(1-4) r(1) c1 by (simp add: t t1_def Let_def)
  qed
  have cnt: "data_count t1 = data_count t" by (simp add: t t1_def data_count_def)
  have done': ?case if "loose_erase e t H = Some (True, t2, H2)" "repaired h t1 H1 t2 H2" for t2 H2
    using that it1 cnt grown_trans [OF gr] unfolding repaired_def by auto
  have exx': "\<forall>v \<in> set (A @ x' # B). exact v" "\<forall>v \<in> set (A @ x' # B). shape h v"
    using ex(3) r(2,3) shc by auto
  show ?case
  proof (cases "data_count x' = 0")
    case False
    then have kx: "kid_count x'" using r(5) s(6) by (auto simp: kid_count_def MINIMUM_def)
    have enough: "\<not> data_count x' < MINIMUM" using False by (simp add: MINIMUM_def)
    have sh1: "shape (Suc h) t1" using sh(1,2) s(1) r(2) kx by (simp add: t1_def)
    show ?thesis
    proof (cases found)
      case False
      have "exact t1" using exact_node_at [OF s(10,11) exx'(2), of a] leads [OF False] ex(2) exx'(1)
        by (simp add: t1_def s(9))
      then show ?thesis using run False enough sh1 it1 cnt gr by auto
    next
      case True
      then obtain A0 l where A: "A = A0 @ [l]" using s(13) by (cases A rule: rev_cases) auto
      obtain d0 z where d1: "d1 = d0 @ [z]" "length d0 = length A0"
        using s(10) A by (cases d1 rule: rev_cases) auto
      obtain y where y: "get_small x' = Some y" "fst y = first_lead x'"
        using get_small_items [OF r(2)] kid_count_pos [OF kx] by blast
      let ?t2 = "BNode a (d0 @ y # d2) (A0 @ l # x' # B)"
      have t1: "t1 = BNode a (d0 @ z # d2) (A0 @ l # x' # B)" by (simp add: t1_def s(9) A d1)
      have "after_erase_found e (length A - 1) t1 H1 = Some (?t2, H1)"
        using renew_at [OF d1(2) y(1), of a z d2 l B] enough d1(2)
        by (simp add: after_erase_found_def A t1 child_count_def data_count_def MINIMUM_def Suc_le_eq)
      moreover have "repaired h t1 H1 ?t2 H1"
        unfolding repaired_def
      proof (intro conjI)
        show "exact ?t2"
          using exact_node_at [of d0 A0 "y # d2" "x' # B" l h a] ex(1,2) exx' d1 s(11) y(2) by (simp add: A)
        show "shape (Suc h) ?t2" using sh1 by (simp add: t1)
        show "grown t1 H1 ?t2 H1" by (rule grown_same) (simp_all add: leaf_addrs_node t1)
      qed (simp_all add: t1 items_node data_count_def)
      ultimately show ?thesis using done' run True by simp
    qed
  next
    case True
    have lx: "\<forall>y \<in> set (concat (map items A)). \<forall>w \<in> set (items x). fst y < fst w"
      "\<forall>y \<in> set (items x). \<forall>w \<in> set (concat (map items B)). fst y < fst w"
      using inc by (simp_all only: increasing_append set_append) blast+
    have d1x: "\<forall>u \<in> set d1. \<forall>y \<in> set (items x). fst u \<le> fst y"
    proof -
      have "map fst (d1 @ d2) = map first_lead (tl (A @ x # B))"
        using ex(1,2) by (cases A) (simp_all add: leads_to_def)
      moreover have "\<forall>u \<in> set (A @ x # B). shape h u \<and> 0 < data_count u" using sh(2) s(1) kid_count_pos by auto
      ultimately have "\<forall>u \<in> set d1. \<forall>y \<in> set (items x @ concat (map items B)). fst u \<le> fst y"
        using separator_bounds(2) [of d1 d2 A x B h] s(10) inc by simp
      then show ?thesis by simp
    qed
    have hdx: "hd (items x) \<in> set (items x)" using x(1) by simp
    have sa: "short_at h a d1 d2 A x' B H1"
      unfolding short_at_def
    proof (intro conjI)
      show "A \<noteq> [] \<or> B \<noteq> []" using Suc.prems(3) s(9-11) by (auto simp: t data_count_def)
      show "\<forall>u \<in> set A \<union> set B. shape h u \<and> kid_count u" using sh(2) s(1) by auto
      show "A \<noteq> [] \<longrightarrow> map fst (butlast d1) = leads_to (butlast A) (List.last A)"
      proof
        assume "A \<noteq> []"
        then obtain A0 l where "A = A0 @ [l]" by (cases A rule: rev_cases) auto
        then show "map fst (butlast d1) = leads_to (butlast A) (List.last A)"
          using ex(1) by (simp add: map_butlast)
      qed
      show "increasing (concat (map items (A @ x' # B)))" using inc1 by (simp add: t1_def items_node)
      show "\<forall>y \<in> set (concat (map items A)). \<forall>z \<in> set (drop (length A - 1) d1). fst y < fst z"
      proof (cases "A = []")
        case False
        then obtain d0 z where d1: "d1 = d0 @ [z]" using s(10) by (cases d1 rule: rev_cases) auto
        then have "drop (length A - 1) d1 = [z]" "fst z = fst (hd (items x))"
          using s(10,12) False x(2) by auto
        then show ?thesis using lx(1) hdx by simp
      qed simp
      show "\<forall>y \<in> set (concat (map items B)). \<forall>z \<in> set d1. fst z < fst y"
        using d1x lx(2) hdx by (meson order_le_less_trans)
      show "placed (addrs (BNode a (d1 @ d2) (A @ x' # B))) H1" using pl1 by (simp add: t1_def s(9))
    qed (use s r True ex exx' in auto)
    have t1: "t1 = BNode a (d1 @ d2) (A @ x' # B)" by (simp add: t1_def s(9))
    have below: "data_count x' < MINIMUM" using True by (simp add: MINIMUM_def)
    have counts: "data_count u = 1 \<or> data_count u = 2" if "u \<in> set A \<union> set B" for u
    proof -
      have "kid_count u" using that sh(2) s(1) by auto
      then show ?thesis by (auto simp: kid_count_def MINIMUM_def MAXIMUM_def)
    qed
    have Bc: "B = [] \<or> data_count (hd B) = 1 \<or> (\<exists>r B'. B = r # B' \<and> data_count r = 2)"
      using counts by (cases B) auto
    show ?thesis
    proof (cases found)
      case True
      then obtain A0 l where A: "A = A0 @ [l]" using s(13) by (cases A rule: rev_cases) auto
      have "A \<noteq> []" using A by simp
      then have e: "fst (List.last d1) = fst e" using s(12) True by metis
      have "\<exists>t2 H2. after_erase_found e (length A0) t1 H1 = Some (t2, H2) \<and> repaired h t1 H1 t2 H2"
      proof (cases "data_count l = 2")
        case True
        then show ?thesis using found_left [OF sa [unfolded A] True e] unfolding t1 A by blast
      next
        case False
        then have one: "data_count l = 1" using counts A by auto
        show ?thesis
        proof (cases "\<exists>r B'. B = r # B' \<and> data_count r = 2")
          case True
          then obtain r B' where B: "B = r # B'" "data_count r = 2" by blast
          show ?thesis using found_right [OF sa [unfolded A B(1)] one B(2) e] unfolding t1 A B(1) by blast
        next
          case False
          then have "B = [] \<or> data_count (hd B) = 1" using Bc by auto
          then show ?thesis using found_merge [OF sa [unfolded A] one _ e] unfolding t1 A by blast
        qed
      qed
      then show ?thesis using done' run True A by auto
    next
      case False
      note lead = leads [OF False]
      have "\<exists>j t2 H2. fix_shortage (length A) t1 H1 = Some (j, t2, H2) \<and> repaired h t1 H1 t2 H2"
      proof (cases A rule: rev_cases)
        case Nil
        then have "B \<noteq> []" using sa by (simp add: short_at_def)
        then obtain r B' where B: "B = r # B'" by (cases B) auto
        show ?thesis
        proof (cases "data_count r = 2")
          case True
          show ?thesis using shift_right_child [OF sa [unfolded B] _ True lead] Nil unfolding t1 B by blast
        next
          case False
          then have "data_count r = 1" using counts B by auto
          then show ?thesis using shift_merge_right [OF sa [unfolded B Nil]] unfolding t1 B Nil by auto
        qed
      next
        case (snoc A0 l)
        have h: "0 < h"
        proof (rule ccontr)
          assume "\<not> 0 < h"
          then have "items x' = []" using r(2) \<open>data_count x' = 0\<close> by (cases h; cases x') (auto simp: data_count_def)
          then show False using keep [OF _ False] snoc by simp
        qed
        show ?thesis
        proof (cases "data_count l = 2")
          case True
          show ?thesis using shift_left [OF sa [unfolded snoc] True h lead [unfolded snoc]] unfolding t1 snoc by auto
        next
          case False
          then have one: "data_count l = 1" using counts snoc by auto
          show ?thesis
          proof (cases "\<exists>r B'. B = r # B' \<and> data_count r = 2")
            case True
            then obtain r B' where B: "B = r # B'" "data_count r = 2" by blast
            show ?thesis using shift_right_child [OF sa [unfolded B(1)] _ B(2) lead] snoc one h unfolding t1 B(1) by auto
          next
            case False
            then have "B = [] \<or> data_count (hd B) = 1" using Bc by auto
            from shift_merge_left [OF sa [unfolded snoc] one this h lead [unfolded snoc]]
            show ?thesis unfolding t1 snoc by auto
          qed
        qed
      qed
      then show ?thesis using done' run False below by auto
    qed
  qed
qed

section \<open>The whole tree\<close>

theorem bp_erase_absent:
  assumes "tree_ok h t H" and "fst e \<notin> fst ` set (items t)"
  shows "bp_erase e t H = Some (False, t, H)"
  using loose_erase_absent [OF tree_ok_good [OF assms(1)] assms(2)] by (simp add: bp_erase_def)

theorem bp_erase_present:
  assumes "tree_ok h t H" and "fst e \<in> fst ` set (items t)"
  shows "\<exists>h' t' H'. bp_erase e t H = Some (True, t', H') \<and> tree_ok h' t' H' \<and> bp_addr t' = bp_addr t \<and>
    items t' = without_key e (items t) \<and> next_addr H \<le> next_addr H' \<and>
    (\<forall>a. a \<notin> set (addrs t) \<longrightarrow> a < next_addr H \<longrightarrow> next_of H' a = next_of H a) \<and>
    set (addrs t') \<subseteq> set (addrs t) \<union> {next_addr H..<next_addr H'}"
proof -
  have g: "good h t" "placed (addrs t) H" "linked (next_of H) (leaf_addrs t) None" "data_count t \<le> MAXIMUM"
    "0 < h \<longrightarrow> 0 < data_count t" "0 < h \<longrightarrow> next_of H (bp_addr t) = None"
    using assms(1) tree_ok_good [OF assms(1)] tree_ok_placed [OF assms(1)]
    by (auto simp: tree_ok_def MINIMUM_def)
  obtain t1 H1 where r: "loose_erase e t H = Some (True, t1, H1)" "shape h t1" "exact t1"
    "items t1 = without_key e (items t)" "data_count t1 \<le> data_count t" "data_count t \<le> Suc (data_count t1)"
    "grown t H t1 H1"
    using loose_erase_present [OF g(1) assms(2) g(5,2)] by blast
  have gr: "next_addr H \<le> next_addr H1" "bp_addr t1 = bp_addr t"
    "\<And>a. a \<notin> set (leaf_addrs t) \<Longrightarrow> a < next_addr H \<Longrightarrow> next_of H1 a = next_of H a"
    "linked (next_of H1) (leaf_addrs t1) None"
    using r(7) g(3) by (auto simp: grown_def)
  have inc: "increasing (items t1)" using increasing_without_key [of "items t" e] g(1) r(4) by (simp add: good_def)
  have pl: "placed (addrs t1) H1" using grown_placed [OF r(7) g(2)] .
  have root: "next_of H1 (bp_addr t) = None" if pos: "0 < h"
  proof -
    obtain h' where "h = Suc h'" using pos by (cases h) auto
    then have "bp_addr t \<notin> set (leaf_addrs t)" using root_not_leaf g(1,2) by (auto simp: good_def placed_def)
    moreover have "bp_addr t < next_addr H" using g(2) by (cases t) (auto simp: placed_def)
    ultimately show ?thesis using gr(3) g(6) pos by simp
  qed
  have outside: "next_of H1 a = next_of H a" if "a \<notin> set (addrs t)" "a < next_addr H" for a
    using gr(3) that set_leaf_addrs by fastforce
  have sub: "set (addrs t1) \<subseteq> set (addrs t) \<union> {next_addr H..<next_addr H1}" using grown_set [OF r(7)] by simp
  show ?thesis
  proof (cases "data_count t1 < MINIMUM \<and> child_count t1 > 0")
    case False
    then have "0 < h \<longrightarrow> MINIMUM \<le> data_count t1" using shape_counts [OF r(2)] by (cases "h = 0") auto
    then have "tree_ok h t1 H1"
      using r(2,3,5) inc g(4) pl gr(2,4) root by (intro tree_okI) (auto simp: good_def)
    then show ?thesis using r(1,4) False gr(1,2) outside sub by (auto simp: bp_erase_def)
  next
    case True
    then have z: "data_count t1 = 0" by (simp add: MINIMUM_def)
    obtain b x k where t1: "h = Suc k" "t1 = BNode b [] [x]" "shape k x" "kid_count x"
      using node_cases(1) [OF r(2) z] True by (auto simp: child_count_def)
    have b: "b = bp_addr t" using gr(2) t1 by simp
    define t2 where "t2 = BNode b (bp_data x) (bp_subset x)"
    have run: "bp_erase e t H = Some (True, t2, H1)"
      using r(1) True by (simp add: bp_erase_def t1 t2_def child_def)
    have s2: "shape k t2" "data_count t2 = data_count x" using t1(3) by (cases k; cases x; simp add: t2_def data_count_def)+
    have exx: "exact x" using r(3) exact_one [OF t1(3)] t1(2) by simp
    have q2: "items t2 = items t1" "seps t2 = seps x" "map snd (leaf_list t2) = map snd (leaf_list x)"
      by (cases x; cases "bp_subset x"; simp add: t1 t2_def items_def)+
    have "map lead (tl (leaf_list t2)) = map lead (tl (leaf_list x))"
    proof -
      have "map lead (tl l) = map (\<lambda>d. fst (hd d)) (tl (map snd l))" for l :: "(nat \<times> ('a, 'b) item list) list"
        by (induction l) (simp_all add: lead_def map_tl comp_def cong: map_cong)
      then show ?thesis using q2(3) by metis
    qed
    then have ex2: "exact t2" using exx q2(2) by (simp add: exact_def lead_ok_def)
    have a2: "addrs t2 = b # tl (addrs x)" "addrs t1 = b # bp_addr x # tl (addrs x)"
      by (cases x; simp add: t1 t2_def)+
    have pl2: "placed (addrs t2) H1" using pl by (simp add: placed_def a2)
    have l2: "leaf_addrs t2 = (if k = 0 then [b] else leaf_addrs t1)"
    proof (cases k)
      case 0
      then have "bp_subset x = []" using t1(3) by (cases x) auto
      then show ?thesis using 0 by (simp add: t2_def)
    next
      case (Suc j)
      then obtain v d3 c3 where "x = BNode v d3 c3" "c3 \<noteq> []" using t1(3) by (cases x; cases "bp_subset x") auto
      then show ?thesis using Suc by (simp add: t1 t2_def leaf_addrs_node)
    qed
    have "linked (next_of H1) (leaf_addrs t2) None"
      using gr(4) root t1(1) b by (simp add: l2)
    moreover have "0 < k \<longrightarrow> next_of H1 (bp_addr t2) = None" using root t1(1) b by (simp add: t2_def)
    ultimately have "tree_ok k t2 H1"
      using s2 ex2 inc q2(1) t1(4) pl2 by (intro tree_okI) (auto simp: good_def kid_count_def)
    moreover have "set (addrs t2) \<subseteq> set (addrs t) \<union> {next_addr H..<next_addr H1}" using sub by (auto simp: a2)
    moreover have "bp_addr t2 = bp_addr t" by (simp add: t2_def b)
    ultimately show ?thesis using run q2(1) r(4) gr(1) outside by metis
  qed
qed

end
