(* ===== verification/Bplus_Iterate.thy ===== *)
theory Bplus_Iterate
  imports Bplus_Erase
begin

text \<open>
  Walks over the leaves of the in-memory B+ tree. An iterator is the address of a leaf and an index in
  it; \<open>cursor L k\<close> is the iterator of the item number \<open>k\<close> of the leaves \<open>L\<close>. In a tree with the invariant
  \<open>begin\<close> is cursor 0, \<open>++\<close> goes from cursor \<open>k\<close> to cursor \<open>k + 1\<close>, the dereference reads item \<open>k\<close>, and the
  cursor behind the last item is \<open>end\<close>; the loops over iterators follow from this.
\<close>

section \<open>Cursors\<close>

fun cursor :: "(nat \<times> ('k, 'v) item list) list \<Rightarrow> nat \<Rightarrow> iterator" where
  "cursor [] k = bp_end"
| "cursor ((a, d) # L) k = (if k < length d then (Some a, k) else cursor L (k - length d))"

abbreviation leaf_items :: "(nat \<times> ('k, 'v) item list) list \<Rightarrow> ('k, 'v) item list" where
  "leaf_items L \<equiv> concat (map snd L)"

lemma cursor_end: "length (leaf_items L) \<le> k \<Longrightarrow> cursor L k = bp_end"
  by (induction L k rule: cursor.induct) auto

lemma cursor_not_end: "k < length (leaf_items L) \<Longrightarrow> cursor L k \<noteq> bp_end"
  by (induction L k rule: cursor.induct) (auto simp: bp_end_def)

lemma cursor_append:
  "cursor (L1 @ L2) k =
     (if k < length (leaf_items L1) then cursor L1 k else cursor L2 (k - length (leaf_items L1)))"
  by (induction L1 k rule: cursor.induct) auto

lemma cursor_hd: "L \<noteq> [] \<Longrightarrow> snd (hd L) \<noteq> [] \<Longrightarrow> cursor L 0 = (Some (fst (hd L)), 0)"
  by (cases L) auto

text \<open>The leaf under an address.\<close>

lemma find_unique: "distinct (map f xs) \<Longrightarrow> x \<in> set xs \<Longrightarrow> List.find (\<lambda>y. f y = f x) xs = Some x"
  by (induction xs) auto

lemma leaf_is_node: "(a, d) \<in> set (leaf_list t) \<Longrightarrow> BNode a d [] \<in> set (bp_nodes t)"
proof (induction t)
  case (BNode b e c)
  then show ?case by (cases "c = []") (fastforce simp: leaf_list_node)+
qed

lemma node_at_leaf: "placed (addrs t) H \<Longrightarrow> (a, d) \<in> set (leaf_list t) \<Longrightarrow> node_at t (Some a) = Some (BNode a d [])"
  using find_unique [of bp_addr "bp_nodes t" "BNode a d []"] leaf_is_node [of a d t]
  by (simp add: node_at_def placed_def addrs_def)

lemma cursor_deref:
  assumes "\<forall>(a, d) \<in> set L. node_at t (Some a) = Some (BNode a d [])" and "k < length (leaf_items L)"
  shows "bp_deref t (cursor L k) = Some (leaf_items L ! k)"
  using assms by (induction L k rule: cursor.induct) (auto simp: bp_deref_def data_count_def nth_append)

lemma cursor_next:
  assumes "\<forall>(a, d) \<in> set L. node_at t (Some a) = Some (BNode a d [])" and "\<forall>l \<in> set L. snd l \<noteq> []"
    and "linked (next_of H) (map fst L) None" and "k < length (leaf_items L)"
  shows "bp_next t H (cursor L k) = Some (cursor L (Suc k))"
  using assms
proof (induction L k rule: cursor.induct)
  case (1 k)
  then show ?case by simp
next
  case (2 a d L k)
  show ?case
  proof (cases "k < length d")
    case True
    show ?thesis
    proof (cases "Suc k < length d")
      case True
      then have "k \<noteq> length d - 1" by linarith
      then show ?thesis using 2(2) True by (simp add: bp_next_def data_count_def)
    next
      case False
      then have k: "k = length d - 1" "Suc k = length d" using \<open>k < length d\<close> by simp_all
      have "cursor L 0 = (next_of H a, 0)"
        using 2(3,4) by (cases L) (auto simp: bp_end_def)
      then show ?thesis using 2(2) k by (auto simp: bp_next_def data_count_def)
    qed
  next
    case False
    moreover have "Suc k - length d = Suc (k - length d)" using False by simp
    ultimately show ?thesis using 2 by simp
  qed
qed

section \<open>Walks over a tree\<close>

definition position :: "('k, 'v) bptree \<Rightarrow> nat \<Rightarrow> iterator" where
  "position t k = cursor (leaf_list t) k"

lemma tree_leaves:
  assumes "tree_ok h t H"
  shows "\<forall>(a, d) \<in> set (leaf_list t). node_at t (Some a) = Some (BNode a d [])"
    and "items t \<noteq> [] \<Longrightarrow> \<forall>l \<in> set (leaf_list t). snd l \<noteq> []"
    and "linked (next_of H) (map fst (leaf_list t)) None"
proof -
  show "\<forall>(a, d) \<in> set (leaf_list t). node_at t (Some a) = Some (BNode a d [])"
    using node_at_leaf [OF tree_ok_placed [OF assms]] by blast
  show "linked (next_of H) (map fst (leaf_list t)) None"
    using assms by (simp add: tree_ok_def leaf_addrs_def)
  assume "items t \<noteq> []"
  then have "0 < data_count t" using assms by (cases h; cases t) (auto simp: tree_ok_def data_count_def MINIMUM_def)
  then show "\<forall>l \<in> set (leaf_list t). snd l \<noteq> []" using leaf_data_ne assms by (auto simp: tree_ok_def)
qed

lemma position_deref: "tree_ok h t H \<Longrightarrow> k < length (items t) \<Longrightarrow> bp_deref t (position t k) = Some (items t ! k)"
  using cursor_deref [OF tree_leaves(1)] by (simp add: position_def items_def)

lemma position_next: "tree_ok h t H \<Longrightarrow> k < length (items t) \<Longrightarrow> bp_next t H (position t k) = Some (position t (Suc k))"
  using cursor_next [OF tree_leaves(1) tree_leaves(2) tree_leaves(3)]
  by (metis items_def length_0_conv not_less_zero position_def)

lemma position_end: "position t k = bp_end \<longleftrightarrow> length (items t) \<le> k"
  using cursor_end [of "leaf_list t" k] cursor_not_end [of k "leaf_list t"]
  by (simp add: position_def items_def) linarith

lemma get_smallest_node_hd: "bp_addr (get_smallest_node t) = fst (hd (leaf_list t))"
  by (induction t rule: get_smallest_node.induct) auto

lemma empty_iff: "tree_ok h t H \<Longrightarrow> bp_empty t \<longleftrightarrow> items t = []"
proof -
  assume ok: "tree_ok h t H"
  then have g: "good h t" by (rule tree_ok_good)
  show ?thesis
  proof (cases h)
    case 0
    then obtain a d where "t = BNode a d []" using g by (cases t) (auto simp: good_def)
    then show ?thesis by (simp add: bp_empty_def data_count_def is_leaf_def child_count_def)
  next
    case (Suc k)
    then have "0 < data_count t" "child_count t = Suc (data_count t)"
      using ok shape_counts [of h t] by (auto simp: tree_ok_def MINIMUM_def)
    then show ?thesis using items_lead [of h t] ok by (simp add: bp_empty_def tree_ok_def)
  qed
qed

lemma bp_begin_position:
  assumes "tree_ok h t H"
  shows "bp_begin t = position t 0"
proof (cases "items t = []")
  case True
  then show ?thesis using empty_iff [OF assms] position_end [of t 0] by (simp add: bp_begin_def)
next
  case False
  then have "snd (hd (leaf_list t)) \<noteq> []" using tree_leaves(2) [OF assms] by simp
  then show ?thesis using False empty_iff [OF assms] cursor_hd [of "leaf_list t"]
    by (simp add: bp_begin_def position_def get_smallest_node_hd)
qed

lemma size_loop_position:
  assumes "tree_ok h t H"
  shows "size_loop t H (position t k) i = Some (i + (length (items t) - k))"
proof (induction "length (items t) - k" arbitrary: k i)
  case 0
  then show ?case using position_end [of t k] by (subst size_loop.simps) simp
next
  case (Suc n)
  then have k: "k < length (items t)" "n = length (items t) - Suc k" by simp_all
  show ?case using position_end [of t k] k Suc(1) [OF k(2)] position_next [OF assms k(1)]
    by (subst size_loop.simps) simp
qed

theorem bp_size_items: "tree_ok h t H \<Longrightarrow> bp_size t H = Some (length (items t))"
  using size_loop_position [of h t H 0 0] bp_begin_position [of h t H] empty_iff [of h t H]
  by (simp add: bp_size_def)

section \<open>Bounds\<close>

lemma nth_takeWhile_from:
  assumes "k < length xs"
  shows "length (takeWhile P (drop k xs)) =
    (if P (xs ! k) then Suc (length (takeWhile P (drop (Suc k) xs))) else 0)"
  using Cons_nth_drop_Suc [OF assms, symmetric] by simp

lemma lower_bound_loop_position:
  assumes "tree_ok h t H"
  shows "lower_bound_loop e t H (position t k) =
    Some (position t (k + length (takeWhile (\<lambda>x. fst x < fst e) (drop k (items t)))))"
proof (induction "length (items t) - k" arbitrary: k)
  case 0
  then have "position t k = bp_end" using position_end [of t k] by simp
  then show ?case using 0 by (subst lower_bound_loop.simps) simp
next
  case (Suc n)
  then have k: "k < length (items t)" "n = length (items t) - Suc k" by simp_all
  show ?case using position_end [of t k] k Suc(1) [OF k(2)] position_next [OF assms k(1)] position_deref [OF assms k(1)]
    by (subst lower_bound_loop.simps) (simp add: nth_takeWhile_from item_less_def)
qed

lemma upper_bound_loop_position:
  assumes "tree_ok h t H"
  shows "upper_bound_loop e t H (position t k) =
    Some (position t (k + length (takeWhile (\<lambda>x. fst x \<le> fst e) (drop k (items t)))))"
proof (induction "length (items t) - k" arbitrary: k)
  case 0
  then have "position t k = bp_end" using position_end [of t k] by simp
  then show ?case using 0 by (subst upper_bound_loop.simps) simp
next
  case (Suc n)
  then have k: "k < length (items t)" "n = length (items t) - Suc k" by simp_all
  show ?case using position_end [of t k] k Suc(1) [OF k(2)] position_next [OF assms k(1)] position_deref [OF assms k(1)]
    by (subst upper_bound_loop.simps) (simp add: nth_takeWhile_from item_greater_def not_le [symmetric])
qed

theorem bp_lower_bound_position:
  "tree_ok h t H \<Longrightarrow>
    bp_lower_bound e t H = Some (position t (length (takeWhile (\<lambda>x. fst x < fst e) (items t))))"
  using lower_bound_loop_position [of h t H e 0] by (simp add: bp_lower_bound_def bp_begin_position)

theorem bp_upper_bound_position:
  "tree_ok h t H \<Longrightarrow>
    bp_upper_bound e t H = Some (position t (length (takeWhile (\<lambda>x. fst x \<le> fst e) (items t))))"
  using upper_bound_loop_position [of h t H e 0] by (simp add: bp_upper_bound_def bp_begin_position)

section \<open>Search\<close>

lemma cursor_child:
  assumes "k < length (items x)"
  shows "cursor (concat (map leaf_list (A @ x # B))) (length (concat (map items A)) + k) = cursor (leaf_list x) k"
proof -
  have "leaf_items (concat (map leaf_list A)) = concat (map items A)"
    by (induction A) (simp_all add: items_def)
  then show ?thesis using assms by (simp add: cursor_append items_def)
qed

lemma find_node_absent:
  "good h t \<Longrightarrow> fst e \<notin> fst ` set (items t) \<Longrightarrow> find_node e t = Some None"
proof (induction h arbitrary: t)
  case 0
  then obtain a d where t: "t = BNode a d []" "increasing d" by (cases t) (auto simp: good_def)
  obtain ge found where l: "locate d e = (ge, found)" by (cases "locate d e") auto
  then show ?case using t locate_leaf(1) [OF t(2) l] 0 by simp
next
  case (Suc h)
  obtain a d c where t: "t = BNode a d c" by (cases t)
  obtain A x B ge found where s: "c = A @ x # B" "locate d e = (ge, found)"
      "child c (if found then ge + 1 else ge) = Some x" "good h x"
    by (rule good_step [OF Suc.prems(1) [unfolded t], of e]) metis
  have "fst e \<notin> fst ` set (items x)" using Suc.prems(2) by (simp add: t s(1) items_split_node image_Un)
  then show ?case using Suc.IH s by (simp add: t)
qed

lemma find_node_present:
  "good h t \<Longrightarrow> k < length (items t) \<Longrightarrow> fst (items t ! k) = fst e \<Longrightarrow>
    \<exists>a i. find_node e t = Some (Some (a, i)) \<and> position t k = (Some a, i)"
proof (induction h arbitrary: t k)
  case 0
  then obtain a d where t: "t = BNode a d []" "increasing d" by (cases t) (auto simp: good_def)
  show ?case
    using t(2)
  proof (cases rule: locate_split [of d e])
    case (1 d1 d2)
    then have "fst e \<notin> fst ` set d" by force
    moreover have "fst e \<in> fst ` set d" using 0(2,3) t(1) by (metis image_eqI items_leaf nth_mem)
    ultimately show ?thesis by simp
  next
    case (2 d1 s d2)
    have "k = length d1"
    proof (rule ccontr)
      assume "k \<noteq> length d1"
      then have "d ! k \<in> set d1 \<union> set d2"
        using 0(2) t(1) 2(1) by (auto simp: nth_append nth_Cons split: nat.splits)
      then show False using 0(3) t(1) 2(4,5) by (auto simp: less_le)
    qed
    then show ?thesis using t 2 0(2) by (simp add: position_def)
  qed
next
  case (Suc h)
  obtain a d c where t: "t = BNode a d c" by (cases t)
  obtain A x B ge found where s: "c = A @ x # B" "locate d e = (ge, found)"
      "child c (if found then ge + 1 else ge) = Some x" "good h x"
      "\<forall>y \<in> set (concat (map items A)). fst y < fst e" "\<forall>y \<in> set (concat (map items B)). fst e < fst y"
    by (rule good_step [OF Suc.prems(1) [unfolded t], of e]) metis
  let ?n = "length (concat (map items A))"
  have it: "items t = concat (map items A) @ items x @ concat (map items B)" by (simp add: t s(1) items_split_node)
  have ne: "items t ! k \<notin> set (concat (map items A)) \<union> set (concat (map items B))"
    using s(5,6) Suc.prems(3) by (auto simp: less_le simp del: set_concat)
  have k: "?n \<le> k" "k - ?n < length (items x)" "items t ! k = items x ! (k - ?n)"
  proof -
    show n: "?n \<le> k" using ne unfolding it by (rule contrapos_np) (simp add: nth_append del: set_concat)
    show "k - ?n < length (items x)"
    proof (rule ccontr)
      assume m: "\<not> k - ?n < length (items x)"
      then have "items t ! k = concat (map items B) ! (k - ?n - length (items x))"
        using n unfolding it by (simp add: nth_append)
      moreover have "k - ?n - length (items x) < length (concat (map items B))"
        using n m Suc.prems(2) unfolding it length_append by linarith
      ultimately show False using ne by (metis UnCI nth_mem)
    qed
    then show "items t ! k = items x ! (k - ?n)" using n unfolding it by (simp add: nth_append)
  qed
  obtain b i where r: "find_node e x = Some (Some (b, i))" "position x (k - ?n) = (Some b, i)"
    using Suc.IH [OF s(4) k(2)] Suc.prems(3) k(3) by auto
  have "position t k = position x (k - ?n)"
    using cursor_child [OF k(2), of A B] k(1) by (simp add: position_def t s(1) leaf_list_node)
  then show ?case using r s(1-3) by (simp add: t)
qed

theorem bp_find_position:
  assumes "tree_ok h t H"
  shows "fst e \<notin> fst ` set (items t) \<Longrightarrow> bp_find e t = Some bp_end"
    and "k < length (items t) \<Longrightarrow> fst (items t ! k) = fst e \<Longrightarrow> bp_find e t = Some (position t k)"
proof -
  show "bp_find e t = Some bp_end" if "fst e \<notin> fst ` set (items t)"
    using find_node_absent [OF tree_ok_good [OF assms] that] by (simp add: bp_find_def)
  show "bp_find e t = Some (position t k)" if k: "k < length (items t)" "fst (items t ! k) = fst e"
  proof -
    obtain a i where "find_node e t = Some (Some (a, i))" "position t k = (Some a, i)"
      using find_node_present [OF tree_ok_good [OF assms] k] by blast
    then show ?thesis by (simp add: bp_find_def)
  qed
qed

end
