(* ===== verification/Bplus_Whole.thy ===== *)
theory Bplus_Whole
  imports Bplus_Iterate
begin

text \<open>
  The operations of the in-memory B+ tree on whole trees: the validity check, the bounds on nodes, height
  and count, copies and assignment, the constructor from an array, and the write through the reference
  that \<open>get\<close> returns.
\<close>

section \<open>Validity check\<close>

lemma data_keys:
  assumes "shape h t" and "exact t" and "0 < data_count t"
  shows "fst ` set (bp_data t) \<subseteq> fst ` set (items t)"
proof (cases h)
  case 0
  then show ?thesis using assms by (cases t) auto
next
  case (Suc k)
  obtain a d c where t: "t = BNode a d c" by (cases t)
  have s: "length c = Suc (length d)" "\<forall>u \<in> set c. shape k u \<and> kid_count u" using assms(1) Suc t by auto
  then have d: "map fst d = map first_lead (tl c)" using exact_node [of c d k a] assms(2) t by simp
  have "first_lead u \<in> fst ` set (items t)" if "u \<in> set (tl c)" for u
  proof -
    have u: "u \<in> set c" using that by (cases c) auto
    then have i: "items u \<noteq> []" "first_lead u = fst (hd (items u))"
      using items_lead [of k u] s(2) by (simp_all add: kid_count_pos)
    have "set (items u) \<subseteq> set (items t)" unfolding t using u by (subst items_node) auto
    then show ?thesis using i by (metis hd_in_set image_eqI subsetD)
  qed
  then have "fst ` set d \<subseteq> fst ` set (items t)" by (metis d image_subset_iff list.set_map)
  then show ?thesis by (simp add: t)
qed

lemma valid_loop_true:
  assumes "length c = Suc (length d)" and "map fst d = map first_lead (tl c)"
    and "\<forall>u \<in> set c. good h u \<and> kid_count u \<and> is_valid u = Some True" and "increasing (concat (map items c))"
  shows "valid_loop d c (map is_valid c) = Some True"
  using assms
proof (induction d arbitrary: c)
  case Nil
  then show ?case by (cases c) auto
next
  case (Cons x d)
  then obtain s s' c' where c: "c = s # s' # c'" by (cases c; cases "tl c") auto
  have g: "shape h s" "exact s" "0 < data_count s" "shape h s'" "exact s'" "0 < data_count s'"
    using Cons.prems(3) kid_count_pos by (auto simp: c good_def)
  have x: "fst x = fst (hd (items s'))" "items s' \<noteq> []" using Cons.prems(2) items_lead [OF g(4,6)] by (simp_all add: c)
  have i: "\<forall>y \<in> set (items s). \<forall>z \<in> set (items s'). fst y < fst z" "increasing (items s')"
    "increasing (concat (map items (s' # c')))"
    using Cons.prems(4) by (auto simp: c increasing_append)
  have "fst y < fst x" if "y \<in> set (bp_data s)" for y
  proof -
    have "fst y \<in> fst ` set (items s)" using data_keys [OF g(1-3)] that by blast
    then show ?thesis using i(1) x by (auto simp: hd_in_set)
  qed
  then have gt: "is_gt (bp_data s) x" by (auto simp: is_gt_def item_le_def not_le)
  have "fst x \<le> fst y" if "y \<in> set (bp_data s')" for y
  proof -
    have "fst y \<in> fst ` set (items s')" using data_keys [OF g(4-6)] that by blast
    then show ?thesis using i(2) x by (cases "items s'") (auto simp: less_imp_le)
  qed
  then have le: "is_le (bp_data s') x" by (auto simp: is_le_def item_less_def not_less)
  obtain y where y: "get_small s' = Some y" "fst y = first_lead s'" using get_small_items [of h s'] g(4,6) by blast
  have e: "item_eq x y" using y(2) Cons.prems(2) by (simp add: c item_eq_def)
  have "valid_loop d (s' # c') (map is_valid (s' # c')) = Some True"
    using Cons.prems i(3) by (intro Cons.IH) (auto simp: c)
  then show ?case using gt le y(1) e Cons.prems(3) by (simp add: c)
qed

lemma increasing_nth: "increasing d \<Longrightarrow> Suc i < length d \<Longrightarrow> \<not> fst (d ! Suc i) < fst (d ! i)"
  by (simp add: increasing_def sorted_wrt_iff_nth_less) (metis less_Suc_eq less_imp_not_less)

lemma is_valid_good:
  "good h t \<Longrightarrow> data_count t \<le> MAXIMUM \<Longrightarrow> 0 < h \<longrightarrow> MINIMUM \<le> data_count t \<Longrightarrow> is_valid t = Some True"
proof (induction h arbitrary: t)
  case 0
  then obtain a d where t: "t = BNode a d []" "increasing d" by (cases t) (auto simp: good_def)
  have "\<not> item_greater (d ! i) (d ! Suc i)" if "i < length d - 1" for i
    using increasing_nth [OF t(2), of i] that by (simp add: item_greater_def)
  then show ?case using 0 t by (auto simp: data_count_def MINIMUM_def Suc_le_eq)
next
  case (Suc h)
  obtain a d c where t: "t = BNode a d c" by (cases t)
  have s: "length c = Suc (length d)" "\<forall>u \<in> set c. shape h u \<and> kid_count u" "increasing (items t)"
    using Suc.prems(1) t by (auto simp: good_def)
  have d: "map fst d = map first_lead (tl c)"
    using exact_node [of c d h a] s Suc.prems(1) t by (simp add: good_def)
  have k: "\<forall>u \<in> set c. good h u \<and> kid_count u" using good_child [OF Suc.prems(1) [unfolded t]] by blast
  have v: "\<forall>u \<in> set c. is_valid u = Some True" using Suc.IH k by (auto simp: kid_count_def)
  have inc: "increasing (concat (map items c))" using s(1,3) items_node [of c a d] by (cases c) (auto simp: t)
  have l: "valid_loop d c (map is_valid c) = Some True" using valid_loop_true [OF s(1) d _ inc] k v by blast
  obtain x B where c: "c = x # B" "length B = length d" using s(1) by (cases c) auto
  have "increasing ([] @ d)"
    using separator_bounds(4) [of "[]" d "[]" x B h] d inc s(2) by (simp add: c kid_count_pos)
  then have "\<not> item_greater (d ! i) (d ! (i + 1))" if "i < length d - 1" for i
    using increasing_nth [of d i] that by (simp add: item_greater_def)
  then have "\<not> (\<exists>i < length d - 1. item_greater (d ! i) (d ! (i + 1)))" by blast
  then show ?case using l s(1) c(1) Suc.prems(2,3) by (auto simp: t data_count_def MAXIMUM_def)
qed

theorem is_valid_tree: "tree_ok h t H \<Longrightarrow> is_valid t = Some True"
  using is_valid_good [OF tree_ok_good] by (auto simp: tree_ok_def)

section \<open>Bounds\<close>

lemma nodes_fit:
  "shape h t \<Longrightarrow> data_count t \<le> MAXIMUM \<Longrightarrow> n \<in> set (bp_nodes t) \<Longrightarrow>
    data_count n \<le> MAXIMUM \<and> child_count n \<le> Suc MAXIMUM"
proof (induction h arbitrary: t)
  case 0
  then show ?case by (cases t) (auto simp: child_count_def)
next
  case (Suc h)
  obtain a d c where t: "t = BNode a d c" by (cases t)
  show ?case
  proof (cases "n = t")
    case True
    then show ?thesis using Suc.prems by (auto simp: t child_count_def data_count_def)
  next
    case False
    then obtain u where "u \<in> set c" "n \<in> set (bp_nodes u)" using Suc.prems(3) by (auto simp: t)
    then show ?thesis using Suc.IH [of u] Suc.prems(1) by (auto simp: t kid_count_def)
  qed
qed

lemma height_items: "shape h t \<Longrightarrow> 0 < data_count t \<Longrightarrow> 2 ^ h \<le> length (items t)"
proof (induction h arbitrary: t)
  case 0
  then show ?case by (cases t) (auto simp: data_count_def Suc_le_eq)
next
  case (Suc h)
  obtain a d c where t: "t = BNode a d c" by (cases t)
  obtain u v c' where c: "c = u # v # c'" using Suc.prems by (cases c; cases "tl c") (auto simp: t data_count_def)
  have "2 ^ h \<le> length (items u)" "2 ^ h \<le> length (items v)"
    using Suc.IH [of u] Suc.IH [of v] Suc.prems(1) by (simp_all add: t c kid_count_pos)
  then show ?case using items_node [of c a d] by (simp add: t c)
qed

theorem tree_bounds:
  assumes "tree_ok h t H"
  shows "n \<in> set (bp_nodes t) \<Longrightarrow> data_count n \<le> MAXIMUM \<and> child_count n \<le> Suc MAXIMUM"
    and "items t \<noteq> [] \<Longrightarrow> 2 ^ h \<le> length (items t)"
proof -
  show "n \<in> set (bp_nodes t) \<Longrightarrow> data_count n \<le> MAXIMUM \<and> child_count n \<le> Suc MAXIMUM"
    using nodes_fit assms by (auto simp: tree_ok_def)
  assume "items t \<noteq> []"
  then have "0 < data_count t" using assms by (cases h; cases t) (auto simp: tree_ok_def data_count_def MINIMUM_def)
  then show "2 ^ h \<le> length (items t)" using height_items assms by (auto simp: tree_ok_def)
qed

text \<open>\<open>count\<close> adds up the items of all nodes: the items of the leaves, and the separators as well.\<close>

lemma length_weave: "length d = length ss \<Longrightarrow> length (weave d ss) = length d + sum_list (map length ss)"
proof (induction d arbitrary: ss)
  case (Cons x d)
  then show ?case by (cases ss) auto
qed (auto simp: weave_def)

lemma bp_count_items: "shape h t \<Longrightarrow> bp_count t = length (items t) + length (seps t)"
proof (induction h arbitrary: t)
  case 0
  then show ?case by (cases t) auto
next
  case (Suc h)
  obtain a d c where t: "t = BNode a d c" by (cases t)
  obtain u us where c: "c = u # us" "length us = length d" using Suc.prems by (cases c) (auto simp: t)
  have "map bp_count c = map (\<lambda>v. length (items v) + length (seps v)) c"
    using Suc by (intro map_cong) (auto simp: t)
  then have "sum_list (map bp_count c) = sum_list (map (\<lambda>v. length (items v) + length (seps v)) c)"
    by (rule arg_cong)
  also have "\<dots> = sum_list (map (\<lambda>v. length (items v)) c) + sum_list (map (\<lambda>v. length (seps v)) c)"
    by (rule sum_list_addf)
  finally show ?case using c(2) items_node [of c a d] by (simp add: t c(1) length_weave length_concat comp_def)
qed

section \<open>Copies\<close>

lemma tree_ok_frame:
  assumes "tree_ok h t H" and "next_addr H \<le> next_addr H'"
    and "\<And>b. b \<in> set (addrs t) \<Longrightarrow> next_of H' b = next_of H b"
  shows "tree_ok h t H'"
proof -
  have "linked (next_of H') (leaf_addrs t) None = linked (next_of H) (leaf_addrs t) None"
    using assms(3) set_leaf_addrs [of t] by (intro linked_cong) blast
  moreover have "bp_addr t \<in> set (addrs t)" by (cases t) simp
  ultimately show ?thesis using assms by (auto simp: tree_ok_def dest: order_less_le_trans)
qed

definition before :: "nat option \<Rightarrow> nat list" where
  "before p = (case p of None \<Rightarrow> [] | Some l \<Rightarrow> [l])"

definition same_tree :: "('k, 'v) bptree \<Rightarrow> ('k, 'v) bptree \<Rightarrow> bool" where
  "same_tree t' t \<longleftrightarrow> (\<forall>h. shape h t \<longrightarrow> shape h t') \<and> bp_data t' = bp_data t \<and> seps t' = seps t \<and>
     map snd (leaf_list t') = map snd (leaf_list t)"

lemma same_tree_node:
  assumes "list_all2 same_tree c' c"
  shows "same_tree (BNode a d c') (BNode b d c)"
proof -
  have e: "map seps c' = map seps c" "map snd (concat (map leaf_list c')) = map snd (concat (map leaf_list c))"
    using assms by (induction rule: list_all2_induct) (auto simp: same_tree_def)
  have len: "length c' = length c" using assms by (rule list_all2_lengthD)
  have kids: "\<forall>u \<in> set c'. shape h u \<and> kid_count u" if "\<forall>u \<in> set c. shape h u \<and> kid_count u" for h
  proof
    fix u
    assume "u \<in> set c'"
    then obtain v where "v \<in> set c" "same_tree u v" using assms by (metis in_set_conv_nth list_all2_conv_all_nth)
    then show "shape h u \<and> kid_count u" using that by (simp add: same_tree_def kid_count_def data_count_def)
  qed
  have "shape h (BNode a d c')" if "shape h (BNode b d c)" for h
  proof (cases h)
    case (Suc k)
    then show ?thesis using that kids [of k] len by simp
  qed (use that len in simp)
  then show ?thesis using e len by (cases c; cases c') (simp_all add: same_tree_def)
qed

lemma same_tree_items: "same_tree t' t \<Longrightarrow> items t' = items t"
  by (simp add: same_tree_def items_def)

lemma same_tree_exact:
  assumes "same_tree t' t"
  shows "exact t' \<longleftrightarrow> exact t"
proof -
  have "map lead (tl l) = map (\<lambda>d. fst (hd d)) (tl (map snd l))" for l :: "(nat \<times> ('a, 'b) item list) list"
    by (induction l) (simp_all add: lead_def comp_def cong: map_cong)
  then show ?thesis using assms by (simp add: same_tree_def exact_def lead_ok_def)
qed

text \<open>One step of \<open>copy_tree\<close> extends the chain of leaves, from the last leaf copied before it.\<close>

definition chained :: "nat option \<Rightarrow> bheap \<Rightarrow> nat list \<Rightarrow> nat option \<Rightarrow> bheap \<Rightarrow> bool" where
  "chained p H L p' H' \<longleftrightarrow> next_addr H \<le> next_addr H' \<and> linked (next_of H') (before p @ L) None \<and>
     (L = [] \<longrightarrow> p' = p) \<and> (L \<noteq> [] \<longrightarrow> p' = Some (List.last L)) \<and>
     (\<forall>b < next_addr H. b \<notin> set L \<longrightarrow> p \<noteq> Some b \<longrightarrow> next_of H' b = next_of H b)"

lemma linked_snoc: "linked nx (as @ [x]) None \<longleftrightarrow> linked nx as (Some x) \<and> nx x = None"
  by (simp add: linked_append)

lemma chained_append:
  assumes "chained p H L1 p1 H1" and "chained p1 H1 L2 p2 H2"
    and "distinct (before p @ L1)" and "\<forall>b \<in> set (before p @ L1). b < next_addr H1"
    and "set L2 \<inter> set (before p @ L1) = {}" and "\<forall>b < next_addr H. b \<notin> set L2"
  shows "chained p H (L1 @ L2) p2 H2"
proof (cases "before p @ L1 = []")
  case True
  then show ?thesis using assms by (auto simp: chained_def before_def split: option.splits)
next
  case False
  then obtain as x where as: "before p @ L1 = as @ [x]" by (cases "before p @ L1" rule: rev_cases) auto
  have p1: "p1 = Some x"
  proof (cases "L1 = []")
    case True
    then show ?thesis using as assms(1) by (auto simp: chained_def before_def split: option.splits)
  next
    case False
    then show ?thesis using as assms(1) by (metis chained_def last_appendR last_snoc)
  qed
  have c1: "linked (next_of H1) as (Some x)" using assms(1) as linked_snoc by (auto simp: chained_def)
  have c2: "linked (next_of H2) (x # L2) None" using assms(2) p1 by (simp add: chained_def before_def)
  have "linked (next_of H2) as (Some x) = linked (next_of H1) as (Some x)"
  proof (rule linked_cong)
    fix b
    assume b: "b \<in> set as"
    then have "b \<noteq> x" "b \<in> set (before p @ L1)" using assms(3) unfolding as by auto
    then show "next_of H2 b = next_of H1 b" using assms(2,4,5) p1 by (auto simp: chained_def)
  qed
  then have "linked (next_of H2) (as @ x # L2) None" using c1 c2 by (simp add: linked_append)
  then have l: "linked (next_of H2) (before p @ L1 @ L2) None"
    using as by (metis append.assoc append_Cons append_Nil)
  have f: "next_of H2 b = next_of H b" if "b < next_addr H" "b \<notin> set (L1 @ L2)" "p \<noteq> Some b" for b
  proof -
    have "x \<in> set (before p @ L1)" using as by simp
    then have "b \<noteq> x" using that by (auto simp: before_def split: option.splits)
    then have "next_of H2 b = next_of H1 b" using assms(1,2) that p1 by (auto simp: chained_def)
    then show ?thesis using assms(1) that by (auto simp: chained_def)
  qed
  show ?thesis
    using l f assms(1,2) by (cases "L2 = []") (auto simp: chained_def)
qed

definition fresh_from :: "bheap \<Rightarrow> bheap \<Rightarrow> nat list \<Rightarrow> bool" where
  "fresh_from H H' as \<longleftrightarrow> next_addr H \<le> next_addr H' \<and> distinct as \<and> set as \<subseteq> {next_addr H..<next_addr H'}"

lemma fresh_append:
  "fresh_from H H1 as \<Longrightarrow> fresh_from H1 H2 bs \<Longrightarrow> fresh_from H H2 (as @ bs)"
  by (fastforce simp: fresh_from_def)

lemma concat_leaf_addrs: "set (concat (map leaf_addrs c)) \<subseteq> set (concat (map addrs c))"
  using set_leaf_addrs by fastforce

lemma leaf_addrs_submset: "mset (leaf_addrs t) \<subseteq># mset (addrs t)"
proof (induction t)
  case (BNode a d c)
  have "mset (concat (map leaf_addrs c)) \<subseteq># mset (concat (map addrs c))"
    using BNode by (induction c) (simp_all add: subset_mset.add_mono)
  moreover have "mset (concat (map addrs c)) \<subseteq># mset (addrs (BNode a d c))"
    using mset_subset_eq_add_left [of "mset (concat (map addrs c))" "{#a#}"] by simp
  ultimately have m: "mset (concat (map leaf_addrs c)) \<subseteq># mset (addrs (BNode a d c))" by (rule subset_mset.order_trans)
  show ?case
  proof (cases "c = []")
    case False
    then show ?thesis using m by (metis leaf_addrs_node)
  qed simp
qed

lemmas distinct_leaf_addrs = distinct_submset [OF leaf_addrs_submset]

lemma copy_tree_correct:
  "copy_tree a (t :: ('k, 'v) bptree) p H = (t', p', H') \<Longrightarrow> a < next_addr H \<Longrightarrow> (\<forall>l. p = Some l \<longrightarrow> l < next_addr H \<and> l \<noteq> a \<and> next_of H l = None) \<Longrightarrow>
     same_tree t' t \<and> bp_addr t' = a \<and> fresh_from H H' (tl (addrs t')) \<and>
     chained p (set_link a None H) (leaf_addrs t') p' H'"
  and copy_subset_correct:
  "copy_subset (ts :: ('k, 'v) bptree list) p H = (ts', p', H') \<Longrightarrow> (\<forall>l. p = Some l \<longrightarrow> l < next_addr H \<and> next_of H l = None) \<Longrightarrow>
     list_all2 same_tree ts' ts \<and> fresh_from H H' (concat (map addrs ts')) \<and>
     chained p H (concat (map leaf_addrs ts')) p' H'"
proof (induction a t p H and ts p H arbitrary: t' p' H' and ts' p' H' rule: copy_tree_copy_subset.induct)
  case (1 a b d c p H)
  obtain c' p1 H1 where r: "copy_subset c p (set_link a None H) = (c', p1, H1)"
    by (cases "copy_subset c p (set_link a None H)") auto
  have ih: "list_all2 same_tree c' c" "fresh_from (set_link a None H) H1 (concat (map addrs c'))"
    "chained p (set_link a None H) (concat (map leaf_addrs c')) p1 H1"
    using 1(1) [OF refl r] 1(4) by (auto simp: set_link_def)
  have t': "t' = BNode a d c'" using 1(2) r by (auto simp: Let_def split: if_splits)
  have s: "same_tree t' (BNode b d c)" using same_tree_node [OF ih(1)] t' by simp
  have fr: "fresh_from H H' (tl (addrs t')) \<and> next_addr H' = next_addr H1"
    using 1(2) r ih(2) t' by (auto simp: fresh_from_def set_link_def Let_def split: if_splits option.splits)
  show ?case
  proof (cases "c = []")
    case True
    then have c': "c' = []" "p1 = p" "H1 = set_link a None H" using r by simp_all
    have q: "p' = Some a" "H' = (case p of None \<Rightarrow> H1 | Some l \<Rightarrow> set_link l (Some a) H1)"
      using 1(2) r True by (auto simp: Let_def)
    have "chained p (set_link a None H) [a] p' H'"
      using 1(4) q c' by (cases p) (auto simp: chained_def before_def set_link_def)
    then show ?thesis using s fr t' c' by simp
  next
    case False
    then have q: "p' = p1" "H' = H1" using 1(2) r by (auto simp: Let_def)
    have "c' \<noteq> []" using ih(1) False by auto
    then show ?thesis using s fr t' ih(3) q by (simp add: leaf_addrs_node)
  qed
next
  case (2 p H)
  then show ?case by (auto simp: fresh_from_def chained_def before_def split: option.splits)
next
  case (3 t ts p H)
  obtain a H0 where n: "new_tree H = (a, H0)" by (cases "new_tree H") auto
  obtain u p1 H1 where r1: "copy_tree a t p H0 = (u, p1, H1)" by (cases "copy_tree a t p H0") auto
  obtain us p2 H2 where r2: "copy_subset ts p1 H1 = (us, p2, H2)" by (cases "copy_subset ts p1 H1") auto
  have a: "a = next_addr H" "next_addr H0 = Suc a" "next_of H0 = (next_of H)(a := None)"
    using n by (auto simp: new_tree_def)
  have pp: "\<forall>l. p = Some l \<longrightarrow> l < next_addr H0 \<and> l \<noteq> a \<and> next_of H0 l = None" using 3(4) a by auto
  have h1: "same_tree u t" "bp_addr u = a" "fresh_from H0 H1 (tl (addrs u))"
    "chained p (set_link a None H0) (leaf_addrs u) p1 H1"
    using 3(1) [OF n [symmetric] refl r1 _ pp] a(1,2) by simp_all
  have au: "addrs u = a # tl (addrs u)" using h1(2) by (cases u) simp
  have fu: "fresh_from H H1 (addrs u)" using h1(3) a by (subst au) (fastforce simp: fresh_from_def)
  have la: "set (leaf_addrs u) \<subseteq> {next_addr H..<next_addr H1}" using fu set_leaf_addrs [of u] by (auto simp: fresh_from_def)
  have du: "distinct (leaf_addrs u)" using fu distinct_leaf_addrs by (auto simp: fresh_from_def)
  have p1: "p1 = Some (List.last (leaf_addrs u))" using h1(4) by (simp add: chained_def)
  have cu: "chained p H (leaf_addrs u) p1 H1"
    using h1(4) a by (auto simp: chained_def set_link_def)
  have "linked (next_of H1) (leaf_addrs u) None"
    using h1(4) by (auto simp: chained_def linked_append)
  then have last_null: "next_of H1 (List.last (leaf_addrs u)) = None"
    by (metis append_butlast_last_id leaf_addrs_ne linked_snoc)
  have "List.last (leaf_addrs u) < next_addr H1" using la last_in_set [OF leaf_addrs_ne] by fastforce
  then have h2: "list_all2 same_tree us ts" "fresh_from H1 H2 (concat (map addrs us))"
    "chained p1 H1 (concat (map leaf_addrs us)) p2 H2"
    using 3(2) [OF n [symmetric] refl r1 [symmetric] refl refl r2] p1 last_null by auto
  have c2: "set (concat (map leaf_addrs us)) \<subseteq> {next_addr H1..<next_addr H2}"
    using h2(2) concat_leaf_addrs [of us] by (auto simp: fresh_from_def)
  have "chained p H (leaf_addrs u @ concat (map leaf_addrs us)) p2 H2"
  proof (rule chained_append [OF cu h2(3)])
    have old: "\<forall>b \<in> set (before p). b < next_addr H" using 3(4) by (simp add: before_def split: option.splits)
    have le: "next_addr H \<le> next_addr H1" using fu by (simp add: fresh_from_def)
    show "distinct (before p @ leaf_addrs u)" using old la du by (cases p) (auto simp: before_def)
    show "\<forall>b \<in> set (before p @ leaf_addrs u). b < next_addr H1" using old la le by fastforce
    then show "set (concat (map leaf_addrs us)) \<inter> set (before p @ leaf_addrs u) = {}" using c2 by fastforce
    show "\<forall>b < next_addr H. b \<notin> set (concat (map leaf_addrs us))" using c2 le by fastforce
  qed
  moreover have "ts' = u # us" "p' = p2" "H' = H2" using 3(3) n r1 r2 by (auto simp: Let_def)
  ultimately show ?case using h1(1) h2(1) fresh_append [OF fu h2(2)] by simp
qed

text \<open>A copy at the address \<open>a\<close> has the items of the source, shares no node with it, and changes no link
  of another tree.\<close>

theorem bp_copy_tree:
  assumes "tree_ok h t H" and "a < next_addr H" and "bp_copy t a H = (t', H')"
  shows "tree_ok h t' H'" and "items t' = items t" and "bp_addr t' = a" and "next_addr H \<le> next_addr H'"
    and "set (addrs t') \<subseteq> insert a {next_addr H..<next_addr H'}"
    and "b < next_addr H \<Longrightarrow> b \<noteq> a \<Longrightarrow> next_of H' b = next_of H b"
proof -
  obtain p' where r: "copy_tree a t None H = (t', p', H')"
    using assms(3) by (auto simp: bp_copy_def split: prod.splits)
  have c: "same_tree t' t" "bp_addr t' = a" "fresh_from H H' (tl (addrs t'))"
    "chained None (set_link a None H) (leaf_addrs t') p' H'"
    using copy_tree_correct [OF r assms(2)] by simp_all
  have ad: "addrs t' = a # tl (addrs t')" using c(2) by (cases t') simp
  show i: "items t' = items t" using same_tree_items [OF c(1)] .
  show "bp_addr t' = a" using c(2) .
  show "next_addr H \<le> next_addr H'" using c(3) by (simp add: fresh_from_def)
  show sub: "set (addrs t') \<subseteq> insert a {next_addr H..<next_addr H'}"
    using c(3) by (subst ad) (auto simp: fresh_from_def)
  show old: "next_of H' b = next_of H b" if "b < next_addr H" "b \<noteq> a" for b
  proof -
    have "b \<notin> set (addrs t')" using sub that by auto
    then have "b \<notin> set (leaf_addrs t')" using set_leaf_addrs [of t'] by blast
    then show ?thesis using c(4) that by (auto simp: chained_def set_link_def)
  qed
  have pl: "placed (addrs t') H'"
    using c(3) assms(2) unfolding placed_def by (subst (1 2) ad) (auto simp: fresh_from_def)
  have s: "shape h t" "exact t" "increasing (items t)" "data_count t \<le> MAXIMUM" "0 < h \<longrightarrow> MINIMUM \<le> data_count t"
    using assms(1) by (auto simp: tree_ok_def)
  have sh: "shape h t'" using c(1) s(1) by (simp add: same_tree_def)
  have dc: "data_count t' = data_count t" using c(1) by (simp add: same_tree_def data_count_def)
  have root: "next_of H' (bp_addr t') = None" if pos: "0 < h"
  proof -
    obtain k where "h = Suc k" using pos by (cases h) auto
    then have "bp_addr t' \<notin> set (leaf_addrs t')" using root_not_leaf sh pl by (auto simp: placed_def)
    then show ?thesis using c(2,4) assms(2) by (auto simp: chained_def set_link_def)
  qed
  show "tree_ok h t' H'"
    using sh same_tree_exact [OF c(1)] s i dc pl root c(4)
    by (intro tree_okI) (auto simp: good_def chained_def before_def)
qed

theorem clear_tree_ok: "tree_ok h t H \<Longrightarrow> clear_tree t H = (t', H') \<Longrightarrow> tree_ok 0 t' H' \<and> items t' = []"
  by (cases t) (auto simp: clear_tree_def tree_ok_def data_count_def set_link_def)

theorem bp_assign_tree:
  assumes "tree_ok h t H" and "tree_ok k s H" and "set (addrs t) \<inter> set (addrs s) = {}"
    and "bp_assign t s H = (t', H')"
  shows "tree_ok k t' H'" and "items t' = items s" and "tree_ok k s H'"
    and "set (addrs t') \<inter> set (addrs s) = {}"
proof -
  define G where "G = set_link (bp_addr t) None H"
  have at: "bp_addr t \<in> set (addrs t)" by (cases t) simp
  then have lt: "bp_addr t < next_addr G" "bp_addr t \<notin> set (addrs s)" "next_addr G = next_addr H"
    using assms(1,3) by (auto simp: G_def set_link_def tree_ok_def)
  have r: "bp_copy s (bp_addr t) G = (t', H')" using assms(4) by (simp add: bp_assign_def clear_tree_def G_def)
  have sG: "tree_ok k s G" using assms(2) by (rule tree_ok_frame) (use lt in \<open>auto simp: G_def set_link_def\<close>)
  note c = bp_copy_tree [OF sG lt(1) r]
  show "tree_ok k t' H'" "items t' = items s" using c by simp_all
  have sa: "b < next_addr G" if "b \<in> set (addrs s)" for b using sG that by (simp add: tree_ok_def)
  show "tree_ok k s H'"
    using sG c(4) by (rule tree_ok_frame) (use c(6) sa lt in auto)
  show "set (addrs t') \<inter> set (addrs s) = {}" using c(5) sa lt by fastforce
qed

section \<open>Writing through a reference\<close>

definition adjust :: "('v \<Rightarrow> 'v) \<Rightarrow> 'k \<Rightarrow> ('k, 'v) item list \<Rightarrow> ('k, 'v) item list" where
  "adjust f k xs = map (\<lambda>x. if fst x = k then (fst x, f (snd x)) else x) xs"

lemma adjust_append [simp]: "adjust f k (xs @ ys) = adjust f k xs @ adjust f k ys"
  by (simp add: adjust_def)

lemma adjust_absent: "k \<notin> fst ` set xs \<Longrightarrow> adjust f k xs = xs"
  by (induction xs) (auto simp: adjust_def)

lemma adjust_keys [simp]: "map fst (adjust f k xs) = map fst xs"
  by (simp add: adjust_def)

definition same_keys :: "('k, 'v) bptree \<Rightarrow> ('k, 'v) bptree \<Rightarrow> bool" where
  "same_keys t' t \<longleftrightarrow> (\<forall>h. shape h t \<longrightarrow> shape h t') \<and> data_count t' = data_count t \<and> seps t' = seps t \<and>
     addrs t' = addrs t \<and> leaf_addrs t' = leaf_addrs t \<and>
     map (\<lambda>l. map fst (snd l)) (leaf_list t') = map (\<lambda>l. map fst (snd l)) (leaf_list t)"

lemma same_keys_child:
  assumes "same_keys x' x"
  shows "same_keys (BNode a d (A @ x' # B)) (BNode a d (A @ x # B))"
proof -
  have "shape h (BNode a d (A @ x' # B))" if "shape h (BNode a d (A @ x # B))" for h
    using that assms by (cases h) (auto simp: same_keys_def kid_count_def)
  moreover have "seps (BNode a d (A @ x' # B)) = seps (BNode a d (A @ x # B))"
    using assms by (cases A) (simp_all add: same_keys_def)
  ultimately show ?thesis
    using assms by (simp add: same_keys_def data_count_def leaf_addrs_node leaf_list_node)
qed

lemma same_keys_exact:
  assumes "same_keys t' t"
  shows "exact t' \<longleftrightarrow> exact t"
proof -
  have "fst (hd d) = (case map fst d of [] \<Rightarrow> fst (hd ([] :: ('a, 'b) item list)) | k # _ \<Rightarrow> k)" for d :: "('a, 'b) item list" by (cases d) auto
  then have "map lead l = map (\<lambda>ks. case ks of [] \<Rightarrow> fst (hd ([] :: ('a, 'b) item list)) | k # _ \<Rightarrow> k) (map (\<lambda>l. map fst (snd l)) l)"
    for l :: "(nat \<times> ('a, 'b) item list) list"
    by (simp add: lead_def comp_def)
  then have "map lead (leaf_list t') = map lead (leaf_list t)" using assms by (metis same_keys_def)
  then show ?thesis using assms by (simp add: exact_def lead_ok_def map_tl same_keys_def)
qed

lemma change_item_good:
  "good h t \<Longrightarrow> fst e \<in> fst ` set (items t) \<Longrightarrow>
    \<exists>t'. change_item f e t = Some t' \<and> same_keys t' t \<and> items t' = adjust f (fst e) (items t)"
proof (induction h arbitrary: t)
  case 0
  then obtain a d where t: "t = BNode a d []" "increasing d" by (cases t) (auto simp: good_def)
  show ?case
    using t(2)
  proof (cases rule: locate_split [of d e])
    case (1 d1 d2)
    then have "fst e \<notin> fst ` set d" by force
    then show ?thesis using 0 t by simp
  next
    case (2 d1 s d2)
    have n: "fst e \<notin> fst ` set d1" "fst e \<notin> fst ` set d2" using 2 by force+
    have "change_item f e t = Some (BNode a (d1 @ (fst s, f (snd s)) # d2) [])" using t 2 by simp
    moreover have "shape h (BNode a (d1 @ (fst s, f (snd s)) # d2) [])" if "shape h t" for h
      using that t by (cases h) auto
    ultimately show ?thesis using t 2 adjust_absent [OF n(1)] adjust_absent [OF n(2)]
      by (simp add: same_keys_def data_count_def) (simp add: adjust_def)
  qed
next
  case (Suc h)
  obtain a d c where t: "t = BNode a d c" by (cases t)
  obtain A x B ge found where s: "c = A @ x # B" "locate d e = (ge, found)"
      "(if found then ge + 1 else ge) = length A" "child c (if found then ge + 1 else ge) = Some x" "good h x"
      "\<forall>y \<in> set (concat (map items A)). fst y < fst e" "\<forall>y \<in> set (concat (map items B)). fst e < fst y"
    by (rule good_step [OF Suc.prems(1) [unfolded t], of e]) metis
  have n: "fst e \<notin> fst ` set (concat (map items A))" "fst e \<notin> fst ` set (concat (map items B))"
    using s(6,7) by force+
  have "fst e \<in> fst ` set (items x)"
    using Suc.prems(2) n by (simp add: t s(1) items_split_node image_Un del: set_concat)
  then obtain x' where r: "change_item f e x = Some x'" "same_keys x' x" "items x' = adjust f (fst e) (items x)"
    using Suc.IH [OF s(5)] by blast
  have "c[length A := x'] = A @ x' # B" by (simp add: s(1))
  then have run: "change_item f e t = Some (BNode a d (A @ x' # B))"
    using s(1-4) r(1) by (cases found) (auto simp: t)
  have "items (BNode a d (A @ x' # B)) = adjust f (fst e) (items t)"
    using adjust_absent [OF n(1)] adjust_absent [OF n(2)]
    by (simp add: t s(1) items_split_node r(3) del: set_concat)
  then show ?case using run same_keys_child [OF r(2), of a d A B] by (simp add: t s(1))
qed

theorem change_item_tree:
  assumes "tree_ok h t H" and "fst e \<in> fst ` set (items t)"
  shows "\<exists>t'. change_item f e t = Some t' \<and> tree_ok h t' H \<and> addrs t' = addrs t \<and> bp_addr t' = bp_addr t \<and>
    items t' = adjust f (fst e) (items t)"
proof -
  obtain t' where r: "change_item f e t = Some t'" "same_keys t' t" "items t' = adjust f (fst e) (items t)"
    using change_item_good [OF tree_ok_good [OF assms(1)] assms(2)] by blast
  have "increasing (items t') = increasing (items t)" by (simp add: increasing_def r(3))
  moreover have "bp_addr t' = bp_addr t" using r(2) by (cases t; cases t') (simp add: same_keys_def)
  ultimately have "tree_ok h t' H"
    using assms(1) r(2) same_keys_exact [OF r(2)] by (simp add: tree_ok_def same_keys_def)
  then show ?thesis using r \<open>bp_addr t' = bp_addr t\<close> by (auto simp: same_keys_def)
qed

section \<open>Element access\<close>

lemma find_increasing:
  "increasing xs \<Longrightarrow> (k, v) \<in> set xs \<Longrightarrow> List.find (\<lambda>y. fst y = k) xs = Some (k, v)"
  by (induction xs) auto

theorem bp_get_const_tree:
  assumes "tree_ok h t H"
  shows "bp_get_const e t =
    Some (case List.find (\<lambda>y. fst y = fst e) (items t) of
      None \<Rightarrow> Inl (Out_Of_Range ''BPlusTree key does not exist'') | Some x \<Rightarrow> Inr x)"
  using get_Item_good [OF tree_ok_good [OF assms]] by (simp add: bp_get_const_def)

theorem bp_get_present:
  assumes "tree_ok h t H" and "(fst e, v) \<in> set (items t)"
  shows "bp_get e t H = Some ((fst e, v), t, H)"
proof -
  have "fst e \<in> fst ` set (items t)" by (rule rev_image_eqI [OF assms(2)]) simp
  then show ?thesis
    using contains_item_good [OF tree_ok_good [OF assms(1)], of e] get_Item_good [OF tree_ok_good [OF assms(1)], of e]
      find_increasing [OF _ assms(2)] assms(1)
    by (simp add: bp_get_def tree_ok_def)
qed

theorem bp_get_absent:
  assumes "tree_ok h t H" and "fst e \<notin> fst ` set (items t)"
  shows "\<exists>t' H'. bp_insert e t H = Some (True, t', H') \<and> bp_get e t H = Some (e, t', H')"
proof -
  obtain h' t' H' where r: "bp_insert e t H = Some (True, t', H')" "tree_ok h' t' H'"
    "items t' = sorted_insert e (items t)"
    using bp_insert_absent [OF assms] by blast
  have "List.find (\<lambda>y. fst y = fst e) (items t') = Some (fst e, snd e)"
    using find_increasing [of "items t'" "fst e" "snd e"] r(2,3) by (simp add: tree_ok_def)
  then show ?thesis
    using contains_item_good [OF tree_ok_good [OF assms(1)], of e] get_Item_good [OF tree_ok_good [OF r(2)], of e] assms(2) r
    by (simp add: bp_get_def)
qed

end
