(* ===== verification/Maps.thy ===== *)
theory Maps
  imports
    Bplus_Whole
    Parser
    Table
begin

text \<open>
  The classes \<open>Map\<close> (\<open>map.h\<close>, over \<open>Pair\<close>) and \<open>MMap\<close> (\<open>mmap.h\<close>, over \<open>MPair\<close>) on the in-memory B+ tree. A map is
  its tree together with the heap of leaf links. The default value of a missing \<open>Pair\<close> is a parameter;
  that of an \<open>MPair\<close> is the empty list. \<open>None\<close> is a failed assertion or an invalid access. The locales
  \<open>ordered_store\<close> and \<open>multi_store\<close> hold the laws the clients use; they are interpreted on the tree, and
  what follows from them connects the maps to the finite maps of the parser and of the table.
\<close>

section \<open>Map\<close>

record ('k, 'v) bmap =
  map_tree :: "('k, 'v) bptree"
  map_heap :: bheap

definition bmap_of :: "('k, 'v) bptree \<times> bheap \<Rightarrow> ('k, 'v) bmap" where
  "bmap_of p = \<lparr>map_tree = fst p, map_heap = snd p\<rparr>"

definition map_new :: "bheap \<Rightarrow> ('k, 'v) bmap" where
  "map_new h = bmap_of (bp_new h)"

definition base_insert :: "('k :: linorder, 'v) item \<Rightarrow> ('k, 'v) bmap \<Rightarrow> (bool \<times> ('k, 'v) bmap) option" where
  "base_insert e m = do {
     (b, p) \<leftarrow> bp_insert e (map_tree m) (map_heap m);
     Some (b, bmap_of p)
   }"

definition base_erase :: "('k :: linorder, 'v) item \<Rightarrow> ('k, 'v) bmap \<Rightarrow> (bool \<times> ('k, 'v) bmap) option" where
  "base_erase e m = do {
     (b, p) \<leftarrow> bp_erase e (map_tree m) (map_heap m);
     Some (b, bmap_of p)
   }"

definition base_get :: "('k :: linorder, 'v) item \<Rightarrow> ('k, 'v) bmap \<Rightarrow> ('v \<times> ('k, 'v) bmap) option" where
  "base_get e m = do {
     (x, p) \<leftarrow> bp_get e (map_tree m) (map_heap m);
     Some (snd x, bmap_of p)
   }"

text \<open>A write through the reference that \<open>get\<close> returned.\<close>

definition base_write :: "('v \<Rightarrow> 'v) \<Rightarrow> ('k :: linorder, 'v) item \<Rightarrow> ('k, 'v) bmap \<Rightarrow> ('k, 'v) bmap option" where
  "base_write f e m = do {
     t \<leftarrow> change_item f e (map_tree m);
     Some (bmap_of (t, map_heap m))
   }"

definition map_insert :: "'k :: linorder \<Rightarrow> 'v \<Rightarrow> ('k, 'v) bmap \<Rightarrow> ('k, 'v) bmap option" where
  "map_insert k v m = do { (b, m') \<leftarrow> base_insert (k, v) m; Some m' }"

definition map_erase :: "'v \<Rightarrow> 'k :: linorder \<Rightarrow> ('k, 'v) bmap \<Rightarrow> ('k, 'v) bmap option" where
  "map_erase dv k m = do { (b, m') \<leftarrow> base_erase (k, dv) m; Some m' }"

text \<open>\<open>at\<close>, \<open>get\<close> and \<open>operator[]\<close>\<close>

definition map_at :: "'v \<Rightarrow> 'k :: linorder \<Rightarrow> ('k, 'v) bmap \<Rightarrow> ('v \<times> ('k, 'v) bmap) option" where
  "map_at dv k m = base_get (k, dv) m"

definition map_at_const :: "'v \<Rightarrow> 'k :: linorder \<Rightarrow> ('k, 'v) bmap \<Rightarrow> (error + 'v) option" where
  "map_at_const dv k m = do {
     r \<leftarrow> bp_get_const (k, dv) (map_tree m);
     Some (case r of Inl e \<Rightarrow> Inl e | Inr x \<Rightarrow> Inr (snd x))
   }"

text \<open>\<open>m[k] = v\<close>\<close>

definition map_put :: "'v \<Rightarrow> 'k :: linorder \<Rightarrow> 'v \<Rightarrow> ('k, 'v) bmap \<Rightarrow> ('k, 'v) bmap option" where
  "map_put dv k v m = do { (old, m') \<leftarrow> map_at dv k m; base_write (\<lambda>_. v) (k, dv) m' }"

definition map_clear :: "('k, 'v) bmap \<Rightarrow> ('k, 'v) bmap" where
  "map_clear m = bmap_of (clear_tree (map_tree m) (map_heap m))"

definition map_contains :: "('k :: linorder, 'v) item \<Rightarrow> ('k, 'v) bmap \<Rightarrow> bool option" where
  "map_contains target m = contains_item target (map_tree m)"

definition map_find :: "'v \<Rightarrow> 'k :: linorder \<Rightarrow> ('k, 'v) bmap \<Rightarrow> iterator option" where
  "map_find dv k m = bp_find (k, dv) (map_tree m)"

definition map_begin :: "('k, 'v) bmap \<Rightarrow> iterator" where
  "map_begin m = bp_begin (map_tree m)"

definition map_size :: "('k, 'v) bmap \<Rightarrow> nat option" where
  "map_size m = bp_size (map_tree m) (map_heap m)"

definition map_count :: "('k, 'v) bmap \<Rightarrow> nat" where
  "map_count m = bp_count (map_tree m)"

definition map_empty :: "('k, 'v) bmap \<Rightarrow> bool" where
  "map_empty m = bp_empty (map_tree m)"

definition map_lower_bound :: "'v \<Rightarrow> 'k :: linorder \<Rightarrow> ('k, 'v) bmap \<Rightarrow> iterator option" where
  "map_lower_bound dv k m = bp_lower_bound (k, dv) (map_tree m) (map_heap m)"

definition map_upper_bound :: "'v \<Rightarrow> 'k :: linorder \<Rightarrow> ('k, 'v) bmap \<Rightarrow> iterator option" where
  "map_upper_bound dv k m = bp_upper_bound (k, dv) (map_tree m) (map_heap m)"

definition map_next :: "('k, 'v) bmap \<Rightarrow> iterator \<Rightarrow> iterator option" where
  "map_next m it = bp_next (map_tree m) (map_heap m) it"

definition map_deref :: "('k, 'v) bmap \<Rightarrow> iterator \<Rightarrow> ('k, 'v) item option" where
  "map_deref m it = bp_deref (map_tree m) it"

definition map_is_valid :: "('k :: linorder, 'v) bmap \<Rightarrow> bool option" where
  "map_is_valid m = is_valid (map_tree m)"

section \<open>MMap\<close>

text \<open>\<open>MPair(key)\<close> has the empty list; \<open>+=\<close> and \<open>push_back\<close> append to the list in place.\<close>

type_synonym ('k, 'v) multimap = "('k, 'v list) bmap"

definition mmap_has :: "'k :: linorder \<Rightarrow> ('k, 'v) multimap \<Rightarrow> bool option" where
  "mmap_has k m = map_contains (k, []) m"

definition mm_at :: "'k :: linorder \<Rightarrow> ('k, 'v) multimap \<Rightarrow> ('v list \<times> ('k, 'v) multimap) option" where
  "mm_at k m = map_at [] k m"

definition mm_push :: "'k :: linorder \<Rightarrow> 'v \<Rightarrow> ('k, 'v) multimap \<Rightarrow> ('k, 'v) multimap option" where
  "mm_push k v m = do { (vs, m') \<leftarrow> mm_at k m; base_write (\<lambda>vs. vs @ [v]) (k, []) m' }"

definition mm_insert_key :: "'k :: linorder \<Rightarrow> ('k, 'v) multimap \<Rightarrow> ('k, 'v) multimap option" where
  "mm_insert_key k m = do {
     present \<leftarrow> mmap_has k m;
     if present then None else map_insert k [] m
   }"

definition mm_insert :: "'k :: linorder \<Rightarrow> 'v \<Rightarrow> ('k, 'v) multimap \<Rightarrow> ('k, 'v) multimap option" where
  "mm_insert k v m = do {
     present \<leftarrow> mmap_has k m;
     if present then mm_push k v m else map_insert k [v] m
   }"

definition mm_erase :: "'k :: linorder \<Rightarrow> ('k, 'v) multimap \<Rightarrow> ('k, 'v) multimap option" where
  "mm_erase k m = map_erase [] k m"

partial_function (option) size_list_loop :: "('k, 'v) multimap \<Rightarrow> iterator \<Rightarrow> nat \<Rightarrow> nat option" where
  "size_list_loop m it n =
     (if it = bp_end then Some n
      else do {
        x \<leftarrow> map_deref m it;
        it' \<leftarrow> map_next m it;
        size_list_loop m it' (n + length (snd x))
      })"

definition mm_size_list :: "('k, 'v) multimap \<Rightarrow> nat option" where
  "mm_size_list m = (if map_empty m then Some 0 else size_list_loop m (map_begin m) 0)"

text \<open>\<open>MPair\<close>: \<open>+\<close> keeps the key of the left pair.\<close>

definition mpair_plus :: "'k \<times> 'v list \<Rightarrow> 'k \<times> 'v list \<Rightarrow> 'k \<times> 'v list" where
  "mpair_plus l r = (fst l, foldl (\<lambda>vs v. vs @ [v]) (snd l) (snd r))"

definition pair_plus :: "('k :: plus \<times> 'v :: plus) \<Rightarrow> 'k \<times> 'v \<Rightarrow> 'k \<times> 'v" where
  "pair_plus l r = (fst l + fst r, snd l + snd r)"

section \<open>What a store of items promises\<close>

definition keys_in :: "('k, 'v) item list \<Rightarrow> 'k set" where
  "keys_in xs = fst ` set xs"

lemma map_of_sorted_insert:
  "fst e \<notin> fst ` set xs \<Longrightarrow> map_of (sorted_insert e xs) = (map_of xs)(fst e \<mapsto> snd e)"
proof -
  assume absent: "fst e \<notin> fst ` set xs"
  have xs: "xs = takeWhile (\<lambda>y. fst y < fst e) xs @ dropWhile (\<lambda>y. fst y < fst e) xs" by simp
  have "map_of (sorted_insert e xs) k = ((map_of xs)(fst e \<mapsto> snd e)) k" for k
  proof (cases "k = fst e")
    case True
    have "fst e \<notin> fst ` set (takeWhile (\<lambda>y. fst y < fst e) xs)" using absent by (auto dest: set_takeWhileD)
    then have "map_of (takeWhile (\<lambda>y. fst y < fst e) xs) (fst e) = None" by (simp add: map_of_eq_None_iff)
    moreover have "map_of (dropWhile (\<lambda>y. fst y < fst e) xs) (fst e) = None"
      using absent by (auto simp: map_of_eq_None_iff dest: set_dropWhileD)
    ultimately show ?thesis using True by (cases e) (simp add: sorted_insert_def map_add_def)
  next
    case False
    have "map_of xs = map_of (dropWhile (\<lambda>y. fst y < fst e) xs) ++ map_of (takeWhile (\<lambda>y. fst y < fst e) xs)"
      by (metis xs map_of_append)
    then have "map_of xs k = (map_of (dropWhile (\<lambda>y. fst y < fst e) xs) ++ map_of (takeWhile (\<lambda>y. fst y < fst e) xs)) k"
      by (rule fun_cong)
    then show ?thesis using False by (cases e) (auto simp: sorted_insert_def map_add_def split: option.splits)
  qed
  then show ?thesis by (rule ext)
qed

lemma map_of_without_key: "map_of (without_key e xs) = (map_of xs)(fst e := None)"
  by (induction xs) (auto simp: without_key_def fun_eq_iff)

lemma map_of_adjust: "map_of (adjust f k xs) = (map_of xs)(k := map_option f (map_of xs k))"
  by (induction xs) (auto simp: adjust_def fun_eq_iff)

locale ordered_store =
  fixes ok :: "'s \<Rightarrow> bool" and entries :: "'s \<Rightarrow> ('k :: linorder, 'v) item list"
    and ins del :: "('k, 'v) item \<Rightarrow> 's \<Rightarrow> (bool \<times> 's) option"
    and got :: "('k, 'v) item \<Rightarrow> 's \<Rightarrow> ('v \<times> 's) option"
    and put :: "('v \<Rightarrow> 'v) \<Rightarrow> ('k, 'v) item \<Rightarrow> 's \<Rightarrow> 's option"
    and mem :: "('k, 'v) item \<Rightarrow> 's \<Rightarrow> bool option"
  assumes ordered: "ok s \<Longrightarrow> increasing (entries s)"
    and mem: "ok s \<Longrightarrow> mem e s = Some (fst e \<in> keys_in (entries s))"
    and ins_old: "ok s \<Longrightarrow> fst e \<in> keys_in (entries s) \<Longrightarrow> ins e s = Some (False, s)"
    and ins_new: "ok s \<Longrightarrow> fst e \<notin> keys_in (entries s) \<Longrightarrow>
      \<exists>s'. ins e s = Some (True, s') \<and> ok s' \<and> entries s' = sorted_insert e (entries s)"
    and del_absent: "ok s \<Longrightarrow> fst e \<notin> keys_in (entries s) \<Longrightarrow> del e s = Some (False, s)"
    and del_present: "ok s \<Longrightarrow> fst e \<in> keys_in (entries s) \<Longrightarrow>
      \<exists>s'. del e s = Some (True, s') \<and> ok s' \<and> entries s' = without_key e (entries s)"
    and got_present: "ok s \<Longrightarrow> (fst e, v) \<in> set (entries s) \<Longrightarrow> got e s = Some (v, s)"
    and got_absent: "ok s \<Longrightarrow> fst e \<notin> keys_in (entries s) \<Longrightarrow>
      \<exists>s'. ins e s = Some (True, s') \<and> got e s = Some (snd e, s')"
    and put_present: "ok s \<Longrightarrow> fst e \<in> keys_in (entries s) \<Longrightarrow>
      \<exists>s'. put f e s = Some s' \<and> ok s' \<and> entries s' = adjust f (fst e) (entries s)"
begin

lemma keys_dom: "k \<in> keys_in (entries s) \<longleftrightarrow> map_of (entries s) k \<noteq> None"
  by (simp add: keys_in_def map_of_eq_None_iff)

lemma insert_map:
  "ok s \<Longrightarrow> \<exists>s'. ins e s = Some (map_of (entries s) (fst e) = None, s') \<and> ok s' \<and>
    map_of (entries s') = (if map_of (entries s) (fst e) = None
      then (map_of (entries s))(fst e \<mapsto> snd e) else map_of (entries s))"
  using ins_old [of s e] ins_new [of s e] keys_dom [of "fst e" s] map_of_sorted_insert [of e "entries s"]
  by (cases "fst e \<in> keys_in (entries s)") (auto simp: keys_in_def)

lemma erase_map:
  "ok s \<Longrightarrow> \<exists>s'. del e s = Some (map_of (entries s) (fst e) \<noteq> None, s') \<and> ok s' \<and>
    map_of (entries s') = (map_of (entries s))(fst e := None)"
  using del_absent [of s e] del_present [of s e] keys_dom [of "fst e" s] map_of_without_key [of e "entries s"]
  by (cases "fst e \<in> keys_in (entries s)") (auto simp: fun_upd_idem)

lemma get_map:
  "ok s \<Longrightarrow> \<exists>s'. got e s = Some (case map_of (entries s) (fst e) of None \<Rightarrow> snd e | Some v \<Rightarrow> v, s') \<and> ok s' \<and>
    map_of (entries s') = (if map_of (entries s) (fst e) = None
      then (map_of (entries s))(fst e \<mapsto> snd e) else map_of (entries s))"
proof (cases "map_of (entries s) (fst e)")
  case None
  assume "ok s"
  then show ?thesis using got_absent [of s e] insert_map [of s e] None keys_dom [of "fst e" s] by auto
next
  case (Some v)
  assume "ok s"
  then show ?thesis using got_present [of s e v] Some map_of_SomeD [OF Some] by auto
qed

lemma put_map:
  "ok s \<Longrightarrow> map_of (entries s) (fst e) = Some v \<Longrightarrow>
    \<exists>s'. put f e s = Some s' \<and> ok s' \<and> map_of (entries s') = (map_of (entries s))(fst e \<mapsto> f v)"
  using put_present [of s e f] keys_dom [of "fst e" s] map_of_adjust [of f "fst e" "entries s"] by auto

end

locale multi_store = ordered_store ok entries ins del got put mem
  for ok :: "'s \<Rightarrow> bool" and entries :: "'s \<Rightarrow> ('k :: linorder, 'a list) item list"
    and ins del got put mem
begin

lemma push_map:
  assumes "ok s"
  shows "\<exists>vs s1 s'. got (k, []) s = Some (vs, s1) \<and> put (\<lambda>vs. vs @ [v]) (k, []) s1 = Some s' \<and> ok s' \<and>
    map_of (entries s') = (map_of (entries s))(k \<mapsto> (case map_of (entries s) k of None \<Rightarrow> [v] | Some vs \<Rightarrow> vs @ [v]))"
proof -
  obtain s1 where r: "got (k, []) s = Some (case map_of (entries s) k of None \<Rightarrow> [] | Some v \<Rightarrow> v, s1)" "ok s1"
    "map_of (entries s1) = (if map_of (entries s) k = None then (map_of (entries s))(k \<mapsto> []) else map_of (entries s))"
    using get_map [OF assms, of "(k, [])", unfolded fst_conv snd_conv] by blast
  have "map_of (entries s1) k = Some (case map_of (entries s) k of None \<Rightarrow> [] | Some v \<Rightarrow> v)"
    by (simp add: r(3) split: option.splits)
  then show ?thesis using put_map [OF r(2), of "(k, [])" _ "\<lambda>vs. vs @ [v]"] r(1,3) by (auto split: option.splits if_splits)
qed

end

section \<open>The tree as a store\<close>

definition bmap_ok :: "('k :: linorder, 'v) bmap \<Rightarrow> bool" where
  "bmap_ok m \<longleftrightarrow> (\<exists>h. tree_ok h (map_tree m) (map_heap m))"

definition bmap_items :: "('k, 'v) bmap \<Rightarrow> ('k, 'v) item list" where
  "bmap_items m = items (map_tree m)"

definition contents :: "('k, 'v) bmap \<Rightarrow> 'k \<rightharpoonup> 'v" where
  "contents m = map_of (bmap_items m)"

lemma bmap_of_simps [simp]:
  "map_tree (bmap_of p) = fst p" "map_heap (bmap_of p) = snd p" "bmap_of (map_tree m, map_heap m) = m"
  by (simp_all add: bmap_of_def)

lemma bmap_okI: "tree_ok h t H \<Longrightarrow> bmap_ok (bmap_of (t, H))"
  by (auto simp: bmap_ok_def)

interpretation tree: ordered_store bmap_ok bmap_items base_insert base_erase base_get base_write map_contains
proof (unfold_locales, goal_cases)
  case (1 m)
  then show ?case by (auto simp: bmap_ok_def bmap_items_def tree_ok_def)
next
  case (2 m e)
  then obtain h where "tree_ok h (map_tree m) (map_heap m)" by (auto simp: bmap_ok_def)
  then show ?case
    using contains_item_good [OF tree_ok_good, of h "map_tree m" "map_heap m" e]
    by (simp add: bmap_items_def keys_in_def map_contains_def)
next
  case (3 m e)
  then obtain h where h: "tree_ok h (map_tree m) (map_heap m)" "fst e \<in> fst ` set (items (map_tree m))"
    by (auto simp: bmap_ok_def bmap_items_def keys_in_def)
  show ?case using bp_insert_present [OF h] by (simp add: base_insert_def)
next
  case (4 m e)
  then obtain h where h: "tree_ok h (map_tree m) (map_heap m)" "fst e \<notin> fst ` set (items (map_tree m))"
    by (auto simp: bmap_ok_def bmap_items_def keys_in_def)
  show ?case using bp_insert_absent [OF h] by (auto simp: bmap_ok_def bmap_items_def base_insert_def)
next
  case (5 m e)
  then obtain h where h: "tree_ok h (map_tree m) (map_heap m)" "fst e \<notin> fst ` set (items (map_tree m))"
    by (auto simp: bmap_ok_def bmap_items_def keys_in_def)
  show ?case using bp_erase_absent [OF h] by (simp add: base_erase_def)
next
  case (6 m e)
  then obtain h where h: "tree_ok h (map_tree m) (map_heap m)" "fst e \<in> fst ` set (items (map_tree m))"
    by (auto simp: bmap_ok_def bmap_items_def keys_in_def)
  show ?case using bp_erase_present [OF h] by (auto simp: bmap_ok_def bmap_items_def base_erase_def)
next
  case (7 m e v)
  then obtain h where h: "tree_ok h (map_tree m) (map_heap m)" "(fst e, v) \<in> set (items (map_tree m))"
    by (auto simp: bmap_ok_def bmap_items_def)
  show ?case using bp_get_present [OF h] by (simp add: base_get_def)
next
  case (8 m e)
  then obtain h where h: "tree_ok h (map_tree m) (map_heap m)" "fst e \<notin> fst ` set (items (map_tree m))"
    by (auto simp: bmap_ok_def bmap_items_def keys_in_def)
  show ?case using bp_get_absent [OF h] by (auto simp: base_insert_def base_get_def)
next
  case (9 m e f)
  then obtain h where h: "tree_ok h (map_tree m) (map_heap m)" "fst e \<in> fst ` set (items (map_tree m))"
    by (auto simp: bmap_ok_def bmap_items_def keys_in_def)
  show ?case using change_item_tree [OF h, of f] by (auto simp: bmap_ok_def bmap_items_def base_write_def)
qed

interpretation multi: multi_store bmap_ok bmap_items base_insert base_erase base_get base_write map_contains
  by unfold_locales

lemma map_new_ok:
  fixes m :: "('k :: linorder, 'v) bmap"
  assumes "m = map_new h"
  shows "bmap_ok m \<and> contents m = Map.empty"
proof -
  obtain t :: "('k, 'v) bptree" and H where n: "bp_new h = (t, H)" by (rule prod.exhaust)
  show ?thesis using new_tree_ok [OF n] by (auto simp: assms map_new_def n bmap_ok_def contents_def bmap_items_def)
qed

section \<open>Map and MMap as finite maps\<close>

lemma map_insert_contents:
  "bmap_ok m \<Longrightarrow> \<exists>m'. map_insert k v m = Some m' \<and> bmap_ok m' \<and>
    contents m' = (if k \<in> dom (contents m) then contents m else (contents m)(k \<mapsto> v))"
  using tree.insert_map [of m "(k, v)"] by (auto simp: map_insert_def contents_def)

lemma map_erase_contents:
  "bmap_ok m \<Longrightarrow> \<exists>m'. map_erase dv k m = Some m' \<and> bmap_ok m' \<and> contents m' = (contents m)(k := None)"
  using tree.erase_map [of m "(k, dv)"] by (auto simp: map_erase_def contents_def)

lemma map_at_contents:
  "bmap_ok m \<Longrightarrow> \<exists>m'. map_at dv k m = Some (case contents m k of None \<Rightarrow> dv | Some v \<Rightarrow> v, m') \<and> bmap_ok m' \<and>
    contents m' = (if contents m k = None then (contents m)(k \<mapsto> dv) else contents m)"
  using tree.get_map [of m "(k, dv)", unfolded fst_conv snd_conv]
  unfolding map_at_def contents_def by blast

lemma map_at_const_contents:
  assumes "bmap_ok m"
  shows "map_at_const dv k m = Some (case contents m k of
      None \<Rightarrow> Inl (Out_Of_Range ''BPlusTree key does not exist'') | Some v \<Rightarrow> Inr v)"
proof -
  obtain h where h: "tree_ok h (map_tree m) (map_heap m)" using assms by (auto simp: bmap_ok_def)
  have inc: "increasing (items (map_tree m))" using h by (simp add: tree_ok_def)
  have "map_option snd (List.find (\<lambda>y. fst y = k) xs) = map_of xs k" for xs :: "('a \<times> 'b) list"
    by (induction xs) auto
  note f = this [of "items (map_tree m)"]
  show ?thesis
  proof (cases "List.find (\<lambda>y. fst y = k) (items (map_tree m))")
    case None
    then show ?thesis using f bp_get_const_tree [OF h, of "(k, dv)"]
      by (simp add: map_at_const_def contents_def bmap_items_def)
  next
    case (Some x)
    then have "map_of (items (map_tree m)) k = Some (snd x)" using f by simp
    then show ?thesis using Some bp_get_const_tree [OF h, of "(k, dv)"]
      by (simp add: map_at_const_def contents_def bmap_items_def)
  qed
qed

lemma map_put_contents:
  assumes "bmap_ok m"
  shows "\<exists>m'. map_put dv k v m = Some m' \<and> bmap_ok m' \<and> contents m' = (contents m)(k \<mapsto> v)"
proof -
  obtain m1 where r: "map_at dv k m = Some (case contents m k of None \<Rightarrow> dv | Some v \<Rightarrow> v, m1)" "bmap_ok m1"
    "contents m1 = (if contents m k = None then (contents m)(k \<mapsto> dv) else contents m)"
    using map_at_contents [OF assms] by blast
  then obtain w where "contents m1 k = Some w" by (cases "contents m k") auto
  then show ?thesis using tree.put_map [OF r(2), of "(k, dv)" w "\<lambda>_. v"] r(1,3)
    by (auto simp: map_put_def contents_def split: if_splits)
qed

lemma map_contains_contents: "bmap_ok m \<Longrightarrow> map_contains e m = Some (fst e \<in> dom (contents m))"
  using tree.mem [of m e] tree.keys_dom [of "fst e" m] by (auto simp: contents_def)

lemma map_size_contents: "bmap_ok m \<Longrightarrow> map_size m = Some (card (dom (contents m)))"
proof -
  assume "bmap_ok m"
  then obtain h where h: "tree_ok h (map_tree m) (map_heap m)" by (auto simp: bmap_ok_def)
  have "distinct (map fst (items (map_tree m)))"
    using h strict_sorted_iff by (auto simp: tree_ok_def increasing_def)
  then show ?thesis using bp_size_items [OF h]
    by (simp add: map_size_def contents_def bmap_items_def dom_map_of_conv_image_fst distinct_card flip: set_map)
qed

lemma map_clear_contents: "bmap_ok m \<Longrightarrow> bmap_ok (map_clear m) \<and> contents (map_clear m) = Map.empty"
  using clear_tree_ok [of _ "map_tree m" "map_heap m"]
  by (cases "clear_tree (map_tree m) (map_heap m)") (auto simp: bmap_ok_def map_clear_def contents_def bmap_items_def)

lemma mm_push_contents:
  "bmap_ok m \<Longrightarrow> \<exists>m'. mm_push k v m = Some m' \<and> bmap_ok m' \<and>
    contents m' = (contents m)(k \<mapsto> (case contents m k of None \<Rightarrow> [v] | Some vs \<Rightarrow> vs @ [v]))"
  using multi.push_map [of m k v] by (auto simp: mm_push_def mm_at_def map_at_def contents_def)

lemma mm_insert_contents:
  assumes "bmap_ok m"
  shows "\<exists>m'. mm_insert k v m = Some m' \<and> bmap_ok m' \<and>
    contents m' = (contents m)(k \<mapsto> (case contents m k of None \<Rightarrow> [v] | Some vs \<Rightarrow> vs @ [v]))"
proof (cases "k \<in> dom (contents m)")
  case True
  then show ?thesis using mm_push_contents [OF assms] map_contains_contents [OF assms, of "(k, [])"]
    by (auto simp: mm_insert_def mmap_has_def)
next
  case False
  then show ?thesis using map_insert_contents [OF assms, of k "[v]"] map_contains_contents [OF assms, of "(k, [])"]
    by (auto simp: mm_insert_def mmap_has_def domIff)
qed

lemma mm_insert_key_contents:
  assumes "bmap_ok m"
  shows "if k \<in> dom (contents m) then mm_insert_key k m = None
    else \<exists>m'. mm_insert_key k m = Some m' \<and> bmap_ok m' \<and> contents m' = (contents m)(k \<mapsto> [])"
  using map_insert_contents [OF assms, of k "[]"] map_contains_contents [OF assms, of "(k, [])"]
  by (auto simp: mm_insert_key_def mmap_has_def)

section \<open>The parse tree\<close>

text \<open>The operations of the parser on its \<open>MMap\<close>, and a run of them on the B+ tree and on the finite map.\<close>

datatype mm_op =
    MInsert string string
  | MInsert_Key string
  | MAt string
  | MAppend string string
  | MErase string

fun mm_step :: "mm_op \<Rightarrow> (string, string) multimap \<Rightarrow> (string list \<times> (string, string) multimap) option" where
  "mm_step (MInsert k v) m = map_option (Pair []) (mm_insert k v m)"
| "mm_step (MInsert_Key k) m = map_option (Pair []) (mm_insert_key k m)"
| "mm_step (MAt k) m = mm_at k m"
| "mm_step (MAppend k v) m = map_option (Pair []) (mm_push k v m)"
| "mm_step (MErase k) m = map_option (Pair []) (mm_erase k m)"

fun tree_step :: "mm_op \<Rightarrow> parse_tree \<Rightarrow> (string list \<times> parse_tree) option" where
  "tree_step (MInsert k v) t = Some ([], mmap_insert k v t)"
| "tree_step (MInsert_Key k) t = map_option (Pair []) (mmap_insert_key k t)"
| "tree_step (MAt k) t = Some (mmap_at k t)"
| "tree_step (MAppend k v) t = Some ([], mmap_append k v t)"
| "tree_step (MErase k) t = Some ([], mmap_erase k t)"

fun run_steps :: "('o \<Rightarrow> 's \<Rightarrow> ('r \<times> 's) option) \<Rightarrow> 'o list \<Rightarrow> 's \<Rightarrow> ('r list \<times> 's) option" where
  "run_steps f [] s = Some ([], s)"
| "run_steps f (p # ps) s = do { (r, s) \<leftarrow> f p s; (rs, s) \<leftarrow> run_steps f ps s; Some (r # rs, s) }"

definition same_result :: "('r \<times> parse_tree) option \<Rightarrow> ('r \<times> (string, string) multimap) option \<Rightarrow> bool" where
  "same_result a b = (case a of None \<Rightarrow> b = None
     | Some (r, t) \<Rightarrow> (case b of None \<Rightarrow> False | Some (r', m) \<Rightarrow> r' = r \<and> bmap_ok m \<and> contents m = t))"

lemma step_refines: "bmap_ok m \<Longrightarrow> same_result (tree_step p (contents m)) (mm_step p m)"
proof (cases p)
  case (MInsert k v)
  assume "bmap_ok m"
  then show ?thesis using mm_insert_contents [of m k v] MInsert
    by (auto simp: same_result_def mmap_insert_def)
next
  case (MInsert_Key k)
  assume "bmap_ok m"
  then show ?thesis using mm_insert_key_contents [of m k] MInsert_Key
    by (cases "k \<in> dom (contents m)") (auto simp: same_result_def mmap_insert_key_def)
next
  case (MAt k)
  assume "bmap_ok m"
  then show ?thesis using map_at_contents [of m "[]" k] MAt
    by (auto simp: same_result_def mmap_at_def mm_at_def split: option.splits)
next
  case (MAppend k v)
  assume "bmap_ok m"
  then show ?thesis using mm_push_contents [of m k v] MAppend
    by (auto simp: same_result_def mmap_append_def mmap_at_def split: option.splits)
next
  case (MErase k)
  assume "bmap_ok m"
  then show ?thesis using map_erase_contents [of m "[]" k] MErase
    by (auto simp: same_result_def mmap_erase_def mm_erase_def)
qed

lemma run_refines:
  "bmap_ok m \<Longrightarrow> same_result (run_steps tree_step ps (contents m)) (run_steps mm_step ps m)"
proof (induction ps arbitrary: m)
  case Nil
  then show ?case by (simp add: same_result_def)
next
  case (Cons p ps)
  show ?case
  proof (cases "tree_step p (contents m)")
    case None
    then show ?thesis using step_refines [OF Cons.prems, of p] by (simp add: same_result_def)
  next
    case (Some rt)
    then obtain m' where m': "mm_step p m = Some (fst rt, m')" "bmap_ok m'" "contents m' = snd rt"
      using step_refines [OF Cons.prems, of p] by (auto simp: same_result_def split: option.splits)
    show ?thesis
      using Cons.IH [OF m'(2)] m' Some by (cases rt) (auto simp: same_result_def split: option.splits)
  qed
qed

section \<open>Walks over an MMap\<close>

text \<open>\<open>Table::get_record_indices\<close>: the record numbers from one iterator to another.\<close>

partial_function (option) collect_loop ::
  "('k, int) multimap \<Rightarrow> iterator \<Rightarrow> iterator \<Rightarrow> int list \<Rightarrow> int list option" where
  "collect_loop m it stop res =
     (if it = stop then Some res
      else do {
        x \<leftarrow> map_deref m it;
        it' \<leftarrow> map_next m it;
        collect_loop m it' stop (res @ snd x)
      })"

definition get_record_indices :: "('k, int) multimap \<Rightarrow> iterator \<Rightarrow> iterator \<Rightarrow> int list option" where
  "get_record_indices m start stop = (if fst start = None then Some [] else collect_loop m start stop [])"

partial_function (option) collect_others ::
  "(string, int) multimap \<Rightarrow> string \<Rightarrow> iterator \<Rightarrow> int list \<Rightarrow> int list option" where
  "collect_others m v it res =
     (if it = bp_end then Some res
      else do {
        x \<leftarrow> map_deref m it;
        it' \<leftarrow> map_next m it;
        collect_others m v it' (if fst x = v then res else res @ snd x)
      })"

text \<open>The part of \<open>selectHelp\<close> for tables without a v2 file, on the index of the field.\<close>

definition select_index :: "(string, int) multimap \<Rightarrow> string \<Rightarrow> string \<Rightarrow> int list option" where
  "select_index m op v = do {
     present \<leftarrow> (if op = ''='' then mmap_has v m else Some False);
     if present then do { (is, m') \<leftarrow> mm_at v m; Some is }
     else if op = ''<='' then do { u \<leftarrow> map_upper_bound [] v m; get_record_indices m (map_begin m) u }
     else if op = ''<'' then do { l \<leftarrow> map_lower_bound [] v m; get_record_indices m (map_begin m) l }
     else if op = ''>='' then do { l \<leftarrow> map_lower_bound [] v m; get_record_indices m l bp_end }
     else if op = ''>'' then do { u \<leftarrow> map_upper_bound [] v m; get_record_indices m u bp_end }
     else if op = ''!='' then collect_others m v (map_begin m) []
     else Some []
   }"

lemma position_inj:
  assumes "tree_ok h t H" and "j \<le> length (items t)" and "k \<le> length (items t)"
  shows "position t j = position t k \<longleftrightarrow> j = k"
proof
  assume e: "position t j = position t k"
  show "j = k"
  proof (cases "j = length (items t) \<or> k = length (items t)")
    case True
    then show ?thesis using e position_end [of t j] position_end [of t k] assms(2,3) by auto
  next
    case False
    then have "j < length (items t)" "k < length (items t)" using assms(2,3) by simp_all
    then have "items t ! j = items t ! k" using e position_deref [OF assms(1)] by (metis option.inject)
    moreover have "distinct (items t)"
      using assms(1) strict_sorted_iff distinct_map by (auto simp: tree_ok_def increasing_def)
    ultimately show ?thesis using \<open>j < _\<close> \<open>k < _\<close> by (simp add: nth_eq_iff_index_eq)
  qed
qed simp

lemma position_null: "fst (position t k) = None \<longleftrightarrow> position t k = bp_end"
proof -
  have "fst (cursor L k) = None \<longleftrightarrow> cursor L k = bp_end" for L :: "(nat \<times> ('a, 'b) item list) list"
    by (induction L k rule: cursor.induct) (auto simp: bp_end_def)
  then show ?thesis by (simp add: position_def)
qed

lemma collect_loop_positions:
  assumes "tree_ok h (map_tree m) (map_heap m)" and "j \<le> k" and "k \<le> length (bmap_items m)"
  shows "collect_loop m (position (map_tree m) j) (position (map_tree m) k) res =
    Some (res @ concat (map snd (take (k - j) (drop j (bmap_items m)))))"
  using assms(2)
proof (induction "k - j" arbitrary: j res)
  case 0
  then show ?case by (subst collect_loop.simps) simp
next
  case (Suc n)
  then have j: "j < k" "n = k - Suc j" "Suc j \<le> k" by simp_all
  have lt: "j < length (items (map_tree m))" using j(1) assms(3) by (simp add: bmap_items_def)
  have ne: "position (map_tree m) j \<noteq> position (map_tree m) k"
    using position_inj [OF assms(1), of j k] lt assms(3) j(1) by (simp add: bmap_items_def)
  have "take (k - j) (drop j (bmap_items m)) = bmap_items m ! j # take (k - Suc j) (drop (Suc j) (bmap_items m))"
    using j(1) lt by (simp add: bmap_items_def Cons_nth_drop_Suc [symmetric] Suc_diff_Suc [symmetric])
  then show ?case
    using ne position_deref [OF assms(1) lt] position_next [OF assms(1) lt] Suc(1) [OF j(2,3)]
    by (subst collect_loop.simps) (simp add: map_deref_def map_next_def bmap_items_def)
qed

lemma get_record_indices_positions:
  assumes "tree_ok h (map_tree m) (map_heap m)" and "j \<le> k" and "k \<le> length (bmap_items m)"
  shows "get_record_indices m (position (map_tree m) j) (position (map_tree m) k) =
    Some (concat (map snd (take (k - j) (drop j (bmap_items m)))))"
proof (cases "position (map_tree m) j = bp_end")
  case True
  then have "length (bmap_items m) \<le> j" using position_end [of "map_tree m" j] by (simp add: bmap_items_def)
  then show ?thesis using True by (simp add: get_record_indices_def bp_end_def)
next
  case False
  then have "fst (position (map_tree m) j) \<noteq> None" by (simp only: position_null) simp
  then show ?thesis using collect_loop_positions [OF assms, of "[]"]
    by (simp only: get_record_indices_def if_False append_Nil)
qed

lemma collect_others_position:
  assumes "tree_ok h (map_tree m) (map_heap m)"
  shows "collect_others m v (position (map_tree m) k) res =
    Some (res @ concat (map snd (filter (\<lambda>x. fst x \<noteq> v) (drop k (bmap_items m)))))"
proof (induction "length (bmap_items m) - k" arbitrary: k res)
  case 0
  then have "position (map_tree m) k = bp_end" using position_end [of "map_tree m" k] by (simp add: bmap_items_def)
  then show ?case using 0 by (subst collect_others.simps) simp
next
  case (Suc n)
  then have k: "k < length (items (map_tree m))" "n = length (bmap_items m) - Suc k" by (simp_all add: bmap_items_def)
  have "drop k (bmap_items m) = bmap_items m ! k # drop (Suc k) (bmap_items m)"
    using k(1) by (simp add: bmap_items_def Cons_nth_drop_Suc)
  then show ?case
    using k(1) position_end [of "map_tree m" k] position_deref [OF assms k(1)] position_next [OF assms k(1)] Suc(1) [OF k(2)]
    by (subst collect_others.simps) (simp add: map_deref_def map_next_def bmap_items_def)
qed

lemma size_list_loop_position:
  assumes "tree_ok h (map_tree m) (map_heap m)"
  shows "size_list_loop m (position (map_tree m) k) n =
    Some (n + sum_list (map (\<lambda>x. length (snd x)) (drop k (bmap_items m))))"
proof (induction "length (bmap_items m) - k" arbitrary: k n)
  case 0
  then have "position (map_tree m) k = bp_end" using position_end [of "map_tree m" k] by (simp add: bmap_items_def)
  then show ?case using 0 by (subst size_list_loop.simps) simp
next
  case (Suc l)
  then have k: "k < length (items (map_tree m))" "l = length (bmap_items m) - Suc k" by (simp_all add: bmap_items_def)
  have "drop k (bmap_items m) = bmap_items m ! k # drop (Suc k) (bmap_items m)"
    using k(1) by (simp add: bmap_items_def Cons_nth_drop_Suc)
  then show ?case
    using k(1) position_end [of "map_tree m" k] position_deref [OF assms k(1)] position_next [OF assms k(1)] Suc(1) [OF k(2)]
    by (subst size_list_loop.simps) (simp add: map_deref_def map_next_def bmap_items_def)
qed

lemma mm_size_list_items:
  assumes "bmap_ok m"
  shows "mm_size_list m = Some (sum_list (map (\<lambda>x. length (snd x)) (bmap_items m)))"
proof -
  obtain h where h: "tree_ok h (map_tree m) (map_heap m)" using assms by (auto simp: bmap_ok_def)
  show ?thesis using size_list_loop_position [OF h, of 0 0] bp_begin_position [OF h] empty_iff [OF h]
    by (simp add: mm_size_list_def map_empty_def map_begin_def bmap_items_def)
qed

section \<open>The index of a field\<close>

lemma keys_of_contents:
  assumes "increasing (bmap_items m)"
  shows "keys_of (contents m) = map fst (bmap_items m)"
proof -
  have "sorted (map fst (bmap_items m)) \<and> distinct (map fst (bmap_items m))"
    using assms strict_sorted_iff by (auto simp: increasing_def)
  then have "sorted_list_of_set (set (map fst (bmap_items m))) = map fst (bmap_items m)"
    by (simp only: sorted_list_of_set.idem_if_sorted_distinct)
  then show ?thesis by (simp add: keys_of_def contents_def dom_map_of_conv_image_fst)
qed

lemma records_of_items:
  assumes "increasing (bmap_items m)" and "set xs \<subseteq> set (bmap_items m)"
  shows "records_of (contents m) (map fst xs) = concat (map snd xs)"
proof -
  have "distinct (map fst (bmap_items m))" using assms(1) strict_sorted_iff by (auto simp: increasing_def)
  then have "the (contents m (fst x)) = snd x" if "x \<in> set xs" for x
  proof -
    have "(fst x, snd x) \<in> set (bmap_items m)" using that assms(2) by auto
    then have "map_of (bmap_items m) (fst x) = Some (snd x)" by (rule map_of_is_SomeI [OF \<open>distinct _\<close>])
    then show ?thesis by (simp add: contents_def)
  qed
  then have "map (\<lambda>x. the (contents m (fst x))) xs = map snd xs" by simp
  then show ?thesis unfolding records_of_def map_map comp_def by (rule arg_cong)
qed

theorem select_index_cached:
  assumes "bmap_ok m"
  shows "select_index m op v = Some (select_cached (contents m) op v)"
proof -
  let ?xs = "bmap_items m" and ?t = "map_tree m"
  obtain h where h: "tree_ok h ?t (map_heap m)" using assms by (auto simp: bmap_ok_def)
  have inc: "increasing ?xs" using h by (simp add: tree_ok_def bmap_items_def)
  have ps: "map_begin m = position ?t 0" "bp_end = position ?t (length ?xs)"
    "map_lower_bound [] v m = Some (position ?t (length (takeWhile (\<lambda>x. fst x < v) ?xs)))"
    "map_upper_bound [] v m = Some (position ?t (length (takeWhile (\<lambda>x. fst x \<le> v) ?xs)))"
    using bp_begin_position [OF h] position_end [of ?t "length ?xs"]
      bp_lower_bound_position [OF h, of "(v, [])"] bp_upper_bound_position [OF h, of "(v, [])"]
    by (simp_all add: map_begin_def map_lower_bound_def map_upper_bound_def bmap_items_def)
  have dropped: "length ?xs - length (takeWhile P ?xs) = length (dropWhile P ?xs)" for P
    by (simp add: dropWhile_eq_drop)
  have up: "get_record_indices m (map_begin m) (position ?t (length (takeWhile P ?xs))) =
      Some (records_of (contents m) (map fst (takeWhile P ?xs)))" for P
    using get_record_indices_positions [OF h, of 0 "length (takeWhile P ?xs)"] records_of_items [OF inc, of "takeWhile P ?xs"]
      set_takeWhileD [of _ P ?xs]
    by (simp add: ps(1) length_takeWhile_le takeWhile_eq_take [symmetric] subset_iff)
  have down: "get_record_indices m (position ?t (length (takeWhile P ?xs))) bp_end =
      Some (records_of (contents m) (map fst (dropWhile P ?xs)))" for P
    using get_record_indices_positions [OF h, of "length (takeWhile P ?xs)" "length ?xs"] records_of_items [OF inc, of "dropWhile P ?xs"]
      set_dropWhileD [of _ P ?xs]
    by (simp add: ps(2) length_takeWhile_le dropWhile_eq_drop [symmetric] dropped subset_iff)
  have others: "collect_others m v (map_begin m) [] = Some (records_of (contents m) (map fst (filter (\<lambda>x. fst x \<noteq> v) ?xs)))"
    using collect_others_position [OF h, of v 0 "[]"] records_of_items [OF inc, of "filter (\<lambda>x. fst x \<noteq> v) ?xs"]
    by (simp add: ps(1))
  obtain m' where at: "mm_at v m = Some (case contents m v of None \<Rightarrow> [] | Some vs \<Rightarrow> vs, m')"
    using map_at_contents [OF assms, of "[]" v] by (auto simp: mm_at_def)
  have keys: "takeWhile P (keys_of (contents m)) = map fst (takeWhile (\<lambda>x. P (fst x)) ?xs)"
    "dropWhile P (keys_of (contents m)) = map fst (dropWhile (\<lambda>x. P (fst x)) ?xs)"
    "filter P (keys_of (contents m)) = map fst (filter (\<lambda>x. P (fst x)) ?xs)" for P
    by (simp_all add: keys_of_contents [OF inc] takeWhile_map dropWhile_map filter_map comp_def)
  have not_less_v: "(\<lambda>x :: string \<times> int list. \<not> v < fst x) = (\<lambda>x. fst x \<le> v)" by (auto simp: not_less)
  show ?thesis
    unfolding select_index_def select_cached_def keys not_less_v ps(3,4) mmap_has_def map_contains_contents [OF assms]
    using at by (auto simp: up down others)
qed

text \<open>The index of one field, filled row by row: \<open>cache[field].insert(value, index)\<close>.\<close>

fun index_rows :: "(string \<times> int) list \<Rightarrow> (string, int) multimap \<Rightarrow> (string, int) multimap option" where
  "index_rows [] m = Some m"
| "index_rows ((v, i) # rows) m = do { m' \<leftarrow> mm_insert v i m; index_rows rows m' }"

lemma index_rows_contents:
  assumes "bmap_ok m" and "c f = Some (contents m)"
  shows "\<exists>m'. index_rows rows m = Some m' \<and> bmap_ok m' \<and>
    foldl (\<lambda>c (v, i). cache_insert f v i c) c rows f = Some (contents m')"
  using assms
proof (induction rows arbitrary: m c)
  case (Cons r rows)
  obtain v i where r: "r = (v, i)" by (cases r)
  obtain m1 where m1: "mm_insert v i m = Some m1" "bmap_ok m1"
    "contents m1 = (contents m)(v \<mapsto> (case contents m v of None \<Rightarrow> [i] | Some vs \<Rightarrow> vs @ [i]))"
    using mm_insert_contents [OF Cons.prems(1), of v i] by blast
  have "cache_insert f v i c f = Some (contents m1)" using Cons.prems(2) m1(3) by (simp add: cache_insert_def Let_def)
  from Cons.IH [of m1 "cache_insert f v i c", OF m1(2) this] m1(1) show ?case by (simp add: r)
qed simp

end
