(* ===== verification/Map_Output.thy ===== *)
theory Map_Output
  imports Maps
begin

text \<open>
  What the in-memory trees and maps print: \<open>BPlusTree::print\<close>, \<open>print_array\<close>, \<open>print_Iterator\<close>, the output
  operators of \<open>Pair\<close>, \<open>MPair\<close>, \<open>Map\<close> and \<open>MMap\<close>, and \<open>MMap::print_lookup\<close>; and the remaining members of
  \<open>Map\<close> and \<open>MMap\<close>, which hand their call to the tree. A printed tree lists its items in descending
  order, \<open>print_lookup\<close> one line per key in ascending order. How an item is written is a parameter.
\<close>

section \<open>Trees\<close>

text \<open>The bracket strings of \<open>print\<close>, three bytes of UTF-8 each, and \<open>std::setw(n) << ""\<close>.\<close>

definition endl :: string where "endl = [CHR 0x0A]"

definition down_bracket :: string where "down_bracket = [CHR 0xEF, CHR 0xB9, CHR 0x87]"

definition up_bracket :: string where "up_bracket = [CHR 0xEF, CHR 0xB9, CHR 0x88]"

definition spaces :: "nat \<Rightarrow> string" where
  "spaces n = replicate n CHR '' ''"

datatype 'a out_line = Down nat | Up nat | Entry nat 'a

fun line_text :: "('a \<Rightarrow> string) \<Rightarrow> 'a out_line \<Rightarrow> string" where
  "line_text sh (Down n) = spaces (n * 4) @ down_bracket @ endl"
| "line_text sh (Up n) = spaces (n * 4) @ up_bracket @ endl"
| "line_text sh (Entry n x) = spaces (n * 4) @ sh x @ endl"

text \<open>The loop over the items from the last to the first, each followed by the child before it.\<close>

primrec node_lines :: "nat \<Rightarrow> 'a list \<Rightarrow> 'a out_line list list \<Rightarrow> nat \<Rightarrow> 'a out_line list" where
  "node_lines n d kids 0 = []"
| "node_lines n d kids (Suc i) =
     Entry n (d ! i) # (if i = 0 then [Up n] else []) @
     (if i < length kids then kids ! i else []) @ node_lines n d kids i"

fun tree_lines :: "nat \<Rightarrow> ('k, 'v) bptree \<Rightarrow> ('k, 'v) item out_line list" where
  "tree_lines n (BNode a d c) =
     (let kids = map (tree_lines (n + 1)) c in
      (if length c > length d then kids ! (length c - 1) else []) @ [Down n] @
      (if length d \<noteq> 0 then node_lines n d kids (length d) else [Up n]))"

definition print_tree :: "(('k, 'v) item \<Rightarrow> string) \<Rightarrow> nat \<Rightarrow> ('k, 'v) bptree \<Rightarrow> string" where
  "print_tree sh n t = concat (map (line_text sh) (tree_lines n t))"

definition print_array :: "('a \<Rightarrow> string) \<Rightarrow> 'a list \<Rightarrow> nat \<Rightarrow> nat \<Rightarrow> string" where
  "print_array sh d n pos = concat (map (\<lambda>i. ''['' @ sh (d ! i) @ '']'') [pos..<n])"

definition print_iterator :: "(('k, 'v) item \<Rightarrow> string) \<Rightarrow> ('k, 'v) bptree \<Rightarrow> iterator \<Rightarrow> string option" where
  "print_iterator sh t it =
     (if fst it \<noteq> None
      then do { u \<leftarrow> node_at t (fst it); Some (print_array sh (bp_data u) (data_count u) 0) }
      else Some (''nullptr iterator'' @ endl))"

section \<open>Pairs and maps\<close>

definition show_pair :: "('k \<Rightarrow> string) \<Rightarrow> ('v \<Rightarrow> string) \<Rightarrow> 'k \<times> 'v \<Rightarrow> string" where
  "show_pair showk showv p = showk (fst p) @ '':'' @ showv (snd p) @ endl"

definition show_values :: "('v \<Rightarrow> string) \<Rightarrow> 'v list \<Rightarrow> string" where
  "show_values showv vs = concat (map (\<lambda>v. showv v @ '' '') vs) @ endl"

definition show_mpair :: "('k \<Rightarrow> string) \<Rightarrow> ('v \<Rightarrow> string) \<Rightarrow> 'k \<times> 'v list \<Rightarrow> string" where
  "show_mpair showk showv p =
     showk (fst p) @ '':'' @ concat (map (\<lambda>v. showv v @ '' '') (snd p)) @ endl"

definition show_map :: "('k \<Rightarrow> string) \<Rightarrow> ('v \<Rightarrow> string) \<Rightarrow> ('k, 'v) bmap \<Rightarrow> string" where
  "show_map showk showv m = print_tree (show_pair showk showv) 0 (map_tree m) @ endl"

definition show_multimap :: "('k \<Rightarrow> string) \<Rightarrow> ('v \<Rightarrow> string) \<Rightarrow> ('k, 'v) multimap \<Rightarrow> string" where
  "show_multimap showk showv m = print_tree (show_mpair showk showv) 0 (map_tree m) @ endl"

text \<open>\<open>right << setw(n)\<close> and \<open>left << setw(n)\<close>\<close>

definition pad_left :: "nat \<Rightarrow> string \<Rightarrow> string" where
  "pad_left n s = spaces (n - length s) @ s"

definition pad_right :: "nat \<Rightarrow> string \<Rightarrow> string" where
  "pad_right n s = s @ spaces (n - length s)"

definition lookup_line :: "('k \<Rightarrow> string) \<Rightarrow> ('v \<Rightarrow> string) \<Rightarrow> 'k \<times> 'v list \<Rightarrow> string" where
  "lookup_line showk showv p =
     pad_left 10 (showk (fst p)) @ '' '' @ pad_right 5 '': '' @ show_values showv (snd p)"

partial_function (option) lookup_loop ::
  "('k \<Rightarrow> string) \<Rightarrow> ('v \<Rightarrow> string) \<Rightarrow> ('k, 'v) multimap \<Rightarrow> iterator \<Rightarrow> string option" where
  "lookup_loop showk showv m it =
     (if it = bp_end then Some []
      else do {
        p \<leftarrow> map_deref m it;
        it' \<leftarrow> map_next m it;
        rest \<leftarrow> lookup_loop showk showv m it';
        Some (lookup_line showk showv p @ rest)
      })"

definition print_lookup :: "('k \<Rightarrow> string) \<Rightarrow> ('v \<Rightarrow> string) \<Rightarrow> ('k, 'v) multimap \<Rightarrow> string option" where
  "print_lookup showk showv m =
     (if map_empty m then Some (''empty map'' @ endl)
      else lookup_loop showk showv m (map_begin m))"

section \<open>The remaining members\<close>

definition map_end :: iterator where "map_end = bp_end"

definition map_const_index :: "'v \<Rightarrow> 'k :: linorder \<Rightarrow> ('k, 'v) bmap \<Rightarrow> (error + 'v) option" where
  "map_const_index dv k m = map_at_const dv k m"

definition map_const_get :: "'v \<Rightarrow> 'k :: linorder \<Rightarrow> ('k, 'v) bmap \<Rightarrow> (error + 'v) option" where
  "map_const_get dv k m = map_at_const dv k m"

definition map_get :: "'v \<Rightarrow> 'k :: linorder \<Rightarrow> ('k, 'v) bmap \<Rightarrow> ('v \<times> ('k, 'v) bmap) option" where
  "map_get dv k m = map_at dv k m"

definition map_it_eq :: "iterator \<Rightarrow> iterator \<Rightarrow> bool" where "map_it_eq l r \<longleftrightarrow> l = r"

definition map_it_neq :: "iterator \<Rightarrow> iterator \<Rightarrow> bool" where "map_it_neq l r \<longleftrightarrow> \<not> map_it_eq l r"

definition mm_new :: "bheap \<Rightarrow> ('k, 'v) multimap" where "mm_new h = bmap_of (bp_new h)"

definition mm_begin :: "('k, 'v) multimap \<Rightarrow> iterator" where "mm_begin m = bp_begin (map_tree m)"

definition mm_end :: iterator where "mm_end = bp_end"

definition mm_size :: "('k, 'v) multimap \<Rightarrow> nat option" where
  "mm_size m = bp_size (map_tree m) (map_heap m)"

definition mm_count :: "('k, 'v) multimap \<Rightarrow> nat" where "mm_count m = bp_count (map_tree m)"

definition mm_empty :: "('k, 'v) multimap \<Rightarrow> bool" where "mm_empty m = bp_empty (map_tree m)"

definition mm_clear :: "('k, 'v) multimap \<Rightarrow> ('k, 'v) multimap" where
  "mm_clear m = bmap_of (clear_tree (map_tree m) (map_heap m))"

definition mm_find :: "'k :: linorder \<Rightarrow> ('k, 'v) multimap \<Rightarrow> iterator option" where
  "mm_find k m = bp_find (k, []) (map_tree m)"

definition mm_get :: "'k :: linorder \<Rightarrow> ('k, 'v) multimap \<Rightarrow> ('v list \<times> ('k, 'v) multimap) option" where
  "mm_get k m = base_get (k, []) m"

definition mm_const_get :: "'k :: linorder \<Rightarrow> ('k, 'v) multimap \<Rightarrow> (error + 'v list) option" where
  "mm_const_get k m = do {
     r \<leftarrow> bp_get_const (k, []) (map_tree m);
     Some (case r of Inl e \<Rightarrow> Inl e | Inr x \<Rightarrow> Inr (snd x))
   }"

definition mm_lower_bound :: "'k :: linorder \<Rightarrow> ('k, 'v) multimap \<Rightarrow> iterator option" where
  "mm_lower_bound k m = bp_lower_bound (k, []) (map_tree m) (map_heap m)"

definition mm_upper_bound :: "'k :: linorder \<Rightarrow> ('k, 'v) multimap \<Rightarrow> iterator option" where
  "mm_upper_bound k m = bp_upper_bound (k, []) (map_tree m) (map_heap m)"

definition mm_is_valid :: "('k :: linorder, 'v) multimap \<Rightarrow> bool option" where
  "mm_is_valid m = is_valid (map_tree m)"

definition mm_next :: "('k, 'v) multimap \<Rightarrow> iterator \<Rightarrow> iterator option" where
  "mm_next m it = bp_next (map_tree m) (map_heap m) it"

definition mm_deref :: "('k, 'v) multimap \<Rightarrow> iterator \<Rightarrow> ('k \<times> 'v list) option" where
  "mm_deref m it = bp_deref (map_tree m) it"

definition mm_it_null :: "iterator \<Rightarrow> bool" where "mm_it_null it \<longleftrightarrow> fst it = None"

section \<open>The items a printed tree shows\<close>

fun entry_of :: "'a out_line \<Rightarrow> 'a list" where
  "entry_of (Entry n x) = [x]"
| "entry_of (Down n) = []"
| "entry_of (Up n) = []"

definition shown :: "'a out_line list \<Rightarrow> 'a list" where
  "shown ls = concat (map entry_of ls)"

lemma shown_simps [simp]:
  "shown [] = []" "shown (l # ls) = entry_of l @ shown ls" "shown (ls @ ms) = shown ls @ shown ms"
  by (simp_all add: shown_def)

text \<open>All items of a tree, separators included, from left to right.\<close>

fun in_order :: "('k, 'v) bptree \<Rightarrow> ('k, 'v) item list" where
  "in_order (BNode a d c) =
     (if c = [] then d else weave_left (map in_order c) d @ last (map in_order c))"

lemma node_lines_leaf: "i \<le> length d \<Longrightarrow> shown (node_lines n d [] i) = rev (take i d)"
  by (induction i) (auto simp: take_Suc_conv_app_nth)

lemma node_lines_inner:
  "length kids = Suc (length d) \<Longrightarrow> i \<le> length d \<Longrightarrow>
   map shown kids = map rev xs \<Longrightarrow>
   shown (node_lines n d kids i) = rev (weave_left (take i xs) (take i d))"
proof (induction i)
  case (Suc i)
  have l: "length xs = length kids" using Suc.prems(3) by (metis length_map)
  have "shown (kids ! i) = rev (xs ! i)"
    using Suc.prems l by (metis Suc_le_lessD length_map less_SucI nth_map)
  then show ?case
    using Suc l by (auto simp: take_Suc_conv_app_nth weave_left_append)
qed simp

lemma weave_left_take: "length d \<le> length ss \<Longrightarrow> weave_left (take (length d) ss) d = weave_left ss d"
proof (induction d arbitrary: ss)
  case (Cons x d)
  then show ?case by (cases ss) auto
qed (simp add: weave_left_def)

theorem shown_tree: "shape h t \<Longrightarrow> shown (tree_lines n t) = rev (in_order t)"
proof (induction h arbitrary: t n)
  case 0
  then show ?case by (cases t) (auto simp: node_lines_leaf Let_def)
next
  case (Suc h)
  obtain a d c where t: "t = BNode a d c" by (cases t)
  have c: "length c = Suc (length d)" "c \<noteq> []" using Suc.prems t by auto
  define kids where "kids = map (tree_lines (n + 1)) c"
  have k: "length kids = Suc (length d)" "map shown kids = map rev (map in_order c)"
    using Suc c(1) by (auto simp: t kids_def)
  have lst: "shown (kids ! (length c - 1)) = rev (last (map in_order c))"
    using Suc c by (auto simp: t kids_def last_conv_nth)
  have "shown (node_lines n d kids (length d)) = rev (weave_left (map in_order c) d)"
    using node_lines_inner [OF k(1) le_refl k(2), of n] c weave_left_take [of d "map in_order c"] by simp
  moreover have "weave_left (map in_order c) d = []" if "d = []" using that by (simp add: weave_left_def)
  ultimately show ?case
    using lst c k(1) unfolding t tree_lines.simps Let_def kids_def [symmetric] by auto
qed

section \<open>The lines of a lookup table\<close>

lemma lookup_loop_position:
  assumes "tree_ok h (map_tree m) (map_heap m)"
  shows "lookup_loop showk showv m (position (map_tree m) k) =
    Some (concat (map (lookup_line showk showv) (drop k (bmap_items m))))"
proof (induction "length (items (map_tree m)) - k" arbitrary: k)
  case 0
  then have "position (map_tree m) k = bp_end" using position_end [of "map_tree m" k] by simp
  then show ?case using 0 by (subst lookup_loop.simps) (simp add: bmap_items_def)
next
  case (Suc n)
  then have k: "k < length (items (map_tree m))" "n = length (items (map_tree m)) - Suc k" by simp_all
  have "drop k (bmap_items m) = items (map_tree m) ! k # drop (Suc k) (bmap_items m)"
    using k(1) by (simp add: bmap_items_def Cons_nth_drop_Suc)
  then show ?case
    using position_end [of "map_tree m" k] k Suc(1) [OF k(2)] position_next [OF assms k(1)] position_deref [OF assms k(1)]
    by (subst lookup_loop.simps) (simp add: map_deref_def map_next_def)
qed

theorem print_lookup_items:
  assumes "bmap_ok m"
  shows "print_lookup showk showv m =
    Some (if bmap_items m = [] then ''empty map'' @ endl
      else concat (map (lookup_line showk showv) (bmap_items m)))"
proof -
  obtain h where h: "tree_ok h (map_tree m) (map_heap m)" using assms by (auto simp: bmap_ok_def)
  show ?thesis
    using lookup_loop_position [OF h, of showk showv 0] bp_begin_position [OF h] empty_iff [OF h]
    by (simp add: print_lookup_def map_empty_def map_begin_def bmap_items_def)
qed

end
