(* ===== verification/Bplus_Built.thy ===== *)
theory Bplus_Built
  imports Bplus_Whole
begin

text \<open>
  Several trees in one heap of links: an operation on one tree leaves a tree with other nodes alone, and
  a copy is such a tree. The inductive predicate \<open>built\<close> holds the trees that the operations build from an
  empty one; by rule induction all of them satisfy the invariant.
\<close>

section \<open>Several trees in one heap\<close>

definition separate :: "('k, 'v) bptree \<Rightarrow> ('l, 'w) bptree \<Rightarrow> bool" where
  "separate t s \<longleftrightarrow> set (addrs t) \<inter> set (addrs s) = {}"

lemma separate_step:
  assumes "tree_ok h t H" and "tree_ok k s H" and "separate t s"
    and "tree_ok h' t' H'" and "next_addr H \<le> next_addr H'"
    and "\<forall>a. a \<notin> set (addrs t) \<longrightarrow> a < next_addr H \<longrightarrow> next_of H' a = next_of H a"
    and "set (addrs t') \<subseteq> set (addrs t) \<union> {next_addr H..<next_addr H'}"
  shows "tree_ok k s H'" and "separate t' s"
proof -
  have old: "b < next_addr H" if "b \<in> set (addrs s)" for b using assms(2) that by (simp add: tree_ok_def)
  show "tree_ok k s H'"
    using assms(2,5) by (rule tree_ok_frame) (use assms(3,6) old in \<open>auto simp: separate_def\<close>)
  show "separate t' s" using assms(3,7) old unfolding separate_def by fastforce
qed

lemma insert_separate:
  assumes "tree_ok h t H" and "tree_ok k s H" and "separate t s"
  shows "\<exists>b h' t' H'. bp_insert e t H = Some (b, t', H') \<and> tree_ok h' t' H' \<and> tree_ok k s H' \<and> separate t' s"
proof (cases "fst e \<in> fst ` set (items t)")
  case True
  then show ?thesis using bp_insert_present [OF assms(1) True] assms by blast
next
  case False
  show ?thesis using bp_insert_absent [OF assms(1) False] separate_step [OF assms] by metis
qed

lemma erase_separate:
  assumes "tree_ok h t H" and "tree_ok k s H" and "separate t s"
  shows "\<exists>b h' t' H'. bp_erase e t H = Some (b, t', H') \<and> tree_ok h' t' H' \<and> tree_ok k s H' \<and> separate t' s"
proof (cases "fst e \<in> fst ` set (items t)")
  case True
  show ?thesis using bp_erase_present [OF assms(1) True] separate_step [OF assms] by metis
next
  case False
  then show ?thesis using bp_erase_absent [OF assms(1) False] assms by blast
qed

lemma copy_separate:
  assumes "tree_ok h t H" and "bp_new H = (c, H1)" and "bp_copy t (bp_addr c) H1 = (t', H')"
  shows "tree_ok h t' H'" and "items t' = items t" and "tree_ok h t H'" and "separate t' t"
proof -
  have c: "bp_addr c = next_addr H" "next_addr H1 = Suc (next_addr H)" "next_of H1 = (next_of H)(next_addr H := None)"
    using assms(2) by (auto simp: bp_new_def new_tree_def)
  have old: "b < next_addr H" if "b \<in> set (addrs t)" for b using assms(1) that by (simp add: tree_ok_def)
  have t1: "tree_ok h t H1" using assms(1) by (rule tree_ok_frame) (use c old in auto)
  note r = bp_copy_tree [OF t1 _ assms(3), unfolded c, OF lessI]
  show "tree_ok h t' H'" "items t' = items t" using r by simp_all
  show "tree_ok h t H'" using t1 by (rule tree_ok_frame) (use r(4,6) c old in force)+
  show "separate t' t" using r(5) old unfolding separate_def by fastforce
qed

section \<open>Trees that the operations build\<close>

inductive built :: "('k :: linorder, 'v) bptree \<Rightarrow> bheap \<Rightarrow> bool" where
  new: "bp_new H = (t, H') \<Longrightarrow> built t H'"
| ins: "built t H \<Longrightarrow> bp_insert e t H = Some (b, t', H') \<Longrightarrow> built t' H'"
| del: "built t H \<Longrightarrow> bp_erase e t H = Some (b, t', H') \<Longrightarrow> built t' H'"
| upd: "built t H \<Longrightarrow> change_item f e t = Some t' \<Longrightarrow> built t' H"
| clear: "built t H \<Longrightarrow> clear_tree t H = (t', H') \<Longrightarrow> built t' H'"

lemma insert_total:
  "tree_ok h t H \<Longrightarrow> \<exists>b h' t' H'. bp_insert e t H = Some (b, t', H') \<and> tree_ok h' t' H'"
  using bp_insert_present bp_insert_absent by metis

lemma erase_total:
  "tree_ok h t H \<Longrightarrow> \<exists>b h' t' H'. bp_erase e t H = Some (b, t', H') \<and> tree_ok h' t' H'"
  using bp_erase_present bp_erase_absent by metis

lemma change_item_absent: "good h t \<Longrightarrow> fst e \<notin> fst ` set (items t) \<Longrightarrow> change_item f e t = None"
proof (induction h arbitrary: t)
  case 0
  then obtain a d where t: "t = BNode a d []" "increasing d" by (cases t) (auto simp: good_def)
  obtain ge found where l: "locate d e = (ge, found)" by (cases "locate d e") auto
  then show ?case using t locate_leaf(1) [OF t(2) l] 0 by simp
next
  case (Suc h)
  obtain a d c where t: "t = BNode a d c" by (cases t)
  obtain A x B ge found where s: "c = A @ x # B" "locate d e = (ge, found)"
      "child c (if found then ge + 1 else ge) = Some x" "good h x"
    by (rule good_step [OF Suc.prems(1) [unfolded t], of e]) metis
  have "fst e \<notin> fst ` set (items x)" using Suc.prems(2) by (simp add: t s(1) items_split_node image_Un)
  then have "change_item f e x = None" using Suc.IH s(4) by blast
  then show ?case using s by (cases found) (simp_all add: t)
qed

lemma built_ok: "built t H \<Longrightarrow> \<exists>h. tree_ok h t H"
proof (induction rule: built.induct)
  case (new H t H')
  then show ?case using new_tree_ok by blast
next
  case (ins t H e b t' H')
  then show ?case using insert_total [of _ t H e] by auto
next
  case (del t H e b t' H')
  then show ?case using erase_total [of _ t H e] by auto
next
  case (upd t H f e t')
  then obtain h where h: "tree_ok h t H" by blast
  show ?case
  proof (cases "fst e \<in> fst ` set (items t)")
    case True
    then show ?thesis using change_item_tree [OF h True, of f] upd by auto
  next
    case False
    then show ?thesis using change_item_absent [OF tree_ok_good [OF h] False, of f] upd by simp
  qed
next
  case (clear t H t' H')
  then show ?case using clear_tree_ok by blast
qed

end
