(* ===== verification/Migration.thy ===== *)
theory Migration
  imports
    File_Record
    Storage_Correct
begin

text \<open>
  The migration tool (\<open>sql_migrate_v1.cpp\<close>): it reads a table of format v1 strictly, builds a v2 database
  in a temporary file, verifies it by opening it, and publishes it under the destination name with a
  hard link, which fails if the destination exists. The name that \<open>mkstemp\<close> chooses, what other
  processes do to the files before the promotion, and the version text are parameters.
\<close>

section \<open>Reading format v1\<close>

text \<open>\<open>read_bytes\<close>; a stream that fails after it was opened is not modelled.\<close>

definition read_bytes :: "files \<Rightarrow> path \<Rightarrow> bytes res" where
  "read_bytes fs p =
     (case fs p of
        None \<Rightarrow> Inl (Runtime_Error (''Unable to open v1 file read-only: '' @ p))
      | Some bs \<Rightarrow> Inr bs)"

definition decode_slot :: "bytes \<Rightarrow> string \<Rightarrow> string res" where
  "decode_slot slot context =
     (let rest = dropWhile (\<lambda>b. b \<noteq> 0) slot in
      if \<exists>b \<in> set rest. b \<noteq> 0
      then Inl (Runtime_Error (context @ '' has non-zero bytes after its terminator''))
      else Inr (slot_value slot))"

definition isdigit :: "char \<Rightarrow> bool" where
  "isdigit c \<longleftrightarrow> CHR ''0'' \<le> c \<and> c \<le> CHR ''9''"

definition digits_value :: "string \<Rightarrow> nat" where
  "digits_value s = foldl (\<lambda>n c. 10 * n + (of_char c - 48)) 0 s"

text \<open>\<open>std::stoull\<close> on a non-empty string of digits, which it reads to its end.\<close>

definition stoull :: "string \<Rightarrow> nat res" where
  "stoull s = (if digits_value s < 2 ^ 64 then Inr (digits_value s) else Inl (Out_Of_Range ''stoull''))"

definition slot_at :: "bytes \<Rightarrow> nat \<Rightarrow> bytes" where
  "slot_at bs pos = take SLOT_SIZE (drop pos bs)"

definition read_name :: "bytes \<Rightarrow> string list \<Rightarrow> nat \<Rightarrow> string list res" where
  "read_name schema names i =
     bindE (decode_slot (slot_at schema ((i + 1) * SLOT_SIZE)) ''V1 field name'') (\<lambda>name.
       if name = [] \<or> name \<in> set names
       then Inl (Runtime_Error ''V1 schema contains empty or duplicate fields'')
       else Inr (names @ [name]))"

definition read_value :: "bytes \<Rightarrow> nat \<Rightarrow> string list \<Rightarrow> nat \<Rightarrow> string list res" where
  "read_value bs offset row i =
     bindE (decode_slot (slot_at bs (offset + i * SLOT_SIZE)) ''V1 row value'') (\<lambda>v. Inr (row @ [v]))"

definition read_legacy_row :: "bytes \<Rightarrow> nat \<Rightarrow> string list list \<Rightarrow> nat \<Rightarrow> string list list res" where
  "read_legacy_row bs field_count rows k =
     bindE (foldE (read_value bs (k * (field_count * SLOT_SIZE))) [] [0..<field_count]) (\<lambda>row. Inr (rows @ [row]))"

definition read_schema :: "bytes \<Rightarrow> string list res" where
  "read_schema schema =
     bindE (throw_if (length schema < SLOT_SIZE \<or> length schema mod SLOT_SIZE \<noteq> 0)
       (Runtime_Error ''V1 field metadata size is invalid'')) (\<lambda>_.
     bindE (decode_slot (slot_at schema 0) ''V1 field count'') (\<lambda>count_text.
     bindE (throw_if (count_text = [] \<or> \<not> list_all isdigit count_text)
       (Runtime_Error ''V1 field count is invalid'')) (\<lambda>_.
     bindE (stoull count_text) (\<lambda>field_count.
     bindE (throw_if (field_count = 0 \<or> field_count > MAX_FIELDS)
       (Runtime_Error ''V1 field count is invalid'')) (\<lambda>_.
     bindE (throw_if (length schema \<noteq> (field_count + 1) * SLOT_SIZE)
       (Runtime_Error ''V1 field metadata size is invalid'')) (\<lambda>_.
     foldE (read_name schema) [] [0..<field_count]))))))"

text \<open>\<open>field_count\<close> is at most 64 here, so the check that the row width fits in \<open>size_t\<close> never fires.\<close>

definition read_legacy_rows :: "nat \<Rightarrow> bytes \<Rightarrow> string list list res" where
  "read_legacy_rows field_count row_data =
     bindE (throw_if (length row_data mod (field_count * SLOT_SIZE) \<noteq> 0)
       (Runtime_Error ''V1 record file contains a partial row'')) (\<lambda>_.
     foldE (read_legacy_row row_data field_count) [] [0..<length row_data div (field_count * SLOT_SIZE)])"

definition schema_path :: "string \<Rightarrow> path" where
  "schema_path source = source @ ''_fields.bin''"

definition rows_path :: "string \<Rightarrow> path" where
  "rows_path source = source @ ''.bin''"

definition read_legacy :: "files \<Rightarrow> string \<Rightarrow> (string list \<times> string list list) res" where
  "read_legacy fs source =
     bindE (read_bytes fs (schema_path source)) (\<lambda>schema.
     bindE (read_schema schema) (\<lambda>flds.
     bindE (read_bytes fs (rows_path source)) (\<lambda>row_data.
     bindE (read_legacy_rows (length flds) row_data) (\<lambda>rows. Inr (flds, rows)))))"

section \<open>System calls of the migration\<close>

text \<open>
  \<open>Meanwhile f\<close> is what other processes do to the files while the tool runs. \<open>Link a b\<close> gives the file \<open>a\<close>
  the second name \<open>b\<close>; the tool issues it only after \<open>b\<close> was found absent and then only removes \<open>a\<close>, so
  the link is a copy.
\<close>

datatype mig_call =
    Make_Temporary path
  | Storage_Call syscall
  | Meanwhile "files \<Rightarrow> files"
  | Link path path
  | Remove path
  | Sync_Directory path
  | Migration_Point string

fun mig_exec :: "mig_call \<Rightarrow> files \<Rightarrow> files" where
  "mig_exec (Make_Temporary p) fs = fs(p \<mapsto> [])"
| "mig_exec (Storage_Call c) fs = exec c fs"
| "mig_exec (Meanwhile f) fs = f fs"
| "mig_exec (Link a b) fs = fs(b := fs a)"
| "mig_exec (Remove p) fs = fs(p := None)"
| "mig_exec (Sync_Directory p) fs = fs"
| "mig_exec (Migration_Point s) fs = fs"

definition mig_run :: "mig_call list \<Rightarrow> files \<Rightarrow> files" where
  "mig_run cs fs = fold mig_exec cs fs"

inductive mig_crash :: "mig_call list \<Rightarrow> files \<Rightarrow> files \<Rightarrow> bool" where
  now: "mig_crash cs fs fs"
| inside: "crash [c] fs fs' \<Longrightarrow> mig_crash (Storage_Call c # cs) fs fs'"
| later: "mig_crash cs (mig_exec c fs) fs' \<Longrightarrow> mig_crash (c # cs) fs fs'"

section \<open>Promotion\<close>

type_synonym migration = "mig_call list \<times> unit res"

definition give_up :: "path \<Rightarrow> mig_call list \<Rightarrow> error \<Rightarrow> migration" where
  "give_up tmp cs e = (cs @ [Remove tmp, Remove (wal_path tmp)], Inl e)"

text \<open>The last steps of the \<open>try\<close> block, on the files as they are after the temporary log was removed.\<close>

definition promote :: "files \<Rightarrow> string \<Rightarrow> bytes \<Rightarrow> bytes \<Rightarrow> path \<Rightarrow> path \<Rightarrow> mig_call list \<Rightarrow> migration" where
  "promote fs source schema_before rows_before destination tmp cs =
     (case read_bytes fs (schema_path source) of
        Inl e \<Rightarrow> give_up tmp cs e
      | Inr schema \<Rightarrow>
          if schema \<noteq> schema_before
          then give_up tmp cs (Runtime_Error ''V1 source changed during migration; promotion aborted'')
          else
            case read_bytes fs (rows_path source) of
              Inl e \<Rightarrow> give_up tmp cs e
            | Inr row_data \<Rightarrow>
                if row_data \<noteq> rows_before
                then give_up tmp cs (Runtime_Error ''V1 source changed during migration; promotion aborted'')
                else if file_exists fs destination
                then give_up tmp (cs @ [Migration_Point ''before-promotion''])
                       (Runtime_Error ''Unable to promote without replacing the destination: File exists'')
                else
                  (cs @ [Migration_Point ''before-promotion'', Link tmp destination,
                     Migration_Point ''after-promotion'', Sync_Directory destination,
                     Migration_Point ''after-directory-fsync'', Remove tmp, Sync_Directory destination], Inr ()))"

text \<open>The \<open>try\<close> block, from the files before \<open>mkstemp\<close>.\<close>

definition migrate :: "(files \<Rightarrow> files) \<Rightarrow> files \<Rightarrow> string \<Rightarrow> bytes \<Rightarrow> bytes \<Rightarrow> string list \<Rightarrow> string list list \<Rightarrow>
    path \<Rightarrow> path \<Rightarrow> migration" where
  "migrate others fs source schema_before rows_before flds rows destination tmp =
     (let fs1 = fs(tmp \<mapsto> []);
          (cs1, r1) = initialize_owned_empty_file fs1 tmp flds rows;
          made = Make_Temporary tmp # map Storage_Call cs1;
          fs2 = run cs1 fs1
      in case r1 of
           Inl e \<Rightarrow> give_up tmp made e
         | Inr _ \<Rightarrow>
             (let (cs2, r2) = open_table fs2 tmp;
                  opened = made @ map Storage_Call cs2;
                  fs3 = run cs2 fs2
              in case r2 of
                   Inl e \<Rightarrow> give_up tmp opened e
                 | Inr migrated \<Rightarrow>
                     if lt_fields migrated \<noteq> flds \<or> lt_rows migrated \<noteq> rows
                     then give_up tmp opened (Runtime_Error ''V2 verification does not match the v1 source'')
                     else
                       promote (others (fs3(wal_path tmp := None))) source schema_before rows_before destination tmp
                         (opened @ [Remove (wal_path tmp), Meanwhile others])))"

section \<open>The program\<close>

datatype mig_command =
    Show_Version
  | Show_Usage
  | Migrate bool path string

fun parse_arguments :: "string list \<Rightarrow> bool \<Rightarrow> path \<Rightarrow> string \<Rightarrow> mig_command res" where
  "parse_arguments [] dry_run destination source =
     Inr (if source = [] then Show_Usage
          else Migrate dry_run (if destination = [] then database_path source else destination) source)"
| "parse_arguments (a # as) dry_run destination source =
     (if a = ''--version'' then Inr Show_Version
      else if a = ''--dry-run'' then parse_arguments as True destination source
      else if a = ''--destination'' then
        (case as of
           [] \<Rightarrow> Inl (Invalid_Argument ''--destination requires a path'')
         | d # as' \<Rightarrow> parse_arguments as' dry_run d source)
      else if a \<noteq> [] \<and> hd a = CHR ''-'' then Inl (Invalid_Argument (''Unknown option: '' @ a))
      else if source = [] then parse_arguments as dry_run destination a
      else Inl (Invalid_Argument ''Only one v1 table can be migrated per invocation''))"

record run_result =
  rr_calls :: "mig_call list"
  rr_out :: string
  rr_err :: string
  rr_code :: nat

definition report_error :: "mig_call list \<Rightarrow> string \<Rightarrow> error \<Rightarrow> run_result" where
  "report_error cs out e =
     \<lparr>rr_calls = cs, rr_out = out, rr_err = ''Error: '' @ what e @ newline, rr_code = 1\<rparr>"

text \<open>\<open>mkstemp fs p\<close>: the new name made from the template at \<open>p\<close>, or the reason of a failure.\<close>

definition migrate_command :: "(files \<Rightarrow> path \<Rightarrow> string + path) \<Rightarrow> (files \<Rightarrow> files) \<Rightarrow> files \<Rightarrow> bool \<Rightarrow> path \<Rightarrow>
    string \<Rightarrow> run_result" where
  "migrate_command mkstemp others fs dry_run destination source =
     (case read_bytes fs (schema_path source) of
        Inl e \<Rightarrow> report_error [] [] e
      | Inr schema_before \<Rightarrow>
          case read_bytes fs (rows_path source) of
            Inl e \<Rightarrow> report_error [] [] e
          | Inr rows_before \<Rightarrow>
              case read_legacy fs source of
                Inl e \<Rightarrow> report_error [] [] e
              | Inr (flds, rows) \<Rightarrow>
                  let out = ''source: '' @ source @ newline @ ''destination: '' @ destination @ newline @
                        ''fields: '' @ to_string (length flds) @ newline @
                        ''rows: '' @ to_string (length rows) @ newline
                  in
                    if dry_run
                    then \<lparr>rr_calls = [], rr_out = out @ ''result: dry-run verified, no files written'' @ newline,
                          rr_err = [], rr_code = 0\<rparr>
                    else if file_exists fs destination \<or> file_exists fs (wal_path destination)
                    then report_error [] out (Runtime_Error (''Destination already exists: '' @ destination))
                    else
                      case mkstemp fs (destination @ ''.tmp.XXXXXX'') of
                        Inl reason \<Rightarrow>
                          report_error [] out (Runtime_Error (''Unable to create an exclusive migration file: '' @ reason))
                      | Inr tmp \<Rightarrow>
                          case migrate others fs source schema_before rows_before flds rows destination tmp of
                            (cs, Inl e) \<Rightarrow> report_error cs out e
                          | (cs, Inr _) \<Rightarrow>
                              \<lparr>rr_calls = cs, rr_out = out @ ''result: migrated and verified'' @ newline,
                               rr_err = [], rr_code = 0\<rparr>)"

definition sql_migrate_v1 :: "string \<Rightarrow> (files \<Rightarrow> path \<Rightarrow> string + path) \<Rightarrow> (files \<Rightarrow> files) \<Rightarrow> files \<Rightarrow>
    string list \<Rightarrow> run_result" where
  "sql_migrate_v1 version mkstemp others fs arguments =
     (case parse_arguments arguments False [] [] of
        Inl e \<Rightarrow> report_error [] [] e
      | Inr Show_Version \<Rightarrow>
          \<lparr>rr_calls = [], rr_out = ''sql_migrate_v1 '' @ version @ '' (storage format '' @
             to_string (unat FORMAT_VERSION) @ '')'' @ newline, rr_err = [], rr_code = 0\<rparr>
      | Inr Show_Usage \<Rightarrow>
          \<lparr>rr_calls = [], rr_out = [],
           rr_err = ''Usage: sql_migrate_v1 [--dry-run] [--destination <path>] <v1-table>'' @ newline, rr_code = 2\<rparr>
      | Inr (Migrate dry_run destination source) \<Rightarrow>
          migrate_command mkstemp others fs dry_run destination source)"

section \<open>What the reader of format v1 accepts\<close>

lemma decode_slot_Inr:
  "decode_slot slot context = Inr s \<longleftrightarrow> (\<forall>b \<in> set (dropWhile (\<lambda>b. b \<noteq> 0) slot). b = 0) \<and> s = slot_value slot"
proof (cases "\<exists>b \<in> set (dropWhile (\<lambda>b. b \<noteq> 0) slot). b \<noteq> 0")
  case True
  then have "decode_slot slot context = Inl (Runtime_Error (context @ '' has non-zero bytes after its terminator''))"
    unfolding decode_slot_def Let_def by (rule if_P)
  then have "decode_slot slot context \<noteq> Inr s" by simp
  then show ?thesis using True by blast
next
  case False
  then have "decode_slot slot context = Inr (slot_value slot)"
    unfolding decode_slot_def Let_def by (rule if_not_P)
  then have "decode_slot slot context = Inr s \<longleftrightarrow> s = slot_value slot" by auto
  then show ?thesis using False by blast
qed

lemma decode_slot_iff:
  assumes "length slot = SLOT_SIZE"
  shows "decode_slot slot context = Inr s \<longleftrightarrow> slot_ok s \<and> slot = pad_slot s"
proof
  assume r: "decode_slot slot context = Inr s"
  define a b where "a = takeWhile (\<lambda>b. b \<noteq> 0) slot" and "b = dropWhile (\<lambda>b. b \<noteq> 0) slot"
  have z: "\<forall>x \<in> set b. x = 0" unfolding b_def using r decode_slot_Inr by blast
  have s: "s = map char_of_byte a" unfolding a_def using r decode_slot_Inr slot_value_def by metis
  have na: "\<forall>x \<in> set a. x \<noteq> 0" unfolding a_def using set_takeWhileD by fast
  have sp: "slot = a @ b" by (simp add: a_def b_def)
  have m: "map byte_of_char s = a" unfolding s by (rule map_byte_of_char_inverse)
  have len: "SLOT_SIZE = length s + length b" using sp assms by (simp add: s)
  have "length b = SLOT_SIZE - length s" using len by simp
  then have "b = replicate (SLOT_SIZE - length s) 0" using z by (metis replicate_eqI)
  then have "slot = pad_slot s" unfolding pad_slot_def m sp by simp
  moreover have "CHR 0x00 \<notin> set s"
  proof
    assume "CHR 0x00 \<in> set s"
    then have "byte_of_char (CHR 0x00) \<in> set (map byte_of_char s)" by simp
    then show False using na m byte_of_char_0 by auto
  qed
  ultimately show "slot_ok s \<and> slot = pad_slot s" using len by (simp add: slot_ok_def)
next
  assume r: "slot_ok s \<and> slot = pad_slot s"
  have ne: "\<forall>b \<in> set (map byte_of_char s). b \<noteq> 0" using r by (auto simp: slot_ok_def byte_of_char_0)
  have "\<forall>b \<in> set (dropWhile (\<lambda>b. b \<noteq> 0) (xs @ replicate n 0)). b = 0" if "\<forall>b \<in> set xs. b \<noteq> 0"
    for xs :: bytes and n
    using that
  proof (induction xs)
    case Nil
    then show ?case by (cases n) simp_all
  qed simp
  then have "\<forall>b \<in> set (dropWhile (\<lambda>b. b \<noteq> 0) (pad_slot s)). b = 0" unfolding pad_slot_def using ne by blast
  then show "decode_slot slot context = Inr s" using r decode_slot_Inr slot_value_pad by metis
qed

lemma slots_concat:
  assumes "length bs = n * SLOT_SIZE" and "\<forall>i < n. slot_at bs (i * SLOT_SIZE) = f i"
  shows "bs = concat (map f [0..<n])"
  using assms
proof (induction n arbitrary: bs)
  case (Suc n)
  let ?c = "take (n * SLOT_SIZE) bs" and ?l = "drop (n * SLOT_SIZE) bs"
  have "slot_at ?c (i * SLOT_SIZE) = f i" if i: "i < n" for i
  proof -
    have "i * SLOT_SIZE + SLOT_SIZE \<le> n * SLOT_SIZE" using i by (metis Suc_leI mult_Suc mult_le_mono1 add.commute)
    then have "slot_at ?c (i * SLOT_SIZE) = slot_at bs (i * SLOT_SIZE)"
      by (simp add: slot_at_def drop_take min_def)
    then show ?thesis using Suc.prems(2) i by simp
  qed
  then have "?c = concat (map f [0..<n])" using Suc.prems(1) by (intro Suc.IH) auto
  moreover have "?l = f n" using Suc.prems by (auto simp: slot_at_def)
  ultimately have "concat (map f [0..<Suc n]) = ?c @ ?l" by simp
  then show ?case by simp
qed simp

lemma slot_at_concat:
  assumes "\<forall>s \<in> set ss. slot_ok s" and "i < length ss"
  shows "slot_at (concat (map pad_slot ss)) (i * SLOT_SIZE) = pad_slot (ss ! i)"
  using assms
proof (induction ss arbitrary: i)
  case (Cons s ss)
  then have l: "length (pad_slot s) = SLOT_SIZE" by (auto simp: slot_ok_def)
  show ?case
  proof (cases i)
    case 0
    then show ?thesis using l by (simp add: slot_at_def)
  next
    case (Suc j)
    then show ?thesis using Cons l by (simp add: slot_at_def)
  qed
qed simp

lemma foldE_upt_Suc: "foldE f s [0..<Suc n] = bindE (foldE f s [0..<n]) (\<lambda>s'. f s' n)"
  by (simp add: foldE_append bindE_def split: sum.splits)

lemma read_names_iff:
  "foldE (read_name schema) [] [0..<n] = Inr names \<longleftrightarrow>
    length names = n \<and> distinct names \<and> [] \<notin> set names \<and>
    (\<forall>i < n. decode_slot (slot_at schema ((i + 1) * SLOT_SIZE)) ''V1 field name'' = Inr (names ! i))"
proof (induction n arbitrary: names)
  case (Suc n)
  show ?case
  proof
    assume "foldE (read_name schema) [] [0..<Suc n] = Inr names"
    then obtain ns x where r: "foldE (read_name schema) [] [0..<n] = Inr ns"
      "decode_slot (slot_at schema ((n + 1) * SLOT_SIZE)) ''V1 field name'' = Inr x"
      "x \<noteq> []" "x \<notin> set ns" "names = ns @ [x]"
      by (auto simp: foldE_upt_Suc bindE_eq_Inr read_name_def split: if_splits simp del: upt_Suc)
    then show "length names = Suc n \<and> distinct names \<and> [] \<notin> set names \<and>
      (\<forall>i < Suc n. decode_slot (slot_at schema ((i + 1) * SLOT_SIZE)) ''V1 field name'' = Inr (names ! i))"
      using Suc.IH [of ns] by (auto simp: less_Suc_eq nth_append)
  next
    assume r: "length names = Suc n \<and> distinct names \<and> [] \<notin> set names \<and>
      (\<forall>i < Suc n. decode_slot (slot_at schema ((i + 1) * SLOT_SIZE)) ''V1 field name'' = Inr (names ! i))"
    then obtain ns x where n: "names = ns @ [x]" "length ns = n" by (cases names rule: rev_cases) auto
    have "\<forall>i < n. decode_slot (slot_at schema ((i + 1) * SLOT_SIZE)) ''V1 field name'' = Inr (ns ! i)"
    proof (intro allI impI)
      fix i
      assume i: "i < n"
      then have "names ! i = ns ! i" using n by (simp add: nth_append)
      then show "decode_slot (slot_at schema ((i + 1) * SLOT_SIZE)) ''V1 field name'' = Inr (ns ! i)" using r i by auto
    qed
    then have "foldE (read_name schema) [] [0..<n] = Inr ns" using Suc.IH [of ns] r n by auto
    moreover have "decode_slot (slot_at schema ((n + 1) * SLOT_SIZE)) ''V1 field name'' = Inr x"
      using r n by (metis lessI nth_append_length)
    ultimately show "foldE (read_name schema) [] [0..<Suc n] = Inr names"
      using r n by (auto simp: foldE_upt_Suc bindE_eq_Inr read_name_def simp del: upt_Suc)
  qed
qed auto

lemma read_values_iff:
  "foldE (read_value bs off) [] [0..<n] = Inr row \<longleftrightarrow>
    length row = n \<and> (\<forall>i < n. decode_slot (slot_at bs (off + i * SLOT_SIZE)) ''V1 row value'' = Inr (row ! i))"
  using foldE_collect_upt [of "\<lambda>i. decode_slot (slot_at bs (off + i * SLOT_SIZE)) ''V1 row value''" "[]" n row]
  by (simp add: read_value_def [abs_def])

lemma read_rows_loop_iff:
  "foldE (read_legacy_row bs n) [] [0..<m] = Inr rows \<longleftrightarrow>
    length rows = m \<and> (\<forall>k < m. foldE (read_value bs (k * (n * SLOT_SIZE))) [] [0..<n] = Inr (rows ! k))"
  using foldE_collect_upt [of "\<lambda>k. foldE (read_value bs (k * (n * SLOT_SIZE))) [] [0..<n]" "[]" m rows]
  by (simp add: read_legacy_row_def [abs_def])

text \<open>The number of fields, in decimal digits.\<close>

definition count_text :: "string \<Rightarrow> nat \<Rightarrow> bool" where
  "count_text t n \<longleftrightarrow> slot_ok t \<and> t \<noteq> [] \<and> list_all isdigit t \<and> digits_value t = n"

text \<open>The v1 files of a table, as \<open>FileRecord\<close> writes them.\<close>

definition v1_table_ok :: "string list \<Rightarrow> string list list \<Rightarrow> bool" where
  "v1_table_ok flds rows \<longleftrightarrow> table_ok flds rows \<and> (\<forall>s \<in> set flds. slot_ok s) \<and>
     (\<forall>row \<in> set rows. \<forall>s \<in> set row. slot_ok s)"

definition v1_files :: "files \<Rightarrow> string \<Rightarrow> string list \<Rightarrow> string list list \<Rightarrow> bool" where
  "v1_files fs source flds rows \<longleftrightarrow>
     (\<exists>t. count_text t (length flds) \<and>
        fs (schema_path source) = Some (concat (map pad_slot (t # flds)))) \<and>
     fs (rows_path source) = Some (row_file rows)"

lemma length_slot_at: "pos + SLOT_SIZE \<le> length bs \<Longrightarrow> length (slot_at bs pos) = SLOT_SIZE"
  by (simp add: slot_at_def)

lemma slot_within: "i < n \<Longrightarrow> n * SLOT_SIZE \<le> k \<Longrightarrow> i * SLOT_SIZE + SLOT_SIZE \<le> k"
  by (metis Suc_leI add.commute mult_Suc mult_le_mono1 order_trans)

lemma map_nth_upt: "map (\<lambda>i. f (xs ! i)) [0..<length xs] = map f xs"
  by (rule nth_equalityI) simp_all

lemma length_concat_rows: "\<forall>row \<in> set rows. length row = n \<Longrightarrow> length (concat rows) = length rows * n"
  by (induction rows) simp_all

lemma nth_concat_rows:
  "\<forall>row \<in> set rows. length row = n \<Longrightarrow> i < length rows * n \<Longrightarrow> concat rows ! i = rows ! (i div n) ! (i mod n)"
proof (induction rows arbitrary: i)
  case (Cons r rows)
  show ?case
  proof (cases "i < n")
    case True
    then show ?thesis using Cons.prems by (simp add: nth_append)
  next
    case False
    moreover have "0 < n" using Cons.prems(2) by (cases n) auto
    ultimately have i: "i div n = Suc ((i - n) div n)" "i mod n = (i - n) mod n"
      by (simp_all add: le_div_geq le_mod_geq)
    have "concat rows ! (i - n) = rows ! ((i - n) div n) ! ((i - n) mod n)"
      using Cons False by (intro Cons.IH) auto
    then show ?thesis using Cons.prems(1) False i by (simp add: nth_append)
  qed
qed simp

lemma read_schema_iff:
  "read_schema schema = Inr flds \<longleftrightarrow>
    (\<exists>t. count_text t (length flds) \<and> schema = concat (map pad_slot (t # flds))) \<and>
    flds \<noteq> [] \<and> length flds \<le> MAX_FIELDS \<and> distinct flds \<and> [] \<notin> set flds \<and> (\<forall>s \<in> set flds. slot_ok s)"
proof
  assume r: "read_schema schema = Inr flds"
  then obtain t n where s: "SLOT_SIZE \<le> length schema" "decode_slot (slot_at schema 0) ''V1 field count'' = Inr t"
    "t \<noteq> []" "list_all isdigit t" "stoull t = Inr n" "n \<noteq> 0" "n \<le> MAX_FIELDS"
    "length schema = (n + 1) * SLOT_SIZE" "foldE (read_name schema) [] [0..<n] = Inr flds"
    by (auto simp: read_schema_def bindE_eq_Inr throw_if_eq_Inr not_less simp del: list_all_iff)
  have f: "length flds = n" "distinct flds" "[] \<notin> set flds"
    "\<forall>i < n. decode_slot (slot_at schema ((i + 1) * SLOT_SIZE)) ''V1 field name'' = Inr (flds ! i)"
    using s(9) unfolding read_names_iff by blast+
  have t: "slot_ok t" "slot_at schema 0 = pad_slot t"
    using s(1,2) decode_slot_iff [OF length_slot_at, of 0 schema "''V1 field count''" t] by simp_all
  have v: "digits_value t = n" using s(5) by (auto simp: stoull_def split: if_splits)
  have sl: "slot_ok (flds ! i) \<and> slot_at schema ((i + 1) * SLOT_SIZE) = pad_slot (flds ! i)" if "i < n" for i
  proof -
    have "(i + 1) * SLOT_SIZE + SLOT_SIZE \<le> length schema" using that s(8) by (intro slot_within [of _ "n + 1"]) simp_all
    then show ?thesis using f(4) that decode_slot_iff [OF length_slot_at] by blast
  qed
  have "\<forall>i < n + 1. slot_at schema (i * SLOT_SIZE) = pad_slot ((t # flds) ! i)"
  proof (intro allI impI)
    fix i
    assume i: "i < n + 1"
    show "slot_at schema (i * SLOT_SIZE) = pad_slot ((t # flds) ! i)"
    proof (cases i)
      case 0
      then show ?thesis using t(2) by simp
    next
      case (Suc j)
      then show ?thesis using sl [of j] i by simp
    qed
  qed
  then have "schema = concat (map (\<lambda>i. pad_slot ((t # flds) ! i)) [0..<n + 1])" using s(8) by (intro slots_concat) simp_all
  also have "map (\<lambda>i. pad_slot ((t # flds) ! i)) [0..<n + 1] = map pad_slot (t # flds)"
    using map_nth_upt [of pad_slot "t # flds"] f(1) by simp
  finally have "schema = concat (map pad_slot (t # flds))" .
  moreover have "\<forall>x \<in> set flds. slot_ok x" using sl f(1) by (metis in_set_conv_nth)
  moreover have "count_text t (length flds)" using t(1) s(3,4) v f(1) by (simp add: count_text_def)
  ultimately show "(\<exists>t. count_text t (length flds) \<and> schema = concat (map pad_slot (t # flds))) \<and>
    flds \<noteq> [] \<and> length flds \<le> MAX_FIELDS \<and> distinct flds \<and> [] \<notin> set flds \<and> (\<forall>s \<in> set flds. slot_ok s)"
    using f s(6,7) by auto
next
  assume "(\<exists>t. count_text t (length flds) \<and> schema = concat (map pad_slot (t # flds))) \<and>
    flds \<noteq> [] \<and> length flds \<le> MAX_FIELDS \<and> distinct flds \<and> [] \<notin> set flds \<and> (\<forall>s \<in> set flds. slot_ok s)"
  then obtain t where a: "count_text t (length flds)" "schema = concat (map pad_slot (t # flds))"
    "flds \<noteq> []" "length flds \<le> MAX_FIELDS" "distinct flds" "[] \<notin> set flds" "\<forall>s \<in> set (t # flds). slot_ok s"
    by (auto simp: count_text_def)
  have len: "length schema = (length flds + 1) * SLOT_SIZE" using length_pad_slots [OF a(7)] a(2) by simp
  have at: "slot_at schema (i * SLOT_SIZE) = pad_slot ((t # flds) ! i)" if "i < Suc (length flds)" for i
    using slot_at_concat [OF a(7), of i] that a(2) by simp
  have dec: "decode_slot (slot_at schema (i * SLOT_SIZE)) c = Inr ((t # flds) ! i)" if "i < Suc (length flds)" for i c
  proof -
    have "slot_ok ((t # flds) ! i)" using a(7) that by (metis length_Cons nth_mem)
    then show ?thesis using at [OF that] decode_slot_iff [of "pad_slot ((t # flds) ! i)"] by (simp add: slot_ok_def)
  qed
  have names: "foldE (read_name schema) [] [0..<length flds] = Inr flds"
    unfolding read_names_iff using a(5,6) dec by fastforce
  have "stoull t = Inr (length flds)" using a(1,4) by (simp add: stoull_def count_text_def MAX_FIELDS_def)
  then show "read_schema schema = Inr flds"
    using dec [of 0] names a(1,3,4) len
    by (simp add: read_schema_def bindE_eq_Inr throw_if_eq_Inr count_text_def)
qed

lemma read_legacy_rows_iff:
  assumes "0 < n"
  shows "read_legacy_rows n bs = Inr rows \<longleftrightarrow>
    bs = row_file rows \<and> (\<forall>row \<in> set rows. length row = n \<and> (\<forall>s \<in> set row. slot_ok s))"
proof
  assume "read_legacy_rows n bs = Inr rows"
  then have d: "length bs mod (n * SLOT_SIZE) = 0"
    and l: "foldE (read_legacy_row bs n) [] [0..<length bs div (n * SLOT_SIZE)] = Inr rows"
    by (simp_all add: read_legacy_rows_def bindE_eq_Inr throw_if_eq_Inr)
  define m where "m = length bs div (n * SLOT_SIZE)"
  have len: "length bs = m * (n * SLOT_SIZE)" using d by (auto simp: m_def)
  have lr: "length rows = m"
    and row: "length (rows ! k) = n \<and>
      (\<forall>i < n. decode_slot (slot_at bs (k * (n * SLOT_SIZE) + i * SLOT_SIZE)) ''V1 row value'' = Inr (rows ! k ! i))"
    if "k < m" for k
    using l that unfolding read_rows_loop_iff read_values_iff m_def by blast+
  have lm: "length rows = m" using l unfolding read_rows_loop_iff m_def by blast
  have cell: "slot_ok (rows ! k ! i) \<and> slot_at bs (k * (n * SLOT_SIZE) + i * SLOT_SIZE) = pad_slot (rows ! k ! i)"
    if "k < m" "i < n" for k i
  proof -
    have "(k * n + i) * SLOT_SIZE + SLOT_SIZE \<le> length bs"
    proof (rule slot_within)
      show "k * n + i < m * n"
      proof -
        have "k * n + i < Suc k * n" using that(2) by simp
        also have "\<dots> \<le> m * n" using that(1) by (intro mult_le_mono1) simp
        finally show ?thesis .
      qed
    qed (simp add: len algebra_simps)
    then have "length (slot_at bs (k * (n * SLOT_SIZE) + i * SLOT_SIZE)) = SLOT_SIZE"
      by (intro length_slot_at) (simp add: algebra_simps)
    then show ?thesis using row [OF that(1)] that(2) decode_slot_iff by blast
  qed
  have ok: "\<forall>row \<in> set rows. length row = n \<and> (\<forall>s \<in> set row. slot_ok s)"
  proof
    fix r
    assume "r \<in> set rows"
    then obtain k where k: "k < m" "r = rows ! k" by (metis in_set_conv_nth lm)
    then show "length r = n \<and> (\<forall>s \<in> set r. slot_ok s)" using row cell by (metis in_set_conv_nth)
  qed
  have "bs = concat (map (\<lambda>j. pad_slot (rows ! (j div n) ! (j mod n))) [0..<m * n])"
  proof (rule slots_concat)
    show "\<forall>i < m * n. slot_at bs (i * SLOT_SIZE) = pad_slot (rows ! (i div n) ! (i mod n))"
    proof (intro allI impI)
      fix i
      assume i: "i < m * n"
      have "i div n < m" "i mod n < n" using i assms by (simp_all add: less_mult_imp_div_less)
      then have "slot_at bs (i div n * (n * SLOT_SIZE) + i mod n * SLOT_SIZE) = pad_slot (rows ! (i div n) ! (i mod n))"
        using cell by blast
      moreover have "i div n * (n * SLOT_SIZE) + i mod n * SLOT_SIZE = (i div n * n + i mod n) * SLOT_SIZE"
        by (simp only: distrib_right mult.assoc)
      ultimately show "slot_at bs (i * SLOT_SIZE) = pad_slot (rows ! (i div n) ! (i mod n))" by simp
    qed
  qed (simp add: len)
  moreover have "row_file rows = \<dots>"
  proof (rule slots_concat)
    have fl: "row_file rows = concat (map pad_slot (concat rows))" by (induction rows) (simp_all add: row_file_def)
    have lc: "length (concat rows) = m * n" using length_concat_rows [of rows n] ok lm by simp
    have sc: "\<forall>s \<in> set (concat rows). slot_ok s" using ok by auto
    show "length (row_file rows) = m * n * SLOT_SIZE" using length_row_file [OF ok] lm by simp
    have nthc: "concat rows ! i = rows ! (i div n) ! (i mod n)" if "i < m * n" for i
      using nth_concat_rows [of rows n i] ok lm that by simp
    show "\<forall>i < m * n. slot_at (row_file rows) (i * SLOT_SIZE) = pad_slot (rows ! (i div n) ! (i mod n))"
      using slot_at_concat [OF sc] nthc by (simp add: fl lc)
  qed
  ultimately show "bs = row_file rows \<and> (\<forall>row \<in> set rows. length row = n \<and> (\<forall>s \<in> set row. slot_ok s))"
    using ok by simp
next
  assume a: "bs = row_file rows \<and> (\<forall>row \<in> set rows. length row = n \<and> (\<forall>s \<in> set row. slot_ok s))"
  then have len: "length bs = length rows * (n * SLOT_SIZE)" using length_row_file [of rows n] by simp
  have "foldE (read_value bs (k * (n * SLOT_SIZE))) [] [0..<n] = Inr (rows ! k)" if k: "k < length rows" for k
  proof -
    have ok: "length (rows ! k) = n" "\<forall>s \<in> set (rows ! k). slot_ok s" using a k nth_mem by blast+
    have "rows = take k rows @ rows ! k # drop (Suc k) rows" using k by (rule id_take_nth_drop)
    then have "row_file rows = row_file (take k rows) @ concat (map pad_slot (rows ! k)) @ row_file (drop (Suc k) rows)"
      by (metis row_file_append row_file_def concat.simps(2) list.simps(9))
    moreover have "length (row_file (take k rows)) = SLOT_SIZE * n * length (take k rows)"
      using a by (intro length_row_file) (auto dest: in_set_takeD)
    ultimately have d: "drop (k * (n * SLOT_SIZE)) bs = concat (map pad_slot (rows ! k)) @ row_file (drop (Suc k) rows)"
      using a k by simp
    have "slot_at bs (k * (n * SLOT_SIZE) + i * SLOT_SIZE) = pad_slot (rows ! k ! i)" if "i < n" for i
    proof -
      have "slot_at bs (k * (n * SLOT_SIZE) + i * SLOT_SIZE) =
          slot_at (concat (map pad_slot (rows ! k)) @ row_file (drop (Suc k) rows)) (i * SLOT_SIZE)"
        by (simp add: slot_at_def d [symmetric] add.commute)
      also have "\<dots> = slot_at (concat (map pad_slot (rows ! k))) (i * SLOT_SIZE)"
        using length_pad_slots [OF ok(2)] slot_within [OF that, of "SLOT_SIZE * n"] ok(1) by (simp add: slot_at_def)
      finally show ?thesis using slot_at_concat [OF ok(2)] that ok(1) by simp
    qed
    then show ?thesis unfolding read_values_iff using ok decode_slot_iff by (metis length_pad_slot nth_mem slot_ok_def)
  qed
  then have "foldE (read_legacy_row bs n) [] [0..<length rows] = Inr rows" unfolding read_rows_loop_iff by blast
  moreover have "length bs div (n * SLOT_SIZE) = length rows" using len assms by (simp add: SLOT_SIZE_def)
  ultimately show "read_legacy_rows n bs = Inr rows" using len by (simp add: read_legacy_rows_def bindE_eq_Inr throw_if_eq_Inr)
qed

text \<open>The reader accepts the files of a well-formed table, and nothing else.\<close>

theorem read_legacy_iff:
  "read_legacy fs source = Inr (flds, rows) \<longleftrightarrow> v1_table_ok flds rows \<and> v1_files fs source flds rows"
proof -
  have sz: "SLOT_SIZE = MAX_VALUE_LENGTH" by (simp add: SLOT_SIZE_def MAX_VALUE_LENGTH_def)
  have "read_legacy fs source = Inr (flds, rows) \<longleftrightarrow>
    (\<exists>schema row_data. fs (schema_path source) = Some schema \<and> fs (rows_path source) = Some row_data \<and>
      read_schema schema = Inr flds \<and> read_legacy_rows (length flds) row_data = Inr rows)"
    by (auto simp: read_legacy_def read_bytes_def bindE_eq_Inr split: option.splits)
  also have "\<dots> \<longleftrightarrow> v1_table_ok flds rows \<and> v1_files fs source flds rows"
  proof (cases "flds = []")
    case True
    then show ?thesis by (auto simp: read_schema_iff v1_table_ok_def table_ok_def fields_ok_def)
  next
    case False
    then have n: "0 < length flds" by simp
    show ?thesis
      unfolding read_schema_iff read_legacy_rows_iff [OF n] v1_table_ok_def v1_files_def table_ok_def fields_ok_def row_fits_def
      using False by (auto simp: slot_ok_def sz)
  qed
  finally show ?thesis .
qed

section \<open>Runs and crashes\<close>

lemma mig_run_simps [simp]:
  "mig_run [] fs = fs" "mig_run (c # cs) fs = mig_run cs (mig_exec c fs)"
  "mig_run (cs @ ds) fs = mig_run ds (mig_run cs fs)"
  by (simp_all add: mig_run_def)

lemma mig_run_storage [simp]: "mig_run (map Storage_Call cs) fs = run cs fs"
  by (induction cs arbitrary: fs) simp_all

inductive_simps mig_crash_Nil [simp]: "mig_crash [] fs fs'"
inductive_simps mig_crash_Cons: "mig_crash (c # cs) fs fs'"

lemma mig_crash_append:
  "mig_crash (cs @ ds) fs fs' \<longleftrightarrow> mig_crash cs fs fs' \<or> mig_crash ds (mig_run cs fs) fs'"
proof (induction cs arbitrary: fs)
  case Nil
  show ?case by (auto intro: now)
next
  case (Cons c cs)
  show ?case by (auto simp: mig_crash_Cons Cons.IH)
qed

lemma mig_crash_storage: "mig_crash (map Storage_Call cs) fs fs' \<longleftrightarrow> crash cs fs fs'"
proof (induction cs arbitrary: fs)
  case Nil
  show ?case by simp
next
  case (Cons c cs)
  have "crash (c # cs) fs fs' \<longleftrightarrow> crash [c] fs fs' \<or> crash cs (exec c fs) fs'"
    using crash_append [of "[c]" cs fs fs'] by simp
  then show ?case by (auto simp: mig_crash_Cons Cons.IH intro: crash_now)
qed

lemma mig_crash_run: "mig_crash cs fs (mig_run cs fs)"
  by (induction cs arbitrary: fs) (auto intro: mig_crash.intros)

lemma promotion_crash:
  "mig_crash [Migration_Point a, Link tmp d, Migration_Point b, Sync_Directory d, Migration_Point c, Remove tmp, Sync_Directory d] G fs' \<longleftrightarrow>
    fs' = G \<or> fs' = G(d := G tmp) \<or> fs' = G(d := G tmp, tmp := None)"
  by (auto simp: mig_crash_Cons)

section \<open>The temporary database\<close>

definition exclusive_names :: "(files \<Rightarrow> path \<Rightarrow> string + path) \<Rightarrow> bool" where
  "exclusive_names mkstemp \<longleftrightarrow>
     (\<forall>fs p q. mkstemp fs (p @ ''XXXXXX'') = Inr q \<longrightarrow> fs q = None \<and> (\<exists>s. length s = 6 \<and> q = p @ s))"

lemma exclusive_name:
  assumes "exclusive_names mkstemp" and "mkstemp fs (d @ ''.tmp.XXXXXX'') = Inr tmp"
  shows "fs tmp = None" and "tmp \<noteq> d" and "wal_path tmp \<noteq> d" and "wal_path d \<noteq> tmp" and "wal_path d \<noteq> wal_path tmp"
proof -
  have "mkstemp fs ((d @ ''.tmp.'') @ ''XXXXXX'') = Inr tmp" using assms(2) by simp
  then have "fs tmp = None \<and> (\<exists>s. length s = 6 \<and> tmp = (d @ ''.tmp.'') @ s)"
    using assms(1) unfolding exclusive_names_def by blast
  then obtain s where s: "fs tmp = None" "length s = 6" "tmp = d @ ''.tmp.'' @ s" by auto
  show "fs tmp = None" by (rule s(1))
  show "tmp \<noteq> d" "wal_path tmp \<noteq> d" "wal_path d \<noteq> tmp" "wal_path d \<noteq> wal_path tmp"
    by (simp_all add: s(3) wal_path_def)
qed

text \<open>What is known of a v1 table that is about to be copied to a fresh temporary file.\<close>

lemma temporary_commit:
  assumes "fs tmp = None" and "fs (wal_path tmp) = None" and "table_ok flds rows" and "image_fits flds rows"
  obtains img t pages where "build_image flds rows 1 = Inr img" and "parse_image img False = Inr (t, pages)"
    and "lt_fields t = flds" and "lt_rows t = rows"
    and "snd (initialize_owned_empty_file (fs(tmp \<mapsto> [])) tmp flds rows) = Inr ()"
    and "run (fst (initialize_owned_empty_file (fs(tmp \<mapsto> [])) tmp flds rows)) (fs(tmp \<mapsto> [])) =
      fs(tmp \<mapsto> img, wal_path tmp \<mapsto> [])"
    and "\<forall>fs'. crash (fst (initialize_owned_empty_file (fs(tmp \<mapsto> [])) tmp flds rows)) (fs(tmp \<mapsto> [])) fs' \<longrightarrow>
      others_same tmp fs fs'"
proof -
  let ?fs1 = "fs(tmp \<mapsto> [])"
  obtain img where img: "build_image flds rows 1 = Inr img" using build_image_ok [OF assms(3,4), of 1] by blast
  note inst = build_image_installs(1) [OF assms(3,4) img]
  obtain b where b: "PageBuffer img {} = Inr b" "clean_pages_agree img (old_bytes ?fs1 tmp) (pb_dirty b)"
    using whole_buffer [OF inst] by blast
  obtain t pages where t: "parse_image img False = Inr (t, pages)" "lt_fields t = flds" "lt_rows t = rows"
    using build_image_installs(2) [OF assms(3,4) img, of False] by blast
  have init: "initialize_owned_empty_file ?fs1 tmp flds rows = commit_image ?fs1 tmp img 1 {}"
    using img assms(2) by (simp add: initialize_owned_empty_file_def file_exists_def)
  note fin = run_commit_committed [OF inst b]
  have "run (fst (commit_image ?fs1 tmp img 1 {})) ?fs1 = fs(tmp \<mapsto> img, wal_path tmp \<mapsto> [])"
  proof
    fix q
    show "run (fst (commit_image ?fs1 tmp img 1 {})) ?fs1 q = (fs(tmp \<mapsto> img, wal_path tmp \<mapsto> [])) q"
      using fin(2) by (cases "q = tmp"; cases "q = wal_path tmp") (auto simp: committed_def others_same_def)
  qed
  moreover have "others_same tmp fs fs'" if "crash (fst (commit_image ?fs1 tmp img 1 {})) ?fs1 fs'" for fs'
  proof -
    have "settled ?fs1 tmp img 1 fs'"
    proof (rule crash_commit_settled [OF inst _ _ b that])
      show "replaces ?fs1 tmp 1" by (simp add: replaces_def)
      show "\<not> wal_pending ?fs1 tmp" using assms(2) by (simp add: wal_pending_def)
    qed
    then have "others_same tmp ?fs1 fs'"
      by (auto simp: settled_def untouched_def torn_log_def logged_def committed_def)
    then show ?thesis by (simp add: others_same_def)
  qed
  ultimately show ?thesis using that [OF img t] fin(1) unfolding init by blast
qed

section \<open>Complete migrations\<close>

lemma migrate_fresh:
  assumes "fs tmp = None" and "fs (wal_path tmp) = None" and "table_ok flds rows" and "image_fits flds rows"
    and "build_image flds rows 1 = Inr img"
  shows "\<exists>cs. migrate others fs source schema_before rows_before flds rows d tmp =
      promote (others (fs(tmp \<mapsto> img))) source schema_before rows_before d tmp
        (Make_Temporary tmp # map Storage_Call cs @ [Remove (wal_path tmp), Meanwhile others]) \<and>
    run cs (fs(tmp \<mapsto> [])) = fs(tmp \<mapsto> img, wal_path tmp \<mapsto> []) \<and>
    (\<forall>fs'. crash cs (fs(tmp \<mapsto> [])) fs' \<longrightarrow> others_same tmp fs fs')"
proof -
  let ?init = "initialize_owned_empty_file (fs(tmp \<mapsto> [])) tmp flds rows"
  obtain img' t pages where c: "build_image flds rows 1 = Inr img'" "parse_image img' False = Inr (t, pages)"
    "lt_fields t = flds" "lt_rows t = rows" "snd ?init = Inr ()"
    "run (fst ?init) (fs(tmp \<mapsto> [])) = fs(tmp \<mapsto> img', wal_path tmp \<mapsto> [])"
    "\<forall>fs'. crash (fst ?init) (fs(tmp \<mapsto> [])) fs' \<longrightarrow> others_same tmp fs fs'"
    by (rule temporary_commit [OF assms(1-4)])
  have i: "img' = img" using c(1) assms(5) by simp
  let ?fs2 = "fs(tmp \<mapsto> img, wal_path tmp \<mapsto> [])"
  have quiet: "\<not> wal_pending ?fs2 tmp" by (simp add: wal_pending_def)
  have "load_table ?fs2 tmp = Inr t" using c(2) quiet i by (auto simp: load_table_Inr)
  then have op: "open_table ?fs2 tmp = ([], Inr t)" by (simp add: open_table_quiet [OF quiet])
  have f: "?fs2(wal_path tmp := None) = fs(tmp \<mapsto> img)" using assms(2) by auto
  obtain cs where cs: "?init = (cs, Inr ())" using c(5) by (cases ?init) auto
  then show ?thesis
    using c(3,4,6,7) op f i by (auto simp: migrate_def Let_def)
qed

lemma promote_calls:
  "\<exists>tail. fst (promote G source sb rb d tmp cs) = cs @ tail \<and>
    (tail = [Remove tmp, Remove (wal_path tmp)] \<or>
     tail = [Migration_Point ''before-promotion'', Remove tmp, Remove (wal_path tmp)] \<or>
     G d = None \<and> tail = [Migration_Point ''before-promotion'', Link tmp d, Migration_Point ''after-promotion'',
       Sync_Directory d, Migration_Point ''after-directory-fsync'', Remove tmp, Sync_Directory d])"
  by (auto simp: promote_def give_up_def file_exists_def split: sum.splits)

lemma promote_done:
  assumes "G (schema_path source) = Some sb" and "G (rows_path source) = Some rb" and "G d = None"
  shows "promote G source sb rb d tmp cs =
    (cs @ [Migration_Point ''before-promotion'', Link tmp d, Migration_Point ''after-promotion'',
       Sync_Directory d, Migration_Point ''after-directory-fsync'', Remove tmp, Sync_Directory d], Inr ())"
  using assms by (simp add: promote_def read_bytes_def file_exists_def)

text \<open>The states in which the calls of a migration can stop.\<close>

lemma migrate_crash_states:
  assumes "fs tmp = None" and "table_ok flds rows" and "image_fits flds rows" and "build_image flds rows 1 = Inr img"
    and "mig_crash (fst (migrate others fs source sb rb flds rows d tmp)) fs fs'"
    and "d \<noteq> tmp" and "d \<noteq> wal_path tmp" and "\<forall>F. others F tmp = F tmp"
  shows "(\<forall>p. p \<noteq> tmp \<longrightarrow> p \<noteq> wal_path tmp \<longrightarrow> fs' p = fs p) \<or>
    (\<forall>p. p \<noteq> tmp \<longrightarrow> p \<noteq> wal_path tmp \<longrightarrow> fs' p = others (fs(tmp \<mapsto> img)) p) \<or>
    others (fs(tmp \<mapsto> img)) d = None \<and> fs' d = Some img \<and>
      (\<forall>p. p \<noteq> tmp \<longrightarrow> p \<noteq> wal_path tmp \<longrightarrow> p \<noteq> d \<longrightarrow> fs' p = others (fs(tmp \<mapsto> img)) p)"
proof (cases "fs (wal_path tmp)")
  case (Some w)
  then have "fst (migrate others fs source sb rb flds rows d tmp) = [Make_Temporary tmp, Remove tmp, Remove (wal_path tmp)]"
    by (simp add: migrate_def initialize_owned_empty_file_def file_exists_def raise_def give_up_def)
  then show ?thesis using assms(5) by (auto simp: mig_crash_Cons)
next
  case None
  let ?G = "others (fs(tmp \<mapsto> img))"
  obtain cs where cs: "migrate others fs source sb rb flds rows d tmp =
      promote ?G source sb rb d tmp (Make_Temporary tmp # map Storage_Call cs @ [Remove (wal_path tmp), Meanwhile others])"
    "run cs (fs(tmp \<mapsto> [])) = fs(tmp \<mapsto> img, wal_path tmp \<mapsto> [])"
    "\<forall>fs'. crash cs (fs(tmp \<mapsto> [])) fs' \<longrightarrow> others_same tmp fs fs'"
    using migrate_fresh [OF assms(1) None assms(2-4)] by blast
  obtain tail where tail: "fst (migrate others fs source sb rb flds rows d tmp) =
      (Make_Temporary tmp # map Storage_Call cs @ [Remove (wal_path tmp), Meanwhile others]) @ tail"
    "tail = [Remove tmp, Remove (wal_path tmp)] \<or>
     tail = [Migration_Point ''before-promotion'', Remove tmp, Remove (wal_path tmp)] \<or>
     ?G d = None \<and> tail = [Migration_Point ''before-promotion'', Link tmp d, Migration_Point ''after-promotion'',
       Sync_Directory d, Migration_Point ''after-directory-fsync'', Remove tmp, Sync_Directory d]"
    unfolding cs(1) using promote_calls [of ?G source sb rb d tmp "Make_Temporary tmp # map Storage_Call cs @
      [Remove (wal_path tmp), Meanwhile others]"] by blast
  have F: "(fs(tmp \<mapsto> img))(wal_path tmp := None) = fs(tmp \<mapsto> img)" using None by auto
  have G: "?G tmp = Some img" using assms(8) by simp
  from assms(5) consider "fs' = fs" | "crash cs (fs(tmp \<mapsto> [])) fs'" | "fs' = fs(tmp \<mapsto> img)" | "mig_crash tail ?G fs'"
    | "fs' = fs(tmp \<mapsto> img, wal_path tmp \<mapsto> [])"
    unfolding tail(1) by (auto simp: mig_crash_append mig_crash_Cons mig_crash_storage cs(2) F intro: crash_run)
  then show ?thesis
  proof cases
    case 2
    then show ?thesis using cs(3) by (auto simp: others_same_def)
  next
    case 4
    from tail(2) show ?thesis
    proof (elim disjE conjE)
      assume n: "?G d = None" "tail = [Migration_Point ''before-promotion'', Link tmp d, Migration_Point ''after-promotion'',
        Sync_Directory d, Migration_Point ''after-directory-fsync'', Remove tmp, Sync_Directory d]"
      then have "fs' = ?G \<or> fs' = ?G(d := ?G tmp) \<or> fs' = ?G(d := ?G tmp, tmp := None)"
        using 4 promotion_crash by blast
      then show ?thesis using n(1) G assms(6) by auto
    qed (use 4 in \<open>auto simp: mig_crash_Cons\<close>)
  qed auto
qed

lemma migrate_command_Inr:
  assumes "read_legacy fs source = Inr (flds, rows)"
  obtains sb rb where "fs (schema_path source) = Some sb" and "fs (rows_path source) = Some rb"
    and "read_bytes fs (schema_path source) = Inr sb" and "read_bytes fs (rows_path source) = Inr rb"
  using assms by (auto simp: read_legacy_def bindE_eq_Inr read_bytes_def split: option.splits)

text \<open>A size of the rows file for which the v2 image has enough page numbers.\<close>

definition rows_file_fits :: "files \<Rightarrow> string \<Rightarrow> bool" where
  "rows_file_fits fs source \<longleftrightarrow>
     (case fs (rows_path source) of None \<Rightarrow> True | Some bs \<Rightarrow> 3 * (length bs div SLOT_SIZE) + 6 \<le> MAX_PAGES)"

lemma rows_file_fits:
  assumes "rows_file_fits fs source" and "read_legacy fs source = Inr (flds, rows)"
  shows "image_fits flds rows"
proof -
  have v: "v1_table_ok flds rows" "fs (rows_path source) = Some (row_file rows)"
    using assms(2) by (auto simp: read_legacy_iff v1_files_def)
  then have "length (row_file rows) = SLOT_SIZE * length flds * length rows"
    by (intro length_row_file) (auto simp: v1_table_ok_def table_ok_def row_fits_def)
  then have "length (row_file rows) div SLOT_SIZE = length rows * length flds" by (simp add: SLOT_SIZE_def)
  then show ?thesis using assms(1) v(2) by (simp add: rows_file_fits_def image_fits_def)
qed

text \<open>The two theorems about the tool, in the form the properties use.\<close>

lemma migrate_command_done:
  assumes v1: "v1_table_ok flds rows" "v1_files fs source flds rows" "image_fits flds rows"
    and tmp: "exclusive_names mkstemp" "mkstemp fs (d @ ''.tmp.XXXXXX'') = Inr tmp" "fs (wal_path tmp) = None"
    and d: "fs d = None" "fs (wal_path d) = None"
    and quiet: "\<forall>F. \<forall>p \<in> {schema_path source, rows_path source, d, wal_path d, tmp}. others F p = F p"
  shows "\<exists>img t. mig_run (rr_calls (migrate_command mkstemp others fs False d source)) fs =
      (others (fs(tmp \<mapsto> img)))(d \<mapsto> img, tmp := None) \<and>
    rr_code (migrate_command mkstemp others fs False d source) = 0 \<and>
    open_table ((others (fs(tmp \<mapsto> img)))(d \<mapsto> img, tmp := None)) d = ([], Inr t) \<and>
    lt_fields t = flds \<and> lt_rows t = rows \<and>
    v1_files ((others (fs(tmp \<mapsto> img)))(d \<mapsto> img, tmp := None)) source flds rows"
proof -
  note n = exclusive_name [OF tmp(1,2)]
  have leg: "read_legacy fs source = Inr (flds, rows)" using v1(1,2) by (simp add: read_legacy_iff)
  obtain sb rb where s: "fs (schema_path source) = Some sb" "fs (rows_path source) = Some rb"
    "read_bytes fs (schema_path source) = Inr sb" "read_bytes fs (rows_path source) = Inr rb"
    by (rule migrate_command_Inr [OF leg])
  have ok: "table_ok flds rows" using v1(1) by (simp add: v1_table_ok_def)
  obtain img t pages where c: "build_image flds rows 1 = Inr img" "parse_image img False = Inr (t, pages)"
    "lt_fields t = flds" "lt_rows t = rows"
    by (rule temporary_commit [OF n(1) tmp(3) ok v1(3)])
  let ?G = "others (fs(tmp \<mapsto> img))"
  obtain cs where cs: "migrate others fs source sb rb flds rows d tmp =
      promote ?G source sb rb d tmp (Make_Temporary tmp # map Storage_Call cs @ [Remove (wal_path tmp), Meanwhile others])"
    "run cs (fs(tmp \<mapsto> [])) = fs(tmp \<mapsto> img, wal_path tmp \<mapsto> [])"
    using migrate_fresh [OF n(1) tmp(3) ok v1(3) c(1)] by blast
  have src: "schema_path source \<noteq> tmp" "rows_path source \<noteq> tmp" "schema_path source \<noteq> d" "rows_path source \<noteq> d"
    using s(1,2) n(1) d(1) by auto
  have G: "?G (schema_path source) = Some sb" "?G (rows_path source) = Some rb" "?G d = None" "?G (wal_path d) = None"
    "?G tmp = Some img"
    using quiet s(1,2) src d n(2,4) by simp_all
  note pd = promote_done [where tmp = tmp, OF G(1,2,3)]
  have F: "(fs(tmp \<mapsto> img))(wal_path tmp := None) = fs(tmp \<mapsto> img)" using tmp(3) by auto
  let ?r = "migrate_command mkstemp others fs False d source"
  let ?H = "?G(d \<mapsto> img, tmp := None)"
  have run: "mig_run (rr_calls ?r) fs = ?H" "rr_code ?r = 0"
    using s(3,4) leg d tmp(2) cs pd G(5) n(2)
    by (simp_all add: migrate_command_def Let_def file_exists_def F)
  have hd: "?H d = Some img" "\<not> wal_pending ?H d" using G(4) n(2,4) by (auto simp: wal_pending_def)
  then have "load_table ?H d = Inr t" using c(2) by (auto simp: load_table_Inr)
  then have op: "open_table ?H d = ([], Inr t)" by (simp add: open_table_quiet [OF hd(2)])
  have "v1_files ?H source flds rows" using v1(2) s(1,2) G(1,2) src by (auto simp: v1_files_def)
  then show ?thesis using run op c(3,4) by blast
qed

lemma migrate_command_crash:
  assumes tmp: "exclusive_names mkstemp" "mkstemp fs (d @ ''.tmp.XXXXXX'') = Inr tmp"
    and fits: "rows_file_fits fs source"
    and quiet: "\<forall>F. others F tmp = F tmp"
    and crash: "mig_crash (rr_calls (migrate_command mkstemp others fs dry_run d source)) fs fs'"
  shows "(\<forall>p. p \<noteq> tmp \<longrightarrow> p \<noteq> wal_path tmp \<longrightarrow> fs' p = fs p) \<or>
    (\<exists>img flds rows t pages. v1_files fs source flds rows \<and> parse_image img False = Inr (t, pages) \<and>
      lt_fields t = flds \<and> lt_rows t = rows \<and>
      (\<forall>p. p \<noteq> tmp \<longrightarrow> p \<noteq> wal_path tmp \<longrightarrow> p \<noteq> d \<longrightarrow> fs' p = others (fs(tmp \<mapsto> img)) p) \<and>
      (fs' d = others (fs(tmp \<mapsto> img)) d \<or>
       fs d = None \<and> others (fs(tmp \<mapsto> img)) d = None \<and> fs' d = Some img))"
proof -
  note n = exclusive_name [OF tmp]
  have quick: ?thesis if "rr_calls (migrate_command mkstemp others fs dry_run d source) = []"
    using crash that by simp
  show ?thesis
  proof (cases "read_legacy fs source")
    case (Inl e)
    then show ?thesis
      by (intro quick) (simp add: migrate_command_def report_error_def split: sum.splits)
  next
    case (Inr fr)
    obtain flds rows where fr: "fr = (flds, rows)" by (cases fr)
    then have leg: "read_legacy fs source = Inr (flds, rows)" using Inr by simp
    obtain sb rb where s: "fs (schema_path source) = Some sb" "fs (rows_path source) = Some rb"
      "read_bytes fs (schema_path source) = Inr sb" "read_bytes fs (rows_path source) = Inr rb"
      by (rule migrate_command_Inr [OF leg])
    show ?thesis
    proof (cases "dry_run \<or> file_exists fs d \<or> file_exists fs (wal_path d)")
      case True
      then show ?thesis
        by (intro quick) (auto simp: migrate_command_def s(3,4) leg report_error_def Let_def)
    next
      case False
      have v: "v1_files fs source flds rows" "table_ok flds rows"
        using leg by (simp_all add: read_legacy_iff v1_table_ok_def)
      have fit: "image_fits flds rows" by (rule rows_file_fits [OF fits leg])
      obtain img where img: "build_image flds rows 1 = Inr img" using build_image_ok [OF v(2) fit, of 1] by blast
      obtain t pages where t: "parse_image img False = Inr (t, pages)" "lt_fields t = flds" "lt_rows t = rows"
        using build_image_installs(2) [OF v(2) fit img, of False] by blast
      have "rr_calls (migrate_command mkstemp others fs dry_run d source) =
          fst (migrate others fs source sb rb flds rows d tmp)"
        using s(3,4) leg False tmp(2)
        by (simp add: migrate_command_def Let_def report_error_def split: prod.splits sum.splits)
      then have "mig_crash (fst (migrate others fs source sb rb flds rows d tmp)) fs fs'" using crash by simp
      from migrate_crash_states [OF n(1) v(2) fit img this n(2) [symmetric] n(3) [symmetric] quiet]
      show ?thesis
      proof (elim disjE)
        assume "\<forall>p. p \<noteq> tmp \<longrightarrow> p \<noteq> wal_path tmp \<longrightarrow> fs' p = others (fs(tmp \<mapsto> img)) p"
        moreover from this have "fs' d = others (fs(tmp \<mapsto> img)) d" using n(2,3) by metis
        ultimately show ?thesis using v(1) t by blast
      next
        assume "others (fs(tmp \<mapsto> img)) d = None \<and> fs' d = Some img \<and>
          (\<forall>p. p \<noteq> tmp \<longrightarrow> p \<noteq> wal_path tmp \<longrightarrow> p \<noteq> d \<longrightarrow> fs' p = others (fs(tmp \<mapsto> img)) p)"
        moreover have "fs d = None" using False by (simp add: file_exists_def)
        ultimately show ?thesis using v(1) t by blast
      qed blast
    qed
  qed
qed

text \<open>
  The handler removes the log name of the temporary file even where that file existed before the tool
  ran and made it fail: a file that is not the tool's own is deleted.
\<close>

lemma foreign_log_removed:
  assumes "fs (wal_path tmp) = Some w"
  shows "mig_run (fst (migrate others fs source sb rb flds rows d tmp)) fs (wal_path tmp) = None"
    and "snd (migrate others fs source sb rb flds rows d tmp) =
      Inl (Runtime_Error (''Owned migration WAL already exists: '' @ wal_path tmp))"
  using assms by (simp_all add: migrate_def initialize_owned_empty_file_def file_exists_def raise_def give_up_def)

end
