(* ===== verification/File_Tokenizer.thy ===== *)
theory File_Tokenizer
  imports Tokenizer
begin

text \<open>
  \<open>FTokenizer\<close> of \<open>ftokenize.cpp\<close>: a file is read in blocks of at most \<open>MAX_BLOCK - 1\<close> bytes, and each
  block is handed to the string tokenizer as a C string. The lemmas give the sequence of tokens a
  reader gets as a function of the file: the blocks are tokenized one by one, so a lexeme that
  crosses a block border is cut, a block that is empty or begins with a NUL character yields an empty
  token, and whatever follows a NUL character inside a block is skipped.
\<close>

section \<open>The state\<close>

text \<open>
  The stream \<open>_f\<close> is what is left of the file, its end-of-file flag and whether it is open; \<open>ft_out\<close>
  are the lines written to \<open>cout\<close>. Reads do not fail before the end of the file. The counters
  are 32-bit \<open>int\<close>s: \<open>_pos += n\<close> with a \<open>size_t\<close> adds in 64 bits and keeps the low 32, so the counter
  wraps around, and read as a signed number (\<open>sint\<close>) it is negative after \<open>2\<^sup>3\<^sup>1\<close> characters.
\<close>

record file_tokenizer =
  ft_rest :: string
  ft_eof :: bool
  ft_open :: bool
  ft_stk :: tokenizer
  ft_pos :: "32 word"
  ft_block_pos :: "32 word"
  ft_more :: bool
  ft_out :: "string list"

definition MAX_BUFFER :: nat where "MAX_BUFFER = 200"
definition MAX_BLOCK :: nat where "MAX_BLOCK = MAX_BUFFER"

text \<open>
  \<open>_f.read(buffer, n)\<close> takes \<open>n\<close> bytes or what is left; only a read that comes up short sets the
  end-of-file flag. The result is the bytes read.
\<close>

definition stream_read :: "nat \<Rightarrow> file_tokenizer \<Rightarrow> string \<times> file_tokenizer" where
  "stream_read n f =
     (take n (ft_rest f), f\<lparr>ft_rest := drop n (ft_rest f), ft_eof := length (ft_rest f) < n\<rparr>)"

definition get_new_block :: "file_tokenizer \<Rightarrow> bool \<times> file_tokenizer" where
  "get_new_block f =
     (if \<not> ft_eof f
      then
        let f = f\<lparr>ft_block_pos := 0\<rparr>;
            (buffer, f) = stream_read (MAX_BLOCK - 1) f;
            f = f\<lparr>ft_stk := set_string buffer\<rparr>;
            line = ''----- New Block ----- ['' @ to_string (length buffer) @ ''] bytes''
        in (True, f\<lparr>ft_out := ft_out f @ [line]\<rparr>)
      else (False, f\<lparr>ft_open := False, ft_out := ft_out f @ [''END OF FILE'']\<rparr>))"

definition load_block :: "file_tokenizer \<Rightarrow> file_tokenizer" where
  "load_block f = (case get_new_block f of (loaded, f) \<Rightarrow> f\<lparr>ft_more := loaded\<rparr>)"

text \<open>The constructor, for the contents of the file, if it can be opened; \<open>None\<close> is a failed \<open>assert\<close>.\<close>

definition FTokenizer :: "string option \<Rightarrow> file_tokenizer option" where
  "FTokenizer contents =
     (case contents of
        None \<Rightarrow> None
      | Some cs \<Rightarrow> Some (load_block
          \<lparr>ft_rest = cs, ft_eof = False, ft_open = True, ft_stk = set_string [],
           ft_pos = 0, ft_block_pos = 0, ft_more = False, ft_out = []\<rparr>))"

definition next_token :: "file_tokenizer \<Rightarrow> stoken \<times> file_tokenizer" where
  "next_token f =
     (let (token, stk) = read_token (ft_stk f) empty_stoken;
          n = word_of_nat (length (st_text token));
          f = f\<lparr>ft_stk := stk, ft_pos := ft_pos f + n, ft_block_pos := ft_block_pos f + n\<rparr>
      in (token, if tk_done stk then load_block f else f))"

text \<open>A client's loop: \<open>while (f.more()) { f >> t; ... }\<close>.\<close>

partial_function (option) read_tokens :: "file_tokenizer \<Rightarrow> (stoken list \<times> file_tokenizer) option" where
  "read_tokens f =
     (if ft_more f
      then Option.bind (read_tokens (snd (next_token f))) (\<lambda>(ts, f'). Some (fst (next_token f) # ts, f'))
      else Some ([], f))"

section \<open>What a reader gets\<close>

function blocks :: "string \<Rightarrow> string list" where
  "blocks cs =
     (if length cs < MAX_BLOCK - 1 then [cs]
      else take (MAX_BLOCK - 1) cs # blocks (drop (MAX_BLOCK - 1) cs))"
  by pat_completeness auto
termination by (relation "measure length") (auto simp: MAX_BLOCK_def MAX_BUFFER_def)

declare blocks.simps [simp del]

definition block_tokens :: "string \<Rightarrow> stoken list" where
  "block_tokens b = (if c_str b = [] then [empty_stoken] else lex (c_str b))"

lemma concat_blocks: "concat (blocks cs) = cs"
  by (induction cs rule: blocks.induct) (subst blocks.simps, simp)

lemma c_str_nul_free: "CHR 0x00 \<notin> set (c_str s)"
  by (auto simp: c_str_def dest: set_takeWhileD)

lemma c_str_same: "CHR 0x00 \<notin> set s \<Longrightarrow> c_str s = s"
  by (auto simp: c_str_def takeWhile_eq_all_conv)

lemma block_tokens_text: "concat (map st_text (block_tokens b)) = c_str b"
  by (simp add: block_tokens_def lex_lossless empty_stoken_def SToken_def)

lemma load_block_eq:
  "load_block f =
     (if ft_eof f then f\<lparr>ft_open := False, ft_out := ft_out f @ [''END OF FILE''], ft_more := False\<rparr>
      else f\<lparr>ft_rest := drop (MAX_BLOCK - 1) (ft_rest f), ft_eof := length (ft_rest f) < MAX_BLOCK - 1,
        ft_block_pos := 0, ft_stk := set_string (take (MAX_BLOCK - 1) (ft_rest f)),
        ft_out := ft_out f @ [''----- New Block ----- ['' @
          to_string (length (take (MAX_BLOCK - 1) (ft_rest f))) @ ''] bytes''],
        ft_more := True\<rparr>)"
  by (simp add: load_block_def get_new_block_def stream_read_def Let_def)

text \<open>One block: its tokens, and the state in which the next block is asked for.\<close>

lemma read_block:
  assumes "ft_more f" "CHR 0x00 \<notin> set (tk_buffer (ft_stk f))"
    and "drop (tk_pos (ft_stk f)) (tk_buffer (ft_stk f)) = cs" "cs \<noteq> []"
  shows "\<exists>f'. ft_rest f' = ft_rest f \<and> ft_eof f' = ft_eof f \<and> ft_pos f' = ft_pos f + word_of_nat (length cs) \<and>
    read_tokens f = Option.bind (read_tokens (load_block f')) (\<lambda>(ts, g). Some (lex cs @ ts, g))"
  using assms
proof (induction cs arbitrary: f rule: lex.induct)
  case 1
  then show ?case by simp
next
  case (2 c cs)
  let ?s = "ft_stk f" and ?n = "lexeme_length c cs"
  let ?text = "take ?n (c # cs)"
  have n: "?n \<le> Suc (length cs)" by (rule lexeme_length_le)
  then have len: "length ?text = ?n" by simp
  have len_cs: "length (tk_buffer ?s) - tk_pos ?s = Suc (length cs)"
    using 2(4) by (metis length_Cons length_drop)
  define s where "s = ?s\<lparr>tk_pos := tk_pos ?s + ?n\<rparr>"
  define f1 where "f1 = f\<lparr>ft_stk := s, ft_pos := ft_pos f + word_of_nat ?n, ft_block_pos := ft_block_pos f + word_of_nat ?n\<rparr>"
  have tok: "read_token ?s empty_stoken = (SToken ?text (char_kind c), s)"
    using get_token_eq [OF 2(3,4)] by (simp add: read_token_def s_def)
  have next1: "next_token f = (SToken ?text (char_kind c), if tk_done s then load_block f1 else f1)"
    using len by (simp add: next_token_def tok f1_def SToken_def Let_def del: length_take)
  have left: "drop (tk_pos s) (tk_buffer s) = drop ?n (c # cs)"
    unfolding s_def using 2(4) by (simp add: add.commute flip: drop_drop)
  have step: "read_tokens f = Option.bind (read_tokens (if tk_done s then load_block f1 else f1))
      (\<lambda>(ts, g). Some (SToken ?text (char_kind c) # ts, g))"
    using 2(2) by (subst read_tokens.simps) (simp add: next1)
  have lex: "lex (c # cs) = SToken ?text (char_kind c) # lex (drop ?n (c # cs))" by (rule lex.simps(2))
  show ?case
  proof (cases "tk_done s")
    case True
    then have "drop ?n (c # cs) = []" unfolding left [symmetric] by (simp add: tk_done_def)
    moreover from this have "?n = Suc (length cs)" using n by simp
    ultimately show ?thesis
      using True step lex by (intro exI [of _ f1]) (auto simp: f1_def)
  next
    case False
    then have ne: "drop ?n (c # cs) \<noteq> []" unfolding left [symmetric] by (simp add: tk_done_def)
    have "ft_more f1" "CHR 0x00 \<notin> set (tk_buffer (ft_stk f1))"
      "drop (tk_pos (ft_stk f1)) (tk_buffer (ft_stk f1)) = drop ?n (c # cs)"
      using 2(2,3) left by (simp_all add: f1_def s_def)
    from 2(1) [OF this ne] obtain f' where f': "ft_rest f' = ft_rest f1" "ft_eof f' = ft_eof f1"
      "ft_pos f' = ft_pos f1 + word_of_nat (length (drop ?n (c # cs)))"
      "read_tokens f1 = Option.bind (read_tokens (load_block f')) (\<lambda>(ts, g). Some (lex (drop ?n (c # cs)) @ ts, g))"
      by blast
    have "read_tokens f = Option.bind (read_tokens (load_block f')) (\<lambda>(ts, g). Some (lex (c # cs) @ ts, g))"
      using step False f'(4) lex by (cases "read_tokens (load_block f')") auto
    moreover have "?n + length (drop ?n (c # cs)) = length (c # cs)" using n by simp
    then have "ft_pos f' = ft_pos f + word_of_nat (length (c # cs))"
      using f'(3) by (simp add: f1_def add.assoc flip: of_nat_add del: length_drop length_Cons of_nat_Suc)
    ultimately show ?thesis using f' by (intro exI [of _ f']) (auto simp: f1_def)
  qed
qed

text \<open>An empty block: one empty token.\<close>

lemma read_empty_block:
  assumes "ft_more f" "tk_done (ft_stk f)"
  shows "read_tokens f = Option.bind (read_tokens (load_block f)) (\<lambda>(ts, g). Some (empty_stoken # ts, g))"
proof -
  have "read_token (ft_stk f) empty_stoken = (empty_stoken, ft_stk f)"
    using assms(2) by (simp add: read_token_def get_token_def)
  then have "next_token f = (empty_stoken, load_block f)"
    using assms(2) by (simp add: next_token_def empty_stoken_def SToken_def)
  then show ?thesis using assms(1) by (subst read_tokens.simps) simp
qed

definition read_chars :: "string \<Rightarrow> nat" where
  "read_chars cs = sum_list (map (\<lambda>b. length (c_str b)) (blocks cs))"

lemma read_tokens_blocks:
  "\<not> ft_eof f \<Longrightarrow> ft_rest f = cs \<Longrightarrow>
   \<exists>f'. read_tokens (load_block f) = Some (concat (map block_tokens (blocks cs)), f') \<and>
     \<not> ft_more f' \<and> \<not> ft_open f' \<and> ft_pos f' = ft_pos f + word_of_nat (read_chars cs)"
proof (induction cs arbitrary: f rule: blocks.induct)
  case (1 cs)
  let ?b = "take (MAX_BLOCK - 1) cs"
  define g where "g = load_block f"
  have g: "ft_more g" "ft_stk g = set_string ?b" "ft_rest g = drop (MAX_BLOCK - 1) cs"
    "ft_eof g = (length cs < MAX_BLOCK - 1)" "ft_pos g = ft_pos f"
    using 1(2,3) by (simp_all add: g_def load_block_eq)
  have "\<exists>f'. ft_rest f' = ft_rest g \<and> ft_eof f' = ft_eof g \<and> ft_pos f' = ft_pos g + word_of_nat (length (c_str ?b)) \<and>
    read_tokens g = Option.bind (read_tokens (load_block f')) (\<lambda>(ts, g). Some (block_tokens ?b @ ts, g))"
  proof (cases "c_str ?b = []")
    case True
    then have "tk_done (ft_stk g)" using g(2) by (simp add: tk_done_def set_string_def)
    from read_empty_block [OF g(1) this] True show ?thesis
      by (intro exI [of _ g]) (simp add: block_tokens_def)
  next
    case False
    have "drop (tk_pos (ft_stk g)) (tk_buffer (ft_stk g)) = c_str ?b"
      "CHR 0x00 \<notin> set (tk_buffer (ft_stk g))"
      using g(2) c_str_nul_free by (simp_all add: set_string_def)
    from read_block [OF g(1) this(2,1) False] False show ?thesis by (simp add: block_tokens_def)
  qed
  then obtain f' where f': "ft_rest f' = ft_rest g" "ft_eof f' = ft_eof g"
    "ft_pos f' = ft_pos g + word_of_nat (length (c_str ?b))"
    "read_tokens g = Option.bind (read_tokens (load_block f')) (\<lambda>(ts, g). Some (block_tokens ?b @ ts, g))" by blast
  show ?case
  proof (cases "length cs < MAX_BLOCK - 1")
    case True
    then have last_block: "?b = cs" "blocks cs = [cs]" by (simp, subst blocks.simps, simp)
    have "\<not> ft_more (load_block f')" "\<not> ft_open (load_block f')" "ft_pos (load_block f') = ft_pos f'"
      using True f'(2) g(4) by (simp_all add: load_block_eq)
    moreover from this have "read_tokens (load_block f') = Some ([], load_block f')"
      by (subst read_tokens.simps) simp
    ultimately show ?thesis
      using f' g last_block by (intro exI [of _ "load_block f'"]) (simp add: read_chars_def flip: g_def)
  next
    case False
    then have bl: "blocks cs = ?b # blocks (drop (MAX_BLOCK - 1) cs)" by (subst blocks.simps) simp
    have "\<not> ft_eof f'" "ft_rest f' = drop (MAX_BLOCK - 1) cs" using False f' g by simp_all
    from 1(1) [OF False this] obtain h where
      "read_tokens (load_block f') = Some (concat (map block_tokens (blocks (drop (MAX_BLOCK - 1) cs))), h)"
      "\<not> ft_more h" "\<not> ft_open h" "ft_pos h = ft_pos f' + word_of_nat (read_chars (drop (MAX_BLOCK - 1) cs))" by blast
    then show ?thesis
      using f'(3,4) g(5) bl by (intro exI [of _ h]) (simp add: read_chars_def flip: g_def)
  qed
qed

lemma file_tokens:
  "\<exists>f f'. FTokenizer (Some cs) = Some f \<and>
     read_tokens f = Some (concat (map block_tokens (blocks cs)), f') \<and>
     \<not> ft_more f' \<and> \<not> ft_open f' \<and> ft_pos f' = word_of_nat (read_chars cs)"
  using read_tokens_blocks [of "\<lparr>ft_rest = cs, ft_eof = False, ft_open = True, ft_stk = set_string [],
    ft_pos = 0, ft_block_pos = 0, ft_more = False, ft_out = []\<rparr>" cs]
  by (auto simp: FTokenizer_def)

lemma blocks_c_str: "concat (map st_text (concat (map block_tokens bs))) = concat (map c_str bs)"
  by (induction bs) (simp_all add: block_tokens_text)

lemma read_chars_text:
  "read_chars cs = length (concat (map st_text (concat (map block_tokens (blocks cs)))))"
  unfolding blocks_c_str by (simp add: read_chars_def length_concat comp_def)

lemma sum_list_length_le: "sum_list (map (\<lambda>b. length (c_str b)) bs) \<le> length (concat bs)"
  by (induction bs) (simp_all add: c_str_def add_mono length_takeWhile_le)

lemma read_chars_le: "read_chars cs \<le> length cs"
  using sum_list_length_le [of "blocks cs"] by (simp add: read_chars_def concat_blocks)

text \<open>A counter below \<open>2\<^sup>3\<^sup>1\<close> is not negative; at \<open>2\<^sup>3\<^sup>1\<close> it is.\<close>

lemma sint_word_of_nat: "n < 2 ^ 31 \<Longrightarrow> sint (word_of_nat n :: 32 word) = int n"
  by (simp add: signed_of_nat signed_take_bit_int_eq_self)

lemma position_wraps: "sint (word_of_nat (2 ^ 31) :: 32 word) = - (2 ^ 31)"
  by simp

lemma blocks_text:
  assumes "CHR 0x00 \<notin> set cs"
  shows "concat (map st_text (concat (map block_tokens (blocks cs)))) = cs"
proof -
  have "c_str b = b" if "b \<in> set (blocks cs)" for b
  proof (rule c_str_same)
    have "set b \<subseteq> set (concat (blocks cs))" using that by auto
    then show "CHR 0x00 \<notin> set b" using assms unfolding concat_blocks by blast
  qed
  then have "map c_str (blocks cs) = blocks cs" by (rule map_idI)
  then show ?thesis unfolding blocks_c_str by (simp only: concat_blocks)
qed

lemma small_file:
  "CHR 0x00 \<notin> set cs \<Longrightarrow> cs \<noteq> [] \<Longrightarrow> length cs < 199 \<Longrightarrow>
   concat (map block_tokens (blocks cs)) = Tokenizer.lex cs"
  by (subst blocks.simps) (simp add: MAX_BLOCK_def MAX_BUFFER_def block_tokens_def c_str_same)

section \<open>Lexemes at the border of two blocks\<close>

lemma lex_word:
  assumes "n \<noteq> 0"
  shows "Tokenizer.lex (replicate n CHR ''a'') = [SToken (replicate n CHR ''a'') TOKEN_ALPHA]"
proof -
  obtain m where n: "n = Suc m" using assms by (cases n) auto
  have "char_kind CHR ''a'' = TOKEN_ALPHA" "CHR ''a'' \<in> set ALPHAS" by code_simp+
  then have "lexeme_length CHR ''a'' (replicate m CHR ''a'') = Suc m" "char_kind CHR ''a'' = TOKEN_ALPHA"
    by (simp_all add: lexeme_length_def prefix_length_def)
  then show ?thesis unfolding n by (simp add: lex.simps(2))
qed

lemma word_no_nul: "CHR 0x00 \<notin> set (replicate n CHR ''a'')"
  by (induction n) auto

lemma block_tokens_nil: "block_tokens [] = [empty_stoken]"
  by (simp add: block_tokens_def c_str_def)

lemma block_tokens_word: "n \<noteq> 0 \<Longrightarrow> block_tokens (replicate n CHR ''a'') = [SToken (replicate n CHR ''a'') TOKEN_ALPHA]"
  unfolding block_tokens_def c_str_same [OF word_no_nul] by (simp add: lex_word)

lemma blocks_small: "n < 199 \<Longrightarrow> blocks (replicate n c) = [replicate n c]"
  by (subst blocks.simps) (simp add: MAX_BLOCK_def MAX_BUFFER_def)

lemma blocks_large: "199 \<le> n \<Longrightarrow> blocks (replicate n c) = replicate 199 c # blocks (replicate (n - 199) c)"
  by (subst blocks.simps) (simp add: MAX_BLOCK_def MAX_BUFFER_def)

text \<open>A word of 200 letters is cut in two.\<close>

lemma border_cuts_lexeme:
  "concat (map block_tokens (blocks (replicate 200 CHR ''a''))) =
     [SToken (replicate 199 CHR ''a'') TOKEN_ALPHA, SToken ''a'' TOKEN_ALPHA]"
  "Tokenizer.lex (replicate 200 CHR ''a'') = [SToken (replicate 200 CHR ''a'') TOKEN_ALPHA]"
  by (simp_all only: lex_word) (simp add: blocks_large blocks_small [of 1, simplified] block_tokens_word [of 199] block_tokens_word [of 1, simplified])

text \<open>After a file of exactly one block the reader gets one more, empty, token.\<close>

lemma full_block_extra_token:
  "concat (map block_tokens (blocks (replicate 199 CHR ''a''))) =
     [SToken (replicate 199 CHR ''a'') TOKEN_ALPHA, empty_stoken]"
proof -
  have "blocks (replicate 199 CHR ''a'') = [replicate 199 CHR ''a'', []]"
    using blocks_large [of 199 "CHR ''a''"] blocks_small [of 0 "CHR ''a''"] by (simp only: diff_self_eq_0 replicate_0)
  then show ?thesis
    using block_tokens_word [of 199] by (simp add: block_tokens_nil)
qed

end
