(* ===== verification/Helpers.thy ===== *)
theory Helpers
  imports Shunting_Yard Tokenizer Commit
begin

text \<open>
  Small parts around the others: the class \<open>ShuntingYard\<close> with its member queue and sticky error flag
  (\<open>shunting_yard.h\<close>), the stream helpers of \<open>utilities.cpp\<close>, the printing helpers of
  \<open>state_machine_functions.cpp\<close>, and the vector search and the comparison of \<open>table.h\<close>.
\<close>

section \<open>The shunting yard as an object\<close>

record yard =
  y_queue :: "token list"
  y_error :: bool

definition yard_new :: yard where
  "yard_new = \<lparr>y_queue = [], y_error = False\<rparr>"

definition yard_of :: "token list \<Rightarrow> yard" where
  "yard_of input_q = \<lparr>y_queue = input_q, y_error = False\<rparr>"

definition yard_set :: "token list \<Rightarrow> yard \<Rightarrow> yard" where
  "yard_set input_q y = y\<lparr>y_queue := input_q, y_error := False\<rparr>"

text \<open>
  The member function takes its tokens out of the member queue: what it has not read when it gives up
  stays there. The result is the output queue, whether the function set the error flag, and the rest.
\<close>

fun yard_run :: "token list \<Rightarrow> token list \<Rightarrow> token list \<Rightarrow> token list \<times> bool \<times> token list" where
  "yard_run out stack [] = (case pop_all out stack of (out, bad) \<Rightarrow> (out, bad, []))"
| "yard_run out stack (token # queue) =
     (case token of
        TokenStr _ \<Rightarrow> yard_run (out @ [token]) stack queue
      | LeftParen \<Rightarrow> yard_run out (token # stack) queue
      | Relational _ \<Rightarrow> yard_run out (token # stack) queue
      | Logical _ \<Rightarrow>
          (case pop_operators (precedence token) out stack of
             (out, stack) \<Rightarrow> yard_run out (token # stack) queue)
      | RightParen \<Rightarrow>
          (case pop_to_paren out stack of
             None \<Rightarrow> ([], True, queue)
           | Some (out, stack) \<Rightarrow> yard_run out stack queue))"

definition yard_shunting_yard :: "yard \<Rightarrow> token list \<times> yard" where
  "yard_shunting_yard y =
     (case yard_run [] [] (y_queue y) of
        (out, bad, rest) \<Rightarrow> (out, y\<lparr>y_queue := rest, y_error := (if bad then True else y_error y)\<rparr>))"

definition yard_postfix :: "yard \<Rightarrow> token list \<times> yard" where
  "yard_postfix y = yard_shunting_yard y"

definition yard_postfix_of :: "token list \<Rightarrow> yard \<Rightarrow> token list \<times> yard" where
  "yard_postfix_of input_q y = yard_shunting_yard (y\<lparr>y_queue := input_q, y_error := False\<rparr>)"

definition yard_is_error :: "yard \<Rightarrow> bool" where
  "yard_is_error y = y_error y"

lemma yard_run_loop:
  "fst (yard_run out stack queue) = fst (yard_loop out stack queue)"
  "fst (snd (yard_run out stack queue)) = snd (yard_loop out stack queue)"
  by (induction out stack queue rule: yard_run.induct) (auto split: token.split prod.splits option.splits)

lemma yard_run_rest: "\<not> fst (snd (yard_run out stack queue)) \<Longrightarrow> snd (snd (yard_run out stack queue)) = []"
  by (induction out stack queue rule: yard_run.induct) (auto split: token.splits prod.splits option.splits)

text \<open>
  With a queue as its argument \<open>postfix\<close> does not depend on what the object did before; without one it
  works on what the last call left, which is nothing after a success.
\<close>

theorem yard_postfix_of_fresh:
  "fst (yard_postfix_of q y) = fst (shunting_yard q)"
  "yard_is_error (snd (yard_postfix_of q y)) = snd (shunting_yard q)"
  using yard_run_loop [of "[]" "[]" q]
  by (auto simp: yard_postfix_of_def yard_shunting_yard_def shunting_yard_def yard_is_error_def split: prod.split)

theorem yard_postfix_twice:
  assumes "\<not> snd (shunting_yard q)"
  shows "yard_postfix (snd (yard_postfix_of q y)) = ([], snd (yard_postfix_of q y))"
  using yard_run_loop [of "[]" "[]" q] yard_run_rest [of "[]" "[]" q] assms
  by (auto simp: yard_postfix_def yard_postfix_of_def yard_shunting_yard_def shunting_yard_def split: prod.split)

section \<open>Streams\<close>

text \<open>\<open>can\<close> says which paths the system lets the program open.\<close>

definition stream_exists :: "(path \<Rightarrow> bool) \<Rightarrow> files \<Rightarrow> path \<Rightarrow> bool" where
  "stream_exists can fs p \<longleftrightarrow> can p \<and> fs p \<noteq> None"

definition not_opened :: "path \<Rightarrow> error" where
  "not_opened p = Runtime_Error (''File could not be opened: '' @ p)"

definition open_fileRW :: "(path \<Rightarrow> bool) \<Rightarrow> files \<Rightarrow> path \<Rightarrow> files res" where
  "open_fileRW can fs p = (if can p \<and> fs p \<noteq> None then Inr fs else Inl (not_opened p))"

definition open_fileW :: "(path \<Rightarrow> bool) \<Rightarrow> files \<Rightarrow> path \<Rightarrow> files res" where
  "open_fileW can fs p = (if can p then Inr (fs(p \<mapsto> [])) else Inl (not_opened p))"

lemma open_fileRW_exists: "(\<exists>fs'. open_fileRW can fs p = Inr fs') \<longleftrightarrow> stream_exists can fs p"
  by (simp add: open_fileRW_def stream_exists_def)

lemma open_fileW_empties: "open_fileW can fs p = Inr fs' \<Longrightarrow> fs' p = Some [] \<and> (\<forall>q. q \<noteq> p \<longrightarrow> fs' q = fs q)"
  by (auto simp: open_fileW_def split: if_splits)

section \<open>Printing helpers\<close>

definition show_int :: "int \<Rightarrow> string" where
  "show_int n = (if n < 0 then ''-'' @ to_string (nat (- n)) else to_string (nat n))"

definition set_width :: "nat \<Rightarrow> string \<Rightarrow> string" where
  "set_width n s = replicate (n - length s) CHR '' '' @ s"

definition MAX_ROWS :: nat where "MAX_ROWS = 100"

definition MAX_COLUMNS :: nat where "MAX_COLUMNS = 256"

definition print_table :: "state_table \<Rightarrow> string" where
  "print_table table =
     concat (map (\<lambda>i. concat (map (\<lambda>j. set_width 2 (show_int (table i j))) [0..<MAX_COLUMNS]) @ [CHR 0x0A])
       [0..<MAX_ROWS])"

definition show_string :: "string \<Rightarrow> int \<Rightarrow> string" where
  "show_string s pos =
     c_str s @ '' pos: '' @ show_int pos @ [CHR 0x0A] @
     replicate (nat pos) CHR '' '' @ ''^'' @ [CHR 0x0A]"

section \<open>Vectors\<close>

fun contains_loop :: "'a list \<Rightarrow> 'a \<Rightarrow> bool" where
  "contains_loop [] target = False"
| "contains_loop (x # xs) target = (if x = target then True else contains_loop xs target)"

lemma contains_loop_set: "contains_loop v target \<longleftrightarrow> target \<in> set v"
  by (induction v) auto

definition comparitor :: "string \<times> int \<Rightarrow> string \<times> int \<Rightarrow> bool" where
  "comparitor a b \<longleftrightarrow> snd a < snd b"

end
