(* ===== verification/Class_Members.thy ===== *)
theory Class_Members
  imports Sql Maps
begin

text \<open>
  The remaining members of the classes: what the virtual functions of the shunting yard's tokens answer, the
  names and the output of string tokens, the constructors and comparisons of \<open>MPair\<close> and the list operators
  beside it, the accessors of records, tables and the SQL object, and the second ways into the parser. The
  lemmas show that they agree with what the other theories use in their place.
\<close>

section \<open>Tokens of the shunting yard\<close>

datatype yard_token_type =
    TOKEN_LEFTPAREN | TOKEN_RIGHTPAREN | TOKEN_TOKENSTR | TOKEN_LOGICAL | TOKEN_RELATIONAL

text \<open>The virtual functions of \<open>Token\<close>; \<open>print\<close> is the text it writes.\<close>

record token_members =
  vf_token_type :: yard_token_type
  vf_token_string :: string
  vf_print :: string
  vf_precedence :: int

definition base_members :: token_members where
  "base_members = \<lparr>vf_token_type = TOKEN_TOKENSTR, vf_token_string = [], vf_print = [], vf_precedence = - 1\<rparr>"

definition LeftParen_members :: token_members where
  "LeftParen_members =
     \<lparr>vf_token_type = TOKEN_LEFTPAREN, vf_token_string = ''('', vf_print = ''('', vf_precedence = - 1\<rparr>"

definition RightParen_members :: token_members where
  "RightParen_members =
     \<lparr>vf_token_type = TOKEN_RIGHTPAREN, vf_token_string = '')'', vf_print = '')'', vf_precedence = - 1\<rparr>"

definition TokenStr_members :: "string \<Rightarrow> token_members" where
  "TokenStr_members str =
     \<lparr>vf_token_type = TOKEN_TOKENSTR, vf_token_string = str, vf_print = str, vf_precedence = - 1\<rparr>"

definition Logical_members :: "string \<Rightarrow> token_members" where
  "Logical_members str =
     \<lparr>vf_token_type = TOKEN_LOGICAL, vf_token_string = str, vf_print = str,
      vf_precedence =
        (if str = ''not'' then 3 else if str = ''and'' then 2 else if str = ''or'' then 1 else - 1)\<rparr>"

definition Relational_members :: "string \<Rightarrow> token_members" where
  "Relational_members str =
     \<lparr>vf_token_type = TOKEN_RELATIONAL, vf_token_string = str, vf_print = str,
      vf_precedence =
        (if str = ''<'' \<or> str = ''>'' \<or> str = ''<='' \<or> str = ''>='' \<or> str = ''='' \<or> str = ''!='' \<or>
            str = ''LIKE'' then 4 else - 1)\<rparr>"

text \<open>The dispatch, and \<open>operator<<\<close> through it.\<close>

fun dispatch :: "token \<Rightarrow> token_members" where
  "dispatch LeftParen = LeftParen_members"
| "dispatch RightParen = RightParen_members"
| "dispatch (TokenStr str) = TokenStr_members str"
| "dispatch (Logical str) = Logical_members str"
| "dispatch (Relational str) = Relational_members str"

definition show_token :: "token \<Rightarrow> string" where
  "show_token t = vf_print (dispatch t)"

lemma dispatch_agrees:
  "vf_token_string (dispatch t) = token_string t" "vf_precedence (dispatch t) = precedence t"
  "show_token t = token_string t"
  by (cases t; simp add: LeftParen_members_def RightParen_members_def TokenStr_members_def
      Logical_members_def Relational_members_def logical_precedence_def relational_precedence_def show_token_def)+

text \<open>The algorithm tells tokens apart by their type, as the datatype does by its constructors.\<close>

lemma dispatch_types:
  "vf_token_type (dispatch t) = TOKEN_LEFTPAREN \<longleftrightarrow> t = LeftParen"
  "vf_token_type (dispatch t) = TOKEN_RIGHTPAREN \<longleftrightarrow> t = RightParen"
  "vf_token_type (dispatch t) = TOKEN_TOKENSTR \<longleftrightarrow> (\<exists>str. t = TokenStr str)"
  "vf_token_type (dispatch t) = TOKEN_LOGICAL \<longleftrightarrow> (\<exists>str. t = Logical str)"
  "vf_token_type (dispatch t) = TOKEN_RELATIONAL \<longleftrightarrow> (\<exists>str. t = Relational str)"
  by (cases t; simp add: LeftParen_members_def RightParen_members_def TokenStr_members_def
      Logical_members_def Relational_members_def)+

section \<open>String tokens\<close>

fun token_type_name :: "token_kind \<Rightarrow> string" where
  "token_type_name TOKEN_ALPHA = ''ALPHA''"
| "token_type_name TOKEN_NUMBER = ''NUMBER''"
| "token_type_name TOKEN_SPACE = ''SPACE''"
| "token_type_name TOKEN_OPERATOR = ''OPERATOR''"
| "token_type_name TOKEN_COMMA = ''COMMA''"
| "token_type_name TOKEN_PAREN = ''PAREN''"
| "token_type_name TOKEN_STAR = ''STAR''"
| "token_type_name _ = ''UNKNOWN''"

definition stoken_type :: "stoken \<Rightarrow> token_kind" where "stoken_type t = st_kind t"
definition stoken_text :: "stoken \<Rightarrow> string" where "stoken_text t = st_text t"

definition show_stoken :: "stoken \<Rightarrow> string" where
  "show_stoken t = ''|'' @ stoken_text t @ ''|''"

section \<open>Pairs with lists, and list operators\<close>

definition mpair_of_key :: "'k \<Rightarrow> 'k \<times> 'v list" where "mpair_of_key k = (k, [])"
definition mpair_of :: "'k \<Rightarrow> 'v \<Rightarrow> 'k \<times> 'v list" where
  "mpair_of k v = (case mpair_of_key k of (k, vs) \<Rightarrow> (k, vs @ [v]))"
definition mpair_of_list :: "'k \<Rightarrow> 'v list \<Rightarrow> 'k \<times> 'v list" where "mpair_of_list k vs = (k, vs)"

definition mpair_eq :: "'k \<times> 'v list \<Rightarrow> 'k \<times> 'v list \<Rightarrow> bool" where
  "mpair_eq l r \<longleftrightarrow> fst l = fst r"
definition mpair_less :: "'k :: linorder \<times> 'v list \<Rightarrow> 'k \<times> 'v list \<Rightarrow> bool" where
  "mpair_less l r \<longleftrightarrow> fst l < fst r"
definition mpair_le :: "'k :: linorder \<times> 'v list \<Rightarrow> 'k \<times> 'v list \<Rightarrow> bool" where
  "mpair_le l r \<longleftrightarrow> fst l \<le> fst r"
definition mpair_gt :: "'k :: linorder \<times> 'v list \<Rightarrow> 'k \<times> 'v list \<Rightarrow> bool" where
  "mpair_gt l r \<longleftrightarrow> fst l > fst r"

definition mpair_push :: "'k \<times> 'v list \<Rightarrow> 'v \<Rightarrow> 'k \<times> 'v list" where
  "mpair_push p v = (fst p, snd p @ [v])"

text \<open>The loop reads \<open>rhs\<close> by index and pushes each element.\<close>

definition vector_append :: "'a list \<Rightarrow> 'a list \<Rightarrow> 'a list" where
  "vector_append lhs rhs = foldl (\<lambda>out i. out @ [rhs ! i]) lhs [0..<length rhs]"

text \<open>
  The B+ tree relies on the four comparisons being those of one order that looks at keys only, so that an
  item can be replaced by one with the same key.
\<close>

lemma mpair_order:
  "mpair_le l r \<longleftrightarrow> mpair_less l r \<or> mpair_eq l r"
  "mpair_gt l r \<longleftrightarrow> mpair_less r l" "\<not> mpair_less l r \<longleftrightarrow> mpair_le r l"
  "mpair_eq l l' \<Longrightarrow> mpair_eq r r' \<Longrightarrow> mpair_less l r = mpair_less l' r'"
  by (auto simp: mpair_le_def mpair_less_def mpair_eq_def mpair_gt_def)

lemma mpair_push_plus: "mpair_plus p (mpair_of k v) = mpair_push p v"
  by (simp add: mpair_plus_def mpair_of_def mpair_of_key_def mpair_push_def)

lemma vector_append_eq: "vector_append lhs rhs = lhs @ rhs"
proof -
  have "foldl (\<lambda>out i. out @ [rhs ! i]) lhs [0..<n] = lhs @ take n rhs" if "n \<le> length rhs" for n
    using that by (induction n) (simp_all add: take_Suc_conv_app_nth)
  then show ?thesis by (simp add: vector_append_def)
qed

section \<open>Accessors\<close>

text \<open>\<open>FileRecord\<close>: its strings, its width, \<open>resize\<close>, and the output up to the first empty string.\<close>

definition column_size :: "string list \<Rightarrow> nat" where "column_size records = length records"

definition resize_records :: "nat \<Rightarrow> string list \<Rightarrow> string list" where
  "resize_records n records = take n records @ replicate (n - length records) []"

fun show_record :: "string list \<Rightarrow> string" where
  "show_record [] = []"
| "show_record (r # rs) = (if r = [] then [] else setw (100 div 4) r @ show_record rs)"

lemma show_record_resized: "show_record (resize_records (length rs + k) rs) = show_record rs"
proof -
  have "show_record (rs @ replicate k []) = show_record rs" by (induction rs) (cases k; simp)+
  then show ?thesis by (simp add: resize_records_def)
qed

definition table_recnos :: "table \<Rightarrow> int list" where "table_recnos tb = tb_recordIndices tb"
definition table_title :: "table \<Rightarrow> string" where "table_title tb = tb_tableName tb"
definition get_fields :: "table \<Rightarrow> string list" where "get_fields tb = tb_selectedFields tb"
definition table_record_count :: "table \<Rightarrow> int" where "table_record_count tb = int (length (table_recnos tb))"
definition table_names :: "table \<Rightarrow> string list" where "table_names tb = tb_fieldNames tb"

text \<open>\<open>Table::create_table\<close> assigns a newly created table and reports it.\<close>

definition table_create_table :: "files \<Rightarrow> string \<Rightarrow> string list \<Rightarrow> (table \<times> string) operation" where
  "table_create_table fs name flds =
     after fs (Table_create fs name flds) (\<lambda>tb _. pure_op (Inr (tb, ''create '' @ name @ '' success'')))"

definition sql_recnos :: "sql \<Rightarrow> int list" where "sql_recnos s = table_recnos (sq_table s)"
definition sql_is_error :: "sql \<Rightarrow> bool" where "sql_is_error s = sq_error s"
definition sql_last_error :: "sql \<Rightarrow> string" where "sql_last_error s = sq_last_error s"

lemma table_create_table_calls:
  "fst (table_create_table fs name flds) = fst (Table_create fs name flds)"
  by (auto simp: table_create_table_def after_def pure_op_def split: prod.splits sum.splits)

section \<open>The parser\<close>

definition parser_of_string :: "string \<Rightarrow> parser" where
  "parser_of_string str = tokenize (fresh_parser\<lparr>ps_token := set_string str\<rparr>)"

definition parser_set_cstring :: "string \<Rightarrow> parser \<Rightarrow> parser" where
  "parser_set_cstring str ps =
     tokenize (ps\<lparr>ps_tree := Map.empty, ps_types := [], ps_input := [], ps_token := set_string str\<rparr>)"

definition get_input :: "parser \<Rightarrow> stoken list" where "get_input ps = ps_input ps"

lemma parser_entries:
  "parser_of_string str = parser_set_string str fresh_parser" "parser_set_cstring str ps = parser_set_string str ps"
  by (simp_all add: parser_of_string_def parser_set_string_def parser_set_cstring_def fresh_parser_def)

end
