(* ===== verification/Command_Faults.thy ===== *)
theory Command_Faults
  imports Sql
begin

text \<open>
  Commands whose system calls fail. The calls that a command issues get their answers one by one; a failed
  \<open>open\<close>, \<open>write\<close>, \<open>lseek\<close>, \<open>ftruncate\<close> or \<open>fsync\<close> throws, \<open>SQL::command\<close> catches, and the files stay as the
  calls before the failure have left them. The lemmas give what the next opening of the table finds.
\<close>

section \<open>Answers of the system\<close>

text \<open>
  An answer for each call: \<open>Answered\<close> lets it succeed, for \<open>write_all\<close> with the answers of the successive
  \<open>write\<close> calls; \<open>Throws e\<close> stands for a call that fails, and for any other failure (a file that cannot be
  read, memory) between the call before and this one. Running out of answers is the end of the process.
\<close>

datatype answer = Answered "write_answer list" | Throws error

definition issue_call :: "write_answer list \<Rightarrow> syscall \<Rightarrow> files \<Rightarrow> files \<times> unit res option" where
  "issue_call as c fs =
     (case c of
        Write p off data \<Rightarrow> (case write_all as data of (out, ending) \<Rightarrow> (exec (Write p off out) fs, ending))
      | _ \<Rightarrow> (exec c fs, Some (Inr ())))"

fun issue :: "answer list \<Rightarrow> syscall list \<Rightarrow> files \<Rightarrow> files \<times> unit res option" where
  "issue (Throws e # _) cs fs = (fs, Some (Inl e))"
| "issue _ [] fs = (fs, Some (Inr ()))"
| "issue [] (c # cs) fs = (fs, None)"
| "issue (Answered as # answers) (c # cs) fs =
     (case issue_call as c fs of
        (fs, Some (Inr _)) \<Rightarrow> issue answers cs fs
      | (fs, ending) \<Rightarrow> (fs, ending))"

lemma issue_call_cases:
  assumes "issue_call as c fs = (fs', ending)"
  shows "crash [c] fs fs'" and "ending = Some (Inr ()) \<Longrightarrow> fs' = exec c fs"
proof -
  have "crash [c] fs fs' \<and> (ending = Some (Inr ()) \<longrightarrow> fs' = exec c fs)"
  proof (cases "\<exists>p off data. c = Write p off data")
    case True
    then obtain p off data where c: "c = Write p off data" by blast
    obtain out where out: "write_all as data = (out, ending)" "fs' = exec (Write p off out) fs"
      using assms by (auto simp: issue_call_def c split: prod.splits)
    obtain n where n: "n \<le> length data" "out = take n data" using write_all_prefix [OF out(1)] by blast
    have "crash [c] fs fs'" unfolding c out(2) n(2) by (rule crash_in_write [OF n(1)])
    moreover have "fs' = exec c fs" if "ending = Some (Inr ())"
      using write_all_complete [of as data out] out that c by simp
    ultimately show ?thesis by blast
  next
    case False
    then have "fs' = exec c fs" using assms by (auto simp: issue_call_def split: syscall.splits)
    then show ?thesis by (auto intro: crash_later crash_now)
  qed
  then show "crash [c] fs fs'" and "ending = Some (Inr ()) \<Longrightarrow> fs' = exec c fs" by blast+
qed

lemma crash_first: "crash [c] fs fs' \<Longrightarrow> crash (c # cs) fs fs'"
  by (auto simp: crash_Cons intro: crash_now)

text \<open>Whatever the answers, the files are some that a crash can leave; without a failure all calls are made.\<close>

lemma issue_crash: "issue answers cs fs = (fs', ending) \<Longrightarrow> crash cs fs fs'"
proof (induction answers cs fs rule: issue.induct)
  case (4 as answers c cs fs)
  obtain fs1 e where c: "issue_call as c fs = (fs1, e)" by fastforce
  show ?case
  proof (cases "e = Some (Inr ())")
    case True
    then have "issue answers cs fs1 = (fs', ending)" using 4(2) c by simp
    then have "crash cs fs1 fs'" using 4(1) [OF c [symmetric]] True by auto
    then show ?thesis using issue_call_cases(2) [OF c True] by (auto intro: crash_later)
  next
    case False
    then have "fs' = fs1" using 4(2) c by (auto split: option.splits sum.splits)
    then show ?thesis using issue_call_cases(1) [OF c] crash_first by blast
  qed
qed (auto intro: crash_now)

lemma issue_complete: "issue answers cs fs = (fs', Some (Inr ())) \<Longrightarrow> fs' = run cs fs"
proof (induction answers cs fs rule: issue.induct)
  case (4 as answers c cs fs)
  obtain fs1 e where c: "issue_call as c fs = (fs1, e)" by fastforce
  then have e: "e = Some (Inr ())" "issue answers cs fs1 = (fs', Some (Inr ()))"
    using 4(2) by (auto split: option.splits sum.splits)
  have "fs' = run cs fs1" using 4(1) [OF c [symmetric]] e by auto
  then show ?case using issue_call_cases(2) [OF c e(1)] by simp
qed auto

text \<open>
  \<open>SQL::command\<close> with these answers: an exception of a call ends in the handler, as one of the command's
  own does. The inner \<open>None\<close> is a process that has died.
\<close>

definition command_answered :: "answer list \<Rightarrow> files \<Rightarrow> sql \<Rightarrow> string \<Rightarrow> (files \<times> sql option) option" where
  "command_answered answers fs s cmd =
     map_option (\<lambda>(cs, s').
       case issue answers cs fs of
         (fs', ending) \<Rightarrow>
           (fs', map_option (\<lambda>r. case r of Inl e \<Rightarrow> finish s' (Inl e) | Inr _ \<Rightarrow> s') ending))
     (command fs s cmd)"

lemma command_answered_crash:
  assumes "command_answered answers fs s cmd = Some (fs', Some s')"
  obtains cs s1 where "command fs s cmd = Some (cs, s1)" "crash cs fs fs'" "sq_ptree s' = sq_ptree s1"
    "sq_error s' \<longrightarrow> sq_table s' = empty_table"
proof -
  obtain cs s1 where cmd: "command fs s cmd = Some (cs, s1)"
    using assms by (auto simp: command_answered_def)
  obtain fs1 ending where i: "issue answers cs fs = (fs1, ending)" by fastforce
  have c: "command fs s cmd = Some (cs, s1)" "issue answers cs fs = (fs', ending)"
    "Some s' = map_option (\<lambda>r. case r of Inl e \<Rightarrow> finish s1 (Inl e) | Inr _ \<Rightarrow> s1) ending"
    using assms i by (auto simp: command_answered_def cmd)
  moreover have "sq_error s1 \<longrightarrow> sq_table s1 = empty_table"
    using cmd by (auto simp: command_def finish_def split: bind_splits sum.splits)
  ultimately have "sq_ptree s' = sq_ptree s1" "sq_error s' \<longrightarrow> sq_table s' = empty_table"
    by (cases ending; auto simp: finish_def split: sum.splits)+
  with c(1) issue_crash [OF c(2)] show ?thesis by (rule that)
qed

section \<open>What a stopped command leaves\<close>

text \<open>The log of \<open>p\<close>, if it is pending, is what a commit, or a recovery of it, has left when it was stopped.\<close>

definition log_of_commit :: "files \<Rightarrow> path \<Rightarrow> bool" where
  "log_of_commit fs p \<longleftrightarrow> (wal_pending fs p \<longrightarrow> (\<exists>fs0 new g. installs new g \<and> settled fs0 p new g fs))"

definition same_table :: "files \<Rightarrow> path \<Rightarrow> files \<Rightarrow> bool" where
  "same_table fs p fs' \<longleftrightarrow> others_same p fs fs' \<and> snd (open_table fs' p) = snd (open_table fs p)"

lemma log_of_settled: "installs new g \<Longrightarrow> settled fs0 p new g fs \<Longrightarrow> log_of_commit fs p"
  by (auto simp: log_of_commit_def)

lemma crash_recover_log:
  assumes "log_of_commit fs p" and c: "crash (fst (recover fs p)) fs fs'"
  shows "log_of_commit fs' p"
proof (cases "wal_pending fs p")
  case True
  then obtain fs0 new g where "installs new g" "settled fs0 p new g fs" using assms(1) by (auto simp: log_of_commit_def)
  then show ?thesis using crash_recover_settled [OF _ _ c] by (auto intro: log_of_settled)
next
  case False
  then show ?thesis using assms by (simp add: recover_quiet calls_def)
qed

lemma same_table_refl: "same_table fs p fs"
  by (simp add: same_table_def others_same_def)

lemma open_logged:
  assumes new: "installs new g" and l: "logged fs0 p new g fs" and t: "parse_image new False = Inr (t, pages)"
  shows "snd (open_table fs p) = Inr t"
proof -
  have c: "committed fs0 p new (run (fst (recover fs p)) fs)" by (rule run_recover_logged(2) [OF new l])
  have "load_table (run (fst (recover fs p)) fs) p = Inr t"
    using committed_quiet [OF c] c t by (auto simp: load_table_Inr committed_def)
  then show ?thesis using run_recover_logged(1) [OF new l] by (simp add: open_table_result)
qed

lemma others_same_between: "others_same p fs fs1 \<Longrightarrow> others_same p fs fs2 \<Longrightarrow> others_same p fs1 fs2"
  by (simp add: others_same_def)

lemma installs_parse:
  assumes "installs new g"
  obtains t pages where "parse_image new False = Inr (t, pages)"
  using assms parse_image_flag by (auto simp: installs_def) blast

text \<open>A recovery that stops changes nothing that an opening sees.\<close>

lemma crash_recover_same:
  assumes s: "log_of_commit fs p" and c: "crash (fst (recover fs p)) fs fs'"
  shows "same_table fs p fs' \<and> (fs' = fs \<or> (\<exists>t. snd (open_table fs p) = Inr t))"
proof (cases "fst (recover fs p) = []")
  case True
  then show ?thesis using c same_table_refl by simp
next
  case False
  then have pending: "wal_pending fs p" by (cases "wal_pending fs p") (simp_all add: recover_quiet calls_def)
  then obtain fs0 new g where new: "installs new g" and set: "settled fs0 p new g fs"
    using s by (auto simp: log_of_commit_def)
  have "\<not> torn_log fs0 p new g fs"
  proof
    assume "torn_log fs0 p new g fs"
    from recover_torn_log [OF this installs_facts(5) [OF new]] False show False by (auto simp: raise_def)
  qed
  then have l: "logged fs0 p new g fs"
    using set pending committed_quiet by (auto simp: settled_def untouched_def)
  obtain t pages where t: "parse_image new False = Inr (t, pages)" by (rule installs_parse [OF new])
  have "logged fs0 p new g fs' \<or> committed fs0 p new fs'" by (rule crash_recover_logged [OF new l c])
  then have "snd (open_table fs' p) = Inr t" "others_same p fs0 fs'"
    using open_logged [OF new _ t] committed_open [OF _ t] by (auto simp: logged_def committed_def)
  moreover have "snd (open_table fs p) = Inr t" "others_same p fs0 fs"
    using open_logged [OF new l t] l by (auto simp: logged_def)
  ultimately show ?thesis by (auto simp: same_table_def intro: others_same_between)
qed

text \<open>
  \<open>kept fs p flds row fs'\<close>: opening \<open>p\<close> in \<open>fs'\<close> finds the table of \<open>fs\<close>, as it was or with \<open>row\<close> appended;
  or, where there was no file, a new table with the fields \<open>flds\<close>; or it refuses a torn log as corrupt, and the
  database file is the one that recovery would make of the old one.
\<close>

definition kept :: "files \<Rightarrow> path \<Rightarrow> string list \<Rightarrow> string list \<Rightarrow> files \<Rightarrow> bool" where
  "kept fs p flds row fs' \<longleftrightarrow> others_same p fs fs' \<and> log_of_commit fs' p \<and>
     (case snd (open_table fs p) of
        Inr t \<Rightarrow>
          (case snd (open_table fs' p) of
             Inr u \<Rightarrow> u = t \<or> lt_fields u = lt_fields t \<and> lt_rows u = lt_rows t @ [row]
           | Inl e \<Rightarrow> is_corruption e \<and> fs' p = run (fst (recover fs p)) fs p)
      | Inl e \<Rightarrow>
          (case snd (open_table fs' p) of
             Inr u \<Rightarrow> fs p = None \<and> lt_fields u = flds \<and> lt_rows u = []
           | Inl e' \<Rightarrow> (e' = e \<or> is_corruption e') \<and> fs' p = fs p))"

lemma kept_refl: "log_of_commit fs p \<Longrightarrow> kept fs p flds row fs"
  by (simp add: kept_def others_same_def split: sum.split)

lemma crash_recover_kept:
  assumes "log_of_commit fs p" and "crash (fst (recover fs p)) fs fs'"
  shows "kept fs p flds row fs'"
  using crash_recover_same [OF assms] crash_recover_log [OF assms] kept_refl [of fs p flds row]
  by (auto simp: kept_def same_table_def)

text \<open>An insertion on settled files.\<close>

lemma atomic_kept:
  assumes "atomic_outcome fs p new fs'" and o: "others_same p fs fs'"
    and new: "parse_image new False = Inr (t', pages)" and logs: "log_of_commit fs' p"
    and q: "\<not> wal_pending fs p" and t: "load_table fs p = Inr t"
    and t': "lt_fields t' = lt_fields t" "lt_rows t' = lt_rows t @ [row]"
  shows "kept fs p flds row fs'"
proof -
  have old: "snd (open_table fs p) = Inr t" "run (fst (recover fs p)) fs p = fs p"
    using t by (simp_all add: open_table_quiet [OF q] recover_quiet [OF q] calls_def)
  obtain img ps where img: "fs p = Some img" "parse_image img False = Inr (t, ps)"
    using t q by (auto simp: load_table_Inr)
  show ?thesis
  proof (cases "snd (open_table fs' p)")
    case (Inr u)
    have "u = t' \<or> u = t" using atomic_open [OF assms(1) new Inr] img by auto
    then show ?thesis using o old Inr t' logs by (auto simp: kept_def)
  next
    case (Inl e)
    have "snd (recover fs' p) \<noteq> Inr ()"
    proof
      assume r: "snd (recover fs' p) = Inr ()"
      let ?final = "run (fst (recover fs' p)) fs'"
      have "\<not> wal_pending ?final p" "?final p = fs p \<or> ?final p = Some new"
        using assms(1) r by (auto simp: atomic_outcome_def Let_def split: prod.splits sum.splits)
      then have "\<exists>u. load_table ?final p = Inr u" using img new by (auto simp: load_table_Inr)
      then show False using r Inl open_table_result [of fs' p] by auto
    qed
    then obtain e' where e': "snd (recover fs' p) = Inl e'" by (cases "snd (recover fs' p)") auto
    then have "e = e'" using Inl by (auto simp: open_table_def after_def pure_op_def split: prod.splits)
    then show ?thesis using o old Inl logs atomic_error [OF assms(1) e'] by (simp add: kept_def)
  qed
qed

lemma settled_others: "settled fs p new g fs' \<Longrightarrow> others_same p fs fs'"
  by (auto simp: settled_def untouched_def torn_log_def logged_def committed_def)

lemma crash_insert_kept:
  assumes q: "\<not> wal_pending fs p" and t: "load_table fs p = Inr t"
    and ins: "insert_row fs p row = Some (cs, r)" and c: "crash cs fs fs'"
  shows "kept fs p flds row fs'"
  using q t ins
proof (cases rule: insert_row_done)
  case (failed e)
  have "log_of_commit fs p" using q by (simp add: log_of_commit_def)
  then show ?thesis using failed c kept_refl by simp
next
  case (committed ii b t' pages')
  have set: "settled fs p (ii_image ii) (ii_generation ii) fs'"
    by (rule crash_commit_settled [OF committed(4,5) q committed(6,7)]) (use c committed(2) in simp)
  from atomic_kept [OF settled_outcome [OF committed(4) set] settled_others [OF set] committed(8)
      log_of_settled [OF committed(4) set] q t]
  show ?thesis using committed(9,10) by blast
qed

text \<open>The insertion of a command, behind the recovery of its opening.\<close>

lemma kept_behind_recovery:
  assumes s: "log_of_commit fs p" and t: "snd (open_table fs p) = Inr t"
    and k: "kept (run (fst (recover fs p)) fs) p flds row fs'"
  shows "kept fs p flds row fs'"
proof -
  let ?fs = "run (fst (recover fs p)) fs"
  have same: "same_table fs p ?fs" using crash_recover_same [OF s crash_run] by blast
  have rec: "snd (recover fs p) = Inr ()" using t by (auto simp: open_table_result)
  have "run (fst (recover ?fs p)) ?fs p = ?fs p"
    using recover_ok_quiet [OF rec] by (simp add: recover_quiet calls_def)
  then show ?thesis
    using k same t by (auto simp: kept_def same_table_def others_same_def split: sum.splits)
qed

text \<open>The creation of a table.\<close>

lemma crash_create_kept:
  assumes c: "create_table fs p flds = (cs, r)" and ok: "fields_ok flds" and cr: "crash cs fs fs'"
    and logs: "log_of_commit fs p"
  shows "kept fs p flds row fs'"
proof (cases "cs = []")
  case True
  then show ?thesis using cr kept_refl logs by simp
next
  case False
  have new: "\<not> file_exists fs p" "\<not> wal_pending fs p"
    using c False by (auto simp: create_table_def create_from_rows_def raise_def split: if_splits)
  have "table_ok flds []" "image_fits flds []"
    using ok by (simp_all add: table_ok_def image_fits_def MAX_PAGES_def)
  from create_commits [OF new this] obtain img b where b: "build_image flds [] 1 = Inr img" "installs img 1"
    "replaces fs p 1" "create_from_rows fs p flds [] = commit_image fs p img 1 {}" "PageBuffer img {} = Inr b"
    "clean_pages_agree img (old_bytes fs p) (pb_dirty b)" by blast
  have set: "settled fs p img 1 fs'"
    by (rule crash_commit_settled [OF b(2,3) new(2) b(5,6)]) (use c cr b(4) in \<open>simp add: create_table_def\<close>)
  have none: "fs p = None" using new(1) by (simp add: file_exists_def)
  have old: "snd (open_table fs p) = Inl (Runtime_Error (''Table does not exist: '' @ p))"
    by (simp add: open_table_quiet [OF new(2)] load_table_def read_file_def none)
  obtain t pages where t: "parse_image img False = Inr (t, pages)" "lt_fields t = flds" "lt_rows t = []"
    using build_image_installs(2) [OF \<open>table_ok flds []\<close> \<open>image_fits flds []\<close> b(1), of False] by blast
  have o: "others_same p fs fs'" and l: "log_of_commit fs' p"
    using settled_others [OF set] log_of_settled [OF b(2) set] by blast+
  from set consider (untouched) "untouched fs p fs'" | (torn_log) "torn_log fs p img 1 fs'"
    | (logged) "logged fs p img 1 fs'" | (committed) "committed fs p img fs'"
    by (auto simp: settled_def)
  then show ?thesis
  proof cases
    case untouched
    then have "snd (open_table fs' p) = Inl (Runtime_Error (''Table does not exist: '' @ p))" "fs' p = None"
      using none by (simp_all add: untouched_def open_table_quiet load_table_def read_file_def)
    then show ?thesis using o l old none by (simp add: kept_def)
  next
    case torn_log
    then obtain e where e: "recover fs' p = raise e" "is_corruption e"
      using recover_torn_log [OF _ installs_facts(5) [OF b(2)]] by blast
    then have "snd (open_table fs' p) = Inl e" by (simp add: open_table_def after_def raise_def)
    then show ?thesis using o l old e(2) torn_log by (simp add: kept_def torn_log_def)
  next
    case logged
    from open_logged [OF b(2) this t(1)] show ?thesis using o l old t none by (simp add: kept_def)
  next
    case committed
    from committed_open [OF this t(1)] show ?thesis using o l old t none by (simp add: kept_def)
  qed
qed

text \<open>An insertion with the opening before it.\<close>

lemma crash_execute_insert:
  assumes logs: "log_of_commit fs (database_path name)"
    and e: "execute_insert fs name tree = Some (cs, Inr tb')" and c: "crash cs fs fs'"
  shows "kept fs (database_path name) flds (texts_at ''values'' tree) fs'"
proof -
  let ?p = "database_path name" and ?vals = "texts_at ''values'' tree"
  obtain os tb ds where o: "Table_open fs name = (os, Inr tb)" "cs = os @ ds"
    "insert_into (run os fs) tb ?vals = Some (ds, Inr tb')"
    using e by (auto simp: execute_insert_def split: prod.splits sum.splits)
  have v2: "tb_usesV2Storage tb" using o(3) by (auto simp: insert_into_def pure_op_def split: if_splits)
  obtain t where t: "open_table fs ?p = (os, Inr t)" "stands_for (run os fs) tb t" "tb_tableName tb = name"
    using Table_open_stands_for [OF v2 o(1)] by blast
  have os: "os = fst (recover fs ?p)" using t(1) open_table_calls [of fs ?p] by simp
  have rec: "snd (recover fs ?p) = Inr ()" using t(1) open_table_result [of fs ?p t] by simp
  have quiet: "\<not> wal_pending (run os fs) ?p" using recover_ok_quiet [OF rec] os by simp
  obtain es r where es: "insert_row (run os fs) ?p ?vals = Some (es, r)"
    using o(3) t(3) by (auto simp: insert_into_def pure_op_def split: if_splits)
  have "ds = es"
    using o(3) t(3) v2 es by (cases r) (auto simp: insert_into_def pure_op_def after_def split: if_splits)
  with es have ins: "insert_row (run os fs) ?p ?vals = Some (ds, r)" by simp
  from c consider "crash os fs fs'" | "crash ds (run os fs) fs'" by (auto simp: o(2) crash_append)
  then show ?thesis
  proof cases
    case 1
    then show ?thesis using crash_recover_kept logs os by blast
  next
    case 2
    have "load_table (run os fs) ?p = Inr t" using stands_for_loaded(1) [OF t(2)] t(3) by simp
    from crash_insert_kept [OF quiet this ins 2] show ?thesis
      using kept_behind_recovery logs t(1) os by (metis snd_conv)
  qed
qed

section \<open>Stopped commands\<close>

lemma execute_kept:
  assumes logs: "\<forall>n. log_of_commit fs (database_path n)" and e: "execute fs tree = Some (cs, r)"
    and c: "crash cs fs fs'"
  shows "\<exists>n. kept fs (database_path n) (texts_at ''fields'' tree) (texts_at ''values'' tree) fs' \<and>
    (isl r \<longrightarrow> recovery_calls fs (database_path n) cs \<and> same_table fs (database_path n) fs')"
proof -
  let ?k = "\<lambda>p. kept fs p (texts_at ''fields'' tree) (texts_at ''values'' tree) fs'"
  have recovered: "?k (database_path n) \<and> same_table fs (database_path n) fs'"
    if "recovery_calls fs (database_path n) cs" for n
    using that c crash_recover_kept crash_recover_same logs kept_refl same_table_refl
    by (auto simp: recovery_calls_def)
  from e consider "cs = []" | (create) name where "Table_create fs name (texts_at ''fields'' tree) = (cs, r)"
    | (insert) name where "execute_insert fs name tree = Some (cs, r)"
    | (select) name where "execute_select fs name tree = Some (cs, r)"
    by (auto simp: execute_def execute_create_def pure_op_def split: if_splits bind_splits sum.splits)
  then show ?thesis
  proof cases
    case 1
    then show ?thesis using recovered by (auto simp: recovery_calls_def)
  next
    case create
    show ?thesis
    proof (cases "cs = []")
      case True
      then show ?thesis using recovered by (auto simp: recovery_calls_def)
    next
      case False
      let ?p = "database_path name"
      obtain r' where "fields_ok (texts_at ''fields'' tree)" "create_table fs ?p (texts_at ''fields'' tree) = (cs, r')"
        using create False create_checks
        by (auto simp: Table_create_def Let_def pure_op_def after_def split: if_splits sum.splits prod.splits)
      from crash_create_kept [OF this(2,1) c] logs have "?k ?p" by blast
      moreover have "\<not> isl r" using create_error_calls create False by (cases r) auto
      ultimately show ?thesis by blast
    qed
  next
    case select
    then show ?thesis using recovered execute_select_calls [OF select] by blast
  next
    case insert
    show ?thesis
    proof (cases r)
      case (Inl err)
      then show ?thesis using recovered execute_insert_error insert by blast
    next
      case (Inr tb)
      then show ?thesis using crash_execute_insert [of fs name tree cs tb fs'] logs insert c by auto
    qed
  qed
qed

lemma database_paths_apart:
  "database_path n \<noteq> wal_path (database_path m)"
  "wal_path (database_path n) = wal_path (database_path m) \<longleftrightarrow> n = m"
  "database_path n = database_path m \<longleftrightarrow> n = m"
proof -
  have "List.last (database_path n) \<noteq> List.last (wal_path (database_path m))"
    by (simp add: database_path_def wal_path_def)
  then show "database_path n \<noteq> wal_path (database_path m)" by metis
qed (simp_all add: database_path_def wal_path_def)

text \<open>The logs of the other tables stay as they are.\<close>

lemma log_elsewhere:
  assumes o: "others_same (database_path n) fs fs'" and logs: "log_of_commit fs (database_path m)" and "m \<noteq> n"
  shows "log_of_commit fs' (database_path m)"
  unfolding log_of_commit_def
proof
  let ?q = "database_path m"
  have same: "fs' ?q = fs ?q" "fs' (wal_path ?q) = fs (wal_path ?q)"
    using o \<open>m \<noteq> n\<close> database_paths_apart unfolding others_same_def by metis+
  assume "wal_pending fs' ?q"
  then have "wal_pending fs ?q" by (simp add: wal_pending_def same)
  then obtain fs0 new g where s: "installs new g" "settled fs0 ?q new g fs"
    using logs by (auto simp: log_of_commit_def)
  have "settled (fs'(?q := fs0 ?q)) ?q new g fs'"
    using s(2) by (auto simp: settled_def untouched_def torn_log_def logged_def committed_def others_same_def
        wal_pending_def same)
  then show "\<exists>fs0 new g. installs new g \<and> settled fs0 ?q new g fs'" using s(1) by blast
qed

lemma stopped_command:
  assumes logs: "\<forall>n. log_of_commit fs (database_path n)"
    and c: "command_answered answers fs s cmd = Some (fs', Some s')" and "sq_error s'"
  shows "sq_table s' = empty_table \<and> (\<forall>n. log_of_commit fs' (database_path n)) \<and>
    (\<exists>n. kept fs (database_path n) (texts_at ''fields'' (sq_ptree s')) (texts_at ''values'' (sq_ptree s')) fs' \<and>
      (\<forall>cs s1. command fs s cmd = Some (cs, s1) \<and> sq_error s1 \<longrightarrow>
         recovery_calls fs (database_path n) cs \<and> same_table fs (database_path n) fs'))"
proof -
  obtain cs s1 where s1: "command fs s cmd = Some (cs, s1)" "crash cs fs fs'" "sq_ptree s' = sq_ptree s1"
    "sq_table s' = empty_table"
    using command_answered_crash [OF c] assms(3) by metis
  then obtain r where r: "execute fs (sq_ptree s') = Some (cs, r)" "sq_error s1 = isl r"
    by (auto simp: command_def finish_def split: bind_splits sum.splits)
  from execute_kept [OF logs r(1) s1(2)] obtain n where
    k: "kept fs (database_path n) (texts_at ''fields'' (sq_ptree s')) (texts_at ''values'' (sq_ptree s')) fs'"
      "isl r \<longrightarrow> recovery_calls fs (database_path n) cs \<and> same_table fs (database_path n) fs'" by blast
  have "log_of_commit fs' (database_path m)" for m
    using k(1) logs log_elsewhere [of n fs fs' m] by (cases "m = n") (auto simp: kept_def)
  then show ?thesis using s1(1,4) r(2) k by auto
qed

section \<open>The first calls of a creation\<close>

lemma create_calls:
  assumes fresh: "\<not> file_exists fs (table_file name)" "\<not> file_exists fs (field_file name)"
      "\<not> file_exists fs (database_path name)" "\<not> wal_pending fs (database_path name)" and ok: "fields_ok flds"
  obtains tb rec rest where "Table_create fs name flds =
      (Open_Truncate (wal_path (database_path name)) # Write (wal_path (database_path name)) 0 rec #
        Crash_Point ''wal-write'' # Fsync (wal_path (database_path name)) # rest, Inr tb)"
    "0 < length rec" "length rec \<le> SSIZE_MAX"
proof -
  let ?p = "database_path name"
  have "table_ok flds []" "image_fits flds []"
    using ok by (simp_all add: table_ok_def image_fits_def MAX_PAGES_def)
  from create_commits [OF fresh(3,4) this] obtain img b where b: "installs img 1"
    "create_from_rows fs ?p flds [] = commit_image fs ?p img 1 {}" "PageBuffer img {} = Inr b" by blast
  let ?rec = "wal_record img 1"
  obtain rest where rest: "commit_image fs ?p img 1 {} = calls (Open_Truncate (wal_path ?p) #
      Write (wal_path ?p) 0 ?rec # Crash_Point ''wal-write'' # Fsync (wal_path ?p) # rest)"
    by (simp add: commit_image_calls [OF b(3)] write_wal_def calls_def)
  obtain cs tb where c: "Table_create fs name flds = (cs, Inr tb)"
    using Table_create_stands_for [OF fresh ok] by blast
  then have cs: "cs = fst (commit_image fs ?p img 1 {})"
    using b(2) by (auto simp: Table_create_def Let_def create_table_def after_def pure_op_def split: if_splits sum.splits prod.splits)
  obtain n where "length img = n * PAGE_SIZE" "n \<le> 2 ^ 32 - 1" using installs_facts(1) [OF b(1)] by blast
  then have len: "0 < length ?rec" "length ?rec \<le> SSIZE_MAX" by (simp_all add: SSIZE_MAX_def PAGE_SIZE_def)
  show ?thesis by (rule that [OF _ len, of rest tb]) (use c cs rest in \<open>simp add: calls_def\<close>)
qed

lemma write_all_once: "0 < length data \<Longrightarrow> length data \<le> SSIZE_MAX \<Longrightarrow>
  write_all [Written SSIZE_MAX] data = (data, Some (Inr ()))"
  by (cases data) (simp_all add: Let_def)

end
