(* ===== verification/Spec2Isabelle.thy ===== *)
theory Spec2Isabelle
  imports Sql_Session Container_Iterators Map_Output Bplus_Built Migration File_Tokenizer Helpers Class_Members Command_Faults
begin

text \<open>
  This library models and verifies the SQL engine of this repository: the storage engine of format v2 (a
  paged file with a persistent B+ tree per field, a redo log and recovery), the record files of format
  v1, the SQL front end (tokenizer, parser, shunting yard), the table class on top of both, the SQL
  command object, batches and the interactive program.

  \<^bold>\<open>How the parts interact.\<close> \<open>run_sql.cpp\<close> reads lines and gives each to \<open>SQL::command\<close>
  (\<open>sql.cpp\<close>). That splits the line into tokens (\<open>stokenize.cpp\<close>), classifies them and runs them through a
  state table (\<open>parser.cpp\<close>), which yields a tree of string lists. The command is dispatched to
  \<open>Table\<close> (\<open>table.cpp\<close>), which creates, opens, extends or selects from a table; conditions go
  through the shunting yard (\<open>shunting_yard.cpp\<close>) into a postfix queue, and each comparison is a query
  on a persistent index. All persistent state is in the files of \<open>storage_v2.cpp\<close>: the database
  \<open><name>.sql2\<close> and its log.

  \<^bold>\<open>Theories, from the bottom up.\<close>
  \<^item> \<open>Prelude\<close>: errors as values (\<open>'a res = error + 'a\<close>, \<open>bindE\<close>, \<open>throw_if\<close>, the loop
    \<open>foldE\<close>), bytes and characters, the collections of facts the other theories use.
  \<^item> \<open>Codec\<close>: \<open>append_u16/u32/u64/string\<close> and the class \<open>Reader\<close>. The locales \<open>stream_codec\<close> and
    \<open>codec_pair\<close> state what a reader and a writer promise each other; each pair of the code is an
    interpretation. \<open>Crc32\<close>: \<open>crc32\<close>, which detects every change of one byte.
  \<^item> \<open>Page\<close>: \<open>encode_page\<close>, \<open>decode_page\<close>. \<open>Page_Chain\<close>: \<open>add_chain\<close>, \<open>read_chain\<close>.
    \<open>Index_Node\<close>: the payloads of leaves and internal nodes. \<open>Index_Validate\<close>: the recursive check
    \<open>validate_index_node\<close> against the predicate \<open>index_tree\<close>. \<open>Index_Build\<close>: bulk loading.
  \<^item> \<open>Image_Build\<close>, \<open>Image_Parse\<close>, \<open>Image_Roundtrip\<close>: \<open>build_image\<close>, \<open>parse_image\<close>, that they are
    inverse to each other, and how parsing fails, for want of memory too (\<open>parse_image_alloc\<close>). \<open>Wal\<close>, \<open>Torn_Page\<close>: log records, whole, torn and changed.
  \<^item> \<open>Files\<close>: files as a map from paths to bytes, operations as sequences of system calls, and the
    relation \<open>crash\<close>: the effect of some prefix of the calls, the last write cut short anywhere.
    \<open>Page_Buffer\<close>, \<open>Commit\<close>: \<open>page_buffer.cpp\<close>, \<open>apply_image\<close>, \<open>commit_image\<close>, \<open>recover\<close>.
    \<open>Crash_Safety\<close>, \<open>Recovery\<close>: the invariant \<open>settled\<close> of a crashed commit, kept by every further crash
    of a recovery, and what recovery makes of it.
  \<^item> \<open>Page_Growth\<close>, \<open>Index_Insert\<close>, \<open>Row_Insert\<close>, \<open>Insert_Frame\<close>, \<open>Insert_Correct\<close>:
    \<open>build_incremental_insert\<close> with node splitting, and that its image parses to the table with the new
    row and differs from the old one only in pages marked dirty. \<open>Insert_Split\<close>, \<open>Insert_Tree\<close>,
    \<open>Insert_Pages\<close>, \<open>Insert_Total\<close>: that it always succeeds. The halves of a split page fit and keep the
    leaf links and the least keys, the descent ends with a valid tree, the row chain and the indexes of all
    fields together spell the new table, so the final \<open>parse_image\<close> accepts it; and the files stay of the form
    that insertion relies on (\<open>compact_pages\<close>), so runs of insertions succeed as well.
  \<^item> \<open>Storage\<close>: the public operations (create, open, insert, query, inspect); \<open>Storage_Correct\<close>: what
    they promise.
  \<^item> \<open>Tokenizer\<close>: the transition table and its driver, equal to a direct longest-match definition.
    \<open>Parser\<close>: classification, quotes, the state table, the tree. \<open>Parser_Grammar\<close>: a grammar of
    statements, independent of the table, and the trees of its statements. \<open>Parser_Language\<close>: the parser accepts
    every statement with its tree, and of the texts without a \<open>create\<close> token behind the first no others; a
    later \<open>create\<close> never blocks the state table, and it is shown which texts outside the grammar pass for it.
    \<open>Shunting_Yard\<close>: the algorithm and the infix grammar it implements.
  \<^item> \<open>File_Record\<close>: the 100-byte slots of format v1. \<open>Table\<close>: the class. \<open>Table_Select\<close>: selection
    computes the rows that satisfy the condition (\<open>matching\<close>), the object and the file stay in step
    (\<open>stands_for\<close>). \<open>Sql\<close>: commands, batches, the interactive loop. \<open>Sql_Session\<close>: runs of statements
    given as texts. \<open>Command_Faults\<close>: commands with an answer of the system for every call they issue; an
    exception of a failing call ends in the error state of \<open>SQL::command\<close>, and the lemmas say what the next
    opening of the table finds.

  \<^item> \<open>Linked_List\<close>: the pointer lists (\<open>linked_list_functions.h\<close>) on a store of nodes, each function
    with what it does to a list and that it leaves all other nodes alone. \<open>Containers\<close>: \<open>Queue\<close> and
    \<open>Stack\<close> on them; the locale \<open>container\<close> states the contract both offer and is interpreted on both.
    The shunting yard and the table use queues and stacks as the lists they hold.
  \<^item> \<open>Migration\<close>: \<open>sql_migrate_v1.cpp\<close>: the strict reader of format v1, which accepts exactly the files of
    well-formed tables (\<open>read_legacy_iff\<close>), and the tool as a sequence of system calls with a step for
    what other processes do in between.
  \<^item> \<open>Array_Functions\<close>: the loops of \<open>btree_array_functions.h\<close> and the list functions they compute.
    \<open>Bplus_Tree\<close>: the in-memory B+ tree of \<open>bplustree.h\<close>: a datatype for the nodes and their children,
    with a heap for the links from leaf to leaf. \<open>Bplus_Invariant\<close>: the invariant \<open>tree_ok\<close> over the
    leaves from left to right and the separators between them; \<open>Bplus_Lookup\<close>, \<open>Bplus_Insert\<close>,
    \<open>Bplus_Erase\<close>: the operations keep it and change the items as intended; \<open>Bplus_Iterate\<close>:
    iterators; \<open>Bplus_Whole\<close>: the validity check, bounds, copies, writes through references;
    \<open>Bplus_Built\<close>: several trees in one heap, and the trees that can be built. \<open>Maps\<close>: \<open>Map\<close> and
    \<open>MMap\<close> on the tree; the locales \<open>ordered_store\<close> and \<open>multi_store\<close> state what a store of items
    promises and are interpreted on the tree. \<open>Map_Output\<close>: what trees and maps print, and the members
    that hand their call to the tree.
  \<^item> \<open>File_Tokenizer\<close>: the block-reading \<open>FTokenizer\<close>, which cuts a lexeme at the border of two blocks.
    \<open>Container_Iterators\<close>: sizes, destructors and iterators of \<open>Queue\<close> and \<open>Stack\<close>. \<open>Helpers\<close>: the
    \<open>ShuntingYard\<close> object, stream and printing helpers. \<open>Class_Members\<close>: virtual functions of the tokens,
    comparisons of pairs, accessors, and that they agree with what the other theories use.

  \<^bold>\<open>How state and effects are modelled.\<close> A class is a record of its members (\<open>table\<close>, \<open>parser\<close>, \<open>sql\<close>,
  \<open>tokenizer\<close>). An operation on files is a value \<open>'a operation\<close>: the list of system calls it issues and
  its outcome, computed from the files it finds; \<open>after\<close> runs a second operation on the files the first
  one leaves. A C++ exception is the left side of a sum, with its class and text. \<open>None\<close> is an operation
  that does not return (a cyclic or overlong index descent, the interactive loop), fails an assertion, or
  reads outside a vector. Integers have their width (\<open>u16\<close>, \<open>u32\<close>, \<open>u64\<close>) wherever the code stores or
  compares them at that width; \<open>size_t\<close> values that are lengths of vectors in memory are \<open>nat\<close>, \<open>long\<close>
  is \<open>int\<close> with the range check of the code.

  \<^bold>\<open>Bounds.\<close> \<open>image_fits\<close> asks for \<open>3 * rows * fields + 6 \<le> MAX_PAGES\<close> (2\<open>^\<close>32 - 1 pages): the
  chains fill their pages and an index of \<open>n\<close> entries takes less than \<open>2 n\<close> pages, so the builder cannot
  run out of page identifiers. \<open>run_room\<close> adds \<open>2 + 34 * fields\<close> pages for each insertion: a row is at most
  6532 bytes, so it opens at most two pages, and a tree with fewer than 2\<open>^\<close>32 pages has fewer than 32 levels
  above its leaves, so an insertion into it splits at most 32 pages and adds one root. Recursions over page identifiers terminate because every visited page is
  recorded: \<open>validate_index_node\<close> and \<open>read_chain\<close> decrease the number of pages not yet seen. The
  tokenizer's loops decrease the rest of the buffer. No fuel is used: the loops that the code does not
  bound (the descent of \<open>insert_index_entry\<close>, the walk along the row chain, the interactive loop) are
  partial functions whose value is \<open>None\<close> when they do not return.

  \<^bold>\<open>What the environment is assumed to do.\<close> Nothing is assumed as an axiom. A crash leaves the effect of a
  prefix of the system calls; a system call that fails throws and leaves the calls before it
  (\<open>issue\<close> in \<open>Command_Faults\<close>), and the files are again some that a crash could leave. Outside \<open>Command_Faults\<close> an
  operation has the outcome it has when all its calls succeed. Memory suffices, but for \<open>rows.reserve\<close> in
  \<open>parse_image_alloc\<close> and for the exceptions \<open>Throws\<close> of \<open>Command_Faults\<close>. Writes are not reordered, so the loss of unsynchronised data at a power failure
  is not modelled, and \<open>fsync\<close> has no effect on the model. Every path is absent or a regular file, and
  one process uses the files at a time. \<open>std::map\<close>, \<open>std::set\<close>, \<open>std::sort\<close> and streams behave as the
  standard says; \<open>Map\<close> and \<open>MMap\<close> of the repository are finite maps, traversed in key order, in the
  parser and the table; \<open>Maps\<close> proves that the B+ tree implements them so.

  \<^bold>\<open>Not modelled.\<close> The trace file of the crash-point test hook; the texts of failing system calls, which the answer carries;
  the usage text of the migration tool; tests and build files.
\<close>

section \<open>The table of the examples\<close>

lemma example_table:
  "table_ok [''a'', ''b''] [[''x'', ''1''], [''y'', ''2'']]"
  "image_fits [''a'', ''b''] [[''x'', ''1''], [''y'', ''2'']]"
  by (simp_all add: table_ok_def fields_ok_def row_fits_def image_fits_def MAX_FIELDS_def
      MAX_VALUE_LENGTH_def MAX_PAGES_def)

lemma wal_record_nonempty [simp]: "wal_record img g \<noteq> []"
proof -
  have "length (wal_record img g) \<noteq> 0" by simp
  then show ?thesis by (metis list.size(3))
qed

lemma parse_wal_nonempty: "parse_wal wal = Inr r \<Longrightarrow> wal \<noteq> []"
  by (cases r) (auto simp: parse_wal_iff)

section \<open>The storage engine as a whole\<close>

text \<open>
  C2. Creating a table is atomic. However a creation is interrupted (\<open>crash\<close>: after
  any system call, or inside a write) and however often the recovery of later starts is interrupted in
  turn (\<open>restarts\<close>), the next \<open>open_table\<close> yields the new table with all its rows, or there
  is no database file and \<open>open_table\<close> says so (no such table, or a damaged log). Files other than the
  database and its log are untouched.
\<close>

theorem create_crash_atomic:
  assumes "\<not> file_exists fs p" "\<not> wal_pending fs p" "table_ok flds rows" "image_fits flds rows"
    and crashed: "crash (fst (create_from_rows fs p flds rows)) fs fs1" and "restarts p fs1 fs2"
    and opened: "open_table fs2 p = (cs, r)"
  shows "others_same p fs (run cs fs2) \<and>
    ((\<exists>t. r = Inr t \<and> lt_fields t = flds \<and> lt_rows t = rows) \<or>
     (\<exists>e. r = Inl e \<and> run cs fs2 p = None \<and>
        (is_corruption e \<or> e = Runtime_Error (''Table does not exist: '' @ p))))"
proof -
  obtain img b where c: "build_image flds rows 1 = Inr img" "installs img 1" "replaces fs p 1"
    "create_from_rows fs p flds rows = commit_image fs p img 1 {}" "PageBuffer img {} = Inr b"
    "clean_pages_agree img (old_bytes fs p) (pb_dirty b)"
    by (rule create_commits [OF assms(1-4)])
  have "settled fs p img 1 fs1"
    using crash_commit_settled [OF c(2,3) assms(2) c(5,6)] crashed c(4) by simp
  from settled_outcome [OF c(2) restarts_settled [OF assms(6) c(2) this]]
  have out: "atomic_outcome fs p img fs2" .
  have none: "fs p = None" using assms(1) by (simp add: file_exists_def)
  have cs: "cs = fst (recover fs2 p)" using open_table_calls [of fs2 p] opened by simp
  show ?thesis
  proof (cases "snd (recover fs2 p)")
    case (Inl e)
    then have "r = Inl e" using opened by (auto simp: open_table_def after_def split: prod.splits)
    then show ?thesis using out Inl cs none
      by (auto simp: atomic_outcome_def Let_def split: prod.splits)
  next
    case (Inr u)
    define final where "final = run cs fs2"
    have f: "others_same p fs final" "\<not> wal_pending final p" "final p = None \<or> final p = Some img"
      using out Inr cs none by (auto simp: atomic_outcome_def Let_def final_def split: prod.splits)
    have r: "r = load_table final p"
      using opened Inr cs by (auto simp: open_table_def after_def pure_op_def final_def split: prod.splits)
    obtain t pages where t: "parse_image img False = Inr (t, pages)" "lt_fields t = flds" "lt_rows t = rows"
      using build_image_installs(2) [OF assms(3,4) c(1), of False] by blast
    from f(3) show ?thesis
    proof
      assume "final p = None"
      then show ?thesis using f(1) r by (auto simp: load_table_def read_file_def simp flip: final_def)
    next
      assume "final p = Some img"
      then have "r = Inr t" using r t f(2) by (simp add: load_table_Inr)
      then show ?thesis using f(1) t by (simp flip: final_def)
    qed
  qed
qed

theorem create_crash_atomic_witness:
  "let p = ''t.sql2''; flds = [''a'', ''b'']; rows = [[''x'', ''1''], [''y'', ''2'']];
       fs1 = run (fst (create_from_rows Map.empty p flds rows)) Map.empty
   in \<exists>cs r. open_table fs1 p = (cs, r) \<and> others_same p Map.empty (run cs fs1) \<and>
     ((\<exists>t. r = Inr t \<and> lt_fields t = flds \<and> lt_rows t = rows) \<or>
      (\<exists>e. r = Inl e \<and> run cs fs1 p = None \<and>
        (is_corruption e \<or> e = Runtime_Error (''Table does not exist: '' @ p))))"
  unfolding Let_def
  by (rule exI, rule exI, rule conjI [OF surjective_pairing], rule create_crash_atomic
      [OF _ _ _ _ crash_run no_restart surjective_pairing])
    (simp_all add: example_table file_exists_def wal_pending_def)

text \<open>
  C5. Insertion always succeeds while identifiers last. A table created with some rows
  takes any further rows that fit its fields, one \<open>insert_row\<close> after the other: each returns (the descents
  into the indexes, the splits of full pages and the walk along the row chain all end), none fails, and the
  file then opens without a recovery as the table with all rows in order, every index holding the sorted
  values of its field, and one generation for each insertion. The bound of \<open>run_room\<close> is on page numbers: an
  insertion takes at most two pages for the row and 34 for the index of each field.
\<close>

theorem insertions_complete:
  assumes "\<not> file_exists fs p" "\<not> wal_pending fs p" "table_ok flds rows" "\<forall>row \<in> set new. row_fits flds row"
    and "run_room flds rows (length new)"
  shows "\<exists>cs fs' t. create_from_rows fs p flds rows = (cs, Inr ()) \<and>
    insert_rows (run cs fs) p new = Some fs' \<and> open_table fs' p = ([], Inr t) \<and>
    lt_fields t = flds \<and> lt_rows t = rows @ new \<and>
    lt_indexes t = map (field_entries (rows @ new)) [0..<length flds] \<and>
    in_generation (lt_inspection t) = 1 + word_of_nat (length new) \<and> others_same p fs fs'"
proof -
  have fits: "image_fits flds rows" "1 + length new < 2 ^ 64" "length rows + length new \<le> ROW_VECTOR_MAX"
    using run_room_bounds [OF assms(5)] assms(3) by (simp_all add: table_ok_def fields_ok_def)
  obtain cs where c: "create_from_rows fs p flds rows = (cs, Inr ())"
    "stored (run cs fs) p flds rows 1 (3 * (length rows * length flds) + 6)" "others_same p fs (run cs fs)"
    using create_stored [OF assms(1-3) fits(1)] by blast
  obtain fs' where i: "insert_rows (run cs fs) p new = Some fs'" "others_same p (run cs fs) fs'"
    "stored fs' p flds (rows @ new) (1 + word_of_nat (length new))
      (3 * (length rows * length flds) + 6 + length new * (2 + 34 * length flds))"
    using insert_rows_ok [OF c(2) assms(4)] fits(2,3) assms(5) by (auto simp: run_room_def)
  show ?thesis using stored_open [OF i(3)] c(1) i(1) others_same_trans [OF c(3) i(2)] by blast
qed

theorem insertions_complete_witness:
  "\<exists>cs fs' t. create_from_rows Map.empty ''t.sql2'' [''a'', ''b''] [[''x'', ''1''], [''y'', ''2'']] = (cs, Inr ()) \<and>
    insert_rows (run cs Map.empty) ''t.sql2'' [[''u'', ''3''], [''x'', ''1'']] = Some fs' \<and>
    open_table fs' ''t.sql2'' = ([], Inr t) \<and> lt_fields t = [''a'', ''b''] \<and>
    lt_rows t = [[''x'', ''1''], [''y'', ''2''], [''u'', ''3''], [''x'', ''1'']]"
proof -
  have "\<not> file_exists Map.empty ''t.sql2''" "\<not> wal_pending Map.empty ''t.sql2''"
    "\<forall>row \<in> set [[''u'', ''3''], [''x'', ''1'']]. row_fits [''a'', ''b''] row"
    "run_room [''a'', ''b''] [[''x'', ''1''], [''y'', ''2'']] (length [[''u'', ''3''], [''x'', ''1'']])"
    by (simp_all add: file_exists_def wal_pending_def row_fits_def MAX_VALUE_LENGTH_def run_room_def MAX_PAGES_def)
  from insertions_complete [OF this(1,2) example_table(1) this(3,4)] show ?thesis by auto
qed

text \<open>
  C3. An insertion is atomic. Into a table that was created and filled by insertions,
  one more \<open>insert_row\<close> may be interrupted anywhere (\<open>crash\<close>) and the recovery of later starts as often as one
  likes (\<open>restarts\<close>): what the next \<open>open_table\<close> reads is the table without the row or the table with it, or it
  reports a damaged log and the database file is the one before the insertion. No other file changes.
\<close>

theorem insertion_crash_atomic:
  assumes "\<not> file_exists fs0 p" "\<not> wal_pending fs0 p" "table_ok flds rows0"
    and "insert_rows (run (fst (create_from_rows fs0 p flds rows0)) fs0) p rows = Some fs"
    and "\<forall>r \<in> set (rows @ [row]). row_fits flds r" "run_room flds rows0 (Suc (length rows))"
    and "insert_row fs p row = Some (cs, r)" and "crash cs fs fs1" "restarts p fs1 fs2"
    and "open_table fs2 p = (ds, u)"
  shows "others_same p fs (run ds fs2) \<and>
    ((\<exists>t. u = Inr t \<and> lt_fields t = flds \<and> (lt_rows t = rows0 @ rows \<or> lt_rows t = rows0 @ rows @ [row])) \<or>
     (\<exists>e. u = Inl e \<and> is_corruption e \<and> run ds fs2 p = fs p))"
proof -
  have fits: "image_fits flds rows0" "1 + Suc (length rows) < 2 ^ 64" "length rows0 + Suc (length rows) \<le> ROW_VECTOR_MAX"
    using run_room_bounds [OF assms(6)] assms(3) by (simp_all add: table_ok_def fields_ok_def)
  have room: "3 * (length rows0 * length flds) + 6 + length rows * (2 + 34 * length flds) + 2 + 34 * length flds \<le> MAX_PAGES"
    using assms(6) by (simp add: run_room_def)
  have s: "stored fs p flds (rows0 @ rows) (1 + word_of_nat (length rows))
      (3 * (length rows0 * length flds) + 6 + length rows * (2 + 34 * length flds))"
    using create_stored [OF assms(1-3) fits(1)] insert_rows_ok [of _ p flds rows0 1 _ rows] assms(4,5) fits(2,3) room
    by fastforce
  have "unat (1 + word_of_nat (length rows) :: u64) + Suc 0 < 2 ^ 64"
    using fits(2) by (simp add: unat_word_ariths unat_of_nat take_bit_nat_eq_self)
  from generation_step(1) [OF this] have g: "1 + word_of_nat (length rows) \<noteq> (- 1 :: u64)" .
  have row: "row_fits flds row" "length (rows0 @ rows) < ROW_VECTOR_MAX" using assms(5) fits(3) by simp_all
  from insert_crash [OF s row(1) g row(2) room assms(7-10)] show ?thesis by simp
qed

lemma example_filled:
  "\<exists>fs cs. insert_rows (run (fst (create_from_rows Map.empty ''t.sql2'' [''a'', ''b''] [[''x'', ''1''], [''y'', ''2'']])) Map.empty)
      ''t.sql2'' [[''u'', ''3'']] = Some fs \<and> insert_row fs ''t.sql2'' [''v'', ''4''] = Some (cs, Inr ())"
proof -
  let ?p = "''t.sql2''" and ?f = "[''a'', ''b'']" and ?rs = "[[''x'', ''1''], [''y'', ''2'']]"
  obtain cs where c: "create_from_rows Map.empty ?p ?f ?rs = (cs, Inr ())"
    "stored (run cs Map.empty) ?p ?f ?rs 1 (3 * (length ?rs * length ?f) + 6)"
    using create_stored [OF _ _ example_table, of Map.empty ?p] by (auto simp: file_exists_def wal_pending_def)
  have r: "row_fits ?f [''u'', ''3'']" "row_fits ?f [''v'', ''4'']" by (simp_all add: row_fits_def MAX_VALUE_LENGTH_def)
  obtain ds where d: "insert_row (run cs Map.empty) ?p [''u'', ''3''] = Some (ds, Inr ())"
    "stored (run ds (run cs Map.empty)) ?p ?f (?rs @ [[''u'', ''3'']]) (1 + 1) (3 * (length ?rs * length ?f) + 6 + 2 + 34 * length ?f)"
    using insert_row_ok [OF c(2) r(1)] by (auto simp: ROW_VECTOR_MAX_def MAX_PAGES_def)
  obtain es where "insert_row (run ds (run cs Map.empty)) ?p [''v'', ''4''] = Some (es, Inr ())"
    using insert_row_ok [OF d(2) r(2)] by (auto simp: ROW_VECTOR_MAX_def MAX_PAGES_def)
  then show ?thesis using c(1) d(1) by auto
qed

theorem insertion_crash_atomic_witness:
  "\<exists>fs cs ds u. insert_rows (run (fst (create_from_rows Map.empty ''t.sql2'' [''a'', ''b''] [[''x'', ''1''], [''y'', ''2'']])) Map.empty)
      ''t.sql2'' [[''u'', ''3'']] = Some fs \<and> insert_row fs ''t.sql2'' [''v'', ''4''] = Some (cs, Inr ()) \<and>
    open_table (run cs fs) ''t.sql2'' = (ds, u) \<and> others_same ''t.sql2'' fs (run ds (run cs fs)) \<and>
    ((\<exists>t. u = Inr t \<and> lt_fields t = [''a'', ''b''] \<and>
        (lt_rows t = [[''x'', ''1''], [''y'', ''2''], [''u'', ''3'']] \<or>
         lt_rows t = [[''x'', ''1''], [''y'', ''2''], [''u'', ''3''], [''v'', ''4'']])) \<or>
     (\<exists>e. u = Inl e \<and> is_corruption e \<and> run ds (run cs fs) ''t.sql2'' = fs ''t.sql2''))"
proof -
  obtain fs cs where f: "insert_rows (run (fst (create_from_rows Map.empty ''t.sql2'' [''a'', ''b''] [[''x'', ''1''], [''y'', ''2'']])) Map.empty)
      ''t.sql2'' [[''u'', ''3'']] = Some fs" "insert_row fs ''t.sql2'' [''v'', ''4''] = Some (cs, Inr ())"
    using example_filled by blast
  have "\<not> file_exists Map.empty ''t.sql2''" "\<not> wal_pending Map.empty ''t.sql2''"
    "\<forall>r \<in> set ([[''u'', ''3'']] @ [[''v'', ''4'']]). row_fits [''a'', ''b''] r"
    "run_room [''a'', ''b''] [[''x'', ''1''], [''y'', ''2'']] (Suc (length [[''u'', ''3'']]))"
    by (simp_all add: file_exists_def wal_pending_def row_fits_def MAX_VALUE_LENGTH_def run_room_def MAX_PAGES_def)
  from insertion_crash_atomic [OF this(1,2) example_table(1) f(1) this(3,4) f(2) crash_run no_restart surjective_pairing]
  show ?thesis using f by (intro exI conjI) (assumption, assumption, rule surjective_pairing, auto)
qed

text \<open>
  C8. Insertion into the persistent index of a field always returns. For a valid tree with
  linked leaves and a new entry it succeeds, and the new root is that of a valid tree with linked leaves that
  holds exactly the old entries and the new one, in order. The tree takes at most 34 new pages, which belong to
  it; every page outside the tree keeps its contents.
\<close>

theorem index_insertion:
  assumes "index_tree P root l es lvs us" "leaves_linked P lvs" "distinct us" "root \<noteq> NO_PAGE"
    and "e \<notin> set es" "entry_ok e" "length P + 34 \<le> MAX_PAGES" "\<forall>q \<in> set P. page_ok q"
  shows "\<exists>P' d' root' l' lvs' us'. insert_root P d root e = Some (Inr (P', d', root')) \<and>
    index_tree P' root' l' (insort e es) lvs' us' \<and> leaves_linked P' lvs' \<and>
    length P \<le> length P' \<and> length P' \<le> length P + 34 \<and>
    mset us' = mset us + mset (map word_of_nat [length P..<length P']) \<and>
    (\<forall>u. unat u < length P \<longrightarrow> u \<notin> set us \<longrightarrow> P' ! unat u = P ! unat u)"
proof -
  obtain P' d' root' us' l' lvs' where r: "insert_root P d root e = Some (Inr (P', d', root'))"
    "root_effect P us P' us'" "index_tree P' root' l' (insort e es) lvs' us'" "leaves_linked P' lvs'"
    using insert_index_ok [OF assms] by blast
  then show ?thesis unfolding root_effect_def
    by (metis le_add_diff_inverse)
qed

theorem index_insertion_witness:
  "\<exists>P' d' root' l' lvs' us'.
    insert_root [Page IndexLeaf 0 NO_PAGE (leaf_payload NO_PAGE [(''x'', 0)])] {} 0 (''u'', 1) = Some (Inr (P', d', root')) \<and>
    index_tree P' root' l' [(''u'', 1), (''x'', 0)] lvs' us' \<and> leaves_linked P' lvs'"
proof -
  let ?P = "[Page IndexLeaf 0 NO_PAGE (leaf_payload NO_PAGE [(''x'', 0)])]"
  have t: "index_tree ?P 0 0 [(''x'', 0)] [0] [0]"
    by (rule single_leaf [where p = NO_PAGE]) (simp_all add: page_consts entry_ok_def MAX_VALUE_LENGTH_def)
  have l: "leaves_linked ?P [0]" by (simp add: leaves_linked_seg) blast
  have "(0 :: u32) \<noteq> NO_PAGE" by (simp add: NO_PAGE_def)
  moreover have "\<forall>q \<in> set ?P. page_ok q" by (simp add: page_ok_def length_leaf_payload page_consts)
  moreover have "entry_ok (''u'', 1)" "(''u'', 1) \<notin> set [(''x'', 0 :: u64)]" "length ?P + 34 \<le> MAX_PAGES"
    by (simp_all add: entry_ok_def MAX_VALUE_LENGTH_def MAX_PAGES_def)
  ultimately obtain P' d' root' l' lvs' us' where
    "insert_root ?P {} 0 (''u'', 1) = Some (Inr (P', d', root'))"
    "index_tree P' root' l' (insort (''u'', 1) [(''x'', 0)]) lvs' us'" "leaves_linked P' lvs'"
    using index_insertion [OF t l, of "(''u'', 1)" "{}"] by auto
  moreover have "insort (''u'', 1 :: u64) [(''x'', 0)] = [(''u'', 1), (''x'', 0)]" by (simp add: insort_key.simps)
  ultimately show ?thesis by metis
qed

text \<open>
  C6. On a table that opens, a query on a known field with one of the six operators
  returns exactly the record numbers of the rows whose value compares that way with the operand, each
  once, in the order of the indexed values (equal values by record number).
\<close>

theorem query_index_exact:
  assumes "snd (open_table fs p) = Inr t" and "field < length (lt_fields t)" and "op \<in> operators"
  shows "\<exists>rs. snd (query_index fs p field op v) = Inr rs \<and>
    set rs = word_of_nat ` {r. r < length (lt_rows t) \<and> compare_with op (lt_rows t ! r ! field) v} \<and>
    distinct rs \<and> sorted (map (\<lambda>r. (lt_rows t ! unat r ! field, r)) rs)"
proof -
  let ?rs = "map snd (filter (\<lambda>e. compare_with op (fst e) v) (field_entries (lt_rows t) field))"
  from assms(1) have "load_table (run (fst (recover fs p)) fs) p = Inr t"
    by (simp add: open_table_result)
  note loaded = load_table_indexes [OF this]
  have "snd (query_index fs p field op v) = Inr ?rs"
    using assms loaded(1)
    by (auto simp: query_index_def after_def pure_op_def select_records_def scan_index_eq split: prod.splits)
  then show ?thesis using field_entries_records [OF loaded(2), where P = "\<lambda>k. compare_with op k v" and field = field] by blast
qed

theorem query_index_exact_witness:
  "\<exists>fs (t :: loaded_table) rs. lt_rows t = [[''x'', ''1''], [''y'', ''2'']] \<and>
    snd (query_index fs ''t.sql2'' 1 ''>='' ''2'') = Inr rs \<and>
    set rs = word_of_nat ` {r. r < length (lt_rows t) \<and> compare_with ''>='' (lt_rows t ! r ! 1) ''2''} \<and>
    distinct rs \<and> sorted (map (\<lambda>r. (lt_rows t ! unat r ! 1, r)) rs)"
proof -
  obtain cs t where "open_table (run cs Map.empty) ''t.sql2'' = ([], Inr t)" "lt_fields t = [''a'', ''b'']"
    "lt_rows t = [[''x'', ''1''], [''y'', ''2'']]"
    using create_open [of Map.empty "''t.sql2''" "[''a'', ''b'']" "[[''x'', ''1''], [''y'', ''2'']]"]
    by (auto simp: example_table file_exists_def wal_pending_def)
  then have "snd (open_table (run cs Map.empty) ''t.sql2'') = Inr t" "1 < length (lt_fields t)"
    "''>='' \<in> operators" and t: "lt_rows t = [[''x'', ''1''], [''y'', ''2'']]"
    by (simp_all add: operators_def)
  from query_index_exact [OF this(1-3), of "''2''"] t show ?thesis by blast
qed

text \<open>
  C23. \<open>inspect\<close>, which writes nothing, reports success exactly when \<open>open_table\<close> would
  succeed, and then the very header \<open>open_table\<close> would load after its recovery; its \<open>wal\<close> entry
  tells whether a log is pending.
\<close>

theorem inspect_agrees:
  "inspect fs p = Inr i \<longleftrightarrow>
   (\<exists>t. snd (open_table fs p) = Inr t \<and> i = (lt_inspection t)\<lparr>in_wal_present := wal_pending fs p\<rparr>)"
  by (rule inspect_open)

section \<open>Recovery\<close>

text \<open>
  C7. When the log holds a whole record that is not older than the database, recovery
  succeeds, whatever is in the database file: it installs the logged image, empties the log, touches no
  other file, and a further recovery issues no system call.
\<close>

theorem recovery_replays_log:
  assumes "fs (wal_path p) = Some wal" and "parse_wal wal = Inr (img, g)" and "check_stale fs p g = Inr ()"
  shows "snd (recover fs p) = Inr () \<and> run (fst (recover fs p)) fs = fs(p \<mapsto> img, wal_path p \<mapsto> []) \<and>
    recover (run (fst (recover fs p)) fs) p = ([], Inr ())"
proof -
  have "wal \<noteq> []" by (rule parse_wal_nonempty [OF assms(2)])
  note r = recover_pending [OF assms(1) this assms(2,3)]
  moreover have "\<not> wal_pending (run (fst (recover fs p)) fs) p" by (rule recover_ok_quiet [OF r(1)])
  ultimately show ?thesis using recover_quiet by (simp add: calls_def)
qed

theorem recovery_replays_log_witness:
  "\<exists>img wal. let fs = [wal_path ''t.sql2'' \<mapsto> wal] in
    build_image [''a'', ''b''] [[''x'', ''1''], [''y'', ''2'']] 1 = Inr img \<and>
    snd (recover fs ''t.sql2'') = Inr () \<and>
    run (fst (recover fs ''t.sql2'')) fs = fs(''t.sql2'' \<mapsto> img, wal_path ''t.sql2'' \<mapsto> []) \<and>
    recover (run (fst (recover fs ''t.sql2'')) fs) ''t.sql2'' = ([], Inr ())"
proof -
  obtain img where img: "build_image [''a'', ''b''] [[''x'', ''1''], [''y'', ''2'']] 1 = Inr img"
    using build_image_ok [OF example_table] by blast
  have "installs img 1" by (rule build_image_installs(1) [OF example_table img])
  then have "parse_wal (wal_record img 1) = Inr (img, 1)" by (rule installs_facts(4))
  from recovery_replays_log [OF _ this, of "[wal_path ''t.sql2'' \<mapsto> wal_record img 1]" "''t.sql2''"]
  show ?thesis using img by (auto simp: check_stale_def Let_def)
qed

text \<open>
  C22. A log that holds a proper, non-empty prefix of the record that was being written is
  refused with a corruption error; recovery issues no system call, so every file stays as it is.
\<close>

theorem torn_log_refused:
  assumes "fs (wal_path p) = Some (take n (wal_record img g))" and "0 < n" "n < length (wal_record img g)"
    and "length img < 2 ^ 64"
  shows "\<exists>e. recover fs p = ([], Inl e) \<and> is_corruption e"
proof -
  obtain e where e: "parse_wal (take n (wal_record img g)) = Inl e" "is_corruption e"
    using torn_record_rejected [OF assms(3,4)] by blast
  have "wal_pending fs p" using assms(1,2) by (simp add: wal_pending_def)
  then show ?thesis using e assms(1) by (simp add: recover_def read_file_def raise_def)
qed

theorem torn_log_refused_witness:
  "\<exists>e. recover [wal_path ''t.sql2'' \<mapsto> take 55 (wal_record [] 1)] ''t.sql2'' = ([], Inl e) \<and> is_corruption e"
  by (rule torn_log_refused [of _ _ 55 "[]" 1]) simp_all

text \<open>
  C11. So is a log in which one byte of the record, header, image, marker or checksum,
  has changed.
\<close>

theorem changed_log_refused:
  assumes "fs (wal_path p) = Some ((wal_record img g)[k := x])" and "k < length (wal_record img g)"
    and "x \<noteq> wal_record img g ! k" and "length img < 2 ^ 64"
  shows "\<exists>e. recover fs p = ([], Inl e) \<and> is_corruption e"
proof -
  obtain e where e: "parse_wal ((wal_record img g)[k := x]) = Inl e" "is_corruption e"
    using changed_record_rejected [OF assms(2-4)] by blast
  have "wal_pending fs p" using assms(1) by (simp add: wal_pending_def)
  then show ?thesis using e assms(1) by (simp add: recover_def read_file_def raise_def)
qed

theorem changed_log_refused_witness:
  "\<exists>e. recover [wal_path ''t.sql2'' \<mapsto> (wal_record [] 1)[0 := 1]] ''t.sql2'' = ([], Inl e) \<and> is_corruption e"
  by (rule changed_log_refused [of _ _ "[]" 1 0 1])
    (simp_all add: wal_record_eq wal_body_def wal_magic_def byte_of_char_def)

text \<open>
  C21. A whole log that is older than a readable database is refused with a corruption
  error and nothing is written, so recovery never rolls a database back.
\<close>

theorem stale_log_refused:
  assumes "fs (wal_path p) = Some wal" and "parse_wal wal = Inr (img, g)"
    and "fs p = Some db" "parse_image db True = Inr (t, pages)" and "g < in_generation (lt_inspection t)"
  shows "recover fs p =
    ([], Inl (corruption ''stale WAL generation would roll back the database''))"
proof -
  have "wal \<noteq> []" by (rule parse_wal_nonempty [OF assms(2)])
  then have "wal_pending fs p" using assms(1) by (simp add: wal_pending_def)
  then show ?thesis using assms by (simp add: recover_def read_file_def check_stale_def raise_def)
qed

theorem stale_log_refused_witness:
  "\<exists>new old. recover [''t.sql2'' \<mapsto> new, wal_path ''t.sql2'' \<mapsto> wal_record old 1] ''t.sql2'' =
    ([], Inl (corruption ''stale WAL generation would roll back the database''))"
proof -
  obtain old where old: "build_image [''a'', ''b''] [[''x'', ''1''], [''y'', ''2'']] 1 = Inr old"
    using build_image_ok [OF example_table] by blast
  obtain new where new: "build_image [''a'', ''b''] [[''x'', ''1''], [''y'', ''2'']] 2 = Inr new"
    using build_image_ok [OF example_table] by blast
  obtain t pages where t: "parse_image new True = Inr (t, pages)" "in_generation (lt_inspection t) = 2"
    using build_image_installs(2) [OF example_table new, of True] by blast
  have "parse_wal (wal_record old 1) = Inr (old, 1)"
    by (rule installs_facts(4) [OF build_image_installs(1) [OF example_table old]])
  from stale_log_refused [OF _ this _ t(1),
      of "[''t.sql2'' \<mapsto> new, wal_path ''t.sql2'' \<mapsto> wal_record old 1]" "''t.sql2''"] t(2)
  show ?thesis by auto
qed

section \<open>Images\<close>

text \<open>
  C16. Parsing the image that \<open>build_image\<close> writes gives back the fields, the rows and
  the generation, and an index of every field, at every size the format can hold.
\<close>

theorem build_parse_image:
  assumes "table_ok flds rows" and "image_fits flds rows"
  shows "\<exists>img t pages. build_image flds rows g = Inr img \<and> parse_image img w = Inr (t, pages) \<and>
    lt_fields t = flds \<and> lt_rows t = rows \<and> in_generation (lt_inspection t) = g \<and>
    lt_indexes t = map (field_entries rows) [0..<length flds]"
proof -
  obtain img pages sb roots where b: "build_image flds rows g = Inr img" "sb_generation sb = g"
    "parse_image img w = Inr (loaded_from sb flds rows roots w, pages)"
    using build_parse [OF assms] by blast
  then show ?thesis by (intro exI) (rule conjI [OF b(1)], rule conjI [OF b(3)], simp)
qed

theorem build_parse_image_witness:
  "\<exists>img t pages. build_image [''a'', ''b''] [[''x'', ''1''], [''y'', ''2'']] 7 = Inr img \<and>
    parse_image img False = Inr (t, pages) \<and>
    lt_fields t = [''a'', ''b''] \<and> lt_rows t = [[''x'', ''1''], [''y'', ''2'']] \<and>
    in_generation (lt_inspection t) = 7 \<and>
    lt_indexes t = map (field_entries [[''x'', ''1''], [''y'', ''2'']]) [0..<length [''a'', ''b'']]"
  by (rule build_parse_image [OF example_table])

text \<open>
  C15. \<open>parse_image\<close> accepts exactly the well-formed images: a non-empty sequence of
  encoded pages numbered from zero, made of a superblock, the three chains and one valid B+ tree for every
  field, without a shared or an unused page (\<open>table_pages\<close>); it returns the table they spell.
\<close>

theorem parse_image_complete:
  "parse_image img w = Inr (t, pages) \<longleftrightarrow>
   pages \<noteq> [] \<and> length pages \<le> MAX_PAGES \<and> pages_from 0 pages \<and> encode_pages pages = Inr img \<and>
   (\<exists>sb flds rows roots. table_pages pages sb flds rows roots \<and> t = loaded_from sb flds rows roots w)"
  by (rule parse_image_iff)

text \<open>
  C24. \<open>parse_image\<close> on any bytes, with an allocator that grants a vector of \<open>n\<close> rows if
  \<open>grants n\<close>. It succeeds on the well-formed images whose rows it has room for, and only on them. Its failures
  are a \<open>CorruptionError\<close>, or come from \<open>rows.reserve\<close>, which takes the row count of the superblock before any row
  is read: \<open>std::length_error\<close> when a vector cannot have so many rows, \<open>std::bad_alloc\<close> when the allocator
  refuses them. A well-formed image whose rows are refused gives \<open>std::bad_alloc\<close>.
\<close>

theorem parse_image_fails:
  "(parse_image_alloc grants img w = Inr (t, pages) \<longleftrightarrow>
      parse_image img w = Inr (t, pages) \<and> grants (length (lt_rows t))) \<and>
   (parse_image_alloc grants img w = Inl e \<longrightarrow>
      is_corruption e \<or>
      (\<exists>ps sb. parse_pages img = Inr ps \<and> parse_superblock ps = Inr sb \<and>
         (e = reserve_error \<and> ROW_VECTOR_MAX < unat (sb_row_count sb) \<or>
          e = Bad_Alloc \<and> unat (sb_row_count sb) \<le> ROW_VECTOR_MAX \<and> \<not> grants (unat (sb_row_count sb))))) \<and>
   (parse_image img w = Inr (t, pages) \<and> \<not> grants (length (lt_rows t)) \<longrightarrow>
      parse_image_alloc grants img w = Inl Bad_Alloc)"
  by (intro conjI impI parse_image_alloc_iff) (erule parse_image_alloc_error, erule conjE, rule parse_image_alloc_refused)

theorem parse_image_fails_witness:
  "\<exists>img t pages e. build_image [''a'', ''b''] [[''x'', ''1''], [''y'', ''2'']] 7 = Inr img \<and>
     parse_image_alloc (\<lambda>n. n < 3) img False = Inr (t, pages) \<and>
     parse_image_alloc (\<lambda>n. n < 2) img False = Inl Bad_Alloc \<and>
     parse_image_alloc (\<lambda>n. n < 2) [] False = Inl e \<and> is_corruption e"
proof -
  obtain img pages sb roots where b: "build_image [''a'', ''b''] [[''x'', ''1''], [''y'', ''2'']] 7 = Inr img"
    "parse_image img False = Inr (loaded_from sb [''a'', ''b''] [[''x'', ''1''], [''y'', ''2'']] roots False, pages)"
    using build_parse [OF example_table] by blast
  let ?t = "loaded_from sb [''a'', ''b''] [[''x'', ''1''], [''y'', ''2'']] roots False"
  let ?e = "corruption ''database file is not a complete page image''"
  have none: "parse_pages [] = Inl ?e" by (simp add: parse_pages_def)
  then have e: "parse_image_alloc (\<lambda>n. n < 2) [] False = Inl ?e" by (simp add: parse_image_alloc_def)
  have rows: "length (lt_rows ?t) = 2" by (simp add: loaded_from_def)
  have "parse_image_alloc (\<lambda>n. n < 3) img False = Inr (?t, pages)"
    "parse_image_alloc (\<lambda>n. n < 2) img False = Inl Bad_Alloc" "is_corruption ?e"
    using parse_image_fails [of "\<lambda>n. n < 3" img False ?t pages ?e]
      parse_image_fails [of "\<lambda>n. n < 2" img False ?t pages ?e]
      parse_image_fails [of "\<lambda>n. n < 2" "[]" False ?t pages ?e] b(2) rows e none by simp_all
  then show ?thesis using b(1) e by blast
qed

section \<open>Indexes\<close>

text \<open>
  C19. The recursive check accepts exactly the valid trees (\<open>index_tree\<close>: sorted keys,
  separators that are the least entries of their subtrees, leaves at one depth) whose pages are distinct
  and not owned by another structure; it collects their entries, leaves and pages. It terminates on every
  page list, cyclic ones included.
\<close>

theorem validate_index_exact:
  "validate_index_node pages i owned {} = Inr (v, owned') \<longleftrightarrow>
   (\<exists>l us. index_tree pages i l (vn_entries v) (vn_leaves v) us \<and> distinct us \<and>
      set us \<inter> owned = {} \<and> owned' = set us \<union> owned \<and>
      v = \<lparr>vn_minimum_key = fst (hd (vn_entries v)), vn_maximum_key = fst (last (vn_entries v)),
           vn_level = word_of_nat l, vn_entries = vn_entries v, vn_leaves = vn_leaves v\<rparr>)"
  by (rule validate_index_node_iff)

text \<open>
  C20. Bulk loading a sorted, non-empty entry list appends the pages of a valid tree that
  holds exactly those entries, with linked leaves and fewer pages than twice the entries; the pages
  before it are unchanged.
\<close>

theorem build_index_valid:
  assumes "entries \<noteq> []" and "sorted entries" and "\<forall>e \<in> set entries. entry_ok e"
    and "length pages + 2 * length entries \<le> MAX_PAGES"
  shows "\<exists>newp root l lvs us. build_index pages entries = Inr (pages @ newp, root) \<and>
    index_tree (pages @ newp) root l entries lvs us \<and>
    mset us = mset (ids_from (length pages) (length newp)) \<and>
    leaves_linked (pages @ newp) lvs \<and> pages_from (length pages) newp \<and>
    length newp < 2 * length entries"
  by (rule build_index_ok [OF assms])

theorem build_index_valid_witness:
  "\<exists>newp root l lvs us. build_index [Page Superblock 0 NO_PAGE []] [(''a'', 1), (''b'', 0)] =
      Inr ([Page Superblock 0 NO_PAGE []] @ newp, root) \<and>
    index_tree ([Page Superblock 0 NO_PAGE []] @ newp) root l [(''a'', 1), (''b'', 0)] lvs us \<and>
    mset us = mset (ids_from (length [Page Superblock 0 NO_PAGE []]) (length newp)) \<and>
    leaves_linked ([Page Superblock 0 NO_PAGE []] @ newp) lvs \<and>
    pages_from (length [Page Superblock 0 NO_PAGE []]) newp \<and>
    length newp < 2 * length [(''a'', 1 :: u64), (''b'', 0)]"
  by (rule build_index_valid)
    (simp_all add: entry_ok_def MAX_VALUE_LENGTH_def MAX_PAGES_def less_eq_prod_def)

section \<open>Pages\<close>

text \<open>
  C25. Page decoding accepts exactly the images that page encoding produces: a 4096-byte
  block decodes to page \<open>p\<close> under identifier \<open>i\<close> if and only if \<open>p\<close> carries that identifier and
  \<open>encode_page\<close> writes that very block for \<open>p\<close>. So decoding inverts encoding, an accepted block
  is canonical, and a page never decodes at another page's file offset.
\<close>

theorem page_decode_encode:
  assumes "length bs = PAGE_SIZE"
  shows "decode_page bs i = Inr p \<longleftrightarrow> pid p = i \<and> encode_page p = Inr bs"
  using assms by (auto simp: decode_page_iff encode_page_eq encode_page_Inr)

theorem page_decode_encode_witness:
  "(decode_page (page_bytes (Page Rows 3 7 [1, 2])) 3 = Inr (Page Rows 3 7 [1, 2])) =
     (pid (Page Rows 3 7 [1, 2]) = 3 \<and>
      encode_page (Page Rows 3 7 [1, 2]) = Inr (page_bytes (Page Rows 3 7 [1, 2])))"
  by (rule page_decode_encode) (simp add: length_page_bytes page_ok_def page_consts)

text \<open>
  C26. A change of any single byte of an encoded page, header, checksum,
  payload or filling, makes \<open>decode_page\<close> throw a corruption error, whatever identifier the
  reader expects.
\<close>

theorem changed_byte_rejected:
  assumes "encode_page p = Inr bs" and "k < PAGE_SIZE" and "x \<noteq> bs ! k"
  shows "\<exists>e. decode_page (bs[k := x]) i = Inl e \<and> is_corruption e"
  using assms decode_rejects_changed_byte by (auto simp: encode_page_Inr)

theorem changed_byte_rejected_witness:
  "\<exists>e. decode_page ((page_bytes (Page Rows 3 7 [1, 2]))[5 := 1]) 3 = Inl e \<and> is_corruption e"
proof (rule changed_byte_rejected)
  show "encode_page (Page Rows 3 7 [1, 2]) = Inr (page_bytes (Page Rows 3 7 [1, 2]))"
    by (simp add: encode_page_eq page_ok_def page_consts)
  show "5 < PAGE_SIZE" by (simp add: PAGE_SIZE_def)
  show "1 \<noteq> page_bytes (Page Rows 3 7 [1, 2]) ! 5"
    by (simp add: page_bytes_def page_form_def page_head_def page_magic_def nth_append)
qed

section \<open>Queues and stacks\<close>

text \<open>
  C35. A run of pushes and pops on the linked queue, or on the linked stack, gives the
  items that the same run gives on a list, and leaves a structure that holds the list's rest. In
  particular every push works, and a run fails exactly if it pops an empty container.
\<close>

theorem containers_refine_lists:
  "(case run_ops (\<lambda>xs x. Some (xs @ [x])) list_pop [] ops of
      None \<Rightarrow> run_ops q_push q_pop (empty_store, queue_new) ops = None
    | Some (ys, zs) \<Rightarrow>
        \<exists>c. run_ops q_push q_pop (empty_store, queue_new) ops = Some (ys, c) \<and> queue_holds c zs) \<and>
   (case run_ops (\<lambda>xs x. Some (x # xs)) list_pop [] ops of
      None \<Rightarrow> run_ops s_push s_pop (empty_store, stack_new) ops = None
    | Some (ys, zs) \<Rightarrow>
        \<exists>c. run_ops s_push s_pop (empty_store, stack_new) ops = Some (ys, c) \<and> stack_holds c zs)"
proof
  have ok: "store_ok (empty_store :: 'a store)" using is_list_empty_store by (simp add: is_list_def)
  have "queue_holds (empty_store :: 'a store, queue_new) []"
    using queue_list_new [OF ok] by (auto simp: queue_holds_def)
  from queue_container.run_ops_holds [OF this]
  show "case run_ops (\<lambda>xs x. Some (xs @ [x])) list_pop [] ops of
      None \<Rightarrow> run_ops q_push q_pop (empty_store, queue_new) ops = None
    | Some (ys, zs) \<Rightarrow>
        \<exists>c. run_ops q_push q_pop (empty_store, queue_new) ops = Some (ys, c) \<and> queue_holds c zs" .
  have "stack_holds (empty_store :: 'a store, stack_new) []"
    using stack_list_new [OF ok] by (auto simp: stack_holds_def)
  from stack_container.run_ops_holds [OF this]
  show "case run_ops (\<lambda>xs x. Some (x # xs)) list_pop [] ops of
      None \<Rightarrow> run_ops s_push s_pop (empty_store, stack_new) ops = None
    | Some (ys, zs) \<Rightarrow>
        \<exists>c. run_ops s_push s_pop (empty_store, stack_new) ops = Some (ys, c) \<and> stack_holds c zs" .
qed

text \<open>
  C36. A copied queue is a deep copy: it holds the items of the original in nodes of
  its own. Pushing onto the copy, or clearing it, leaves the original as it was, and pushing onto the
  original leaves the copy as it was.
\<close>

theorem queue_copy_independent:
  assumes "queue_list s q l"
  shows "\<exists>s1 q1 k. queue_copy s q = Some (s1, q1) \<and> queue_list s1 q l \<and> queue_list s1 q1 k \<and>
    map snd k = map snd l \<and> fst ` set k \<inter> fst ` set l = {} \<and>
    (\<exists>s2 q2. queue_push_all s1 q1 xs = Some (s2, q2) \<and> queue_list s2 q l \<and>
       queue_holds (s2, q2) (map snd l @ xs)) \<and>
    (\<exists>s2. queue_clear s1 q1 = Some (s2, queue_new) \<and> queue_list s2 q l) \<and>
    (\<exists>s2 q2. queue_push_all s1 q xs = Some (s2, q2) \<and> queue_list s2 q1 k \<and>
       queue_holds (s2, q2) (map snd l @ xs))"
proof -
  have l: "is_list s (q_front q) l" using assms by (simp add: queue_list_def)
  have old: "a < next_free s" if "a \<in> fst ` set l" for a
    using l that links_fresh by (fastforce simp: is_list_def)
  obtain s1 q1 k where c: "queue_copy s q = Some (s1, q1)" "queue_list s1 q1 k" "map snd k = map snd l"
    "unchanged_but {} s s1" "\<forall>a \<in> fst ` set k. next_free s \<le> a"
    by (rule queue_copy_list [OF assms])
  have disj: "fst ` set k \<inter> fst ` set l = {}" using old c(5) by force
  have frame: "queue_list s2 q' l'" if "queue_list s1 q' l'" "unchanged_but A s1 s2" "store_ok s2" "A \<inter> fst ` set l' = {}"
    for s2 q' l' A
    using that is_list_frame [OF _ that(2-4)] by (auto simp: queue_list_def)
  have ok: "store_ok s'" if "queue_list s' q' l'" for s' :: "'a store" and q' l'
    using that by (simp add: queue_list_def is_list_def)
  have q: "queue_list s1 q l"
    using assms is_list_frame [OF l c(4) ok [OF c(2)]] by (simp add: queue_list_def)
  obtain s2 q2 m where p: "queue_push_all s1 q1 xs = Some (s2, q2)" "queue_list s2 q2 (k @ m)" "map snd m = xs"
    "unchanged_but (fst ` set k) s1 s2" using queue_push_all_list [OF c(2)] by blast
  obtain s3 where e: "queue_clear s1 q1 = Some (s3, queue_new)" "queue_list s3 queue_new []"
    "unchanged_but (fst ` set k) s1 s3" by (rule queue_clear_list [OF c(2)])
  obtain s4 q4 n where r: "queue_push_all s1 q xs = Some (s4, q4)" "queue_list s4 q4 (l @ n)" "map snd n = xs"
    "unchanged_but (fst ` set l) s1 s4" using queue_push_all_list [OF q] by blast
  have "queue_list s2 q l" using frame [OF q p(4) ok [OF p(2)]] disj by blast
  moreover have "queue_list s3 q l" using frame [OF q e(3) ok [OF e(2)]] disj by blast
  moreover have "queue_list s4 q1 k" using frame [OF c(2) r(4) ok [OF r(2)]] disj by blast
  moreover have "queue_holds (s2, q2) (map snd l @ xs)"
    using p(2,3) c(3) by (auto simp: queue_holds_def intro!: exI [of _ "k @ m"])
  moreover have "queue_holds (s4, q4) (map snd l @ xs)"
    using r(2,3) by (auto simp: queue_holds_def intro!: exI [of _ "l @ n"])
  ultimately show ?thesis using c(1-3) q disj p(1) e(1) r(1) by blast
qed

theorem queue_copy_independent_witness:
  "\<exists>s q l. map snd l = [1, 2 :: nat] \<and>
    (\<exists>s1 q1 k. queue_copy s q = Some (s1, q1) \<and> queue_list s1 q l \<and> queue_list s1 q1 k \<and>
    map snd k = map snd l \<and> fst ` set k \<inter> fst ` set l = {} \<and>
    (\<exists>s2 q2. queue_push_all s1 q1 [3] = Some (s2, q2) \<and> queue_list s2 q l \<and>
       queue_holds (s2, q2) (map snd l @ [3])) \<and>
    (\<exists>s2. queue_clear s1 q1 = Some (s2, queue_new) \<and> queue_list s2 q l) \<and>
    (\<exists>s2 q2. queue_push_all s1 q [3] = Some (s2, q2) \<and> queue_list s2 q1 k \<and>
       queue_holds (s2, q2) (map snd l @ [3])))"
proof -
  have "queue_list (empty_store :: nat store) queue_new []"
    using is_list_empty_store by (intro queue_list_new) (simp add: is_list_def)
  from queue_push_all_list [OF this, of "[1, 2]"]
  obtain s q and l :: "(nat \<times> nat) list" where l: "queue_list s q l" "map snd l = [1, 2]" by auto
  show ?thesis
    by (rule exI [of _ s], rule exI [of _ q], rule exI [of _ l])
      (intro conjI l(2) queue_copy_independent [OF l(1)])
qed


section \<open>In-memory maps\<close>

text \<open>
  C9. On a tree with the invariant (equal leaf depth, 1 or 2 items in every node but the
  root, one child more than separators, every separator the key of the first item behind it, keys
  strictly increasing, leaves linked in order) \<open>insert\<close> and \<open>erase\<close> work without an invalid access, report
  whether the key was absent or present, and keep the invariant. An insertion puts a new item in key order
  and leaves a present one as it is; a deletion removes exactly the item with the key.
\<close>

theorem bptree_invariant:
  assumes "tree_ok h t H"
  shows "(\<exists>h' t' H'. bp_insert e t H = Some (fst e \<notin> fst ` set (items t), t', H') \<and> tree_ok h' t' H' \<and>
      items t' = (if fst e \<in> fst ` set (items t) then items t else sorted_insert e (items t))) \<and>
    (\<exists>h' t' H'. bp_erase e t H = Some (fst e \<in> fst ` set (items t), t', H') \<and> tree_ok h' t' H' \<and>
      items t' = filter (\<lambda>y. fst y \<noteq> fst e) (items t))"
proof (cases "fst e \<in> fst ` set (items t)")
  case True
  then show ?thesis using bp_insert_present [OF assms True] bp_erase_present [OF assms True] assms
    by (auto simp: without_key_def)
next
  case False
  then have "filter (\<lambda>y. fst y \<noteq> fst e) (items t) = items t" using without_key_absent [of e "items t"] by (simp add: without_key_def)
  then show ?thesis using bp_insert_absent [OF assms False] bp_erase_absent [OF assms False] assms False by auto
qed

definition sample_tree :: "(nat, string) bptree" where
  "sample_tree = BNode 0 [(2, ''x'')] [BNode 1 [(1, ''a'')] [], BNode 2 [(2, ''b''), (4, ''c'')] []]"

definition sample_heap :: bheap where
  "sample_heap = \<lparr>next_of = (\<lambda>_. None)(1 := Some 2), next_addr = 3\<rparr>"

lemma sample_tree_ok: "tree_ok 1 sample_tree sample_heap"
  by (simp add: sample_tree_def sample_heap_def tree_ok_def exact_def lead_ok_def lead_def items_def data_count_def
      MAXIMUM_def MINIMUM_def kid_count_def leaf_addrs_def One_nat_def)

theorem bptree_invariant_witness:
  "\<exists>h' t' H'. bp_insert (3, ''d'') sample_tree sample_heap = Some (True, t', H') \<and> tree_ok h' t' H' \<and>
    items t' = [(1, ''a''), (2, ''b''), (3, ''d''), (4, ''c'')]"
  using bptree_invariant [OF sample_tree_ok, of "(3, ''d'')"]
  by (simp add: sample_tree_def items_def sorted_insert_def)

text \<open>
  C31. Every tree that insertions, deletions, writes through references and \<open>clear_tree\<close> build
  from an empty tree passes the class's own check \<open>is_valid\<close>, and \<open>contains\<close> and the constant \<open>get\<close> find
  exactly the items of its leaves.
\<close>

theorem built_trees_valid:
  assumes "built t H"
  shows "is_valid t = Some True \<and> contains_item e t = Some (fst e \<in> fst ` set (items t)) \<and>
    bp_get_const e t = Some (case map_of (items t) (fst e) of
      None \<Rightarrow> Inl (Out_Of_Range ''BPlusTree key does not exist'') | Some v \<Rightarrow> Inr (fst e, v))"
proof -
  obtain h where h: "tree_ok h t H" using built_ok [OF assms] by blast
  have "List.find (\<lambda>y. fst y = k) xs = map_option (Pair k) (map_of xs k)" for k :: 'a and xs :: "('a \<times> 'b) list"
    by (induction xs) auto
  then show ?thesis using is_valid_tree [OF h] contains_item_good [OF tree_ok_good [OF h]] bp_get_const_tree [OF h]
    by (simp split: option.splits)
qed

theorem built_trees_valid_witness:
  "is_valid (BNode 0 [(7 :: nat, ''v'')] []) = Some True"
proof -
  have "built (BNode 0 [] []) \<lparr>next_of = (\<lambda>_. None)(0 := None), next_addr = 1\<rparr>"
    by (rule built.new [of "\<lparr>next_of = \<lambda>_. None, next_addr = 0\<rparr>"]) (simp add: bp_new_def new_tree_def)
  then have "built (BNode 0 [(7 :: nat, ''v'')] []) \<lparr>next_of = (\<lambda>_. None)(0 := None), next_addr = 1\<rparr>"
    by (rule built.ins [of _ _ "(7, ''v'')" True])
      (simp add: bp_insert_def locate_def insert_item_def data_count_def MAXIMUM_def MINIMUM_def)
  from built_trees_valid [OF this] show ?thesis by blast
qed

text \<open>
  C27. \<open>begin\<close> and repeated \<open>++\<close> go over the items of a tree in key order, each once, and end
  at \<open>end()\<close>; \<open>position t k\<close> is the iterator of item \<open>k\<close>. \<open>size\<close> is the number of items, \<open>lower_bound\<close> and
  \<open>upper_bound\<close> are the positions of the first item not below and the first item above the key, and
  \<open>find\<close> is the position of the item with the key, or \<open>end()\<close>.
\<close>

theorem bptree_iteration:
  assumes "tree_ok h t H"
  shows "bp_begin t = position t 0 \<and> bp_end = position t (length (items t)) \<and>
    (\<forall>k. (position t k \<noteq> bp_end) = (k < length (items t))) \<and>
    (\<forall>k < length (items t). bp_deref t (position t k) = Some (items t ! k) \<and>
      bp_next t H (position t k) = Some (position t (Suc k))) \<and>
    bp_size t H = Some (length (items t)) \<and>
    bp_lower_bound e t H = Some (position t (length (takeWhile (\<lambda>x. fst x < fst e) (items t)))) \<and>
    bp_upper_bound e t H = Some (position t (length (takeWhile (\<lambda>x. fst x \<le> fst e) (items t)))) \<and>
    bp_find e t = Some (position t (length (takeWhile (\<lambda>x. fst x \<noteq> fst e) (items t))))"
proof -
  let ?n = "length (takeWhile (\<lambda>x. fst x \<noteq> fst e) (items t))"
  have "bp_find e t = Some (position t ?n)"
  proof (cases "fst e \<in> fst ` set (items t)")
    case True
    then have "\<not> (\<forall>x \<in> set (items t). fst x \<noteq> fst e)" by (metis imageE)
    then have whole: "takeWhile (\<lambda>x. fst x \<noteq> fst e) (items t) \<noteq> items t" unfolding takeWhile_eq_all_conv .
    have "?n \<noteq> length (items t)"
    proof
      assume all: "?n = length (items t)"
      have "takeWhile (\<lambda>x. fst x \<noteq> fst e) (items t) = take ?n (items t)" by (rule takeWhile_eq_take)
      also have "\<dots> = items t" unfolding all by simp
      finally show False using whole by contradiction
    qed
    then have n: "?n < length (items t)" using length_takeWhile_le [of "\<lambda>x. fst x \<noteq> fst e" "items t"] by linarith
    then have "fst (items t ! ?n) = fst e" using nth_length_takeWhile by fastforce
    then show ?thesis using bp_find_position(2) [OF assms n] by simp
  next
    case False
    then have "\<forall>x \<in> set (items t). fst x \<noteq> fst e" by (metis imageI)
    then have "takeWhile (\<lambda>x. fst x \<noteq> fst e) (items t) = items t" by (simp only: takeWhile_eq_all_conv)
    then have n: "?n = length (items t)" by (rule arg_cong)
    show ?thesis unfolding n using bp_find_position(1) [OF assms False] position_end [of t "length (items t)"] by simp
  qed
  moreover have "bp_end = position t (length (items t))" by (metis order_refl position_end)
  ultimately show ?thesis
    using bp_begin_position [OF assms] position_end [of t] position_deref [OF assms] position_next [OF assms]
      bp_size_items [OF assms] bp_lower_bound_position [OF assms] bp_upper_bound_position [OF assms]
    by (auto simp: not_le)
qed

theorem bptree_iteration_witness:
  "bp_size sample_tree sample_heap = Some 3 \<and> bp_lower_bound (3, []) sample_tree sample_heap = Some (Some 2, 1)"
  using bptree_iteration [OF sample_tree_ok, of "(3, [])"]
  by (simp add: sample_tree_def items_def position_def)

text \<open>
  C30. No node of a tree holds more than \<open>MAXIMUM\<close> items or \<open>MAXIMUM + 1\<close> children, so at least one cell
  of each array is free; the node that an insertion leaves overfull for its parent still fits its
  array. A tree with height \<open>h\<close> has at least \<open>2 ^ h\<close> items, so an operation descends through at most
  logarithmically many nodes. \<open>count\<close>, which also counts the separators, is at least \<open>size\<close> and less than
  twice as much.
\<close>

theorem bptree_bounds:
  assumes "tree_ok h t H" and "items t \<noteq> []"
  shows "(\<forall>n \<in> set (bp_nodes t). data_count n \<le> MAXIMUM \<and> child_count n \<le> MAXIMUM + 1) \<and>
    (case loose_insert e t H of None \<Rightarrow> False | Some (ins, t', H') \<Rightarrow> data_count t' \<le> MAXIMUM + 1) \<and>
    2 ^ h \<le> length (items t) \<and> length (items t) \<le> bp_count t \<and> bp_count t < 2 * length (items t)"
proof -
  have max: "data_count t \<le> MAXIMUM" and sh: "shape h t" using assms(1) by (simp_all add: tree_ok_def)
  have "\<exists>ins t' H'. loose_insert e t H = Some (ins, t', H') \<and> data_count t' \<le> MAXIMUM + 1"
  proof (cases "fst e \<in> fst ` set (items t)")
    case True
    then show ?thesis using loose_insert_present [OF tree_ok_good [OF assms(1)] True max] max by auto
  next
    case False
    obtain t' H' where "loose_insert e t H = Some (True, t', H')" "data_count t' \<le> Suc (data_count t)"
      using loose_insert_absent [OF tree_ok_good [OF assms(1)] False tree_ok_placed [OF assms(1)]] by blast
    then show ?thesis using max by auto
  qed
  moreover have "length (leaf_list t) \<le> length (items t)"
  proof -
    have "length L \<le> length (concat (map snd L))" if "\<forall>l \<in> set L. snd l \<noteq> []" for L :: "(nat \<times> ('a, 'b) item list) list"
      using that
    proof (induction L)
      case (Cons l L)
      then show ?case by (cases "snd l") auto
    qed simp
    then show ?thesis using tree_leaves(2) [OF assms] by (simp add: items_def)
  qed
  ultimately show ?thesis
    using tree_bounds [OF assms(1)] assms(2) bp_count_items [OF sh] length_seps [OF sh] by auto
qed

theorem bptree_bounds_witness:
  "bp_count sample_tree = 4 \<and> (2 :: nat) ^ 1 \<le> length (items sample_tree) \<and> bp_count sample_tree < 2 * length (items sample_tree)"
  using bptree_bounds [OF sample_tree_ok, of "(9, [])"] by (simp add: sample_tree_def items_def)

text \<open>
  C29. A copied tree holds the items of the source in nodes of its own: the source keeps its
  invariant in the heap, and whatever is then inserted into the copy or erased from it leaves the source
  as it was; the same holds for the copy when the source is changed.
\<close>

theorem bptree_copy_separate:
  assumes "tree_ok h t H" and "bp_new H = (c, H1)" and "bp_copy t (bp_addr c) H1 = (t', H')"
  shows "tree_ok h t' H' \<and> items t' = items t \<and> separate t' t \<and>
    (\<exists>b k t2 H2. bp_insert e t' H' = Some (b, t2, H2) \<and> tree_ok k t2 H2 \<and> tree_ok h t H2) \<and>
    (\<exists>b k t2 H2. bp_erase e t' H' = Some (b, t2, H2) \<and> tree_ok k t2 H2 \<and> tree_ok h t H2) \<and>
    (\<exists>b k t2 H2. bp_insert e t H' = Some (b, t2, H2) \<and> tree_ok k t2 H2 \<and> tree_ok h t' H2) \<and>
    (\<exists>b k t2 H2. bp_erase e t H' = Some (b, t2, H2) \<and> tree_ok k t2 H2 \<and> tree_ok h t' H2)"
proof -
  note c = copy_separate [OF assms]
  then have s: "separate t t'" by (auto simp: separate_def)
  show ?thesis
    using insert_separate [OF c(1,3,4), of e] erase_separate [OF c(1,3,4), of e]
      insert_separate [OF c(3,1) s, of e] erase_separate [OF c(3,1) s, of e] c
    by blast
qed

theorem bptree_copy_separate_witness:
  "items (fst (bp_copy sample_tree 3 (snd (bp_new sample_heap :: (nat, string) bptree \<times> bheap)))) = items sample_tree"
proof -
  let ?n = "bp_new sample_heap :: (nat, string) bptree \<times> bheap"
  have "bp_addr (fst ?n) = 3" by (simp add: bp_new_def new_tree_def sample_heap_def)
  then show ?thesis
    using bptree_copy_separate [OF sample_tree_ok, of "fst ?n" "snd ?n" "fst (bp_copy sample_tree 3 (snd ?n))"
        "snd (bp_copy sample_tree 3 (snd ?n))"] by simp
qed

text \<open>
  C10. A run of the operations that the parser performs on its parse tree (\<open>insert\<close>,
  \<open>insert_key\<close>, \<open>operator[]\<close>, \<open>operator[] +=\<close> and \<open>erase\<close>), executed by \<open>MMap\<close> on the B+ tree, returns what the same
  run returns on the finite map the parser's model uses, and ends with a tree that holds that map; it
  fails exactly where the assertion of \<open>insert_key\<close> does.
\<close>

theorem multimap_refines_finite_map:
  "same_result (run_steps tree_step ps Map.empty) (run_steps mm_step ps (map_new h))"
  using run_refines [of "map_new h" ps] map_new_ok [of "map_new h :: (string, string) multimap" h] by simp

text \<open>
  C28. The index of a field, built by inserting the values of the rows into an \<open>MMap\<close>, holds the
  finite map of the table's model, and the selection of record numbers by walking the linked leaves
  between \<open>begin\<close>, \<open>lower_bound\<close>, \<open>upper_bound\<close> and \<open>end\<close> gives, for every operator, the list that the
  model of \<open>selectHelp\<close> gives.
\<close>

theorem index_selection:
  "\<exists>m c. index_rows rows (map_new h) = Some m \<and>
    foldl (\<lambda>c (v, i). cache_insert f v i c) [f \<mapsto> Map.empty] rows f = Some c \<and>
    contents m = c \<and> select_index m op v = Some (select_cached c op v)"
proof -
  define m0 where "m0 = (map_new h :: (string, int) multimap)"
  have m0: "bmap_ok m0" "contents m0 = Map.empty" using map_new_ok [OF m0_def] by simp_all
  have "[f \<mapsto> Map.empty] f = Some (contents m0)" by (simp add: m0(2))
  from index_rows_contents [of m0 "[f \<mapsto> Map.empty]" f rows, OF m0(1) this] obtain m where
    "index_rows rows m0 = Some m" "bmap_ok m"
    "foldl (\<lambda>c (v, i). cache_insert f v i c) [f \<mapsto> Map.empty] rows f = Some (contents m)"
    by blast
  then show ?thesis using select_index_cached [of m op v] by (auto simp: m0_def)
qed

section \<open>Migration from format v1\<close>

text \<open>
  C32. The migration tool, given the files of a table in format v1 (\<open>v1_files\<close>: the slots that
  \<open>FileRecord\<close> writes) and a destination that does not exist, exits with code 0 and leaves at the
  destination a v2 database that opens as exactly that table; the temporary file is gone, the source
  files are as they were, and nothing else differs from what other processes made of the files.
  \<open>mkstemp\<close> is assumed to choose a name of its form that is not in use, and the other processes to leave
  the files of the migration alone.
\<close>

theorem migration_complete:
  assumes "v1_table_ok flds rows" and "v1_files fs source flds rows" and "image_fits flds rows"
    and "exclusive_names mkstemp" and "mkstemp fs (d @ ''.tmp.XXXXXX'') = Inr tmp" and "fs (wal_path tmp) = None"
    and "fs d = None" and "fs (wal_path d) = None"
    and "\<forall>F. \<forall>p \<in> {schema_path source, rows_path source, d, wal_path d, tmp}. others F p = F p"
    and "parse_arguments args False [] [] = Inr (Migrate False d source)"
    and result: "r = sql_migrate_v1 version mkstemp others fs args" and final: "fs' = mig_run (rr_calls r) fs"
  shows "rr_code r = 0 \<and> v1_files fs' source flds rows \<and>
    (\<exists>t. open_table fs' d = ([], Inr t) \<and> lt_fields t = flds \<and> lt_rows t = rows) \<and>
    (\<exists>img. fs' = (others (fs(tmp \<mapsto> img)))(d \<mapsto> img, tmp := None))"
proof -
  have r: "r = migrate_command mkstemp others fs False d source"
    using assms(10) result by (simp add: sql_migrate_v1_def)
  from migrate_command_done [OF assms(1-9)] show ?thesis unfolding final r by metis
qed

definition sample_files :: files where
  "sample_files = [schema_path ''t'' \<mapsto> concat (map pad_slot [''2'', ''a'', ''b'']),
     rows_path ''t'' \<mapsto> row_file [[''x'', ''1''], [''y'', ''2'']]]"

definition sample_mkstemp :: "files \<Rightarrow> path \<Rightarrow> string + path" where
  "sample_mkstemp fs p = (let q = take (length p - 6) p @ ''abcdef'' in
     if fs q = None then Inr q else Inl ''File exists'')"

lemma sample_migration:
  "exclusive_names sample_mkstemp"
  "sample_mkstemp sample_files (''t.sql2'' @ ''.tmp.XXXXXX'') = Inr ''t.sql2.tmp.abcdef''"
  "v1_table_ok [''a'', ''b''] [[''x'', ''1''], [''y'', ''2'']]"
  "v1_files sample_files ''t'' [''a'', ''b''] [[''x'', ''1''], [''y'', ''2'']]"
  "sample_files (wal_path ''t.sql2.tmp.abcdef'') = None" "sample_files ''t.sql2'' = None"
  "sample_files (wal_path ''t.sql2'') = None"
  "parse_arguments [''t''] False [] [] = Inr (Migrate False ''t.sql2'' ''t'')"
proof -
  show "exclusive_names sample_mkstemp"
    by (auto simp: exclusive_names_def sample_mkstemp_def Let_def split: if_splits)
  show "sample_mkstemp sample_files (''t.sql2'' @ ''.tmp.XXXXXX'') = Inr ''t.sql2.tmp.abcdef''"
    by (simp add: sample_mkstemp_def sample_files_def schema_path_def rows_path_def Let_def)
  show "v1_table_ok [''a'', ''b''] [[''x'', ''1''], [''y'', ''2'']]"
    using example_table(1) by (simp add: v1_table_ok_def slot_ok_def SLOT_SIZE_def)
  have "count_text ''2'' (length [''a'', ''b''])"
    by (simp add: count_text_def slot_ok_def SLOT_SIZE_def isdigit_def digits_value_def)
  moreover have "schema_path ''t'' \<noteq> rows_path ''t''" by (simp add: schema_path_def rows_path_def)
  ultimately show "v1_files sample_files ''t'' [''a'', ''b''] [[''x'', ''1''], [''y'', ''2'']]"
    by (auto simp: v1_files_def sample_files_def)
qed (simp_all add: sample_files_def schema_path_def rows_path_def wal_path_def database_path_def)

theorem migration_complete_witness:
  "rr_code (sql_migrate_v1 ''1.0'' sample_mkstemp id sample_files [''t'']) = 0"
  using migration_complete [OF sample_migration(3,4) example_table(2) sample_migration(1,2,5,6,7) _ sample_migration(8)
      refl refl, of id "''1.0''"] by simp

text \<open>
  C33. Wherever a migration stops, whether it ends, fails, or is killed after any system call or
  inside a write, and whatever other processes did to the files in between (short of touching the
  temporary file; the rows file is small enough for the page numbers of format v2): either every file but the temporary one and its log is as before, or the other files
  are as the other processes left them and the destination is either what those left there or, if it
  did not exist before and they did not create it, the complete database of the v1 table. In particular
  an existing destination is never replaced.
\<close>

theorem migration_crash_safe:
  assumes "exclusive_names mkstemp" and "mkstemp fs (d @ ''.tmp.XXXXXX'') = Inr tmp"
    and "rows_file_fits fs source"
    and "\<forall>F. others F tmp = F tmp"
    and "parse_arguments args False [] [] = Inr (Migrate dry_run d source)"
    and "mig_crash (rr_calls (sql_migrate_v1 version mkstemp others fs args)) fs fs'"
  shows "(\<forall>p. p \<noteq> tmp \<longrightarrow> p \<noteq> wal_path tmp \<longrightarrow> fs' p = fs p) \<or>
    (\<exists>img flds rows t pages. v1_files fs source flds rows \<and> parse_image img False = Inr (t, pages) \<and>
      lt_fields t = flds \<and> lt_rows t = rows \<and>
      (\<forall>p. p \<noteq> tmp \<longrightarrow> p \<noteq> wal_path tmp \<longrightarrow> p \<noteq> d \<longrightarrow> fs' p = others (fs(tmp \<mapsto> img)) p) \<and>
      (fs' d = others (fs(tmp \<mapsto> img)) d \<or>
       fs d = None \<and> others (fs(tmp \<mapsto> img)) d = None \<and> fs' d = Some img))"
proof -
  have "mig_crash (rr_calls (migrate_command mkstemp others fs dry_run d source)) fs fs'"
    using assms(5,6) by (simp add: sql_migrate_v1_def)
  from migrate_command_crash [OF assms(1-4) this] show ?thesis .
qed

theorem migration_crash_safe_witness:
  "\<exists>fs'. mig_crash (rr_calls (sql_migrate_v1 ''1.0'' sample_mkstemp id sample_files [''t''])) sample_files fs' \<and>
    fs' (rows_path ''t'') = sample_files (rows_path ''t'')"
proof -
  let ?cs = "rr_calls (sql_migrate_v1 ''1.0'' sample_mkstemp id sample_files [''t''])"
  have c: "mig_crash ?cs sample_files (mig_run ?cs sample_files)" by (rule mig_crash_run)
  have fit: "rows_file_fits sample_files ''t''"
    by (simp add: rows_file_fits_def sample_files_def schema_path_def rows_path_def row_file_def pad_slot_def SLOT_SIZE_def
        MAX_PAGES_def)
  have ne: "rows_path ''t'' \<noteq> ''t.sql2.tmp.abcdef''" "rows_path ''t'' \<noteq> wal_path ''t.sql2.tmp.abcdef''"
    "rows_path ''t'' \<noteq> ''t.sql2''"
    by (simp_all add: rows_path_def wal_path_def)
  from migration_crash_safe [OF sample_migration(1,2) fit _ sample_migration(8) c] ne
  have "mig_run ?cs sample_files (rows_path ''t'') = sample_files (rows_path ''t'')" by auto
  then show ?thesis using c by blast
qed

text \<open>
  C34. The strict reader of format v1 succeeds exactly on the files of a well-formed table: a
  first slot with the number of fields in decimal digits, one slot for each name, and the rows slot by
  slot, every slot padded with zero bytes only, 1 to 64 distinct non-empty names, whole rows; and the
  table it returns is the one in the files.
\<close>

theorem read_legacy_exact:
  "(read_legacy fs source = Inr (flds, rows)) =
    (v1_table_ok flds rows \<and>
     (\<exists>t. count_text t (length flds) \<and> fs (schema_path source) = Some (concat (map pad_slot (t # flds)))) \<and>
     fs (rows_path source) = Some (row_file rows))"
  using read_legacy_iff [of fs source flds rows] by (simp add: v1_files_def)

section \<open>SQL commands end to end\<close>

text \<open>A table file with the rows of the examples.\<close>

lemma example_file:
  obtains cs t where "open_table (run cs Map.empty) (database_path ''t'') = ([], Inr t)"
    "lt_fields t = [''a'', ''b'']" "lt_rows t = [[''x'', ''1''], [''y'', ''2'']]"
    "file_exists (run cs Map.empty) (database_path ''t'')"
proof -
  obtain cs t where c: "open_table (run cs Map.empty) (database_path ''t'') = ([], Inr t)"
    "lt_fields t = [''a'', ''b'']" "lt_rows t = [[''x'', ''1''], [''y'', ''2'']]"
    using create_open [of Map.empty "database_path ''t''" "[''a'', ''b'']" "[[''x'', ''1''], [''y'', ''2'']]"]
    by (auto simp: example_table file_exists_def wal_pending_def)
  have "snd (open_table (run cs Map.empty) (database_path ''t'')) = Inr t" using c(1) by simp
  then have l: "load_table (run (fst (recover (run cs Map.empty) (database_path ''t''))) (run cs Map.empty)) (database_path ''t'') = Inr t"
    by (simp add: open_table_result)
  have "fst (recover (run cs Map.empty) (database_path ''t'')) = []"
    using c(1) open_table_calls [of "run cs Map.empty" "database_path ''t''"] by simp
  then have "file_exists (run cs Map.empty) (database_path ''t'')"
    using l by (auto simp: load_table_Inr file_exists_def)
  then show ?thesis using that c by blast
qed

text \<open>
  C4. A printed \<open>select\<close> statement on a table that opens runs without an error, whatever state
  the SQL object was in. The record numbers it returns are those of the rows that satisfy the condition
  \<open>e\<close> of the statement, once each (all rows without a condition); the column names are the chosen
  ones in schema order; the printed values are those columns of the selected rows. The condition is any
  infix expression over known fields: the tokenizer, the parser, the shunting yard, the evaluation on
  the persistent indexes and the projection are all between the text and this result.
\<close>

theorem select_command:
  assumes "is_identifier name"
    and "file_exists fs (database_path name)" "open_table fs (database_path name) = (cs, Inr t)"
    and "\<forall>l \<in> set (statement_lexemes (Select_From cols name w)). printable l"
    and "cols \<noteq> Columns []" "set (chosen_columns (lt_fields t) cols) \<subseteq> set (lt_fields t)"
      "distinct (chosen_columns (lt_fields t) cols)"
    and "where_means (lt_fields t) w e"
  shows "\<exists>s'. command fs s (print_sql (Select_From cols name w)) = Some (cs, s') \<and> \<not> sq_error s' \<and>
    distinct (tb_recordIndices (sq_table s')) \<and> set (tb_recordIndices (sq_table s')) = selected_rows t e \<and>
    tb_fieldNames (sq_table s') =
      filter (\<lambda>f. f \<in> set (chosen_columns (lt_fields t) cols)) (lt_fields t) \<and>
    tb_printQueue (sq_table s') =
      concat (map (\<lambda>r. projected (lt_fields t) (chosen_columns (lt_fields t) cols) (lt_rows t ! nat r))
        (tb_recordIndices (sq_table s')))"
  by (rule command_select [OF assms])

definition example_where :: where_clause where
  "example_where =
     (\<lparr>left_parens = [''(''], left_operand = ''a'', comparison_operator = ''='', right_operand = ''x'', right_parens = []\<rparr>,
      [(''or'', \<lparr>left_parens = [], left_operand = ''b'', comparison_operator = ''>='', right_operand = ''2'', right_parens = ['')'']\<rparr>)])"

lemma example_condition:
  "where_means [''a'', ''b''] (Some example_where) (Some (Or (Compare ''a'' ''='' ''x'') (Compare ''b'' ''>='' ''2'')))"
proof -
  let ?a = "[TokenStr ''a'', Relational ''='', TokenStr ''x'']"
  let ?b = "[TokenStr ''b'', Relational ''>='', TokenStr ''2'']"
  have "infix_disj (Or (Compare ''a'' ''='' ''x'') (Compare ''b'' ''>='' ''2'')) (?a @ Logical ''or'' # ?b)"
    by (intro disj_or disj_conj conj_atom atom_compare) (simp_all add: relational_precedence_def)
  then have "infix_disj (Or (Compare ''a'' ''='' ''x'') (Compare ''b'' ''>='' ''2''))
      (LeftParen # (?a @ Logical ''or'' # ?b) @ [RightParen])"
    by (intro disj_conj conj_atom) (rule atom_paren)
  then show ?thesis
    by (simp add: example_where_def where_lexemes_def comparison_lexemes_def where_tail_def parens_def
        condition_texts_def allocate_tokens_memory_def allocate_token_def operators_def)
qed

theorem select_command_witness:
  "\<exists>fs (t :: loaded_table) s'. lt_rows t = [[''x'', ''1''], [''y'', ''2'']] \<and>
    command fs fresh_sql (print_sql (Select_From (Columns [''b'']) ''t'' (Some example_where))) = Some ([], s') \<and>
    \<not> sq_error s' \<and>
    set (tb_recordIndices (sq_table s')) =
      selected_rows t (Some (Or (Compare ''a'' ''='' ''x'') (Compare ''b'' ''>='' ''2''))) \<and>
    tb_fieldNames (sq_table s') = [''b'']"
proof -
  obtain cs t where t: "open_table (run cs Map.empty) (database_path ''t'') = ([], Inr t)"
    "lt_fields t = [''a'', ''b'']" "lt_rows t = [[''x'', ''1''], [''y'', ''2'']]"
    "file_exists (run cs Map.empty) (database_path ''t'')" by (rule example_file)
  have "\<forall>l \<in> set (statement_lexemes (Select_From (Columns [''b'']) ''t'' (Some example_where))). printable l"
    by (simp add: example_where_def where_lexemes_def comparison_lexemes_def where_tail_def parens_def
        comma_tail_def printable_def lexeme_ok_def relational_operators_def)
  from select_command [OF _ t(4,1) this, of "Some (Or (Compare ''a'' ''='' ''x'') (Compare ''b'' ''>='' ''2''))" fresh_sql]
    t(2,3) example_condition
  show ?thesis by (force simp: is_identifier_def isalpha_def isalnum_def)
qed

text \<open>
  C1. A whole session, from the texts of the statements to the rows shown. A \<open>create\<close> statement with a
  new table name, one \<open>insert\<close> statement for each row, and a \<open>select\<close> statement are given one after the other to
  an SQL object in any state: every command returns and none ends in the error state, and the selection holds the
  record numbers of exactly the inserted rows that satisfy the condition, once each (all rows without a condition);
  the column names are the chosen ones in schema order and the printed values are those columns of the selected
  rows. Tokenizer, parser, command dispatch, table, image building, row and index insertion with page splits, log,
  commit, parsing of the image and evaluation on the indexes are all between the texts and this result. The
  interactive program given these texts and then \<open>end\<close> as its input lines returns, with the same files and the
  same SQL object.
\<close>

theorem sql_session:
  assumes "\<not> file_exists fs (table_file name)" "\<not> file_exists fs (field_file name)"
      "\<not> file_exists fs (database_path name)" "\<not> wal_pending fs (database_path name)"
    and "is_identifier name" "\<forall>f \<in> set flds. is_identifier f" "fields_ok flds"
    and "\<forall>row \<in> set rows. row_fits flds row \<and> (\<forall>v \<in> set row. printable (v, LITERAL))"
      "6 + length rows * (2 + 34 * length flds) \<le> MAX_PAGES"
    and "\<forall>l \<in> set (statement_lexemes (Select_From cols name w)). printable l"
      "cols \<noteq> Columns []" "set (chosen_columns flds cols) \<subseteq> set flds" "distinct (chosen_columns flds cols)"
      "where_means flds w e"
  shows "\<exists>fs' s'. run_commands fs s (map print_sql (session_statements name flds rows cols w)) = Some (fs', s') \<and>
    (\<exists>cs out. repl fs s (map print_sql (session_statements name flds rows cols w) @ [''end'']) = Some (cs, out, s') \<and>
       run cs fs = fs') \<and>
    distinct (tb_recordIndices (sq_table s')) \<and>
    set (tb_recordIndices (sq_table s')) = chosen_rows flds rows e \<and>
    tb_fieldNames (sq_table s') = filter (\<lambda>f. f \<in> set (chosen_columns flds cols)) flds \<and>
    tb_printQueue (sq_table s') =
      concat (map (\<lambda>r. projected flds (chosen_columns flds cols) (rows ! nat r)) (tb_recordIndices (sq_table s')))"
  by (rule session_runs [OF assms])

theorem sql_session_witness:
  "\<exists>fs' s' cs out. run_commands Map.empty fresh_sql (map print_sql
      [Create_Table ''t'' [''a'', ''b''], Insert_Into ''t'' [''x'', ''1''], Insert_Into ''t'' [''z'', ''1''],
       Insert_Into ''t'' [''y'', ''2''], Select_From (Columns [''b'']) ''t'' (Some example_where)]) = Some (fs', s') \<and>
    repl Map.empty fresh_sql (map print_sql
      [Create_Table ''t'' [''a'', ''b''], Insert_Into ''t'' [''x'', ''1''], Insert_Into ''t'' [''z'', ''1''],
       Insert_Into ''t'' [''y'', ''2''], Select_From (Columns [''b'']) ''t'' (Some example_where)] @ [''end'']) =
      Some (cs, out, s') \<and> run cs Map.empty = fs' \<and>
    distinct (tb_recordIndices (sq_table s')) \<and> set (tb_recordIndices (sq_table s')) = {0, 2} \<and>
    tb_fieldNames (sq_table s') = [''b'']"
proof -
  let ?rows = "[[''x'', ''1''], [''z'', ''1''], [''y'', ''2'']]"
  let ?e = "Some (Or (Compare ''a'' ''='' ''x'') (Compare ''b'' ''>='' ''2''))"
  have fresh: "\<not> file_exists Map.empty (table_file ''t'')" "\<not> file_exists Map.empty (field_file ''t'')"
    "\<not> file_exists Map.empty (database_path ''t'')" "\<not> wal_pending Map.empty (database_path ''t'')"
    by (simp_all add: file_exists_def wal_pending_def)
  have names: "is_identifier ''t''" "\<forall>f \<in> set [''a'', ''b'']. is_identifier f" "fields_ok [''a'', ''b'']"
    by (simp_all add: is_identifier_def isalpha_def isalnum_def fields_ok_def MAX_FIELDS_def MAX_VALUE_LENGTH_def)
  have rows: "\<forall>row \<in> set ?rows. row_fits [''a'', ''b''] row \<and> (\<forall>v \<in> set row. printable (v, LITERAL))"
    "6 + length ?rows * (2 + 34 * length [''a'', ''b'']) \<le> MAX_PAGES"
    by (simp_all add: row_fits_def MAX_VALUE_LENGTH_def printable_def lexeme_ok_def MAX_PAGES_def)
  have stmt: "\<forall>l \<in> set (statement_lexemes (Select_From (Columns [''b'']) ''t'' (Some example_where))). printable l"
    by (simp add: example_where_def where_lexemes_def comparison_lexemes_def where_tail_def parens_def
        comma_tail_def printable_def lexeme_ok_def relational_operators_def)
  have cols: "Columns [''b''] \<noteq> Columns []" "set (chosen_columns [''a'', ''b''] (Columns [''b''])) \<subseteq> set [''a'', ''b'']"
    "distinct (chosen_columns [''a'', ''b''] (Columns [''b'']))" by simp_all
  have chosen: "chosen_rows [''a'', ''b''] ?rows ?e = {0, 2}"
  proof -
    have "{r. r < length ?rows \<and> satisfies [''a'', ''b''] (?rows ! r) (Or (Compare ''a'' ''='' ''x'') (Compare ''b'' ''>='' ''2''))} = {0, 2}"
      by (auto simp: less_Suc_eq numeral_3_eq_3 compare_with_def column_of_def list_le_def list_less_def less_char_def)
    then show ?thesis by (simp add: chosen_rows_def)
  qed
  have stmts: "session_statements ''t'' [''a'', ''b''] ?rows (Columns [''b'']) (Some example_where) =
      [Create_Table ''t'' [''a'', ''b''], Insert_Into ''t'' [''x'', ''1''], Insert_Into ''t'' [''z'', ''1''],
       Insert_Into ''t'' [''y'', ''2''], Select_From (Columns [''b'']) ''t'' (Some example_where)]"
    by (simp add: session_statements_def)
  obtain fs' s' where r: "run_commands Map.empty fresh_sql (map print_sql (session_statements ''t'' [''a'', ''b''] ?rows
      (Columns [''b'']) (Some example_where))) = Some (fs', s')"
    "\<exists>cs out. repl Map.empty fresh_sql (map print_sql (session_statements ''t'' [''a'', ''b''] ?rows
      (Columns [''b'']) (Some example_where)) @ [''end'']) = Some (cs, out, s') \<and> run cs Map.empty = fs'"
    "distinct (tb_recordIndices (sq_table s'))" "set (tb_recordIndices (sq_table s')) = {0, 2}"
    "tb_fieldNames (sq_table s') = filter (\<lambda>f. f \<in> set (chosen_columns [''a'', ''b''] (Columns [''b'']))) [''a'', ''b'']"
    using sql_session [OF fresh names rows stmt cols example_condition, of fresh_sql] unfolding chosen by blast
  have "tb_fieldNames (sq_table s') = [''b'']" using r(5) by simp
  then show ?thesis using r(1-4) unfolding stmts by blast
qed

text \<open>
  C17. A command that ends in the error state, for an exception of its own or because
  a call failed: the system's answers to the calls are arbitrary, each may fail, a \<open>write\<close> may be cut short or
  interrupted, and the exception leaves the files as the calls before it made them. The result is the empty
  table. At most one database and its log have changed, and opening it finds the table that was there before:
  as it was, or with the row of the insertion (a commit whose last calls fail has happened, although the
  command reports an error); where there was no table, none or an empty new one with the fields of the
  command; or the opening reports corruption, a torn log, while the database file still is what recovery
  makes of the old one. An error of the command's own (the last part) comes before any call but those of one
  completed recovery, and then the opening finds exactly what it found before. The logs that are pending at the
  start are assumed to be those of stopped commits, and at the end they are again, so that the next command
  can be given on the files left behind.
\<close>

theorem failed_command_keeps_tables:
  assumes "\<forall>n. log_of_commit fs (database_path n)"
    and "command_answered answers fs s cmd = Some (fs', Some s')" and "sq_error s'"
  shows "sq_table s' = empty_table \<and> (\<forall>n. log_of_commit fs' (database_path n)) \<and>
    (\<exists>n p. p = database_path n \<and> (\<forall>q. q \<noteq> p \<longrightarrow> q \<noteq> wal_path p \<longrightarrow> fs' q = fs q) \<and>
      (case snd (open_table fs p) of
         Inr t \<Rightarrow>
           (case snd (open_table fs' p) of
              Inr u \<Rightarrow> u = t \<or>
                lt_fields u = lt_fields t \<and> lt_rows u = lt_rows t @ [texts_at ''values'' (sq_ptree s')]
            | Inl e \<Rightarrow> is_corruption e \<and> fs' p = run (fst (recover fs p)) fs p)
       | Inl e \<Rightarrow>
           (case snd (open_table fs' p) of
              Inr u \<Rightarrow> fs p = None \<and> lt_fields u = texts_at ''fields'' (sq_ptree s') \<and> lt_rows u = []
            | Inl e' \<Rightarrow> (e' = e \<or> is_corruption e') \<and> fs' p = fs p)) \<and>
      (\<forall>cs s1. command fs s cmd = Some (cs, s1) \<and> sq_error s1 \<longrightarrow>
         (cs = [] \<or> snd (recover fs p) = Inr () \<and> cs = fst (recover fs p)) \<and>
         snd (open_table fs' p) = snd (open_table fs p)))"
proof -
  obtain n where n: "sq_table s' = empty_table" "\<forall>n. log_of_commit fs' (database_path n)"
    "kept fs (database_path n) (texts_at ''fields'' (sq_ptree s')) (texts_at ''values'' (sq_ptree s')) fs'"
    "\<forall>cs s1. command fs s cmd = Some (cs, s1) \<and> sq_error s1 \<longrightarrow>
       recovery_calls fs (database_path n) cs \<and> same_table fs (database_path n) fs'"
    using stopped_command [OF assms] by (elim conjE exE)
  show ?thesis
    by (intro conjI n(1,2) exI [of _ n] exI [of _ "database_path n"] refl)
      (use n(3,4) in \<open>simp_all add: kept_def others_same_def recovery_calls_def same_table_def\<close>)
qed

text \<open>Instances: the log of a new table is written, but its \<open>fsync\<close> fails; and a text that is no statement.\<close>

theorem failed_command_keeps_tables_witness:
  "\<exists>fs' s' p. command_answered [Answered [], Answered [Written SSIZE_MAX], Answered [], Throws (Runtime_Error ''EIO'')]
       Map.empty fresh_sql (print_sql (Create_Table ''t'' [''a''])) = Some (fs', Some s') \<and>
     sq_error s' \<and> sq_last_error s' = ''EIO'' \<and> sq_table s' = empty_table \<and>
     wal_pending fs' (database_path ''t'') \<and> log_of_commit fs' (database_path ''t'') \<and>
     (case snd (open_table fs' p) of
        Inr u \<Rightarrow> lt_fields u = [''a''] \<and> lt_rows u = [] | Inl e' \<Rightarrow> fs' p = None)"
proof -
  let ?p = "database_path ''t''" and ?cmd = "print_sql (Create_Table ''t'' [''a''])"
  let ?as = "[Answered [], Answered [Written SSIZE_MAX], Answered [], Throws (Runtime_Error ''EIO'')]"
  have names: "is_identifier ''t''" "\<forall>f \<in> set [''a'']. is_identifier f" "[''a''] \<noteq> []"
    by (simp_all add: is_identifier_def isalpha_def isalnum_def)
  have ok: "fields_ok [''a'']" by (simp add: fields_ok_def MAX_FIELDS_def MAX_VALUE_LENGTH_def)
  obtain tb rec rest where c: "Table_create Map.empty ''t'' [''a''] =
      (Open_Truncate (wal_path ?p) # Write (wal_path ?p) 0 rec # Crash_Point ''wal-write'' #
        Fsync (wal_path ?p) # rest, Inr tb)" "0 < length rec" "length rec \<le> SSIZE_MAX"
    by (rule create_calls [of Map.empty "''t''" "[''a'']"]) (simp_all add: file_exists_def wal_pending_def ok)
  then have "execute Map.empty (statement_tree (Create_Table ''t'' [''a''])) =
      Some (fst (Table_create Map.empty ''t'' [''a'']), Inr tb)"
    using names by (simp add: execute_def execute_create_def)
  from command_printed [OF _ statement_printable(1) this, of fresh_sql] names
  obtain ps' where cmd: "command Map.empty fresh_sql ?cmd =
      Some (fst (Table_create Map.empty ''t'' [''a'']), finish (fresh_sql\<lparr>sq_parser := ps',
        sq_ptree := statement_tree (Create_Table ''t'' [''a''])\<rparr>) (Inr tb))"
    by (auto simp: identifier_printable)
  let ?fs' = "Map.empty(wal_path ?p \<mapsto> rec)"
  let ?s' = "finish (finish (fresh_sql\<lparr>sq_parser := ps',
    sq_ptree := statement_tree (Create_Table ''t'' [''a''])\<rparr>) (Inr tb)) (Inl (Runtime_Error ''EIO''))"
  have w: "write_at 0 rec [] = rec" by (simp add: write_at_def)
  have run: "command_answered ?as Map.empty fresh_sql ?cmd = Some (?fs', Some ?s')"
    using c by (simp add: command_answered_def cmd issue_call_def write_all_once w)
  have err: "sq_error ?s'" "sq_last_error ?s' = ''EIO''" by (simp_all add: finish_def)
  have texts: "texts_at ''fields'' (sq_ptree ?s') = [''a'']" by (simp add: finish_def)
  have logs: "\<forall>n. log_of_commit Map.empty (database_path n)" by (simp add: log_of_commit_def wal_pending_def)
  have old: "snd (open_table Map.empty q) = Inl (Runtime_Error (''Table does not exist: '' @ q))" for q
    by (simp add: open_table_quiet wal_pending_def load_table_def read_file_def)
  note kept = failed_command_keeps_tables [OF logs run err(1), unfolded old texts sum.case]
  have table: "sq_table ?s' = empty_table" and log: "log_of_commit ?fs' ?p" using kept by blast+
  from kept obtain p where "case snd (open_table ?fs' p) of
      Inr u \<Rightarrow> Map.empty p = (None :: bytes option) \<and> lt_fields u = [''a''] \<and> lt_rows u = []
    | Inl e' \<Rightarrow> (e' = Runtime_Error (''Table does not exist: '' @ p) \<or> is_corruption e') \<and> ?fs' p = Map.empty p"
    by (elim conjE exE) (rule that)
  then have p: "case snd (open_table ?fs' p) of
      Inr u \<Rightarrow> lt_fields u = [''a''] \<and> lt_rows u = [] | Inl e' \<Rightarrow> ?fs' p = None"
    by (cases "snd (open_table ?fs' p)") auto
  have "wal_pending ?fs' ?p" using c(2) by (simp add: wal_pending_def)
  then show ?thesis using run err table log p by (intro exI conjI)
qed

text \<open>
  C40. The interactive loop returns only when an input line reads \<open>end\<close>. When the
  standard input ends without one, \<open>getline\<close> fails, the line stays empty and the loop goes on for ever.
\<close>

theorem end_of_input_hangs:
  "''end'' \<notin> set inputs \<Longrightarrow> repl fs s inputs = None"
  using repl_end by (cases "repl fs s inputs") auto

theorem end_of_input_hangs_witness: "repl Map.empty fresh_sql [''cls''] = None"
  by (rule end_of_input_hangs) simp

section \<open>Parsing\<close>

text \<open>
  C37. The table-driven scanner, with its loops and its back-up of a \<open>.\<close> that no digit
  follows, cuts off at every position exactly the lexeme that the direct definition \<open>lexeme_length\<close>
  describes: the longest run of letters and digits, a number with an optional fraction, a longest run of
  operators, or one other character.
\<close>

theorem tokenizer_longest_match:
  assumes "CHR 0x00 \<notin> set (tk_buffer s)" and "drop (tk_pos s) (tk_buffer s) = c # cs"
  shows "get_token 0 s =
    Some (SToken (take (lexeme_length c cs) (c # cs)) (char_kind c),
          s\<lparr>tk_pos := tk_pos s + lexeme_length c cs\<rparr>)"
  by (rule get_token_eq [OF assms])

theorem tokenizer_longest_match_witness:
  "get_token 0 (set_string ''12.x'') =
    Some (SToken ''12'' TOKEN_NUMBER, (set_string ''12.x'')\<lparr>tk_pos := 2\<rparr>)"
proof -
  have "char_kind CHR ''1'' = TOKEN_NUMBER" "lexeme_length CHR ''1'' ''2.x'' = 2"
    by code_simp+
  moreover have "CHR 0x00 \<notin> set (tk_buffer (set_string ''12.x''))"
    "drop (tk_pos (set_string ''12.x'')) (tk_buffer (set_string ''12.x'')) = CHR ''1'' # ''2.x''"
    by (simp_all add: set_string_def c_str_def)
  ultimately show ?thesis
    using tokenizer_longest_match [of "set_string ''12.x''" "CHR ''1''" "''2.x''"]
    by (simp add: set_string_def)
qed

text \<open>
  C38. The file tokenizer reads any file to its end, however many blocks it has: a loop over
  \<open>more\<close> returns, the tokens are those of the 199-byte blocks one after the other, the file is closed and the
  position, a 32-bit \<open>int\<close>, is the number of characters in the tokens modulo \<open>2\<^sup>3\<^sup>2\<close>, so that it is that
  number itself for less than \<open>2\<^sup>3\<^sup>1\<close> characters. Without NUL characters no character is lost, and a
  file that fits in one block gives the tokens of the string tokenizer.
\<close>

theorem file_tokenizer_blocks:
  "\<exists>f f'. FTokenizer (Some cs) = Some f \<and>
     read_tokens f = Some (concat (map block_tokens (blocks cs)), f') \<and>
     \<not> ft_more f' \<and> \<not> ft_open f' \<and>
     ft_pos f' = word_of_nat (length (concat (map st_text (concat (map block_tokens (blocks cs)))))) \<and>
     (length cs < 2 ^ 31 \<longrightarrow>
        sint (ft_pos f') = int (length (concat (map st_text (concat (map block_tokens (blocks cs))))))) \<and>
     (CHR 0x00 \<notin> set cs \<longrightarrow> concat (map st_text (concat (map block_tokens (blocks cs)))) = cs) \<and>
     (CHR 0x00 \<notin> set cs \<and> cs \<noteq> [] \<and> length cs < 199 \<longrightarrow> concat (map block_tokens (blocks cs)) = Tokenizer.lex cs)"
  using file_tokens [of cs] blocks_text [of cs] small_file [of cs] read_chars_le [of cs]
  by (auto simp: read_chars_text sint_word_of_nat)

theorem file_tokenizer_blocks_witness:
  "\<exists>f f'. FTokenizer (Some ''a<1'') = Some f \<and> read_tokens f = Some (Tokenizer.lex ''a<1'', f') \<and>
     concat (map st_text (Tokenizer.lex ''a<1'')) = ''a<1'' \<and> \<not> ft_more f' \<and> sint (ft_pos f') = 3"
proof -
  obtain f f' where "FTokenizer (Some ''a<1'') = Some f" "read_tokens f = Some (Tokenizer.lex ''a<1'', f')"
    "\<not> ft_more f'" "sint (ft_pos f') = int (length (concat (map st_text (Tokenizer.lex ''a<1''))))"
    "concat (map st_text (Tokenizer.lex ''a<1'')) = ''a<1''"
    using file_tokenizer_blocks [of "''a<1''"] by auto
  then show ?thesis by auto
qed

text \<open>
  C18. The language of the parser, for any text and a parser in any state. A text whose
  tokens are those of a complete statement of the grammar gives the tree of that statement. A text that spells
  none is rejected, with the empty tree, unless one of the tokens behind the first is \<open>create\<close>: the success
  flags of the state table lie in the column of \<open>create\<close>, so such a token never blocks the machine and the
  parser accepts texts outside the grammar (\<open>create table create\<close>, \<open>create_table_create\<close> below). Which of them,
  the last part says: acceptance (a tree that is not empty) depends on the token types alone, and a text with a
  \<open>create\<close> between \<open>xs\<close> and \<open>ys\<close> is accepted if \<open>xs\<close> is and \<open>create ys\<close> is, or if \<open>xs\<close> is not accepted but can
  be continued to an accepted text, and \<open>ys\<close> is empty or accepted.
\<close>

theorem parser_accepts_grammar:
  assumes "q = parser_set_string str ps"
  shows "(spells q stmt \<longrightarrow> (\<exists>ps'. parse_command str ps = Some (statement_tree stmt, ps'))) \<and>
    (CREATE \<notin> set (tl (ps_types q)) \<and> (\<nexists>stmt. spells q stmt) \<longrightarrow>
      (\<exists>ps'. parse_command str ps = Some (Map.empty, ps'))) \<and>
    (\<exists>t ps'. parse_command str ps = Some (t, ps') \<and> (t \<noteq> Map.empty \<longleftrightarrow> accepted (ps_types q))) \<and>
    (xs \<noteq> [] \<longrightarrow> accepted (xs @ CREATE # ys) =
      (if accepted xs then accepted (CREATE # ys)
       else (\<exists>zs. CREATE \<notin> set zs \<and> accepted (xs @ zs)) \<and> (ys = [] \<or> accepted ys)))"
  unfolding assms
  by (intro conjI impI parse_command_spelled parse_command_accepted create_restarts)
    (simp_all add: parse_command_rejected)

theorem parser_accepts_grammar_witness:
  "(\<exists>ps'. parse_command ''create table t fields a'' fresh_parser =
      Some ([''command'' \<mapsto> [''create''], ''table_name'' \<mapsto> [''t''], ''fields'' \<mapsto> [''a'']], ps')) \<and>
   (\<exists>ps'. parse_command ''create table'' fresh_parser = Some (Map.empty, ps')) \<and>
   accepted [CREATE, TABLE, CREATE]"
proof -
  let ?q = "parser_set_string ''create table t fields a'' fresh_parser"
  let ?r = "parser_set_string ''create table'' fresh_parser"
  have "scan False [] (Tokenizer.lex (c_str ''create table t fields a'')) =
      Some [(SToken ''create'' TOKEN_ALPHA, CREATE), (SToken ''table'' TOKEN_ALPHA, TABLE),
        (SToken ''t'' TOKEN_ALPHA, LITERAL), (SToken ''fields'' TOKEN_ALPHA, FIELDS), (SToken ''a'' TOKEN_ALPHA, LITERAL)]"
    by code_simp
  then have q: "ps_types ?q = [CREATE, TABLE, LITERAL, FIELDS, LITERAL]" "spells ?q (Create_Table ''t'' [''a''])"
    using parser_set_string_scan [of "''create table t fields a''" fresh_parser]
    by (simp_all add: spells_def lexeme_def SToken_def)
  have "scan False [] (Tokenizer.lex (c_str ''create table'')) =
      Some [(SToken ''create'' TOKEN_ALPHA, CREATE), (SToken ''table'' TOKEN_ALPHA, TABLE)]"
    by code_simp
  then have r: "ps_types ?r = [CREATE, TABLE]" "\<not> spells ?r stmt" for stmt
    using parser_set_string_scan [of "''create table''" fresh_parser]
    by (cases stmt; simp add: spells_def lexeme_def SToken_def)+
  have tree: "\<exists>ps'. parse_command ''create table t fields a'' fresh_parser =
      Some (statement_tree (Create_Table ''t'' [''a'']), ps')"
    using parser_accepts_grammar [OF refl, of "''create table t fields a''" fresh_parser "Create_Table ''t'' [''a'']"] q(2)
    by blast
  have rejected: "\<exists>ps'. parse_command ''create table'' fresh_parser = Some (Map.empty, ps')"
    using parser_accepts_grammar [OF refl, of "''create table''" fresh_parser] r by simp
  have tree_not_empty: "statement_tree (Create_Table ''t'' [''a'']) \<noteq> Map.empty"
    by (auto dest: fun_cong [of _ _ "''command''"])
  have "accepted ([CREATE, TABLE] @ [LITERAL, FIELDS, LITERAL])" "\<not> accepted [CREATE, TABLE]"
    using tree rejected parser_accepts_grammar [OF refl, of "''create table t fields a''" fresh_parser]
      parser_accepts_grammar [OF refl, of "''create table''" fresh_parser] q(1) r(1) tree_not_empty by auto
  then have "accepted ([CREATE, TABLE] @ [CREATE])"
    using parser_accepts_grammar [OF refl, of _ _ _ "[CREATE, TABLE]" "[]"]
    by (auto intro!: exI [of _ "[LITERAL, FIELDS, LITERAL]"])
  then show ?thesis using tree rejected by simp
qed

text \<open>
  C12. Printing a complete statement, with quotes around the literals that are not plain words,
  and parsing it with a parser in any state gives back its tree.
\<close>

theorem print_parse:
  assumes "complete stmt" "\<forall>l \<in> set (statement_lexemes stmt). printable l"
  shows "\<exists>ps'. parse_command (print_sql stmt) ps = Some (statement_tree stmt, ps')"
  by (rule parse_printed [OF assms])

theorem print_parse_witness:
  "\<exists>ps'. parse_command (print_sql (Insert_Into ''t'' [''Sammuel L.'', ''40''])) fresh_parser =
    Some (statement_tree (Insert_Into ''t'' [''Sammuel L.'', ''40'']), ps')"
  by (rule print_parse) (simp_all add: comma_tail_def printable_def lexeme_ok_def)

text \<open>
  The success flags of the state table are kept in column 0, which is the column of
  \<open>CREATE\<close>. So \<open>create table create\<close> is accepted, with an empty list of table names, whose
  first element \<open>SQL::command\<close> then reads.
\<close>

theorem create_table_create:
  "map_option (\<lambda>(t, _). (t ''command'', t ''table_name'')) (parse_command ''create table create'' ps) =
     Some (Some [''create''], Some []) \<and>
   command fs s ''create table create'' = None"
proof -
  have p: "map_option (\<lambda>(t, _). (t ''command'', t ''table_name'')) (parse_command ''create table create'' ps) =
     Some (Some [''create''], Some [])" for ps by (rule create_column_accepts)
  obtain t ps' where "parse_command ''create table create'' (sq_parser s) = Some (t, ps')" "t ''table_name'' = Some []"
    "t ''command'' = Some [''create'']"
    using p [of "sq_parser s"] by auto
  then have "command fs s ''create table create'' = None"
    by (auto simp: command_def execute_def first_text_def texts_at_def mmap_at_def)
  then show ?thesis using p by blast
qed

section \<open>Conditions\<close>

text \<open>
  C13. The shunting yard turns an infix condition into the postfix form of its syntax
  tree: \<open>and\<close> binds tighter than \<open>or\<close>, both associate to the left, parentheses override.
\<close>

theorem shunting_yard_precedence:
  assumes "infix_disj e ts"
  shows "shunting_yard ts = (postfix e, False)"
  by (rule shunting_yard_infix [OF assms])

theorem shunting_yard_precedence_witness:
  "shunting_yard [TokenStr ''a'', Relational ''='', TokenStr ''1'', Logical ''or'', TokenStr ''b'', Relational ''<'',
      TokenStr ''2'', Logical ''and'', TokenStr ''c'', Relational ''>'', TokenStr ''3''] =
    (postfix (Or (Compare ''a'' ''='' ''1'') (And (Compare ''b'' ''<'' ''2'') (Compare ''c'' ''>'' ''3''))), False)"
proof -
  have "infix_disj (Or (Compare ''a'' ''='' ''1'') (And (Compare ''b'' ''<'' ''2'') (Compare ''c'' ''>'' ''3'')))
      ([TokenStr ''a'', Relational ''='', TokenStr ''1''] @ Logical ''or'' #
       [TokenStr ''b'', Relational ''<'', TokenStr ''2''] @ Logical ''and'' #
       [TokenStr ''c'', Relational ''>'', TokenStr ''3''])"
    by (intro disj_or disj_conj conj_and conj_atom atom_compare) (simp_all add: relational_precedence_def)
  from shunting_yard_precedence [OF this] show ?thesis by simp
qed

text \<open>
  C39. The error flag is set exactly for unbalanced parentheses; otherwise the output
  holds exactly the tokens of the input without the parentheses.
\<close>

theorem shunting_yard_parentheses:
  "(snd (shunting_yard queue) \<longleftrightarrow> \<not> balanced 0 queue) \<and>
   (if balanced 0 queue
    then mset (fst (shunting_yard queue)) = mset (filter (\<lambda>t. t \<noteq> LeftParen \<and> t \<noteq> RightParen) queue)
    else fst (shunting_yard queue) = [])"
  using yard_loop_facts [of "[]" "[]" queue]
  by (cases "yard_loop [] [] queue") (auto simp: shunting_yard_def split: if_splits)

section \<open>Record files\<close>

text \<open>
  C14. In a file of format v1 rows, record \<open>i\<close> reads back as row \<open>i\<close>, a read behind
  the last row returns 0 bytes, and writing a row appends it and returns its record number. The values
  hold at most 100 bytes and no zero byte.
\<close>

theorem record_file_roundtrip:
  assumes "\<forall>row \<in> set (rows @ [row]). length row = n \<and> (\<forall>s \<in> set row. slot_ok s)" and "0 < n"
  shows "write_record (row_file rows) row = (row_file (rows @ [row]), Inr (length rows)) \<and>
    (\<forall>i < length rows. read_record (row_file rows) n i = Inr (rows ! i, encoded_size n)) \<and>
    read_record (row_file rows) n (length rows) = Inr ([], 0)"
  using write_record_row [OF assms] read_record_row [of rows n] assms by (simp add: encoded_size_def)

theorem record_file_roundtrip_witness:
  "write_record (row_file [[''a'']]) [''bc''] = (row_file [[''a''], [''bc'']], Inr 1) \<and>
    read_record (row_file [[''a'']]) 1 0 = Inr ([''a''], encoded_size 1) \<and>
    read_record (row_file [[''a'']]) 1 1 = Inr ([], 0)"
  using record_file_roundtrip [of "[[''a'']]" "[''bc'']" 1] by (simp add: slot_ok_def SLOT_SIZE_def)

end
